(* ===== verification/Prelude.thy ===== *)
theory Prelude
  imports Main "HOL-Library.Word"
begin

unbundle bit_operations_syntax

text \<open>
  Shared vocabulary of the development: bytes and C strings, the functions of the C library
  that the sources call (ctype, \<open>strncasecmp\<close>, \<open>memcmp\<close>, \<open>strlen\<close>, \<open>strchr\<close>, \<open>atoi\<close>), the
  memory allocator as a sequence of answers, the buffer-doubling loop that three of the
  protocol parsers share, and the generic list lemmas the component theories use.

  A byte is a \<open>char\<close> (HOL's \<open>char\<close> has exactly 256 values); a C array or a
  pointer-and-length pair is a list of bytes.
\<close>

section \<open>Named collections\<close>

named_theorems ctype_simps \<open>definitions of the character classes\<close>
named_theorems alloc_simps \<open>facts on the allocator\<close>

section \<open>Bytes\<close>

type_synonym byte = char
type_synonym bytes = "char list"

abbreviation NUL :: byte where "NUL \<equiv> CHR 0x00"
abbreviation TAB :: byte where "TAB \<equiv> CHR 0x09"
abbreviation LF :: byte where "LF \<equiv> CHR 0x0A"
abbreviation CR :: byte where "CR \<equiv> CHR 0x0D"
abbreviation SP :: byte where "SP \<equiv> CHR 0x20"
abbreviation CRLF :: bytes where "CRLF \<equiv> [CR, LF]"

text \<open>The value of a byte read as \<open>unsigned char\<close>, and as \<open>signed char\<close> (plain \<open>char\<close> on
  the targets the build files name).\<close>

definition uchar :: "byte \<Rightarrow> nat" where
  "uchar c = of_char c"

definition schar :: "byte \<Rightarrow> int" where
  "schar c = (if uchar c < 128 then int (uchar c) else int (uchar c) - 256)"

lemma uchar_less [simp]: "uchar c < 256"
proof -
  have "of_char c \<in> {0::nat..<256}"
    using range_nat_of_char by blast
  then show ?thesis by (simp add: uchar_def)
qed

lemma uchar_inj [simp]: "uchar a = uchar b \<longleftrightarrow> a = b"
  by (simp add: uchar_def)

lemma schar_le_0_iff: "schar c \<le> 0 \<longleftrightarrow> uchar c = 0 \<or> 128 \<le> uchar c"
  using uchar_less [of c] by (auto simp: schar_def simp del: uchar_less)

section \<open>The ctype functions in the C locale\<close>

definition c_isdigit :: "byte \<Rightarrow> bool" where
  [ctype_simps]: "c_isdigit c \<longleftrightarrow> 48 \<le> uchar c \<and> uchar c \<le> 57"

definition c_isupper :: "byte \<Rightarrow> bool" where
  [ctype_simps]: "c_isupper c \<longleftrightarrow> 65 \<le> uchar c \<and> uchar c \<le> 90"

definition c_islower :: "byte \<Rightarrow> bool" where
  [ctype_simps]: "c_islower c \<longleftrightarrow> 97 \<le> uchar c \<and> uchar c \<le> 122"

definition c_isalpha :: "byte \<Rightarrow> bool" where
  [ctype_simps]: "c_isalpha c \<longleftrightarrow> c_isupper c \<or> c_islower c"

definition c_isspace :: "byte \<Rightarrow> bool" where
  [ctype_simps]: "c_isspace c \<longleftrightarrow> uchar c = 32 \<or> (9 \<le> uchar c \<and> uchar c \<le> 13)"

definition c_isprint :: "byte \<Rightarrow> bool" where
  [ctype_simps]: "c_isprint c \<longleftrightarrow> 32 \<le> uchar c \<and> uchar c \<le> 126"

definition c_tolower :: "byte \<Rightarrow> byte" where
  [ctype_simps]: "c_tolower c = (if c_isupper c then char_of (uchar c + 32) else c)"

definition c_toupper :: "byte \<Rightarrow> byte" where
  [ctype_simps]: "c_toupper c = (if c_islower c then char_of (uchar c - 32) else c)"

lemma uchar_char_of [simp]: "n < 256 \<Longrightarrow> uchar (char_of n) = n"
  by (simp add: uchar_def)

lemma c_tolower_idem [simp]: "c_tolower (c_tolower c) = c_tolower c"
  by (auto simp: ctype_simps)

lemma digit_not_space: "c_isdigit c \<Longrightarrow> \<not> c_isspace c"
  by (auto simp: ctype_simps)

lemma CR_not_digit [simp]: "\<not> c_isdigit CR" and LF_not_digit [simp]: "\<not> c_isdigit LF"
  by (simp_all add: ctype_simps uchar_def)

section \<open>C strings\<close>

text \<open>\<open>strlen\<close> and the string it delimits: the bytes before the first NUL.\<close>

definition c_str :: "bytes \<Rightarrow> bytes" where
  "c_str s = takeWhile (\<lambda>c. c \<noteq> NUL) s"

definition c_strlen :: "bytes \<Rightarrow> nat" where
  "c_strlen s = length (c_str s)"

lemma c_str_append_NUL [simp]: "NUL \<notin> set s \<Longrightarrow> c_str (s @ NUL # t) = s"
  unfolding c_str_def by (induction s) auto

lemma c_str_id [simp]: "NUL \<notin> set s \<Longrightarrow> c_str s = s"
  unfolding c_str_def by (auto simp: takeWhile_eq_all_conv)

lemma NUL_notin_c_str [simp]: "NUL \<notin> set (c_str s)"
  unfolding c_str_def by (auto dest: set_takeWhileD)

text \<open>\<open>strncasecmp (a, b, n) == 0\<close>. The end of a list stands for the terminating NUL.\<close>

fun strncaseeq :: "nat \<Rightarrow> bytes \<Rightarrow> bytes \<Rightarrow> bool" where
  "strncaseeq 0 a b = True"
| "strncaseeq (Suc n) [] [] = True"
| "strncaseeq (Suc n) (x # a) [] = (x = NUL)"
| "strncaseeq (Suc n) [] (y # b) = (y = NUL)"
| "strncaseeq (Suc n) (x # a) (y # b) =
     (c_tolower x = c_tolower y \<and> (x = NUL \<or> strncaseeq n a b))"

lemma strncaseeq_refl [simp]: "strncaseeq n a a"
proof (induction n arbitrary: a)
  case (Suc n)
  then show ?case by (cases a) auto
qed simp

lemma c_tolower_NUL_iff [simp]: "c_tolower x = NUL \<longleftrightarrow> x = NUL"
proof
  assume h: "c_tolower x = NUL"
  then have "uchar (c_tolower x) = 0" by (simp add: uchar_def)
  then have "uchar x = 0" by (auto simp: ctype_simps split: if_splits)
  then show "x = NUL" by (metis h c_tolower_def c_isupper_def not_numeral_le_zero)
qed (simp add: ctype_simps uchar_def)

lemma strncaseeq_iff:
  "NUL \<notin> set a \<Longrightarrow> NUL \<notin> set b \<Longrightarrow> length a = n \<Longrightarrow> length b = n \<Longrightarrow>
   strncaseeq n a b \<longleftrightarrow> map c_tolower a = map c_tolower b"
proof (induction n arbitrary: a b)
  case (Suc n)
  then show ?case by (cases a; cases b) auto
qed simp

text \<open>\<open>memcmp\<close> over the first \<open>n\<close> bytes, as the sign of its result.\<close>

fun c_memcmp :: "bytes \<Rightarrow> bytes \<Rightarrow> nat \<Rightarrow> int" where
  "c_memcmp (x # a) (y # b) (Suc n) =
     (if uchar x < uchar y then -1 else if uchar y < uchar x then 1 else c_memcmp a b n)"
| "c_memcmp _ _ _ = 0"

lemma c_memcmp_0_iff:
  "n \<le> length a \<Longrightarrow> n \<le> length b \<Longrightarrow> c_memcmp a b n = 0 \<longleftrightarrow> take n a = take n b"
proof (induction a b n rule: c_memcmp.induct)
  case (1 x a y b n)
  show ?case
  proof (cases "x = y")
    case True
    with 1 show ?thesis by simp
  next
    case False
    then have "uchar x < uchar y \<or> uchar y < uchar x"
      using uchar_inj [of x y] by linarith
    with False show ?thesis by auto
  qed
qed auto

section \<open>Decimal numbers\<close>

definition digit_val :: "byte \<Rightarrow> nat" where
  "digit_val c = uchar c - 48"

text \<open>The number that a run of leading digits denotes, with an accumulator.\<close>

fun digits_val :: "nat \<Rightarrow> bytes \<Rightarrow> nat" where
  "digits_val acc [] = acc"
| "digits_val acc (c # cs) =
     (if c_isdigit c then digits_val (10 * acc + digit_val c) cs else acc)"

text \<open>
  \<open>strtol (s, NULL, 10)\<close> before the conversion to the result type: white space is skipped,
  then an optional sign, then digits; 0 when there is none.
\<close>

definition c_strtol10 :: "bytes \<Rightarrow> int" where
  "c_strtol10 s =
     (case dropWhile c_isspace s of
        [] \<Rightarrow> 0
      | c # cs \<Rightarrow>
          if c = CHR ''-'' then - int (digits_val 0 cs)
          else if c = CHR ''+'' then int (digits_val 0 cs)
          else int (digits_val 0 (c # cs)))"

text \<open>
  Saturation of \<open>strtol\<close> to the range of a 64-bit \<open>long\<close> (also \<open>atoll\<close>), and \<open>atoi\<close>, which
  glibc defines as that value converted to a 32-bit \<open>int\<close>.
\<close>

definition clamp_long :: "int \<Rightarrow> int" where
  "clamp_long v = max (- (2 ^ 63)) (min (2 ^ 63 - 1) v)"

definition c_atoll :: "bytes \<Rightarrow> int" where
  "c_atoll s = clamp_long (c_strtol10 s)"

definition c_atoi :: "bytes \<Rightarrow> int" where
  "c_atoi s = sint (word_of_int (c_atoll s) :: 32 word)"

lemma digits_val_append_stop:
  "(ds = [] \<or> \<not> c_isdigit (hd ds)) \<Longrightarrow> digits_val acc (cs @ ds) = digits_val acc cs"
proof (induction cs arbitrary: acc)
  case Nil
  then show ?case by (cases ds) auto
qed auto

text \<open>The canonical decimal representation of a number.\<close>

fun dec_nat :: "nat \<Rightarrow> bytes" where
  "dec_nat n = (if n < 10 then [char_of (48 + n)] else dec_nat (n div 10) @ [char_of (48 + n mod 10)])"

declare dec_nat.simps [simp del]

lemma dec_nat_not_Nil [simp]: "dec_nat n \<noteq> []"
  by (subst dec_nat.simps) simp

lemma c_isdigit_char_of [simp]: "(n::nat) < 10 \<Longrightarrow> c_isdigit (char_of (48 + n))"
  by (simp add: c_isdigit_def)

lemma digit_val_char_of [simp]: "(n::nat) < 10 \<Longrightarrow> digit_val (char_of (48 + n)) = n"
  by (simp add: digit_val_def)

lemma set_dec_nat: "c \<in> set (dec_nat n) \<Longrightarrow> c_isdigit c"
proof (induction n rule: dec_nat.induct)
  case (1 n)
  show ?case
  proof (cases "n < 10")
    case True
    with "1.prems" show ?thesis by (subst (asm) dec_nat.simps) simp
  next
    case False
    with "1" show ?thesis by (subst (asm) (2) dec_nat.simps) auto
  qed
qed

lemma digits_val_append_digits:
  "(\<And>c. c \<in> set cs \<Longrightarrow> c_isdigit c) \<Longrightarrow> digits_val acc (cs @ ds) = digits_val (digits_val acc cs) ds"
  by (induction cs arbitrary: acc) auto

lemma digits_val_dec_nat [simp]: "digits_val 0 (dec_nat n) = n"
proof (induction n rule: dec_nat.induct)
  case (1 n)
  show ?case
  proof (cases "n < 10")
    case True
    then show ?thesis by (subst dec_nat.simps) simp
  next
    case False
    then have "digits_val 0 (dec_nat n)
        = digits_val (digits_val 0 (dec_nat (n div 10))) [char_of (48 + n mod 10)]"
      by (subst dec_nat.simps) (simp add: digits_val_append_digits set_dec_nat)
    with False "1.IH" show ?thesis by simp
  qed
qed

section \<open>The allocator\<close>

text \<open>
  \<open>malloc\<close>, \<open>calloc\<close>, \<open>realloc\<close> and \<open>strdup\<close> may fail at any call. The allocator is the
  sequence of its coming answers, consumed one per call; when the sequence is exhausted every
  further call succeeds, so \<open>[]\<close> is a machine that never runs out of memory and every finite
  pattern of failures is some list.
\<close>

type_synonym allocator = "bool list"

fun alloc :: "allocator \<Rightarrow> bool \<times> allocator" where
  "alloc [] = (True, [])"
| "alloc (b # bs) = (b, bs)"

section \<open>Doubling a buffer\<close>

text \<open>
  The loop \<open>while (new_size < need) new_size *= 2;\<close>. The callers start it at a positive
  size; the sizes are those of objects in memory, so the doubling does not wrap.
\<close>

function grow_size :: "nat \<Rightarrow> nat \<Rightarrow> nat" where
  "grow_size n need = (if 0 < n \<and> n < need then grow_size (2 * n) need else n)"
  by pat_completeness auto
termination
  by (relation "measure (\<lambda>(n, need). need - n)") auto

declare grow_size.simps [simp del]

lemma grow_size_ge: "0 < n \<Longrightarrow> need \<le> grow_size n need"
proof (induction n need rule: grow_size.induct)
  case (1 n need)
  then show ?case
    by (cases "n < need") (simp_all add: grow_size.simps [of n need])
qed

lemma grow_size_mono: "n \<le> grow_size n need"
proof (induction n need rule: grow_size.induct)
  case (1 n need)
  then show ?case
    by (cases "0 < n \<and> n < need") (auto simp: grow_size.simps [of n need])
qed

lemma grow_size_bound: "0 < n \<Longrightarrow> n < need \<Longrightarrow> grow_size n need < 2 * need"
proof (induction n need rule: grow_size.induct)
  case (1 n need)
  then show ?case
    by (cases "2 * n < need") (simp_all add: grow_size.simps [of n need] grow_size.simps [of "2 * n" need])
qed

section \<open>Lists\<close>

text \<open>Overwriting part of an array, as \<open>memcpy (base + off, src, length src)\<close> does inside it.\<close>

definition overwrite :: "'a list \<Rightarrow> nat \<Rightarrow> 'a list \<Rightarrow> 'a list" where
  "overwrite xs off src = take off xs @ src @ drop (off + length src) xs"

lemma length_overwrite [simp]: "off + length src \<le> length xs \<Longrightarrow> length (overwrite xs off src) = length xs"
  by (simp add: overwrite_def)

lemma take_overwrite [simp]:
  "off + length src \<le> length xs \<Longrightarrow> take (off + length src) (overwrite xs off src) = take off xs @ src"
  by (simp add: overwrite_def)

lemma nth_overwrite:
  "off + length src \<le> length xs \<Longrightarrow> i < length xs \<Longrightarrow>
   overwrite xs off src ! i = (if off \<le> i \<and> i < off + length src then src ! (i - off) else xs ! i)"
  by (auto simp: overwrite_def nth_append)

text \<open>The first position of a list at which a predicate holds.\<close>

fun find_idx :: "('a \<Rightarrow> bool) \<Rightarrow> 'a list \<Rightarrow> nat option" where
  "find_idx P [] = None"
| "find_idx P (x # xs) = (if P x then Some 0 else map_option Suc (find_idx P xs))"

lemma find_idx_Some_iff:
  "find_idx P xs = Some i \<longleftrightarrow> i < length xs \<and> P (xs ! i) \<and> (\<forall>j < i. \<not> P (xs ! j))"
proof (induction xs arbitrary: i)
  case (Cons x xs)
  then show ?case
    by (cases i) (auto simp: less_Suc_eq_0_disj)
qed simp

lemma find_idx_None_iff: "find_idx P xs = None \<longleftrightarrow> (\<forall>x \<in> set xs. \<not> P x)"
  by (induction xs) auto

lemma find_idx_take:
  "find_idx P (take k xs) = (case find_idx P xs of Some i \<Rightarrow> if i < k then Some i else None | None \<Rightarrow> None)"
proof (induction xs arbitrary: k)
  case (Cons x xs)
  then show ?case by (cases k) (auto split: option.splits)
qed simp

lemma find_idx_append:
  "find_idx P (xs @ ys) = (case find_idx P xs of Some i \<Rightarrow> Some i | None \<Rightarrow> map_option ((+) (length xs)) (find_idx P ys))"
  by (cases "find_idx P ys"; induction xs) (auto split: option.splits)

lemma find_idx_less: "find_idx P xs = Some i \<Longrightarrow> i < length xs"
  by (simp add: find_idx_Some_iff)

end
