(* ===== verification/Crc16.thy ===== *)
theory Crc16
  imports Prelude
begin

unbundle bit_operations_syntax

text \<open>
  The key hashing of Redis Cluster: \<open>crc16.c\<close> and \<open>keyHashSlot\<close> of \<open>hircluster.c\<close>
  (src/libredis/hiredis). The table-driven checksum is proved equal to the bit-by-bit division
  by the CCITT polynomial that the comment in the source describes, and the slot function is
  proved to stay inside the 16384 slots and to depend on the hash tag of a key only.
\<close>

section \<open>crc16.c\<close>

definition crc16tab :: "16 word list" where
  "crc16tab =
    [
     0x0000, 0x1021, 0x2042, 0x3063, 0x4084, 0x50a5, 0x60c6, 0x70e7,
     0x8108, 0x9129, 0xa14a, 0xb16b, 0xc18c, 0xd1ad, 0xe1ce, 0xf1ef,
     0x1231, 0x0210, 0x3273, 0x2252, 0x52b5, 0x4294, 0x72f7, 0x62d6,
     0x9339, 0x8318, 0xb37b, 0xa35a, 0xd3bd, 0xc39c, 0xf3ff, 0xe3de,
     0x2462, 0x3443, 0x0420, 0x1401, 0x64e6, 0x74c7, 0x44a4, 0x5485,
     0xa56a, 0xb54b, 0x8528, 0x9509, 0xe5ee, 0xf5cf, 0xc5ac, 0xd58d,
     0x3653, 0x2672, 0x1611, 0x0630, 0x76d7, 0x66f6, 0x5695, 0x46b4,
     0xb75b, 0xa77a, 0x9719, 0x8738, 0xf7df, 0xe7fe, 0xd79d, 0xc7bc,
     0x48c4, 0x58e5, 0x6886, 0x78a7, 0x0840, 0x1861, 0x2802, 0x3823,
     0xc9cc, 0xd9ed, 0xe98e, 0xf9af, 0x8948, 0x9969, 0xa90a, 0xb92b,
     0x5af5, 0x4ad4, 0x7ab7, 0x6a96, 0x1a71, 0x0a50, 0x3a33, 0x2a12,
     0xdbfd, 0xcbdc, 0xfbbf, 0xeb9e, 0x9b79, 0x8b58, 0xbb3b, 0xab1a,
     0x6ca6, 0x7c87, 0x4ce4, 0x5cc5, 0x2c22, 0x3c03, 0x0c60, 0x1c41,
     0xedae, 0xfd8f, 0xcdec, 0xddcd, 0xad2a, 0xbd0b, 0x8d68, 0x9d49,
     0x7e97, 0x6eb6, 0x5ed5, 0x4ef4, 0x3e13, 0x2e32, 0x1e51, 0x0e70,
     0xff9f, 0xefbe, 0xdfdd, 0xcffc, 0xbf1b, 0xaf3a, 0x9f59, 0x8f78,
     0x9188, 0x81a9, 0xb1ca, 0xa1eb, 0xd10c, 0xc12d, 0xf14e, 0xe16f,
     0x1080, 0x00a1, 0x30c2, 0x20e3, 0x5004, 0x4025, 0x7046, 0x6067,
     0x83b9, 0x9398, 0xa3fb, 0xb3da, 0xc33d, 0xd31c, 0xe37f, 0xf35e,
     0x02b1, 0x1290, 0x22f3, 0x32d2, 0x4235, 0x5214, 0x6277, 0x7256,
     0xb5ea, 0xa5cb, 0x95a8, 0x8589, 0xf56e, 0xe54f, 0xd52c, 0xc50d,
     0x34e2, 0x24c3, 0x14a0, 0x0481, 0x7466, 0x6447, 0x5424, 0x4405,
     0xa7db, 0xb7fa, 0x8799, 0x97b8, 0xe75f, 0xf77e, 0xc71d, 0xd73c,
     0x26d3, 0x36f2, 0x0691, 0x16b0, 0x6657, 0x7676, 0x4615, 0x5634,
     0xd94c, 0xc96d, 0xf90e, 0xe92f, 0x99c8, 0x89e9, 0xb98a, 0xa9ab,
     0x5844, 0x4865, 0x7806, 0x6827, 0x18c0, 0x08e1, 0x3882, 0x28a3,
     0xcb7d, 0xdb5c, 0xeb3f, 0xfb1e, 0x8bf9, 0x9bd8, 0xabbb, 0xbb9a,
     0x4a75, 0x5a54, 0x6a37, 0x7a16, 0x0af1, 0x1ad0, 0x2ab3, 0x3a92,
     0xfd2e, 0xed0f, 0xdd6c, 0xcd4d, 0xbdaa, 0xad8b, 0x9de8, 0x8dc9,
     0x7c26, 0x6c07, 0x5c64, 0x4c45, 0x3ca2, 0x2c83, 0x1ce0, 0x0cc1,
     0xef1f, 0xff3e, 0xcf5d, 0xdf7c, 0xaf9b, 0xbfba, 0x8fd9, 0x9ff8,
     0x6e17, 0x7e36, 0x4e55, 0x5e74, 0x2e93, 0x3eb2, 0x0ed1, 0x1ef0]"

text \<open>
  One round of the loop. The operands are promoted to \<open>int\<close>: \<open>crc\<close> is zero-extended and the
  plain \<open>char\<close> read from the buffer is sign-extended; the result is truncated to
  \<open>uint16_t\<close>.
\<close>

definition crc16_step :: "16 word \<Rightarrow> byte \<Rightarrow> 16 word" where
  "crc16_step crc c =
     ucast (push_bit 8 (ucast crc :: 32 word) XOR
            ucast (crc16tab ! unat ((drop_bit 8 (ucast crc :: 32 word) XOR word_of_int (schar c)) AND 0x00FF)))"

fun crc16_loop :: "16 word \<Rightarrow> bytes \<Rightarrow> 16 word" where
  "crc16_loop crc [] = crc"
| "crc16_loop crc (c # buf) = crc16_loop (crc16_step crc c) buf"

text \<open>\<open>crc16 (buf, len)\<close>: the list is the \<open>len\<close> bytes at \<open>buf\<close>.\<close>

definition crc16 :: "bytes \<Rightarrow> 16 word" where
  "crc16 buf = crc16_loop 0 buf"

section \<open>keyHashSlot\<close>

text \<open>The searches for the braces return the length of the key when they fail, as the loops
  that leave \<open>s\<close> or \<open>e\<close> at \<open>keylen\<close> do.\<close>

definition find_from :: "byte \<Rightarrow> nat \<Rightarrow> bytes \<Rightarrow> nat" where
  "find_from b i key =
     (case find_idx (\<lambda>c. c = b) (drop i key) of None \<Rightarrow> max i (length key) | Some k \<Rightarrow> i + k)"

definition keyHashSlot :: "bytes \<Rightarrow> 32 word" where
  "keyHashSlot key =
     (let keylen = length key; s = find_from (CHR ''{'') 0 key in
      if s = keylen then ucast (crc16 key) AND 0x3FFF
      else let e = find_from (CHR ''}'') (s + 1) key in
        if e = keylen \<or> e = s + 1 then ucast (crc16 key) AND 0x3FFF
        else ucast (crc16 (take (e - s - 1) (drop (s + 1) key))) AND 0x3FFF)"

section \<open>The checksum as polynomial division\<close>

text \<open>
  Reference: width 16, polynomial 0x1021, initial value 0, no reflection. One bit of the message
  shifts the remainder left and subtracts the polynomial when a one leaves the register.
\<close>

definition crc16_bit :: "16 word \<Rightarrow> 16 word" where
  "crc16_bit r = (if bit r 15 then push_bit 1 r XOR 0x1021 else push_bit 1 r)"

definition crc16_byte :: "16 word \<Rightarrow> byte \<Rightarrow> 16 word" where
  "crc16_byte r c = (crc16_bit ^^ 8) (r XOR push_bit 8 (word_of_nat (uchar c)))"

definition crc16_ref :: "bytes \<Rightarrow> 16 word" where
  "crc16_ref buf = foldl crc16_byte 0 buf"

text \<open>The division is linear over exclusive or.\<close>

lemma crc16_bit_xor: "crc16_bit (x XOR y) = crc16_bit x XOR crc16_bit y"
  by (simp add: crc16_bit_def push_bit_xor bit_xor_iff ac_simps)

lemma crc16_bits_xor: "(crc16_bit ^^ k) (x XOR y) = (crc16_bit ^^ k) x XOR (crc16_bit ^^ k) y"
  by (induction k) (simp_all add: crc16_bit_xor)

lemma crc16_bit_top_clear: "\<not> bit r 15 \<Longrightarrow> crc16_bit r = push_bit 1 r"
  by (simp add: crc16_bit_def)

lemma crc16_bits_low:
  fixes r :: "16 word"
  assumes "r AND 0xFF = r" and "k \<le> 8"
  shows "(crc16_bit ^^ k) r = push_bit k r"
  using assms(2)
proof (induction k)
  case (Suc k)
  have "\<not> bit r (15 - k)"
  proof -
    have "bit r (15 - k) = bit (r AND 0xFF) (15 - k)" using assms(1) by simp
    also have "\<dots> = (bit r (15 - k) \<and> bit (mask 8 :: 16 word) (15 - k))"
      by (simp add: bit_and_iff mask_eq_exp_minus_1)
    also have "\<dots> = False" using Suc.prems by (auto simp: bit_mask_iff)
    finally show ?thesis by simp
  qed
  then have "\<not> bit (push_bit k r) 15"
    using Suc.prems by (simp add: bit_push_bit_iff)
  with Suc show ?case
    by (simp add: crc16_bit_top_clear push_bit_push_bit)
qed simp

text \<open>The remainders of consecutive indices, and the same recurrence in the table.\<close>

definition crc16_entry :: "nat \<Rightarrow> 16 word" where
  "crc16_entry i = (crc16_bit ^^ 8) (push_bit 8 (word_of_nat i))"

lemma crc16_bit_numeral:
  "crc16_bit r = (if r AND 0x8000 = 0 then 2 * r else 2 * r XOR 0x1021)"
proof -
  have "bit r 15 \<longleftrightarrow> r AND 2 ^ 15 \<noteq> 0"
    by (simp add: bit_iff_and_push_bit_not_eq_0 push_bit_eq_mult)
  then show ?thesis by (simp add: crc16_bit_def push_bit_eq_mult mult.commute)
qed

lemma crc16_entry_0: "crc16_entry 0 = 0"
  by (simp add: crc16_entry_def crc16_bits_low)

lemma crc16_entry_1: "crc16_entry 1 = 0x1021"
proof -
  have "(f ^^ 8) x = f (f (f (f (f (f (f (f x)))))))" for f and x :: "16 word"
    by (simp add: numeral_eq_Suc)
  then show ?thesis by (simp add: crc16_entry_def crc16_bit_numeral push_bit_eq_mult)
qed

lemma crc16_entry_even:
  assumes "i < 128"
  shows "crc16_entry (2 * i) = crc16_bit (crc16_entry i)"
proof -
  let ?w = "push_bit 8 (word_of_nat i) :: 16 word"
  have "\<not> bit ?w 15"
    using assms by (simp add: bit_push_bit_iff bit_of_nat_iff bit_iff_odd [of i])
  then have "push_bit 8 (word_of_nat (2 * i)) = crc16_bit ?w"
    by (simp add: crc16_bit_top_clear push_bit_eq_mult ac_simps)
  then show ?thesis
    unfolding crc16_entry_def by (simp only: funpow_swap1)
qed

lemma crc16_entry_odd:
  "crc16_entry (2 * i + 1) = crc16_entry (2 * i) XOR 0x1021"
proof -
  have "(word_of_nat (2 * i + 1) :: 16 word) = word_of_nat (2 * i) XOR 1"
    by (simp add: xor_one_eq)
  then have "crc16_entry (2 * i + 1) = crc16_entry (2 * i) XOR crc16_entry 1"
    unfolding crc16_entry_def by (simp only: push_bit_xor crc16_bits_xor of_nat_1)
  then show ?thesis by (simp only: crc16_entry_1)
qed

fun pairs :: "'a list \<Rightarrow> ('a \<times> 'a) list" where
  "pairs (x # y # xs) = (x, y) # pairs xs"
| "pairs _ = []"

lemma length_pairs [simp]: "length (pairs xs) = length xs div 2"
  by (induction xs rule: pairs.induct) auto

lemma nth_pairs: "2 * i + 1 < length xs \<Longrightarrow> pairs xs ! i = (xs ! (2 * i), xs ! (2 * i + 1))"
proof (induction xs arbitrary: i rule: pairs.induct)
  case (1 x y xs)
  then show ?case by (cases i) auto
qed auto

lemma length_crc16tab [simp]: "length crc16tab = 256"
  by (simp add: crc16tab_def)

lemma crc16tab_recurrence:
  "list_all2 (\<lambda>a (x, y). x = crc16_bit a \<and> y = crc16_bit a XOR 0x1021)
     (take 128 crc16tab) (pairs crc16tab)"
  by (simp add: crc16tab_def crc16_bit_numeral)

lemma crc16tab_nth_pair:
  assumes "i < 128"
  shows "crc16tab ! (2 * i) = crc16_bit (crc16tab ! i)"
    and "crc16tab ! (2 * i + 1) = crc16_bit (crc16tab ! i) XOR 0x1021"
  using list_all2_nthD [OF crc16tab_recurrence, of i] assms
  by (simp_all add: nth_pairs)

lemma crc16tab_nth: "i < 256 \<Longrightarrow> crc16tab ! i = crc16_entry i"
proof (induction i rule: less_induct)
  case (less i)
  show ?case
  proof (cases "i = 0")
    case True
    then show ?thesis by (simp add: crc16_entry_0) (simp add: crc16tab_def)
  next
    case False
    define j where "j = i div 2"
    have j: "j < i" "j < 128" using False less.prems by (auto simp: j_def)
    then have IH: "crc16tab ! j = crc16_entry j" using less.IH by simp
    show ?thesis
    proof (cases "even i")
      case True
      then have "i = 2 * j" by (simp add: j_def)
      with j IH show ?thesis by (simp add: crc16tab_nth_pair crc16_entry_even)
    next
      case False
      then have "i = 2 * j + 1" by (simp add: j_def)
      with j IH show ?thesis
        using crc16tab_nth_pair(2) [of j] crc16_entry_odd [of j] by (simp add: crc16_entry_even)
    qed
  qed
qed

text \<open>The index the code computes is the top byte of the register combined with the input.\<close>

lemma bit_schar: "n < 8 \<Longrightarrow> bit (schar c) n = bit (uchar c) n"
proof -
  assume "n < 8"
  have "schar c mod 256 = int (uchar c)"
  proof (cases "uchar c < 128")
    case True
    then show ?thesis by (simp add: schar_def)
  next
    case False
    then have "schar c mod 256 = (int (uchar c) - 256 + 256) mod 256"
      by (simp add: schar_def)
    also have "\<dots> = int (uchar c)"
      using uchar_less [of c] by (simp del: uchar_less)
    finally show ?thesis .
  qed
  then have "take_bit 8 (schar c) = int (uchar c)"
    by (simp add: take_bit_eq_mod)
  then have "bit (schar c) n = bit (int (uchar c)) n"
    using \<open>n < 8\<close> by (metis bit_take_bit_iff)
  then show ?thesis by (simp add: bit_of_nat_iff_bit)
qed

lemma bit_uchar_less: "bit (uchar c) n \<Longrightarrow> n < 8"
proof (rule ccontr)
  assume "bit (uchar c) n" and "\<not> n < 8"
  then have "(2::nat) ^ 8 \<le> 2 ^ n" by (intro power_increasing) auto
  then have "256 \<le> (2::nat) ^ n" by simp
  with uchar_less have "uchar c < 2 ^ n" by (rule less_le_trans)
  then have "uchar c div 2 ^ n = 0" by (rule div_less)
  with \<open>bit (uchar c) n\<close> show False by (simp add: bit_iff_odd)
qed

lemma mask_255: "(255 :: 16 word) = mask 8" "(255 :: 32 word) = mask 8"
  by (simp_all add: mask_eq_exp_minus_1)

lemma bit_drop8_less: "bit (crc :: 16 word) (8 + n) \<Longrightarrow> n < 8"
  by (drule bit_imp_le_length) simp

lemma crc16_index:
  "((drop_bit 8 (ucast crc :: 32 word) XOR word_of_int (schar c)) AND 0x00FF)
   = ucast (drop_bit 8 (crc :: 16 word) XOR word_of_nat (uchar c))"
proof (rule bit_word_eqI)
  fix n
  assume "n < LENGTH(32)"
  then show "bit ((drop_bit 8 (ucast crc :: 32 word) XOR word_of_int (schar c)) AND 0x00FF) n
      = bit (ucast (drop_bit 8 crc XOR word_of_nat (uchar c)) :: 32 word) n"
    using bit_uchar_less [of c n] bit_drop8_less [of crc n] bit_schar [of n c]
    unfolding mask_255 by (cases "n < 8") (auto simp: bit_simps)
qed

lemma crc16_index_less: "unat (drop_bit 8 (crc :: 16 word) XOR word_of_nat (uchar c)) < 256"
proof -
  let ?w = "drop_bit 8 crc XOR word_of_nat (uchar c)"
  have "?w = take_bit 8 ?w"
    by (rule bit_word_eqI) (auto simp: bit_simps dest: bit_uchar_less bit_drop8_less)
  then have "unat ?w = take_bit 8 (unat ?w)" by (metis unsigned_take_bit_eq)
  also have "\<dots> < 2 ^ 8" by (rule take_bit_nat_less_exp)
  finally show ?thesis by simp
qed

lemma crc16_split:
  "(crc :: 16 word) XOR push_bit 8 (word_of_nat (uchar c))
   = push_bit 8 (drop_bit 8 crc XOR word_of_nat (uchar c)) XOR (crc AND 0xFF)"
  unfolding mask_255 by (rule bit_word_eqI) (auto simp: bit_simps)

lemma crc16_step_eq: "crc16_step crc c = crc16_byte crc c"
proof -
  let ?i = "drop_bit 8 crc XOR word_of_nat (uchar c)"
  let ?low = "crc AND 0xFF"
  have i: "unat ?i < 256" by (rule crc16_index_less)
  have "crc16_byte crc c = (crc16_bit ^^ 8) (push_bit 8 ?i) XOR (crc16_bit ^^ 8) ?low"
    by (simp only: crc16_byte_def crc16_split crc16_bits_xor)
  also have "(crc16_bit ^^ 8) ?low = push_bit 8 ?low"
    by (rule crc16_bits_low) (simp_all add: and.assoc)
  also have "push_bit 8 ?low = push_bit 8 crc"
    by (rule bit_word_eqI) (simp only: mask_255, auto simp: bit_simps)
  also have "(crc16_bit ^^ 8) (push_bit 8 ?i) = crc16tab ! unat ?i"
    using i by (simp add: crc16tab_nth crc16_entry_def)
  finally have eq: "crc16_byte crc c = push_bit 8 crc XOR crc16tab ! unat ?i"
    by (simp only: xor.commute)
  have idx: "unat (ucast ?i :: 32 word) = unat ?i"
    by (simp add: unsigned_ucast_eq take_bit_nat_eq_self order.strict_trans [OF i])
  have "crc16_step crc c = ucast (push_bit 8 (ucast crc :: 32 word) XOR ucast (crc16tab ! unat ?i))"
    by (simp only: crc16_step_def crc16_index idx)
  also have "\<dots> = push_bit 8 crc XOR crc16tab ! unat ?i"
    by (rule bit_word_eqI) (auto simp: bit_simps)
  finally show ?thesis using eq by simp
qed

section \<open>Properties\<close>

lemma crc16_loop_eq: "crc16_loop crc buf = foldl crc16_byte crc buf"
  by (induction buf arbitrary: crc) (simp_all add: crc16_step_eq)

text \<open>C23: the table-driven \<open>crc16\<close> computes, for every byte string, the remainder of the
  bit-by-bit division by x^16 + x^12 + x^5 + 1 with initial value 0.\<close>

theorem crc16_is_division: "crc16 buf = crc16_ref buf"
  by (simp add: crc16_def crc16_ref_def crc16_loop_eq)

text \<open>The check value that the comment of the source gives for \<open>123456789\<close>.\<close>

lemma crc16_check_value: "crc16 ''123456789'' = 0x31C3"
  by (simp add: crc16_def crc16_step_def crc16tab_def schar_def uchar_def)

lemma and_3FFF_less: "unat ((w :: 32 word) AND 0x3FFF) < 16384"
proof -
  have "w AND 0x3FFF = take_bit 14 w"
    by (simp add: take_bit_eq_mask mask_eq_exp_minus_1)
  then have "unat (w AND 0x3FFF) = take_bit 14 (unat w)" by (metis unsigned_take_bit_eq)
  also have "\<dots> < 2 ^ 14" by (rule take_bit_nat_less_exp)
  finally show ?thesis by simp
qed

text \<open>every key, whatever its bytes, hashes into one of the 16384 cluster slots, so the
  range test of the callers never fails.\<close>

theorem keyHashSlot_range: "unat (keyHashSlot key) < 16384"
  by (simp add: keyHashSlot_def Let_def and_3FFF_less)

lemma find_idx_append_hit: "P x \<Longrightarrow> \<forall>y \<in> set a. \<not> P y \<Longrightarrow> find_idx P (a @ x # b) = Some (length a)"
  by (induction a) auto

lemma find_from_hit:
  "b \<notin> set t \<Longrightarrow> find_from b (length a) (a @ t @ b # r) = length a + length t"
proof -
  assume "b \<notin> set t"
  then have "\<forall>y \<in> set t. y \<noteq> b" by blast
  then show ?thesis
    using find_idx_append_hit [of "\<lambda>c. c = b" b t r] by (simp add: find_from_def)
qed

text \<open>a key with a non-empty hash tag (the bytes between its first opening brace and the
  next closing one) is placed by the checksum of the tag alone, so all keys with the same tag
  share a slot.\<close>

theorem keyHashSlot_tag:
  assumes "CHR ''{'' \<notin> set a" and "CHR ''}'' \<notin> set t" and "t \<noteq> []"
  shows "keyHashSlot (a @ CHR ''{'' # t @ CHR ''}'' # b) = ucast (crc16_ref t) AND 0x3FFF"
proof -
  let ?key = "a @ CHR ''{'' # t @ CHR ''}'' # b"
  have s: "find_from (CHR ''{'') 0 ?key = length a"
    using find_from_hit [of "CHR ''{''" a "[]" "t @ CHR ''}'' # b"] assms(1) by simp
  have e: "find_from (CHR ''}'') (Suc (length a)) ?key = Suc (length a + length t)"
    using find_from_hit [of "CHR ''}''" t "a @ [CHR ''{'']" b] assms(2) by simp
  show ?thesis
    using assms(3) by (simp add: keyHashSlot_def Let_def s e crc16_def crc16_loop_eq crc16_ref_def)
qed

theorem keyHashSlot_tag_witness:
  "keyHashSlot ''{user1000}.following'' = ucast (crc16_ref ''user1000'') AND 0x3FFF"
  using keyHashSlot_tag [of "[]" "''user1000''" "''.following''"] by simp

end
