(* ===== verification/Dict.thy ===== *)
theory Dict
  imports Prelude "HOL-Library.Multiset"
begin

unbundle bit_operations_syntax

text \<open>
  The hash table of \<open>dict.c\<close> (src/libredis/hiredis), with the two key types the client library
  instantiates it with: the callback tables of \<open>async.c\<close> and the node tables of
  \<open>hircluster.c\<close>.

  A chain of entries is a list of key-value pairs, the table a list of chains (the empty list
  for a \<open>NULL\<close> table). The \<open>unsigned long\<close> fields are natural numbers; the hash is a 32-bit
  word. The destructors only release memory and are not part of the state.
\<close>

section \<open>Data\<close>

datatype dict_ret = DICT_OK | DICT_ERR | DICT_ABORT \<comment> \<open>the \<open>assert\<close> of \<open>dictExpand\<close> failed\<close>

record ('k, 'v) dictType =
  hashFunction :: "'k \<Rightarrow> 32 word"
  keyDup :: "('k \<Rightarrow> allocator \<Rightarrow> 'k \<times> allocator) option"
  valDup :: "('v \<Rightarrow> allocator \<Rightarrow> 'v \<times> allocator) option"
  keyCompare :: "('k \<Rightarrow> 'k \<Rightarrow> bool) option"

type_synonym ('k, 'v) chain = "('k \<times> 'v) list"

record ('k, 'v) dict =
  ht_table :: "('k, 'v) chain list"
  ht_type :: "('k, 'v) dictType"
  ht_size :: nat
  ht_sizemask :: nat
  ht_used :: nat

abbreviation DICT_HT_INITIAL_SIZE :: nat where "DICT_HT_INITIAL_SIZE \<equiv> 4"
abbreviation LONG_MAX :: nat where "LONG_MAX \<equiv> 2 ^ 63 - 1"

section \<open>Operations\<close>

text \<open>The Bernstein hash; \<open>unsigned int\<close> arithmetic wraps.\<close>

fun dictGenHash_loop :: "32 word \<Rightarrow> bytes \<Rightarrow> 32 word" where
  "dictGenHash_loop hash [] = hash"
| "dictGenHash_loop hash (c # buf) =
     dictGenHash_loop ((push_bit 5 hash + hash) + word_of_nat (uchar c)) buf"

definition dictGenHashFunction :: "bytes \<Rightarrow> 32 word" where
  "dictGenHashFunction buf = dictGenHash_loop 5381 buf"

text \<open>The macros of \<open>dict.h\<close>.\<close>

definition dictCompareHashKeys :: "('k, 'v) dictType \<Rightarrow> 'k \<Rightarrow> 'k \<Rightarrow> bool" where
  "dictCompareHashKeys ty k1 k2 = (case keyCompare ty of None \<Rightarrow> k1 = k2 | Some cmp \<Rightarrow> cmp k1 k2)"

definition dictSetHashKey :: "('k, 'v) dictType \<Rightarrow> 'k \<Rightarrow> allocator \<Rightarrow> 'k \<times> allocator" where
  "dictSetHashKey ty k m = (case keyDup ty of None \<Rightarrow> (k, m) | Some dup \<Rightarrow> dup k m)"

definition dictSetHashVal :: "('k, 'v) dictType \<Rightarrow> 'v \<Rightarrow> allocator \<Rightarrow> 'v \<times> allocator" where
  "dictSetHashVal ty v m = (case valDup ty of None \<Rightarrow> (v, m) | Some dup \<Rightarrow> dup v m)"

text \<open>\<open>dictHashKey (ht, key) & sizemask\<close>.\<close>

definition dict_slot :: "('k, 'v) dictType \<Rightarrow> nat \<Rightarrow> 'k \<Rightarrow> nat" where
  "dict_slot ty sizemask k = unat (hashFunction ty k) AND sizemask"

definition dictReset :: "('k, 'v) dict \<Rightarrow> ('k, 'v) dict" where
  "dictReset ht = ht\<lparr>ht_table := [], ht_size := 0, ht_sizemask := 0, ht_used := 0\<rparr>"

definition dictInit :: "('k, 'v) dictType \<Rightarrow> ('k, 'v) dict" where
  "dictInit ty = \<lparr>ht_table = [], ht_type = ty, ht_size = 0, ht_sizemask = 0, ht_used = 0\<rparr>"

definition dictCreate :: "('k, 'v) dictType \<Rightarrow> allocator \<Rightarrow> ('k, 'v) dict option \<times> allocator" where
  "dictCreate ty m =
     (case alloc m of (False, m') \<Rightarrow> (None, m') | (True, m') \<Rightarrow> (Some (dictInit ty), m'))"

definition dictNextPower :: "nat \<Rightarrow> nat" where
  "dictNextPower sz = (if sz \<ge> LONG_MAX then LONG_MAX else grow_size DICT_HT_INITIAL_SIZE sz)"

text \<open>The two loops of \<open>dictExpand\<close>: the entries of one chain, then the slots while the old
  table still has entries. Both return the new table and what is left of \<open>ht->used\<close>.\<close>

fun rehash_chain :: "('k, 'v) dictType \<Rightarrow> nat \<Rightarrow> ('k, 'v) chain \<Rightarrow> ('k, 'v) chain list \<Rightarrow> nat
    \<Rightarrow> ('k, 'v) chain list \<times> nat" where
  "rehash_chain ty msk [] ntable used = (ntable, used)"
| "rehash_chain ty msk (he # nextHe) ntable used =
     (let h = dict_slot ty msk (fst he)
      in rehash_chain ty msk nextHe (ntable[h := he # ntable ! h]) (used - 1))"

fun rehash_slots :: "('k, 'v) dictType \<Rightarrow> nat \<Rightarrow> ('k, 'v) chain list \<Rightarrow> ('k, 'v) chain list \<Rightarrow> nat
    \<Rightarrow> ('k, 'v) chain list \<times> nat" where
  "rehash_slots ty msk [] ntable used = (ntable, used)"
| "rehash_slots ty msk (chain # slots) ntable used =
     (if used = 0 then (ntable, used)
      else let (ntable', used') = rehash_chain ty msk chain ntable used
           in rehash_slots ty msk slots ntable' used')"

definition dictExpand :: "('k, 'v) dict \<Rightarrow> nat \<Rightarrow> allocator \<Rightarrow> dict_ret \<times> ('k, 'v) dict \<times> allocator" where
  "dictExpand ht sz m =
     (let realsize = dictNextPower sz in
      if ht_used ht > sz then (DICT_ERR, ht, m)
      else case alloc m of
        (False, m') \<Rightarrow> (DICT_ERR, ht, m')
      | (True, m') \<Rightarrow>
          let (ntable, left) = rehash_slots (ht_type ht) (realsize - 1) (ht_table ht)
                                 (replicate realsize []) (ht_used ht)
          in if left \<noteq> 0 then (DICT_ABORT, ht, m')
             else (DICT_OK, \<lparr>ht_table = ntable, ht_type = ht_type ht, ht_size = realsize,
                             ht_sizemask = realsize - 1, ht_used = ht_used ht\<rparr>, m'))"

definition dictExpandIfNeeded :: "('k, 'v) dict \<Rightarrow> allocator \<Rightarrow> dict_ret \<times> ('k, 'v) dict \<times> allocator" where
  "dictExpandIfNeeded ht m =
     (if ht_size ht = 0 then dictExpand ht DICT_HT_INITIAL_SIZE m
      else if ht_used ht = ht_size ht then dictExpand ht (ht_size ht * 2) m
      else (DICT_OK, ht, m))"

fun chain_find :: "('k, 'v) dictType \<Rightarrow> 'k \<Rightarrow> ('k, 'v) chain \<Rightarrow> ('k \<times> 'v) option" where
  "chain_find ty key [] = None"
| "chain_find ty key (he # rest) =
     (if dictCompareHashKeys ty key (fst he) then Some he else chain_find ty key rest)"

text \<open>The result is an \<open>int\<close>: the slot, an \<open>unsigned int\<close>, is converted to it.\<close>

definition dictKeyIndex :: "('k, 'v) dict \<Rightarrow> 'k \<Rightarrow> allocator
    \<Rightarrow> int \<times> dict_ret \<times> ('k, 'v) dict \<times> allocator" where
  "dictKeyIndex ht key m =
     (case dictExpandIfNeeded ht m of
        (DICT_OK, ht', m') \<Rightarrow>
          let h = dict_slot (ht_type ht') (ht_sizemask ht') key in
          if chain_find (ht_type ht') key (ht_table ht' ! h) \<noteq> None then (-1, DICT_OK, ht', m')
          else (sint (word_of_nat h :: 32 word), DICT_OK, ht', m')
      | (r, ht', m') \<Rightarrow> (-1, r, ht', m'))"

definition dictAdd :: "('k, 'v) dict \<Rightarrow> 'k \<Rightarrow> 'v \<Rightarrow> allocator \<Rightarrow> dict_ret \<times> ('k, 'v) dict \<times> allocator" where
  "dictAdd ht key val m =
     (case dictKeyIndex ht key m of (index, r, ht', m') \<Rightarrow>
        if r = DICT_ABORT then (DICT_ABORT, ht', m')
        else if index = -1 then (DICT_ERR, ht', m')
        else case alloc m' of
          (False, m1) \<Rightarrow> (DICT_ERR, ht', m1)
        | (True, m1) \<Rightarrow>
            (case dictSetHashKey (ht_type ht') key m1 of (k, m2) \<Rightarrow>
             case dictSetHashVal (ht_type ht') val m2 of (v, m3) \<Rightarrow>
               (DICT_OK, ht'\<lparr>ht_table := (ht_table ht')[nat index := (k, v) # ht_table ht' ! nat index],
                             ht_used := ht_used ht' + 1\<rparr>, m3)))"

definition dictFind :: "('k, 'v) dict \<Rightarrow> 'k \<Rightarrow> ('k \<times> 'v) option" where
  "dictFind ht key =
     (if ht_size ht = 0 then None
      else chain_find (ht_type ht) key
             (ht_table ht ! dict_slot (ht_type ht) (ht_sizemask ht) key))"

text \<open>Storing a new value in the entry that \<open>dictFind\<close> returned.\<close>

fun chain_set :: "('k, 'v) dictType \<Rightarrow> 'k \<Rightarrow> 'v \<Rightarrow> ('k, 'v) chain \<Rightarrow> ('k, 'v) chain" where
  "chain_set ty key v [] = []"
| "chain_set ty key v (he # rest) =
     (if dictCompareHashKeys ty key (fst he) then (fst he, v) # rest else he # chain_set ty key v rest)"

text \<open>\<open>dictReplace\<close> returns 1 when the key was added, 0 otherwise.\<close>

definition dictReplace :: "('k, 'v) dict \<Rightarrow> 'k \<Rightarrow> 'v \<Rightarrow> allocator \<Rightarrow> nat \<times> ('k, 'v) dict \<times> allocator" where
  "dictReplace ht key val m =
     (case dictAdd ht key val m of
        (DICT_OK, ht', m') \<Rightarrow> (1, ht', m')
      | (_, ht', m') \<Rightarrow>
          (case dictFind ht' key of
             None \<Rightarrow> (0, ht', m')
           | Some entry \<Rightarrow>
               (case dictSetHashVal (ht_type ht') val m' of (v, m2) \<Rightarrow>
                  let h = dict_slot (ht_type ht') (ht_sizemask ht') key
                  in (0, ht'\<lparr>ht_table := (ht_table ht')[h := chain_set (ht_type ht') key v (ht_table ht' ! h)]\<rparr>, m2))))"

text \<open>Unlinking the first entry of a chain whose key compares equal.\<close>

fun chain_unlink :: "('k, 'v) dictType \<Rightarrow> 'k \<Rightarrow> ('k, 'v) chain \<Rightarrow> ('k, 'v) chain option" where
  "chain_unlink ty key [] = None"
| "chain_unlink ty key (de # rest) =
     (if dictCompareHashKeys ty key (fst de) then Some rest
      else map_option (Cons de) (chain_unlink ty key rest))"

definition dictDelete :: "('k, 'v) dict \<Rightarrow> 'k \<Rightarrow> dict_ret \<times> ('k, 'v) dict" where
  "dictDelete ht key =
     (if ht_size ht = 0 then (DICT_ERR, ht)
      else let h = dict_slot (ht_type ht) (ht_sizemask ht) key in
        case chain_unlink (ht_type ht) key (ht_table ht ! h) of
          None \<Rightarrow> (DICT_ERR, ht)
        | Some rest \<Rightarrow> (DICT_OK, ht\<lparr>ht_table := (ht_table ht)[h := rest], ht_used := ht_used ht - 1\<rparr>))"

text \<open>\<open>_dictClear\<close>: the entries it releases, in order, and the reset table.\<close>

fun clear_slots :: "('k, 'v) chain list \<Rightarrow> nat \<Rightarrow> ('k \<times> 'v) list" where
  "clear_slots [] used = []"
| "clear_slots (chain # slots) used =
     (if used = 0 then [] else chain @ clear_slots slots (used - length chain))"

definition dictClear :: "('k, 'v) dict \<Rightarrow> ('k \<times> 'v) list \<times> ('k, 'v) dict" where
  "dictClear ht = (clear_slots (ht_table ht) (ht_used ht), dictReset ht)"

text \<open>
  Iterators. An entry pointer is the suffix of its chain that starts at the entry, the empty
  list when it is \<open>NULL\<close>.
\<close>

record ('k, 'v) dictIterator =
  it_index :: int
  it_entry :: "('k, 'v) chain"
  it_nextEntry :: "('k, 'v) chain"

definition dictInitIterator :: "('k, 'v) dictIterator" where
  "dictInitIterator = \<lparr>it_index = -1, it_entry = [], it_nextEntry = []\<rparr>"

function dictNext :: "('k, 'v) dict \<Rightarrow> ('k, 'v) dictIterator
    \<Rightarrow> ('k \<times> 'v) option \<times> ('k, 'v) dictIterator" where
  "dictNext ht iter =
     (if it_entry iter = [] then
        let idx = it_index iter + 1 in
        if idx \<ge> int (ht_size ht) then (None, iter\<lparr>it_index := idx\<rparr>)
        else case ht_table ht ! nat idx of
            [] \<Rightarrow> dictNext ht (iter\<lparr>it_index := idx, it_entry := []\<rparr>)
          | he # rest \<Rightarrow> (Some he, iter\<lparr>it_index := idx, it_entry := he # rest, it_nextEntry := rest\<rparr>)
      else case it_nextEntry iter of
            [] \<Rightarrow> dictNext ht (iter\<lparr>it_entry := []\<rparr>)
          | he # rest \<Rightarrow> (Some he, iter\<lparr>it_entry := he # rest, it_nextEntry := rest\<rparr>))"
  by pat_completeness auto
termination
  by (relation "measures [\<lambda>(ht, iter). nat (int (ht_size ht) - it_index iter),
                          \<lambda>(ht, iter). length (it_entry iter)]") auto

declare dictNext.simps [simp del]

text \<open>The answers of \<open>n\<close> successive calls of \<open>dictNext\<close>.\<close>

fun dict_answers :: "nat \<Rightarrow> ('k, 'v) dict \<Rightarrow> ('k, 'v) dictIterator \<Rightarrow> ('k \<times> 'v) option list" where
  "dict_answers 0 ht iter = []"
| "dict_answers (Suc n) ht iter =
     (case dictNext ht iter of (r, iter') \<Rightarrow> r # dict_answers n ht iter')"

section \<open>The key types of the library\<close>

text \<open>The keys are sds strings of fewer than \<open>2 ^ 31\<close> bytes: the code converts their lengths to \<open>int\<close>,
  which changes nothing below that bound. Longer keys are outside of the model.\<close>

definition dictSdsHash :: "bytes \<Rightarrow> 32 word" where
  "dictSdsHash key = dictGenHashFunction key"

definition dictSdsKeyCompare :: "bytes \<Rightarrow> bytes \<Rightarrow> bool" where
  "dictSdsKeyCompare key1 key2 =
     (if length key1 \<noteq> length key2 then False else c_memcmp key1 key2 (length key1) = 0)"

definition clusterNodesDictType :: "(bytes, 'v) dictType" where
  "clusterNodesDictType = \<lparr>hashFunction = dictSdsHash, keyDup = None, valDup = None,
                           keyCompare = Some dictSdsKeyCompare\<rparr>"

text \<open>\<open>async.c\<close>: the value is a pointer to a callback record, copied into fresh memory;
  \<open>None\<close> is \<open>NULL\<close>.\<close>

definition callbackHash :: "bytes \<Rightarrow> 32 word" where
  "callbackHash key = dictGenHashFunction key"

definition callbackValDup :: "'c option \<Rightarrow> allocator \<Rightarrow> 'c option \<times> allocator" where
  "callbackValDup src m = (case alloc m of (False, m') \<Rightarrow> (None, m') | (True, m') \<Rightarrow> (src, m'))"

definition callbackKeyCompare :: "bytes \<Rightarrow> bytes \<Rightarrow> bool" where
  "callbackKeyCompare key1 key2 =
     (if length key1 \<noteq> length key2 then False else c_memcmp key1 key2 (length key1) = 0)"

definition callbackDict :: "(bytes, 'c option) dictType" where
  "callbackDict = \<lparr>hashFunction = callbackHash, keyDup = None, valDup = Some callbackValDup,
                   keyCompare = Some callbackKeyCompare\<rparr>"

section \<open>Invariant and abstraction\<close>

definition placed :: "('k, 'v) dictType \<Rightarrow> nat \<Rightarrow> ('k, 'v) chain list \<Rightarrow> bool" where
  "placed ty msk tbl \<longleftrightarrow> (\<forall>i < length tbl. \<forall>e \<in> set (tbl ! i). dict_slot ty msk (fst e) = i)"

text \<open>
  The size is 0 or a power of two that an \<open>int\<close> can index, every entry is in the slot of its
  key, no key occurs twice, and \<open>used\<close> counts the entries.
\<close>

definition dict_sizes :: "('k, 'v) dict \<Rightarrow> bool" where
  "dict_sizes ht \<longleftrightarrow> length (ht_table ht) = ht_size ht \<and>
     (ht_size ht = 0 \<or> (\<exists>n. 2 \<le> n \<and> n \<le> 31 \<and> ht_size ht = 2 ^ n \<and> ht_sizemask ht = 2 ^ n - 1))"

definition dict_inv :: "('k, 'v) dict \<Rightarrow> bool" where
  "dict_inv ht \<longleftrightarrow> dict_sizes ht \<and> placed (ht_type ht) (ht_sizemask ht) (ht_table ht) \<and>
     distinct (map fst (concat (ht_table ht))) \<and> ht_used ht = length (concat (ht_table ht))"

text \<open>The finite map a table stands for.\<close>

definition dict_map :: "('k, 'v) dict \<Rightarrow> 'k \<rightharpoonup> 'v" where
  "dict_map ht = map_of (concat (ht_table ht))"

subsection \<open>Slots and tables\<close>

lemma dict_slot_less [simp]: "dict_slot ty (2 ^ n - Suc 0) k < 2 ^ n"
proof -
  have "dict_slot ty (2 ^ n - Suc 0) k = take_bit n (unat (hashFunction ty k))"
    by (simp add: dict_slot_def take_bit_eq_mask mask_eq_exp_minus_1)
  then show ?thesis by (simp add: take_bit_nat_less_exp)
qed

lemma mset_concat_update:
  "h < length tbl \<Longrightarrow> mset (concat (tbl[h := c])) = mset (concat tbl) - mset (tbl ! h) + mset c"
proof -
  assume "h < length tbl"
  then have "tbl = take h tbl @ tbl ! h # drop (Suc h) tbl"
    and "tbl[h := c] = take h tbl @ c # drop (Suc h) tbl"
    by (simp_all add: id_take_nth_drop upd_conv_take_nth_drop)
  then have "mset (concat tbl) = mset (concat (take h tbl)) + mset (tbl ! h) + mset (concat (drop (Suc h) tbl))"
    and "mset (concat (tbl[h := c])) = mset (concat (take h tbl)) + mset c + mset (concat (drop (Suc h) tbl))"
    by (metis concat.simps(2) concat_append mset_append union_assoc)+
  then show ?thesis by simp
qed

lemma mset_nth_subset: "h < length tbl \<Longrightarrow> mset (tbl ! h) \<subseteq># mset (concat tbl)"
  by (induction tbl arbitrary: h) (auto simp: nth_Cons' subset_mset.add_increasing subset_mset.add_increasing2)

lemma mset_concat_cons:
  "h < length tbl \<Longrightarrow> mset (concat (tbl[h := e # tbl ! h])) = add_mset e (mset (concat tbl))"
  using mset_nth_subset [of h tbl] by (simp add: mset_concat_update)

lemma placed_update:
  "placed ty msk tbl \<Longrightarrow> h < length tbl \<Longrightarrow> (\<And>e. e \<in> set c \<Longrightarrow> dict_slot ty msk (fst e) = h) \<Longrightarrow>
   placed ty msk (tbl[h := c])"
  by (auto simp: placed_def nth_list_update)

lemma placed_replicate [simp]: "placed ty msk (replicate n [])"
  by (simp add: placed_def)

lemma map_of_concat_placed:
  assumes "placed ty msk tbl" and "dict_slot ty msk k < length tbl"
  shows "map_of (concat tbl) k = map_of (tbl ! dict_slot ty msk k) k"
proof -
  let ?h = "dict_slot ty msk k"
  have other: "map_of (concat xs) k = None"
    if "\<And>c. c \<in> set xs \<Longrightarrow> \<forall>e \<in> set c. fst e \<noteq> k" for xs :: "('a, 'b) chain list"
    using that by (auto simp: map_of_eq_None_iff)
  have away: "fst e \<noteq> k" if "e \<in> set (tbl ! j)" "j < length tbl" "j \<noteq> ?h" for j e
    using assms(1) that by (auto simp: placed_def)
  have "map_of (concat (take ?h tbl)) k = None"
    using assms(2) by (intro other) (fastforce simp: in_set_conv_nth [of _ "take _ _"] dest: away)
  moreover have "map_of (concat (drop (Suc ?h) tbl)) k = None"
    by (intro other) (fastforce simp: in_set_conv_nth [of _ "drop _ _"] dest: away)
  moreover have "concat tbl = concat (take ?h tbl) @ tbl ! ?h @ concat (drop (Suc ?h) tbl)"
    using assms(2) by (metis concat.simps(2) concat_append id_take_nth_drop)
  ultimately show ?thesis
    by (simp add: map_add_def split: option.split)
qed

lemma map_of_mset_cong:
  "mset xs = mset ys \<Longrightarrow> distinct (map fst xs) \<Longrightarrow> map_of xs = map_of ys"
proof -
  assume eq: "mset xs = mset ys" and d: "distinct (map fst xs)"
  then have "distinct (map fst ys)" by (metis mset_eq_imp_distinct_iff mset_map)
  moreover have "set xs = set ys" using eq by (rule mset_eq_setD)
  ultimately show ?thesis using d by (simp add: map_of_inject_set)
qed

subsection \<open>Growing\<close>

lemma grow_size_power: "\<exists>n. grow_size (2 ^ k) need = 2 ^ n \<and> k \<le> n"
proof (induction "(2::nat) ^ k" need arbitrary: k rule: grow_size.induct)
  case (1 need)
  show ?case
  proof (cases "2 ^ k < need")
    case True
    with 1 [of "Suc k"] obtain n where "grow_size (2 ^ Suc k) need = 2 ^ n" "Suc k \<le> n" by auto
    with True show ?thesis by (auto simp: grow_size.simps [of "2 ^ k" need])
  qed (auto simp: grow_size.simps [of "2 ^ k" need])
qed

lemma rehash_chain_mset:
  "n \<le> 31 \<Longrightarrow> length ntable = 2 ^ n \<Longrightarrow> placed ty (2 ^ n - 1) ntable \<Longrightarrow>
   rehash_chain ty (2 ^ n - 1) c ntable used = (nt, u) \<Longrightarrow>
   length nt = 2 ^ n \<and> placed ty (2 ^ n - 1) nt \<and> u = used - length c \<and>
   mset (concat nt) = mset c + mset (concat ntable)"
proof (induction c arbitrary: ntable used)
  case (Cons he c)
  let ?h = "dict_slot ty (2 ^ n - 1) (fst he)"
  let ?nt = "ntable[?h := he # ntable ! ?h]"
  have h: "?h < length ntable" using Cons.prems(2) by (simp add: dict_slot_less)
  have "placed ty (2 ^ n - 1) ?nt"
    using Cons.prems(3) h by (intro placed_update) (auto simp: placed_def)
  with Cons.prems h have "length nt = 2 ^ n \<and> placed ty (2 ^ n - 1) nt \<and> u = used - 1 - length c \<and>
      mset (concat nt) = mset c + mset (concat ?nt)"
    by (intro Cons.IH) (auto simp: Let_def)
  with h show ?case by (simp add: mset_concat_cons)
qed auto

lemma rehash_slots_mset:
  "n \<le> 31 \<Longrightarrow> length ntable = 2 ^ n \<Longrightarrow> placed ty (2 ^ n - 1) ntable \<Longrightarrow> used = length (concat slots) \<Longrightarrow>
   rehash_slots ty (2 ^ n - 1) slots ntable used = (nt, u) \<Longrightarrow>
   length nt = 2 ^ n \<and> placed ty (2 ^ n - 1) nt \<and> u = 0 \<and>
   mset (concat nt) = mset (concat slots) + mset (concat ntable)"
proof (induction slots arbitrary: ntable used)
  case (Cons c slots)
  show ?case
  proof (cases "used = 0")
    case True
    with Cons.prems show ?thesis by auto
  next
    case False
    obtain nt1 u1 where r: "rehash_chain ty (2 ^ n - 1) c ntable used = (nt1, u1)"
      by (cases "rehash_chain ty (2 ^ n - 1) c ntable used")
    note c = rehash_chain_mset [OF Cons.prems(1-3) r]
    have "length nt = 2 ^ n \<and> placed ty (2 ^ n - 1) nt \<and> u = 0 \<and>
        mset (concat nt) = mset (concat slots) + mset (concat nt1)"
    proof (rule Cons.IH [of nt1 u1])
      show "rehash_slots ty (2 ^ n - 1) slots nt1 u1 = (nt, u)"
        using Cons.prems(5) False r by simp
    qed (use Cons.prems c in auto)
    with c show ?thesis by simp
  qed
qed auto

lemma dictNextPower_double: "n \<le> 30 \<Longrightarrow> 2 \<le> n \<Longrightarrow> dictNextPower (2 ^ n * 2) = 2 ^ Suc n"
proof -
  assume n: "n \<le> 30" "2 \<le> n"
  then have "(2::nat) ^ Suc n \<le> 2 ^ 31" by (intro power_increasing) auto
  then have lt: "\<not> 2 ^ n * 2 \<ge> LONG_MAX" by simp
  obtain k where k: "grow_size (2 ^ 2) (2 ^ n * 2) = 2 ^ k" using grow_size_power by blast
  have "2 ^ n * 2 \<le> (2::nat) ^ k" using grow_size_ge [of "2 ^ 2" "2 ^ n * 2"] k by simp
  moreover have "(2::nat) ^ k < 2 * (2 ^ n * 2)"
  proof -
    have "(2::nat) ^ 2 \<le> 2 ^ n" using n(2) by (rule power_increasing) simp
    then have "(2::nat) ^ 2 < 2 ^ n * 2" by simp
    from grow_size_bound [OF _ this] k show ?thesis by simp
  qed
  ultimately have "(2::nat) ^ Suc n \<le> 2 ^ k" "(2::nat) ^ k < 2 ^ Suc (Suc n)" by simp_all
  then have "k = Suc n"
    by (metis le_antisym less_Suc_eq_le one_less_numeral_iff power_increasing_iff power_strict_increasing_iff semiring_norm(76))
  with k lt show ?thesis by (simp add: dictNextPower_def)
qed

lemma dictNextPower_initial: "dictNextPower 4 = 2 ^ 2"
  by (simp add: dictNextPower_def grow_size.simps [of 4 4])

lemma dictExpand_inv:
  assumes inv: "dict_inv ht" and n: "2 \<le> n" "n \<le> 31" and sz: "dictNextPower sz = 2 ^ n"
    and r: "dictExpand ht sz m = (r, ht', m')"
  shows "r \<noteq> DICT_ABORT \<and> dict_inv ht' \<and> dict_map ht' = dict_map ht \<and> ht_type ht' = ht_type ht \<and>
     ht_used ht' = ht_used ht \<and> (r = DICT_OK \<longrightarrow> ht_size ht' = 2 ^ n) \<and> (r = DICT_ERR \<longrightarrow> ht' = ht) \<and>
     (m = [] \<and> ht_used ht \<le> sz \<longrightarrow> r = DICT_OK \<and> m' = [])"
proof (cases "ht_used ht > sz \<or> alloc m = (False, m')")
  case True
  with r inv show ?thesis by (cases m) (auto simp: dictExpand_def Let_def split: prod.splits bool.splits if_splits)
next
  case False
  let ?mk = "2 ^ n - 1"
  obtain nt u where rs: "rehash_slots (ht_type ht) ?mk (ht_table ht) (replicate (2 ^ n) []) (ht_used ht) = (nt, u)"
    by (cases "rehash_slots (ht_type ht) ?mk (ht_table ht) (replicate (2 ^ n) []) (ht_used ht)")
  have mm: "length nt = 2 ^ n \<and> placed (ht_type ht) ?mk nt \<and> u = 0 \<and>
      mset (concat nt) = mset (concat (ht_table ht)) + mset (concat (replicate (2 ^ n) []))"
    using inv n by (intro rehash_slots_mset [OF _ _ _ _ rs]) (auto simp: dict_inv_def)
  have al: "alloc m = (True, m')" and res: "r = DICT_OK"
    and ht': "ht' = \<lparr>ht_table = nt, ht_type = ht_type ht, ht_size = 2 ^ n, ht_sizemask = ?mk, ht_used = ht_used ht\<rparr>"
    using r False mm rs by (auto simp: dictExpand_def sz Let_def split: prod.splits bool.splits)
  have ms: "mset (concat nt) = mset (concat (ht_table ht))" using mm by simp
  have "distinct (map fst (concat nt))"
    using ms inv by (metis dict_inv_def mset_eq_imp_distinct_iff mset_map)
  moreover have "length (concat nt) = length (concat (ht_table ht))"
    using ms by (rule mset_eq_length)
  ultimately have "dict_inv ht'"
    using inv mm n by (auto simp: dict_inv_def dict_sizes_def ht')
  moreover have "dict_map ht' = dict_map ht"
    using map_of_mset_cong [OF ms [symmetric]] inv by (simp add: dict_map_def ht' dict_inv_def)
  ultimately show ?thesis using res al by (auto simp: ht')
qed

lemma dictExpandIfNeeded_inv:
  assumes inv: "dict_inv ht" and used: "ht_used ht < 2 ^ 31"
    and r: "dictExpandIfNeeded ht m = (r, ht', m')"
  shows "r \<noteq> DICT_ABORT \<and> dict_inv ht' \<and> dict_map ht' = dict_map ht \<and> ht_type ht' = ht_type ht \<and>
     ht_used ht' = ht_used ht \<and> (r = DICT_OK \<longrightarrow> ht_size ht' \<noteq> 0) \<and> (m = [] \<longrightarrow> r = DICT_OK \<and> m' = [])"
proof -
  have "ht_size ht = 0 \<or> (\<exists>n. 2 \<le> n \<and> n \<le> 31 \<and> ht_size ht = 2 ^ n)"
    using inv by (auto simp: dict_inv_def dict_sizes_def)
  then consider (empty) "ht_size ht = 0"
    | (full) n where "2 \<le> n" "n \<le> 31" "ht_size ht = 2 ^ n" "ht_used ht = ht_size ht"
    | (room) "ht_size ht \<noteq> 0" "ht_used ht \<noteq> ht_size ht"
    by metis
  then show ?thesis
  proof cases
    case empty
    then have "ht_used ht = 0" using inv by (simp add: dict_inv_def dict_sizes_def)
    then show ?thesis
      using dictExpand_inv [OF inv _ _ dictNextPower_initial] r empty
      by (fastforce simp: dictExpandIfNeeded_def)
  next
    case full
    then have "(2::nat) ^ n < 2 ^ 31" using used by simp
    then have "n < 31" by (rule power_less_imp_less_exp [rotated]) simp
    then have "dictNextPower (ht_size ht * 2) = 2 ^ Suc n" "Suc n \<le> 31"
      using full by (simp_all add: dictNextPower_double)
    then show ?thesis
      using dictExpand_inv [OF inv, of "Suc n" "ht_size ht * 2" m r ht' m'] r full
      by (fastforce simp: dictExpandIfNeeded_def)
  next
    case room
    then show ?thesis using r inv by (auto simp: dictExpandIfNeeded_def)
  qed
qed

subsection \<open>The contract of a key type\<close>

text \<open>
  What the table relies on: the comparison function is equality of keys, and a duplicated key
  is the same key. Both key types of the library keep it (see the interpretations below).
\<close>

locale key_type =
  fixes ty :: "('k, 'v) dictType"
  assumes compare_eq: "dictCompareHashKeys ty a b \<longleftrightarrow> a = b"
    and dup_key: "fst (dictSetHashKey ty k m) = k"
begin

lemma chain_find_eq: "chain_find ty k c = map_option (Pair k) (map_of c k)"
  by (induction c) (auto simp: compare_eq)

lemma chain_unlink_None: "chain_unlink ty k c = None \<longleftrightarrow> k \<notin> fst ` set c"
  by (induction c) (auto simp: compare_eq)

lemma chain_unlink_mset:
  "chain_unlink ty k c = Some rest \<Longrightarrow> \<exists>v. mset c = add_mset (k, v) (mset rest)"
proof (induction c arbitrary: rest)
  case (Cons e c)
  show ?case
  proof (cases "fst e = k")
    case True
    then have "e = (k, snd e)" by (cases e) simp
    with True Cons.prems show ?thesis by (auto simp: compare_eq intro!: exI [of _ "snd e"])
  next
    case False
    with Cons obtain rest' v where "rest = e # rest'" "mset c = add_mset (k, v) (mset rest')"
      by (fastforce simp: compare_eq)
    then show ?thesis by (auto simp: add_mset_commute)
  qed
qed simp

lemma map_fst_chain_set: "map fst (chain_set ty k v c) = map fst c"
  by (induction c) (auto simp: compare_eq)

lemma map_of_chain_set: "map_of c k \<noteq> None \<Longrightarrow> map_of (chain_set ty k v c) = (map_of c)(k \<mapsto> v)"
  by (induction c) (auto simp: compare_eq fun_upd_twist split: if_splits)

lemma slot_in_table:
  assumes "dict_inv ht" and "ht_type ht = ty" and "ht_size ht \<noteq> 0"
  shows "dict_slot ty (ht_sizemask ht) k < length (ht_table ht)"
    and "dict_slot ty (ht_sizemask ht) k < 2 ^ 31"
proof -
  obtain n where n: "n \<le> 31" "ht_size ht = 2 ^ n" "ht_sizemask ht = 2 ^ n - Suc 0"
    and len: "length (ht_table ht) = ht_size ht"
    using assms by (auto simp: dict_inv_def dict_sizes_def)
  then show "dict_slot ty (ht_sizemask ht) k < length (ht_table ht)" by simp
  have "(2::nat) ^ n \<le> 2 ^ 31" using n(1) by (intro power_increasing) auto
  moreover have "dict_slot ty (ht_sizemask ht) k < 2 ^ n" using n(3) by simp
  ultimately show "dict_slot ty (ht_sizemask ht) k < 2 ^ 31" by (rule less_le_trans [rotated])
qed

lemma find_spec:
  assumes "dict_inv ht" and "ht_type ht = ty"
  shows "dictFind ht k = map_option (Pair k) (dict_map ht k)"
proof (cases "ht_size ht = 0")
  case True
  then show ?thesis using assms by (auto simp: dictFind_def dict_map_def dict_inv_def dict_sizes_def)
next
  case False
  then show ?thesis
    using assms map_of_concat_placed [of ty "ht_sizemask ht" "ht_table ht" k] slot_in_table [OF assms False]
    by (simp add: dictFind_def dict_map_def chain_find_eq dict_inv_def)
qed

lemma key_index_spec:
  assumes inv: "dict_inv ht" and ty: "ht_type ht = ty" and used: "ht_used ht < 2 ^ 31"
    and r: "dictKeyIndex ht k m = (i, r, ht', m')"
  shows "r \<noteq> DICT_ABORT \<and> dict_inv ht' \<and> ht_type ht' = ty \<and> ht_used ht' = ht_used ht \<and> dict_map ht' = dict_map ht \<and>
     (m = [] \<longrightarrow> r = DICT_OK \<and> m' = []) \<and>
     (i = -1 \<or> (ht_size ht' \<noteq> 0 \<and> i = int (dict_slot ty (ht_sizemask ht') k) \<and> dict_map ht k = None)) \<and>
     (r = DICT_OK \<and> dict_map ht k = None \<longrightarrow> i \<noteq> -1) \<and> (dict_map ht k \<noteq> None \<longrightarrow> i = -1)"
proof -
  obtain r0 ht0 m0 where e: "dictExpandIfNeeded ht m = (r0, ht0, m0)" by (cases "dictExpandIfNeeded ht m")
  note ex = dictExpandIfNeeded_inv [OF inv used e]
  show ?thesis
  proof (cases "r0 = DICT_OK")
    case False
    then have "i = -1 \<and> r = r0 \<and> ht' = ht0 \<and> m' = m0"
      using r e by (cases r0) (auto simp: dictKeyIndex_def)
    then show ?thesis using ex False ty by auto
  next
    case True
    let ?h = "dict_slot ty (ht_sizemask ht0) k"
    have ty0: "ht_type ht0 = ty" and sz0: "ht_size ht0 \<noteq> 0" using ex ty True by auto
    have inv0: "dict_inv ht0" using ex by simp
    have f: "chain_find ty k (ht_table ht0 ! ?h) = map_option (Pair k) (dict_map ht k)"
      using find_spec [OF inv0 ty0] ex ty0 sz0 by (simp add: dictFind_def)
    have h: "sint (word_of_nat ?h :: 32 word) = int ?h"
      using slot_in_table(2) [OF inv0 ty0 sz0, of k] by (simp add: signed_of_nat signed_take_bit_int_eq_self)
    have "r = DICT_OK \<and> ht' = ht0 \<and> m' = m0 \<and> i = (if dict_map ht k = None then int ?h else -1)"
      using r e True f h by (auto simp: dictKeyIndex_def Let_def ty0 split: if_splits)
    then show ?thesis using ex inv0 ty0 sz0 True by auto
  qed
qed

lemma insert_front:
  assumes inv: "dict_inv ht" and ty: "ht_type ht = ty" and sz: "ht_size ht \<noteq> 0"
    and new: "dict_map ht k = None" and h: "h = dict_slot ty (ht_sizemask ht) k"
    and ht': "ht' = ht\<lparr>ht_table := (ht_table ht)[h := (k, v) # ht_table ht ! h], ht_used := ht_used ht + 1\<rparr>"
  shows "dict_inv ht' \<and> dict_map ht' = (dict_map ht)(k \<mapsto> v)"
proof -
  let ?t = "(ht_table ht)[h := (k, v) # ht_table ht ! h]"
  have hl: "h < length (ht_table ht)" using slot_in_table(1) [OF inv ty sz] h by simp
  have ms: "mset (concat ?t) = mset ((k, v) # concat (ht_table ht))" using hl by (simp add: mset_concat_cons)
  have d: "distinct (map fst ((k, v) # concat (ht_table ht)))"
    using inv new by (simp add: dict_inv_def dict_map_def map_of_eq_None_iff)
  have dt: "distinct (map fst (concat ?t))" using d ms by (metis mset_eq_imp_distinct_iff mset_map)
  have "placed ty (ht_sizemask ht) ?t"
    using inv ty hl h by (intro placed_update) (auto simp: dict_inv_def placed_def)
  moreover have "length (concat ?t) = Suc (length (concat (ht_table ht)))"
    using mset_eq_length [OF ms] by simp
  ultimately have "dict_inv ht'"
    using inv ty dt unfolding ht' by (simp add: dict_inv_def dict_sizes_def)
  moreover have "dict_map ht' = (dict_map ht)(k \<mapsto> v)"
    using map_of_mset_cong [OF ms dt] unfolding ht' by (simp add: dict_map_def)
  ultimately show ?thesis ..
qed

lemma add_spec:
  assumes inv: "dict_inv ht" and ty: "ht_type ht = ty" and used: "ht_used ht < 2 ^ 31"
    and r: "dictAdd ht k v m = (r, ht', m')"
  shows "r \<noteq> DICT_ABORT \<and> dict_inv ht' \<and> ht_type ht' = ty \<and>
     (r = DICT_OK \<longrightarrow> dict_map ht k = None \<and>
        (\<exists>m1. dict_map ht' = (dict_map ht)(k \<mapsto> fst (dictSetHashVal ty v m1)) \<and> (m = [] \<longrightarrow> m1 = snd (dictSetHashKey ty k [])))) \<and>
     (r = DICT_ERR \<longrightarrow> dict_map ht' = dict_map ht) \<and>
     (m = [] \<longrightarrow> (r = DICT_OK \<longleftrightarrow> dict_map ht k = None))"
proof -
  obtain i r0 ht0 m0 where e: "dictKeyIndex ht k m = (i, r0, ht0, m0)"
    by (metis prod_cases4)
  note ix = key_index_spec [OF inv ty used e]
  show ?thesis
  proof (cases "i = -1 \<or> \<not> fst (alloc m0)")
    case True
    have "r = DICT_ERR \<and> ht' = ht0"
      using r e ix True by (auto simp: dictAdd_def split: prod.splits bool.splits)
    then show ?thesis using ix True by auto
  next
    case False
    let ?h = "dict_slot ty (ht_sizemask ht0) k"
    obtain m1 where al: "alloc m0 = (True, m1)" using False by (cases "alloc m0") auto
    define m2 where "m2 = snd (dictSetHashKey ty k m1)"
    define w where "w = fst (dictSetHashVal ty v m2)"
    have i: "i = int ?h" and sz: "ht_size ht0 \<noteq> 0" and new: "dict_map ht0 k = None"
      and ty0: "ht_type ht0 = ty" and inv0: "dict_inv ht0"
      using ix False by auto
    have res: "r = DICT_OK" and ht': "ht' = ht0\<lparr>ht_table := (ht_table ht0)[?h := (k, w) # ht_table ht0 ! ?h],
        ht_used := ht_used ht0 + 1\<rparr>"
      using r e al False i ix dup_key [of k m1]
      by (auto simp: dictAdd_def ty0 m2_def w_def split: prod.splits)
    note ins = insert_front [OF inv0 ty0 sz new refl ht']
    have "m = [] \<longrightarrow> m2 = snd (dictSetHashKey ty k [])"
      using ix al by (auto simp: m2_def)
    then show ?thesis using ix ins res ty0 new ht' unfolding w_def by auto
  qed
qed

lemma update_slot:
  assumes inv: "dict_inv ht" and ty: "ht_type ht = ty" and hit: "dict_map ht k \<noteq> None"
    and h: "h = dict_slot ty (ht_sizemask ht) k"
    and ht': "ht' = ht\<lparr>ht_table := (ht_table ht)[h := chain_set ty k v (ht_table ht ! h)]\<rparr>"
  shows "dict_inv ht' \<and> dict_map ht' = (dict_map ht)(k \<mapsto> v)"
proof -
  let ?t = "(ht_table ht)[h := chain_set ty k v (ht_table ht ! h)]"
  have sz: "ht_size ht \<noteq> 0" using hit inv by (auto simp: dict_map_def dict_inv_def dict_sizes_def)
  have hl: "h < length (ht_table ht)" using slot_in_table(1) [OF inv ty sz] h by simp
  have split: "ht_table ht = take h (ht_table ht) @ ht_table ht ! h # drop (Suc h) (ht_table ht)"
    using hl by (rule id_take_nth_drop)
  have upd: "?t = take h (ht_table ht) @ chain_set ty k v (ht_table ht ! h) # drop (Suc h) (ht_table ht)"
    using hl by (rule upd_conv_take_nth_drop)
  have keys: "map fst (concat ?t) = map fst (concat (ht_table ht))"
    by (subst (2) split, subst upd) (simp add: map_fst_chain_set)
  have pl: "placed ty (ht_sizemask ht) (ht_table ht)" using inv ty by (simp add: dict_inv_def)
  have plt: "placed ty (ht_sizemask ht) ?t"
  proof (rule placed_update [OF pl hl])
    fix e
    assume "e \<in> set (chain_set ty k v (ht_table ht ! h))"
    then have "fst e \<in> fst ` set (ht_table ht ! h)"
      by (metis image_eqI image_set map_fst_chain_set)
    then show "dict_slot ty (ht_sizemask ht) (fst e) = h" using pl hl by (force simp: placed_def)
  qed
  have "length (concat ?t) = length (concat (ht_table ht))" using keys by (metis length_map)
  then have "dict_inv ht'"
    using inv ty plt keys unfolding ht' by (simp add: dict_inv_def dict_sizes_def)
  moreover have "dict_map ht' j = ((dict_map ht)(k \<mapsto> v)) j" for j
  proof (cases "dict_slot ty (ht_sizemask ht) j = h")
    case True
    have "map_of (ht_table ht ! h) k \<noteq> None"
      using map_of_concat_placed [OF pl, of k] hit h hl by (simp add: dict_map_def)
    then show ?thesis
      using map_of_concat_placed [OF plt, of j] map_of_concat_placed [OF pl, of j] True hl
      by (simp add: dict_map_def ht' map_of_chain_set)
  next
    case False
    then show ?thesis
      using map_of_concat_placed [OF plt, of j] map_of_concat_placed [OF pl, of j] h
        slot_in_table(1) [OF inv ty sz, of j]
      by (auto simp: dict_map_def ht')
  qed
  ultimately show ?thesis by (auto intro: ext)
qed

lemma replace_spec:
  assumes inv: "dict_inv ht" and ty: "ht_type ht = ty" and used: "ht_used ht < 2 ^ 31"
    and r: "dictReplace ht k v [] = (r, ht', m')" and plain: "\<And>m. fst (dictSetHashVal ty v m) = v"
  shows "dict_inv ht' \<and> dict_map ht' = (dict_map ht)(k \<mapsto> v) \<and> r = (if dict_map ht k = None then 1 else 0)"
proof -
  obtain r0 ht0 m0 where e: "dictAdd ht k v [] = (r0, ht0, m0)" by (cases "dictAdd ht k v []")
  note ad = add_spec [OF inv ty used e]
  show ?thesis
  proof (cases "r0 = DICT_OK")
    case True
    then have "r = 1 \<and> ht' = ht0" using r e by (simp add: dictReplace_def)
    then show ?thesis using ad True plain by auto
  next
    case False
    let ?h = "dict_slot ty (ht_sizemask ht0) k"
    have inv0: "dict_inv ht0" and ty0: "ht_type ht0 = ty" and err: "r0 = DICT_ERR"
      and hit: "dict_map ht0 k \<noteq> None" and eq: "dict_map ht0 = dict_map ht"
      using ad False by (cases r0; auto)+
    obtain w where w: "dictFind ht0 k = Some (k, w)"
      using find_spec [OF inv0 ty0] hit by auto
    have "r = 0 \<and> ht' = ht0\<lparr>ht_table := (ht_table ht0)[?h := chain_set ty k v (ht_table ht0 ! ?h)]\<rparr>"
      using r e err w plain [of m0] by (cases "dictSetHashVal ty v m0") (simp add: dictReplace_def Let_def ty0)
    then show ?thesis
      using update_slot [OF inv0 ty0 hit refl] eq hit by auto
  qed
qed

lemma delete_spec:
  assumes inv: "dict_inv ht" and ty: "ht_type ht = ty" and r: "dictDelete ht k = (r, ht')"
  shows "dict_inv ht' \<and> ht_type ht' = ty \<and> dict_map ht' = (dict_map ht)(k := None) \<and>
     r = (if dict_map ht k = None then DICT_ERR else DICT_OK)"
proof (cases "dict_map ht k = None")
  case True
  then have "dictFind ht k = None" using find_spec [OF inv ty] by simp
  then have "ht_size ht = 0 \<or> chain_unlink ty k (ht_table ht ! dict_slot ty (ht_sizemask ht) k) = None"
    by (auto simp: dictFind_def ty chain_find_eq chain_unlink_None map_of_eq_None_iff split: if_splits)
  then have "r = DICT_ERR \<and> ht' = ht" using r by (auto simp: dictDelete_def ty Let_def split: if_splits)
  then show ?thesis using True inv ty by auto
next
  case False
  let ?h = "dict_slot ty (ht_sizemask ht) k"
  have sz: "ht_size ht \<noteq> 0" using False inv by (auto simp: dict_map_def dict_inv_def dict_sizes_def)
  have hl: "?h < length (ht_table ht)" using slot_in_table(1) [OF inv ty sz] .
  have pl: "placed ty (ht_sizemask ht) (ht_table ht)" using inv ty by (simp add: dict_inv_def)
  have "map_of (ht_table ht ! ?h) k \<noteq> None"
    using map_of_concat_placed [OF pl hl] False by (simp add: dict_map_def)
  then obtain rest where un: "chain_unlink ty k (ht_table ht ! ?h) = Some rest"
    using chain_unlink_None by (metis map_of_eq_None_iff option.exhaust)
  obtain w where w: "mset (ht_table ht ! ?h) = add_mset (k, w) (mset rest)"
    using chain_unlink_mset [OF un] by blast
  let ?t = "(ht_table ht)[?h := rest]"
  have "(k, w) \<in># mset (concat (ht_table ht))"
    using mset_nth_subset [OF hl] w by (metis mset_subset_eq_insertD)
  then have ms: "mset (concat (ht_table ht)) = mset ((k, w) # concat ?t)"
    using mset_nth_subset [OF hl] w hl by (simp add: mset_concat_update insert_DiffM)
  have d: "distinct (map fst ((k, w) # concat ?t))"
    using inv ms by (metis dict_inv_def mset_eq_imp_distinct_iff mset_map)
  have eq: "map_of (concat (ht_table ht)) = map_of ((k, w) # concat ?t)"
    using map_of_mset_cong [OF ms] inv by (simp add: dict_inv_def)
  have res: "r = DICT_OK" and ht': "ht' = ht\<lparr>ht_table := ?t, ht_used := ht_used ht - 1\<rparr>"
    using r un sz by (auto simp: dictDelete_def ty Let_def)
  have "placed ty (ht_sizemask ht) ?t"
  proof (rule placed_update [OF pl hl])
    fix e
    assume "e \<in> set rest"
    then have "e \<in> set (ht_table ht ! ?h)" using w by (metis insertCI set_mset_add_mset_insert set_mset_mset)
    then show "dict_slot ty (ht_sizemask ht) (fst e) = ?h" using pl hl by (auto simp: placed_def)
  qed
  then have "dict_inv ht'"
    using inv ty d mset_eq_length [OF ms] unfolding ht' by (simp add: dict_inv_def dict_sizes_def)
  moreover have "dict_map ht' = (dict_map ht)(k := None)"
  proof -
    have "map_of (concat ?t) k = None" using d by (simp add: map_of_eq_None_iff)
    then have "map_of (concat ?t) = (map_of (concat (ht_table ht)))(k := None)"
      unfolding eq by (auto intro: ext)
    then show ?thesis by (simp add: dict_map_def ht')
  qed
  ultimately show ?thesis using res False ty by (simp add: ht')
qed

end

text \<open>The two instances of the contract.\<close>

lemma sds_compare_eq: "(if length a \<noteq> length b then False else c_memcmp a b (length a) = 0) \<longleftrightarrow> a = b"
  by (auto simp: c_memcmp_0_iff)

interpretation cluster_keys: key_type "clusterNodesDictType :: (bytes, 'v) dictType"
  by unfold_locales
    (simp_all add: clusterNodesDictType_def dictCompareHashKeys_def dictSdsKeyCompare_def
      dictSetHashKey_def sds_compare_eq)

interpretation callback_keys: key_type "callbackDict :: (bytes, 'c option) dictType"
  by unfold_locales
    (simp_all add: callbackDict_def dictCompareHashKeys_def callbackKeyCompare_def
      dictSetHashKey_def sds_compare_eq)

subsection \<open>Iteration and release\<close>

text \<open>The entries an iterator still has to deliver.\<close>

definition it_rest :: "('k, 'v) dict \<Rightarrow> ('k, 'v) dictIterator \<Rightarrow> ('k \<times> 'v) list" where
  "it_rest ht iter = (if it_entry iter = [] then [] else it_nextEntry iter)
                      @ concat (drop (nat (it_index iter + 1)) (ht_table ht))"

lemma dictNext_step:
  assumes "length (ht_table ht) = ht_size ht" and "-1 \<le> it_index iter"
    and "dictNext ht iter = (r, iter')"
  shows "-1 \<le> it_index iter' \<and>
    (case it_rest ht iter of
       [] \<Rightarrow> r = None
     | e # es \<Rightarrow> r = Some e \<and> it_rest ht iter' = es)"
  using assms
proof (induction ht iter rule: dictNext.induct)
  case (1 ht iter)
  let ?idx = "it_index iter + 1"
  show ?case
  proof (cases "it_entry iter = []")
    case True
    show ?thesis
    proof (cases "?idx \<ge> int (ht_size ht)")
      case End: True
      then have "it_rest ht iter = []" using True 1 by (simp add: it_rest_def)
      then show ?thesis using True End 1 by (auto simp: dictNext.simps [of ht iter] Let_def)
    next
      case False
      then have lt: "nat ?idx < length (ht_table ht)" using 1 by simp
      then have d: "drop (nat ?idx) (ht_table ht) = ht_table ht ! nat ?idx # drop (Suc (nat ?idx)) (ht_table ht)"
        by (simp add: Cons_nth_drop_Suc)
      have suc: "nat (?idx + 1) = Suc (nat ?idx)" using 1 by simp
      show ?thesis
      proof (cases "ht_table ht ! nat ?idx")
        case Nil
        let ?i = "iter\<lparr>it_index := ?idx, it_entry := []\<rparr>"
        have eq: "dictNext ht iter = dictNext ht ?i"
          using True False Nil by (simp add: dictNext.simps [of ht iter] Let_def)
        have "it_rest ht iter = it_rest ht ?i"
          using True d suc Nil by (simp add: it_rest_def)
        then show ?thesis
          using "1.IH" True False Nil "1.prems" eq by simp
      next
        case (Cons he rest)
        then show ?thesis
          using True False d suc 1 by (auto simp: dictNext.simps [of ht iter] Let_def it_rest_def)
      qed
    qed
  next
    case False
    show ?thesis
    proof (cases "it_nextEntry iter")
      case Nil
      let ?i = "iter\<lparr>it_entry := []\<rparr>"
      have "dictNext ht iter = dictNext ht ?i" and "it_rest ht iter = it_rest ht ?i"
        using False Nil by (simp_all add: dictNext.simps [of ht iter] it_rest_def)
      then show ?thesis using "1.IH"(2) False Nil "1.prems" by simp
    next
      case (Cons he rest)
      then show ?thesis using False 1 by (auto simp: dictNext.simps [of ht iter] it_rest_def)
    qed
  qed
qed

lemma dict_answers_rest:
  assumes "length (ht_table ht) = ht_size ht" and "-1 \<le> it_index iter"
  shows "dict_answers (Suc (length (it_rest ht iter))) ht iter = map Some (it_rest ht iter) @ [None]"
  using assms(2)
proof (induction "it_rest ht iter" arbitrary: iter)
  case Nil
  obtain r iter' where n: "dictNext ht iter = (r, iter')" by (cases "dictNext ht iter")
  from dictNext_step [OF assms(1) Nil.prems n] Nil.hyps n show ?case by (auto split: list.splits)
next
  case (Cons e es)
  obtain r iter' where n: "dictNext ht iter = (r, iter')" by (cases "dictNext ht iter")
  from dictNext_step [OF assms(1) Cons.prems n] Cons.hyps(2) [symmetric]
  have st: "r = Some e" "it_rest ht iter' = es" "-1 \<le> it_index iter'" by auto
  then have "dict_answers (Suc (length es)) ht iter' = map Some es @ [None]"
    using Cons.hyps(1) [of iter'] by simp
  then show ?case using Cons.hyps(2) [symmetric] n st by simp
qed

lemma clear_slots_all: "used = length (concat tbl) \<Longrightarrow> clear_slots tbl used = concat tbl"
  by (induction tbl arbitrary: used) auto

section \<open>Properties\<close>

text \<open>C12: adding to a table (fewer than 2^31 entries, so that an \<open>int\<close> can index it) never
  trips the assertion of the rehash and keeps the invariant whether or not the allocations
  succeed. On success the key was absent and the map gains exactly that key; on failure the
  map is unchanged. With memory available it succeeds exactly for absent keys.\<close>

theorem dictAdd_refines_map:
  assumes "key_type (ht_type ht)" and "dict_inv ht" and "ht_used ht < 2 ^ 31"
    and "dictAdd ht k v m = (r, ht', m')"
  shows "r \<noteq> DICT_ABORT \<and> dict_inv ht' \<and>
    (r = DICT_OK \<longrightarrow> dict_map ht k = None \<and>
       (\<exists>m1. dict_map ht' = (dict_map ht)(k \<mapsto> fst (dictSetHashVal (ht_type ht) v m1)))) \<and>
    (r = DICT_ERR \<longrightarrow> dict_map ht' = dict_map ht) \<and>
    (m = [] \<longrightarrow> (r = DICT_OK \<longleftrightarrow> dict_map ht k = None))"
  using key_type.add_spec [OF assms(1,2) refl assms(3,4)] by auto

lemma dictInit_inv [simp]: "dict_inv (dictInit ty)"
  by (simp add: dictInit_def dict_inv_def dict_sizes_def placed_def)

theorem dictAdd_refines_map_witness:
  "\<exists>ht' m'. dictAdd (dictInit (clusterNodesDictType :: (bytes, nat) dictType)) ''k'' 7 [] = (DICT_OK, ht', m')
     \<and> dict_inv ht'"
proof -
  let ?d = "dictInit (clusterNodesDictType :: (bytes, nat) dictType)"
  obtain r ht' m' where r: "dictAdd ?d ''k'' 7 [] = (r, ht', m')" by (cases "dictAdd ?d ''k'' 7 []")
  have k: "key_type (ht_type ?d)"
    using cluster_keys.key_type_axioms by (simp add: dictInit_def)
  have "ht_used ?d < 2 ^ 31" "dict_map ?d ''k'' = None" by (simp_all add: dictInit_def dict_map_def)
  with dictAdd_refines_map [OF k dictInit_inv _ r] r show ?thesis by auto
qed

text \<open>C36: \<open>dictFind\<close> is lookup in the map, for every table that keeps the invariant.\<close>

theorem dictFind_refines_map:
  assumes "key_type (ht_type ht)" and "dict_inv ht"
  shows "dictFind ht k = map_option (Pair k) (dict_map ht k)"
  by (rule key_type.find_spec [OF assms refl])

text \<open>A table with two nodes, as the witnesses below use it.\<close>

definition example_nodes :: "(bytes, nat) dict" where
  "example_nodes = \<lparr>ht_table = [[], [], [(''a'', 1)], [(''b'', 2)]], ht_type = clusterNodesDictType,
                    ht_size = 4, ht_sizemask = 3, ht_used = 2\<rparr>"

lemma example_slots:
  "dict_slot (clusterNodesDictType :: (bytes, nat) dictType) 3 ''a'' = 2"
  "dict_slot (clusterNodesDictType :: (bytes, nat) dictType) 3 ''b'' = 3"
  by (simp_all add: dict_slot_def clusterNodesDictType_def dictSdsHash_def dictGenHashFunction_def uchar_def)

lemma example_nodes_inv: "dict_inv example_nodes"
proof -
  have "dict_sizes example_nodes"
    unfolding dict_sizes_def example_nodes_def by (auto intro!: exI [of _ 2])
  then show ?thesis
    unfolding dict_inv_def
    by (simp add: example_nodes_def placed_def All_less_Suc example_slots)
qed

lemma example_nodes_keys: "key_type (ht_type example_nodes)"
  using cluster_keys.key_type_axioms by (simp add: example_nodes_def)

theorem dictFind_refines_map_witness:
  "dictFind example_nodes ''b'' = Some (''b'', 2) \<and> dictFind example_nodes ''c'' = None"
  using dictFind_refines_map [OF example_nodes_keys example_nodes_inv, of "''b''"]
    dictFind_refines_map [OF example_nodes_keys example_nodes_inv, of "''c''"]
  by (simp add: dict_map_def) (simp add: example_nodes_def)

text \<open>C38: \<open>dictDelete\<close> removes exactly the key, keeps the invariant and reports whether the
  key was there.\<close>

theorem dictDelete_refines_map:
  assumes "key_type (ht_type ht)" and "dict_inv ht" and "dictDelete ht k = (r, ht')"
  shows "dict_inv ht' \<and> dict_map ht' = (dict_map ht)(k := None) \<and>
    r = (if dict_map ht k = None then DICT_ERR else DICT_OK)"
  using key_type.delete_spec [OF assms(1,2) refl assms(3)] by blast

theorem dictDelete_refines_map_witness:
  "\<exists>ht'. dictDelete example_nodes ''a'' = (DICT_OK, ht') \<and> dict_map ht' ''b'' = Some 2 \<and> dict_map ht' ''a'' = None"
proof -
  obtain r ht' where r: "dictDelete example_nodes ''a'' = (r, ht')" by (cases "dictDelete example_nodes ''a''")
  have m: "dict_map example_nodes = [''a'' \<mapsto> 1, ''b'' \<mapsto> 2]"
    by (simp add: dict_map_def example_nodes_def fun_upd_twist)
  from dictDelete_refines_map [OF example_nodes_keys example_nodes_inv r] r m show ?thesis
    by auto
qed

text \<open>with memory available, \<open>dictReplace\<close> maps the key to the new value whether or not
  it was present, and its result says which.\<close>

theorem dictReplace_refines_map:
  assumes "dict_inv ht" and "ht_type ht = clusterNodesDictType" and "ht_used ht < 2 ^ 31"
    and "dictReplace ht k v [] = (r, ht', m')"
  shows "dict_inv ht' \<and> dict_map ht' = (dict_map ht)(k \<mapsto> v) \<and> r = (if dict_map ht k = None then 1 else 0)"
  using assms
  by (intro cluster_keys.replace_spec) (auto simp: dictSetHashVal_def clusterNodesDictType_def)

theorem dictReplace_refines_map_witness:
  "\<exists>ht' m'. dictReplace (dictInit clusterNodesDictType) ''n1'' (5::nat) [] = (1, ht', m') \<and> dict_map ht' ''n1'' = Some 5"
proof -
  obtain r ht' m' where r: "dictReplace (dictInit clusterNodesDictType) ''n1'' (5::nat) [] = (r, ht', m')"
    by (cases "dictReplace (dictInit clusterNodesDictType) ''n1'' (5::nat) []")
  have "ht_type (dictInit clusterNodesDictType) = clusterNodesDictType" and "ht_used (dictInit clusterNodesDictType) < 2 ^ 31"
    by (simp_all add: dictInit_def)
  from dictReplace_refines_map [OF dictInit_inv this r] r show ?thesis
    by (auto simp: dict_map_def dictInit_def)
qed

text \<open>an iterator delivers every entry of the table exactly once and then \<open>NULL\<close>.\<close>

theorem dictNext_enumerates:
  assumes "dict_inv ht"
  shows "dict_answers (Suc (ht_used ht)) ht dictInitIterator = map Some (concat (ht_table ht)) @ [None]
    \<and> distinct (map fst (concat (ht_table ht)))"
proof -
  have "it_rest ht dictInitIterator = concat (ht_table ht)"
    by (simp add: it_rest_def dictInitIterator_def)
  then show ?thesis
    using dict_answers_rest [of ht dictInitIterator] assms
    by (simp add: dict_inv_def dict_sizes_def dictInitIterator_def)
qed

theorem dictNext_enumerates_witness:
  "dict_answers 3 example_nodes dictInitIterator = [Some (''a'', 1), Some (''b'', 2), None]"
  using dictNext_enumerates [OF example_nodes_inv] by (simp add: example_nodes_def numeral_3_eq_3)

text \<open>\<open>_dictClear\<close> releases every entry once and leaves an empty table.\<close>

lemma dictClear_spec:
  assumes "dict_inv ht"
  shows "dictClear ht = (concat (ht_table ht), dictReset ht)"
    and "dict_inv (dictReset ht)" and "dict_map (dictReset ht) = Map.empty"
  using assms
  by (simp_all add: dictClear_def clear_slots_all dict_inv_def dict_sizes_def dictReset_def placed_def dict_map_def)

end
