(* ===== verification/Multipart.thy ===== *)
theory Multipart
  imports Prelude "HOL-Library.Sublist"
begin

text \<open>
  The incremental parser of multipart/form-data bodies, \<open>multipart_parser.c\<close>
  (src/libnetwork/workflow-http): its state machine over the input buffer, with the callbacks as
  functions on the user data that may ask it to stop.

  The second half relates it to a machine that looks at one byte at a time and never at a
  buffer: on every input that machine accepts the tokens delivered through the callbacks, byte by
  byte, are those of that machine, for any cut into calls. The proofs keep to states whose lookbehind
  holds the matched bytes; the accesses outside of that block, which are left after a callback that
  stops the parser, read NUL in the model and are in no theorem.
\<close>

section \<open>Data\<close>

datatype mp_state =
    s_uninitialized | s_start | s_start_boundary | s_header_field_start | s_header_field
  | s_headers_almost_done | s_header_value_start | s_header_value | s_header_value_almost_done
  | s_part_data_start | s_part_data | s_part_data_almost_boundary | s_part_data_boundary
  | s_part_data_almost_end | s_part_data_end | s_part_data_final_hyphen | s_end

text \<open>The user data \<open>'d\<close> is what the callbacks reach through \<open>multipart_parser_get_data\<close>. A
  callback returns its status and the new user data; a missing one is a \<open>NULL\<close> pointer.\<close>

type_synonym 'd notify_cb = "('d \<Rightarrow> int \<times> 'd) option"
type_synonym 'd data_cb = "('d \<Rightarrow> bytes \<Rightarrow> int \<times> 'd) option"

record 'd multipart_parser_settings =
  on_header_field :: "'d data_cb"
  on_header_value :: "'d data_cb"
  on_part_data :: "'d data_cb"
  on_part_data_begin :: "'d notify_cb"
  on_headers_complete :: "'d notify_cb"
  on_part_data_end :: "'d notify_cb"
  on_body_end :: "'d notify_cb"

record multipart_parser =
  mp_index :: nat
  mp_boundary_length :: nat
  mp_state :: mp_state
  mp_lookbehind :: bytes
  mp_boundary :: bytes

text \<open>
  The block that \<open>multipart_parser_init\<close> allocates has room for the boundary with its NUL and
  for \<open>strlen (boundary) + 9\<close> bytes of lookbehind (their initial contents do not matter: zero
  here). The result of \<open>malloc\<close> is not tested in the source; this is the case where it
  succeeds.
\<close>

definition multipart_parser_init :: "bytes \<Rightarrow> multipart_parser" where
  "multipart_parser_init boundary =
     \<lparr>mp_index = 0, mp_boundary_length = c_strlen boundary, mp_state = s_start,
      mp_lookbehind = replicate (c_strlen boundary + 9) NUL, mp_boundary = c_str boundary\<rparr>"

text \<open>\<open>p->multipart_boundary[p->index]\<close>: the terminating NUL at the end.\<close>

definition boundary_at :: "multipart_parser \<Rightarrow> byte" where
  "boundary_at p = (if mp_index p < length (mp_boundary p) then mp_boundary p ! mp_index p else NUL)"

section \<open>The state machine\<close>

text \<open>\<open>NOTIFY_CB\<close> and \<open>EMIT_DATA_CB\<close>: whether to go on, and the user data.\<close>

definition notify_cb :: "'d notify_cb \<Rightarrow> 'd \<Rightarrow> bool \<times> 'd" where
  "notify_cb cb d = (case cb of None \<Rightarrow> (True, d) | Some f \<Rightarrow> (case f d of (r, d') \<Rightarrow> (r = 0, d')))"

definition emit_cb :: "'d data_cb \<Rightarrow> 'd \<Rightarrow> bytes \<Rightarrow> bool \<times> 'd" where
  "emit_cb cb d bs = (case cb of None \<Rightarrow> (True, d) | Some f \<Rightarrow> (case f d bs of (r, d') \<Rightarrow> (r = 0, d')))"

text \<open>One turn of the loop either returns from the function or goes on with the next value of
  \<open>i\<close> (after \<open>++ i\<close>), \<open>mark\<close>, the parser and the user data.\<close>

datatype 'd mp_turn = MpReturn nat multipart_parser 'd | MpNext nat nat multipart_parser 'd

text \<open>\<open>buf + mark\<close> up to, not including, \<open>buf + i\<close>.\<close>

definition seg :: "bytes \<Rightarrow> nat \<Rightarrow> nat \<Rightarrow> bytes" where
  "seg buf mark i = take (i - mark) (drop mark buf)"

definition do_start_boundary :: "'d multipart_parser_settings \<Rightarrow> bytes \<Rightarrow> nat \<Rightarrow> nat \<Rightarrow> multipart_parser \<Rightarrow> 'd \<Rightarrow> 'd mp_turn" where
  "do_start_boundary st buf i mark p d =
     (let c = buf ! i in
      if mp_index p = mp_boundary_length p then
        (if c \<noteq> CR then MpReturn i p d
         else MpNext (i + 1) mark (p\<lparr>mp_index := mp_index p + 1\<rparr>) d)
      else if mp_index p = mp_boundary_length p + 1 then
        (if c \<noteq> LF then MpReturn i p d
         else let p1 = p\<lparr>mp_index := 0\<rparr> in
           case notify_cb (on_part_data_begin st) d of
             (False, d') \<Rightarrow> MpReturn i p1 d'
           | (True, d') \<Rightarrow> MpNext (i + 1) mark (p1\<lparr>mp_state := s_header_field_start\<rparr>) d')
      else if c \<noteq> boundary_at p then MpReturn i p d
      else MpNext (i + 1) mark (p\<lparr>mp_index := mp_index p + 1\<rparr>) d)"

definition do_header_field :: "'d multipart_parser_settings \<Rightarrow> bytes \<Rightarrow> nat \<Rightarrow> nat \<Rightarrow> multipart_parser \<Rightarrow> 'd \<Rightarrow> 'd mp_turn" where
  "do_header_field st buf i mark p d =
     (let c = buf ! i; is_last = (i = length buf - 1); cl = c_tolower c in
      if c = CR then MpNext (i + 1) mark (p\<lparr>mp_state := s_headers_almost_done\<rparr>) d
      else if c = CHR '':'' then
        (case emit_cb (on_header_field st) d (seg buf mark i) of
           (False, d') \<Rightarrow> MpReturn i p d'
         | (True, d') \<Rightarrow> MpNext (i + 1) mark (p\<lparr>mp_state := s_header_value_start\<rparr>) d')
      else if c \<noteq> CHR ''-'' \<and> (schar cl < 97 \<or> schar cl > 122) then MpReturn i p d
      else if is_last then
        (case emit_cb (on_header_field st) d (seg buf mark (i + 1)) of
           (False, d') \<Rightarrow> MpReturn i p d'
         | (True, d') \<Rightarrow> MpNext (i + 1) mark p d')
      else MpNext (i + 1) mark p d)"

definition do_header_value :: "'d multipart_parser_settings \<Rightarrow> bytes \<Rightarrow> nat \<Rightarrow> nat \<Rightarrow> multipart_parser \<Rightarrow> 'd \<Rightarrow> 'd mp_turn" where
  "do_header_value st buf i mark p d =
     (let c = buf ! i; is_last = (i = length buf - 1) in
      if c = CR then
        (case emit_cb (on_header_value st) d (seg buf mark i) of
           (False, d') \<Rightarrow> MpReturn i p d'
         | (True, d') \<Rightarrow> MpNext (i + 1) mark (p\<lparr>mp_state := s_header_value_almost_done\<rparr>) d')
      else if is_last then
        (case emit_cb (on_header_value st) d (seg buf mark (i + 1)) of
           (False, d') \<Rightarrow> MpReturn i p d'
         | (True, d') \<Rightarrow> MpNext (i + 1) mark p d')
      else MpNext (i + 1) mark p d)"

definition do_part_data :: "'d multipart_parser_settings \<Rightarrow> bytes \<Rightarrow> nat \<Rightarrow> nat \<Rightarrow> multipart_parser \<Rightarrow> 'd \<Rightarrow> 'd mp_turn" where
  "do_part_data st buf i mark p d =
     (let c = buf ! i; is_last = (i = length buf - 1) in
      if c = CR then
        (case emit_cb (on_part_data st) d (seg buf mark i) of
           (False, d') \<Rightarrow> MpReturn i p d'
         | (True, d') \<Rightarrow> MpNext (i + 1) i
             (p\<lparr>mp_state := s_part_data_almost_boundary, mp_lookbehind := (mp_lookbehind p)[0 := CR]\<rparr>) d')
      else if is_last then
        (case emit_cb (on_part_data st) d (seg buf mark (i + 1)) of
           (False, d') \<Rightarrow> MpReturn i p d'
         | (True, d') \<Rightarrow> MpNext (i + 1) mark p d')
      else MpNext (i + 1) mark p d)"

text \<open>The switch; a case label that falls through runs the next case in the new state. Where
  the source sets \<open>mark = i --\<close> the next turn sees the same byte.\<close>

definition mp_step :: "'d multipart_parser_settings \<Rightarrow> bytes \<Rightarrow> nat \<Rightarrow> nat \<Rightarrow> multipart_parser \<Rightarrow> 'd \<Rightarrow> 'd mp_turn" where
  "mp_step st buf i mark p d =
     (let c = buf ! i in
      case mp_state p of
        s_start \<Rightarrow> do_start_boundary st buf i mark (p\<lparr>mp_index := 0, mp_state := s_start_boundary\<rparr>) d
      | s_start_boundary \<Rightarrow> do_start_boundary st buf i mark p d
      | s_header_field_start \<Rightarrow> do_header_field st buf i i (p\<lparr>mp_state := s_header_field\<rparr>) d
      | s_header_field \<Rightarrow> do_header_field st buf i mark p d
      | s_headers_almost_done \<Rightarrow>
          if c \<noteq> LF then MpReturn i p d else MpNext (i + 1) mark (p\<lparr>mp_state := s_part_data_start\<rparr>) d
      | s_header_value_start \<Rightarrow>
          if c = SP then MpNext (i + 1) mark p d
          else do_header_value st buf i i (p\<lparr>mp_state := s_header_value\<rparr>) d
      | s_header_value \<Rightarrow> do_header_value st buf i mark p d
      | s_header_value_almost_done \<Rightarrow>
          if c \<noteq> LF then MpReturn i p d else MpNext (i + 1) mark (p\<lparr>mp_state := s_header_field_start\<rparr>) d
      | s_part_data_start \<Rightarrow>
          (case notify_cb (on_headers_complete st) d of
             (False, d') \<Rightarrow> MpReturn i p d'
           | (True, d') \<Rightarrow> do_part_data st buf i i (p\<lparr>mp_state := s_part_data\<rparr>) d')
      | s_part_data \<Rightarrow> do_part_data st buf i mark p d
      | s_part_data_almost_boundary \<Rightarrow>
          if c = LF then
            MpNext (i + 1) mark
              (p\<lparr>mp_state := s_part_data_boundary, mp_lookbehind := (mp_lookbehind p)[1 := LF], mp_index := 0\<rparr>) d
          else
            (case emit_cb (on_part_data st) d (take 1 (mp_lookbehind p)) of
               (False, d') \<Rightarrow> MpReturn i p d'
             | (True, d') \<Rightarrow> MpNext i i (p\<lparr>mp_state := s_part_data\<rparr>) d')
      | s_part_data_boundary \<Rightarrow>
          if boundary_at p \<noteq> c then
            (case emit_cb (on_part_data st) d (take (2 + mp_index p) (mp_lookbehind p)) of
               (False, d') \<Rightarrow> MpReturn i p d'
             | (True, d') \<Rightarrow> MpNext i i (p\<lparr>mp_state := s_part_data\<rparr>) d')
          else let p1 = p\<lparr>mp_lookbehind := (mp_lookbehind p)[2 + mp_index p := c], mp_index := mp_index p + 1\<rparr> in
            if mp_index p1 = mp_boundary_length p1 then
              (case notify_cb (on_part_data_end st) d of
                 (False, d') \<Rightarrow> MpReturn i p1 d'
               | (True, d') \<Rightarrow> MpNext (i + 1) mark (p1\<lparr>mp_state := s_part_data_almost_end\<rparr>) d')
            else MpNext (i + 1) mark p1 d
      | s_part_data_almost_end \<Rightarrow>
          if c = CHR ''-'' then MpNext (i + 1) mark (p\<lparr>mp_state := s_part_data_final_hyphen\<rparr>) d
          else if c = CR then MpNext (i + 1) mark (p\<lparr>mp_state := s_part_data_end\<rparr>) d
          else MpReturn i p d
      | s_part_data_final_hyphen \<Rightarrow>
          if c = CHR ''-'' then
            (case notify_cb (on_body_end st) d of
               (False, d') \<Rightarrow> MpReturn i p d'
             | (True, d') \<Rightarrow> MpNext (i + 1) mark (p\<lparr>mp_state := s_end\<rparr>) d')
          else MpReturn i p d
      | s_part_data_end \<Rightarrow>
          if c = LF then
            let p1 = p\<lparr>mp_state := s_header_field_start\<rparr> in
            (case notify_cb (on_part_data_begin st) d of
               (False, d') \<Rightarrow> MpReturn i p1 d'
             | (True, d') \<Rightarrow> MpNext (i + 1) mark p1 d')
          else MpReturn i p d
      | s_end \<Rightarrow> MpNext (i + 1) mark p d
      | s_uninitialized \<Rightarrow> MpReturn 0 p d)"

definition mp_rescans :: "mp_state \<Rightarrow> bool" where
  "mp_rescans s \<longleftrightarrow> s = s_part_data_almost_boundary \<or> s = s_part_data_boundary"

text \<open>Every turn consumes a byte, or goes from one of the two lookahead states to
  \<open>s_part_data\<close> on the same byte.\<close>

lemma do_next_i:
  "do_start_boundary st buf i mark p d = MpNext i' mark' p' d' \<Longrightarrow> i' = i + 1"
  "do_header_field st buf i mark p d = MpNext i' mark' p' d' \<Longrightarrow> i' = i + 1"
  "do_header_value st buf i mark p d = MpNext i' mark' p' d' \<Longrightarrow> i' = i + 1"
  "do_part_data st buf i mark p d = MpNext i' mark' p' d' \<Longrightarrow> i' = i + 1"
  by (auto simp: do_start_boundary_def do_header_field_def do_header_value_def do_part_data_def Let_def
      split: if_splits prod.splits bool.splits)

lemma mp_step_progress:
  "mp_step st buf i mark p d = MpNext i' mark' p' d' \<Longrightarrow>
   i' = i + 1 \<or> (i' = i \<and> mp_rescans (mp_state p) \<and> \<not> mp_rescans (mp_state p'))"
  by (cases "mp_state p")
    (auto simp: mp_step_def mp_rescans_def Let_def dest: do_next_i split: if_splits prod.splits bool.splits)

function mp_loop :: "'d multipart_parser_settings \<Rightarrow> bytes \<Rightarrow> nat \<Rightarrow> nat \<Rightarrow> multipart_parser \<Rightarrow> 'd
    \<Rightarrow> nat \<times> multipart_parser \<times> 'd" where
  "mp_loop st buf i mark p d =
     (if i < length buf then
        (case mp_step st buf i mark p d of
           MpReturn r p' d' \<Rightarrow> (r, p', d')
         | MpNext i' mark' p' d' \<Rightarrow> mp_loop st buf i' mark' p' d')
      else (length buf, p, d))"
  by pat_completeness auto
termination
  by (relation "measures [\<lambda>(st, buf, i, mark, p, d). length buf - i,
                          \<lambda>(st, buf, i, mark, p, d). if mp_rescans (mp_state p) then 1 else 0]")
    (auto dest: mp_step_progress)

declare mp_loop.simps [simp del]

definition multipart_parser_execute :: "'d multipart_parser_settings \<Rightarrow> multipart_parser \<Rightarrow> bytes \<Rightarrow> 'd
    \<Rightarrow> nat \<times> multipart_parser \<times> 'd" where
  "multipart_parser_execute st p buf d = mp_loop st buf 0 0 p d"

section \<open>A machine that sees one byte at a time\<close>

text \<open>What the callbacks learn, with the data events cut into single bytes.\<close>

datatype mp_tok = TField byte | TValue byte | TData byte | TPartBegin | THeadersComplete | TPartEnd | TBodyEnd

datatype mp_event =
    Ev_header_field bytes | Ev_header_value bytes | Ev_part_data bytes
  | Ev_part_data_begin | Ev_headers_complete | Ev_part_data_end | Ev_body_end

fun ev_toks :: "mp_event \<Rightarrow> mp_tok list" where
  "ev_toks (Ev_header_field bs) = map TField bs"
| "ev_toks (Ev_header_value bs) = map TValue bs"
| "ev_toks (Ev_part_data bs) = map TData bs"
| "ev_toks Ev_part_data_begin = [TPartBegin]"
| "ev_toks Ev_headers_complete = [THeadersComplete]"
| "ev_toks Ev_part_data_end = [TPartEnd]"
| "ev_toks Ev_body_end = [TBodyEnd]"

definition evs_toks :: "mp_event list \<Rightarrow> mp_tok list" where
  "evs_toks es = concat (map ev_toks es)"

lemma evs_toks_simps [simp]:
  "evs_toks [] = []" "evs_toks (e # es) = ev_toks e @ evs_toks es"
  "evs_toks (es @ es') = evs_toks es @ evs_toks es'"
  by (simp_all add: evs_toks_def)

text \<open>Callbacks that record and never stop the parser, as those of \<open>multipart.cpp\<close> never do.\<close>

definition recorder :: "mp_event list multipart_parser_settings" where
  "recorder =
     \<lparr>on_header_field = Some (\<lambda>d bs. (0, d @ [Ev_header_field bs])),
      on_header_value = Some (\<lambda>d bs. (0, d @ [Ev_header_value bs])),
      on_part_data = Some (\<lambda>d bs. (0, d @ [Ev_part_data bs])),
      on_part_data_begin = Some (\<lambda>d. (0, d @ [Ev_part_data_begin])),
      on_headers_complete = Some (\<lambda>d. (0, d @ [Ev_headers_complete])),
      on_part_data_end = Some (\<lambda>d. (0, d @ [Ev_part_data_end])),
      on_body_end = Some (\<lambda>d. (0, d @ [Ev_body_end]))\<rparr>"

type_synonym mp_core = "mp_state \<times> nat"

definition byte_part_data :: "nat \<Rightarrow> byte \<Rightarrow> mp_core \<times> mp_tok list" where
  "byte_part_data n c =
     (if c = CR then ((s_part_data_almost_boundary, n), []) else ((s_part_data, n), [TData c]))"

definition byte_start :: "bytes \<Rightarrow> nat \<Rightarrow> byte \<Rightarrow> (mp_core \<times> mp_tok list) option" where
  "byte_start b n c =
     (if n = length b then (if c = CR then Some ((s_start_boundary, n + 1), []) else None)
      else if n = length b + 1 then (if c = LF then Some ((s_header_field_start, 0), [TPartBegin]) else None)
      else if c = b ! n then Some ((s_start_boundary, n + 1), []) else None)"

definition byte_field :: "nat \<Rightarrow> byte \<Rightarrow> (mp_core \<times> mp_tok list) option" where
  "byte_field n c =
     (if c = CHR '':'' then Some ((s_header_value_start, n), [])
      else if c = CHR ''-'' \<or> c_isalpha c then Some ((s_header_field, n), [TField c])
      else None)"

definition byte_value :: "nat \<Rightarrow> byte \<Rightarrow> mp_core \<times> mp_tok list" where
  "byte_value n c =
     (if c = CR then ((s_header_value_almost_done, n), []) else ((s_header_value, n), [TValue c]))"

text \<open>
  \<open>None\<close> is a rejected byte. A header line that ends without a colon is rejected too: the code
  takes it for the end of the headers and forgets the part of the name that is in the current
  buffer.
\<close>

fun mp_byte :: "bytes \<Rightarrow> mp_core \<Rightarrow> byte \<Rightarrow> (mp_core \<times> mp_tok list) option" where
  "mp_byte b (s_start, n) c = byte_start b 0 c"
| "mp_byte b (s_start_boundary, n) c = byte_start b n c"
| "mp_byte b (s_header_field_start, n) c =
     (if c = CR then Some ((s_headers_almost_done, n), []) else byte_field n c)"
| "mp_byte b (s_header_field, n) c = (if c = CR then None else byte_field n c)"
| "mp_byte b (s_headers_almost_done, n) c = (if c = LF then Some ((s_part_data_start, n), []) else None)"
| "mp_byte b (s_header_value_start, n) c =
     (if c = SP then Some ((s_header_value_start, n), []) else Some (byte_value n c))"
| "mp_byte b (s_header_value, n) c = Some (byte_value n c)"
| "mp_byte b (s_header_value_almost_done, n) c = (if c = LF then Some ((s_header_field_start, n), []) else None)"
| "mp_byte b (s_part_data_start, n) c =
     (case byte_part_data n c of (s', ts) \<Rightarrow> Some (s', THeadersComplete # ts))"
| "mp_byte b (s_part_data, n) c = Some (byte_part_data n c)"
| "mp_byte b (s_part_data_almost_boundary, n) c =
     (if c = LF then Some ((s_part_data_boundary, 0), [])
      else case byte_part_data n c of (s', ts) \<Rightarrow> Some (s', TData CR # ts))"
| "mp_byte b (s_part_data_boundary, n) c =
     (if b ! n = c then
        (if n + 1 = length b then Some ((s_part_data_almost_end, n + 1), [TPartEnd])
         else Some ((s_part_data_boundary, n + 1), []))
      else case byte_part_data n c of (s', ts) \<Rightarrow> Some (s', map TData (CR # LF # take n b) @ ts))"
| "mp_byte b (s_part_data_almost_end, n) c =
     (if c = CHR ''-'' then Some ((s_part_data_final_hyphen, n), [])
      else if c = CR then Some ((s_part_data_end, n), []) else None)"
| "mp_byte b (s_part_data_final_hyphen, n) c = (if c = CHR ''-'' then Some ((s_end, n), [TBodyEnd]) else None)"
| "mp_byte b (s_part_data_end, n) c = (if c = LF then Some ((s_header_field_start, n), [TPartBegin]) else None)"
| "mp_byte b (s_end, n) c = Some ((s_end, n), [])"
| "mp_byte b (s_uninitialized, n) c = None"

fun mp_bytes :: "bytes \<Rightarrow> mp_core \<Rightarrow> bytes \<Rightarrow> (mp_core \<times> mp_tok list) option" where
  "mp_bytes b s [] = Some (s, [])"
| "mp_bytes b s (c # cs) =
     (case mp_byte b s c of
        None \<Rightarrow> None
      | Some (s', ts) \<Rightarrow> (case mp_bytes b s' cs of None \<Rightarrow> None | Some (s'', ts') \<Rightarrow> Some (s'', ts @ ts')))"

lemma mp_bytes_append:
  "mp_bytes b s (xs @ ys) =
     (case mp_bytes b s xs of
        None \<Rightarrow> None
      | Some (s', ts) \<Rightarrow> (case mp_bytes b s' ys of None \<Rightarrow> None | Some (s'', ts') \<Rightarrow> Some (s'', ts @ ts')))"
  by (induction xs arbitrary: s) (auto split: option.splits prod.splits)

section \<open>Refinement\<close>

definition mp_core :: "multipart_parser \<Rightarrow> mp_core" where
  "mp_core p = (mp_state p, mp_index p)"

text \<open>Between calls and between turns: the stored lengths are right, the boundary is not empty,
  the lookbehind holds what was matched, and every index the code uses is in range.\<close>

definition mp_ok :: "multipart_parser \<Rightarrow> bool" where
  "mp_ok p \<longleftrightarrow> mp_boundary_length p = length (mp_boundary p) \<and> mp_boundary p \<noteq> [] \<and>
     length (mp_lookbehind p) = length (mp_boundary p) + 9 \<and>
     (mp_state p = s_start_boundary \<longrightarrow> mp_index p \<le> length (mp_boundary p) + 1) \<and>
     (mp_state p = s_part_data_almost_boundary \<longrightarrow> take 1 (mp_lookbehind p) = [CR]) \<and>
     (mp_state p = s_part_data_boundary \<longrightarrow> mp_index p < length (mp_boundary p) \<and>
        take (2 + mp_index p) (mp_lookbehind p) = CR # LF # take (mp_index p) (mp_boundary p))"

text \<open>The bytes since \<open>mark\<close> that no callback has seen yet.\<close>

definition pending :: "bytes \<Rightarrow> nat \<Rightarrow> nat \<Rightarrow> multipart_parser \<Rightarrow> mp_tok list" where
  "pending buf i mark p =
     (if i < length buf then
        (case mp_state p of
           s_header_field \<Rightarrow> map TField (seg buf mark i)
         | s_header_value \<Rightarrow> map TValue (seg buf mark i)
         | s_part_data \<Rightarrow> map TData (seg buf mark i)
         | _ \<Rightarrow> [])
      else [])"

lemma seg_snoc: "mark \<le> i \<Longrightarrow> i < length buf \<Longrightarrow> seg buf mark (Suc i) = seg buf mark i @ [buf ! i]"
  by (simp add: seg_def Suc_diff_le take_Suc_conv_app_nth)

lemma seg_same [simp]: "seg buf i i = []"
  by (simp add: seg_def)

lemma recorder_cbs [simp]:
  "emit_cb (on_header_field recorder) d bs = (True, d @ [Ev_header_field bs])"
  "emit_cb (on_header_value recorder) d bs = (True, d @ [Ev_header_value bs])"
  "emit_cb (on_part_data recorder) d bs = (True, d @ [Ev_part_data bs])"
  "notify_cb (on_part_data_begin recorder) d = (True, d @ [Ev_part_data_begin])"
  "notify_cb (on_headers_complete recorder) d = (True, d @ [Ev_headers_complete])"
  "notify_cb (on_part_data_end recorder) d = (True, d @ [Ev_part_data_end])"
  "notify_cb (on_body_end recorder) d = (True, d @ [Ev_body_end])"
  by (simp_all add: recorder_def emit_cb_def notify_cb_def)

lemma field_char_iff: "\<not> (schar (c_tolower c) < 97 \<or> schar (c_tolower c) > 122) \<longleftrightarrow> c_isalpha c"
  using uchar_less [of c] by (auto simp: ctype_simps schar_def simp del: uchar_less)

lemma take_update_snoc: "n < length xs \<Longrightarrow> take (Suc n) (xs[n := x]) = take n xs @ [x]"
  by (simp add: take_Suc_conv_app_nth)

text \<open>A turn that consumes its byte, reaches the core state \<open>s'\<close> and delivers \<open>ts\<close> after what
  was pending before.\<close>

definition sim_turn :: "bytes \<Rightarrow> nat \<Rightarrow> bytes \<Rightarrow> mp_tok list \<Rightarrow> mp_event list \<Rightarrow> mp_event list mp_turn
    \<Rightarrow> mp_core \<times> mp_tok list \<Rightarrow> bool" where
  "sim_turn buf i b pre d turn r \<longleftrightarrow>
     (\<exists>mark' p' es. turn = MpNext (i + 1) mark' p' (d @ es) \<and> mp_core p' = fst r \<and> mp_ok p' \<and>
        mp_boundary p' = b \<and> mark' \<le> i + 1 \<and> evs_toks es @ pending buf (i + 1) mark' p' = pre @ snd r)"

lemma sim_turnI:
  "turn = MpNext (i + 1) mark' p' (d @ es) \<Longrightarrow> mp_core p' = s' \<Longrightarrow> mp_ok p' \<Longrightarrow> mp_boundary p' = b \<Longrightarrow>
   mark' \<le> i + 1 \<Longrightarrow> evs_toks es @ pending buf (i + 1) mark' p' = pre @ ts \<Longrightarrow> sim_turn buf i b pre d turn (s', ts)"
  by (auto simp: sim_turn_def)

lemma start_sim:
  assumes "mp_ok p" "mark \<le> i" "mp_state p = s_start_boundary"
    and "byte_start (mp_boundary p) (mp_index p) (buf ! i) = Some r"
  shows "sim_turn buf i (mp_boundary p) [] d (do_start_boundary recorder buf i mark p d) r"
proof -
  have ok: "mp_boundary_length p = length (mp_boundary p)" "mp_index p \<le> length (mp_boundary p) + 1"
    using assms by (auto simp: mp_ok_def)
  show ?thesis
  proof (cases "mp_index p = length (mp_boundary p) + 1")
    case True
    then show ?thesis
      using assms ok
      by (auto simp: byte_start_def do_start_boundary_def Let_def mp_ok_def mp_core_def pending_def
          split: if_splits intro!: sim_turnI [where es = "[Ev_part_data_begin]"])
  next
    case False
    then show ?thesis
      using assms ok
      by (auto simp: byte_start_def do_start_boundary_def Let_def mp_ok_def mp_core_def pending_def boundary_at_def
          split: if_splits intro!: sim_turnI [where es = "[]"])
  qed
qed

lemma field_sim:
  assumes "mp_ok p" "i < length buf" "mark \<le> i" "mp_state p = s_header_field" "buf ! i \<noteq> CR"
    and "byte_field (mp_index p) (buf ! i) = Some r"
  shows "sim_turn buf i (mp_boundary p) (map TField (seg buf mark i)) d (do_header_field recorder buf i mark p d) r"
proof (cases "buf ! i = CHR '':''")
  case True
  then show ?thesis
    using assms
    by (auto simp: byte_field_def do_header_field_def Let_def mp_ok_def mp_core_def pending_def
        intro!: sim_turnI [where es = "[Ev_header_field (seg buf mark i)]"])
next
  case False
  then have ok: "\<not> (buf ! i \<noteq> CHR ''-'' \<and> (schar (c_tolower (buf ! i)) < 97 \<or> schar (c_tolower (buf ! i)) > 122))"
    and r: "r = ((s_header_field, mp_index p), [TField (buf ! i)])"
    using assms(6) field_char_iff [of "buf ! i"] by (auto simp: byte_field_def split: if_splits)
  show ?thesis
  proof (cases "i = length buf - 1")
    case True
    then show ?thesis
      unfolding r using assms False ok
      by (intro sim_turnI [where es = "[Ev_header_field (seg buf mark (i + 1))]"])
        (auto simp: do_header_field_def Let_def mp_core_def pending_def seg_snoc)
  next
    case nl: False
    then show ?thesis
      unfolding r using assms False ok
      by (intro sim_turnI [where es = "[]"])
        (auto simp: do_header_field_def Let_def mp_core_def pending_def seg_snoc)
  qed
qed

lemma value_sim:
  assumes "mp_ok p" "i < length buf" "mark \<le> i" "mp_state p = s_header_value"
  shows "sim_turn buf i (mp_boundary p) (map TValue (seg buf mark i)) d (do_header_value recorder buf i mark p d)
           (byte_value (mp_index p) (buf ! i))"
proof -
  consider "buf ! i = CR" | "buf ! i \<noteq> CR" "i = length buf - 1" | "buf ! i \<noteq> CR" "i \<noteq> length buf - 1" by blast
  then show ?thesis
  proof cases
    case 1
    then show ?thesis using assms
      by (auto simp: byte_value_def do_header_value_def mp_ok_def mp_core_def pending_def
          intro!: sim_turnI [where es = "[Ev_header_value (seg buf mark i)]"])
  next
    case 2
    then show ?thesis using assms
      by (auto simp: byte_value_def do_header_value_def mp_core_def pending_def seg_snoc
          intro!: sim_turnI [where es = "[Ev_header_value (seg buf mark (i + 1))]"])
  next
    case 3
    then show ?thesis using assms
      by (auto simp: byte_value_def do_header_value_def mp_core_def pending_def seg_snoc
          intro!: sim_turnI [where es = "[]"])
  qed
qed

lemma data_sim:
  assumes "mp_ok p" "i < length buf" "mark \<le> i" "mp_state p = s_part_data"
  shows "sim_turn buf i (mp_boundary p) (map TData (seg buf mark i)) d (do_part_data recorder buf i mark p d)
           (byte_part_data (mp_index p) (buf ! i))"
proof -
  consider "buf ! i = CR" | "buf ! i \<noteq> CR" "i = length buf - 1" | "buf ! i \<noteq> CR" "i \<noteq> length buf - 1" by blast
  then show ?thesis
  proof cases
    case 1
    then show ?thesis using assms
      by (auto simp: byte_part_data_def do_part_data_def mp_ok_def mp_core_def pending_def take_update_snoc
          intro!: sim_turnI [where es = "[Ev_part_data (seg buf mark i)]"])
  next
    case 2
    then show ?thesis using assms
      by (auto simp: byte_part_data_def do_part_data_def mp_core_def pending_def seg_snoc
          intro!: sim_turnI [where es = "[Ev_part_data (seg buf mark (i + 1))]"])
  next
    case 3
    then show ?thesis using assms
      by (auto simp: byte_part_data_def do_part_data_def mp_core_def pending_def seg_snoc
          intro!: sim_turnI [where es = "[]"])
  qed
qed

lemma mp_ok_state:
  "mp_ok p \<Longrightarrow> s \<notin> {s_start_boundary, s_part_data_almost_boundary, s_part_data_boundary} \<Longrightarrow> mp_ok (p\<lparr>mp_state := s\<rparr>)"
  by (auto simp: mp_ok_def)

lemma sim_turn_cons:
  "sim_turn buf i b pre (d @ [e]) turn (s', ts) \<Longrightarrow> sim_turn buf i b [] d turn (s', ev_toks e @ pre @ ts)"
  unfolding sim_turn_def by (metis append.assoc append_Cons append_Nil append_same_eq evs_toks_simps(2) fst_conv snd_conv)

text \<open>Every turn but the two that look at their byte again.\<close>

lemma mp_step_sim:
  assumes ok: "mp_ok p" and i: "i < length buf" and mark: "mark \<le> i"
    and byte: "mp_byte (mp_boundary p) (mp_core p) (buf ! i) = Some r"
    and ab: "mp_state p = s_part_data_almost_boundary \<Longrightarrow> buf ! i = LF"
    and bd: "mp_state p = s_part_data_boundary \<Longrightarrow> buf ! i = boundary_at p"
  shows "sim_turn buf i (mp_boundary p) (pending buf i mark p) d (mp_step recorder buf i mark p d) r"
proof (cases "mp_state p")
  case s_uninitialized
  then show ?thesis using byte by (simp add: mp_core_def)
next
  case s_start
  let ?q = "p\<lparr>mp_index := 0, mp_state := s_start_boundary\<rparr>"
  have "mp_ok ?q" using ok by (auto simp: mp_ok_def)
  from start_sim [OF this mark] s_start byte show ?thesis
    by (simp add: mp_step_def mp_core_def pending_def)
next
  case s_start_boundary
  with start_sim [OF ok mark] byte show ?thesis by (simp add: mp_step_def mp_core_def pending_def)
next
  case s_header_field_start
  let ?q = "p\<lparr>mp_state := s_header_field\<rparr>"
  have q: "mp_ok ?q" using ok by (auto simp: mp_ok_def)
  show ?thesis
  proof (cases "buf ! i = CR")
    case True
    then show ?thesis using s_header_field_start byte q
      by (auto simp: mp_step_def mp_core_def pending_def do_header_field_def mp_ok_def
          intro!: sim_turnI [where es = "[]"])
  next
    case False
    then show ?thesis
      using field_sim [OF q i order.refl] s_header_field_start byte by (simp add: mp_step_def mp_core_def pending_def)
  qed
next
  case s_header_field
  with field_sim [OF ok i mark] byte i show ?thesis
    by (auto simp: mp_step_def mp_core_def pending_def split: if_splits)
next
  case s_headers_almost_done
  then show ?thesis using byte mark ok
    by (auto simp: mp_step_def mp_core_def pending_def mp_ok_def split: if_splits intro!: sim_turnI [where es = "[]"])
next
  case s_header_value_start
  let ?q = "p\<lparr>mp_state := s_header_value\<rparr>"
  have q: "mp_ok ?q" using ok by (auto simp: mp_ok_def)
  show ?thesis
  proof (cases "buf ! i = SP")
    case True
    then show ?thesis using s_header_value_start byte mark ok
      by (auto simp: mp_step_def mp_core_def pending_def intro!: sim_turnI [where es = "[]"])
  next
    case False
    then show ?thesis
      using value_sim [OF q i order.refl] s_header_value_start byte by (simp add: mp_step_def mp_core_def pending_def)
  qed
next
  case s_header_value
  with value_sim [OF ok i mark] byte i show ?thesis by (simp add: mp_step_def mp_core_def pending_def)
next
  case s_header_value_almost_done
  then show ?thesis using byte mark ok
    by (auto simp: mp_step_def mp_core_def pending_def mp_ok_def split: if_splits intro!: sim_turnI [where es = "[]"])
next
  case s_part_data_start
  let ?q = "p\<lparr>mp_state := s_part_data\<rparr>"
  have q: "mp_ok ?q" using ok by (auto simp: mp_ok_def)
  obtain s' ts where b: "byte_part_data (mp_index p) (buf ! i) = (s', ts)" by fastforce
  have "sim_turn buf i (mp_boundary p) [] (d @ [Ev_headers_complete])
      (do_part_data recorder buf i i ?q (d @ [Ev_headers_complete])) (s', ts)"
    using data_sim [OF q i order.refl] b by simp
  from sim_turn_cons [OF this] s_part_data_start byte b show ?thesis
    by (auto simp: mp_step_def mp_core_def pending_def)
next
  case s_part_data
  with data_sim [OF ok i mark] byte i show ?thesis by (simp add: mp_step_def mp_core_def pending_def)
next
  case s_part_data_almost_boundary
  have lb: "take 1 (mp_lookbehind p) = [CR]" "length (mp_lookbehind p) = length (mp_boundary p) + 9"
    using ok s_part_data_almost_boundary by (auto simp: mp_ok_def)
  then have "take 2 ((mp_lookbehind p)[1 := LF]) = [CR, LF]"
    using take_update_snoc [of 1 "mp_lookbehind p" LF] by (simp add: numeral_2_eq_2)
  then show ?thesis using s_part_data_almost_boundary byte mark ok ab
    by (auto simp: mp_step_def mp_core_def pending_def mp_ok_def intro!: sim_turnI [where es = "[]"])
next
  case s_part_data_boundary
  let ?n = "mp_index p"
  have lb: "?n < length (mp_boundary p)" "take (2 + ?n) (mp_lookbehind p) = CR # LF # take ?n (mp_boundary p)"
    "length (mp_lookbehind p) = length (mp_boundary p) + 9" "mp_boundary_length p = length (mp_boundary p)"
    using ok s_part_data_boundary by (auto simp: mp_ok_def)
  have c: "buf ! i = mp_boundary p ! ?n" using bd s_part_data_boundary lb by (simp add: boundary_at_def)
  have "take (2 + Suc ?n) ((mp_lookbehind p)[2 + ?n := buf ! i]) = CR # LF # take (Suc ?n) (mp_boundary p)"
    using take_update_snoc [of "2 + ?n" "mp_lookbehind p" "buf ! i"] lb c by (simp add: take_Suc_conv_app_nth)
  note facts = this s_part_data_boundary byte mark ok lb c
  show ?thesis
  proof (cases "Suc ?n = length (mp_boundary p)")
    case True
    with facts show ?thesis
      by (auto simp: mp_step_def mp_core_def pending_def mp_ok_def boundary_at_def Let_def
          intro!: sim_turnI [where es = "[Ev_part_data_end]"])
  next
    case False
    with facts show ?thesis
      by (auto simp: mp_step_def mp_core_def pending_def mp_ok_def boundary_at_def Let_def
          intro!: sim_turnI [where es = "[]"])
  qed
next
  case s_part_data_almost_end
  then show ?thesis using byte mark ok
    by (auto simp: mp_step_def mp_core_def pending_def mp_ok_def split: if_splits intro!: sim_turnI [where es = "[]"])
next
  case s_part_data_end
  then show ?thesis using byte mark ok
    by (auto simp: mp_step_def mp_core_def pending_def mp_ok_def Let_def split: if_splits
        intro!: sim_turnI [where es = "[Ev_part_data_begin]"])
next
  case s_part_data_final_hyphen
  then show ?thesis using byte mark ok
    by (auto simp: mp_step_def mp_core_def pending_def mp_ok_def split: if_splits
        intro!: sim_turnI [where es = "[Ev_body_end]"])
next
  case s_end
  then show ?thesis using byte mark ok
    by (auto simp: mp_step_def mp_core_def pending_def intro!: sim_turnI [where es = "[]"])
qed

text \<open>The turns that give the matched bytes back and look at their byte again.\<close>

lemma mp_step_rescan:
  assumes ok: "mp_ok p" and i: "i < length buf"
    and re: "mp_state p = s_part_data_almost_boundary \<and> buf ! i \<noteq> LF \<and> pre = [CR] \<or>
      mp_state p = s_part_data_boundary \<and> buf ! i \<noteq> boundary_at p \<and> pre = CR # LF # take (mp_index p) (mp_boundary p)"
  shows "mp_step recorder buf i mark p d = MpNext i i (p\<lparr>mp_state := s_part_data\<rparr>) (d @ [Ev_part_data pre])"
    and "mp_ok (p\<lparr>mp_state := s_part_data\<rparr>)" and "pending buf i mark p = []"
    and "mp_byte (mp_boundary p) (mp_core p) (buf ! i) =
      Some (case byte_part_data (mp_index p) (buf ! i) of (s', ts) \<Rightarrow> (s', map TData pre @ ts))"
  using re ok
  by (auto simp: mp_step_def mp_ok_def pending_def mp_core_def boundary_at_def split: prod.splits)

lemma mp_loop_sim:
  "mp_ok p \<Longrightarrow> mark \<le> i \<Longrightarrow> i \<le> length buf \<Longrightarrow> mp_bytes (mp_boundary p) (mp_core p) (drop i buf) = Some (s', ts) \<Longrightarrow>
   \<exists>p' es. mp_loop recorder buf i mark p d = (length buf, p', d @ es) \<and> mp_core p' = s' \<and> mp_ok p' \<and>
     mp_boundary p' = mp_boundary p \<and> evs_toks es = pending buf i mark p @ ts"
proof (induction "length buf - i" arbitrary: i mark p d ts)
  case 0
  then show ?case by (auto simp: mp_loop.simps [of _ _ i] pending_def intro!: exI [of _ "[]"])
next
  case (Suc n)
  then have i: "i < length buf" by simp
  then have dr: "drop i buf = buf ! i # drop (i + 1) buf" by (simp add: Cons_nth_drop_Suc)
  obtain s1 t1 t2 where byte: "mp_byte (mp_boundary p) (mp_core p) (buf ! i) = Some (s1, t1)"
    and rest: "mp_bytes (mp_boundary p) s1 (drop (i + 1) buf) = Some (s', t2)" and ts: "ts = t1 @ t2"
    using Suc.prems(4) by (auto simp: dr split: option.splits prod.splits)
  have finish: ?case
    if l: "mp_loop recorder buf i mark p d = mp_loop recorder buf i mark0 p0 (d @ es0)"
      and sim: "sim_turn buf i (mp_boundary p) pre (d @ es0) (mp_step recorder buf i mark0 p0 (d @ es0)) (s1, t0)"
      and eq: "evs_toks es0 @ pre @ t0 = pending buf i mark p @ t1"
    for mark0 p0 es0 pre t0
  proof -
    from sim obtain mark' p' es where st: "mp_step recorder buf i mark0 p0 (d @ es0) = MpNext (i + 1) mark' p' ((d @ es0) @ es)"
      and p': "mp_core p' = s1" "mp_ok p'" "mp_boundary p' = mp_boundary p" "mark' \<le> i + 1"
      and tk: "evs_toks es @ pending buf (i + 1) mark' p' = pre @ t0"
      by (auto simp: sim_turn_def)
    have "\<exists>p'' es'. mp_loop recorder buf (i + 1) mark' p' ((d @ es0) @ es) = (length buf, p'', ((d @ es0) @ es) @ es') \<and>
        mp_core p'' = s' \<and> mp_ok p'' \<and> mp_boundary p'' = mp_boundary p' \<and> evs_toks es' = pending buf (i + 1) mark' p' @ t2"
      using Suc.hyps(2) i p' rest by (intro Suc.hyps(1)) auto
    then obtain p'' es' where r: "mp_loop recorder buf (i + 1) mark' p' ((d @ es0) @ es) = (length buf, p'', ((d @ es0) @ es) @ es')"
      and fin: "mp_core p'' = s'" "mp_ok p''" "mp_boundary p'' = mp_boundary p'" "evs_toks es' = pending buf (i + 1) mark' p' @ t2"
      by blast
    have "mp_loop recorder buf i mark p d = (length buf, p'', d @ (es0 @ es @ es'))"
      using l st r i by (simp add: mp_loop.simps [of _ _ i])
    moreover have "evs_toks (es0 @ es @ es') = pending buf i mark p @ ts"
      using tk eq fin(4) ts by (metis append.assoc evs_toks_simps(3))
    ultimately show ?thesis using fin p' by auto
  qed
  consider (ab) "mp_state p = s_part_data_almost_boundary" "buf ! i \<noteq> LF"
    | (bd) "mp_state p = s_part_data_boundary" "buf ! i \<noteq> boundary_at p"
    | (plain) "mp_state p = s_part_data_almost_boundary \<longrightarrow> buf ! i = LF" "mp_state p = s_part_data_boundary \<longrightarrow> buf ! i = boundary_at p"
    by blast
  then show ?case
  proof cases
    case plain
    then show ?thesis
      using finish [of mark p "[]" "pending buf i mark p" t1] mp_step_sim [OF Suc.prems(1) i Suc.prems(2) byte] by simp
  next
    case ab
    note re = mp_step_rescan [OF Suc.prems(1) i, of "[CR]"]
    let ?q = "p\<lparr>mp_state := s_part_data\<rparr>"
    have "mp_step recorder buf i i ?q d' = do_part_data recorder buf i i ?q d'" for d'
      by (simp add: mp_step_def)
    then show ?thesis
      using finish [of i ?q "[Ev_part_data [CR]]" "[]"] re ab i byte
        data_sim [OF re(2) i order.refl, of "d @ [Ev_part_data [CR]]"]
      by (auto simp: mp_loop.simps [of _ _ i mark] split: prod.splits)
  next
    case bd
    let ?prefix = "CR # LF # take (mp_index p) (mp_boundary p)"
    note re = mp_step_rescan [OF Suc.prems(1) i, of ?prefix]
    let ?q = "p\<lparr>mp_state := s_part_data\<rparr>"
    have "mp_step recorder buf i i ?q d' = do_part_data recorder buf i i ?q d'" for d'
      by (simp add: mp_step_def)
    then show ?thesis
      using finish [of i ?q "[Ev_part_data ?prefix]" "[]"] re bd i byte
        data_sim [OF re(2) i order.refl, of "d @ [Ev_part_data ?prefix]"]
      by (auto simp: mp_loop.simps [of _ _ i mark] split: prod.splits)
  qed
qed

section \<open>Well-formed bodies\<close>

text \<open>A body as RFC 7578 clients write it; the boundary string includes its two leading hyphens.\<close>

type_synonym mp_part = "(bytes \<times> bytes) list \<times> bytes"

definition enc_header :: "bytes \<times> bytes \<Rightarrow> bytes" where
  "enc_header h = fst h @ [CHR '':'', SP] @ snd h @ CRLF"

definition enc_part :: "bytes \<Rightarrow> mp_part \<Rightarrow> bytes" where
  "enc_part b q = CRLF @ concat (map enc_header (fst q)) @ CRLF @ snd q @ CRLF @ b"

definition enc_form :: "bytes \<Rightarrow> mp_part list \<Rightarrow> bytes" where
  "enc_form b qs = b @ concat (map (enc_part b) qs) @ [CHR ''-'', CHR ''-'']"

definition header_toks :: "bytes \<times> bytes \<Rightarrow> mp_tok list" where
  "header_toks h = map TField (fst h) @ map TValue (snd h)"

definition part_toks :: "mp_part \<Rightarrow> mp_tok list" where
  "part_toks q = TPartBegin # concat (map header_toks (fst q)) @ THeadersComplete # map TData (snd q) @ [TPartEnd]"

text \<open>Names of letters and hyphens, values without CR or leading space, data in which the
  delimiter does not occur.\<close>

definition good_header :: "bytes \<times> bytes \<Rightarrow> bool" where
  "good_header h \<longleftrightarrow> (\<forall>c \<in> set (fst h). c = CHR ''-'' \<or> c_isalpha c) \<and> CR \<notin> set (snd h) \<and> hd (snd h @ [CR]) \<noteq> SP"

definition good_part :: "bytes \<Rightarrow> mp_part \<Rightarrow> bool" where
  "good_part b q \<longleftrightarrow> (\<forall>h \<in> set (fst q). good_header h) \<and> \<not> sublist (CR # LF # b) (snd q)"

lemma good_name_char:
  "c = CHR ''-'' \<or> c_isalpha c \<Longrightarrow> c \<noteq> CR \<and> byte_field n c = Some ((s_header_field, n), [TField c])"
  by (auto simp: byte_field_def) (auto simp: ctype_simps uchar_def)

lemma field_run:
  "\<forall>c \<in> set name. c = CHR ''-'' \<or> c_isalpha c \<Longrightarrow>
   mp_bytes b (s_header_field, n) (name @ [CHR '':'']) = Some ((s_header_value_start, n), map TField name)"
proof (induction name)
  case (Cons c name)
  then show ?case using good_name_char [of c n] by simp
qed (simp add: byte_field_def)

lemma name_run:
  "\<forall>c \<in> set name. c = CHR ''-'' \<or> c_isalpha c \<Longrightarrow>
   mp_bytes b (s_header_field_start, n) (name @ [CHR '':'']) = Some ((s_header_value_start, n), map TField name)"
proof (cases name)
  case (Cons c cs)
  assume "\<forall>c \<in> set name. c = CHR ''-'' \<or> c_isalpha c"
  with Cons show ?thesis using good_name_char [of c n] field_run [of cs b n] by simp
qed (simp add: byte_field_def)

lemma value_tail_run:
  "CR \<notin> set v \<Longrightarrow> mp_bytes b (s_header_value, n) (v @ CRLF) = Some ((s_header_field_start, n), map TValue v)"
  by (induction v) (auto simp: byte_value_def)

lemma value_run:
  "CR \<notin> set v \<Longrightarrow> hd (v @ [CR]) \<noteq> SP \<Longrightarrow>
   mp_bytes b (s_header_value_start, n) (SP # v @ CRLF) = Some ((s_header_field_start, n), map TValue v)"
  using value_tail_run [of "tl v" b n] by (cases v) (auto simp: byte_value_def)

lemma header_run:
  assumes "good_header h"
  shows "mp_bytes b (s_header_field_start, n) (enc_header h) = Some ((s_header_field_start, n), header_toks h)"
proof -
  have "enc_header h = (fst h @ [CHR '':'']) @ (SP # snd h @ CRLF)" by (simp add: enc_header_def)
  then show ?thesis
    using assms name_run [of "fst h" b n] value_run [of "snd h" b n]
    by (simp only: mp_bytes_append) (simp add: good_header_def header_toks_def)
qed

lemma headers_run:
  "\<forall>h \<in> set hs. good_header h \<Longrightarrow>
   mp_bytes b (s_header_field_start, n) (concat (map enc_header hs)) = Some ((s_header_field_start, n), concat (map header_toks hs))"
  by (induction hs) (simp_all add: mp_bytes_append header_run)

text \<open>\<open>k\<close> bytes of the delimiter are matched.\<close>

definition matched :: "bytes \<Rightarrow> nat \<Rightarrow> mp_core \<Rightarrow> bool" where
  "matched b k s \<longleftrightarrow> (k = 0 \<and> fst s = s_part_data) \<or> (k = 1 \<and> fst s = s_part_data_almost_boundary) \<or>
     (\<exists>n < length b. k = n + 2 \<and> s = (s_part_data_boundary, n))"

abbreviation delim :: "bytes \<Rightarrow> bytes" where
  "delim b \<equiv> CR # LF # b"

lemma matched_CR:
  assumes "matched b k s" and "CR \<notin> set b"
  shows "\<exists>n. mp_byte b s CR = Some ((s_part_data_almost_boundary, n), map TData (take k (delim b)))"
proof -
  obtain st n where s: "s = (st, n)" by fastforce
  have "n < length b \<Longrightarrow> b ! n \<noteq> CR" using assms(2) nth_mem by fastforce
  with assms(1) s show ?thesis
    by (auto simp: matched_def byte_part_data_def)
qed

lemma matched_byte:
  assumes "matched b k s" and "CR \<notin> set b"
  shows "(\<exists>s' k' out. mp_byte b s c = Some (s', map TData out) \<and> matched b k' s' \<and> take k (delim b) @ [c] = out @ take k' (delim b)) \<or>
     take k (delim b) @ [c] = delim b"
proof (cases "c = CR")
  case True
  from matched_CR [OF assms] obtain n where "mp_byte b s CR = Some ((s_part_data_almost_boundary, n), map TData (take k (delim b)))" by blast
  with True show ?thesis by (force simp: matched_def)
next
  case False
  obtain st n where s: "s = (st, n)" by fastforce
  from assms(1) s consider (data) "k = 0" "st = s_part_data" | (ab) "k = 1" "st = s_part_data_almost_boundary"
    | (bd) "k = n + 2" "st = s_part_data_boundary" "n < length b"
    by (auto simp: matched_def)
  then show ?thesis
  proof cases
    case data
    with False s show ?thesis
      by (intro disjI1 exI [of _ "(s_part_data, n)"] exI [of _ 0] exI [of _ "[c]"]) (simp add: byte_part_data_def matched_def)
  next
    case ab
    show ?thesis
    proof (cases "c = LF")
      case True
      show ?thesis
      proof (cases "b = []")
        case False
        with True ab s show ?thesis
          by (intro disjI1 exI [of _ "(s_part_data_boundary, 0)"] exI [of _ 2] exI [of _ "[]"]) (auto simp: matched_def)
      qed (use True ab in simp)
    next
      case nl: False
      with False ab s show ?thesis
        by (intro disjI1 exI [of _ "(s_part_data, n)"] exI [of _ 0] exI [of _ "[CR, c]"]) (simp add: byte_part_data_def matched_def)
    qed
  next
    case bd
    show ?thesis
    proof (cases "c = b ! n")
      case True
      show ?thesis
      proof (cases "Suc n = length b")
        case last: True
        have "take n b @ [b ! n] = b" using bd(3) last by (simp add: take_Suc_conv_app_nth [symmetric])
        with bd(1) True show ?thesis by simp
      next
        case nl: False
        with bd True s show ?thesis
          by (intro disjI1 exI [of _ "(s_part_data_boundary, Suc n)"] exI [of _ "Suc (Suc (Suc n))"] exI [of _ "[]"])
            (auto simp: matched_def take_Suc_conv_app_nth)
      qed
    next
      case miss: False
      with False bd s show ?thesis
        by (intro disjI1 exI [of _ "(s_part_data, n)"] exI [of _ 0] exI [of _ "delim (take n b) @ [c]"])
          (auto simp: byte_part_data_def matched_def)
    qed
  qed
qed

lemma data_run:
  "CR \<notin> set b \<Longrightarrow> \<not> sublist (delim b) bs \<Longrightarrow>
   \<exists>s k out. mp_bytes b (s_part_data, n) bs = Some (s, map TData out) \<and> matched b k s \<and> bs = out @ take k (delim b)"
proof (induction bs rule: rev_induct)
  case Nil
  then show ?case by (auto simp: matched_def intro!: exI [of _ 0])
next
  case (snoc c bs)
  then have "\<not> sublist (delim b) bs" by (meson sublist_append_rightI sublist_order.order.trans)
  with snoc obtain s k out where r: "mp_bytes b (s_part_data, n) bs = Some (s, map TData out)"
    and m: "matched b k s" and bs: "bs = out @ take k (delim b)" by blast
  from matched_byte [OF m snoc.prems(1), of c] show ?case
  proof
    assume "take k (delim b) @ [c] = delim b"
    with bs have "bs @ [c] = out @ delim b" by simp
    with snoc.prems(2) show ?thesis by (metis sublist_append_leftI)
  next
    assume "\<exists>s' k' out'. mp_byte b s c = Some (s', map TData out') \<and> matched b k' s' \<and> take k (delim b) @ [c] = out' @ take k' (delim b)"
    then obtain s' k' out' where "mp_byte b s c = Some (s', map TData out')" "matched b k' s'"
      "take k (delim b) @ [c] = out' @ take k' (delim b)" by blast
    moreover from this r have "mp_bytes b (s_part_data, n) (bs @ [c]) = Some (s', map TData (out @ out'))"
      by (simp add: mp_bytes_append)
    ultimately show ?thesis
      using bs by (intro exI [of _ s'] exI [of _ k'] exI [of _ "out @ out'"]) simp
  qed
qed

lemma boundary_run:
  "n < length b \<Longrightarrow> mp_bytes b (s_part_data_boundary, n) (drop n b) = Some ((s_part_data_almost_end, length b), [TPartEnd])"
proof (induction "length b - n" arbitrary: n)
  case (Suc m)
  have d: "drop n b = b ! n # drop (Suc n) b" using Suc.prems by (simp add: Cons_nth_drop_Suc)
  show ?case
  proof (cases "Suc n = length b")
    case True
    then show ?thesis using d by simp
  next
    case False
    then show ?thesis using Suc d by simp
  qed
qed simp

lemma part_data_run:
  assumes "CR \<notin> set b" "b \<noteq> []" "\<not> sublist (delim b) bs"
  shows "mp_bytes b (s_part_data, n) (bs @ delim b) = Some ((s_part_data_almost_end, length b), map TData bs @ [TPartEnd])"
proof -
  obtain s k out where r: "mp_bytes b (s_part_data, n) bs = Some (s, map TData out)"
    and m: "matched b k s" and bs: "bs = out @ take k (delim b)" using data_run [OF assms(1,3)] by blast
  obtain n' where "mp_byte b s CR = Some ((s_part_data_almost_boundary, n'), map TData (take k (delim b)))"
    using matched_CR [OF m assms(1)] by blast
  then have "mp_bytes b (s_part_data, n) (bs @ delim b)
      = Some ((s_part_data_almost_end, length b), map TData (out @ take k (delim b)) @ [TPartEnd])"
    using r boundary_run [of 0 b] assms(2) by (simp add: mp_bytes_append)
  then show ?thesis by (simp only: bs [symmetric])
qed

lemma part_data_start_run:
  "mp_bytes b (s_part_data_start, n) (c # cs) =
     map_option (\<lambda>(s, ts). (s, THeadersComplete # ts)) (mp_bytes b (s_part_data, n) (c # cs))"
  by (auto simp: byte_part_data_def split: option.splits)

lemma part_run:
  assumes "CR \<notin> set b" "b \<noteq> []" "good_part b q"
  shows "mp_bytes b (s_part_data_almost_end, n) (enc_part b q) = Some ((s_part_data_almost_end, length b), part_toks q)"
    and "mp_bytes b (s_start_boundary, length b) (enc_part b q) = Some ((s_part_data_almost_end, length b), part_toks q)"
proof -
  have body: "mp_bytes b (s_header_field_start, j) (concat (map enc_header (fst q)) @ CRLF @ snd q @ delim b)
      = Some ((s_part_data_almost_end, length b), tl (part_toks q))" for j
  proof -
    have "mp_bytes b (s_part_data_start, j) (snd q @ delim b)
        = Some ((s_part_data_almost_end, length b), THeadersComplete # map TData (snd q) @ [TPartEnd])"
      using part_data_start_run [of b j "hd (snd q @ delim b)" "tl (snd q @ delim b)"]
        part_data_run [OF assms(1,2), of "snd q" j] assms(3)
      by (simp add: good_part_def)
    then show ?thesis
      using headers_run [of "fst q" b j] assms(3)
      by (simp add: mp_bytes_append good_part_def part_toks_def)
  qed
  have e: "enc_part b q = CR # LF # (concat (map enc_header (fst q)) @ CRLF @ snd q @ delim b)"
    by (simp add: enc_part_def)
  show "mp_bytes b (s_part_data_almost_end, n) (enc_part b q) = Some ((s_part_data_almost_end, length b), part_toks q)"
    using body [of n] unfolding e by (simp add: part_toks_def)
  show "mp_bytes b (s_start_boundary, length b) (enc_part b q) = Some ((s_part_data_almost_end, length b), part_toks q)"
    using body [of 0] unfolding e by (simp add: part_toks_def byte_start_def)
qed

lemma parts_run:
  assumes "CR \<notin> set b" "b \<noteq> []" "\<forall>q \<in> set qs. good_part b q"
  shows "mp_bytes b (s_part_data_almost_end, length b) (concat (map (enc_part b) qs))
    = Some ((s_part_data_almost_end, length b), concat (map part_toks qs))"
  using assms(3) by (induction qs) (simp_all add: mp_bytes_append part_run assms(1,2))

lemma start_run:
  "n \<le> length b \<Longrightarrow> mp_bytes b (s_start_boundary, n) (drop n b) = Some ((s_start_boundary, length b), [])"
proof (induction "length b - n" arbitrary: n)
  case (Suc m)
  then have d: "drop n b = b ! n # drop (Suc n) b" by (simp add: Cons_nth_drop_Suc)
  then show ?case using Suc by (simp add: byte_start_def)
qed simp

lemma form_run:
  assumes "CR \<notin> set b" "b \<noteq> []" "qs \<noteq> []" "\<forall>q \<in> set qs. good_part b q"
  shows "mp_bytes b (s_start, 0) (enc_form b qs) = Some ((s_end, length b), concat (map part_toks qs) @ [TBodyEnd])"
proof -
  obtain q qs' where qs: "qs = q # qs'" using assms(3) by (cases qs) auto
  have st: "mp_bytes b (s_start, 0) b = Some ((s_start_boundary, length b), [])"
    using start_run [of 0 b] assms(2) by (cases b) auto
  then show ?thesis
    using part_run [OF assms(1,2), of q] parts_run [OF assms(1,2), of qs'] assms(4)
    by (simp add: enc_form_def qs mp_bytes_append)
qed

section \<open>Properties\<close>

text \<open>C8: with callbacks that do not stop it, the parser consumes every buffer the byte-wise
  machine accepts, ends in the machine's state with its invariant (all indices in range, the
  lookbehind holding the matched bytes), and delivers exactly the machine's tokens.\<close>

theorem multipart_execute_refines:
  assumes "mp_ok p" and "mp_bytes (mp_boundary p) (mp_core p) buf = Some (s', ts)"
  shows "\<exists>p' es. multipart_parser_execute recorder p buf d = (length buf, p', d @ es) \<and>
     mp_core p' = s' \<and> mp_ok p' \<and> mp_boundary p' = mp_boundary p \<and> evs_toks es = ts"
  using mp_loop_sim [OF assms(1), of 0 0 buf s' ts d] assms(2)
  by (auto simp: multipart_parser_execute_def pending_def split: mp_state.splits)

lemma mp_init_ok: "NUL \<notin> set b \<Longrightarrow> b \<noteq> [] \<Longrightarrow> mp_ok (multipart_parser_init b)"
  by (simp add: mp_ok_def multipart_parser_init_def c_strlen_def)

theorem multipart_execute_refines_witness:
  "\<exists>p' es. multipart_parser_execute recorder (multipart_parser_init ''--B'') ''--B'' [] = (3, p', [] @ es) \<and> evs_toks es = []"
proof -
  let ?p = "multipart_parser_init ''--B''"
  have "mp_bytes (mp_boundary ?p) (mp_core ?p) ''--B'' = Some ((s_start_boundary, 3), [])"
    by (simp add: multipart_parser_init_def mp_core_def byte_start_def)
  from multipart_execute_refines [OF mp_init_ok this, of "[]"] show ?thesis by auto
qed

text \<open>C5: parsing inverts writing. A well-formed form, given in one buffer to a fresh parser,
  is consumed to the end and the callbacks receive the names, the values and the data of each
  part, byte for byte and in order.\<close>

theorem multipart_roundtrip:
  assumes "NUL \<notin> set b" and "CR \<notin> set b" and "b \<noteq> []" and "qs \<noteq> []" and "\<forall>q \<in> set qs. good_part b q"
  shows "\<exists>p' es. multipart_parser_execute recorder (multipart_parser_init b) (enc_form b qs) [] = (length (enc_form b qs), p', es) \<and>
     mp_state p' = s_end \<and> evs_toks es = concat (map part_toks qs) @ [TBodyEnd]"
proof -
  let ?p = "multipart_parser_init b"
  have "mp_bytes (mp_boundary ?p) (mp_core ?p) (enc_form b qs) = Some ((s_end, length b), concat (map part_toks qs) @ [TBodyEnd])"
    using form_run [OF assms(2-5)] assms(1) by (simp add: multipart_parser_init_def mp_core_def)
  from mp_loop_sim [OF mp_init_ok [OF assms(1,3)], of 0 0 "enc_form b qs" _ _ "[]"] this show ?thesis
    by (fastforce simp: multipart_parser_execute_def pending_def mp_core_def multipart_parser_init_def)
qed

theorem multipart_roundtrip_witness:
  "\<exists>p' es. multipart_parser_execute recorder (multipart_parser_init ''--B'')
       (enc_form ''--B'' [([(''Name'', ''v'')], [CR, LF, CHR ''-'', CHR ''x''])])
       [] = (length (enc_form ''--B'' [([(''Name'', ''v'')], [CR, LF, CHR ''-'', CHR ''x''])]), p', es) \<and>
     mp_state p' = s_end \<and>
     evs_toks es = concat (map part_toks [([(''Name'', ''v'')], [CR, LF, CHR ''-'', CHR ''x''])]) @ [TBodyEnd]"
proof (rule multipart_roundtrip)
  have "\<not> sublist (delim ''--B'') [CR, LF, CHR ''-'', CHR ''x'']"
    by (auto dest!: sublist_length_le)
  then show "\<forall>q \<in> set [([(''Name'', ''v'')], [CR, LF, CHR ''-'', CHR ''x''])]. good_part ''--B'' q"
    by (simp add: good_part_def good_header_def ctype_simps uchar_def)
qed simp_all

end
