(* ===== verification/Resume.thy ===== *)
theory Resume
  imports Prelude
begin

text \<open>
  The contract of the incremental parsers. Each of them keeps the bytes received so far in a
  buffer and, at every call, runs a \<open>do ... while (ret > 0)\<close> loop of turns that read the
  buffer from an offset stored in the parser. A turn returns a positive code and moves the
  offset on, 0 when it needs more bytes, or a negative error code.

  The locale states what the loops rely on in a turn: that more bytes do not change a decision
  already taken, that waiting leaves nothing behind that a later turn can see (the \<open>view\<close> of
  the state), and that a turn does not look beyond the bytes it takes, or at most at one byte
  when another turn must follow. The lemmas give the loop the same three properties: a parse
  can be resumed, a decision is stable, and a finished parse depends only on its own bytes.
\<close>

locale resumable_loop =
  fixes turn :: "bytes \<Rightarrow> 's \<Rightarrow> int \<times> 's"
    and loop :: "bytes \<Rightarrow> 's \<Rightarrow> int \<times> 's"
    and finished :: "'s \<Rightarrow> bool"
    and off :: "'s \<Rightarrow> nat"
    and view :: "'s \<Rightarrow> 'v"
  assumes loop_eq: "loop msg s =
      (case turn msg s of (r, t) \<Rightarrow> if finished t then (1, t) else if r > 0 then loop msg t else (r, t))"
    and turn_advance: "turn msg s = (r, t) \<Longrightarrow> r > 0 \<Longrightarrow> off s < off t \<and> off t \<le> length msg"
    and turn_stay: "turn msg s = (r, t) \<Longrightarrow> r \<le> 0 \<Longrightarrow> off t = off s \<and> finished t = finished s"
    and turn_extend: "turn msg s = (r, t) \<Longrightarrow> r \<noteq> 0 \<Longrightarrow> turn (msg @ more) s = (r, t)"
    and turn_wait: "turn msg s = (0, t) \<Longrightarrow> view t = view s"
    and turn_view: "view s = view t \<Longrightarrow>
      fst (turn msg s) = fst (turn msg t) \<and> view (snd (turn msg s)) = view (snd (turn msg t))"
    and view_finished: "view s = view t \<Longrightarrow> finished s = finished t"
    and view_off: "view s = view t \<Longrightarrow> off s = off t"
    and turn_local: "turn msg s = (r, t) \<Longrightarrow> r > 0 \<Longrightarrow> off t \<le> n \<Longrightarrow> finished t \<or> off t < n \<Longrightarrow>
      turn (take n msg) s = (r, t)"
begin

lemma loop_induct [case_names turn]:
  assumes "\<And>s. (\<And>t r. turn msg s = (r, t) \<Longrightarrow> r > 0 \<Longrightarrow> \<not> finished t \<Longrightarrow> P t) \<Longrightarrow> P s"
  shows "P s"
proof (induction "length msg - off s" arbitrary: s rule: less_induct)
  case less
  show ?case
  proof (rule assms)
    fix t r assume "turn msg s = (r, t)" "r > 0" "\<not> finished t"
    then have "off s < off t \<and> off t \<le> length msg" using turn_advance by blast
    then show "P t" by (intro less) linarith
  qed
qed

lemma loop_off:
  "loop msg s = (r, t) \<Longrightarrow> off s \<le> length msg \<Longrightarrow> off s \<le> off t \<and> off t \<le> length msg"
proof (induction s rule: loop_induct [of msg])
  case (turn s)
  obtain q u where qu: "turn msg s = (q, u)" by fastforce
  have sub: "off s \<le> off u \<and> off u \<le> length msg"
    using turn_advance [OF qu] turn_stay [OF qu] turn.prems(2) by (cases "q > 0") auto
  show ?case
  proof (cases "q > 0 \<and> \<not> finished u")
    case True
    then have "loop msg u = (r, t)" using turn.prems(1) qu by (simp add: loop_eq [of msg s])
    then show ?thesis using turn.IH [OF qu] True sub by fastforce
  next
    case False
    then have "t = u" using turn.prems(1) qu by (auto simp: loop_eq [of msg s] split: if_splits)
    then show ?thesis using sub by simp
  qed
qed

lemma loop_pos: "loop msg s = (r, t) \<Longrightarrow> r > 0 \<Longrightarrow> r = 1 \<and> finished t"
proof (induction s rule: loop_induct [of msg])
  case (turn s)
  obtain q u where qu: "turn msg s = (q, u)" by fastforce
  then show ?case
    using turn.IH [OF qu] turn.prems by (auto simp: loop_eq [of msg s] split: if_splits)
qed

lemma loop_extend:
  "loop msg s = (r, t) \<Longrightarrow> \<not> finished s \<Longrightarrow> r \<noteq> 0 \<Longrightarrow> loop (msg @ more) s = (r, t)"
proof (induction s rule: loop_induct [of msg])
  case (turn s)
  obtain q u where qu: "turn msg s = (q, u)" by fastforce
  have "q \<noteq> 0"
    using turn.prems qu turn_stay [OF qu] by (auto simp: loop_eq [of msg s])
  with qu have ext: "turn (msg @ more) s = (q, u)" by (rule turn_extend)
  then show ?case
    using turn.IH [OF qu] turn.prems qu
    by (auto simp: loop_eq [of msg s] loop_eq [of "msg @ more" s] split: if_splits)
qed

lemma loop_view:
  "view s = view t \<Longrightarrow>
   fst (loop msg s) = fst (loop msg t) \<and> view (snd (loop msg s)) = view (snd (loop msg t))"
proof (induction s arbitrary: t rule: loop_induct [of msg])
  case (turn s)
  obtain q u where qu: "turn msg s = (q, u)" by fastforce
  obtain q' u' where qu': "turn msg t = (q', u')" by fastforce
  from turn_view [OF turn.prems, of msg] qu qu' have eq: "q' = q" "view u = view u'" by simp_all
  then have fin: "finished u' = finished u" using view_finished by metis
  show ?case
    using turn.IH [OF qu _ _ eq(2)] qu qu' eq fin
    by (auto simp: loop_eq [of msg s] loop_eq [of msg t])
qed

lemma loop_wait:
  "loop msg s = (0, t) \<Longrightarrow> \<not> finished s \<Longrightarrow>
   \<not> finished t \<and>
   fst (loop (msg @ more) t) = fst (loop (msg @ more) s) \<and>
   view (snd (loop (msg @ more) t)) = view (snd (loop (msg @ more) s))"
proof (induction s rule: loop_induct [of msg])
  case (turn s)
  obtain q u where qu: "turn msg s = (q, u)" by fastforce
  have nf: "\<not> finished u" using turn.prems(1) qu by (auto simp: loop_eq [of msg s])
  show ?case
  proof (cases "q > 0")
    case True
    then have "loop (msg @ more) s = loop (msg @ more) u"
      using turn_extend [OF qu] nf by (simp add: loop_eq [of "msg @ more" s])
    moreover have "loop msg u = (0, t)" using turn.prems(1) qu True nf by (simp add: loop_eq [of msg s])
    ultimately show ?thesis using turn.IH [OF qu True nf] nf by simp
  next
    case False
    then have "q = 0" "u = t" using turn.prems(1) qu nf by (auto simp: loop_eq [of msg s] split: if_splits)
    then have "view t = view s" using turn_wait qu by simp
    then show ?thesis using loop_view [of t s "msg @ more"] nf \<open>u = t\<close> by simp
  qed
qed

lemma loop_local:
  "loop msg s = (r, t) \<Longrightarrow> finished t \<Longrightarrow> \<not> finished s \<Longrightarrow> off t \<le> n \<Longrightarrow> loop (take n msg) s = (r, t)"
proof (induction s rule: loop_induct [of msg])
  case (turn s)
  obtain q u where qu: "turn msg s = (q, u)" by fastforce
  show ?case
  proof (cases "finished u")
    case True
    then have "q > 0" using turn_stay [OF qu] turn.prems by fastforce
    moreover have "t = u" "r = 1" using True turn.prems(1) qu by (auto simp: loop_eq [of msg s])
    ultimately have "turn (take n msg) s = (q, u)" using turn_local [OF qu] True turn.prems(4) by blast
    then show ?thesis using True \<open>t = u\<close> \<open>r = 1\<close> by (simp add: loop_eq [of "take n msg" s])
  next
    case False
    then have pos: "q > 0"
      using turn.prems qu by (auto simp: loop_eq [of msg s] split: if_splits)
    then have rest: "loop msg u = (r, t)" using turn.prems(1) qu False by (simp add: loop_eq [of msg s])
    obtain q2 u2 where qu2: "turn msg u = (q2, u2)" by fastforce
    have adv: "off u < off t"
    proof (cases "finished u2")
      case True
      then have "q2 > 0" using turn_stay [OF qu2] False by fastforce
      then show ?thesis using turn_advance [OF qu2] rest qu2 True by (auto simp: loop_eq [of msg u])
    next
      case nf: False
      then have "q2 > 0" "loop msg u2 = (r, t)"
        using rest qu2 turn.prems(2) by (auto simp: loop_eq [of msg u] split: if_splits)
      then show ?thesis using turn_advance [OF qu2] loop_off [of msg u2] by fastforce
    qed
    then have "turn (take n msg) s = (q, u)" using turn_local [OF qu pos] turn.prems(4) by simp
    then show ?thesis
      using turn.IH [OF qu pos False rest turn.prems(2) False turn.prems(4)] pos False
      by (simp add: loop_eq [of "take n msg" s])
  qed
qed

end

end
