(* ===== verification/HttpParser.thy ===== *)
theory HttpParser
  imports Prelude Resume
begin

text \<open>
  The incremental HTTP/1 message parser of the workflow engine,
  src/libnetwork/workflow/src/linux/protocol/http_parser.c: start line, header lines with
  folding, bodies by Content-Length or by chunks, the header list and its cursor.

  The parser struct is the record \<open>http_parser\<close>. The message buffer has \<open>bufsize\<close> bytes of
  which the first \<open>msgsize\<close> are the message; bytes a \<open>realloc\<close> adds are NUL here and are never
  read before they are written. Sizes are natural numbers: they are sizes of objects in
  memory, and a Content-Length has at most 15 digits, so their sums do not wrap. The flags,
  which the source keeps in \<open>char\<close> fields, are booleans. Return codes are those of the source:
  1 done, 0 more input needed, -1 out of memory, -2 malformed.
\<close>

section \<open>Data\<close>

abbreviation HTTP_START_LINE_MAX :: nat where "HTTP_START_LINE_MAX \<equiv> 8192"
abbreviation HTTP_HEADER_NAME_MAX :: nat where "HTTP_HEADER_NAME_MAX \<equiv> 64"
abbreviation HTTP_HEADER_VALUE_MAX :: nat where "HTTP_HEADER_VALUE_MAX \<equiv> 8192"
abbreviation HTTP_CHUNK_LINE_MAX :: nat where "HTTP_CHUNK_LINE_MAX \<equiv> 1024"
abbreviation HTTP_TRAILER_LINE_MAX :: nat where "HTTP_TRAILER_LINE_MAX \<equiv> 8192"
abbreviation HTTP_MSGBUF_INIT_SIZE :: nat where "HTTP_MSGBUF_INIT_SIZE \<equiv> 2048"
abbreviation SIZE_MAX :: nat where "SIZE_MAX \<equiv> 2 ^ 64 - 1" \<comment> \<open>\<open>(size_t)-1\<close>\<close>

datatype header_state = HPS_START_LINE | HPS_HEADER_NAME | HPS_HEADER_VALUE | HPS_HEADER_COMPLETE
datatype chunk_state = CPS_CHUNK_DATA | CPS_TRAILER_PART | CPS_CHUNK_COMPLETE

text \<open>A header line owns a buffer that starts with \<open>name ": " value CRLF\<close>.\<close>

record header_line =
  hl_name_len :: nat
  hl_value_len :: nat
  hl_buf :: bytes

record http_parser =
  hp_header_state :: header_state
  hp_chunk_state :: chunk_state
  hp_header_offset :: nat
  hp_chunk_offset :: nat
  hp_content_length :: nat
  hp_transfer_length :: nat
  hp_version :: "bytes option"
  hp_method :: "bytes option"
  hp_uri :: "bytes option"
  hp_code :: "bytes option"
  hp_phrase :: "bytes option"
  hp_header_list :: "header_line list"
  hp_namebuf :: bytes
  hp_msgbuf :: bytes
  hp_msgsize :: nat
  hp_bufsize :: nat
  hp_has_connection :: bool
  hp_has_content_length :: bool
  hp_has_keep_alive :: bool
  hp_expect_continue :: bool
  hp_keep_alive :: bool
  hp_chunked :: bool
  hp_complete :: bool
  hp_is_resp :: bool

section \<open>Header lines\<close>

definition line_bytes :: "bytes \<Rightarrow> bytes \<Rightarrow> bytes" where
  "line_bytes name value = name @ [CHR '':'', SP] @ value @ CRLF"

definition add_message_header :: "bytes \<Rightarrow> bytes \<Rightarrow> http_parser \<Rightarrow> allocator \<Rightarrow> int \<times> http_parser \<times> allocator" where
  "add_message_header name value p m =
     (case alloc m of
        (True, m') \<Rightarrow>
          (0, p\<lparr>hp_header_list := hp_header_list p @
                 [\<lparr>hl_name_len = length name, hl_value_len = length value, hl_buf = line_bytes name value\<rparr>]\<rparr>, m')
      | (False, m') \<Rightarrow> (-1, p, m'))"

definition line_matches :: "bytes \<Rightarrow> header_line \<Rightarrow> bool" where
  "line_matches name line \<longleftrightarrow> hl_name_len line = length name \<and> strncaseeq (length name) (hl_buf line) name"

text \<open>The new contents of the first matching line; a longer value needs a new buffer, which
  starts with the name as it is given in this call.\<close>

fun set_in_list :: "bytes \<Rightarrow> bytes \<Rightarrow> header_line list \<Rightarrow> allocator \<Rightarrow> (int \<times> header_line list \<times> allocator) option" where
  "set_in_list name value [] m = None"
| "set_in_list name value (line # rest) m =
     (if line_matches name line then
        (if length value > hl_value_len line then
           (case alloc m of
              (False, m') \<Rightarrow> Some (-1, line # rest, m')
            | (True, m') \<Rightarrow> Some (0, line\<lparr>hl_buf := line_bytes name value, hl_value_len := length value\<rparr> # rest, m'))
         else Some (0, line\<lparr>hl_buf := overwrite (hl_buf line) (length name + 2) (value @ CRLF),
                            hl_value_len := length value\<rparr> # rest, m))
      else (case set_in_list name value rest m of
              None \<Rightarrow> None
            | Some (r, rest', m') \<Rightarrow> Some (r, line # rest', m')))"

definition set_message_header :: "bytes \<Rightarrow> bytes \<Rightarrow> http_parser \<Rightarrow> allocator \<Rightarrow> int \<times> http_parser \<times> allocator" where
  "set_message_header name value p m =
     (case set_in_list name value (hp_header_list p) m of
        Some (r, l, m') \<Rightarrow> (r, p\<lparr>hp_header_list := l\<rparr>, m')
      | None \<Rightarrow> add_message_header name value p m)"

text \<open>\<open>strcmp (version, "HTTP/1.0") == 0 || strncmp (version, "HTTP/0", 6) == 0\<close>.\<close>

definition old_version :: "bytes \<Rightarrow> bool" where
  "old_version v \<longleftrightarrow> v = ''HTTP/1.0'' \<or> take 6 v = ''HTTP/0''"

text \<open>The three \<open>strdup\<close> calls, each tried when the ones before it succeeded.\<close>

definition alloc3 :: "allocator \<Rightarrow> bool \<times> allocator" where
  "alloc3 m = (case alloc m of
     (False, m1) \<Rightarrow> (False, m1)
   | (True, m1) \<Rightarrow> (case alloc m1 of (False, m2) \<Rightarrow> (False, m2) | (True, m2) \<Rightarrow> alloc m2))"

definition match_request_line :: "bytes \<Rightarrow> bytes \<Rightarrow> bytes \<Rightarrow> http_parser \<Rightarrow> allocator \<Rightarrow> int \<times> http_parser \<times> allocator" where
  "match_request_line method uri version p m =
     (let p1 = (if old_version version then p\<lparr>hp_keep_alive := False\<rparr> else p) in
      case alloc3 m of
        (True, m') \<Rightarrow> (0, p1\<lparr>hp_method := Some method, hp_uri := Some uri, hp_version := Some version\<rparr>, m')
      | (False, m') \<Rightarrow> (-1, p1, m'))"

definition match_status_line :: "bytes \<Rightarrow> bytes \<Rightarrow> bytes \<Rightarrow> http_parser \<Rightarrow> allocator \<Rightarrow> int \<times> http_parser \<times> allocator" where
  "match_status_line version code phrase p m =
     (let p1 = (if old_version version then p\<lparr>hp_keep_alive := False\<rparr> else p);
          p2 = (if take 1 code = ''1'' \<or> code = ''204'' \<or> code = ''304'' then p1\<lparr>hp_transfer_length := 0\<rparr> else p1) in
      case alloc3 m of
        (True, m') \<Rightarrow> (0, p2\<lparr>hp_version := Some version, hp_code := Some code, hp_phrase := Some phrase\<rparr>, m')
      | (False, m') \<Rightarrow> (-1, p2, m'))"

text \<open>\<open>*value\<close> at the end of the value is the NUL that the callers put there.\<close>

definition check_message_header :: "bytes \<Rightarrow> bytes \<Rightarrow> http_parser \<Rightarrow> http_parser" where
  "check_message_header name value p =
     (let name_len = length name; value_len = length value in
      if name_len = 6 then
        (if strncaseeq 6 name ''Expect'' \<and> value_len = 12 \<and> strncaseeq 12 value ''100-continue''
         then p\<lparr>hp_expect_continue := True\<rparr> else p)
      else if name_len = 10 then
        (if strncaseeq 10 name ''Connection'' then
           (let p1 = p\<lparr>hp_has_connection := True\<rparr> in
            if value_len = 10 \<and> strncaseeq 10 value ''Keep-Alive'' then p1\<lparr>hp_keep_alive := True\<rparr>
            else if value_len = 5 \<and> strncaseeq 5 value ''close'' then p1\<lparr>hp_keep_alive := False\<rparr>
            else p1)
         else if strncaseeq 10 name ''Keep-Alive'' then p\<lparr>hp_has_keep_alive := True\<rparr>
         else p)
      else if name_len = 14 then
        (if strncaseeq 14 name ''Content-Length'' then
           (let p1 = p\<lparr>hp_has_content_length := True\<rparr> in
            if c_isdigit (hd (value @ [NUL])) \<and> value_len \<le> 15
            then p1\<lparr>hp_content_length := nat (c_atoll value)\<rparr> else p1)
         else p)
      else if name_len = 17 then
        (if strncaseeq 17 name ''Transfer-Encoding'' then
           (if value_len \<noteq> 8 \<or> \<not> strncaseeq 8 value ''identity'' then p\<lparr>hp_chunked := True\<rparr>
            else p\<lparr>hp_chunked := False\<rparr>)
         else p)
      else p)"

definition http_parser_add_header :: "bytes \<Rightarrow> bytes \<Rightarrow> http_parser \<Rightarrow> allocator \<Rightarrow> int \<times> http_parser \<times> allocator" where
  "http_parser_add_header name value p m =
     (case add_message_header name value p m of (r, p', m') \<Rightarrow>
        if r \<ge> 0 then (0, check_message_header name value p', m') else (-1, p', m'))"

definition http_parser_set_header :: "bytes \<Rightarrow> bytes \<Rightarrow> http_parser \<Rightarrow> allocator \<Rightarrow> int \<times> http_parser \<times> allocator" where
  "http_parser_set_header name value p m =
     (case set_message_header name value p m of (r, p', m') \<Rightarrow>
        if r \<ge> 0 then (0, check_message_header name value p', m') else (-1, p', m'))"

section \<open>Start line and headers\<close>

text \<open>
  The loop that \<open>__parse_start_line\<close>, \<open>__parse_chunk_data\<close> and \<open>__parse_trailer_part\<close> share: it
  looks for CR among the first \<open>max_len\<close> bytes, then for the LF after it. The start line also
  refuses the bytes \<open>bad\<close>.
\<close>

datatype line_scan = LS_Line nat | LS_More | LS_Bad

fun scan_line :: "(byte \<Rightarrow> bool) \<Rightarrow> nat \<Rightarrow> bytes \<Rightarrow> line_scan" where
  "scan_line bad max_len [] = (if max_len = 0 then LS_Bad else LS_More)"
| "scan_line bad max_len (c # cs) =
     (if max_len = 0 then LS_Bad
      else if c = CR then (if cs = [] then LS_More else if hd cs \<noteq> LF then LS_Bad else LS_Line 0)
      else if bad c then LS_Bad
      else (case scan_line bad (max_len - 1) cs of LS_Line i \<Rightarrow> LS_Line (i + 1) | res \<Rightarrow> res))"

text \<open>\<open>len >= 2 && ptr[0] == '\r' && ptr[1] == '\n'\<close>.\<close>

fun starts_crlf :: "bytes \<Rightarrow> bool" where
  "starts_crlf (a # b # _) \<longleftrightarrow> a = CR \<and> b = LF"
| "starts_crlf _ \<longleftrightarrow> False"

lemma scan_line_bound: "scan_line bad k ptr = LS_Line i \<Longrightarrow> i + 2 \<le> length ptr"
proof (induction ptr arbitrary: k i)
  case (Cons c cs)
  show ?case
  proof (cases "c = CR")
    case True
    with Cons.prems show ?thesis by (cases cs) (simp_all split: if_splits)
  next
    case False
    with Cons.prems Cons.IH [of "k - 1"] show ?thesis
      by (cases "scan_line bad (k - 1) cs") (fastforce split: if_splits)+
  qed
qed (simp split: if_splits)

lemma scan_line_extend: "scan_line bad k ptr \<noteq> LS_More \<Longrightarrow> scan_line bad k (ptr @ ext) = scan_line bad k ptr"
proof (induction ptr arbitrary: k)
  case Nil
  then show ?case by (cases ext) (simp_all split: if_splits)
next
  case (Cons c cs)
  show ?case
  proof (cases "c = CR")
    case True
    with Cons.prems show ?thesis by (cases cs) (simp_all split: if_splits)
  next
    case False
    with Cons.prems Cons.IH [of "k - 1"] show ?thesis
      by (cases "scan_line bad (k - 1) cs") (simp_all split: if_splits)
  qed
qed

lemma scan_line_local:
  "scan_line bad k ptr = LS_Line i \<Longrightarrow> i + 2 \<le> n \<Longrightarrow> scan_line bad k (take n ptr) = LS_Line i"
proof (induction ptr arbitrary: k i n)
  case (Cons c cs)
  obtain n' where n: "n = Suc n'" using Cons.prems(2) by (cases n) simp_all
  show ?case
  proof (cases "c = CR")
    case True
    with n Cons.prems show ?thesis by (cases cs; cases n') (simp_all split: if_splits)
  next
    case False
    with n Cons.prems Cons.IH [of "k - 1" "i - 1" n'] show ?thesis
      by (cases "scan_line bad (k - 1) cs") (simp_all split: if_splits)
  qed
qed (simp split: if_splits)

lemma starts_crlf_append: "ptr \<noteq> [] \<Longrightarrow> ptr \<noteq> [CR] \<Longrightarrow> starts_crlf (ptr @ ext) = starts_crlf ptr"
  by (cases ptr rule: starts_crlf.cases; cases ext) auto

lemma starts_crlf_extend:
  assumes "0 < k" and "starts_crlf ptr \<or> scan_line bad k ptr \<noteq> LS_More"
  shows "starts_crlf (ptr @ ext) = starts_crlf ptr"
proof (cases ptr)
  case (Cons a as)
  with assms show ?thesis by (cases as; cases ext) (simp_all split: if_splits)
qed (use assms in simp)

lemma starts_crlf_take: "2 \<le> n \<Longrightarrow> starts_crlf (take n ptr) = starts_crlf ptr"
  by (cases ptr rule: starts_crlf.cases) (auto simp: numeral_2_eq_2 take_Cons split: nat.splits)

lemma starts_crlf_length: "starts_crlf ptr \<Longrightarrow> 2 \<le> length ptr"
  by (cases ptr rule: starts_crlf.cases) auto

text \<open>The part of \<open>__parse_start_line\<close> that runs when the CR LF is found, on the line before it.\<close>

definition take_start_line :: "bytes \<Rightarrow> http_parser \<Rightarrow> allocator \<Rightarrow> int \<times> http_parser \<times> allocator" where
  "take_start_line start_line p m =
     (case find_idx (\<lambda>c. c = SP) start_line of
        None \<Rightarrow> (-2, p, m)
      | Some j \<Rightarrow>
          (let p1 = take j start_line; r1 = drop (j + 1) start_line in
           case find_idx (\<lambda>c. c = SP) r1 of
             None \<Rightarrow> (-2, p, m)
           | Some k \<Rightarrow>
               (let p2 = take k r1; p3 = drop (k + 1) r1 in
                case (if hp_is_resp p then match_status_line p1 p2 p3 p m
                      else match_request_line p1 p2 p3 p m) of (ret, q, m') \<Rightarrow>
                if ret < 0 then (-1, q, m')
                else (1, q\<lparr>hp_header_offset := hp_header_offset q + length start_line + 2,
                           hp_header_state := HPS_HEADER_NAME\<rparr>, m'))))"

definition parse_start_line :: "bytes \<Rightarrow> http_parser \<Rightarrow> allocator \<Rightarrow> int \<times> http_parser \<times> allocator" where
  "parse_start_line ptr p m =
     (if starts_crlf ptr then
        (1, p\<lparr>hp_header_offset := hp_header_offset p + 2\<rparr>, m)
      else case scan_line (\<lambda>c. c = NUL) HTTP_START_LINE_MAX ptr of
        LS_Bad \<Rightarrow> (-2, p, m)
      | LS_More \<Rightarrow> (0, p, m)
      | LS_Line i \<Rightarrow> take_start_line (take i ptr) p m)"

definition bad_name_byte :: "byte \<Rightarrow> bool" where
  "bad_name_byte c \<longleftrightarrow> schar c \<le> 0"

text \<open>The bytes before a colon go into \<open>namebuf\<close> as they are scanned, also when the scan does
  not reach one.\<close>

definition parse_header_name :: "bytes \<Rightarrow> http_parser \<Rightarrow> int \<times> http_parser" where
  "parse_header_name ptr p =
     (if starts_crlf ptr then
        (1, p\<lparr>hp_header_offset := hp_header_offset p + 2, hp_header_state := HPS_HEADER_COMPLETE\<rparr>)
      else case find_idx (\<lambda>c. c = CHR '':'' \<or> bad_name_byte c) (take HTTP_HEADER_NAME_MAX ptr) of
        None \<Rightarrow>
          (if HTTP_HEADER_NAME_MAX \<le> length ptr then -2 else 0,
           p\<lparr>hp_namebuf := overwrite (hp_namebuf p) 0 (take HTTP_HEADER_NAME_MAX ptr)\<rparr>)
      | Some i \<Rightarrow>
          if ptr ! i = CHR '':'' then
            (1, p\<lparr>hp_namebuf := overwrite (hp_namebuf p) 0 (take i ptr @ [NUL]),
                  hp_header_offset := hp_header_offset p + i + 1, hp_header_state := HPS_HEADER_VALUE\<rparr>)
          else (-2, p\<lparr>hp_namebuf := overwrite (hp_namebuf p) 0 (take i ptr)\<rparr>))"

definition is_blank :: "byte \<Rightarrow> bool" where
  "is_blank c \<longleftrightarrow> c = SP \<or> c = TAB"

text \<open>The loops of \<open>__parse_header_value\<close>. The bytes collected in \<open>header_value\<close> are \<open>acc\<close>.
  The inner loop ends in a return, or at a CR with the bytes after it.\<close>

datatype hv_result = HV_Return int | HV_Line bytes bytes

fun hv_scan :: "bytes \<Rightarrow> bytes \<Rightarrow> hv_result" where
  "hv_scan acc [] = HV_Return 0"
| "hv_scan acc (c # rest) =
     (if length acc = HTTP_HEADER_VALUE_MAX then HV_Return (-2)
      else if rest = [] then HV_Return 0
      else if c = CR then HV_Line acc rest
      else if schar c \<le> 0 then HV_Return (-2)
      else hv_scan (acc @ [c]) rest)"

definition strip_blanks :: "bytes \<Rightarrow> bytes" where
  "strip_blanks acc = rev (dropWhile is_blank (rev acc))"

text \<open>The outer loop, over the continuation lines: the value and what follows it.\<close>

lemma hv_scan_shorter: "hv_scan acc ptr = HV_Line acc' rest \<Longrightarrow> length rest < length ptr"
  by (induction acc ptr rule: hv_scan.induct) (auto split: if_splits)

function hv_lines :: "bytes \<Rightarrow> bytes \<Rightarrow> hv_result" where
  "hv_lines acc ptr =
     (case dropWhile is_blank ptr of
        [] \<Rightarrow> HV_Return 0
      | c # cs \<Rightarrow>
          (case hv_scan acc (c # cs) of
             HV_Return r \<Rightarrow> HV_Return r
           | HV_Line acc1 rest \<Rightarrow>
               (case rest of
                  [] \<Rightarrow> HV_Return (-2)
                | lf # rest1 \<Rightarrow>
                    if lf \<noteq> LF then HV_Return (-2)
                    else case rest1 of
                        [] \<Rightarrow> HV_Return 0
                      | c2 # rest2 \<Rightarrow>
                          let acc2 = strip_blanks acc1 in
                          if \<not> is_blank c2 then HV_Line acc2 (c2 # rest2)
                          else hv_lines (acc2 @ [SP]) rest2)))"
  by pat_completeness auto
termination
proof (relation "measure (\<lambda>(acc, ptr). length ptr)")
  fix acc ptr :: bytes and c :: byte and cs acc1 rest lf rest1 c2 rest2
  assume "dropWhile is_blank ptr = c # cs" "hv_scan acc (c # cs) = HV_Line acc1 rest" "rest = lf # rest1" "rest1 = c2 # rest2"
  then have "length rest < length (dropWhile is_blank ptr)" "length rest = length rest2 + 2"
    using hv_scan_shorter by fastforce+
  then show "((x @ [SP], rest2), acc, ptr) \<in> measure (\<lambda>(acc, ptr). length ptr)" for x
    using length_dropWhile_le [of is_blank ptr] by simp
qed simp

declare hv_lines.simps [simp del]

definition parse_header_value :: "bytes \<Rightarrow> http_parser \<Rightarrow> allocator \<Rightarrow> int \<times> http_parser \<times> allocator" where
  "parse_header_value ptr p m =
     (case hv_lines [] ptr of
        HV_Return r \<Rightarrow> (r, p, m)
      | HV_Line header_value rest \<Rightarrow>
          (case http_parser_add_header (c_str (hp_namebuf p)) header_value p m of (ret, q, m') \<Rightarrow>
             if ret < 0 then (-1, q, m')
             else (1, q\<lparr>hp_header_offset := hp_header_offset q + (length ptr - length rest),
                        hp_header_state := HPS_HEADER_NAME\<rparr>, m')))"

text \<open>One turn of the loop of \<open>__parse_message_header\<close>.\<close>

definition header_turn :: "bytes \<Rightarrow> http_parser \<Rightarrow> allocator \<Rightarrow> int \<times> http_parser \<times> allocator" where
  "header_turn message p m =
     (let ptr = drop (hp_header_offset p) message in
      case hp_header_state p of
        HPS_START_LINE \<Rightarrow> parse_start_line ptr p m
      | HPS_HEADER_VALUE \<Rightarrow> parse_header_value ptr p m
      | _ \<Rightarrow> (case parse_header_name ptr p of (r, q) \<Rightarrow> (r, q, m)))"

subsection \<open>The turns are resumable\<close>

lemma match_request_line_offset:
  "match_request_line a b c p m = (r, q, m') \<Longrightarrow> hp_header_offset q = hp_header_offset p \<and> hp_header_state q = hp_header_state p"
  by (auto simp: match_request_line_def Let_def split: prod.splits bool.splits if_splits)

lemma match_status_line_offset:
  "match_status_line a b c p m = (r, q, m') \<Longrightarrow> hp_header_offset q = hp_header_offset p \<and> hp_header_state q = hp_header_state p"
  by (auto simp: match_status_line_def Let_def split: prod.splits bool.splits if_splits)

lemma take_start_line_turn:
  "take_start_line l p m = (r, q, m') \<Longrightarrow>
   (if r > 0 then hp_header_offset q = hp_header_offset p + length l + 2 \<and> hp_header_state q = HPS_HEADER_NAME
    else r < 0 \<and> hp_header_offset q = hp_header_offset p \<and> hp_header_state q = hp_header_state p)"
  by (auto simp: take_start_line_def Let_def split: if_splits option.splits prod.splits
      dest: match_request_line_offset match_status_line_offset)

lemma parse_start_line_extend:
  assumes "parse_start_line ptr p m = (r, q, m')" "r \<noteq> 0"
  shows "parse_start_line (ptr @ ext) p m = (r, q, m')"
proof -
  let ?scan = "scan_line (\<lambda>c. c = NUL) HTTP_START_LINE_MAX"
  from assms have more: "starts_crlf ptr \<or> ?scan ptr \<noteq> LS_More"
    by (auto simp: parse_start_line_def)
  then have crlf: "starts_crlf (ptr @ ext) = starts_crlf ptr" by (intro starts_crlf_extend) simp_all
  show ?thesis
  proof (cases "starts_crlf ptr")
    case True
    with assms crlf show ?thesis by (simp add: parse_start_line_def)
  next
    case False
    with more have "?scan (ptr @ ext) = ?scan ptr" by (intro scan_line_extend) simp
    with False assms crlf scan_line_bound [of _ _ ptr] show ?thesis
      by (cases "?scan ptr") (fastforce simp: parse_start_line_def)+
  qed
qed

lemma parse_start_line_turn:
  assumes "parse_start_line ptr p m = (r, q, m')" "hp_header_state p = HPS_START_LINE"
  shows "if r > 0 then hp_header_offset p < hp_header_offset q \<and> hp_header_offset q \<le> hp_header_offset p + length ptr
      \<and> hp_header_state q \<in> {HPS_START_LINE, HPS_HEADER_NAME}
    else hp_header_offset q = hp_header_offset p \<and> hp_header_state q = hp_header_state p"
proof (cases "starts_crlf ptr")
  case True
  with assms starts_crlf_length [of ptr] show ?thesis by (auto simp: parse_start_line_def)
next
  case False
  with assms take_start_line_turn [of _ p m r q m'] scan_line_bound [of _ _ ptr] show ?thesis
    by (cases "scan_line (\<lambda>c. c = NUL) HTTP_START_LINE_MAX ptr") (fastforce simp: parse_start_line_def)+
qed

lemma parse_start_line_local:
  assumes "parse_start_line ptr p m = (r, q, m')" "r > 0" "hp_header_offset q \<le> hp_header_offset p + n"
  shows "parse_start_line (take n ptr) p m = (r, q, m')"
proof (cases "starts_crlf ptr")
  case True
  with assms starts_crlf_take [of n ptr] show ?thesis by (auto simp: parse_start_line_def)
next
  case False
  then obtain i where i: "scan_line (\<lambda>c. c = NUL) HTTP_START_LINE_MAX ptr = LS_Line i"
      "take_start_line (take i ptr) p m = (r, q, m')"
    using assms by (auto simp: parse_start_line_def split: line_scan.splits)
  then have "i + 2 \<le> n"
    using take_start_line_turn [OF i(2)] scan_line_bound [OF i(1)] assms(2,3) by simp
  then show ?thesis
    using scan_line_local [OF i(1)] starts_crlf_take [of n ptr] False i(2)
    by (simp add: parse_start_line_def min_def)
qed

lemma find_idx_take_extend:
  "find_idx P (take k ptr) \<noteq> None \<or> k \<le> length ptr \<Longrightarrow> find_idx P (take k (ptr @ ext)) = find_idx P (take k ptr)"
  by (auto simp: find_idx_append split: option.splits)

lemma parse_header_name_extend:
  assumes "parse_header_name ptr p = (r, q)" "r \<noteq> 0"
  shows "parse_header_name (ptr @ ext) p = (r, q)"
proof -
  let ?f = "\<lambda>ptr. find_idx (\<lambda>c. c = CHR '':'' \<or> bad_name_byte c) (take HTTP_HEADER_NAME_MAX ptr)"
  have crlf: "starts_crlf (ptr @ ext) = starts_crlf ptr"
  proof (rule starts_crlf_append)
    show "ptr \<noteq> []" using assms by (auto simp: parse_header_name_def)
    show "ptr \<noteq> [CR]" using assms by (auto simp: parse_header_name_def bad_name_byte_def schar_def uchar_def)
  qed
  have found: "\<not> starts_crlf ptr \<Longrightarrow> ?f ptr \<noteq> None \<or> HTTP_HEADER_NAME_MAX \<le> length ptr"
    using assms by (auto simp: parse_header_name_def Let_def min_def split: if_splits option.splits)
  show ?thesis
  proof (cases "starts_crlf ptr")
    case True
    with assms crlf show ?thesis by (simp add: parse_header_name_def)
  next
    case False
    then have "?f (ptr @ ext) = ?f ptr" using found by (intro find_idx_take_extend) simp
    moreover have "?f ptr = Some i \<Longrightarrow> i < length ptr" for i by (auto dest: find_idx_less)
    ultimately show ?thesis
      using False assms crlf found
      by (cases "?f ptr") (auto simp: parse_header_name_def Let_def min_def nth_append split: if_splits)
  qed
qed

lemma hv_scan_prefix:
  "hv_scan acc ptr = HV_Line a rest \<Longrightarrow>
   rest \<noteq> [] \<and> (\<exists>pre. pre \<noteq> [] \<and> ptr = pre @ rest \<and> (\<forall>rest'. rest' \<noteq> [] \<longrightarrow> hv_scan acc (pre @ rest') = HV_Line a rest'))"
proof (induction acc ptr rule: hv_scan.induct)
  case (2 acc c cs)
  show ?case
  proof (cases "c = CR")
    case True
    with 2 have "acc = a" "cs = rest" "rest \<noteq> []" "length acc \<noteq> HTTP_HEADER_VALUE_MAX"
      by (auto split: if_splits)
    with True show ?thesis by (intro conjI exI [of _ "[c]"]) auto
  next
    case False
    with 2 have *: "hv_scan (acc @ [c]) cs = HV_Line a rest" "cs \<noteq> []" "\<not> schar c \<le> 0" "length acc \<noteq> HTTP_HEADER_VALUE_MAX"
      by (auto split: if_splits)
    with "2.IH" False obtain pre where "rest \<noteq> []" "cs = pre @ rest" "pre \<noteq> []"
      "\<forall>rest'. rest' \<noteq> [] \<longrightarrow> hv_scan (acc @ [c]) (pre @ rest') = HV_Line a rest'" by blast
    with False * show ?thesis by (intro conjI exI [of _ "c # pre"]) auto
  qed
qed simp

lemma hv_scan_return:
  "hv_scan acc ptr = HV_Return r \<Longrightarrow> r \<noteq> 0 \<Longrightarrow> hv_scan acc (ptr @ ext) = HV_Return r"
proof (induction ptr arbitrary: acc)
  case (Cons c cs)
  then show ?case by (simp split: if_splits)
qed simp

lemma dropWhile_blank_append:
  "dropWhile P xs = y # ys \<Longrightarrow> dropWhile P (xs @ zs) = y # ys @ zs"
  by (induction xs) (auto split: if_splits)

lemma hv_lines_prefix:
  "hv_lines acc ptr = HV_Line a rest \<Longrightarrow>
   \<exists>pre c2 rest2. pre \<noteq> [] \<and> rest = c2 # rest2 \<and> ptr = pre @ rest \<and> (\<forall>rest'. hv_lines acc (pre @ c2 # rest') = HV_Line a (c2 # rest'))"
proof (induction acc ptr rule: hv_lines.induct)
  case (1 acc ptr)
  obtain c cs where cs: "dropWhile is_blank ptr = c # cs"
    using "1.prems" by (subst (asm) hv_lines.simps) (auto split: list.splits)
  obtain acc1 lf rest1 where scan: "hv_scan acc (c # cs) = HV_Line acc1 (lf # rest1)"
    using "1.prems" cs by (subst (asm) hv_lines.simps) (auto split: list.splits hv_result.splits)
  have lf: "lf = LF"
    using "1.prems" cs scan by (subst (asm) hv_lines.simps) (auto split: if_splits)
  obtain c2 rest2 where r1: "rest1 = c2 # rest2"
    using "1.prems" cs scan lf by (subst (asm) hv_lines.simps) (auto split: list.splits)
  define bl where "bl = takeWhile is_blank ptr"
  have ptr: "ptr = bl @ c # cs" using cs takeWhile_dropWhile_id [of is_blank ptr] by (simp add: bl_def)
  have blank: "\<forall>x \<in> set bl. is_blank x" by (auto simp: bl_def dest: set_takeWhileD)
  have nb: "\<not> is_blank c" using cs hd_dropWhile [of is_blank ptr] by simp
  obtain pre where pre: "pre \<noteq> []" "c # cs = pre @ lf # rest1"
      "\<And>rest'. rest' \<noteq> [] \<Longrightarrow> hv_scan acc (pre @ rest') = HV_Line acc1 rest'"
    using hv_scan_prefix [OF scan] by auto
  have drop: "dropWhile is_blank (bl @ pre @ xs) = pre @ xs" for xs
    using blank nb pre(1,2) by (cases pre) auto
  have step: "hv_lines acc (bl @ pre @ lf # c2 # xs) =
      (if \<not> is_blank c2 then HV_Line (strip_blanks acc1) (c2 # xs) else hv_lines (strip_blanks acc1 @ [SP]) xs)" for xs
    using lf pre(1,3) drop by (subst hv_lines.simps) (cases pre; simp)
  show ?case
  proof (cases "is_blank c2")
    case False
    with "1.prems" step [of rest2] have "a = strip_blanks acc1" "rest = c2 # rest2"
      by (simp_all add: ptr pre r1)
    with False step show ?thesis
      by (intro exI [of _ "bl @ pre @ [lf]"] exI [of _ c2] exI [of _ rest2]) (simp add: ptr pre r1)
  next
    case True
    then have rec: "hv_lines (strip_blanks acc1 @ [SP]) rest2 = HV_Line a rest"
      using "1.prems" step [of rest2] by (simp add: ptr pre r1)
    from "1.IH" [OF cs scan _ _ r1 _ _ rec] lf True
    obtain pre' d rest3 where "pre' \<noteq> []" "rest = d # rest3" "rest2 = pre' @ rest"
      "\<forall>rest'. hv_lines (strip_blanks acc1 @ [SP]) (pre' @ d # rest') = HV_Line a (d # rest')" by auto
    with True step show ?thesis
      by (intro exI [of _ "bl @ pre @ lf # c2 # pre'"] exI [of _ d] exI [of _ rest3]) (simp add: ptr pre r1)
  qed
qed

lemma hv_lines_return:
  "hv_lines acc ptr = HV_Return r \<Longrightarrow> r \<noteq> 0 \<Longrightarrow> hv_lines acc (ptr @ ext) = HV_Return r"
proof (induction acc ptr rule: hv_lines.induct)
  case (1 acc ptr)
  obtain c cs where cs: "dropWhile is_blank ptr = c # cs"
    using "1.prems" by (subst (asm) hv_lines.simps) (auto split: list.splits)
  note cse = dropWhile_blank_append [OF cs, of ext]
  show ?case
  proof (cases "hv_scan acc (c # cs)")
    case (HV_Return r')
    then have "r' = r" using "1.prems" cs by (subst (asm) hv_lines.simps) simp
    then have "hv_scan acc ((c # cs) @ ext) = HV_Return r" using HV_Return "1.prems"(2) hv_scan_return by blast
    with cse show ?thesis by (subst hv_lines.simps) simp
  next
    case (HV_Line acc1 rest)
    then obtain lf rest1 where rest: "rest = lf # rest1" using hv_scan_prefix by (cases rest) blast+
    obtain pre where "c # cs = pre @ rest" "hv_scan acc (pre @ rest @ ext) = HV_Line acc1 (rest @ ext)"
      using hv_scan_prefix [OF HV_Line] rest by auto
    then have ext: "hv_scan acc (c # cs @ ext) = HV_Line acc1 (rest @ ext)"
      by (metis append_Cons append_assoc)
    show ?thesis
    proof (cases "lf = LF")
      case False
      with "1.prems" cs HV_Line rest have "r = -2" by (subst (asm) hv_lines.simps) simp
      with False cse ext rest show ?thesis by (subst hv_lines.simps) simp
    next
      case True
      with "1.prems" cs HV_Line rest obtain c2 rest2 where c2: "rest1 = c2 # rest2"
        by (subst (asm) hv_lines.simps) (auto split: list.splits)
      have "hv_lines acc ptr = (if \<not> is_blank c2 then HV_Line (strip_blanks acc1) (c2 # rest2)
          else hv_lines (strip_blanks acc1 @ [SP]) rest2)"
        using cs HV_Line rest True c2 by (subst hv_lines.simps) simp
      with "1.prems"(1) have bl: "is_blank c2" "hv_lines (strip_blanks acc1 @ [SP]) rest2 = HV_Return r"
        by (simp_all split: if_splits)
      have "hv_lines (strip_blanks acc1 @ [SP]) (rest2 @ ext) = HV_Return r"
        using "1.IH" [OF cs HV_Line rest _ c2 _ _ bl(2) "1.prems"(2)] True bl(1) by simp
      with cse ext rest c2 True bl(1) show ?thesis by (subst hv_lines.simps) simp
    qed
  qed
qed

lemma parse_header_name_turn:
  assumes "parse_header_name ptr p = (r, q)"
  shows "if r > 0 then hp_header_offset p < hp_header_offset q \<and> hp_header_offset q \<le> hp_header_offset p + length ptr
    else hp_header_offset q = hp_header_offset p \<and> hp_header_state q = hp_header_state p"
  using assms starts_crlf_length [of ptr]
  by (auto simp: parse_header_name_def Let_def split: if_splits option.splits dest: find_idx_less)

lemma parse_header_name_local:
  assumes "parse_header_name ptr p = (r, q)" "r > 0" "hp_header_offset q \<le> hp_header_offset p + n"
    and "hp_header_state q = HPS_HEADER_COMPLETE \<or> hp_header_offset q < hp_header_offset p + n"
  shows "parse_header_name (take n ptr) p = (r, q)"
proof (cases "starts_crlf ptr")
  case True
  with assms starts_crlf_take [of n ptr] show ?thesis by (auto simp: parse_header_name_def)
next
  case False
  let ?f = "\<lambda>ptr. find_idx (\<lambda>c. c = CHR '':'' \<or> bad_name_byte c) (take HTTP_HEADER_NAME_MAX ptr)"
  obtain i where i: "?f ptr = Some i" "ptr ! i = CHR '':''" "r = 1"
      "q = p\<lparr>hp_namebuf := overwrite (hp_namebuf p) 0 (take i ptr @ [NUL]),
             hp_header_offset := hp_header_offset p + i + 1, hp_header_state := HPS_HEADER_VALUE\<rparr>"
    using assms(1,2) False by (auto simp: parse_header_name_def split: if_splits option.splits)
  then have "i + 1 < n" using assms(4) by simp
  then have "?f (take n ptr) = Some i" "2 \<le> n"
    using i(1) by (auto simp: find_idx_take split: option.splits if_splits)
  with i False \<open>i + 1 < n\<close> starts_crlf_take [of n ptr] show ?thesis
    by (simp add: parse_header_name_def min_def)
qed

text \<open>What an operation that leaves the name buffer alone does does not depend on it.\<close>

definition put_namebuf :: "bytes \<Rightarrow> int \<times> http_parser \<times> allocator \<Rightarrow> int \<times> http_parser \<times> allocator" where
  "put_namebuf x res = (case res of (r, q, m) \<Rightarrow> (r, q\<lparr>hp_namebuf := x\<rparr>, m))"

lemma check_message_header_namebuf:
  "check_message_header name v (p\<lparr>hp_namebuf := x\<rparr>) = (check_message_header name v p)\<lparr>hp_namebuf := x\<rparr>"
  unfolding check_message_header_def Let_def if_distrib [of "\<lambda>p. p\<lparr>hp_namebuf := x\<rparr>"]
  by (intro if_cong refl) simp_all

lemma http_parser_add_header_namebuf:
  "http_parser_add_header name v (p\<lparr>hp_namebuf := x\<rparr>) m = put_namebuf x (http_parser_add_header name v p m)"
proof (cases "alloc m")
  case (Pair b m')
  have 1: "p\<lparr>hp_namebuf := x, hp_header_list := l\<rparr> = (p\<lparr>hp_header_list := l\<rparr>)\<lparr>hp_namebuf := x\<rparr>" for l
    by simp
  show ?thesis
    by (cases b) (simp_all add: Pair http_parser_add_header_def add_message_header_def put_namebuf_def
        check_message_header_namebuf 1 del: http_parser.update_convs)
qed

lemma parse_start_line_namebuf:
  "parse_start_line ptr (p\<lparr>hp_namebuf := x\<rparr>) m = put_namebuf x (parse_start_line ptr p m)"
proof -
  have "match_status_line a b c (p\<lparr>hp_namebuf := x\<rparr>) m = put_namebuf x (match_status_line a b c p m)" for a b c
    by (simp add: match_status_line_def put_namebuf_def Let_def split: prod.splits bool.splits)
  moreover have "match_request_line a b c (p\<lparr>hp_namebuf := x\<rparr>) m = put_namebuf x (match_request_line a b c p m)" for a b c
    by (simp add: match_request_line_def put_namebuf_def Let_def split: prod.splits bool.splits)
  ultimately have "take_start_line l (p\<lparr>hp_namebuf := x\<rparr>) m = put_namebuf x (take_start_line l p m)" for l
    by (simp add: take_start_line_def put_namebuf_def Let_def split: prod.splits option.splits)
  then show ?thesis by (simp add: parse_start_line_def put_namebuf_def split: line_scan.splits)
qed

lemma check_message_header_offset [simp]:
  "hp_header_offset (check_message_header name v p) = hp_header_offset p"
  unfolding check_message_header_def Let_def if_distrib [of hp_header_offset] by (simp cong: if_cong)

lemma check_message_header_state [simp]:
  "hp_header_state (check_message_header name v p) = hp_header_state p"
  unfolding check_message_header_def Let_def if_distrib [of hp_header_state] by (simp cong: if_cong)

lemma http_parser_add_header_frame:
  "http_parser_add_header name v p m = (r, q, m') \<Longrightarrow>
   hp_header_offset q = hp_header_offset p \<and> hp_header_state q = hp_header_state p"
  by (auto simp: http_parser_add_header_def add_message_header_def split: prod.splits bool.splits if_splits)

lemma hv_return_le: "hv_scan acc ptr = HV_Return r \<Longrightarrow> r \<le> 0"
  by (induction acc ptr rule: hv_scan.induct) (auto split: if_splits)

lemma hv_lines_return_le: "hv_lines acc ptr = HV_Return r \<Longrightarrow> r \<le> 0"
proof (induction acc ptr rule: hv_lines.induct)
  case (1 acc ptr)
  then show ?case
    by (subst (asm) (2) hv_lines.simps)
      (auto simp: Let_def simp del: hv_scan.simps split: list.splits hv_result.splits if_splits dest: hv_return_le)
qed

lemma parse_header_value_line:
  "hv_lines [] (pre @ rest) = HV_Line a rest \<Longrightarrow>
   parse_header_value (pre @ rest) p m =
     (case http_parser_add_header (c_str (hp_namebuf p)) a p m of (ret, q, m') \<Rightarrow>
        if ret < 0 then (-1, q, m')
        else (1, q\<lparr>hp_header_offset := hp_header_offset q + length pre, hp_header_state := HPS_HEADER_NAME\<rparr>, m'))"
  by (simp add: parse_header_value_def split: prod.splits)

lemma parse_header_value_extend:
  assumes "parse_header_value ptr p m = (r, q, m')" "r \<noteq> 0"
  shows "parse_header_value (ptr @ ext) p m = (r, q, m')"
proof (cases "hv_lines [] ptr")
  case (HV_Return r')
  with assms hv_lines_return [of "[]" ptr r' ext] show ?thesis by (simp add: parse_header_value_def)
next
  case (HV_Line a rest)
  then obtain pre c2 rest2 where "rest = c2 # rest2" "ptr = pre @ rest"
      "\<forall>rest'. hv_lines [] (pre @ c2 # rest') = HV_Line a (c2 # rest')"
    using hv_lines_prefix by blast
  then show ?thesis using assms parse_header_value_line [of pre "c2 # rest2" a p m]
      parse_header_value_line [of pre "c2 # rest2 @ ext" a p m] by simp
qed

lemma parse_header_value_turn:
  assumes "parse_header_value ptr p m = (r, q, m')"
  shows "if r > 0 then hp_header_offset p < hp_header_offset q \<and> hp_header_offset q \<le> hp_header_offset p + length ptr
      \<and> hp_header_state q = HPS_HEADER_NAME
    else hp_header_offset q = hp_header_offset p \<and> hp_header_state q = hp_header_state p"
proof (cases "hv_lines [] ptr")
  case (HV_Return r')
  with assms hv_lines_return_le [OF HV_Return] show ?thesis by (simp add: parse_header_value_def)
next
  case (HV_Line a rest)
  then have "length rest < length ptr" using hv_lines_prefix [of "[]" ptr a rest] by fastforce
  with assms HV_Line show ?thesis
    by (auto simp: parse_header_value_def split: prod.splits if_splits dest: http_parser_add_header_frame)
qed

lemma parse_header_value_local:
  assumes "parse_header_value ptr p m = (r, q, m')" "r > 0" "hp_header_offset q < hp_header_offset p + n"
  shows "parse_header_value (take n ptr) p m = (r, q, m')"
proof (cases "hv_lines [] ptr")
  case (HV_Return r')
  with assms hv_lines_return_le [OF HV_Return] show ?thesis by (simp add: parse_header_value_def)
next
  case (HV_Line a rest)
  then obtain pre c2 rest2 where pre: "rest = c2 # rest2" "ptr = pre @ rest"
      "\<forall>rest'. hv_lines [] (pre @ c2 # rest') = HV_Line a (c2 # rest')"
    using hv_lines_prefix by blast
  have "hp_header_offset q = hp_header_offset p + length pre"
    using assms(1,2) HV_Line pre(2)
    by (auto simp: parse_header_value_def split: prod.splits if_splits dest: http_parser_add_header_frame)
  with assms(3) have "take n ptr = pre @ c2 # take (n - length pre - 1) rest2"
    by (simp add: pre take_Cons')
  then show ?thesis using assms(1) pre parse_header_value_line [of pre "c2 # rest2" a p m]
      parse_header_value_line [of pre "c2 # take (n - length pre - 1) rest2" a p m] by simp
qed

end
