(* ===== verification/HttpMessage.thy ===== *)
theory HttpMessage
  imports HttpParser
begin

text \<open>
  The second half of http_parser.c: the loop over the header section, chunked bodies,
  \<open>http_parser_append_message\<close> and the accessors. Both loops are interpretations of
  \<open>resumable_loop\<close>; on them rest the theorems that a message may arrive in pieces and that the
  parser claims exactly the bytes of the message.
\<close>

section \<open>The header section\<close>

lemma header_turn_progress:
  assumes "header_turn message p m = (r, q, m')"
  shows "if r > 0 then hp_header_offset p < hp_header_offset q \<and> hp_header_offset q \<le> length message
    else hp_header_offset q = hp_header_offset p \<and> hp_header_state q = hp_header_state p"
proof (cases "hp_header_offset p \<le> length message")
  case True
  with assms show ?thesis
    by (cases "hp_header_state p") (auto simp: header_turn_def split: prod.splits if_splits
      dest: parse_start_line_turn parse_header_value_turn parse_header_name_turn)
next
  case False
  then have "drop (hp_header_offset p) message = []" by simp
  with assms show ?thesis
    by (cases "hp_header_state p") (auto simp: header_turn_def split: prod.splits if_splits
      dest: parse_start_line_turn parse_header_value_turn parse_header_name_turn)
qed

function parse_message_header :: "bytes \<Rightarrow> http_parser \<Rightarrow> allocator \<Rightarrow> int \<times> http_parser \<times> allocator" where
  "parse_message_header message p m =
     (case header_turn message p m of (ret, q, m') \<Rightarrow>
        if hp_header_state p \<noteq> HPS_START_LINE \<and> hp_header_state p \<noteq> HPS_HEADER_VALUE \<and>
           hp_header_state q = HPS_HEADER_COMPLETE then (1, q, m')
        else if ret > 0 then parse_message_header message q m'
        else (ret, q, m'))"
  by pat_completeness auto
termination
  by (relation "measure (\<lambda>(message, p, m). length message - hp_header_offset p)")
    (auto dest!: sym [of _ "header_turn _ _ _"] header_turn_progress)

declare parse_message_header.simps [simp del]

section \<open>Chunked bodies\<close>

abbreviation CHUNK_SIZE_MAX :: nat where "CHUNK_SIZE_MAX \<equiv> 2147482620" \<comment> \<open>2 * 1024 * 1024 * 1024 - 1024 - 4\<close>

definition c_isxdigit :: "byte \<Rightarrow> bool" where
  "c_isxdigit c \<longleftrightarrow> c_isdigit c \<or> (65 \<le> uchar c \<and> uchar c \<le> 70) \<or> (97 \<le> uchar c \<and> uchar c \<le> 102)"

definition xdigit_val :: "byte \<Rightarrow> nat" where
  "xdigit_val c = (if c_isdigit c then uchar c - 48 else if uchar c \<le> 70 then uchar c - 55 else uchar c - 87)"

fun xdigits_val :: "nat \<Rightarrow> bytes \<Rightarrow> nat" where
  "xdigits_val acc [] = acc"
| "xdigits_val acc (c # cs) = (if c_isxdigit c then xdigits_val (16 * acc + xdigit_val c) cs else acc)"

text \<open>\<open>strtol (s, &end, 16)\<close>: None when no conversion is made (\<open>end == s\<close>). A prefix 0x counts
  only before a digit.\<close>

definition c_strtol16 :: "bytes \<Rightarrow> int option" where
  "c_strtol16 s =
     (let s1 = dropWhile c_isspace s;
          neg = (s1 \<noteq> [] \<and> hd s1 = CHR ''-'');
          s2 = (if s1 \<noteq> [] \<and> (hd s1 = CHR ''-'' \<or> hd s1 = CHR ''+'') then tl s1 else s1);
          s3 = (case s2 of z # x # d # ds \<Rightarrow>
                  if z = CHR ''0'' \<and> (x = CHR ''x'' \<or> x = CHR ''X'') \<and> c_isxdigit d then d # ds else s2
                | _ \<Rightarrow> s2) in
      if s3 = [] \<or> \<not> c_isxdigit (hd s3) then None
      else Some (clamp_long ((if neg then -1 else 1) * int (xdigits_val 0 s3))))"

definition parse_chunk_data :: "bytes \<Rightarrow> http_parser \<Rightarrow> int \<times> http_parser" where
  "parse_chunk_data ptr p =
     (case scan_line (\<lambda>_. False) HTTP_CHUNK_LINE_MAX ptr of
        LS_Bad \<Rightarrow> (-2, p)
      | LS_More \<Rightarrow> (0, p)
      | LS_Line i \<Rightarrow>
          (case c_strtol16 (take i ptr) of
             None \<Rightarrow> (-2, p)
           | Some chunk_size \<Rightarrow>
               if chunk_size = 0 then
                 (1, p\<lparr>hp_chunk_state := CPS_TRAILER_PART, hp_chunk_offset := hp_chunk_offset p + (i + 2)\<rparr>)
               else if 0 < chunk_size \<and> chunk_size < int CHUNK_SIZE_MAX then
                 (if length ptr < nat chunk_size + i + 4 then (0, p)
                  else (1, p\<lparr>hp_chunk_offset := hp_chunk_offset p + (nat chunk_size + i + 4)\<rparr>))
               else (-2, p)))"

definition parse_trailer_part :: "bytes \<Rightarrow> http_parser \<Rightarrow> int \<times> http_parser" where
  "parse_trailer_part ptr p =
     (case scan_line (\<lambda>_. False) HTTP_TRAILER_LINE_MAX ptr of
        LS_Bad \<Rightarrow> (-2, p)
      | LS_More \<Rightarrow> (0, p)
      | LS_Line i \<Rightarrow>
          (1, (if i = 0 then p\<lparr>hp_chunk_offset := hp_chunk_offset p + (i + 2), hp_chunk_state := CPS_CHUNK_COMPLETE\<rparr>
               else p\<lparr>hp_chunk_offset := hp_chunk_offset p + (i + 2)\<rparr>)))"

definition chunk_turn :: "bytes \<Rightarrow> http_parser \<Rightarrow> int \<times> http_parser" where
  "chunk_turn message p =
     (let ptr = drop (hp_chunk_offset p) message in
      if hp_chunk_state p = CPS_CHUNK_DATA then parse_chunk_data ptr p else parse_trailer_part ptr p)"

lemma parse_chunk_data_turn:
  assumes "parse_chunk_data ptr p = (r, q)"
  shows "if r > 0 then hp_chunk_offset p < hp_chunk_offset q \<and> hp_chunk_offset q \<le> hp_chunk_offset p + length ptr
      \<and> hp_chunk_state q \<in> {hp_chunk_state p, CPS_TRAILER_PART}
    else q = p"
  using assms scan_line_bound [of "\<lambda>_. False" HTTP_CHUNK_LINE_MAX ptr]
  by (auto simp: parse_chunk_data_def split: line_scan.splits option.splits if_splits)

lemma parse_trailer_part_turn:
  assumes "parse_trailer_part ptr p = (r, q)"
  shows "if r > 0 then hp_chunk_offset p < hp_chunk_offset q \<and> hp_chunk_offset q \<le> hp_chunk_offset p + length ptr
    else q = p"
  using assms scan_line_bound [of "\<lambda>_. False" HTTP_TRAILER_LINE_MAX ptr]
  by (auto simp: parse_trailer_part_def split: line_scan.splits if_splits)

lemma chunk_turn_progress:
  assumes "chunk_turn message p = (r, q)"
  shows "if r > 0 then hp_chunk_offset p < hp_chunk_offset q \<and> hp_chunk_offset q \<le> length message else q = p"
proof (cases "hp_chunk_offset p \<le> length message")
  case True
  with assms show ?thesis
    by (auto simp: chunk_turn_def Let_def split: if_splits dest: parse_chunk_data_turn parse_trailer_part_turn)
next
  case False
  then have "drop (hp_chunk_offset p) message = []" by simp
  with assms show ?thesis
    by (auto simp: chunk_turn_def Let_def split: if_splits dest: parse_chunk_data_turn parse_trailer_part_turn)
qed

function parse_chunk :: "bytes \<Rightarrow> http_parser \<Rightarrow> int \<times> http_parser" where
  "parse_chunk message p =
     (case chunk_turn message p of (ret, q) \<Rightarrow>
        if hp_chunk_state p \<noteq> CPS_CHUNK_DATA \<and> hp_chunk_state q = CPS_CHUNK_COMPLETE then (1, q)
        else if ret > 0 then parse_chunk message q
        else (ret, q))"
  by pat_completeness auto
termination
  by (relation "measure (\<lambda>(message, p). length message - hp_chunk_offset p)")
    (auto dest!: sym [of _ "chunk_turn _ _"] chunk_turn_progress)

declare parse_chunk.simps [simp del]

section \<open>Messages\<close>

definition http_parser_init :: "bool \<Rightarrow> http_parser \<Rightarrow> http_parser" where
  "http_parser_init is_resp p = p\<lparr>
     hp_header_state := HPS_START_LINE, hp_header_offset := 0, hp_transfer_length := SIZE_MAX,
     hp_content_length := (if is_resp then SIZE_MAX else 0),
     hp_version := None, hp_method := None, hp_uri := None, hp_code := None, hp_phrase := None,
     hp_header_list := [], hp_msgbuf := [], hp_msgsize := 0, hp_bufsize := 0,
     hp_has_connection := False, hp_has_content_length := False, hp_has_keep_alive := False,
     hp_expect_continue := False, hp_keep_alive := True, hp_chunked := False, hp_complete := False,
     hp_is_resp := is_resp\<rparr>"

text \<open>The growth of the buffer: false when \<open>realloc\<close> fails.\<close>

definition reserve_msgbuf :: "nat \<Rightarrow> http_parser \<Rightarrow> allocator \<Rightarrow> bool \<times> http_parser \<times> allocator" where
  "reserve_msgbuf n p m =
     (let need = hp_msgsize p + n + 1 in
      if need > hp_bufsize p then
        (let new_size = grow_size (max HTTP_MSGBUF_INIT_SIZE (2 * hp_bufsize p)) need in
         case alloc m of
           (False, m') \<Rightarrow> (False, p, m')
         | (True, m') \<Rightarrow> (True, p\<lparr>hp_msgbuf := hp_msgbuf p @ replicate (new_size - length (hp_msgbuf p)) NUL,
                                hp_bufsize := new_size\<rparr>, m'))
      else (True, p, m))"

text \<open>The result is the return value and the new \<open>*n\<close>; the latter is an integer here, so that
  the subtraction of sizes, which the source makes on \<open>size_t\<close>, would show a wrap as a negative
  number.\<close>

definition finish_message :: "nat \<Rightarrow> int \<Rightarrow> http_parser \<Rightarrow> int \<times> int \<times> http_parser" where
  "finish_message total_size n p = (1, n - (int (hp_msgsize p) - int total_size), p\<lparr>hp_msgsize := total_size, hp_complete := True\<rparr>)"

definition body_turn :: "int \<Rightarrow> http_parser \<Rightarrow> int \<times> int \<times> http_parser" where
  "body_turn n p =
     (if hp_transfer_length p \<noteq> SIZE_MAX then
        (let total_size = hp_header_offset p + hp_transfer_length p in
         if hp_msgsize p \<ge> total_size then finish_message total_size n p else (0, n, p))
      else if \<not> hp_chunked p then (0, n, p)
      else if hp_chunk_state p \<noteq> CPS_CHUNK_COMPLETE then
        (case parse_chunk (take (hp_msgsize p) (hp_msgbuf p)) p of (ret, q) \<Rightarrow>
           if ret \<le> 0 then (ret, n, q) else finish_message (hp_chunk_offset q) n q)
      else finish_message (hp_chunk_offset p) n p)"

definition start_body :: "http_parser \<Rightarrow> http_parser" where
  "start_body p =
     (if hp_chunked p then p\<lparr>hp_chunk_offset := hp_header_offset p, hp_chunk_state := CPS_CHUNK_DATA\<rparr>
      else if hp_transfer_length p = SIZE_MAX then p\<lparr>hp_transfer_length := hp_content_length p\<rparr>
      else p)"

definition http_parser_append_message :: "bytes \<Rightarrow> http_parser \<Rightarrow> allocator \<Rightarrow> int \<times> int \<times> http_parser \<times> allocator" where
  "http_parser_append_message buf p m =
     (if hp_complete p then (1, 0, p, m)
      else let n = length buf in
        case reserve_msgbuf n p m of
          (False, p1, m1) \<Rightarrow> (-1, int n, p1, m1)
        | (True, p1, m1) \<Rightarrow>
            (let p2 = p1\<lparr>hp_msgbuf := overwrite (hp_msgbuf p1) (hp_msgsize p1) buf, hp_msgsize := hp_msgsize p1 + n\<rparr> in
             if hp_header_state p2 \<noteq> HPS_HEADER_COMPLETE then
               (case parse_message_header (take (hp_msgsize p2) (hp_msgbuf p2)) p2 m1 of (ret, p3, m3) \<Rightarrow>
                  if ret \<le> 0 then (ret, int n, p3, m3)
                  else (case body_turn (int n) (start_body p3) of (r, n', q) \<Rightarrow> (r, n', q, m3)))
             else (case body_turn (int n) p2 of (r, n', q) \<Rightarrow> (r, n', q, m1))))"

definition http_parser_header_complete :: "http_parser \<Rightarrow> bool" where
  "http_parser_header_complete p \<longleftrightarrow> hp_header_state p = HPS_HEADER_COMPLETE"

text \<open>The body and the parser with the NUL written after it.\<close>

definition http_parser_get_body :: "http_parser \<Rightarrow> (bytes \<times> http_parser) option" where
  "http_parser_get_body p =
     (if hp_complete p \<and> hp_header_state p = HPS_HEADER_COMPLETE then
        Some (take (hp_msgsize p - hp_header_offset p) (drop (hp_header_offset p) (hp_msgbuf p)),
              p\<lparr>hp_msgbuf := (hp_msgbuf p)[hp_msgsize p := NUL]\<rparr>)
      else None)"

definition http_parser_close_message :: "http_parser \<Rightarrow> http_parser" where
  "http_parser_close_message p = p\<lparr>hp_complete := True\<rparr>"

definition http_parser_set_method :: "bytes \<Rightarrow> http_parser \<Rightarrow> allocator \<Rightarrow> int \<times> http_parser \<times> allocator" where
  "http_parser_set_method s p m = (case alloc m of (True, m') \<Rightarrow> (0, p\<lparr>hp_method := Some s\<rparr>, m') | (False, m') \<Rightarrow> (-1, p, m'))"

definition http_parser_set_uri :: "bytes \<Rightarrow> http_parser \<Rightarrow> allocator \<Rightarrow> int \<times> http_parser \<times> allocator" where
  "http_parser_set_uri s p m = (case alloc m of (True, m') \<Rightarrow> (0, p\<lparr>hp_uri := Some s\<rparr>, m') | (False, m') \<Rightarrow> (-1, p, m'))"

definition http_parser_set_version :: "bytes \<Rightarrow> http_parser \<Rightarrow> allocator \<Rightarrow> int \<times> http_parser \<times> allocator" where
  "http_parser_set_version s p m = (case alloc m of (True, m') \<Rightarrow> (0, p\<lparr>hp_version := Some s\<rparr>, m') | (False, m') \<Rightarrow> (-1, p, m'))"

definition http_parser_set_code :: "bytes \<Rightarrow> http_parser \<Rightarrow> allocator \<Rightarrow> int \<times> http_parser \<times> allocator" where
  "http_parser_set_code s p m = (case alloc m of (True, m') \<Rightarrow> (0, p\<lparr>hp_code := Some s\<rparr>, m') | (False, m') \<Rightarrow> (-1, p, m'))"

definition http_parser_set_phrase :: "bytes \<Rightarrow> http_parser \<Rightarrow> allocator \<Rightarrow> int \<times> http_parser \<times> allocator" where
  "http_parser_set_phrase s p m = (case alloc m of (True, m') \<Rightarrow> (0, p\<lparr>hp_phrase := Some s\<rparr>, m') | (False, m') \<Rightarrow> (-1, p, m'))"

section \<open>Header cursors\<close>

text \<open>A cursor is the number of header lines it has passed; its \<open>head\<close> is the list.\<close>

definition line_value :: "header_line \<Rightarrow> bytes" where
  "line_value line = take (hl_value_len line) (drop (hl_name_len line + 2) (hl_buf line))"

definition http_header_cursor_init :: "http_parser \<Rightarrow> nat" where
  "http_header_cursor_init p = 0"

definition http_header_cursor_next :: "header_line list \<Rightarrow> nat \<Rightarrow> (bytes \<times> bytes) option \<times> nat" where
  "http_header_cursor_next head next =
     (if next < length head then
        (let line = head ! next in (Some (take (hl_name_len line) (hl_buf line), line_value line), next + 1))
      else (None, next))"

function http_header_cursor_find :: "bytes \<Rightarrow> header_line list \<Rightarrow> nat \<Rightarrow> bytes option \<times> nat" where
  "http_header_cursor_find name head next =
     (if next < length head then
        (let line = head ! next in
         if line_matches name line then (Some (line_value line), next + 1)
         else http_header_cursor_find name head (next + 1))
      else (None, next))"
  by pat_completeness auto
termination
  by (relation "measure (\<lambda>(name, head, next). length head - next)") auto

declare http_header_cursor_find.simps [simp del]

section \<open>The two loops are resumable\<close>

text \<open>The part of the parser that a later header turn can see: the name buffer counts only
  between the colon of a header and its value, and then only up to its NUL.\<close>

definition header_view :: "http_parser \<times> allocator \<Rightarrow> http_parser \<times> bytes \<times> allocator" where
  "header_view s = ((fst s)\<lparr>hp_namebuf := []\<rparr>,
     (if hp_header_state (fst s) = HPS_HEADER_VALUE then c_str (hp_namebuf (fst s)) else []), snd s)"

lemma header_view_eqD:
  assumes "header_view (p, m) = header_view (q, m')"
  shows "m' = m" "q = p\<lparr>hp_namebuf := hp_namebuf q\<rparr>"
    "hp_header_state p = HPS_HEADER_VALUE \<Longrightarrow> c_str (hp_namebuf q) = c_str (hp_namebuf p)"
proof -
  from assms have h: "p\<lparr>hp_namebuf := []\<rparr> = q\<lparr>hp_namebuf := []\<rparr>"
    by (simp add: header_view_def)
  then have "(p\<lparr>hp_namebuf := []\<rparr>)\<lparr>hp_namebuf := hp_namebuf q\<rparr> = (q\<lparr>hp_namebuf := []\<rparr>)\<lparr>hp_namebuf := hp_namebuf q\<rparr>"
    by simp
  then show q: "q = p\<lparr>hp_namebuf := hp_namebuf q\<rparr>" by simp
  show "m' = m" using assms by (simp add: header_view_def)
  show "hp_header_state p = HPS_HEADER_VALUE \<Longrightarrow> c_str (hp_namebuf q) = c_str (hp_namebuf p)"
    using assms arg_cong [OF q, of hp_header_state] by (simp add: header_view_def)
qed

lemma header_view_put_namebuf:
  "hp_header_state (fst (snd res)) = HPS_HEADER_VALUE \<longrightarrow> c_str x = c_str (hp_namebuf (fst (snd res))) \<Longrightarrow>
   fst (put_namebuf x res) = fst res \<and> header_view (snd (put_namebuf x res)) = header_view (snd res)"
  by (cases res) (simp add: put_namebuf_def header_view_def)

lemma parse_header_name_view:
  "fst (parse_header_name ptr (p\<lparr>hp_namebuf := x\<rparr>)) = fst (parse_header_name ptr p) \<and>
   (hp_header_state p \<noteq> HPS_HEADER_VALUE \<longrightarrow>
    header_view (snd (parse_header_name ptr (p\<lparr>hp_namebuf := x\<rparr>)), m) = header_view (snd (parse_header_name ptr p), m))"
proof -
  have "NUL \<notin> set (take i ptr)"
    if "find_idx (\<lambda>c. c = CHR '':'' \<or> bad_name_byte c) (take HTTP_HEADER_NAME_MAX ptr) = Some i" for i
  proof
    assume "NUL \<in> set (take i ptr)"
    then obtain j where "j < i" "ptr ! j = NUL" by (auto simp: in_set_conv_nth)
    with that show False by (auto simp: find_idx_Some_iff bad_name_byte_def schar_def uchar_def)
  qed
  then show ?thesis
    by (auto simp: parse_header_name_def header_view_def overwrite_def split: option.splits)
qed

lemma header_turn_view:
  assumes "header_view (p, m) = header_view (q, m')"
  shows "fst (header_turn msg p m) = fst (header_turn msg q m') \<and>
    header_view (snd (header_turn msg p m)) = header_view (snd (header_turn msg q m'))"
proof -
  define x where "x = hp_namebuf q"
  from header_view_eqD [OF assms] have m: "m' = m" and q: "q = p\<lparr>hp_namebuf := x\<rparr>"
    and v: "hp_header_state p = HPS_HEADER_VALUE \<Longrightarrow> c_str x = c_str (hp_namebuf p)"
    by (simp_all add: x_def)
  let ?ptr = "drop (hp_header_offset p) msg"
  show ?thesis
  proof (cases "hp_header_state p")
    case HPS_START_LINE
    obtain r p1 m1 where res: "parse_start_line ?ptr p m = (r, p1, m1)" by (metis prod_cases3)
    have "hp_header_state p1 \<noteq> HPS_HEADER_VALUE"
      using parse_start_line_turn [OF res HPS_START_LINE] HPS_START_LINE by (auto split: if_splits)
    with HPS_START_LINE res header_view_put_namebuf [where res = "parse_start_line ?ptr p m" and x = x] show ?thesis
      by (simp add: header_turn_def q m parse_start_line_namebuf)
  next
    case HPS_HEADER_VALUE
    have nb: "c_str y = c_str (hp_namebuf p) \<Longrightarrow>
        parse_header_value ?ptr (p\<lparr>hp_namebuf := y\<rparr>) m = put_namebuf y (parse_header_value ?ptr p m)" for y
      by (auto simp: parse_header_value_def http_parser_add_header_namebuf put_namebuf_def
          split: hv_result.splits prod.splits)
    have "hp_namebuf (fst (snd (parse_header_value ?ptr p m))) = hp_namebuf p"
      using arg_cong [OF nb [OF refl], of "\<lambda>res. hp_namebuf (fst (snd res))"]
      by (simp add: put_namebuf_def split: prod.splits)
    then show ?thesis
      using HPS_HEADER_VALUE v nb [of x] header_view_put_namebuf [where res = "parse_header_value ?ptr p m" and x = x]
      by (simp add: header_turn_def q m)
  next
    case HPS_HEADER_NAME
    then show ?thesis using parse_header_name_view [where ptr = ?ptr and p = p and x = x and m = m] by (auto simp: header_turn_def q m split: prod.splits)
  next
    case HPS_HEADER_COMPLETE
    then show ?thesis using parse_header_name_view [where ptr = ?ptr and p = p and x = x and m = m] by (auto simp: header_turn_def q m split: prod.splits)
  qed
qed

lemma header_turn_extend:
  assumes "header_turn msg p m = (r, q, m')" "r \<noteq> 0"
  shows "header_turn (msg @ ext) p m = (r, q, m')"
proof -
  have nn: "drop (hp_header_offset p) msg \<noteq> []"
    using assms by (auto simp: header_turn_def parse_start_line_def parse_header_value_def parse_header_name_def
        hv_lines.simps split: header_state.splits)
  then have "drop (hp_header_offset p) (msg @ ext) = drop (hp_header_offset p) msg @ ext"
    by simp
  with assms show ?thesis
    by (auto simp: header_turn_def Let_def parse_start_line_extend parse_header_value_extend
        split: header_state.splits prod.splits dest: parse_header_name_extend [where ext = ext])
qed

lemma header_turn_local:
  assumes "header_turn msg p m = (r, q, m')" "r > 0" "hp_header_offset q \<le> n"
    and "hp_header_state q = HPS_HEADER_COMPLETE \<or> hp_header_offset q < n"
  shows "header_turn (take n msg) p m = (r, q, m')"
proof -
  let ?o = "hp_header_offset p" let ?ptr = "drop (hp_header_offset p) msg"
  have "?o < hp_header_offset q" using header_turn_progress [OF assms(1)] assms(2) by simp
  then have n: "n = ?o + (n - ?o)" using assms(3) by simp
  have ptr: "drop ?o (take n msg) = take (n - ?o) ?ptr" by (simp add: drop_take)
  show ?thesis
  proof (cases "hp_header_state p")
    case HPS_START_LINE
    then show ?thesis
      using assms n ptr parse_start_line_local [of ?ptr p m r q m' "n - ?o"] by (simp add: header_turn_def)
  next
    case HPS_HEADER_VALUE
    moreover have "hp_header_state q = HPS_HEADER_NAME"
      using HPS_HEADER_VALUE assms(1,2) parse_header_value_turn [of ?ptr p m r q m'] by (simp add: header_turn_def)
    ultimately show ?thesis
      using assms n ptr parse_header_value_local [of ?ptr p m r q m' "n - ?o"] by (simp add: header_turn_def)
  next
    case HPS_HEADER_NAME
    then show ?thesis
      using assms n ptr parse_header_name_local [of ?ptr p r q "n - ?o"]
      by (auto simp: header_turn_def split: prod.splits)
  next
    case HPS_HEADER_COMPLETE
    then show ?thesis
      using assms n ptr parse_header_name_local [of ?ptr p r q "n - ?o"]
      by (auto simp: header_turn_def split: prod.splits)
  qed
qed

lemma header_turn_wait:
  assumes "header_turn msg p m = (0, q, m')"
  shows "header_view (q, m') = header_view (p, m)"
proof (cases "hp_header_state p")
  case HPS_START_LINE
  with assms show ?thesis
    by (auto simp: header_turn_def Let_def parse_start_line_def split: if_splits line_scan.splits dest: take_start_line_turn)
next
  case HPS_HEADER_VALUE
  with assms show ?thesis
    by (auto simp: header_turn_def Let_def parse_header_value_def split: hv_result.splits prod.splits if_splits)
qed (use assms in \<open>auto simp: header_turn_def Let_def parse_header_name_def header_view_def split: prod.splits option.splits if_splits\<close>)

interpretation header: resumable_loop "\<lambda>msg s. header_turn msg (fst s) (snd s)"
  "\<lambda>msg s. parse_message_header msg (fst s) (snd s)"
  "\<lambda>s. hp_header_state (fst s) = HPS_HEADER_COMPLETE" "\<lambda>s. hp_header_offset (fst s)" header_view
proof
  fix msg :: bytes and s :: "http_parser \<times> allocator"
  obtain p m where s: "s = (p, m)" by fastforce
  obtain r q m' where t: "header_turn msg p m = (r, q, m')" by (metis prod_cases3)
  have "hp_header_state p = HPS_START_LINE \<or> hp_header_state p = HPS_HEADER_VALUE \<Longrightarrow> hp_header_state q \<noteq> HPS_HEADER_COMPLETE"
    using t parse_start_line_turn [of "drop (hp_header_offset p) msg" p m r q m']
      parse_header_value_turn [of "drop (hp_header_offset p) msg" p m r q m']
    by (auto simp: header_turn_def split: if_splits)
  then show "parse_message_header msg (fst s) (snd s) = (case header_turn msg (fst s) (snd s) of (r, t) \<Rightarrow>
      if hp_header_state (fst t) = HPS_HEADER_COMPLETE then (1, t)
      else if 0 < r then parse_message_header msg (fst t) (snd t) else (r, t))"
    using s t by (auto simp: parse_message_header.simps [of msg p m])
next
  fix msg :: bytes and s t :: "http_parser \<times> allocator" and r
  assume t: "header_turn msg (fst s) (snd s) = (r, t)"
  then have t': "header_turn msg (fst s) (snd s) = (r, fst t, snd t)" by simp
  show "0 < r \<Longrightarrow> hp_header_offset (fst s) < hp_header_offset (fst t) \<and> hp_header_offset (fst t) \<le> length msg"
    using header_turn_progress [OF t'] by simp
  show "r \<le> 0 \<Longrightarrow> hp_header_offset (fst t) = hp_header_offset (fst s) \<and>
      (hp_header_state (fst t) = HPS_HEADER_COMPLETE) = (hp_header_state (fst s) = HPS_HEADER_COMPLETE)"
    using header_turn_progress [OF t'] by simp
  show "r \<noteq> 0 \<Longrightarrow> header_turn (msg @ ext) (fst s) (snd s) = (r, t)" for ext
    using header_turn_extend [OF t'] by simp
  show "0 < r \<Longrightarrow> hp_header_offset (fst t) \<le> n \<Longrightarrow> hp_header_state (fst t) = HPS_HEADER_COMPLETE \<or> hp_header_offset (fst t) < n \<Longrightarrow>
      header_turn (take n msg) (fst s) (snd s) = (r, t)" for n
    using header_turn_local [OF t'] by simp
next
  fix msg :: bytes and s t :: "http_parser \<times> allocator"
  show "header_turn msg (fst s) (snd s) = (0, t) \<Longrightarrow> header_view t = header_view s"
    using header_turn_wait [of msg "fst s" "snd s" "fst t" "snd t"] by simp
  assume v: "header_view s = header_view t"
  then show "fst (header_turn msg (fst s) (snd s)) = fst (header_turn msg (fst t) (snd t)) \<and>
      header_view (snd (header_turn msg (fst s) (snd s))) = header_view (snd (header_turn msg (fst t) (snd t)))"
    using header_turn_view [of "fst s" "snd s" "fst t" "snd t"] by simp
  from header_view_eqD(2) [of "fst s" "snd s" "fst t" "snd t"] v
  have eq: "fst t = (fst s)\<lparr>hp_namebuf := hp_namebuf (fst t)\<rparr>" by simp
  show "(hp_header_state (fst s) = HPS_HEADER_COMPLETE) = (hp_header_state (fst t) = HPS_HEADER_COMPLETE)"
    using arg_cong [OF eq, of hp_header_state] by simp
  show "hp_header_offset (fst s) = hp_header_offset (fst t)"
    using arg_cong [OF eq, of hp_header_offset] by simp
qed

lemma chunk_turn_extend:
  assumes "chunk_turn msg p = (r, q)" "r \<noteq> 0"
  shows "chunk_turn (msg @ ext) p = (r, q)"
proof -
  have nn: "drop (hp_chunk_offset p) msg \<noteq> []"
    using assms by (auto simp: chunk_turn_def parse_chunk_data_def parse_trailer_part_def split: if_splits)
  then have ptr: "drop (hp_chunk_offset p) (msg @ ext) = drop (hp_chunk_offset p) msg @ ext" by simp
  let ?ptr = "drop (hp_chunk_offset p) msg"
  have "parse_chunk_data ?ptr p = (r, q) \<Longrightarrow> parse_chunk_data (?ptr @ ext) p = (r, q)"
    using scan_line_extend [of "\<lambda>_. False" HTTP_CHUNK_LINE_MAX ?ptr ext]
      scan_line_bound [of "\<lambda>_. False" HTTP_CHUNK_LINE_MAX ?ptr] assms(2)
    by (cases "scan_line (\<lambda>_. False) HTTP_CHUNK_LINE_MAX ?ptr")
      (fastforce simp: parse_chunk_data_def split: option.splits if_splits)+
  moreover have "parse_trailer_part ?ptr p = (r, q) \<Longrightarrow> parse_trailer_part (?ptr @ ext) p = (r, q)"
    using scan_line_extend [of "\<lambda>_. False" HTTP_TRAILER_LINE_MAX ?ptr ext] assms(2)
    by (cases "scan_line (\<lambda>_. False) HTTP_TRAILER_LINE_MAX ?ptr") (simp_all add: parse_trailer_part_def)
  ultimately show ?thesis using assms(1) ptr by (auto simp: chunk_turn_def Let_def split: if_splits)
qed

lemma chunk_turn_local:
  assumes "chunk_turn msg p = (r, q)" "r > 0" "hp_chunk_offset q \<le> n"
  shows "chunk_turn (take n msg) p = (r, q)"
proof -
  let ?o = "hp_chunk_offset p" let ?ptr = "drop ?o msg"
  have ptr: "drop ?o (take n msg) = take (n - ?o) ?ptr" by (simp add: drop_take)
  have "parse_chunk_data (take (n - ?o) ?ptr) p = (r, q)" if d: "parse_chunk_data ?ptr p = (r, q)"
  proof -
    obtain i c where i: "scan_line (\<lambda>_. False) HTTP_CHUNK_LINE_MAX ?ptr = LS_Line i" "c_strtol16 (take i ?ptr) = Some c"
      using d assms(2) by (auto simp: parse_chunk_data_def split: line_scan.splits option.splits)
    with d assms(2,3) have le: "i + 2 \<le> n - ?o" by (auto simp: parse_chunk_data_def split: if_splits)
    have "scan_line (\<lambda>_. False) HTTP_CHUNK_LINE_MAX (take (n - ?o) ?ptr) = LS_Line i"
      using scan_line_local [OF i(1) le] .
    with i d le assms(2,3) show ?thesis
      by (auto simp: parse_chunk_data_def min_def split: if_splits)
  qed
  moreover have "parse_trailer_part (take (n - ?o) ?ptr) p = (r, q)" if d: "parse_trailer_part ?ptr p = (r, q)"
  proof -
    obtain i where i: "scan_line (\<lambda>_. False) HTTP_TRAILER_LINE_MAX ?ptr = LS_Line i"
      using d assms(2) by (auto simp: parse_trailer_part_def split: line_scan.splits)
    with d assms(2,3) have le: "i + 2 \<le> n - ?o" by (auto simp: parse_trailer_part_def split: if_splits)
    with scan_line_local [OF i le] i d show ?thesis by (simp add: parse_trailer_part_def)
  qed
  ultimately show ?thesis using assms(1) ptr by (auto simp: chunk_turn_def Let_def split: if_splits)
qed

interpretation chunk: resumable_loop chunk_turn parse_chunk "\<lambda>p. hp_chunk_state p = CPS_CHUNK_COMPLETE"
  hp_chunk_offset "\<lambda>p. p"
proof
  fix msg p
  obtain r q where t: "chunk_turn msg p = (r, q)" by fastforce
  have "hp_chunk_state p = CPS_CHUNK_DATA \<Longrightarrow> hp_chunk_state q \<noteq> CPS_CHUNK_COMPLETE"
    using t parse_chunk_data_turn [of "drop (hp_chunk_offset p) msg" p r q]
    by (auto simp: chunk_turn_def split: if_splits)
  with t show "parse_chunk msg p = (case chunk_turn msg p of (r, t) \<Rightarrow>
      if hp_chunk_state t = CPS_CHUNK_COMPLETE then (1, t) else if 0 < r then parse_chunk msg t else (r, t))"
    by (auto simp: parse_chunk.simps [of msg p])
qed (auto dest: chunk_turn_progress chunk_turn_extend chunk_turn_local)

section \<open>Evaluation\<close>

text \<open>Rules that run the loops on given bytes, and a parser object to initialise.\<close>

definition blank_parser :: http_parser where
  "blank_parser = \<lparr>hp_header_state = HPS_START_LINE, hp_chunk_state = CPS_CHUNK_DATA, hp_header_offset = 0, hp_chunk_offset = 0,
     hp_content_length = 0, hp_transfer_length = 0, hp_version = None, hp_method = None, hp_uri = None, hp_code = None,
     hp_phrase = None, hp_header_list = [], hp_namebuf = [], hp_msgbuf = [], hp_msgsize = 0, hp_bufsize = 0,
     hp_has_connection = False, hp_has_content_length = False, hp_has_keep_alive = False, hp_expect_continue = False,
     hp_keep_alive = False, hp_chunked = False, hp_complete = False, hp_is_resp = False\<rparr>"

lemma grow_size_done: "need \<le> n \<Longrightarrow> grow_size n need = n"
  by (subst grow_size.simps) simp

lemma parse_message_header_step:
  "header_turn msg p m = (ret, q, m') \<Longrightarrow> parse_message_header msg p m =
     (if hp_header_state p \<noteq> HPS_START_LINE \<and> hp_header_state p \<noteq> HPS_HEADER_VALUE \<and>
           hp_header_state q = HPS_HEADER_COMPLETE then (1, q, m')
        else if ret > 0 then parse_message_header msg q m'
        else (ret, q, m'))"
  by (subst parse_message_header.simps) simp

lemma parse_chunk_step:
  "chunk_turn msg p = (ret, q) \<Longrightarrow> parse_chunk msg p =
     (if hp_chunk_state p \<noteq> CPS_CHUNK_DATA \<and> hp_chunk_state q = CPS_CHUNK_COMPLETE then (1, q)
      else if ret > 0 then parse_chunk msg q else (ret, q))"
  by (subst parse_chunk.simps) simp

lemma hv_lines_step:
  "dropWhile is_blank ptr = c # cs \<Longrightarrow> hv_scan acc (c # cs) = HV_Line acc1 (LF # c2 # rest2) \<Longrightarrow> \<not> is_blank c2 \<Longrightarrow>
   hv_lines acc ptr = HV_Line (strip_blanks acc1) (c2 # rest2)"
  by (subst hv_lines.simps) simp

lemmas http_run_simps = http_parser_append_message_def reserve_msgbuf_def grow_size_done overwrite_def Let_def
  parse_message_header_step header_turn_def parse_start_line_def take_start_line_def match_request_line_def
  old_version_def alloc3_def parse_header_name_def bad_name_byte_def schar_def uchar_def
  hv_lines_step is_blank_def parse_header_value_def strip_blanks_def http_parser_add_header_def
  add_message_header_def c_str_def check_message_header_def line_bytes_def start_body_def body_turn_def finish_message_def
  http_parser_init_def blank_parser_def

end
