(* ===== verification/HttpSplit.thy ===== *)
theory HttpSplit
  imports HttpMessage
begin

section \<open>Buffers and parsing are independent\<close>

text \<open>The fields of the message buffer are only read through the message itself.\<close>

type_synonym msg_fields = "bytes \<times> nat \<times> nat"

definition with_msg :: "msg_fields \<Rightarrow> http_parser \<Rightarrow> http_parser" where
  "with_msg x p = p\<lparr>hp_msgbuf := fst x, hp_msgsize := fst (snd x), hp_bufsize := snd (snd x)\<rparr>"

definition put_msg :: "msg_fields \<Rightarrow> int \<times> http_parser \<times> allocator \<Rightarrow> int \<times> http_parser \<times> allocator" where
  "put_msg x res = (fst res, with_msg x (fst (snd res)), snd (snd res))"

lemma with_msg_fields [simp]:
  "hp_header_offset (with_msg x p) = hp_header_offset p" "hp_header_state (with_msg x p) = hp_header_state p"
  "hp_chunk_offset (with_msg x p) = hp_chunk_offset p" "hp_chunk_state (with_msg x p) = hp_chunk_state p"
  "hp_namebuf (with_msg x p) = hp_namebuf p" "hp_is_resp (with_msg x p) = hp_is_resp p"
  "hp_transfer_length (with_msg x p) = hp_transfer_length p" "hp_content_length (with_msg x p) = hp_content_length p"
  "hp_chunked (with_msg x p) = hp_chunked p" "hp_complete (with_msg x p) = hp_complete p"
  "hp_header_list (with_msg x p) = hp_header_list p"
  "hp_msgbuf (with_msg x p) = fst x" "hp_msgsize (with_msg x p) = fst (snd x)" "hp_bufsize (with_msg x p) = snd (snd x)"
  "with_msg y (with_msg x p) = with_msg y p"
  by (simp_all add: with_msg_def)

lemma with_msg_own: "with_msg (hp_msgbuf p, hp_msgsize p, hp_bufsize p) p = p"
  by (simp add: with_msg_def)

lemma check_message_header_with_msg:
  "check_message_header name v (with_msg x p) = with_msg x (check_message_header name v p)"
  unfolding check_message_header_def Let_def if_distrib [of "with_msg x"]
  by (intro if_cong refl) (simp_all add: with_msg_def)

lemma http_parser_add_header_with_msg:
  "http_parser_add_header name v (with_msg x p) m = put_msg x (http_parser_add_header name v p m)"
proof (cases "alloc m")
  case (Pair b m')
  have 1: "(with_msg x p)\<lparr>hp_header_list := l\<rparr> = with_msg x (p\<lparr>hp_header_list := l\<rparr>)" for l
    by (simp add: with_msg_def)
  show ?thesis
    by (cases b) (simp_all add: Pair http_parser_add_header_def add_message_header_def put_msg_def
        check_message_header_with_msg 1)
qed

lemma parse_start_line_with_msg:
  "parse_start_line ptr (with_msg x p) m = put_msg x (parse_start_line ptr p m)"
proof -
  have "match_status_line a b c (with_msg x p) m = put_msg x (match_status_line a b c p m)" for a b c
    by (simp add: match_status_line_def put_msg_def with_msg_def Let_def split: prod.splits bool.splits)
  moreover have "match_request_line a b c (with_msg x p) m = put_msg x (match_request_line a b c p m)" for a b c
    by (simp add: match_request_line_def put_msg_def with_msg_def Let_def split: prod.splits bool.splits)
  ultimately have "take_start_line l (with_msg x p) m = put_msg x (take_start_line l p m)" for l
    by (simp add: take_start_line_def put_msg_def Let_def split: prod.splits option.splits) (simp add: with_msg_def)
  then show ?thesis by (simp add: parse_start_line_def put_msg_def split: line_scan.splits) (simp add: with_msg_def)
qed

lemma parse_header_value_with_msg:
  "parse_header_value ptr (with_msg x p) m = put_msg x (parse_header_value ptr p m)"
  by (auto simp: parse_header_value_def http_parser_add_header_with_msg put_msg_def split: hv_result.splits prod.splits)
    (simp add: with_msg_def)

lemma parse_header_name_with_msg:
  "parse_header_name ptr (with_msg x p) = (fst (parse_header_name ptr p), with_msg x (snd (parse_header_name ptr p)))"
  by (simp add: parse_header_name_def split: option.splits) (simp add: with_msg_def)

lemma header_turn_with_msg: "header_turn msg (with_msg x p) m = put_msg x (header_turn msg p m)"
  by (simp add: header_turn_def Let_def parse_start_line_with_msg parse_header_value_with_msg parse_header_name_with_msg
      split: header_state.splits prod.splits) (simp add: put_msg_def)

lemma parse_message_header_with_msg:
  "parse_message_header msg (with_msg x p) m = put_msg x (parse_message_header msg p m)"
proof (induction msg p m rule: parse_message_header.induct)
  case (1 msg p m)
  obtain r q m' where t: "header_turn msg p m = (r, q, m')" by (metis prod_cases3)
  have "header_turn msg (with_msg x p) m = (r, with_msg x q, m')" by (simp add: header_turn_with_msg t put_msg_def)
  with "1" [OF t [symmetric] refl] t show ?case
    by (simp add: parse_message_header.simps [of msg p m] parse_message_header.simps [of msg "with_msg x p" m])
      (simp add: put_msg_def)
qed

text \<open>The body loop does not touch the name buffer either.\<close>

definition with_bufs :: "bytes \<Rightarrow> msg_fields \<Rightarrow> http_parser \<Rightarrow> http_parser" where
  "with_bufs nb x p = (with_msg x p)\<lparr>hp_namebuf := nb\<rparr>"

lemma with_bufs_fields [simp]:
  "hp_header_offset (with_bufs nb x p) = hp_header_offset p" "hp_header_state (with_bufs nb x p) = hp_header_state p"
  "hp_chunk_offset (with_bufs nb x p) = hp_chunk_offset p" "hp_chunk_state (with_bufs nb x p) = hp_chunk_state p"
  "hp_transfer_length (with_bufs nb x p) = hp_transfer_length p" "hp_content_length (with_bufs nb x p) = hp_content_length p"
  "hp_chunked (with_bufs nb x p) = hp_chunked p" "hp_complete (with_bufs nb x p) = hp_complete p"
  by (simp_all add: with_bufs_def)

lemma chunk_turn_with_bufs:
  "chunk_turn msg (with_bufs nb x p) = (fst (chunk_turn msg p), with_bufs nb x (snd (chunk_turn msg p)))"
  by (simp add: chunk_turn_def parse_chunk_data_def parse_trailer_part_def Let_def split: line_scan.splits option.splits)
    (simp add: with_bufs_def with_msg_def)

lemma parse_chunk_with_bufs:
  "parse_chunk msg (with_bufs nb x p) = (fst (parse_chunk msg p), with_bufs nb x (snd (parse_chunk msg p)))"
proof (induction msg p rule: parse_chunk.induct)
  case (1 msg p)
  obtain r q where t: "chunk_turn msg p = (r, q)" by fastforce
  have "chunk_turn msg (with_bufs nb x p) = (r, with_bufs nb x q)" by (simp add: chunk_turn_with_bufs t)
  with "1" [OF t [symmetric]] t show ?case
    by (simp add: parse_chunk.simps [of msg p] parse_chunk.simps [of msg "with_bufs nb x p"])
qed

lemma parse_chunk_frame:
  "parse_chunk msg p = (r, q) \<Longrightarrow> q = p\<lparr>hp_chunk_offset := hp_chunk_offset q, hp_chunk_state := hp_chunk_state q\<rparr>"
proof (induction msg p rule: parse_chunk.induct)
  case (1 msg p)
  obtain ret u where t: "chunk_turn msg p = (ret, u)" by fastforce
  have u: "u = p\<lparr>hp_chunk_offset := hp_chunk_offset u, hp_chunk_state := hp_chunk_state u\<rparr>"
    using t by (auto simp: chunk_turn_def parse_chunk_data_def parse_trailer_part_def Let_def
        split: if_splits line_scan.splits option.splits)
  show ?case
  proof (cases "q = u")
    case False
    with "1.prems" t have "\<not> (hp_chunk_state p \<noteq> CPS_CHUNK_DATA \<and> hp_chunk_state u = CPS_CHUNK_COMPLETE)" "ret > 0"
        "parse_chunk msg u = (r, q)"
      by (auto simp: parse_chunk.simps [of msg p] split: if_splits)
    then have "q = u\<lparr>hp_chunk_offset := hp_chunk_offset q, hp_chunk_state := hp_chunk_state q\<rparr>"
      using "1.IH" [OF t [symmetric]] by blast
    then show ?thesis
      using arg_cong [OF u, of "\<lambda>z. z\<lparr>hp_chunk_offset := hp_chunk_offset q, hp_chunk_state := hp_chunk_state q\<rparr>"]
      by simp
  qed (use u in simp)
qed

section \<open>What a call decides, apart from the buffer\<close>

text \<open>
  The decision of \<open>http_parser_append_message\<close> on the whole message received so far: the
  return value, the size of the message after the call and the parser.
\<close>

definition body_decision :: "bytes \<Rightarrow> http_parser \<Rightarrow> int \<times> nat \<times> http_parser" where
  "body_decision message p =
     (if hp_transfer_length p \<noteq> SIZE_MAX then
        (if length message \<ge> hp_header_offset p + hp_transfer_length p
         then (1, hp_header_offset p + hp_transfer_length p, p) else (0, length message, p))
      else if \<not> hp_chunked p then (0, length message, p)
      else if hp_chunk_state p \<noteq> CPS_CHUNK_COMPLETE then
        (case parse_chunk message p of (ret, q) \<Rightarrow>
           if ret \<le> 0 then (ret, length message, q) else (1, hp_chunk_offset q, q))
      else (1, hp_chunk_offset p, p))"

definition decision :: "bytes \<Rightarrow> http_parser \<Rightarrow> int \<times> nat \<times> http_parser" where
  "decision message p =
     (if hp_header_state p \<noteq> HPS_HEADER_COMPLETE then
        (case parse_message_header message p [] of (ret, q, m) \<Rightarrow>
           if ret \<le> 0 then (ret, length message, q) else body_decision message (start_body q))
      else body_decision message p)"

definition message_of :: "http_parser \<Rightarrow> bytes" where
  "message_of p = take (hp_msgsize p) (hp_msgbuf p)"

text \<open>The buffer holds the message and one byte more, for the NUL of \<open>http_parser_get_body\<close>.\<close>

definition http_ok :: "http_parser \<Rightarrow> bool" where
  "http_ok p \<longleftrightarrow> length (hp_msgbuf p) = hp_bufsize p \<and> (hp_msgsize p < hp_bufsize p \<or> hp_msgsize p = 0 \<and> hp_bufsize p = 0)"

lemma reserve_msgbuf_ok:
  assumes "http_ok p"
  obtains mb bs where "reserve_msgbuf n p [] = (True, p\<lparr>hp_msgbuf := mb, hp_bufsize := bs\<rparr>, [])"
    "length mb = bs" "hp_msgsize p + n < bs" "take (hp_msgsize p) mb = message_of p"
proof (cases "hp_msgsize p + n + 1 > hp_bufsize p")
  case True
  let ?new = "grow_size (max HTTP_MSGBUF_INIT_SIZE (2 * hp_bufsize p)) (hp_msgsize p + n + 1)"
  have new: "hp_msgsize p + n + 1 \<le> ?new" by (rule grow_size_ge) simp
  moreover have "length (hp_msgbuf p) \<le> ?new" using assms True new by (simp add: http_ok_def)
  ultimately show ?thesis
    using that [where mb = "hp_msgbuf p @ replicate (?new - length (hp_msgbuf p)) NUL" and bs = ?new] assms True
    by (auto simp: reserve_msgbuf_def message_of_def http_ok_def Let_def)
next
  case False
  then show ?thesis using that [where mb = "hp_msgbuf p" and bs = "hp_bufsize p"] assms
    by (simp add: reserve_msgbuf_def message_of_def http_ok_def)
qed

lemma body_turn_eq:
  assumes "hp_msgsize p \<le> length (hp_msgbuf p)"
  shows "body_turn n p = (case body_decision (message_of p) p of (r, sz, q) \<Rightarrow>
     (r, n - (int (hp_msgsize p) - int sz),
      if r = 1 then q\<lparr>hp_msgsize := sz, hp_complete := True\<rparr> else q))"
proof -
  have len: "length (message_of p) = hp_msgsize p" using assms by (simp add: message_of_def)
  obtain ret q where c: "parse_chunk (message_of p) p = (ret, q)" by fastforce
  have "hp_msgsize q = hp_msgsize p" using arg_cong [OF parse_chunk_frame [OF c], of hp_msgsize] by simp
  then show ?thesis using len c
    by (simp add: body_turn_def body_decision_def finish_message_def message_of_def [symmetric] Let_def)
qed

lemma start_body_with_msg: "start_body (with_msg x p) = with_msg x (start_body p)"
  by (simp add: start_body_def) (simp add: with_msg_def)

lemma with_msg_eq_with_bufs: "with_msg x p = with_bufs (hp_namebuf p) x p"
  by (simp add: with_bufs_def with_msg_def)

lemma start_body_with_bufs: "start_body (with_bufs nb x p) = with_bufs nb x (start_body p)"
  by (simp add: start_body_def) (simp add: with_bufs_def with_msg_def)

lemma body_decision_with_bufs:
  "body_decision message (with_bufs nb x p) =
   (case body_decision message p of (r, sz, q) \<Rightarrow> (r, sz, with_bufs nb x q))"
  by (simp add: body_decision_def parse_chunk_with_bufs split: prod.splits)

lemma parse_chunk_namebuf: "hp_namebuf (snd (parse_chunk message p)) = hp_namebuf p"
  using arg_cong [OF parse_chunk_frame [of message p "fst (parse_chunk message p)" "snd (parse_chunk message p)"], of hp_namebuf]
  by simp

lemma body_decision_namebuf: "hp_namebuf (snd (snd (body_decision message p))) = hp_namebuf p"
  using parse_chunk_namebuf [of message p] by (auto simp: body_decision_def split: prod.splits)

lemma body_decision_with_msg:
  "body_decision message (with_msg x p) = (case body_decision message p of (r, sz, u) \<Rightarrow> (r, sz, with_msg x u))"
proof -
  obtain r sz u where b: "body_decision message p = (r, sz, u)" by (metis prod_cases3)
  then have "hp_namebuf u = hp_namebuf p" using body_decision_namebuf [of message p] by simp
  then show ?thesis by (simp add: with_msg_eq_with_bufs body_decision_with_bufs b)
qed

lemma decision_with_msg:
  "decision message (with_msg x p) = (case decision message p of (r, sz, q) \<Rightarrow> (r, sz, with_msg x q))"
  by (simp add: decision_def parse_message_header_with_msg put_msg_def body_decision_with_msg start_body_with_msg
      split: prod.splits)

lemma header_turn_Nil_alloc: "snd (snd (header_turn msg p [])) = []"
proof -
  have a3: "alloc3 [] = (True, [])" by (simp add: alloc3_def)
  have "snd (snd (parse_start_line ptr p [])) = []" for ptr
    by (simp add: parse_start_line_def take_start_line_def match_request_line_def match_status_line_def a3 Let_def
        split: line_scan.splits option.splits)
  moreover have "snd (snd (parse_header_value ptr p [])) = []" for ptr
    by (simp add: parse_header_value_def http_parser_add_header_def add_message_header_def split: hv_result.splits)
  ultimately show ?thesis by (simp add: header_turn_def Let_def split: header_state.splits prod.splits)
qed

lemma parse_message_header_Nil_alloc: "parse_message_header message p [] = (r, q, m) \<Longrightarrow> m = []"
proof (induction message p "[]::allocator" rule: parse_message_header.induct)
  case (1 message p)
  obtain ret u where t: "header_turn message p [] = (ret, u, [])"
    using header_turn_Nil_alloc [of message p] by (metis prod.collapse)
  with "1.hyps" [OF t [symmetric] refl] "1.prems" t show ?case
    by (auto simp: parse_message_header.simps [of message p "[]"] split: if_splits)
qed

lemma append_message_eq:
  assumes ok: "http_ok p" and nc: "\<not> hp_complete p"
  obtains mb where "length (message_of p @ buf) < length mb" "take (length (message_of p @ buf)) mb = message_of p @ buf"
    "http_parser_append_message buf p [] =
       (case decision (message_of p @ buf) p of (r, sz, q) \<Rightarrow>
         (r, int sz - int (hp_msgsize p),
          (if r = 1 then (with_msg (mb, sz, length mb) q)\<lparr>hp_complete := True\<rparr>
           else with_msg (mb, length (message_of p @ buf), length mb) q), []))"
proof -
  let ?msg = "message_of p @ buf"
  obtain mb0 bs where res: "reserve_msgbuf (length buf) p [] = (True, p\<lparr>hp_msgbuf := mb0, hp_bufsize := bs\<rparr>, [])"
    "length mb0 = bs" "hp_msgsize p + length buf < bs" "take (hp_msgsize p) mb0 = message_of p"
    using reserve_msgbuf_ok [OF ok] by blast
  define mb where "mb = overwrite mb0 (hp_msgsize p) buf"
  have sz: "length (message_of p) = hp_msgsize p" using ok by (auto simp: http_ok_def message_of_def)
  have len: "length mb = bs" using res(2,3) by (simp add: mb_def)
  have tk: "take (length ?msg) mb = ?msg" using res sz by (simp add: mb_def)
  define x where "x = (mb, length ?msg, bs)"
  have p2: "p\<lparr>hp_bufsize := bs, hp_msgbuf := overwrite mb0 (hp_msgsize p) buf,
      hp_msgsize := hp_msgsize p + length buf\<rparr> = with_msg x p"
    by (simp add: with_msg_def x_def mb_def sz)
  have bt: "body_turn n (with_msg x q) = (case body_decision ?msg q of (r, sz, u) \<Rightarrow>
     (r, n - (int (length ?msg) - int sz), if r = 1 then (with_msg (mb, sz, bs) u)\<lparr>hp_complete := True\<rparr> else with_msg x u))" for n q
  proof -
    have m: "message_of (with_msg x q) = ?msg" using tk by (simp add: message_of_def x_def)
    have "hp_msgsize (with_msg x q) \<le> length (hp_msgbuf (with_msg x q))"
      using res(3) len sz by (simp add: x_def)
    then show ?thesis
      by (simp add: body_turn_eq m body_decision_with_msg split: prod.splits) (simp add: with_msg_def x_def)
  qed
  have "http_parser_append_message buf p [] =
       (case decision ?msg p of (r, sz, q) \<Rightarrow>
         (r, int sz - int (hp_msgsize p),
          (if r = 1 then (with_msg (mb, sz, length mb) q)\<lparr>hp_complete := True\<rparr>
           else with_msg (mb, length ?msg, length mb) q), []))"
  proof (cases "hp_header_state p = HPS_HEADER_COMPLETE")
    case True
    with nc res(1) bt [of "int (length buf)" p] show ?thesis
      by (simp add: http_parser_append_message_def Let_def p2 decision_def split: prod.splits) (simp add: x_def sz len)
  next
    case False
    obtain r q m where h: "parse_message_header ?msg p [] = (r, q, m)" by (metis prod_cases3)
    have m: "m = []" using parse_message_header_Nil_alloc [OF h] .
    have tk': "take (fst (snd x)) (fst x) = ?msg" using tk by (simp add: x_def)
    show ?thesis
      using False nc res(1) bt [of "int (length buf)" "start_body q"] m
      by (simp add: http_parser_append_message_def Let_def p2 decision_def h parse_message_header_with_msg put_msg_def
          start_body_with_msg tk' split: prod.splits) (auto simp: x_def len sz split: prod.splits)
  qed
  then show ?thesis using that [of mb] tk len res(3) sz by simp
qed

section \<open>Decisions are stable, resumable and local\<close>

lemma body_decision_extend:
  assumes "body_decision message p = (r, sz, q)" "r \<noteq> 0"
  obtains sz' where "body_decision (message @ ext) p = (r, sz', q)" "r = 1 \<Longrightarrow> sz' = sz"
proof (cases "hp_transfer_length p \<noteq> SIZE_MAX \<or> \<not> hp_chunked p \<or> hp_chunk_state p = CPS_CHUNK_COMPLETE")
  case True
  then show ?thesis using assms that by (auto simp: body_decision_def split: if_splits)
next
  case False
  obtain r' u where c: "parse_chunk message p = (r', u)" by fastforce
  with False assms have "r' \<noteq> 0" by (auto simp: body_decision_def split: if_splits)
  then have "parse_chunk (message @ ext) p = (r', u)" using chunk.loop_extend [OF c] False by simp
  with c False assms that show ?thesis by (auto simp: body_decision_def split: if_splits)
qed

lemma decision_extend:
  assumes "decision message p = (r, sz, q)" "r \<noteq> 0"
  obtains sz' where "decision (message @ ext) p = (r, sz', q)" "r = 1 \<Longrightarrow> sz' = sz"
proof (cases "hp_header_state p = HPS_HEADER_COMPLETE")
  case True
  with assms body_decision_extend [of message p r sz q ext] that show ?thesis by (auto simp: decision_def)
next
  case False
  obtain r' u m where h: "parse_message_header message p [] = (r', u, m)" by (metis prod_cases3)
  with False assms have nz: "r' \<noteq> 0" by (auto simp: decision_def)
  then have ext: "parse_message_header (message @ ext) p [] = (r', u, m)"
    using header.loop_extend [of message "(p, [])" r' "(u, m)"] h False by simp
  show ?thesis
  proof (cases "r' > 0")
    case True
    with False h assms have "body_decision message (start_body u) = (r, sz, q)" by (simp add: decision_def)
    then obtain sz' where "body_decision (message @ ext) (start_body u) = (r, sz', q)" "r = 1 \<Longrightarrow> sz' = sz"
      using assms(2) body_decision_extend by blast
    with True False h ext that show ?thesis by (simp add: decision_def)
  next
    case neg: False
    with False h ext assms that show ?thesis by (auto simp: decision_def)
  qed
qed

lemma body_decision_wait:
  assumes "body_decision message p = (0, sz, q)"
  shows "sz = length message \<and> body_decision (message @ ext) q = body_decision (message @ ext) p \<and>
    hp_header_state q = hp_header_state p"
proof (cases "hp_transfer_length p \<noteq> SIZE_MAX \<or> \<not> hp_chunked p \<or> hp_chunk_state p = CPS_CHUNK_COMPLETE")
  case True
  then show ?thesis using assms by (auto simp: body_decision_def split: if_splits)
next
  case False
  then have c: "parse_chunk message p = (0, q)" "sz = length message"
    using assms by (auto simp: body_decision_def split: if_splits prod.splits)
  note fr = parse_chunk_frame [OF c(1)]
  have "hp_transfer_length q = hp_transfer_length p" "hp_chunked q = hp_chunked p"
      "hp_header_state q = hp_header_state p"
    using arg_cong [OF fr, of hp_transfer_length] arg_cong [OF fr, of hp_chunked] arg_cong [OF fr, of hp_header_state]
    by simp_all
  moreover have "hp_chunk_state q \<noteq> CPS_CHUNK_COMPLETE" "parse_chunk (message @ ext) q = parse_chunk (message @ ext) p"
    using chunk.loop_wait [OF c(1), of ext] False by (auto simp: prod_eq_iff)
  ultimately show ?thesis using False c(2) by (simp add: body_decision_def)
qed

lemma header_view_eq_bufs: "header_view (p, m) = header_view (q, m') \<Longrightarrow> \<exists>nb. q = p\<lparr>hp_namebuf := nb\<rparr>"
  using header_view_eqD(2) by blast

lemma start_body_namebuf: "start_body (p\<lparr>hp_namebuf := nb\<rparr>) = (start_body p)\<lparr>hp_namebuf := nb\<rparr>"
  by (simp add: start_body_def)

lemma body_decision_put_namebuf:
  "body_decision message (p\<lparr>hp_namebuf := nb\<rparr>) = (case body_decision message p of (r, sz, q) \<Rightarrow> (r, sz, q\<lparr>hp_namebuf := nb\<rparr>))"
proof -
  define x where "x = (hp_msgbuf p, hp_msgsize p, hp_bufsize p)"
  obtain r sz q where b: "body_decision message p = (r, sz, q)" by (metis prod_cases3)
  have "with_msg x p = p" by (simp add: x_def with_msg_own)
  then have "q = with_msg x q" using body_decision_with_msg [of message x p] b by simp
  then have "with_bufs nb x q = q\<lparr>hp_namebuf := nb\<rparr>" by (simp add: with_bufs_def)
  moreover have "p\<lparr>hp_namebuf := nb\<rparr> = with_bufs nb x p" using \<open>with_msg x p = p\<close> by (simp add: with_bufs_def)
  ultimately show ?thesis using body_decision_with_bufs [of message nb x p] b by simp
qed

lemma body_decision_state: "hp_header_state (snd (snd (body_decision message p))) = hp_header_state p"
proof -
  have "hp_header_state (snd (parse_chunk message p)) = hp_header_state p"
    using arg_cong [OF parse_chunk_frame [of message p "fst (parse_chunk message p)" "snd (parse_chunk message p)"], of hp_header_state]
    by simp
  then show ?thesis by (auto simp: body_decision_def split: prod.splits)
qed

lemma start_body_state [simp]: "hp_header_state (start_body p) = hp_header_state p"
  by (simp add: start_body_def)

lemma decision_wait:
  assumes "decision message p = (0, sz, q)"
  shows "sz = length message \<and>
    fst (decision (message @ ext) q) = fst (decision (message @ ext) p) \<and>
    fst (snd (decision (message @ ext) q)) = fst (snd (decision (message @ ext) p)) \<and>
    header_view (snd (snd (decision (message @ ext) q)), []) = header_view (snd (snd (decision (message @ ext) p)), [])"
proof (cases "hp_header_state p = HPS_HEADER_COMPLETE")
  case True
  with assms body_decision_wait [of message p sz q ext] show ?thesis by (auto simp: decision_def)
next
  case False
  obtain r' u m where h: "parse_message_header message p [] = (r', u, m)" by (metis prod_cases3)
  have m: "m = []" using parse_message_header_Nil_alloc [OF h] .
  show ?thesis
  proof (cases "r' > 0")
    case True
    with False h assms have b: "body_decision message (start_body u) = (0, sz, q)" by (simp add: decision_def)
    have "hp_header_state u = HPS_HEADER_COMPLETE" using header.loop_pos [of message "(p, [])" r' "(u, m)"] h True by simp
    then have "hp_header_state q = HPS_HEADER_COMPLETE" using body_decision_wait [OF b] by simp
    moreover have "parse_message_header (message @ ext) p [] = (r', u, m)"
      using header.loop_extend [of message "(p, [])" r' "(u, m)"] h False True by simp
    ultimately show ?thesis using body_decision_wait [OF b, of ext] True False by (simp add: decision_def)
  next
    case neg: False
    with False h assms have r0: "r' = 0" "u = q" "sz = length message" by (auto simp: decision_def)
    from h r0 m have "parse_message_header message p [] = (0, q, [])" by simp
    with header.loop_wait [of message "(p, [])" "(q, [])" ext] False
    have w: "hp_header_state q \<noteq> HPS_HEADER_COMPLETE"
      "fst (parse_message_header (message @ ext) q []) = fst (parse_message_header (message @ ext) p [])"
      "header_view (snd (parse_message_header (message @ ext) q [])) = header_view (snd (parse_message_header (message @ ext) p []))"
      by simp_all
    obtain r1 q1 m1 where q1: "parse_message_header (message @ ext) q [] = (r1, q1, m1)" by (metis prod_cases3)
    obtain p1 m2 where p1: "parse_message_header (message @ ext) p [] = (r1, p1, m2)"
      using w(2) q1 by (metis prod_cases3 fst_conv)
    have mm: "m1 = []" "m2 = []" using parse_message_header_Nil_alloc q1 p1 by blast+
    have v: "header_view (q1, []) = header_view (p1, [])" using w(3) q1 p1 mm by simp
    then obtain nb where nb: "p1 = q1\<lparr>hp_namebuf := nb\<rparr>" using header_view_eq_bufs by blast
    show ?thesis
    proof (cases "r1 > 0")
      case True
      then have fin: "hp_header_state q1 = HPS_HEADER_COMPLETE"
        using header.loop_pos [of "message @ ext" "(q, [])" r1 "(q1, m1)"] q1 by simp
      obtain r2 sz2 u2 where b: "body_decision (message @ ext) (start_body q1) = (r2, sz2, u2)" by (metis prod_cases3)
      then have "hp_header_state u2 = HPS_HEADER_COMPLETE"
        using body_decision_state [of "message @ ext" "start_body q1"] fin by simp
      then show ?thesis using True False w(1) q1 p1 b r0
        by (simp add: decision_def nb start_body_namebuf body_decision_put_namebuf header_view_def)
    next
      case neg: False
      then show ?thesis using False w(1) q1 p1 r0 v by (simp add: decision_def)
    qed
  qed
qed

lemma body_decision_local:
  assumes "body_decision message p = (1, sz, q)" "hp_chunk_state p = CPS_CHUNK_DATA \<or> hp_transfer_length p \<noteq> SIZE_MAX"
    and "hp_transfer_length p = SIZE_MAX \<Longrightarrow> hp_header_offset p \<le> hp_chunk_offset p \<and> hp_chunk_offset p \<le> length message"
    and "sz \<le> n"
  shows "hp_header_offset p \<le> sz \<and> sz \<le> length message \<and> body_decision (take n message) p = (1, sz, q)"
proof (cases "hp_transfer_length p = SIZE_MAX")
  case False
  then show ?thesis using assms by (auto simp: body_decision_def split: if_splits)
next
  case True
  then have st: "hp_chunk_state p = CPS_CHUNK_DATA" using assms(2) by simp
  with True assms(1) obtain r where ch: "hp_chunked p" and c: "parse_chunk message p = (r, q)" "r > 0" "sz = hp_chunk_offset q"
    by (auto simp: body_decision_def split: if_splits prod.splits)
  have "r = 1 \<and> hp_chunk_state q = CPS_CHUNK_COMPLETE" using chunk.loop_pos [OF c(1,2)] .
  then have "parse_chunk (take n message) p = (1, q)"
    using chunk.loop_local [OF c(1)] st c(3) assms(4) by simp
  with True st ch c assms chunk.loop_off [OF c(1)] show ?thesis by (auto simp: body_decision_def)
qed

lemma decision_local:
  assumes d: "decision message p = (1, sz, q)" and st: "hp_header_state p \<noteq> HPS_HEADER_COMPLETE"
    and off: "hp_header_offset p \<le> length message"
    and n: "sz \<le> n"
  shows "sz \<le> length message \<and> decision (take n message) p = (1, sz, q)"
proof -
  obtain r u m where h: "parse_message_header message p [] = (r, u, m)" by (metis prod_cases3)
  with d st have r: "r > 0" and b: "body_decision message (start_body u) = (1, sz, q)"
    by (auto simp: decision_def split: if_splits)
  have fin: "r = 1" "hp_header_state u = HPS_HEADER_COMPLETE"
    using header.loop_pos [of message "(p, [])" r "(u, m)"] h r by simp_all
  have uo: "hp_header_offset u \<le> length message"
    using header.loop_off [of message "(p, [])" r "(u, m)"] h off by simp
  have loc: "hp_header_offset (start_body u) \<le> sz \<and> sz \<le> length message \<and> body_decision (take n message) (start_body u) = (1, sz, q)"
  proof (rule body_decision_local [OF b])
    show "hp_chunk_state (start_body u) = CPS_CHUNK_DATA \<or> hp_transfer_length (start_body u) \<noteq> SIZE_MAX"
      using b by (auto simp: start_body_def body_decision_def split: if_splits)
    show "hp_transfer_length (start_body u) = SIZE_MAX \<Longrightarrow>
        hp_header_offset (start_body u) \<le> hp_chunk_offset (start_body u) \<and> hp_chunk_offset (start_body u) \<le> length message"
      using b uo by (auto simp: start_body_def body_decision_def split: if_splits)
  qed (rule n)
  have "hp_header_offset u \<le> n" using loc n by (simp add: start_body_def split: if_splits)
  then have "parse_message_header (take n message) p [] = (r, u, m)"
    using header.loop_local [of message "(p, [])" r "(u, m)" n] h fin st by simp
  then show ?thesis using st r loc by (simp add: decision_def)
qed

section \<open>Messages in pieces\<close>

text \<open>What a caller can observe of a parser: everything but the spare room of the buffers.\<close>

definition http_view :: "http_parser \<Rightarrow> http_parser \<times> bytes \<times> allocator" where
  "http_view p = header_view (with_msg (message_of p, hp_msgsize p, 0) p, [])"

lemma header_view_cong:
  assumes "header_view (p, []) = header_view (q, [])"
    and "\<And>nb. f (p\<lparr>hp_namebuf := nb\<rparr>) = (f p)\<lparr>hp_namebuf := nb\<rparr>"
    and "hp_header_state (f p) = hp_header_state p" "hp_namebuf (f p) = hp_namebuf p"
  shows "header_view (f p, []) = header_view (f q, [])"
proof -
  obtain nb where q: "q = p\<lparr>hp_namebuf := nb\<rparr>" using header_view_eq_bufs [OF assms(1)] by blast
  show ?thesis using header_view_eqD(3) [OF assms(1)] assms(2-4) by (simp add: header_view_def q)
qed

lemma header_view_with_msg:
  "header_view (p, []) = header_view (q, []) \<Longrightarrow> header_view (with_msg x p, []) = header_view (with_msg x q, [])"
  by (erule header_view_cong) (simp_all add: with_msg_def)

lemma header_view_complete:
  "header_view (p, []) = header_view (q, []) \<Longrightarrow> header_view (p\<lparr>hp_complete := True\<rparr>, []) = header_view (q\<lparr>hp_complete := True\<rparr>, [])"
  by (erule header_view_cong) simp_all

lemma http_view_with_msg:
  "take n mb = msg \<Longrightarrow> http_view (with_msg (mb, n, bs) p) = header_view (with_msg (msg, n, 0) p, [])"
  by (simp add: http_view_def message_of_def)

lemma http_view_with_msg_complete:
  "take n mb = msg \<Longrightarrow>
   http_view ((with_msg (mb, n, bs) p)\<lparr>hp_complete := True\<rparr>) = header_view ((with_msg (msg, n, 0) p)\<lparr>hp_complete := True\<rparr>, [])"
  unfolding http_view_def by (rule arg_cong [of _ _ header_view]) (simp add: message_of_def, simp add: with_msg_def)

text \<open>The outcome of a call, read off the decision.\<close>

definition outcome :: "bytes \<Rightarrow> http_parser \<Rightarrow> http_parser \<times> bytes \<times> allocator" where
  "outcome message p =
     (case decision message p of (r, sz, q) \<Rightarrow>
        if r = 1 then header_view ((with_msg (take sz message, sz, 0) q)\<lparr>hp_complete := True\<rparr>, [])
        else header_view (with_msg (message, length message, 0) q, []))"

lemma append_message_outcome:
  assumes "http_ok p" "\<not> hp_complete p" "decision (message_of p @ buf) p = (r, sz, q)"
    and sz: "r = 1 \<Longrightarrow> sz \<le> length (message_of p @ buf)"
  obtains q' mb where "http_parser_append_message buf p [] = (r, int sz - int (hp_msgsize p), q', [])"
    "http_view q' = outcome (message_of p @ buf) p" "http_ok q'" "hp_complete q' = (r = 1 \<or> hp_complete q)"
    "q' = (if r = 1 then (with_msg (mb, sz, length mb) q)\<lparr>hp_complete := True\<rparr>
           else with_msg (mb, length (message_of p @ buf), length mb) q)"
    "take (length (message_of p @ buf)) mb = message_of p @ buf"
    "message_of q' = (if r = 1 then take sz (message_of p @ buf) else message_of p @ buf)"
proof -
  let ?msg = "message_of p @ buf"
  obtain mb where mb: "length ?msg < length mb" "take (length ?msg) mb = ?msg"
    "http_parser_append_message buf p [] =
       (case decision ?msg p of (r, sz, q) \<Rightarrow>
         (r, int sz - int (hp_msgsize p),
          (if r = 1 then (with_msg (mb, sz, length mb) q)\<lparr>hp_complete := True\<rparr>
           else with_msg (mb, length ?msg, length mb) q), []))"
    using append_message_eq [OF assms(1,2), of buf] by blast
  let ?q = "if r = 1 then (with_msg (mb, sz, length mb) q)\<lparr>hp_complete := True\<rparr> else with_msg (mb, length ?msg, length mb) q"
  have "take sz mb = take sz ?msg" if "r = 1"
    using sz [OF that] mb(2) by (metis min.absorb1 take_take)
  then have "http_view ?q = outcome ?msg p"
    using assms(3) mb(2) by (simp add: outcome_def http_view_with_msg http_view_with_msg_complete)
  moreover have "http_ok ?q" using mb(1) sz by (auto simp: http_ok_def)
  moreover have "message_of ?q = (if r = 1 then take sz ?msg else ?msg)"
    using mb(2) \<open>r = 1 \<Longrightarrow> take sz mb = take sz ?msg\<close> by (simp add: message_of_def)
  ultimately show ?thesis using that [of ?q mb] mb(2,3) assms(3) by simp
qed

lemma check_message_header_complete [simp]: "hp_complete (check_message_header name v p) = hp_complete p"
  unfolding check_message_header_def Let_def if_distrib [of hp_complete] by (simp cong: if_cong)

lemma header_turn_complete: "hp_complete (fst (snd (header_turn msg p m))) = hp_complete p"
proof -
  have "hp_complete (fst (snd (parse_start_line ptr p m))) = hp_complete p" for ptr
    by (simp add: parse_start_line_def take_start_line_def match_request_line_def match_status_line_def Let_def
        split: line_scan.splits option.splits prod.splits bool.splits)
  moreover have "hp_complete (fst (snd (parse_header_value ptr p m))) = hp_complete p" for ptr
    by (simp add: parse_header_value_def http_parser_add_header_def add_message_header_def
        split: hv_result.splits prod.splits bool.splits)
  moreover have "hp_complete (snd (parse_header_name ptr p)) = hp_complete p" for ptr
    by (simp add: parse_header_name_def split: option.splits)
  ultimately show ?thesis
    by (cases "parse_header_name (drop (hp_header_offset p) msg) p"; cases "hp_header_state p")
      (simp_all add: header_turn_def Let_def, (metis snd_conv)+)
qed

lemma parse_message_header_complete: "hp_complete (fst (snd (parse_message_header msg p m))) = hp_complete p"
proof (induction msg p m rule: parse_message_header.induct)
  case (1 msg p m)
  obtain r q m' where t: "header_turn msg p m = (r, q, m')" by (metis prod_cases3)
  have "hp_complete q = hp_complete p" using header_turn_complete [of msg p m] t by simp
  with "1" [OF t [symmetric] refl] t show ?case by (simp add: parse_message_header.simps [of msg p m])
qed

lemma decision_complete: "hp_complete (snd (snd (decision message p))) = hp_complete p"
proof -
  have c: "hp_complete (snd (parse_chunk message q)) = hp_complete q" for q
    using arg_cong [OF parse_chunk_frame [of message q "fst (parse_chunk message q)" "snd (parse_chunk message q)"], of hp_complete]
    by simp
  have b: "hp_complete (snd (snd (body_decision message q))) = hp_complete q" for q
    using c [of q] by (auto simp: body_decision_def split: prod.splits)
  have "hp_complete (start_body q) = hp_complete q" for q by (simp add: start_body_def)
  with b [of "start_body q" for q] b [of p] parse_message_header_complete [of message p "[]"] show ?thesis
    by (cases "parse_message_header message p []") (simp add: decision_def)
qed

lemma decision_code:
  assumes "decision message p = (r, sz, q)" shows "r \<le> 1" "r \<noteq> 1 \<Longrightarrow> sz = length message"
  using assms by (auto simp: decision_def body_decision_def split: if_splits prod.splits)

text \<open>Feeding pieces while the parser asks for more.\<close>

fun http_feed :: "bytes list \<Rightarrow> http_parser \<Rightarrow> http_parser option" where
  "http_feed [] p = Some p"
| "http_feed (c # cs) p =
     (case http_parser_append_message c p [] of (r, n, q, m) \<Rightarrow> if r = 0 then http_feed cs q else None)"

lemma http_feed_snoc:
  "http_feed (cs @ [c]) p =
   (case http_feed cs p of None \<Rightarrow> None
    | Some q \<Rightarrow> (case http_parser_append_message c q [] of (r, n, q', m) \<Rightarrow> if r = 0 then Some q' else None))"
  by (induction cs arbitrary: p) (auto split: prod.splits option.splits)

lemma init_facts [simp]:
  "http_ok (http_parser_init is_resp p0)" "\<not> hp_complete (http_parser_init is_resp p0)"
  "message_of (http_parser_init is_resp p0) = []" "hp_header_offset (http_parser_init is_resp p0) = 0"
  "hp_header_state (http_parser_init is_resp p0) = HPS_START_LINE" "hp_msgsize (http_parser_init is_resp p0) = 0"
  by (simp_all add: http_parser_init_def http_ok_def message_of_def)

definition same_decision :: "int \<times> nat \<times> http_parser \<Rightarrow> int \<times> nat \<times> http_parser \<Rightarrow> bool" where
  "same_decision d e \<longleftrightarrow> fst d = fst e \<and> fst (snd d) = fst (snd e) \<and>
     (\<forall>x. header_view (with_msg x (snd (snd d)), []) = header_view (with_msg x (snd (snd e)), []))"

lemma decision_Nil: "decision [] (http_parser_init is_resp p0) = (0, 0, http_parser_init is_resp p0)"
  by (simp add: decision_def parse_message_header.simps header_turn_def parse_start_line_def)

lemma http_feed_inv:
  assumes "http_feed chunks (http_parser_init is_resp p0) = Some p"
  shows "http_ok p \<and> \<not> hp_complete p \<and> message_of p = concat chunks \<and>
    fst (decision (concat chunks) (http_parser_init is_resp p0)) = 0 \<and>
    (\<forall>ext. same_decision (decision (concat chunks @ ext) p) (decision (concat chunks @ ext) (http_parser_init is_resp p0)))"
  using assms
proof (induction chunks arbitrary: p rule: rev_induct)
  case Nil
  then show ?case by (auto simp: same_decision_def decision_Nil)
next
  case (snoc c cs)
  let ?I = "http_parser_init is_resp p0" and ?M = "concat cs"
  from snoc.prems obtain p1 n m where p1: "http_feed cs ?I = Some p1" "http_parser_append_message c p1 [] = (0, n, p, m)"
    by (auto simp: http_feed_snoc split: option.splits prod.splits if_splits)
  from snoc.IH [OF p1(1)] have ih: "http_ok p1" "\<not> hp_complete p1" "message_of p1 = ?M"
    and sd: "\<And>ext. same_decision (decision (?M @ ext) p1) (decision (?M @ ext) ?I)" by auto
  obtain r sz q where d: "decision (?M @ c) p1 = (r, sz, q)" by (metis prod_cases3)
  have "\<exists>x. r = 0 \<and> p = with_msg x q \<and> http_ok p \<and> message_of p = ?M @ c"
  proof -
    obtain mb where mb: "length (message_of p1 @ c) < length mb" "take (length (message_of p1 @ c)) mb = message_of p1 @ c"
      "http_parser_append_message c p1 [] =
       (case decision (message_of p1 @ c) p1 of (r, sz, q) \<Rightarrow>
         (r, int sz - int (hp_msgsize p1),
          (if r = 1 then (with_msg (mb, sz, length mb) q)\<lparr>hp_complete := True\<rparr>
           else with_msg (mb, length (message_of p1 @ c), length mb) q), []))"
      using append_message_eq [OF ih(1,2), of c] by blast
    then have "r = 0 \<and> p = with_msg (mb, length (?M @ c), length mb) q" using ih(3) d p1(2) by simp
    with mb(1,2) [unfolded ih(3)] show ?thesis by (auto simp: http_ok_def message_of_def)
  qed
  then obtain x where x: "r = 0" "p = with_msg x q" "http_ok p" "message_of p = ?M @ c" by blast
  have "\<not> hp_complete p" using decision_complete [of "?M @ c" p1] d ih(2) x(2) by simp
  moreover have "fst (decision (?M @ c) ?I) = 0" using sd [of c] d x(1) by (simp add: same_decision_def)
  moreover have "same_decision (decision ((?M @ c) @ ext) p) (decision ((?M @ c) @ ext) ?I)" for ext
  proof -
    have w: "fst (decision ((?M @ c) @ ext) q) = fst (decision ((?M @ c) @ ext) p1)"
      "fst (snd (decision ((?M @ c) @ ext) q)) = fst (snd (decision ((?M @ c) @ ext) p1))"
      "header_view (snd (snd (decision ((?M @ c) @ ext) q)), []) = header_view (snd (snd (decision ((?M @ c) @ ext) p1)), [])"
      using decision_wait [of "?M @ c" p1 sz q ext] d x(1) by simp_all
    have "same_decision (decision ((?M @ c) @ ext) p) (decision ((?M @ c) @ ext) p1)"
      using w header_view_with_msg [OF w(3)]
      by (cases "decision ((?M @ c) @ ext) q") (simp add: same_decision_def x(2) decision_with_msg)
    then show ?thesis using sd [of "c @ ext"] by (simp add: same_decision_def)
  qed
  ultimately show ?case using x by simp
qed

lemma decision_init_local:
  assumes "decision message (http_parser_init is_resp p0) = (1, sz, q)" "sz \<le> n"
  shows "sz \<le> length message \<and> decision (take n message) (http_parser_init is_resp p0) = (1, sz, q)"
  using decision_local [OF assms(1)] assms(2) by simp

lemma append_init:
  assumes "decision b (http_parser_init is_resp p0) = (r, sz, u)"
  shows "\<exists>q'. http_parser_append_message b (http_parser_init is_resp p0) [] = (r, int sz, q', []) \<and>
    http_view q' = outcome b (http_parser_init is_resp p0)"
proof -
  have le: "r = 1 \<Longrightarrow> sz \<le> length b" using assms decision_init_local by blast
  show ?thesis
    by (rule append_message_outcome [of "http_parser_init is_resp p0" b r sz u]) (use assms le in auto)
qed

lemma http_pieces:
  assumes "http_feed chunks (http_parser_init is_resp p0) = Some p"
    and "http_parser_append_message buf p [] = (r, n, q, m)"
  obtains q' where "http_parser_append_message (concat chunks @ buf) (http_parser_init is_resp p0) [] =
      (r, int (length (concat chunks)) + n, q', [])"
    "http_view q' = http_view q" "0 \<le> n" "n \<le> int (length buf)"
proof -
  let ?I = "http_parser_init is_resp p0" and ?M = "concat chunks"
  from http_feed_inv [OF assms(1)] have inv: "http_ok p" "\<not> hp_complete p" "message_of p = ?M"
    "fst (decision ?M ?I) = 0" "same_decision (decision (?M @ buf) p) (decision (?M @ buf) ?I)" by auto
  obtain r1 sz q1 where d1: "decision (message_of p @ buf) p = (r1, sz, q1)" by (metis prod_cases3)
  with inv(3,5) obtain q0 where d0: "decision (?M @ buf) ?I = (r1, sz, q0)"
    and v: "\<And>x. header_view (with_msg x q1, []) = header_view (with_msg x q0, [])"
    by (cases "decision (?M @ buf) ?I") (auto simp: same_decision_def)
  have le: "r1 = 1 \<Longrightarrow> sz \<le> length (?M @ buf)" using d0 decision_init_local by blast
  have ge: "r1 = 1 \<Longrightarrow> length ?M < sz"
  proof (rule ccontr)
    assume "r1 = 1" "\<not> length ?M < sz"
    then have "decision (take (length ?M) (?M @ buf)) ?I = (1, sz, q0)"
      using d0 decision_init_local [of "?M @ buf" is_resp p0 sz q0 "length ?M"] by simp
    then show False using inv(4) by simp
  qed
  have sz: "r1 \<noteq> 1 \<Longrightarrow> sz = length (?M @ buf)" using decision_code(2) [OF d0] by simp
  obtain q2 where a1: "http_parser_append_message buf p [] = (r1, int sz - int (hp_msgsize p), q2, [])"
      "http_view q2 = outcome (message_of p @ buf) p"
    using append_message_outcome [OF inv(1,2) d1] le inv(3) by (metis (no_types, lifting))
  obtain q3 where a0: "http_parser_append_message (?M @ buf) ?I [] = (r1, int sz, q3, [])"
      "http_view q3 = outcome (?M @ buf) ?I"
    using append_init [OF d0] by blast
  have "outcome (message_of p @ buf) p = outcome (?M @ buf) ?I"
    using v header_view_complete [OF v] d1 d0 by (simp add: outcome_def inv(3))
  moreover have "hp_msgsize p = length ?M" using inv(1) arg_cong [OF inv(3), of length] by (auto simp: http_ok_def message_of_def)
  ultimately show ?thesis using that [of q3] a1 a0 assms(2) le ge sz by (cases "r1 = 1") auto
qed

text \<open>C1: A message may arrive in any number of pieces. If the parser asked for more after each
  of them, the call with the next piece gives the return code, the message, the headers and all
  other observable state that one call with all the bytes gives; the number of bytes it takes
  from this piece is within the piece, so the unsigned subtraction of the source does not
  wrap.\<close>

theorem http_message_in_pieces:
  assumes "http_feed chunks (http_parser_init is_resp p0) = Some p"
    and "http_parser_append_message buf p [] = (r, n, q, m)"
  shows "0 \<le> n \<and> n \<le> int (length buf) \<and>
    (\<exists>q'. http_parser_append_message (concat chunks @ buf) (http_parser_init is_resp p0) [] =
        (r, int (length (concat chunks)) + n, q', []) \<and> http_view q' = http_view q)"
  using http_pieces [OF assms] by metis

theorem http_message_in_pieces_witness:
  "\<exists>p q q'. http_feed [''G / H'' @ [CR]] (http_parser_init False blank_parser) = Some p \<and>
     http_parser_append_message [LF, CR, LF, CHR ''X''] p [] = (1, 3, q, []) \<and>
     http_parser_append_message (''G / H'' @ CRLF @ CRLF @ ''X'') (http_parser_init False blank_parser) [] = (1, 9, q', []) \<and>
     http_view q' = http_view q"
proof -
  obtain p q where p: "http_feed [''G / H'' @ [CR]] (http_parser_init False blank_parser) = Some p"
    "http_parser_append_message [LF, CR, LF, CHR ''X''] p [] = (1, 3, q, [])"
    by (simp add: http_run_simps)
  from http_message_in_pieces [OF p] p show ?thesis by auto
qed

text \<open>C3: Framing. A message that is accepted takes exactly its own bytes: every shorter prefix
  asks for more, and what follows the message changes neither the decision nor the result.\<close>

theorem http_framing:
  assumes "http_parser_append_message msg (http_parser_init is_resp p0) [] = (1, n, q, m)"
  shows "0 \<le> n \<and> n \<le> int (length msg) \<and>
    (\<forall>k < nat n. fst (http_parser_append_message (take k msg) (http_parser_init is_resp p0) []) = 0) \<and>
    (\<forall>rest. \<exists>q'. http_parser_append_message (take (nat n) msg @ rest) (http_parser_init is_resp p0) [] = (1, n, q', []) \<and>
       http_view q' = http_view q)"
proof -
  let ?I = "http_parser_init is_resp p0"
  have ap: "\<exists>q'. http_parser_append_message b ?I [] = (r, int sz, q', []) \<and> http_view q' = outcome b ?I"
    if "decision b ?I = (r, sz, u)" for b r sz u
    using append_init [OF that] .
  obtain r sz u where d: "decision msg ?I = (r, sz, u)" by (metis prod_cases3)
  from ap [OF d] assms have r: "r = 1" "n = int sz" and v: "http_view q = outcome msg ?I" by auto
  have le: "sz \<le> length msg" using d r decision_init_local by blast
  have "fst (http_parser_append_message (take k msg) ?I []) = 0" if "k < sz" for k
  proof -
    obtain r' sz' u' where d': "decision (take k msg) ?I = (r', sz', u')" by (metis prod_cases3)
    have "r' = 0"
    proof (rule ccontr)
      assume "r' \<noteq> 0"
      then obtain sz2 where "decision (take k msg @ drop k msg) ?I = (r', sz2, u')" "r' = 1 \<Longrightarrow> sz2 = sz'"
        using decision_extend [OF d'] by blast
      with d r have "sz = sz'" "decision (take k msg) ?I = (1, sz', u')" using d' by auto
      then have "sz \<le> length (take k msg)" using decision_init_local by blast
      with that show False by simp
    qed
    then show ?thesis using ap [OF d'] by auto
  qed
  moreover have "\<exists>q'. http_parser_append_message (take sz msg @ rest) ?I [] = (1, int sz, q', []) \<and> http_view q' = http_view q" for rest
  proof -
    have "decision (take sz msg) ?I = (1, sz, u)" using d r decision_init_local by blast
    then have d': "decision (take sz msg @ rest) ?I = (1, sz, u)" using decision_extend [of "take sz msg" ?I 1 sz u rest] by auto
    have "outcome (take sz msg @ rest) ?I = outcome msg ?I" using d d' r le by (simp add: outcome_def)
    then show ?thesis using ap [OF d'] v by auto
  qed
  ultimately show ?thesis using r le by simp
qed

theorem http_framing_witness:
  "\<exists>q. http_parser_append_message (''G / H'' @ CRLF @ ''A: 1'' @ CRLF @ CRLF @ ''x'') (http_parser_init False blank_parser) [] = (1, 15, q, []) \<and>
     fst (http_parser_append_message (''G / H'' @ CRLF @ ''A: 1'' @ CRLF @ [CR]) (http_parser_init False blank_parser) []) = 0"
proof -
  obtain q where q: "http_parser_append_message (''G / H'' @ CRLF @ ''A: 1'' @ CRLF @ CRLF @ ''x'') (http_parser_init False blank_parser) [] = (1, 15, q, [])"
    by (simp add: http_run_simps)
  have "fst (http_parser_append_message (take 14 (''G / H'' @ CRLF @ ''A: 1'' @ CRLF @ CRLF @ ''x'')) (http_parser_init False blank_parser) []) = 0"
    using http_framing [OF q, THEN conjunct2, THEN conjunct2, THEN conjunct1, rule_format, of 14] by simp
  with q show ?thesis by simp
qed

end
