(* ===== verification/HttpHeaders.thy ===== *)
theory HttpHeaders
  imports HttpMessage
begin

text \<open>
  The header list of http_parser.c as a case-insensitive store. Each line owns a buffer that
  begins with the text of the header as it goes on the wire; the abstraction is the list of
  (name, value) pairs in order. \<open>http_parser_set_header\<close> refines the update of the first
  matching pair, \<open>http_header_cursor_find\<close> the look-up.
\<close>

section \<open>Lines and pairs\<close>

definition line_ok :: "header_line \<Rightarrow> bool" where
  "line_ok line \<longleftrightarrow> (\<exists>name v spare. hl_buf line = line_bytes name v @ spare \<and>
     length name = hl_name_len line \<and> length v = hl_value_len line)"

definition line_name :: "header_line \<Rightarrow> bytes" where
  "line_name line = take (hl_name_len line) (hl_buf line)"

definition pair_of :: "header_line \<Rightarrow> bytes \<times> bytes" where
  "pair_of line = (line_name line, line_value line)"

definition name_matches :: "bytes \<Rightarrow> bytes \<Rightarrow> bool" where
  "name_matches name n \<longleftrightarrow> length n = length name \<and> strncaseeq (length name) n name"

fun hdr_get :: "bytes \<Rightarrow> (bytes \<times> bytes) list \<Rightarrow> bytes option" where
  "hdr_get name [] = None"
| "hdr_get name ((n, v) # hs) = (if name_matches name n then Some v else hdr_get name hs)"

text \<open>A longer value takes over the spelling of the name in the call.\<close>

fun hdr_put :: "bytes \<Rightarrow> bytes \<Rightarrow> (bytes \<times> bytes) list \<Rightarrow> (bytes \<times> bytes) list" where
  "hdr_put name value [] = [(name, value)]"
| "hdr_put name value ((n, v) # hs) =
     (if name_matches name n then (if length value > length v then name else n, value) # hs
      else (n, v) # hdr_put name value hs)"

lemma strncaseeq_take: "n \<le> length a \<Longrightarrow> strncaseeq n (take n a) b = strncaseeq n a b"
proof (induction n a b rule: strncaseeq.induct)
qed auto

lemma line_ok_pair:
  assumes "line_ok line"
  shows "length (line_name line) = hl_name_len line" "length (line_value line) = hl_value_len line"
  using assms by (auto simp: line_ok_def line_name_def line_value_def line_bytes_def)

lemma line_matches_iff: "line_ok line \<Longrightarrow> line_matches name line = name_matches name (line_name line)"
  using line_ok_pair [of line] strncaseeq_take [of "hl_name_len line" "hl_buf line" name]
  by (auto simp: line_matches_def name_matches_def line_name_def line_ok_def line_bytes_def)

lemma new_line_ok:
  "line_ok \<lparr>hl_name_len = length name, hl_value_len = length v, hl_buf = line_bytes name v\<rparr>"
  "pair_of \<lparr>hl_name_len = length name, hl_value_len = length v, hl_buf = line_bytes name v\<rparr> = (name, v)"
  by (auto simp: line_ok_def pair_of_def line_name_def line_value_def line_bytes_def)

lemma overwrite_line:
  assumes "line_ok line" "length value \<le> hl_value_len line"
  defines "line' \<equiv> line\<lparr>hl_buf := overwrite (hl_buf line) (hl_name_len line + 2) (value @ CRLF), hl_value_len := length value\<rparr>"
  shows "line_ok line' \<and> pair_of line' = (line_name line, value)"
proof -
  obtain name v spare where l: "hl_buf line = line_bytes name v @ spare" "length name = hl_name_len line"
      "length v = hl_value_len line"
    using assms(1) by (auto simp: line_ok_def)
  then have "hl_buf line' = line_bytes name value @ drop (hl_name_len line + 2 + length (value @ CRLF)) (hl_buf line)"
    by (simp add: line'_def overwrite_def line_bytes_def)
  then show ?thesis using l by (auto simp: line_ok_def pair_of_def line_name_def line_value_def line'_def line_bytes_def)
qed

lemma set_in_list_refines:
  assumes "\<forall>line \<in> set lines. line_ok line"
  shows "case set_in_list name value lines [] of
      None \<Rightarrow> hdr_put name value (map pair_of lines) = map pair_of lines @ [(name, value)]
    | Some (r, lines', m) \<Rightarrow> r = 0 \<and> m = [] \<and> (\<forall>line \<in> set lines'. line_ok line) \<and>
        map pair_of lines' = hdr_put name value (map pair_of lines)"
  using assms
proof (induction lines)
  case (Cons line rest)
  then have ok: "line_ok line" by simp
  note pair = line_ok_pair [OF ok]
  show ?case
  proof (cases "line_matches name line")
    case False
    then have "\<not> name_matches name (line_name line)" using line_matches_iff [OF ok] by simp
    with False Cons show ?thesis by (auto simp: pair_of_def [of line] split: option.splits)
  next
    case True
    then have m: "name_matches name (line_name line)" using line_matches_iff [OF ok] by simp
    then have len: "hl_name_len line = length name" using pair by (simp add: name_matches_def)
    have new: "line_ok (line\<lparr>hl_buf := line_bytes name value, hl_value_len := length value\<rparr>)"
      "pair_of (line\<lparr>hl_buf := line_bytes name value, hl_value_len := length value\<rparr>) = (name, value)"
      using len by (auto simp: line_ok_def pair_of_def line_name_def line_value_def line_bytes_def)
    show ?thesis
      using True m Cons.prems new overwrite_line [OF ok, of "value"] pair len
      by (auto simp: pair_of_def [of line])
  qed
qed simp

lemma cursor_find_refines:
  assumes "\<forall>line \<in> set head. line_ok line"
  shows "fst (http_header_cursor_find name head k) = hdr_get name (map pair_of (drop k head))"
  using assms
proof (induction name head k rule: http_header_cursor_find.induct)
  case (1 name head k)
  show ?case
  proof (cases "k < length head")
    case True
    have d: "drop k head = head ! k # drop (k + 1) head" using Cons_nth_drop_Suc [OF True] by simp
    have ok: "line_ok (head ! k)" using "1.prems" nth_mem [OF True] by blast
    show ?thesis
    proof (cases "line_matches name (head ! k)")
      case m: True
      then have "http_header_cursor_find name head k = (Some (line_value (head ! k)), k + 1)"
        using True by (subst http_header_cursor_find.simps) (simp add: Let_def)
      with m ok d show ?thesis by (simp add: pair_of_def line_matches_iff)
    next
      case m: False
      then have "http_header_cursor_find name head k = http_header_cursor_find name head (k + 1)"
        using True by (subst http_header_cursor_find.simps) (simp add: Let_def)
      moreover have "fst (http_header_cursor_find name head (k + 1)) = hdr_get name (map pair_of (drop (k + 1) head))"
        using "1.IH" [OF True refl] m "1.prems" by simp
      ultimately show ?thesis using m ok d by (simp add: pair_of_def [of "head ! k"] line_matches_iff)
    qed
  next
    case False
    then show ?thesis by (subst http_header_cursor_find.simps) simp
  qed
qed

lemma strncaseeq_fold: "strncaseeq n a b \<longleftrightarrow> map c_tolower (c_str (take n a)) = map c_tolower (c_str (take n b))"
proof (induction n a b rule: strncaseeq.induct)
  case (5 n x a y b)
  have "c_tolower x = c_tolower y \<Longrightarrow> x = NUL \<longleftrightarrow> y = NUL" by (metis c_tolower_NUL_iff)
  with 5 show ?case by (auto simp: c_str_def)
qed (auto simp: c_str_def)

lemma name_matches_iff:
  "name_matches a b \<longleftrightarrow> length b = length a \<and> map c_tolower (c_str b) = map c_tolower (c_str a)"
  by (auto simp: name_matches_def strncaseeq_fold)

lemma hdr_get_put_same: "name_matches k name \<Longrightarrow> hdr_get k (hdr_put name v hs) = Some v"
  by (induction hs) (auto simp: name_matches_iff)

lemma hdr_get_put_other: "\<not> name_matches other name \<Longrightarrow> hdr_get other (hdr_put name v hs) = hdr_get other hs"
  by (induction hs) (auto simp: name_matches_iff)

lemma check_message_header_list [simp]: "hp_header_list (check_message_header name v p) = hp_header_list p"
  unfolding check_message_header_def Let_def if_distrib [of hp_header_list] by (simp cong: if_cong)

lemma http_parser_set_header_refines:
  assumes "\<forall>line \<in> set (hp_header_list p). line_ok line"
    and "http_parser_set_header name v p [] = (r, q, m)"
  shows "r = 0 \<and> (\<forall>line \<in> set (hp_header_list q). line_ok line) \<and>
    map pair_of (hp_header_list q) = hdr_put name v (map pair_of (hp_header_list p))"
  using assms(2) set_in_list_refines [OF assms(1), of name v] assms(1)
  by (auto simp: http_parser_set_header_def set_message_header_def add_message_header_def new_line_ok
      split: option.splits)

text \<open>C20: A header that is set is found, by any spelling of its name, with its value; the other
  headers are found as before, every line still begins with its text as it goes on the wire,
  and the call succeeds when memory is available.\<close>

theorem http_set_header_find:
  assumes "\<forall>line \<in> set (hp_header_list p). line_ok line"
    and "http_parser_set_header name v p [] = (r, q, m)"
  shows "r = 0 \<and> (\<forall>line \<in> set (hp_header_list q). line_ok line) \<and>
    (\<forall>k. name_matches k name \<longrightarrow>
       fst (http_header_cursor_find k (hp_header_list q) (http_header_cursor_init q)) = Some v) \<and>
    (\<forall>other. \<not> name_matches other name \<longrightarrow>
       fst (http_header_cursor_find other (hp_header_list q) (http_header_cursor_init q)) =
       fst (http_header_cursor_find other (hp_header_list p) (http_header_cursor_init p)))"
proof -
  from http_parser_set_header_refines [OF assms] have h: "r = 0" "\<forall>line \<in> set (hp_header_list q). line_ok line"
    "map pair_of (hp_header_list q) = hdr_put name v (map pair_of (hp_header_list p))" by auto
  then show ?thesis
    using assms(1) by (simp add: cursor_find_refines http_header_cursor_init_def hdr_get_put_other hdr_get_put_same)
qed

theorem http_set_header_find_witness:
  "case http_parser_set_header ''A'' ''1'' blank_parser [] of (r, q, m) \<Rightarrow>
     r = 0 \<and> fst (http_header_cursor_find ''a'' (hp_header_list q) (http_header_cursor_init q)) = Some ''1''"
proof -
  obtain r q m where q: "http_parser_set_header ''A'' ''1'' blank_parser [] = (r, q, m)" by (metis prod_cases3)
  have "name_matches ''a'' ''A''" by code_simp
  with http_set_header_find [OF _ q] q show ?thesis by (simp add: blank_parser_def)
qed

end
