(* ===== verification/MysqlStream.thy ===== *)
theory MysqlStream
  imports Prelude
begin

text \<open>
  src/libnetwork/workflow/src/linux/protocol/mysql_stream.c, the reassembly of MySQL packets
  into one payload buffer. The function pointer \<open>write\<close> of the struct is one of two functions
  and is a datatype here. \<open>payload_length\<close> comes from three bytes, so it and the sizes computed
  from it are natural numbers that do not wrap. Bytes that \<open>realloc\<close> adds are NUL; they are
  written before \<open>length\<close> covers them.
\<close>

datatype write_fn = Write_head | Write_payload

record mysql_stream =
  ms_head :: bytes
  ms_head_left :: nat
  ms_sequence_id :: nat
  ms_payload_length :: nat
  ms_payload_left :: nat
  ms_buf :: bytes
  ms_length :: nat
  ms_bufsize :: nat
  ms_write :: write_fn

abbreviation MAX_PAYLOAD :: nat where "MAX_PAYLOAD \<equiv> 16777215" \<comment> \<open>(1 << 24) - 1\<close>

definition ms_grow :: "mysql_stream \<Rightarrow> allocator \<Rightarrow> bool \<times> mysql_stream \<times> allocator" where
  "ms_grow s m =
     (let need = ms_length s + ms_payload_left s in
      if ms_bufsize s < need then
        (let new_size = grow_size (max 2048 (2 * ms_bufsize s)) need in
         case alloc m of
           (False, m') \<Rightarrow> (False, s, m')
         | (True, m') \<Rightarrow> (True, s\<lparr>ms_buf := ms_buf s @ replicate (new_size - length (ms_buf s)) NUL, ms_bufsize := new_size\<rparr>, m'))
      else (True, s, m))"

text \<open>The results are the return value, the new \<open>*n\<close> and the state.\<close>

definition ms_head_done :: "nat \<Rightarrow> bytes \<Rightarrow> mysql_stream \<Rightarrow> allocator \<Rightarrow> int \<times> nat \<times> mysql_stream \<times> allocator" where
  "ms_head_done n head s m =
     (let len = uchar (head ! 2) * 65536 + uchar (head ! 1) * 256 + uchar (head ! 0);
          s1 = s\<lparr>ms_head := head, ms_payload_length := len, ms_payload_left := len, ms_sequence_id := uchar (head ! 3)\<rparr> in
      case ms_grow s1 m of
        (False, s2, m') \<Rightarrow> (-1, n, s2, m')
      | (True, s2, m') \<Rightarrow> (0, ms_head_left s2, s2\<lparr>ms_write := Write_payload\<rparr>, m'))"

definition mysql_stream_write_head :: "bytes \<Rightarrow> mysql_stream \<Rightarrow> allocator \<Rightarrow> int \<times> nat \<times> mysql_stream \<times> allocator" where
  "mysql_stream_write_head buf s m =
     (let n = length buf; off = 4 - ms_head_left s in
      if n < ms_head_left s then
        (0, n, s\<lparr>ms_head := overwrite (ms_head s) off buf, ms_head_left := ms_head_left s - n\<rparr>, m)
      else ms_head_done n (overwrite (ms_head s) off (take (ms_head_left s) buf)) s m)"

definition mysql_stream_write_payload :: "bytes \<Rightarrow> mysql_stream \<Rightarrow> int \<times> nat \<times> mysql_stream" where
  "mysql_stream_write_payload buf s =
     (let n = length buf in
      if n < ms_payload_left s then
        (0, n, s\<lparr>ms_buf := overwrite (ms_buf s) (ms_length s) buf, ms_length := ms_length s + n,
                ms_payload_left := ms_payload_left s - n\<rparr>)
      else
        (if ms_payload_length s \<noteq> MAX_PAYLOAD then 1 else 0, ms_payload_left s,
         s\<lparr>ms_buf := overwrite (ms_buf s) (ms_length s) (take (ms_payload_left s) buf),
           ms_length := ms_length s + ms_payload_left s, ms_head_left := 4, ms_write := Write_head\<rparr>))"

definition ms_call :: "bytes \<Rightarrow> mysql_stream \<Rightarrow> allocator \<Rightarrow> int \<times> nat \<times> mysql_stream \<times> allocator" where
  "ms_call buf s m =
     (case ms_write s of
        Write_head \<Rightarrow> mysql_stream_write_head buf s m
      | Write_payload \<Rightarrow> (case mysql_stream_write_payload buf s of (r, n, t) \<Rightarrow> (r, n, t, m)))"

text \<open>The loop ends because a call takes bytes, or switches from an empty payload to the next
  head; it relies on \<open>head_left\<close> being positive, which the struct keeps (1 to 4).\<close>

definition ms_measure :: "bytes \<Rightarrow> mysql_stream \<Rightarrow> nat" where
  "ms_measure buf s = 2 * length buf + (if ms_write s = Write_payload then 1 else 0)"

lemma ms_grow_frame:
  "ms_grow s m = (b, t, m') \<Longrightarrow> ms_head_left t = ms_head_left s \<and> ms_write t = ms_write s \<and> ms_length t = ms_length s \<and>
   ms_payload_left t = ms_payload_left s \<and> ms_payload_length t = ms_payload_length s \<and> ms_head t = ms_head s"
  by (auto simp: ms_grow_def Let_def split: if_splits prod.splits bool.splits)

lemma ms_call_bound:
  "ms_call buf s m = (r, n, t, m') \<Longrightarrow> n \<le> length buf"
  by (auto simp: ms_call_def mysql_stream_write_head_def ms_head_done_def mysql_stream_write_payload_def Let_def
      split: write_fn.splits if_splits prod.splits bool.splits dest!: ms_grow_frame)

lemma ms_call_measure:
  assumes "ms_call buf s m = (r, n, t, m')" "n \<noteq> length buf" "0 < ms_head_left s"
  shows "ms_measure (drop n buf) t < ms_measure buf s" "0 < ms_head_left t"
  using assms by (auto simp: ms_call_def mysql_stream_write_head_def ms_head_done_def mysql_stream_write_payload_def ms_measure_def Let_def
      split: write_fn.splits if_splits prod.splits bool.splits dest!: ms_grow_frame)

function mysql_stream_write :: "bytes \<Rightarrow> mysql_stream \<Rightarrow> allocator \<Rightarrow> int \<times> mysql_stream \<times> allocator" where
  "mysql_stream_write buf s m =
     (if ms_head_left s = 0 then (-1, s, m) \<comment> \<open>not a state of the struct\<close>
      else case ms_call buf s m of (ret, n, t, m') \<Rightarrow>
        if n = length buf then (ret, t, m') else mysql_stream_write (drop n buf) t m')"
  by pat_completeness auto
termination
  by (relation "measure (\<lambda>(buf, s, m). ms_measure buf s)")
    (auto dest!: sym [of _ "ms_call _ _ _"] ms_call_measure(1))

declare mysql_stream_write.simps [simp del]

definition mysql_stream_init :: "mysql_stream \<Rightarrow> mysql_stream" where
  "mysql_stream_init s = s\<lparr>ms_head_left := 4, ms_sequence_id := 0, ms_buf := [], ms_length := 0,
     ms_bufsize := 0, ms_write := Write_head\<rparr>"

section \<open>Invariant\<close>

definition ms_ok :: "mysql_stream \<Rightarrow> bool" where
  "ms_ok s \<longleftrightarrow> length (ms_head s) = 4 \<and> 0 < ms_head_left s \<and> ms_head_left s \<le> 4 \<and>
     length (ms_buf s) = ms_bufsize s \<and> ms_length s \<le> ms_bufsize s \<and>
     (ms_write s = Write_payload \<longrightarrow> ms_length s + ms_payload_left s \<le> ms_bufsize s)"

lemma ms_grow_ok:
  assumes "ms_grow s m = (b, t, m')" "length (ms_buf s) = ms_bufsize s"
  shows "length (ms_buf t) = ms_bufsize t \<and> ms_bufsize s \<le> ms_bufsize t \<and>
    (b \<longrightarrow> ms_length s + ms_payload_left s \<le> ms_bufsize t)"
proof -
  let ?need = "ms_length s + ms_payload_left s"
  have "?need \<le> grow_size (max 2048 (2 * ms_bufsize s)) ?need" by (rule grow_size_ge) simp
  moreover have "ms_bufsize s \<le> grow_size (max 2048 (2 * ms_bufsize s)) ?need"
    using grow_size_mono [of "max 2048 (2 * ms_bufsize s)" ?need] by linarith
  ultimately show ?thesis using assms by (auto simp: ms_grow_def Let_def split: if_splits prod.splits bool.splits)
qed

lemma ms_call_ok:
  assumes "ms_call buf s m = (r, n, t, m')" "ms_ok s"
  shows "ms_ok t"
proof (cases "ms_write s")
  case Write_payload
  with assms show ?thesis
    by (auto simp: ms_call_def mysql_stream_write_payload_def ms_ok_def Let_def split: if_splits)
next
  case Write_head
  show ?thesis
  proof (cases "length buf < ms_head_left s")
    case True
    with Write_head assms show ?thesis
      by (auto simp: ms_call_def mysql_stream_write_head_def ms_ok_def Let_def)
  next
    case False
    define head where "head = overwrite (ms_head s) (4 - ms_head_left s) (take (ms_head_left s) buf)"
    define len where "len = uchar (head ! 2) * 65536 + uchar (head ! 1) * 256 + uchar (head ! 0)"
    define s1 where "s1 = s\<lparr>ms_head := head, ms_payload_length := len, ms_payload_left := len, ms_sequence_id := uchar (head ! 3)\<rparr>"
    obtain b s2 m2 where g: "ms_grow s1 m = (b, s2, m2)" by (metis prod_cases3)
    have h: "length head = 4" using assms(2) False by (simp add: head_def ms_ok_def)
    have t: "t = (if b then s2\<lparr>ms_write := Write_payload\<rparr> else s2)"
      using assms(1) Write_head False g
      by (auto simp: ms_call_def mysql_stream_write_head_def ms_head_done_def Let_def s1_def len_def head_def split: bool.splits)
    show ?thesis using ms_grow_frame [OF g] ms_grow_ok [OF g] h assms(2) Write_head
      by (auto simp: t ms_ok_def s1_def)
  qed
qed

lemma mysql_stream_write_ok: "mysql_stream_write buf s m = (r, t, m') \<Longrightarrow> ms_ok s \<Longrightarrow> ms_ok t"
proof (induction buf s m rule: mysql_stream_write.induct)
  case (1 buf s m)
  obtain r0 n0 t0 m0 where c: "ms_call buf s m = (r0, n0, t0, m0)" by (metis prod_cases4)
  have hl: "ms_head_left s \<noteq> 0" using "1.prems"(2) by (simp add: ms_ok_def)
  show ?case
  proof (cases "n0 = length buf")
    case True
    with "1.prems" c hl show ?thesis by (simp add: mysql_stream_write.simps [of buf s m] ms_call_ok)
  next
    case False
    with "1.prems" c hl have "mysql_stream_write (drop n0 buf) t0 m0 = (r, t, m')"
      by (simp add: mysql_stream_write.simps [of buf s m])
    with "1.IH" [OF hl c [symmetric] refl refl False] ms_call_ok [OF c "1.prems"(2)] show ?thesis by simp
  qed
qed

section \<open>Writes may be cut anywhere\<close>

text \<open>\<open>head_left\<close> means nothing while a payload is read, and \<open>payload_left\<close> nothing while a head is
  read: both are set anew at the end of it.\<close>

definition ms_view :: "mysql_stream \<Rightarrow> mysql_stream" where
  "ms_view s = (if ms_write s = Write_payload then s\<lparr>ms_head_left := 4\<rparr> else s\<lparr>ms_payload_left := 0\<rparr>)"

definition completes :: "bytes \<Rightarrow> mysql_stream \<Rightarrow> bool" where
  "completes buf s \<longleftrightarrow> (case ms_write s of Write_head \<Rightarrow> ms_head_left s | Write_payload \<Rightarrow> ms_payload_left s) \<le> length buf"

lemma ms_grow_Nil: "\<exists>t. ms_grow s [] = (True, t, [])"
  by (simp add: ms_grow_def Let_def)

lemma ms_grow_head_left: "ms_grow (s\<lparr>ms_head_left := k\<rparr>) m = (case ms_grow s m of (b, t, m') \<Rightarrow> (b, t\<lparr>ms_head_left := k\<rparr>, m'))"
  by (simp add: ms_grow_def Let_def split: prod.splits bool.splits)

lemma ms_call_Nil:
  obtains r n t where "ms_call buf s [] = (r, n, t, [])"
proof -
  obtain r n t m where c: "ms_call buf s [] = (r, n, t, m)" by (metis prod_cases4)
  then have "m = []"
    by (auto simp: ms_call_def mysql_stream_write_head_def ms_head_done_def ms_grow_def Let_def
        split: write_fn.splits if_splits prod.splits)
  with c that show ?thesis by blast
qed

lemma ms_head_done_Nil: "ms_head_done n head s [] = ms_head_done n' head s []"
  by (simp add: ms_head_done_def ms_grow_def Let_def)

lemma ms_head_done_left:
  "\<exists>u. ms_head_done n head s [] = (0, ms_head_left s, u, []) \<and> ms_write u = Write_payload \<and>
     ms_head_done n' head (s\<lparr>ms_head := h, ms_head_left := k\<rparr>) [] = (0, k, u\<lparr>ms_head_left := k\<rparr>, [])"
  by (simp add: ms_head_done_def ms_grow_def Let_def)

lemma ms_call_completes:
  assumes "completes xs s" "ms_call xs s [] = (r, n, t, [])"
  shows "ms_call (xs @ ys) s [] = (r, n, t, [])"
proof (cases "ms_write s")
  case Write_head
  with assms show ?thesis
    using ms_head_done_Nil [of "length xs" _ s "length (xs @ ys)"]
    by (simp add: completes_def ms_call_def mysql_stream_write_head_def Let_def)
next
  case Write_payload
  with assms show ?thesis by (auto simp: completes_def ms_call_def mysql_stream_write_payload_def Let_def)
qed

lemma overwrite_append:
  "off + length xs + length ys \<le> length base \<Longrightarrow>
   overwrite (overwrite base off xs) (off + length xs) ys = overwrite base off (xs @ ys)"
  by (simp add: overwrite_def ac_simps)

lemma ms_call_partial_payload:
  assumes ok: "ms_ok s" and np: "\<not> completes xs s" and w: "ms_write s = Write_payload"
  obtains t where "ms_call xs s [] = (0, length xs, t, [])"
    "\<And>r n u. ms_call ys t [] = (r, n, u, []) \<Longrightarrow>
       \<exists>u'. ms_call (xs @ ys) s [] = (r, length xs + n, u', []) \<and> ms_view u' = ms_view u"
proof -
  define t where "t = s\<lparr>ms_buf := overwrite (ms_buf s) (ms_length s) xs, ms_length := ms_length s + length xs,
      ms_payload_left := ms_payload_left s - length xs\<rparr>"
  have lt: "length xs < ms_payload_left s" using np w by (simp add: completes_def)
  have room: "ms_length s + ms_payload_left s \<le> length (ms_buf s)" using ok w by (simp add: ms_ok_def)
  have "ms_call xs s [] = (0, length xs, t, [])"
    using lt w by (simp add: ms_call_def mysql_stream_write_payload_def Let_def t_def)
  moreover have "\<exists>u'. ms_call (xs @ ys) s [] = (r, length xs + n, u', []) \<and> ms_view u' = ms_view u"
    if c: "ms_call ys t [] = (r, n, u, [])" for r n u
  proof (cases "length ys < ms_payload_left t")
    case True
    then have "length xs + length ys < ms_payload_left s" using lt by (simp add: t_def)
    with True c w lt room show ?thesis
      by (auto simp: ms_call_def mysql_stream_write_payload_def t_def overwrite_append ms_view_def Let_def)
  next
    case False
    then have "\<not> length xs + length ys < ms_payload_left s" using lt by (simp add: t_def)
    with False c w lt room show ?thesis
      by (auto simp: ms_call_def mysql_stream_write_payload_def t_def overwrite_append ms_view_def Let_def)
  qed
  ultimately show ?thesis using that by blast
qed

lemma ms_call_partial_head:
  assumes ok: "ms_ok s" and np: "\<not> completes xs s" and w: "ms_write s = Write_head"
  obtains t where "ms_call xs s [] = (0, length xs, t, [])"
    "\<And>r n u. ms_call ys t [] = (r, n, u, []) \<Longrightarrow>
       \<exists>u'. ms_call (xs @ ys) s [] = (r, length xs + n, u', []) \<and> ms_view u' = ms_view u"
proof -
  define t where "t = s\<lparr>ms_head := overwrite (ms_head s) (4 - ms_head_left s) xs, ms_head_left := ms_head_left s - length xs\<rparr>"
  have lt: "length xs < ms_head_left s" using np w by (simp add: completes_def)
  have c1: "ms_call xs s [] = (0, length xs, t, [])"
    using lt w by (simp add: ms_call_def mysql_stream_write_head_def Let_def t_def)
  have off: "4 - ms_head_left t = 4 - ms_head_left s + length xs" using lt ok by (simp add: t_def ms_ok_def)
  have room: "4 - ms_head_left s + ms_head_left s \<le> length (ms_head s)" using ok by (simp add: ms_ok_def)
  have "\<exists>u'. ms_call (xs @ ys) s [] = (r, length xs + n, u', []) \<and> ms_view u' = ms_view u"
    if c: "ms_call ys t [] = (r, n, u, [])" for r n u
  proof (cases "length ys < ms_head_left t")
    case True
    then have "length xs + length ys < ms_head_left s" using lt by (simp add: t_def)
    with True c w lt room off show ?thesis
      by (auto simp: ms_call_def mysql_stream_write_head_def t_def overwrite_append Let_def)
  next
    case False
    let ?H = "overwrite (ms_head s) (4 - ms_head_left s) (take (ms_head_left s) (xs @ ys))"
    have wt: "ms_write t = Write_head" using w by (simp add: t_def)
    have ge: "\<not> length (xs @ ys) < ms_head_left s" using False lt by (simp add: t_def)
    have H: "overwrite (ms_head t) (4 - ms_head_left t) (take (ms_head_left t) ys) = ?H"
      using room lt ge off by (simp add: t_def overwrite_append)
    obtain v where v: "ms_head_done (length (xs @ ys)) ?H s [] = (0, ms_head_left s, v, [])" "ms_write v = Write_payload"
        "ms_head_done (length ys) ?H t [] = (0, ms_head_left t, v\<lparr>ms_head_left := ms_head_left t\<rparr>, [])"
      using ms_head_done_left [where n = "length (xs @ ys)" and head = ?H and s = s and n' = "length ys" and h = "ms_head t" and k = "ms_head_left t"] by (auto simp: t_def)
    have "ms_call (xs @ ys) s [] = (0, ms_head_left s, v, [])"
      using ge w v(1) by (simp add: ms_call_def mysql_stream_write_head_def Let_def)
    moreover have "ms_call ys t [] = (0, ms_head_left t, v\<lparr>ms_head_left := ms_head_left t\<rparr>, [])"
      using False v(3) H wt by (simp add: ms_call_def mysql_stream_write_head_def Let_def)
    ultimately show ?thesis using c lt v(2) by (auto simp: ms_view_def t_def)
  qed
  then show ?thesis using c1 that by blast
qed

lemma ms_call_view:
  assumes "ms_view s = ms_view t" "ms_call buf s [] = (r, n, u, [])"
  shows "\<exists>u'. ms_call buf t [] = (r, n, u', []) \<and> ms_view u = ms_view u'"
proof (cases "ms_write s")
  case Write_head
  then have w: "ms_write t = Write_head" and e: "s\<lparr>ms_payload_left := 0\<rparr> = t\<lparr>ms_payload_left := 0\<rparr>"
    using assms(1) by (auto simp: ms_view_def split: if_splits dest: arg_cong [of _ _ ms_write])
  from arg_cong [OF e, of "\<lambda>x. x\<lparr>ms_payload_left := ms_payload_left t\<rparr>"]
  have t: "t = s\<lparr>ms_payload_left := ms_payload_left t\<rparr>" by simp
  show ?thesis
  proof (cases "length buf < ms_head_left s")
    case True
    with Write_head assms(2) show ?thesis
      by (subst t) (auto simp: ms_call_def mysql_stream_write_head_def ms_view_def Let_def)
  next
    case False
    with Write_head have "ms_call buf t [] = ms_call buf s []"
      by (subst t) (simp add: ms_call_def mysql_stream_write_head_def ms_head_done_def Let_def)
    then show ?thesis using assms(2) by simp
  qed
next
  case Write_payload
  then have w: "ms_write t = Write_payload" and e: "s\<lparr>ms_head_left := 4\<rparr> = t\<lparr>ms_head_left := 4\<rparr>"
    using assms(1) by (auto simp: ms_view_def split: if_splits dest: arg_cong [of _ _ ms_write])
  from arg_cong [OF e, of "\<lambda>x. x\<lparr>ms_head_left := ms_head_left t\<rparr>"]
  have t: "t = s\<lparr>ms_head_left := ms_head_left t\<rparr>" by simp
  from Write_payload assms(2) show ?thesis
    by (subst t) (auto simp: ms_call_def mysql_stream_write_payload_def ms_view_def Let_def split: if_splits)
qed

lemma mysql_stream_write_view:
  assumes "ms_view s = ms_view t" "ms_ok s" "ms_ok t" "mysql_stream_write buf s [] = (r, u, [])"
  shows "\<exists>u'. mysql_stream_write buf t [] = (r, u', []) \<and> ms_view u = ms_view u'"
  using assms
proof (induction buf s "[]::allocator" arbitrary: t rule: mysql_stream_write.induct)
  case (1 buf s)
  have hl: "ms_head_left s \<noteq> 0" "ms_head_left t \<noteq> 0" using "1.prems"(2,3) by (simp_all add: ms_ok_def)
  obtain r0 n0 s0 where c: "ms_call buf s [] = (r0, n0, s0, [])" by (rule ms_call_Nil)
  obtain t0 where ct: "ms_call buf t [] = (r0, n0, t0, [])" "ms_view s0 = ms_view t0"
    using ms_call_view [OF "1.prems"(1) c] by blast
  show ?case
  proof (cases "n0 = length buf")
    case True
    with c ct hl "1.prems"(4) show ?thesis by (auto simp: mysql_stream_write.simps [of buf])
  next
    case False
    with c hl "1.prems"(4) have "mysql_stream_write (drop n0 buf) s0 [] = (r, u, [])"
      by (simp add: mysql_stream_write.simps [of buf s])
    then have "\<exists>u'. mysql_stream_write (drop n0 buf) t0 [] = (r, u', []) \<and> ms_view u = ms_view u'"
      using "1.hyps" [OF hl(1) c [symmetric] refl refl False ct(2)] ms_call_ok [OF c "1.prems"(2)] ms_call_ok [OF ct(1) "1.prems"(3)]
      by blast
    with False ct(1) hl show ?thesis by (simp add: mysql_stream_write.simps [of buf t])
  qed
qed

lemma mysql_stream_write_Nil:
  obtains r t where "mysql_stream_write buf s [] = (r, t, [])"
proof -
  have "snd (snd (mysql_stream_write buf s [])) = []"
  proof (induction buf s "[]::allocator" rule: mysql_stream_write.induct)
    case (1 buf s)
    obtain r0 n0 s0 where c: "ms_call buf s [] = (r0, n0, s0, [])" by (rule ms_call_Nil)
    with "1" [OF _ c [symmetric] refl refl] show ?case by (simp add: mysql_stream_write.simps [of buf s])
  qed
  with that show ?thesis by (metis prod.collapse)
qed

lemma mysql_stream_write_split:
  assumes "ms_ok s" "ys \<noteq> []" "mysql_stream_write xs s [] = (r, t, [])" "mysql_stream_write ys t [] = (r', u, [])"
  shows "\<exists>u'. mysql_stream_write (xs @ ys) s [] = (r', u', []) \<and> ms_view u' = ms_view u"
  using assms
proof (induction xs s "[]::allocator" arbitrary: r t rule: mysql_stream_write.induct)
  case (1 xs s)
  have hl: "ms_head_left s \<noteq> 0" using "1.prems"(1) by (simp add: ms_ok_def)
  show ?case
  proof (cases "completes xs s")
    case True
    obtain r0 n0 s0 where c: "ms_call xs s [] = (r0, n0, s0, [])" by (rule ms_call_Nil)
    note le = ms_call_bound [OF c] and c2 = ms_call_completes [OF True c, of ys]
    have step: "mysql_stream_write (xs @ ys) s [] = mysql_stream_write (drop n0 xs @ ys) s0 []"
      using c2 hl le "1.prems"(2) by (subst mysql_stream_write.simps) (cases ys; simp)
    show ?thesis
    proof (cases "n0 = length xs")
      case True
      with c hl "1.prems"(3,4) step show ?thesis by (simp add: mysql_stream_write.simps [of xs s])
    next
      case False
      with c hl "1.prems"(3) have "mysql_stream_write (drop n0 xs) s0 [] = (r, t, [])"
        by (simp add: mysql_stream_write.simps [of xs s])
      with "1.hyps" [OF hl c [symmetric] refl refl False ms_call_ok [OF c "1.prems"(1)] "1.prems"(2) _ "1.prems"(4)] step
      show ?thesis by simp
    qed
  next
    case False
    obtain t0 where t0: "ms_call xs s [] = (0, length xs, t0, [])"
      "\<And>r n u. ms_call ys t0 [] = (r, n, u, []) \<Longrightarrow>
         \<exists>u'. ms_call (xs @ ys) s [] = (r, length xs + n, u', []) \<and> ms_view u' = ms_view u"
    proof (cases "ms_write s")
      case Write_head
      show ?thesis by (rule ms_call_partial_head [OF "1.prems"(1) False Write_head, of ys]) (use that in blast)
    next
      case Write_payload
      show ?thesis by (rule ms_call_partial_payload [OF "1.prems"(1) False Write_payload, of ys]) (use that in blast)
    qed
    then have t: "t = t0" using "1.prems"(3) hl by (simp add: mysql_stream_write.simps [of xs s])
    have ok: "ms_ok t" using ms_call_ok [OF t0(1) "1.prems"(1)] t by simp
    obtain r1 n1 u1 where c1: "ms_call ys t [] = (r1, n1, u1, [])" by (rule ms_call_Nil)
    then obtain u2 where c2: "ms_call (xs @ ys) s [] = (r1, length xs + n1, u2, [])" "ms_view u1 = ms_view u2"
      using t0(2) t by metis
    have hlt: "ms_head_left t \<noteq> 0" using ok by (simp add: ms_ok_def)
    show ?thesis
    proof (cases "n1 = length ys")
      case True
      with c1 c2 hl hlt "1.prems"(4) show ?thesis
        by (auto simp: mysql_stream_write.simps [of ys t] mysql_stream_write.simps [of "xs @ ys" s])
    next
      case False
      with c1 hlt "1.prems"(4) have "mysql_stream_write (drop n1 ys) u1 [] = (r', u, [])"
        by (simp add: mysql_stream_write.simps [of ys t])
      then obtain u' where "mysql_stream_write (drop n1 ys) u2 [] = (r', u', [])" "ms_view u = ms_view u'"
        using mysql_stream_write_view [OF c2(2) ms_call_ok [OF c1 ok] ms_call_ok [OF c2(1) "1.prems"(1)]] by blast
      with False c2(1) hl show ?thesis by (simp add: mysql_stream_write.simps [of "xs @ ys" s])
    qed
  qed
qed

section \<open>Packets\<close>

definition packet_head :: "nat \<Rightarrow> nat \<Rightarrow> bytes" where
  "packet_head sq len = [char_of (len mod 256), char_of (len div 256 mod 256), char_of (len div 65536), char_of sq]"

definition packet_bytes :: "nat \<times> bytes \<Rightarrow> bytes" where
  "packet_bytes p = packet_head (fst p) (length (snd p)) @ snd p"

definition packet_ok :: "nat \<times> bytes \<Rightarrow> bool" where
  "packet_ok p \<longleftrightarrow> fst p < 256 \<and> length (snd p) \<le> MAX_PAYLOAD"

definition ms_ready :: "mysql_stream \<Rightarrow> bool" where
  "ms_ready s \<longleftrightarrow> ms_ok s \<and> ms_write s = Write_head \<and> ms_head_left s = 4"

definition ms_payload :: "mysql_stream \<Rightarrow> bytes" where
  "ms_payload s = take (ms_length s) (ms_buf s)"

lemma packet_head_value:
  assumes "len \<le> MAX_PAYLOAD"
  shows "uchar (packet_head sq len ! 2) * 65536 + uchar (packet_head sq len ! 1) * 256 + uchar (packet_head sq len ! 0) = len"
proof -
  have "len div 65536 < 256" using assms by (simp add: div_less_iff_less_mult)
  moreover have "len div 65536 * 65536 + len div 256 mod 256 * 256 + len mod 256 = len"
  proof -
    have "len div 256 div 256 = len div 65536" by (simp add: div_mult2_eq [symmetric])
    then show ?thesis using div_mult_mod_eq [of len 256] div_mult_mod_eq [of "len div 256" 256] by linarith
  qed
  moreover have "uchar (char_of n) = n mod 256" for n :: nat by (simp add: uchar_def)
  ultimately show ?thesis by (simp add: packet_head_def numeral_2_eq_2)
qed

lemma ms_grow_payload:
  "ms_grow s m = (b, t, m') \<Longrightarrow> length (ms_buf s) = ms_bufsize s \<Longrightarrow> ms_length s \<le> ms_bufsize s \<Longrightarrow>
   take (ms_length s) (ms_buf t) = take (ms_length s) (ms_buf s) \<and> ms_sequence_id t = ms_sequence_id s"
  by (auto simp: ms_grow_def Let_def split: if_splits prod.splits bool.splits)

lemma write_full_packet:
  assumes s: "ms_ready s" and p: "packet_ok p" "snd p \<noteq> []"
  obtains t where "mysql_stream_write (packet_bytes p) s [] = (if length (snd p) \<noteq> MAX_PAYLOAD then 1 else 0, t, [])"
    "ms_ready t" "ms_payload t = ms_payload s @ snd p" "ms_sequence_id t = fst p"
proof -
  let ?L = "length (snd p)" and ?H = "packet_head (fst p) (length (snd p))"
  define s1 where "s1 = s\<lparr>ms_head := ?H, ms_payload_length := ?L, ms_payload_left := ?L, ms_sequence_id := fst p\<rparr>"
  obtain s2 where g: "ms_grow s1 [] = (True, s2, [])" using ms_grow_Nil by blast
  have H: "overwrite (ms_head s) 0 (take 4 (packet_bytes p)) = ?H"
    using s by (simp add: packet_bytes_def packet_head_def overwrite_def ms_ready_def ms_ok_def)
  have len: "length (packet_bytes p) = 4 + ?L" by (simp add: packet_bytes_def packet_head_def)
  have v: "uchar (?H ! 2) * 65536 + uchar (?H ! 1) * 256 + uchar (?H ! 0) = ?L" "uchar (?H ! 3) = fst p"
    using p packet_head_value [of ?L "fst p"] by (simp_all add: packet_ok_def packet_head_def numeral_3_eq_3)
  have c: "ms_call (packet_bytes p) s [] = (0, 4, s2\<lparr>ms_write := Write_payload\<rparr>, [])"
    using s g ms_grow_frame [OF g] len H v
    by (simp add: ms_call_def mysql_stream_write_head_def ms_head_done_def Let_def ms_ready_def s1_def)
  define u where "u = s2\<lparr>ms_write := Write_payload\<rparr>"
  have u: "ms_payload_left u = ?L" "ms_payload_length u = ?L" "ms_length u = ms_length s" "ms_write u = Write_payload"
      "ms_head_left u = 4"
    using ms_grow_frame [OF g] s by (simp_all add: u_def s1_def ms_ready_def)
  have ub: "take (ms_length s) (ms_buf u) = ms_payload s" "ms_sequence_id u = fst p"
    using ms_grow_payload [OF g] s by (simp_all add: u_def s1_def ms_payload_def ms_ready_def ms_ok_def)
  have uok: "ms_ok u" using ms_call_ok [OF c] s by (simp add: u_def ms_ready_def)
  define t where "t = u\<lparr>ms_buf := overwrite (ms_buf u) (ms_length u) (snd p), ms_length := ms_length u + ?L,
      ms_head_left := 4, ms_write := Write_head\<rparr>"
  have c2: "ms_call (snd p) u [] = (if ?L \<noteq> MAX_PAYLOAD then 1 else 0, ?L, t, [])"
    using u by (simp add: ms_call_def mysql_stream_write_payload_def Let_def t_def)
  have "mysql_stream_write (packet_bytes p) s [] = mysql_stream_write (snd p) u []"
    using c len p s by (subst mysql_stream_write.simps)
      (simp add: ms_ready_def packet_ok_def packet_bytes_def packet_head_def u_def)
  also have "\<dots> = (if ?L \<noteq> MAX_PAYLOAD then 1 else 0, t, [])"
    using c2 u by (subst mysql_stream_write.simps) simp
  finally have "mysql_stream_write (packet_bytes p) s [] = (if ?L \<noteq> MAX_PAYLOAD then 1 else 0, t, [])" .
  moreover have "ms_ready t" using ms_call_ok [OF c2 uok] by (simp add: ms_ready_def t_def)
  moreover have "ms_payload t = ms_payload s @ snd p"
    using u(3,1,4) uok ub(1) by (simp add: t_def ms_ok_def ms_payload_def)
  moreover have "ms_sequence_id t = fst p" using ub(2) by (simp add: t_def)
  ultimately show ?thesis using that by blast
qed

text \<open>Between two packets: a head is awaited, or, after an empty packet, the end of its payload has
  not been noticed. The next byte makes up for it.\<close>

definition ms_rest :: "mysql_stream \<Rightarrow> bool" where
  "ms_rest s \<longleftrightarrow> ms_ok s \<and> (ms_ready s \<or> ms_write s = Write_payload \<and> ms_payload_left s = 0)"

definition reported :: "nat \<times> bytes \<Rightarrow> int" where
  "reported p = (if snd p \<noteq> [] \<and> length (snd p) \<noteq> MAX_PAYLOAD then 1 else 0)"

lemma rest_ready:
  assumes "ms_rest s" "b \<noteq> []"
  obtains t where "mysql_stream_write b s [] = mysql_stream_write b t []" "ms_ready t" "ms_payload t = ms_payload s"
proof (cases "ms_ready s")
  case False
  let ?t = "s\<lparr>ms_head_left := 4, ms_write := Write_head\<rparr>"
  have w: "ms_write s = Write_payload" "ms_payload_left s = 0" "ms_ok s" using False assms(1) by (simp_all add: ms_rest_def)
  then obtain r where "ms_call b s [] = (r, 0, ?t, [])"
    by (cases s) (auto simp: ms_call_def mysql_stream_write_payload_def Let_def overwrite_def)
  then have "mysql_stream_write b s [] = mysql_stream_write b ?t []"
    using assms(2) w(3) by (subst mysql_stream_write.simps) (simp add: ms_ok_def)
  moreover have "ms_ready ?t" using w(3) by (simp add: ms_ready_def ms_ok_def)
  ultimately show ?thesis using that by (simp add: ms_payload_def)
qed (use that in blast)

lemma write_empty_packet:
  assumes s: "ms_ready s" and p: "packet_ok p" "snd p = []"
  obtains t where "mysql_stream_write (packet_bytes p) s [] = (0, t, [])" "ms_rest t" "ms_payload t = ms_payload s" "ms_sequence_id t = fst p"
proof -
  let ?H = "packet_head (fst p) 0"
  define s1 where "s1 = s\<lparr>ms_head := ?H, ms_payload_length := 0, ms_payload_left := 0, ms_sequence_id := fst p\<rparr>"
  obtain s2 where g: "ms_grow s1 [] = (True, s2, [])" using ms_grow_Nil by blast
  have H: "overwrite (ms_head s) 0 (take 4 (packet_bytes p)) = ?H"
    using s p(2) by (simp add: packet_bytes_def packet_head_def overwrite_def ms_ready_def ms_ok_def)
  have len: "length (packet_bytes p) = 4" using p(2) by (simp add: packet_bytes_def packet_head_def)
  have v: "uchar (?H ! 2) * 65536 + uchar (?H ! 1) * 256 + uchar (?H ! 0) = 0" "uchar (?H ! 3) = fst p"
    using p packet_head_value [of 0 "fst p"] by (simp_all add: packet_ok_def packet_head_def numeral_3_eq_3)
  define t where "t = s2\<lparr>ms_write := Write_payload\<rparr>"
  have c: "ms_call (packet_bytes p) s [] = (0, 4, t, [])"
    using s g ms_grow_frame [OF g] len H v
    by (simp add: ms_call_def mysql_stream_write_head_def ms_head_done_def Let_def ms_ready_def s1_def t_def)
  have "mysql_stream_write (packet_bytes p) s [] = (0, t, [])"
    using c len s by (subst mysql_stream_write.simps) (simp add: ms_ready_def)
  moreover have "ms_rest t"
    using ms_call_ok [OF c] s ms_grow_frame [OF g] by (simp add: ms_rest_def ms_ready_def t_def s1_def)
  moreover have "ms_payload t = ms_payload s" "ms_sequence_id t = fst p"
    using ms_grow_payload [OF g] ms_grow_frame [OF g] s by (simp_all add: t_def s1_def ms_payload_def ms_ready_def ms_ok_def)
  ultimately show ?thesis using that by blast
qed

lemma write_packet:
  assumes s: "ms_rest s" and p: "packet_ok p"
  obtains t where "mysql_stream_write (packet_bytes p) s [] = (reported p, t, [])"
    "ms_rest t" "snd p \<noteq> [] \<longrightarrow> ms_ready t" "ms_payload t = ms_payload s @ snd p" "ms_sequence_id t = fst p"
proof -
  have "packet_bytes p \<noteq> []" by (simp add: packet_bytes_def packet_head_def)
  from rest_ready [OF s this] obtain u where u: "mysql_stream_write (packet_bytes p) s [] = mysql_stream_write (packet_bytes p) u []"
    "ms_ready u" "ms_payload u = ms_payload s" by blast
  show ?thesis
  proof (cases "snd p = []")
    case True
    from write_empty_packet [OF u(2) p True] show ?thesis using that u True by (auto simp: reported_def)
  next
    case False
    from write_full_packet [OF u(2) p False] obtain t where
      t: "mysql_stream_write (packet_bytes p) u [] = (if length (snd p) \<noteq> MAX_PAYLOAD then 1 else 0, t, [])"
      "ms_ready t" "ms_payload t = ms_payload u @ snd p" "ms_sequence_id t = fst p" by blast
    then have "mysql_stream_write (packet_bytes p) s [] = (reported p, t, [])" "ms_rest t" using u False by (auto simp: reported_def ms_rest_def ms_ready_def)
    with that t u show ?thesis by simp
  qed
qed

lemma ms_view_rest:
  assumes "ms_view s = ms_view t" "ms_rest t" "ms_ok s"
  shows "ms_rest s \<and> (ms_ready t \<longrightarrow> ms_ready s) \<and> ms_payload s = ms_payload t \<and> ms_sequence_id s = ms_sequence_id t"
proof (cases "ms_write t")
  case Write_head
  then have "ms_write s = Write_head" "s\<lparr>ms_payload_left := 0\<rparr> = t\<lparr>ms_payload_left := 0\<rparr>"
    using assms(1) by (auto simp: ms_view_def split: if_splits dest: arg_cong [of _ _ ms_write])
  moreover from arg_cong [OF this(2), of "\<lambda>x. (ms_head_left x, ms_buf x, ms_length x, ms_sequence_id x)"]
  have "ms_head_left s = ms_head_left t" "ms_buf s = ms_buf t" "ms_length s = ms_length t" "ms_sequence_id s = ms_sequence_id t" by auto
  ultimately show ?thesis using assms(2,3) Write_head by (auto simp: ms_rest_def ms_ready_def ms_payload_def)
next
  case Write_payload
  then have "ms_write s = Write_payload" "s\<lparr>ms_head_left := 4\<rparr> = t\<lparr>ms_head_left := 4\<rparr>"
    using assms(1) by (auto simp: ms_view_def split: if_splits dest: arg_cong [of _ _ ms_write])
  moreover from arg_cong [OF this(2), of "\<lambda>x. (ms_payload_left x, ms_buf x, ms_length x, ms_sequence_id x)"]
  have "ms_payload_left s = ms_payload_left t" "ms_buf s = ms_buf t" "ms_length s = ms_length t" "ms_sequence_id s = ms_sequence_id t" by auto
  ultimately show ?thesis using assms(2,3) Write_payload by (auto simp: ms_rest_def ms_ready_def ms_payload_def)
qed

lemma write_packets:
  assumes "ms_rest s" "ps \<noteq> []" "\<forall>p \<in> set ps. packet_ok p"
  shows "\<exists>t. mysql_stream_write (concat (map packet_bytes ps)) s [] = (reported (last ps), t, []) \<and>
    ms_rest t \<and> (snd (last ps) \<noteq> [] \<longrightarrow> ms_ready t) \<and> ms_payload t = ms_payload s @ concat (map snd ps) \<and> ms_sequence_id t = fst (last ps)"
  using assms
proof (induction ps arbitrary: s)
  case (Cons p ps)
  obtain t where t: "mysql_stream_write (packet_bytes p) s [] = (reported p, t, [])"
    "ms_rest t" "snd p \<noteq> [] \<longrightarrow> ms_ready t" "ms_payload t = ms_payload s @ snd p" "ms_sequence_id t = fst p"
    using write_packet [of s p] Cons.prems by auto
  show ?case
  proof (cases "ps = []")
    case True
    with t show ?thesis by auto
  next
    case False
    then obtain u where u: "mysql_stream_write (concat (map packet_bytes ps)) t [] = (reported (last ps), u, [])"
      "ms_rest u" "snd (last ps) \<noteq> [] \<longrightarrow> ms_ready u" "ms_payload u = ms_payload t @ concat (map snd ps)" "ms_sequence_id u = fst (last ps)"
      using Cons.IH [OF t(2)] Cons.prems by auto
    have ne: "concat (map packet_bytes ps) \<noteq> []" using False by (cases ps) (auto simp: packet_bytes_def packet_head_def)
    have ok: "ms_ok s" using Cons.prems(1) by (simp add: ms_rest_def)
    obtain v where v: "mysql_stream_write (packet_bytes p @ concat (map packet_bytes ps)) s [] = (reported (last ps), v, [])" "ms_view v = ms_view u"
      using mysql_stream_write_split [OF ok ne t(1) u(1)] by auto
    have "ms_ok v" using mysql_stream_write_ok [OF v(1) ok] .
    from ms_view_rest [OF v(2) u(2) this] u v t(4) False show ?thesis by auto
  qed
qed simp

text \<open>C24: Reassembly. A sequence of packets, empty ones included, written in one call to a fresh stream,
  is collected payload after payload, and the sequence number is that of the last packet. The call
  reports a complete message exactly when the last packet is shorter than the maximal size and not
  empty: the empty packet that closes a message of a multiple of the maximal size goes unreported.\<close>

theorem mysql_stream_reassembles:
  assumes "ps \<noteq> []" "\<forall>p \<in> set ps. packet_ok p" "length (ms_head s0) = 4"
  shows "\<exists>t. mysql_stream_write (concat (map packet_bytes ps)) (mysql_stream_init s0) [] =
      (if snd (last ps) \<noteq> [] \<and> length (snd (last ps)) \<noteq> MAX_PAYLOAD then 1 else 0, t, []) \<and>
    ms_payload t = concat (map snd ps) \<and> ms_sequence_id t = fst (last ps) \<and> (snd (last ps) \<noteq> [] \<longrightarrow> ms_ready t)"
proof -
  have "ms_rest (mysql_stream_init s0)" "ms_payload (mysql_stream_init s0) = []"
    using assms(3) by (simp_all add: ms_rest_def ms_ready_def ms_ok_def mysql_stream_init_def ms_payload_def)
  with write_packets [OF _ assms(1,2)] show ?thesis by (fastforce simp: reported_def)
qed

definition blank_stream :: mysql_stream where
  "blank_stream = \<lparr>ms_head = replicate 4 NUL, ms_head_left = 0, ms_sequence_id = 0, ms_payload_length = 0,
     ms_payload_left = 0, ms_buf = [], ms_length = 0, ms_bufsize = 0, ms_write = Write_head\<rparr>"

theorem mysql_stream_reassembles_witness:
  "\<exists>t. mysql_stream_write (packet_bytes (0, ''ab'') @ packet_bytes (1, []) @ packet_bytes (2, ''c'')) (mysql_stream_init blank_stream) [] = (1, t, []) \<and>
     ms_payload t = ''abc'' \<and> ms_sequence_id t = 2"
  using mysql_stream_reassembles [of "[(0, ''ab''), (1, []), (2, ''c'')]" blank_stream]
  by (auto simp: packet_ok_def blank_stream_def)

text \<open>C25: Writes may be cut anywhere: writing the first part and then the rest gives the return
  code and the stream of one write, but for the two counters that are set anew before they are
  read.\<close>

theorem mysql_stream_cut:
  assumes "ms_ok s" "ys \<noteq> []" "mysql_stream_write xs s [] = (r, t, m)"
  shows "fst (mysql_stream_write (xs @ ys) s []) = fst (mysql_stream_write ys t m) \<and>
    ms_view (fst (snd (mysql_stream_write (xs @ ys) s []))) = ms_view (fst (snd (mysql_stream_write ys t m)))"
proof -
  obtain r' u where u: "mysql_stream_write ys t [] = (r', u, [])" by (rule mysql_stream_write_Nil)
  have m: "m = []" using assms(3) by (metis mysql_stream_write_Nil Pair_inject)
  with mysql_stream_write_split [OF assms(1,2) _ u] assms(3) u show ?thesis by fastforce
qed

theorem mysql_stream_cut_witness:
  "fst (mysql_stream_write (packet_bytes (0, ''ab'')) (mysql_stream_init blank_stream) []) =
   fst (mysql_stream_write (drop 3 (packet_bytes (0, ''ab'')))
     (fst (snd (mysql_stream_write (take 3 (packet_bytes (0, ''ab''))) (mysql_stream_init blank_stream) []))) [])"
proof -
  obtain r t where t: "mysql_stream_write (take 3 (packet_bytes (0, ''ab''))) (mysql_stream_init blank_stream) [] = (r, t, [])"
    by (rule mysql_stream_write_Nil)
  have "ms_ok (mysql_stream_init blank_stream)" by (simp add: ms_ok_def mysql_stream_init_def blank_stream_def)
  moreover have ne: "drop 3 (packet_bytes (0, ''ab'')) \<noteq> []" by (simp add: packet_bytes_def packet_head_def)
  ultimately have "fst (mysql_stream_write (take 3 (packet_bytes (0, ''ab'')) @ drop 3 (packet_bytes (0, ''ab''))) (mysql_stream_init blank_stream) []) =
      fst (mysql_stream_write (drop 3 (packet_bytes (0, ''ab''))) t [])"
    using mysql_stream_cut [OF _ ne t] by blast
  then show ?thesis using t by (simp only: append_take_drop_id fst_conv snd_conv)
qed

text \<open>The empty packet that closes a message whose size is a multiple of the maximal payload
  is not reported: the write that delivers it returns 0, as if the message went on.\<close>

theorem mysql_empty_packet_unreported:
  assumes "ms_ready s" "sq < 256"
  shows "fst (mysql_stream_write (packet_bytes (sq, [])) s []) = 0"
proof -
  let ?H = "overwrite (ms_head s) 0 (packet_bytes (sq, []))"
  have len: "length (packet_bytes (sq, [])) = 4" by (simp add: packet_bytes_def packet_head_def)
  obtain u where "ms_head_done 4 ?H s [] = (0, ms_head_left s, u, [])"
    using ms_head_done_left [where s = s] by blast
  then have "ms_call (packet_bytes (sq, [])) s [] = (0, 4, u, [])"
    using assms(1) len by (simp add: ms_call_def mysql_stream_write_head_def Let_def ms_ready_def)
  then show ?thesis using assms(1) len by (subst mysql_stream_write.simps) (simp add: ms_ready_def)
qed

theorem mysql_empty_packet_unreported_witness:
  "fst (mysql_stream_write (packet_bytes (1, [])) (mysql_stream_init blank_stream) []) = 0"
  by (rule mysql_empty_packet_unreported)
    (simp_all add: ms_ready_def ms_ok_def mysql_stream_init_def blank_stream_def)

end
