(* ===== verification/MysqlByteorder.thy ===== *)
theory MysqlByteorder
  imports Prelude
begin

text \<open>
  src/libnetwork/workflow/src/linux/protocol/mysql_byteorder.c: length-encoded integers and
  strings of the MySQL protocol. A pointer is an index into the memory object \<open>mem\<close> that holds
  the packet; \<open>end_pos\<close> is the index of the first byte after the packet, which may lie inside the
  object. A read outside the object has no defined result, which is \<open>None\<close> here. The sum
  \<open>*pos + length\<close> is taken in the natural numbers; a pointer sum that leaves the address space is
  not covered.
\<close>

definition korr :: "nat \<Rightarrow> bytes \<Rightarrow> nat \<Rightarrow> nat option" where
  "korr w mem p =
     (if p + w \<le> length mem then Some (\<Sum>i<w. uchar (mem ! (p + i)) * 256 ^ i) else None)"

abbreviation NULL_LENGTH :: nat where "NULL_LENGTH \<equiv> 2 ^ 64 - 1" \<comment> \<open>\<open>~0ULL\<close>\<close>

text \<open>The return value with the new \<open>*res\<close> and \<open>*pos\<close>.\<close>

definition decode_length_safe :: "bytes \<Rightarrow> nat \<Rightarrow> nat \<Rightarrow> (int \<times> nat \<times> nat) option" where
  "decode_length_safe mem p end_pos =
     (if p < length mem then
        (let c = uchar (mem ! p) in
         if c = 251 then Some (1, NULL_LENGTH, p + 1)
         else if c = 252 then
           (if p + 2 > end_pos then Some (0, 0, p) else map_option (\<lambda>v. (1, v, p + 3)) (korr 2 mem (p + 1)))
         else if c = 253 then
           (if p + 3 > end_pos then Some (0, 0, p) else map_option (\<lambda>v. (1, v, p + 4)) (korr 3 mem (p + 1)))
         else if c = 254 then
           (if p + 8 > end_pos then Some (0, 0, p) else map_option (\<lambda>v. (1, v, p + 9)) (korr 8 mem (p + 1)))
         else if c = 255 then Some (-1, 0, p)
         else Some (1, c, p + 1))
      else None)"

text \<open>The return value, the string (empty stands for the NULL pointer with length 0) and the new
  \<open>*pos\<close>.\<close>

definition decode_string :: "bytes \<Rightarrow> nat \<Rightarrow> nat \<Rightarrow> (int \<times> bytes \<times> nat) option" where
  "decode_string mem p end_pos =
     (case decode_length_safe mem p end_pos of
        None \<Rightarrow> None
      | Some (r, len, q) \<Rightarrow>
          if r \<le> 0 then Some (0, [], q)
          else if len = 0 \<or> len = NULL_LENGTH then Some (1, [], q)
          else if q + len > end_pos then Some (0, [], q)
          else Some (1, take len (drop q mem), q + len))"

section \<open>Encodings\<close>

definition le_bytes :: "nat \<Rightarrow> nat \<Rightarrow> bytes" where
  "le_bytes w n = map (\<lambda>i. char_of (n div 256 ^ i)) [0..<w]"

definition encode_length :: "nat \<Rightarrow> bytes" where
  "encode_length n =
     (if n < 251 then [char_of n]
      else if n < 2 ^ 16 then char_of (252::nat) # le_bytes 2 n
      else if n < 2 ^ 24 then char_of (253::nat) # le_bytes 3 n
      else char_of (254::nat) # le_bytes 8 n)"

lemma length_le_bytes [simp]: "length (le_bytes w n) = w"
  by (simp add: le_bytes_def)

lemma sum_le_digits: "(\<Sum>i<w. n div 256 ^ i mod 256 * 256 ^ i) = n mod 256 ^ w" for n :: nat
proof (induction w)
  case (Suc w)
  have "n mod 256 ^ Suc w = 256 ^ w * (n div 256 ^ w mod 256) + n mod 256 ^ w"
    by (metis mod_mult2_eq mult.commute power_Suc2)
  with Suc show ?case by (simp add: mult.commute)
qed simp

lemma korr_le_bytes: "n < 256 ^ w \<Longrightarrow> korr w (c # le_bytes w n @ rest) 1 = Some n"
  by (simp add: korr_def nth_append le_bytes_def uchar_def sum_le_digits)

lemma decode_encoded_length:
  assumes "n < 2 ^ 64" "length (encode_length n) \<le> end_pos"
  shows "decode_length_safe (encode_length n @ rest) 0 end_pos = Some (1, n, length (encode_length n))"
proof -
  consider "n < 251" | "251 \<le> n" "n < 2 ^ 16" | "2 ^ 16 \<le> n" "n < 2 ^ 24" | "2 ^ 24 \<le> n" by linarith
  then show ?thesis
  proof cases
    case 1
    then show ?thesis by (simp add: decode_length_safe_def encode_length_def uchar_def Let_def)
  next
    case 2
    then show ?thesis using assms(2) korr_le_bytes [of n 2 _ rest]
      by (simp add: decode_length_safe_def encode_length_def uchar_def Let_def)
  next
    case 3
    then show ?thesis using assms(2) korr_le_bytes [of n 3 _ rest]
      by (simp add: decode_length_safe_def encode_length_def uchar_def Let_def)
  next
    case 4
    then show ?thesis using assms korr_le_bytes [of n 8 _ rest]
      by (simp add: decode_length_safe_def encode_length_def uchar_def Let_def)
  qed
qed

text \<open>C37: Every length below 2^64 is decoded from its encoding, and the position moves just behind
  it.\<close>

theorem decode_length_roundtrip:
  assumes "n < 2 ^ 64" "length (encode_length n) \<le> end_pos"
  shows "decode_length_safe (encode_length n @ rest) 0 end_pos = Some (1, n, length (encode_length n))"
  using assms by (rule decode_encoded_length)

theorem decode_length_roundtrip_witness:
  "decode_length_safe (encode_length 70000 @ ''x'') 0 5 = Some (1, 70000, 4)"
  using decode_length_roundtrip [of 70000 5 "''x''"] by (simp add: encode_length_def)

text \<open>A string of less than 2^64 - 1 bytes is decoded from its length and its bytes.\<close>

theorem decode_string_roundtrip:
  assumes "length s < NULL_LENGTH" "length (encode_length (length s)) + length s \<le> end_pos"
  shows "decode_string (encode_length (length s) @ s @ rest) 0 end_pos =
    Some (1, s, length (encode_length (length s)) + length s)"
  using assms decode_encoded_length [of "length s" end_pos "s @ rest"] by (simp add: decode_string_def)

theorem decode_string_roundtrip_witness:
  "decode_string (encode_length (length ''ab'') @ ''ab'' @ ''x'') 0 3 =
   Some (1, ''ab'', length (encode_length (length ''ab'')) + length ''ab'')"
  by (rule decode_string_roundtrip) (simp_all add: encode_length_def)

text \<open>A decoded length never leaves the position more than one byte behind the end of the
  packet; that one byte is possible, because the tests for the 2-, 3- and 8-byte forms leave out
  the byte of the tag.\<close>

theorem decode_length_overrun:
  "(\<forall>mem p end_pos v q. p < end_pos \<and> decode_length_safe mem p end_pos = Some (1, v, q) \<longrightarrow> q \<le> end_pos + 1) \<and>
   decode_length_safe [char_of (252::nat), CHR ''a'', CHR ''b''] 0 2 = Some (1, 25185, 3)"
  by (auto simp: decode_length_safe_def korr_def Let_def uchar_def lessThan_Suc numeral_2_eq_2 split: if_splits)

theorem decode_length_overrun_witness:
  "\<exists>q. decode_length_safe [char_of (252::nat), CHR ''a'', CHR ''b''] 0 2 = Some (1, 25185, q) \<and> q \<le> 2 + 1 \<and> 2 < q"
  using decode_length_overrun by (intro exI [of _ 3]) simp

end
