(* ===== verification/Msgqueue.thy ===== *)
theory Msgqueue
  imports Prelude
begin

text \<open>
  src/libnetwork/workflow/src/linux/kernel/msgqueue.c, the message queue between threads.

  The two lists are linked through the messages themselves. A message is a number; a location
  that holds a link is one of the two heads of the queue or the link field of a message, and
  \<open>mq_mem\<close> is the contents of these locations. Threads are numbers with a program counter, and
  the step relation interleaves the atomic actions between lock operations in any order. A
  \<open>pthread_cond_wait\<close> releases the mutex and comes back to take it again; the wait may end at
  any time, so signals need no state (this admits spurious wake-ups, which POSIX allows; that a
  waiting thread is woken at all is not claimed).

  \<open>mq_puts\<close> and \<open>mq_gets\<close> record the messages in the order in which they were linked in and taken
  out.
\<close>

section \<open>State and atomic actions\<close>

type_synonym msg = nat
type_synonym tid = nat

datatype loc = Head1 | Head2 | Link msg

datatype pc =
    Idle
  | Put_enter msg      \<comment> \<open>before \<open>lock (put_mutex)\<close>, or waiting on \<open>put_cond\<close>\<close>
  | Put_locked msg
  | Put_linked         \<comment> \<open>before \<open>unlock (put_mutex)\<close>\<close>
  | Get_locked         \<comment> \<open>holds \<open>get_mutex\<close>\<close>
  | Swap_enter loc     \<comment> \<open>\<open>__msgqueue_swap\<close> with the old \<open>get_head\<close>, before \<open>lock (put_mutex)\<close>\<close>
  | Swap_locked loc
  | Swap_done nat      \<comment> \<open>before \<open>unlock (put_mutex)\<close>, with the count to return\<close>
  | Get_take
  | Get_unlock         \<comment> \<open>before \<open>unlock (get_mutex)\<close>\<close>

record msgqueue =
  mq_msg_max :: nat
  mq_msg_cnt :: nat
  mq_nonblock :: bool
  mq_mem :: "loc \<Rightarrow> msg option"
  mq_get_head :: loc
  mq_put_head :: loc
  mq_put_tail :: loc
  mq_get_mutex :: "tid option"
  mq_put_mutex :: "tid option"
  mq_pc :: "tid \<Rightarrow> pc"
  mq_puts :: "msg list"
  mq_gets :: "msg list"

text \<open>\<open>queue->msg_cnt > queue->msg_max - 1\<close> on \<open>size_t\<close>: for \<open>msg_max = 0\<close> the difference wraps to the
  largest value.\<close>

definition queue_full :: "msgqueue \<Rightarrow> bool" where
  "queue_full q \<longleftrightarrow> mq_msg_cnt q > (if mq_msg_max q = 0 then 2 ^ 64 - 1 else mq_msg_max q - 1)"

definition link_in :: "msg \<Rightarrow> msgqueue \<Rightarrow> msgqueue" where
  "link_in x q = q\<lparr>mq_mem := (mq_mem q)(mq_put_tail q := Some x), mq_put_tail := Link x,
     mq_msg_cnt := mq_msg_cnt q + 1, mq_puts := mq_puts q @ [x]\<rparr>"

definition swap_lists :: "loc \<Rightarrow> msgqueue \<Rightarrow> msgqueue" where
  "swap_lists old_get q = q\<lparr>mq_put_head := old_get, mq_put_tail := old_get, mq_msg_cnt := 0\<rparr>"

definition take_out :: "msgqueue \<Rightarrow> msgqueue" where
  "take_out q = (case mq_mem q (mq_get_head q) of
     None \<Rightarrow> q
   | Some x \<Rightarrow> q\<lparr>mq_mem := (mq_mem q)(mq_get_head q := mq_mem q (Link x)), mq_gets := mq_gets q @ [x]\<rparr>)"

definition goto :: "tid \<Rightarrow> pc \<Rightarrow> msgqueue \<Rightarrow> msgqueue" where
  "goto t c q = q\<lparr>mq_pc := (mq_pc q)(t := c)\<rparr>"

definition msgqueue_create :: "nat \<Rightarrow> msgqueue" where
  "msgqueue_create maxlen = \<lparr>mq_msg_max = maxlen, mq_msg_cnt = 0, mq_nonblock = False, mq_mem = (\<lambda>_. None),
     mq_get_head = Head1, mq_put_head = Head2, mq_put_tail = Head2, mq_get_mutex = None, mq_put_mutex = None,
     mq_pc = (\<lambda>_. Idle), mq_puts = [], mq_gets = []\<rparr>"

text \<open>A client puts a message only while nobody else is putting it and it is not in the queue: a
  message object is in one place at a time.\<close>

definition message_free :: "msg \<Rightarrow> msgqueue \<Rightarrow> bool" where
  "message_free x q \<longleftrightarrow> (\<forall>t. mq_pc q t \<noteq> Put_enter x \<and> mq_pc q t \<noteq> Put_locked x) \<and>
     x \<notin> set (drop (length (mq_gets q)) (mq_puts q))"

section \<open>Steps\<close>

inductive mq_step :: "msgqueue \<Rightarrow> msgqueue \<Rightarrow> bool" where
  put_enter: "mq_pc q t = Idle \<Longrightarrow> message_free x q \<Longrightarrow>
    mq_step q (goto t (Put_enter x) (q\<lparr>mq_mem := (mq_mem q)(Link x := None)\<rparr>))"
| put_lock: "mq_pc q t = Put_enter x \<Longrightarrow> mq_put_mutex q = None \<Longrightarrow>
    mq_step q (goto t (Put_locked x) (q\<lparr>mq_put_mutex := Some t\<rparr>))"
| put_wait: "mq_pc q t = Put_locked x \<Longrightarrow> queue_full q \<Longrightarrow> \<not> mq_nonblock q \<Longrightarrow>
    mq_step q (goto t (Put_enter x) (q\<lparr>mq_put_mutex := None\<rparr>))"
| put_link: "mq_pc q t = Put_locked x \<Longrightarrow> \<not> (queue_full q \<and> \<not> mq_nonblock q) \<Longrightarrow>
    mq_step q (goto t Put_linked (link_in x q))"
| put_unlock: "mq_pc q t = Put_linked \<Longrightarrow> mq_step q (goto t Idle (q\<lparr>mq_put_mutex := None\<rparr>))"
| get_lock: "mq_pc q t = Idle \<Longrightarrow> mq_get_mutex q = None \<Longrightarrow>
    mq_step q (goto t Get_locked (q\<lparr>mq_get_mutex := Some t\<rparr>))"
| get_nonempty: "mq_pc q t = Get_locked \<Longrightarrow> mq_mem q (mq_get_head q) \<noteq> None \<Longrightarrow> mq_step q (goto t Get_take q)"
| get_swap: "mq_pc q t = Get_locked \<Longrightarrow> mq_mem q (mq_get_head q) = None \<Longrightarrow>
    mq_step q (goto t (Swap_enter (mq_get_head q)) (q\<lparr>mq_get_head := mq_put_head q\<rparr>))"
| swap_lock: "mq_pc q t = Swap_enter l \<Longrightarrow> mq_put_mutex q = None \<Longrightarrow>
    mq_step q (goto t (Swap_locked l) (q\<lparr>mq_put_mutex := Some t\<rparr>))"
| swap_wait: "mq_pc q t = Swap_locked l \<Longrightarrow> mq_msg_cnt q = 0 \<Longrightarrow> \<not> mq_nonblock q \<Longrightarrow>
    mq_step q (goto t (Swap_enter l) (q\<lparr>mq_put_mutex := None\<rparr>))"
| swap_do: "mq_pc q t = Swap_locked l \<Longrightarrow> \<not> (mq_msg_cnt q = 0 \<and> \<not> mq_nonblock q) \<Longrightarrow>
    mq_step q (goto t (Swap_done (mq_msg_cnt q)) (swap_lists l q))"
| swap_unlock: "mq_pc q t = Swap_done n \<Longrightarrow>
    mq_step q (goto t (if n > 0 then Get_take else Get_unlock) (q\<lparr>mq_put_mutex := None\<rparr>))"
| get_take: "mq_pc q t = Get_take \<Longrightarrow> mq_step q (goto t Get_unlock (take_out q))"
| get_unlock: "mq_pc q t = Get_unlock \<Longrightarrow> mq_step q (goto t Idle (q\<lparr>mq_get_mutex := None\<rparr>))"
| set_nonblock: "mq_step q (q\<lparr>mq_nonblock := b\<rparr>)"

abbreviation mq_reachable :: "nat \<Rightarrow> msgqueue \<Rightarrow> bool" where
  "mq_reachable maxlen q \<equiv> mq_step\<^sup>*\<^sup>* (msgqueue_create maxlen) q"

section \<open>The invariant\<close>

text \<open>The messages linked from a location, ending at a location that holds NULL.\<close>

primrec chain :: "(loc \<Rightarrow> msg option) \<Rightarrow> loc \<Rightarrow> msg list \<Rightarrow> bool" where
  "chain mem l [] \<longleftrightarrow> mem l = None"
| "chain mem l (x # xs) \<longleftrightarrow> mem l = Some x \<and> chain mem (Link x) xs"

definition last_loc :: "loc \<Rightarrow> msg list \<Rightarrow> loc" where
  "last_loc l xs = (if xs = [] then l else Link (last xs))"

definition is_head :: "loc \<Rightarrow> bool" where
  "is_head l \<longleftrightarrow> l = Head1 \<or> l = Head2"

definition in_put :: "pc \<Rightarrow> bool" where
  "in_put c \<longleftrightarrow> (case c of Put_locked _ \<Rightarrow> True | Put_linked \<Rightarrow> True | Swap_locked _ \<Rightarrow> True | Swap_done _ \<Rightarrow> True | _ \<Rightarrow> False)"

definition in_get :: "pc \<Rightarrow> bool" where
  "in_get c \<longleftrightarrow> (case c of Get_locked \<Rightarrow> True | Swap_enter _ \<Rightarrow> True | Swap_locked _ \<Rightarrow> True | Swap_done _ \<Rightarrow> True
     | Get_take \<Rightarrow> True | Get_unlock \<Rightarrow> True | _ \<Rightarrow> False)"

definition putting :: "pc \<Rightarrow> msg \<Rightarrow> bool" where
  "putting c x \<longleftrightarrow> c = Put_enter x \<or> c = Put_locked x"

definition swapping :: "pc \<Rightarrow> loc \<Rightarrow> bool" where
  "swapping c l \<longleftrightarrow> c = Swap_enter l \<or> c = Swap_locked l"

text \<open>\<open>gs\<close> are the messages of the get list, \<open>ps\<close> those of the put list.\<close>

definition mq_lists :: "msgqueue \<Rightarrow> msg list \<Rightarrow> msg list \<Rightarrow> bool" where
  "mq_lists q gs ps \<longleftrightarrow>
     mq_puts q = mq_gets q @ gs @ ps \<and> distinct (gs @ ps) \<and>
     chain (mq_mem q) (mq_put_head q) ps \<and> mq_put_tail q = last_loc (mq_put_head q) ps \<and>
     mq_msg_cnt q = length ps \<and> is_head (mq_get_head q) \<and> is_head (mq_put_head q) \<and>
     (if \<exists>t l. swapping (mq_pc q t) l
      then gs = [] \<and> mq_get_head q = mq_put_head q
      else chain (mq_mem q) (mq_get_head q) gs \<and> mq_get_head q \<noteq> mq_put_head q)"

definition mq_threads :: "msgqueue \<Rightarrow> msg list \<Rightarrow> msg list \<Rightarrow> bool" where
  "mq_threads q gs ps \<longleftrightarrow>
     (\<forall>t. in_put (mq_pc q t) \<longleftrightarrow> mq_put_mutex q = Some t) \<and>
     (\<forall>t. in_get (mq_pc q t) \<longleftrightarrow> mq_get_mutex q = Some t) \<and>
     (\<forall>t x. putting (mq_pc q t) x \<longrightarrow> x \<notin> set (gs @ ps) \<and> mq_mem q (Link x) = None) \<and>
     (\<forall>t u x. putting (mq_pc q t) x \<and> putting (mq_pc q u) x \<longrightarrow> t = u) \<and>
     (\<forall>t l. swapping (mq_pc q t) l \<longrightarrow> is_head l \<and> l \<noteq> mq_put_head q \<and> mq_mem q l = None) \<and>
     (\<forall>t. mq_pc q t = Get_take \<longrightarrow> gs \<noteq> []) \<and>
     (\<forall>t n. mq_pc q t = Swap_done n \<longrightarrow> n = length gs)"

definition mq_inv :: "msgqueue \<Rightarrow> bool" where
  "mq_inv q \<longleftrightarrow> (\<exists>gs ps. mq_lists q gs ps \<and> mq_threads q gs ps)"

lemma chain_cong:
  "chain mem l xs \<Longrightarrow> mem' l = mem l \<Longrightarrow> (\<And>x. x \<in> set xs \<Longrightarrow> mem' (Link x) = mem (Link x)) \<Longrightarrow> chain mem' l xs"
  by (induction xs arbitrary: l) auto

lemma chain_end: "chain mem l xs \<Longrightarrow> mem (last_loc l xs) = None"
  by (induction xs arbitrary: l) (auto simp: last_loc_def split: if_splits)

lemma last_loc_snoc [simp]: "last_loc l (xs @ [x]) = Link x"
  by (simp add: last_loc_def)

lemma chain_snoc:
  "chain mem l xs \<Longrightarrow> distinct xs \<Longrightarrow> x \<notin> set xs \<Longrightarrow> mem (Link x) = None \<Longrightarrow> (\<forall>y \<in> insert x (set xs). l \<noteq> Link y) \<Longrightarrow>
   chain (mem(last_loc l xs := Some x)) l (xs @ [x])"
proof (induction xs arbitrary: l)
  case Nil
  then show ?case by (simp add: last_loc_def)
next
  case (Cons y ys)
  then have "chain (mem(last_loc (Link y) ys := Some x)) (Link y) (ys @ [x])"
    by (intro Cons.IH) auto
  moreover have "last_loc (Link y) ys = last_loc l (y # ys)" by (simp add: last_loc_def)
  moreover have "last_loc l (y # ys) \<noteq> l" using Cons.prems(5) by (auto simp: last_loc_def)
  ultimately show ?case using Cons.prems(1) by (simp add: fun_upd_def)
qed

lemma Link_not_head [simp]: "\<not> is_head (Link x)"
  by (simp add: is_head_def)

lemma head_not_Link: "is_head l \<Longrightarrow> l \<noteq> Link x"
  by (auto simp: is_head_def)

lemma last_loc_cases: "last_loc l xs = l \<and> xs = [] \<or> (\<exists>y \<in> set xs. last_loc l xs = Link y)"
  by (auto simp: last_loc_def)

lemma pc_simps [simp]:
  "in_put Idle = False" "in_put (Put_enter x) = False" "in_put (Put_locked x) = True" "in_put Put_linked = True"
  "in_put Get_locked = False" "in_put (Swap_enter l) = False" "in_put (Swap_locked l) = True" "in_put (Swap_done n) = True"
  "in_put Get_take = False" "in_put Get_unlock = False"
  "in_get Idle = False" "in_get (Put_enter x) = False" "in_get (Put_locked x) = False" "in_get Put_linked = False"
  "in_get Get_locked = True" "in_get (Swap_enter l) = True" "in_get (Swap_locked l) = True" "in_get (Swap_done n) = True"
  "in_get Get_take = True" "in_get Get_unlock = True"
  "putting Idle y = False" "putting (Put_enter x) y = (y = x)" "putting (Put_locked x) y = (y = x)" "putting Put_linked y = False"
  "putting Get_locked y = False" "putting (Swap_enter l) y = False" "putting (Swap_locked l) y = False"
  "putting (Swap_done n) y = False" "putting Get_take y = False" "putting Get_unlock y = False"
  "swapping Idle k = False" "swapping (Put_enter x) k = False" "swapping (Put_locked x) k = False" "swapping Put_linked k = False"
  "swapping Get_locked k = False" "swapping (Swap_enter l) k = (k = l)" "swapping (Swap_locked l) k = (k = l)"
  "swapping (Swap_done n) k = False" "swapping Get_take k = False" "swapping Get_unlock k = False"
  by (auto simp: in_put_def in_get_def putting_def swapping_def)

lemma swapping_in_get: "swapping c l \<Longrightarrow> in_get c"
  by (auto simp: swapping_def)

lemma swapping_cong:
  "(\<And>l. swapping c l \<longleftrightarrow> swapping (f t) l) \<Longrightarrow> (\<exists>u l. swapping ((f(t := c)) u) l) = (\<exists>u l. swapping (f u) l)"
  by (metis fun_upd_apply)

lemma mq_threadsI:
  assumes old: "mq_threads q gs ps" and pc': "mq_pc q' = (mq_pc q)(t := c)"
    and "in_put c = (mq_put_mutex q' = Some t)" "\<And>u. u \<noteq> t \<Longrightarrow> (mq_put_mutex q' = Some u) = (mq_put_mutex q = Some u)"
    and "in_get c = (mq_get_mutex q' = Some t)" "\<And>u. u \<noteq> t \<Longrightarrow> (mq_get_mutex q' = Some u) = (mq_get_mutex q = Some u)"
    and "\<And>u x. u \<noteq> t \<Longrightarrow> putting (mq_pc q u) x \<Longrightarrow> x \<notin> set (gs' @ ps') \<and> mq_mem q' (Link x) = None \<and> \<not> putting c x"
    and "\<And>x. putting c x \<Longrightarrow> x \<notin> set (gs' @ ps') \<and> mq_mem q' (Link x) = None"
    and "\<And>u l. u \<noteq> t \<Longrightarrow> swapping (mq_pc q u) l \<Longrightarrow> is_head l \<and> l \<noteq> mq_put_head q' \<and> mq_mem q' l = None"
    and "\<And>l. swapping c l \<Longrightarrow> is_head l \<and> l \<noteq> mq_put_head q' \<and> mq_mem q' l = None"
    and "\<And>u. u \<noteq> t \<Longrightarrow> mq_pc q u = Get_take \<Longrightarrow> gs' \<noteq> []" "c = Get_take \<Longrightarrow> gs' \<noteq> []"
    and "\<And>u n. u \<noteq> t \<Longrightarrow> mq_pc q u = Swap_done n \<Longrightarrow> n = length gs'" "\<And>n. c = Swap_done n \<Longrightarrow> n = length gs'"
  shows "mq_threads q' gs' ps'"
proof -
  have un: "putting (mq_pc q u) x \<and> putting (mq_pc q v) x \<Longrightarrow> u = v" for u v x
    using old unfolding mq_threads_def by blast
  have l1: "in_put (mq_pc q u) \<longleftrightarrow> mq_put_mutex q = Some u" "in_get (mq_pc q u) \<longleftrightarrow> mq_get_mutex q = Some u" for u
    using old by (auto simp: mq_threads_def)
  show ?thesis unfolding mq_threads_def pc' fun_upd_apply
    using assms(3-) un l1 by (intro conjI allI impI; (simp split: if_splits; blast)?)
qed

lemma mq_threadsD:
  assumes "mq_threads q gs ps"
  shows "in_put (mq_pc q u) \<Longrightarrow> mq_put_mutex q = Some u" "in_get (mq_pc q u) \<Longrightarrow> mq_get_mutex q = Some u"
    "putting (mq_pc q u) x \<Longrightarrow> x \<notin> set (gs @ ps) \<and> mq_mem q (Link x) = None"
    "putting (mq_pc q u) x \<Longrightarrow> putting (mq_pc q v) x \<Longrightarrow> u = v"
    "swapping (mq_pc q u) l \<Longrightarrow> is_head l \<and> l \<noteq> mq_put_head q \<and> mq_mem q l = None"
    "mq_pc q u = Get_take \<Longrightarrow> gs \<noteq> []" "mq_pc q u = Swap_done n \<Longrightarrow> n = length gs"
    "mq_put_mutex q = Some u \<Longrightarrow> in_put (mq_pc q u)" "mq_get_mutex q = Some u \<Longrightarrow> in_get (mq_pc q u)"
  using assms unfolding mq_threads_def by blast+

lemma in_get_unique: "mq_threads q gs ps \<Longrightarrow> in_get (mq_pc q u) \<Longrightarrow> in_get (mq_pc q v) \<Longrightarrow> u = v"
  using mq_threadsD(2) by (metis option.inject)

lemma in_put_unique: "mq_threads q gs ps \<Longrightarrow> in_put (mq_pc q u) \<Longrightarrow> in_put (mq_pc q v) \<Longrightarrow> u = v"
  using mq_threadsD(1) by (metis option.inject)

lemma not_swapping:
  "mq_threads q gs ps \<Longrightarrow> in_get (mq_pc q t) \<Longrightarrow> (\<And>l. \<not> swapping (mq_pc q t) l) \<Longrightarrow> \<not> (\<exists>u l. swapping (mq_pc q u) l)"
  using in_get_unique swapping_in_get by metis

text \<open>\<open>mq_swapping\<close> keeps the existential statement folded in the proofs.\<close>

definition mq_swapping :: "msgqueue \<Rightarrow> bool" where
  "mq_swapping q \<longleftrightarrow> (\<exists>t l. swapping (mq_pc q t) l)"

lemma mq_lists_iff:
  "mq_lists q gs ps \<longleftrightarrow>
     mq_puts q = mq_gets q @ gs @ ps \<and> distinct (gs @ ps) \<and>
     chain (mq_mem q) (mq_put_head q) ps \<and> mq_put_tail q = last_loc (mq_put_head q) ps \<and>
     mq_msg_cnt q = length ps \<and> is_head (mq_get_head q) \<and> is_head (mq_put_head q) \<and>
     (mq_swapping q \<longrightarrow> gs = [] \<and> mq_get_head q = mq_put_head q) \<and>
     (\<not> mq_swapping q \<longrightarrow> chain (mq_mem q) (mq_get_head q) gs \<and> mq_get_head q \<noteq> mq_put_head q)"
  unfolding mq_lists_def mq_swapping_def by argo

lemma mq_swapping_same:
  "mq_pc q' = (mq_pc q)(t := c) \<Longrightarrow> (\<And>l. swapping c l \<longleftrightarrow> swapping (mq_pc q t) l) \<Longrightarrow> mq_swapping q' = mq_swapping q"
  unfolding mq_swapping_def using swapping_cong by metis

lemma mq_not_swapping:
  "mq_threads q gs ps \<Longrightarrow> in_get (mq_pc q t) \<Longrightarrow> (\<And>l. \<not> swapping (mq_pc q t) l) \<Longrightarrow> \<not> mq_swapping q"
  unfolding mq_swapping_def by (rule not_swapping)

lemma inv_put_enter:
  assumes inv: "mq_lists q gs ps" "mq_threads q gs ps" and pc: "mq_pc q t = Idle" and free: "message_free x q"
  defines "q' \<equiv> goto t (Put_enter x) (q\<lparr>mq_mem := (mq_mem q)(Link x := None)\<rparr>)"
  shows "mq_lists q' gs ps \<and> mq_threads q' gs ps"
proof -
  have x: "x \<notin> set (gs @ ps)" "\<And>u. \<not> putting (mq_pc q u) x"
    using free inv(1) by (auto simp: message_free_def mq_lists_iff putting_def)
  have c: "chain ((mq_mem q)(Link x := None)) l xs" if "chain (mq_mem q) l xs" "is_head l" "x \<notin> set xs" for l xs
    by (rule chain_cong [OF that(1)]) (use that in \<open>auto simp: head_not_Link\<close>)
  have sw: "mq_swapping q' = mq_swapping q"
    by (rule mq_swapping_same [where t = t and c = "Put_enter x"]) (simp_all add: q'_def goto_def pc)
  have "mq_lists q' gs ps" using inv(1) x c unfolding mq_lists_iff sw by (simp add: q'_def goto_def)
  moreover have "mq_threads q' gs ps"
    by (rule mq_threadsI [OF inv(2), where t = t and c = "Put_enter x"])
      (use pc x mq_threadsD(1,2) [OF inv(2), of t] in \<open>auto simp: q'_def goto_def dest: mq_threadsD(1-3,5-) [OF inv(2)]\<close>)
  ultimately show ?thesis ..
qed

lemma inv_put_link:
  assumes inv: "mq_lists q gs ps" "mq_threads q gs ps" and pc: "mq_pc q t = Put_locked x"
  defines "q' \<equiv> goto t Put_linked (link_in x q)"
  shows "mq_lists q' gs (ps @ [x]) \<and> mq_threads q' gs (ps @ [x])"
proof -
  let ?tl = "last_loc (mq_put_head q) ps"
  define m where "m = (mq_mem q)(?tl := Some x)"
  from mq_threadsD(3) [OF inv(2), of t x] pc have x: "x \<notin> set (gs @ ps)" "mq_mem q (Link x) = None" by simp_all
  have tl: "mq_put_tail q = ?tl" and hd: "is_head (mq_put_head q)" and d: "distinct (gs @ ps)"
    using inv(1) by (simp_all add: mq_lists_iff)
  have ps: "chain m (mq_put_head q) (ps @ [x])"
    unfolding m_def using inv(1) x hd by (intro chain_snoc) (auto simp: mq_lists_iff head_not_Link)
  have lk: "m (Link y) = mq_mem q (Link y)" if "y \<notin> set ps" for y
    using that hd last_loc_cases [of "mq_put_head q" ps] head_not_Link [OF hd, of y] by (auto simp: m_def)
  have hm: "m l = mq_mem q l" if "is_head l" "l \<noteq> mq_put_head q" for l
    using that last_loc_cases [of "mq_put_head q" ps] by (auto simp: m_def)
  have gs: "chain m l gs" if "chain (mq_mem q) l gs" "is_head l" "l \<noteq> mq_put_head q" for l
    by (rule chain_cong [OF that(1)]) (use that d lk hm in auto)
  have sw: "mq_swapping q' = mq_swapping q"
    by (rule mq_swapping_same [where t = t and c = Put_linked]) (simp_all add: q'_def goto_def link_in_def pc)
  have "mq_lists q' gs (ps @ [x])"
    using inv(1) x ps gs unfolding mq_lists_iff sw by (simp add: q'_def goto_def link_in_def tl m_def [symmetric])
  moreover have "mq_threads q' gs (ps @ [x])"
  proof (rule mq_threadsI [OF inv(2), where t = t and c = Put_linked])
    fix u y assume u: "u \<noteq> t" "putting (mq_pc q u) y"
    have "y \<noteq> x" using mq_threadsD(4) [OF inv(2), of u y t] u pc by auto
    then show "y \<notin> set (gs @ ps @ [x]) \<and> mq_mem q' (Link y) = None \<and> \<not> putting Put_linked y"
      using mq_threadsD(3) [OF inv(2) u(2)] lk by (simp add: q'_def goto_def link_in_def tl m_def [symmetric])
  next
    fix u l assume "u \<noteq> t" "swapping (mq_pc q u) l"
    then show "is_head l \<and> l \<noteq> mq_put_head q' \<and> mq_mem q' l = None"
      using mq_threadsD(5) [OF inv(2)] hm by (simp add: q'_def goto_def link_in_def tl m_def [symmetric])
  qed (use pc mq_threadsD(1,2) [OF inv(2), of t] in \<open>auto simp: q'_def goto_def link_in_def dest: mq_threadsD(1-3,5-) [OF inv(2)]\<close>)
  ultimately show ?thesis ..
qed

lemma inv_swap_do:
  assumes inv: "mq_lists q gs ps" "mq_threads q gs ps" and pc: "mq_pc q t = Swap_locked l"
  defines "q' \<equiv> goto t (Swap_done (mq_msg_cnt q)) (swap_lists l q)"
  shows "mq_lists q' ps [] \<and> mq_threads q' ps []"
proof -
  have "mq_swapping q" using pc by (auto simp: mq_swapping_def swapping_def)
  then have gs: "gs = []" "mq_get_head q = mq_put_head q" using inv(1) by (simp_all add: mq_lists_iff)
  have l: "is_head l" "l \<noteq> mq_put_head q" "mq_mem q l = None" using mq_threadsD(5) [OF inv(2), of t l] pc by simp_all
  have only: "u \<noteq> t \<Longrightarrow> \<not> in_get (mq_pc q u)" for u using in_get_unique [OF inv(2), of u t] pc by auto
  have others: "u \<noteq> t \<Longrightarrow> \<not> swapping (mq_pc q u) k" "u \<noteq> t \<Longrightarrow> mq_pc q u \<noteq> Swap_done n" "u \<noteq> t \<Longrightarrow> mq_pc q u \<noteq> Get_take" for u k n
    using only [of u] by (auto dest: swapping_in_get)
  have sw: "\<not> mq_swapping q'" using others(1) by (auto simp: mq_swapping_def q'_def goto_def swap_lists_def)
  have "mq_lists q' ps []"
    using inv(1) gs l unfolding mq_lists_iff by (simp add: sw) (simp add: q'_def goto_def swap_lists_def last_loc_def)
  moreover have "mq_threads q' ps []"
    by (rule mq_threadsI [OF inv(2), where t = t and c = "Swap_done (mq_msg_cnt q)"])
      (use inv(1) pc gs others mq_threadsD(1,2) [OF inv(2), of t] in \<open>auto simp: q'_def goto_def swap_lists_def mq_lists_iff dest: mq_threadsD(1-3,5-) [OF inv(2)]\<close>)
  ultimately show ?thesis ..
qed

lemma inv_get_swap:
  assumes inv: "mq_lists q gs ps" "mq_threads q gs ps" and pc: "mq_pc q t = Get_locked" and e: "mq_mem q (mq_get_head q) = None"
  defines "q' \<equiv> goto t (Swap_enter (mq_get_head q)) (q\<lparr>mq_get_head := mq_put_head q\<rparr>)"
  shows "mq_lists q' gs ps \<and> mq_threads q' gs ps"
proof -
  have "\<not> mq_swapping q" by (rule mq_not_swapping [OF inv(2), of t]) (simp_all add: pc)
  then have ch: "gs = []" "mq_get_head q \<noteq> mq_put_head q" "is_head (mq_get_head q)"
    using inv(1) e by (cases gs; simp add: mq_lists_iff)+
  have sw: "mq_swapping q'" by (auto simp: mq_swapping_def q'_def goto_def)
  have "mq_lists q' gs ps" using inv(1) ch unfolding mq_lists_iff by (simp add: sw) (simp add: q'_def goto_def)
  moreover have "mq_threads q' gs ps"
    by (rule mq_threadsI [OF inv(2), where t = t and c = "Swap_enter (mq_get_head q)"])
      (use pc ch e mq_threadsD(1,2) [OF inv(2), of t] in \<open>auto simp: q'_def goto_def dest: mq_threadsD(1-3,5-) [OF inv(2)]\<close>)
  ultimately show ?thesis ..
qed

lemma inv_get_take:
  assumes inv: "mq_lists q gs ps" "mq_threads q gs ps" and pc: "mq_pc q t = Get_take"
  defines "q' \<equiv> goto t Get_unlock (take_out q)"
  shows "mq_lists q' (tl gs) ps \<and> mq_threads q' (tl gs) ps"
proof -
  have only: "u \<noteq> t \<Longrightarrow> \<not> in_get (mq_pc q u)" for u using in_get_unique [OF inv(2), of u t] pc by auto
  have others: "u \<noteq> t \<Longrightarrow> \<not> swapping (mq_pc q u) k" "u \<noteq> t \<Longrightarrow> mq_pc q u \<noteq> Swap_done n" "u \<noteq> t \<Longrightarrow> mq_pc q u \<noteq> Get_take" for u k n
    using only [of u] by (auto dest: swapping_in_get)
  have nosw: "\<not> mq_swapping q" by (rule mq_not_swapping [OF inv(2), of t]) (simp_all add: pc)
  obtain x xs where gs: "gs = x # xs" using mq_threadsD(6) [OF inv(2) pc] by (cases gs) auto
  have ch: "mq_mem q (mq_get_head q) = Some x" "chain (mq_mem q) (Link x) xs" "mq_get_head q \<noteq> mq_put_head q"
      "is_head (mq_get_head q)" "chain (mq_mem q) (mq_put_head q) ps"
    using inv(1) nosw gs by (auto simp: mq_lists_iff)
  define m where "m = (mq_mem q)(mq_get_head q := mq_mem q (Link x))"
  have lk: "m (Link y) = mq_mem q (Link y)" for y using head_not_Link [OF ch(4), of y] by (auto simp: m_def)
  have gs': "chain m (mq_get_head q) xs"
  proof (cases xs)
    case Nil
    then show ?thesis using ch by (simp add: m_def)
  next
    case (Cons y ys)
    then have "chain (mq_mem q) (Link y) ys" "mq_mem q (Link x) = Some y" using ch(2) by simp_all
    moreover from this(1) have "chain m (Link y) ys" by (rule chain_cong) (simp_all add: lk)
    ultimately show ?thesis using Cons by (simp add: m_def)
  qed
  have ps': "chain m (mq_put_head q) ps" by (rule chain_cong [OF ch(5)]) (use ch(3) lk in \<open>auto simp: m_def\<close>)
  have q': "q' = goto t Get_unlock (q\<lparr>mq_mem := m, mq_gets := mq_gets q @ [x]\<rparr>)"
    by (simp add: q'_def take_out_def ch(1) m_def)
  have sw: "\<not> mq_swapping q'" using nosw by (auto simp: mq_swapping_def q' goto_def split: if_splits)
  have "mq_lists q' xs ps"
    using inv(1) gs gs' ps' ch nosw unfolding mq_lists_iff by (simp add: sw) (simp add: q' goto_def)
  moreover have "mq_threads q' xs ps"
    by (rule mq_threadsI [OF inv(2), where t = t and c = Get_unlock])
      (use pc others gs lk mq_threadsD(1,2) [OF inv(2), of t] in \<open>auto simp: q' goto_def dest: mq_threadsD(1-3,5-) [OF inv(2)]\<close>)
  ultimately show ?thesis using gs by simp
qed

text \<open>The other steps move a thread and change the mutexes.\<close>

lemma inv_control:
  assumes inv: "mq_lists q gs ps" "mq_threads q gs ps"
    and c: "\<And>l. swapping c l \<longleftrightarrow> swapping (mq_pc q t) l" "\<And>x. putting c x \<longleftrightarrow> putting (mq_pc q t) x"
    and m: "in_put c = (a = Some t)" "\<And>u. u \<noteq> t \<Longrightarrow> (a = Some u) = (mq_put_mutex q = Some u)"
      "in_get c = (b = Some t)" "\<And>u. u \<noteq> t \<Longrightarrow> (b = Some u) = (mq_get_mutex q = Some u)"
    and x: "c = Get_take \<Longrightarrow> gs \<noteq> []" "\<And>n. c \<noteq> Swap_done n"
  shows "mq_inv (goto t c (q\<lparr>mq_put_mutex := a, mq_get_mutex := b\<rparr>))"
proof -
  let ?q = "goto t c (q\<lparr>mq_put_mutex := a, mq_get_mutex := b\<rparr>)"
  have pc: "mq_pc ?q = (mq_pc q)(t := c)" by (simp add: goto_def)
  have sw: "mq_swapping ?q = mq_swapping q" by (rule mq_swapping_same [OF pc c(1)])
  have "mq_threads ?q gs ps"
  proof (rule mq_threadsI [OF inv(2) pc])
    fix u y assume "u \<noteq> t" "putting (mq_pc q u) y"
    then show "y \<notin> set (gs @ ps) \<and> mq_mem ?q (Link y) = None \<and> \<not> putting c y"
      using mq_threadsD(3) [OF inv(2)] mq_threadsD(4) [OF inv(2), of u y t] c(2) by (simp add: goto_def) blast
  qed (use m x c mq_threadsD(3,5,6,7) [OF inv(2)] in \<open>simp_all add: goto_def\<close>)
  moreover have "mq_lists ?q gs ps" using inv(1) unfolding mq_lists_iff sw by (simp add: goto_def)
  ultimately show ?thesis unfolding mq_inv_def by blast
qed

lemma inv_thread_step:
  assumes inv: "mq_lists q gs ps" "mq_threads q gs ps" and a: "mq_put_mutex q = a" and b: "mq_get_mutex q = b"
  shows "mq_pc q t = Put_enter x \<Longrightarrow> a = None \<Longrightarrow> mq_inv (goto t (Put_locked x) (q\<lparr>mq_put_mutex := Some t\<rparr>))"
    "mq_pc q t = Put_locked x \<Longrightarrow> mq_inv (goto t (Put_enter x) (q\<lparr>mq_put_mutex := None\<rparr>))"
    "mq_pc q t = Put_linked \<Longrightarrow> mq_inv (goto t Idle (q\<lparr>mq_put_mutex := None\<rparr>))"
    "mq_pc q t = Idle \<Longrightarrow> b = None \<Longrightarrow> mq_inv (goto t Get_locked (q\<lparr>mq_get_mutex := Some t\<rparr>))"
    "mq_pc q t = Get_locked \<Longrightarrow> gs \<noteq> [] \<Longrightarrow> mq_inv (goto t Get_take q)"
    "mq_pc q t = Swap_enter l \<Longrightarrow> a = None \<Longrightarrow> mq_inv (goto t (Swap_locked l) (q\<lparr>mq_put_mutex := Some t\<rparr>))"
    "mq_pc q t = Swap_locked l \<Longrightarrow> mq_inv (goto t (Swap_enter l) (q\<lparr>mq_put_mutex := None\<rparr>))"
    "mq_pc q t = Swap_done n \<Longrightarrow> mq_inv (goto t (if n > 0 then Get_take else Get_unlock) (q\<lparr>mq_put_mutex := None\<rparr>))"
    "mq_pc q t = Get_unlock \<Longrightarrow> mq_inv (goto t Idle (q\<lparr>mq_get_mutex := None\<rparr>))"
proof -
  note D = mq_threadsD(1,2) [OF inv(2), of t] a b
  have *: "q\<lparr>mq_put_mutex := a'\<rparr> = q\<lparr>mq_put_mutex := a', mq_get_mutex := b\<rparr>" for a' using b by simp
  have **: "q\<lparr>mq_get_mutex := b'\<rparr> = q\<lparr>mq_put_mutex := a, mq_get_mutex := b'\<rparr>" for b' using a by simp
  have ***: "goto t Get_take q = goto t Get_take (q\<lparr>mq_put_mutex := a, mq_get_mutex := b\<rparr>)" using a b by (cases q) simp
  show "mq_pc q t = Put_enter x \<Longrightarrow> a = None \<Longrightarrow> mq_inv (goto t (Put_locked x) (q\<lparr>mq_put_mutex := Some t\<rparr>))"
    by (subst *, rule inv_control [OF inv]) (use D mq_threadsD(9) [OF inv(2), of t] in auto)
  show "mq_pc q t = Put_locked x \<Longrightarrow> mq_inv (goto t (Put_enter x) (q\<lparr>mq_put_mutex := None\<rparr>))"
    by (subst *, rule inv_control [OF inv]) (use D mq_threadsD(9) [OF inv(2), of t] in auto)
  show "mq_pc q t = Put_linked \<Longrightarrow> mq_inv (goto t Idle (q\<lparr>mq_put_mutex := None\<rparr>))"
    by (subst *, rule inv_control [OF inv]) (use D mq_threadsD(9) [OF inv(2), of t] in auto)
  show "mq_pc q t = Idle \<Longrightarrow> b = None \<Longrightarrow> mq_inv (goto t Get_locked (q\<lparr>mq_get_mutex := Some t\<rparr>))"
    by (subst **, rule inv_control [OF inv]) (use D mq_threadsD(8) [OF inv(2), of t] in auto)
  show "mq_pc q t = Get_locked \<Longrightarrow> gs \<noteq> [] \<Longrightarrow> mq_inv (goto t Get_take q)"
    by (subst ***, rule inv_control [OF inv]) (use D mq_threadsD(8) [OF inv(2), of t] in auto)
  show "mq_pc q t = Swap_enter l \<Longrightarrow> a = None \<Longrightarrow> mq_inv (goto t (Swap_locked l) (q\<lparr>mq_put_mutex := Some t\<rparr>))"
    by (subst *, rule inv_control [OF inv]) (use D in auto)
  show "mq_pc q t = Swap_locked l \<Longrightarrow> mq_inv (goto t (Swap_enter l) (q\<lparr>mq_put_mutex := None\<rparr>))"
    by (subst *, rule inv_control [OF inv]) (use D in auto)
  show "mq_pc q t = Swap_done n \<Longrightarrow> mq_inv (goto t (if n > 0 then Get_take else Get_unlock) (q\<lparr>mq_put_mutex := None\<rparr>))"
    by (subst *, rule inv_control [OF inv]) (use D mq_threadsD(7) [OF inv(2), of t n] in auto)
  show "mq_pc q t = Get_unlock \<Longrightarrow> mq_inv (goto t Idle (q\<lparr>mq_get_mutex := None\<rparr>))"
    by (subst **, rule inv_control [OF inv]) (use D mq_threadsD(8) [OF inv(2), of t] in auto)
qed

lemma mq_inv_step: "mq_step q q' \<Longrightarrow> mq_inv q \<Longrightarrow> mq_inv q'"
proof (induction rule: mq_step.induct)
  case (put_enter q t x)
  then show ?case unfolding mq_inv_def using inv_put_enter by blast
next
  case (put_link q t x)
  then show ?case unfolding mq_inv_def using inv_put_link by blast
next
  case (swap_do q t l)
  then show ?case unfolding mq_inv_def using inv_swap_do by blast
next
  case (get_take q t)
  then show ?case unfolding mq_inv_def using inv_get_take by blast
next
  case (get_swap q t)
  then show ?case unfolding mq_inv_def using inv_get_swap by blast
next
  case (get_nonempty q t)
  then obtain gs ps where i: "mq_lists q gs ps" "mq_threads q gs ps" by (auto simp: mq_inv_def)
  have "\<not> mq_swapping q" by (rule mq_not_swapping [OF i(2), of t]) (simp_all add: get_nonempty.hyps)
  then have "gs \<noteq> []" using i(1) get_nonempty.hyps by (auto simp: mq_lists_iff)
  then show ?case using inv_thread_step(5) [OF i refl refl] get_nonempty.hyps by blast
next
  case (put_lock q t x)
  then show ?case unfolding mq_inv_def [of q] using inv_thread_step(1) [OF _ _ refl refl] by blast
next
  case (put_wait q t x)
  then show ?case unfolding mq_inv_def [of q] using inv_thread_step(2) [OF _ _ refl refl] by blast
next
  case (put_unlock q t)
  then show ?case unfolding mq_inv_def [of q] using inv_thread_step(3) [OF _ _ refl refl] by blast
next
  case (get_lock q t)
  then show ?case unfolding mq_inv_def [of q] using inv_thread_step(4) [OF _ _ refl refl] by blast
next
  case (swap_lock q t l)
  then show ?case unfolding mq_inv_def [of q] using inv_thread_step(6) [OF _ _ refl refl] by blast
next
  case (swap_wait q t l)
  then show ?case unfolding mq_inv_def [of q] using inv_thread_step(7) [OF _ _ refl refl] by blast
next
  case (swap_unlock q t n)
  then show ?case unfolding mq_inv_def [of q] using inv_thread_step(8) [OF _ _ refl refl] by blast
next
  case (get_unlock q t)
  then show ?case unfolding mq_inv_def [of q] using inv_thread_step(9) [OF _ _ refl refl] by blast
next
  case (set_nonblock q b)
  then obtain gs ps where i: "mq_lists q gs ps" "mq_threads q gs ps" by (auto simp: mq_inv_def)
  have "mq_lists (q\<lparr>mq_nonblock := b\<rparr>) gs ps" "mq_threads (q\<lparr>mq_nonblock := b\<rparr>) gs ps"
    using i unfolding mq_lists_def mq_threads_def by simp_all
  then show ?case unfolding mq_inv_def by blast
qed

lemma mq_inv_create: "mq_inv (msgqueue_create n)"
proof -
  have "mq_lists (msgqueue_create n) [] []" "mq_threads (msgqueue_create n) [] []"
    by (auto simp: mq_lists_def mq_threads_def msgqueue_create_def last_loc_def is_head_def)
  then show ?thesis unfolding mq_inv_def by blast
qed

lemma mq_inv_reachable: "mq_reachable n q \<Longrightarrow> mq_inv q"
  by (induction rule: rtranclp_induct) (auto intro: mq_inv_create mq_inv_step)

section \<open>Properties\<close>

text \<open>A run in which thread 0 puts message 5 and thread 1 comes to the point of taking it.\<close>

lemma demo_run:
  defines "q0 \<equiv> msgqueue_create 1"
  shows "\<exists>q. mq_reachable 1 q \<and> mq_pc q 1 = Get_take \<and> mq_puts q = [5] \<and> mq_gets q = [] \<and> (\<forall>t. t \<noteq> 1 \<longrightarrow> mq_pc q t = Idle)"
proof -
  define q1 where "q1 = goto 0 (Put_enter 5) (q0\<lparr>mq_mem := (mq_mem q0)(Link 5 := None)\<rparr>)"
  define q2 where "q2 = goto 0 (Put_locked 5) (q1\<lparr>mq_put_mutex := Some 0\<rparr>)"
  define q3 where "q3 = goto 0 Put_linked (link_in 5 q2)"
  define q4 where "q4 = goto 0 Idle (q3\<lparr>mq_put_mutex := None\<rparr>)"
  define q5 where "q5 = goto 1 Get_locked (q4\<lparr>mq_get_mutex := Some 1\<rparr>)"
  define q6 where "q6 = goto 1 (Swap_enter (mq_get_head q5)) (q5\<lparr>mq_get_head := mq_put_head q5\<rparr>)"
  define q7 where "q7 = goto 1 (Swap_locked (mq_get_head q5)) (q6\<lparr>mq_put_mutex := Some 1\<rparr>)"
  define q8 where "q8 = goto 1 (Swap_done (mq_msg_cnt q7)) (swap_lists (mq_get_head q5) q7)"
  define q9 where "q9 = goto 1 (if mq_msg_cnt q7 > 0 then Get_take else Get_unlock) (q8\<lparr>mq_put_mutex := None\<rparr>)"
  note defs = q9_def q8_def q7_def q6_def q5_def q4_def q3_def q2_def q1_def q0_def goto_def link_in_def swap_lists_def msgqueue_create_def
  have "mq_step q0 q1" unfolding q1_def by (rule put_enter) (simp_all add: q0_def msgqueue_create_def message_free_def)
  moreover have "mq_step q1 q2" unfolding q2_def by (rule put_lock) (simp_all add: defs)
  moreover have "mq_step q2 q3" unfolding q3_def by (rule put_link) (simp_all add: defs queue_full_def)
  moreover have "mq_step q3 q4" unfolding q4_def by (rule put_unlock) (simp add: defs)
  moreover have "mq_step q4 q5" unfolding q5_def by (rule get_lock) (simp_all add: defs)
  moreover have "mq_step q5 q6" unfolding q6_def by (rule get_swap) (simp_all add: defs)
  moreover have "mq_step q6 q7" unfolding q7_def by (rule swap_lock) (simp_all add: defs)
  moreover have "mq_step q7 q8" unfolding q8_def by (rule swap_do) (simp_all add: defs)
  moreover have "mq_step q8 q9" unfolding q9_def by (rule swap_unlock) (simp add: defs)
  ultimately have "mq_reachable 1 q9" unfolding q0_def [symmetric] by (meson rtranclp.rtrancl_into_rtrancl rtranclp.rtrancl_refl)
  moreover have "mq_pc q9 1 = Get_take \<and> mq_puts q9 = [5] \<and> mq_gets q9 = [] \<and> (\<forall>t. t \<noteq> 1 \<longrightarrow> mq_pc q9 t = Idle)" by (simp add: defs)
  ultimately show ?thesis by blast
qed

text \<open>C13: Whatever the interleaving of any number of putting and getting threads, the messages come
  out in the order in which they went in: those taken, followed by the get list and the put list as
  they are linked in memory, are those put. None is lost and none is delivered twice. The lists are
  well linked, and \<open>msg_cnt\<close> counts the put list.\<close>

theorem msgqueue_fifo:
  assumes "mq_reachable maxlen q"
  shows "\<exists>gs ps. mq_puts q = mq_gets q @ gs @ ps \<and> distinct (gs @ ps) \<and>
    chain (mq_mem q) (mq_put_head q) ps \<and> mq_msg_cnt q = length ps \<and>
    ((\<forall>t l. mq_pc q t \<noteq> Swap_enter l \<and> mq_pc q t \<noteq> Swap_locked l) \<longrightarrow> chain (mq_mem q) (mq_get_head q) gs)"
proof -
  obtain gs ps where l: "mq_lists q gs ps" using mq_inv_reachable [OF assms] by (auto simp: mq_inv_def)
  have "\<not> mq_swapping q" if "\<forall>t l. mq_pc q t \<noteq> Swap_enter l \<and> mq_pc q t \<noteq> Swap_locked l"
    using that by (simp add: mq_swapping_def swapping_def)
  with l show ?thesis unfolding mq_lists_iff by blast
qed

theorem msgqueue_fifo_witness:
  "\<exists>q gs ps. mq_reachable 1 q \<and> mq_puts q = [5] \<and> [5] = gs @ ps \<and> chain (mq_mem q) (mq_get_head q) gs"
proof -
  obtain q where q: "mq_reachable 1 q" "mq_pc q 1 = Get_take" "mq_puts q = [5]" "mq_gets q = []" "\<forall>t. t \<noteq> 1 \<longrightarrow> mq_pc q t = Idle"
    using demo_run by blast
  have "mq_pc q t \<noteq> Swap_enter l \<and> mq_pc q t \<noteq> Swap_locked l" for t l
    using q(2,5) by (cases "t = 1") simp_all
  with msgqueue_fifo [OF q(1)] q show ?thesis by auto
qed

text \<open>C29: A thread at the point where it takes a message finds one: the get list it has just
  looked at, or swapped in, is not empty when it unlinks its first element.\<close>

theorem msgqueue_take_finds:
  assumes "mq_reachable maxlen q" "mq_pc q t = Get_take"
  shows "\<exists>x. mq_mem q (mq_get_head q) = Some x \<and> mq_gets (take_out q) = mq_gets q @ [x] \<and>
    (\<exists>rest. mq_puts q = mq_gets q @ x # rest)"
proof -
  obtain gs ps where l: "mq_lists q gs ps" "mq_threads q gs ps" using mq_inv_reachable [OF assms(1)] by (auto simp: mq_inv_def)
  have "\<not> mq_swapping q" by (rule mq_not_swapping [OF l(2), of t]) (simp_all add: assms(2))
  moreover obtain x xs where "gs = x # xs" using mq_threadsD(6) [OF l(2) assms(2)] by (cases gs) auto
  ultimately show ?thesis using l(1) by (auto simp: mq_lists_iff take_out_def)
qed

theorem msgqueue_take_finds_witness:
  "\<exists>q. mq_reachable 1 q \<and> mq_pc q 1 = Get_take \<and> mq_gets (take_out q) = [5]"
proof -
  obtain q where q: "mq_reachable 1 q" "mq_pc q 1 = Get_take" "mq_puts q = [5]" "mq_gets q = []"
    using demo_run by blast
  from msgqueue_take_finds [OF q(1,2)] q show ?thesis by auto
qed

end
