(* ===== verification/Adlist.thy ===== *)
theory Adlist
  imports Prelude
begin

text \<open>
  src/libredis/hiredis/adlist.c, the doubly linked list. Nodes live in an explicit heap from
  addresses to nodes, so that the effect of every pointer assignment, and what it does to the
  other nodes, is visible. An access through NULL or through an address that holds no node is
  the result \<open>None\<close>; the theorems show that it does not happen. Values are numbers (the source
  keeps \<open>void *\<close>); the values handed to the \<open>free\<close> method are recorded in \<open>lh_freed\<close>.
\<close>

section \<open>Nodes, lists and the heap\<close>

type_synonym addr = nat
type_synonym val = nat

record list_node =
  ln_prev :: "addr option"
  ln_next :: "addr option"
  ln_value :: val

record hilist =
  al_head :: "addr option"
  al_tail :: "addr option"
  al_dup :: "(val \<Rightarrow> val option) option"
  al_free :: bool
  al_match :: "(val \<Rightarrow> val \<Rightarrow> bool) option"
  al_len :: nat

record list_heap =
  lh_nodes :: "addr \<Rightarrow> list_node option"
  lh_next :: addr
  lh_freed :: "val list"

datatype direction = AL_START_HEAD | AL_START_TAIL

record list_iter =
  li_next :: "addr option"
  li_direction :: direction

text \<open>\<open>malloc\<close> of a node with its contents, \<open>p->field = ...\<close>, and \<open>free\<close>.\<close>

definition new_node :: "list_node \<Rightarrow> list_heap \<Rightarrow> addr \<times> list_heap" where
  "new_node n H = (lh_next H, H\<lparr>lh_nodes := (lh_nodes H)(lh_next H := Some n), lh_next := lh_next H + 1\<rparr>)"

definition upd_at :: "addr option \<Rightarrow> (list_node \<Rightarrow> list_node) \<Rightarrow> list_heap \<Rightarrow> list_heap option" where
  "upd_at p f H = (case p of None \<Rightarrow> None | Some a \<Rightarrow>
     (case lh_nodes H a of None \<Rightarrow> None | Some n \<Rightarrow> Some (H\<lparr>lh_nodes := (lh_nodes H)(a := Some (f n))\<rparr>)))"

definition free_node :: "addr \<Rightarrow> list_heap \<Rightarrow> list_heap" where
  "free_node a H = H\<lparr>lh_nodes := (lh_nodes H)(a := None)\<rparr>"

section \<open>Operations\<close>

definition listCreate :: "allocator \<Rightarrow> hilist option \<times> allocator" where
  "listCreate m = (case alloc m of
     (False, m') \<Rightarrow> (None, m')
   | (True, m') \<Rightarrow> (Some \<lparr>al_head = None, al_tail = None, al_dup = None, al_free = False, al_match = None, al_len = 0\<rparr>, m'))"

text \<open>The loop of \<open>listRelease\<close>: \<open>len\<close> nodes from \<open>current\<close>.\<close>

fun release_loop :: "bool \<Rightarrow> nat \<Rightarrow> addr option \<Rightarrow> list_heap \<Rightarrow> list_heap option" where
  "release_loop fr 0 current H = Some H"
| "release_loop fr (Suc k) current H = (case current of None \<Rightarrow> None | Some a \<Rightarrow>
     (case lh_nodes H a of None \<Rightarrow> None | Some n \<Rightarrow>
        let H1 = (if fr then H\<lparr>lh_freed := lh_freed H @ [ln_value n]\<rparr> else H) in
        release_loop fr k (ln_next n) (free_node a H1)))"

definition listRelease :: "hilist \<Rightarrow> list_heap \<Rightarrow> list_heap option" where
  "listRelease l H = release_loop (al_free l) (al_len l) (al_head l) H"

text \<open>The first component is false when NULL is returned.\<close>

definition listAddNodeHead :: "val \<Rightarrow> hilist \<Rightarrow> list_heap \<Rightarrow> allocator \<Rightarrow> (bool \<times> hilist \<times> list_heap \<times> allocator) option" where
  "listAddNodeHead v l H m = (case alloc m of
     (False, m') \<Rightarrow> Some (False, l, H, m')
   | (True, m') \<Rightarrow>
       if al_len l = 0 then
         (case new_node \<lparr>ln_prev = None, ln_next = None, ln_value = v\<rparr> H of (node, H1) \<Rightarrow>
            Some (True, l\<lparr>al_head := Some node, al_tail := Some node, al_len := al_len l + 1\<rparr>, H1, m'))
       else
         (case new_node \<lparr>ln_prev = None, ln_next = al_head l, ln_value = v\<rparr> H of (node, H1) \<Rightarrow>
            case upd_at (al_head l) (\<lambda>n. n\<lparr>ln_prev := Some node\<rparr>) H1 of
              None \<Rightarrow> None
            | Some H2 \<Rightarrow> Some (True, l\<lparr>al_head := Some node, al_len := al_len l + 1\<rparr>, H2, m')))"

definition listAddNodeTail :: "val \<Rightarrow> hilist \<Rightarrow> list_heap \<Rightarrow> allocator \<Rightarrow> (bool \<times> hilist \<times> list_heap \<times> allocator) option" where
  "listAddNodeTail v l H m = (case alloc m of
     (False, m') \<Rightarrow> Some (False, l, H, m')
   | (True, m') \<Rightarrow>
       if al_len l = 0 then
         (case new_node \<lparr>ln_prev = None, ln_next = None, ln_value = v\<rparr> H of (node, H1) \<Rightarrow>
            Some (True, l\<lparr>al_head := Some node, al_tail := Some node, al_len := al_len l + 1\<rparr>, H1, m'))
       else
         (case new_node \<lparr>ln_prev = al_tail l, ln_next = None, ln_value = v\<rparr> H of (node, H1) \<Rightarrow>
            case upd_at (al_tail l) (\<lambda>n. n\<lparr>ln_next := Some node\<rparr>) H1 of
              None \<Rightarrow> None
            | Some H2 \<Rightarrow> Some (True, l\<lparr>al_tail := Some node, al_len := al_len l + 1\<rparr>, H2, m')))"

text \<open>\<open>if (p != NULL) p->field = ...\<close>.\<close>

definition upd_if :: "addr option \<Rightarrow> (list_node \<Rightarrow> list_node) \<Rightarrow> list_heap \<Rightarrow> list_heap option" where
  "upd_if p f H = (if p = None then Some H else upd_at p f H)"

definition listInsertNode :: "addr \<Rightarrow> val \<Rightarrow> bool \<Rightarrow> hilist \<Rightarrow> list_heap \<Rightarrow> allocator \<Rightarrow> (bool \<times> hilist \<times> list_heap \<times> allocator) option" where
  "listInsertNode old_node v after l H m = (case alloc m of
     (False, m') \<Rightarrow> Some (False, l, H, m')
   | (True, m') \<Rightarrow>
       (case lh_nodes H old_node of
          None \<Rightarrow> None
        | Some old \<Rightarrow>
            (let n = (if after then \<lparr>ln_prev = Some old_node, ln_next = ln_next old, ln_value = v\<rparr>
                      else \<lparr>ln_prev = ln_prev old, ln_next = Some old_node, ln_value = v\<rparr>) in
             case new_node n H of (node, H1) \<Rightarrow>
             let l1 = (if after then (if al_tail l = Some old_node then l\<lparr>al_tail := Some node\<rparr> else l)
                       else (if al_head l = Some old_node then l\<lparr>al_head := Some node\<rparr> else l)) in
             case upd_if (ln_prev n) (\<lambda>x. x\<lparr>ln_next := Some node\<rparr>) H1 of
               None \<Rightarrow> None
             | Some H2 \<Rightarrow>
                 (case upd_if (ln_next n) (\<lambda>x. x\<lparr>ln_prev := Some node\<rparr>) H2 of
                    None \<Rightarrow> None
                  | Some H3 \<Rightarrow> Some (True, l1\<lparr>al_len := al_len l1 + 1\<rparr>, H3, m')))))"

definition listDelNode :: "addr \<Rightarrow> hilist \<Rightarrow> list_heap \<Rightarrow> (hilist \<times> list_heap) option" where
  "listDelNode node l H = (case lh_nodes H node of
     None \<Rightarrow> None
   | Some n \<Rightarrow>
       (case upd_if (ln_prev n) (\<lambda>x. x\<lparr>ln_next := ln_next n\<rparr>) H of
          None \<Rightarrow> None
        | Some H1 \<Rightarrow>
            (let l1 = (if ln_prev n = None then l\<lparr>al_head := ln_next n\<rparr> else l) in
             case upd_if (ln_next n) (\<lambda>x. x\<lparr>ln_prev := ln_prev n\<rparr>) H1 of
               None \<Rightarrow> None
             | Some H2 \<Rightarrow>
                 (let l2 = (if ln_next n = None then l1\<lparr>al_tail := ln_prev n\<rparr> else l1);
                      H3 = (if al_free l then H2\<lparr>lh_freed := lh_freed H2 @ [ln_value n]\<rparr> else H2) in
                  Some (l2\<lparr>al_len := al_len l2 - 1\<rparr>, free_node node H3)))))"

definition listGetIterator :: "hilist \<Rightarrow> direction \<Rightarrow> allocator \<Rightarrow> list_iter option \<times> allocator" where
  "listGetIterator l d m = (case alloc m of
     (False, m') \<Rightarrow> (None, m')
   | (True, m') \<Rightarrow> (Some \<lparr>li_next = (if d = AL_START_HEAD then al_head l else al_tail l), li_direction = d\<rparr>, m'))"

definition listRewind :: "hilist \<Rightarrow> list_iter" where
  "listRewind l = \<lparr>li_next = al_head l, li_direction = AL_START_HEAD\<rparr>"

definition listRewindTail :: "hilist \<Rightarrow> list_iter" where
  "listRewindTail l = \<lparr>li_next = al_tail l, li_direction = AL_START_TAIL\<rparr>"

definition listNext :: "list_iter \<Rightarrow> list_heap \<Rightarrow> (addr option \<times> list_iter) option" where
  "listNext it H = (case li_next it of
     None \<Rightarrow> Some (None, it)
   | Some current \<Rightarrow>
       (case lh_nodes H current of
          None \<Rightarrow> None
        | Some n \<Rightarrow> Some (Some current,
            it\<lparr>li_next := (if li_direction it = AL_START_HEAD then ln_next n else ln_prev n)\<rparr>)))"

text \<open>The loops over an iterator take a bound on their number of turns; \<open>Suc (al_len l)\<close> is enough
  for a well-formed list, whose iterator returns each node once.\<close>

fun search_loop :: "nat \<Rightarrow> (val \<Rightarrow> val \<Rightarrow> bool) option \<Rightarrow> val \<Rightarrow> list_iter \<Rightarrow> list_heap \<Rightarrow> addr option option" where
  "search_loop 0 match key it H = None"
| "search_loop (Suc k) match key it H =
     (case listNext it H of
        None \<Rightarrow> None
      | Some (None, it') \<Rightarrow> Some None
      | Some (Some node, it') \<Rightarrow>
          (case lh_nodes H node of
             None \<Rightarrow> None
           | Some n \<Rightarrow>
               if (case match of Some f \<Rightarrow> f (ln_value n) key | None \<Rightarrow> key = ln_value n) then Some (Some node)
               else search_loop k match key it' H))"

definition listSearchKey :: "hilist \<Rightarrow> val \<Rightarrow> list_heap \<Rightarrow> addr option option" where
  "listSearchKey l key H = search_loop (Suc (al_len l)) (al_match l) key (listRewind l) H"

text \<open>\<open>listRelease (copy)\<close> on the error paths frees what was copied.\<close>

fun dup_loop :: "nat \<Rightarrow> list_iter \<Rightarrow> hilist \<Rightarrow> list_heap \<Rightarrow> allocator \<Rightarrow> (hilist option \<times> list_heap \<times> allocator) option" where
  "dup_loop 0 it copy H m = None"
| "dup_loop (Suc k) it copy H m =
     (case listNext it H of
        None \<Rightarrow> None
      | Some (None, it') \<Rightarrow> Some (Some copy, H, m)
      | Some (Some node, it') \<Rightarrow>
          (case lh_nodes H node of
             None \<Rightarrow> None
           | Some n \<Rightarrow>
               (case (case al_dup copy of Some f \<Rightarrow> f (ln_value n) | None \<Rightarrow> Some (ln_value n)) of
                  None \<Rightarrow> (case listRelease copy H of None \<Rightarrow> None | Some H' \<Rightarrow> Some (None, H', m))
                | Some v \<Rightarrow>
                    (case listAddNodeTail v copy H m of
                       None \<Rightarrow> None
                     | Some (False, copy', H', m') \<Rightarrow>
                         (case listRelease copy' H' of None \<Rightarrow> None | Some H'' \<Rightarrow> Some (None, H'', m'))
                     | Some (True, copy', H', m') \<Rightarrow> dup_loop k it' copy' H' m'))))"

definition listDup :: "hilist \<Rightarrow> list_heap \<Rightarrow> allocator \<Rightarrow> (hilist option \<times> list_heap \<times> allocator) option" where
  "listDup orig H m = (case listCreate m of
     (None, m') \<Rightarrow> Some (None, H, m')
   | (Some copy, m') \<Rightarrow>
       dup_loop (Suc (al_len orig)) (listRewind orig)
         (copy\<lparr>al_dup := al_dup orig, al_free := al_free orig, al_match := al_match orig\<rparr>) H m')"

fun walk :: "(list_node \<Rightarrow> addr option) \<Rightarrow> nat \<Rightarrow> addr option \<Rightarrow> list_heap \<Rightarrow> addr option option" where
  "walk f 0 n H = Some n"
| "walk f (Suc k) n H = (case n of None \<Rightarrow> Some None | Some a \<Rightarrow>
     (case lh_nodes H a of None \<Rightarrow> None | Some x \<Rightarrow> walk f k (f x) H))"

definition listIndex :: "hilist \<Rightarrow> int \<Rightarrow> list_heap \<Rightarrow> addr option option" where
  "listIndex l i H =
     (if i < 0 then walk ln_prev (nat (- i - 1)) (al_tail l) H else walk ln_next (nat i) (al_head l) H)"

definition listRotate :: "hilist \<Rightarrow> list_heap \<Rightarrow> (hilist \<times> list_heap) option" where
  "listRotate l H =
     (if al_len l \<le> 1 then Some (l, H)
      else case al_tail l of None \<Rightarrow> None | Some tail \<Rightarrow>
        (case lh_nodes H tail of None \<Rightarrow> None | Some n \<Rightarrow>
          (let l1 = l\<lparr>al_tail := ln_prev n\<rparr> in
           case upd_at (al_tail l1) (\<lambda>x. x\<lparr>ln_next := None\<rparr>) H of None \<Rightarrow> None | Some H1 \<Rightarrow>
           (case upd_at (al_head l1) (\<lambda>x. x\<lparr>ln_prev := Some tail\<rparr>) H1 of None \<Rightarrow> None | Some H2 \<Rightarrow>
           (case upd_at (Some tail) (\<lambda>x. x\<lparr>ln_prev := None, ln_next := al_head l1\<rparr>) H2 of None \<Rightarrow> None | Some H3 \<Rightarrow>
            Some (l1\<lparr>al_head := Some tail\<rparr>, H3))))))"

section \<open>Well-formed lists\<close>

text \<open>\<open>dseg h p xs n\<close>: the nodes \<open>xs\<close> (address and value) are linked in this order, from a node
  whose \<open>prev\<close> is \<open>p\<close> to one whose \<open>next\<close> is \<open>n\<close>.\<close>

definition first_of :: "(addr \<times> val) list \<Rightarrow> addr option \<Rightarrow> addr option" where
  "first_of xs n = (if xs = [] then n else Some (fst (hd xs)))"

definition last_of :: "(addr \<times> val) list \<Rightarrow> addr option \<Rightarrow> addr option" where
  "last_of xs p = (if xs = [] then p else Some (fst (last xs)))"

fun dseg :: "(addr \<Rightarrow> list_node option) \<Rightarrow> addr option \<Rightarrow> (addr \<times> val) list \<Rightarrow> addr option \<Rightarrow> bool" where
  "dseg h p [] n \<longleftrightarrow> True"
| "dseg h p ((a, v) # xs) n \<longleftrightarrow>
     h a = Some \<lparr>ln_prev = p, ln_next = first_of xs n, ln_value = v\<rparr> \<and> dseg h (Some a) xs n"

definition dlist :: "list_heap \<Rightarrow> hilist \<Rightarrow> (addr \<times> val) list \<Rightarrow> bool" where
  "dlist H l xs \<longleftrightarrow> distinct (map fst xs) \<and> dseg (lh_nodes H) None xs None \<and>
     al_head l = first_of xs None \<and> al_tail l = last_of xs None \<and> al_len l = length xs"

text \<open>Addresses still to be handed out hold no node.\<close>

definition heap_ok :: "list_heap \<Rightarrow> bool" where
  "heap_ok H \<longleftrightarrow> (\<forall>a \<ge> lh_next H. lh_nodes H a = None)"

lemma first_of_simps [simp]:
  "first_of [] n = n" "first_of (x # xs) n = Some (fst x)" "first_of (xs @ ys) n = first_of xs (first_of ys n)"
  by (simp_all add: first_of_def)

lemma last_of_simps [simp]:
  "last_of [] p = p" "last_of (xs @ [x]) p = Some (fst x)" "last_of (x # xs) p = last_of xs (Some (fst x))"
  "last_of (xs @ ys) p = last_of ys (last_of xs p)"
  by (simp_all add: last_of_def)

lemma dseg_Cons:
  "dseg h p (x # xs) n \<longleftrightarrow>
     h (fst x) = Some \<lparr>ln_prev = p, ln_next = first_of xs n, ln_value = snd x\<rparr> \<and> dseg h (Some (fst x)) xs n"
  by (cases x) simp

lemma dseg_append: "dseg h p (xs @ ys) n \<longleftrightarrow> dseg h p xs (first_of ys n) \<and> dseg h (last_of xs p) ys n"
proof (induction xs arbitrary: p)
  case (Cons x xs)
  then show ?case by (cases x) simp
qed simp

lemma dseg_cong: "dseg h p xs n \<Longrightarrow> (\<And>a. a \<in> fst ` set xs \<Longrightarrow> h' a = h a) \<Longrightarrow> dseg h' p xs n"
proof (induction xs arbitrary: p)
  case (Cons x xs)
  then show ?case by (cases x) simp
qed simp

lemma dseg_upd [simp]: "a \<notin> fst ` set xs \<Longrightarrow> dseg (h(a := z)) p xs n = dseg h p xs n"
proof (induction xs arbitrary: p)
  case (Cons x xs)
  then show ?case by (cases x) auto
qed simp

lemma dseg_dom: "dseg h p xs n \<Longrightarrow> a \<in> fst ` set xs \<Longrightarrow> h a \<noteq> None"
proof (induction xs arbitrary: p)
  case (Cons x xs)
  then show ?case by (cases x) auto
qed simp

text \<open>Changing the outer links of a segment: the \<open>next\<close> of its last and the \<open>prev\<close> of its first node.\<close>

definition same_but :: "addr set \<Rightarrow> list_heap \<Rightarrow> list_heap \<Rightarrow> bool" where
  "same_but A H H' \<longleftrightarrow> (\<forall>a. a \<notin> A \<longrightarrow> lh_nodes H' a = lh_nodes H a) \<and> lh_next H' = lh_next H \<and> lh_freed H' = lh_freed H"

lemma upd_if_next:
  assumes "dseg (lh_nodes H) p xs n" "distinct (map fst xs)"
  obtains H' where "upd_if (last_of xs None) (\<lambda>x. x\<lparr>ln_next := q\<rparr>) H = Some H'" "dseg (lh_nodes H') p xs q"
    "same_but (set_option (last_of xs None)) H H'"
proof (cases xs rule: rev_cases)
  case Nil
  then show ?thesis using that [of H] by (simp add: upd_if_def same_but_def)
next
  case (snoc ys y)
  then show ?thesis using that assms
    by (cases y) (auto simp: upd_if_def upd_at_def dseg_append same_but_def)
qed

lemma upd_if_prev:
  assumes "dseg (lh_nodes H) p xs n" "distinct (map fst xs)"
  obtains H' where "upd_if (first_of xs None) (\<lambda>x. x\<lparr>ln_prev := q\<rparr>) H = Some H'" "dseg (lh_nodes H') q xs n"
    "same_but (set_option (first_of xs None)) H H'"
proof (cases xs)
  case Nil
  then show ?thesis using that [of H] by (simp add: upd_if_def same_but_def)
next
  case (Cons y ys)
  then show ?thesis using that assms
    by (cases y) (auto simp: upd_if_def upd_at_def same_but_def)
qed

lemma last_of_in: "set_option (last_of xs None) \<subseteq> fst ` set xs"
  by (auto simp: last_of_def)

lemma first_of_in: "set_option (first_of xs None) \<subseteq> fst ` set xs"
  by (auto simp: first_of_def)

text \<open>A new node between two parts of a list.\<close>

lemma splice_node:
  assumes d: "dseg (lh_nodes H) None (pre @ post) None" "distinct (map fst (pre @ post))" and ok: "heap_ok H"
    and n: "new_node \<lparr>ln_prev = last_of pre None, ln_next = first_of post None, ln_value = v\<rparr> H = (a, H1)"
  obtains H2 H3 where "upd_if (last_of pre None) (\<lambda>x. x\<lparr>ln_next := Some a\<rparr>) H1 = Some H2"
    "upd_if (first_of post None) (\<lambda>x. x\<lparr>ln_prev := Some a\<rparr>) H2 = Some H3"
    "dseg (lh_nodes H3) None (pre @ (a, v) # post) None" "distinct (map fst (pre @ (a, v) # post))" "heap_ok H3"
    "\<And>b. b \<noteq> a \<Longrightarrow> b \<notin> fst ` set (pre @ post) \<Longrightarrow> lh_nodes H3 b = lh_nodes H b" "a = lh_next H" "lh_next H3 = lh_next H + 1"
proof -
  have a: "a = lh_next H" "H1 = H\<lparr>lh_nodes := (lh_nodes H)(a := Some \<lparr>ln_prev = last_of pre None, ln_next = first_of post None, ln_value = v\<rparr>), lh_next := lh_next H + 1\<rparr>"
    using n by (auto simp: new_node_def)
  have fresh: "a \<notin> fst ` set (pre @ post)" using dseg_dom [OF d(1), of a] ok a(1) by (auto simp: heap_ok_def)
  have pre: "dseg (lh_nodes H1) None pre (first_of post None)" and post: "dseg (lh_nodes H1) (last_of pre None) post None"
    using d(1) fresh by (simp_all add: a dseg_append image_Un)
  obtain H2 where H2: "upd_if (last_of pre None) (\<lambda>x. x\<lparr>ln_next := Some a\<rparr>) H1 = Some H2" "dseg (lh_nodes H2) None pre (Some a)"
      "same_but (set_option (last_of pre None)) H1 H2"
    using upd_if_next [OF pre, of "Some a"] d(2) by auto
  have dis: "fst ` set pre \<inter> fst ` set post = {}" using d(2) by auto
  have post2: "dseg (lh_nodes H2) (last_of pre None) post None"
    by (rule dseg_cong [OF post]) (use H2(3) last_of_in [of pre] dis in \<open>auto simp: same_but_def\<close>)
  obtain H3 where H3: "upd_if (first_of post None) (\<lambda>x. x\<lparr>ln_prev := Some a\<rparr>) H2 = Some H3" "dseg (lh_nodes H3) (Some a) post None"
      "same_but (set_option (first_of post None)) H2 H3"
    using upd_if_prev [OF post2, of "Some a"] d(2) by auto
  have pre3: "dseg (lh_nodes H3) None pre (Some a)"
    by (rule dseg_cong [OF H2(2)]) (use H3(3) first_of_in [of post] dis in \<open>auto simp: same_but_def\<close>)
  have a3: "lh_nodes H3 a = Some \<lparr>ln_prev = last_of pre None, ln_next = first_of post None, ln_value = v\<rparr>"
  proof -
    have "first_of post None \<noteq> Some a" "last_of pre None \<noteq> Some a"
      using first_of_in [of post] last_of_in [of pre] fresh by auto
    then show ?thesis using H3(3) H2(3) a(2) by (auto simp: same_but_def)
  qed
  have frame: "lh_nodes H3 b = lh_nodes H b" if "b \<noteq> a" "b \<notin> fst ` set (pre @ post)" for b
  proof -
    have "first_of post None \<noteq> Some b" "last_of pre None \<noteq> Some b"
      using first_of_in [of post] last_of_in [of pre] that(2) by auto
    then show ?thesis using H3(3) H2(3) a(2) that(1) by (auto simp: same_but_def)
  qed
  have nxt: "lh_next H3 = lh_next H + 1" using H3(3) H2(3) a(2) by (simp add: same_but_def)
  have "heap_ok H3"
    unfolding heap_ok_def nxt
  proof (intro allI impI)
    fix b assume b: "lh_next H + 1 \<le> b"
    then have "lh_nodes H b = None" using ok by (simp add: heap_ok_def)
    moreover have "b \<notin> fst ` set (pre @ post)" using dseg_dom [OF d(1), of b] calculation by blast
    ultimately show "lh_nodes H3 b = None" using frame [of b] b a(1) by simp
  qed
  moreover have "dseg (lh_nodes H3) None (pre @ (a, v) # post) None"
    using pre3 H3(2) a3 by (simp add: dseg_append)
  moreover have "distinct (map fst (pre @ (a, v) # post))" using d(2) fresh by auto
  ultimately show ?thesis using that H2(1) H3(1) frame nxt a(1) by blast
qed

section \<open>The operations on a well-formed list\<close>

text \<open>\<open>adds H l xs v pos H' l'\<close>: the new node with value \<open>v\<close> is at position \<open>pos\<close>; the nodes of other
  lists are untouched.\<close>

definition adds :: "list_heap \<Rightarrow> (addr \<times> val) list \<Rightarrow> val \<Rightarrow> nat \<Rightarrow> hilist \<Rightarrow> list_heap \<Rightarrow> bool" where
  "adds H xs v pos l' H' \<longleftrightarrow>
     dlist H' l' (take pos xs @ (lh_next H, v) # drop pos xs) \<and> heap_ok H' \<and> lh_next H' = lh_next H + 1 \<and>
     (\<forall>b. b \<noteq> lh_next H \<and> b \<notin> fst ` set xs \<longrightarrow> lh_nodes H' b = lh_nodes H b)"

lemma upd_at_eq: "p \<noteq> None \<Longrightarrow> upd_at p f H = upd_if p f H"
  by (auto simp: upd_if_def)

lemma listAddNodeHead_adds:
  assumes l: "dlist H l xs" and ok: "heap_ok H"
  shows "\<exists>l' H'. listAddNodeHead v l H [] = Some (True, l', H', []) \<and> adds H xs v 0 l' H' \<and>
    al_dup l' = al_dup l \<and> al_free l' = al_free l \<and> al_match l' = al_match l"
proof (cases "xs = []")
  case True
  with l ok show ?thesis
    by (auto simp: listAddNodeHead_def new_node_def adds_def dlist_def heap_ok_def)
next
  case False
  obtain a H1 where n: "new_node \<lparr>ln_prev = last_of [] None, ln_next = first_of xs None, ln_value = v\<rparr> H = (a, H1)" by fastforce
  obtain H2 H3 where h: "upd_if (last_of [] None) (\<lambda>x. x\<lparr>ln_next := Some a\<rparr>) H1 = Some H2"
    "upd_if (first_of xs None) (\<lambda>x. x\<lparr>ln_prev := Some a\<rparr>) H2 = Some H3"
    "dseg (lh_nodes H3) None ([] @ (a, v) # xs) None" "distinct (map fst ([] @ (a, v) # xs))" "heap_ok H3"
    "\<And>b. b \<noteq> a \<Longrightarrow> b \<notin> fst ` set ([] @ xs) \<Longrightarrow> lh_nodes H3 b = lh_nodes H b" "a = lh_next H" "lh_next H3 = lh_next H + 1"
    using splice_node [of H "[]" xs v a H1] l ok n by (auto simp: dlist_def)
  have hd: "al_head l = first_of xs None" "al_len l \<noteq> 0" "al_head l \<noteq> None" using l False by (auto simp: dlist_def first_of_def)
  have "H2 = H1" using h(1) by (simp add: upd_if_def)
  then have "listAddNodeHead v l H [] = Some (True, l\<lparr>al_head := Some a, al_len := al_len l + 1\<rparr>, H3, [])"
    using hd(2) n h(2) hd(1) upd_at_eq [OF hd(3)] by (simp add: listAddNodeHead_def)
  moreover have "adds H xs v 0 (l\<lparr>al_head := Some a, al_len := al_len l + 1\<rparr>) H3"
    using h l False by (auto simp: adds_def dlist_def last_of_def)
  ultimately show ?thesis by auto
qed

lemma listAddNodeTail_adds:
  assumes l: "dlist H l xs" and ok: "heap_ok H"
  shows "\<exists>l' H'. listAddNodeTail v l H [] = Some (True, l', H', []) \<and> adds H xs v (length xs) l' H' \<and>
    al_dup l' = al_dup l \<and> al_free l' = al_free l \<and> al_match l' = al_match l"
proof (cases "xs = []")
  case True
  with l ok show ?thesis
    by (auto simp: listAddNodeTail_def new_node_def adds_def dlist_def heap_ok_def)
next
  case False
  obtain a H1 where n: "new_node \<lparr>ln_prev = last_of xs None, ln_next = first_of [] None, ln_value = v\<rparr> H = (a, H1)" by fastforce
  obtain H2 H3 where h: "upd_if (last_of xs None) (\<lambda>x. x\<lparr>ln_next := Some a\<rparr>) H1 = Some H2"
    "upd_if (first_of [] None) (\<lambda>x. x\<lparr>ln_prev := Some a\<rparr>) H2 = Some H3"
    "dseg (lh_nodes H3) None (xs @ (a, v) # []) None" "distinct (map fst (xs @ (a, v) # []))" "heap_ok H3"
    "\<And>b. b \<noteq> a \<Longrightarrow> b \<notin> fst ` set (xs @ []) \<Longrightarrow> lh_nodes H3 b = lh_nodes H b" "a = lh_next H" "lh_next H3 = lh_next H + 1"
    using splice_node [of H xs "[]" v a H1] l ok n by (auto simp: dlist_def)
  have hd: "al_tail l = last_of xs None" "al_len l \<noteq> 0" "al_tail l \<noteq> None" using l False by (auto simp: dlist_def last_of_def)
  have "H3 = H2" using h(2) by (simp add: upd_if_def)
  then have "listAddNodeTail v l H [] = Some (True, l\<lparr>al_tail := Some a, al_len := al_len l + 1\<rparr>, H3, [])"
    using hd(2) n h(1) hd(1) upd_at_eq [OF hd(3)] by (simp add: listAddNodeTail_def)
  moreover have "adds H xs v (length xs) (l\<lparr>al_tail := Some a, al_len := al_len l + 1\<rparr>) H3"
    using h l False by (auto simp: adds_def dlist_def first_of_def)
  ultimately show ?thesis by auto
qed

lemma listInsertNode_adds:
  assumes l: "dlist H l xs" and ok: "heap_ok H" and i: "i < length xs"
  shows "\<exists>l' H'. listInsertNode (fst (xs ! i)) v after l H [] = Some (True, l', H', []) \<and>
    adds H xs v (if after then i + 1 else i) l' H'"
proof -
  let ?k = "if after then i + 1 else i"
  let ?pre = "take ?k xs" and ?post = "drop ?k xs" and ?old = "fst (xs ! i)"
  have sp: "xs = take i xs @ xs ! i # drop (i + 1) xs" using i by (simp add: id_take_nth_drop)
  obtain old where old: "xs ! i = (?old, old)" by (metis prod.collapse)
  have seg: "dseg (lh_nodes H) None xs None" "distinct (map fst xs)" "al_head l = first_of xs None" "al_tail l = last_of xs None"
    using l by (simp_all add: dlist_def)
  have nd: "lh_nodes H ?old = Some \<lparr>ln_prev = last_of (take i xs) None, ln_next = first_of (drop (i + 1) xs) None, ln_value = old\<rparr>"
  proof -
    have "dseg (lh_nodes H) None (take i xs @ (?old, old) # drop (i + 1) xs) None" using seg(1) sp old by metis
    then show ?thesis by (simp add: dseg_append)
  qed
  obtain a H1 where n: "new_node \<lparr>ln_prev = last_of ?pre None, ln_next = first_of ?post None, ln_value = v\<rparr> H = (a, H1)" by fastforce
  obtain H2 H3 where h: "upd_if (last_of ?pre None) (\<lambda>x. x\<lparr>ln_next := Some a\<rparr>) H1 = Some H2"
    "upd_if (first_of ?post None) (\<lambda>x. x\<lparr>ln_prev := Some a\<rparr>) H2 = Some H3"
    "dseg (lh_nodes H3) None (?pre @ (a, v) # ?post) None" "distinct (map fst (?pre @ (a, v) # ?post))" "heap_ok H3"
    "\<And>b. b \<noteq> a \<Longrightarrow> b \<notin> fst ` set (?pre @ ?post) \<Longrightarrow> lh_nodes H3 b = lh_nodes H b" "a = lh_next H" "lh_next H3 = lh_next H + 1"
    using splice_node [of H ?pre ?post v a H1] seg ok n by auto
  have tk: "take (i + 1) xs = take i xs @ [xs ! i]" using i by (simp add: take_Suc_conv_app_nth)
  have dr: "drop i xs = xs ! i # drop (i + 1) xs" using i by (simp add: Cons_nth_drop_Suc)
  have links: "(if after then Some ?old else last_of (take i xs) None) = last_of ?pre None"
    "(if after then first_of (drop (i + 1) xs) None else Some ?old) = first_of ?post None"
    using tk dr by (cases after; simp)+
  have ne: "xs \<noteq> []" using i by auto
  have "al_tail l = Some (map fst xs ! (length xs - 1))" "al_head l = Some (map fst xs ! 0)"
    using seg(3,4) ne by (simp_all add: last_of_def first_of_def last_conv_nth hd_conv_nth)
  moreover have "(map fst xs ! (length xs - 1) = map fst xs ! i) = (length xs - 1 = i)" "(map fst xs ! 0 = map fst xs ! i) = (0 = i)"
    using nth_eq_iff_index_eq [OF seg(2), of "length xs - 1" i] nth_eq_iff_index_eq [OF seg(2), of 0 i] i ne by auto
  moreover have "(length xs - 1 = i) = (i + 1 = length xs)" "(0 = i) = (i = 0)" using i by linarith+
  ultimately have ends: "(al_tail l = Some ?old) = (i + 1 = length xs)" "(al_head l = Some ?old) = (i = 0)"
    using i by (metis nth_map option.inject)+
  define l1 where "l1 = (if after then (if al_tail l = Some ?old then l\<lparr>al_tail := Some a\<rparr> else l)
                       else (if al_head l = Some ?old then l\<lparr>al_head := Some a\<rparr> else l))"
  have "listInsertNode ?old v after l H [] = Some (True, l1\<lparr>al_len := al_len l1 + 1\<rparr>, H3, [])"
    using nd n h(1,2) links by (cases after) (simp_all add: listInsertNode_def l1_def Let_def)
  moreover have l1: "al_head l1 = first_of (?pre @ (a, v) # ?post) None" "al_tail l1 = last_of (?pre @ (a, v) # ?post) None"
    "al_len l1 = length xs"
    using seg i ends l by (auto simp: l1_def first_of_def last_of_def dlist_def hd_append)
  moreover have "adds H xs v ?k (l1\<lparr>al_len := al_len l1 + 1\<rparr>) H3"
  proof -
    have "?k \<le> length xs" using i by simp
    then have "length (?pre @ (a, v) # ?post) = length xs + 1" by simp
    then show ?thesis using h l1 unfolding adds_def dlist_def by (simp only: append_take_drop_id) simp
  qed
  ultimately show ?thesis by blast
qed

lemma listDelNode_removes:
  assumes l: "dlist H l xs" and ok: "heap_ok H" and i: "i < length xs"
  shows "\<exists>l' H'. listDelNode (fst (xs ! i)) l H = Some (l', H') \<and> dlist H' l' (take i xs @ drop (i + 1) xs) \<and> heap_ok H' \<and>
    lh_nodes H' (fst (xs ! i)) = None \<and> (\<forall>b. b \<notin> fst ` set xs \<longrightarrow> lh_nodes H' b = lh_nodes H b) \<and>
    lh_freed H' = lh_freed H @ (if al_free l then [snd (xs ! i)] else []) \<and> lh_next H' = lh_next H"
proof -
  let ?pre = "take i xs" and ?post = "drop (i + 1) xs" and ?a = "fst (xs ! i)" and ?v = "snd (xs ! i)"
  have sp: "xs = ?pre @ (?a, ?v) # ?post" using i by (simp add: id_take_nth_drop)
  have seg: "dseg (lh_nodes H) None (?pre @ (?a, ?v) # ?post) None" "distinct (map fst (?pre @ (?a, ?v) # ?post))"
      "al_head l = first_of (?pre @ (?a, ?v) # ?post) None" "al_tail l = last_of (?pre @ (?a, ?v) # ?post) None" "al_len l = length xs"
    using l sp by (metis dlist_def)+
  have fresh: "?a \<notin> fst ` set ?pre" "?a \<notin> fst ` set ?post" and dis: "fst ` set ?pre \<inter> fst ` set ?post = {}"
    using seg(2) by auto
  have nd: "lh_nodes H ?a = Some \<lparr>ln_prev = last_of ?pre None, ln_next = first_of ?post None, ln_value = ?v\<rparr>"
      and pre: "dseg (lh_nodes H) None ?pre (Some ?a)" and post: "dseg (lh_nodes H) (Some ?a) ?post None"
    using seg(1) by (simp_all add: dseg_append dseg_Cons)
  obtain H1 where H1: "upd_if (last_of ?pre None) (\<lambda>x. x\<lparr>ln_next := first_of ?post None\<rparr>) H = Some H1"
      "dseg (lh_nodes H1) None ?pre (first_of ?post None)" "same_but (set_option (last_of ?pre None)) H H1"
    using upd_if_next [OF pre, of "first_of ?post None"] seg(2) by auto
  have post1: "dseg (lh_nodes H1) (Some ?a) ?post None"
    by (rule dseg_cong [OF post]) (use H1(3) last_of_in [of ?pre] dis in \<open>auto simp: same_but_def\<close>)
  obtain H2 where H2: "upd_if (first_of ?post None) (\<lambda>x. x\<lparr>ln_prev := last_of ?pre None\<rparr>) H1 = Some H2"
      "dseg (lh_nodes H2) (last_of ?pre None) ?post None" "same_but (set_option (first_of ?post None)) H1 H2"
    using upd_if_prev [OF post1, of "last_of ?pre None"] seg(2) by auto
  have pre2: "dseg (lh_nodes H2) None ?pre (first_of ?post None)"
    by (rule dseg_cong [OF H1(2)]) (use H2(3) first_of_in [of ?post] dis in \<open>auto simp: same_but_def\<close>)
  define H3 where "H3 = free_node ?a (if al_free l then H2\<lparr>lh_freed := lh_freed H2 @ [?v]\<rparr> else H2)"
  define l2 where "l2 = (let l1 = (if last_of ?pre None = None then l\<lparr>al_head := first_of ?post None\<rparr> else l);
      l2 = (if first_of ?post None = None then l1\<lparr>al_tail := last_of ?pre None\<rparr> else l1) in l2\<lparr>al_len := al_len l2 - 1\<rparr>)"
  have run: "listDelNode ?a l H = Some (l2, H3)"
    using nd H1(1) H2(1) by (simp add: listDelNode_def Let_def l2_def H3_def)
  have n3: "lh_nodes H3 = (lh_nodes H2)(?a := None)" by (simp add: H3_def free_node_def)
  have frame: "lh_nodes H3 b = lh_nodes H b" if "b \<notin> fst ` set xs" for b
  proof -
    have "fst ` set xs = fst ` set ?pre \<union> {?a} \<union> fst ` set ?post" by (subst sp) auto
    then have "b \<noteq> ?a" "first_of ?post None \<noteq> Some b" "last_of ?pre None \<noteq> Some b"
      using that first_of_in [of ?post] last_of_in [of ?pre] by auto
    then show ?thesis using H1(3) H2(3) by (simp add: n3 same_but_def)
  qed
  have "dseg (lh_nodes H3) None (?pre @ ?post) None" using pre2 H2(2) fresh by (simp add: n3 dseg_append)
  moreover have "al_head l2 = first_of (?pre @ ?post) None" "al_tail l2 = last_of (?pre @ ?post) None" "al_len l2 = length (?pre @ ?post)"
    using seg(3-5) i by (auto simp: l2_def Let_def first_of_def last_of_def)
  moreover have "distinct (map fst (?pre @ ?post))" using seg(2) by auto
  ultimately have "dlist H3 l2 (?pre @ ?post)" by (simp add: dlist_def)
  moreover have "heap_ok H3"
    unfolding heap_ok_def
  proof (intro allI impI)
    fix b assume "lh_next H3 \<le> b"
    then have "lh_nodes H b = None" using ok H1(3) H2(3) by (auto simp: heap_ok_def H3_def free_node_def same_but_def split: if_splits)
    moreover have "b \<notin> fst ` set xs" using dseg_dom [of "lh_nodes H" None xs None b] l calculation by (auto simp: dlist_def)
    ultimately show "lh_nodes H3 b = None" using frame by simp
  qed
  moreover have "lh_freed H3 = lh_freed H @ (if al_free l then [?v] else [])" "lh_next H3 = lh_next H" "lh_nodes H3 ?a = None"
    using H1(3) H2(3) by (simp_all add: H3_def free_node_def same_but_def)
  ultimately show ?thesis using run frame by blast
qed

lemma walk_next:
  "dseg (lh_nodes H) p xs None \<Longrightarrow> walk ln_next k (first_of xs None) H = Some (if k < length xs then Some (fst (xs ! k)) else None)"
proof (induction xs arbitrary: p k)
  case Nil
  then show ?case by (cases k) simp_all
next
  case (Cons x xs)
  then show ?case by (cases k; cases x) auto
qed

lemma walk_prev:
  "dseg (lh_nodes H) None xs n \<Longrightarrow>
   walk ln_prev k (last_of xs None) H = Some (if k < length xs then Some (fst (xs ! (length xs - 1 - k))) else None)"
proof (induction xs arbitrary: n k rule: rev_induct)
  case Nil
  then show ?case by (cases k) simp_all
next
  case (snoc x xs)
  then show ?case by (cases k; cases x) (auto simp: dseg_append nth_append)
qed

lemma search_loop_finds:
  assumes "dseg (lh_nodes H) p xs None" "length xs < k"
  shows "search_loop k match key \<lparr>li_next = first_of xs None, li_direction = AL_START_HEAD\<rparr> H =
    Some (map_option fst (find (\<lambda>x. case match of Some f \<Rightarrow> f (snd x) key | None \<Rightarrow> key = snd x) xs))"
  using assms
proof (induction xs arbitrary: p k)
  case Nil
  then show ?case by (cases k) (simp_all add: listNext_def)
next
  case (Cons x xs)
  obtain j where k: "k = Suc j" "length xs < j" using Cons.prems(2) by (cases k) auto
  with Cons show ?case by (cases x) (auto simp: listNext_def split: option.splits)
qed

lemma listRotate_rotates:
  assumes l: "dlist H l (xs @ [y])" and ok: "heap_ok H"
  shows "\<exists>l' H'. listRotate l H = Some (l', H') \<and> dlist H' l' (y # xs) \<and> heap_ok H' \<and>
    (\<forall>b. b \<notin> fst ` set (xs @ [y]) \<longrightarrow> lh_nodes H' b = lh_nodes H b)"
proof (cases xs rule: rev_cases)
  case Nil
  with l ok show ?thesis by (auto simp: listRotate_def dlist_def)
next
  case (snoc ys z)
  obtain t v where y: "y = (t, v)" by (cases y)
  have seg: "dseg (lh_nodes H) None (xs @ [(t, v)]) None" "distinct (map fst (xs @ [(t, v)]))"
      "al_head l = first_of xs None" "al_tail l = Some t" "al_len l = length xs + 1" "xs \<noteq> []"
    using l snoc by (simp_all add: dlist_def y first_of_def hd_append)
  have nd: "lh_nodes H t = Some \<lparr>ln_prev = last_of xs None, ln_next = None, ln_value = v\<rparr>"
      and pre: "dseg (lh_nodes H) None xs (Some t)" and fresh: "t \<notin> fst ` set xs" "distinct (map fst xs)"
    using seg(1,2) by (simp_all add: dseg_append)
  obtain H1 where H1: "upd_if (last_of xs None) (\<lambda>x. x\<lparr>ln_next := None\<rparr>) H = Some H1" "dseg (lh_nodes H1) None xs None"
      "same_but (set_option (last_of xs None)) H H1"
    using upd_if_next [OF pre fresh(2), of None] by auto
  obtain H2 where H2: "upd_if (first_of xs None) (\<lambda>x. x\<lparr>ln_prev := Some t\<rparr>) H1 = Some H2" "dseg (lh_nodes H2) (Some t) xs None"
      "same_but (set_option (first_of xs None)) H1 H2"
    using upd_if_prev [OF H1(2) fresh(2), of "Some t"] by auto
  have t2: "lh_nodes H2 t = lh_nodes H t"
  proof -
    have "first_of xs None \<noteq> Some t" "last_of xs None \<noteq> Some t" using fresh(1) first_of_in [of xs] last_of_in [of xs] by auto
    then show ?thesis using H1(3) H2(3) by (simp add: same_but_def)
  qed
  define H3 where "H3 = H2\<lparr>lh_nodes := (lh_nodes H2)(t := Some \<lparr>ln_prev = None, ln_next = first_of xs None, ln_value = v\<rparr>)\<rparr>"
  define l3 where "l3 = l\<lparr>al_tail := last_of xs None, al_head := Some t\<rparr>"
  have p: "last_of xs None \<noteq> None" "first_of xs None \<noteq> None" using seg(6) by (auto simp: last_of_def first_of_def)
  have run: "listRotate l H = Some (l3, H3)"
    using seg(3-6) nd H1(1) H2(1) t2 upd_at_eq [OF p(1)] upd_at_eq [OF p(2)]
    by (simp add: listRotate_def Let_def upd_at_def [of "Some t"] H3_def l3_def)
  have "dlist H3 l3 (y # xs)"
    using H2(2) fresh seg by (auto simp: dlist_def y H3_def l3_def last_of_def first_of_def)
  moreover have frame: "lh_nodes H3 b = lh_nodes H b" if "b \<notin> fst ` set (xs @ [y])" for b
  proof -
    have "b \<noteq> t" "first_of xs None \<noteq> Some b" "last_of xs None \<noteq> Some b"
      using that y first_of_in [of xs] last_of_in [of xs] by auto
    then show ?thesis using H1(3) H2(3) by (simp add: H3_def same_but_def)
  qed
  moreover have "heap_ok H3"
    unfolding heap_ok_def
  proof (intro allI impI)
    fix b assume "lh_next H3 \<le> b"
    then have "lh_nodes H b = None" using ok H1(3) H2(3) by (simp add: heap_ok_def H3_def same_but_def)
    moreover have "b \<notin> fst ` set (xs @ [y])" using dseg_dom [OF seg(1), of b] calculation y by auto
    ultimately show "lh_nodes H3 b = None" using frame by simp
  qed
  ultimately show ?thesis using run by blast
qed

lemma dlist_frame: "dlist H l xs \<Longrightarrow> (\<And>a. a \<in> fst ` set xs \<Longrightarrow> lh_nodes H' a = lh_nodes H a) \<Longrightarrow> dlist H' l xs"
  by (auto simp: dlist_def intro: dseg_cong)

lemma dup_loop_copies:
  assumes "dseg (lh_nodes H) p xs None" "dlist H copy ys" "heap_ok H" "length xs < k" "al_dup copy = None"
    and "fst ` set xs \<inter> fst ` set ys = {}"
  shows "\<exists>copy' H' zs. dup_loop k \<lparr>li_next = first_of xs None, li_direction = AL_START_HEAD\<rparr> copy H [] = Some (Some copy', H', []) \<and>
    dlist H' copy' zs \<and> map snd zs = map snd ys @ map snd xs \<and> heap_ok H' \<and>
    (\<forall>b. lh_nodes H b \<noteq> None \<and> b \<notin> fst ` set ys \<longrightarrow> lh_nodes H' b = lh_nodes H b)"
  using assms
proof (induction xs arbitrary: p k copy H ys)
  case Nil
  then show ?case by (cases k) (auto simp: listNext_def)
next
  case (Cons x xs)
  obtain j where k: "k = Suc j" "length xs < j" using Cons.prems(4) by (cases k) auto
  have nd: "lh_nodes H (fst x) = Some \<lparr>ln_prev = p, ln_next = first_of xs None, ln_value = snd x\<rparr>"
    and seg: "dseg (lh_nodes H) (Some (fst x)) xs None" using Cons.prems(1) by (simp_all add: dseg_Cons)
  obtain c1 H1 where a: "listAddNodeTail (snd x) copy H [] = Some (True, c1, H1, [])" "adds H ys (snd x) (length ys) c1 H1"
      "al_dup c1 = al_dup copy"
    using listAddNodeTail_adds [OF Cons.prems(2,3)] by blast
  let ?ys = "ys @ [(lh_next H, snd x)]"
  have d1: "dlist H1 c1 ?ys" "heap_ok H1"
    and fr: "\<And>b. b \<noteq> lh_next H \<Longrightarrow> b \<notin> fst ` set ys \<Longrightarrow> lh_nodes H1 b = lh_nodes H b"
    using a(2) by (auto simp: adds_def)
  have nn: "b \<noteq> lh_next H" if "lh_nodes H b \<noteq> None" for b using that Cons.prems(3) by (auto simp: heap_ok_def)
  have seg1: "dseg (lh_nodes H1) (Some (fst x)) xs None"
  proof (rule dseg_cong [OF seg])
    fix b assume "b \<in> fst ` set xs"
    then show "lh_nodes H1 b = lh_nodes H b" using fr [of b] nn [of b] dseg_dom [OF seg, of b] Cons.prems(6) by auto
  qed
  have "lh_next H \<notin> fst ` set xs" using nn [of "lh_next H"] dseg_dom [OF seg, of "lh_next H"] by auto
  then have disj: "fst ` set xs \<inter> fst ` set ?ys = {}" using Cons.prems(6) by auto
  from Cons.IH [OF seg1 d1 k(2) _ disj] a(3) Cons.prems(5) obtain c2 H2 zs where
    r: "dup_loop j \<lparr>li_next = first_of xs None, li_direction = AL_START_HEAD\<rparr> c1 H1 [] = Some (Some c2, H2, [])"
      "dlist H2 c2 zs" "map snd zs = map snd ?ys @ map snd xs" "heap_ok H2"
      "\<forall>b. lh_nodes H1 b \<noteq> None \<and> b \<notin> fst ` set ?ys \<longrightarrow> lh_nodes H2 b = lh_nodes H1 b" by auto
  have "dup_loop k \<lparr>li_next = first_of (x # xs) None, li_direction = AL_START_HEAD\<rparr> copy H [] = Some (Some c2, H2, [])"
    using nd a(1) r(1) k(1) Cons.prems(5) by (simp add: listNext_def)
  moreover have "lh_nodes H2 b = lh_nodes H b" if "lh_nodes H b \<noteq> None" "b \<notin> fst ` set ys" for b
  proof -
    have "lh_nodes H1 b = lh_nodes H b" using fr nn that by simp
    then show ?thesis using r(5) that nn [OF that(1)] by simp
  qed
  ultimately show ?case using r(2-4) by (intro exI [of _ c2] exI [of _ H2] exI [of _ zs]) simp
qed

section \<open>Properties\<close>

text \<open>C27: On a well-formed list the insertions put the value where they say (at the head, at the
  tail, before or after a node), the deletion takes out exactly the node it is given, hands its
  value to \<open>free\<close> once and releases the node; no operation touches memory outside the list or
  follows a bad pointer, and every result is a well-formed list again. An insertion whose node
  cannot be allocated answers NULL and changes neither the list nor the nodes.\<close>

theorem adlist_updates:
  assumes "dlist H l xs" "heap_ok H"
  shows "(\<exists>l1 H1. listAddNodeHead v l H [] = Some (True, l1, H1, []) \<and> adds H xs v 0 l1 H1) \<and>
    (\<exists>l1 H1. listAddNodeTail v l H [] = Some (True, l1, H1, []) \<and> adds H xs v (length xs) l1 H1) \<and>
    (\<forall>i < length xs. \<forall>after. \<exists>l1 H1. listInsertNode (fst (xs ! i)) v after l H [] = Some (True, l1, H1, []) \<and>
      adds H xs v (if after then i + 1 else i) l1 H1) \<and>
    (\<forall>i < length xs. \<exists>l1 H1. listDelNode (fst (xs ! i)) l H = Some (l1, H1) \<and>
      dlist H1 l1 (take i xs @ drop (i + 1) xs) \<and> heap_ok H1 \<and> lh_nodes H1 (fst (xs ! i)) = None \<and>
      lh_freed H1 = lh_freed H @ (if al_free l then [snd (xs ! i)] else []) \<and>
      (\<forall>b. b \<notin> fst ` set xs \<longrightarrow> lh_nodes H1 b = lh_nodes H b)) \<and>
    (\<forall>m. listAddNodeHead v l H (False # m) = Some (False, l, H, m) \<and> listAddNodeTail v l H (False # m) = Some (False, l, H, m) \<and>
      (\<forall>old after. listInsertNode old v after l H (False # m) = Some (False, l, H, m)))"
  by (intro conjI allI impI)
    (use listAddNodeHead_adds [OF assms] listAddNodeTail_adds [OF assms] listInsertNode_adds [OF assms]
      listDelNode_removes [OF assms] in \<open>blast | simp add: listAddNodeHead_def listAddNodeTail_def listInsertNode_def\<close>)+

definition empty_heap :: list_heap where
  "empty_heap = \<lparr>lh_nodes = (\<lambda>_. None), lh_next = 0, lh_freed = []\<rparr>"

definition empty_list :: hilist where
  "empty_list = \<lparr>al_head = None, al_tail = None, al_dup = None, al_free = False, al_match = None, al_len = 0\<rparr>"

text \<open>The list with the values 7 and 9 at the addresses 0 and 1.\<close>

definition demo_heap :: list_heap where
  "demo_heap = \<lparr>lh_nodes = (\<lambda>_. None)(0 := Some \<lparr>ln_prev = None, ln_next = Some 1, ln_value = 7\<rparr>,
     1 := Some \<lparr>ln_prev = Some 0, ln_next = None, ln_value = 9\<rparr>), lh_next = 2, lh_freed = []\<rparr>"

definition demo_list :: hilist where
  "demo_list = \<lparr>al_head = Some 0, al_tail = Some 1, al_dup = None, al_free = True, al_match = None, al_len = 2\<rparr>"

lemma demo_ok: "dlist demo_heap demo_list [(0, 7), (1, 9)]" "heap_ok demo_heap"
  by (auto simp: dlist_def demo_heap_def demo_list_def heap_ok_def)

theorem adlist_updates_witness:
  "\<exists>l1 H1. listDelNode 0 demo_list demo_heap = Some (l1, H1) \<and> dlist H1 l1 [(1, 9)] \<and> lh_freed H1 = [7]"
proof -
  have "\<exists>l1 H1. listDelNode (fst ([(0, 7), (1, 9)] ! 0)) demo_list demo_heap = Some (l1, H1) \<and>
      dlist H1 l1 (take 0 [(0, 7), (1, 9)] @ drop (0 + 1) [(0, 7), (1, 9)]) \<and>
      lh_freed H1 = lh_freed demo_heap @ (if al_free demo_list then [snd ([(0, 7), (1, 9)] ! 0)] else [])"
    using adlist_updates [OF demo_ok, of 3, THEN conjunct2, THEN conjunct2, THEN conjunct2, THEN conjunct1] by force
  then show ?thesis by (simp add: demo_heap_def demo_list_def)
qed

text \<open>Look-ups. The search returns the first node whose value matches, the index counts from the
  head or, when negative, from the tail, and both answer NULL outside the list.\<close>

theorem adlist_lookups:
  assumes "dlist H l xs"
  shows "listSearchKey l key H =
      Some (map_option fst (find (\<lambda>x. case al_match l of Some f \<Rightarrow> f (snd x) key | None \<Rightarrow> key = snd x) xs)) \<and>
    listIndex l i H = Some (if 0 \<le> i \<and> i < int (length xs) then Some (fst (xs ! nat i))
      else if i < 0 \<and> - i \<le> int (length xs) then Some (fst (xs ! nat (int (length xs) + i))) else None)"
proof -
  have seg: "dseg (lh_nodes H) None xs None" "al_head l = first_of xs None" "al_tail l = last_of xs None" "al_len l = length xs"
    using assms by (simp_all add: dlist_def)
  have "nat (int (length xs) + i) = length xs - 1 - nat (- i - 1)" if "i < 0" "- i \<le> int (length xs)" using that by linarith
  moreover have "(nat (- i - 1) < length xs) = (- i \<le> int (length xs))" if "i < 0" using that by linarith
  moreover have "(nat i < length xs) = (i < int (length xs))" if "0 \<le> i" using that by linarith
  ultimately have "listIndex l i H = Some (if 0 \<le> i \<and> i < int (length xs) then Some (fst (xs ! nat i))
      else if i < 0 \<and> - i \<le> int (length xs) then Some (fst (xs ! nat (int (length xs) + i))) else None)"
    using walk_next [OF seg(1)] walk_prev [OF seg(1)] by (simp add: listIndex_def seg)
  moreover have "listSearchKey l key H =
      Some (map_option fst (find (\<lambda>x. case al_match l of Some f \<Rightarrow> f (snd x) key | None \<Rightarrow> key = snd x) xs))"
    using search_loop_finds [OF seg(1), of "Suc (length xs)"] by (simp add: listSearchKey_def listRewind_def seg)
  ultimately show ?thesis by simp
qed

theorem adlist_lookups_witness:
  "listSearchKey demo_list 9 demo_heap = Some (Some 1) \<and> listIndex demo_list (-1) demo_heap = Some (Some 1)"
  using adlist_lookups [OF demo_ok(1), of 9 "-1"] by (simp add: demo_list_def)

text \<open>Rotation moves the tail to the head, and a copy made without a \<open>dup\<close> method has the same
  values in the same order in new nodes; the nodes that were there before are not changed.\<close>

theorem adlist_rotate_dup:
  assumes "dlist H l (xs @ [y])" "heap_ok H" "al_dup l = None"
  shows "(\<exists>l1 H1. listRotate l H = Some (l1, H1) \<and> dlist H1 l1 (y # xs)) \<and>
    (\<exists>copy H1 zs. listDup l H [] = Some (Some copy, H1, []) \<and> dlist H1 copy zs \<and> map snd zs = map snd (xs @ [y]) \<and>
      dlist H1 l (xs @ [y]))"
proof -
  have seg: "dseg (lh_nodes H) None (xs @ [y]) None" "al_head l = first_of (xs @ [y]) None" "al_len l = length (xs @ [y])"
    using assms(1) by (simp_all add: dlist_def)
  define c where "c = empty_list\<lparr>al_free := al_free l, al_match := al_match l\<rparr>"
  have "dlist H c []" "al_dup c = None" by (simp_all add: c_def empty_list_def dlist_def)
  from dup_loop_copies [OF seg(1) this(1) assms(2) _ this(2), of "Suc (al_len l)"] seg(3)
  obtain copy H1 zs where r: "dup_loop (Suc (al_len l)) \<lparr>li_next = first_of (xs @ [y]) None, li_direction = AL_START_HEAD\<rparr> c H [] =
      Some (Some copy, H1, [])" "dlist H1 copy zs" "map snd zs = map snd (xs @ [y])"
      "\<forall>b. lh_nodes H b \<noteq> None \<longrightarrow> lh_nodes H1 b = lh_nodes H b" by auto
  have "listDup l H [] = Some (Some copy, H1, [])"
    using r(1) assms(3) seg(2) by (simp add: listDup_def listCreate_def listRewind_def c_def empty_list_def)
  moreover have "dlist H1 l (xs @ [y])"
    by (rule dlist_frame [OF assms(1)]) (use r(4) dseg_dom [OF seg(1)] in blast)
  ultimately show ?thesis using r(2,3) listRotate_rotates [OF assms(1,2)] by blast
qed

theorem adlist_rotate_dup_witness:
  "\<exists>l1 H1. listRotate (demo_list\<lparr>al_dup := None\<rparr>) demo_heap = Some (l1, H1) \<and> dlist H1 l1 [(1, 9), (0, 7)]"
proof -
  have "dlist demo_heap (demo_list\<lparr>al_dup := None\<rparr>) ([(0, 7)] @ [(1, 9)])" using demo_ok(1) by (simp add: dlist_def)
  from adlist_rotate_dup [OF this demo_ok(2)] show ?thesis by simp
qed

end
