(* ===== verification/Hiarray.thy ===== *)
theory Hiarray
  imports Prelude "HOL-Library.Multiset"
begin

text \<open>
  src/libredis/hiredis/hiarray.c, the growing array of fixed-size elements. The elements are the
  bytes of one memory block; a pointer to an element is its offset in the block. The counters
  are \<open>uint32_t\<close> in the source and wrap modulo 2^32 here too. A failed \<open>ASSERT\<close> is \<open>None\<close>. Bytes
  that \<open>malloc\<close> and \<open>realloc\<close> add are NUL here, and are written before they are read.
\<close>

section \<open>Array and operations\<close>

record hiarray =
  ha_nelem :: nat
  ha_elem :: bytes
  ha_size :: nat
  ha_nalloc :: nat

abbreviation UINT32 :: nat where "UINT32 \<equiv> 2 ^ 32"

definition hiarray_create :: "nat \<Rightarrow> nat \<Rightarrow> allocator \<Rightarrow> (hiarray option \<times> allocator) option" where
  "hiarray_create n sz m =
     (if n = 0 \<or> sz = 0 then None
      else Some (case alloc m of
        (False, m1) \<Rightarrow> (None, m1)
      | (True, m1) \<Rightarrow> (case alloc m1 of
          (False, m2) \<Rightarrow> (None, m2)
        | (True, m2) \<Rightarrow> (Some \<lparr>ha_nelem = 0, ha_elem = replicate (n * sz) NUL, ha_size = sz, ha_nalloc = n\<rparr>, m2))))"

definition hiarray_deinit :: "hiarray \<Rightarrow> hiarray option" where
  "hiarray_deinit a = (if ha_nelem a \<noteq> 0 then None else Some (a\<lparr>ha_elem := []\<rparr>))"

definition hiarray_idx :: "hiarray \<Rightarrow> nat \<Rightarrow> nat option" where
  "hiarray_idx a elem =
     (let off = elem mod UINT32; sz = ha_size a mod UINT32 in
      if off mod sz \<noteq> 0 then None else Some (off div sz))"

text \<open>The offset of the new element, or no offset when there is no memory.\<close>

definition hiarray_push :: "hiarray \<Rightarrow> allocator \<Rightarrow> nat option \<times> hiarray \<times> allocator" where
  "hiarray_push a m =
     (let put = (\<lambda>a. (Some (ha_size a * ha_nelem a), a\<lparr>ha_nelem := (ha_nelem a + 1) mod UINT32\<rparr>)) in
      if ha_nelem a = ha_nalloc a then
        (case alloc m of
           (False, m') \<Rightarrow> (None, a, m')
         | (True, m') \<Rightarrow>
             (let sz = ha_size a * ha_nalloc a;
                  a1 = a\<lparr>ha_elem := take (2 * sz) (ha_elem a) @ replicate (2 * sz - length (ha_elem a)) NUL,
                         ha_nalloc := (ha_nalloc a * 2) mod UINT32\<rparr> in
              (fst (put a1), snd (put a1), m')))
      else (fst (put a), snd (put a), m))"

definition hiarray_pop :: "hiarray \<Rightarrow> (nat \<times> hiarray) option" where
  "hiarray_pop a =
     (if ha_nelem a = 0 then None
      else Some (ha_size a * (ha_nelem a - 1), a\<lparr>ha_nelem := ha_nelem a - 1\<rparr>))"

definition hiarray_get :: "hiarray \<Rightarrow> nat \<Rightarrow> nat option" where
  "hiarray_get a idx = (if ha_nelem a = 0 \<or> idx \<ge> ha_nelem a then None else Some (ha_size a * idx))"

definition hiarray_top :: "hiarray \<Rightarrow> nat option" where
  "hiarray_top a = (if ha_nelem a = 0 then None else hiarray_get a (ha_nelem a - 1))"

definition hiarray_swap :: "hiarray \<Rightarrow> hiarray \<Rightarrow> hiarray \<times> hiarray" where
  "hiarray_swap a b = (b, a)"

text \<open>Reading and writing an element through its pointer, as the callers do.\<close>

definition load :: "hiarray \<Rightarrow> nat \<Rightarrow> bytes" where
  "load a off = take (ha_size a) (drop off (ha_elem a))"

definition store :: "nat \<Rightarrow> bytes \<Rightarrow> hiarray \<Rightarrow> hiarray" where
  "store off v a = a\<lparr>ha_elem := overwrite (ha_elem a) off v\<rparr>"

definition elems :: "hiarray \<Rightarrow> bytes list" where
  "elems a = map (\<lambda>i. load a (ha_size a * i)) [0..<ha_nelem a]"

text \<open>\<open>func\<close> gets the element and its data, may change both, and returns a status; 0 is \<open>HI_OK\<close>.\<close>

fun each_loop :: "nat \<Rightarrow> nat \<Rightarrow> (bytes \<Rightarrow> 'd \<Rightarrow> int \<times> bytes \<times> 'd) \<Rightarrow> 'd \<Rightarrow> hiarray \<Rightarrow> (int \<times> 'd \<times> hiarray) option" where
  "each_loop 0 i func d a = Some (0, d, a)"
| "each_loop (Suc k) i func d a =
     (case hiarray_get a i of
        None \<Rightarrow> None
      | Some off \<Rightarrow>
          (case func (load a off) d of (status, v, d') \<Rightarrow>
             if status \<noteq> 0 then Some (status, d', store off v a)
             else each_loop k (i + 1) func d' (store off v a)))"

definition hiarray_each :: "(bytes \<Rightarrow> 'd \<Rightarrow> int \<times> bytes \<times> 'd) \<Rightarrow> 'd \<Rightarrow> hiarray \<Rightarrow> (int \<times> 'd \<times> hiarray) option" where
  "hiarray_each func d a = (if ha_nelem a = 0 then None else each_loop (ha_nelem a) 0 func d a)"

text \<open>\<open>qsort\<close> on the elements; the order of elements that compare equal, which C leaves open, is
  that of a stable sort here.\<close>

fun insert_by :: "(bytes \<Rightarrow> bytes \<Rightarrow> int) \<Rightarrow> bytes \<Rightarrow> bytes list \<Rightarrow> bytes list" where
  "insert_by cmp x [] = [x]"
| "insert_by cmp x (y # ys) = (if cmp x y \<le> 0 then x # y # ys else y # insert_by cmp x ys)"

definition hiarray_sort :: "(bytes \<Rightarrow> bytes \<Rightarrow> int) \<Rightarrow> hiarray \<Rightarrow> hiarray option" where
  "hiarray_sort cmp a =
     (if ha_nelem a = 0 then None
      else Some (a\<lparr>ha_elem := concat (foldr (insert_by cmp) (elems a) []) @ drop (ha_size a * ha_nelem a) (ha_elem a)\<rparr>))"

section \<open>Invariant\<close>

definition ha_ok :: "hiarray \<Rightarrow> bool" where
  "ha_ok a \<longleftrightarrow> 0 < ha_size a \<and> 0 < ha_nalloc a \<and> ha_nelem a \<le> ha_nalloc a \<and> ha_nalloc a < UINT32 \<and>
     length (ha_elem a) = ha_nalloc a * ha_size a"

lemma slot_in_block:
  assumes "ha_ok a" "i < ha_nalloc a" shows "ha_size a * i + ha_size a \<le> length (ha_elem a)"
proof -
  have "ha_size a * i + ha_size a = (i + 1) * ha_size a" by (simp add: algebra_simps)
  also have "\<dots> \<le> ha_nalloc a * ha_size a" using assms(2) by (intro mult_right_mono) simp_all
  finally show ?thesis using assms(1) by (simp add: ha_ok_def)
qed

lemma load_store_same:
  "off + length v \<le> length (ha_elem a) \<Longrightarrow> length v = ha_size a \<Longrightarrow> load (store off v a) off = v"
  by (simp add: load_def store_def overwrite_def)

lemma load_store_other:
  assumes "ha_ok a" "i \<noteq> j" "i < ha_nalloc a" "j < ha_nalloc a" "length v = ha_size a"
  shows "load (store (ha_size a * i) v a) (ha_size a * j) = load a (ha_size a * j)"
proof (rule nth_equalityI)
  note bi = slot_in_block [OF assms(1,3)] and bj = slot_in_block [OF assms(1,4)]
  show "length (load (store (ha_size a * i) v a) (ha_size a * j)) = length (load a (ha_size a * j))"
    using bi assms(5) by (simp add: load_def store_def)
  fix k assume "k < length (load (store (ha_size a * i) v a) (ha_size a * j))"
  then have k: "k < ha_size a" using bi assms(5) by (simp add: load_def store_def)
  have sep: "ha_size a * j + k < ha_size a * i \<or> ha_size a * i + ha_size a \<le> ha_size a * j + k"
  proof (cases "j < i")
    case True
    then have "ha_size a * (j + 1) \<le> ha_size a * i" by (intro mult_left_mono) simp_all
    with k show ?thesis by (simp add: algebra_simps)
  next
    case False
    then have "ha_size a * (i + 1) \<le> ha_size a * j" using assms(2) by (intro mult_left_mono) simp_all
    then show ?thesis by (simp add: algebra_simps)
  qed
  show "load (store (ha_size a * i) v a) (ha_size a * j) ! k = load a (ha_size a * j) ! k"
    using k bi bj sep assms(5) by (auto simp: load_def store_def nth_overwrite)
qed

lemma elems_store:
  assumes "ha_ok a" "i < ha_nelem a" "length v = ha_size a"
  shows "elems (store (ha_size a * i) v a) = (elems a)[i := v]"
proof (rule nth_equalityI)
  fix j assume "j < length (elems (store (ha_size a * i) v a))"
  then have j: "j < ha_nelem a" by (simp add: elems_def store_def)
  have al: "i < ha_nalloc a" "j < ha_nalloc a" using assms(1,2) j by (auto simp: ha_ok_def)
  show "elems (store (ha_size a * i) v a) ! j = (elems a)[i := v] ! j"
    using load_store_same [of "ha_size a * i" v a] load_store_other [OF assms(1) _ al assms(3)] slot_in_block [OF assms(1) al(1)] assms j
    by (cases "i = j") (auto simp: elems_def store_def nth_list_update)
qed (simp add: elems_def store_def)

lemma store_ok: "ha_ok a \<Longrightarrow> off + length v \<le> length (ha_elem a) \<Longrightarrow> ha_ok (store off v a)"
  by (simp add: ha_ok_def store_def)

lemma hiarray_push_ok:
  assumes ok: "ha_ok a" and room: "ha_nelem a < 2 ^ 31"
  obtains a' where "hiarray_push a [] = (Some (ha_size a * ha_nelem a), a', [])" "ha_ok a'" "ha_size a' = ha_size a"
    "ha_nelem a' = ha_nelem a + 1" "take (length (ha_elem a)) (ha_elem a') = ha_elem a"
proof (cases "ha_nelem a = ha_nalloc a")
  case True
  define a' where "a' = a\<lparr>ha_elem := take (2 * (ha_size a * ha_nalloc a)) (ha_elem a) @
      replicate (2 * (ha_size a * ha_nalloc a) - length (ha_elem a)) NUL, ha_nalloc := (ha_nalloc a * 2) mod UINT32,
      ha_nelem := (ha_nelem a + 1) mod UINT32\<rparr>"
  have "hiarray_push a [] = (Some (ha_size a * ha_nelem a), a', [])"
    using True by (simp add: hiarray_push_def Let_def a'_def)
  moreover have "length (ha_elem a) = ha_size a * ha_nalloc a" using ok by (simp add: ha_ok_def)
  moreover from this have "ha_ok a'" using ok room True by (auto simp: ha_ok_def a'_def)
  ultimately show ?thesis using that [of a'] room by (simp add: a'_def)
next
  case False
  then have "hiarray_push a [] = (Some (ha_size a * ha_nelem a), a\<lparr>ha_nelem := (ha_nelem a + 1) mod UINT32\<rparr>, [])"
    by (simp add: hiarray_push_def Let_def)
  then show ?thesis using that ok False room by (auto simp: ha_ok_def)
qed

lemma load_prefix:
  "off + ha_size a \<le> length (ha_elem a) \<Longrightarrow> ha_size a' = ha_size a \<Longrightarrow> take (length (ha_elem a)) (ha_elem a') = ha_elem a \<Longrightarrow>
   load a' off = load a off"
  by (metis (no_types, lifting) load_def drop_take le_diff_conv2 min.absorb1 take_take add_leD1 add.commute)

section \<open>Properties\<close>

text \<open>C39: Push returns a slot inside the block, growing it when it is full and keeping every element;
  after the caller has stored a value there, the array has that value at its end, top and pop
  give the same slot and value, and pop restores the elements. The bound of 2^31 elements is
  what the 32-bit doubling of \<open>nalloc\<close> allows.\<close>

theorem hiarray_push_pop:
  assumes "ha_ok a" "ha_nelem a < 2 ^ 31" "length v = ha_size a"
  shows "\<exists>off a'. hiarray_push a [] = (Some off, a', []) \<and> off + ha_size a \<le> length (ha_elem a') \<and>
    ha_ok (store off v a') \<and> elems (store off v a') = elems a @ [v] \<and>
    hiarray_top (store off v a') = Some off \<and>
    (\<exists>c. hiarray_pop (store off v a') = Some (off, c) \<and> load c off = v \<and> elems c = elems a \<and> ha_ok c)"
proof -
  obtain a' where p: "hiarray_push a [] = (Some (ha_size a * ha_nelem a), a', [])" "ha_ok a'" "ha_size a' = ha_size a"
    "ha_nelem a' = ha_nelem a + 1" "take (length (ha_elem a)) (ha_elem a') = ha_elem a"
    using hiarray_push_ok [OF assms(1,2)] by blast
  let ?off = "ha_size a * ha_nelem a" and ?b = "store (ha_size a * ha_nelem a) v a'"
  have n: "ha_nelem a < ha_nalloc a'" using p(2,4) by (simp add: ha_ok_def)
  have blk: "?off + ha_size a \<le> length (ha_elem a')" using slot_in_block [OF p(2) n] p(3) by simp
  have ld: "load a' (ha_size a * i) = load a (ha_size a * i)" if "i < ha_nelem a" for i
    using load_prefix [OF slot_in_block [OF assms(1)] p(3,5), of i] that assms(1) by (simp add: ha_ok_def)
  have old: "elems a' = elems a @ [load a' ?off]"
    using ld p(3,4) by (simp add: elems_def)
  have len: "length (elems a) = ha_nelem a" by (simp add: elems_def)
  have b: "elems ?b = elems a @ [v]"
    using elems_store [OF p(2), of "ha_nelem a" v] p(3,4) assms(3) old list_update_length [of "elems a" "load a' ?off" "[]" v]
    by (simp add: len)
  have ok: "ha_ok ?b" using store_ok [OF p(2)] blk assms(3) by simp
  define c where "c = ?b\<lparr>ha_nelem := ha_nelem a\<rparr>"
  have "hiarray_pop ?b = Some (?off, c)" using p(3,4) by (simp add: hiarray_pop_def store_def c_def)
  moreover have "load c ?off = v"
    using load_store_same [of ?off v a'] blk assms(3) p(3) by (simp add: load_def c_def)
  moreover have "elems c = elems a"
  proof -
    have "elems ?b = elems c @ [load c (ha_size a * ha_nelem a)]"
      using p(3,4) by (simp add: elems_def c_def store_def load_def)
    with b show ?thesis by simp
  qed
  moreover have "ha_ok c" using ok n by (simp add: ha_ok_def c_def store_def)
  moreover have "hiarray_top ?b = Some ?off" using p(3,4) by (simp add: hiarray_top_def hiarray_get_def store_def)
  ultimately show ?thesis using p(1) blk ok b by blast
qed

definition demo_array :: hiarray where
  "demo_array = \<lparr>ha_nelem = 1, ha_elem = ''ab'', ha_size = 2, ha_nalloc = 1\<rparr>"

theorem hiarray_push_pop_witness:
  "\<exists>off a'. hiarray_push demo_array [] = (Some off, a', []) \<and> elems (store off ''cd'' a') = [''ab'', ''cd'']"
proof -
  have "ha_ok demo_array" "ha_nelem demo_array < 2 ^ 31" "length ''cd'' = ha_size demo_array"
    by (simp_all add: demo_array_def ha_ok_def)
  from hiarray_push_pop [OF this] show ?thesis by (fastforce simp: demo_array_def elems_def load_def)
qed

text \<open>What \<open>hiarray_each\<close> computes on the list of elements.\<close>

fun each_spec :: "(bytes \<Rightarrow> 'd \<Rightarrow> int \<times> bytes \<times> 'd) \<Rightarrow> 'd \<Rightarrow> bytes list \<Rightarrow> int \<times> 'd \<times> bytes list" where
  "each_spec func d [] = (0, d, [])"
| "each_spec func d (x # xs) =
     (case func x d of (status, v, d') \<Rightarrow>
        if status \<noteq> 0 then (status, d', v # xs)
        else case each_spec func d' xs of (r, d'', ys) \<Rightarrow> (r, d'', v # ys))"

lemma each_loop_refines:
  assumes "ha_ok a" "i + k = ha_nelem a" "\<And>v d. length (fst (snd (func v d))) = ha_size a"
  shows "\<exists>a'. each_loop k i func d a = Some (fst (each_spec func d (drop i (elems a))), fst (snd (each_spec func d (drop i (elems a)))), a') \<and>
    ha_ok a' \<and> elems a' = take i (elems a) @ snd (snd (each_spec func d (drop i (elems a))))"
  using assms
proof (induction k arbitrary: i d a)
  case 0
  then show ?case by (auto simp: elems_def)
next
  case (Suc k)
  have i: "i < ha_nelem a" "i < ha_nalloc a" using Suc.prems(1,2) by (auto simp: ha_ok_def)
  have len: "length (elems a) = ha_nelem a" by (simp add: elems_def)
  obtain st v d' where f: "func (load a (ha_size a * i)) d = (st, v, d')" by (metis prod_cases3)
  let ?b = "store (ha_size a * i) v a"
  have v: "length v = ha_size a" using Suc.prems(3) [of "load a (ha_size a * i)" d] f by simp
  have b: "ha_ok ?b" "elems ?b = (elems a)[i := v]" "ha_size ?b = ha_size a" "ha_nelem ?b = ha_nelem a"
    using store_ok [OF Suc.prems(1)] slot_in_block [OF Suc.prems(1) i(2)] v elems_store [OF Suc.prems(1) i(1) v]
    by (simp_all add: store_def)
  have dr: "drop i (elems a) = load a (ha_size a * i) # drop (i + 1) (elems a)"
    using i(1) len Cons_nth_drop_Suc [of i "elems a"] by (simp add: elems_def)
  have up: "drop (i + 1) (elems ?b) = drop (i + 1) (elems a)" "take (i + 1) (elems ?b) = take i (elems a) @ [v]"
    using b(2) i(1) len by (simp_all add: take_Suc_conv_app_nth)
  have g: "hiarray_get a i = Some (ha_size a * i)" using i(1) by (simp add: hiarray_get_def)
  show ?case
  proof (cases "st = 0")
    case False
    have "elems ?b = take i (elems a) @ v # drop (i + 1) (elems a)"
      using b(2) i(1) len by (simp add: upd_conv_take_nth_drop)
    with False g f b(1) dr show ?thesis by simp
  next
    case True
    have "\<exists>a'. each_loop k (i + 1) func d' ?b = Some (fst (each_spec func d' (drop (i + 1) (elems ?b))), fst (snd (each_spec func d' (drop (i + 1) (elems ?b)))), a') \<and>
      ha_ok a' \<and> elems a' = take (i + 1) (elems ?b) @ snd (snd (each_spec func d' (drop (i + 1) (elems ?b))))"
      using Suc.prems(2,3) b by (intro Suc.IH) simp_all
    with True g f dr up show ?thesis by (auto split: prod.splits)
  qed
qed

text \<open>\<open>hiarray_each\<close> visits the elements in order, hands on the data, stores what the callback
  makes of each element and stops at the first status that is not OK.\<close>

theorem hiarray_each_refines:
  assumes "ha_ok a" "ha_nelem a \<noteq> 0" "\<And>v d. length (fst (snd (func v d))) = ha_size a"
  shows "\<exists>a'. hiarray_each func d a = Some (fst (each_spec func d (elems a)), fst (snd (each_spec func d (elems a))), a') \<and>
    ha_ok a' \<and> elems a' = snd (snd (each_spec func d (elems a)))"
  using each_loop_refines [of a 0 "ha_nelem a" func d] assms by (simp add: hiarray_each_def)

theorem hiarray_each_refines_witness:
  "\<exists>a'. hiarray_each (\<lambda>v (n::nat). (0, rev (take 2 (v @ [NUL, NUL])), n + 1)) 0 demo_array = Some (0, 1, a') \<and> elems a' = [''ba'']"
proof -
  have "ha_ok demo_array" "ha_nelem demo_array \<noteq> 0" by (simp_all add: demo_array_def ha_ok_def)
  moreover have "length (fst (snd ((\<lambda>v (n::nat). (0::int, rev (take 2 (v @ [NUL, NUL])), n + 1)) v d))) = ha_size demo_array" for v d
    by (simp add: demo_array_def)
  ultimately show ?thesis
    using hiarray_each_refines [of demo_array "\<lambda>v (n::nat). (0, rev (take 2 (v @ [NUL, NUL])), n + 1)" 0]
    by (auto simp: demo_array_def elems_def load_def)
qed

end
