(* ===== verification/Sds.thy ===== *)
theory Sds
  imports Prelude "HOL-Library.Monad_Syntax"
begin

text \<open>
  The dynamic strings of hiredis (\<open>sds.c\<close>, \<open>sds.h\<close>): the five header formats with their field
  widths, creation, growth, in-place edits and appending. The memory behind the string pointer
  is a list of bytes as long as the allocated block, so a write outside the block is an outcome of
  the model.

  Results are \<open>Some\<close>, or \<open>None\<close> where the C program has no defined behaviour (an access
  outside the block, a null pointer, a failed \<open>assert\<close>). The \<open>NULL\<close> that the functions return
  when memory runs out is \<open>Some (None, m)\<close>. \<open>size_t\<close> has 64 bits and wraps.
\<close>

section \<open>Memory\<close>

text \<open>
  Fresh memory is not initialised. The coming answers of \<open>s_malloc\<close> and \<open>s_realloc\<close> are
  \<open>None\<close> (out of memory) or the bytes that happen to be in the block (padded with zeros to
  the size asked for); after the list, memory is always available.
\<close>

type_synonym memory = "bytes option list"

fun s_malloc :: "nat \<Rightarrow> memory \<Rightarrow> bytes option \<times> memory" where
  "s_malloc n [] = (Some (replicate n NUL), [])"
| "s_malloc n (a # m) = (map_option (\<lambda>g. take n (g @ replicate n NUL)) a, m)"

definition willing :: "memory \<Rightarrow> bool" where
  "willing m \<longleftrightarrow> None \<notin> set m"

abbreviation size_t :: "nat \<Rightarrow> nat" where
  "size_t n \<equiv> n mod 2 ^ 64"

abbreviation int32 :: "nat \<Rightarrow> int" where
  "int32 n \<equiv> sint (word_of_int (int n) :: 32 word)"

section \<open>The header\<close>

datatype sdstype = SDS_TYPE_5 | SDS_TYPE_8 | SDS_TYPE_16 | SDS_TYPE_32 | SDS_TYPE_64

text \<open>
  \<open>used\<close> and \<open>cap\<close> are the header's \<open>len\<close> and \<open>alloc\<close>; a type 5 header keeps its length
  in the upper five bits of the flags byte and has no \<open>alloc\<close>, so \<open>cap\<close> is not read there.
\<close>

record sds =
  sds_type :: sdstype
  used :: nat
  cap :: nat
  buf :: bytes

abbreviation SDS_MAX_PREALLOC :: nat where "SDS_MAX_PREALLOC \<equiv> 1048576"

fun len_range :: "sdstype \<Rightarrow> nat" where
  "len_range SDS_TYPE_5 = 2 ^ 5"
| "len_range SDS_TYPE_8 = 2 ^ 8"
| "len_range SDS_TYPE_16 = 2 ^ 16"
| "len_range SDS_TYPE_32 = 2 ^ 32"
| "len_range SDS_TYPE_64 = 2 ^ 64"

definition sdslen :: "sds \<Rightarrow> nat" where
  "sdslen s = used s"

text \<open>The operands of the difference are promoted to \<open>int\<close> for the two narrow types.\<close>

definition sdsavail :: "sds \<Rightarrow> nat" where
  "sdsavail s =
     (case sds_type s of
        SDS_TYPE_5 \<Rightarrow> 0
      | SDS_TYPE_32 \<Rightarrow> nat ((int (cap s) - int (used s)) mod 2 ^ 32)
      | _ \<Rightarrow> nat ((int (cap s) - int (used s)) mod 2 ^ 64))"

definition sdssetlen :: "sds \<Rightarrow> nat \<Rightarrow> sds" where
  "sdssetlen s newlen = s\<lparr>used := newlen mod len_range (sds_type s)\<rparr>"

definition sdsinclen :: "sds \<Rightarrow> nat \<Rightarrow> sds" where
  "sdsinclen s inc = s\<lparr>used := (used s + inc mod len_range (sds_type s)) mod len_range (sds_type s)\<rparr>"

definition sdsalloc :: "sds \<Rightarrow> nat" where
  "sdsalloc s = (case sds_type s of SDS_TYPE_5 \<Rightarrow> used s | _ \<Rightarrow> cap s)"

definition sdssetalloc :: "sds \<Rightarrow> nat \<Rightarrow> sds" where
  "sdssetalloc s newlen =
     (case sds_type s of
        SDS_TYPE_5 \<Rightarrow> s
      | _ \<Rightarrow> s\<lparr>cap := newlen mod len_range (sds_type s)\<rparr>)"

fun sdsHdrSize :: "sdstype \<Rightarrow> nat" where
  "sdsHdrSize SDS_TYPE_5 = 1"
| "sdsHdrSize SDS_TYPE_8 = 3"
| "sdsHdrSize SDS_TYPE_16 = 5"
| "sdsHdrSize SDS_TYPE_32 = 9"
| "sdsHdrSize SDS_TYPE_64 = 17"

definition sdsReqType :: "nat \<Rightarrow> sdstype" where
  "sdsReqType string_size =
     (if string_size < 32 then SDS_TYPE_5
      else if string_size < 0xff then SDS_TYPE_8
      else if string_size < 0xffff then SDS_TYPE_16
      else if string_size < 0xffffffff then SDS_TYPE_32
      else SDS_TYPE_64)"

text \<open>Writing bytes at an offset of the string, and reading bytes at an address.\<close>

definition poke :: "nat \<Rightarrow> bytes \<Rightarrow> sds \<Rightarrow> sds option" where
  "poke off bs s =
     (if off + length bs \<le> length (buf s) then Some (s\<lparr>buf := overwrite (buf s) off bs\<rparr>) else None)"

definition peek :: "bytes \<Rightarrow> nat \<Rightarrow> nat \<Rightarrow> bytes option" where
  "peek t off n = (if off + n \<le> length t then Some (take n (drop off t)) else None)"

section \<open>Creation\<close>

text \<open>A null \<open>init\<close> is \<open>None\<close>; otherwise the bytes that can be read at \<open>init\<close>.\<close>

definition sdsnewlen :: "bytes option \<Rightarrow> nat \<Rightarrow> memory \<Rightarrow> (sds option \<times> memory) option" where
  "sdsnewlen init initlen m =
     (let type = (if sdsReqType initlen = SDS_TYPE_5 \<and> initlen = 0 then SDS_TYPE_8 else sdsReqType initlen);
          hdrlen = sdsHdrSize type;
          total_size = size_t (hdrlen + initlen + 1)
      in case s_malloc total_size m of
           (None, m') \<Rightarrow> Some (None, m')
         | (Some block, m') \<Rightarrow>
             if total_size < hdrlen then None
             else do {
               let block = (case init of None \<Rightarrow> replicate total_size NUL | Some _ \<Rightarrow> block);
               let s = \<lparr>sds_type = type, used = initlen mod len_range type,
                        cap = initlen mod len_range type, buf = drop hdrlen block\<rparr>;
               s \<leftarrow> (case init of
                      None \<Rightarrow> Some s
                    | Some t \<Rightarrow> if initlen = 0 then Some s
                                else do { src \<leftarrow> peek t 0 initlen; poke 0 src s });
               s \<leftarrow> poke initlen [NUL] s;
               Some (Some s, m')
             })"

definition sdsempty :: "memory \<Rightarrow> (sds option \<times> memory) option" where
  "sdsempty m = sdsnewlen (Some [NUL]) 0 m"

definition sdsnew :: "bytes option \<Rightarrow> memory \<Rightarrow> (sds option \<times> memory) option" where
  "sdsnew init m = sdsnewlen init (case init of None \<Rightarrow> 0 | Some t \<Rightarrow> c_strlen t) m"

definition sdsdup :: "sds \<Rightarrow> memory \<Rightarrow> (sds option \<times> memory) option" where
  "sdsdup s m = sdsnewlen (Some (buf s)) (sdslen s) m"

section \<open>Length and room\<close>

definition sdsupdatelen :: "sds \<Rightarrow> sds" where
  "sdsupdatelen s = sdssetlen s (nat (int32 (c_strlen (buf s)) mod 2 ^ 64))"

definition sdsclear :: "sds \<Rightarrow> sds option" where
  "sdsclear s = poke 0 [NUL] (sdssetlen s 0)"

text \<open>
  A changed header size forces a new block and a copy; otherwise the block is reallocated and
  the header stays. \<open>newlen\<close> is the capacity, \<open>type\<close> the header type of the new block.
\<close>

definition resize :: "sds \<Rightarrow> sdstype \<Rightarrow> nat \<Rightarrow> memory \<Rightarrow> (sds option \<times> memory) option" where
  "resize s type newlen m =
     (let hdrlen = sdsHdrSize type; total_size = size_t (hdrlen + newlen + 1); len = sdslen s
      in case s_malloc total_size m of
           (None, m') \<Rightarrow> Some (None, m')
         | (Some block, m') \<Rightarrow>
             if total_size < hdrlen then None
             else if sds_type s = type
             then Some (Some (sdssetalloc
                    (s\<lparr>buf := take (total_size - hdrlen) (buf s) @ drop (length (buf s)) (drop hdrlen block)\<rparr>)
                    newlen), m')
             else do {
               src \<leftarrow> peek (buf s) 0 (len + 1);
               s' \<leftarrow> poke 0 src \<lparr>sds_type = type, used = 0, cap = 0, buf = drop hdrlen block\<rparr>;
               Some (Some (sdssetalloc (sdssetlen s' len) newlen), m')
             })"

definition sdsMakeRoomFor :: "sds \<Rightarrow> nat \<Rightarrow> memory \<Rightarrow> (sds option \<times> memory) option" where
  "sdsMakeRoomFor s addlen m =
     (if addlen \<le> sdsavail s then Some (Some s, m)
      else
        let newlen = size_t (sdslen s + addlen);
            newlen = size_t (if newlen < SDS_MAX_PREALLOC then newlen * 2 else newlen + SDS_MAX_PREALLOC);
            type = (if sdsReqType newlen = SDS_TYPE_5 then SDS_TYPE_8 else sdsReqType newlen)
        in resize s type newlen m)"

definition sdsRemoveFreeSpace :: "sds \<Rightarrow> memory \<Rightarrow> (sds option \<times> memory) option" where
  "sdsRemoveFreeSpace s m = resize s (sdsReqType (sdslen s)) (sdslen s) m"

definition sdsAllocSize :: "sds \<Rightarrow> nat" where
  "sdsAllocSize s = size_t (sdsHdrSize (sds_type s) + sdsalloc s + 1)"

text \<open>The assertions of \<open>sdsIncrLen\<close>; type 5 has one of its own.\<close>

definition incr_assert :: "sds \<Rightarrow> int \<Rightarrow> bool" where
  "incr_assert s incr =
     (case sds_type s of
        SDS_TYPE_5 \<Rightarrow> (0 < incr \<and> int (used s) + incr < 32) \<or> (incr < 0 \<and> - incr \<le> int (used s))
      | SDS_TYPE_32 \<Rightarrow> (0 \<le> incr \<and> incr \<le> (int (cap s) - int (used s)) mod 2 ^ 32) \<or> (incr < 0 \<and> - incr \<le> int (used s))
      | SDS_TYPE_64 \<Rightarrow> (0 \<le> incr \<and> incr \<le> (int (cap s) - int (used s)) mod 2 ^ 64) \<or> (incr < 0 \<and> - incr \<le> int (used s))
      | _ \<Rightarrow> (0 \<le> incr \<and> incr \<le> int (cap s) - int (used s)) \<or> (incr < 0 \<and> - incr \<le> int (used s)))"

definition sdsIncrLen :: "sds \<Rightarrow> int \<Rightarrow> sds option" where
  "sdsIncrLen s incr =
     (if \<not> incr_assert s incr then None
      else let len = nat ((int (used s) + incr) mod int (len_range (sds_type s)))
           in poke len [NUL] (s\<lparr>used := len\<rparr>))"

definition sdsgrowzero :: "sds \<Rightarrow> nat \<Rightarrow> memory \<Rightarrow> (sds option \<times> memory) option" where
  "sdsgrowzero s len m =
     (let curlen = sdslen s in
      if len \<le> curlen then Some (Some s, m)
      else do {
        (r, m) \<leftarrow> sdsMakeRoomFor s (len - curlen) m;
        case r of
          None \<Rightarrow> Some (None, m)
        | Some s \<Rightarrow> do { s \<leftarrow> poke curlen (replicate (len - curlen + 1) NUL) s; Some (Some (sdssetlen s len), m) }
      })"

section \<open>Appending and copying\<close>

definition sdscatlen :: "sds \<Rightarrow> bytes \<Rightarrow> nat \<Rightarrow> memory \<Rightarrow> (sds option \<times> memory) option" where
  "sdscatlen s t len m =
     (let curlen = sdslen s in
      do {
        (r, m) \<leftarrow> sdsMakeRoomFor s len m;
        case r of
          None \<Rightarrow> Some (None, m)
        | Some s \<Rightarrow> do {
            src \<leftarrow> peek t 0 len;
            s \<leftarrow> poke curlen src s;
            s \<leftarrow> poke (curlen + len) [NUL] (sdssetlen s (curlen + len));
            Some (Some s, m) }
      })"

definition sdscat :: "sds \<Rightarrow> bytes \<Rightarrow> memory \<Rightarrow> (sds option \<times> memory) option" where
  "sdscat s t m = sdscatlen s t (c_strlen t) m"

definition sdscatsds :: "sds \<Rightarrow> sds \<Rightarrow> memory \<Rightarrow> (sds option \<times> memory) option" where
  "sdscatsds s t m = sdscatlen s (buf t) (sdslen t) m"

definition sdscpylen :: "sds \<Rightarrow> bytes \<Rightarrow> nat \<Rightarrow> memory \<Rightarrow> (sds option \<times> memory) option" where
  "sdscpylen s t len m =
     do {
       (r, m) \<leftarrow> (if sdsalloc s < len then sdsMakeRoomFor s (len - sdslen s) m else Some (Some s, m));
       case r of
         None \<Rightarrow> Some (None, m)
       | Some s \<Rightarrow> do {
           src \<leftarrow> peek t 0 len;
           s \<leftarrow> poke 0 src s;
           s \<leftarrow> poke len [NUL] s;
           Some (Some (sdssetlen s len), m) }
     }"

definition sdscpy :: "sds \<Rightarrow> bytes \<Rightarrow> memory \<Rightarrow> (sds option \<times> memory) option" where
  "sdscpy s t m = sdscpylen s t (c_strlen t) m"

section \<open>In-place edits\<close>

text \<open>\<open>strchr (cset, c)\<close> also finds the terminating NUL of the set.\<close>

definition strchr_in :: "bytes \<Rightarrow> byte \<Rightarrow> bool" where
  "strchr_in cset c \<longleftrightarrow> c = NUL \<or> c \<in> set (c_str cset)"

text \<open>The two loops of \<open>sdstrim\<close> on offsets: \<open>sp\<close> may reach \<open>end + 1\<close>; \<open>ep\<close> stops at \<open>sp\<close>.\<close>

fun trim_left :: "bytes \<Rightarrow> bytes \<Rightarrow> nat" where
  "trim_left cset [] = 0"
| "trim_left cset (c # cs) = (if strchr_in cset c then Suc (trim_left cset cs) else 0)"

fun trim_right :: "bytes \<Rightarrow> bytes \<Rightarrow> nat \<Rightarrow> nat \<Rightarrow> nat" where
  "trim_right cset b sp 0 = 0"
| "trim_right cset b sp (Suc ep) =
     (if sp < Suc ep \<and> strchr_in cset (b ! Suc ep) then trim_right cset b sp ep else Suc ep)"

definition sdstrim :: "sds \<Rightarrow> bytes \<Rightarrow> sds option" where
  "sdstrim s cset =
     (let sp = trim_left cset (take (sdslen s) (buf s));
          len = (if sdslen s = 0 then 0
                 else let ep = trim_right cset (buf s) sp (sdslen s - 1)
                      in if ep < sp then 0 else ep - sp + 1)
      in do {
        src \<leftarrow> peek (buf s) sp len;
        s \<leftarrow> (if sp \<noteq> 0 then poke 0 src s else Some s);
        s \<leftarrow> poke len [NUL] s;
        Some (sdssetlen s len) })"

definition sdsrange :: "sds \<Rightarrow> int \<Rightarrow> int \<Rightarrow> (int \<times> sds) option" where
  "sdsrange s start end' =
     (let len = int (sdslen s) in
      if 2 ^ 63 - 1 < len then Some (-1, s)
      else if len = 0 then Some (0, s)
      else
        let start = (if start < 0 then max 0 (len + start) else start);
            end' = (if end' < 0 then max 0 (len + end') else end');
            newlen = (if end' < start then 0 else (end' - start + 1) mod 2 ^ 64);
            (start, newlen) =
              (if newlen \<noteq> 0
               then if len \<le> start then (start, 0)
                    else if len \<le> end' then (start, if len - 1 < start then 0 else (len - 1 - start) + 1)
                    else (start, newlen)
               else (0, 0))
        in do {
          s \<leftarrow> (if start \<noteq> 0 \<and> newlen \<noteq> 0
               then do { src \<leftarrow> peek (buf s) (nat start) (nat newlen); poke 0 src s } else Some s);
          s \<leftarrow> poke (nat newlen) [NUL] s;
          Some (0, sdssetlen s (nat newlen)) })"

text \<open>The loops over \<open>j < len\<close> with \<open>int len = sdslen (s)\<close>; a negative \<open>len\<close> skips them.\<close>

definition map_prefix :: "(byte \<Rightarrow> byte) \<Rightarrow> int \<Rightarrow> sds \<Rightarrow> sds option" where
  "map_prefix f len s =
     do { src \<leftarrow> peek (buf s) 0 (nat len); poke 0 (map f src) s }"

definition sdstolower :: "sds \<Rightarrow> sds option" where
  "sdstolower s = map_prefix c_tolower (int32 (sdslen s)) s"

definition sdstoupper :: "sds \<Rightarrow> sds option" where
  "sdstoupper s = map_prefix c_toupper (int32 (sdslen s)) s"

fun mapchar :: "bytes \<Rightarrow> bytes \<Rightarrow> nat \<Rightarrow> byte \<Rightarrow> byte" where
  "mapchar (f # from) (t # to') (Suc n) c = (if c = f then t else mapchar from to' n c)"
| "mapchar _ _ _ c = c"

definition sdsmapchars :: "sds \<Rightarrow> bytes \<Rightarrow> bytes \<Rightarrow> nat \<Rightarrow> sds option" where
  "sdsmapchars s from to' setlen =
     (if setlen \<le> length from \<and> setlen \<le> length to'
      then do { src \<leftarrow> peek (buf s) 0 (sdslen s); poke 0 (map (mapchar from to' setlen) src) s }
      else None)"

definition sdscmp :: "sds \<Rightarrow> sds \<Rightarrow> int" where
  "sdscmp s1 s2 =
     (let l1 = sdslen s1; l2 = sdslen s2; cmp = c_memcmp (buf s1) (buf s2) (min l1 l2)
      in if cmp = 0 then sint (word_of_int (int l1 - int l2) :: 32 word) else cmp)"

section \<open>Well-formed strings and their contents\<close>

text \<open>The capacities that \<open>sdsReqType\<close> gives to a header type.\<close>

fun cap_limit :: "sdstype \<Rightarrow> nat" where
  "cap_limit SDS_TYPE_5 = 32"
| "cap_limit SDS_TYPE_8 = 0xff"
| "cap_limit SDS_TYPE_16 = 0xffff"
| "cap_limit SDS_TYPE_32 = 0xffffffff"
| "cap_limit SDS_TYPE_64 = 2 ^ 64"

definition sds_room :: "sds \<Rightarrow> bool" where
  "sds_room s \<longleftrightarrow> sdslen s \<le> sdsalloc s \<and> sdsalloc s < length (buf s) \<and> sdsalloc s < cap_limit (sds_type s)"

definition sds_ok :: "sds \<Rightarrow> bool" where
  "sds_ok s \<longleftrightarrow> sds_room s \<and> buf s ! sdslen s = NUL"

definition content :: "sds \<Rightarrow> bytes" where
  "content s = take (sdslen s) (buf s)"

lemma length_content [simp]: "sds_ok s \<Longrightarrow> length (content s) = sdslen s"
  by (simp add: content_def sds_ok_def sds_room_def)

lemma cap_limit_range: "n < cap_limit t \<Longrightarrow> n < len_range t"
  by (cases t) auto

lemma cap_limit_64: "n < cap_limit t \<Longrightarrow> n < 2 ^ 64"
  by (cases t) auto

lemma sdsReqType_limit: "n < 2 ^ 64 \<Longrightarrow> n < cap_limit (sdsReqType n)"
  by (simp add: sdsReqType_def)

lemma sdsReqType_not5_limit:
  "n < 2 ^ 64 \<Longrightarrow> n < cap_limit (if sdsReqType n = SDS_TYPE_5 then SDS_TYPE_8 else sdsReqType n)"
  by (auto simp: sdsReqType_def)

lemma sdsHdrSize_le: "sdsHdrSize t \<le> 17"
  by (cases t) auto

lemma s_malloc_cases:
  obtains m' where "s_malloc n m = (None, m')" "\<not> willing m"
  | b m' where "s_malloc n m = (Some b, m')" "length b = n" "willing m \<Longrightarrow> willing m'"
proof (cases m)
  case Nil
  with that(2) show thesis by (simp add: willing_def)
next
  case (Cons a m')
  with that show thesis by (cases a) (auto simp: willing_def)
qed

lemma sdsavail_eq: "sds_room s \<Longrightarrow> sdsavail s = sdsalloc s - sdslen s"
  by (cases "sds_type s")
    (auto simp: sds_room_def sdsavail_def sdsalloc_def sdslen_def nat_diff_distrib)

lemma sds_room_setlen:
  "sds_room s \<Longrightarrow> n \<le> sdsalloc s \<Longrightarrow> sds_room (sdssetlen s n) \<and> sdslen (sdssetlen s n) = n"
  by (cases "sds_type s") (auto simp: sds_room_def sdssetlen_def sdsalloc_def sdslen_def)

lemma buf_setlen [simp]: "buf (sdssetlen s n) = buf s"
  by (simp add: sdssetlen_def)

lemma sdsalloc_buf [simp]: "sdsalloc (s\<lparr>buf := b\<rparr>) = sdsalloc s"
  and sdslen_buf [simp]: "sdslen (s\<lparr>buf := b\<rparr>) = sdslen s"
  and sdsavail_buf [simp]: "sdsavail (s\<lparr>buf := b\<rparr>) = sdsavail s"
  and setlen_buf: "sdssetlen (s\<lparr>buf := b\<rparr>) n = (sdssetlen s n)\<lparr>buf := b\<rparr>"
  by (simp_all add: sdsalloc_def sdslen_def sdsavail_def sdssetlen_def split: sdstype.split)

lemma sds_room_buf: "sds_room s \<Longrightarrow> length b = length (buf s) \<Longrightarrow> sds_room (s\<lparr>buf := b\<rparr>)"
  by (simp add: sds_room_def)

section \<open>Outcomes\<close>

text \<open>
  \<open>delivers m r Q\<close>: the call \<open>r\<close>, made with the memory answers \<open>m\<close>, has defined behaviour;
  it returns \<open>NULL\<close> only when memory was refused, and every string it returns satisfies \<open>Q\<close>.
\<close>

definition delivers :: "memory \<Rightarrow> ('a option \<times> memory) option \<Rightarrow> ('a \<Rightarrow> bool) \<Rightarrow> bool" where
  "delivers m r Q \<longleftrightarrow>
     (case r of
        None \<Rightarrow> False
      | Some (res, m') \<Rightarrow> (willing m \<longrightarrow> res \<noteq> None \<and> willing m') \<and> (case res of None \<Rightarrow> True | Some s \<Rightarrow> Q s))"

lemma delivers_iff:
  "delivers m r Q \<longleftrightarrow>
     (\<exists>res m'. r = Some (res, m') \<and> (willing m \<longrightarrow> res \<noteq> None \<and> willing m') \<and> (\<forall>s. res = Some s \<longrightarrow> Q s))"
  by (auto simp: delivers_def split: option.splits prod.splits)

lemma delivers_mono: "delivers m r P \<Longrightarrow> (\<And>s. P s \<Longrightarrow> Q s) \<Longrightarrow> delivers m r Q"
  unfolding delivers_iff by blast

lemma delivers_Some: "Q s \<Longrightarrow> delivers m (Some (Some s, m)) Q"
  by (simp add: delivers_iff)

lemma delivers_bind:
  assumes "delivers m r P"
    and "\<And>s m'. P s \<Longrightarrow> delivers m' (f s m') Q"
  shows "delivers m (do { (x, m') \<leftarrow> r; case x of None \<Rightarrow> Some (None, m') | Some s \<Rightarrow> f s m' }) Q"
proof -
  obtain x m' where r: "r = Some (x, m')" "willing m \<longrightarrow> x \<noteq> None \<and> willing m'" "\<forall>s. x = Some s \<longrightarrow> P s"
    using assms(1) unfolding delivers_iff by blast
  show ?thesis
  proof (cases x)
    case None
    with r show ?thesis by (auto simp: delivers_iff)
  next
    case (Some s)
    with assms(2) [of s m'] r show ?thesis
      by (auto simp: delivers_iff)
  qed
qed

lemma delivers_iffined: "delivers m r Q \<Longrightarrow> r \<noteq> None"
  by (auto simp: delivers_iff)

lemma delivers_willing: "delivers m r Q \<Longrightarrow> willing m \<Longrightarrow> \<exists>s m'. r = Some (Some s, m') \<and> willing m' \<and> Q s"
  by (auto simp: delivers_iff)

section \<open>Correctness of the primitives\<close>

text \<open>What \<open>sdsMakeRoomFor\<close> and \<open>resize\<close> keep: length, contents and the byte after them.\<close>

definition same_string :: "sds \<Rightarrow> sds \<Rightarrow> bool" where
  "same_string s s' \<longleftrightarrow> sds_room s' \<and> sdslen s' = sdslen s \<and>
     take (sdslen s + 1) (buf s') = take (sdslen s + 1) (buf s)"

lemma same_string_content: "same_string s s' \<Longrightarrow> content s' = content s"
  unfolding same_string_def content_def
  by (elim conjE, drule arg_cong [of "take _ _" _ "take (sdslen s)"]) simp

lemma same_string_ok: "same_string s s' \<Longrightarrow> sds_ok s \<Longrightarrow> sds_ok s'"
  unfolding same_string_def sds_ok_def
  by (elim conjE, drule arg_cong [of "take _ _" _ "\<lambda>xs. xs ! sdslen s"]) simp

lemma resize_same:
  assumes s: "sds_room s" and n: "sdslen s \<le> n" "n < cap_limit t" "n + 18 < 2 ^ 64"
  shows "delivers m (resize s t n m) (\<lambda>s'. same_string s s' \<and> (t \<noteq> SDS_TYPE_5 \<or> n = sdslen s \<longrightarrow> sdsalloc s' = n) \<and> sds_type s' = t \<and> length (buf s') = n + 1)"
proof (cases rule: s_malloc_cases [of "sdsHdrSize t + n + 1" m])
  case (1 m')
  then show ?thesis
    using n(3) sdsHdrSize_le [of t] by (auto simp: resize_def Let_def delivers_iff)
next
  case (2 b m')
  have size: "size_t (sdsHdrSize t + n + 1) = sdsHdrSize t + n + 1"
    using n(3) sdsHdrSize_le [of t] by simp
  have rng: "n mod len_range t = n" "sdslen s mod len_range t = sdslen s"
    using cap_limit_range [OF n(2)] n(1) by auto
  have rng': "used s mod len_range t = used s"
    using rng(2) by (simp add: sdslen_def)
  have room: "sdslen s \<le> sdsalloc s" "sdsalloc s < length (buf s)"
    using s by (auto simp: sds_room_def)
  show ?thesis
  proof (cases "sds_type s = t")
    case True
    let ?s = "sdssetalloc (s\<lparr>buf := take (n + 1) (buf s) @ drop (length (buf s)) (drop (sdsHdrSize t) b)\<rparr>) n"
    have "resize s t n m = Some (Some ?s, m')"
      using 2 size True by (simp add: resize_def Let_def)
    moreover have "same_string s ?s \<and> (t \<noteq> SDS_TYPE_5 \<or> n = sdslen s \<longrightarrow> sdsalloc ?s = n) \<and> sds_type ?s = t \<and> length (buf ?s) = n + 1"
      using True rng room n s 2(2)
      by (cases t) (auto simp: same_string_def sds_room_def sdssetalloc_def sdsalloc_def sdslen_def)
    ultimately show ?thesis using 2(3) by (simp add: delivers_iff)
  next
    case False
    let ?b = "overwrite (drop (sdsHdrSize t) b) 0 (take (sdslen s + 1) (buf s))"
    let ?s = "sdssetalloc (sdssetlen \<lparr>sds_type = t, used = 0, cap = 0, buf = ?b\<rparr> (sdslen s)) n"
    have "resize s t n m = Some (Some ?s, m')"
      using 2 size False room n(1) by (simp add: resize_def Let_def peek_def poke_def)
    moreover have "same_string s ?s \<and> (t \<noteq> SDS_TYPE_5 \<or> n = sdslen s \<longrightarrow> sdsalloc ?s = n) \<and> sds_type ?s = t \<and> length (buf ?s) = n + 1"
      using rng rng' room n 2(2)
      by (cases t) (auto simp: same_string_def sds_room_def sdssetalloc_def sdssetlen_def sdsalloc_def sdslen_def overwrite_def)
    ultimately show ?thesis using 2(3) by (simp add: delivers_iff)
  qed
qed

lemma MakeRoom_same:
  assumes s: "sds_room s" and n: "sdslen s + addlen < 2 ^ 63"
  shows "delivers m (sdsMakeRoomFor s addlen m) (\<lambda>s'. same_string s s' \<and> sdslen s + addlen \<le> sdsalloc s')"
proof (cases "addlen \<le> sdsavail s")
  case True
  then show ?thesis
    using s by (auto simp: sdsMakeRoomFor_def sdsavail_eq same_string_def sds_room_def intro!: delivers_Some)
next
  case False
  define newlen where "newlen = (if sdslen s + addlen < SDS_MAX_PREALLOC then (sdslen s + addlen) * 2 else sdslen s + addlen + SDS_MAX_PREALLOC)"
  have b: "newlen + 18 < 2 ^ 64" "sdslen s + addlen \<le> newlen"
    using n by (auto simp: newlen_def)
  let ?t = "if sdsReqType newlen = SDS_TYPE_5 then SDS_TYPE_8 else sdsReqType newlen"
  have e: "sdsMakeRoomFor s addlen m = resize s ?t newlen m"
    using n b(1) False by (simp add: sdsMakeRoomFor_def Let_def newlen_def)
  have "delivers m (resize s ?t newlen m) (\<lambda>s'. same_string s s' \<and> (?t \<noteq> SDS_TYPE_5 \<or> newlen = sdslen s \<longrightarrow> sdsalloc s' = newlen) \<and> sds_type s' = ?t \<and> length (buf s') = newlen + 1)"
    using b by (intro resize_same s sdsReqType_not5_limit) auto
  then show ?thesis
    unfolding e by (rule delivers_mono) (use b(2) in \<open>auto split: if_splits\<close>)
qed

text \<open>Writing inside the capacity and then setting the length.\<close>

lemma write_at_end:
  assumes s: "sds_room s" and n: "sdslen s + length src \<le> sdsalloc s"
  obtains s' where "(do { s1 \<leftarrow> poke (sdslen s) src s;
                       poke (sdslen s + length src) [NUL] (sdssetlen s1 (sdslen s + length src)) }) = Some s'"
    "sds_ok s'" "content s' = content s @ src"
proof -
  let ?n = "sdslen s + length src"
  let ?s' = "(sdssetlen s ?n)\<lparr>buf := overwrite (overwrite (buf s) (sdslen s) src) ?n [NUL]\<rparr>"
  have len: "?n < length (buf s)" using s n by (simp add: sds_room_def)
  have l: "sds_room (sdssetlen s ?n)" "sdslen (sdssetlen s ?n) = ?n"
    using sds_room_setlen [OF s n] by auto
  have "(do { s1 \<leftarrow> poke (sdslen s) src s; poke ?n [NUL] (sdssetlen s1 ?n) }) = Some ?s'"
    using len by (simp add: poke_def setlen_buf)
  moreover have "sds_ok ?s'"
    using l len by (simp add: sds_ok_def sds_room_buf nth_overwrite)
  moreover have "content ?s' = content s @ src"
    using l len by (simp add: content_def overwrite_def)
  ultimately show thesis by (rule that)
qed

lemma sdscatlen_ok:
  assumes s: "sds_ok s" and n: "sdslen s + len < 2 ^ 63" and t: "len \<le> length t"
  shows "delivers m (sdscatlen s t len m) (\<lambda>s'. sds_ok s' \<and> content s' = content s @ take len t)"
proof -
  have r: "sds_room s" using s by (simp add: sds_ok_def)
  show ?thesis
    unfolding sdscatlen_def Let_def
  proof (rule delivers_bind [OF MakeRoom_same [OF r n]], elim conjE)
    fix s' m' assume h: "same_string s s'" "sdslen s + len \<le> sdsalloc s'"
    have k: "sdslen s' = sdslen s" "content s' = content s" "sds_room s'"
      using h same_string_content [OF h(1)] by (auto simp: same_string_def)
    have "sdslen s' + length (take len t) \<le> sdsalloc s'" using h(2) k(1) t by simp
    from write_at_end [OF k(3) this] obtain s2 where
      "(do { s1 \<leftarrow> poke (sdslen s') (take len t) s';
             poke (sdslen s' + length (take len t)) [NUL] (sdssetlen s1 (sdslen s' + length (take len t))) }) = Some s2"
      "sds_ok s2" "content s2 = content s' @ take len t" .
    with k t show "delivers m' (do { src \<leftarrow> peek t 0 len; s1 \<leftarrow> poke (sdslen s) src s';
         s2 \<leftarrow> poke (sdslen s + len) [NUL] (sdssetlen s1 (sdslen s + len)); Some (Some s2, m') })
         (\<lambda>s'. sds_ok s' \<and> content s' = content s @ take len t)"
      by (auto simp: peek_def delivers_iff bind_eq_Some_conv min_absorb2)
  qed
qed

lemma sdsnewlen_ok:
  assumes n: "initlen < 2 ^ 63" and t: "\<And>t. init = Some t \<Longrightarrow> initlen \<le> length t"
  shows "delivers m (sdsnewlen init initlen m)
     (\<lambda>s. sds_ok s \<and> content s = (case init of None \<Rightarrow> replicate initlen NUL | Some t \<Rightarrow> take initlen t))"
proof -
  define type where "type = (if sdsReqType initlen = SDS_TYPE_5 \<and> initlen = 0 then SDS_TYPE_8 else sdsReqType initlen)"
  have lim: "initlen < cap_limit type"
    using n by (simp add: type_def sdsReqType_def)
  then have rng: "initlen mod len_range type = initlen"
    using cap_limit_range by simp
  have total_size: "size_t (sdsHdrSize type + initlen + 1) = sdsHdrSize type + initlen + 1"
    using n sdsHdrSize_le [of type] by simp
  have h: "sds_ok s \<and> content s = take initlen b"
    if "s = \<lparr>sds_type = type, used = initlen, cap = initlen, buf = b\<rparr>" "length b = initlen + 1" "b ! initlen = NUL" for s b
    using that lim by (auto simp: sds_ok_def sds_room_def sdsalloc_def sdslen_def content_def split: sdstype.split)
  show ?thesis
  proof (cases rule: s_malloc_cases [of "sdsHdrSize type + initlen + 1" m])
    case (1 m')
    then show ?thesis
      using total_size by (simp add: sdsnewlen_def Let_def delivers_iff flip: type_def)
  next
    case (2 b m')
    define b1 where "b1 = drop (sdsHdrSize type) b"
    have b1: "length b1 = initlen + 1" using 2 by (simp add: b1_def)
    show ?thesis
    proof (cases init)
      case None
      let ?b = "overwrite (replicate (initlen + 1) NUL) initlen [NUL]"
      have "sdsnewlen init initlen m = Some (Some \<lparr>sds_type = type, used = initlen, cap = initlen, buf = ?b\<rparr>, m')"
        using 2 total_size rng None
        by (simp add: sdsnewlen_def Let_def poke_def drop_replicate del: replicate.simps flip: type_def)
      with h [OF refl, of ?b] 2(3) None show ?thesis
        by (simp add: delivers_iff nth_overwrite del: replicate.simps) (simp add: overwrite_def del: replicate.simps)
    next
      case (Some t)
      let ?b = "overwrite (overwrite b1 0 (take initlen t)) initlen [NUL]"
      have "sdsnewlen init initlen m = Some (Some \<lparr>sds_type = type, used = initlen, cap = initlen, buf = ?b\<rparr>, m')"
        using 2 total_size rng Some t [OF Some] b1
        by (simp add: sdsnewlen_def Let_def peek_def poke_def flip: type_def b1_def)
          (simp add: overwrite_def)
      with h [OF refl, of ?b] 2(3) b1 t [OF Some] Some show ?thesis
        by (simp add: delivers_iff nth_overwrite) (simp add: overwrite_def)
    qed
  qed
qed

lemma write_from_start:
  assumes s: "sds_room s" and n: "length src \<le> sdsalloc s"
  obtains s' where "(do { s1 \<leftarrow> poke 0 src s; poke (length src) [NUL] s1 }) = Some s'"
    "sds_ok (sdssetlen s' (length src))" "content (sdssetlen s' (length src)) = src"
proof -
  let ?s' = "s\<lparr>buf := overwrite (overwrite (buf s) 0 src) (length src) [NUL]\<rparr>"
  have len: "length src < length (buf s)" using s n by (simp add: sds_room_def)
  have l: "sds_room (sdssetlen s (length src))" "sdslen (sdssetlen s (length src)) = length src"
    using sds_room_setlen [OF s n] by auto
  have "(do { s1 \<leftarrow> poke 0 src s; poke (length src) [NUL] s1 }) = Some ?s'"
    using len by (simp add: poke_def)
  moreover have "sds_ok (sdssetlen ?s' (length src))"
    using l len by (simp add: sds_ok_def sds_room_buf nth_overwrite setlen_buf)
  moreover have "content (sdssetlen ?s' (length src)) = src"
    using l len by (simp add: content_def overwrite_def setlen_buf)
  ultimately show thesis by (rule that)
qed

lemma sdscpylen_ok:
  assumes s: "sds_ok s" and n: "len < 2 ^ 63" and t: "len \<le> length t"
  shows "delivers m (sdscpylen s t len m) (\<lambda>s'. sds_ok s' \<and> content s' = take len t)"
proof -
  have r: "sds_room s" using s by (simp add: sds_ok_def)
  have room: "delivers m (if sdsalloc s < len then sdsMakeRoomFor s (len - sdslen s) m else Some (Some s, m))
     (\<lambda>s'. sds_room s' \<and> len \<le> sdsalloc s')"
  proof (cases "sdsalloc s < len")
    case True
    with r have "sdslen s \<le> len" by (simp add: sds_room_def)
    with n True show ?thesis
      using delivers_mono [OF MakeRoom_same [OF r, of "len - sdslen s" m]]
      by (simp add: same_string_def)
  qed (use r in \<open>auto intro!: delivers_Some\<close>)
  show ?thesis
    unfolding sdscpylen_def
  proof (rule delivers_bind [OF room], elim conjE)
    fix s' m' assume h: "sds_room s'" "len \<le> sdsalloc s'"
    have l: "length (take len t) = len" using t by simp
    from write_from_start [OF h(1), of "take len t"] h(2) l
    obtain s2 where "(do { s1 \<leftarrow> poke 0 (take len t) s'; poke len [NUL] s1 }) = Some s2"
      "sds_ok (sdssetlen s2 len)" "content (sdssetlen s2 len) = take len t" by metis
    with t show "delivers m' (do { src \<leftarrow> peek t 0 len; s1 \<leftarrow> poke 0 src s'; s2 \<leftarrow> poke len [NUL] s1;
         Some (Some (sdssetlen s2 len), m') }) (\<lambda>s'. sds_ok s' \<and> content s' = take len t)"
      by (auto simp: peek_def delivers_iff bind_eq_Some_conv)
  qed
qed

lemma sdsgrowzero_ok:
  assumes s: "sds_ok s" and n: "len < 2 ^ 63"
  shows "delivers m (sdsgrowzero s len m)
     (\<lambda>s'. sds_ok s' \<and> content s' = content s @ replicate (len - sdslen s) NUL)"
proof (cases "len \<le> sdslen s")
  case True
  with s show ?thesis by (auto simp: sdsgrowzero_def Let_def intro!: delivers_Some)
next
  case False
  have r: "sds_room s" using s by (simp add: sds_ok_def)
  have n': "sdslen s + (len - sdslen s) < 2 ^ 63" using False n by simp
  show ?thesis
    unfolding sdsgrowzero_def Let_def if_not_P [OF False]
  proof (rule delivers_bind [OF MakeRoom_same [OF r n']], elim conjE)
    fix s' m' assume h: "same_string s s'" "sdslen s + (len - sdslen s) \<le> sdsalloc s'"
    define z where "z = replicate (len - sdslen s) NUL"
    have k: "sdslen s' = sdslen s" "content s' = content s" "sds_room s'"
      using h same_string_content [OF h(1)] by (auto simp: same_string_def)
    have len: "len < length (buf s')" using h(2) k(3) False by (simp add: sds_room_def)
    have z: "replicate (len - sdslen s + 1) NUL = z @ [NUL]"
      by (simp add: z_def replicate_append_same)
    let ?s = "sdssetlen (s'\<lparr>buf := overwrite (buf s') (sdslen s) (z @ [NUL])\<rparr>) len"
    have "poke (sdslen s) (z @ [NUL]) s' = Some (s'\<lparr>buf := overwrite (buf s') (sdslen s) (z @ [NUL])\<rparr>)"
      using len False by (simp add: poke_def z_def)
    moreover have r2: "sds_room (sdssetlen s' len)" "sdslen (sdssetlen s' len) = len"
      using sds_room_setlen [OF k(3), of len] h(2) False by auto
    moreover have "sds_ok ?s"
      using r2 len False k(1) by (simp add: sds_ok_def sds_room_buf setlen_buf nth_overwrite nth_append z_def)
    moreover have "content ?s = content s' @ z"
      using r2 len False k(1) by (simp add: content_def setlen_buf overwrite_def z_def)
    ultimately show "delivers m' (do { s1 \<leftarrow> poke (sdslen s) (replicate (len - sdslen s + 1) NUL) s';
        Some (Some (sdssetlen s1 len), m') }) (\<lambda>s'. sds_ok s' \<and> content s' = content s @ replicate (len - sdslen s) NUL)"
      unfolding z using k(2) by (simp add: delivers_iff flip: z_def)
  qed
qed

lemma sdsRemoveFreeSpace_ok:
  assumes s: "sds_ok s" and n: "sdslen s < 2 ^ 63"
  shows "delivers m (sdsRemoveFreeSpace s m)
     (\<lambda>s'. sds_ok s' \<and> content s' = content s \<and> sdsavail s' = 0 \<and> length (buf s') = sdslen s' + 1)"
proof -
  have "delivers m (sdsRemoveFreeSpace s m) (\<lambda>s'. same_string s s' \<and>
      (sdsReqType (sdslen s) \<noteq> SDS_TYPE_5 \<or> sdslen s = sdslen s \<longrightarrow> sdsalloc s' = sdslen s) \<and>
      sds_type s' = sdsReqType (sdslen s) \<and> length (buf s') = sdslen s + 1)"
    unfolding sdsRemoveFreeSpace_def
    using s n by (intro resize_same sdsReqType_limit) (auto simp: sds_ok_def)
  then show ?thesis
    by (rule delivers_mono)
      (use s in \<open>auto intro: same_string_ok simp: same_string_content sdsavail_eq, auto simp: same_string_def sdsavail_eq\<close>)
qed

section \<open>Correctness of the in-place edits\<close>

text \<open>Both ends trimmed; a sub-range with inclusive, possibly negative indexes.\<close>

definition trim_both :: "(byte \<Rightarrow> bool) \<Rightarrow> bytes \<Rightarrow> bytes" where
  "trim_both P xs = rev (dropWhile P (rev (dropWhile P xs)))"

definition subrange :: "int \<Rightarrow> int \<Rightarrow> bytes \<Rightarrow> bytes" where
  "subrange start end' xs =
     (let n = int (length xs);
          lo = (if start < 0 then max 0 (n + start) else start);
          hi = min (n - 1) (if end' < 0 then max 0 (n + end') else end')
      in take (nat (hi - lo + 1)) (drop (nat lo) xs))"

lemma trim_left_eq: "trim_left cset xs = length (takeWhile (strchr_in cset) xs)"
  by (induction xs) auto

lemma trim_right_spec:
  "sp \<le> ep \<Longrightarrow> \<not> strchr_in cset (b ! sp) \<Longrightarrow>
   sp \<le> trim_right cset b sp ep \<and> trim_right cset b sp ep \<le> ep \<and>
   \<not> strchr_in cset (b ! trim_right cset b sp ep) \<and>
   (\<forall>i. trim_right cset b sp ep < i \<and> i \<le> ep \<longrightarrow> strchr_in cset (b ! i))"
proof (induction ep)
  case (Suc ep)
  show ?case
  proof (cases "sp < Suc ep \<and> strchr_in cset (b ! Suc ep)")
    case True
    with Suc show ?thesis by (auto simp: less_Suc_eq_le le_Suc_eq)
  next
    case False
    with Suc.prems show ?thesis by (auto simp: le_Suc_eq)
  qed
qed auto

lemma trim_right_le: "trim_right cset b sp ep \<le> ep"
  by (induction ep) auto

lemma trim_end_take:
  assumes "k \<le> length ys" "0 < k" "\<not> P (ys ! (k - 1))" "\<And>i. k \<le> i \<Longrightarrow> i < length ys \<Longrightarrow> P (ys ! i)"
  shows "rev (dropWhile P (rev ys)) = take k ys"
proof -
  have all: "\<forall>x \<in> set (drop k ys). P x"
    using assms(1,4) by (auto simp: in_set_conv_nth)
  have "rev (take k ys) = ys ! (k - 1) # rev (take (k - 1) ys)"
    using assms(1,2) by (cases k) (auto simp: take_Suc_conv_app_nth)
  then have "dropWhile P (rev (take k ys)) = rev (take k ys)"
    using assms(3) by simp
  moreover have "rev ys = rev (drop k ys) @ rev (take k ys)"
    by (metis append_take_drop_id rev_append)
  ultimately show ?thesis using all by (metis dropWhile_append2 rev_rev_ident set_rev)
qed

text \<open>An edit that leaves \<open>src\<close>, not longer than the string, at its front.\<close>

lemma shrink_ok:
  assumes s: "sds_ok s" and b: "length b = length (buf s)" "n \<le> sdslen s"
  obtains s' where "poke n [NUL] (s\<lparr>buf := b\<rparr>) = Some s'"
    "sds_ok (sdssetlen s' n)" "content (sdssetlen s' n) = take n b"
proof -
  have r: "sds_room s" and n: "n \<le> sdsalloc s" "n < length b"
    using s b by (auto simp: sds_ok_def sds_room_def)
  let ?s' = "s\<lparr>buf := overwrite b n [NUL]\<rparr>"
  have l: "sds_room (sdssetlen s n)" "sdslen (sdssetlen s n) = n"
    using sds_room_setlen [OF r n(1)] by auto
  have "poke n [NUL] (s\<lparr>buf := b\<rparr>) = Some ?s'"
    using n by (simp add: poke_def)
  moreover have "sds_ok (sdssetlen ?s' n)"
    using l n b by (simp add: sds_ok_def sds_room_buf setlen_buf nth_overwrite)
  moreover have "content (sdssetlen ?s' n) = take n b"
    using l n by (simp add: content_def setlen_buf overwrite_def)
  ultimately show thesis by (rule that)
qed

lemma move_front_ok:
  assumes s: "sds_ok s" and n: "off + n \<le> sdslen s"
  obtains s' where
    "(do { s1 \<leftarrow> (if off \<noteq> 0 \<and> (c \<longrightarrow> n \<noteq> 0) then poke 0 (take n (drop off (buf s))) s else Some s);
           poke n [NUL] s1 }) = Some s'"
    "sds_ok (sdssetlen s' n)" "content (sdssetlen s' n) = take n (drop off (content s))"
proof -
  define b where "b = (if off \<noteq> 0 \<and> (c \<longrightarrow> n \<noteq> 0) then overwrite (buf s) 0 (take n (drop off (buf s))) else buf s)"
  have l: "sdslen s < length (buf s)" using s by (auto simp: sds_ok_def sds_room_def)
  have b: "length b = length (buf s)" "take n b = take n (drop off (content s))"
    using n l by (auto simp: b_def overwrite_def content_def take_drop)
  have e: "(if off \<noteq> 0 \<and> (c \<longrightarrow> n \<noteq> 0) then poke 0 (take n (drop off (buf s))) s else Some s) = Some (s\<lparr>buf := b\<rparr>)"
    using n l by (auto simp: poke_def b_def)
  from shrink_ok [OF s b(1), of n] n obtain s' where
    "poke n [NUL] (s\<lparr>buf := b\<rparr>) = Some s'" "sds_ok (sdssetlen s' n)" "content (sdssetlen s' n) = take n b"
    by auto
  with e b(2) show thesis by (intro that) simp_all
qed

lemma sdstrim_ok:
  assumes s: "sds_ok s"
  shows "\<exists>s'. sdstrim s cset = Some s' \<and> sds_ok s' \<and> content s' = trim_both (strchr_in cset) (content s)"
proof -
  define P where "P = strchr_in cset"
  define xs where "xs = content s"
  define sp where "sp = length (takeWhile P xs)"
  define ep where "ep = trim_right cset (buf s) sp (sdslen s - 1)"
  define len where "len = (if sdslen s = 0 then 0 else if ep < sp then 0 else ep - sp + 1)"
  have lx: "length xs = sdslen s" using s by (simp add: xs_def)
  have sp_le: "sp \<le> sdslen s" using length_takeWhile_le [of P xs] by (simp add: sp_def lx)
  have nth: "buf s ! i = xs ! i" if "i < sdslen s" for i
    using that by (simp add: xs_def content_def)
  have dw: "dropWhile P xs = drop sp xs" by (simp add: sp_def dropWhile_eq_drop)
  have main: "sp + len \<le> sdslen s \<and> take len (drop sp xs) = trim_both P xs"
  proof (cases "sp < sdslen s")
    case True
    have "\<not> P (xs ! sp)" using True nth_length_takeWhile [of P xs] by (simp add: sp_def lx)
    then have r: "sp \<le> ep" "ep \<le> sdslen s - 1" "\<not> P (buf s ! ep)" "\<And>i. ep < i \<Longrightarrow> i \<le> sdslen s - 1 \<Longrightarrow> P (buf s ! i)"
      using trim_right_spec [of sp "sdslen s - 1" cset "buf s"] True nth [of sp]
      by (auto simp: ep_def P_def)
    have len: "len = ep - sp + 1" using r True by (simp add: len_def)
    have "rev (dropWhile P (rev (drop sp xs))) = take len (drop sp xs)"
      using r True lx nth by (intro trim_end_take) (auto simp: len)
    then show ?thesis using r True by (auto simp: trim_both_def dw len)
  next
    case False
    then have "sp = sdslen s" using sp_le by simp
    moreover from this have "len = 0"
      using trim_right_le [of cset "buf s" sp "sdslen s - 1"] by (auto simp: len_def ep_def)
    ultimately show ?thesis using lx by (simp add: trim_both_def dw)
  qed
  have "sp \<noteq> 0 \<longleftrightarrow> sp \<noteq> 0 \<and> (False \<longrightarrow> len \<noteq> 0)" by simp
  with move_front_ok [OF s, of sp len False] main obtain s' where
    s': "(do { s1 \<leftarrow> (if sp \<noteq> 0 then poke 0 (take len (drop sp (buf s))) s else Some s);
           poke len [NUL] s1 }) = Some s'"
    "sds_ok (sdssetlen s' len)" "content (sdssetlen s' len) = trim_both P xs"
    by (auto simp: xs_def)
  have "sdslen s < length (buf s)" using s by (auto simp: sds_ok_def sds_room_def)
  then have "peek (buf s) sp len = Some (take len (drop sp (buf s)))"
    using main by (auto simp: peek_def)
  moreover have "sdstrim s cset = do { src \<leftarrow> peek (buf s) sp len;
      s1 \<leftarrow> (if sp \<noteq> 0 then poke 0 src s else Some s); s2 \<leftarrow> poke len [NUL] s1; Some (sdssetlen s2 len) }"
    by (simp add: sdstrim_def Let_def trim_left_eq len_def ep_def sp_def xs_def content_def P_def)
  ultimately show ?thesis
    using s' by (auto simp: P_def xs_def bind_eq_Some_conv)
qed

lemma sdsrange_ok:
  assumes s: "sds_ok s" "sdslen s < 2 ^ 63"
    and b: "start < 2 ^ 63" "end' < 2 ^ 63"
  shows "\<exists>s'. sdsrange s start end' = Some (0, s') \<and> sds_ok s' \<and> content s' = subrange start end' (content s)"
proof -
  define len where "len = int (sdslen s)"
  define st where "st = (if start < 0 then max 0 (len + start) else start)"
  define en where "en = (if end' < 0 then max 0 (len + end') else end')"
  define hi where "hi = min (len - 1) en"
  have lx: "length (content s) = sdslen s" using s by simp
  show ?thesis
  proof (cases "sdslen s = 0")
    case True
    then have "sdsrange s start end' = Some (0, s)" "content s = []"
      by (simp_all add: sdsrange_def content_def)
    with s show ?thesis by (simp add: subrange_def)
  next
    case False
    define newlen where "newlen = nat (hi - st + 1)"
    define off where "off = (if newlen = 0 then 0 else nat st)"
    have st0: "0 \<le> st" "0 \<le> en" "st < 2 ^ 63" "en < 2 ^ 63"
      using b s by (auto simp: st_def en_def len_def)
    have sl: "subrange start end' (content s) = take newlen (drop off (content s))"
      by (simp add: subrange_def lx Let_def newlen_def hi_def st_def en_def len_def off_def)
    have bound: "off + newlen \<le> sdslen s"
      using st0 False by (auto simp: off_def newlen_def hi_def len_def)
    have "peek (buf s) off newlen = Some (take newlen (drop off (buf s)))"
      using bound s by (auto simp: peek_def sds_ok_def sds_room_def)
    moreover have "sdsrange s start end' =
        do { s1 \<leftarrow> (if off \<noteq> 0 \<and> newlen \<noteq> 0 then do { src \<leftarrow> peek (buf s) off newlen; poke 0 src s } else Some s);
             s2 \<leftarrow> poke newlen [NUL] s1; Some (0, sdssetlen s2 newlen) }"
    proof -
      have nz: "len \<noteq> 0" "\<not> 2 ^ 63 - 1 < len" using False s(2) by (auto simp: len_def)
      have wrap: "st \<le> en \<Longrightarrow> (en - st + 1) mod 2 ^ 64 = en - st + 1" using st0 by simp
      note unf = sdsrange_def Let_def len_def [symmetric] st_def [symmetric] en_def [symmetric] if_not_P [OF nz(1)] if_not_P [OF nz(2)]
      consider "en < st" | "st \<le> en" "len \<le> st" | "st \<le> en" "st < len" "len \<le> en" | "st \<le> en" "st < len" "en < len"
        by linarith
      then show ?thesis
      proof cases
        case 1
        then have "newlen = 0" "off = 0" by (auto simp: newlen_def hi_def off_def)
        with 1 show ?thesis unfolding unf by simp
      next
        case 2
        then have "newlen = 0" "off = 0" by (auto simp: newlen_def hi_def off_def)
        with 2 wrap show ?thesis unfolding unf by simp
      next
        case 3
        then have "newlen = nat (len - 1 - st + 1)" "off = nat st" "newlen \<noteq> 0" by (auto simp: newlen_def hi_def off_def)
        with 3 wrap st0 show ?thesis unfolding unf by simp
      next
        case 4
        then have "newlen = nat (en - st + 1)" "off = nat st" "newlen \<noteq> 0" by (auto simp: newlen_def hi_def off_def)
        with 4 wrap st0 show ?thesis unfolding unf by simp
      qed
    qed
    moreover obtain s' where "(do { s1 \<leftarrow> (if off \<noteq> 0 \<and> (True \<longrightarrow> newlen \<noteq> 0) then poke 0 (take newlen (drop off (buf s))) s else Some s);
           poke newlen [NUL] s1 }) = Some s'"
      "sds_ok (sdssetlen s' newlen)" "content (sdssetlen s' newlen) = take newlen (drop off (content s))"
      by (rule move_front_ok [OF s(1) bound, of True])
    ultimately show ?thesis
      unfolding sl by (cases "off \<noteq> 0 \<and> newlen \<noteq> 0") (auto simp: bind_eq_Some_conv)
  qed
qed

lemma overwrite_ok:
  assumes s: "sds_ok s" and n: "length src = sdslen s"
  shows "\<exists>s'. poke 0 src s = Some s' \<and> sds_ok s' \<and> content s' = src"
proof -
  have l: "sdslen s < length (buf s)" using s by (auto simp: sds_ok_def sds_room_def)
  then have "sds_ok (s\<lparr>buf := overwrite (buf s) 0 src\<rparr>)"
    using s n by (auto simp: sds_ok_def sds_room_def nth_overwrite)
  moreover have "content (s\<lparr>buf := overwrite (buf s) 0 src\<rparr>) = src"
    using n l by (simp add: content_def overwrite_def)
  ultimately show ?thesis using l n by (simp add: poke_def)
qed

lemma sint32_id: "- (2 ^ 31) \<le> i \<Longrightarrow> i < 2 ^ 31 \<Longrightarrow> sint (word_of_int i :: 32 word) = i"
  by transfer (simp add: signed_take_bit_int_eq_self)

lemma int32_small: "n < 2 ^ 31 \<Longrightarrow> int32 n = int n"
  by (rule sint32_id) auto

lemma map_prefix_ok:
  assumes s: "sds_ok s" "sdslen s < 2 ^ 31"
  shows "\<exists>s'. map_prefix f (int32 (sdslen s)) s = Some s' \<and> sds_ok s' \<and> content s' = map f (content s)"
proof -
  have "sdslen s < length (buf s)" using s by (auto simp: sds_ok_def sds_room_def)
  then have "peek (buf s) 0 (sdslen s) = Some (content s)" by (simp add: peek_def content_def)
  then show ?thesis
    using overwrite_ok [OF s(1), of "map f (content s)"] s int32_small [OF s(2)]
    by (simp add: map_prefix_def)
qed

lemma sdsmapchars_ok:
  assumes s: "sds_ok s" and n: "setlen \<le> length from" "setlen \<le> length to'"
  shows "\<exists>s'. sdsmapchars s from to' setlen = Some s' \<and> sds_ok s' \<and> content s' = map (mapchar from to' setlen) (content s)"
proof -
  have "sdslen s < length (buf s)" using s by (auto simp: sds_ok_def sds_room_def)
  then have "peek (buf s) 0 (sdslen s) = Some (content s)" by (simp add: peek_def content_def)
  then show ?thesis
    using overwrite_ok [OF s, of "map (mapchar from to' setlen) (content s)"] s n
    by (simp add: sdsmapchars_def)
qed

lemma sdsclear_ok: "sds_ok s \<Longrightarrow> \<exists>s'. sdsclear s = Some s' \<and> sds_ok s' \<and> content s' = [] \<and> sdsalloc s' = (if sds_type s = SDS_TYPE_5 then 0 else sdsalloc s)"
  by (cases "sds_type s"; cases "buf s")
    (auto simp: sdsclear_def poke_def sdssetlen_def sds_ok_def sds_room_def sdslen_def sdsalloc_def content_def overwrite_def)

lemma mapchar_eq:
  "setlen \<le> length from \<Longrightarrow> setlen \<le> length to' \<Longrightarrow>
   mapchar from to' setlen c =
     (case find_idx ((=) c) (take setlen from) of None \<Rightarrow> c | Some i \<Rightarrow> to' ! i)"
  by (induction "from" to' setlen c rule: mapchar.induct) (auto split: option.splits)

lemma sdsIncrLen_grow:
  assumes s: "sds_room s" "sds_type s \<noteq> SDS_TYPE_5" and n: "sdslen s + k \<le> sdsalloc s"
  shows "\<exists>s'. sdsIncrLen s (int k) = Some s' \<and> sds_ok s' \<and> content s' = take (sdslen s + k) (buf s)"
proof -
  note r = s(1)
  have b: "used s + k < len_range (sds_type s)"
    using r n(1) by (intro cap_limit_range) (auto simp: sds_room_def sdslen_def)
  have e: "nat ((int (used s) + int k) mod int (len_range (sds_type s))) = used s + k"
    using b by (metis nat_int mod_less of_nat_add zmod_int)
  have a: "incr_assert s (int k)"
    using r n(1) b s(2) by (cases "sds_type s") (auto simp: incr_assert_def sds_room_def sdslen_def sdsalloc_def)
  have set: "s\<lparr>used := used s + k\<rparr> = sdssetlen s (sdslen s + k)"
    using b by (simp add: sdssetlen_def sdslen_def)
  have l: "sds_room (sdssetlen s (sdslen s + k))" "sdslen (sdssetlen s (sdslen s + k)) = sdslen s + k"
    using sds_room_setlen [OF r n(1)] by auto
  have len: "sdslen s + k < length (buf s)" using r n(1) by (auto simp: sds_room_def)
  let ?s' = "(sdssetlen s (sdslen s + k))\<lparr>buf := overwrite (buf s) (sdslen s + k) [NUL]\<rparr>"
  have "sdsIncrLen s (int k) = Some ?s'"
    using a e set len by (simp add: sdsIncrLen_def Let_def poke_def sdslen_def)
  moreover have "sds_ok ?s'" using l len by (simp add: sds_ok_def sds_room_buf nth_overwrite)
  moreover have "content ?s' = take (sdslen s + k) (buf s)"
    using l len by (simp add: content_def overwrite_def)
  ultimately show ?thesis by blast
qed

section \<open>Comparison\<close>

lemma c_memcmp_take: "n \<le> m \<Longrightarrow> n \<le> k \<Longrightarrow> c_memcmp (take m a) (take k b) n = c_memcmp a b n"
proof (induction a b n arbitrary: m k rule: c_memcmp.induct)
  case (1 x a y b n)
  then show ?case by (cases m; cases k) auto
qed auto

lemma c_memcmp_lexord:
  "(let c = c_memcmp xs ys (min (length xs) (length ys))
    in if c = 0 then length xs < length ys else c < 0)
   \<longleftrightarrow> (map uchar xs, map uchar ys) \<in> lexord {(a, b). a < b}"
proof (induction xs arbitrary: ys)
  case Nil
  then show ?case by (cases ys) auto
next
  case (Cons x xs)
  show ?case
  proof (cases ys)
    case Nil
    then show ?thesis by simp
  next
    case (Cons y ys')
    then show ?thesis
      using Cons.IH [of ys'] by (auto simp: Let_def split: if_splits)
  qed
qed

section \<open>Properties\<close>

text \<open>C6: Whatever the allocator answers, the growing operations never leave the memory of the string,
  return NULL only when memory was refused, and otherwise a well-formed string: \<open>sdscatlen\<close>
  appends, \<open>sdscpylen\<close> replaces, \<open>sdsgrowzero\<close> pads with zeros, \<open>sdsMakeRoomFor\<close> keeps the contents
  and makes the room asked for, \<open>sdsRemoveFreeSpace\<close> keeps the contents in a block of exactly
  their size, \<open>sdsdup\<close> and \<open>sdsnewlen\<close> copy.\<close>

theorem sds_growth_refines:
  assumes "sds_ok s" "sdslen s + n < 2 ^ 63" "n \<le> length t"
  shows "delivers m (sdscatlen s t n m) (\<lambda>s'. sds_ok s' \<and> content s' = content s @ take n t) \<and>
    delivers m (sdscpylen s t n m) (\<lambda>s'. sds_ok s' \<and> content s' = take n t) \<and>
    delivers m (sdsgrowzero s n m) (\<lambda>s'. sds_ok s' \<and> content s' = content s @ replicate (n - sdslen s) NUL) \<and>
    delivers m (sdsMakeRoomFor s n m) (\<lambda>s'. sds_ok s' \<and> content s' = content s \<and> n \<le> sdsavail s') \<and>
    delivers m (sdsRemoveFreeSpace s m) (\<lambda>s'. sds_ok s' \<and> content s' = content s \<and> length (buf s') = sdslen s' + 1) \<and>
    delivers m (sdsdup s m) (\<lambda>s'. sds_ok s' \<and> content s' = content s) \<and>
    delivers m (sdsnewlen (Some t) n m) (\<lambda>s'. sds_ok s' \<and> content s' = take n t)"
proof (intro conjI)
  have r: "sds_room s" using assms(1) by (simp add: sds_ok_def)
  show "delivers m (sdsMakeRoomFor s n m) (\<lambda>s'. sds_ok s' \<and> content s' = content s \<and> n \<le> sdsavail s')"
    by (rule delivers_mono [OF MakeRoom_same [OF r assms(2)]])
      (use assms(1) in \<open>auto simp: same_string_content same_string_ok, auto simp: same_string_def sdsavail_eq\<close>)
  have "sdslen s \<le> length (buf s)" using r by (auto simp: sds_room_def)
  then show "delivers m (sdsdup s m) (\<lambda>s'. sds_ok s' \<and> content s' = content s)"
    using sdsnewlen_ok [of "sdslen s" "Some (buf s)" m] assms(2) by (simp add: sdsdup_def content_def)
  show "delivers m (sdsRemoveFreeSpace s m) (\<lambda>s'. sds_ok s' \<and> content s' = content s \<and> length (buf s') = sdslen s' + 1)"
    by (rule delivers_mono [OF sdsRemoveFreeSpace_ok]) (use assms in auto)
qed (use assms sdscatlen_ok sdscpylen_ok sdsgrowzero_ok sdsnewlen_ok [of n "Some t" m] in auto)

definition demo_sds :: sds where
  "demo_sds = \<lparr>sds_type = SDS_TYPE_5, used = 3, cap = 0, buf = ''abc'' @ [NUL]\<rparr>"

lemma demo_sds_ok: "sds_ok demo_sds" "content demo_sds = ''abc''" "sdslen demo_sds = 3"
  by (auto simp: sds_ok_def sds_room_def content_def sdslen_def sdsalloc_def demo_sds_def numeral_3_eq_3)

theorem sds_growth_refines_witness:
  "\<exists>s' m'. sdscatlen demo_sds ''de'' 2 [Some ''junk''] = Some (Some s', m') \<and> sds_ok s' \<and> content s' = ''abcde''"
proof -
  have "delivers [Some ''junk''] (sdscatlen demo_sds ''de'' 2 [Some ''junk'']) (\<lambda>s'. sds_ok s' \<and> content s' = ''abcde'')"
    using sds_growth_refines [OF demo_sds_ok(1), of 2 "''de''" "[Some ''junk'']"] demo_sds_ok(2,3) by simp
  then show ?thesis by (auto dest!: delivers_willing simp: willing_def)
qed

text \<open>C32: The schema in the comment of \<open>sdsIncrLen\<close>: after \<open>sdsMakeRoomFor (s, n)\<close> a reader may put up to
  \<open>n\<close> bytes behind the string and announce them with \<open>sdsIncrLen\<close>; the string then ends in
  exactly those bytes, and neither the writes nor the assertion of \<open>sdsIncrLen\<close> fail.\<close>

theorem sds_read_schema:
  assumes "sds_ok s" "sdslen s + n < 2 ^ 31" "willing m" "0 < n" "length data \<le> n"
  shows "\<exists>s1 m' s2 s3. sdsMakeRoomFor s n m = Some (Some s1, m') \<and> poke (sdslen s) data s1 = Some s2 \<and>
    sdsIncrLen s2 (int (length data)) = Some s3 \<and> sds_ok s3 \<and> content s3 = content s @ data"
proof -
  have r: "sds_room s" and n: "sdslen s + n < 2 ^ 63" using assms by (auto simp: sds_ok_def)
  from delivers_willing [OF MakeRoom_same [OF r n] assms(3)]
  obtain s1 m' where s1: "sdsMakeRoomFor s n m = Some (Some s1, m')" "same_string s s1" "sdslen s + n \<le> sdsalloc s1"
    by blast
  have k: "sdslen s1 = sdslen s" "content s1 = content s" "sds_room s1" "sds_ok s1"
    using s1(2) same_string_content [OF s1(2)] same_string_ok [OF s1(2) assms(1)] by (auto simp: same_string_def)
  have ty: "sds_type s1 \<noteq> SDS_TYPE_5"
    using s1(3) k(1) assms(4) by (auto simp: sdsalloc_def sdslen_def)
  have len: "sdslen s + length data < length (buf s1)" using k(3) s1(3) assms(5) by (auto simp: sds_room_def)
  define s2 where "s2 = s1\<lparr>buf := overwrite (buf s1) (sdslen s) data\<rparr>"
  have s2: "poke (sdslen s) data s1 = Some s2" "sds_room s2" "sds_type s2 \<noteq> SDS_TYPE_5"
    "sdslen s2 + length data \<le> sdsalloc s2"
    using len k ty s1(3) assms(5) by (auto simp: s2_def poke_def sds_room_buf)
  have "take (sdslen s2 + length data) (buf s2) = content s @ data"
    using len k(1,2) by (simp add: s2_def) (simp add: content_def)
  with sdsIncrLen_grow [OF s2(2,3,4)] s1(1) s2(1) show ?thesis by auto
qed

theorem sds_read_schema_witness:
  "\<exists>s1 m' s2 s3. sdsMakeRoomFor demo_sds 100 [Some ''junk''] = Some (Some s1, m') \<and> poke 3 ''xy'' s1 = Some s2 \<and>
     sdsIncrLen s2 2 = Some s3 \<and> sds_ok s3 \<and> content s3 = ''abcxy''"
  using sds_read_schema [OF demo_sds_ok(1), of 100 "[Some ''junk'']" "''xy''"] demo_sds_ok(2,3)
  by (simp add: willing_def)

text \<open>The in-place edits stay inside the string and compute what their comments say: \<open>sdstrim\<close>
  strips the characters of the set (and NUL) from both ends, \<open>sdsrange\<close> keeps an inclusive range
  whose negative indexes count from the end, \<open>sdstolower\<close>, \<open>sdstoupper\<close> and \<open>sdsmapchars\<close> act
  on every byte, \<open>sdsclear\<close> empties the string.\<close>

theorem sds_edits_refine:
  assumes "sds_ok s" "sdslen s < 2 ^ 31" "start < 2 ^ 63" "end' < 2 ^ 63"
    and "setlen \<le> length from" "setlen \<le> length to'"
  shows "(\<exists>s'. sdstrim s cset = Some s' \<and> sds_ok s' \<and> content s' = trim_both (strchr_in cset) (content s)) \<and>
    (\<exists>s'. sdsrange s start end' = Some (0, s') \<and> sds_ok s' \<and> content s' = subrange start end' (content s)) \<and>
    (\<exists>s'. sdstolower s = Some s' \<and> sds_ok s' \<and> content s' = map c_tolower (content s)) \<and>
    (\<exists>s'. sdstoupper s = Some s' \<and> sds_ok s' \<and> content s' = map c_toupper (content s)) \<and>
    (\<exists>s'. sdsmapchars s from to' setlen = Some s' \<and> sds_ok s' \<and>
       content s' = map (\<lambda>c. case find_idx ((=) c) (take setlen from) of None \<Rightarrow> c | Some i \<Rightarrow> to' ! i) (content s)) \<and>
    (\<exists>s'. sdsclear s = Some s' \<and> sds_ok s' \<and> content s' = [])"
proof (intro conjI)
  have "(\<lambda>c. case find_idx ((=) c) (take setlen from) of None \<Rightarrow> c | Some i \<Rightarrow> to' ! i) = mapchar from to' setlen"
    using mapchar_eq [OF assms(5,6)] by (intro ext) simp
  then show "\<exists>s'. sdsmapchars s from to' setlen = Some s' \<and> sds_ok s' \<and>
      content s' = map (\<lambda>c. case find_idx ((=) c) (take setlen from) of None \<Rightarrow> c | Some i \<Rightarrow> to' ! i) (content s)"
    using sdsmapchars_ok [OF assms(1,5,6)] by simp
  show "\<exists>s'. sdsclear s = Some s' \<and> sds_ok s' \<and> content s' = []"
    using sdsclear_ok [OF assms(1)] by blast
qed (use assms map_prefix_ok [OF assms(1,2)] in \<open>simp_all add: sdstolower_def sdstoupper_def sdstrim_ok sdsrange_ok\<close>)

theorem sds_edits_refine_witness:
  "(\<exists>s'. sdstrim demo_sds ''ac'' = Some s' \<and> sds_ok s' \<and> content s' = ''b'') \<and>
   (\<exists>s'. sdsrange demo_sds 1 (-1) = Some (0, s') \<and> sds_ok s' \<and> content s' = ''bc'')"
proof -
  have "trim_both (strchr_in ''ac'') ''abc'' = ''b''" "subrange 1 (-1) ''abc'' = ''bc''"
    by code_simp+
  then show ?thesis
    using sds_edits_refine [OF demo_sds_ok(1), of 1 "-1" 0 "[]" "[]" "''ac''"] demo_sds_ok(2,3) by simp
qed

text \<open>On strings below 2 GiB \<open>sdscmp\<close> is the byte-wise lexicographic order, a proper prefix being
  smaller, and it is 0 exactly on equal strings.\<close>

theorem sdscmp_lexicographic:
  assumes "sds_ok a" "sds_ok b" "sdslen a < 2 ^ 31" "sdslen b < 2 ^ 31"
  shows "(sdscmp a b = 0 \<longleftrightarrow> content a = content b) \<and>
    (sdscmp a b < 0 \<longleftrightarrow> (map uchar (content a), map uchar (content b)) \<in> lexord {(x, y). x < y})"
proof -
  define c where "c = c_memcmp (content a) (content b) (min (sdslen a) (sdslen b))"
  have c: "c_memcmp (buf a) (buf b) (min (sdslen a) (sdslen b)) = c"
    by (simp add: c_def content_def c_memcmp_take)
  have d: "sint (word_of_int (int (sdslen a) - int (sdslen b)) :: 32 word) = int (sdslen a) - int (sdslen b)"
    using assms(3,4) by (intro sint32_id) auto
  have z: "c = 0 \<longleftrightarrow> take (min (sdslen a) (sdslen b)) (content a) = take (min (sdslen a) (sdslen b)) (content b)"
    unfolding c_def using assms(1,2) by (intro c_memcmp_0_iff) auto
  have "c = 0 \<and> sdslen a = sdslen b \<longleftrightarrow> content a = content b"
  proof
    assume "c = 0 \<and> sdslen a = sdslen b"
    with z assms(1,2) show "content a = content b" by simp
  next
    assume h: "content a = content b"
    then have "sdslen a = sdslen b" using assms(1,2) length_content by metis
    with z h show "c = 0 \<and> sdslen a = sdslen b" by simp
  qed
  then show ?thesis
    using c_memcmp_lexord [of "content a" "content b"] assms(1,2) c d
    by (auto simp: sdscmp_def Let_def simp flip: c_def split: if_splits)
qed

theorem sdscmp_lexicographic_witness:
  "sdscmp demo_sds demo_sds = 0 \<and>
   (map uchar ''abc'', map uchar ''abc'') \<notin> lexord {(x, y). x < y}"
  using sdscmp_lexicographic [OF demo_sds_ok(1,1)] demo_sds_ok(2,3) by simp

end
