(* ===== verification/SdsText.thy ===== *)
theory SdsText
  imports Sds
begin

text \<open>
  The text functions of \<open>sds.c\<close> that are built on the string primitives: numbers, the two
  formatting functions, splitting and joining, and the quoted representation with the argument
  splitter that reads it back.
\<close>

section \<open>Numbers\<close>

abbreviation SDS_LLSTR_SIZE :: nat where "SDS_LLSTR_SIZE \<equiv> 21"

text \<open>The \<open>do\<close> loop writes the digits from the last one on.\<close>

fun rev_digits :: "nat \<Rightarrow> bytes" where
  "rev_digits v = char_of (48 + v mod 10) # (if v div 10 = 0 then [] else rev_digits (v div 10))"

declare rev_digits.simps [simp del]

text \<open>The reversal in place with one pointer from each end.\<close>

function swap_ends :: "bytes \<Rightarrow> nat \<Rightarrow> nat \<Rightarrow> bytes" where
  "swap_ends b s p = (if s < p then swap_ends (b[s := b ! p, p := b ! s]) (Suc s) (p - 1) else b)"
  by pat_completeness auto
termination
  by (relation "measure (\<lambda>(b, s, p). p - s)") auto

declare swap_ends.simps [simp del]

text \<open>
  The caller's buffer has \<open>SDS_LLSTR_SIZE\<close> bytes; a representation that does not fit with its
  terminator is a write outside it. \<open>- value\<close> overflows for the smallest \<open>long long\<close>, which is
  undefined.
\<close>

definition sdsll2str :: "int \<Rightarrow> bytes option" where
  "sdsll2str v =
     (let b = rev_digits (nat (if v < 0 then - v else v)) @ (if v < 0 then ''-'' else []);
          l = length b
      in if v = - (2 ^ 63) then None
         else if l + 1 \<le> SDS_LLSTR_SIZE then Some (swap_ends b 0 (l - 1)) else None)"

definition sdsull2str :: "nat \<Rightarrow> bytes option" where
  "sdsull2str v =
     (let b = rev_digits v; l = length b
      in if l + 1 \<le> SDS_LLSTR_SIZE then Some (swap_ends b 0 (l - 1)) else None)"

definition sdsfromlonglong :: "int \<Rightarrow> memory \<Rightarrow> (sds option \<times> memory) option" where
  "sdsfromlonglong v m = do { b \<leftarrow> sdsll2str v; sdsnewlen (Some b) (length b) m }"

section \<open>Formatting with the C library\<close>

text \<open>
  \<open>vsnprintf (buf, n, fmt, ap)\<close> where the format and its arguments expand to \<open>out\<close>: at most
  \<open>n - 1\<close> bytes and a NUL are written.
\<close>

definition vsnprintf :: "bytes \<Rightarrow> nat \<Rightarrow> bytes \<Rightarrow> bytes" where
  "vsnprintf b n out = overwrite b 0 (take (n - 1) out @ [NUL])"

lemma s_malloc_length: "s_malloc n m = (Some b, m') \<Longrightarrow> length b = n"
  by (cases m) auto

lemma vsnprintf_probe:
  assumes "2 \<le> length b" "length out + 1 < length b"
  shows "vsnprintf (b[length b - 2 := NUL]) (length b) out ! (length b - 2) = NUL"
  using assms by (auto simp: vsnprintf_def nth_overwrite nth_append)

function vprintf_loop :: "bytes \<Rightarrow> bytes \<Rightarrow> memory \<Rightarrow> (bytes option \<times> memory)" where
  "vprintf_loop b out m =
     (let buflen = length b; b1 = vsnprintf (b[buflen - 2 := NUL]) buflen out
      in if 2 \<le> buflen \<and> b1 ! (buflen - 2) \<noteq> NUL
         then case s_malloc (buflen * 2) m of
                (None, m') \<Rightarrow> (None, m')
              | (Some b', m') \<Rightarrow> vprintf_loop b' out m'
         else (Some b1, m))"
  by pat_completeness auto

termination
proof (relation "measure (\<lambda>(b, out, m). length out + 2 - length b)", goal_cases)
  case (2 b out m n b1 x y b')
  then have "s_malloc (length b * 2) m = (Some b', y)" by simp
  then have "length b' = length b * 2" by (rule s_malloc_length)
  moreover have "\<not> length out + 1 < length b"
    using 2 vsnprintf_probe [of b out] by auto
  ultimately show ?case using 2 by auto
qed simp

declare vprintf_loop.simps [simp del]

text \<open>The bytes of \<open>staticbuf\<close> before the call are indeterminate; they are overwritten or behind the
  terminator. \<open>fmtlen\<close> is \<open>strlen (fmt)\<close>.\<close>

definition sdscatvprintf :: "sds \<Rightarrow> nat \<Rightarrow> bytes \<Rightarrow> memory \<Rightarrow> (sds option \<times> memory) option" where
  "sdscatvprintf s fmtlen out m =
     (let (b, m) = (if fmtlen * 2 > 1024 then s_malloc (fmtlen * 2) m else (Some (replicate 1024 NUL), m))
      in case b of
           None \<Rightarrow> Some (None, m)
         | Some b \<Rightarrow>
             case vprintf_loop b out m of
               (None, m) \<Rightarrow> Some (None, m)
             | (Some b, m) \<Rightarrow> sdscat s b m)"

definition sdscatprintf :: "sds \<Rightarrow> nat \<Rightarrow> bytes \<Rightarrow> memory \<Rightarrow> (sds option \<times> memory) option" where
  "sdscatprintf s fmtlen out m = sdscatvprintf s fmtlen out m"

section \<open>The built-in formatter\<close>

text \<open>The variadic arguments; fetching one of another type is undefined.\<close>

datatype fmt_arg =
    Arg_cstr bytes
  | Arg_sds sds
  | Arg_int int
  | Arg_longlong int
  | Arg_uint nat
  | Arg_ulonglong nat

text \<open>The text a conversion inserts and the arguments left: \<open>%s %S %i %I %u %U\<close>.\<close>

fun conversion :: "byte \<Rightarrow> fmt_arg list \<Rightarrow> (bytes \<times> fmt_arg list) option" where
  "conversion c (Arg_cstr str # ap) = (if c = CHR ''s'' then Some (c_str str, ap) else None)"
| "conversion c (Arg_sds str # ap) = (if c = CHR ''S'' then do { b \<leftarrow> peek (buf str) 0 (sdslen str); Some (b, ap) } else None)"
| "conversion c (Arg_int v # ap) = (if c = CHR ''i'' then do { b \<leftarrow> sdsll2str v; Some (b, ap) } else None)"
| "conversion c (Arg_longlong v # ap) = (if c = CHR ''I'' then do { b \<leftarrow> sdsll2str v; Some (b, ap) } else None)"
| "conversion c (Arg_uint v # ap) = (if c = CHR ''u'' then do { b \<leftarrow> sdsull2str v; Some (b, ap) } else None)"
| "conversion c (Arg_ulonglong v # ap) = (if c = CHR ''U'' then do { b \<leftarrow> sdsull2str v; Some (b, ap) } else None)"
| "conversion c [] = None"

abbreviation is_conversion :: "byte \<Rightarrow> bool" where
  "is_conversion c \<equiv> c \<in> set ''sSiIuU''"

text \<open>\<open>memcpy (s+i, str, l); sdsinclen (s, l); i += l\<close>, where the \<open>int i\<close> must not overflow.\<close>

definition fmt_put :: "bytes \<Rightarrow> sds \<Rightarrow> nat \<Rightarrow> (sds \<times> nat) option" where
  "fmt_put str s i =
     (if i + length str < 2 ^ 31
      then do { s \<leftarrow> poke i str s; Some (sdsinclen s (length str), i + length str) }
      else None)"

text \<open>A \<open>%\<close> at the end of the format steps over the terminator: what follows is not defined.\<close>

function fmt_loop :: "bytes \<Rightarrow> fmt_arg list \<Rightarrow> sds \<Rightarrow> nat \<Rightarrow> memory \<Rightarrow> (sds option \<times> memory) option" where
  "fmt_loop f ap s i m =
     (case f of
        [] \<Rightarrow> do { s \<leftarrow> poke i [NUL] s; Some (Some s, m) }
      | c # f' \<Rightarrow> do {
          (r, m) \<leftarrow> (if sdsavail s = 0 then sdsMakeRoomFor s 1 m else Some (Some s, m));
          case r of
            None \<Rightarrow> Some (None, m)
          | Some s \<Rightarrow>
              if c \<noteq> CHR ''%'' then do { (s, i) \<leftarrow> fmt_put [c] s i; fmt_loop f' ap s i m }
              else case f' of
                     [] \<Rightarrow> None
                   | next # f'' \<Rightarrow>
                       if is_conversion next
                       then do {
                         (str, ap) \<leftarrow> conversion next ap;
                         (r, m) \<leftarrow> (if sdsavail s < length str then sdsMakeRoomFor s (length str) m else Some (Some s, m));
                         case r of
                           None \<Rightarrow> Some (None, m)
                         | Some s \<Rightarrow> do { (s, i) \<leftarrow> fmt_put str s i; fmt_loop f'' ap s i m }
                       }
                       else do { (s, i) \<leftarrow> fmt_put [next] s i; fmt_loop f'' ap s i m }
        })"
  by pat_completeness auto
termination
  by (relation "measure (\<lambda>(f, ap, s, i, m). length f)") auto

declare fmt_loop.simps [simp del]

definition sdscatfmt :: "sds \<Rightarrow> bytes \<Rightarrow> fmt_arg list \<Rightarrow> memory \<Rightarrow> (sds option \<times> memory) option" where
  "sdscatfmt s fmt ap m = fmt_loop (c_str fmt) ap s (sdslen s) m"

section \<open>Splitting and joining\<close>

function split_loop :: "bytes \<Rightarrow> nat \<Rightarrow> bytes \<Rightarrow> nat \<Rightarrow> nat \<Rightarrow> nat \<Rightarrow> sds list \<Rightarrow> nat \<Rightarrow> memory
    \<Rightarrow> (sds list option \<times> memory) option" where
  "split_loop s len sep seplen j start tokens slots m =
     (if 0 < seplen \<and> j + seplen \<le> len
      then
        let (room, slots, m) =
              (if slots < length tokens + 2
               then case s_malloc (8 * (slots * 2)) m of (b, m') \<Rightarrow> (b \<noteq> None, slots * 2, m')
               else (True, slots, m))
        in if \<not> room then Some (None, m)
           else if (seplen = 1 \<and> s ! j = sep ! 0) \<or> c_memcmp (drop j s) sep seplen = 0
           then do {
             (r, m) \<leftarrow> sdsnewlen (Some (drop start s)) (j - start) m;
             case r of
               None \<Rightarrow> Some (None, m)
             | Some t \<Rightarrow> split_loop s len sep seplen (j + seplen) (j + seplen) (tokens @ [t]) slots m
           }
           else split_loop s len sep seplen (j + 1) start tokens slots m
      else do {
        (r, m) \<leftarrow> sdsnewlen (Some (drop start s)) (len - start) m;
        case r of None \<Rightarrow> Some (None, m) | Some t \<Rightarrow> Some (Some (tokens @ [t]), m)
      })"
  by pat_completeness auto
termination
  by (relation "measure (\<lambda>(s, len, sep, seplen, j, _). len - j)") auto

declare split_loop.simps [simp del]

text \<open>
  The tokens, what \<open>*count\<close> becomes (\<open>None\<close> when it is not written) and the memory. The lengths
  are the \<open>int\<close> arguments; \<open>s\<close> and \<open>sep\<close> hold at least that many bytes.
\<close>

definition sdssplitlen :: "bytes \<Rightarrow> int \<Rightarrow> bytes \<Rightarrow> int \<Rightarrow> memory \<Rightarrow> (sds list option \<times> nat option \<times> memory) option" where
  "sdssplitlen s len sep seplen m =
     (if seplen < 1 \<or> len < 0 then Some (None, None, m)
      else case s_malloc (8 * 5) m of
             (None, m) \<Rightarrow> Some (None, None, m)
           | (Some _, m) \<Rightarrow>
               if len = 0 then Some (Some [], Some 0, m)
               else do {
                 (r, m) \<leftarrow> split_loop s (nat len) sep (nat seplen) 0 0 [] 5 m;
                 case r of
                   None \<Rightarrow> Some (None, Some 0, m)
                 | Some ts \<Rightarrow> Some (Some ts, Some (length ts), m)
               })"

text \<open>\<open>s = sdscat... (s, ...)\<close> without a look at the result: a null pointer is followed.\<close>

definition cat_to :: "sds option \<Rightarrow> (sds \<Rightarrow> memory \<Rightarrow> (sds option \<times> memory) option) \<Rightarrow> memory \<Rightarrow> (sds option \<times> memory) option" where
  "cat_to r cat m = (case r of None \<Rightarrow> None | Some s \<Rightarrow> cat s m)"

fun join_loop :: "('a \<Rightarrow> sds \<Rightarrow> memory \<Rightarrow> (sds option \<times> memory) option) \<Rightarrow>
    (sds \<Rightarrow> memory \<Rightarrow> (sds option \<times> memory) option) \<Rightarrow> sds option \<Rightarrow> 'a list \<Rightarrow> memory \<Rightarrow> (sds option \<times> memory) option" where
  "join_loop cat catsep r [] m = Some (r, m)"
| "join_loop cat catsep r (a # as) m =
     do {
       (r, m) \<leftarrow> cat_to r (cat a) m;
       (r, m) \<leftarrow> (if as \<noteq> [] then cat_to r catsep m else Some (r, m));
       join_loop cat catsep r as m
     }"

definition sdsjoin :: "bytes list \<Rightarrow> bytes \<Rightarrow> memory \<Rightarrow> (sds option \<times> memory) option" where
  "sdsjoin argv sep m =
     do { (r, m) \<leftarrow> sdsempty m; join_loop (\<lambda>a s. sdscat s a) (\<lambda>s. sdscat s sep) r argv m }"

definition sdsjoinsds :: "sds list \<Rightarrow> bytes \<Rightarrow> nat \<Rightarrow> memory \<Rightarrow> (sds option \<times> memory) option" where
  "sdsjoinsds argv sep seplen m =
     do { (r, m) \<leftarrow> sdsempty m; join_loop (\<lambda>a s. sdscatsds s a) (\<lambda>s. sdscatlen s sep seplen) r argv m }"

section \<open>Quoted representation\<close>

text \<open>\<open>%02x\<close> of a byte.\<close>

definition hex_digit :: "nat \<Rightarrow> byte" where
  "hex_digit n = (if n < 10 then char_of (48 + n) else char_of (87 + n))"

definition repr_byte :: "byte \<Rightarrow> sds \<Rightarrow> memory \<Rightarrow> (sds option \<times> memory) option" where
  "repr_byte c s m =
     (if c = CHR 0x5C \<or> c = CHR 0x22 then sdscatprintf s 3 [CHR 0x5C, c] m
      else if c = LF then sdscatlen s [CHR 0x5C, CHR ''n''] 2 m
      else if c = CR then sdscatlen s [CHR 0x5C, CHR ''r''] 2 m
      else if c = TAB then sdscatlen s [CHR 0x5C, CHR ''t''] 2 m
      else if c = CHR 0x07 then sdscatlen s [CHR 0x5C, CHR ''a''] 2 m
      else if c = CHR 0x08 then sdscatlen s [CHR 0x5C, CHR ''b''] 2 m
      else if c_isprint c then sdscatprintf s 2 [c] m
      else sdscatprintf s 6 [CHR 0x5C, CHR ''x'', hex_digit (uchar c div 16), hex_digit (uchar c mod 16)] m)"

fun repr_loop :: "sds option \<Rightarrow> bytes \<Rightarrow> memory \<Rightarrow> (sds option \<times> memory) option" where
  "repr_loop r [] m = Some (r, m)"
| "repr_loop r (c # p) m = do { (r, m) \<leftarrow> cat_to r (repr_byte c) m; repr_loop r p m }"

definition sdscatrepr :: "sds \<Rightarrow> bytes \<Rightarrow> nat \<Rightarrow> memory \<Rightarrow> (sds option \<times> memory) option" where
  "sdscatrepr s p len m =
     do {
       (r, m) \<leftarrow> sdscatlen s [CHR 0x22] 1 m;
       q \<leftarrow> peek p 0 len;
       (r, m) \<leftarrow> repr_loop r q m;
       cat_to r (\<lambda>s. sdscatlen s [CHR 0x22] 1) m
     }"

definition hex_digit_to_int :: "byte \<Rightarrow> nat" where
  "hex_digit_to_int c =
     (if c_isdigit c then uchar c - 48
      else if 97 \<le> uchar c \<and> uchar c \<le> 102 then uchar c - 87
      else if 65 \<le> uchar c \<and> uchar c \<le> 70 then uchar c - 55
      else 0)"

definition c_isxdigit :: "byte \<Rightarrow> bool" where
  "c_isxdigit c \<longleftrightarrow> c_isdigit c \<or> (97 \<le> uchar c \<and> uchar c \<le> 102) \<or> (65 \<le> uchar c \<and> uchar c \<le> 70)"

definition unescape :: "byte \<Rightarrow> byte" where
  "unescape c =
     (if c = CHR ''n'' then LF else if c = CHR ''r'' then CR else if c = CHR ''t'' then TAB
      else if c = CHR ''b'' then CHR 0x08 else if c = CHR ''a'' then CHR 0x07 else c)"

section \<open>Splitting a line into arguments\<close>

text \<open>\<open>inq\<close> and \<open>insq\<close> are never set together.\<close>

datatype quoting = Plain | In_double | In_single

datatype token_result = Token "sds option" bytes | Bad_quotes

abbreviation cat1 :: "sds option \<Rightarrow> byte \<Rightarrow> memory \<Rightarrow> (sds option \<times> memory) option" where
  "cat1 cur c m \<equiv> cat_to cur (\<lambda>s. sdscatlen s [c] 1) m"

fun hex_escape :: "bytes \<Rightarrow> (byte \<times> bytes) option" where
  "hex_escape (b # x # h # l # p) =
     (if b = CHR 0x5C \<and> x = CHR ''x'' \<and> c_isxdigit h \<and> c_isxdigit l
      then Some (char_of (hex_digit_to_int h * 16 + hex_digit_to_int l), p) else None)"
| "hex_escape _ = None"

lemma hex_escape_rest: "hex_escape p = Some (b, p') \<Longrightarrow> length p' < length p"
  by (cases p rule: hex_escape.cases) (auto split: if_splits)

text \<open>The loop over one token; the list is the rest of the line, its end the terminating NUL.\<close>

function token_loop :: "quoting \<Rightarrow> sds option \<Rightarrow> bytes \<Rightarrow> memory \<Rightarrow> (token_result \<times> memory) option" where
  "token_loop q cur p m =
     (case p of
        [] \<Rightarrow> Some (case q of Plain \<Rightarrow> Token cur [] | _ \<Rightarrow> Bad_quotes, m)
      | c # p' \<Rightarrow>
          (case q of
             In_double \<Rightarrow>
               (case hex_escape p of
                  Some (b, p'') \<Rightarrow> do { (cur, m) \<leftarrow> cat1 cur b m; token_loop q cur p'' m }
                | None \<Rightarrow>
                    if c = CHR 0x5C \<and> p' \<noteq> []
                    then do { (cur, m) \<leftarrow> cat1 cur (unescape (hd p')) m; token_loop q cur (tl p') m }
                    else if c = CHR 0x22
                    then Some (if p' \<noteq> [] \<and> \<not> c_isspace (hd p') then Bad_quotes else Token cur p', m)
                    else do { (cur, m) \<leftarrow> cat1 cur c m; token_loop q cur p' m })
           | In_single \<Rightarrow>
               if c = CHR 0x5C \<and> p' \<noteq> [] \<and> hd p' = CHR 0x27
               then do { (cur, m) \<leftarrow> cat1 cur (CHR 0x27) m; token_loop q cur (tl p') m }
               else if c = CHR 0x27
               then Some (if p' \<noteq> [] \<and> \<not> c_isspace (hd p') then Bad_quotes else Token cur p', m)
               else do { (cur, m) \<leftarrow> cat1 cur c m; token_loop q cur p' m }
           | Plain \<Rightarrow>
               if c = SP \<or> c = LF \<or> c = CR \<or> c = TAB then Some (Token cur p', m)
               else if c = CHR 0x22 then token_loop In_double cur p' m
               else if c = CHR 0x27 then token_loop In_single cur p' m
               else do { (cur, m) \<leftarrow> cat1 cur c m; token_loop q cur p' m }))"
  by pat_completeness auto

termination
  by (relation "measure (\<lambda>(q, cur, p, m). length p)") (auto dest: hex_escape_rest)

declare token_loop.simps [simp del]


lemma token_loop_shorter:
  "token_loop q cur p m = Some (Token cur' p', m') \<Longrightarrow> p \<noteq> [] \<Longrightarrow> length p' < length p"
proof (induction p arbitrary: q cur m rule: measure_induct_rule [of length])
  case (less p)
  have step: "length p' < length p"
    if "token_loop q2 cur2 p2 m2 = Some (Token cur' p', m')" "length p2 < length p" for q2 cur2 p2 m2
  proof (cases "p2 = []")
    case True
    with that less.prems(2) show ?thesis by (cases q2) (auto simp: token_loop.simps)
  next
    case False
    with less.IH [OF that(2,1)] that(2) show ?thesis by simp
  qed
  obtain c cs where p: "p = c # cs" using less.prems(2) by (cases p) auto
  have cs: "length cs < length p" "length (tl cs) < length p" using p by auto
  show ?case
    using less.prems(1) [unfolded token_loop.simps [of q cur p m]] step cs hex_escape_rest [of p]
    by (cases q) (auto simp: p bind_eq_Some_conv split: option.splits if_splits)
qed

function args_loop :: "bytes \<Rightarrow> sds option list \<Rightarrow> memory \<Rightarrow> (sds option list option \<times> nat \<times> memory) option" where
  "args_loop p vec m =
     (case dropWhile c_isspace p of
        [] \<Rightarrow>
          if vec = []
          then (case s_malloc 8 m of (None, m) \<Rightarrow> Some (None, 0, m) | (Some _, m) \<Rightarrow> Some (Some [], 0, m))
          else Some (Some vec, length vec, m)
      | c # cs \<Rightarrow> do {
          (cur, m) \<leftarrow> sdsempty m;
          (t, m) \<leftarrow> token_loop Plain cur (c # cs) m;
          case t of
            Bad_quotes \<Rightarrow> Some (None, 0, m)
          | Token cur p' \<Rightarrow>
              (case s_malloc ((length vec + 1) * 8) m of
                 (None, m) \<Rightarrow> Some (None, length vec, m)
               | (Some _, m) \<Rightarrow> args_loop p' (vec @ [cur]) m)
        })"
  by pat_completeness auto

termination
proof (relation "measure (\<lambda>(p, vec, m). length p)", goal_cases)
  case (2 p vec m c cs)
  then show ?case
    using length_dropWhile_le [of c_isspace p] by (auto dest!: token_loop_shorter [OF sym] token_loop_shorter)
qed simp

declare args_loop.simps [simp del]

text \<open>The argument vector with \<open>*argc\<close>; a slot may hold a null pointer when memory ran out.\<close>

definition sdssplitargs :: "bytes \<Rightarrow> memory \<Rightarrow> (sds option list option \<times> nat \<times> memory) option" where
  "sdssplitargs line m = args_loop (c_str line) [] m"

section \<open>Correctness of the number conversions\<close>

definition dec_int :: "int \<Rightarrow> bytes" where
  "dec_int v = (if v < 0 then ''-'' else []) @ dec_nat (nat \<bar>v\<bar>)"

lemma rev_rev_digits: "rev (rev_digits v) = dec_nat v"
proof (induction v rule: rev_digits.induct)
  case (1 v)
  show ?case
  proof (cases "v < 10")
    case True
    then show ?thesis by (subst rev_digits.simps, subst dec_nat.simps) simp
  next
    case False
    then have "v div 10 \<noteq> 0" by auto
    with 1 False show ?thesis by (subst rev_digits.simps, subst dec_nat.simps) simp
  qed
qed

lemma swap_ends_nth:
  "s + p = length b - 1 \<Longrightarrow> p < length b \<Longrightarrow>
   length (swap_ends b s p) = length b \<and>
   (\<forall>i < length b. swap_ends b s p ! i = (if s \<le> i \<and> i \<le> p then b ! (length b - 1 - i) else b ! i))"
proof (induction b s p rule: swap_ends.induct)
  case (1 b s p)
  show ?case
  proof (cases "s < p")
    case True
    let ?b = "b[s := b ! p, p := b ! s]"
    have ih: "length (swap_ends ?b (Suc s) (p - 1)) = length b"
      "\<And>i. i < length b \<Longrightarrow> swap_ends ?b (Suc s) (p - 1) ! i = (if Suc s \<le> i \<and> i \<le> p - 1 then ?b ! (length b - 1 - i) else ?b ! i)"
      using "1.IH" [OF True] "1.prems" True by auto
    have "swap_ends ?b (Suc s) (p - 1) ! i = (if s \<le> i \<and> i \<le> p then b ! (length b - 1 - i) else b ! i)"
      if i: "i < length b" for i
    proof -
      have "length b - 1 - s = p" "length b - 1 - p = s" using "1.prems" by auto
      moreover have "length b - 1 - i \<noteq> s" "length b - 1 - i \<noteq> p" if "s < i" "i < p"
        using that "1.prems" by auto
      ultimately show ?thesis
        using ih(2) [OF i] i True "1.prems" by (auto simp: nth_list_update)
    qed
    with ih(1) True show ?thesis by (simp add: swap_ends.simps [of b s p])
  next
    case False
    then have "i = length b - 1 - i" if "s \<le> i" "i \<le> p" for i using that "1.prems" by auto
    with False show ?thesis by (auto simp: swap_ends.simps [of b s p])
  qed
qed

lemma swap_ends_rev: "b \<noteq> [] \<Longrightarrow> swap_ends b 0 (length b - 1) = rev b"
  using swap_ends_nth [of 0 "length b - 1" b]
  by (intro nth_equalityI) (auto simp: rev_nth)

lemma length_dec_nat: "n < 10 ^ k \<Longrightarrow> 0 < k \<Longrightarrow> length (dec_nat n) \<le> k"
proof (induction n arbitrary: k rule: dec_nat.induct)
  case (1 n)
  show ?case
  proof (cases "n < 10")
    case True
    with "1.prems" show ?thesis by (subst dec_nat.simps) simp
  next
    case False
    obtain j where k: "k = Suc j" using "1.prems"(2) by (cases k) auto
    have k: "k = Suc j" "0 < j" using False "1.prems"(1) k by (auto intro!: gr0I)
    have "n div 10 < 10 ^ j" using "1.prems"(1) k(1) by (simp add: less_mult_imp_div_less mult.commute)
    from "1.IH" [OF False this k(2)] False k(1) show ?thesis by (subst dec_nat.simps) simp
  qed
qed

lemma rev_digits_not_Nil [simp]: "rev_digits v \<noteq> []"
  by (subst rev_digits.simps) simp

lemma length_rev_digits: "length (rev_digits v) = length (dec_nat v)"
  using arg_cong [OF rev_rev_digits, of length v] by simp

lemma sdsll2str_eq: "- (2 ^ 63) < v \<Longrightarrow> v < 2 ^ 63 \<Longrightarrow> sdsll2str v = Some (dec_int v)"
proof -
  assume v: "- (2 ^ 63) < v" "v < 2 ^ 63"
  have a: "(if v < 0 then - v else v) = \<bar>v\<bar>" by simp
  let ?b = "rev_digits (nat \<bar>v\<bar>) @ (if v < 0 then ''-'' else [])"
  have "length (dec_nat (nat \<bar>v\<bar>)) \<le> 19" using v by (intro length_dec_nat) auto
  then have "length ?b + 1 \<le> SDS_LLSTR_SIZE" by (auto simp: length_rev_digits simp del: abs_of_neg split: if_splits)
  moreover have "swap_ends ?b 0 (length ?b - 1) = rev ?b" by (rule swap_ends_rev) simp
  moreover have "rev ?b = dec_int v" by (simp add: dec_int_def rev_rev_digits)
  ultimately show ?thesis using v(1) unfolding sdsll2str_def Let_def a by simp
qed

lemma sdsull2str_eq: "v < 2 ^ 64 \<Longrightarrow> sdsull2str v = Some (dec_nat v)"
proof -
  assume v: "v < 2 ^ 64"
  then have "length (dec_nat v) \<le> 20" by (intro length_dec_nat) auto
  then show ?thesis
    using swap_ends_rev [of "rev_digits v"] by (simp add: sdsull2str_def Let_def rev_rev_digits length_rev_digits)
qed

section \<open>The append contract\<close>

text \<open>
  What the text functions rely on: appending keeps strings well formed and concatenates. A
  sequence of unchecked appends is safe as long as memory is available.
\<close>

locale appender =
  fixes ok :: "sds \<Rightarrow> bool" and val :: "sds \<Rightarrow> bytes" and limit :: nat
    and app :: "'a \<Rightarrow> sds \<Rightarrow> memory \<Rightarrow> (sds option \<times> memory) option" and txt' :: "'a \<Rightarrow> bytes"
    and good :: "'a \<Rightarrow> bool"
  assumes app_ok: "\<lbrakk>ok s; good a; length (val s) + length (txt' a) < limit\<rbrakk> \<Longrightarrow>
    delivers m (app a s m) (\<lambda>s'. ok s' \<and> val s' = val s @ txt' a)"
begin

lemma app_step:
  assumes "ok s" "good a" "length (val s) + length (txt' a) < limit" "willing m"
  shows "\<exists>s' m'. cat_to (Some s) (app a) m = Some (Some s', m') \<and> willing m' \<and> ok s' \<and> val s' = val s @ txt' a"
  using delivers_willing [OF app_ok [OF assms(1-3)] assms(4)] by (auto simp: cat_to_def)

end

interpretation catlen: appender sds_ok content "2 ^ 63" "\<lambda>t s. sdscatlen s t (length t)" "\<lambda>t. t" "\<lambda>t. True"
proof
  fix s :: sds and a :: bytes and m assume "sds_ok s" "length (content s) + length a < 2 ^ 63"
  then show "delivers m (sdscatlen s a (length a) m) (\<lambda>s'. sds_ok s' \<and> content s' = content s @ a)"
    using sdscatlen_ok [of s "length a" a m] by simp
qed

interpretation catstr: appender sds_ok content "2 ^ 63" "\<lambda>t s. sdscat s t" c_str "\<lambda>t. True"
proof
  fix s :: sds and a m assume "sds_ok s" "length (content s) + length (c_str a) < 2 ^ 63"
  moreover have "take (length (c_str a)) a = c_str a" "length (c_str a) \<le> length a"
    by (simp_all add: c_str_def takeWhile_eq_take [symmetric] length_takeWhile_le)
  ultimately show "delivers m (sdscat s a m) (\<lambda>s'. sds_ok s' \<and> content s' = content s @ c_str a)"
    using sdscatlen_ok [of s "length (c_str a)" a m] by (simp add: sdscat_def c_strlen_def)
qed

interpretation catsds: appender sds_ok content "2 ^ 63" "\<lambda>t s. sdscatsds s t" content sds_ok
proof
  fix s a :: sds and m assume h: "sds_ok s" "sds_ok a" "length (content s) + length (content a) < 2 ^ 63"
  have "sdslen a \<le> length (buf a)" using h(2) by (auto simp: sds_ok_def sds_room_def)
  then show "delivers m (sdscatsds s a m) (\<lambda>s'. sds_ok s' \<and> content s' = content s @ content a)"
    using sdscatlen_ok [of s "sdslen a" "buf a" m] h by (simp add: sdscatsds_def content_def [of a])
qed

section \<open>Formatting with the C library: what is appended\<close>

lemma c_str_stop: "c_str (xs @ NUL # ys) = c_str xs"
  unfolding c_str_def by (induction xs) auto

lemma c_str_take: "NUL \<in> set (take k xs) \<Longrightarrow> c_str (take k xs) = c_str xs"
  unfolding c_str_def
  using takeWhile_append1 [of NUL "take k xs" "\<lambda>c. c \<noteq> NUL" "drop k xs"] by simp

lemma vsnprintf_text:
  assumes n: "2 \<le> length b" and stop: "vsnprintf (b[length b - 2 := NUL]) (length b) out ! (length b - 2) = NUL"
  shows "c_str (vsnprintf (b[length b - 2 := NUL]) (length b) out) = c_str out"
proof -
  have e: "c_str (vsnprintf (b[length b - 2 := NUL]) (length b) out) = c_str (take (length b - 1) out)"
    using n by (simp add: vsnprintf_def overwrite_def c_str_stop)
  show ?thesis
  proof (cases "length out \<le> length b - 1")
    case True
    with e show ?thesis by simp
  next
    case False
    obtain k where k: "length b = Suc (Suc k)"
      using n by (metis add_2_eq_Suc le_Suc_ex)
    have "take (Suc k) out ! k = NUL"
      using stop False by (simp add: k vsnprintf_def nth_overwrite nth_append)
    then have "NUL \<in> set (take (length b - 1) out)"
      using False k by (metis diff_Suc_1 length_take lessI min.absorb2 nat_le_linear nth_mem)
    with e c_str_take show ?thesis by simp
  qed
qed

lemma vprintf_loop_ok:
  "2 \<le> length b \<Longrightarrow> vprintf_loop b out m = (r, m') \<Longrightarrow>
   (willing m \<longrightarrow> r \<noteq> None \<and> willing m') \<and> (\<forall>b'. r = Some b' \<longrightarrow> c_str b' = c_str out)"
proof (induction b out m rule: vprintf_loop.induct)
  case (1 b out m)
  let ?b1 = "vsnprintf (b[length b - 2 := NUL]) (length b) out"
  show ?case
  proof (cases "?b1 ! (length b - 2) \<noteq> NUL")
    case True
    show ?thesis
    proof (cases rule: s_malloc_cases [of "length b * 2" m])
      case (1 m1)
      with True "1.prems" show ?thesis by (auto simp: vprintf_loop.simps [of b] Let_def)
    next
      case (2 b' m1)
      with True "1.prems" "1.IH" [OF refl refl] show ?thesis by (auto simp: vprintf_loop.simps [of b] Let_def)
    qed
  next
    case False
    with "1.prems" vsnprintf_text [of b out] show ?thesis by (auto simp: vprintf_loop.simps [of b] Let_def)
  qed
qed

interpretation catprintf: appender sds_ok content "2 ^ 63" "\<lambda>(fmtlen, out) s. sdscatprintf s fmtlen out" "\<lambda>(fmtlen, out). c_str out" "\<lambda>_. True"
proof
  fix s :: sds and a :: "nat \<times> bytes" and m
  assume s: "sds_ok s" "length (content s) + length (case a of (fmtlen, out) \<Rightarrow> c_str out) < 2 ^ 63"
  obtain fmtlen out where a: "a = (fmtlen, out)" by force
  let ?Q = "\<lambda>s'. sds_ok s' \<and> content s' = content s @ c_str out"
  have run: "delivers m0 (case vprintf_loop b out m1 of (None, m) \<Rightarrow> Some (None, m) | (Some b, m) \<Rightarrow> sdscat s b m) ?Q"
    if b: "2 \<le> length b" and w: "willing m0 \<longrightarrow> willing m1" for b m0 m1
  proof -
    obtain r m2 where v: "vprintf_loop b out m1 = (r, m2)" by force
    note ok = vprintf_loop_ok [OF b v]
    show ?thesis
    proof (cases r)
      case None
      with v ok w show ?thesis by (auto simp: delivers_iff)
    next
      case (Some b')
      with v ok w catstr.app_ok [OF s(1), of b' m2] s(2) a show ?thesis by (auto simp: delivers_iff)
    qed
  qed
  show "delivers m ((case a of (fmtlen, out) \<Rightarrow> \<lambda>s. sdscatprintf s fmtlen out) s m)
      (\<lambda>s'. sds_ok s' \<and> content s' = content s @ (case a of (fmtlen, out) \<Rightarrow> c_str out))"
  proof (cases "fmtlen * 2 > 1024")
    case True
    show ?thesis
    proof (cases rule: s_malloc_cases [of "fmtlen * 2" m])
      case (1 m1)
      with True show ?thesis by (auto simp: a sdscatprintf_def sdscatvprintf_def delivers_iff)
    next
      case (2 b m1)
      with True run [of b m m1] show ?thesis by (auto simp: a sdscatprintf_def sdscatvprintf_def)
    qed
  next
    case False
    with run [of "replicate 1024 NUL" m m] show ?thesis by (auto simp: a sdscatprintf_def sdscatvprintf_def)
  qed
qed

section \<open>Joining\<close>

fun join_with :: "bytes \<Rightarrow> bytes list \<Rightarrow> bytes" where
  "join_with sep [] = []"
| "join_with sep [t] = t"
| "join_with sep (t # u # ts) = t @ sep @ join_with sep (u # ts)"

locale joiner = appender ok val limit app txt' good
  for ok val limit app txt' good +
  fixes appsep :: "sds \<Rightarrow> memory \<Rightarrow> (sds option \<times> memory) option" and sep :: bytes
  assumes sep_ok: "\<lbrakk>ok s; length (val s) + length sep < limit\<rbrakk> \<Longrightarrow>
    delivers m (appsep s m) (\<lambda>s'. ok s' \<and> val s' = val s @ sep)"
begin

lemma join_loop_ok:
  "\<lbrakk>ok s; \<forall>a \<in> set as. good a; length (val s) + length (join_with sep (map txt' as)) < limit; willing m\<rbrakk> \<Longrightarrow>
   \<exists>s' m'. join_loop app appsep (Some s) as m = Some (Some s', m') \<and> willing m' \<and> ok s' \<and>
     val s' = val s @ join_with sep (map txt' as)"
proof (induction as arbitrary: s m)
  case (Cons a as)
  have "length (val s) + length (txt' a) < limit" using Cons.prems(3) by (cases as) auto
  then obtain s1 m1 where s1: "cat_to (Some s) (app a) m = Some (Some s1, m1)" "willing m1" "ok s1" "val s1 = val s @ txt' a"
    using app_step [of s a m] Cons.prems by auto
  show ?case
  proof (cases as)
    case Nil
    with s1 show ?thesis by simp
  next
    case (Cons b bs)
    then have "length (val s1) + length sep < limit" using Cons.prems(3) s1(4) by simp
    from delivers_willing [OF sep_ok [OF s1(3) this] s1(2)] obtain s2 m2
      where s2: "appsep s1 m1 = Some (Some s2, m2)" "willing m2" "ok s2" "val s2 = val s1 @ sep" by blast
    with Cons.IH [of s2 m2] Cons.prems(2,3) s1 Cons show ?thesis by (auto simp: cat_to_def)
  qed
qed simp

end

interpretation join_cstr: joiner sds_ok content "2 ^ 63" "\<lambda>t s. sdscat s t" c_str "\<lambda>t. True" "\<lambda>s. sdscat s sep" "c_str sep"
  for sep
  by unfold_locales (rule catstr.app_ok, simp_all)

interpretation join_sds: joiner sds_ok content "2 ^ 63" "\<lambda>t s. sdscatsds s t" content sds_ok "\<lambda>s. sdscatlen s sep (length sep)" sep
  for sep
  by unfold_locales (rule catlen.app_ok, simp_all)

lemma sdsempty_ok: "delivers m (sdsempty m) (\<lambda>s. sds_ok s \<and> content s = [])"
  using sdsnewlen_ok [of 0 "Some [NUL]" m] by (simp add: sdsempty_def)

lemma sdsjoinsds_ok:
  assumes "\<forall>t \<in> set ts. sds_ok t" "length (join_with sep (map content ts)) < 2 ^ 63" "willing m"
  shows "\<exists>s m'. sdsjoinsds ts sep (length sep) m = Some (Some s, m') \<and> sds_ok s \<and> content s = join_with sep (map content ts)"
proof -
  from delivers_willing [OF sdsempty_ok assms(3)] obtain s0 m0
    where "sdsempty m = Some (Some s0, m0)" "willing m0" "sds_ok s0" "content s0 = []" by blast
  with join_sds.join_loop_ok [of s0 ts sep m0] assms(1,2) show ?thesis by (auto simp: sdsjoinsds_def)
qed

section \<open>Splitting\<close>

text \<open>\<open>sep\<close> occurs nowhere in \<open>t\<close>.\<close>

definition sep_free :: "bytes \<Rightarrow> bytes \<Rightarrow> bool" where
  "sep_free sep t \<longleftrightarrow> (\<forall>i \<in> set [0..<Suc (length t)]. i + length sep \<le> length t \<longrightarrow> take (length sep) (drop i t) \<noteq> sep)"

lemma sep_match:
  assumes "j + n \<le> length s" "n = length sep" "0 < n"
  shows "(n = 1 \<and> s ! j = sep ! 0) \<or> c_memcmp (drop j s) sep n = 0 \<longleftrightarrow> take n (drop j s) = sep"
proof -
  have m: "c_memcmp (drop j s) sep n = 0 \<longleftrightarrow> take n (drop j s) = sep"
    using assms by (subst c_memcmp_0_iff) auto
  have "take n (drop j s) = sep" if "n = 1" "s ! j = sep ! 0"
    using that assms by (cases sep) (auto simp: take_Suc_conv_app_nth)
  with m show ?thesis by blast
qed

lemma sep_free_segment:
  assumes "\<And>i. start \<le> i \<Longrightarrow> i < stop \<Longrightarrow> i + length sep \<le> stop \<Longrightarrow> take (length sep) (drop i s) \<noteq> sep"
    and "start \<le> stop" "stop \<le> length s" "0 < length sep"
  shows "sep_free sep (take (stop - start) (drop start s))"
  unfolding sep_free_def
proof (intro ballI impI)
  fix i assume "i + length sep \<le> length (take (stop - start) (drop start s))"
  then have i: "i + length sep \<le> stop - start" using assms(2,3) by simp
  then have "take (length sep) (drop i (take (stop - start) (drop start s))) = take (length sep) (drop (start + i) s)"
    by (simp add: drop_take min_absorb1 add.commute)
  with assms(1) [of "start + i"] assms(2,4) i show "take (length sep) (drop i (take (stop - start) (drop start s))) \<noteq> sep"
    by auto
qed

lemma join_with_snoc: "join_with sep (ts @ [t]) = concat (map (\<lambda>t. t @ sep) ts) @ t"
proof (induction ts)
  case (Cons a ts)
  then show ?case by (cases ts) auto
qed simp

lemma split_loop_ok:
  assumes "length s < 2 ^ 31" "0 < length sep"
  shows "\<lbrakk>start \<le> j; j \<le> length s; \<forall>t \<in> set tokens. sds_ok t \<and> sep_free sep (content t);
     concat (map (\<lambda>t. content t @ sep) tokens) @ drop start s = s;
     \<And>i. start \<le> i \<Longrightarrow> i < j \<Longrightarrow> i + length sep \<le> length s \<Longrightarrow> take (length sep) (drop i s) \<noteq> sep\<rbrakk> \<Longrightarrow>
   delivers m (split_loop s (length s) sep (length sep) j start tokens slots m)
     (\<lambda>ts. (\<forall>t \<in> set ts. sds_ok t \<and> sep_free sep (content t)) \<and> join_with sep (map content ts) = s)"
proof (induction "length s - j" arbitrary: j start tokens slots m rule: less_induct)
  case less
  let ?Q = "\<lambda>ts. (\<forall>t \<in> set ts. sds_ok t \<and> sep_free sep (content t)) \<and> join_with sep (map content ts) = s"
  have tok: "delivers m' (sdsnewlen (Some (drop start s)) (k - start) m') (\<lambda>t. sds_ok t \<and> content t = take (k - start) (drop start s))"
    if "k \<le> length s" for k m'
    using that assms(1) less.prems(1) sdsnewlen_ok [of "k - start" "Some (drop start s)" m'] by simp
  show ?case
  proof (cases "j + length sep \<le> length s")
    case True
    define match where "match \<longleftrightarrow> take (length sep) (drop j s) = sep"
    let ?go = "\<lambda>slots m. (if match
        then do { (r, m) \<leftarrow> sdsnewlen (Some (drop start s)) (j - start) m;
             case r of None \<Rightarrow> Some (None, m)
             | Some t \<Rightarrow> split_loop s (length s) sep (length sep) (j + length sep) (j + length sep) (tokens @ [t]) slots m }
        else split_loop s (length s) sep (length sep) (j + 1) start tokens slots m)"
    have go: "delivers m' (?go slots' m') ?Q" for slots' m'
    proof (cases match)
      case True': True
      show ?thesis
        unfolding if_P [OF True']
      proof (rule delivers_bind [OF tok], goal_cases)
        case 1
        then show ?case using True by simp
      next
        case (2 t m1)
        have free: "sep_free sep (content t)"
          using 2 less.prems True assms(2) by (auto intro!: sep_free_segment)
        have "s = concat (map (\<lambda>t. content t @ sep) tokens) @ take (j - start) (drop start s) @ take (length sep) (drop j s) @ drop (j + length sep) s"
          using less.prems(1,4)
          by (metis append_take_drop_id drop_drop le_add_diff_inverse2 add.commute)
        moreover have "length s - (j + length sep) < length s - j" using True assms(2) by linarith
        ultimately show ?case
          using 2 free less.prems(3) True True' assms(2) less.hyps [of "j + length sep" "j + length sep" "tokens @ [t]" m1 slots']
          by (auto simp: match_def)
      qed
    next
      case False
      then have "take (length sep) (drop i s) \<noteq> sep" if "start \<le> i" "i < j + 1" "i + length sep \<le> length s" for i
        using that less.prems(5) [of i] by (cases "i = j") (auto simp: match_def)
      moreover have "length s - (j + 1) < length s - j" "j + 1 \<le> length s"
        using True assms(2) by linarith+
      ultimately show ?thesis
        using False less.prems(1-4) True assms(2) less.hyps [of "j + 1" start tokens m' slots'] by simp
    qed
    have unf: "split_loop s (length s) sep (length sep) j start tokens slots m =
        (let (room, slots, m) = (if slots < length tokens + 2
               then case s_malloc (8 * (slots * 2)) m of (b, m') \<Rightarrow> (b \<noteq> None, slots * 2, m')
               else (True, slots, m))
         in if \<not> room then Some (None, m) else ?go slots m)"
      unfolding split_loop.simps [of s "length s" sep "length sep" j start tokens slots m] match_def
      using True assms(2) by (simp only: sep_match [OF True refl assms(2)] simp_thms if_True)
    show ?thesis
    proof (cases "slots < length tokens + 2")
      case small: True
      show ?thesis
      proof (cases rule: s_malloc_cases [of "8 * (slots * 2)" m])
        case (1 m')
        with small show ?thesis unfolding unf by (simp add: delivers_iff)
      next
        case (2 b m')
        then have "delivers m (?go (slots * 2) m') ?Q" using go [of m' "slots * 2"] by (auto simp: delivers_iff)
        with 2 small show ?thesis unfolding unf by simp
      qed
    next
      case False
      with go [of m slots] show ?thesis unfolding unf by simp
    qed
  next
    case False
    then have e: "split_loop s (length s) sep (length sep) j start tokens slots m =
        (do { (r, m) \<leftarrow> sdsnewlen (Some (drop start s)) (length s - start) m;
             case r of None \<Rightarrow> Some (None, m) | Some t \<Rightarrow> Some (Some (tokens @ [t]), m) })"
      by (subst split_loop.simps) simp
    show ?thesis
      unfolding e
    proof (rule delivers_bind [OF tok [OF order.refl]], rule delivers_Some)
      fix t :: sds assume t: "sds_ok t \<and> content t = take (length s - start) (drop start s)"
      have "sep_free sep (take (length s - start) (drop start s))"
        using less.prems(1,2,5) False assms(2) by (intro sep_free_segment) auto
      then have "sep_free sep (content t)" using t by simp
      with t less.prems(3,4) show "?Q (tokens @ [t])"
        by (auto simp: join_with_snoc comp_def)
    qed
  qed
qed

section \<open>The quoted representation and its reader\<close>

definition repr_text :: "byte \<Rightarrow> bytes" where
  "repr_text c =
     (if c = CHR 0x5C \<or> c = CHR 0x22 then [CHR 0x5C, c]
      else if c = LF then [CHR 0x5C, CHR ''n'']
      else if c = CR then [CHR 0x5C, CHR ''r'']
      else if c = TAB then [CHR 0x5C, CHR ''t'']
      else if c = CHR 0x07 then [CHR 0x5C, CHR ''a'']
      else if c = CHR 0x08 then [CHR 0x5C, CHR ''b'']
      else if c_isprint c then [c]
      else [CHR 0x5C, CHR ''x'', hex_digit (uchar c div 16), hex_digit (uchar c mod 16)])"

definition quote :: "bytes \<Rightarrow> bytes" where
  "quote p = CHR 0x22 # concat (map repr_text p) @ [CHR 0x22]"

lemma hex_digit_value:
  assumes "n < 16"
  shows "c_isxdigit (hex_digit n)" "hex_digit_to_int (hex_digit n) = n" "hex_digit n \<noteq> NUL"
proof -
  have u: "uchar (hex_digit n) = (if n < 10 then 48 + n else 87 + n)"
    using assms by (simp add: hex_digit_def)
  show "c_isxdigit (hex_digit n)" "hex_digit_to_int (hex_digit n) = n"
    using assms by (auto simp: c_isxdigit_def hex_digit_to_int_def c_isdigit_def u)
  have "uchar (hex_digit n) \<noteq> uchar NUL" unfolding u by (simp add: uchar_def)
  then show "hex_digit n \<noteq> NUL" by auto
qed

lemma NUL_not_print [simp]: "\<not> c_isprint NUL"
  by (simp add: c_isprint_def uchar_def)

lemma NUL_notin_repr_text [simp]: "NUL \<notin> set (repr_text c)"
  using hex_digit_value(3) [of "uchar c div 16"] hex_digit_value(3) [of "uchar c mod 16"]
    less_mult_imp_div_less [of "uchar c" 16 16]
  by (auto simp: repr_text_def)

lemma length_repr_text: "length (repr_text c) \<le> 4"
  by (simp add: repr_text_def)

interpretation repr: appender sds_ok content "2 ^ 63" repr_byte repr_text "\<lambda>_. True"
proof
  fix s :: sds and c m assume h: "sds_ok s" "length (content s) + length (repr_text c) < 2 ^ 63"
  define n :: nat where "n = (if c = CHR 0x5C \<or> c = CHR 0x22 then 3 else if c_isprint c then 2 else 6)"
  define short where "short \<longleftrightarrow> c = LF \<or> c = CR \<or> c = TAB \<or> c = CHR 0x07 \<or> c = CHR 0x08"
  have "repr_byte c s m = sdscatlen s (repr_text c) (length (repr_text c)) m" if short
    using that unfolding short_def by (elim disjE) (simp_all add: repr_byte_def repr_text_def numeral_2_eq_2)
  moreover have "repr_byte c s m = sdscatprintf s n (repr_text c) m" if "\<not> short"
    using that by (simp add: short_def repr_byte_def repr_text_def n_def)
  moreover have "c_str (repr_text c) = repr_text c" by simp
  ultimately show "delivers m (repr_byte c s m) (\<lambda>s'. sds_ok s' \<and> content s' = content s @ repr_text c)"
    using catlen.app_ok [of s "repr_text c" m] catprintf.app_ok [of s "(n, repr_text c)" m] h by (cases short) auto
qed

lemma repr_loop_ok:
  "\<lbrakk>sds_ok s; length (content s) + length (concat (map repr_text p)) < 2 ^ 63; willing m\<rbrakk> \<Longrightarrow>
   \<exists>s' m'. repr_loop (Some s) p m = Some (Some s', m') \<and> willing m' \<and> sds_ok s' \<and>
     content s' = content s @ concat (map repr_text p)"
proof (induction p arbitrary: s m)
  case (Cons c p)
  then obtain s1 m1 where s1: "cat_to (Some s) (repr_byte c) m = Some (Some s1, m1)" "willing m1" "sds_ok s1"
    "content s1 = content s @ repr_text c"
    using repr.app_step [of s c m] by auto
  with Cons.IH [of s1 m1] Cons.prems show ?case by auto
qed simp

lemma sdscatrepr_ok:
  assumes "sds_ok s" "length (content s) + length (quote p) < 2 ^ 63" "willing m"
  shows "\<exists>s' m'. sdscatrepr s p (length p) m = Some (Some s', m') \<and> willing m' \<and> sds_ok s' \<and>
    content s' = content s @ quote p"
proof -
  have l: "length (content s) + length (concat (map repr_text p)) + 2 < 2 ^ 63"
    using assms(2) by (simp add: quote_def)
  obtain s1 m1 where s1: "sdscatlen s [CHR 0x22] 1 m = Some (Some s1, m1)" "willing m1" "sds_ok s1"
    "content s1 = content s @ [CHR 0x22]"
    using catlen.app_step [of s "[CHR 0x22]" m] assms l by (auto simp: cat_to_def)
  obtain s2 m2 where s2: "repr_loop (Some s1) p m1 = Some (Some s2, m2)" "willing m2" "sds_ok s2"
    "content s2 = content s1 @ concat (map repr_text p)"
    using repr_loop_ok [OF s1(3) _ s1(2), of p] s1(4) l by auto
  obtain s3 m3 where s3: "cat_to (Some s2) (\<lambda>s. sdscatlen s [CHR 0x22] 1) m2 = Some (Some s3, m3)" "willing m3" "sds_ok s3"
    "content s3 = content s2 @ [CHR 0x22]"
    using catlen.app_step [of s2 "[CHR 0x22]" m2] s1(4) s2 l by auto
  show ?thesis using s1 s2 s3 by (simp add: sdscatrepr_def peek_def quote_def)
qed

text \<open>One byte of a quoted text is read back as that byte.\<close>

lemma token_loop_hex:
  "hex_escape q = Some (b, p) \<Longrightarrow>
   token_loop In_double cur q m = do { (cur, m) \<leftarrow> cat1 cur b m; token_loop In_double cur p m }"
  by (subst token_loop.simps) (cases q; simp)

lemma token_loop_escape:
  "b \<noteq> CHR ''x'' \<Longrightarrow>
   token_loop In_double cur (CHR 0x5C # b # p) m = do { (cur, m) \<leftarrow> cat1 cur (unescape b) m; token_loop In_double cur p m }"
proof -
  assume "b \<noteq> CHR ''x''"
  then have "hex_escape (CHR 0x5C # b # p) = None"
    by (cases "CHR 0x5C # b # p" rule: hex_escape.cases) auto
  then show ?thesis by (subst token_loop.simps) simp
qed

lemma token_loop_literal:
  "c \<noteq> CHR 0x5C \<Longrightarrow> c \<noteq> CHR 0x22 \<Longrightarrow>
   token_loop In_double cur (c # p) m = do { (cur, m) \<leftarrow> cat1 cur c m; token_loop In_double cur p m }"
proof -
  assume h: "c \<noteq> CHR 0x5C" "c \<noteq> CHR 0x22"
  then have "hex_escape (c # p) = None"
    by (cases "c # p" rule: hex_escape.cases) auto
  with h show ?thesis by (subst token_loop.simps) simp
qed

lemma hex_escape_repr:
  "hex_escape (CHR 0x5C # CHR ''x'' # hex_digit (uchar c div 16) # hex_digit (uchar c mod 16) # p) = Some (c, p)"
proof -
  have h: "uchar c div 16 < 16" using uchar_less [of c] by (simp add: less_mult_imp_div_less del: uchar_less)
  have "uchar c div 16 * 16 + uchar c mod 16 = uchar c" by simp
  then show ?thesis
    using hex_digit_value [OF h] hex_digit_value [of "uchar c mod 16"] by (simp add: uchar_def)
qed

lemma token_loop_repr:
  "token_loop In_double cur (repr_text c @ p) m = do { (cur, m) \<leftarrow> cat1 cur c m; token_loop In_double cur p m }"
proof -
  consider "c = CHR 0x5C" | "c = CHR 0x22" | "c = LF" | "c = CR" | "c = TAB" | "c = CHR 0x07" | "c = CHR 0x08"
    | (other) "c \<notin> {CHR 0x5C, CHR 0x22, LF, CR, TAB, CHR 0x07, CHR 0x08}"
    by blast
  then show ?thesis
  proof cases
    case other
    then show ?thesis
      using token_loop_hex [OF hex_escape_repr [of c p]]
      by (cases "c_isprint c") (simp_all add: repr_text_def token_loop_literal)
  qed (simp_all add: repr_text_def token_loop_escape unescape_def)
qed

lemma token_loop_quoted:
  assumes "p' = [] \<or> c_isspace (hd p')"
  shows "\<lbrakk>sds_ok cur; length (content cur) + length p < 2 ^ 63; willing m\<rbrakk> \<Longrightarrow>
    \<exists>s m'. token_loop In_double (Some cur) (concat (map repr_text p) @ CHR 0x22 # p') m = Some (Token (Some s) p', m') \<and>
      willing m' \<and> sds_ok s \<and> content s = content cur @ p"
proof (induction p arbitrary: cur m)
  case Nil
  have "hex_escape (CHR 0x22 # p') = None"
    by (cases "CHR 0x22 # p'" rule: hex_escape.cases) auto
  with Nil assms show ?case by (subst token_loop.simps) auto
next
  case (Cons c p)
  then obtain s1 m1 where s1: "cat1 (Some cur) c m = Some (Some s1, m1)" "willing m1" "sds_ok s1" "content s1 = content cur @ [c]"
    using catlen.app_step [of cur "[c]" m] by auto
  with Cons.IH [of s1 m1] Cons.prems token_loop_repr [of "Some cur" c _ m] show ?case by simp
qed

lemma args_loop_quoted:
  "\<lbrakk>\<forall>p \<in> set ps. length p < 2 ^ 62; \<forall>v \<in> set vec. \<exists>s. v = Some s \<and> sds_ok s; willing m; ps = [] \<longrightarrow> vec \<noteq> []\<rbrakk> \<Longrightarrow>
   \<exists>ss m'. args_loop (concat (map (\<lambda>p. SP # quote p) ps)) vec m = Some (Some (vec @ map Some ss), length vec + length ss, m') \<and>
     (\<forall>s \<in> set ss. sds_ok s) \<and> map content ss = ps"
proof (induction ps arbitrary: vec m)
  case Nil
  then show ?case by (simp add: args_loop.simps [of "[]"])
next
  case (Cons p ps)
  define rest where "rest = concat (map (\<lambda>p. SP # quote p) ps)"
  have sp: "c_isspace SP" "\<not> c_isspace (CHR 0x22)" by (simp_all add: c_isspace_def uchar_def)
  have hd: "rest = [] \<or> c_isspace (hd rest)" using sp by (cases ps) (auto simp: rest_def)
  from delivers_willing [OF sdsempty_ok Cons.prems(3)] obtain s0 m0
    where s0: "sdsempty m = Some (Some s0, m0)" "willing m0" "sds_ok s0" "content s0 = []" by blast
  from token_loop_quoted [OF hd s0(3) _ s0(2), of p] Cons.prems(1) s0(4)
  obtain s m1 where s: "token_loop In_double (Some s0) (concat (map repr_text p) @ CHR 0x22 # rest) m0 = Some (Token (Some s) rest, m1)"
    "willing m1" "sds_ok s" "content s = p" by auto
  have t: "token_loop Plain (Some s0) (quote p @ rest) m0 = Some (Token (Some s) rest, m1)"
    by (subst token_loop.simps) (simp add: quote_def s(1))
  obtain b m2 where m2: "s_malloc ((length vec + 1) * 8) m1 = (Some b, m2)" "willing m2"
    using s(2) by (cases rule: s_malloc_cases [of "(length vec + 1) * 8" m1]) auto
  have "args_loop (SP # quote p @ rest) vec m = args_loop rest (vec @ [Some s]) m2"
    using s0(1) t m2(1) sp by (subst args_loop.simps) (simp add: quote_def)
  moreover obtain ss m' where "args_loop rest (vec @ [Some s]) m2 = Some (Some ((vec @ [Some s]) @ map Some ss), length (vec @ [Some s]) + length ss, m')"
    "\<forall>s \<in> set ss. sds_ok s" "map content ss = ps"
    using Cons.IH [of "vec @ [Some s]" m2] Cons.prems(1,2) s(3) m2(2) by (auto simp: rest_def)
  ultimately have "args_loop (concat (map (\<lambda>p. SP # quote p) (p # ps))) vec m = Some (Some (vec @ map Some (s # ss)), length vec + length (s # ss), m')"
    "\<forall>s \<in> set (s # ss). sds_ok s" "map content (s # ss) = p # ps"
    using s(3,4) by (simp_all add: rest_def)
  then show ?case by (intro exI [of _ "s # ss"] exI [of _ m'] conjI)
qed

section \<open>The built-in formatter\<close>

text \<open>What a format and its arguments denote.\<close>

fun fmt_spec :: "bytes \<Rightarrow> fmt_arg list \<Rightarrow> bytes option" where
  "fmt_spec [] ap = Some []"
| "fmt_spec [c] ap = (if c = CHR ''%'' then None else Some [c])"
| "fmt_spec (c # d # f) ap =
     (if c \<noteq> CHR ''%'' then map_option (Cons c) (fmt_spec (d # f) ap)
      else if is_conversion d
      then do { (str, ap) \<leftarrow> conversion d ap; map_option ((@) str) (fmt_spec f ap) }
      else map_option (Cons d) (fmt_spec f ap))"

text \<open>Between two conversions the string has room for its length, which is the write position.\<close>

definition fmt_at :: "sds \<Rightarrow> bytes \<Rightarrow> bool" where
  "fmt_at s xs \<longleftrightarrow> sds_room s \<and> sdslen s = length xs \<and> content s = xs"

lemma fmt_room:
  assumes "fmt_at s xs" "length xs + n < 2 ^ 63"
  shows "delivers m (if sdsavail s < n then sdsMakeRoomFor s n m else Some (Some s, m))
    (\<lambda>s'. fmt_at s' xs \<and> length xs + n \<le> sdsalloc s')"
proof (cases "sdsavail s < n")
  case True
  have "delivers m (sdsMakeRoomFor s n m) (\<lambda>s'. same_string s s' \<and> sdslen s + n \<le> sdsalloc s')"
    using assms by (intro MakeRoom_same) (auto simp: fmt_at_def)
  then show ?thesis
    unfolding if_P [OF True]
    by (rule delivers_mono) (use assms(1) in \<open>auto simp: fmt_at_def same_string_content, auto simp: same_string_def\<close>)
next
  case False
  with assms show ?thesis
    by (auto simp: fmt_at_def sdsavail_eq sds_room_def intro!: delivers_Some)
qed

lemma fmt_put_ok:
  assumes "fmt_at s xs" "length xs + length str \<le> sdsalloc s" "length xs + length str < 2 ^ 31"
  shows "\<exists>s'. fmt_put str s (length xs) = Some (s', length xs + length str) \<and> fmt_at s' (xs @ str)"
proof -
  have r: "sds_room s" and l: "sdslen s = length xs" "content s = xs" using assms(1) by (auto simp: fmt_at_def)
  have b: "length xs + length str < len_range (sds_type s)"
    using r assms(2) by (intro cap_limit_range) (auto simp: sds_room_def)
  have len: "length xs + length str < length (buf s)" using r assms(2) by (auto simp: sds_room_def)
  let ?s = "s\<lparr>buf := overwrite (buf s) (length xs) str\<rparr>"
  have inc: "sdsinclen ?s (length str) = sdssetlen ?s (length xs + length str)"
    using l(1) b by (simp add: sdsinclen_def sdssetlen_def sdslen_def)
  have "sds_room ?s" using r len by (intro sds_room_buf) auto
  then have s': "sds_room (sdsinclen ?s (length str))" "sdslen (sdsinclen ?s (length str)) = length xs + length str"
    unfolding inc using sds_room_setlen [of ?s "length xs + length str"] assms(2) by auto
  moreover have "content (sdsinclen ?s (length str)) = xs @ str"
    using s' len l by (simp add: content_def inc)
  ultimately show ?thesis using len assms(3) by (simp add: fmt_put_def poke_def fmt_at_def)
qed

lemma fmt_finish:
  assumes "fmt_at s xs"
  shows "\<exists>s'. poke (length xs) [NUL] s = Some s' \<and> sds_ok s' \<and> content s' = xs"
proof -
  have r: "sds_room s" and l: "sdslen s = length xs" "content s = xs" using assms by (auto simp: fmt_at_def)
  have len: "length xs < length (buf s)" using r l by (auto simp: sds_room_def)
  then show ?thesis
    using r l by (auto simp: poke_def sds_ok_def sds_room_buf nth_overwrite content_def overwrite_def)
qed

lemma delivers_put:
  assumes "fmt_at s xs" "length xs + length str \<le> sdsalloc s" "length xs + length str < 2 ^ 31"
    and "\<And>s'. fmt_at s' (xs @ str) \<Longrightarrow> delivers m (k s' (length (xs @ str))) Q"
  shows "delivers m (do { (s, i) \<leftarrow> fmt_put str s (length xs); k s i }) Q"
  using fmt_put_ok [OF assms(1-3)] assms(4) by auto

text \<open>One turn of the loop: room for a byte is made first, then the branch is taken.\<close>

lemma fmt_loop_literal:
  assumes "fmt_at s xs" "length xs + 1 < 2 ^ 31" "c \<noteq> CHR ''%''"
    and "\<And>s' m'. fmt_at s' (xs @ [c]) \<Longrightarrow> delivers m' (fmt_loop f ap s' (length (xs @ [c])) m') Q"
  shows "delivers m (fmt_loop (c # f) ap s (length xs) m) Q"
proof -
  have z: "sdsavail s = 0 \<longleftrightarrow> sdsavail s < 1" by auto
  have r: "delivers m (if sdsavail s < 1 then sdsMakeRoomFor s 1 m else Some (Some s, m))
      (\<lambda>s'. fmt_at s' xs \<and> length xs + 1 \<le> sdsalloc s')"
    using assms(1,2) by (intro fmt_room) auto
  show ?thesis
    unfolding fmt_loop.simps [of "c # f"] list.case z
    by (rule delivers_bind [OF r]) (use assms in \<open>auto intro!: delivers_put\<close>)
qed

lemma fmt_loop_conversion:
  assumes "fmt_at s xs" "length xs + 1 < 2 ^ 31"
    and "if is_conversion d then conversion d ap = Some (str, ap') else str = [d] \<and> ap' = ap"
    and "length xs + length str < 2 ^ 31"
    and "\<And>s' m'. fmt_at s' (xs @ str) \<Longrightarrow> delivers m' (fmt_loop f ap' s' (length (xs @ str)) m') Q"
  shows "delivers m (fmt_loop (CHR ''%'' # d # f) ap s (length xs) m) Q"
proof -
  have z: "sdsavail s = 0 \<longleftrightarrow> sdsavail s < 1" by auto
  have r: "delivers m (if sdsavail s < 1 then sdsMakeRoomFor s 1 m else Some (Some s, m))
      (\<lambda>s'. fmt_at s' xs \<and> length xs + 1 \<le> sdsalloc s')"
    using assms(1,2) by (intro fmt_room) auto
  have put: "delivers m' (do { (s, i) \<leftarrow> fmt_put str s' (length xs); fmt_loop f ap' s i m' }) Q"
    if "fmt_at s' xs" "length xs + length str \<le> sdsalloc s'" for s' m'
    using that assms(4,5) by (intro delivers_put) auto
  show ?thesis
    unfolding fmt_loop.simps [of "_ # _"] list.case z
  proof (rule delivers_bind [OF r], goal_cases)
    case s': (1 s' m')
    have "delivers m' (do { (r, m) \<leftarrow> (if sdsavail s' < length str then sdsMakeRoomFor s' (length str) m' else Some (Some s', m'));
             case r of None \<Rightarrow> Some (None, m)
             | Some s \<Rightarrow> do { (s, i) \<leftarrow> fmt_put str s (length xs); fmt_loop f ap' s i m } }) Q"
      by (rule delivers_bind [OF fmt_room]) (use s' assms(4) put in auto)
    then show ?case
      using assms(3) put [of s' m'] s' by (cases "is_conversion d") (simp_all del: set_simps)
  qed
qed

lemma fmt_loop_ok:
  "\<lbrakk>fmt_spec f ap = Some out; fmt_at s xs; length xs + length out + 1 < 2 ^ 31\<rbrakk> \<Longrightarrow>
   delivers m (fmt_loop f ap s (length xs) m) (\<lambda>s'. sds_ok s' \<and> content s' = xs @ out)"
proof (induction f ap arbitrary: out s xs m rule: fmt_spec.induct)
  case (1 ap)
  then show ?case
    using fmt_finish [of s xs] by (auto simp: fmt_loop.simps intro!: delivers_Some)
next
  case (2 c ap)
  then have c: "c \<noteq> CHR ''%''" "out = [c]" by (auto split: if_splits)
  have "delivers m' (fmt_loop [] ap s' (length (xs @ [c])) m') (\<lambda>s'. sds_ok s' \<and> content s' = xs @ [c])"
    if "fmt_at s' (xs @ [c])" for s' m'
    using fmt_finish [OF that] by (auto simp: fmt_loop.simps intro!: delivers_Some)
  with 2 c show ?case by (auto intro!: fmt_loop_literal)
next
  case (3 c d f ap)
  show ?case
  proof (cases "c = CHR ''%''")
    case False
    with "3.prems" obtain out' where o: "fmt_spec (d # f) ap = Some out'" "out = c # out'" by auto
    have ih: "delivers m' (fmt_loop (d # f) ap s' (length (xs @ [c])) m') (\<lambda>s'. sds_ok s' \<and> content s' = xs @ out)"
      if "fmt_at s' (xs @ [c])" for s' m'
      using "3.IH"(1) [OF False o(1) that, of m'] "3.prems"(3) o(2) by simp
    show ?thesis
      by (rule fmt_loop_literal [OF "3.prems"(2) _ False ih]) (use "3.prems"(3) o(2) in simp_all)
  next
    case True
    obtain str ap' out' where o: "if is_conversion d then conversion d ap = Some (str, ap') else str = [d] \<and> ap' = ap"
      "fmt_spec f ap' = Some out'" "out = str @ out'"
      using "3.prems"(1) True by (cases "is_conversion d") (auto simp: bind_eq_Some_conv simp del: set_simps)
    have ih: "delivers m' (fmt_loop f ap' s' (length (xs @ str)) m') (\<lambda>s'. sds_ok s' \<and> content s' = xs @ out)"
      if "fmt_at s' (xs @ str)" for s' m'
    proof (cases "is_conversion d")
      case conv: True
      with "3.IH"(2) [of "(str, ap')" str ap' out' s' "xs @ str" m'] True o that "3.prems"(3) show ?thesis by auto
    next
      case False
      with "3.IH"(3) [of out' s' "xs @ str" m'] True o that "3.prems"(3) show ?thesis by auto
    qed
    show ?thesis
      unfolding True
      by (rule fmt_loop_conversion [OF "3.prems"(2) _ o(1)]) (use "3.prems"(3) o(3) ih in auto)
  qed
qed

lemma sds_ok_fmt_at: "sds_ok s \<Longrightarrow> fmt_at s (content s)"
  by (simp add: fmt_at_def sds_ok_def sds_room_def content_def)

section \<open>Properties\<close>

text \<open>A format by its pieces, as the comment of \<open>sdscatfmt\<close> lists them: what a piece looks like in the
  format, the argument that goes with it, and the text it stands for. A byte behind \<open>%\<close> that is not a
  conversion stands for itself.\<close>

datatype fmt_piece =
    Fmt_byte byte
  | Fmt_verbatim byte
  | Fmt_cstr bytes
  | Fmt_sds sds
  | Fmt_int int
  | Fmt_longlong int
  | Fmt_uint nat
  | Fmt_ulonglong nat

fun fmt_text :: "fmt_piece \<Rightarrow> bytes" where
  "fmt_text (Fmt_byte c) = [c]"
| "fmt_text (Fmt_verbatim c) = [CHR ''%'', c]"
| "fmt_text (Fmt_cstr s) = ''%s''"
| "fmt_text (Fmt_sds s) = ''%S''"
| "fmt_text (Fmt_int v) = ''%i''"
| "fmt_text (Fmt_longlong v) = ''%I''"
| "fmt_text (Fmt_uint v) = ''%u''"
| "fmt_text (Fmt_ulonglong v) = ''%U''"

fun fmt_args :: "fmt_piece \<Rightarrow> fmt_arg list" where
  "fmt_args (Fmt_cstr s) = [Arg_cstr (s @ [NUL])]"
| "fmt_args (Fmt_sds s) = [Arg_sds s]"
| "fmt_args (Fmt_int v) = [Arg_int v]"
| "fmt_args (Fmt_longlong v) = [Arg_longlong v]"
| "fmt_args (Fmt_uint v) = [Arg_uint v]"
| "fmt_args (Fmt_ulonglong v) = [Arg_ulonglong v]"
| "fmt_args _ = []"

fun fmt_denotes :: "fmt_piece \<Rightarrow> bytes" where
  "fmt_denotes (Fmt_byte c) = [c]"
| "fmt_denotes (Fmt_verbatim c) = [c]"
| "fmt_denotes (Fmt_cstr s) = s"
| "fmt_denotes (Fmt_sds s) = content s"
| "fmt_denotes (Fmt_int v) = dec_int v"
| "fmt_denotes (Fmt_longlong v) = dec_int v"
| "fmt_denotes (Fmt_uint v) = dec_nat v"
| "fmt_denotes (Fmt_ulonglong v) = dec_nat v"

fun fmt_piece_ok :: "fmt_piece \<Rightarrow> bool" where
  "fmt_piece_ok (Fmt_byte c) \<longleftrightarrow> c \<noteq> CHR ''%'' \<and> c \<noteq> NUL"
| "fmt_piece_ok (Fmt_verbatim c) \<longleftrightarrow> c \<notin> set ''sSiIuU'' \<and> c \<noteq> NUL"
| "fmt_piece_ok (Fmt_cstr s) \<longleftrightarrow> NUL \<notin> set s"
| "fmt_piece_ok (Fmt_sds s) \<longleftrightarrow> sds_ok s"
| "fmt_piece_ok (Fmt_int v) \<longleftrightarrow> - (2 ^ 31) \<le> v \<and> v < 2 ^ 31"
| "fmt_piece_ok (Fmt_longlong v) \<longleftrightarrow> - (2 ^ 63) < v \<and> v < 2 ^ 63"
| "fmt_piece_ok (Fmt_uint v) \<longleftrightarrow> v < 2 ^ 32"
| "fmt_piece_ok (Fmt_ulonglong v) \<longleftrightarrow> v < 2 ^ 64"

lemma fmt_spec_byte: "c \<noteq> CHR ''%'' \<Longrightarrow> fmt_spec (c # f) ap = map_option (Cons c) (fmt_spec f ap)"
  by (cases f) simp_all

lemma sds_peek_content: "sds_ok s \<Longrightarrow> peek (buf s) 0 (sdslen s) = Some (content s)"
  by (auto simp: peek_def sds_ok_def sds_room_def content_def)

lemma fmt_spec_pieces:
  "\<forall>p \<in> set ps. fmt_piece_ok p \<Longrightarrow>
   fmt_spec (concat (map fmt_text ps)) (concat (map fmt_args ps)) = Some (concat (map fmt_denotes ps))"
proof (induction ps)
  case (Cons p ps)
  then show ?case
    by (cases p) (simp_all add: fmt_spec_byte sds_peek_content sdsll2str_eq sdsull2str_eq)
qed simp

lemma fmt_text_NUL: "fmt_piece_ok p \<Longrightarrow> NUL \<notin> set (fmt_text p)"
  by (cases p) auto

text \<open>C31: \<open>sdscatfmt\<close> appends exactly the text that the pieces of its format denote, whatever the
  allocator answers: strings up to their terminator, dynamic strings by their length, and numbers
  in canonical decimal over the whole range of their types, except the smallest \<open>long long\<close>, whose
  negation overflows. The total must stay below 2 GiB because the position is an \<open>int\<close>.\<close>

theorem sdscatfmt_appends:
  assumes "sds_ok s" "\<forall>p \<in> set ps. fmt_piece_ok p" "sdslen s + length (concat (map fmt_denotes ps)) + 1 < 2 ^ 31"
  shows "delivers m (sdscatfmt s (concat (map fmt_text ps) @ [NUL]) (concat (map fmt_args ps)) m)
    (\<lambda>s'. sds_ok s' \<and> content s' = content s @ concat (map fmt_denotes ps))"
proof -
  have "NUL \<notin> set (concat (map fmt_text ps))" using assms(2) fmt_text_NUL by auto
  then have c: "c_str (concat (map fmt_text ps) @ [NUL]) = concat (map fmt_text ps)" by simp
  show ?thesis
    unfolding sdscatfmt_def c using fmt_loop_ok [OF fmt_spec_pieces [OF assms(2)] sds_ok_fmt_at [OF assms(1)]] assms(1,3) by simp
qed

theorem sdscatfmt_appends_witness:
  "\<exists>s' m'. sdscatfmt demo_sds (''=%i,%s%%'' @ [NUL]) [Arg_int (-7), Arg_cstr (''xy'' @ [NUL])] [] = Some (Some s', m') \<and>
     content s' = ''abc=-7,xy%''"
proof -
  let ?ps = "[Fmt_byte (CHR ''=''), Fmt_int (-7), Fmt_byte (CHR '',''), Fmt_cstr ''xy'', Fmt_verbatim (CHR ''%'')]"
  have d: "dec_int (-7) = ''-7''" by code_simp
  have "delivers [] (sdscatfmt demo_sds (concat (map fmt_text ?ps) @ [NUL]) (concat (map fmt_args ?ps)) [])
      (\<lambda>s'. sds_ok s' \<and> content s' = content demo_sds @ concat (map fmt_denotes ?ps))"
    by (rule sdscatfmt_appends [OF demo_sds_ok(1)]) (use demo_sds_ok(3) d in simp_all)
  then show ?thesis using d demo_sds_ok(2) by (auto dest!: delivers_willing simp: willing_def)
qed

text \<open>C26: \<open>sdssplitlen\<close> cuts a string exactly at the separators: it returns NULL only when memory is
  refused, no token contains the separator, and putting the separator back between the tokens
  gives the string; with memory available \<open>sdsjoinsds\<close> rebuilds it from the result.\<close>

theorem sds_split_join:
  assumes "s \<noteq> []" "length s < 2 ^ 31" "sep \<noteq> []" "willing m" "willing m'"
  shows "\<exists>ts m1. sdssplitlen s (int (length s)) sep (int (length sep)) m = Some (Some ts, Some (length ts), m1) \<and>
    (\<forall>t \<in> set ts. sds_ok t \<and> sep_free sep (content t)) \<and> join_with sep (map content ts) = s \<and>
    (\<exists>r m2. sdsjoinsds ts sep (length sep) m' = Some (Some r, m2) \<and> sds_ok r \<and> content r = s)"
proof -
  obtain b m0 where m0: "s_malloc (8 * 5) m = (Some b, m0)" "willing m0"
    using assms(4) by (cases rule: s_malloc_cases [of "8 * 5" m]) auto
  have "delivers m0 (split_loop s (length s) sep (length sep) 0 0 [] 5 m0)
      (\<lambda>ts. (\<forall>t \<in> set ts. sds_ok t \<and> sep_free sep (content t)) \<and> join_with sep (map content ts) = s)"
    using assms(2,3) by (intro split_loop_ok) auto
  from delivers_willing [OF this m0(2)] obtain ts m1 where
    ts: "split_loop s (length s) sep (length sep) 0 0 [] 5 m0 = Some (Some ts, m1)"
      "\<forall>t \<in> set ts. sds_ok t \<and> sep_free sep (content t)" "join_with sep (map content ts) = s" by blast
  then show ?thesis
    using m0(1) assms sdsjoinsds_ok [of ts sep m'] by (auto simp: sdssplitlen_def)
qed

theorem sds_split_join_witness:
  "\<exists>ts m1. sdssplitlen ''foo_-_bar'' 9 ''_-_'' 3 [] = Some (Some ts, Some (length ts), m1) \<and>
     (\<forall>t \<in> set ts. sds_ok t \<and> sep_free ''_-_'' (content t)) \<and> join_with ''_-_'' (map content ts) = ''foo_-_bar''"
  using sds_split_join [of "''foo_-_bar''" "''_-_''" "[]" "[]"] by (auto simp: willing_def)

text \<open>C9: What the comment of \<open>sdssplitargs\<close> promises: a line made of \<open>sdscatrepr\<close> representations of
  arbitrary byte strings, each preceded by a space, splits into exactly those byte strings.\<close>

theorem sds_repr_split_roundtrip:
  assumes "\<forall>p \<in> set ps. length p < 2 ^ 60" "willing m" "ps \<noteq> []" "sds_ok s" "sdslen s < 2 ^ 60"
  shows "(\<forall>p \<in> set ps. \<exists>s' m'. sdscatrepr s p (length p) m = Some (Some s', m') \<and> sds_ok s' \<and> content s' = content s @ quote p) \<and>
    (\<exists>ss m'. sdssplitargs (concat (map (\<lambda>p. SP # quote p) ps) @ [NUL]) m = Some (Some (map Some ss), length ps, m') \<and>
       (\<forall>t \<in> set ss. sds_ok t) \<and> map content ss = ps)"
proof
  have len: "length (concat (map repr_text p)) \<le> 4 * length p" for p
  proof (induction p)
    case (Cons c p)
    then show ?case using length_repr_text [of c] by simp
  qed simp
  show "\<forall>p \<in> set ps. \<exists>s' m'. sdscatrepr s p (length p) m = Some (Some s', m') \<and> sds_ok s' \<and> content s' = content s @ quote p"
  proof
    fix p assume "p \<in> set ps"
    then have "length (content s) + length (quote p) < 2 ^ 63"
      using assms(1,4,5) len [of p] by (auto simp: quote_def)
    from sdscatrepr_ok [OF assms(4) this assms(2)]
    show "\<exists>s' m'. sdscatrepr s p (length p) m = Some (Some s', m') \<and> sds_ok s' \<and> content s' = content s @ quote p" by blast
  qed
  have "c_str (concat (map (\<lambda>p. SP # quote p) ps) @ [NUL]) = concat (map (\<lambda>p. SP # quote p) ps)"
    by (rule c_str_append_NUL) (auto simp: quote_def)
  moreover obtain ss m' where "args_loop (concat (map (\<lambda>p. SP # quote p) ps)) [] m = Some (Some (map Some ss), length ss, m')"
    "\<forall>s \<in> set ss. sds_ok s" "map content ss = ps"
  proof -
    have "\<forall>p \<in> set ps. length p < 2 ^ 62" using assms(1) by force
    with args_loop_quoted [of ps "[]" m] assms(2,3) that show ?thesis by auto
  qed
  moreover from this(3) have "length ss = length ps" by auto
  ultimately show "\<exists>ss m'. sdssplitargs (concat (map (\<lambda>p. SP # quote p) ps) @ [NUL]) m = Some (Some (map Some ss), length ps, m') \<and>
       (\<forall>t \<in> set ss. sds_ok t) \<and> map content ss = ps"
    by (auto simp: sdssplitargs_def)
qed

theorem sds_repr_split_roundtrip_witness:
  "\<exists>ss m'. sdssplitargs (concat (map (\<lambda>p. SP # quote p) [[NUL, CHR 0xFF], ''a b'']) @ [NUL]) [] = Some (Some (map Some ss), length [[NUL, CHR 0xFF], ''a b''], m') \<and>
     map content ss = [[NUL, CHR 0xFF], ''a b'']"
proof -
  have "\<forall>p \<in> set [[NUL, CHR 0xFF], ''a b'']. length p < 2 ^ 60" "willing []" "sdslen demo_sds < 2 ^ 60"
    by (simp_all add: willing_def demo_sds_ok)
  from sds_repr_split_roundtrip [OF this(1,2) list.distinct(2) demo_sds_ok(1) this(3), THEN conjunct2] show ?thesis
    by (elim exE conjE) (intro exI conjI)
qed

text \<open>A format whose last character is a single percent sign has no defined behaviour: the scan
  steps over the terminator of the format.\<close>

theorem sdscatfmt_trailing_percent:
  assumes "sds_ok s" "sdslen s < 2 ^ 30" "willing m"
  shows "sdscatfmt s (''%'' @ [NUL]) ap m = None"
proof -
  have c: "c_str (''%'' @ [NUL]) = ''%''" by (simp add: c_str_def)
  have "delivers m (if sdsavail s < 1 then sdsMakeRoomFor s 1 m else Some (Some s, m))
      (\<lambda>s'. fmt_at s' (content s) \<and> length (content s) + 1 \<le> sdsalloc s')"
    using assms by (intro fmt_room sds_ok_fmt_at) auto
  from delivers_willing [OF this assms(3)] obtain s' m'
    where "(if sdsavail s = 0 then sdsMakeRoomFor s 1 m else Some (Some s, m)) = Some (Some s', m')"
    by (cases "sdsavail s = 0") auto
  then show ?thesis unfolding sdscatfmt_def c by (simp add: fmt_loop.simps)
qed

theorem sdscatfmt_trailing_percent_witness: "sdscatfmt demo_sds (''%'' @ [NUL]) [] [] = None"
  using sdscatfmt_trailing_percent [OF demo_sds_ok(1)] demo_sds_ok(3) by (simp add: willing_def)

end
