(* ===== verification/Reader.thy ===== *)
theory Reader
  imports SdsText Resume
begin

text \<open>
  The incremental reader of Redis replies (\<open>read.c\<close>): the task stack for nested replies, the
  scanners for lines and integers, one handler per kind of item, feeding and fetching replies.

  The reader builds objects through a table of functions (\<open>redisReplyObjectFunctions\<close>), which
  here work on an object store of type \<open>'h\<close>. An object pointer is a number, 0 is the null
  pointer. Every handler takes the bytes \<open>msg\<close> of the read buffer, \<open>r->buf [0 .. r->len)\<close>, besides
  the reader. \<open>None\<close> is undefined behaviour or a failed assertion.
\<close>

section \<open>Data\<close>

datatype status = REDIS_OK | REDIS_ERR

type_synonym obj = nat

abbreviation (input) REDIS_ERR_PROTOCOL :: nat where "REDIS_ERR_PROTOCOL \<equiv> 4"
abbreviation (input) REDIS_ERR_OOM :: nat where "REDIS_ERR_OOM \<equiv> 5"

abbreviation (input) REDIS_REPLY_STRING :: int where "REDIS_REPLY_STRING \<equiv> 1"
abbreviation (input) REDIS_REPLY_ARRAY :: int where "REDIS_REPLY_ARRAY \<equiv> 2"
abbreviation (input) REDIS_REPLY_INTEGER :: int where "REDIS_REPLY_INTEGER \<equiv> 3"
abbreviation (input) REDIS_REPLY_NIL :: int where "REDIS_REPLY_NIL \<equiv> 4"
abbreviation (input) REDIS_REPLY_STATUS :: int where "REDIS_REPLY_STATUS \<equiv> 5"
abbreviation (input) REDIS_REPLY_ERROR :: int where "REDIS_REPLY_ERROR \<equiv> 6"
abbreviation (input) REDIS_REPLY_DOUBLE :: int where "REDIS_REPLY_DOUBLE \<equiv> 7"
abbreviation (input) REDIS_REPLY_BOOL :: int where "REDIS_REPLY_BOOL \<equiv> 8"
abbreviation (input) REDIS_REPLY_MAP :: int where "REDIS_REPLY_MAP \<equiv> 9"
abbreviation (input) REDIS_REPLY_SET :: int where "REDIS_REPLY_SET \<equiv> 10"
abbreviation (input) REDIS_REPLY_PUSH :: int where "REDIS_REPLY_PUSH \<equiv> 12"
abbreviation (input) REDIS_REPLY_VERB :: int where "REDIS_REPLY_VERB \<equiv> 14"

abbreviation (input) REDIS_READER_STACK_SIZE :: nat where "REDIS_READER_STACK_SIZE \<equiv> 9"
abbreviation (input) REDIS_READER_MAX_BUF :: nat where "REDIS_READER_MAX_BUF \<equiv> 16384"
abbreviation (input) REDIS_READER_MAX_ARRAY_ELEMENTS :: int where "REDIS_READER_MAX_ARRAY_ELEMENTS \<equiv> 2 ^ 32 - 1"

text \<open>The parent of a task is named by its place in the stack. The type is -1 until it is read.\<close>

record read_task =
  t_type :: int
  t_elements :: int
  t_idx :: int
  t_obj :: obj
  t_parent :: "nat option"

text \<open>Doubles are their 64-bit patterns.\<close>

type_synonym double = "64 word"

definition isnan :: "double \<Rightarrow> bool" where
  "isnan d \<longleftrightarrow> take_bit 11 (drop_bit 52 d) = 0x7FF \<and> take_bit 52 d \<noteq> 0"

abbreviation (input) INFINITY :: double where "INFINITY \<equiv> 0x7FF0000000000000"
abbreviation (input) NEG_INFINITY :: double where "NEG_INFINITY \<equiv> 0xFFF0000000000000"

text \<open>
  The table of constructors. Each gets the task, the object of the parent task (if there is a
  parent) and the value; it returns the new object, 0 when memory ran out. A null function
  pointer is \<open>None\<close>.
\<close>

record 'h reply_functions =
  createString :: "(read_task \<Rightarrow> obj option \<Rightarrow> bytes \<Rightarrow> 'h \<Rightarrow> (obj \<times> 'h) option) option"
  createArray :: "(read_task \<Rightarrow> obj option \<Rightarrow> nat \<Rightarrow> 'h \<Rightarrow> (obj \<times> 'h) option) option"
  createInteger :: "(read_task \<Rightarrow> obj option \<Rightarrow> int \<Rightarrow> 'h \<Rightarrow> (obj \<times> 'h) option) option"
  createDouble :: "(read_task \<Rightarrow> obj option \<Rightarrow> double \<Rightarrow> bytes \<Rightarrow> 'h \<Rightarrow> (obj \<times> 'h) option) option"
  createNil :: "(read_task \<Rightarrow> obj option \<Rightarrow> 'h \<Rightarrow> (obj \<times> 'h) option) option"
  createBool :: "(read_task \<Rightarrow> obj option \<Rightarrow> bool \<Rightarrow> 'h \<Rightarrow> (obj \<times> 'h) option) option"
  freeObject :: "(obj \<Rightarrow> 'h \<Rightarrow> 'h) option"

text \<open>\<open>tasks\<close> is the length of the stack \<open>rd_task\<close>.\<close>

record reader =
  rd_err :: nat
  rd_errstr :: bytes
  rd_buf :: "sds option"
  rd_pos :: nat
  rd_len :: nat
  rd_maxbuf :: nat
  rd_maxelements :: int
  rd_task :: "read_task list"
  rd_ridx :: int
  rd_reply :: obj

text \<open>
  What a handler works with besides the input: the constructors, \<open>strtod\<close> of the C library, which
  returns the value and the number of bytes it took, and the allocator's answer to a request.
\<close>

record 'h reader_env =
  fn :: "'h reply_functions"
  strtod :: "bytes \<Rightarrow> double \<times> nat"
  hi_alloc :: "'h \<Rightarrow> bool \<times> 'h"

section \<open>Errors\<close>

definition redisReaderSetError :: "'h reader_env \<Rightarrow> nat \<Rightarrow> bytes \<Rightarrow> reader \<Rightarrow> 'h \<Rightarrow> reader \<times> 'h" where
  "redisReaderSetError env type str r h =
     (let (r, h) = (case freeObject (fn env) of
                      Some free \<Rightarrow> if rd_reply r \<noteq> 0 then (r\<lparr>rd_reply := 0\<rparr>, free (rd_reply r) h) else (r, h)
                    | None \<Rightarrow> (r, h))
      in (r\<lparr>rd_buf := None, rd_pos := 0, rd_len := 0, rd_ridx := -1, rd_err := type,
            rd_errstr := take 127 str\<rparr>, h))"

text \<open>The quoted byte of \<open>chrtos\<close> (the same escapes as \<open>sdscatrepr\<close>), cut at the 8-byte buffer.\<close>

definition chrtos :: "byte \<Rightarrow> bytes" where
  "chrtos c = take 7 (CHR 0x22 # repr_text c @ [CHR 0x22])"

definition redisReaderSetErrorProtocolByte :: "'h reader_env \<Rightarrow> byte \<Rightarrow> reader \<Rightarrow> 'h \<Rightarrow> reader \<times> 'h" where
  "redisReaderSetErrorProtocolByte env c r h =
     redisReaderSetError env REDIS_ERR_PROTOCOL
       (take 127 (''Protocol error, got '' @ chrtos c @ '' as reply type byte'')) r h"

definition redisReaderSetErrorOOM :: "'h reader_env \<Rightarrow> reader \<Rightarrow> 'h \<Rightarrow> reader \<times> 'h" where
  "redisReaderSetErrorOOM env r h = redisReaderSetError env REDIS_ERR_OOM ''Out of memory'' r h"

abbreviation protocol_error :: "'h reader_env \<Rightarrow> bytes \<Rightarrow> reader \<Rightarrow> 'h \<Rightarrow> (status \<times> reader \<times> 'h) option" where
  "protocol_error env str r h \<equiv> Some (REDIS_ERR, redisReaderSetError env REDIS_ERR_PROTOCOL str r h)"

section \<open>Scanning\<close>

definition readBytes :: "bytes \<Rightarrow> reader \<Rightarrow> nat \<Rightarrow> (bytes \<times> reader) option" where
  "readBytes msg r n =
     (if n \<le> length msg - rd_pos r
      then Some (take n (drop (rd_pos r) msg), r\<lparr>rd_pos := rd_pos r + n\<rparr>)
      else None)"

text \<open>The loops of \<open>seekNewline\<close> from position \<open>pos\<close>, with \<open>n\<close> for \<open>_len\<close>.\<close>

function seek_loop :: "bytes \<Rightarrow> nat \<Rightarrow> nat \<Rightarrow> nat option" where
  "seek_loop s n pos =
     (if pos < n
      then let pos = pos + length (takeWhile (\<lambda>c. c \<noteq> CR) (take (n - pos) (drop pos s)))
           in if pos \<ge> n then None
              else if s ! (pos + 1) = LF then Some pos
              else seek_loop s n (pos + 1)
      else None)"
  by pat_completeness auto
termination
  by (relation "measure (\<lambda>(s, n, pos). n - pos)") auto

declare seek_loop.simps [simp del]

definition seekNewline :: "bytes \<Rightarrow> nat \<Rightarrow> nat option" where
  "seekNewline s len = seek_loop s (nat (sint (word_of_int (int len - 1) :: 32 word))) 0"

abbreviation (input) ULLONG_MAX :: nat where "ULLONG_MAX \<equiv> 2 ^ 64 - 1"

fun ll_loop :: "nat \<Rightarrow> bytes \<Rightarrow> (nat \<times> bytes) option" where
  "ll_loop v [] = Some (v, [])"
| "ll_loop v (c # p) =
     (if c_isdigit c
      then if v > ULLONG_MAX div 10 then None
           else if v * 10 > ULLONG_MAX - digit_val c then None
           else ll_loop (v * 10 + digit_val c) p
      else Some (v, c # p))"

definition string2ll :: "bytes \<Rightarrow> int option" where
  "string2ll s =
     (if s = [] then None
      else if s = ''0'' then Some 0
      else
        let negative = (hd s = CHR ''-''); p = (if negative then tl s else s)
        in case p of
             [] \<Rightarrow> None
           | c # p' \<Rightarrow>
               if c_isdigit c \<and> c \<noteq> CHR ''0''
               then (case ll_loop (digit_val c) p' of
                       Some (v, []) \<Rightarrow>
                         if negative
                         then if v > 2 ^ 63 then None else Some (- int v)
                         else if v > 2 ^ 63 - 1 then None else Some (int v)
                     | _ \<Rightarrow> None)
               else None)"

definition readLine :: "bytes \<Rightarrow> reader \<Rightarrow> (bytes \<times> reader) option" where
  "readLine msg r =
     (case seekNewline (drop (rd_pos r) msg) (length msg - rd_pos r) of
        Some len \<Rightarrow> Some (take len (drop (rd_pos r) msg), r\<lparr>rd_pos := rd_pos r + len + 2\<rparr>)
      | None \<Rightarrow> None)"

section \<open>The task stack\<close>

definition is_container :: "int \<Rightarrow> bool" where
  "is_container type \<longleftrightarrow> type \<in> {REDIS_REPLY_ARRAY, REDIS_REPLY_MAP, REDIS_REPLY_SET, REDIS_REPLY_PUSH}"

abbreviation task_at :: "reader \<Rightarrow> int \<Rightarrow> read_task" where
  "task_at r i \<equiv> rd_task r ! nat i"

abbreviation set_task :: "int \<Rightarrow> read_task \<Rightarrow> reader \<Rightarrow> reader" where
  "set_task i t r \<equiv> r\<lparr>rd_task := (rd_task r)[nat i := t]\<rparr>"

text \<open>The index of an element is an \<open>int\<close>: counting past its range is not defined.\<close>

function moveToNextTask :: "reader \<Rightarrow> reader option" where
  "moveToNextTask r =
     (if rd_ridx r < 0 then Some r
      else if rd_ridx r = 0 then Some (r\<lparr>rd_ridx := -1\<rparr>)
      else
        let cur = task_at r (rd_ridx r); prv = task_at r (rd_ridx r - 1)
        in if \<not> is_container (t_type prv) then None
           else if t_idx cur = t_elements prv - 1 then moveToNextTask (r\<lparr>rd_ridx := rd_ridx r - 1\<rparr>)
           else if \<not> t_idx cur < t_elements prv \<or> t_idx cur + 1 \<ge> 2 ^ 31 then None
           else Some (set_task (rd_ridx r) (cur\<lparr>t_type := -1, t_elements := -1, t_idx := t_idx cur + 1\<rparr>) r))"
  by pat_completeness auto
termination
  by (relation "measure (\<lambda>r. nat (rd_ridx r + 1))") auto

declare moveToNextTask.simps [simp del]

definition parent_obj :: "reader \<Rightarrow> read_task \<Rightarrow> obj option" where
  "parent_obj r t = map_option (\<lambda>i. t_obj (rd_task r ! i)) (t_parent t)"

text \<open>Calling a constructor of the table; without it the object is the number of the type.\<close>

definition construct :: "('a \<Rightarrow> 'h \<Rightarrow> (obj \<times> 'h) option) option \<Rightarrow> int \<Rightarrow> 'a \<Rightarrow> 'h \<Rightarrow> (obj \<times> 'h) option" where
  "construct f type a h = (case f of Some f \<Rightarrow> f a h | None \<Rightarrow> Some (nat type, h))"

text \<open>The end of the item handlers: out of memory, the root object, the next task.\<close>

definition finish_item :: "'h reader_env \<Rightarrow> obj \<Rightarrow> reader \<Rightarrow> 'h \<Rightarrow> (status \<times> reader \<times> 'h) option" where
  "finish_item env obj r h =
     (if obj = 0 then Some (REDIS_ERR, redisReaderSetErrorOOM env r h)
      else do {
        let r = (if rd_ridx r = 0 then r\<lparr>rd_reply := obj\<rparr> else r);
        r \<leftarrow> moveToNextTask r;
        Some (REDIS_OK, r, h) })"

section \<open>The item handlers\<close>

text \<open>A handler that needs more input returns \<open>REDIS_ERR\<close> without setting an error.\<close>

definition line_object :: "'h reader_env \<Rightarrow> reader \<Rightarrow> read_task \<Rightarrow> bytes \<Rightarrow> 'h \<Rightarrow> (bytes + obj \<times> 'h) option" where
  "line_object env r cur p h =
     (let par = parent_obj r cur in
      if t_type cur = REDIS_REPLY_INTEGER then
        (case createInteger (fn env) of
           Some create \<Rightarrow>
             (case string2ll p of
                None \<Rightarrow> Some (Inl ''Bad integer value'')
              | Some v \<Rightarrow> map_option Inr (create cur par v h))
         | None \<Rightarrow> Some (Inr (nat REDIS_REPLY_INTEGER, h)))
      else if t_type cur = REDIS_REPLY_DOUBLE then
        (case createDouble (fn env) of
           Some create \<Rightarrow>
             if length p \<ge> 326 then Some (Inl ''Double value is too large'')
             else
               let buf = c_str p in
               if map c_tolower buf = '',inf'' then map_option Inr (create cur par INFINITY p h)
               else if map c_tolower buf = '',-inf'' then map_option Inr (create cur par NEG_INFINITY p h)
               else (case strtod env buf of
                       (d, n) \<Rightarrow>
                         if buf = [] \<or> n < length buf \<or> isnan d then Some (Inl ''Bad double value'')
                         else map_option Inr (create cur par d p h))
         | None \<Rightarrow> Some (Inr (nat REDIS_REPLY_DOUBLE, h)))
      else if t_type cur = REDIS_REPLY_NIL then
        map_option Inr (construct (map_option (\<lambda>f _. f cur par) (createNil (fn env))) REDIS_REPLY_NIL () h)
      else if t_type cur = REDIS_REPLY_BOOL then
        map_option Inr (construct (map_option (\<lambda>f. f cur par) (createBool (fn env))) REDIS_REPLY_BOOL
          (p \<noteq> [] \<and> (hd p = CHR ''t'' \<or> hd p = CHR ''T'')) h)
      else map_option Inr (construct (map_option (\<lambda>f. f cur par) (createString (fn env))) (t_type cur) p h))"

definition processLineItem :: "'h reader_env \<Rightarrow> bytes \<Rightarrow> reader \<Rightarrow> 'h \<Rightarrow> (status \<times> reader \<times> 'h) option" where
  "processLineItem env msg r h =
     (let cur = task_at r (rd_ridx r) in
      case readLine msg r of
        None \<Rightarrow> Some (REDIS_ERR, r, h)
      | Some (p, r) \<Rightarrow> do {
          res \<leftarrow> line_object env r cur p h;
          case res of
            Inl str \<Rightarrow> protocol_error env str r h
          | Inr (obj, h) \<Rightarrow> finish_item env obj r h })"

definition verbatim_error :: bytes where
  "verbatim_error = ''Verbatim string 4 bytes of content type are missing or incorrectly encoded.''"

text \<open>The buffer is an object in memory, so its length is below \<open>2 ^ 63\<close> and the sums with a 64-bit
  \<open>len\<close> stay below \<open>2 ^ 64\<close>: the comparison is that of the mathematical values.\<close>

definition processBulkItem :: "'h reader_env \<Rightarrow> bytes \<Rightarrow> reader \<Rightarrow> 'h \<Rightarrow> (status \<times> reader \<times> 'h) option" where
  "processBulkItem env msg r h =
     (let cur = task_at r (rd_ridx r); par = parent_obj r cur; p = drop (rd_pos r) msg in
      case seekNewline p (length msg - rd_pos r) of
        None \<Rightarrow> Some (REDIS_ERR, r, h)
      | Some s \<Rightarrow>
          (case string2ll (take s p) of
             None \<Rightarrow> protocol_error env ''Bad bulk string length'' r h
           | Some len \<Rightarrow>
               if len < -1 then protocol_error env ''Bulk string length out of range'' r h
               else if len = -1 then do {
                 (obj, h) \<leftarrow> construct (map_option (\<lambda>f _. f cur par) (createNil (fn env))) REDIS_REPLY_NIL () h;
                 finish_item env obj (if obj = 0 then r else r\<lparr>rd_pos := rd_pos r + s + 2\<rparr>) h }
               else
                 let bytelen = s + 2 + nat len + 2 in
                 if rd_pos r + bytelen \<le> length msg then
                   if t_type cur = REDIS_REPLY_VERB \<and> (len < 4 \<or> p ! (s + 5) \<noteq> CHR '':'') then
                     protocol_error env verbatim_error r h
                   else do {
                     (obj, h) \<leftarrow> construct (map_option (\<lambda>f. f cur par) (createString (fn env))) (t_type cur)
                        (take (nat len) (drop (s + 2) p)) h;
                     finish_item env obj (if obj = 0 then r else r\<lparr>rd_pos := rd_pos r + bytelen\<rparr>) h }
                 else Some (REDIS_ERR, r, h)))"

text \<open>\<open>hi_calloc\<close> gives tasks of zeros.\<close>

definition blank_task :: read_task where
  "blank_task = \<lparr>t_type = 0, t_elements = 0, t_idx = 0, t_obj = 0, t_parent = None\<rparr>"

text \<open>Allocating \<open>n\<close> tasks, one after the other; the flag tells whether all succeeded.\<close>

fun add_tasks :: "'h reader_env \<Rightarrow> nat \<Rightarrow> reader \<Rightarrow> 'h \<Rightarrow> bool \<times> reader \<times> 'h" where
  "add_tasks env 0 r h = (True, r, h)"
| "add_tasks env (Suc n) r h =
     (case hi_alloc env h of
        (False, h) \<Rightarrow> (False, r, h)
      | (True, h) \<Rightarrow> add_tasks env n (r\<lparr>rd_task := rd_task r @ [blank_task]\<rparr>) h)"

definition redisReaderGrow :: "'h reader_env \<Rightarrow> reader \<Rightarrow> 'h \<Rightarrow> status \<times> reader \<times> 'h" where
  "redisReaderGrow env r h =
     (case hi_alloc env h of
        (False, h) \<Rightarrow> (REDIS_ERR, redisReaderSetErrorOOM env r h)
      | (True, h) \<Rightarrow>
          (case add_tasks env REDIS_READER_STACK_SIZE r h of
             (True, r, h) \<Rightarrow> (REDIS_OK, r, h)
           | (False, r, h) \<Rightarrow> (REDIS_ERR, redisReaderSetErrorOOM env r h)))"

definition fresh_task :: "nat option \<Rightarrow> int \<Rightarrow> read_task" where
  "fresh_task par idx = \<lparr>t_type = -1, t_elements = -1, t_idx = idx, t_obj = 0, t_parent = par\<rparr>"

text \<open>The container proper: a null array, or an object with a task for its first element.\<close>

definition aggregate_object :: "'h reader_env \<Rightarrow> int \<Rightarrow> reader \<Rightarrow> 'h \<Rightarrow> (status \<times> reader \<times> 'h) option" where
  "aggregate_object env elements r h =
     (let cur = task_at r (rd_ridx r); par = parent_obj r cur; root = (rd_ridx r = 0) in
      if elements = -1 then do {
        (obj, h) \<leftarrow> construct (map_option (\<lambda>f _. f cur par) (createNil (fn env))) REDIS_REPLY_NIL () h;
        if obj = 0 then Some (REDIS_ERR, redisReaderSetErrorOOM env r h)
        else do {
          r \<leftarrow> moveToNextTask r;
          Some (REDIS_OK, if root then r\<lparr>rd_reply := obj\<rparr> else r, h) } }
      else
        let elements = (if t_type cur = REDIS_REPLY_MAP then elements * 2 else elements) in
        if elements \<ge> 2 ^ 63 then None
        else do {
          (obj, h) \<leftarrow> construct (map_option (\<lambda>f. f cur par) (createArray (fn env))) (t_type cur) (nat elements) h;
          if obj = 0 then Some (REDIS_ERR, redisReaderSetErrorOOM env r h)
          else do {
            r \<leftarrow> (if elements > 0
                 then Some (set_task (rd_ridx r + 1) (fresh_task (Some (nat (rd_ridx r))) 0)
                       (set_task (rd_ridx r) (cur\<lparr>t_elements := elements, t_obj := obj\<rparr>) r)
                       \<lparr>rd_ridx := rd_ridx r + 1\<rparr>)
                 else moveToNextTask r);
            Some (REDIS_OK, if root then r\<lparr>rd_reply := obj\<rparr> else r, h) } })"

definition processAggregateItem :: "'h reader_env \<Rightarrow> bytes \<Rightarrow> reader \<Rightarrow> 'h \<Rightarrow> (status \<times> reader \<times> 'h) option" where
  "processAggregateItem env msg r h =
     (case (if rd_ridx r = int (length (rd_task r)) - 1 then redisReaderGrow env r h else (REDIS_OK, r, h)) of
        (REDIS_ERR, r, h) \<Rightarrow> Some (REDIS_ERR, r, h)
      | (REDIS_OK, r, h) \<Rightarrow>
          (case readLine msg r of
             None \<Rightarrow> Some (REDIS_ERR, r, h)
           | Some (p, r) \<Rightarrow>
               (case string2ll p of
                  None \<Rightarrow> protocol_error env ''Bad multi-bulk length'' r h
                | Some elements \<Rightarrow>
                    if elements < -1 \<or> (rd_maxelements r > 0 \<and> elements > rd_maxelements r)
                    then protocol_error env ''Multi-bulk length out of range'' r h
                    else aggregate_object env elements r h)))"

section \<open>One item\<close>

definition reply_type_of :: "byte \<Rightarrow> int option" where
  "reply_type_of c =
     (if c = CHR ''-'' then Some REDIS_REPLY_ERROR
      else if c = CHR ''+'' then Some REDIS_REPLY_STATUS
      else if c = CHR '':'' then Some REDIS_REPLY_INTEGER
      else if c = CHR '','' then Some REDIS_REPLY_DOUBLE
      else if c = CHR ''_'' then Some REDIS_REPLY_NIL
      else if c = CHR ''$'' then Some REDIS_REPLY_STRING
      else if c = CHR ''*'' then Some REDIS_REPLY_ARRAY
      else if c = CHR ''%'' then Some REDIS_REPLY_MAP
      else if c = CHR ''~'' then Some REDIS_REPLY_SET
      else if c = CHR ''#'' then Some REDIS_REPLY_BOOL
      else if c = CHR ''='' then Some REDIS_REPLY_VERB
      else if c = CHR ''>'' then Some REDIS_REPLY_PUSH
      else None)"

definition read_type :: "'h reader_env \<Rightarrow> bytes \<Rightarrow> reader \<Rightarrow> 'h \<Rightarrow> status \<times> reader \<times> 'h" where
  "read_type env msg r h =
     (case readBytes msg r 1 of
        None \<Rightarrow> (REDIS_ERR, r, h)
      | Some (p, r') \<Rightarrow>
          (case reply_type_of (hd p) of
             Some type \<Rightarrow> (REDIS_OK, set_task (rd_ridx r') ((task_at r' (rd_ridx r'))\<lparr>t_type := type\<rparr>) r', h)
           | None \<Rightarrow> (REDIS_ERR, redisReaderSetErrorProtocolByte env (hd p) r' h)))"

definition process_typed :: "'h reader_env \<Rightarrow> bytes \<Rightarrow> reader \<Rightarrow> 'h \<Rightarrow> (status \<times> reader \<times> 'h) option" where
  "process_typed env msg r h =
     (let type = t_type (task_at r (rd_ridx r)) in
      if type \<in> {REDIS_REPLY_ERROR, REDIS_REPLY_STATUS, REDIS_REPLY_INTEGER, REDIS_REPLY_DOUBLE, REDIS_REPLY_NIL, REDIS_REPLY_BOOL}
      then processLineItem env msg r h
      else if type \<in> {REDIS_REPLY_STRING, REDIS_REPLY_VERB} then processBulkItem env msg r h
      else if is_container type then processAggregateItem env msg r h
      else None)"

definition processItem :: "'h reader_env \<Rightarrow> bytes \<Rightarrow> reader \<Rightarrow> 'h \<Rightarrow> (status \<times> reader \<times> 'h) option" where
  "processItem env msg r h =
     (case (if t_type (task_at r (rd_ridx r)) < 0 then read_type env msg r h else (REDIS_OK, r, h)) of
        (REDIS_ERR, r, h) \<Rightarrow> Some (REDIS_ERR, r, h)
      | (REDIS_OK, r, h) \<Rightarrow> process_typed env msg r h)"

section \<open>Progress\<close>

lemma seek_loop_Some: "seek_loop s n pos = Some i \<Longrightarrow> pos \<le> i \<and> i < n"
proof (induction s n pos rule: seek_loop.induct)
  case (1 s n pos)
  then show ?case by (subst (asm) seek_loop.simps) (auto simp: Let_def split: if_splits)
qed

lemma sint32_le: "0 \<le> x \<Longrightarrow> sint (word_of_int x :: 32 word) \<le> x"
proof (cases "x < 2 ^ 31")
  case True
  moreover assume "0 \<le> x"
  ultimately show ?thesis by (simp add: sint32_id)
next
  case False
  then show ?thesis using signed_take_bit_int_less_eq [of 31 x] by transfer simp
qed

lemma seekNewline_bound: "seekNewline s len = Some i \<Longrightarrow> i + 2 \<le> len"
proof -
  assume h: "seekNewline s len = Some i"
  have "i < nat (sint (word_of_int (int len - 1) :: 32 word))"
    using seek_loop_Some h by (auto simp: seekNewline_def)
  moreover have "len \<noteq> 0 \<Longrightarrow> sint (word_of_int (int len - 1) :: 32 word) \<le> int len - 1"
    by (intro sint32_le) simp
  moreover have "sint (word_of_int (- 1) :: 32 word) = -1" by (rule sint32_id) auto
  ultimately show ?thesis by (cases "len = 0") auto
qed

text \<open>An item that is processed moves the position on, inside the buffer.\<close>

definition same_frame :: "reader \<Rightarrow> reader \<Rightarrow> bool" where
  "same_frame r r' \<longleftrightarrow> rd_err r' = rd_err r \<and> rd_errstr r' = rd_errstr r \<and> rd_buf r' = rd_buf r \<and> rd_len r' = rd_len r \<and>
     rd_maxbuf r' = rd_maxbuf r \<and> rd_maxelements r' = rd_maxelements r"

definition moved_on :: "bytes \<Rightarrow> reader \<Rightarrow> reader \<Rightarrow> bool" where
  "moved_on msg r r' \<longleftrightarrow> rd_pos r < rd_pos r' \<and> rd_pos r' \<le> length msg \<and> same_frame r r'"

lemma moveToNextTask_frame:
  "moveToNextTask r = Some r' \<Longrightarrow>
   rd_pos r' = rd_pos r \<and> rd_reply r' = rd_reply r \<and> length (rd_task r') = length (rd_task r) \<and> same_frame r r'"
proof (induction r rule: moveToNextTask.induct)
  case (1 r)
  then show ?case
    by (subst (asm) (2) moveToNextTask.simps) (auto simp: Let_def same_frame_def split: if_splits)
qed

lemma readLine_frame:
  "readLine msg r = Some (p, r') \<Longrightarrow> \<exists>i. r' = r\<lparr>rd_pos := rd_pos r + i + 2\<rparr> \<and> rd_pos r + i + 2 \<le> length msg \<and>
     p = take i (drop (rd_pos r) msg) \<and> seekNewline (drop (rd_pos r) msg) (length msg - rd_pos r) = Some i"
  using seekNewline_bound [of "drop (rd_pos r) msg" "length msg - rd_pos r"]
  by (fastforce simp: readLine_def split: option.splits)

lemma finish_item_OK:
  "finish_item env obj r h = Some (REDIS_OK, r', h') \<Longrightarrow> obj \<noteq> 0 \<and> rd_pos r' = rd_pos r \<and> same_frame r r'"
  by (auto simp: finish_item_def Let_def bind_eq_Some_conv same_frame_def dest!: moveToNextTask_frame split: if_splits)

lemma processLineItem_OK:
  assumes "processLineItem env msg r h = Some (REDIS_OK, r', h')"
  shows "moved_on msg r r'"
proof -
  obtain p r1 where l: "readLine msg r = Some (p, r1)"
    using assms by (auto simp: processLineItem_def Let_def split: option.splits)
  obtain res where res: "line_object env r1 (task_at r (rd_ridx r)) p h = Some res"
    using assms l by (auto simp: processLineItem_def Let_def bind_eq_Some_conv)
  show ?thesis
    using assms l res readLine_frame [OF l]
    by (cases res) (auto simp: processLineItem_def moved_on_def same_frame_def Let_def dest!: finish_item_OK)
qed

lemma processBulkItem_OK:
  assumes "processBulkItem env msg r h = Some (REDIS_OK, r', h')"
  shows "moved_on msg r r'"
proof -
  obtain i where i: "seekNewline (drop (rd_pos r) msg) (length msg - rd_pos r) = Some i"
    using assms by (cases "seekNewline (drop (rd_pos r) msg) (length msg - rd_pos r)") (auto simp: processBulkItem_def Let_def)
  obtain len where len: "string2ll (take i (drop (rd_pos r) msg)) = Some len"
    using assms i by (cases "string2ll (take i (drop (rd_pos r) msg))") (auto simp: processBulkItem_def Let_def)
  note unf = processBulkItem_def Let_def i option.case len
  consider "len < -1" | "len = -1" | "0 \<le> len" by linarith
  then show ?thesis
    using assms seekNewline_bound [OF i] unfolding unf
    by cases (auto simp: bind_eq_Some_conv moved_on_def same_frame_def split: if_splits dest!: finish_item_OK)
qed

lemma same_frame_simps [simp]:
  "same_frame r r"
  "same_frame r (r'\<lparr>rd_task := ts\<rparr>) = same_frame r r'" "same_frame r (r'\<lparr>rd_ridx := i\<rparr>) = same_frame r r'"
  "same_frame r (r'\<lparr>rd_reply := v\<rparr>) = same_frame r r'" "same_frame r (r'\<lparr>rd_pos := p\<rparr>) = same_frame r r'"
  by (simp_all add: same_frame_def)

lemma aggregate_object_OK:
  assumes "aggregate_object env n r h = Some (REDIS_OK, r', h')"
  shows "rd_pos r' = rd_pos r \<and> same_frame r r'"
proof -
  have move: "moveToNextTask r = Some q \<Longrightarrow> rd_pos (if c then q\<lparr>rd_reply := v\<rparr> else q) = rd_pos r \<and>
      same_frame r (if c then q\<lparr>rd_reply := v\<rparr> else q)" for q c v
    using moveToNextTask_frame [of r q] by simp
  show ?thesis
  proof (cases "n = -1")
    case True
    with assms move show ?thesis by (fastforce simp: aggregate_object_def Let_def bind_eq_Some_conv split: if_split_asm)
  next
    case False
    define e where "e = (if t_type (task_at r (rd_ridx r)) = REDIS_REPLY_MAP then n * 2 else n)"
    show ?thesis
    proof (cases "e > 0")
      case True
      with assms False show ?thesis
        unfolding aggregate_object_def Let_def e_def [symmetric] by (auto simp: bind_eq_Some_conv split: if_split_asm)
    next
      case neg: False
      with assms False move show ?thesis
        unfolding aggregate_object_def Let_def e_def [symmetric] by (fastforce simp: bind_eq_Some_conv split: if_split_asm)
    qed
  qed
qed

lemma add_tasks_frame:
  "add_tasks env n r h = (b, r', h') \<Longrightarrow> \<exists>ts. r' = r\<lparr>rd_task := rd_task r @ ts\<rparr>"
proof (induction n arbitrary: r h)
  case 0
  then show ?case by (auto intro: exI [of _ "[]"])
next
  case (Suc n)
  obtain ok h1 where a: "hi_alloc env h = (ok, h1)" by force
  show ?case
  proof (cases ok)
    case True
    then have "\<exists>ts. r' = r\<lparr>rd_task := (rd_task r @ [blank_task]) @ ts\<rparr>"
      using Suc.IH [of "r\<lparr>rd_task := rd_task r @ [blank_task]\<rparr>" h1] Suc.prems a by auto
    then show ?thesis by auto
  next
    case False
    with Suc.prems a show ?thesis by (auto intro: exI [of _ "[]"])
  qed
qed

lemma redisReaderGrow_OK:
  "redisReaderGrow env r h = (REDIS_OK, r', h') \<Longrightarrow> \<exists>ts. r' = r\<lparr>rd_task := rd_task r @ ts\<rparr>"
  by (auto simp: redisReaderGrow_def split: prod.splits bool.splits dest!: add_tasks_frame)

lemma processAggregateItem_OK:
  assumes "processAggregateItem env msg r h = Some (REDIS_OK, r', h')"
  shows "moved_on msg r r'"
proof -
  obtain r1 h1 where g: "(if rd_ridx r = int (length (rd_task r)) - 1 then redisReaderGrow env r h else (REDIS_OK, r, h)) = (REDIS_OK, r1, h1)"
    using assms by (auto simp: processAggregateItem_def split: prod.splits status.splits)
  then have f: "rd_pos r1 = rd_pos r" "same_frame r r1"
    by (auto simp: same_frame_def split: if_splits dest!: redisReaderGrow_OK)
  show ?thesis
    using assms f unfolding processAggregateItem_def g
    by (auto simp: moved_on_def same_frame_def dest!: readLine_frame aggregate_object_OK split: option.splits prod.splits if_splits)
qed

lemma process_typed_OK: "process_typed env msg r h = Some (REDIS_OK, r', h') \<Longrightarrow> moved_on msg r r'"
  by (auto simp: process_typed_def Let_def split: if_splits
      dest: processLineItem_OK processBulkItem_OK processAggregateItem_OK)

lemma processItem_OK:
  assumes "processItem env msg r h = Some (REDIS_OK, r', h')"
  shows "moved_on msg r r'"
proof -
  obtain r1 h1 where t: "(if t_type (task_at r (rd_ridx r)) < 0 then read_type env msg r h else (REDIS_OK, r, h)) = (REDIS_OK, r1, h1)"
    using assms by (auto simp: processItem_def split: prod.splits status.splits)
  then have f: "rd_pos r \<le> rd_pos r1" "same_frame r r1"
    by (auto simp: read_type_def readBytes_def same_frame_def split: if_splits option.splits)
  have "moved_on msg r1 r'" using assms unfolding processItem_def t by (auto dest: process_typed_OK)
  with f show ?thesis by (auto simp: moved_on_def same_frame_def)
qed

section \<open>Feeding and fetching\<close>

function process_loop :: "'h reader_env \<Rightarrow> bytes \<Rightarrow> reader \<Rightarrow> 'h \<Rightarrow> (reader \<times> 'h) option" where
  "process_loop env msg r h =
     (if rd_ridx r \<ge> 0
      then case processItem env msg r h of
             None \<Rightarrow> None
           | Some (REDIS_OK, r, h) \<Rightarrow> process_loop env msg r h
           | Some (REDIS_ERR, r, h) \<Rightarrow> Some (r, h)
      else Some (r, h))"
  by pat_completeness auto
termination
  by (relation "measure (\<lambda>(env, msg, r, h). length msg - rd_pos r)") (auto dest!: processItem_OK sym [of "Some _"] simp: moved_on_def)

declare process_loop.simps [simp del]

definition redisReaderCreateWithFunctions :: "'h reader_env \<Rightarrow> memory \<Rightarrow> 'h \<Rightarrow> (reader option \<times> memory \<times> 'h) option" where
  "redisReaderCreateWithFunctions env m h =
     (case hi_alloc env h of
        (False, h) \<Rightarrow> Some (None, m, h)
      | (True, h) \<Rightarrow> do {
          (b, m) \<leftarrow> sdsempty m;
          case b of
            None \<Rightarrow> Some (None, m, h)
          | Some b \<Rightarrow>
              (case hi_alloc env h of
                 (False, h) \<Rightarrow> Some (None, m, h)
               | (True, h) \<Rightarrow>
                   (case add_tasks env REDIS_READER_STACK_SIZE
                      \<lparr>rd_err = 0, rd_errstr = [], rd_buf = Some b, rd_pos = 0, rd_len = 0,
                       rd_maxbuf = REDIS_READER_MAX_BUF, rd_maxelements = REDIS_READER_MAX_ARRAY_ELEMENTS,
                       rd_task = [], rd_ridx = -1, rd_reply = 0\<rparr> h of
                      (True, r, h) \<Rightarrow> Some (Some r, m, h)
                    | (False, r, h) \<Rightarrow> Some (None, m, h))) })"

text \<open>Releasing memory has no effect on the model but for the reply that was not fetched.\<close>

definition redisReaderFree :: "'h reader_env \<Rightarrow> reader option \<Rightarrow> 'h \<Rightarrow> 'h" where
  "redisReaderFree env r h =
     (case r of
        None \<Rightarrow> h
      | Some r \<Rightarrow>
          (case freeObject (fn env) of
             Some free \<Rightarrow> if rd_reply r \<noteq> 0 then free (rd_reply r) h else h
           | None \<Rightarrow> h))"

text \<open>\<open>input\<close> is \<open>None\<close> for a null pointer.\<close>

definition redisReaderFeed :: "'h reader_env \<Rightarrow> reader \<Rightarrow> bytes option \<Rightarrow> nat \<Rightarrow> memory \<Rightarrow> 'h
    \<Rightarrow> (status \<times> reader \<times> memory \<times> 'h) option" where
  "redisReaderFeed env r input len m h =
     (let oom = (\<lambda>r m h. Some (REDIS_ERR, case redisReaderSetErrorOOM env r h of (r, h) \<Rightarrow> (r, m, h))) in
      if rd_err r \<noteq> 0 then Some (REDIS_ERR, r, m, h)
      else case input of
        None \<Rightarrow> Some (REDIS_OK, r, m, h)
      | Some bs \<Rightarrow>
          if len < 1 then Some (REDIS_OK, r, m, h)
          else case rd_buf r of
            None \<Rightarrow> None
          | Some b \<Rightarrow> do {
              (b, r, m) \<leftarrow>
                (if rd_len r = 0 \<and> rd_maxbuf r \<noteq> 0 \<and> sdsavail b > rd_maxbuf r
                 then do { (b, m) \<leftarrow> sdsempty m; Some (b, r\<lparr>rd_buf := b, rd_pos := if b = None then rd_pos r else 0\<rparr>, m) }
                 else Some (Some b, r, m));
              case b of
                None \<Rightarrow> oom r m h
              | Some b \<Rightarrow> do {
                  (newbuf, m) \<leftarrow> sdscatlen b bs len m;
                  case newbuf of
                    None \<Rightarrow> oom r m h
                  | Some b \<Rightarrow> Some (REDIS_OK, r\<lparr>rd_buf := Some b, rd_len := sdslen b\<rparr>, m, h) } })"

text \<open>The reply is 0 when there is none yet; \<open>reply\<close> is not a null pointer in the program's calls.\<close>

definition redisReaderGetReply :: "'h reader_env \<Rightarrow> reader \<Rightarrow> 'h \<Rightarrow> (status \<times> obj \<times> reader \<times> 'h) option" where
  "redisReaderGetReply env r h =
     (if rd_err r \<noteq> 0 then Some (REDIS_ERR, 0, r, h)
      else if rd_len r = 0 then Some (REDIS_OK, 0, r, h)
      else case rd_buf r of
        None \<Rightarrow> None
      | Some b \<Rightarrow>
          let r = (if rd_ridx r = -1
                   then set_task 0 (fresh_task None (-1)) r\<lparr>rd_ridx := 0\<rparr> else r)
          in do {
            (r, h) \<leftarrow> process_loop env (take (rd_len r) (buf b)) r h;
            if rd_err r \<noteq> 0 then Some (REDIS_ERR, 0, r, h)
            else do {
              (ret, r) \<leftarrow>
                (if rd_pos r \<ge> 1024
                 then do {
                   (ret, b) \<leftarrow> sdsrange b (int (rd_pos r)) (-1);
                   Some (ret, if ret < 0 then r else r\<lparr>rd_buf := Some b, rd_pos := 0, rd_len := sdslen b\<rparr>) }
                 else Some (0, r));
              if ret < 0 then Some (REDIS_ERR, 0, r, h)
              else if rd_ridx r = -1 then Some (REDIS_OK, rd_reply r, r\<lparr>rd_reply := 0\<rparr>, h)
              else Some (REDIS_OK, 0, r, h) } })"

section \<open>Integers\<close>

definition all_digits :: "bytes \<Rightarrow> bool" where
  "all_digits s \<longleftrightarrow> (\<forall>c \<in> set s. c_isdigit c)"

lemma all_digits_simps [simp]: "all_digits []" "all_digits (c # s) \<longleftrightarrow> c_isdigit c \<and> all_digits s"
  by (auto simp: all_digits_def)

lemma digits_val_ge: "v \<le> digits_val v s"
proof (induction s arbitrary: v)
  case (Cons c s)
  have "v \<le> 10 * v + digit_val c" by simp
  also have "\<dots> \<le> digits_val (10 * v + digit_val c) s" by (rule Cons)
  finally show ?case by simp
qed simp

lemma ll_loop_digits: "v \<le> ULLONG_MAX \<Longrightarrow>
   ll_loop v s = Some (w, []) \<longleftrightarrow> all_digits s \<and> digits_val v s = w \<and> w \<le> ULLONG_MAX"
proof (induction s arbitrary: v)
  case (Cons c s)
  show ?case
  proof (cases "c_isdigit c")
    case False
    then show ?thesis by simp
  next
    case d: True
    have dv: "digit_val c < 10" using d by (auto simp: c_isdigit_def digit_val_def)
    show ?thesis
    proof (cases "v * 10 + digit_val c \<le> ULLONG_MAX")
      case True
      then have "\<not> v > ULLONG_MAX div 10" "\<not> v * 10 > ULLONG_MAX - digit_val c" by simp_all
      with d True Cons.IH [OF True] show ?thesis by (simp add: mult.commute)
    next
      case False
      then have "v > ULLONG_MAX div 10 \<or> v * 10 > ULLONG_MAX - digit_val c" using dv by simp arith
      moreover have "\<not> digits_val (10 * v + digit_val c) s \<le> ULLONG_MAX"
        using False digits_val_ge [of "10 * v + digit_val c" s] by (simp add: mult.commute)
      ultimately show ?thesis using d by auto
    qed
  qed
qed auto

lemma dec_nat_snoc: "dec_nat n @ [char_of (48 + d)] = dec_nat (10 * n + d)" if "0 < n" "d < 10" for n d
  using that by (subst (2) dec_nat.simps) auto

lemma digit_char: "c_isdigit c \<Longrightarrow> char_of (48 + digit_val c) = c"
  by (auto simp: c_isdigit_def digit_val_def uchar_def)

text \<open>Digits without a leading zero are the decimal form of their value.\<close>

lemma dec_nat_digits:
  "0 < v \<Longrightarrow> all_digits s \<Longrightarrow> dec_nat (digits_val v s) = dec_nat v @ s"
proof (induction s arbitrary: v)
  case (Cons c s)
  then have d: "c_isdigit c" "digit_val c < 10" by (auto simp: c_isdigit_def digit_val_def)
  with Cons.IH [of "10 * v + digit_val c"] Cons.prems dec_nat_snoc [of v "digit_val c"] digit_char [of c]
  show ?case by simp
qed simp

lemma digit_val_zero: "digit_val (CHR ''0'') = 0"
  by (simp add: digit_val_def uchar_def)

lemma dec_nat_head:
  "0 < n \<Longrightarrow> \<exists>c s. dec_nat n = c # s \<and> c_isdigit c \<and> c \<noteq> CHR ''0'' \<and> digits_val (digit_val c) s = n"
proof (induction n rule: dec_nat.induct)
  case (1 n)
  show ?case
  proof (cases "n < 10")
    case True
    then have "char_of (48 + n) \<noteq> CHR ''0''"
      using 1(2) digit_val_char_of [OF True] digit_val_zero by force
    with True 1(2) show ?thesis by (subst dec_nat.simps) simp
  next
    case False
    then obtain c s where c: "dec_nat (n div 10) = c # s" "c_isdigit c" "c \<noteq> CHR ''0''" "digits_val (digit_val c) s = n div 10"
      using 1(1) by (auto simp: div_greater_zero_iff)
    have "set s \<subseteq> Collect c_isdigit" using c(1) set_dec_nat [of _ "n div 10"] by auto
    then have "digits_val (digit_val c) (s @ [char_of (48 + n mod 10)]) = digits_val (n div 10) [char_of (48 + n mod 10)]"
      using digits_val_append_digits [of s] c(4) by (metis Collect_mem_eq mem_Collect_eq subsetD)
    with c False show ?thesis by (subst dec_nat.simps) simp
  qed
qed

lemma ll_dec:
  assumes c: "c_isdigit c" "c \<noteq> CHR ''0''"
  shows "ll_loop (digit_val c) p = Some (w, []) \<longleftrightarrow> c # p = dec_nat w \<and> 0 < w \<and> w \<le> ULLONG_MAX"
proof -
  have d: "digit_val c < 10" using c by (auto simp: c_isdigit_def digit_val_def)
  have "char_of (48::nat) = CHR ''0''" by code_simp
  then have pos: "0 < digit_val c" using c digit_char [OF c(1)] by (cases "digit_val c = 0") auto
  have one: "dec_nat (digit_val c) = [c]" using d digit_char [OF c(1)] by (subst dec_nat.simps) simp
  have "all_digits p \<and> digits_val (digit_val c) p = w \<longleftrightarrow> c # p = dec_nat w \<and> 0 < w" (is "?l \<longleftrightarrow> ?r")
  proof
    assume l: ?l
    then have "dec_nat w = c # p" using dec_nat_digits [OF pos, of p] one by simp
    moreover have "0 < w" using l digits_val_ge [of "digit_val c" p] pos by simp
    ultimately show ?r by simp
  next
    assume r: ?r
    then obtain e q where e: "dec_nat w = e # q" "digits_val (digit_val e) q = w" using dec_nat_head by blast
    with r have "e = c" "q = p" by auto
    moreover have "all_digits p" using set_dec_nat [of _ w] r by (auto simp: all_digits_def) (metis list.set_intros(2))
    ultimately show ?l using e by simp
  qed
  then show ?thesis using ll_loop_digits [of "digit_val c" p w] d by auto
qed

lemma string2ll_cases:
  "string2ll s = Some v \<longleftrightarrow>
     s = ''0'' \<and> v = 0 \<or>
     (\<exists>w. 0 < w \<and> w \<le> 2 ^ 63 \<and> s = CHR ''-'' # dec_nat w \<and> v = - int w) \<or>
     (\<exists>w. 0 < w \<and> w < 2 ^ 63 \<and> s = dec_nat w \<and> v = int w)"
proof -
  have zero: "dec_nat 0 = ''0''" by code_simp
  have head: "0 < w \<Longrightarrow> dec_nat w \<noteq> ''0'' \<and> hd (dec_nat w) \<noteq> CHR ''-'' \<and> c_isdigit (hd (dec_nat w)) \<and> hd (dec_nat w) \<noteq> CHR ''0''" for w
    using dec_nat_head [of w] by (auto simp: c_isdigit_def uchar_def)
  show ?thesis
  proof (cases s)
    case Nil
    then show ?thesis by (simp add: string2ll_def) (metis dec_nat_not_Nil)
  next
    case (Cons c p)
    consider "s = ''0''" | "s \<noteq> ''0''" "c = CHR ''-''" | "s \<noteq> ''0''" "c \<noteq> CHR ''-''" by blast
    then show ?thesis
    proof cases
      case 1
      with head show ?thesis by (auto simp: string2ll_def) metis
    next
      case 2
      show ?thesis
      proof (cases "p = [] \<or> \<not> c_isdigit (hd p) \<or> hd p = CHR ''0''")
        case True
        have "string2ll s = None" using True 2 Cons by (cases p) (auto simp: string2ll_def Let_def)
        moreover have "\<not> (0 < w \<and> p = dec_nat w)" for w using head [of w] True dec_nat_not_Nil [of w] by auto
        moreover have "\<not> (0 < w \<and> s = dec_nat w)" for w using head [of w] Cons 2 by (metis list.sel(1))
        ultimately show ?thesis using Cons 2 by (metis list.inject option.distinct(1))
      next
        case False
        then obtain d q where q: "p = d # q" "c_isdigit d" "d \<noteq> CHR ''0''" by (cases p) auto
        have no: "(\<exists>w. 0 < w \<and> w < 2 ^ 63 \<and> s = dec_nat w \<and> v = int w) = False"
          using head Cons 2 by (metis list.sel(1))
        have "string2ll s = (case ll_loop (digit_val d) q of
            Some (v, []) \<Rightarrow> if v > 2 ^ 63 then None else Some (- int v) | _ \<Rightarrow> None)"
          using q Cons 2 by (auto simp: string2ll_def split: option.split list.split)
        then have "string2ll s = Some v \<longleftrightarrow> (\<exists>w. ll_loop (digit_val d) q = Some (w, []) \<and> w \<le> 2 ^ 63 \<and> v = - int w)"
          by (auto split: option.splits list.splits)
        then show ?thesis unfolding no using Cons 2 q by (auto simp: ll_dec)
      qed
    next
      case 3
      have no: "\<not> s = CHR ''-'' # dec_nat w" for w using Cons 3 by simp
      show ?thesis
      proof (cases "\<not> c_isdigit c \<or> c = CHR ''0''")
        case True
        have "string2ll s = None" using True 3 Cons by (auto simp: string2ll_def Let_def)
        moreover have "\<not> (0 < w \<and> s = dec_nat w)" for w using head [of w] Cons True by (metis list.sel(1))
        ultimately show ?thesis using no 3 by (metis option.distinct(1))
      next
        case False
        have "string2ll s = (case ll_loop (digit_val c) p of
            Some (v, []) \<Rightarrow> if v > 2 ^ 63 - 1 then None else Some (int v) | _ \<Rightarrow> None)"
          using False Cons 3 by (auto simp: string2ll_def split: option.split list.split)
        then have "string2ll s = Some v \<longleftrightarrow> (\<exists>w. ll_loop (digit_val c) p = Some (w, []) \<and> w < 2 ^ 63 \<and> v = int w)"
          by (auto split: option.splits list.splits)
        then show ?thesis using no Cons 3 False by (auto simp: ll_dec)
      qed
    qed
  qed
qed

lemma string2ll_iff:
  "string2ll s = Some v \<longleftrightarrow> s = dec_int v \<and> - (2 ^ 63) \<le> v \<and> v < 2 ^ 63"
proof -
  have zero: "dec_nat 0 = ''0''" by code_simp
  consider "v = 0" | "v < 0" | "v > 0" by linarith
  then show ?thesis
  proof cases
    case 1
    then show ?thesis unfolding string2ll_cases by (auto simp: dec_int_def zero)
  next
    case 2
    then obtain w where w: "v = - int w" "0 < w" by (metis neg_int_cases)
    then show ?thesis unfolding string2ll_cases by (auto simp: dec_int_def)
  next
    case 3
    then obtain w where w: "v = int w" "0 < w" by (metis pos_int_cases)
    then show ?thesis unfolding string2ll_cases by (auto simp: dec_int_def)
  qed
qed

text \<open>C30: A line is read as the integer \<open>v\<close> exactly when it is the decimal form of \<open>v\<close>, without
  leading zeros, plus sign or spaces, and \<open>v\<close> is in the range of \<open>long long\<close>: the conversion
  loses nothing, so that printing the value gives the line.\<close>

theorem string2ll_lossless:
  "string2ll s = Some v \<longleftrightarrow> s = dec_int v \<and> - (2 ^ 63) \<le> v \<and> v < 2 ^ 63"
  by (rule string2ll_iff)

end
