(* ===== verification/ReaderResume.thy ===== *)
theory ReaderResume
  imports Reader
begin

text \<open>
  The reader is resumable: a reply that arrives in several pieces, with an attempt to fetch it
  after each, is read like one that arrives at once. The turn of the loop (reading a type byte,
  or processing a typed item) satisfies the contract of the incremental parsers.
\<close>

section \<open>Lines\<close>

definition crlf_at :: "bytes \<Rightarrow> nat \<Rightarrow> bool" where
  "crlf_at s i \<longleftrightarrow> s ! i = CR \<and> s ! (i + 1) = LF"

definition first_crlf :: "bytes \<Rightarrow> nat \<Rightarrow> bool" where
  "first_crlf s i \<longleftrightarrow> i + 1 < length s \<and> crlf_at s i \<and> (\<forall>j < i. \<not> crlf_at s j)"

lemma first_crlf_unique: "first_crlf s i \<Longrightarrow> first_crlf s j \<Longrightarrow> i = j"
  unfolding first_crlf_def using nat_neq_iff by blast

lemma seek_loop_spec:
  "n \<le> length s \<Longrightarrow>
   (case seek_loop s n pos of
      Some i \<Rightarrow> pos \<le> i \<and> i < n \<and> crlf_at s i \<and> (\<forall>j. pos \<le> j \<and> j < i \<longrightarrow> \<not> crlf_at s j)
    | None \<Rightarrow> \<forall>j. pos \<le> j \<and> j < n \<longrightarrow> \<not> crlf_at s j)"
proof (induction "n - pos" arbitrary: pos rule: less_induct)
  case less
  define k where "k = length (takeWhile (\<lambda>c. c \<noteq> CR) (take (n - pos) (drop pos s)))"
  have kn: "k \<le> n - pos" unfolding k_def
    using length_takeWhile_le [of "\<lambda>c. c \<noteq> CR" "take (n - pos) (drop pos s)"] by simp
  have pre: "\<not> crlf_at s j" if "pos \<le> j" "j < pos + k" for j
  proof -
    have "j - pos < k" using that by auto
    then have "takeWhile (\<lambda>c. c \<noteq> CR) (take (n - pos) (drop pos s)) ! (j - pos) \<noteq> CR"
      using nth_mem [of "j - pos" "takeWhile (\<lambda>c. c \<noteq> CR) (take (n - pos) (drop pos s))"] set_takeWhileD
      unfolding k_def by fastforce
    with \<open>j - pos < k\<close> have "take (n - pos) (drop pos s) ! (j - pos) \<noteq> CR"
      by (simp add: k_def takeWhile_nth)
    then show ?thesis using that kn less.prems by (auto simp: crlf_at_def)
  qed
  have at: "s ! (pos + k) = CR" if "pos + k < n"
  proof -
    have "k < length (take (n - pos) (drop pos s))" using that less.prems by auto
    from nth_length_takeWhile [OF this [unfolded k_def]]
    have "take (n - pos) (drop pos s) ! k = CR" by (simp add: k_def)
    then show ?thesis using that less.prems by (simp add: add.commute)
  qed
  show ?case
  proof (cases "pos < n")
    case False
    then show ?thesis by (subst seek_loop.simps) auto
  next
    case True
    show ?thesis
    proof (cases "pos + k \<ge> n")
      case big: True
      then have "seek_loop s n pos = None" using True by (simp add: seek_loop.simps [of s n pos] Let_def flip: k_def)
      with pre big show ?thesis by auto
    next
      case small: False
      show ?thesis
      proof (cases "s ! (pos + k + 1) = LF")
        case hit: True
        then have "seek_loop s n pos = Some (pos + k)"
          using True small by (simp add: seek_loop.simps [of s n pos] Let_def flip: k_def)
        with pre at small hit show ?thesis by (auto simp: crlf_at_def)
      next
        case miss: False
        have e: "seek_loop s n pos = seek_loop s n (pos + k + 1)"
          using True small miss by (simp add: seek_loop.simps [of s n pos] Let_def flip: k_def)
        have "\<not> crlf_at s (pos + k)" using miss by (simp add: crlf_at_def)
        then have no: "\<not> crlf_at s j" if "pos \<le> j" "j < pos + k + 1" for j
          using that pre by (cases "j = pos + k") auto
        have "case seek_loop s n (pos + k + 1) of
            Some i \<Rightarrow> pos + k + 1 \<le> i \<and> i < n \<and> crlf_at s i \<and> (\<forall>j. pos + k + 1 \<le> j \<and> j < i \<longrightarrow> \<not> crlf_at s j)
          | None \<Rightarrow> \<forall>j. pos + k + 1 \<le> j \<and> j < n \<longrightarrow> \<not> crlf_at s j"
          using less.hyps [of "pos + k + 1"] less.prems small True by simp
        then show ?thesis
          unfolding e using no by (auto split: option.splits) (meson not_less)+
      qed
    qed
  qed
qed

lemma seekNewline_iff:
  assumes "length s < 2 ^ 31"
  shows "seekNewline s (length s) = Some i \<longleftrightarrow> first_crlf s i"
proof (cases "s = []")
  case True
  have "sint (word_of_int (- 1) :: 32 word) = -1" by (rule sint32_id) auto
  with True show ?thesis by (simp add: seekNewline_def seek_loop.simps first_crlf_def)
next
  case False
  define n where "n = length s - 1"
  have "sint (word_of_int (int (length s) - 1) :: 32 word) = int (length s) - 1"
    using assms False by (intro sint32_id) (auto simp: Suc_le_eq)
  then have e: "seekNewline s (length s) = seek_loop s n 0"
    unfolding seekNewline_def n_def using False by (metis One_nat_def Suc_leI diff_nat_numeral int_ops(2) length_greater_0_conv nat_int of_nat_diff)
  have n: "n \<le> length s" "i + 1 < length s \<longleftrightarrow> i < n" using False by (auto simp: n_def)
  have spec: "case seek_loop s n 0 of
      Some i \<Rightarrow> i < n \<and> crlf_at s i \<and> (\<forall>j < i. \<not> crlf_at s j)
    | None \<Rightarrow> \<forall>j < n. \<not> crlf_at s j"
    using seek_loop_spec [OF n(1), of 0] by (auto split: option.splits)
  show ?thesis
  proof
    assume "seekNewline s (length s) = Some i"
    then show "first_crlf s i" using spec n(2) by (simp add: e first_crlf_def)
  next
    assume h: "first_crlf s i"
    then obtain k where k: "seek_loop s n 0 = Some k"
      using spec n(2) by (cases "seek_loop s n 0") (auto simp: first_crlf_def)
    have "k + 1 < length s" using spec k False by (auto simp: n_def)
    then have "first_crlf s k" using spec k by (simp add: first_crlf_def)
    with h k show "seekNewline s (length s) = Some i" by (auto simp: e dest: first_crlf_unique)
  qed
qed

lemma seekNewline_drop:
  "length msg < 2 ^ 31 \<Longrightarrow>
   seekNewline (drop pos msg) (length msg - pos) = Some i \<longleftrightarrow> first_crlf (drop pos msg) i"
  using seekNewline_iff [of "drop pos msg" i] by simp

lemma first_crlf_append: "first_crlf s i \<Longrightarrow> first_crlf (s @ t) i"
  by (auto simp: first_crlf_def crlf_at_def nth_append)

lemma first_crlf_take: "first_crlf s i \<Longrightarrow> i + 2 \<le> n \<Longrightarrow> first_crlf (take n s) i"
  by (auto simp: first_crlf_def crlf_at_def)

lemma first_crlf_line: "CR \<notin> set p \<Longrightarrow> first_crlf (p @ CR # LF # t) (length p)"
proof -
  assume "CR \<notin> set p"
  then have "p ! j \<noteq> CR" if "j < length p" for j using that nth_mem by fastforce
  then show ?thesis by (simp add: first_crlf_def crlf_at_def nth_append)
qed

lemma seekNewline_extend:
  assumes "seekNewline (drop pos msg) (length msg - pos) = Some i" "length (msg @ t) < 2 ^ 31"
  shows "seekNewline (drop pos (msg @ t)) (length (msg @ t) - pos) = Some i"
proof -
  have "i + 2 \<le> length msg - pos" using seekNewline_bound [OF assms(1)] .
  then have "drop pos (msg @ t) = drop pos msg @ t" by simp
  then show ?thesis
    using assms seekNewline_drop [of msg pos i] seekNewline_drop [of "msg @ t" pos i] first_crlf_append by simp
qed

lemma seekNewline_local:
  assumes "seekNewline (drop pos msg) (length msg - pos) = Some i" "length msg < 2 ^ 31" "pos + i + 2 \<le> n"
  shows "seekNewline (drop pos (take n msg)) (length (take n msg) - pos) = Some i"
proof -
  have "first_crlf (take (n - pos) (drop pos msg)) i"
    using assms by (intro first_crlf_take) (auto simp: seekNewline_drop)
  then show ?thesis
    using assms(2) seekNewline_drop [of "take n msg" pos i] by (simp add: drop_take)
qed

lemma readLine_extend:
  assumes "readLine msg r = Some (p, r1)" "length (msg @ t) < 2 ^ 31"
  shows "readLine (msg @ t) r = Some (p, r1)"
proof -
  from readLine_frame [OF assms(1)] obtain i where
    i: "r1 = r\<lparr>rd_pos := rd_pos r + i + 2\<rparr>" "rd_pos r + i + 2 \<le> length msg" "p = take i (drop (rd_pos r) msg)"
       "seekNewline (drop (rd_pos r) msg) (length msg - rd_pos r) = Some i" by blast
  have "take i (drop (rd_pos r) (msg @ t)) = p" using i(2,3) by simp
  then show ?thesis
    using i(1) unfolding readLine_def seekNewline_extend [OF i(4) assms(2)] by simp
qed

lemma readLine_local:
  assumes "readLine msg r = Some (p, r1)" "length msg < 2 ^ 31" "rd_pos r1 \<le> n"
  shows "readLine (take n msg) r = Some (p, r1)"
proof -
  from readLine_frame [OF assms(1)] obtain i where
    i: "r1 = r\<lparr>rd_pos := rd_pos r + i + 2\<rparr>" "p = take i (drop (rd_pos r) msg)"
       "seekNewline (drop (rd_pos r) msg) (length msg - rd_pos r) = Some i" by blast
  then show ?thesis
    using seekNewline_local [OF i(3) assms(2), of n] assms(3)
    by (simp add: readLine_def drop_take min_absorb1)
qed

section \<open>Items\<close>

text \<open>A handler waits when it reports failure without an error.\<close>

definition waits :: "(status \<times> reader \<times> 'h) option \<Rightarrow> bool" where
  "waits res \<longleftrightarrow> (case res of Some (REDIS_ERR, r, h) \<Rightarrow> rd_err r = 0 | _ \<Rightarrow> False)"

lemma SetError_err [simp]: "rd_err (fst (redisReaderSetError env type str r h)) = type"
  by (simp add: redisReaderSetError_def split: option.split)

lemma processLineItem_extend:
  assumes "rd_err r = 0" "\<not> waits (processLineItem env msg r h)" "length (msg @ t) < 2 ^ 31"
  shows "processLineItem env (msg @ t) r h = processLineItem env msg r h"
proof (cases "readLine msg r")
  case None
  with assms(1,2) show ?thesis by (simp add: processLineItem_def Let_def waits_def)
next
  case (Some pr)
  obtain p r1 where pr: "pr = (p, r1)" by force
  with Some show ?thesis
    using readLine_extend [of msg r p r1 t] assms(3) by (simp add: processLineItem_def Let_def)
qed

lemma processBulkItem_extend:
  assumes "rd_err r = 0" "\<not> waits (processBulkItem env msg r h)" "length (msg @ t) < 2 ^ 31"
  shows "processBulkItem env (msg @ t) r h = processBulkItem env msg r h"
proof (cases "seekNewline (drop (rd_pos r) msg) (length msg - rd_pos r)")
  case None
  with assms(1,2) show ?thesis by (simp add: processBulkItem_def Let_def waits_def)
next
  case (Some i)
  have b: "i + 2 \<le> length msg - rd_pos r" using seekNewline_bound [OF Some] .
  then have d: "drop (rd_pos r) (msg @ t) = drop (rd_pos r) msg @ t" by simp
  note ext = seekNewline_extend [OF Some assms(3), unfolded d]
  have ti: "take i (drop (rd_pos r) msg @ t) = take i (drop (rd_pos r) msg)" using b by simp
  note unf = processBulkItem_def Let_def ext Some option.case d ti
  show ?thesis
  proof (cases "string2ll (take i (drop (rd_pos r) msg))")
    case None
    show ?thesis unfolding unf None option.case by (rule refl)
  next
    case len: (Some len)
    show ?thesis
    proof (cases "len \<le> -1")
      case True
      then show ?thesis unfolding unf len option.case by simp
    next
      case False
      then have l: "\<not> len < -1" "len \<noteq> -1" by auto
      have fit: "rd_pos r + (i + 2 + nat len + 2) \<le> length msg"
      proof (rule ccontr)
        assume "\<not> ?thesis"
        with l have "processBulkItem env msg r h = Some (REDIS_ERR, r, h)"
          unfolding unf len option.case by simp
        with assms(1,2) show False by (simp add: waits_def)
      qed
      then have tk: "take (nat len) (drop (i + 2) (drop (rd_pos r) msg @ t)) = take (nat len) (drop (i + 2) (drop (rd_pos r) msg))"
        by simp
      have nth: "len \<ge> 4 \<Longrightarrow> (drop (rd_pos r) msg @ t) ! (i + 5) = drop (rd_pos r) msg ! (i + 5)"
      proof -
        assume "len \<ge> 4"
        then have "nat len \<ge> 4" by simp
        then have "i + 5 < length (drop (rd_pos r) msg)" using fit unfolding length_drop by linarith
        then show ?thesis by (rule nth_append_left)
      qed
      have verb: "(t_type cur = REDIS_REPLY_VERB \<and> (len < 4 \<or> (drop (rd_pos r) msg @ t) ! (i + 5) \<noteq> CHR '':''))
          \<longleftrightarrow> (t_type cur = REDIS_REPLY_VERB \<and> (len < 4 \<or> drop (rd_pos r) msg ! (i + 5) \<noteq> CHR '':''))" for cur
        using nth by (cases "len < 4") auto
      have fit2: "rd_pos r + (i + 2 + nat len + 2) \<le> length (msg @ t)" using fit by simp
      show ?thesis
        unfolding unf len option.case verb tk
        using fit fit2 l by (simp only: if_True if_False)
    qed
  qed
qed

lemma processAggregateItem_extend:
  assumes "rd_err r = 0" "\<not> waits (processAggregateItem env msg r h)" "length (msg @ t) < 2 ^ 31"
  shows "processAggregateItem env (msg @ t) r h = processAggregateItem env msg r h"
proof -
  obtain st r1 h1 where g: "(if rd_ridx r = int (length (rd_task r)) - 1 then redisReaderGrow env r h else (REDIS_OK, r, h)) = (st, r1, h1)"
    by (metis prod_cases3)
  show ?thesis
  proof (cases st)
    case REDIS_ERR
    then show ?thesis by (simp add: processAggregateItem_def g)
  next
    case REDIS_OK
    have "rd_err r1 = 0" using g REDIS_OK assms(1) by (auto split: if_splits dest!: redisReaderGrow_OK)
    then obtain p r2 where "readLine msg r1 = Some (p, r2)"
      using assms(2) by (cases "readLine msg r1") (auto simp: processAggregateItem_def g REDIS_OK waits_def)
    with readLine_extend [OF this assms(3)] show ?thesis by (simp add: processAggregateItem_def g REDIS_OK)
  qed
qed

lemma process_typed_extend:
  assumes "rd_err r = 0" "\<not> waits (process_typed env msg r h)" "length (msg @ t) < 2 ^ 31"
  shows "process_typed env (msg @ t) r h = process_typed env msg r h"
proof -
  let ?type = "t_type (task_at r (rd_ridx r))"
  consider "?type \<in> {6, 5, 3, 7, 4, 8}" | "?type \<notin> {6, 5, 3, 7, 4, 8}" "?type \<in> {1, 14}"
    | "?type \<notin> {6, 5, 3, 7, 4, 8}" "?type \<notin> {1, 14}" by blast
  then show ?thesis
  proof cases
    case 1
    with assms processLineItem_extend [of r env msg h t] show ?thesis by (simp add: process_typed_def Let_def)
  next
    case 2
    with assms processBulkItem_extend [of r env msg h t] show ?thesis by (simp add: process_typed_def Let_def)
  next
    case 3
    with assms processAggregateItem_extend [of r env msg h t] show ?thesis
      by (cases "is_container ?type") (simp_all add: process_typed_def Let_def)
  qed
qed

text \<open>Locality: an item that is processed is processed in the same way when the input ends with it.\<close>

lemma finish_item_not_waits: "\<not> waits (finish_item env obj r h)"
  by (cases "moveToNextTask (if rd_ridx r = 0 then r\<lparr>rd_reply := obj\<rparr> else r)")
    (auto simp: waits_def finish_item_def redisReaderSetErrorOOM_def Let_def split: prod.splits
      dest!: arg_cong [of _ _ "\<lambda>x. rd_err (fst x)"])

lemma protocol_error_not_waits: "\<not> waits (protocol_error env str r h)"
  by (auto simp: waits_def split: prod.splits dest!: arg_cong [of _ _ "\<lambda>x. rd_err (fst x)"])

lemma processBulkItem_waits:
  assumes "waits (processBulkItem env msg r h)"
    and "seekNewline (drop (rd_pos r) msg) (length msg - rd_pos r) = Some i"
  shows "\<exists>len. string2ll (take i (drop (rd_pos r) msg)) = Some len \<and> 0 \<le> len \<and>
    length msg < rd_pos r + (i + 2 + nat len + 2)"
proof (cases "string2ll (take i (drop (rd_pos r) msg))")
  case None
  with assms protocol_error_not_waits [of env] show ?thesis by (simp add: processBulkItem_def Let_def)
next
  case (Some len)
  note unf = processBulkItem_def Let_def assms(2) option.case Some
  have bind: "\<not> waits (do { (obj, h) \<leftarrow> x; finish_item env obj (g obj) h })" for x :: "(obj \<times> 'a) option" and g
    by (cases x) (simp add: waits_def, clarsimp simp: finish_item_not_waits)
  show ?thesis
  proof (rule ccontr)
    assume "\<not> ?thesis"
    with Some have fit: "0 \<le> len \<Longrightarrow> rd_pos r + (i + 2 + nat len + 2) \<le> length msg" by auto
    consider "len < -1" | "len = -1" | "0 \<le> len" by linarith
    then have "\<not> waits (processBulkItem env msg r h)"
    proof cases
      case 3
      then show ?thesis
        unfolding unf using fit [OF 3] bind protocol_error_not_waits [of env] by (auto split: if_split)
    qed (unfold unf, use bind protocol_error_not_waits [of env] in auto)
    with assms(1) show False by simp
  qed
qed

lemma processBulkItem_pos:
  assumes "processBulkItem env msg r h = Some (REDIS_OK, r', h')"
  shows "\<exists>i len. seekNewline (drop (rd_pos r) msg) (length msg - rd_pos r) = Some i \<and>
    string2ll (take i (drop (rd_pos r) msg)) = Some len \<and>
    rd_pos r' = rd_pos r + (i + 2 + (if 0 \<le> len then nat len + 2 else 0))"
proof -
  obtain i where i: "seekNewline (drop (rd_pos r) msg) (length msg - rd_pos r) = Some i"
    using assms by (cases "seekNewline (drop (rd_pos r) msg) (length msg - rd_pos r)") (auto simp: processBulkItem_def Let_def)
  obtain len where len: "string2ll (take i (drop (rd_pos r) msg)) = Some len"
    using assms i by (cases "string2ll (take i (drop (rd_pos r) msg))") (auto simp: processBulkItem_def Let_def)
  note unf = processBulkItem_def Let_def i option.case len
  consider "len < -1" | "len = -1" | "0 \<le> len" by linarith
  then have "rd_pos r' = rd_pos r + (i + 2 + (if 0 \<le> len then nat len + 2 else 0))"
    using assms unfolding unf
    by cases (auto simp: bind_eq_Some_conv split: if_splits dest!: finish_item_OK)
  with i len show ?thesis by blast
qed

lemma process_typed_local:
  assumes ok: "process_typed env msg r h = Some (REDIS_OK, r', h')" and len: "length msg < 2 ^ 31"
    and n: "rd_pos r' \<le> n" and err: "rd_err r = 0"
  shows "process_typed env (take n msg) r h = Some (REDIS_OK, r', h')"
proof -
  have line: "processLineItem env (take n msg) r h = Some (REDIS_OK, r', h')"
    if h: "processLineItem env msg r h = Some (REDIS_OK, r', h')"
  proof -
    obtain p r1 where l: "readLine msg r = Some (p, r1)"
      using h by (auto simp: processLineItem_def Let_def split: option.splits)
    obtain res where res: "line_object env r1 (task_at r (rd_ridx r)) p h = Some res"
      using h l by (auto simp: processLineItem_def Let_def bind_eq_Some_conv)
    have "rd_pos r1 = rd_pos r'"
      using h l res by (cases res) (auto simp: processLineItem_def Let_def dest!: finish_item_OK)
    with readLine_local [OF l len, of n] n h l show ?thesis by (simp add: processLineItem_def Let_def)
  qed
  have bulk: "processBulkItem env (take n msg) r h = Some (REDIS_OK, r', h')"
    if h: "processBulkItem env msg r h = Some (REDIS_OK, r', h')"
  proof -
    obtain i len' where i: "seekNewline (drop (rd_pos r) msg) (length msg - rd_pos r) = Some i"
      "string2ll (take i (drop (rd_pos r) msg)) = Some len'"
      "rd_pos r' = rd_pos r + (i + 2 + (if 0 \<le> len' then nat len' + 2 else 0))"
      using processBulkItem_pos [OF h] by blast
    have sk: "seekNewline (drop (rd_pos r) (take n msg)) (length (take n msg) - rd_pos r) = Some i"
      using seekNewline_local [OF i(1) len, of n] i(3) n by simp
    have tk: "take i (drop (rd_pos r) (take n msg)) = take i (drop (rd_pos r) msg)"
      using i(3) n by (simp add: drop_take min_absorb1)
    have "rd_pos r' \<le> length msg" using processBulkItem_OK [OF h] by (simp add: moved_on_def)
    then have "\<not> waits (processBulkItem env (take n msg) r h)"
      using processBulkItem_waits [OF _ sk, of env h] tk i(2,3) n by auto
    from processBulkItem_extend [OF err this, of "drop n msg"] len h show ?thesis by simp
  qed
  have agg: "processAggregateItem env (take n msg) r h = Some (REDIS_OK, r', h')"
    if h: "processAggregateItem env msg r h = Some (REDIS_OK, r', h')"
  proof -
    obtain r1 h1 where g: "(if rd_ridx r = int (length (rd_task r)) - 1 then redisReaderGrow env r h else (REDIS_OK, r, h)) = (REDIS_OK, r1, h1)"
      using h by (auto simp: processAggregateItem_def split: prod.splits status.splits)
    obtain p r2 where l: "readLine msg r1 = Some (p, r2)"
      using h by (cases "readLine msg r1") (auto simp: processAggregateItem_def g)
    have "rd_pos r2 = rd_pos r'"
      using h l by (auto simp: processAggregateItem_def g split: option.splits if_splits dest!: aggregate_object_OK)
    with readLine_local [OF l len, of n] n h l show ?thesis by (simp add: processAggregateItem_def g)
  qed
  show ?thesis
    using ok line bulk agg unfolding process_typed_def Let_def by (auto split: if_splits)
qed

section \<open>The turn of the loop\<close>

text \<open>
  A turn reads the type byte of the current item or processes the item: code 1, 0 when it needs
  more input, -1 for a reply that is rejected, -2 for undefined behaviour. The scanner counts
  with \<open>int\<close>, so the turn is the code's on buffers below 2 GiB.
\<close>

definition turn_result :: "reader \<times> 'h \<Rightarrow> (status \<times> reader \<times> 'h) option \<Rightarrow> int \<times> reader \<times> 'h" where
  "turn_result s res =
     (case res of
        None \<Rightarrow> (-2, s)
      | Some (REDIS_OK, s') \<Rightarrow> (1, s')
      | Some (REDIS_ERR, s') \<Rightarrow> if rd_err (fst s') = 0 then (0, s') else (-1, s))"

definition rd_step :: "'h reader_env \<Rightarrow> bytes \<Rightarrow> reader \<times> 'h \<Rightarrow> int \<times> reader \<times> 'h" where
  "rd_step env msg s =
     (let r = fst s; h = snd s in
      if rd_err r \<noteq> 0 \<or> rd_ridx r < 0 then (-1, s)
      else if t_type (task_at r (rd_ridx r)) < 0 then turn_result s (Some (read_type env msg r h))
      else turn_result s (process_typed env msg r h))"

abbreviation (input) int_limit :: nat where "int_limit \<equiv> 2 ^ 31 - 1"

definition rd_turn :: "'h reader_env \<Rightarrow> bytes \<Rightarrow> reader \<times> 'h \<Rightarrow> int \<times> reader \<times> 'h" where
  "rd_turn env msg s = rd_step env (take int_limit msg) s"

text \<open>A container at the top of the stack grows the stack before its length line is complete.\<close>

definition reader_view :: "'h reader_env \<Rightarrow> reader \<times> 'h \<Rightarrow> reader \<times> 'h" where
  "reader_view env s =
     (let r = fst s; h = snd s in
      if rd_err r = 0 \<and> 0 \<le> rd_ridx r \<and> is_container (t_type (task_at r (rd_ridx r))) \<and>
         rd_ridx r = int (length (rd_task r)) - 1
      then case redisReaderGrow env r h of (REDIS_OK, s') \<Rightarrow> s' | (REDIS_ERR, s') \<Rightarrow> s
      else s)"

lemma add_tasks_length:
  "add_tasks env n r h = (True, r', h') \<Longrightarrow> length (rd_task r') = length (rd_task r) + n"
proof (induction n arbitrary: r h)
  case (Suc n)
  obtain ok h1 where a: "hi_alloc env h = (ok, h1)" by force
  show ?case
  proof (cases ok)
    case True
    with Suc.prems Suc.IH [of "r\<lparr>rd_task := rd_task r @ [blank_task]\<rparr>" h1] a show ?thesis by simp
  next
    case False
    with Suc.prems a show ?thesis by simp
  qed
qed simp

lemma redisReaderGrow_length:
  "redisReaderGrow env r h = (REDIS_OK, r', h') \<Longrightarrow> length (rd_task r') = length (rd_task r) + 9"
  by (auto simp: redisReaderGrow_def split: prod.splits bool.splits dest!: add_tasks_length)

lemma grow_view:
  assumes "redisReaderGrow env r h = (REDIS_OK, r', h')" "rd_err r = 0" "0 \<le> rd_ridx r"
    "is_container (t_type (task_at r (rd_ridx r)))" "rd_ridx r = int (length (rd_task r)) - 1"
  shows "reader_view env (r, h) = (r', h')" "reader_view env (r', h') = (r', h')"
    "rd_ridx r' = rd_ridx r" "rd_pos r' = rd_pos r" "rd_err r' = 0" "task_at r' (rd_ridx r') = task_at r (rd_ridx r)"
    "process_typed env msg r h = process_typed env msg r' h'"
proof -
  from redisReaderGrow_OK [OF assms(1)] obtain ts where ts: "r' = r\<lparr>rd_task := rd_task r @ ts\<rparr>" ..
  have l: "length (rd_task r') = length (rd_task r) + 9" by (rule redisReaderGrow_length [OF assms(1)])
  show v: "reader_view env (r, h) = (r', h')" using assms by (simp add: reader_view_def)
  show "reader_view env (r', h') = (r', h')" using l ts assms(5) by (simp add: reader_view_def)
  show f: "rd_ridx r' = rd_ridx r" "rd_pos r' = rd_pos r" "rd_err r' = 0" using ts assms(2) by simp_all
  show t: "task_at r' (rd_ridx r') = task_at r (rd_ridx r)"
    using ts assms(3,5) by (simp add: nth_append nat_less_iff)
  have "processAggregateItem env msg r h = processAggregateItem env msg r' h'"
    using assms(1,5) l f by (simp add: processAggregateItem_def)
  with assms(4) t show "process_typed env msg r h = process_typed env msg r' h'"
    by (auto simp: process_typed_def Let_def is_container_def)
qed

lemma reader_view_cases [case_names same grown]:
  assumes "reader_view env (r, h) = (r, h) \<Longrightarrow> P"
    and "\<And>r' h'. \<lbrakk>redisReaderGrow env r h = (REDIS_OK, r', h'); rd_err r = 0; 0 \<le> rd_ridx r;
      is_container (t_type (task_at r (rd_ridx r))); rd_ridx r = int (length (rd_task r)) - 1\<rbrakk> \<Longrightarrow> P"
  shows P
proof (cases "rd_err r = 0 \<and> 0 \<le> rd_ridx r \<and> is_container (t_type (task_at r (rd_ridx r))) \<and>
    rd_ridx r = int (length (rd_task r)) - 1")
  case True
  obtain st r' h' where g: "redisReaderGrow env r h = (st, r', h')" by (metis prod_cases3)
  show ?thesis
  proof (cases st)
    case REDIS_OK
    with g True assms(2) show ?thesis by auto
  next
    case REDIS_ERR
    with g True show ?thesis by (intro assms(1)) (simp add: reader_view_def)
  qed
next
  case False
  then show ?thesis by (intro assms(1)) (auto simp: reader_view_def)
qed

lemma SetErrorOOM_err: "redisReaderSetErrorOOM env r h = (r', h') \<Longrightarrow> rd_err r' = 5"
  unfolding redisReaderSetErrorOOM_def using SetError_err [of env 5 "''Out of memory''" r h] by simp

lemma aggregate_object_ERR: "aggregate_object env n r h = Some (REDIS_ERR, r', h') \<Longrightarrow> rd_err r' = 5"
  by (auto simp: aggregate_object_def Let_def bind_eq_Some_conv split: if_splits dest: SetErrorOOM_err)

lemma aggregate_object_not_waits: "\<not> waits (aggregate_object env n r h)"
  by (auto simp: waits_def split: option.split status.split dest!: aggregate_object_ERR)

lemma process_typed_wait:
  assumes "process_typed env msg r h = Some (REDIS_ERR, r', h')" "rd_err r' = 0" "rd_err r = 0" "0 \<le> rd_ridx r"
  shows "reader_view env (r', h') = reader_view env (r, h) \<and> rd_pos r' = rd_pos r \<and> rd_ridx r' = rd_ridx r \<and>
    length (rd_task r) \<le> length (rd_task r')"
proof -
  let ?type = "t_type (task_at r (rd_ridx r))"
  have line: "(r', h') = (r, h)" if h: "processLineItem env msg r h = Some (REDIS_ERR, r', h')"
  proof (cases "readLine msg r")
    case None
    with h show ?thesis by (simp add: processLineItem_def Let_def)
  next
    case (Some pr)
    obtain p r1 where pr: "pr = (p, r1)" by force
    have "\<not> waits (processLineItem env msg r h)"
    proof (cases "line_object env r1 (task_at r (rd_ridx r)) p h")
      case None
      with Some pr show ?thesis by (simp add: processLineItem_def Let_def waits_def)
    next
      case obj: (Some res)
      with Some pr show ?thesis
        by (cases res) (auto simp: processLineItem_def Let_def finish_item_not_waits protocol_error_not_waits)
    qed
    with h assms(2) show ?thesis by (simp add: waits_def)
  qed
  have bulk: "(r', h') = (r, h)" if h: "processBulkItem env msg r h = Some (REDIS_ERR, r', h')"
  proof (cases "seekNewline (drop (rd_pos r) msg) (length msg - rd_pos r)")
    case None
    with h show ?thesis by (simp add: processBulkItem_def Let_def)
  next
    case (Some i)
    have "waits (processBulkItem env msg r h)" using h assms(2) by (simp add: waits_def)
    from processBulkItem_waits [OF this Some] obtain len where
      "string2ll (take i (drop (rd_pos r) msg)) = Some len" "0 \<le> len" "length msg < rd_pos r + (i + 2 + nat len + 2)" by blast
    with h Some show ?thesis unfolding processBulkItem_def Let_def by simp
  qed
  have agg: "reader_view env (r', h') = reader_view env (r, h) \<and> rd_pos r' = rd_pos r \<and> rd_ridx r' = rd_ridx r \<and>
      length (rd_task r) \<le> length (rd_task r')"
    if h: "processAggregateItem env msg r h = Some (REDIS_ERR, r', h')" and c: "is_container ?type"
  proof -
    obtain st r1 h1 where g: "(if rd_ridx r = int (length (rd_task r)) - 1 then redisReaderGrow env r h else (REDIS_OK, r, h)) = (st, r1, h1)"
      by (metis prod_cases3)
    have st: "st = REDIS_OK"
    proof (rule ccontr)
      assume "st \<noteq> REDIS_OK"
      then have "st = REDIS_ERR" "r' = r1" using h g by (cases st; simp add: processAggregateItem_def)+
      with g have "rd_err r' = 5"
        by (auto simp: redisReaderGrow_def split: if_splits prod.splits bool.splits dest: SetErrorOOM_err)
      with assms(2) show False by simp
    qed
    have "rd_err r1 = 0" using g st assms(3) by (auto split: if_splits dest!: redisReaderGrow_OK)
    have "readLine msg r1 = None"
    proof (rule ccontr)
      assume "readLine msg r1 \<noteq> None"
      then obtain p r2 where l: "readLine msg r1 = Some (p, r2)" by auto
      have "\<not> waits (processAggregateItem env msg r h)"
        using l by (auto simp: processAggregateItem_def g st protocol_error_not_waits aggregate_object_not_waits split: option.split)
      with h assms(2) show False by (simp add: waits_def)
    qed
    then have "(r', h') = (r1, h1)" using h by (simp add: processAggregateItem_def g st)
    with g st show ?thesis
      using grow_view [of env r h r1 h1] redisReaderGrow_length [of env r h r1 h1] assms(3,4) c by (auto split: if_splits)
  qed
  show ?thesis
    using assms(1) line bulk agg unfolding process_typed_def Let_def by (auto split: if_splits)
qed

lemma SetErrorProtocolByte_err: "redisReaderSetErrorProtocolByte env c r h = (r', h') \<Longrightarrow> rd_err r' = 4"
  unfolding redisReaderSetErrorProtocolByte_def by (metis SetError_err fst_conv)

lemma read_type_cases:
  assumes "read_type env msg r h = (st, r', h')" "rd_err r = 0"
  shows "(st = REDIS_OK \<and> rd_pos r < length msg \<and> rd_pos r' = rd_pos r + 1 \<and> rd_err r' = 0) \<or>
    (st = REDIS_ERR \<and> rd_err r' \<noteq> 0 \<and> rd_pos r < length msg) \<or>
    (st = REDIS_ERR \<and> (r', h') = (r, h) \<and> length msg \<le> rd_pos r)"
  using assms
  by (auto simp: read_type_def readBytes_def split: if_splits option.splits dest!: SetErrorProtocolByte_err)

lemma read_type_prefix:
  assumes "rd_pos r < length msg"
  shows "read_type env (msg @ t) r h = read_type env msg r h"
    and "rd_pos r < n \<Longrightarrow> read_type env (take n msg) r h = read_type env msg r h"
proof -
  have "take 1 (drop (rd_pos r) (msg @ t)) = take 1 (drop (rd_pos r) msg)" using assms by simp
  then show "read_type env (msg @ t) r h = read_type env msg r h"
    using assms by (simp add: read_type_def readBytes_def)
  assume "rd_pos r < n"
  then have "take 1 (drop (rd_pos r) (take n msg)) = take 1 (drop (rd_pos r) msg)"
    by (simp add: drop_take min_absorb1)
  with \<open>rd_pos r < n\<close> assms show "read_type env (take n msg) r h = read_type env msg r h"
    by (simp add: read_type_def readBytes_def)
qed

lemma turn_result_0: "turn_result s res = (0, t) \<longleftrightarrow> res = Some (REDIS_ERR, t) \<and> rd_err (fst t) = 0"
  by (auto simp: turn_result_def split: option.splits status.splits)

lemma turn_result_pos: "turn_result s res = (c, t) \<and> c > 0 \<longleftrightarrow> c = 1 \<and> res = Some (REDIS_OK, t)"
  by (auto simp: turn_result_def split: option.splits status.splits)

lemma turn_result_neg: "turn_result s res = (c, t) \<Longrightarrow> c < 0 \<Longrightarrow> t = s"
  by (auto simp: turn_result_def split: option.splits status.splits if_splits)

lemma turn_result_waits: "waits res \<longleftrightarrow> fst (turn_result s res) = 0"
  by (auto simp: turn_result_def waits_def split: option.splits status.splits)

lemma rd_step_extend:
  assumes "rd_step env msg s = (c, t)" "c \<noteq> 0" "length (msg @ u) < 2 ^ 31"
  shows "rd_step env (msg @ u) s = (c, t)"
proof -
  obtain r h where s: "s = (r, h)" by force
  show ?thesis
  proof (cases "rd_err r \<noteq> 0 \<or> rd_ridx r < 0")
    case True
    with assms(1) show ?thesis by (auto simp: rd_step_def s Let_def)
  next
    case ok: False
    show ?thesis
    proof (cases "t_type (task_at r (rd_ridx r)) < 0")
      case True
      obtain st r' h' where q: "read_type env msg r h = (st, r', h')" by (metis prod_cases3)
      have "rd_pos r < length msg"
        using read_type_cases [OF q] ok assms(1,2) True q by (auto simp: rd_step_def s Let_def turn_result_def)
      with True ok assms(1) show ?thesis by (simp add: rd_step_def s Let_def read_type_prefix(1))
    next
      case False
      then have "\<not> waits (process_typed env msg r h)"
        using ok assms(1,2) turn_result_waits [of "process_typed env msg r h" s] by (simp add: rd_step_def s Let_def)
      with process_typed_extend [OF _ this assms(3)] ok False assms(1) show ?thesis by (simp add: rd_step_def s Let_def)
    qed
  qed
qed

lemma rd_step_advance:
  assumes "rd_step env msg s = (c, t)" "c > 0"
  shows "rd_pos (fst s) < rd_pos (fst t) \<and> rd_pos (fst t) \<le> length msg"
proof -
  obtain r h where s: "s = (r, h)" by force
  have ok: "rd_err r = 0" "\<not> rd_ridx r < 0" using assms by (auto simp: rd_step_def s Let_def split: if_splits)
  show ?thesis
  proof (cases "t_type (task_at r (rd_ridx r)) < 0")
    case True
    then have "read_type env msg r h = (REDIS_OK, t)"
      using assms ok turn_result_pos [of s "Some (read_type env msg r h)" c t] by (auto simp: rd_step_def s Let_def)
    with read_type_cases [of env msg r h REDIS_OK "fst t" "snd t"] ok show ?thesis by (auto simp: s)
  next
    case False
    then have "process_typed env msg r h = Some (REDIS_OK, t)"
      using assms ok turn_result_pos [of s "process_typed env msg r h" c t] by (auto simp: rd_step_def s Let_def)
    with process_typed_OK [of env msg r h "fst t" "snd t"] show ?thesis by (simp add: s moved_on_def)
  qed
qed

lemma rd_step_local:
  assumes "rd_step env msg s = (c, t)" "c > 0" "rd_pos (fst t) \<le> n" "length msg < 2 ^ 31"
  shows "rd_step env (take n msg) s = (c, t)"
proof -
  obtain r h where s: "s = (r, h)" by force
  have ok: "rd_err r = 0" "\<not> rd_ridx r < 0" using assms by (auto simp: rd_step_def s Let_def split: if_splits)
  have adv: "rd_pos r < rd_pos (fst t)" "rd_pos (fst t) \<le> length msg" using rd_step_advance [OF assms(1,2)] by (auto simp: s)
  show ?thesis
  proof (cases "t_type (task_at r (rd_ridx r)) < 0")
    case True
    with assms ok adv show ?thesis by (simp add: rd_step_def s Let_def read_type_prefix(2))
  next
    case False
    then have "c = 1 \<and> process_typed env msg r h = Some (REDIS_OK, t)"
      using assms ok turn_result_pos [of s "process_typed env msg r h" c t] by (auto simp: rd_step_def s Let_def)
    with process_typed_local [of env msg r h "fst t" "snd t" n] ok assms False show ?thesis
      by (simp add: rd_step_def s Let_def turn_result_def)
  qed
qed

lemma rd_step_wait:
  assumes "rd_step env msg s = (0, t)"
  shows "reader_view env t = reader_view env s \<and> rd_pos (fst t) = rd_pos (fst s) \<and> rd_ridx (fst t) = rd_ridx (fst s)"
proof -
  obtain r h where s: "s = (r, h)" by force
  obtain r' h' where t: "t = (r', h')" by force
  have ok: "rd_err r = 0" "\<not> rd_ridx r < 0" using assms by (auto simp: rd_step_def s Let_def split: if_splits)
  show ?thesis
  proof (cases "t_type (task_at r (rd_ridx r)) < 0")
    case True
    then have "read_type env msg r h = (REDIS_ERR, r', h')" "rd_err r' = 0"
      using assms ok by (auto simp: rd_step_def s t Let_def turn_result_0)
    with read_type_cases [of env msg r h REDIS_ERR r' h'] ok show ?thesis by (auto simp: s t)
  next
    case False
    then have "process_typed env msg r h = Some (REDIS_ERR, r', h')" "rd_err r' = 0"
      using assms ok by (auto simp: rd_step_def s t Let_def turn_result_0)
    with process_typed_wait [of env msg r h r' h'] ok show ?thesis by (auto simp: s t)
  qed
qed

lemma reader_view_idem: "reader_view env (reader_view env s) = reader_view env s"
  and reader_view_frame: "rd_pos (fst (reader_view env s)) = rd_pos (fst s)" "rd_ridx (fst (reader_view env s)) = rd_ridx (fst s)"
proof -
  obtain r h where s: "s = (r, h)" by force
  show "reader_view env (reader_view env s) = reader_view env s"
    "rd_pos (fst (reader_view env s)) = rd_pos (fst s)" "rd_ridx (fst (reader_view env s)) = rd_ridx (fst s)"
    unfolding s by (cases rule: reader_view_cases [of env r h]; simp add: grow_view)+
qed

lemma rd_step_view:
  "fst (rd_step env msg (reader_view env s)) = fst (rd_step env msg s) \<and>
   reader_view env (snd (rd_step env msg (reader_view env s))) = reader_view env (snd (rd_step env msg s))"
proof -
  obtain r h where s: "s = (r, h)" by force
  show ?thesis
    unfolding s
  proof (cases rule: reader_view_cases [of env r h])
    case (grown r' h')
    note g = grow_view [OF grown]
    have nn: "\<not> t_type (task_at r (rd_ridx r)) < 0" using grown(4) by (auto simp: is_container_def)
    have e: "rd_step env msg (r, h) = turn_result (r, h) (process_typed env msg r' h')"
      "rd_step env msg (r', h') = turn_result (r', h') (process_typed env msg r' h')"
      using g grown nn by (simp_all add: rd_step_def Let_def)
    show "fst (rd_step env msg (reader_view env (r, h))) = fst (rd_step env msg (r, h)) \<and>
        reader_view env (snd (rd_step env msg (reader_view env (r, h)))) = reader_view env (snd (rd_step env msg (r, h)))"
      unfolding g(1) e by (auto simp: turn_result_def g(1,2) split: option.split status.split)
  qed simp
qed

text \<open>The loop over turns, on the states the turns have.\<close>

function rd_loop :: "'h reader_env \<Rightarrow> bytes \<Rightarrow> reader \<times> 'h \<Rightarrow> int \<times> reader \<times> 'h" where
  "rd_loop env msg s =
     (case rd_turn env msg s of
        (c, t) \<Rightarrow> if rd_ridx (fst t) < 0 then (1, t) else if c > 0 then rd_loop env msg t else (c, t))"
  by pat_completeness auto
termination
proof (relation "measure (\<lambda>(env, msg, s). length msg - rd_pos (fst s))", goal_cases)
  case (2 env msg s c t)
  then have "rd_step env (take int_limit msg) s = (c, t)" by (simp add: rd_turn_def)
  from rd_step_advance [OF this] 2 show ?case by auto
qed simp

declare rd_loop.simps [simp del]

interpretation reply: resumable_loop "rd_turn env" "rd_loop env" "\<lambda>s. rd_ridx (fst s) < 0" "\<lambda>s. rd_pos (fst s)" "reader_view env"
  for env :: "'h reader_env"
proof
  fix msg u :: bytes and s t :: "reader \<times> 'h" and c :: int and n :: nat
  show "rd_loop env msg s = (case rd_turn env msg s of (c, t) \<Rightarrow>
      if rd_ridx (fst t) < 0 then (1, t) else if 0 < c then rd_loop env msg t else (c, t))"
    by (rule rd_loop.simps)
  show "rd_turn env msg s = (c, t) \<Longrightarrow> 0 < c \<Longrightarrow> rd_pos (fst s) < rd_pos (fst t) \<and> rd_pos (fst t) \<le> length msg"
    using rd_step_advance [of env "take int_limit msg" s c t] by (auto simp: rd_turn_def)
  show "rd_pos (fst t) = rd_pos (fst s) \<and> (rd_ridx (fst t) < 0) = (rd_ridx (fst s) < 0)"
    if h: "rd_turn env msg s = (c, t)" "c \<le> 0"
  proof (cases "c = 0")
    case True
    with h rd_step_wait [of env "take int_limit msg" s t] show ?thesis by (simp add: rd_turn_def)
  next
    case False
    with h have "t = s" by (auto simp: rd_turn_def rd_step_def Let_def split: if_splits dest: turn_result_neg)
    then show ?thesis by simp
  qed
  show "rd_turn env (msg @ u) s = (c, t)" if h: "rd_turn env msg s = (c, t)" "c \<noteq> 0"
  proof -
    have "length (take int_limit msg @ take (int_limit - length msg) u) < 2 ^ 31" by simp
    from rd_step_extend [OF h(1) [unfolded rd_turn_def] h(2) this] show ?thesis by (simp add: rd_turn_def)
  qed
  show "rd_turn env msg s = (0, t) \<Longrightarrow> reader_view env t = reader_view env s"
    using rd_step_wait [of env "take int_limit msg" s t] by (auto simp: rd_turn_def)
  show "fst (rd_turn env msg s) = fst (rd_turn env msg t) \<and>
      reader_view env (snd (rd_turn env msg s)) = reader_view env (snd (rd_turn env msg t))"
    if "reader_view env s = reader_view env t"
    using rd_step_view [of env "take int_limit msg" s] rd_step_view [of env "take int_limit msg" t] that by (simp add: rd_turn_def)
  show "reader_view env s = reader_view env t \<Longrightarrow> (rd_ridx (fst s) < 0) = (rd_ridx (fst t) < 0)"
    using reader_view_frame(2) by metis
  show "reader_view env s = reader_view env t \<Longrightarrow> rd_pos (fst s) = rd_pos (fst t)"
    using reader_view_frame(1) by metis
  show "rd_turn env (take n msg) s = (c, t)" if "rd_turn env msg s = (c, t)" "0 < c" "rd_pos (fst t) \<le> n"
    using rd_step_local [of env "take int_limit msg" s c t n] that by (simp add: rd_turn_def min.commute)
qed

section \<open>The loop of the code\<close>

lemma read_type_frame: "read_type env msg r h = (REDIS_OK, r', h') \<Longrightarrow> same_frame r r' \<and> rd_ridx r' = rd_ridx r"
  by (auto simp: read_type_def readBytes_def split: if_splits option.splits)

lemma reply_type_nonneg: "reply_type_of c = Some type \<Longrightarrow> 0 \<le> type"
  by (auto simp: reply_type_of_def split: if_splits)

lemma read_type_typed:
  "read_type env msg r h = (REDIS_OK, r', h') \<Longrightarrow> nat (rd_ridx r) < length (rd_task r) \<Longrightarrow>
   0 \<le> t_type (task_at r' (rd_ridx r'))"
  by (auto simp: read_type_def readBytes_def split: if_splits option.splits dest: reply_type_nonneg)

definition stack_ok :: "reader \<Rightarrow> bool" where
  "stack_ok r \<longleftrightarrow> -1 \<le> rd_ridx r \<and> rd_ridx r < int (length (rd_task r)) \<and> rd_task r \<noteq> []"

lemma moveToNextTask_ridx: "moveToNextTask r = Some r' \<Longrightarrow> rd_ridx r' \<le> rd_ridx r \<and> (-1 \<le> rd_ridx r \<longrightarrow> -1 \<le> rd_ridx r')"
proof (induction r rule: moveToNextTask.induct)
  case (1 r)
  then show ?case
    by (subst (asm) (2) moveToNextTask.simps) (force simp: Let_def split: if_splits)
qed

lemma moveToNextTask_stack: "moveToNextTask r = Some r' \<Longrightarrow> stack_ok r \<Longrightarrow> stack_ok r'"
  using moveToNextTask_ridx [of r r'] moveToNextTask_frame [of r r'] by (auto simp: stack_ok_def)

lemma finish_item_stack: "finish_item env obj r h = Some (REDIS_OK, r', h') \<Longrightarrow> stack_ok r \<Longrightarrow> stack_ok r'"
  by (auto simp: finish_item_def Let_def bind_eq_Some_conv stack_ok_def split: if_splits
      dest!: moveToNextTask_stack [unfolded stack_ok_def])

lemma processLineItem_stack:
  assumes "processLineItem env msg r h = Some (REDIS_OK, r', h')" "stack_ok r"
  shows "stack_ok r'"
proof -
  obtain p r1 where l: "readLine msg r = Some (p, r1)"
    using assms(1) by (auto simp: processLineItem_def Let_def split: option.splits)
  obtain res where res: "line_object env r1 (task_at r (rd_ridx r)) p h = Some res"
    using assms(1) l by (auto simp: processLineItem_def Let_def bind_eq_Some_conv)
  have "stack_ok r1" using readLine_frame [OF l] assms(2) by (auto simp: stack_ok_def)
  with assms(1) l res show ?thesis
    by (cases res) (auto simp: processLineItem_def Let_def dest: finish_item_stack)
qed

lemma processBulkItem_stack:
  assumes "processBulkItem env msg r h = Some (REDIS_OK, r', h')" "stack_ok r"
  shows "stack_ok r'"
proof -
  obtain i len where i: "seekNewline (drop (rd_pos r) msg) (length msg - rd_pos r) = Some i"
    "string2ll (take i (drop (rd_pos r) msg)) = Some len"
    using processBulkItem_pos [OF assms(1)] by blast
  have st: "stack_ok (r\<lparr>rd_pos := q\<rparr>)" for q using assms(2) by (simp add: stack_ok_def)
  note unf = processBulkItem_def Let_def i option.case
  consider "len < -1" | "len = -1" | "0 \<le> len" by linarith
  then show ?thesis
    using assms unfolding unf
    by cases (auto simp: bind_eq_Some_conv split: if_splits dest!: finish_item_stack intro: st)
qed

lemma aggregate_object_stack:
  assumes "aggregate_object env n r h = Some (REDIS_OK, r', h')" "-1 \<le> rd_ridx r" "rd_ridx r + 1 < int (length (rd_task r))"
  shows "stack_ok r'"
proof -
  have st: "stack_ok r" using assms(2,3) by (auto simp: stack_ok_def)
  have move: "moveToNextTask r = Some q \<Longrightarrow> stack_ok (if c then q\<lparr>rd_reply := v\<rparr> else q)" for q c v
    using moveToNextTask_stack [of r q] st by (simp add: stack_ok_def)
  show ?thesis
  proof (cases "n = -1")
    case True
    with assms move show ?thesis by (fastforce simp: aggregate_object_def Let_def bind_eq_Some_conv split: if_split_asm)
  next
    case False
    define e where "e = (if t_type (task_at r (rd_ridx r)) = REDIS_REPLY_MAP then n * 2 else n)"
    show ?thesis
    proof (cases "e > 0")
      case True
      with assms False show ?thesis
        unfolding aggregate_object_def Let_def e_def [symmetric] by (auto simp: bind_eq_Some_conv stack_ok_def split: if_split_asm)
    next
      case neg: False
      with assms False move show ?thesis
        unfolding aggregate_object_def Let_def e_def [symmetric] by (fastforce simp: bind_eq_Some_conv split: if_split_asm)
    qed
  qed
qed

lemma processAggregateItem_stack:
  assumes "processAggregateItem env msg r h = Some (REDIS_OK, r', h')" "stack_ok r"
  shows "stack_ok r'"
proof -
  obtain r1 h1 where g: "(if rd_ridx r = int (length (rd_task r)) - 1 then redisReaderGrow env r h else (REDIS_OK, r, h)) = (REDIS_OK, r1, h1)"
    using assms(1) by (auto simp: processAggregateItem_def split: prod.splits status.splits)
  then have r1: "-1 \<le> rd_ridx r1 \<and> rd_ridx r1 + 1 < int (length (rd_task r1))"
    using redisReaderGrow_length [of env r h r1 h1] assms(2)
    by (auto simp: stack_ok_def split: if_splits dest!: redisReaderGrow_OK)
  obtain p r2 where l: "readLine msg r1 = Some (p, r2)"
    using assms(1) by (cases "readLine msg r1") (auto simp: processAggregateItem_def g)
  then have "-1 \<le> rd_ridx r2" "rd_ridx r2 + 1 < int (length (rd_task r2))" using readLine_frame [OF l] r1 by auto
  then show ?thesis
    using assms(1) l by (auto simp: processAggregateItem_def g split: option.splits if_splits dest: aggregate_object_stack)
qed

lemma process_typed_stack:
  "process_typed env msg r h = Some (REDIS_OK, r', h') \<Longrightarrow> stack_ok r \<Longrightarrow> stack_ok r'"
  by (auto simp: process_typed_def Let_def split: if_splits
      dest: processLineItem_stack processBulkItem_stack processAggregateItem_stack)

definition loop_agrees :: "int \<times> reader \<times> 'h \<Rightarrow> (reader \<times> 'h) option \<Rightarrow> bool" where
  "loop_agrees ct res \<longleftrightarrow>
     (if fst ct \<ge> 0 then res = Some (snd ct) \<and> rd_err (fst (snd ct)) = 0
      else if fst ct = -2 then res = None
      else fst ct = -1 \<and> (\<exists>t. res = Some t \<and> rd_err (fst t) \<noteq> 0))"

lemma process_loop_turns:
  "rd_err r = 0 \<Longrightarrow> 0 \<le> rd_ridx r \<Longrightarrow> stack_ok r \<Longrightarrow> length msg < 2 ^ 31 \<Longrightarrow>
   loop_agrees (rd_loop env msg (r, h)) (process_loop env msg r h)"
proof (induction "length msg - rd_pos r" arbitrary: r h rule: less_induct)
  case less
  have tk: "rd_turn env msg s = rd_step env msg s" for s :: "reader \<times> 'a" using less.prems(4) by (simp add: rd_turn_def)
  have ok: "\<not> (rd_err r \<noteq> 0 \<or> rd_ridx r < 0)" using less.prems by simp
  show ?case
  proof (cases "t_type (task_at r (rd_ridx r)) < 0")
    case True
    obtain st r1 h1 where q: "read_type env msg r h = (st, r1, h1)" by (metis prod_cases3)
    have step: "rd_step env msg (r, h) = turn_result (r, h) (Some (st, r1, h1))"
      using True ok q by (simp add: rd_step_def Let_def)
    show ?thesis
    proof (cases st)
      case REDIS_OK
      have r1: "rd_err r1 = 0" "0 \<le> rd_ridx r1" "rd_pos r < rd_pos r1" "rd_pos r < length msg" "0 \<le> t_type (task_at r1 (rd_ridx r1))"
        "stack_ok r1"
        using read_type_cases [OF q] read_type_frame [of env msg r h r1 h1] read_type_typed [of env msg r h r1 h1] q REDIS_OK less.prems
        by (auto simp: stack_ok_def nat_less_iff read_type_def readBytes_def split: if_splits option.splits)
      have "processItem env msg r h = processItem env msg r1 h1"
        using True q REDIS_OK r1(5) by (simp add: processItem_def)
      then have "process_loop env msg r h = process_loop env msg r1 h1"
        using less.prems(2) r1(2) by (simp add: process_loop.simps [of env msg r h] process_loop.simps [of env msg r1 h1])
      moreover have "rd_loop env msg (r, h) = rd_loop env msg (r1, h1)"
        using step REDIS_OK r1(2) by (subst rd_loop.simps) (simp add: tk turn_result_def)
      ultimately show ?thesis using less.hyps [of r1 h1] r1 less.prems(4) by simp
    next
      case REDIS_ERR
      then have "process_loop env msg r h = Some (r1, h1)"
        using True q less.prems(2) by (simp add: process_loop.simps [of env msg r h] processItem_def)
      then show ?thesis
        using step REDIS_ERR ok read_type_cases [OF q]
        by (subst rd_loop.simps) (auto simp: tk turn_result_def loop_agrees_def)
    qed
  next
    case False
    then have step: "rd_step env msg (r, h) = turn_result (r, h) (process_typed env msg r h)"
      using ok by (simp add: rd_step_def Let_def)
    have item: "processItem env msg r h = process_typed env msg r h" using False by (simp add: processItem_def)
    show ?thesis
    proof (cases "process_typed env msg r h")
      case None
      then show ?thesis
        using step item less.prems(2)
        by (subst rd_loop.simps) (simp add: tk turn_result_def loop_agrees_def process_loop.simps [of env msg r h])
    next
      case (Some res)
      obtain st r1 h1 where res: "res = (st, r1, h1)" by (metis prod_cases3)
      show ?thesis
      proof (cases st)
        case REDIS_OK
        with Some res have ok1: "process_typed env msg r h = Some (REDIS_OK, r1, h1)" by simp
        have m: "moved_on msg r r1" "stack_ok r1" using process_typed_OK [OF ok1] process_typed_stack [OF ok1 less.prems(3)] by auto
        have pl: "process_loop env msg r h = process_loop env msg r1 h1"
          using less.prems(2) item ok1 by (simp add: process_loop.simps [of env msg r h])
        have e1: "rd_err r1 = 0" using m less.prems(1) by (simp add: moved_on_def same_frame_def)
        show ?thesis
        proof (cases "rd_ridx r1 < 0")
          case True
          then have "process_loop env msg r1 h1 = Some (r1, h1)" by (simp add: process_loop.simps)
          with pl True step ok1 e1 show ?thesis by (subst rd_loop.simps) (simp add: tk turn_result_def loop_agrees_def)
        next
          case nf: False
          then have "rd_loop env msg (r, h) = rd_loop env msg (r1, h1)"
            using step ok1 by (subst rd_loop.simps) (simp add: tk turn_result_def)
          with pl less.hyps [of r1 h1] nf m e1 less.prems(4) show ?thesis by (auto simp: moved_on_def)
        qed
      next
        case REDIS_ERR
        with Some res have er: "process_typed env msg r h = Some (REDIS_ERR, r1, h1)" by simp
        then have "process_loop env msg r h = Some (r1, h1)"
          using less.prems(2) item by (simp add: process_loop.simps [of env msg r h])
        moreover have "rd_err r1 = 0 \<Longrightarrow> rd_ridx r1 = rd_ridx r" using process_typed_wait [OF er] less.prems by simp
        ultimately show ?thesis
          using step er ok by (subst rd_loop.simps) (auto simp: tk turn_result_def loop_agrees_def)
      qed
    qed
  qed
qed
end
