(* ===== verification/ReaderPieces.thy ===== *)
theory ReaderPieces
  imports ReaderResume
begin

text \<open>
  Feeding a reply in pieces. Between two calls the reader may drop the bytes it has used from the
  buffer, so that the same reply is read at another offset of another buffer; the handlers do not
  see the difference. With the contract of the incremental loops this gives the behaviour of
  \<open>redisReaderFeed\<close> and \<open>redisReaderGetReply\<close> on any cut of the input.
\<close>

section \<open>Another offset, another buffer\<close>

definition rebuf :: "nat \<Rightarrow> sds option \<Rightarrow> nat \<Rightarrow> reader \<Rightarrow> reader" where
  "rebuf k b l r = r\<lparr>rd_pos := rd_pos r + k, rd_buf := b, rd_len := l\<rparr>"

lemma rebuf_fields [simp]:
  "rd_err (rebuf k b l r) = rd_err r" "rd_errstr (rebuf k b l r) = rd_errstr r" "rd_buf (rebuf k b l r) = b"
  "rd_pos (rebuf k b l r) = rd_pos r + k" "rd_len (rebuf k b l r) = l" "rd_maxbuf (rebuf k b l r) = rd_maxbuf r"
  "rd_maxelements (rebuf k b l r) = rd_maxelements r" "rd_task (rebuf k b l r) = rd_task r"
  "rd_ridx (rebuf k b l r) = rd_ridx r" "rd_reply (rebuf k b l r) = rd_reply r"
  by (simp_all add: rebuf_def)

lemma rebuf_update:
  "(rebuf k b l r)\<lparr>rd_task := ts\<rparr> = rebuf k b l (r\<lparr>rd_task := ts\<rparr>)"
  "(rebuf k b l r)\<lparr>rd_ridx := i\<rparr> = rebuf k b l (r\<lparr>rd_ridx := i\<rparr>)"
  "(rebuf k b l r)\<lparr>rd_reply := v\<rparr> = rebuf k b l (r\<lparr>rd_reply := v\<rparr>)"
  "(rebuf k b l r)\<lparr>rd_pos := n + k\<rparr> = rebuf k b l (r\<lparr>rd_pos := n\<rparr>)"
  by (simp_all add: rebuf_def)

text \<open>An error resets the buffer, so that nothing is left to move.\<close>

definition rebuf_out :: "nat \<Rightarrow> sds option \<Rightarrow> nat \<Rightarrow> (status \<times> reader \<times> 'h) option \<Rightarrow> (status \<times> reader \<times> 'h) option" where
  "rebuf_out k b l = map_option (\<lambda>(st, r, h). (st, if st = REDIS_ERR \<and> rd_err r \<noteq> 0 then r else rebuf k b l r, h))"

lemma rebuf_out_simps [simp]:
  "rebuf_out k b l None = None"
  "rebuf_out k b l (Some (REDIS_OK, r, h)) = Some (REDIS_OK, rebuf k b l r, h)"
  "rd_err r = 0 \<Longrightarrow> rebuf_out k b l (Some (REDIS_ERR, r, h)) = Some (REDIS_ERR, rebuf k b l r, h)"
  "rd_err r \<noteq> 0 \<Longrightarrow> rebuf_out k b l (Some (REDIS_ERR, r, h)) = Some (REDIS_ERR, r, h)"
  by (simp_all add: rebuf_out_def)

lemma SetError_rebuf: "redisReaderSetError env type str (rebuf k b l r) h = redisReaderSetError env type str r h"
  by (simp add: redisReaderSetError_def rebuf_def split: option.split)

lemma error_rebuf:
  assumes "type \<noteq> 0"
  shows "rebuf_out k b l (Some (REDIS_ERR, redisReaderSetError env type str r h)) = Some (REDIS_ERR, redisReaderSetError env type str (rebuf k b l r) h)"
  using SetError_err [of env type str r h] assms
  by (cases "redisReaderSetError env type str r h") (simp add: SetError_rebuf)

lemma moveToNextTask_rebuf: "moveToNextTask (rebuf k b l r) = map_option (rebuf k b l) (moveToNextTask r)"
proof (induction r rule: moveToNextTask.induct)
  case (1 r)
  show ?case
  proof (cases "rd_ridx r \<le> 0")
    case True
    then show ?thesis by (auto simp: moveToNextTask.simps [of r] moveToNextTask.simps [of "rebuf k b l r"] rebuf_update)
  next
    case False
    with 1 show ?thesis
      by (subst (1 2) moveToNextTask.simps) (auto simp: Let_def rebuf_update)
  qed
qed

lemma finish_item_rebuf: "finish_item env obj (rebuf k b l r) h = rebuf_out k b l (finish_item env obj r h)"
proof (cases "obj = 0")
  case True
  then show ?thesis using error_rebuf [of 5 k b l env] by (simp add: finish_item_def redisReaderSetErrorOOM_def)
next
  case False
  define q where "q = (if rd_ridx r = 0 then r\<lparr>rd_reply := obj\<rparr> else r)"
  have "(if rd_ridx r = 0 then (rebuf k b l r)\<lparr>rd_reply := obj\<rparr> else rebuf k b l r) = rebuf k b l q"
    by (simp add: q_def rebuf_update)
  with False show ?thesis
    by (cases "moveToNextTask q") (simp_all add: finish_item_def Let_def moveToNextTask_rebuf flip: q_def)
qed

lemma parent_obj_rebuf [simp]: "parent_obj (rebuf k b l r) = parent_obj r"
  by (simp add: parent_obj_def fun_eq_iff)

lemma line_object_rebuf [simp]: "line_object env (rebuf k b l r) = line_object env r"
  by (simp add: line_object_def fun_eq_iff)

lemma readLine_rebuf:
  "length pre = k \<Longrightarrow> readLine (pre @ msg) (rebuf k b l r) = map_option (\<lambda>(p, r). (p, rebuf k b l r)) (readLine msg r)"
  by (auto simp: readLine_def rebuf_def add.commute split: option.split)

lemma readLine_err: "readLine msg r = Some (p, r1) \<Longrightarrow> rd_err r1 = rd_err r"
  using readLine_frame [of msg r p r1] by auto

lemma processLineItem_rebuf:
  assumes "rd_err r = 0" "length pre = k"
  shows "processLineItem env (pre @ msg) (rebuf k b l r) h = rebuf_out k b l (processLineItem env msg r h)"
proof (cases "readLine msg r")
  case None
  with assms show ?thesis by (simp add: processLineItem_def Let_def readLine_rebuf)
next
  case (Some pr)
  obtain p r1 where pr: "pr = (p, r1)" by force
  show ?thesis
  proof (cases "line_object env r1 (task_at r (rd_ridx r)) p h")
    case None
    with Some pr assms show ?thesis by (simp add: processLineItem_def Let_def readLine_rebuf)
  next
    case obj: (Some res)
    show ?thesis
      using Some pr assms obj error_rebuf [of 4 k b l env]
      by (cases res) (auto simp: processLineItem_def Let_def readLine_rebuf finish_item_rebuf)
  qed
qed

lemma bind_finish_rebuf:
  "do { (obj, h) \<leftarrow> x; finish_item env obj (rebuf k b l (g obj)) h } =
   rebuf_out k b l (do { (obj, h) \<leftarrow> x; finish_item env obj (g obj) h })"
  by (cases x) (auto simp: finish_item_rebuf)

lemma rebuf_advance:
  "(if c then rebuf k b l r else (rebuf k b l r)\<lparr>rd_pos := rd_pos (rebuf k b l r) + s + 2\<rparr>) =
   rebuf k b l (if c then r else r\<lparr>rd_pos := rd_pos r + s + 2\<rparr>)"
  "(if c then rebuf k b l r else (rebuf k b l r)\<lparr>rd_pos := rd_pos (rebuf k b l r) + n\<rparr>) =
   rebuf k b l (if c then r else r\<lparr>rd_pos := rd_pos r + n\<rparr>)"
  by (simp_all add: rebuf_def add.commute add.left_commute)

lemma processBulkItem_rebuf:
  assumes "rd_err r = 0" "length pre = k"
  shows "processBulkItem env (pre @ msg) (rebuf k b l r) h = rebuf_out k b l (processBulkItem env msg r h)"
proof -
  have d: "drop (rd_pos r + k) (pre @ msg) = drop (rd_pos r) msg" "length (pre @ msg) - (rd_pos r + k) = length msg - rd_pos r"
    using assms(2) by (simp_all add: add.commute)
  have fit: "rd_pos r + k + n \<le> length (pre @ msg) \<longleftrightarrow> rd_pos r + n \<le> length msg" for n
    using assms(2) by auto
  note unf = processBulkItem_def Let_def rebuf_fields d
  show ?thesis
  proof (cases "seekNewline (drop (rd_pos r) msg) (length msg - rd_pos r)")
    case None
    with assms(1) show ?thesis unfolding unf by simp
  next
    case (Some s)
    show ?thesis
    proof (cases "string2ll (take s (drop (rd_pos r) msg))")
      case None
      show ?thesis unfolding unf Some option.case None using error_rebuf [of 4 k b l env] by simp
    next
      case len: (Some len)
      have a: "(if c then rebuf k b l r else (rebuf k b l r)\<lparr>rd_pos := rd_pos r + k + s + 2\<rparr>) = rebuf k b l (if c then r else r\<lparr>rd_pos := rd_pos r + s + 2\<rparr>)"
        "(if c then rebuf k b l r else (rebuf k b l r)\<lparr>rd_pos := rd_pos r + k + n\<rparr>) = rebuf k b l (if c then r else r\<lparr>rd_pos := rd_pos r + n\<rparr>)" for c n
        using rebuf_advance [of c k b l r] by simp_all
      show ?thesis
        unfolding unf Some option.case len a bind_finish_rebuf fit parent_obj_rebuf
        using error_rebuf [of 4 k b l env] assms(1) by (auto split: if_split)
    qed
  qed
qed

lemma add_tasks_rebuf:
  "add_tasks env n (rebuf k b l r) h = (case add_tasks env n r h of (ok, r, h) \<Rightarrow> (ok, rebuf k b l r, h))"
  by (induction n arbitrary: r h) (auto simp: rebuf_update split: prod.split bool.split)

lemma redisReaderGrow_rebuf:
  "redisReaderGrow env (rebuf k b l r) h =
   (case redisReaderGrow env r h of (st, r, h) \<Rightarrow> (st, if st = REDIS_OK then rebuf k b l r else r, h))"
  by (auto simp: redisReaderGrow_def add_tasks_rebuf redisReaderSetErrorOOM_def SetError_rebuf split: prod.split bool.split)

lemma redisReaderGrow_ERR: "redisReaderGrow env r h = (REDIS_ERR, r', h') \<Longrightarrow> rd_err r' = 5"
  by (auto simp: redisReaderGrow_def split: prod.splits bool.splits dest: SetErrorOOM_err)

lemma oom_rebuf:
  "rebuf_out k b l (Some (REDIS_ERR, redisReaderSetErrorOOM env r h)) = Some (REDIS_ERR, redisReaderSetErrorOOM env (rebuf k b l r) h)"
  using error_rebuf [of 5 k b l env] by (simp add: redisReaderSetErrorOOM_def)

lemma aggregate_object_rebuf:
  "aggregate_object env n (rebuf k b l r) h = rebuf_out k b l (aggregate_object env n r h)"
proof -
  have root: "(if c then (rebuf k b l q)\<lparr>rd_reply := v\<rparr> else rebuf k b l q) = rebuf k b l (if c then q\<lparr>rd_reply := v\<rparr> else q)" for c q v
    by (simp add: rebuf_update)
  have move: "do { q \<leftarrow> moveToNextTask (rebuf k b l r); Some (REDIS_OK, if c then q\<lparr>rd_reply := v\<rparr> else q, h) } =
      rebuf_out k b l (do { q \<leftarrow> moveToNextTask r; Some (REDIS_OK, if c then q\<lparr>rd_reply := v\<rparr> else q, h) })" for c v and h :: 'a
    by (cases "moveToNextTask r") (simp_all add: moveToNextTask_rebuf root)
  have cons: "do { (obj, h) \<leftarrow> x; if obj = 0 then Some (REDIS_ERR, redisReaderSetErrorOOM env (rebuf k b l r) h) else f obj h } =
      rebuf_out k b l (do { (obj, h) \<leftarrow> x; if obj = 0 then Some (REDIS_ERR, redisReaderSetErrorOOM env r h) else g obj h })"
    if "\<And>obj h. f obj h = rebuf_out k b l (g obj h)" for x :: "(obj \<times> 'a) option" and f g
    using that oom_rebuf [of k b l env r] by (cases x) auto
  show ?thesis
  proof (cases "n = -1")
    case True
    show ?thesis unfolding aggregate_object_def Let_def rebuf_fields parent_obj_rebuf
      using True move by (simp add: cons)
  next
    case False
    define e where "e = (if t_type (task_at r (rd_ridx r)) = REDIS_REPLY_MAP then n * 2 else n)"
    show ?thesis
    proof (cases "e > 0")
      case True
      show ?thesis unfolding aggregate_object_def Let_def rebuf_fields parent_obj_rebuf e_def [symmetric]
        using False True by (simp add: cons rebuf_update)
    next
      case neg: False
      then have ne: "\<not> 2 ^ 63 \<le> e" by simp
      show ?thesis
        unfolding aggregate_object_def Let_def rebuf_fields parent_obj_rebuf e_def [symmetric]
          if_not_P [OF False] if_not_P [OF ne] if_not_P [OF neg]
        by (rule cons, rule move)
    qed
  qed
qed

lemma processAggregateItem_rebuf:
  assumes "rd_err r = 0" "length pre = k"
  shows "processAggregateItem env (pre @ msg) (rebuf k b l r) h = rebuf_out k b l (processAggregateItem env msg r h)"
proof -
  obtain st r1 h1 where g: "(if rd_ridx r = int (length (rd_task r)) - 1 then redisReaderGrow env r h else (REDIS_OK, r, h)) = (st, r1, h1)"
    by (metis prod_cases3)
  then have g': "(if rd_ridx r = int (length (rd_task r)) - 1 then redisReaderGrow env (rebuf k b l r) h else (REDIS_OK, rebuf k b l r, h))
      = (st, if st = REDIS_OK then rebuf k b l r1 else r1, h1)"
    by (auto simp: redisReaderGrow_rebuf split: if_splits)
  show ?thesis
  proof (cases st)
    case REDIS_ERR
    then have "rd_err r1 \<noteq> 0" using g by (auto split: if_splits dest: redisReaderGrow_ERR)
    then show ?thesis unfolding processAggregateItem_def rebuf_fields g g' by (simp add: REDIS_ERR)
  next
    case REDIS_OK
    have e: "rd_err r1 = 0" using g REDIS_OK assms(1) by (auto split: if_splits dest!: redisReaderGrow_OK)
    show ?thesis
    proof (cases "readLine msg r1")
      case None
      with e show ?thesis
        unfolding processAggregateItem_def rebuf_fields g g' by (simp add: REDIS_OK readLine_rebuf assms(2))
    next
      case (Some pr)
      obtain p r2 where pr: "pr = (p, r2)" by force
      show ?thesis
        unfolding processAggregateItem_def rebuf_fields g g'
        using Some pr error_rebuf [of 4 k b l env]
        by (cases "string2ll p") (simp_all add: REDIS_OK readLine_rebuf assms(2) aggregate_object_rebuf)
    qed
  qed
qed

lemma process_typed_rebuf:
  assumes "rd_err r = 0" "length pre = k"
  shows "process_typed env (pre @ msg) (rebuf k b l r) h = rebuf_out k b l (process_typed env msg r h)"
  unfolding process_typed_def Let_def rebuf_fields
  by (simp add: processLineItem_rebuf processBulkItem_rebuf processAggregateItem_rebuf assms)

lemma read_type_rebuf:
  assumes "rd_err r = 0" "length pre = k"
  shows "Some (read_type env (pre @ msg) (rebuf k b l r) h) = rebuf_out k b l (Some (read_type env msg r h))"
proof -
  have d: "readBytes (pre @ msg) (rebuf k b l r) 1 = map_option (\<lambda>(p, r). (p, rebuf k b l r)) (readBytes msg r 1)"
    using assms(2) by (auto simp: readBytes_def rebuf_def add.commute)
  show ?thesis
  proof (cases "readBytes msg r 1")
    case None
    with d assms(1) show ?thesis by (simp add: read_type_def)
  next
    case (Some pr)
    obtain p r1 where pr: "pr = (p, r1)" by force
    show ?thesis
      using d Some pr error_rebuf [of 4 k b l env]
      by (cases "reply_type_of (hd p)") (simp_all add: read_type_def redisReaderSetErrorProtocolByte_def rebuf_update)
  qed
qed

abbreviation rebuf_state :: "nat \<Rightarrow> sds option \<Rightarrow> nat \<Rightarrow> reader \<times> 'h \<Rightarrow> reader \<times> 'h" where
  "rebuf_state k b l \<equiv> apfst (rebuf k b l)"

lemma turn_result_rebuf:
  "turn_result (rebuf_state k b l s) (rebuf_out k b l res) = apsnd (rebuf_state k b l) (turn_result s res)"
  by (cases res) (auto simp: turn_result_def rebuf_out_def split: status.split)

lemma rd_step_rebuf:
  assumes "length pre = k"
  shows "rd_step env (pre @ msg) (rebuf_state k b l s) = apsnd (rebuf_state k b l) (rd_step env msg s)"
proof (cases "rd_err (fst s) \<noteq> 0 \<or> rd_ridx (fst s) < 0")
  case True
  then show ?thesis by (auto simp: rd_step_def Let_def)
next
  case False
  then show ?thesis
    using turn_result_rebuf [of k b l s]
    by (auto simp: rd_step_def Let_def read_type_rebuf process_typed_rebuf assms)
qed

lemma rd_loop_rebuf:
  assumes "length pre = k" "length (pre @ msg) < 2 ^ 31"
  shows "rd_loop env (pre @ msg) (rebuf_state k b l s) = apsnd (rebuf_state k b l) (rd_loop env msg s)"
proof (induction s rule: reply.loop_induct [of env msg])
  case (turn s)
  have tk: "take int_limit (pre @ msg) = pre @ msg" "take int_limit msg = msg" using assms(2) by auto
  obtain c t where ct: "rd_turn env msg s = (c, t)" by (cases "rd_turn env msg s")
  have "rd_turn env (pre @ msg) (rebuf_state k b l s) = (c, rebuf_state k b l t)"
    using rd_step_rebuf [OF assms(1), of env msg b l s] ct by (simp only: rd_turn_def tk) simp
  then show ?case
    using turn.IH [OF ct] ct by (simp add: rd_loop.simps [of env "pre @ msg" "rebuf_state k b l s"] rd_loop.simps [of env msg s])
qed

lemma reader_view_rebuf: "reader_view env (rebuf_state k b l s) = rebuf_state k b l (reader_view env s)"
proof -
  obtain st r1 h1 where "redisReaderGrow env (fst s) (snd s) = (st, r1, h1)" by (metis prod_cases3)
  then show ?thesis
    by (cases s; cases st) (auto simp: reader_view_def redisReaderGrow_rebuf Let_def)
qed

section \<open>What the loop keeps\<close>

text \<open>Below the root the reply object is set; the stack is within its bounds.\<close>

definition reader_ok :: "reader \<Rightarrow> bool" where
  "reader_ok r \<longleftrightarrow> rd_err r = 0 \<and> stack_ok r \<and> (rd_ridx r > 0 \<longrightarrow> rd_reply r \<noteq> 0)"

lemma finish_item_reply:
  "finish_item env obj r h = Some (REDIS_OK, r', h') \<Longrightarrow> rd_ridx r \<noteq> 0 \<longrightarrow> rd_reply r \<noteq> 0 \<Longrightarrow> rd_reply r' \<noteq> 0"
  by (auto simp: finish_item_def Let_def bind_eq_Some_conv split: if_splits dest!: moveToNextTask_frame)

lemma processLineItem_reply:
  assumes "processLineItem env msg r h = Some (REDIS_OK, r', h')" "rd_ridx r \<noteq> 0 \<longrightarrow> rd_reply r \<noteq> 0"
  shows "rd_reply r' \<noteq> 0"
proof -
  obtain p r1 where l: "readLine msg r = Some (p, r1)"
    using assms(1) by (auto simp: processLineItem_def Let_def split: option.splits)
  obtain res where res: "line_object env r1 (task_at r (rd_ridx r)) p h = Some res"
    using assms(1) l by (auto simp: processLineItem_def Let_def bind_eq_Some_conv)
  have "rd_ridx r1 \<noteq> 0 \<longrightarrow> rd_reply r1 \<noteq> 0" using readLine_frame [OF l] assms(2) by auto
  with assms(1) l res show ?thesis
    by (cases res) (auto simp: processLineItem_def Let_def dest: finish_item_reply)
qed

lemma bind_finish_reply:
  "do { (obj, h) \<leftarrow> x; finish_item env obj (if obj = 0 then r else r\<lparr>rd_pos := p\<rparr>) h } = Some (REDIS_OK, r', h') \<Longrightarrow>
   rd_ridx r \<noteq> 0 \<longrightarrow> rd_reply r \<noteq> 0 \<Longrightarrow> rd_reply r' \<noteq> 0"
  by (cases x) (auto dest!: finish_item_reply split: if_splits)

lemma processBulkItem_reply:
  assumes "processBulkItem env msg r h = Some (REDIS_OK, r', h')" "rd_ridx r \<noteq> 0 \<longrightarrow> rd_reply r \<noteq> 0"
  shows "rd_reply r' \<noteq> 0"
proof -
  obtain i len where i: "seekNewline (drop (rd_pos r) msg) (length msg - rd_pos r) = Some i"
    "string2ll (take i (drop (rd_pos r) msg)) = Some len"
    using processBulkItem_pos [OF assms(1)] by blast
  note fin = bind_finish_reply [OF _ assms(2)]
  note unf = processBulkItem_def Let_def i option.case
  consider "len < -1" | "len = -1" | "0 \<le> len" by linarith
  then show ?thesis
    using assms(1) unfolding unf
    by cases (auto split: if_split_asm dest: fin)
qed

lemma aggregate_object_reply:
  assumes "aggregate_object env n r h = Some (REDIS_OK, r', h')" "rd_ridx r \<noteq> 0 \<longrightarrow> rd_reply r \<noteq> 0"
  shows "rd_reply r' \<noteq> 0"
proof -
  have bind: "rd_reply r' \<noteq> 0"
    if run: "do { (obj, h) \<leftarrow> x; if obj = 0 then Some (REDIS_ERR, redisReaderSetErrorOOM env r h)
          else do { r \<leftarrow> f obj; Some (REDIS_OK, if rd_ridx rr = 0 then r\<lparr>rd_reply := obj\<rparr> else r, h) } } = Some (REDIS_OK, r', h')"
      and step: "\<And>obj q. f obj = Some q \<Longrightarrow> rd_reply q = rd_reply r" and idx: "rd_ridx rr = rd_ridx r"
    for x :: "(obj \<times> 'a) option" and f rr
  proof -
    obtain obj h1 where x: "x = Some (obj, h1)" using run by (cases x) auto
    with run have o: "obj \<noteq> 0" by (auto split: if_splits)
    obtain q where q: "f obj = Some q" using run x o by (cases "f obj") auto
    have "r' = (if rd_ridx rr = 0 then q\<lparr>rd_reply := obj\<rparr> else q)" using run x o q by simp
    with step [OF q] idx o assms(2) show ?thesis by simp
  qed
  have move: "moveToNextTask r = Some q \<Longrightarrow> rd_reply q = rd_reply r" for q
    using moveToNextTask_frame by blast
  define e where "e = (if t_type (task_at r (rd_ridx r)) = REDIS_REPLY_MAP then n * 2 else n)"
  show ?thesis
  proof (cases "n = -1")
    case True
    show ?thesis
      using assms(1) unfolding aggregate_object_def Let_def if_P [OF True]
      by (rule bind [where rr = r]) (auto dest: move)
  next
    case False
    have lt: "\<not> 2 ^ 63 \<le> e"
      using assms(1) False unfolding aggregate_object_def Let_def e_def [symmetric] by auto
    show ?thesis
      using assms(1) unfolding aggregate_object_def Let_def e_def [symmetric] if_not_P [OF False] if_not_P [OF lt]
      by (rule bind [where rr = r]) (auto split: if_split_asm dest: move)
  qed
qed

lemma processAggregateItem_reply:
  assumes "processAggregateItem env msg r h = Some (REDIS_OK, r', h')" "rd_ridx r \<noteq> 0 \<longrightarrow> rd_reply r \<noteq> 0"
  shows "rd_reply r' \<noteq> 0"
proof -
  obtain r1 h1 where g: "(if rd_ridx r = int (length (rd_task r)) - 1 then redisReaderGrow env r h else (REDIS_OK, r, h)) = (REDIS_OK, r1, h1)"
    using assms(1) by (auto simp: processAggregateItem_def split: prod.splits status.splits)
  then have r1: "rd_ridx r1 \<noteq> 0 \<longrightarrow> rd_reply r1 \<noteq> 0" using assms(2) by (auto split: if_splits dest!: redisReaderGrow_OK)
  obtain p r2 where l: "readLine msg r1 = Some (p, r2)"
    using assms(1) by (cases "readLine msg r1") (auto simp: processAggregateItem_def g)
  then have "rd_ridx r2 \<noteq> 0 \<longrightarrow> rd_reply r2 \<noteq> 0" using readLine_frame [OF l] r1 by auto
  then show ?thesis
    using assms(1) l by (auto simp: processAggregateItem_def g split: option.splits if_splits dest: aggregate_object_reply)
qed

lemma process_typed_reply:
  "process_typed env msg r h = Some (REDIS_OK, r', h') \<Longrightarrow> rd_ridx r \<noteq> 0 \<longrightarrow> rd_reply r \<noteq> 0 \<Longrightarrow> rd_reply r' \<noteq> 0"
  by (auto simp: process_typed_def Let_def split: if_splits
      dest: processLineItem_reply processBulkItem_reply processAggregateItem_reply)

lemma view_reply: "rd_reply (fst (reader_view env s)) = rd_reply (fst s) \<and> rd_err (fst (reader_view env s)) = rd_err (fst s)"
proof -
  obtain r h where s: "s = (r, h)" by force
  show ?thesis
    unfolding s
  proof (cases rule: reader_view_cases [of env r h])
    case (grown r' h')
    with grow_view(1) [OF grown] redisReaderGrow_OK [OF grown(1)]
    show "rd_reply (fst (reader_view env (r, h))) = rd_reply (fst (r, h)) \<and> rd_err (fst (reader_view env (r, h))) = rd_err (fst (r, h))"
      by auto
  qed simp
qed

lemma rd_step_wait_stack:
  assumes "rd_step env msg (r, h) = (0, (r', h'))" "stack_ok r"
  shows "stack_ok r'"
proof -
  have ok: "rd_err r = 0" "\<not> rd_ridx r < 0" using assms by (auto simp: rd_step_def Let_def split: if_splits)
  show ?thesis
  proof (cases "t_type (task_at r (rd_ridx r)) < 0")
    case True
    then have "read_type env msg r h = (REDIS_ERR, r', h')" "rd_err r' = 0"
      using assms ok by (auto simp: rd_step_def Let_def turn_result_0)
    with read_type_cases [of env msg r h REDIS_ERR r' h'] ok assms(2) show ?thesis by auto
  next
    case False
    then have "process_typed env msg r h = Some (REDIS_ERR, r', h')" "rd_err r' = 0"
      using assms ok by (auto simp: rd_step_def Let_def turn_result_0)
    with process_typed_wait [of env msg r h r' h'] ok assms(2) show ?thesis by (auto simp: stack_ok_def)
  qed
qed

lemma rd_step_ok:
  assumes step: "rd_step env msg (r, h) = (c, (r', h'))" and c: "c \<ge> 0" and ok: "reader_ok r"
  shows "reader_ok r' \<and> (rd_ridx r' < 0 \<longrightarrow> rd_reply r' \<noteq> 0)"
proof -
  have idx: "rd_ridx r \<ge> 0" using step c by (auto simp: rd_step_def Let_def split: if_splits)
  have r: "rd_err r = 0" "stack_ok r" "rd_ridx r \<noteq> 0 \<longrightarrow> rd_reply r \<noteq> 0" using ok idx by (auto simp: reader_ok_def)
  show ?thesis
  proof (cases "c = 0")
    case True
    with rd_step_wait [of env msg "(r, h)" "(r', h')"] rd_step_wait_stack [of env msg r h r' h'] step r idx
      view_reply [of env "(r, h)"] view_reply [of env "(r', h')"]
    show ?thesis by (auto simp: reader_ok_def)
  next
    case False
    with c have pos: "c > 0" by simp
    show ?thesis
    proof (cases "t_type (task_at r (rd_ridx r)) < 0")
      case True
      then have q: "read_type env msg r h = (REDIS_OK, r', h')"
        using step pos r idx turn_result_pos [of "(r, h)" "Some (read_type env msg r h)" c "(r', h')"]
        by (auto simp: rd_step_def Let_def)
      from read_type_frame [OF q] r idx q show ?thesis
        by (auto simp: reader_ok_def same_frame_def read_type_def readBytes_def stack_ok_def split: if_splits option.splits)
    next
      case False
      then have q: "process_typed env msg r h = Some (REDIS_OK, r', h')"
        using step pos r idx turn_result_pos [of "(r, h)" "process_typed env msg r h" c "(r', h')"]
        by (auto simp: rd_step_def Let_def)
      from process_typed_reply [OF q r(3)] process_typed_stack [OF q r(2)] process_typed_OK [OF q] r(1)
      show ?thesis by (simp add: reader_ok_def moved_on_def same_frame_def)
    qed
  qed
qed

lemma rd_loop_ok:
  "rd_loop env msg s = (c, t) \<Longrightarrow> c \<ge> 0 \<Longrightarrow> reader_ok (fst s) \<Longrightarrow> rd_ridx (fst s) \<ge> 0 \<Longrightarrow>
   reader_ok (fst t) \<and> (rd_ridx (fst t) < 0 \<longrightarrow> rd_reply (fst t) \<noteq> 0)"
proof (induction s rule: reply.loop_induct [of env msg])
  case (turn s)
  obtain q u where qu: "rd_turn env msg s = (q, u)" by (cases "rd_turn env msg s")
  have step: "rd_step env (take int_limit msg) (fst s, snd s) = (q, (fst u, snd u))" using qu by (simp add: rd_turn_def)
  have neg: "q < 0 \<Longrightarrow> u = s" using qu by (auto simp: rd_turn_def rd_step_def Let_def split: if_splits dest: turn_result_neg)
  have q: "q \<ge> 0"
    using turn.prems(1,2,4) qu neg by (cases "q \<ge> 0") (auto simp: rd_loop.simps [of env msg s])
  note ok = rd_step_ok [OF step q turn.prems(3)]
  show ?case
  proof (cases "q > 0 \<and> \<not> rd_ridx (fst u) < 0")
    case True
    then have "rd_loop env msg u = (c, t)" using turn.prems(1) qu by (simp add: rd_loop.simps [of env msg s])
    with turn.IH [OF qu] True ok turn.prems(2) show ?thesis by simp
  next
    case False
    then have "t = u" using turn.prems(1) qu by (auto simp: rd_loop.simps [of env msg s] split: if_splits)
    with ok show ?thesis by simp
  qed
qed

section \<open>One feed and one attempt\<close>

definition arm :: "reader \<Rightarrow> reader" where
  "arm r = (if rd_ridx r = -1 then set_task 0 (fresh_task None (-1)) r\<lparr>rd_ridx := 0\<rparr> else r)"

text \<open>A reader whose buffer holds the bytes \<open>bs\<close>.\<close>

definition holds :: "reader \<Rightarrow> bytes \<Rightarrow> bool" where
  "holds r bs \<longleftrightarrow> reader_ok r \<and> rd_pos r \<le> length bs \<and> rd_len r = length bs \<and>
     (\<exists>b. rd_buf r = Some b \<and> sds_ok b \<and> content b = bs)"

lemma arm_ok: "reader_ok r \<Longrightarrow> reader_ok (arm r) \<and> rd_ridx (arm r) \<ge> 0"
  by (auto simp: arm_def reader_ok_def stack_ok_def)

lemma arm_rebuf: "arm (rebuf k b l r) = rebuf k b l (arm r)"
  by (simp add: arm_def rebuf_update)

lemma feed_holds:
  assumes h: "holds r bs" and m: "willing m" and len: "length bs + length p < 2 ^ 31" and p: "p \<noteq> []"
  shows "\<exists>r' m'. redisReaderFeed env r (Some p) (length p) m h = Some (REDIS_OK, r', m', h) \<and> willing m' \<and>
    holds r' (bs @ p) \<and> rebuf 0 None 0 r' = rebuf 0 None 0 r"
proof -
  obtain b where b: "rd_buf r = Some b" "sds_ok b" "content b = bs" "rd_err r = 0" "sdslen b = length bs" "rd_len r = length bs"
    using h length_content by (fastforce simp: holds_def reader_ok_def)
  have p1: "0 < length p" using p by simp
  have cat: "\<exists>s m'. sdscatlen c p (length p) q = Some (Some s, m') \<and> willing m' \<and> sds_ok s \<and> content s = bs @ p"
    if "sds_ok c" "content c = bs" "willing q" for c q
  proof -
    have "sdslen c + length p < 2 ^ 63" using that len length_content [of c] by simp
    from delivers_willing [OF sdscatlen_ok [OF that(1) this order_refl] that(3)] that(2) show ?thesis by auto
  qed
  show ?thesis
  proof (cases "rd_len r = 0 \<and> rd_maxbuf r \<noteq> 0 \<and> sdsavail b > rd_maxbuf r")
    case True
    then have nil: "bs = []" "rd_pos r = 0" using b h by (auto simp: holds_def)
    from delivers_willing [OF sdsempty_ok m] obtain c q where
      c: "sdsempty m = Some (Some c, q)" "willing q" "sds_ok c" "content c = bs" using nil by auto
    from cat [OF c(3,4,2)] obtain s m' where "sdscatlen c p (length p) q = Some (Some s, m')" "willing m'" "sds_ok s" "content s = bs @ p"
      by blast
    moreover from this have "0 < sdslen s" using length_content [of s] p1 by (simp del: length_greater_0_conv)
    ultimately show ?thesis
      using True c(1) b nil p1 h length_content [of s]
      by (auto simp: redisReaderFeed_def Let_def holds_def rebuf_def reader_ok_def stack_ok_def Suc_le_eq)
  next
    case False
    from cat [OF b(2,3) m] obtain s m' where "sdscatlen b p (length p) m = Some (Some s, m')" "willing m'" "sds_ok s" "content s = bs @ p"
      by blast
    moreover from this have "0 < sdslen s" using length_content [of s] p1 by (simp del: length_greater_0_conv)
    ultimately show ?thesis
      using False b p1 h length_content [of s]
      by (auto simp: redisReaderFeed_def Let_def holds_def rebuf_def reader_ok_def stack_ok_def Suc_le_eq)
  qed
qed

lemma subrange_tail: "subrange (int n) (-1) xs = drop n xs"
  by (cases xs) (auto simp: subrange_def Let_def nat_diff_distrib')

lemma rd_loop_frame:
  assumes "rd_loop env msg s = (c, t)" "length msg < 2 ^ 31"
  shows "rd_buf (fst t) = rd_buf (fst s) \<and> rd_len (fst t) = rd_len (fst s)"
proof -
  have "rebuf_state 0 (rd_buf (fst s)) (rd_len (fst s)) s = s" by (cases s) (simp add: rebuf_def)
  with rd_loop_rebuf [of "[]" 0 msg env "rd_buf (fst s)" "rd_len (fst s)" s] assms
  have "t = rebuf_state 0 (rd_buf (fst s)) (rd_len (fst s)) t" by simp
  then show ?thesis by (metis fst_apfst rebuf_fields(3,5))
qed

text \<open>
  What \<open>redisReaderGetReply\<close> does, by the code of the loop on the same bytes. When it waits it
  may have dropped \<open>n\<close> bytes.
\<close>

lemma get_reply_loop:
  assumes h: "holds r bs" and ne: "bs \<noteq> []" and len: "length bs < 2 ^ 31"
    and loop: "rd_loop env bs (arm r, h) = (c, (t, h'))"
  shows "c = 1 \<Longrightarrow> rd_reply t \<noteq> 0 \<and> (\<exists>r'. redisReaderGetReply env r h = Some (REDIS_OK, rd_reply t, r', h'))"
    and "c = 0 \<Longrightarrow> \<exists>r' n. redisReaderGetReply env r h = Some (REDIS_OK, 0, r', h') \<and> n \<le> length bs \<and>
      holds r' (drop n bs) \<and> rd_ridx r' \<ge> 0 \<and> rebuf n None 0 r' = rebuf 0 None 0 t"
    and "c = -1 \<Longrightarrow> \<exists>r' h'. redisReaderGetReply env r h = Some (REDIS_ERR, 0, r', h')"
    and "c = -2 \<Longrightarrow> redisReaderGetReply env r h = None"
    and "c \<in> {1, 0, -1, -2}"
proof -
  obtain b where b: "rd_buf r = Some b" "sds_ok b" "content b = bs" "rd_err r = 0" "sdslen b = length bs" "rd_len r = length bs"
    using h length_content by (fastforce simp: holds_def reader_ok_def)
  have arm: "reader_ok (arm r)" "rd_ridx (arm r) \<ge> 0" using arm_ok h by (auto simp: holds_def)
  have buf: "take (rd_len (arm r)) (buf b) = bs" using b by (simp add: arm_def content_def)
  have ag: "loop_agrees (c, (t, h')) (process_loop env bs (arm r) h)"
    using process_loop_turns [of "arm r" bs env h] arm len loop by (simp add: reader_ok_def)
  have get: "redisReaderGetReply env r h = do {
      (r, h) \<leftarrow> process_loop env bs (arm r) h;
      if rd_err r \<noteq> 0 then Some (REDIS_ERR, 0, r, h)
      else do {
        (ret, r) \<leftarrow>
          (if rd_pos r \<ge> 1024
           then do {
             (ret, b) \<leftarrow> sdsrange b (int (rd_pos r)) (-1);
             Some (ret, if ret < 0 then r else r\<lparr>rd_buf := Some b, rd_pos := 0, rd_len := sdslen b\<rparr>) }
           else Some (0, r));
        if ret < 0 then Some (REDIS_ERR, 0, r, h)
        else if rd_ridx r = -1 then Some (REDIS_OK, rd_reply r, r\<lparr>rd_reply := 0\<rparr>, h)
        else Some (REDIS_OK, 0, r, h) } }"
    using b ne buf unfolding redisReaderGetReply_def Let_def arm_def [symmetric] by (simp add: buf)
  show "c = -1 \<Longrightarrow> \<exists>r' h'. redisReaderGetReply env r h = Some (REDIS_ERR, 0, r', h')"
    using ag by (auto simp: get loop_agrees_def)
  show "c = -2 \<Longrightarrow> redisReaderGetReply env r h = None"
    using ag by (auto simp: get loop_agrees_def)
  show "c \<in> {1, 0, -1, -2}"
    using ag reply.loop_pos [OF loop] by (auto simp: loop_agrees_def split: if_splits)
  have pos: "rd_pos t \<le> length bs"
    using reply.loop_off [OF loop] h by (simp add: holds_def arm_def split: if_splits)
  note fr = rd_loop_frame [OF loop len]
  obtain b' where b': "sdsrange b (int (rd_pos t)) (-1) = Some (0, b')" "sds_ok b'" "content b' = drop (rd_pos t) bs"
    using sdsrange_ok [of b "int (rd_pos t)" "-1"] b pos len by (auto simp: subrange_tail)
  have len': "sdslen b' = length bs - rd_pos t" using length_content [OF b'(2)] b'(3) by simp
  define r2 where "r2 = (if rd_pos t \<ge> 1024 then t\<lparr>rd_buf := Some b', rd_pos := 0, rd_len := sdslen b'\<rparr> else t)"
  have go: "redisReaderGetReply env r h = (if rd_ridx t = -1 then Some (REDIS_OK, rd_reply t, r2\<lparr>rd_reply := 0\<rparr>, h')
      else Some (REDIS_OK, 0, r2, h'))" if "c \<ge> 0"
    using that ag b'(1) by (auto simp: get loop_agrees_def r2_def)
  have ok: "reader_ok t" "rd_ridx t < 0 \<longrightarrow> rd_reply t \<noteq> 0" if "c \<ge> 0"
    using rd_loop_ok [OF loop that] arm by auto
  show "rd_reply t \<noteq> 0 \<and> (\<exists>r'. redisReaderGetReply env r h = Some (REDIS_OK, rd_reply t, r', h'))" if "c = 1"
  proof -
    have "rd_ridx t < 0" using reply.loop_pos [OF loop] that by simp
    with ok that go show ?thesis by (simp add: reader_ok_def stack_ok_def)
  qed
  show "\<exists>r' n. redisReaderGetReply env r h = Some (REDIS_OK, 0, r', h') \<and> n \<le> length bs \<and>
      holds r' (drop n bs) \<and> rd_ridx r' \<ge> 0 \<and> rebuf n None 0 r' = rebuf 0 None 0 t" if "c = 0"
  proof -
    have idx: "\<not> rd_ridx t < 0" using reply.loop_wait [of env bs "(arm r, h)" "(t, h')"] loop that arm by simp
    then have g: "redisReaderGetReply env r h = Some (REDIS_OK, 0, r2, h')" using go that by simp
    have tk: "rd_buf t = Some b" "rd_len t = length bs" using fr b by (auto simp: arm_def)
    show ?thesis
    proof (cases "rd_pos t \<ge> 1024")
      case True
      with g idx ok that b' len' pos show ?thesis
        by (intro exI [of _ r2] exI [of _ "rd_pos t"]) (simp add: r2_def holds_def rebuf_def reader_ok_def stack_ok_def)
    next
      case False
      with g idx ok that b tk pos show ?thesis
        by (intro exI [of _ r2] exI [of _ 0]) (auto simp: r2_def holds_def rebuf_def)
    qed
  qed
qed

section \<open>Any cut of the input\<close>

text \<open>
  Reading a reply that comes in pieces: each piece is fed and a reply asked for, until there is a
  reply or an error. The memory answers are threaded through.
\<close>

datatype 'h outcome = Reply obj 'h | Waiting | Failed | Undefined

fun read_pieces :: "'h reader_env \<Rightarrow> reader \<Rightarrow> bytes list \<Rightarrow> memory \<Rightarrow> 'h \<Rightarrow> 'h outcome" where
  "read_pieces env r [] m h = Waiting"
| "read_pieces env r (p # ps) m h =
     (case redisReaderFeed env r (Some p) (length p) m h of
        None \<Rightarrow> Undefined
      | Some (REDIS_ERR, _) \<Rightarrow> Failed
      | Some (REDIS_OK, r, m, h) \<Rightarrow>
          (case redisReaderGetReply env r h of
             None \<Rightarrow> Undefined
           | Some (REDIS_ERR, _) \<Rightarrow> Failed
           | Some (REDIS_OK, obj, r, h) \<Rightarrow> if obj \<noteq> 0 then Reply obj h else read_pieces env r ps m h))"

definition loop_outcome :: "int \<times> reader \<times> 'h \<Rightarrow> 'h outcome" where
  "loop_outcome ct =
     (case ct of (c, t, h) \<Rightarrow>
        if c = 1 then Reply (rd_reply t) h else if c = 0 then Waiting else if c = -1 then Failed else Undefined)"

text \<open>After some pieces without a reply, the reader continues as if it had read all of \<open>full\<close>.\<close>

definition tracks :: "'h reader_env \<Rightarrow> bytes \<Rightarrow> reader \<times> 'h \<Rightarrow> reader \<Rightarrow> 'h \<Rightarrow> bool" where
  "tracks env full s r h \<longleftrightarrow>
     (\<exists>pre bs. full = pre @ bs \<and> holds r bs \<and>
        (\<forall>u. length (full @ u) < 2 ^ 31 \<longrightarrow>
           fst (rd_loop env (full @ u) (rebuf (length pre) None 0 (arm r), h)) = fst (rd_loop env (full @ u) s) \<and>
           reader_view env (snd (rd_loop env (full @ u) (rebuf (length pre) None 0 (arm r), h))) =
           reader_view env (snd (rd_loop env (full @ u) s))))"

lemma reader_view_idle: "rd_ridx (fst s) < 0 \<Longrightarrow> reader_view env s = s"
  by (simp add: reader_view_def Let_def)

lemma tracks_round:
  assumes tr: "tracks env full s r h" and len: "length (full @ p) < 2 ^ 31" and p: "p \<noteq> []" and m: "willing m"
  shows "case redisReaderFeed env r (Some p) (length p) m h of
      Some (REDIS_OK, r', m', h1) \<Rightarrow> willing m' \<and>
        (let out = loop_outcome (rd_loop env (full @ p) s) in
         case redisReaderGetReply env r' h1 of
           None \<Rightarrow> out = Undefined
         | Some (REDIS_ERR, _) \<Rightarrow> out = Failed
         | Some (REDIS_OK, obj, r2, h2) \<Rightarrow>
             if obj \<noteq> 0 then out = Reply obj h2 else out = Waiting \<and> tracks env (full @ p) s r2 h2)
    | _ \<Rightarrow> False"
proof -
  obtain pre bs where full: "full = pre @ bs" and hold: "holds r bs" and
    same: "\<And>u. length (full @ u) < 2 ^ 31 \<Longrightarrow>
      fst (rd_loop env (full @ u) (rebuf (length pre) None 0 (arm r), h)) = fst (rd_loop env (full @ u) s) \<and>
      reader_view env (snd (rd_loop env (full @ u) (rebuf (length pre) None 0 (arm r), h))) =
      reader_view env (snd (rd_loop env (full @ u) s))"
    using tr by (auto simp: tracks_def)
  have l1: "length bs + length p < 2 ^ 31" using len full by simp
  obtain r1 m1 where feed: "redisReaderFeed env r (Some p) (length p) m h = Some (REDIS_OK, r1, m1, h)" "willing m1"
      "holds r1 (bs @ p)" "rebuf 0 None 0 r1 = rebuf 0 None 0 r"
    using feed_holds [OF hold m l1 p, of env h] by blast
  have re: "rebuf k None 0 r1 = rebuf k None 0 r" for k
    using arg_cong [OF feed(4), of "rebuf k None 0"] by (simp add: rebuf_def)
  obtain c t h' where loop: "rd_loop env (bs @ p) (arm r1, h) = (c, t, h')" by (metis prod_cases3)
  let ?k = "length pre"
  have whole: "rd_loop env (full @ p) (rebuf ?k None 0 (arm r), h) = (c, rebuf ?k None 0 t, h')"
    using rd_loop_rebuf [of pre ?k "bs @ p" env None 0 "(arm r1, h)"] loop len full re [of ?k]
    by (simp add: arm_rebuf [symmetric])
  obtain c' t' h'' where sl: "rd_loop env (full @ p) s = (c', t', h'')" by (metis prod_cases3)
  have view: "c' = c" "reader_view env (rebuf ?k None 0 t, h') = reader_view env (t', h'')"
    using same [OF len] whole sl by simp_all
  note get = get_reply_loop [OF feed(3) _ _ loop, unfolded length_append, OF _ l1]
  have ne: "bs @ p \<noteq> []" using p by simp
  note get = get [OF ne]
  from get(5) consider "c = 1" | "c = 0" | "c = -1" | "c = -2" by blast
  then show ?thesis
  proof cases
    case 1
    have fin: "rd_ridx t < 0" using reply.loop_pos [OF loop] 1 by simp
    moreover have "rd_ridx t' < 0" using reply.loop_pos [OF sl] view(1) 1 by simp
    ultimately have "(t', h'') = (rebuf ?k None 0 t, h')" using view(2) by (simp add: reader_view_idle)
    with get(1) 1 feed sl view(1) show ?thesis by (auto simp: loop_outcome_def)
  next
    case 2
    obtain r2 n where g: "redisReaderGetReply env r1 h = Some (REDIS_OK, 0, r2, h')" "n \<le> length (bs @ p)"
        "holds r2 (drop n (bs @ p))" "rd_ridx r2 \<ge> 0" "rebuf n None 0 r2 = rebuf 0 None 0 t"
      using get(2) 2 by auto
    have arm2: "arm r2 = r2" using g(4) by (simp add: arm_def)
    have re2: "rebuf (?k + n) None 0 r2 = rebuf ?k None 0 t"
      using arg_cong [OF g(5), of "rebuf ?k None 0"] by (simp add: rebuf_def ac_simps)
    have nf: "\<not> rd_ridx (fst (rebuf ?k None 0 (arm r), h)) < 0"
      using arm_ok [of r] hold by (simp add: holds_def)
    have "tracks env (full @ p) s r2 h'"
      unfolding tracks_def
    proof (intro exI conjI allI impI)
      show "full @ p = (pre @ take n (bs @ p)) @ drop n (bs @ p)" using full by (simp only: append_assoc append_take_drop_id)
      show "holds r2 (drop n (bs @ p))" by (rule g(3))
      fix u assume lu: "length ((full @ p) @ u) < 2 ^ 31"
      have k: "length (pre @ take n (bs @ p)) = ?k + n" using g(2) by simp
      note w = reply.loop_wait [OF whole [unfolded 2] nf, of u]
      show "fst (rd_loop env ((full @ p) @ u) (rebuf (length (pre @ take n (bs @ p))) None 0 (arm r2), h')) = fst (rd_loop env ((full @ p) @ u) s)"
        and "reader_view env (snd (rd_loop env ((full @ p) @ u) (rebuf (length (pre @ take n (bs @ p))) None 0 (arm r2), h'))) =
          reader_view env (snd (rd_loop env ((full @ p) @ u) s))"
        using w same [of "p @ u"] lu unfolding k arm2 re2 by simp_all
    qed
    with g(1) 2 feed sl view(1) show ?thesis by (simp add: loop_outcome_def)
  next
    case 3
    with get(3) feed sl view(1) show ?thesis by (auto simp: loop_outcome_def)
  next
    case 4
    with get(4) feed sl view(1) show ?thesis by (auto simp: loop_outcome_def)
  qed
qed

lemma read_pieces_loop:
  "tracks env full s r h \<Longrightarrow> length (full @ concat ps) < 2 ^ 31 \<Longrightarrow> [] \<notin> set ps \<Longrightarrow> willing m \<Longrightarrow> ps \<noteq> [] \<Longrightarrow>
   rd_ridx (fst s) \<ge> 0 \<Longrightarrow>
   read_pieces env r ps m h = loop_outcome (rd_loop env (full @ concat ps) s)"
proof (induction ps arbitrary: full r m h)
  case (Cons p ps)
  have len: "length (full @ p) < 2 ^ 31" "p \<noteq> []" using Cons.prems by auto
  obtain r1 m1 h1 where feed: "redisReaderFeed env r (Some p) (length p) m h = Some (REDIS_OK, r1, m1, h1)" "willing m1"
    using tracks_round [OF Cons.prems(1) len Cons.prems(4)] by (auto split: option.splits prod.splits status.splits)
  note round = tracks_round [OF Cons.prems(1) len Cons.prems(4), unfolded feed option.case prod.case status.case Let_def, THEN conjunct2]
  obtain c t h' where loop: "rd_loop env (full @ p) s = (c, t, h')" by (metis prod_cases3)
  have stable: "rd_loop env (full @ p @ concat ps) s = (c, t, h')" if "loop_outcome (c, t, h') \<noteq> Waiting"
    using reply.loop_extend [OF loop, of "concat ps"] that Cons.prems(6) by (simp add: loop_outcome_def split: if_splits)
  show ?case
  proof (cases "redisReaderGetReply env r1 h1")
    case None
    with round loop stable feed show ?thesis by simp
  next
    case (Some res)
    obtain st obj r2 h2 where res: "res = (st, obj, r2, h2)" by (metis prod_cases4)
    show ?thesis
    proof (cases "st = REDIS_OK \<and> obj = 0")
      case True
      then have wait: "loop_outcome (rd_loop env (full @ p) s) = Waiting" "tracks env (full @ p) s r2 h2"
        using round Some res by auto
      show ?thesis
      proof (cases "ps = []")
        case True
        with wait feed Some res \<open>st = REDIS_OK \<and> obj = 0\<close> show ?thesis by simp
      next
        case False
        with Cons.IH [OF wait(2) _ _ feed(2) False] Cons.prems feed Some res \<open>st = REDIS_OK \<and> obj = 0\<close>
        show ?thesis by simp
      qed
    next
      case False
      with round loop stable feed Some res show ?thesis by (cases st) auto
    qed
  qed
qed simp

lemma read_pieces_whole:
  assumes "holds r bs" "rd_ridx r = -1" "willing m" "willing m'"
    and "[] \<notin> set ps" "ps \<noteq> []" "length bs + length (concat ps) < 2 ^ 31"
  shows "read_pieces env r ps m h = read_pieces env r [concat ps] m' h"
proof -
  define s where "s = (rebuf 0 None 0 (arm r), h)"
  have tr: "tracks env bs s r h"
    unfolding tracks_def s_def using assms(1) by (intro exI [of _ "[]"] exI [of _ bs]) auto
  have idx: "rd_ridx (fst s) \<ge> 0" using arm_ok assms(1) by (simp add: s_def holds_def)
  have ne: "concat ps \<noteq> []" using assms(5,6) by (cases ps) auto
  have "read_pieces env r ps m h = loop_outcome (rd_loop env (bs @ concat ps) s)"
    using read_pieces_loop [OF tr _ assms(5,3,6) idx] assms(7) by simp
  moreover have "read_pieces env r [concat ps] m' h = loop_outcome (rd_loop env (bs @ concat ps) s)"
    using read_pieces_loop [OF tr _ _ assms(4) _ idx, of "[concat ps]"] assms(7) ne by simp
  ultimately show ?thesis by simp
qed

text \<open>C4: A reply that arrives in pieces, cut anywhere, with an attempt to fetch it after each piece,
  is read like the same bytes fed at once: the same reply object in the same store, or in both
  cases nothing yet, an error, or undefined behaviour. This holds for every table of constructors
  and although the reader drops used bytes from its buffer between the calls.\<close>

theorem reader_in_pieces:
  assumes "holds r bs" "rd_ridx r = -1" "willing m" "willing m'"
    and "[] \<notin> set ps" "ps \<noteq> []" "length bs + length (concat ps) < 2 ^ 31"
  shows "read_pieces env r ps m h = read_pieces env r [concat ps] m' h"
  using assms by (rule read_pieces_whole)

text \<open>Witness: a status line in two pieces, with a table without constructors.\<close>

definition demo_reader :: reader where
  "demo_reader = \<lparr>rd_err = 0, rd_errstr = [],
     rd_buf = Some \<lparr>sds_type = SDS_TYPE_8, used = 0, cap = 0, buf = [NUL]\<rparr>, rd_pos = 0, rd_len = 0,
     rd_maxbuf = REDIS_READER_MAX_BUF, rd_maxelements = REDIS_READER_MAX_ARRAY_ELEMENTS,
     rd_task = replicate REDIS_READER_STACK_SIZE blank_task, rd_ridx = -1, rd_reply = 0\<rparr>"

definition bare_env :: "unit reader_env" where
  "bare_env = \<lparr>fn = \<lparr>createString = None, createArray = None, createInteger = None, createDouble = None,
     createNil = None, createBool = None, freeObject = None\<rparr>, strtod = (\<lambda>_. (0, 0)), hi_alloc = (\<lambda>h. (True, h))\<rparr>"

theorem reader_in_pieces_witness:
  "read_pieces bare_env demo_reader [''+O'', ''K'' @ [CR], [LF]] [] () = read_pieces bare_env demo_reader [''+OK'' @ [CR, LF]] [] ()"
proof -
  have "holds demo_reader []"
    by (simp add: holds_def reader_ok_def stack_ok_def demo_reader_def sds_ok_def sds_room_def content_def sdslen_def sdsalloc_def)
  then have "read_pieces bare_env demo_reader [''+O'', ''K'' @ [CR], [LF]] [] () =
      read_pieces bare_env demo_reader [concat [''+O'', ''K'' @ [CR], [LF]]] [] ()"
    by (rule reader_in_pieces) (simp_all add: demo_reader_def willing_def)
  then show ?thesis by simp
qed

end
