(* ===== verification/ReplyObjects.thy ===== *)
theory ReplyObjects
  imports ReaderPieces
begin

text \<open>
  The default reply objects (\<open>hiredis.c\<close>): the structures \<open>redisReply\<close> in a store, the constructors
  that the reader calls, and the release of a reply. The wire format of a reply value, and what it
  means that an object of the store represents a value.
\<close>

section \<open>The store of reply objects\<close>

text \<open>\<open>rp_str\<close> is the block of the string with its terminator, \<open>rp_element\<close> the vector of elements.\<close>

record redisReply =
  rp_type :: int
  rp_integer :: int
  rp_dval :: double
  rp_len :: nat
  rp_str :: "bytes option"
  rp_vtype :: bytes
  rp_elements :: nat
  rp_element :: "obj list option"

text \<open>
  Addresses are handed out in increasing order. \<open>hs_answers\<close> are the answers of the allocator to
  the next requests (it agrees to all later ones). \<open>hs_fault\<close> is set when a block is used that is
  not allocated.
\<close>

record store =
  hs_objs :: "obj \<rightharpoonup> redisReply"
  hs_next :: obj
  hs_answers :: "bool list"
  hs_fault :: bool

definition store_alloc :: "store \<Rightarrow> bool \<times> store" where
  "store_alloc h = (case hs_answers h of [] \<Rightarrow> (True, h) | ok # as \<Rightarrow> (ok, h\<lparr>hs_answers := as\<rparr>))"

definition blank_reply :: "int \<Rightarrow> redisReply" where
  "blank_reply type = \<lparr>rp_type = type, rp_integer = 0, rp_dval = 0, rp_len = 0, rp_str = None,
     rp_vtype = replicate 4 NUL, rp_elements = 0, rp_element = None\<rparr>"

definition createReplyObject :: "int \<Rightarrow> store \<Rightarrow> obj \<times> store" where
  "createReplyObject type h =
     (case store_alloc h of
        (False, h) \<Rightarrow> (0, h)
      | (True, h) \<Rightarrow> (hs_next h, h\<lparr>hs_objs := (hs_objs h)(hs_next h \<mapsto> blank_reply type), hs_next := hs_next h + 1\<rparr>))"

definition set_reply :: "obj \<Rightarrow> (redisReply \<Rightarrow> redisReply) \<Rightarrow> store \<Rightarrow> store" where
  "set_reply a f h = h\<lparr>hs_objs := (hs_objs h)(a := map_option f (hs_objs h a))\<rparr>"

text \<open>
  The recursion of \<open>freeReplyObject\<close> goes from an object to objects created after it, so that the
  number of the next address bounds its depth.
\<close>

fun free_obj :: "nat \<Rightarrow> obj \<Rightarrow> store \<Rightarrow> store" where
  "free_obj 0 a h = h\<lparr>hs_fault := True\<rparr>"
| "free_obj (Suc n) a h =
     (if a = 0 then h
      else case hs_objs h a of
        None \<Rightarrow> h\<lparr>hs_fault := True\<rparr>
      | Some r \<Rightarrow>
          let h = (if is_container (rp_type r)
                   then case rp_element r of
                          None \<Rightarrow> h
                        | Some es \<Rightarrow>
                            if rp_elements r \<le> length es then fold (free_obj n) (take (rp_elements r) es) h
                            else h\<lparr>hs_fault := True\<rparr>
                   else h)
          in h\<lparr>hs_objs := (hs_objs h)(a := None)\<rparr>)"

definition freeReplyObject :: "obj \<Rightarrow> store \<Rightarrow> store" where
  "freeReplyObject a h = free_obj (hs_next h + 1) a h"

section \<open>The constructors\<close>

text \<open>The end of each constructor: \<open>parent->element[task->idx] = r\<close>, after the assertion on the type
  of the parent.\<close>

definition link_parent :: "int set \<Rightarrow> read_task \<Rightarrow> obj option \<Rightarrow> obj \<Rightarrow> store \<Rightarrow> (obj \<times> store) option" where
  "link_parent kinds task par a h =
     (case par of
        None \<Rightarrow> Some (a, h)
      | Some p \<Rightarrow> do {
          r \<leftarrow> hs_objs h p;
          es \<leftarrow> rp_element r;
          if rp_type r \<in> kinds \<and> 0 \<le> t_idx task \<and> t_idx task < int (length es)
          then Some (a, set_reply p (\<lambda>r. r\<lparr>rp_element := Some (es[nat (t_idx task) := a])\<rparr>) h)
          else None })"

abbreviation (input) any_container :: "int set" where
  "any_container \<equiv> {REDIS_REPLY_ARRAY, REDIS_REPLY_MAP, REDIS_REPLY_SET, REDIS_REPLY_PUSH}"
abbreviation (input) no_push :: "int set" where
  "no_push \<equiv> {REDIS_REPLY_ARRAY, REDIS_REPLY_MAP, REDIS_REPLY_SET}"

text \<open>The reader calls the constructor for a verbatim string with at least four bytes.\<close>

definition createStringObject :: "read_task \<Rightarrow> obj option \<Rightarrow> bytes \<Rightarrow> store \<Rightarrow> (obj \<times> store) option" where
  "createStringObject task par str h =
     (case createReplyObject (t_type task) h of
        (a, h) \<Rightarrow>
          if a = 0 then Some (0, h)
          else if t_type task \<notin> {REDIS_REPLY_ERROR, REDIS_REPLY_STATUS, REDIS_REPLY_STRING, REDIS_REPLY_VERB}
            \<or> t_type task = REDIS_REPLY_VERB \<and> length str < 4 then None
          else case store_alloc h of
            (False, h) \<Rightarrow> Some (0, freeReplyObject a h)
          | (True, h) \<Rightarrow>
              link_parent any_container task par a
                (if t_type task = REDIS_REPLY_VERB
                 then set_reply a (\<lambda>r. r\<lparr>rp_vtype := take 3 str @ [NUL], rp_len := length str - 4, rp_str := Some (drop 4 str @ [NUL])\<rparr>) h
                 else set_reply a (\<lambda>r. r\<lparr>rp_len := length str, rp_str := Some (str @ [NUL])\<rparr>) h))"

definition createArrayObject :: "read_task \<Rightarrow> obj option \<Rightarrow> nat \<Rightarrow> store \<Rightarrow> (obj \<times> store) option" where
  "createArrayObject task par elements h =
     (case createReplyObject (t_type task) h of
        (a, h) \<Rightarrow>
          if a = 0 then Some (0, h)
          else case (if elements > 0 then store_alloc h else (True, h)) of
            (False, h) \<Rightarrow> Some (0, freeReplyObject a h)
          | (True, h) \<Rightarrow>
              link_parent any_container task par a
                (set_reply a (\<lambda>r. r\<lparr>rp_elements := elements,
                   rp_element := if elements > 0 then Some (replicate elements 0) else None\<rparr>) h))"

definition createIntegerObject :: "read_task \<Rightarrow> obj option \<Rightarrow> int \<Rightarrow> store \<Rightarrow> (obj \<times> store) option" where
  "createIntegerObject task par v h =
     (case createReplyObject REDIS_REPLY_INTEGER h of
        (a, h) \<Rightarrow>
          if a = 0 then Some (0, h)
          else link_parent any_container task par a (set_reply a (\<lambda>r. r\<lparr>rp_integer := v\<rparr>) h))"

definition createDoubleObject :: "read_task \<Rightarrow> obj option \<Rightarrow> double \<Rightarrow> bytes \<Rightarrow> store \<Rightarrow> (obj \<times> store) option" where
  "createDoubleObject task par v str h =
     (case createReplyObject REDIS_REPLY_DOUBLE h of
        (a, h) \<Rightarrow>
          if a = 0 then Some (0, h)
          else case store_alloc h of
            (False, h) \<Rightarrow> Some (0, freeReplyObject a h)
          | (True, h) \<Rightarrow>
              link_parent no_push task par a
                (set_reply a (\<lambda>r. r\<lparr>rp_dval := v, rp_str := Some (str @ [NUL])\<rparr>) h))"

definition createNilObject :: "read_task \<Rightarrow> obj option \<Rightarrow> store \<Rightarrow> (obj \<times> store) option" where
  "createNilObject task par h =
     (case createReplyObject REDIS_REPLY_NIL h of
        (a, h) \<Rightarrow> if a = 0 then Some (0, h) else link_parent no_push task par a h)"

definition createBoolObject :: "read_task \<Rightarrow> obj option \<Rightarrow> bool \<Rightarrow> store \<Rightarrow> (obj \<times> store) option" where
  "createBoolObject task par bval h =
     (case createReplyObject REDIS_REPLY_BOOL h of
        (a, h) \<Rightarrow>
          if a = 0 then Some (0, h)
          else link_parent no_push task par a (set_reply a (\<lambda>r. r\<lparr>rp_integer := if bval then 1 else 0\<rparr>) h))"

definition defaultFunctions :: "store reply_functions" where
  "defaultFunctions =
     \<lparr>createString = Some createStringObject, createArray = Some createArrayObject, createInteger = Some createIntegerObject,
      createDouble = Some createDoubleObject, createNil = Some createNilObject, createBool = Some createBoolObject,
      freeObject = Some freeReplyObject\<rparr>"

definition default_env :: "(bytes \<Rightarrow> double \<times> nat) \<Rightarrow> store reader_env" where
  "default_env std = \<lparr>fn = defaultFunctions, strtod = std, hi_alloc = store_alloc\<rparr>"

definition redisReaderCreate :: "(bytes \<Rightarrow> double \<times> nat) \<Rightarrow> memory \<Rightarrow> store \<Rightarrow> (reader option \<times> memory \<times> store) option" where
  "redisReaderCreate std m h = redisReaderCreateWithFunctions (default_env std) m h"

section \<open>Values\<close>

text \<open>The values of the protocol; containers carry the number of their type, a map the alternating
  list of its keys and values.\<close>

datatype val =
    V_error bytes
  | V_status bytes
  | V_integer int
  | V_double bytes
  | V_nil
  | V_bool bool
  | V_string bytes
  | V_null_string
  | V_verb bytes bytes
  | V_seq int "val list"
  | V_null_seq int

definition type_byte :: "int \<Rightarrow> byte" where
  "type_byte t = (if t = REDIS_REPLY_ARRAY then CHR ''*'' else if t = REDIS_REPLY_MAP then CHR ''%''
     else if t = REDIS_REPLY_SET then CHR ''~'' else CHR ''>'')"

fun encode :: "val \<Rightarrow> bytes" where
  "encode (V_error s) = CHR ''-'' # s @ CRLF"
| "encode (V_status s) = CHR ''+'' # s @ CRLF"
| "encode (V_integer i) = CHR '':'' # dec_int i @ CRLF"
| "encode (V_double s) = CHR '','' # s @ CRLF"
| "encode V_nil = CHR ''_'' # CRLF"
| "encode (V_bool b) = CHR ''#'' # (if b then ''t'' else ''f'') @ CRLF"
| "encode (V_string s) = CHR ''$'' # dec_nat (length s) @ CRLF @ s @ CRLF"
| "encode V_null_string = CHR ''$'' # ''-1'' @ CRLF"
| "encode (V_verb f s) = CHR ''='' # dec_nat (length s + 4) @ CRLF @ f @ [CHR '':''] @ s @ CRLF"
| "encode (V_seq t vs) = type_byte t # dec_nat (if t = REDIS_REPLY_MAP then length vs div 2 else length vs) @ CRLF @ concat (map encode vs)"
| "encode (V_null_seq t) = type_byte t # ''-1'' @ CRLF"

text \<open>
  The values that can be read: lines have no carriage return, numbers fit, and a push container has
  no element that its constructor asserts not to be in one.
\<close>

fun in_push :: "val \<Rightarrow> bool" where
  "in_push (V_double _) = False"
| "in_push V_nil = False"
| "in_push (V_bool _) = False"
| "in_push V_null_string = False"
| "in_push (V_null_seq _) = False"
| "in_push _ = True"

fun val_ok :: "(bytes \<Rightarrow> double \<times> nat) \<Rightarrow> val \<Rightarrow> bool" where
  "val_ok std (V_error s) \<longleftrightarrow> CR \<notin> set s"
| "val_ok std (V_status s) \<longleftrightarrow> CR \<notin> set s"
| "val_ok std (V_integer i) \<longleftrightarrow> - (2 ^ 63) \<le> i \<and> i < 2 ^ 63"
| "val_ok std (V_double s) \<longleftrightarrow> CR \<notin> set s \<and> NUL \<notin> set s \<and> s \<noteq> [] \<and> hd s \<noteq> CHR '','' \<and> length s < 326 \<and>
     snd (std s) = length s \<and> \<not> isnan (fst (std s))"
| "val_ok std (V_verb f s) \<longleftrightarrow> length f = 3"
| "val_ok std (V_seq t vs) \<longleftrightarrow> is_container t \<and> (t = REDIS_REPLY_MAP \<longrightarrow> even (length vs)) \<and>
     (t = REDIS_REPLY_PUSH \<longrightarrow> list_all in_push vs) \<and> list_all (val_ok std) vs"
| "val_ok std (V_null_seq t) \<longleftrightarrow> is_container t"
| "val_ok std _ \<longleftrightarrow> True"

definition element_list :: "redisReply \<Rightarrow> obj list" where
  "element_list r = (case rp_element r of None \<Rightarrow> [] | Some es \<Rightarrow> es)"

text \<open>The object at \<open>a\<close> in the store \<open>m\<close> represents a value, with all its elements.\<close>

fun represents :: "(bytes \<Rightarrow> double \<times> nat) \<Rightarrow> (obj \<rightharpoonup> redisReply) \<Rightarrow> obj \<Rightarrow> val \<Rightarrow> bool"
  and represents_all :: "(bytes \<Rightarrow> double \<times> nat) \<Rightarrow> (obj \<rightharpoonup> redisReply) \<Rightarrow> obj list \<Rightarrow> val list \<Rightarrow> bool" where
  "represents std m a v =
     (case m a of
        None \<Rightarrow> False
      | Some r \<Rightarrow>
          (case v of
             V_error s \<Rightarrow> rp_type r = REDIS_REPLY_ERROR \<and> rp_len r = length s \<and> rp_str r = Some (s @ [NUL])
           | V_status s \<Rightarrow> rp_type r = REDIS_REPLY_STATUS \<and> rp_len r = length s \<and> rp_str r = Some (s @ [NUL])
           | V_integer i \<Rightarrow> rp_type r = REDIS_REPLY_INTEGER \<and> rp_integer r = i
           | V_double s \<Rightarrow> rp_type r = REDIS_REPLY_DOUBLE \<and> rp_dval r = fst (std s) \<and> rp_str r = Some (s @ [NUL])
           | V_nil \<Rightarrow> rp_type r = REDIS_REPLY_NIL
           | V_bool b \<Rightarrow> rp_type r = REDIS_REPLY_BOOL \<and> rp_integer r = (if b then 1 else 0)
           | V_string s \<Rightarrow> rp_type r = REDIS_REPLY_STRING \<and> rp_len r = length s \<and> rp_str r = Some (s @ [NUL])
           | V_null_string \<Rightarrow> rp_type r = REDIS_REPLY_NIL
           | V_verb f s \<Rightarrow> rp_type r = REDIS_REPLY_VERB \<and> rp_vtype r = f @ [NUL] \<and> rp_len r = length s \<and> rp_str r = Some (s @ [NUL])
           | V_seq t vs \<Rightarrow> rp_type r = t \<and> rp_elements r = length vs \<and> represents_all std m (element_list r) vs
           | V_null_seq t \<Rightarrow> rp_type r = REDIS_REPLY_NIL))"
| "represents_all std m [] [] = True"
| "represents_all std m (e # es) (v # vs) = (represents std m e v \<and> represents_all std m es vs)"
| "represents_all std m _ _ = False"

declare represents.simps [simp del]

lemma represents_mono:
  "represents std m a v \<Longrightarrow> m \<subseteq>\<^sub>m m' \<Longrightarrow> represents std m' a v"
  "represents_all std m es vs \<Longrightarrow> m \<subseteq>\<^sub>m m' \<Longrightarrow> represents_all std m' es vs"
proof (induction std m a v and std m es vs rule: represents_represents_all.induct)
  case (1 std m a v)
  then obtain r where r: "m a = Some r" by (auto simp: represents.simps split: option.splits)
  then have r': "m' a = Some r" using 1(3) by (auto simp: map_le_def dom_def)
  show ?case using 1 r r' by (cases v) (auto simp: represents.simps [of _ _ a])
qed auto

section \<open>What the constructors do\<close>

definition all_ok :: "store \<Rightarrow> bool" where
  "all_ok h \<longleftrightarrow> False \<notin> set (hs_answers h) \<and> 0 < hs_next h"

text \<open>The element slot of a task.\<close>

definition can_link :: "int set \<Rightarrow> read_task \<Rightarrow> obj option \<Rightarrow> store \<Rightarrow> bool" where
  "can_link kinds task par h \<longleftrightarrow>
     (case par of
        None \<Rightarrow> True
      | Some p \<Rightarrow> p < hs_next h \<and>
          (\<exists>r es. hs_objs h p = Some r \<and> rp_element r = Some es \<and> rp_type r \<in> kinds \<and> 0 \<le> t_idx task \<and> t_idx task < int (length es)))"

definition linked :: "read_task \<Rightarrow> obj option \<Rightarrow> obj \<Rightarrow> (obj \<rightharpoonup> redisReply) \<Rightarrow> (obj \<rightharpoonup> redisReply)" where
  "linked task par a m =
     (case par of
        None \<Rightarrow> m
      | Some p \<Rightarrow> m(p := map_option (\<lambda>r. r\<lparr>rp_element := Some ((element_list r)[nat (t_idx task) := a])\<rparr>) (m p)))"

text \<open>\<open>placed\<close>: the object \<open>a\<close> with contents \<open>r\<close> is new, and linked to its parent.\<close>

definition placed :: "read_task \<Rightarrow> obj option \<Rightarrow> redisReply \<Rightarrow> store \<Rightarrow> (obj \<times> store) option \<Rightarrow> bool" where
  "placed task par r h res \<longleftrightarrow>
     (\<exists>h'. res = Some (hs_next h, h') \<and> all_ok h' \<and> hs_next h' = hs_next h + 1 \<and>
        hs_objs h' = linked task par (hs_next h) ((hs_objs h)(hs_next h \<mapsto> r)))"

lemma store_alloc_ok: "all_ok h \<Longrightarrow> \<exists>as. store_alloc h = (True, h\<lparr>hs_answers := as\<rparr>) \<and> False \<notin> set as"
  by (cases "hs_answers h") (auto simp: all_ok_def store_alloc_def intro: exI [of _ "[]"])

lemma createReplyObject_ok:
  assumes "all_ok h"
  shows "\<exists>as. createReplyObject t h = (hs_next h, h\<lparr>hs_objs := (hs_objs h)(hs_next h \<mapsto> blank_reply t), hs_next := hs_next h + 1, hs_answers := as\<rparr>) \<and>
    False \<notin> set as"
proof -
  obtain as where "store_alloc h = (True, h\<lparr>hs_answers := as\<rparr>)" "False \<notin> set as" using store_alloc_ok [OF assms] by blast
  then show ?thesis by (intro exI [of _ as]) (simp add: createReplyObject_def)
qed

lemma link_parent_ok:
  assumes "can_link kinds task par h" "all_ok h" "False \<notin> set as"
  shows "placed task par r h (link_parent kinds task par (hs_next h)
    (h\<lparr>hs_objs := (hs_objs h)(hs_next h \<mapsto> r), hs_next := hs_next h + 1, hs_answers := as\<rparr>))"
  using assms
  by (cases par) (auto simp: can_link_def placed_def link_parent_def linked_def set_reply_def all_ok_def element_list_def)

lemma set_reply_new: "set_reply a f (h\<lparr>hs_objs := m(a \<mapsto> r), hs_next := n, hs_answers := as\<rparr>) = h\<lparr>hs_objs := m(a \<mapsto> f r), hs_next := n, hs_answers := as\<rparr>"
  by (simp add: set_reply_def)

lemma constructors_ok:
  assumes ok: "all_ok h"
  shows "can_link any_container task par h \<Longrightarrow> t_type task \<in> {REDIS_REPLY_ERROR, REDIS_REPLY_STATUS, REDIS_REPLY_STRING} \<Longrightarrow>
      placed task par ((blank_reply (t_type task))\<lparr>rp_len := length s, rp_str := Some (s @ [NUL])\<rparr>) h (createStringObject task par s h)"
    and "can_link any_container task par h \<Longrightarrow> t_type task = REDIS_REPLY_VERB \<Longrightarrow> length f = 4 \<Longrightarrow>
      placed task par ((blank_reply (t_type task))\<lparr>rp_vtype := take 3 f @ [NUL], rp_len := length s, rp_str := Some (s @ [NUL])\<rparr>) h
        (createStringObject task par (f @ s) h)"
    and "can_link any_container task par h \<Longrightarrow>
      placed task par ((blank_reply (t_type task))\<lparr>rp_elements := n, rp_element := if n > 0 then Some (replicate n 0) else None\<rparr>) h
        (createArrayObject task par n h)"
    and "can_link any_container task par h \<Longrightarrow>
      placed task par ((blank_reply REDIS_REPLY_INTEGER)\<lparr>rp_integer := i\<rparr>) h (createIntegerObject task par i h)"
    and "can_link no_push task par h \<Longrightarrow>
      placed task par ((blank_reply REDIS_REPLY_DOUBLE)\<lparr>rp_dval := d, rp_str := Some (s @ [NUL])\<rparr>) h (createDoubleObject task par d s h)"
    and "can_link no_push task par h \<Longrightarrow> placed task par (blank_reply REDIS_REPLY_NIL) h (createNilObject task par h)"
    and "can_link no_push task par h \<Longrightarrow>
      placed task par ((blank_reply REDIS_REPLY_BOOL)\<lparr>rp_integer := if b then 1 else 0\<rparr>) h (createBoolObject task par b h)"
proof -
  have new: "hs_next h \<noteq> 0" using ok by (simp add: all_ok_def)
  have c: "\<exists>as. createReplyObject t h = (hs_next h, h\<lparr>hs_objs := (hs_objs h)(hs_next h \<mapsto> blank_reply t), hs_next := hs_next h + 1, hs_answers := as\<rparr>) \<and>
    False \<notin> set as" for t by (rule createReplyObject_ok [OF ok])
  have alloc: "\<exists>as'. store_alloc (h\<lparr>hs_objs := m, hs_next := hs_next h + 1, hs_answers := as\<rparr>) =
      (True, h\<lparr>hs_objs := m, hs_next := hs_next h + 1, hs_answers := as'\<rparr>) \<and> False \<notin> set as'" if "False \<notin> set as" for m as
    using store_alloc_ok [of "h\<lparr>hs_objs := m, hs_next := hs_next h + 1, hs_answers := as\<rparr>"] that by (auto simp: all_ok_def)
  have two: "\<exists>as as'. createReplyObject t h = (hs_next h, h\<lparr>hs_objs := (hs_objs h)(hs_next h \<mapsto> blank_reply t), hs_next := hs_next h + 1, hs_answers := as\<rparr>) \<and>
      store_alloc (h\<lparr>hs_objs := (hs_objs h)(hs_next h \<mapsto> blank_reply t), hs_next := hs_next h + 1, hs_answers := as\<rparr>) =
      (True, h\<lparr>hs_objs := (hs_objs h)(hs_next h \<mapsto> blank_reply t), hs_next := hs_next h + 1, hs_answers := as'\<rparr>) \<and> False \<notin> set as \<and> False \<notin> set as'" for t
    using c [of t] alloc by blast
  note L = link_parent_ok [OF _ ok]
  show "placed task par ((blank_reply (t_type task))\<lparr>rp_len := length s, rp_str := Some (s @ [NUL])\<rparr>) h (createStringObject task par s h)"
    if "can_link any_container task par h" "t_type task \<in> {REDIS_REPLY_ERROR, REDIS_REPLY_STATUS, REDIS_REPLY_STRING}"
    using two [of "t_type task"] that new L [OF that(1)] by (auto simp: createStringObject_def set_reply_new simp del: fun_upd_apply)
  show "placed task par ((blank_reply (t_type task))\<lparr>rp_vtype := take 3 f @ [NUL], rp_len := length s, rp_str := Some (s @ [NUL])\<rparr>) h
        (createStringObject task par (f @ s) h)"
    if "can_link any_container task par h" "t_type task = REDIS_REPLY_VERB" "length f = 4"
    using two [of "t_type task"] that new L [OF that(1)] by (auto simp: createStringObject_def set_reply_new simp del: fun_upd_apply)
  show "placed task par ((blank_reply (t_type task))\<lparr>rp_elements := n, rp_element := if n > 0 then Some (replicate n 0) else None\<rparr>) h
        (createArrayObject task par n h)" if "can_link any_container task par h"
    using two [of "t_type task"] that new L [OF that(1)] by (auto simp: createArrayObject_def set_reply_new simp del: fun_upd_apply)
  show "placed task par ((blank_reply REDIS_REPLY_INTEGER)\<lparr>rp_integer := i\<rparr>) h (createIntegerObject task par i h)"
    if "can_link any_container task par h"
    using c [of REDIS_REPLY_INTEGER] new L [OF that(1)] by (auto simp: createIntegerObject_def set_reply_new simp del: fun_upd_apply)
  show "placed task par ((blank_reply REDIS_REPLY_DOUBLE)\<lparr>rp_dval := d, rp_str := Some (s @ [NUL])\<rparr>) h (createDoubleObject task par d s h)"
    if "can_link no_push task par h"
    using two [of REDIS_REPLY_DOUBLE] new L [OF that(1)] by (auto simp: createDoubleObject_def set_reply_new simp del: fun_upd_apply)
  show "placed task par (blank_reply REDIS_REPLY_NIL) h (createNilObject task par h)" if "can_link no_push task par h"
    using c [of REDIS_REPLY_NIL] new L [OF that(1)] by (auto simp: createNilObject_def simp del: fun_upd_apply)
  show "placed task par ((blank_reply REDIS_REPLY_BOOL)\<lparr>rp_integer := if b then 1 else 0\<rparr>) h (createBoolObject task par b h)"
    if "can_link no_push task par h"
    using c [of REDIS_REPLY_BOOL] new L [OF that(1)] by (auto simp: createBoolObject_def set_reply_new simp del: fun_upd_apply)
qed

end
