(* ===== verification/ReplyRoundtrip.thy ===== *)
theory ReplyRoundtrip
  imports ReplyObjects
begin

text \<open>
  The reader with the default objects reads back the wire form of every value: fed in any pieces,
  the reply is an object that represents the value. The proof follows the task stack: reading an
  item ends with \<open>moveToNextTask\<close> from its own task, with the object linked to its parent.
\<close>

section \<open>Lines and bulk strings at the position\<close>

lemma seekNewline_at:
  assumes "msg = pre @ s @ CRLF @ post" "length pre = pos" "CR \<notin> set s" "length msg < 2 ^ 31"
  shows "seekNewline (drop pos msg) (length msg - pos) = Some (length s)"
  using assms first_crlf_line [OF assms(3), of post] seekNewline_drop [OF assms(4), of pos "length s"] by simp

lemma readLine_at:
  assumes "msg = pre @ s @ CRLF @ post" "length pre = rd_pos r" "CR \<notin> set s" "length msg < 2 ^ 31"
  shows "readLine msg r = Some (s, r\<lparr>rd_pos := rd_pos r + length s + 2\<rparr>)"
  using seekNewline_at [OF assms] assms(1,2) by (simp add: readLine_def)

lemma CR_notin_dec_nat: "CR \<notin> set (dec_nat n)"
  using set_dec_nat [of CR n] CR_not_digit by blast

lemma CR_notin_dec_int: "CR \<notin> set (dec_int i)"
  using CR_notin_dec_nat by (auto simp: dec_int_def)

lemma string2ll_dec_nat: "n < 2 ^ 63 \<Longrightarrow> string2ll (dec_nat n) = Some (int n)"
  by (simp add: string2ll_iff dec_int_def)

lemma string2ll_minus_1: "string2ll ''-1'' = Some (-1)"
  by (simp add: string2ll_iff) code_simp

section \<open>What reading a value does\<close>

definition kinds_for :: "val \<Rightarrow> int set" where
  "kinds_for v = (if in_push v then any_container else no_push)"

abbreviation cur_task :: "reader \<Rightarrow> read_task" where
  "cur_task r \<equiv> task_at r (rd_ridx r)"

text \<open>The reader is at a fresh task whose object can be linked to the parent.\<close>

definition at_slot :: "reader \<Rightarrow> store \<Rightarrow> val \<Rightarrow> bool" where
  "at_slot r h v \<longleftrightarrow> rd_err r = 0 \<and> 0 \<le> rd_ridx r \<and> nat (rd_ridx r) < length (rd_task r) \<and> t_type (cur_task r) = -1 \<and>
     rd_maxelements r = REDIS_READER_MAX_ARRAY_ELEMENTS \<and> all_ok h \<and>
     (\<forall>p. t_parent (cur_task r) = Some p \<longrightarrow> p < nat (rd_ridx r)) \<and>
     can_link (kinds_for v) (cur_task r) (parent_obj r (cur_task r)) h"

definition passed :: "reader \<Rightarrow> reader \<Rightarrow> nat \<Rightarrow> obj \<Rightarrow> bool" where
  "passed r r1 n a \<longleftrightarrow> rd_pos r1 = rd_pos r + n \<and> rd_ridx r1 = rd_ridx r \<and> same_frame r r1 \<and>
     length (rd_task r) \<le> length (rd_task r1) \<and> (\<forall>i < nat (rd_ridx r). rd_task r1 ! i = rd_task r ! i) \<and>
     t_idx (cur_task r1) = t_idx (cur_task r) \<and> t_parent (cur_task r1) = t_parent (cur_task r) \<and>
     rd_reply r1 = (if rd_ridx r = 0 then a else rd_reply r)"

definition built :: "(bytes \<Rightarrow> double \<times> nat) \<Rightarrow> read_task \<Rightarrow> obj option \<Rightarrow> store \<Rightarrow> obj \<Rightarrow> store \<Rightarrow> val \<Rightarrow> bool" where
  "built std task par h a h1 v \<longleftrightarrow> all_ok h1 \<and> hs_next h < hs_next h1 \<and>
     (\<forall>x < hs_next h. hs_objs h1 x = linked task par a (hs_objs h) x) \<and>
     represents std (hs_objs h1 |` {hs_next h ..< hs_next h1}) a v"

definition reads :: "(bytes \<Rightarrow> double \<times> nat) \<Rightarrow> bytes \<Rightarrow> val \<Rightarrow> bool" where
  "reads std msg v \<longleftrightarrow>
     (\<forall>r h pre post. msg = pre @ encode v @ post \<longrightarrow> length pre = rd_pos r \<longrightarrow> at_slot r h v \<longrightarrow>
        (\<exists>a h1 r1. process_loop (default_env std) msg r h =
             do { r2 \<leftarrow> moveToNextTask r1; process_loop (default_env std) msg r2 h1 } \<and>
           passed r r1 (length (encode v)) a \<and> built std (cur_task r) (parent_obj r (cur_task r)) h a h1 v))"

lemma default_env_simps [simp]:
  "fn (default_env std) = defaultFunctions" "strtod (default_env std) = std" "hi_alloc (default_env std) = store_alloc"
  by (simp_all add: default_env_def)

lemma defaultFunctions_simps [simp]:
  "createString defaultFunctions = Some createStringObject" "createArray defaultFunctions = Some createArrayObject"
  "createInteger defaultFunctions = Some createIntegerObject" "createDouble defaultFunctions = Some createDoubleObject"
  "createNil defaultFunctions = Some createNilObject" "createBool defaultFunctions = Some createBoolObject"
  "freeObject defaultFunctions = Some freeReplyObject"
  by (simp_all add: defaultFunctions_def)

text \<open>After the type byte.\<close>

definition typed :: "int \<Rightarrow> reader \<Rightarrow> reader" where
  "typed t r = r\<lparr>rd_pos := rd_pos r + 1, rd_task := (rd_task r)[nat (rd_ridx r) := (cur_task r)\<lparr>t_type := t\<rparr>]\<rparr>"

lemma typed_simps [simp]:
  "rd_pos (typed t r) = rd_pos r + 1" "rd_ridx (typed t r) = rd_ridx r" "rd_err (typed t r) = rd_err r"
  "rd_maxelements (typed t r) = rd_maxelements r" "length (rd_task (typed t r)) = length (rd_task r)"
  "rd_reply (typed t r) = rd_reply r"
  by (simp_all add: typed_def)

lemma typed_task: "nat (rd_ridx r) < length (rd_task r) \<Longrightarrow> task_at (typed t r) (rd_ridx r) = (cur_task r)\<lparr>t_type := t\<rparr>"
  by (simp add: typed_def)

lemma typed_parent: "nat (rd_ridx r) < length (rd_task r) \<Longrightarrow> parent_obj (typed t r) ((cur_task r)\<lparr>t_type := t\<rparr>) = parent_obj r (cur_task r)"
  by (cases "t_parent (cur_task r)") (auto simp: parent_obj_def typed_def nth_list_update)

lemma process_loop_item:
  assumes "msg = pre @ c # rest" "length pre = rd_pos r" "reply_type_of c = Some t" "at_slot r h v"
  shows "process_loop env msg r h =
    (case process_typed env msg (typed t r) h of
       None \<Rightarrow> None
     | Some (REDIS_OK, r, h) \<Rightarrow> process_loop env msg r h
     | Some (REDIS_ERR, r, h) \<Rightarrow> Some (r, h))"
proof -
  have "read_type env msg r h = (REDIS_OK, typed t r, h)"
    using assms by (simp add: read_type_def readBytes_def typed_def)
  then have "processItem env msg r h = process_typed env msg (typed t r) h"
    using assms(4) by (simp add: processItem_def at_slot_def)
  then show ?thesis using assms(4) by (simp add: process_loop.simps [of env msg r h] at_slot_def)
qed

lemma finish_item_loop:
  assumes "process_typed env msg q h = finish_item env a r h1" "a \<noteq> 0"
  shows "(case process_typed env msg q h of
       None \<Rightarrow> None
     | Some (REDIS_OK, r, h) \<Rightarrow> process_loop env msg r h
     | Some (REDIS_ERR, r, h) \<Rightarrow> Some (r, h)) =
     do { r2 \<leftarrow> moveToNextTask (if rd_ridx r = 0 then r\<lparr>rd_reply := a\<rparr> else r); process_loop env msg r2 h1 }"
  using assms by (cases "moveToNextTask (if rd_ridx r = 0 then r\<lparr>rd_reply := a\<rparr> else r)") (simp_all add: finish_item_def)

lemma placed_cell:
  assumes "placed task par rp h (Some (a, h1))" "can_link kinds task par h"
  shows "a = hs_next h \<and> all_ok h1 \<and> hs_next h1 = hs_next h + 1 \<and> hs_objs h1 a = Some rp \<and>
    (\<forall>x < hs_next h. hs_objs h1 x = linked task par a (hs_objs h) x)"
  using assms by (cases par) (auto simp: placed_def linked_def can_link_def)

lemma placed_built:
  assumes "placed task par rp h (Some (a, h1))" "can_link kinds task par h" "represents std [hs_next h \<mapsto> rp] (hs_next h) v"
  shows "built std task par h a h1 v"
proof -
  note a = placed_cell [OF assms(1,2)]
  then have "[hs_next h \<mapsto> rp] \<subseteq>\<^sub>m hs_objs h1 |` {hs_next h ..< hs_next h1}"
    by (auto simp: map_le_def)
  then have "represents std (hs_objs h1 |` {hs_next h ..< hs_next h1}) a v"
    using represents_mono(1) [OF assms(3)] a by simp
  with a show ?thesis by (simp add: built_def)
qed

lemma placed_type: "placed (task\<lparr>t_type := t\<rparr>) par rp h res = placed task par rp h res"
  by (cases par) (simp_all add: placed_def linked_def)

lemma can_link_type [simp]: "can_link kinds (task\<lparr>t_type := t\<rparr>) par h = can_link kinds task par h"
  by (cases par) (simp_all add: can_link_def)

lemma can_link_any: "can_link (kinds_for v) task par h \<Longrightarrow> can_link any_container task par h"
  by (auto simp: can_link_def kinds_for_def split: option.splits if_splits)

text \<open>Items without elements.\<close>

lemma reads_leaf:
  assumes enc: "encode v = c # rest" and t: "reply_type_of c = Some t"
    and step: "\<And>r h pre post. \<lbrakk>msg = (pre @ [c]) @ rest @ post; length pre = rd_pos r; at_slot r h v\<rbrakk> \<Longrightarrow>
      \<exists>h1 rp ts. process_typed (default_env std) msg (typed t r) h =
          finish_item (default_env std) (hs_next h)
            ((typed t r)\<lparr>rd_pos := rd_pos r + length (encode v), rd_task := rd_task (typed t r) @ ts\<rparr>) h1 \<and>
        placed (cur_task r) (parent_obj r (cur_task r)) rp h (Some (hs_next h, h1)) \<and>
        represents std [hs_next h \<mapsto> rp] (hs_next h) v"
  shows "reads std msg v"
  unfolding reads_def
proof (intro allI impI)
  fix r h pre post assume h: "msg = pre @ encode v @ post" "length pre = rd_pos r" "at_slot r h v"
  have m: "msg = (pre @ [c]) @ rest @ post" "msg = pre @ c # (rest @ post)" using h(1) enc by simp_all
  obtain h1 rp ts where s: "process_typed (default_env std) msg (typed t r) h =
        finish_item (default_env std) (hs_next h)
          ((typed t r)\<lparr>rd_pos := rd_pos r + length (encode v), rd_task := rd_task (typed t r) @ ts\<rparr>) h1"
      "placed (cur_task r) (parent_obj r (cur_task r)) rp h (Some (hs_next h, h1))"
      "represents std [hs_next h \<mapsto> rp] (hs_next h) v"
    using step [OF m(1) h(2,3)] by blast
  let ?a = "hs_next h"
  let ?q = "(typed t r)\<lparr>rd_pos := rd_pos r + length (encode v), rd_task := rd_task (typed t r) @ ts\<rparr>"
  have a: "?a \<noteq> 0" using h(3) by (simp add: at_slot_def all_ok_def)
  have lt: "nat (rd_ridx r) < length (rd_task r)" using h(3) by (simp add: at_slot_def)
  show "\<exists>a h1 r1. process_loop (default_env std) msg r h =
        do { r2 \<leftarrow> moveToNextTask r1; process_loop (default_env std) msg r2 h1 } \<and>
      passed r r1 (length (encode v)) a \<and> built std (cur_task r) (parent_obj r (cur_task r)) h a h1 v"
  proof (intro exI conjI)
    show "process_loop (default_env std) msg r h =
        do { r2 \<leftarrow> moveToNextTask (if rd_ridx ?q = 0 then ?q\<lparr>rd_reply := ?a\<rparr> else ?q); process_loop (default_env std) msg r2 h1 }"
      unfolding process_loop_item [OF m(2) h(2) t h(3)] by (rule finish_item_loop [OF s(1) a])
    show "passed r (if rd_ridx ?q = 0 then ?q\<lparr>rd_reply := ?a\<rparr> else ?q) (length (encode v)) ?a"
      using lt by (auto simp: passed_def typed_def nth_append)
    show "built std (cur_task r) (parent_obj r (cur_task r)) h ?a h1 v"
      using h(3) by (intro placed_built [OF s(2) _ s(3)]) (auto simp: at_slot_def)
  qed
qed

lemma placed_Some: "placed task par rp h res \<Longrightarrow> \<exists>h1. res = Some (hs_next h, h1) \<and> placed task par rp h (Some (hs_next h, h1))"
  by (auto simp: placed_def)

text \<open>Lines: what the constructor makes of the line decides.\<close>

lemma reads_line:
  assumes enc: "encode v = c # s @ CRLF" and t: "reply_type_of c = Some t" and s: "CR \<notin> set s" and len: "length msg < 2 ^ 31"
    and kind: "t \<in> {REDIS_REPLY_ERROR, REDIS_REPLY_STATUS, REDIS_REPLY_INTEGER, REDIS_REPLY_DOUBLE, REDIS_REPLY_NIL, REDIS_REPLY_BOOL}"
    and obj: "\<And>r h task par. \<lbrakk>all_ok h; can_link (kinds_for v) task par h; t_type task = t; parent_obj r task = par\<rbrakk> \<Longrightarrow>
      \<exists>rp res. line_object (default_env std) r task s h = map_option Inr res \<and> placed task par rp h res \<and>
        represents std [hs_next h \<mapsto> rp] (hs_next h) v"
  shows "reads std msg v"
proof (rule reads_leaf [OF enc t])
  fix r h pre post assume h: "msg = (pre @ [c]) @ (s @ CRLF) @ post" "length pre = rd_pos r" "at_slot r h v"
  let ?r = "typed t r" and ?task = "(cur_task r)\<lparr>t_type := t\<rparr>" and ?par = "parent_obj r (cur_task r)"
  have lt: "nat (rd_ridx r) < length (rd_task r)" using h(3) by (simp add: at_slot_def)
  have line: "readLine msg ?r = Some (s, ?r\<lparr>rd_pos := rd_pos r + length (encode v)\<rparr>)"
    using readLine_at [of msg "pre @ [c]" s post ?r] h(1,2) s len enc by simp
  have par: "parent_obj (?r\<lparr>rd_pos := n\<rparr>) ?task = ?par" for n
    using typed_parent [OF lt, of t] by (simp add: parent_obj_def)
  obtain rp res where o: "line_object (default_env std) (?r\<lparr>rd_pos := rd_pos r + length (encode v)\<rparr>) ?task s h = map_option Inr res"
      "placed ?task ?par rp h res" "represents std [hs_next h \<mapsto> rp] (hs_next h) v"
    using obj [of h ?task ?par "?r\<lparr>rd_pos := rd_pos r + length (encode v)\<rparr>"] h(3) par by (auto simp: at_slot_def)
  obtain h1 where res: "res = Some (hs_next h, h1)" "placed (cur_task r) ?par rp h (Some (hs_next h, h1))"
    using placed_Some [OF o(2)] by (auto simp: placed_type)
  have "process_typed (default_env std) msg ?r h = finish_item (default_env std) (hs_next h) (?r\<lparr>rd_pos := rd_pos r + length (encode v)\<rparr>) h1"
    using kind o(1) res(1) line typed_task [OF lt, of t] by (auto simp: process_typed_def processLineItem_def Let_def)
  with res(2) o(3) show "\<exists>h1 rp ts. process_typed (default_env std) msg ?r h =
        finish_item (default_env std) (hs_next h) (?r\<lparr>rd_pos := rd_pos r + length (encode v), rd_task := rd_task ?r @ ts\<rparr>) h1 \<and>
      placed (cur_task r) ?par rp h (Some (hs_next h, h1)) \<and> represents std [hs_next h \<mapsto> rp] (hs_next h) v"
    by (intro exI [of _ h1] exI [of _ rp] exI [of _ "[]"]) simp
qed

lemma c_str_whole: "NUL \<notin> set s \<Longrightarrow> c_str s = s"
  by (simp add: c_str_id)

lemma reads_lines:
  assumes ok: "val_ok std v" and len: "length msg < 2 ^ 31"
  shows "v = V_error s \<Longrightarrow> reads std msg v" and "v = V_status s \<Longrightarrow> reads std msg v" and "v = V_integer i \<Longrightarrow> reads std msg v"
    and "v = V_double s \<Longrightarrow> reads std msg v" and "v = V_nil \<Longrightarrow> reads std msg v" and "v = V_bool b \<Longrightarrow> reads std msg v"
proof -
  note con = constructors_ok
  show "reads std msg v" if v: "v = V_error s"
  proof (rule reads_line [of v "CHR ''-''" s 6])
    fix r h task par assume a: "all_ok h" "can_link (kinds_for v) task par h" "t_type task = 6" "parent_obj r task = par"
    show "\<exists>rp res. line_object (default_env std) r task s h = map_option Inr res \<and> placed task par rp h res \<and> represents std [hs_next h \<mapsto> rp] (hs_next h) v"
      using con(1) [OF a(1) can_link_any [OF a(2)], of s] a(3,4) v
      by (intro exI conjI) (auto simp: line_object_def construct_def represents.simps blank_reply_def Let_def)
  qed (use ok len v in \<open>auto simp: reply_type_of_def\<close>)
  show "reads std msg v" if v: "v = V_status s"
  proof (rule reads_line [of v "CHR ''+''" s 5])
    fix r h task par assume a: "all_ok h" "can_link (kinds_for v) task par h" "t_type task = 5" "parent_obj r task = par"
    show "\<exists>rp res. line_object (default_env std) r task s h = map_option Inr res \<and> placed task par rp h res \<and> represents std [hs_next h \<mapsto> rp] (hs_next h) v"
      using con(1) [OF a(1) can_link_any [OF a(2)], of s] a(3,4) v
      by (intro exI conjI) (auto simp: line_object_def construct_def represents.simps blank_reply_def Let_def)
  qed (use ok len v in \<open>auto simp: reply_type_of_def\<close>)
  show "reads std msg v" if v: "v = V_integer i"
  proof (rule reads_line [of v "CHR '':''" "dec_int i" 3])
    fix r h task par assume a: "all_ok h" "can_link (kinds_for v) task par h" "t_type task = 3" "parent_obj r task = par"
    have "string2ll (dec_int i) = Some i" using ok v by (simp add: string2ll_iff)
    then show "\<exists>rp res. line_object (default_env std) r task (dec_int i) h = map_option Inr res \<and> placed task par rp h res \<and> represents std [hs_next h \<mapsto> rp] (hs_next h) v"
      using con(4) [OF a(1) can_link_any [OF a(2)], of i] a(3,4) v
      by (intro exI conjI) (auto simp: line_object_def represents.simps blank_reply_def Let_def)
  qed (use ok len v CR_notin_dec_int in \<open>auto simp: reply_type_of_def\<close>)
  show "reads std msg v" if v: "v = V_double s"
  proof (rule reads_line [of v "CHR '',''" s 7])
    fix r h task par assume a: "all_ok h" "can_link (kinds_for v) task par h" "t_type task = 7" "parent_obj r task = par"
    obtain c s' where s: "s = c # s'" "c \<noteq> CHR '',''" using ok v by (cases s) auto
    have inf: "map c_tolower s \<noteq> CHR '','' # x" for x
      using s by (auto simp: c_tolower_def c_isupper_def uchar_def split: if_splits dest!: arg_cong [of _ _ "of_char :: char \<Rightarrow> nat"])
    obtain d n where d: "std s = (d, n)" by force
    show "\<exists>rp res. line_object (default_env std) r task s h = map_option Inr res \<and> placed task par rp h res \<and> represents std [hs_next h \<mapsto> rp] (hs_next h) v"
      using con(5) [OF a(1), where task = task and par = par and d = d and s = s] a ok v d inf [of "''inf''"] inf [of "''-inf''"]
      by (intro exI conjI) (auto simp: line_object_def represents.simps blank_reply_def Let_def c_str_whole kinds_for_def)
  qed (use ok len v in \<open>auto simp: reply_type_of_def\<close>)
  show "reads std msg v" if v: "v = V_nil"
  proof (rule reads_line [of v "CHR ''_''" "[]" 4])
    fix r h task par assume a: "all_ok h" "can_link (kinds_for v) task par h" "t_type task = 4" "parent_obj r task = par"
    show "\<exists>rp res. line_object (default_env std) r task [] h = map_option Inr res \<and> placed task par rp h res \<and> represents std [hs_next h \<mapsto> rp] (hs_next h) v"
      using con(6) [OF a(1), of task par] a v
      by (intro exI conjI) (auto simp: line_object_def construct_def represents.simps blank_reply_def Let_def kinds_for_def)
  qed (use ok len v in \<open>auto simp: reply_type_of_def\<close>)
  show "reads std msg v" if v: "v = V_bool b"
  proof (rule reads_line [of v "CHR ''#''" "if b then ''t'' else ''f''" 8])
    fix r h task par assume a: "all_ok h" "can_link (kinds_for v) task par h" "t_type task = 8" "parent_obj r task = par"
    show "\<exists>rp res. line_object (default_env std) r task (if b then ''t'' else ''f'') h = map_option Inr res \<and> placed task par rp h res \<and> represents std [hs_next h \<mapsto> rp] (hs_next h) v"
      using con(7) [OF a(1), of task par b] a v
      by (intro exI conjI) (auto simp: line_object_def construct_def represents.simps blank_reply_def Let_def kinds_for_def)
  qed (use ok len v in \<open>auto simp: reply_type_of_def\<close>)
qed

text \<open>Bulk strings.\<close>

lemma reads_bulk:
  assumes enc: "encode v = c # dec_nat (length s) @ CRLF @ s @ CRLF" and t: "reply_type_of c = Some t" and len: "length msg < 2 ^ 31"
    and kind: "t \<in> {REDIS_REPLY_STRING, REDIS_REPLY_VERB}"
    and verb: "t = REDIS_REPLY_VERB \<Longrightarrow> 4 \<le> length s \<and> s ! 3 = CHR '':''"
    and obj: "\<And>h task par. \<lbrakk>all_ok h; can_link (kinds_for v) task par h; t_type task = t\<rbrakk> \<Longrightarrow>
      \<exists>rp. placed task par rp h (createStringObject task par s h) \<and> represents std [hs_next h \<mapsto> rp] (hs_next h) v"
  shows "reads std msg v"
proof (rule reads_leaf [OF enc t])
  fix r h pre post assume h: "msg = (pre @ [c]) @ (dec_nat (length s) @ CRLF @ s @ CRLF) @ post" "length pre = rd_pos r" "at_slot r h v"
  let ?r = "typed t r" and ?task = "(cur_task r)\<lparr>t_type := t\<rparr>" and ?par = "parent_obj r (cur_task r)"
  let ?d = "dec_nat (length s)"
  have lt: "nat (rd_ridx r) < length (rd_task r)" using h(3) by (simp add: at_slot_def)
  have pos: "rd_pos ?r = length (pre @ [c])" using h(2) by simp
  have m: "msg = (pre @ [c]) @ ?d @ CRLF @ (s @ CRLF @ post)" using h(1) by simp
  have sk: "seekNewline (drop (rd_pos ?r) msg) (length msg - rd_pos ?r) = Some (length ?d)"
    using seekNewline_at [OF m pos [symmetric] CR_notin_dec_nat len] .
  have dr: "drop (rd_pos ?r) msg = ?d @ CRLF @ s @ CRLF @ post" using m pos by simp
  have "length s < 2 ^ 63" using len h(1) by simp
  then have ll: "string2ll ?d = Some (int (length s))" by (rule string2ll_dec_nat)
  have fit: "rd_pos ?r + (length ?d + 2 + length s + 2) \<le> length msg" using m pos by simp
  have colon: "t = 14 \<Longrightarrow> (?d @ CRLF @ s @ CRLF @ post) ! (length ?d + 5) = CHR '':''"
    using verb by (simp add: nth_append)
  have p1: "parent_obj ?r ?task = ?par" by (rule typed_parent [OF lt])
  obtain rp where rp: "placed ?task ?par rp h (createStringObject ?task ?par s h)" "represents std [hs_next h \<mapsto> rp] (hs_next h) v"
    using obj [of h ?task ?par] h(3) by (auto simp: at_slot_def)
  obtain h1 where res: "createStringObject ?task ?par s h = Some (hs_next h, h1)" "placed (cur_task r) ?par rp h (Some (hs_next h, h1))"
    using placed_Some [OF rp(1)] by (auto simp: placed_type)
  have a: "hs_next h \<noteq> 0" using h(3) by (simp add: at_slot_def all_ok_def)
  have n: "rd_pos r + length (encode v) = rd_pos ?r + (length ?d + 2 + length s + 2)" using enc by simp
  have con: "construct (map_option (\<lambda>f. f ?task ?par) (createString defaultFunctions)) x s h = Some (hs_next h, h1)" for x
    using res(1) by (simp add: construct_def)
  have tk: "take (length ?d) (?d @ CRLF @ s @ CRLF @ post) = ?d"
    "take (length s) (drop (length ?d + 2) (?d @ CRLF @ s @ CRLF @ post)) = s" by simp_all
  have "processBulkItem (default_env std) msg ?r h = finish_item (default_env std) (hs_next h) (?r\<lparr>rd_pos := rd_pos r + length (encode v)\<rparr>) h1"
    unfolding processBulkItem_def Let_def sk [unfolded dr] dr option.case typed_simps(2) typed_task [OF lt] p1 tk ll n
    using fit colon verb a con by (auto simp: nat_int tk)
  then have "process_typed (default_env std) msg ?r h = finish_item (default_env std) (hs_next h) (?r\<lparr>rd_pos := rd_pos r + length (encode v)\<rparr>) h1"
    using kind typed_task [OF lt, of t] by (auto simp: process_typed_def Let_def)
  with res(2) rp(2) show "\<exists>h1 rp ts. process_typed (default_env std) msg ?r h =
        finish_item (default_env std) (hs_next h) (?r\<lparr>rd_pos := rd_pos r + length (encode v), rd_task := rd_task ?r @ ts\<rparr>) h1 \<and>
      placed (cur_task r) ?par rp h (Some (hs_next h, h1)) \<and> represents std [hs_next h \<mapsto> rp] (hs_next h) v"
    by (intro exI [of _ h1] exI [of _ rp] exI [of _ "[]"]) simp
qed

lemma reads_bulks:
  assumes ok: "val_ok std v" and len: "length msg < 2 ^ 31"
  shows "v = V_string s \<Longrightarrow> reads std msg v" and "v = V_verb f s \<Longrightarrow> reads std msg v"
proof -
  show "reads std msg v" if v: "v = V_string s"
  proof (rule reads_bulk [of v "CHR ''$''" s 1])
    fix h task par assume a: "all_ok h" "can_link (kinds_for v) task par h" "t_type task = 1"
    show "\<exists>rp. placed task par rp h (createStringObject task par s h) \<and> represents std [hs_next h \<mapsto> rp] (hs_next h) v"
      using constructors_ok(1) [OF a(1) can_link_any [OF a(2)], of s] a(3) v
      by (intro exI conjI) (auto simp: represents.simps blank_reply_def)
  qed (use ok len v in \<open>auto simp: reply_type_of_def\<close>)
  show "reads std msg v" if v: "v = V_verb f s"
  proof (rule reads_bulk [of v "CHR ''=''" "f @ [CHR '':''] @ s" 14])
    have f: "length f = 3" using ok v by simp
    fix h task par assume a: "all_ok h" "can_link (kinds_for v) task par h" "t_type task = 14"
    show "\<exists>rp. placed task par rp h (createStringObject task par (f @ [CHR '':''] @ s) h) \<and> represents std [hs_next h \<mapsto> rp] (hs_next h) v"
      using constructors_ok(2) [OF a(1) can_link_any [OF a(2)], of "f @ [CHR '':'']" s] a(3) v f
      by (intro exI conjI) (auto simp: represents.simps blank_reply_def)
  qed (use ok len v in \<open>auto simp: reply_type_of_def nth_append add.commute\<close>)
qed

lemma construct_nil: "construct (map_option (\<lambda>f _. f task par) (createNil defaultFunctions)) t () h = createNilObject task par h"
  by (simp add: construct_def)

lemma reads_null_string:
  assumes len: "length msg < 2 ^ 31" and v: "v = V_null_string"
  shows "reads std msg v"
proof (rule reads_leaf [of v "CHR ''$''" "''-1'' @ CRLF" 1])
  fix r h pre post assume h: "msg = (pre @ [CHR ''$'']) @ (''-1'' @ CRLF) @ post" "length pre = rd_pos r" "at_slot r h v"
  let ?r = "typed 1 r" and ?task = "(cur_task r)\<lparr>t_type := 1\<rparr>" and ?par = "parent_obj r (cur_task r)"
  have lt: "nat (rd_ridx r) < length (rd_task r)" using h(3) by (simp add: at_slot_def)
  have pos: "rd_pos ?r = length (pre @ [CHR ''$''])" using h(2) by simp
  have m: "msg = (pre @ [CHR ''$'']) @ ''-1'' @ CRLF @ post" using h(1) by simp
  have sk: "seekNewline (drop (rd_pos ?r) msg) (length msg - rd_pos ?r) = Some (length ''-1'')"
    using seekNewline_at [OF m pos [symmetric] _ len] by simp
  have tk: "take (length ''-1'') (drop (rd_pos ?r) msg) = ''-1''" using m pos by simp
  have p1: "parent_obj ?r ?task = ?par" by (rule typed_parent [OF lt])
  have link: "can_link no_push ?task ?par h" "all_ok h" using h(3) v by (simp_all add: at_slot_def kinds_for_def)
  obtain h1 where res: "createNilObject ?task ?par h = Some (hs_next h, h1)" "placed (cur_task r) ?par (blank_reply 4) h (Some (hs_next h, h1))"
    using placed_Some [OF constructors_ok(6) [OF link(2,1)]] by (auto simp: placed_type)
  have a: "hs_next h \<noteq> 0" using link(2) by (simp add: all_ok_def)
  have "processBulkItem (default_env std) msg ?r h = finish_item (default_env std) (hs_next h) (?r\<lparr>rd_pos := rd_pos r + length (encode v)\<rparr>) h1"
    unfolding processBulkItem_def Let_def sk option.case typed_simps(2) typed_task [OF lt] p1 tk string2ll_minus_1
      default_env_simps(1) construct_nil
    using res(1) a v by simp
  then have "process_typed (default_env std) msg ?r h = finish_item (default_env std) (hs_next h) (?r\<lparr>rd_pos := rd_pos r + length (encode v)\<rparr>) h1"
    using typed_task [OF lt, of 1] by (simp add: process_typed_def Let_def)
  moreover have "represents std [hs_next h \<mapsto> blank_reply 4] (hs_next h) v" using v by (simp add: represents.simps blank_reply_def)
  ultimately show "\<exists>h1 rp ts. process_typed (default_env std) msg ?r h =
        finish_item (default_env std) (hs_next h) (?r\<lparr>rd_pos := rd_pos r + length (encode v), rd_task := rd_task ?r @ ts\<rparr>) h1 \<and>
      placed (cur_task r) ?par rp h (Some (hs_next h, h1)) \<and> represents std [hs_next h \<mapsto> rp] (hs_next h) v"
    using res(2) by (intro exI [of _ h1] exI [of _ "blank_reply 4"] exI [of _ "[]"]) simp
qed (simp_all add: v reply_type_of_def)

section \<open>Containers\<close>

lemma add_tasks_ok:
  "all_ok h \<Longrightarrow> \<exists>ts as. add_tasks (default_env std) n r h = (True, r\<lparr>rd_task := rd_task r @ ts\<rparr>, h\<lparr>hs_answers := as\<rparr>) \<and>
     length ts = n \<and> False \<notin> set as"
proof (induction n arbitrary: r h)
  case 0
  then show ?case by (intro exI [of _ "[]"] exI [of _ "hs_answers h"]) (auto simp: all_ok_def)
next
  case (Suc n)
  obtain as where as: "store_alloc h = (True, h\<lparr>hs_answers := as\<rparr>)" "False \<notin> set as" using store_alloc_ok [OF Suc.prems] by blast
  have "all_ok (h\<lparr>hs_answers := as\<rparr>)" using Suc.prems as by (simp add: all_ok_def)
  from Suc.IH [OF this, of "r\<lparr>rd_task := rd_task r @ [blank_task]\<rparr>"] obtain ts as' where
    "add_tasks (default_env std) n (r\<lparr>rd_task := rd_task r @ [blank_task]\<rparr>) (h\<lparr>hs_answers := as\<rparr>) =
      (True, r\<lparr>rd_task := rd_task r @ blank_task # ts\<rparr>, h\<lparr>hs_answers := as'\<rparr>)" "length ts = n" "False \<notin> set as'" by auto
  then show ?case using as by (intro exI [of _ "blank_task # ts"] exI [of _ as']) simp
qed

text \<open>Room for the elements on the stack.\<close>

lemma grow_ok:
  assumes "all_ok h" "0 \<le> rd_ridx r" "nat (rd_ridx r) < length (rd_task r)"
  shows "\<exists>ts as. (if rd_ridx r = int (length (rd_task r)) - 1 then redisReaderGrow (default_env std) r h else (REDIS_OK, r, h)) =
      (REDIS_OK, r\<lparr>rd_task := rd_task r @ ts\<rparr>, h\<lparr>hs_answers := as\<rparr>) \<and> False \<notin> set as \<and>
    nat (rd_ridx r) + 1 < length (rd_task r @ ts)"
proof (cases "rd_ridx r = int (length (rd_task r)) - 1")
  case True
  obtain as where as: "store_alloc h = (True, h\<lparr>hs_answers := as\<rparr>)" "False \<notin> set as" using store_alloc_ok [OF assms(1)] by blast
  have "all_ok (h\<lparr>hs_answers := as\<rparr>)" using assms(1) as by (simp add: all_ok_def)
  from add_tasks_ok [OF this, of std REDIS_READER_STACK_SIZE r] obtain ts as' where
    "add_tasks (default_env std) REDIS_READER_STACK_SIZE r (h\<lparr>hs_answers := as\<rparr>) = (True, r\<lparr>rd_task := rd_task r @ ts\<rparr>, h\<lparr>hs_answers := as'\<rparr>)"
    "length ts = REDIS_READER_STACK_SIZE" "False \<notin> set as'" by auto
  with as True assms show ?thesis
    by (intro exI [of _ ts] exI [of _ as']) (auto simp: redisReaderGrow_def)
next
  case False
  with assms show ?thesis by (intro exI [of _ "[]"] exI [of _ "hs_answers h"]) (auto simp: all_ok_def)
qed

lemma moveToNextTask_reply: "moveToNextTask (r\<lparr>rd_reply := v\<rparr>) = map_option (\<lambda>q. q\<lparr>rd_reply := v\<rparr>) (moveToNextTask r)"
proof (induction r rule: moveToNextTask.induct)
  case (1 r)
  have swap: "r\<lparr>rd_reply := v\<rparr>\<lparr>rd_ridx := i\<rparr> = r\<lparr>rd_ridx := i\<rparr>\<lparr>rd_reply := v\<rparr>"
    "r\<lparr>rd_reply := v\<rparr>\<lparr>rd_task := ts\<rparr> = r\<lparr>rd_task := ts\<rparr>\<lparr>rd_reply := v\<rparr>" for i ts by simp_all
  have fields: "rd_ridx (r\<lparr>rd_reply := v\<rparr>) = rd_ridx r" "rd_task (r\<lparr>rd_reply := v\<rparr>) = rd_task r" by simp_all
  show ?case
    unfolding moveToNextTask.simps [of r] moveToNextTask.simps [of "r\<lparr>rd_reply := v\<rparr>"] Let_def fields swap
    using 1 by (simp only: option.map if_distrib [of "map_option (\<lambda>q. q\<lparr>rd_reply := v\<rparr>)"] Let_def split: if_split) blast
qed

lemma late_root:
  assumes "a \<noteq> 0"
  shows "do { q \<leftarrow> moveToNextTask r; Some (REDIS_OK, if rd_ridx r = 0 then q\<lparr>rd_reply := a\<rparr> else q, h) } = finish_item env a r h"
  using assms by (cases "moveToNextTask r") (simp_all add: finish_item_def moveToNextTask_reply)

text \<open>The container item up to the call of the constructor: the state in which \<open>aggregate_object\<close> runs.\<close>

lemma aggregate_entry:
  assumes m: "msg = (pre @ [type_byte t]) @ s @ CRLF @ post" "length pre = rd_pos r" and slot: "at_slot r h v" and t: "is_container t"
    and len: "length msg < 2 ^ 31" and s: "CR \<notin> set s" "string2ll s = Some k" "-1 \<le> k" "k \<le> REDIS_READER_MAX_ARRAY_ELEMENTS"
  shows "\<exists>ts as. process_typed (default_env std) msg (typed t r) h =
      aggregate_object (default_env std) k ((typed t r)\<lparr>rd_pos := rd_pos r + length s + 3, rd_task := rd_task (typed t r) @ ts\<rparr>) (h\<lparr>hs_answers := as\<rparr>) \<and>
    False \<notin> set as \<and> nat (rd_ridx r) + 1 < length (rd_task (typed t r) @ ts)"
proof -
  let ?r = "typed t r"
  have lt: "nat (rd_ridx r) < length (rd_task r)" using slot by (simp add: at_slot_def)
  obtain ts as where g: "(if rd_ridx ?r = int (length (rd_task ?r)) - 1 then redisReaderGrow (default_env std) ?r h else (REDIS_OK, ?r, h)) =
      (REDIS_OK, ?r\<lparr>rd_task := rd_task ?r @ ts\<rparr>, h\<lparr>hs_answers := as\<rparr>)" "False \<notin> set as" "nat (rd_ridx r) + 1 < length (rd_task ?r @ ts)"
    using grow_ok [of h ?r std] slot by (auto simp: at_slot_def)
  have line: "readLine msg (?r\<lparr>rd_task := rd_task ?r @ ts\<rparr>) = Some (s, ?r\<lparr>rd_pos := rd_pos r + length s + 3, rd_task := rd_task ?r @ ts\<rparr>)"
    using readLine_at [OF m(1) _ s(1) len, of "?r\<lparr>rd_task := rd_task ?r @ ts\<rparr>"] m(2) by (simp add: eval_nat_numeral)
  have "processAggregateItem (default_env std) msg ?r h =
      aggregate_object (default_env std) k (?r\<lparr>rd_pos := rd_pos r + length s + 3, rd_task := rd_task ?r @ ts\<rparr>) (h\<lparr>hs_answers := as\<rparr>)"
    unfolding processAggregateItem_def g(1) using line s(2-4) slot by (simp add: at_slot_def)
  moreover have "process_typed (default_env std) msg ?r h = processAggregateItem (default_env std) msg ?r h"
    using t typed_task [OF lt, of t] by (auto simp: process_typed_def Let_def is_container_def)
  ultimately show ?thesis using g by auto
qed

lemma type_byte_type: "is_container t \<Longrightarrow> reply_type_of (type_byte t) = Some t"
  by (auto simp: is_container_def type_byte_def reply_type_of_def)

lemma extended_task:
  assumes "at_slot r h v"
  shows "task_at ((typed t r)\<lparr>rd_pos := p, rd_task := rd_task (typed t r) @ ts\<rparr>) (rd_ridx r) = (cur_task r)\<lparr>t_type := t\<rparr>"
    and "parent_obj ((typed t r)\<lparr>rd_pos := p, rd_task := rd_task (typed t r) @ ts\<rparr>) ((cur_task r)\<lparr>t_type := t\<rparr>) = parent_obj r (cur_task r)"
  using assms by (auto simp: at_slot_def parent_obj_def typed_def nth_append nth_list_update)
    (cases "t_parent (cur_task r)", auto)

lemma placed_same: "hs_next h' = hs_next h \<Longrightarrow> hs_objs h' = hs_objs h \<Longrightarrow> placed task par rp h' res = placed task par rp h res"
  by (simp add: placed_def)

lemma can_link_same: "hs_next h' = hs_next h \<Longrightarrow> hs_objs h' = hs_objs h \<Longrightarrow> can_link kinds task par h' = can_link kinds task par h"
  by (cases par) (simp_all add: can_link_def)

lemma reads_null_seq:
  assumes len: "length msg < 2 ^ 31" and v: "v = V_null_seq t" and t: "is_container t"
  shows "reads std msg v"
proof (rule reads_leaf [of v "type_byte t" "''-1'' @ CRLF" t])
  fix r h pre post assume h: "msg = (pre @ [type_byte t]) @ (''-1'' @ CRLF) @ post" "length pre = rd_pos r" "at_slot r h v"
  let ?par = "parent_obj r (cur_task r)"
  have m: "msg = (pre @ [type_byte t]) @ ''-1'' @ CRLF @ post" using h(1) by simp
  have "CR \<notin> set ''-1''" by simp
  from aggregate_entry [OF m h(2,3) t len this string2ll_minus_1, of std] obtain ts as where
    e: "process_typed (default_env std) msg (typed t r) h =
      aggregate_object (default_env std) (-1) ((typed t r)\<lparr>rd_pos := rd_pos r + length ''-1'' + 3, rd_task := rd_task (typed t r) @ ts\<rparr>) (h\<lparr>hs_answers := as\<rparr>)"
      "False \<notin> set as" by auto
  let ?r = "(typed t r)\<lparr>rd_pos := rd_pos r + length ''-1'' + 3, rd_task := rd_task (typed t r) @ ts\<rparr>" and ?h = "h\<lparr>hs_answers := as\<rparr>"
  let ?task = "(cur_task r)\<lparr>t_type := t\<rparr>"
  have link: "can_link no_push ?task ?par ?h" "all_ok ?h"
    using h(3) v e(2) by (simp_all add: at_slot_def kinds_for_def can_link_same [of ?h h] all_ok_def)
  obtain h1 where res: "createNilObject ?task ?par ?h = Some (hs_next h, h1)" "placed (cur_task r) ?par (blank_reply 4) h (Some (hs_next h, h1))"
    using placed_Some [OF constructors_ok(6) [OF link(2,1)]] by (auto simp: placed_type placed_same [of ?h h])
  have a: "hs_next h \<noteq> 0" using link(2) by (simp add: all_ok_def)
  have idx: "rd_ridx ?r = rd_ridx r" by simp
  have "aggregate_object (default_env std) (-1) ?r ?h = finish_item (default_env std) (hs_next h) ?r h1"
    unfolding aggregate_object_def Let_def idx extended_task [OF h(3)] default_env_simps(1) construct_nil res(1)
    using a late_root [OF a, of ?r h1 "default_env std"] by simp
  moreover have "represents std [hs_next h \<mapsto> blank_reply 4] (hs_next h) v" using v by (simp add: represents.simps blank_reply_def)
  ultimately show "\<exists>h1 rp ts. process_typed (default_env std) msg (typed t r) h =
        finish_item (default_env std) (hs_next h) ((typed t r)\<lparr>rd_pos := rd_pos r + length (encode v), rd_task := rd_task (typed t r) @ ts\<rparr>) h1 \<and>
      placed (cur_task r) ?par rp h (Some (hs_next h, h1)) \<and> represents std [hs_next h \<mapsto> rp] (hs_next h) v"
    using res(2) e(1) v by (intro exI [of _ h1] exI [of _ "blank_reply 4"] exI [of _ ts]) (simp add: eval_nat_numeral)
qed (simp_all add: v t type_byte_type)

text \<open>The elements of the container at \<open>P\<close>, from number \<open>j\<close> on, whose task is number \<open>i\<close>.\<close>

definition at_elements :: "reader \<Rightarrow> store \<Rightarrow> nat \<Rightarrow> obj \<Rightarrow> redisReply \<Rightarrow> obj list \<Rightarrow> nat \<Rightarrow> val list \<Rightarrow> bool" where
  "at_elements r h i P rp es j vs \<longleftrightarrow>
     rd_err r = 0 \<and> rd_ridx r = int i + 1 \<and> i + 1 < length (rd_task r) \<and> rd_maxelements r = REDIS_READER_MAX_ARRAY_ELEMENTS \<and>
     t_type (rd_task r ! (i + 1)) = -1 \<and> t_parent (rd_task r ! (i + 1)) = Some i \<and> t_idx (rd_task r ! (i + 1)) = int j \<and>
     is_container (t_type (rd_task r ! i)) \<and> t_elements (rd_task r ! i) = int (length es) \<and> t_obj (rd_task r ! i) = P \<and>
     length es = j + length vs \<and> length es < 2 ^ 31 \<and>
     all_ok h \<and> P < hs_next h \<and> hs_objs h P = Some rp \<and> is_container (rp_type rp) \<and> rp_element rp = Some es \<and>
     (rp_type rp = REDIS_REPLY_PUSH \<longrightarrow> list_all in_push vs)"

definition elements_read :: "(bytes \<Rightarrow> double \<times> nat) \<Rightarrow> reader \<Rightarrow> reader \<Rightarrow> store \<Rightarrow> store \<Rightarrow> nat \<Rightarrow> obj \<Rightarrow> redisReply \<Rightarrow> obj list \<Rightarrow> val list \<Rightarrow> bool" where
  "elements_read std r r1 h h1 i P rp es vs \<longleftrightarrow>
     rd_ridx r1 = int i \<and> rd_pos r1 = rd_pos r + length (concat (map encode vs)) \<and> same_frame r r1 \<and> rd_reply r1 = rd_reply r \<and>
     length (rd_task r) \<le> length (rd_task r1) \<and> (\<forall>k \<le> i. rd_task r1 ! k = rd_task r ! k) \<and>
     all_ok h1 \<and> hs_next h \<le> hs_next h1 \<and> hs_objs h1 P = Some (rp\<lparr>rp_element := Some es\<rparr>) \<and>
     (\<forall>x < hs_next h. x \<noteq> P \<longrightarrow> hs_objs h1 x = hs_objs h x)"

lemma moveToNextTask_element:
  assumes "rd_ridx r = int i + 1" "is_container (t_type (rd_task r ! i))"
  shows "moveToNextTask r =
    (if t_idx (rd_task r ! (i + 1)) = t_elements (rd_task r ! i) - 1 then moveToNextTask (r\<lparr>rd_ridx := int i\<rparr>)
     else if t_idx (rd_task r ! (i + 1)) < t_elements (rd_task r ! i) \<and> t_idx (rd_task r ! (i + 1)) + 1 < 2 ^ 31
     then Some (r\<lparr>rd_task := (rd_task r)[i + 1 := (rd_task r ! (i + 1))\<lparr>t_type := -1, t_elements := -1, t_idx := t_idx (rd_task r ! (i + 1)) + 1\<rparr>]\<rparr>)
     else None)"
proof -
  have n: "nat (int i + 1) = i + 1" by simp
  show ?thesis using assms by (subst moveToNextTask.simps) (auto simp: Let_def n)
qed

lemma reads_elements:
  assumes "\<And>v. v \<in> set vs \<Longrightarrow> reads std msg v"
    and "msg = pre @ concat (map encode vs) @ post" "length pre = rd_pos r" "vs \<noteq> []" "at_elements r h i P rp es j vs"
  shows "\<exists>r1 h1 as. process_loop (default_env std) msg r h =
      do { r2 \<leftarrow> moveToNextTask r1; process_loop (default_env std) msg r2 h1 } \<and>
    elements_read std r r1 h h1 i P rp (take j es @ as) vs \<and>
    represents_all std (hs_objs h1 |` {hs_next h ..< hs_next h1}) as vs"
  using assms
proof (induction vs arbitrary: pre r h rp es j)
  case (Cons v vs)
  let ?L = "process_loop (default_env std) msg"
  note slot = Cons.prems(5) [unfolded at_elements_def]
  have nat1: "nat (int i + 1) = i + 1" by simp
  have cur: "cur_task r = rd_task r ! (i + 1)" using slot nat1 by simp
  have par: "parent_obj r (cur_task r) = Some P" using slot cur by (simp add: parent_obj_def)
  have "can_link (kinds_for v) (cur_task r) (Some P) h"
    using slot cur by (auto simp: can_link_def kinds_for_def is_container_def)
  then have at: "at_slot r h v" using slot cur par by (auto simp: at_slot_def nat_less_iff)
  have m: "msg = pre @ encode v @ (concat (map encode vs) @ post)" using Cons.prems(2) by simp
  obtain a h1 r1 where rd: "?L r h = do { r2 \<leftarrow> moveToNextTask r1; ?L r2 h1 }"
      "passed r r1 (length (encode v)) a" "built std (cur_task r) (Some P) h a h1 v"
    using Cons.prems(1) [of v, unfolded reads_def, rule_format, OF _ m Cons.prems(3) at, unfolded par] by auto
  have h1: "hs_objs h1 P = Some (rp\<lparr>rp_element := Some (es[j := a])\<rparr>)" "all_ok h1" "hs_next h < hs_next h1"
      "\<And>x. x < hs_next h \<Longrightarrow> x \<noteq> P \<Longrightarrow> hs_objs h1 x = hs_objs h x"
      "represents std (hs_objs h1 |` {hs_next h ..< hs_next h1}) a v"
    using rd(3) slot cur by (auto simp: built_def linked_def element_list_def)
  have r1: "rd_pos r1 = rd_pos r + length (encode v)" "rd_ridx r1 = int i + 1" "same_frame r r1" "length (rd_task r) \<le> length (rd_task r1)"
      "\<And>k. k \<le> i \<Longrightarrow> rd_task r1 ! k = rd_task r ! k" "t_idx (rd_task r1 ! (i + 1)) = int j" "t_parent (rd_task r1 ! (i + 1)) = Some i"
      "rd_reply r1 = rd_reply r"
    using rd(2) slot cur nat1 by (auto simp: passed_def)
  have move: "moveToNextTask r1 =
    (if vs = [] then moveToNextTask (r1\<lparr>rd_ridx := int i\<rparr>)
     else Some (r1\<lparr>rd_task := (rd_task r1)[i + 1 := (rd_task r1 ! (i + 1))\<lparr>t_type := -1, t_elements := -1, t_idx := int j + 1\<rparr>]\<rparr>))"
    using moveToNextTask_element [OF r1(2)] r1(5) [of i] r1(6) slot by (auto simp: neq_Nil_conv)
  show ?case
  proof (cases "vs = []")
    case True
    have es: "take j es @ [a] = es[j := a]" using slot True by (simp add: list_update_append take_Suc_conv_app_nth upd_conv_take_nth_drop)
    have "elements_read std r (r1\<lparr>rd_ridx := int i\<rparr>) h h1 i P rp (take j es @ [a]) (v # vs)"
      unfolding es using True h1 r1 by (auto simp: elements_read_def)
    with rd(1) move True h1(5) show ?thesis by (intro exI [of _ "r1\<lparr>rd_ridx := int i\<rparr>"] exI [of _ h1] exI [of _ "[a]"]) simp
  next
    case False
    define r2 where "r2 = r1\<lparr>rd_task := (rd_task r1)[i + 1 := (rd_task r1 ! (i + 1))\<lparr>t_type := -1, t_elements := -1, t_idx := int j + 1\<rparr>]\<rparr>"
    have go: "?L r h = ?L r2 h1" using rd(1) move False by (simp add: r2_def)
    have i1: "i + 1 < length (rd_task r1)" using r1(4) slot by simp
    have m2: "msg = (pre @ encode v) @ concat (map encode vs) @ post" using m by simp
    have at2: "at_elements r2 h1 i P (rp\<lparr>rp_element := Some (es[j := a])\<rparr>) (es[j := a]) (j + 1) vs"
      using slot r1 h1 i1 by (auto simp: at_elements_def r2_def same_frame_def)
    have pos2: "length (pre @ encode v) = rd_pos r2" using Cons.prems(3) r1(1) by (simp add: r2_def)
    obtain r3 h3 as where ih: "?L r2 h1 = do { r2 \<leftarrow> moveToNextTask r3; ?L r2 h3 }"
        "elements_read std r2 r3 h1 h3 i P (rp\<lparr>rp_element := Some (es[j := a])\<rparr>) (take (j + 1) (es[j := a]) @ as) vs"
        "represents_all std (hs_objs h3 |` {hs_next h1 ..< hs_next h3}) as vs"
      using Cons.IH [OF Cons.prems(1) m2 pos2 False at2] by auto
    have es: "take (j + 1) (es[j := a]) @ as = take j es @ a # as"
      using slot by (simp add: take_Suc_conv_app_nth)
    have P: "P < hs_next h" using slot by simp
    have "elements_read std r r3 h h3 i P rp (take j es @ a # as) (v # vs)"
      using ih(2) h1 r1 P unfolding es by (auto simp: elements_read_def r2_def same_frame_def)
    moreover have "hs_objs h1 |` {hs_next h ..< hs_next h1} \<subseteq>\<^sub>m hs_objs h3 |` {hs_next h ..< hs_next h3}"
      using ih(2) P by (auto simp: elements_read_def map_le_def restrict_map_def)
    moreover have "hs_objs h3 |` {hs_next h1 ..< hs_next h3} \<subseteq>\<^sub>m hs_objs h3 |` {hs_next h ..< hs_next h3}"
      using h1(3) by (auto simp: map_le_def restrict_map_def)
    ultimately show ?thesis
      using go ih(1,3) h1(5) represents_mono by (intro exI [of _ r3] exI [of _ h3] exI [of _ "a # as"]) auto
  qed
qed simp

lemma encode_not_Nil: "encode v \<noteq> []"
  by (cases v) auto

lemma length_elements: "length vs \<le> length (concat (map encode vs))"
proof (induction vs)
  case (Cons v vs)
  then show ?case using encode_not_Nil [of v] by (cases "encode v") auto
qed simp

text \<open>The container proper: the object, and the first element or the end.\<close>

definition seq_reader :: "int \<Rightarrow> nat \<Rightarrow> read_task list \<Rightarrow> reader \<Rightarrow> reader" where
  "seq_reader t n ts r = (typed t r)\<lparr>rd_pos := rd_pos r + n, rd_task := rd_task (typed t r) @ ts\<rparr>"

definition seq_reply :: "int \<Rightarrow> nat \<Rightarrow> redisReply" where
  "seq_reply t n = (blank_reply t)\<lparr>rp_elements := n, rp_element := if n > 0 then Some (replicate n 0) else None\<rparr>"

lemma seq_start:
  assumes ok: "val_ok std (V_seq t vs)" and len: "length msg < 2 ^ 31"
    and h: "msg = pre @ encode (V_seq t vs) @ post" "length pre = rd_pos r" "at_slot r h (V_seq t vs)"
  shows "\<exists>ts h1 n. process_loop (default_env std) msg r h =
      (case do { q \<leftarrow> (if vs \<noteq> []
             then Some (set_task (rd_ridx r + 1) (fresh_task (Some (nat (rd_ridx r))) 0)
               (set_task (rd_ridx r) ((cur_task r)\<lparr>t_type := t, t_elements := int (length vs), t_obj := hs_next h\<rparr>) (seq_reader t n ts r))
               \<lparr>rd_ridx := rd_ridx r + 1\<rparr>)
             else moveToNextTask (seq_reader t n ts r));
           Some (REDIS_OK, if rd_ridx r = 0 then q\<lparr>rd_reply := hs_next h\<rparr> else q, h1) } of
       None \<Rightarrow> None
     | Some (REDIS_OK, r, h) \<Rightarrow> process_loop (default_env std) msg r h
     | Some (REDIS_ERR, r, h) \<Rightarrow> Some (r, h)) \<and>
    length (encode (V_seq t vs)) = n + length (concat (map encode vs)) \<and> nat (rd_ridx r) + 1 < length (rd_task (seq_reader t n ts r)) \<and>
    all_ok h1 \<and> hs_next h1 = hs_next h + 1 \<and> hs_objs h1 (hs_next h) = Some (seq_reply t (length vs)) \<and>
    (\<forall>x < hs_next h. hs_objs h1 x = linked (cur_task r) (parent_obj r (cur_task r)) (hs_next h) (hs_objs h) x)"
proof -
  let ?v = "V_seq t vs" and ?n = "length vs" and ?a = "hs_next h"
  let ?par = "parent_obj r (cur_task r)" and ?task = "(cur_task r)\<lparr>t_type := t\<rparr>"
  have t: "is_container t" using ok by simp
  define k where "k = (if t = REDIS_REPLY_MAP then ?n div 2 else ?n)"
  have k2: "(if t = REDIS_REPLY_MAP then int k * 2 else int k) = int ?n" using ok by (auto simp: k_def)
  have n31: "?n < 2 ^ 31" using length_elements [of vs] len h(1) by simp
  have kn: "int k \<le> 2 ^ 32 - 1" "k < 2 ^ 63" using n31 by (auto simp: k_def)
  have m: "msg = (pre @ [type_byte t]) @ dec_nat k @ CRLF @ (concat (map encode vs) @ post)" using h(1) by (simp add: k_def)
  obtain ts as where e: "process_typed (default_env std) msg (typed t r) h =
      aggregate_object (default_env std) (int k) ((typed t r)\<lparr>rd_pos := rd_pos r + length (dec_nat k) + 3, rd_task := rd_task (typed t r) @ ts\<rparr>) (h\<lparr>hs_answers := as\<rparr>)"
      "False \<notin> set as" "nat (rd_ridx r) + 1 < length (rd_task (typed t r) @ ts)"
    using aggregate_entry [OF m h(2,3) t len CR_notin_dec_nat string2ll_dec_nat [OF kn(2)], of std] kn(1) by auto
  let ?r = "(typed t r)\<lparr>rd_pos := rd_pos r + length (dec_nat k) + 3, rd_task := rd_task (typed t r) @ ts\<rparr>" and ?h = "h\<lparr>hs_answers := as\<rparr>"
  have sr: "seq_reader t (length (dec_nat k) + 3) ts r = ?r" by (simp add: seq_reader_def add.assoc)
  have link: "can_link any_container ?task ?par ?h" "all_ok ?h"
    using h(3) e(2) can_link_any [of ?v] by (simp_all add: at_slot_def can_link_same [of ?h h] all_ok_def)
  obtain h1 where res: "createArrayObject ?task ?par ?n ?h = Some (?a, h1)" "placed (cur_task r) ?par (seq_reply t ?n) h (Some (?a, h1))"
    using placed_Some [OF constructors_ok(3) [OF link(2,1), of ?n]] by (auto simp: placed_type placed_same [of ?h h] seq_reply_def)
  have a: "?a \<noteq> 0" using link(2) by (simp add: all_ok_def)
  have con: "construct (map_option (\<lambda>f. f ?task ?par) (createArray defaultFunctions)) x (nat (int ?n)) ?h = Some (?a, h1)" for x
    using res(1) by (simp add: construct_def)
  have idx: "rd_ridx ?r = rd_ridx r" and tt: "t_type ?task = t" by simp_all
  have agg: "aggregate_object (default_env std) (int k) ?r ?h =
      do { q \<leftarrow> (if vs \<noteq> []
             then Some (set_task (rd_ridx r + 1) (fresh_task (Some (nat (rd_ridx r))) 0)
               (set_task (rd_ridx r) (?task\<lparr>t_elements := int ?n, t_obj := ?a\<rparr>) ?r)\<lparr>rd_ridx := rd_ridx r + 1\<rparr>)
             else moveToNextTask ?r);
           Some (REDIS_OK, if rd_ridx r = 0 then q\<lparr>rd_reply := ?a\<rparr> else q, h1) }"
    unfolding aggregate_object_def Let_def idx extended_task [OF h(3)] default_env_simps(1) tt k2 con
    using a n31 by auto
  have m2: "msg = pre @ type_byte t # (dec_nat k @ CRLF @ concat (map encode vs) @ post)" using m by simp
  show ?thesis
  proof (intro exI conjI)
    show "process_loop (default_env std) msg r h =
      (case do { q \<leftarrow> (if vs \<noteq> []
             then Some (set_task (rd_ridx r + 1) (fresh_task (Some (nat (rd_ridx r))) 0)
               (set_task (rd_ridx r) ((cur_task r)\<lparr>t_type := t, t_elements := int (length vs), t_obj := hs_next h\<rparr>)
                 (seq_reader t (length (dec_nat k) + 3) ts r))\<lparr>rd_ridx := rd_ridx r + 1\<rparr>)
             else moveToNextTask (seq_reader t (length (dec_nat k) + 3) ts r));
           Some (REDIS_OK, if rd_ridx r = 0 then q\<lparr>rd_reply := hs_next h\<rparr> else q, h1) } of
       None \<Rightarrow> None
     | Some (REDIS_OK, r, h) \<Rightarrow> process_loop (default_env std) msg r h
     | Some (REDIS_ERR, r, h) \<Rightarrow> Some (r, h))"
      unfolding process_loop_item [OF m2 h(2) type_byte_type [OF t] h(3)] e(1) agg sr by (rule refl)
  qed (use placed_cell [OF res(2)] link(1) e(3) in \<open>auto simp: can_link_same [of ?h h] seq_reader_def k_def\<close>)
qed

lemma reads_seq:
  assumes ok: "val_ok std (V_seq t vs)" and len: "length msg < 2 ^ 31" and sub: "\<And>v. v \<in> set vs \<Longrightarrow> reads std msg v"
  shows "reads std msg (V_seq t vs)"
  unfolding reads_def
proof (intro allI impI)
  let ?v = "V_seq t vs" and ?L = "process_loop (default_env std) msg"
  fix r h pre post assume h: "msg = pre @ encode ?v @ post" "length pre = rd_pos r" "at_slot r h ?v"
  let ?par = "parent_obj r (cur_task r)" and ?a = "hs_next h" and ?i = "nat (rd_ridx r)"
  let ?t = "(cur_task r)\<lparr>t_type := t, t_elements := int (length vs), t_obj := ?a\<rparr>"
  obtain ts h1 n where st: "?L r h =
      (case do { q \<leftarrow> (if vs \<noteq> []
             then Some (set_task (rd_ridx r + 1) (fresh_task (Some ?i) 0) (set_task (rd_ridx r) ?t (seq_reader t n ts r))\<lparr>rd_ridx := rd_ridx r + 1\<rparr>)
             else moveToNextTask (seq_reader t n ts r));
           Some (REDIS_OK, if rd_ridx r = 0 then q\<lparr>rd_reply := ?a\<rparr> else q, h1) } of
       None \<Rightarrow> None | Some (REDIS_OK, r, h) \<Rightarrow> ?L r h | Some (REDIS_ERR, r, h) \<Rightarrow> Some (r, h))"
      and n: "length (encode ?v) = n + length (concat (map encode vs))" and room: "?i + 1 < length (rd_task (seq_reader t n ts r))"
      and h1: "all_ok h1" "hs_next h1 = ?a + 1" "hs_objs h1 ?a = Some (seq_reply t (length vs))"
        "\<And>x. x < ?a \<Longrightarrow> hs_objs h1 x = linked (cur_task r) ?par ?a (hs_objs h) x"
    using seq_start [OF ok len h] by blast
  have a: "?a \<noteq> 0" and i: "0 \<le> rd_ridx r" "?i < length (rd_task r)" "rd_err r = 0" "rd_maxelements r = 2 ^ 32 - 1"
    using h(3) by (simp_all add: at_slot_def all_ok_def)
  show "\<exists>a h1 r1. ?L r h = do { r2 \<leftarrow> moveToNextTask r1; ?L r2 h1 } \<and>
      passed r r1 (length (encode ?v)) a \<and> built std (cur_task r) ?par h a h1 ?v"
  proof (cases "vs = []")
    case True
    let ?q = "seq_reader t n ts r"
    let ?r1 = "if rd_ridx ?q = 0 then ?q\<lparr>rd_reply := ?a\<rparr> else ?q"
    have q: "rd_ridx ?q = rd_ridx r" by (simp add: seq_reader_def)
    have "?L r h = do { r2 \<leftarrow> moveToNextTask ?r1; ?L r2 h1 }"
      using st True late_root [OF a, of ?q h1 "default_env std"] q a
      by (cases "moveToNextTask ?r1") (simp_all add: finish_item_def)
    moreover have "passed r ?r1 (length (encode ?v)) ?a"
      using i n True by (auto simp: passed_def seq_reader_def typed_def nth_append)
    moreover have "built std (cur_task r) ?par h ?a h1 ?v"
      using h1 True by (auto simp: built_def represents.simps seq_reply_def blank_reply_def element_list_def)
    ultimately show ?thesis by blast
  next
    case False
    define q0 where "q0 = (set_task (rd_ridx r + 1) (fresh_task (Some ?i) 0) (set_task (rd_ridx r) ?t (seq_reader t n ts r)))
      \<lparr>rd_ridx := rd_ridx r + 1\<rparr>"
    define q where "q = (if rd_ridx r = 0 then q0\<lparr>rd_reply := ?a\<rparr> else q0)"
    have go: "?L r h = ?L q h1" using st False by (simp add: q_def q0_def)
    have i1: "nat (rd_ridx r + 1) = ?i + 1" using i by simp
    have tasks: "rd_task q ! ?i = ?t" "rd_task q ! (?i + 1) = fresh_task (Some ?i) 0" "?i + 1 < length (rd_task q)"
        "\<And>k. k < ?i \<Longrightarrow> rd_task q ! k = rd_task r ! k" "length (rd_task r) \<le> length (rd_task q)"
      using room i i1 by (auto simp: q_def q0_def seq_reader_def typed_def nth_append)
    have t: "is_container t" "t = 12 \<longrightarrow> list_all in_push vs" using ok by auto
    have n31: "length vs < 2 ^ 31" using length_elements [of vs] len h(1) by simp
    have "at_elements q h1 ?i ?a (seq_reply t (length vs)) (replicate (length vs) 0) 0 vs"
      using tasks i h1 t n31 False
      by (simp add: at_elements_def q_def q0_def seq_reader_def seq_reply_def blank_reply_def fresh_task_def)
    moreover define p where "p = type_byte t # dec_nat (if t = 9 then length vs div 2 else length vs) @ CRLF"
    have p: "encode ?v = p @ concat (map encode vs)" by (simp add: p_def)
    then have "msg = (pre @ p) @ concat (map encode vs) @ post" using h(1) by simp
    moreover have "length (pre @ p) = rd_pos q" using h(2) arg_cong [OF p, of length, unfolded n] by (simp add: q_def q0_def seq_reader_def)
    ultimately obtain r1 h2 as where el: "?L q h1 = do { r2 \<leftarrow> moveToNextTask r1; ?L r2 h2 }"
        "elements_read std q r1 h1 h2 ?i ?a (seq_reply t (length vs)) as vs"
        "represents_all std (hs_objs h2 |` {hs_next h1 ..< hs_next h2}) as vs"
      using reads_elements [OF sub, where pre = "pre @ p" and post = post and r = q and h = h1] False by fastforce
    have qf: "rd_pos q = rd_pos r + n" "same_frame r q" "rd_reply q = (if rd_ridx r = 0 then ?a else rd_reply r)"
      by (simp_all add: q_def q0_def seq_reader_def typed_def)
    have "same_frame r r1" using qf(2) el(2) by (simp add: elements_read_def same_frame_def)
    then have "passed r r1 (length (encode ?v)) ?a"
      using el(2) tasks i n qf unfolding passed_def elements_read_def by simp
    moreover have "built std (cur_task r) ?par h ?a h2 ?v"
    proof -
      have "hs_objs h2 |` {hs_next h1 ..< hs_next h2} \<subseteq>\<^sub>m hs_objs h2 |` {?a ..< hs_next h2}"
        using h1(2) by (auto simp: map_le_def restrict_map_def)
      from represents_mono(2) [OF el(3) this] show ?thesis
        using el(2) h1 t
        by (auto simp: built_def elements_read_def represents.simps seq_reply_def blank_reply_def element_list_def)
    qed
    ultimately show ?thesis unfolding go el(1) by blast
  qed
qed

text \<open>Every value of the protocol is read.\<close>

lemma reads_val: "val_ok std v \<Longrightarrow> length msg < 2 ^ 31 \<Longrightarrow> reads std msg v"
proof (induction v)
  case (V_seq t vs)
  then have "\<And>v. v \<in> set vs \<Longrightarrow> reads std msg v" by (auto simp: list_all_iff)
  with V_seq.prems show ?case by (intro reads_seq)
qed (simp_all add: reads_lines [OF _ _ refl] reads_bulks [OF _ _ refl] reads_null_string [OF _ refl] reads_null_seq [OF _ refl])

section \<open>Reading a reply\<close>

definition ready :: "reader \<Rightarrow> bytes \<Rightarrow> bool" where
  "ready r bs \<longleftrightarrow> holds r bs \<and> rd_ridx r = -1 \<and> rd_maxelements r = REDIS_READER_MAX_ARRAY_ELEMENTS"

lemma arm_slot:
  assumes "ready r bs" "all_ok h"
  shows "at_slot (arm r) h v" "rd_pos (arm r) = rd_pos r" "cur_task (arm r) = fresh_task None (-1)" "rd_ridx (arm r) = 0"
proof -
  have t: "rd_task r \<noteq> []" "rd_err r = 0" using assms by (auto simp: ready_def holds_def reader_ok_def stack_ok_def)
  show c: "cur_task (arm r) = fresh_task None (-1)" and i: "rd_ridx (arm r) = 0" and "rd_pos (arm r) = rd_pos r"
    using assms t by (auto simp: ready_def arm_def)
  have "length (rd_task (arm r)) = length (rd_task r)" using assms by (simp add: arm_def ready_def)
  with c i t assms show "at_slot (arm r) h v"
    by (simp add: at_slot_def fresh_task_def parent_obj_def can_link_def) (simp add: arm_def ready_def)
qed

lemma read_whole:
  assumes rdy: "ready r bs" and h: "all_ok h" and v: "val_ok std v" and m: "willing m"
    and msg: "bs @ p = pre @ encode v @ post" "length pre = rd_pos r" and p: "p \<noteq> []" and len: "length (bs @ p) < 2 ^ 31"
  shows "\<exists>a h1. read_pieces (default_env std) r [p] m h = Reply a h1 \<and> represents std (hs_objs h1) a v"
proof -
  let ?env = "default_env std"
  have hold: "holds r bs" using rdy by (simp add: ready_def)
  obtain r1 m1 where feed: "redisReaderFeed ?env r (Some p) (length p) m h = Some (REDIS_OK, r1, m1, h)"
      "holds r1 (bs @ p)" "rebuf 0 None 0 r1 = rebuf 0 None 0 r"
    using feed_holds [OF hold m _ p, of ?env h] len by auto
  have "rd_ridx (rebuf 0 None 0 r1) = rd_ridx r" "rd_maxelements (rebuf 0 None 0 r1) = rd_maxelements r" "rd_pos (rebuf 0 None 0 r1) = rd_pos r"
    unfolding feed(3) by simp_all
  with rdy feed(2) have rdy1: "ready r1 (bs @ p)" "rd_pos r1 = rd_pos r" by (simp_all add: ready_def)
  note arm = arm_slot [OF rdy1(1) h]
  have pos: "length pre = rd_pos (arm r1)" using msg(2) rdy1(2) arm(2) by simp
  from reads_val [OF v len, unfolded reads_def, rule_format, OF msg(1) pos arm(1)] obtain a h1 r2 where
    rd: "process_loop ?env (bs @ p) (arm r1) h = do { r2 \<leftarrow> moveToNextTask r2; process_loop ?env (bs @ p) r2 h1 }"
      "passed (arm r1) r2 (length (encode v)) a" "built std (cur_task (arm r1)) (parent_obj (arm r1) (cur_task (arm r1))) h a h1 v" by blast
  have idx: "rd_ridx r2 = 0" "rd_reply r2 = a" "rd_err r2 = 0" using rd(2) arm by (auto simp: passed_def same_frame_def at_slot_def)
  have pl: "process_loop ?env (bs @ p) (arm r1) h = Some (r2\<lparr>rd_ridx := -1\<rparr>, h1)"
    using rd(1) idx by (simp add: moveToNextTask.simps [of r2] process_loop.simps [of _ _ "r2\<lparr>rd_ridx := -1\<rparr>"])
  obtain c t h' where loop: "rd_loop ?env (bs @ p) (arm r1, h) = (c, t, h')" by (metis prod_cases3)
  have armed: "reader_ok (arm r1)" "0 \<le> rd_ridx (arm r1)" using arm_ok [of r1] feed(2) by (auto simp: holds_def)
  have ag: "loop_agrees (c, t, h') (Some (r2\<lparr>rd_ridx := -1\<rparr>, h1))"
    using process_loop_turns [of "arm r1" "bs @ p" ?env h] armed len loop pl by (simp add: reader_ok_def)
  then have t: "c \<ge> 0" "t = r2\<lparr>rd_ridx := -1\<rparr>" "h' = h1" using idx(3) by (auto simp: loop_agrees_def split: if_splits)
  note get = get_reply_loop [OF feed(2) _ len loop]
  have ne: "bs @ p \<noteq> []" using p by simp
  have "c \<noteq> 0" using reply.loop_wait [of ?env "bs @ p" "(arm r1, h)" "(t, h')"] loop t armed by auto
  then have c1: "c = 1" using get(5) [OF ne] t(1) by auto
  from get(1) [OF ne c1] obtain r3 where "a \<noteq> 0" "redisReaderGetReply ?env r1 h = Some (REDIS_OK, a, r3, h1)"
    using t idx by auto
  then have "read_pieces ?env r [p] m h = Reply a h1" using feed(1) by simp
  moreover have "hs_objs h1 |` {hs_next h ..< hs_next h1} \<subseteq>\<^sub>m hs_objs h1" by (auto simp: map_le_def restrict_map_def)
  then have "represents std (hs_objs h1) a v" using rd(3) represents_mono(1) by (auto simp: built_def)
  ultimately show ?thesis by blast
qed

lemma create_ready:
  assumes "willing m" "all_ok h"
  shows "\<exists>r m' h'. redisReaderCreate std m h = Some (Some r, m', h') \<and> willing m' \<and> all_ok h' \<and> ready r [] \<and> rd_pos r = 0 \<and>
    hs_objs h' = hs_objs h"
proof -
  let ?env = "default_env std"
  obtain a1 where a1: "store_alloc h = (True, h\<lparr>hs_answers := a1\<rparr>)" "False \<notin> set a1" using store_alloc_ok [OF assms(2)] by blast
  obtain b m' where b: "sdsempty m = Some (Some b, m')" "willing m'" "sds_ok b" "content b = []"
    using delivers_willing [OF sdsempty_ok assms(1)] by blast
  have "all_ok (h\<lparr>hs_answers := a1\<rparr>)" using assms(2) a1 by (simp add: all_ok_def)
  from store_alloc_ok [OF this] obtain a2 where a2: "store_alloc (h\<lparr>hs_answers := a1\<rparr>) = (True, h\<lparr>hs_answers := a2\<rparr>)" "False \<notin> set a2" by auto
  define r0 where "r0 = \<lparr>rd_err = 0, rd_errstr = [], rd_buf = Some b, rd_pos = 0, rd_len = 0,
     rd_maxbuf = REDIS_READER_MAX_BUF, rd_maxelements = REDIS_READER_MAX_ARRAY_ELEMENTS, rd_task = [], rd_ridx = -1, rd_reply = 0\<rparr>"
  have "all_ok (h\<lparr>hs_answers := a2\<rparr>)" using assms(2) a2 by (simp add: all_ok_def)
  from add_tasks_ok [OF this, of std REDIS_READER_STACK_SIZE r0] obtain ts a3 where
    a3: "add_tasks ?env REDIS_READER_STACK_SIZE r0 (h\<lparr>hs_answers := a2\<rparr>) = (True, r0\<lparr>rd_task := ts\<rparr>, h\<lparr>hs_answers := a3\<rparr>)"
      "length ts = 9" "False \<notin> set a3" by (auto simp: r0_def)
  have "redisReaderCreate std m h = Some (Some (r0\<lparr>rd_task := ts\<rparr>), m', h\<lparr>hs_answers := a3\<rparr>)"
    using a1 a2 a3(1) b unfolding redisReaderCreate_def redisReaderCreateWithFunctions_def r0_def by simp
  moreover have "ready (r0\<lparr>rd_task := ts\<rparr>) []"
    using b a3 by (auto simp: ready_def holds_def reader_ok_def stack_ok_def r0_def)
  ultimately show ?thesis using b a3 assms(2) by (auto simp: all_ok_def r0_def)
qed

lemma read_value:
  assumes rdy: "ready r bs" and h: "all_ok h" and v: "val_ok std v" and m: "willing m"
    and msg: "bs @ concat ps = pre @ encode v @ post" "length pre = rd_pos r" and ps: "ps \<noteq> []" "[] \<notin> set ps"
    and len: "length (bs @ concat ps) < 2 ^ 31"
  shows "\<exists>a h1. read_pieces (default_env std) r ps m h = Reply a h1 \<and> represents std (hs_objs h1) a v"
proof -
  have ne: "concat ps \<noteq> []" using ps by (cases ps) auto
  have "read_pieces (default_env std) r ps m h = read_pieces (default_env std) r [concat ps] m h"
    using rdy m ps len by (intro read_pieces_whole) (auto simp: ready_def)
  with read_whole [OF rdy h v m msg ne len] show ?thesis by simp
qed


text \<open>Witness: an array of an integer and a string, in three pieces.\<close>

definition demo_value :: val where
  "demo_value = V_seq REDIS_REPLY_ARRAY [V_integer (-42), V_string ''hi'']"

definition demo_pieces :: "bytes list" where
  "demo_pieces = [''*2'' @ [CR], LF # '':-42'' @ CRLF @ ''$2'', CRLF @ ''hi'' @ CRLF]"

definition demo_store :: store where
  "demo_store = \<lparr>hs_objs = Map.empty, hs_next = 1, hs_answers = [], hs_fault = False\<rparr>"


end
