(* ===== verification/RedisFormat.thy ===== *)
theory RedisFormat
  imports SdsText
begin

text \<open>
  Formatting commands (\<open>hiredis.c\<close>): \<open>redisvFormatCommand\<close> with its \<open>printf\<close>-like formats,
  \<open>redisFormatCommandArgv\<close> and \<open>redisFormatSdsCommandArgv\<close>. The first computes the arguments with
  dynamic strings and then, like the second, the length of the command, a block for it and its
  bytes. \<open>None\<close> is undefined behaviour or a failed assertion.
\<close>

section \<open>Lengths\<close>

function digits_loop :: "nat \<Rightarrow> nat \<Rightarrow> nat" where
  "digits_loop v result =
     (if v < 10 then result
      else if v < 100 then result + 1
      else if v < 1000 then result + 2
      else if v < 10000 then result + 3
      else digits_loop (v div 10000) (result + 4))"
  by pat_completeness auto
termination
  by (relation "measure fst") auto

declare digits_loop.simps [simp del]

text \<open>The argument is a 64-bit number.\<close>

definition countDigits :: "nat \<Rightarrow> nat" where
  "countDigits v = digits_loop v 1"

definition bulklen :: "nat \<Rightarrow> nat" where
  "bulklen len = (1 + countDigits len + 2 + len + 2) mod 2 ^ 64"

text \<open>\<open>totlen += n\<close> for an \<open>int totlen\<close> and a \<open>size_t n\<close>.\<close>

definition add_int :: "int \<Rightarrow> nat \<Rightarrow> int" where
  "add_int totlen n = sint (word_of_int (totlen + int n) :: 32 word)"

section \<open>Writing the command\<close>

definition write_at :: "bytes \<Rightarrow> nat \<Rightarrow> bytes \<Rightarrow> bytes option" where
  "write_at cmd pos src = (if pos + length src \<le> length cmd then Some (overwrite cmd pos src) else None)"

text \<open>\<open>pos += sprintf (cmd+pos, ...)\<close> writes the text and a terminator; \<open>pos\<close> is an \<open>int\<close>.\<close>

definition write_text :: "bytes \<Rightarrow> nat \<Rightarrow> bytes \<Rightarrow> (bytes \<times> nat) option" where
  "write_text cmd pos txt =
     (if pos + length txt < 2 ^ 31 then do { cmd \<leftarrow> write_at cmd pos (txt @ [NUL]); Some (cmd, pos + length txt) } else None)"

fun write_args :: "bytes \<Rightarrow> nat \<Rightarrow> bytes list \<Rightarrow> (bytes \<times> nat) option" where
  "write_args cmd pos [] = Some (cmd, pos)"
| "write_args cmd pos (arg # args) = do {
     (cmd, pos) \<leftarrow> write_text cmd pos (CHR ''$'' # dec_nat (length arg) @ [CR, LF]);
     cmd \<leftarrow> write_at cmd pos arg;
     cmd \<leftarrow> write_at cmd (pos + length arg) [CR];
     cmd \<leftarrow> write_at cmd (pos + length arg + 1) [LF];
     if pos + length arg + 2 < 2 ^ 31 then write_args cmd (pos + length arg + 2) args else None }"

definition write_command :: "bytes \<Rightarrow> int \<Rightarrow> bytes list \<Rightarrow> int \<Rightarrow> bytes option" where
  "write_command cmd argc args totlen = do {
     (cmd, pos) \<leftarrow> write_text cmd 0 (CHR ''*'' # dec_int argc @ [CR, LF]);
     (cmd, pos) \<leftarrow> write_args cmd pos args;
     if int pos = totlen then write_at cmd pos [NUL] else None }"

text \<open>\<open>hi_malloc (totlen+1)\<close>; a negative number is a \<open>size_t\<close> that no allocator grants.\<close>

definition malloc_command :: "int \<Rightarrow> memory \<Rightarrow> (bytes option \<times> memory) option" where
  "malloc_command totlen m =
     (if totlen + 1 \<ge> 2 ^ 31 then None
      else if totlen + 1 < 0 then Some (None, m)
      else Some (s_malloc (nat (totlen + 1)) m))"

section \<open>Commands from an argument vector\<close>

text \<open>\<open>argv\<close> holds the bytes that can be read at each pointer; \<open>argvlen\<close> may be null.\<close>

definition arg_at :: "bytes list \<Rightarrow> nat list option \<Rightarrow> nat \<Rightarrow> bytes option" where
  "arg_at argv argvlen j =
     (if j < length argv
      then case argvlen of
             Some ls \<Rightarrow> if j < length ls then peek (argv ! j) 0 (ls ! j) else None
           | None \<Rightarrow> if NUL \<in> set (argv ! j) then Some (c_str (argv ! j)) else None
      else None)"

fun args_from :: "bytes list \<Rightarrow> nat list option \<Rightarrow> nat list \<Rightarrow> bytes list option" where
  "args_from argv argvlen [] = Some []"
| "args_from argv argvlen (j # js) = do {
     a \<leftarrow> arg_at argv argvlen j;
     as \<leftarrow> args_from argv argvlen js;
     Some (a # as) }"

text \<open>\<open>1+countDigits(argc)+2\<close>, where a negative \<open>argc\<close> is converted to 64 bits.\<close>

definition header_len :: "int \<Rightarrow> nat" where
  "header_len argc = 1 + countDigits (nat (argc mod 2 ^ 64)) + 2"

text \<open>The result, what \<open>*target\<close> becomes (\<open>None\<close> when it is not written) and the memory.\<close>

definition redisFormatCommandArgv :: "bool \<Rightarrow> int \<Rightarrow> bytes list \<Rightarrow> nat list option \<Rightarrow> memory
    \<Rightarrow> (int \<times> bytes option \<times> memory) option" where
  "redisFormatCommandArgv target argc argv argvlen m =
     (if \<not> target then Some (-1, None, m)
      else do {
        args \<leftarrow> args_from argv argvlen [0 ..< nat argc];
        let totlen = fold (\<lambda>a n. add_int n (bulklen (length a))) args (int (header_len argc));
        (cmd, m) \<leftarrow> malloc_command totlen m;
        case cmd of
          None \<Rightarrow> Some (-1, None, m)
        | Some cmd \<Rightarrow> do {
            cmd \<leftarrow> write_command cmd argc args totlen;
            Some (totlen, Some cmd, m) } })"

text \<open>
  The variant on a dynamic string. The length is passed to \<open>%u\<close>, which takes the low 32 bits. A
  null string is passed on to the next call, which dereferences it.
\<close>

fun sds_args :: "sds \<Rightarrow> bytes list \<Rightarrow> memory \<Rightarrow> (sds option \<times> memory) option" where
  "sds_args cmd [] m = Some (Some cmd, m)"
| "sds_args cmd (arg # args) m = do {
     (cmd, m) \<leftarrow> sdscatfmt cmd (''$%u'' @ [CR, LF, NUL]) [Arg_uint (length arg mod 2 ^ 32)] m;
     cmd \<leftarrow> cmd;
     (cmd, m) \<leftarrow> sdscatlen cmd arg (length arg) m;
     cmd \<leftarrow> cmd;
     (cmd, m) \<leftarrow> sdscatlen cmd [CR, LF, NUL] 2 m;
     cmd \<leftarrow> cmd;
     sds_args cmd args m }"

definition redisFormatSdsCommandArgv :: "bool \<Rightarrow> int \<Rightarrow> bytes list \<Rightarrow> nat list option \<Rightarrow> memory
    \<Rightarrow> (int \<times> sds option \<times> memory) option" where
  "redisFormatSdsCommandArgv target argc argv argvlen m =
     (if \<not> target then Some (-1, None, m)
      else do {
        args \<leftarrow> args_from argv argvlen [0 ..< nat argc];
        let totlen = fold (\<lambda>a n. (n + bulklen (length a)) mod 2 ^ 64) args (header_len argc);
        (cmd, m) \<leftarrow> sdsempty m;
        case cmd of
          None \<Rightarrow> Some (-1, None, m)
        | Some cmd \<Rightarrow> do {
            (aux, m) \<leftarrow> sdsMakeRoomFor cmd totlen m;
            case aux of
              None \<Rightarrow> Some (-1, None, m)
            | Some cmd \<Rightarrow> do {
                (cmd, m) \<leftarrow> sdscatfmt cmd (''*%i'' @ [CR, LF, NUL]) [Arg_int argc] m;
                cmd \<leftarrow> cmd;
                (cmd, m) \<leftarrow> sds_args cmd args m;
                cmd \<leftarrow> cmd;
                if sdslen cmd = totlen then Some (int32 totlen, Some cmd, m) else None } } })"

section \<open>Commands from a format\<close>

text \<open>The variadic arguments. Fetching one of another type is undefined.\<close>

datatype va =
    VA_str bytes
  | VA_size nat
  | VA_int int
  | VA_long int
  | VA_longlong int
  | VA_double "64 word"

text \<open>The detection of a conversion of \<open>printf\<close>: the type it fetches and what follows it.\<close>

datatype va_type = T_int | T_double | T_long | T_longlong

datatype detected =
    Invalid
  | Past_end
  | Conv va_type bytes

definition int_conv :: "bytes \<Rightarrow> bool" where
  "int_conv p \<longleftrightarrow> p \<noteq> [] \<and> hd p \<in> set ''diouxX''"

definition skip_spec :: "bytes \<Rightarrow> bytes" where
  "skip_spec p =
     (let p = dropWhile (\<lambda>c. c \<in> set ''#0-+ '') p; p = dropWhile c_isdigit p
      in if p \<noteq> [] \<and> hd p = CHR ''.'' then dropWhile c_isdigit (tl p) else p)"

text \<open>At the end of the format \<open>strchr\<close> finds its terminator among the integer conversions.\<close>

definition detect :: "bytes \<Rightarrow> detected" where
  "detect p =
     (let p = skip_spec p; sized = (\<lambda>t p. if int_conv p then Conv t (tl p) else Invalid) in
      case p of
        [] \<Rightarrow> Past_end
      | c # p' \<Rightarrow>
          if int_conv p then Conv T_int p'
          else if c \<in> set ''eEfFgGaA'' then Conv T_double p'
          else if c = CHR ''h'' then if p' \<noteq> [] \<and> hd p' = CHR ''h'' then sized T_int (tl p') else sized T_int p'
          else if c = CHR ''l'' then if p' \<noteq> [] \<and> hd p' = CHR ''l'' then sized T_longlong (tl p') else sized T_long p'
          else Invalid)"

fun fetch :: "va_type \<Rightarrow> va list \<Rightarrow> (va \<times> va list) option" where
  "fetch T_int (VA_int i # ap) = Some (VA_int i, ap)"
| "fetch T_long (VA_long i # ap) = Some (VA_long i, ap)"
| "fetch T_longlong (VA_longlong i # ap) = Some (VA_longlong i, ap)"
| "fetch T_double (VA_double d # ap) = Some (VA_double d, ap)"
| "fetch _ _ = None"

record formatter =
  fc_arg :: sds
  fc_touched :: bool
  fc_argv :: "sds list"
  fc_totlen :: int

text \<open>Storing the current argument: \<open>False\<close> when the vector cannot grow.\<close>

definition store_arg :: "formatter \<Rightarrow> memory \<Rightarrow> bool \<times> formatter \<times> memory" where
  "store_arg st m =
     (case s_malloc (8 * (length (fc_argv st) + 1)) m of
        (None, m) \<Rightarrow> (False, st, m)
      | (Some _, m) \<Rightarrow> (True, st\<lparr>fc_argv := fc_argv st @ [fc_arg st], fc_totlen := add_int (fc_totlen st) (bulklen (sdslen (fc_arg st)))\<rparr>, m))"

text \<open>
  One conversion after the percent sign \<open>c\<close>: the new argument, the rest of the format and the
  variadic arguments. \<open>Inl\<close> is a format error. \<open>pf\<close> is the text that the C library prints for a
  conversion and its argument.
\<close>

definition format_conv :: "(bytes \<Rightarrow> va \<Rightarrow> bytes) \<Rightarrow> bytes \<Rightarrow> va list \<Rightarrow> sds \<Rightarrow> memory
    \<Rightarrow> (unit + sds option \<times> bytes \<times> va list \<times> memory) option" where
  "format_conv pf c ap cur m =
     (let k = c ! 1; rest = drop 2 c in
      if k = CHR ''s'' then
        (case ap of
           VA_str s # ap \<Rightarrow>
             if NUL \<notin> set s then None
             else if c_strlen s > 0 then do { (s', m) \<leftarrow> sdscatlen cur s (c_strlen s) m; Some (Inr (s', rest, ap, m)) }
             else Some (Inr (Some cur, rest, ap, m))
         | _ \<Rightarrow> None)
      else if k = CHR ''b'' then
        (case ap of
           VA_str s # VA_size n # ap \<Rightarrow>
             if n > 0 then do { (s', m) \<leftarrow> sdscatlen cur s n m; Some (Inr (s', rest, ap, m)) }
             else Some (Inr (Some cur, rest, ap, m))
         | _ \<Rightarrow> None)
      else if k = CHR ''%'' then do { (s', m) \<leftarrow> sdscat cur (''%'' @ [NUL]) m; Some (Inr (s', rest, ap, m)) }
      else
        (case detect (tl c) of
           Invalid \<Rightarrow> Some (Inl ())
         | Past_end \<Rightarrow>
             if length c + 1 < 14 then None
             else do { (_, ap) \<leftarrow> fetch T_int ap; Some (Inr (Some cur, rest, ap, m)) }
         | Conv t rest' \<Rightarrow> do {
             (v, ap) \<leftarrow> fetch t ap;
             let l = length c - length rest';
             if l < 14
             then do { (s', m) \<leftarrow> sdscatvprintf cur l (pf (take l c) v) m; Some (Inr (s', rest', ap, m)) }
             else Some (Inr (Some cur, rest, ap, m)) }))"

text \<open>The loop over the format; the list is the rest of it, its end the terminator. \<open>Inl\<close> is the
  error code.\<close>

lemma detect_rest: "detect p = Conv t rest \<Longrightarrow> length rest < length p"
proof -
  have tw: "length (dropWhile P xs) \<le> length xs" for P :: "byte \<Rightarrow> bool" and xs by (rule length_dropWhile_le)
  have "length (skip_spec p) \<le> length p"
  proof -
    define q where "q = dropWhile c_isdigit (dropWhile (\<lambda>c. c \<in> set ''#0-+ '') p)"
    have "length q \<le> length p" unfolding q_def using tw le_trans by blast
    moreover have "length (dropWhile c_isdigit (tl q)) \<le> length q" using tw [of c_isdigit "tl q"] by simp
    moreover have "skip_spec p = (if q \<noteq> [] \<and> hd q = CHR ''.'' then dropWhile c_isdigit (tl q) else q)"
      by (simp only: skip_spec_def Let_def q_def)
    ultimately show ?thesis by simp
  qed
  moreover assume "detect p = Conv t rest"
  then have "length rest < length (skip_spec p)"
    by (cases "skip_spec p") (auto simp: detect_def Let_def int_conv_def split: if_splits)
  ultimately show ?thesis by simp
qed

lemma format_conv_rest:
  assumes "format_conv pf c ap cur m = Some (Inr (s, rest, ap', m'))" "2 \<le> length c"
  shows "length rest < length c"
proof (cases "rest = drop 2 c")
  case True
  with assms(2) show ?thesis by simp
next
  case False
  then obtain t where "detect (tl c) = Conv t rest"
    using assms(1) by (auto simp: format_conv_def Let_def bind_eq_Some_conv split: if_splits list.splits va.splits detected.splits)
  from detect_rest [OF this] show ?thesis by simp
qed

function format_loop :: "(bytes \<Rightarrow> va \<Rightarrow> bytes) \<Rightarrow> bytes \<Rightarrow> va list \<Rightarrow> formatter \<Rightarrow> memory
    \<Rightarrow> ((int + formatter) \<times> memory) option" where
  "format_loop pf c ap st m =
     (case c of
        [] \<Rightarrow> Some (Inr st, m)
      | x # c' \<Rightarrow>
          if x \<noteq> CHR ''%'' \<or> c' = [] then
            if x = SP then
              if fc_touched st then
                (case store_arg st m of
                   (False, st, m) \<Rightarrow> Some (Inl (-1), m)
                 | (True, st, m) \<Rightarrow> do {
                     (a, m) \<leftarrow> sdsempty m;
                     case a of
                       None \<Rightarrow> Some (Inl (-1), m)
                     | Some a \<Rightarrow> format_loop pf c' ap (st\<lparr>fc_arg := a, fc_touched := False\<rparr>) m })
              else format_loop pf c' ap st m
            else do {
              (a, m) \<leftarrow> sdscatlen (fc_arg st) c 1 m;
              case a of
                None \<Rightarrow> Some (Inl (-1), m)
              | Some a \<Rightarrow> format_loop pf c' ap (st\<lparr>fc_arg := a, fc_touched := True\<rparr>) m }
          else
            (case format_conv pf c ap (fc_arg st) m of
               None \<Rightarrow> None
             | Some (Inl _) \<Rightarrow> Some (Inl (-2), m)
             | Some (Inr (a, rest, ap, m)) \<Rightarrow>
                 (case a of
                    None \<Rightarrow> Some (Inl (-1), m)
                  | Some a \<Rightarrow> format_loop pf rest ap (st\<lparr>fc_arg := a, fc_touched := True\<rparr>) m)))"
  by pat_completeness auto
termination
proof (relation "measure (\<lambda>(pf, c, ap, st, m). length c)", goal_cases)
  case (5 pf c ap st m x c' res r a q rest ap' m' a')
  then show ?case using format_conv_rest [of pf c ap "fc_arg st" m] by (cases c') auto
qed auto

declare format_loop.simps [simp del]

definition redisvFormatCommand :: "(bytes \<Rightarrow> va \<Rightarrow> bytes) \<Rightarrow> bool \<Rightarrow> bytes \<Rightarrow> va list \<Rightarrow> memory
    \<Rightarrow> (int \<times> bytes option \<times> memory) option" where
  "redisvFormatCommand pf target format ap m =
     (if \<not> target then Some (-1, None, m)
      else do {
        (cur, m) \<leftarrow> sdsempty m;
        case cur of
          None \<Rightarrow> Some (-1, None, m)
        | Some cur \<Rightarrow> do {
            (res, m) \<leftarrow> format_loop pf (c_str format) ap \<lparr>fc_arg = cur, fc_touched = False, fc_argv = [], fc_totlen = 0\<rparr> m;
            case res of
              Inl code \<Rightarrow> Some (code, None, m)
            | Inr st \<Rightarrow>
                (case (if fc_touched st then store_arg st m else (True, st, m)) of
                   (False, st, m) \<Rightarrow> Some (-1, None, m)
                 | (True, st, m) \<Rightarrow>
                     let argc = int (length (fc_argv st)); totlen = add_int (fc_totlen st) (header_len argc) in
                     do {
                       (cmd, m) \<leftarrow> malloc_command totlen m;
                       case cmd of
                         None \<Rightarrow> Some (-1, None, m)
                       | Some cmd \<Rightarrow> do {
                           args \<leftarrow> those (map (\<lambda>a. peek (buf a) 0 (sdslen a)) (fc_argv st));
                           cmd \<leftarrow> write_command cmd argc args totlen;
                           Some (totlen, Some cmd, m) } }) } })"

definition redisFormatCommand :: "(bytes \<Rightarrow> va \<Rightarrow> bytes) \<Rightarrow> bool \<Rightarrow> bytes \<Rightarrow> va list \<Rightarrow> memory
    \<Rightarrow> (int \<times> bytes option \<times> memory) option" where
  "redisFormatCommand pf target format ap m = do {
     (len, cmd, m) \<leftarrow> redisvFormatCommand pf target format ap m;
     Some (if len < 0 then -1 else len, cmd, m) }"

section \<open>Lengths are exact\<close>

lemma dec_nat_small: "v < 10 \<Longrightarrow> length (dec_nat v) = 1"
  by (subst dec_nat.simps) simp

lemma dec_nat_step: "10 \<le> v \<Longrightarrow> length (dec_nat v) = length (dec_nat (v div 10)) + 1"
  by (subst dec_nat.simps) simp

lemma digits_loop_eq: "digits_loop v result + 1 = result + length (dec_nat v)"
proof (induction v result rule: digits_loop.induct)
  case (1 v result)
  have ge: "length (dec_nat v) = length (dec_nat (v div 10000)) + 4" if "10000 \<le> v"
  proof -
    have "v div 10 div 10 div 10 div 10 = v div 10000" by (simp add: div_mult2_eq [symmetric])
    moreover have "10 \<le> v" "10 \<le> v div 10" "10 \<le> v div 10 div 10" "10 \<le> v div 10 div 10 div 10" using that by simp_all
    ultimately show ?thesis by (simp add: dec_nat_step)
  qed
  consider "v < 10" | "10 \<le> v" "v < 100" | "100 \<le> v" "v < 1000" | "1000 \<le> v" "v < 10000" | "10000 \<le> v" by linarith
  then show ?case
  proof cases
    case 5
    with 1 ge show ?thesis by (subst digits_loop.simps) simp
  qed (subst digits_loop.simps, simp add: dec_nat_step dec_nat_small)+
qed

lemma countDigits_eq: "countDigits v = length (dec_nat v)"
  using digits_loop_eq [of v 1] by (simp add: countDigits_def)

definition bulk_bytes :: "bytes \<Rightarrow> bytes" where
  "bulk_bytes arg = CHR ''$'' # dec_nat (length arg) @ [CR, LF] @ arg @ [CR, LF]"

definition command_bytes :: "bytes list \<Rightarrow> bytes" where
  "command_bytes args = CHR ''*'' # dec_nat (length args) @ [CR, LF] @ concat (map bulk_bytes args)"

lemma bulklen_eq: "length (bulk_bytes arg) < 2 ^ 64 \<Longrightarrow> bulklen (length arg) = length (bulk_bytes arg)"
  by (simp add: bulklen_def bulk_bytes_def countDigits_eq)

lemma header_len_eq: "n < 2 ^ 64 \<Longrightarrow> header_len (int n) = length (CHR ''*'' # dec_nat n @ [CR, LF])"
  by (simp add: header_len_def countDigits_eq)

lemma add_int_small: "0 \<le> t \<Longrightarrow> t + int n < 2 ^ 31 \<Longrightarrow> add_int t n = t + int n"
  unfolding add_int_def by (rule sint32_id) simp_all

lemma totlen_int:
  "t + length (concat (map bulk_bytes args)) < 2 ^ 31 \<Longrightarrow>
   fold (\<lambda>a n. add_int n (bulklen (length a))) args (int t) = int (t + length (concat (map bulk_bytes args)))"
proof (induction args arbitrary: t)
  case (Cons a args)
  then have "add_int (int t) (bulklen (length a)) = int (t + length (bulk_bytes a))"
    by (simp add: bulklen_eq add_int_small)
  with Cons.IH [of "t + length (bulk_bytes a)"] Cons.prems show ?case by (simp add: add.assoc)
qed simp

lemma totlen_nat:
  "t + length (concat (map bulk_bytes args)) < 2 ^ 64 \<Longrightarrow>
   fold (\<lambda>a n. (n + bulklen (length a)) mod 2 ^ 64) args t = t + length (concat (map bulk_bytes args))"
proof (induction args arbitrary: t)
  case (Cons a args)
  then show ?case by (simp add: bulklen_eq add.assoc)
qed simp

section \<open>The bytes written\<close>

lemma write_at_ok:
  "pos + length src \<le> length cmd \<Longrightarrow> take pos cmd = xs \<Longrightarrow>
   \<exists>cmd'. write_at cmd pos src = Some cmd' \<and> length cmd' = length cmd \<and> take (pos + length src) cmd' = xs @ src"
  by (simp add: write_at_def)

lemma write_text_ok:
  assumes "pos + length txt < length cmd" "pos + length txt < 2 ^ 31" "take pos cmd = xs"
  shows "\<exists>cmd'. write_text cmd pos txt = Some (cmd', pos + length txt) \<and> length cmd' = length cmd \<and> take (pos + length txt) cmd' = xs @ txt"
proof -
  have "pos + length (txt @ [NUL]) \<le> length cmd" using assms(1) by simp
  from write_at_ok [OF this assms(3)] obtain cmd' where
    c: "write_at cmd pos (txt @ [NUL]) = Some cmd'" "length cmd' = length cmd" "take (pos + length (txt @ [NUL])) cmd' = xs @ txt @ [NUL]" by auto
  have "take (pos + length txt) cmd' = take (pos + length txt) (take (pos + length (txt @ [NUL])) cmd')" by (simp add: min_absorb1)
  also have "\<dots> = xs @ txt" unfolding c(3) using assms by auto
  finally show ?thesis using c assms(2) by (simp add: write_text_def)
qed

lemma write_args_ok:
  "\<lbrakk>pos + length (concat (map bulk_bytes args)) < length cmd; pos + length (concat (map bulk_bytes args)) < 2 ^ 31; take pos cmd = xs\<rbrakk> \<Longrightarrow>
   \<exists>cmd'. write_args cmd pos args = Some (cmd', pos + length (concat (map bulk_bytes args))) \<and> length cmd' = length cmd \<and>
     take (pos + length (concat (map bulk_bytes args))) cmd' = xs @ concat (map bulk_bytes args)"
proof (induction args arbitrary: cmd pos xs)
  case (Cons a args)
  let ?h = "CHR ''$'' # dec_nat (length a) @ [CR, LF]"
  have b: "length (bulk_bytes a) = length ?h + length a + 2" by (simp add: bulk_bytes_def)
  have l: "pos + length ?h + length a + 2 + length (concat (map bulk_bytes args)) < length cmd"
    "pos + length ?h + length a + 2 + length (concat (map bulk_bytes args)) < 2 ^ 31" using Cons.prems(1,2) b by simp_all
  obtain c1 where c1: "write_text cmd pos ?h = Some (c1, pos + length ?h)" "length c1 = length cmd" "take (pos + length ?h) c1 = xs @ ?h"
    using write_text_ok [of pos ?h cmd xs] l Cons.prems(3) by auto
  obtain c2 where c2: "write_at c1 (pos + length ?h) a = Some c2" "length c2 = length cmd" "take (pos + length ?h + length a) c2 = (xs @ ?h) @ a"
    using write_at_ok [of "pos + length ?h" a c1] c1 l by auto
  obtain c3 where c3: "write_at c2 (pos + length ?h + length a) [CR] = Some c3" "length c3 = length cmd"
      "take (pos + length ?h + length a + 1) c3 = ((xs @ ?h) @ a) @ [CR]"
    using write_at_ok [of "pos + length ?h + length a" "[CR]" c2] c2 l by auto
  obtain c4 where c4: "write_at c3 (pos + length ?h + length a + 1) [LF] = Some c4" "length c4 = length cmd"
      "take (pos + length ?h + length a + 1 + 1) c4 = (((xs @ ?h) @ a) @ [CR]) @ [LF]"
    using write_at_ok [of "pos + length ?h + length a + 1" "[LF]" c3] c3 l by auto
  have t4: "take (pos + length ?h + length a + 2) c4 = xs @ bulk_bytes a" using c4(3) by (simp add: bulk_bytes_def)
  have "write_args cmd pos (a # args) = write_args c4 (pos + length ?h + length a + 2) args"
    using c1(1) c2(1) c3(1) c4(1) l(2) by simp
  with Cons.IH [OF _ _ t4] l c4(2) b show ?case by (simp add: add.assoc)
qed simp

lemma write_command_ok:
  assumes "length cmd = length (command_bytes args) + 1" "length (command_bytes args) < 2 ^ 31"
  shows "\<exists>cmd'. write_command cmd (int (length args)) args (int (length (command_bytes args))) = Some cmd' \<and>
    cmd' = command_bytes args @ [NUL]"
proof -
  let ?h = "CHR ''*'' # dec_nat (length args) @ [CR, LF]"
  have l: "length (command_bytes args) = length ?h + length (concat (map bulk_bytes args))" by (simp add: command_bytes_def)
  have d: "dec_int (int (length args)) = dec_nat (length args)" by (simp add: dec_int_def)
  obtain c1 where c1: "write_text cmd 0 ?h = Some (c1, length ?h)" "length c1 = length cmd" "take (length ?h) c1 = ?h"
    using write_text_ok [of 0 ?h cmd "[]"] assms l by auto
  obtain c2 where c2: "write_args c1 (length ?h) args = Some (c2, length (command_bytes args))" "length c2 = length cmd"
      "take (length (command_bytes args)) c2 = command_bytes args"
    using write_args_ok [OF _ _ c1(3), of args] c1(2) assms l by (auto simp: command_bytes_def)
  obtain c3 where c3: "write_at c2 (length (command_bytes args)) [NUL] = Some c3" "length c3 = length cmd"
      "take (length (command_bytes args) + 1) c3 = command_bytes args @ [NUL]"
    using write_at_ok [of "length (command_bytes args)" "[NUL]" c2] c2 assms by auto
  have "c3 = command_bytes args @ [NUL]" using c3(2,3) assms(1) by simp
  then show ?thesis
    using c1(1) c2(1) c3(1) unfolding write_command_def d by simp
qed

lemma malloc_command_ok:
  assumes "willing m" "n + 1 < 2 ^ 31"
  shows "\<exists>cmd m'. malloc_command (int n) m = Some (Some cmd, m') \<and> length cmd = n + 1 \<and> willing m'"
  using assms by (cases rule: s_malloc_cases [of "n + 1" m]) (auto simp: malloc_command_def nat_add_distrib)

section \<open>Commands from an argument vector: correctness\<close>

lemma args_from_length: "args_from argv argvlen js = Some args \<Longrightarrow> length args = length js"
  by (induction js arbitrary: args) (auto simp: bind_eq_Some_conv)

lemma catfmt_number:
  assumes "sds_ok s" "v < 2 ^ 32" "sdslen s + length (dec_nat v) + 4 < 2 ^ 31" "willing m"
  shows "\<exists>s' m'. sdscatfmt s (''$%u'' @ [CR, LF, NUL]) [Arg_uint v] m = Some (Some s', m') \<and> willing m' \<and>
      sds_ok s' \<and> content s' = content s @ CHR ''$'' # dec_nat v @ [CR, LF]"
    and "\<exists>s' m'. sdscatfmt s (''*%i'' @ [CR, LF, NUL]) [Arg_int (int v)] m = Some (Some s', m') \<and> willing m' \<and>
      sds_ok s' \<and> content s' = content s @ CHR ''*'' # dec_nat v @ [CR, LF]"
proof -
  have c: "c_str (''$%u'' @ [CR, LF, NUL]) = ''$%u'' @ [CR, LF]" "c_str (''*%i'' @ [CR, LF, NUL]) = ''*%i'' @ [CR, LF]" by code_simp+
  have f: "fmt_spec (''$%u'' @ [CR, LF]) [Arg_uint v] = Some (CHR ''$'' # dec_nat v @ [CR, LF])"
    "fmt_spec (''*%i'' @ [CR, LF]) [Arg_int (int v)] = Some (CHR ''*'' # dec_nat v @ [CR, LF])"
    using assms(2) by (simp_all add: sdsull2str_eq sdsll2str_eq dec_int_def)
  note L = fmt_loop_ok [OF _ sds_ok_fmt_at [OF assms(1)]]
  show "\<exists>s' m'. sdscatfmt s (''$%u'' @ [CR, LF, NUL]) [Arg_uint v] m = Some (Some s', m') \<and> willing m' \<and>
      sds_ok s' \<and> content s' = content s @ CHR ''$'' # dec_nat v @ [CR, LF]"
    unfolding sdscatfmt_def c using delivers_willing [OF L [OF f(1), of m] assms(4)] assms(1,3) by auto
  show "\<exists>s' m'. sdscatfmt s (''*%i'' @ [CR, LF, NUL]) [Arg_int (int v)] m = Some (Some s', m') \<and> willing m' \<and>
      sds_ok s' \<and> content s' = content s @ CHR ''*'' # dec_nat v @ [CR, LF]"
    unfolding sdscatfmt_def c using delivers_willing [OF L [OF f(2), of m] assms(4)] assms(1,3) by auto
qed

lemma sds_args_ok:
  "\<lbrakk>sds_ok s; length (content s) + length (concat (map bulk_bytes args)) + 1 < 2 ^ 31; willing m\<rbrakk> \<Longrightarrow>
   \<exists>s' m'. sds_args s args m = Some (Some s', m') \<and> willing m' \<and> sds_ok s' \<and> content s' = content s @ concat (map bulk_bytes args)"
proof (induction args arbitrary: s m)
  case (Cons a args)
  have b: "length (bulk_bytes a) = length (dec_nat (length a)) + length a + 5" by (simp add: bulk_bytes_def)
  have l: "sdslen s + length (dec_nat (length a)) + length a + 5 + length (concat (map bulk_bytes args)) + 1 < 2 ^ 31"
    using Cons.prems(1,2) b by simp
  obtain s1 m1 where s1: "sdscatfmt s (''$%u'' @ [CR, LF, NUL]) [Arg_uint (length a mod 2 ^ 32)] m = Some (Some s1, m1)" "willing m1"
      "sds_ok s1" "content s1 = content s @ CHR ''$'' # dec_nat (length a) @ [CR, LF]"
    using catfmt_number(1) [OF Cons.prems(1), of "length a" m] l Cons.prems(3) by auto
  obtain s2 m2 where s2: "sdscatlen s1 a (length a) m1 = Some (Some s2, m2)" "willing m2" "sds_ok s2" "content s2 = content s1 @ a"
    using delivers_willing [OF catlen.app_ok [OF s1(3), of a m1] s1(2)] s1(4) l Cons.prems(1) by auto
  have n3: "sdslen s2 + 2 < 2 ^ 63"
    using l length_content [OF s2(3)] Cons.prems(1) unfolding s2(4) s1(4) by simp
  obtain s3 m3 where s3: "sdscatlen s2 [CR, LF, NUL] 2 m2 = Some (Some s3, m3)" "willing m3" "sds_ok s3" "content s3 = content s2 @ [CR, LF]"
    using delivers_willing [OF sdscatlen_ok [OF s2(3) n3, of "[CR, LF, NUL]"] s2(2)] by auto
  have c3: "content s3 = content s @ bulk_bytes a" using s1(4) s2(4) s3(4) by (simp add: bulk_bytes_def)
  have "length (content s3) + length (concat (map bulk_bytes args)) + 1 < 2 ^ 31" using Cons.prems(2) c3 by simp
  from Cons.IH [OF s3(3) this s3(2)] c3 s1(1) s2(1) s3(1) show ?case by auto
qed simp

text \<open>C21: Both functions that format an argument vector produce exactly the wire form of the command.
  The length computed beforehand is the length of the text, so that the block is neither overrun
  nor left unfinished and the assertion holds; the plain variant adds the terminator.\<close>

theorem format_argv:
  assumes "args_from argv argvlen [0 ..< n] = Some args" "length (command_bytes args) + 1 < 2 ^ 31" "willing m"
  shows "(\<exists>m'. redisFormatCommandArgv True (int n) argv argvlen m =
      Some (int (length (command_bytes args)), Some (command_bytes args @ [NUL]), m')) \<and>
    (\<exists>s m'. redisFormatSdsCommandArgv True (int n) argv argvlen m = Some (int (length (command_bytes args)), Some s, m') \<and>
      sds_ok s \<and> content s = command_bytes args)"
proof
  have n: "n = length args" using args_from_length [OF assms(1)] by simp
  let ?h = "length (CHR ''*'' # dec_nat n @ [CR, LF])"
  have len: "length (command_bytes args) = ?h + length (concat (map bulk_bytes args))" by (simp add: command_bytes_def n)
  have "length args \<le> length (concat (map bulk_bytes args))"
    by (induction args) (auto simp: bulk_bytes_def)
  then have n31: "n < 2 ^ 31" using assms(2) len n by simp
  then have hl: "header_len (int n) = ?h" by (intro header_len_eq) simp
  have tot: "fold (\<lambda>a n. add_int n (bulklen (length a))) args (int (header_len (int n))) = int (length (command_bytes args))"
    using totlen_int [of ?h args] assms(2) len unfolding hl by simp
  obtain cmd m1 where "malloc_command (int (length (command_bytes args))) m = Some (Some cmd, m1)" "length cmd = length (command_bytes args) + 1"
    using malloc_command_ok [OF assms(3), of "length (command_bytes args)"] assms(2) by auto
  with write_command_ok [of cmd args] assms(1,2) tot n
  show "\<exists>m'. redisFormatCommandArgv True (int n) argv argvlen m =
      Some (int (length (command_bytes args)), Some (command_bytes args @ [NUL]), m')"
    by (auto simp: redisFormatCommandArgv_def Let_def)
  have tot2: "fold (\<lambda>a n. (n + bulklen (length a)) mod 2 ^ 64) args (header_len (int n)) = length (command_bytes args)"
    using totlen_nat [of ?h args] assms(2) len unfolding hl by simp
  obtain s0 m0 where s0: "sdsempty m = Some (Some s0, m0)" "willing m0" "sds_ok s0" "content s0 = []"
    using delivers_willing [OF sdsempty_ok assms(3)] by blast
  have z: "sdslen s0 = 0" using length_content [OF s0(3)] s0(4) by simp
  have room: "sds_room s0" using s0(3) by (simp add: sds_ok_def)
  obtain s1 m2 where s1: "sdsMakeRoomFor s0 (length (command_bytes args)) m0 = Some (Some s1, m2)" "willing m2" "same_string s0 s1"
    using delivers_willing [OF MakeRoom_same [OF room, of "length (command_bytes args)" m0] s0(2)] z assms(2) by auto
  have s1ok: "sds_ok s1" "content s1 = []" "sdslen s1 = 0"
    using same_string_ok [OF s1(3)] same_string_content [OF s1(3)] s0 s1(3) z by (auto simp: same_string_def)
  obtain s2 m3 where s2: "sdscatfmt s1 (''*%i'' @ [CR, LF, NUL]) [Arg_int (int n)] m2 = Some (Some s2, m3)" "willing m3" "sds_ok s2"
      "content s2 = CHR ''*'' # dec_nat n @ [CR, LF]"
    using catfmt_number(2) [OF s1ok(1), of n m2] s1(2) s1ok n31 len assms(2) by auto
  obtain s3 m4 where s3: "sds_args s2 args m3 = Some (Some s3, m4)" "sds_ok s3" "content s3 = command_bytes args"
    using sds_args_ok [OF s2(3), of args m3] s2 len assms(2) by (auto simp: command_bytes_def n)
  have l3: "sdslen s3 = length (command_bytes args)" using length_content [OF s3(2)] s3(3) by simp
  have i32: "int32 (length (command_bytes args)) = int (length (command_bytes args))" using assms(2) by (intro sint32_id) simp_all
  show "\<exists>s m'. redisFormatSdsCommandArgv True (int n) argv argvlen m = Some (int (length (command_bytes args)), Some s, m') \<and>
      sds_ok s \<and> content s = command_bytes args"
    unfolding redisFormatSdsCommandArgv_def
    using assms(1) tot2 s0(1) s1(1) s2(1) s3 l3 i32 by (simp add: Let_def)
qed

theorem format_argv_witness:
  "\<exists>m'. redisFormatCommandArgv True 2 [''GET'' @ [NUL], ''a b'' @ [NUL]] None [] =
     Some (int (length (command_bytes [''GET'', ''a b''])), Some (command_bytes [''GET'', ''a b''] @ [NUL]), m')"
proof -
  have "args_from [''GET'' @ [NUL], ''a b'' @ [NUL]] None [0 ..< 2] = Some [''GET'', ''a b'']" by code_simp
  moreover have "command_bytes [''GET'', ''a b''] = ''*2'' @ CRLF @ ''$3'' @ CRLF @ ''GET'' @ CRLF @ ''$3'' @ CRLF @ ''a b'' @ CRLF" by code_simp
  then have "length (command_bytes [''GET'', ''a b'']) + 1 < 2 ^ 31" by simp
  moreover have "willing []" by (simp add: willing_def)
  ultimately have "\<exists>m'. redisFormatCommandArgv True (int 2) [''GET'' @ [NUL], ''a b'' @ [NUL]] None [] =
     Some (int (length (command_bytes [''GET'', ''a b''])), Some (command_bytes [''GET'', ''a b''] @ [NUL]), m')"
    by (rule format_argv [THEN conjunct1])
  then show ?thesis by (simp only: of_nat_numeral)
qed

section \<open>Commands from a format: correctness\<close>

text \<open>
  What a format denotes: pieces of text and gaps. A conversion is a piece of text, even an empty
  one. The arguments of the command are the maximal runs of pieces between gaps.
\<close>

datatype item = Gap | Text bytes

definition conv_text :: "(bytes \<Rightarrow> va \<Rightarrow> bytes) \<Rightarrow> bytes \<Rightarrow> va list \<Rightarrow> (unit + bytes \<times> bytes \<times> va list) option" where
  "conv_text pf c ap =
     (let k = c ! 1; rest = drop 2 c in
      if k = CHR ''s'' then (case ap of VA_str s # ap \<Rightarrow> if NUL \<in> set s then Some (Inr (c_str s, rest, ap)) else None | _ \<Rightarrow> None)
      else if k = CHR ''b'' then (case ap of VA_str s # VA_size n # ap \<Rightarrow> do { b \<leftarrow> peek s 0 n; Some (Inr (b, rest, ap)) } | _ \<Rightarrow> None)
      else if k = CHR ''%'' then Some (Inr (''%'', rest, ap))
      else
        (case detect (tl c) of
           Invalid \<Rightarrow> Some (Inl ())
         | Past_end \<Rightarrow> if length c + 1 < 14 then None else do { (_, ap) \<leftarrow> fetch T_int ap; Some (Inr ([], rest, ap)) }
         | Conv t rest' \<Rightarrow> do {
             (v, ap) \<leftarrow> fetch t ap;
             let l = length c - length rest';
             Some (Inr (if l < 14 then (c_str (pf (take l c) v), rest', ap) else ([], rest, ap))) }))"

lemma conv_text_rest:
  assumes "conv_text pf c ap = Some (Inr (t, rest, ap'))" "2 \<le> length c"
  shows "length rest < length c"
proof (cases "rest = drop 2 c")
  case True
  with assms(2) show ?thesis by simp
next
  case False
  then obtain t where "detect (tl c) = Conv t rest"
    using assms(1) by (auto simp: conv_text_def Let_def bind_eq_Some_conv split: if_splits list.splits va.splits detected.splits)
  from detect_rest [OF this] show ?thesis by simp
qed

function items :: "(bytes \<Rightarrow> va \<Rightarrow> bytes) \<Rightarrow> bytes \<Rightarrow> va list \<Rightarrow> item list option" where
  "items pf c ap =
     (case c of
        [] \<Rightarrow> Some []
      | x # c' \<Rightarrow>
          if x \<noteq> CHR ''%'' \<or> c' = [] then map_option (Cons (if x = SP then Gap else Text [x])) (items pf c' ap)
          else (case conv_text pf c ap of
                  Some (Inr (t, rest, ap)) \<Rightarrow> map_option (Cons (Text t)) (items pf rest ap)
                | _ \<Rightarrow> None))"
  by pat_completeness auto
termination
proof (relation "measure (\<lambda>(pf, c, ap). length c)", goal_cases)
  case (3 pf c ap x c' res r t q rest ap')
  then show ?case using conv_text_rest [of pf c ap t rest ap'] by (cases c') auto
qed auto

declare items.simps [simp del]

fun words :: "bytes option \<Rightarrow> item list \<Rightarrow> bytes list" where
  "words None [] = []"
| "words (Some w) [] = [w]"
| "words None (Gap # its) = words None its"
| "words (Some w) (Gap # its) = w # words None its"
| "words cur (Text t # its) = words (Some ((case cur of None \<Rightarrow> [] | Some w \<Rightarrow> w) @ t)) its"

definition bulks :: "bytes list \<Rightarrow> nat" where
  "bulks args = length (concat (map bulk_bytes args))"

lemma bulks_simps [simp]: "bulks [] = 0" "bulks (a # as) = length (bulk_bytes a) + bulks as" "bulks (as @ bs) = bulks as + bulks bs"
  by (simp_all add: bulks_def)

lemma length_bulk: "length w \<le> length (bulk_bytes w)"
  by (simp add: bulk_bytes_def)

lemma words_current: "length w \<le> bulks (words (Some w) its)"
proof (induction its arbitrary: w)
  case (Cons it its)
  show ?case
  proof (cases it)
    case Gap
    then show ?thesis using length_bulk [of w] by simp
  next
    case (Text t)
    then show ?thesis using Cons [of "w @ t"] by simp
  qed
qed (use length_bulk in simp)

lemma format_conv_ok:
  assumes t: "conv_text pf c ap = Some (Inr (t, rest, ap'))" and cur: "sds_ok cur" "length (content cur) + length t < 2 ^ 31" and m: "willing m"
  shows "\<exists>s m'. format_conv pf c ap cur m = Some (Inr (Some s, rest, ap', m')) \<and> willing m' \<and> sds_ok s \<and> content s = content cur @ t"
proof -
  have cat: "\<exists>s m'. sdscatlen cur u n m = Some (Some s, m') \<and> willing m' \<and> sds_ok s \<and> content s = content cur @ take n u"
    if "n \<le> length u" "length (content cur) + n < 2 ^ 31" for u n
    using delivers_willing [OF sdscatlen_ok [OF cur(1) _ that(1)] m] that(2) cur(1) by auto
  have str: "take (c_strlen u) u = c_str u" "c_strlen u \<le> length u" for u
    by (simp_all add: c_strlen_def c_str_def takeWhile_eq_take [symmetric] length_takeWhile_le)
  have pr: "\<exists>s m'. sdscatvprintf cur l u m = Some (Some s, m') \<and> willing m' \<and> sds_ok s \<and> content s = content cur @ c_str u"
    if "length (content cur) + length (c_str u) < 2 ^ 31" for l u
    using delivers_willing [OF catprintf.app_ok [OF cur(1), of "(l, u)" m] m] that by (auto simp: sdscatprintf_def)
  have pc: "\<exists>s m'. sdscat cur (''%'' @ [NUL]) m = Some (Some s, m') \<and> willing m' \<and> sds_ok s \<and> content s = content cur @ ''%''"
    if "length (content cur) + 1 < 2 ^ 31"
    using delivers_willing [OF catstr.app_ok [OF cur(1), of "''%'' @ [NUL]" m] m] that by (auto simp: c_str_def)
  consider "c ! 1 = CHR ''s''" | "c ! 1 = CHR ''b''" | "c ! 1 = CHR ''%''" | "c ! 1 \<notin> set ''sb%''" by auto
  then show ?thesis
  proof cases
    case 1
    then obtain u where u: "ap = VA_str u # ap'" "NUL \<in> set u" "t = c_str u" "rest = drop 2 c"
      using t by (auto simp: conv_text_def split: list.splits va.splits if_splits)
    with cat [OF str(2) [of u]] cur(2) str [of u] 1 m cur(1) show ?thesis
      by (cases "c_strlen u > 0") (auto simp: format_conv_def Let_def c_strlen_def)
  next
    case 2
    then obtain u n where u: "ap = VA_str u # VA_size n # ap'" "n \<le> length u" "t = take n u" "rest = drop 2 c"
      using t by (auto simp: conv_text_def peek_def bind_eq_Some_conv split: list.splits va.splits if_splits)
    with cat [of n u] cur 2 m show ?thesis by (cases "n > 0") (auto simp: format_conv_def Let_def)
  next
    case 3
    then have "t = ''%''" "rest = drop 2 c" "ap' = ap" using t by (auto simp: conv_text_def)
    with pc cur(2) 3 show ?thesis by (auto simp: format_conv_def Let_def)
  next
    case 4
    then have d: "c ! 1 \<noteq> CHR ''s''" "c ! 1 \<noteq> CHR ''b''" "c ! 1 \<noteq> CHR ''%''" by auto
    show ?thesis
    proof (cases "detect (tl c)")
      case Invalid
      with t d show ?thesis by (simp add: conv_text_def)
    next
      case Past_end
      with t d cur m show ?thesis by (auto simp: conv_text_def format_conv_def bind_eq_Some_conv split: if_splits)
    next
      case (Conv ty rest')
      then obtain v ap1 where v: "fetch ty ap = Some (v, ap1)" using t d by (auto simp: conv_text_def bind_eq_Some_conv)
      with Conv t d cur m pr [of "pf (take (length c - length rest') c) v" "length c - length rest'"] show ?thesis
        by (auto simp: conv_text_def format_conv_def Let_def split: if_splits)
    qed
  qed
qed

text \<open>The state of the loop: the finished arguments and the current one.\<close>

definition formats :: "formatter \<Rightarrow> bytes list \<Rightarrow> bytes option \<Rightarrow> bool" where
  "formats st fin cur \<longleftrightarrow> sds_ok (fc_arg st) \<and> content (fc_arg st) = (case cur of None \<Rightarrow> [] | Some w \<Rightarrow> w) \<and>
     fc_touched st = (cur \<noteq> None) \<and> list_all sds_ok (fc_argv st) \<and> map content (fc_argv st) = fin \<and>
     fc_totlen st = int (bulks fin)"

lemma store_arg_ok:
  assumes "formats st fin (Some w)" "bulks (fin @ [w]) < 2 ^ 31" "willing m"
  shows "\<exists>st' m'. store_arg st m = (True, st', m') \<and> willing m' \<and> fc_argv st' = fc_argv st @ [fc_arg st] \<and>
    fc_totlen st' = int (bulks (fin @ [w])) \<and> fc_touched st' = True \<and> fc_arg st' = fc_arg st"
proof -
  have l: "sdslen (fc_arg st) = length w" using assms(1) length_content [of "fc_arg st"] by (simp add: formats_def)
  have "add_int (int (bulks fin)) (bulklen (length w)) = int (bulks (fin @ [w]))"
    using assms(2) by (simp add: bulklen_eq add_int_small)
  with assms l show ?thesis
    by (cases rule: s_malloc_cases [of "8 * (length (fc_argv st) + 1)" m]) (auto simp: store_arg_def formats_def)
qed

lemma format_loop_ok:
  "\<lbrakk>items pf c ap = Some its; formats st fin cur; bulks (fin @ words cur its) < 2 ^ 31; willing m\<rbrakk> \<Longrightarrow>
   \<exists>st' m' fin' cur'. format_loop pf c ap st m = Some (Inr st', m') \<and> willing m' \<and> formats st' fin' cur' \<and>
     fin' @ words cur' [] = fin @ words cur its"
proof (induction pf c ap arbitrary: its st fin cur m rule: items.induct)
  case (1 pf c ap)
  note st = "1.prems"(2)
  show ?case
  proof (cases c)
    case Nil
    then have "its = []" using "1.prems"(1) by (simp add: items.simps)
    with Nil "1.prems" show ?thesis by (auto simp: format_loop.simps)
  next
    case (Cons x c')
    let ?w = "case cur of None \<Rightarrow> [] | Some w \<Rightarrow> w"
    show ?thesis
    proof (cases "x \<noteq> CHR ''%'' \<or> c' = []")
      case lit: True
      then obtain its' where its': "items pf c' ap = Some its'" "its = (if x = SP then Gap else Text [x]) # its'"
        using "1.prems"(1) Cons by (auto simp: items.simps [of pf "x # c'"])
      note IH = "1.IH"(1) [OF Cons lit its'(1)]
      show ?thesis
      proof (cases "x = SP")
        case sp: True
        show ?thesis
        proof (cases cur)
          case None
          then have "\<not> fc_touched st" using st by (simp add: formats_def)
          with IH [OF st] None sp lit Cons its' "1.prems"(3,4) show ?thesis
            by (auto simp: format_loop.simps [of pf "SP # c'"])
        next
          case (Some w)
          have b: "bulks (fin @ [w]) < 2 ^ 31" using "1.prems"(3) its'(2) sp Some by simp
          obtain st1 m1 where s1: "store_arg st m = (True, st1, m1)" "willing m1" "fc_argv st1 = fc_argv st @ [fc_arg st]"
              "fc_totlen st1 = int (bulks (fin @ [w]))" "fc_touched st1 = True"
            using store_arg_ok [of st fin w m] st Some b "1.prems"(4) by blast
          obtain a m2 where a: "sdsempty m1 = Some (Some a, m2)" "willing m2" "sds_ok a" "content a = []"
            using delivers_willing [OF sdsempty_ok s1(2)] by blast
          have "formats (st1\<lparr>fc_arg := a, fc_touched := False\<rparr>) (fin @ [w]) None"
            using st s1 a Some by (simp add: formats_def)
          from IH [OF this _ a(2)] show ?thesis
            using "1.prems"(3) its'(2) sp Some lit Cons s1(1) a(1) st
            by (auto simp: format_loop.simps [of pf "SP # c'"] formats_def)
        qed
      next
        case False
        have wt: "words cur its = words (Some (?w @ [x])) its'" using its'(2) False by (cases cur) simp_all
        have "length (?w @ [x]) < 2 ^ 31" using words_current [of "?w @ [x]" its'] "1.prems"(3) wt by simp
        then have n: "sdslen (fc_arg st) + 1 < 2 ^ 63" using st length_content [of "fc_arg st"] by (simp add: formats_def)
        obtain a m1 where a: "sdscatlen (fc_arg st) c 1 m = Some (Some a, m1)" "willing m1" "sds_ok a" "content a = ?w @ [x]"
          using delivers_willing [OF sdscatlen_ok [of "fc_arg st" 1 c m] "1.prems"(4)] n st Cons by (auto simp: formats_def)
        have "formats (st\<lparr>fc_arg := a, fc_touched := True\<rparr>) fin (Some (?w @ [x]))"
          using st a by (simp add: formats_def)
        from IH [OF this _ a(2)] show ?thesis
          using "1.prems"(3) wt False lit Cons a(1) by (auto simp: format_loop.simps [of pf "x # c'"])
      qed
    next
      case conv: False
      then obtain t rest ap' its' where t: "conv_text pf c ap = Some (Inr (t, rest, ap'))" "items pf rest ap' = Some its'" "its = Text t # its'"
        using "1.prems"(1) Cons by (auto simp: items.simps [of pf "CHR ''%'' # c'"] split: option.splits sum.splits prod.splits)
      have wt: "words cur its = words (Some (?w @ t)) its'" using t(3) by (cases cur) simp_all
      have "length (?w @ t) < 2 ^ 31" using words_current [of "?w @ t" its'] "1.prems"(3) wt by simp
      moreover have ca: "content (fc_arg st) = ?w" "sds_ok (fc_arg st)" using st by (simp_all add: formats_def)
      ultimately have "length (content (fc_arg st)) + length t < 2 ^ 31" by (metis length_append)
      from format_conv_ok [OF t(1) ca(2) this "1.prems"(4)]
      obtain a m1 where a: "format_conv pf c ap (fc_arg st) m = Some (Inr (Some a, rest, ap', m1))" "willing m1" "sds_ok a" "content a = ?w @ t"
        unfolding ca(1) by blast
      have "formats (st\<lparr>fc_arg := a, fc_touched := True\<rparr>) fin (Some (?w @ t))"
        using st a by (simp add: formats_def)
      from "1.IH"(2) [OF Cons conv t(1) refl refl refl t(2) this _ a(2)] show ?thesis
        using "1.prems"(3) wt conv Cons a(1) by (auto simp: format_loop.simps [of pf "CHR ''%'' # c'"])
    qed
  qed
qed

lemma those_peek:
  "list_all sds_ok as \<Longrightarrow> those (map (\<lambda>a. peek (buf a) 0 (sdslen a)) as) = Some (map content as)"
proof (induction as)
  case (Cons a as)
  then have "peek (buf a) 0 (sdslen a) = Some (content a)"
    by (auto simp: peek_def content_def sds_ok_def sds_room_def)
  with Cons show ?case by simp
qed simp

lemma vformat_ok:
  assumes "items pf (c_str format) ap = Some its" "length (command_bytes (words None its)) + 1 < 2 ^ 31" "willing m"
  shows "\<exists>m'. redisvFormatCommand pf True format ap m =
    Some (int (length (command_bytes (words None its))), Some (command_bytes (words None its) @ [NUL]), m')"
proof -
  let ?args = "words None its" and ?st = "\<lambda>a. \<lparr>fc_arg = a, fc_touched = False, fc_argv = [], fc_totlen = 0\<rparr>"
  have b: "bulks ?args < 2 ^ 31" using assms(2) by (simp add: command_bytes_def bulks_def)
  obtain a m0 where a: "sdsempty m = Some (Some a, m0)" "willing m0" "sds_ok a" "content a = []"
    using delivers_willing [OF sdsempty_ok assms(3)] by blast
  have "formats (?st a) [] None" using a by (simp add: formats_def)
  from format_loop_ok [OF assms(1) this _ a(2)] b
  obtain st m1 fin cur where st: "format_loop pf (c_str format) ap (?st a) m0 = Some (Inr st, m1)" "willing m1" "formats st fin cur"
      "fin @ words cur [] = ?args" by auto
  obtain st' m2 where st': "(if fc_touched st then store_arg st m1 else (True, st, m1)) = (True, st', m2)" "willing m2"
      "map content (fc_argv st') = ?args" "list_all sds_ok (fc_argv st')" "fc_totlen st' = int (bulks ?args)"
  proof (cases cur)
    case None
    with st that show ?thesis by (auto simp: formats_def)
  next
    case (Some w)
    with st b store_arg_ok [of st fin w m1] that show ?thesis by (auto simp: formats_def)
  qed
  have n: "int (length (fc_argv st')) = int (length ?args)" using st'(3) by (metis length_map)
  have len: "length (command_bytes ?args) = header_len (int (length ?args)) + bulks ?args"
  proof -
    have "length args \<le> bulks args" for args by (induction args) (auto simp: bulk_bytes_def)
    from this [of ?args] b have "length ?args < 2 ^ 64" by simp
    then show ?thesis by (simp add: header_len_eq command_bytes_def bulks_def)
  qed
  then have tot: "add_int (fc_totlen st') (header_len (int (length ?args))) = int (length (command_bytes ?args))"
    using assms(2) st'(5) by (simp add: add_int_small)
  obtain cmd m3 where cmd: "malloc_command (int (length (command_bytes ?args))) m2 = Some (Some cmd, m3)" "length cmd = length (command_bytes ?args) + 1"
    using malloc_command_ok [OF st'(2), of "length (command_bytes ?args)"] assms(2) by auto
  have w: "write_command cmd (int (length ?args)) ?args (int (length (command_bytes ?args))) = Some (command_bytes ?args @ [NUL])"
    using write_command_ok [OF cmd(2)] assms(2) by simp
  show ?thesis
    unfolding redisvFormatCommand_def using a(1) st(1) st'(1) cmd(1) w those_peek [OF st'(4)]
    by (simp add: Let_def n tot st'(3))
qed

section \<open>Formats by their pieces\<close>

text \<open>What a caller writes, piece by piece: the separators, plain bytes, \<open>%s\<close>, \<open>%b\<close>, \<open>%%\<close>, and the conversions
  of \<open>printf\<close> with their flags, width, precision, size and letter.\<close>

datatype conv_size = Size_none | Size_hh | Size_h | Size_l | Size_ll

record conversion_spec =
  pc_flags :: bytes
  pc_width :: bytes
  pc_precision :: "bytes option"
  pc_size :: conv_size
  pc_letter :: byte

fun size_text :: "conv_size \<Rightarrow> bytes" where
  "size_text Size_none = []"
| "size_text Size_hh = ''hh''"
| "size_text Size_h = ''h''"
| "size_text Size_l = ''l''"
| "size_text Size_ll = ''ll''"

definition conversion_text :: "conversion_spec \<Rightarrow> bytes" where
  "conversion_text c = ''%'' @ pc_flags c @ pc_width c @ (case pc_precision c of None \<Rightarrow> [] | Some d \<Rightarrow> ''.'' @ d) @
     size_text (pc_size c) @ [pc_letter c]"

text \<open>The argument a conversion takes: the sizes of \<open>char\<close> and \<open>short\<close> are promoted to \<open>int\<close>, and the
  floating point conversions have no size.\<close>

fun takes :: "conversion_spec \<Rightarrow> va \<Rightarrow> bool" where
  "takes c (VA_int i) \<longleftrightarrow> pc_letter c \<in> set ''diouxX'' \<and> pc_size c \<in> {Size_none, Size_hh, Size_h}"
| "takes c (VA_long i) \<longleftrightarrow> pc_letter c \<in> set ''diouxX'' \<and> pc_size c = Size_l"
| "takes c (VA_longlong i) \<longleftrightarrow> pc_letter c \<in> set ''diouxX'' \<and> pc_size c = Size_ll"
| "takes c (VA_double d) \<longleftrightarrow> pc_letter c \<in> set ''eEfFgGaA'' \<and> pc_size c = Size_none"
| "takes c _ \<longleftrightarrow> False"

text \<open>A width does not begin with 0, which is a flag. A conversion fits the buffer it is copied to.\<close>

definition conversion_ok :: "conversion_spec \<Rightarrow> bool" where
  "conversion_ok c \<longleftrightarrow> set (pc_flags c) \<subseteq> set ''#0-+ '' \<and> list_all c_isdigit (pc_width c) \<and> (pc_width c = [] \<or> hd (pc_width c) \<noteq> CHR ''0'') \<and>
     list_all c_isdigit (case pc_precision c of None \<Rightarrow> [] | Some d \<Rightarrow> d) \<and> length (conversion_text c) < 14"

datatype piece = Separator | Plain byte | Cstring bytes | Binary bytes | Percent | Conversion conversion_spec va

fun piece_text :: "piece \<Rightarrow> bytes" where
  "piece_text Separator = '' ''"
| "piece_text (Plain c) = [c]"
| "piece_text (Cstring s) = ''%s''"
| "piece_text (Binary s) = ''%b''"
| "piece_text Percent = ''%%''"
| "piece_text (Conversion c v) = conversion_text c"

fun piece_args :: "piece \<Rightarrow> va list" where
  "piece_args (Cstring s) = [VA_str (s @ [NUL])]"
| "piece_args (Binary s) = [VA_str s, VA_size (length s)]"
| "piece_args (Conversion c v) = [v]"
| "piece_args _ = []"

fun piece_item :: "(bytes \<Rightarrow> va \<Rightarrow> bytes) \<Rightarrow> piece \<Rightarrow> item" where
  "piece_item pf Separator = Gap"
| "piece_item pf (Plain c) = Text [c]"
| "piece_item pf (Cstring s) = Text s"
| "piece_item pf (Binary s) = Text s"
| "piece_item pf Percent = Text ''%''"
| "piece_item pf (Conversion c v) = Text (c_str (pf (conversion_text c) v))"

fun piece_ok :: "piece \<Rightarrow> bool" where
  "piece_ok (Plain c) \<longleftrightarrow> c \<notin> {CHR ''%'', SP, NUL}"
| "piece_ok (Cstring s) \<longleftrightarrow> NUL \<notin> set s"
| "piece_ok (Conversion c v) \<longleftrightarrow> conversion_ok c \<and> takes c v"
| "piece_ok _ \<longleftrightarrow> True"

definition pieces_words :: "(bytes \<Rightarrow> va \<Rightarrow> bytes) \<Rightarrow> piece list \<Rightarrow> bytes list" where
  "pieces_words pf ps = words None (map (piece_item pf) ps)"

lemma letter_chars: "r \<in> set ''diouxXeEfFgGaAhl'' \<Longrightarrow> r \<notin> set ''#0-+ '' \<and> \<not> c_isdigit r \<and> r \<noteq> CHR ''.'' \<and> r \<notin> set ''sb%'' \<and> r \<noteq> NUL"
  by (auto simp: c_isdigit_def uchar_def)

lemma digit_chars: "c_isdigit c \<Longrightarrow> (c \<noteq> CHR ''0'' \<longrightarrow> c \<notin> set ''#0-+ '') \<and> c \<notin> set ''sb%'' \<and> c \<noteq> NUL"
  by (auto simp: c_isdigit_def uchar_def)

lemma dropWhile_run: "list_all P xs \<Longrightarrow> ys = [] \<or> \<not> P (hd ys) \<Longrightarrow> dropWhile P (xs @ ys) = ys"
  by (induction xs) (cases ys; simp)+

lemma conversion_letter:
  assumes "takes c v"
  shows "\<exists>r rs. size_text (pc_size c) @ [pc_letter c] = r # rs \<and> r \<in> set ''diouxXeEfFgGaAhl''"
  using assms by (cases v; cases "pc_size c") auto

lemma skip_conversion:
  assumes "conversion_ok c" "takes c v"
  shows "skip_spec (tl (conversion_text c) @ f) = size_text (pc_size c) @ pc_letter c # f"
proof -
  obtain r rs where r: "size_text (pc_size c) @ [pc_letter c] = r # rs" "r \<in> set ''diouxXeEfFgGaAhl''"
    using conversion_letter [OF assms(2)] by blast
  let ?P = "case pc_precision c of None \<Rightarrow> [] | Some d \<Rightarrow> ''.'' @ d" and ?R = "size_text (pc_size c) @ pc_letter c # f"
  have "?R = r # rs @ f" using r(1) by (metis append.assoc append_Cons append_Nil)
  then have R: "hd ?R = r" by (metis list.sel(1))
  note rc = letter_chars [OF r(2)]
  have t: "tl (conversion_text c) @ f = pc_flags c @ pc_width c @ ?P @ ?R" by (simp add: conversion_text_def)
  have f: "dropWhile (\<lambda>c. c \<in> set ''#0-+ '') (pc_flags c @ pc_width c @ ?P @ ?R) = pc_width c @ ?P @ ?R"
  proof (rule dropWhile_run)
    show "list_all (\<lambda>c. c \<in> set ''#0-+ '') (pc_flags c)" using assms(1) by (auto simp: conversion_ok_def list_all_iff)
    show "pc_width c @ ?P @ ?R = [] \<or> hd (pc_width c @ ?P @ ?R) \<notin> set ''#0-+ ''"
    proof (cases "pc_width c")
      case Nil
      then show ?thesis using R rc by (cases "pc_precision c") auto
    next
      case (Cons d ds)
      then show ?thesis using assms(1) digit_chars [of d] by (auto simp: conversion_ok_def)
    qed
  qed
  have w: "dropWhile c_isdigit (pc_width c @ ?P @ ?R) = ?P @ ?R"
  proof (rule dropWhile_run)
    show "list_all c_isdigit (pc_width c)" using assms(1) by (simp add: conversion_ok_def)
    show "?P @ ?R = [] \<or> \<not> c_isdigit (hd (?P @ ?R))"
      using R rc by (cases "pc_precision c") (auto simp: c_isdigit_def uchar_def)
  qed
  have d: "dropWhile c_isdigit (d @ ?R) = ?R" if "pc_precision c = Some d" for d
    by (rule dropWhile_run) (use assms(1) that R rc in \<open>auto simp: conversion_ok_def\<close>)
  show ?thesis unfolding t skip_spec_def Let_def f w using R rc d by (cases "pc_precision c") simp_all
qed

lemma conversion_detected:
  assumes "conversion_ok c" "takes c v"
  shows "\<exists>t. detect (tl (conversion_text c) @ f) = Conv t f \<and> fetch t (v # ap) = Some (v, ap)"
proof -
  note S = skip_conversion [OF assms, of f]
  show ?thesis
  proof (cases v)
    case (VA_int i)
    then show ?thesis using assms(2) S by (intro exI [of _ T_int]) (cases "pc_size c"; auto simp: detect_def int_conv_def Let_def)
  next
    case (VA_long i)
    then show ?thesis using assms(2) S by (intro exI [of _ T_long]) (auto simp: detect_def int_conv_def Let_def)
  next
    case (VA_longlong i)
    then show ?thesis using assms(2) S by (intro exI [of _ T_longlong]) (auto simp: detect_def int_conv_def Let_def)
  next
    case (VA_double d)
    then show ?thesis using assms(2) S by (intro exI [of _ T_double]) (auto simp: detect_def int_conv_def Let_def)
  qed (use assms(2) in simp_all)
qed

lemma conversion_second:
  assumes "conversion_ok c" "takes c v"
  shows "\<exists>k ks. conversion_text c = CHR ''%'' # k # ks \<and> k \<notin> set ''sb%''"
proof -
  obtain r rs where r: "size_text (pc_size c) @ [pc_letter c] = r # rs" "r \<in> set ''diouxXeEfFgGaAhl''"
    using conversion_letter [OF assms(2)] by blast
  have t: "conversion_text c = CHR ''%'' # pc_flags c @ pc_width c @ (case pc_precision c of None \<Rightarrow> [] | Some d \<Rightarrow> ''.'' @ d) @ r # rs"
    using r(1) by (simp add: conversion_text_def)
  show ?thesis
  proof (cases "pc_flags c")
    case (Cons g gs)
    then show ?thesis using assms(1) by (auto simp: t conversion_ok_def)
  next
    case Nil
    then show ?thesis
      using t assms(1) letter_chars [OF r(2)] digit_chars [of "hd (pc_width c)"]
      by (cases "pc_width c"; cases "pc_precision c") (auto simp: conversion_ok_def)
  qed
qed

lemma items_piece:
  assumes "piece_ok p"
  shows "items pf (piece_text p @ f) (piece_args p @ ap) = map_option (Cons (piece_item pf p)) (items pf f ap)"
proof (cases p)
  case (Conversion c v)
  then have c: "conversion_ok c" "takes c v" using assms by simp_all
  obtain k ks where k: "conversion_text c = CHR ''%'' # k # ks" "k \<notin> set ''sb%''" using conversion_second [OF c] by blast
  obtain t where t: "detect (tl (conversion_text c) @ f) = Conv t f" "fetch t (v # ap) = Some (v, ap)"
    using conversion_detected [OF c, of f ap] by blast
  have l: "length (conversion_text c) < 14" using c(1) by (simp add: conversion_ok_def)
  have "conv_text pf (conversion_text c @ f) (v # ap) = Some (Inr (c_str (pf (conversion_text c) v), f, ap))"
    using t k l by (simp add: conv_text_def)
  then show ?thesis using Conversion k by (simp add: items.simps [of pf "CHR ''%'' # _"])
qed (use assms in \<open>simp_all add: items.simps [of pf "_ # _"] conv_text_def peek_def\<close>)

lemma items_pieces:
  "\<forall>p \<in> set ps. piece_ok p \<Longrightarrow> items pf (concat (map piece_text ps)) (concat (map piece_args ps)) = Some (map (piece_item pf) ps)"
proof (induction ps)
  case Nil
  then show ?case by (simp add: items.simps)
next
  case (Cons p ps)
  then show ?case using items_piece [of p pf "concat (map piece_text ps)" "concat (map piece_args ps)"] by simp
qed

lemma piece_text_NUL: "piece_ok p \<Longrightarrow> NUL \<notin> set (piece_text p)"
proof (cases p)
  case (Conversion c v)
  assume "piece_ok p"
  then have c: "conversion_ok c" "takes c v" using Conversion by simp_all
  obtain r rs where r: "size_text (pc_size c) @ [pc_letter c] = r # rs" using conversion_letter [OF c(2)] by blast
  have "NUL \<notin> set (size_text (pc_size c) @ [pc_letter c])" using c(2) by (cases v; cases "pc_size c") auto
  then show ?thesis
    using c(1) Conversion digit_chars by (auto simp: conversion_text_def conversion_ok_def list_all_iff split: option.splits)
qed auto

text \<open>C16: Formatting a command from a format string. The format is given by its pieces: separators,
  plain bytes, C strings, binary strings, percent signs and \<open>printf\<close> conversions with any flags,
  width, precision and size, of fewer than 14 bytes (a longer one is not printed). The arguments of
  the command are the runs of pieces between separators. A piece contributes its text, makes the
  argument exist even when that text is empty, and the spaces inside the values do not split
  anything; every conversion consumes the one argument of its type. The command is the wire form
  of those arguments and the number returned its length.\<close>

theorem format_command:
  assumes "\<forall>p \<in> set ps. piece_ok p" "length (command_bytes (pieces_words pf ps)) + 1 < 2 ^ 31" "willing m"
  shows "\<exists>m'. redisvFormatCommand pf True (concat (map piece_text ps) @ [NUL]) (concat (map piece_args ps)) m =
      Some (int (length (command_bytes (pieces_words pf ps))), Some (command_bytes (pieces_words pf ps) @ [NUL]), m') \<and>
    redisFormatCommand pf True (concat (map piece_text ps) @ [NUL]) (concat (map piece_args ps)) m =
      redisvFormatCommand pf True (concat (map piece_text ps) @ [NUL]) (concat (map piece_args ps)) m"
proof -
  have "NUL \<notin> set (concat (map piece_text ps))" using assms(1) piece_text_NUL by auto
  then have c: "c_str (concat (map piece_text ps) @ [NUL]) = concat (map piece_text ps)" by simp
  show ?thesis
    using vformat_ok [of pf "concat (map piece_text ps) @ [NUL]" "concat (map piece_args ps)" "map (piece_item pf) ps" m] assms
    by (auto simp: c items_pieces pieces_words_def redisFormatCommand_def)
qed

theorem format_command_witness:
  "\<exists>m'. redisvFormatCommand (\<lambda>_ v. case v of VA_int i \<Rightarrow> dec_int i | _ \<Rightarrow> []) True (''SET k:%02d  %s %b'' @ [NUL])
      [VA_int 7, VA_str [NUL], VA_str ''a b'', VA_size 3] [] =
     Some (int (length (command_bytes [''SET'', ''k:7'', [], ''a b''])), Some (command_bytes [''SET'', ''k:7'', [], ''a b''] @ [NUL]), m')"
proof -
  let ?pf = "\<lambda>_ v. case v of VA_int i \<Rightarrow> dec_int i | _ \<Rightarrow> []"
  let ?c = "\<lparr>pc_flags = ''0'', pc_width = ''2'', pc_precision = None, pc_size = Size_none, pc_letter = CHR ''d''\<rparr>"
  let ?ps = "map Plain ''SET'' @ [Separator, Plain (CHR ''k''), Plain (CHR '':''), Conversion ?c (VA_int 7), Separator, Separator, Cstring [], Separator, Binary ''a b'']"
  have ok: "\<forall>p \<in> set ?ps. piece_ok p" by (simp add: conversion_ok_def conversion_text_def c_isdigit_def uchar_def)
  have d: "dec_int 7 = ''7''" by code_simp
  have w: "pieces_words ?pf ?ps = [''SET'', ''k:7'', [], ''a b'']"
    by (simp add: pieces_words_def d)
  have "command_bytes [''SET'', ''k:7'', [], ''a b''] =
      ''*4'' @ CRLF @ ''$3'' @ CRLF @ ''SET'' @ CRLF @ ''$3'' @ CRLF @ ''k:7'' @ CRLF @ ''$0'' @ CRLF @ CRLF @ ''$3'' @ CRLF @ ''a b'' @ CRLF" by code_simp
  then have l: "length (command_bytes (pieces_words ?pf ?ps)) + 1 < 2 ^ 31" unfolding w by simp
  have "concat (map piece_text ?ps) = ''SET k:%02d  %s %b''" "concat (map piece_args ?ps) = [VA_int 7, VA_str [NUL], VA_str ''a b'', VA_size 3]"
    by (simp_all add: conversion_text_def)
  then show ?thesis using format_command [OF ok l, of "[]"] by (auto simp only: w willing_def list.set empty_iff not_False_eq_True)
qed

end
