(* ===== verification/RedisParser.thy ===== *)
theory RedisParser
  imports Prelude "HOL-Library.Monad_Syntax"
begin

text \<open>
  The Redis parser of the workflow engine (\<open>redis_parser.c\<close>, \<open>redis_parser.h\<close>), which reads the
  replies of servers and, on the server side, the commands of clients, the inline ones included.
  Replies are structures in a store; while a message arrives their strings are offsets into the
  buffer, and only the complete message turns the offsets into pointers, because the buffer moves
  when it grows. Inside the store the embedded reply of the parser has the address 0. \<open>None\<close> is
  undefined behaviour; the loops always end (\<open>RedisDefined\<close>).
\<close>

section \<open>Replies and the parser\<close>

type_synonym addr = nat

text \<open>A string is the null pointer, an offset cast to a pointer, or a pointer into the buffer.\<close>

datatype reply_str = Str_null | Str_off nat | Str_ptr nat

record redis_reply =
  rr_type :: int
  rr_integer :: int
  rr_len :: nat
  rr_str :: reply_str
  rr_elements :: nat
  rr_element :: "addr list"

definition REDIS_REPLY_TYPE_STRING :: int where
  "REDIS_REPLY_TYPE_STRING = 1"

definition REDIS_REPLY_TYPE_ARRAY :: int where
  "REDIS_REPLY_TYPE_ARRAY = 2"

definition REDIS_REPLY_TYPE_INTEGER :: int where
  "REDIS_REPLY_TYPE_INTEGER = 3"

definition REDIS_REPLY_TYPE_NIL :: int where
  "REDIS_REPLY_TYPE_NIL = 4"

definition REDIS_REPLY_TYPE_STATUS :: int where
  "REDIS_REPLY_TYPE_STATUS = 5"

definition REDIS_REPLY_TYPE_ERROR :: int where
  "REDIS_REPLY_TYPE_ERROR = 6"


lemmas reply_types = REDIS_REPLY_TYPE_STRING_def REDIS_REPLY_TYPE_ARRAY_def REDIS_REPLY_TYPE_INTEGER_def
  REDIS_REPLY_TYPE_NIL_def REDIS_REPLY_TYPE_STATUS_def REDIS_REPLY_TYPE_ERROR_def

datatype parser_status = REDIS_GET_CMD | REDIS_GET_CR | REDIS_GET_LF | REDIS_UNTIL_CRLF | REDIS_GET_NCHAR | REDIS_PARSE_END

type_synonym reply_mem = "addr \<rightharpoonup> redis_reply"

text \<open>The fields of the parser that the handlers change; the last three are the memory.\<close>

record parse_state =
  rp_parse_succ :: bool
  rp_status :: parser_status
  rp_cur :: addr
  rp_read_list :: "addr list"
  rp_msgidx :: nat
  rp_findidx :: nat
  rp_nleft :: int
  rp_nchar :: int
  rp_cmd :: byte
  rp_mem :: reply_mem
  rp_next :: addr
  rp_answers :: allocator

text \<open>The parser: that state and the buffer; \<open>bufsize\<close> is the length of \<open>msgbuf\<close>.\<close>

record redis_parser =
  rp_msgbuf :: bytes
  rp_msgsize :: nat
  rp_st :: parse_state

definition redis_reply_init :: redis_reply where
  "redis_reply_init = \<lparr>rr_type = REDIS_REPLY_TYPE_NIL, rr_integer = 0, rr_len = 0, rr_str = Str_null, rr_elements = 0, rr_element = []\<rparr>"

definition redis_reply_set_string :: "reply_str \<Rightarrow> nat \<Rightarrow> redis_reply \<Rightarrow> redis_reply" where
  "redis_reply_set_string str len r = r\<lparr>rr_type := REDIS_REPLY_TYPE_STRING, rr_len := len, rr_str := str\<rparr>"

definition redis_reply_set_integer :: "int \<Rightarrow> redis_reply \<Rightarrow> redis_reply" where
  "redis_reply_set_integer intv r = r\<lparr>rr_type := REDIS_REPLY_TYPE_INTEGER, rr_integer := intv\<rparr>"

definition redis_reply_set_null :: "redis_reply \<Rightarrow> redis_reply" where
  "redis_reply_set_null r = r\<lparr>rr_type := REDIS_REPLY_TYPE_NIL\<rparr>"

definition redis_reply_set_error :: "reply_str \<Rightarrow> nat \<Rightarrow> redis_reply \<Rightarrow> redis_reply" where
  "redis_reply_set_error str len r = r\<lparr>rr_type := REDIS_REPLY_TYPE_ERROR, rr_len := len, rr_str := str\<rparr>"

definition redis_reply_set_status :: "reply_str \<Rightarrow> nat \<Rightarrow> redis_reply \<Rightarrow> redis_reply" where
  "redis_reply_set_status str len r = r\<lparr>rr_type := REDIS_REPLY_TYPE_STATUS, rr_len := len, rr_str := str\<rparr>"

lemmas reply_setters = redis_reply_set_string_def redis_reply_set_integer_def redis_reply_set_null_def
  redis_reply_set_error_def redis_reply_set_status_def

text \<open>Updating the reply at an address, which must be allocated.\<close>

definition upd_reply :: "addr \<Rightarrow> (redis_reply \<Rightarrow> redis_reply) \<Rightarrow> parse_state \<Rightarrow> parse_state option" where
  "upd_reply a f p = (case rp_mem p a of None \<Rightarrow> None | Some r \<Rightarrow> Some (p\<lparr>rp_mem := (rp_mem p)(a \<mapsto> f r)\<rparr>))"

text \<open>\<open>redis_reply_deinit\<close> releases what is below a reply. The fuel bounds the depth; freeing an
  address twice is undefined.\<close>

fun reply_deinit :: "nat \<Rightarrow> addr \<Rightarrow> reply_mem \<Rightarrow> reply_mem option"
  and deinit_elements :: "nat \<Rightarrow> addr list \<Rightarrow> reply_mem \<Rightarrow> reply_mem option" where
  "reply_deinit 0 a m = None"
| "reply_deinit (Suc n) a m =
     (case m a of
        None \<Rightarrow> None
      | Some r \<Rightarrow> if rr_elements r = length (rr_element r) then deinit_elements n (rr_element r) m else None)"
| "deinit_elements n [] m = Some m"
| "deinit_elements n (e # es) m = do {
     m \<leftarrow> reply_deinit n e m;
     if m e = None then None else deinit_elements n es (m(e := None)) }"

definition redis_reply_deinit :: "addr \<Rightarrow> parse_state \<Rightarrow> parse_state option" where
  "redis_reply_deinit a p = do {
     m \<leftarrow> reply_deinit (rp_next p + 1) a (rp_mem p);
     Some (p\<lparr>rp_mem := m\<rparr>) }"

section \<open>Arrays\<close>

fun create_elements :: "nat \<Rightarrow> parse_state \<Rightarrow> bool \<times> addr list \<times> parse_state" where
  "create_elements 0 p = (True, [], p)"
| "create_elements (Suc n) p =
     (case alloc (rp_answers p) of
        (False, ans) \<Rightarrow> (False, [], p\<lparr>rp_answers := ans\<rparr>)
      | (True, ans) \<Rightarrow>
          (case create_elements n (p\<lparr>rp_answers := ans, rp_mem := (rp_mem p)(rp_next p \<mapsto> redis_reply_init), rp_next := rp_next p + 1\<rparr>) of
             (ok, es, q) \<Rightarrow> (ok, rp_next p # es, q)))"

text \<open>When an element cannot be had, the ones before it are released again.\<close>

definition redis_create_array :: "nat \<Rightarrow> parse_state \<Rightarrow> addr list option \<times> parse_state" where
  "redis_create_array cnt p =
     (case alloc (rp_answers p) of
        (False, ans) \<Rightarrow> (None, p\<lparr>rp_answers := ans\<rparr>)
      | (True, ans) \<Rightarrow>
          (case create_elements cnt (p\<lparr>rp_answers := ans\<rparr>) of
             (True, es, p) \<Rightarrow> (Some es, p)
           | (False, es, p) \<Rightarrow> (None, p\<lparr>rp_mem := fold (\<lambda>e m. m(e := None)) (rev es) (rp_mem p)\<rparr>)))"

definition redis_reply_set_array :: "nat \<Rightarrow> addr \<Rightarrow> parse_state \<Rightarrow> (int \<times> parse_state) option" where
  "redis_reply_set_array cnt a p =
     (case redis_create_array cnt p of
        (None, p) \<Rightarrow> Some (-1, p)
      | (Some es, p) \<Rightarrow> do {
          p \<leftarrow> redis_reply_deinit a p;
          p \<leftarrow> upd_reply a (\<lambda>r. r\<lparr>rr_element := es, rr_elements := cnt, rr_type := REDIS_REPLY_TYPE_ARRAY\<rparr>) p;
          Some (0, p) })"

section \<open>The handlers of the states\<close>

text \<open>\<open>msg\<close> is what has arrived, the first \<open>msgsize\<close> bytes of the buffer.\<close>

definition redis_parse_cmd :: "byte \<Rightarrow> parse_state \<Rightarrow> int \<times> parse_state" where
  "redis_parse_cmd ch p =
     (if ch \<in> set ''+-:$*'' then (0, p\<lparr>rp_cmd := ch, rp_status := REDIS_UNTIL_CRLF, rp_findidx := rp_msgidx p\<rparr>)
      else (-2, p))"

definition redis_parse_cr :: "byte \<Rightarrow> parse_state \<Rightarrow> int \<times> parse_state" where
  "redis_parse_cr ch p = (if ch \<noteq> CR then (-2, p) else (0, p\<lparr>rp_status := REDIS_GET_LF\<rparr>))"

definition redis_parse_lf :: "byte \<Rightarrow> parse_state \<Rightarrow> int \<times> parse_state" where
  "redis_parse_lf ch p = (if ch \<noteq> LF then (-2, p) else (1, p))"

text \<open>
  \<open>atoi\<close> on the buffer. It skips white space, line ends too, and it is undefined when it reads
  behind the bytes that have arrived.
\<close>

definition atoi_in :: "bytes \<Rightarrow> int option" where
  "atoi_in s =
     (case dropWhile c_isspace s of
        [] \<Rightarrow> None
      | c # cs \<Rightarrow>
          if list_all c_isdigit (if c = CHR ''-'' \<or> c = CHR ''+'' then cs else c # cs) then None
          else Some (c_atoi s))"

definition REDIS_ARRAY_SIZE_LIMIT :: int where
  "REDIS_ARRAY_SIZE_LIMIT = 4 * 1024 * 1024"

text \<open>The records of the elements still to be read, from the last to the second one.\<close>

fun push_records :: "addr list \<Rightarrow> parse_state \<Rightarrow> bool \<times> parse_state" where
  "push_records [] p = (True, p)"
| "push_records (e # es) p =
     (case alloc (rp_answers p) of
        (False, ans) \<Rightarrow> (False, p\<lparr>rp_answers := ans\<rparr>)
      | (True, ans) \<Rightarrow> push_records es (p\<lparr>rp_answers := ans, rp_read_list := e # rp_read_list p\<rparr>))"

definition start_elements :: "addr list \<Rightarrow> parse_state \<Rightarrow> int \<times> parse_state" where
  "start_elements es p =
     (case push_records (rev (tl es)) (p\<lparr>rp_nleft := rp_nleft p - 1\<rparr>) of
        (False, p) \<Rightarrow> (-1, p)
      | (True, p) \<Rightarrow> (0, p\<lparr>rp_cur := hd es, rp_status := REDIS_GET_CMD\<rparr>))"

definition parse_array_line :: "bytes \<Rightarrow> parse_state \<Rightarrow> (int \<times> parse_state) option" where
  "parse_array_line str p = do {
     n \<leftarrow> atoi_in str;
     if n < 0 then do { p \<leftarrow> upd_reply (rp_cur p) redis_reply_set_null p; Some (1, p) }
     else if n = 0 \<and> \<not> c_isdigit (str ! 0) then Some (-2, p)
     else if n > REDIS_ARRAY_SIZE_LIMIT then Some (-2, p)
     else if rp_nleft p + n \<ge> 2 ^ 31 then None
     else do {
       (ret, p) \<leftarrow> redis_reply_set_array (nat n) (rp_cur p) (p\<lparr>rp_nleft := rp_nleft p + n\<rparr>);
       if ret < 0 then Some (-1, p)
       else if n = 0 then Some (1, p)
       else do { r \<leftarrow> rp_mem p (rp_cur p); Some (start_elements (rr_element r) p) } } }"

definition parse_bulk_line :: "nat \<Rightarrow> bytes \<Rightarrow> parse_state \<Rightarrow> (int \<times> parse_state) option" where
  "parse_bulk_line off str p = do {
     n \<leftarrow> atoi_in str;
     if n < 0 then do { p \<leftarrow> upd_reply (rp_cur p) redis_reply_set_null p; Some (1, p) }
     else if n = 0 then
       if \<not> c_isdigit (str ! 0) then Some (-2, p)
       else do { p \<leftarrow> upd_reply (rp_cur p) (redis_reply_set_string (Str_off off) 0) p; Some (0, p\<lparr>rp_status := REDIS_GET_CR\<rparr>) }
     else Some (0, p\<lparr>rp_nchar := n, rp_status := REDIS_GET_NCHAR\<rparr>) }"

definition redis_parse_line :: "bytes \<Rightarrow> parse_state \<Rightarrow> (int \<times> parse_state) option" where
  "redis_parse_line msg p =
     (let off = rp_msgidx p; str = drop off msg; slen = rp_findidx p - off; p = p\<lparr>rp_msgidx := rp_findidx p + 2\<rparr> in
      if rp_cmd p = CHR ''+'' then do { p \<leftarrow> upd_reply (rp_cur p) (redis_reply_set_status (Str_off off) slen) p; Some (1, p) }
      else if rp_cmd p = CHR ''-'' then do { p \<leftarrow> upd_reply (rp_cur p) (redis_reply_set_error (Str_off off) slen) p; Some (1, p) }
      else if rp_cmd p = CHR '':'' then
        if slen = 0 \<or> slen > 30 then Some (-2, p)
        else do { p \<leftarrow> upd_reply (rp_cur p) (redis_reply_set_integer (c_atoll (take slen str))) p; Some (1, p) }
      else if rp_cmd p = CHR ''$'' then parse_bulk_line off str p
      else if rp_cmd p = CHR ''*'' then parse_array_line str p
      else Some (-2, p))"

text \<open>The search for a line end from an index: whether there is one, and the final index.\<close>

function crlf_scan :: "bytes \<Rightarrow> nat \<Rightarrow> bool \<times> nat" where
  "crlf_scan msg i =
     (if i + 1 < length msg then if msg ! i = CR \<and> msg ! (i + 1) = LF then (True, i) else crlf_scan msg (i + 1)
      else (False, i))"
  by pat_completeness auto
termination
  by (relation "measure (\<lambda>(msg, i). length msg - i)") auto

declare crlf_scan.simps [simp del]

definition redis_parse_crlf :: "bytes \<Rightarrow> parse_state \<Rightarrow> (int \<times> parse_state) option" where
  "redis_parse_crlf msg p =
     (case crlf_scan msg (rp_findidx p) of
        (True, i) \<Rightarrow> redis_parse_line msg (p\<lparr>rp_findidx := i\<rparr>)
      | (False, i) \<Rightarrow> Some (2, p\<lparr>rp_findidx := i\<rparr>))"

definition redis_parse_nchar :: "bytes \<Rightarrow> parse_state \<Rightarrow> (int \<times> parse_state) option" where
  "redis_parse_nchar msg p =
     (if rp_nchar p \<le> int (length msg - rp_msgidx p) then do {
        p \<leftarrow> upd_reply (rp_cur p) (redis_reply_set_string (Str_off (rp_msgidx p)) (nat (rp_nchar p))) p;
        Some (0, p\<lparr>rp_msgidx := rp_msgidx p + nat (rp_nchar p), rp_status := REDIS_GET_CR\<rparr>) }
      else Some (2, p))"

definition redis_parser_forward :: "bytes \<Rightarrow> parse_state \<Rightarrow> (int \<times> parse_state) option" where
  "redis_parser_forward msg p =
     (if rp_msgidx p \<ge> length msg then Some (2, p)
      else let ch = msg ! rp_msgidx p; q = p\<lparr>rp_msgidx := rp_msgidx p + 1\<rparr> in
        case rp_status p of
          REDIS_GET_CMD \<Rightarrow> Some (redis_parse_cmd ch q)
        | REDIS_GET_CR \<Rightarrow> Some (redis_parse_cr ch q)
        | REDIS_GET_LF \<Rightarrow> Some (redis_parse_lf ch q)
        | REDIS_UNTIL_CRLF \<Rightarrow> redis_parse_crlf msg p
        | REDIS_GET_NCHAR \<Rightarrow> redis_parse_nchar msg p
        | REDIS_PARSE_END \<Rightarrow> Some (-2, p))"

text \<open>After a complete item: the next one to be read, if any.\<close>

definition finish_one :: "parse_state \<Rightarrow> parse_state" where
  "finish_one p =
     (let p = p\<lparr>rp_nleft := rp_nleft p - 1\<rparr>;
          p = (case rp_read_list p of [] \<Rightarrow> p | a # as \<Rightarrow> p\<lparr>rp_cur := a, rp_read_list := as\<rparr>)
      in if rp_nleft p > 0 then p\<lparr>rp_status := REDIS_GET_CMD\<rparr>
         else p\<lparr>rp_parse_succ := True, rp_status := REDIS_PARSE_END\<rparr>)"

partial_function (option) parse_loop :: "bytes \<Rightarrow> parse_state \<Rightarrow> (int \<times> parse_state) option" where
  "parse_loop msg p =
     (case redis_parser_forward msg p of
        None \<Rightarrow> None
      | Some (ret, p) \<Rightarrow>
          if ret < 0 then Some (ret, p)
          else if ret = 2 then Some (0, p)
          else let p = (if ret = 1 then finish_one p else p) in
            if rp_status p \<noteq> REDIS_PARSE_END then parse_loop msg p else Some (1, p))"

declare parse_loop.simps [code]

section \<open>Messages\<close>

text \<open>Turning offsets into pointers, down to the limit of the depth; the number is what is left of it.\<close>

definition REDIS_REPLY_DEPTH_LIMIT :: nat where
  "REDIS_REPLY_DEPTH_LIMIT = 64"

fun to_pointer :: "reply_str \<Rightarrow> reply_str option" where
  "to_pointer (Str_off n) = Some (Str_ptr n)"
| "to_pointer Str_null = Some (Str_ptr 0)"
| "to_pointer (Str_ptr n) = None"

fun redis_parse_done :: "nat \<Rightarrow> addr \<Rightarrow> reply_mem \<Rightarrow> (int \<times> reply_mem) option"
  and done_elements :: "nat \<Rightarrow> addr list \<Rightarrow> reply_mem \<Rightarrow> (int \<times> reply_mem) option" where
  "redis_parse_done 0 a m = Some (-2, m)"
| "redis_parse_done (Suc n) a m =
     (case m a of
        None \<Rightarrow> None
      | Some r \<Rightarrow>
          if rr_type r = REDIS_REPLY_TYPE_ARRAY then
            if rr_elements r = length (rr_element r) then done_elements n (rr_element r) m else None
          else if rr_type r \<in> {REDIS_REPLY_TYPE_STATUS, REDIS_REPLY_TYPE_ERROR, REDIS_REPLY_TYPE_STRING} then
            (case to_pointer (rr_str r) of None \<Rightarrow> None | Some s \<Rightarrow> Some (1, m(a \<mapsto> r\<lparr>rr_str := s\<rparr>)))
          else Some (1, m))"
| "done_elements n [] m = Some (1, m)"
| "done_elements n (e # es) m =
     (case redis_parse_done n e m of
        None \<Rightarrow> None
      | Some (ret, m) \<Rightarrow> if ret < 0 then Some (-2, m) else done_elements n es m)"

text \<open>An inline command is a line of words. It is scanned twice: for the number of words, and for
  the offset and the length of each.\<close>

function count_words :: "bytes \<Rightarrow> nat" where
  "count_words s =
     (case dropWhile c_isspace s of [] \<Rightarrow> 0 | c # t \<Rightarrow> Suc (count_words (dropWhile (\<lambda>c. \<not> c_isspace c) (c # t))))"
  by pat_completeness auto
termination
proof (relation "measure length", goal_cases)
  case (2 s c t)
  then have "c \<notin> {c. c_isspace c}" by (metis dropWhile_eq_Cons_conv mem_Collect_eq)
  then have "dropWhile (\<lambda>c. \<not> c_isspace c) (c # t) = dropWhile (\<lambda>c. \<not> c_isspace c) t" by simp
  moreover have "length t < length s" using 2 length_dropWhile_le [of c_isspace s] by simp
  ultimately show ?case using length_dropWhile_le [of "\<lambda>c. \<not> c_isspace c" t] by simp
qed simp

declare count_words.simps [simp del]

function word_spans :: "nat \<Rightarrow> bytes \<Rightarrow> (nat \<times> nat) list" where
  "word_spans off s =
     (let blanks = length (takeWhile c_isspace s); t = dropWhile c_isspace s; len = length (takeWhile (\<lambda>c. \<not> c_isspace c) t) in
      if t = [] then []
      else (off + blanks, len) # word_spans (off + blanks + len) (dropWhile (\<lambda>c. \<not> c_isspace c) t))"
  by pat_completeness auto
termination
proof (relation "measure (\<lambda>(off, s). length s)", goal_cases)
  case (2 off s blanks t len)
  then have t: "t \<noteq> []" "\<not> c_isspace (hd t)" using hd_dropWhile [of c_isspace s] by auto
  then have "length (dropWhile (\<lambda>c. \<not> c_isspace c) t) < length t"
    using length_dropWhile_le [of "\<lambda>c. \<not> c_isspace c" "tl t"] by (cases t) auto
  then show ?case using 2 length_dropWhile_le [of c_isspace s] by simp
qed simp

declare word_spans.simps [simp del]

fun set_words :: "(nat \<times> nat) list \<Rightarrow> addr list \<Rightarrow> parse_state \<Rightarrow> parse_state option" where
  "set_words [] es p = Some p"
| "set_words ((off, len) # ws) (e # es) p =
     (case upd_reply e (redis_reply_set_string (Str_ptr off) len) p of None \<Rightarrow> None | Some p \<Rightarrow> set_words ws es p)"
| "set_words (w # ws) [] p = None"

text \<open>A blank line is dropped: the buffer is empty again.\<close>

definition redis_split_inline_command :: "redis_parser \<Rightarrow> (int \<times> redis_parser) option" where
  "redis_split_inline_command P =
     (let msg = take (rp_msgsize P) (rp_msgbuf P); arr_size = count_words msg in
      if arr_size = 0 then Some (0, P\<lparr>rp_msgsize := 0, rp_st := (rp_st P)\<lparr>rp_msgidx := 0\<rparr>\<rparr>)
      else do {
        (ret, p) \<leftarrow> redis_reply_set_array arr_size 0 (rp_st P);
        if ret < 0 then Some (ret, P\<lparr>rp_st := p\<rparr>)
        else do {
          r \<leftarrow> rp_mem p 0;
          p \<leftarrow> set_words (word_spans 0 msg) (rr_element r) p;
          Some (1, P\<lparr>rp_st := p\<lparr>rp_status := REDIS_PARSE_END\<rparr>\<rparr>) } })"

definition REDIS_MSGBUF_INIT_SIZE :: nat where
  "REDIS_MSGBUF_INIT_SIZE = 8"

definition reserve_message :: "nat \<Rightarrow> redis_parser \<Rightarrow> bool \<times> redis_parser" where
  "reserve_message n P =
     (if rp_msgsize P + n > length (rp_msgbuf P) then
        let new_size = grow_size (max REDIS_MSGBUF_INIT_SIZE (2 * length (rp_msgbuf P))) (rp_msgsize P + n) in
        (case alloc (rp_answers (rp_st P)) of
           (False, ans) \<Rightarrow> (False, P\<lparr>rp_st := (rp_st P)\<lparr>rp_answers := ans\<rparr>\<rparr>)
         | (True, ans) \<Rightarrow> (True, P\<lparr>rp_msgbuf := rp_msgbuf P @ replicate (new_size - length (rp_msgbuf P)) NUL,
                                  rp_st := (rp_st P)\<lparr>rp_answers := ans\<rparr>\<rparr>))
      else (True, P))"

text \<open>\<open>bak\<close> is the size before the new bytes and \<open>n\<close> their number. The result is the return value
  and the number of bytes used, as an integer, so that a wrap of the subtraction would show.\<close>

definition inline_message :: "nat \<Rightarrow> nat \<Rightarrow> redis_parser \<Rightarrow> (int \<times> int \<times> redis_parser) option" where
  "inline_message bak n P =
     (let msg = take (rp_msgsize P) (rp_msgbuf P); p = rp_st P;
          i = rp_msgidx p + length (takeWhile (\<lambda>c. c \<noteq> LF) (drop (rp_msgidx p) msg)) in
      if i = rp_msgsize P then Some (0, int n, P\<lparr>rp_st := p\<lparr>rp_msgidx := i\<rparr>\<rparr>)
      else do {
        (ret, P) \<leftarrow> redis_split_inline_command (P\<lparr>rp_msgsize := i + 1, rp_st := p\<lparr>rp_msgidx := i + 1\<rparr>\<rparr>);
        Some (ret, int (i + 1) - int bak, P) })"

definition protocol_message :: "nat \<Rightarrow> nat \<Rightarrow> redis_parser \<Rightarrow> (int \<times> int \<times> redis_parser) option" where
  "protocol_message bak n P = do {
     (ret, p) \<leftarrow> parse_loop (take (rp_msgsize P) (rp_msgbuf P)) (rp_st P);
     if ret \<le> 0 then Some (ret, int n, P\<lparr>rp_st := p\<rparr>)
     else do {
       (ret, m) \<leftarrow> redis_parse_done REDIS_REPLY_DEPTH_LIMIT 0 (rp_mem p);
       Some (ret, int (rp_msgidx p) - int bak, P\<lparr>rp_st := p\<lparr>rp_mem := m\<rparr>\<rparr>) } }"

definition inline_start :: "byte \<Rightarrow> bool" where
  "inline_start c \<longleftrightarrow> c_isalpha c \<or> c_isspace c"

definition redis_parser_append_message :: "bytes \<Rightarrow> redis_parser \<Rightarrow> (int \<times> int \<times> redis_parser) option" where
  "redis_parser_append_message buf P =
     (if rp_status (rp_st P) = REDIS_PARSE_END then Some (1, 0, P)
      else case reserve_message (length buf) P of
        (False, P) \<Rightarrow> Some (-1, int (length buf), P)
      | (True, Q) \<Rightarrow>
          (let bak = rp_msgsize P;
               R = Q\<lparr>rp_msgbuf := overwrite (rp_msgbuf Q) (rp_msgsize Q) buf, rp_msgsize := rp_msgsize Q + length buf\<rparr> in
           if rp_msgsize R > 0 \<and> inline_start (rp_msgbuf R ! 0) then inline_message bak (length buf) R
           else protocol_message bak (length buf) R))"

definition redis_parser_init :: "allocator \<Rightarrow> redis_parser" where
  "redis_parser_init ans =
     \<lparr>rp_msgbuf = [], rp_msgsize = 0,
      rp_st = \<lparr>rp_parse_succ = False, rp_status = REDIS_GET_CMD, rp_cur = 0, rp_read_list = [], rp_msgidx = 0, rp_findidx = 0,
        rp_nleft = 1, rp_nchar = 0, rp_cmd = NUL, rp_mem = [0 \<mapsto> redis_reply_init], rp_next = 1, rp_answers = ans\<rparr>\<rparr>"

definition redis_parser_deinit :: "redis_parser \<Rightarrow> redis_parser option" where
  "redis_parser_deinit P = do {
     p \<leftarrow> redis_reply_deinit 0 ((rp_st P)\<lparr>rp_read_list := []\<rparr>);
     Some (P\<lparr>rp_msgbuf := [], rp_st := p\<rparr>) }"

text \<open>
  The caller: the poller (\<open>poller.c\<close>) offers what it has read and offers the unused rest again,
  until everything is used, the message is complete (the rest then belongs to the next message) or
  there is an error.
\<close>

datatype feed_result = Waiting redis_parser | Complete bytes redis_parser | Failed int redis_parser

partial_function (option) feed :: "bytes \<Rightarrow> redis_parser \<Rightarrow> feed_result option" where
  "feed bs P =
     (case redis_parser_append_message bs P of
        None \<Rightarrow> None
      | Some (ret, n, P) \<Rightarrow>
          if ret < 0 then Some (Failed ret P)
          else if ret > 0 then Some (Complete (drop (nat n) bs) P)
          else if drop (nat n) bs = [] then Some (Waiting P)
          else feed (drop (nat n) bs) P)"

declare feed.simps [code]

fun feed_pieces :: "bytes list \<Rightarrow> redis_parser \<Rightarrow> feed_result option" where
  "feed_pieces [] P = Some (Waiting P)"
| "feed_pieces (b # bs) P =
     (case feed b P of
        Some (Waiting P) \<Rightarrow> feed_pieces bs P
      | Some (Complete rest P) \<Rightarrow> Some (Complete (rest @ concat bs) P)
      | r \<Rightarrow> r)"

section \<open>What the handlers change\<close>

definition frame :: "parse_state \<Rightarrow> parse_state \<Rightarrow> bool" where
  "frame p q \<longleftrightarrow> rp_parse_succ q = rp_parse_succ p \<and> rp_status q = rp_status p \<and>
     rp_cur q = rp_cur p \<and> rp_msgidx q = rp_msgidx p \<and> rp_findidx q = rp_findidx p \<and> rp_nchar q = rp_nchar p \<and> rp_cmd q = rp_cmd p"

lemma frame_refl [simp]: "frame p p"
  by (simp add: frame_def)

lemma frame_trans: "frame p q \<Longrightarrow> frame q r \<Longrightarrow> frame p r"
  by (simp add: frame_def)

lemma frame_memory [simp]:
  "frame p (q\<lparr>rp_mem := m\<rparr>) = frame p q" "frame p (q\<lparr>rp_next := n\<rparr>) = frame p q" "frame p (q\<lparr>rp_answers := as\<rparr>) = frame p q"
  "frame p (q\<lparr>rp_read_list := l\<rparr>) = frame p q" "frame p (q\<lparr>rp_nleft := k\<rparr>) = frame p q"
  "frame (p\<lparr>rp_mem := m\<rparr>) q = frame p q" "frame (p\<lparr>rp_next := n\<rparr>) q = frame p q" "frame (p\<lparr>rp_answers := as\<rparr>) q = frame p q"
  "frame (p\<lparr>rp_read_list := l\<rparr>) q = frame p q" "frame (p\<lparr>rp_nleft := k\<rparr>) q = frame p q"
  by (simp_all add: frame_def)

lemma upd_reply_frame: "upd_reply a f p = Some q \<Longrightarrow> frame p q \<and> rp_answers q = rp_answers p"
  by (auto simp: upd_reply_def split: option.splits)

lemma create_elements_frame: "create_elements n p = (b, es, q) \<Longrightarrow> frame p q \<and> (rp_answers p = [] \<longrightarrow> rp_answers q = [])"
proof (induction n arbitrary: p es)
  case (Suc n)
  from Suc.prems show ?case by (auto dest!: Suc.IH split: prod.splits bool.splits)
qed simp

lemma create_array_frame: "redis_create_array n p = (es, q) \<Longrightarrow> frame p q \<and> (rp_answers p = [] \<longrightarrow> rp_answers q = [])"
  by (auto simp: redis_create_array_def dest!: create_elements_frame split: prod.splits bool.splits)

lemma set_array_frame: "redis_reply_set_array n a p = Some (ret, q) \<Longrightarrow> frame p q \<and> (rp_answers p = [] \<longrightarrow> rp_answers q = [])"
  unfolding redis_reply_set_array_def redis_reply_deinit_def
  by (auto simp: bind_eq_Some_conv simp del: reply_deinit.simps dest!: create_array_frame upd_reply_frame intro: frame_trans
      split: prod.splits option.splits)

lemma push_records_frame: "push_records es p = (b, q) \<Longrightarrow> frame p q \<and> (rp_answers p = [] \<longrightarrow> rp_answers q = [])"
proof (induction es arbitrary: p)
  case (Cons e es)
  from Cons.prems show ?case by (auto dest!: Cons.IH split: prod.splits bool.splits)
qed simp

lemma set_words_frame: "set_words ws es p = Some q \<Longrightarrow> frame p q \<and> rp_answers q = rp_answers p"
  by (induction ws es p rule: set_words.induct) (auto dest!: upd_reply_frame intro: frame_trans split: option.splits)

text \<open>The index of the line end is not before the index of the line, and a count is positive.\<close>

definition scan_ok :: "parse_state \<Rightarrow> bool" where
  "scan_ok p \<longleftrightarrow> (rp_status p = REDIS_UNTIL_CRLF \<longrightarrow> rp_msgidx p \<le> rp_findidx p) \<and> (rp_status p = REDIS_GET_NCHAR \<longrightarrow> rp_nchar p > 0)"

definition granted :: "parse_state \<Rightarrow> parse_state \<Rightarrow> bool" where
  "granted p q \<longleftrightarrow> (rp_answers p = [] \<longrightarrow> rp_answers q = [])"

lemma array_line_frame:
  assumes "parse_array_line str p = Some (ret, q)"
  shows "rp_msgidx q = rp_msgidx p \<and> (ret = 0 \<longrightarrow> rp_status q = REDIS_GET_CMD) \<and> ret \<le> 1 \<and> granted p q"
proof -
  have 1: "upd_reply a f p' = Some q' \<Longrightarrow> rp_msgidx q' = rp_msgidx p' \<and> granted p' q'" for a f p' q'
    by (auto dest: upd_reply_frame simp: frame_def granted_def)
  have 2: "redis_reply_set_array n a p' = Some (r, q') \<Longrightarrow> rp_msgidx q' = rp_msgidx p' \<and> granted p' q'" for n a p' r q'
    by (auto dest: set_array_frame simp: frame_def granted_def)
  have 3: "start_elements es p' = (r, q') \<Longrightarrow> rp_msgidx q' = rp_msgidx p' \<and> (r = 0 \<longrightarrow> rp_status q' = REDIS_GET_CMD) \<and> r \<in> {-1, 0} \<and> granted p' q'" for es p' r q'
    by (auto simp: start_elements_def granted_def dest!: push_records_frame simp: frame_def split: prod.splits bool.splits)
  show ?thesis using assms unfolding parse_array_line_def
    by (auto simp: bind_eq_Some_conv granted_def dest!: 1 2 3 split: if_splits prod.splits bool.splits)
qed

lemma bulk_line_frame:
  assumes "parse_bulk_line off str p = Some (ret, q)"
  shows "rp_msgidx q = rp_msgidx p \<and> (ret = 0 \<longrightarrow> scan_ok q) \<and> ret \<le> 1 \<and> granted p q"
  using assms unfolding parse_bulk_line_def
  by (auto simp: bind_eq_Some_conv scan_ok_def frame_def granted_def dest!: upd_reply_frame split: if_splits)

lemma parse_line_frame:
  assumes "redis_parse_line msg p = Some (ret, q)"
  shows "rp_msgidx q = rp_findidx p + 2 \<and> (ret = 0 \<longrightarrow> scan_ok q) \<and> ret \<le> 1 \<and> granted p q"
proof -
  consider "rp_cmd p = CHR ''+''" | "rp_cmd p = CHR ''-''" | "rp_cmd p = CHR '':''" | "rp_cmd p = CHR ''$''" | "rp_cmd p = CHR ''*''"
    | "rp_cmd p \<notin> set ''+-:$*''" by auto
  then show ?thesis
    using assms unfolding redis_parse_line_def Let_def
    by cases (auto simp: bind_eq_Some_conv frame_def scan_ok_def granted_def dest!: upd_reply_frame array_line_frame bulk_line_frame split: if_splits)
qed

lemma crlf_scan_le: "crlf_scan msg i = (b, j) \<Longrightarrow> i \<le> j \<and> (b \<longrightarrow> j + 1 < length msg)"
proof (induction msg i rule: crlf_scan.induct)
  case (1 msg i)
  show ?case
  proof (cases "i + 1 < length msg \<and> \<not> (msg ! i = CR \<and> msg ! (i + 1) = LF)")
    case True
    with "1.IH" [of] "1.prems" show ?thesis by (auto simp: crlf_scan.simps [of msg i])
  next
    case False
    with "1.prems" show ?thesis by (auto simp: crlf_scan.simps [of msg i] split: if_splits)
  qed
qed

text \<open>Every step that goes on takes at least one byte, and waiting only moves the index of the search.\<close>

lemma forward_frame:
  assumes "redis_parser_forward msg p = Some (ret, q)" "scan_ok p"
  shows "(ret \<in> {0, 1} \<longrightarrow> rp_msgidx p < rp_msgidx q \<and> rp_msgidx q \<le> length msg) \<and> (ret \<in> {0, 2} \<longrightarrow> scan_ok q) \<and>
    (ret = 2 \<longrightarrow> q = p\<lparr>rp_findidx := rp_findidx q\<rparr>) \<and> ret \<le> 2 \<and> granted p q"
proof (cases "rp_status p")
  case REDIS_UNTIL_CRLF
  then show ?thesis
  proof (cases "crlf_scan msg (rp_findidx p)")
    case (Pair b i)
    with REDIS_UNTIL_CRLF parse_line_frame [of msg "p\<lparr>rp_findidx := i\<rparr>" ret q] crlf_scan_le [OF Pair] assms show ?thesis
      by (cases b) (auto simp: redis_parser_forward_def redis_parse_crlf_def scan_ok_def granted_def split: if_splits)
  qed
next
  case REDIS_GET_NCHAR
  then show ?thesis
    using assms unfolding redis_parser_forward_def redis_parse_nchar_def
    by (auto simp: bind_eq_Some_conv scan_ok_def frame_def granted_def dest!: upd_reply_frame split: if_splits)
qed (use assms in \<open>auto simp: redis_parser_forward_def redis_parse_cmd_def redis_parse_cr_def redis_parse_lf_def scan_ok_def granted_def Let_def
      split: if_splits\<close>)

section \<open>More bytes\<close>

lemma c_atoi_append:
  assumes "dropWhile c_isspace s = c # cs" "\<not> list_all c_isdigit (if c = CHR ''-'' \<or> c = CHR ''+'' then cs else c # cs)"
  shows "c_atoi (s @ t) = c_atoi s"
proof -
  have dv: "digits_val acc (ds @ t) = digits_val acc ds" if "\<not> list_all c_isdigit ds" for acc ds
    using that by (induction ds arbitrary: acc) auto
  have d: "dropWhile c_isspace (s @ t) = (c # cs) @ t"
    using assms(1) by (metis append_Cons dropWhile_append dropWhile_eq_Nil_conv list.distinct(1))
  show ?thesis
    using assms(2) dv [of cs 0] dv [of "c # cs" 0] by (auto simp: c_atoi_def c_atoll_def c_strtol10_def d assms(1) split: if_splits)
qed

lemma atoi_in_append: "atoi_in s = Some n \<Longrightarrow> atoi_in (s @ t) = Some n"
proof -
  assume a: "atoi_in s = Some n"
  then obtain c cs where c: "dropWhile c_isspace s = c # cs" "\<not> list_all c_isdigit (if c = CHR ''-'' \<or> c = CHR ''+'' then cs else c # cs)"
    by (auto simp: atoi_in_def split: list.splits if_splits)
  then have d: "dropWhile c_isspace (s @ t) = c # cs @ t"
    by (metis append_Cons dropWhile_append dropWhile_eq_Nil_conv list.distinct(1))
  from a c c_atoi_append [OF c, of t] show ?thesis
    by (auto simp: atoi_in_def d split: if_splits)
qed

lemma atoi_in_not_Nil: "atoi_in s = Some n \<Longrightarrow> s \<noteq> []"
  by (auto simp: atoi_in_def)

lemma parse_line_append:
  assumes "redis_parse_line msg p = Some (ret, q)" "rp_msgidx p \<le> rp_findidx p" "rp_findidx p + 1 < length msg"
  shows "redis_parse_line (msg @ bs) p = Some (ret, q)"
proof -
  let ?str = "drop (rp_msgidx p) msg"
  have d: "drop (rp_msgidx p) (msg @ bs) = ?str @ bs" using assms(2,3) by simp
  have t: "take (rp_findidx p - rp_msgidx p) (?str @ bs) = take (rp_findidx p - rp_msgidx p) ?str" using assms(2,3) by simp
  have nth: "(?str @ bs) ! 0 = ?str ! 0" using assms(2,3) by (simp add: nth_append)
  have b: "parse_bulk_line off ?str p' = Some (ret, q) \<Longrightarrow> parse_bulk_line off (?str @ bs) p' = Some (ret, q)" for off p'
    unfolding parse_bulk_line_def nth by (cases "atoi_in ?str") (simp_all add: atoi_in_append)
  have a: "parse_array_line ?str p' = Some (ret, q) \<Longrightarrow> parse_array_line (?str @ bs) p' = Some (ret, q)" for p'
    unfolding parse_array_line_def nth by (cases "atoi_in ?str") (simp_all add: atoi_in_append)
  show ?thesis
    using assms(1) a b unfolding redis_parse_line_def Let_def d t by (auto split: if_splits)
qed

lemma crlf_scan_append: "crlf_scan msg i = (True, j) \<Longrightarrow> crlf_scan (msg @ bs) i = (True, j)"
proof (induction msg i rule: crlf_scan.induct)
  case (1 msg i)
  then have "i + 1 < length msg" by (auto simp: crlf_scan.simps [of msg i] split: if_splits)
  with 1 show ?case
    by (auto simp: crlf_scan.simps [of msg i] crlf_scan.simps [of "msg @ bs" i] nth_append split: if_splits)
qed

lemma crlf_scan_resume: "crlf_scan msg i = (False, j) \<Longrightarrow> crlf_scan (msg @ bs) i = crlf_scan (msg @ bs) j"
proof (induction msg i rule: crlf_scan.induct)
  case (1 msg i)
  show ?case
  proof (cases "i + 1 < length msg")
    case True
    with 1 show ?thesis
      by (auto simp: crlf_scan.simps [of msg i] crlf_scan.simps [of "msg @ bs" i] nth_append split: if_splits)
  next
    case False
    with "1.prems" show ?thesis by (simp add: crlf_scan.simps [of msg i])
  qed
qed

lemma forward_extend:
  assumes "redis_parser_forward msg p = Some (ret, q)" "ret \<noteq> 2" "scan_ok p"
  shows "redis_parser_forward (msg @ bs) p = Some (ret, q)"
proof -
  have m: "rp_msgidx p < length msg" using assms(1,2) by (auto simp: redis_parser_forward_def split: if_splits)
  show ?thesis
  proof (cases "rp_status p")
    case REDIS_UNTIL_CRLF
    obtain b i where bi: "crlf_scan msg (rp_findidx p) = (b, i)" by fastforce
    with REDIS_UNTIL_CRLF assms m have l: "b" "redis_parse_line msg (p\<lparr>rp_findidx := i\<rparr>) = Some (ret, q)"
      by (auto simp: redis_parser_forward_def redis_parse_crlf_def split: bool.splits)
    have i: "rp_findidx p \<le> i" "i + 1 < length msg" using crlf_scan_le [OF bi] l by auto
    have "redis_parse_line (msg @ bs) (p\<lparr>rp_findidx := i\<rparr>) = Some (ret, q)"
      using parse_line_append [OF l(2), of bs] i assms(3) REDIS_UNTIL_CRLF by (simp add: scan_ok_def)
    with REDIS_UNTIL_CRLF m bi l(1) crlf_scan_append [of msg "rp_findidx p" i bs] show ?thesis
      by (simp add: redis_parser_forward_def redis_parse_crlf_def)
  next
    case REDIS_GET_NCHAR
    with assms m show ?thesis
      by (auto simp: redis_parser_forward_def redis_parse_nchar_def split: if_splits)
  qed (use assms m in \<open>simp_all add: redis_parser_forward_def nth_append\<close>)
qed

lemma forward_wait:
  assumes "redis_parser_forward msg p = Some (2, q)" "scan_ok p"
  shows "redis_parser_forward (msg @ bs) q = redis_parser_forward (msg @ bs) p"
proof (cases "q = p")
  case False
  then obtain i where "rp_status p = REDIS_UNTIL_CRLF" "rp_msgidx p < length msg" "crlf_scan msg (rp_findidx p) = (False, i)" "q = p\<lparr>rp_findidx := i\<rparr>"
    using assms parse_line_frame [of msg _ 2 q]
    by (auto simp: redis_parser_forward_def redis_parse_crlf_def redis_parse_cmd_def redis_parse_cr_def redis_parse_lf_def
        redis_parse_nchar_def Let_def bind_eq_Some_conv split: if_splits parser_status.splits prod.splits bool.splits)
  then show ?thesis
    using crlf_scan_resume [of msg "rp_findidx p" i bs] by (simp add: redis_parser_forward_def redis_parse_crlf_def split: prod.split bool.split)
qed simp

lemma finish_one_frame [simp]: "rp_msgidx (finish_one p) = rp_msgidx p" "scan_ok (finish_one p)" "rp_answers (finish_one p) = rp_answers p"
  by (auto simp: finish_one_def Let_def scan_ok_def split: list.splits)

text \<open>The loop, by the bytes not yet used.\<close>

definition settle :: "int \<Rightarrow> parse_state \<Rightarrow> parse_state" where
  "settle ret p = (if ret = 1 then finish_one p else p)"

lemma parse_loop_step:
  "redis_parser_forward msg p = Some (r, t) \<Longrightarrow>
   parse_loop msg p = (if r < 0 then Some (r, t) else if r = 2 then Some (0, t)
      else if rp_status (settle r t) \<noteq> REDIS_PARSE_END then parse_loop msg (settle r t) else Some (1, settle r t))"
  by (subst parse_loop.simps) (simp add: settle_def)

lemma parse_loop_None: "redis_parser_forward msg p = None \<Longrightarrow> parse_loop msg p = None"
  by (subst parse_loop.simps) simp

lemma parse_loop_induct [consumes 1, case_names step]:
  assumes "scan_ok p"
    and "\<And>p. scan_ok p \<Longrightarrow>
      (\<And>ret q. redis_parser_forward msg p = Some (ret, q) \<Longrightarrow> ret \<in> {0, 1} \<Longrightarrow> P (settle ret q)) \<Longrightarrow> P p"
  shows "P p"
  using assms(1)
proof (induction "length msg - rp_msgidx p" arbitrary: p rule: less_induct)
  case less
  show ?case
  proof (rule assms(2) [OF less.prems])
    fix ret q assume f: "redis_parser_forward msg p = Some (ret, q)" "ret \<in> {0, 1}"
    have "rp_msgidx p < rp_msgidx (settle ret q)" "rp_msgidx (settle ret q) \<le> length msg" "scan_ok (settle ret q)"
      using forward_frame [OF f(1) less.prems] f(2) by (auto simp: settle_def)
    then show "P (settle ret q)" by (intro less.hyps) linarith
  qed
qed

lemma parse_loop_cases:
  assumes "parse_loop msg p = Some (ret, q)" "scan_ok p"
  obtains (wait) "redis_parser_forward msg p = Some (2, q)" "ret = 0"
    | (error) "redis_parser_forward msg p = Some (ret, q)" "ret < 0"
    | (finish) r t where "redis_parser_forward msg p = Some (r, t)" "r \<in> {0, 1}" "rp_status (settle r t) = REDIS_PARSE_END" "ret = 1" "q = settle r t"
    | (go) r t where "redis_parser_forward msg p = Some (r, t)" "r \<in> {0, 1}" "rp_status (settle r t) \<noteq> REDIS_PARSE_END"
        "parse_loop msg (settle r t) = Some (ret, q)"
proof -
  obtain r t where t: "redis_parser_forward msg p = Some (r, t)"
    using assms(1) parse_loop_None [of msg p] by (cases "redis_parser_forward msg p") auto
  from forward_frame [OF t assms(2)] have "r < 0 \<or> r = 2 \<or> r \<in> {0, 1}" by auto
  then show thesis
    using that t assms(1) parse_loop_step [OF t] by (cases "rp_status (settle r t) = REDIS_PARSE_END") (auto split: if_splits)
qed

lemma parse_loop_frame:
  "scan_ok p \<Longrightarrow> parse_loop msg p = Some (ret, q) \<Longrightarrow> rp_msgidx p \<le> length msg \<Longrightarrow>
   (ret \<ge> 0 \<longrightarrow> rp_msgidx q \<le> length msg \<and> scan_ok q) \<and> ret \<le> 1 \<and> (rp_answers p = [] \<longrightarrow> rp_answers q = [])"
proof (induction p rule: parse_loop_induct [of _ msg])
  case (step p)
  have fr: "rp_msgidx (settle r t) \<le> length msg \<and> scan_ok (settle r t) \<and> (rp_answers p = [] \<longrightarrow> rp_answers (settle r t) = [])"
    if "redis_parser_forward msg p = Some (r, t)" "r \<in> {0, 1}" for r t
    using forward_frame [OF that(1) step.hyps] that(2) by (auto simp: settle_def granted_def)
  from step.prems(1) step.hyps show ?case
  proof (cases rule: parse_loop_cases)
    case wait
    have "rp_msgidx q = rp_msgidx p" using forward_frame [OF wait(1) step.hyps] by (metis parse_state.select_convs(5) parse_state.surjective parse_state.update_convs(6))
    then show ?thesis using forward_frame [OF wait(1) step.hyps] wait(2) step.prems(2) by (auto simp: granted_def)
  next
    case error
    then show ?thesis using forward_frame [OF error(1) step.hyps] by (auto simp: granted_def)
  next
    case (finish r t)
    then show ?thesis using fr by auto
  next
    case (go r t)
    then show ?thesis using step.IH [OF go(1,2,4)] fr by auto
  qed
qed

lemma parse_loop_extend:
  "scan_ok p \<Longrightarrow> parse_loop msg p = Some (ret, q) \<Longrightarrow> ret \<noteq> 0 \<Longrightarrow> parse_loop (msg @ bs) p = Some (ret, q)"
proof (induction p rule: parse_loop_induct [of _ msg])
  case (step p)
  note e = parse_loop_step [OF forward_extend [OF _ _ step.hyps], of msg _ _ bs]
  from step.prems(1) step.hyps show ?case
  proof (cases rule: parse_loop_cases)
    case wait
    then show ?thesis using step.prems by simp
  next
    case error
    then show ?thesis using e [of ret q] by simp
  next
    case (finish r t)
    then show ?thesis using e [of r t] by auto
  next
    case (go r t)
    then show ?thesis using e [of r t] step.IH [OF go(1,2,4)] step.prems by auto
  qed
qed

lemma parse_loop_wait:
  "scan_ok p \<Longrightarrow> parse_loop msg p = Some (0, q) \<Longrightarrow> parse_loop (msg @ bs) q = parse_loop (msg @ bs) p"
proof (induction p rule: parse_loop_induct [of _ msg])
  case (step p)
  from step.prems(1) step.hyps show ?case
  proof (cases rule: parse_loop_cases)
    case wait
    from forward_wait [OF wait(1) step.hyps, of bs] show ?thesis by (subst (1 2) parse_loop.simps) simp
  next
    case (go r t)
    then have "parse_loop (msg @ bs) p = parse_loop (msg @ bs) (settle r t)"
      using parse_loop_step [OF forward_extend [OF go(1) _ step.hyps], of bs] by auto
    with step.IH [OF go(1,2,4)] show ?thesis by simp
  qed simp_all
qed

end
