(* ===== verification/RedisPieces.thy ===== *)
theory RedisPieces
  imports RedisParser
begin

text \<open>
  The Redis parser of the workflow engine and the way its bytes arrive: a message cut into any
  pieces is parsed like the whole, where the run over the pieces is defined (\<open>RedisDefined\<close> says when
  it is). The proofs work on the bytes received instead of the buffer.
\<close>

definition received :: "redis_parser \<Rightarrow> bytes" where
  "received P = take (rp_msgsize P) (rp_msgbuf P)"

text \<open>One call on the bytes received, its result with the new size and state.\<close>

definition call_on :: "nat \<Rightarrow> nat \<Rightarrow> bytes \<Rightarrow> parse_state \<Rightarrow> (int \<times> int \<times> nat \<times> parse_state) option" where
  "call_on bak n msg p =
     (if msg \<noteq> [] \<and> inline_start (hd msg) then
        let i = rp_msgidx p + length (takeWhile (\<lambda>c. c \<noteq> LF) (drop (rp_msgidx p) msg)) in
        if i = length msg then Some (0, int n, length msg, p\<lparr>rp_msgidx := i\<rparr>)
        else do {
          (ret, P) \<leftarrow> redis_split_inline_command \<lparr>rp_msgbuf = take (i + 1) msg, rp_msgsize = i + 1, rp_st = p\<lparr>rp_msgidx := i + 1\<rparr>\<rparr>;
          Some (ret, int (i + 1) - int bak, rp_msgsize P, rp_st P) }
      else do {
        (ret, p) \<leftarrow> parse_loop msg p;
        if ret \<le> 0 then Some (ret, int n, length msg, p)
        else do {
          (ret, m) \<leftarrow> redis_parse_done REDIS_REPLY_DEPTH_LIMIT 0 (rp_mem p);
          Some (ret, int (rp_msgidx p) - int bak, length msg, p\<lparr>rp_mem := m\<rparr>) } })"

lemma split_inline_buffer:
  "rp_msgsize P \<le> length (rp_msgbuf P) \<Longrightarrow>
   redis_split_inline_command P =
     map_option (\<lambda>(ret, Q). (ret, P\<lparr>rp_msgsize := rp_msgsize Q, rp_st := rp_st Q\<rparr>))
       (redis_split_inline_command \<lparr>rp_msgbuf = received P, rp_msgsize = rp_msgsize P, rp_st = rp_st P\<rparr>)"
  by (auto simp: redis_split_inline_command_def received_def Let_def bind_eq_Some_conv split: option.splits bind_splits)

lemma reserve_granted:
  assumes "rp_msgsize P \<le> length (rp_msgbuf P)" "rp_answers (rp_st P) = []"
  shows "\<exists>buf. reserve_message n P = (True, P\<lparr>rp_msgbuf := buf\<rparr>) \<and> rp_msgsize P + n \<le> length buf \<and> take (rp_msgsize P) buf = received P"
proof (cases "rp_msgsize P + n > length (rp_msgbuf P)")
  case True
  let ?new = "grow_size (max REDIS_MSGBUF_INIT_SIZE (2 * length (rp_msgbuf P))) (rp_msgsize P + n)"
  have new: "rp_msgsize P + n \<le> ?new" by (rule grow_size_ge) (simp add: REDIS_MSGBUF_INIT_SIZE_def)
  have st: "(rp_st P)\<lparr>rp_answers := []\<rparr> = rp_st P" using assms(2) by simp
  have "reserve_message n P = (True, P\<lparr>rp_msgbuf := rp_msgbuf P @ replicate (?new - length (rp_msgbuf P)) NUL\<rparr>)"
    using True assms(2) st by (cases P) (simp add: reserve_message_def Let_def)
  with new True assms(1) show ?thesis
    by (intro exI [of _ "rp_msgbuf P @ replicate (?new - length (rp_msgbuf P)) NUL"]) (simp add: received_def)
next
  case False
  then show ?thesis using assms(1) by (intro exI [of _ "rp_msgbuf P"]) (simp add: reserve_message_def received_def)
qed

lemma append_call:
  assumes "rp_msgsize P \<le> length (rp_msgbuf P)" "rp_answers (rp_st P) = []" "rp_status (rp_st P) \<noteq> REDIS_PARSE_END" "rp_msgidx (rp_st P) \<le> rp_msgsize P"
  shows "\<exists>buf. take (length (received P @ b)) buf = received P @ b \<and> length (received P @ b) \<le> length buf \<and> redis_parser_append_message b P =
    map_option (\<lambda>(ret, n, sz, p). (ret, n, \<lparr>rp_msgbuf = buf, rp_msgsize = sz, rp_st = p\<rparr>))
      (call_on (rp_msgsize P) (length b) (received P @ b) (rp_st P))"
proof -
  obtain buf where buf: "reserve_message (length b) P = (True, P\<lparr>rp_msgbuf := buf\<rparr>)" "rp_msgsize P + length b \<le> length buf"
      "take (rp_msgsize P) buf = received P"
    using reserve_granted [OF assms(1,2), of "length b"] by blast
  let ?buf = "overwrite buf (rp_msgsize P) b" and ?msg = "received P @ b"
  let ?R = "P\<lparr>rp_msgbuf := ?buf, rp_msgsize := rp_msgsize P + length b\<rparr>"
  have len: "length ?msg = rp_msgsize P + length b" using assms(1) by (simp add: received_def)
  have t: "take (rp_msgsize P + length b) ?buf = ?msg" using buf(2,3) by simp
  have l: "rp_msgsize P + length b \<le> length ?buf" using buf(2) by simp
  have tk: "take k ?buf = take k ?msg" if "k \<le> length ?msg" for k
    using t len that by (metis min.absorb1 take_take)
  have h: "?buf ! 0 = hd ?msg" if "?msg \<noteq> []"
    using that t len by (metis hd_conv_nth length_greater_0_conv nth_take)
  have app: "redis_parser_append_message b P =
      (if ?msg \<noteq> [] \<and> inline_start (hd ?msg) then inline_message (rp_msgsize P) (length b) ?R else protocol_message (rp_msgsize P) (length b) ?R)"
  proof -
    have "redis_parser_append_message b P = (if rp_msgsize P + length b > 0 \<and> inline_start (?buf ! 0)
        then inline_message (rp_msgsize P) (length b) ?R else protocol_message (rp_msgsize P) (length b) ?R)"
      using assms(3) buf(1) by (simp add: redis_parser_append_message_def Let_def)
    moreover have "(rp_msgsize P + length b > 0 \<and> inline_start (?buf ! 0)) = (?msg \<noteq> [] \<and> inline_start (hd ?msg))"
      using len h by (cases "?msg = []") auto
    ultimately show ?thesis by (simp only:)
  qed
  have inl: "inline_message (rp_msgsize P) (length b) ?R =
      map_option (\<lambda>(ret, n, sz, p). (ret, n, \<lparr>rp_msgbuf = ?buf, rp_msgsize = sz, rp_st = p\<rparr>))
        (call_on (rp_msgsize P) (length b) ?msg (rp_st P))" if "?msg \<noteq> []" "inline_start (hd ?msg)"
  proof -
    let ?i = "rp_msgidx (rp_st P) + length (takeWhile (\<lambda>c. c \<noteq> LF) (drop (rp_msgidx (rp_st P)) ?msg))"
    let ?S = "?R\<lparr>rp_msgsize := ?i + 1, rp_st := (rp_st P)\<lparr>rp_msgidx := ?i + 1\<rparr>\<rparr>"
    have i: "?i \<le> length ?msg" using length_takeWhile_le [of "\<lambda>c. c \<noteq> LF" "drop (rp_msgidx (rp_st P)) ?msg"] assms(4) len by simp
    show ?thesis
    proof (cases "?i = length ?msg")
      case True
      then show ?thesis using that t len by (cases P) (simp add: inline_message_def call_on_def Let_def)
    next
      case False
      then have i1: "?i + 1 \<le> length ?msg" using i by linarith
      have "received ?S = take (?i + 1) ?buf" by (simp add: received_def)
      also have "\<dots> = take (?i + 1) ?msg" by (rule tk [OF i1])
      finally have rec: "received ?S = take (?i + 1) ?msg" "rp_msgsize ?S \<le> length (rp_msgbuf ?S)"
        using i1 len l by simp_all
      have "inline_message (rp_msgsize P) (length b) ?R =
          redis_split_inline_command ?S \<bind> (\<lambda>(ret, P'). Some (ret, int (?i + 1) - int (rp_msgsize P), P'))"
        using False t len by (simp add: inline_message_def Let_def)
      with split_inline_buffer [OF rec(2)] rec(1) that False show ?thesis
        by (cases P) (auto simp: call_on_def Let_def bind_eq_Some_conv split: bind_splits option.splits)
    qed
  qed
  have pro: "protocol_message (rp_msgsize P) (length b) ?R =
      map_option (\<lambda>(ret, n, sz, p). (ret, n, \<lparr>rp_msgbuf = ?buf, rp_msgsize = sz, rp_st = p\<rparr>))
        (call_on (rp_msgsize P) (length b) ?msg (rp_st P))" if "\<not> (?msg \<noteq> [] \<and> inline_start (hd ?msg))"
    using that t len by (cases P) (auto simp: protocol_message_def call_on_def split: bind_splits option.splits)
  show ?thesis using app inl pro t l len by (intro exI [of _ ?buf]) auto
qed

section \<open>Between two calls\<close>

text \<open>\<open>w\<close> is what has been received. While a line of an inline command is incomplete all of it has
  been searched.\<close>

definition st_ok :: "bytes \<Rightarrow> parse_state \<Rightarrow> bool" where
  "st_ok w p \<longleftrightarrow> rp_answers p = [] \<and> rp_status p \<noteq> REDIS_PARSE_END \<and> rp_msgidx p \<le> length w \<and> scan_ok p \<and>
     (w = [] \<or> inline_start (hd w) \<longrightarrow> rp_msgidx p = length w \<and> rp_status p = REDIS_GET_CMD)"

definition between :: "redis_parser \<Rightarrow> bool" where
  "between P \<longleftrightarrow> rp_msgsize P \<le> length (rp_msgbuf P) \<and> st_ok (received P) (rp_st P)"

lemma parse_loop_wait_status:
  "scan_ok p \<Longrightarrow> parse_loop msg p = Some (0, q) \<Longrightarrow> rp_status p \<noteq> REDIS_PARSE_END \<Longrightarrow> rp_status q \<noteq> REDIS_PARSE_END"
proof (induction p rule: parse_loop_induct [of _ msg])
  case (step p)
  from step.prems(1) step.hyps show ?case
  proof (cases rule: parse_loop_cases)
    case wait
    have "rp_status q = rp_status p" using forward_frame [OF wait(1) step.hyps]
      by (metis parse_state.select_convs(2) parse_state.surjective parse_state.update_convs(6))
    with step.prems show ?thesis by simp
  next
    case (go r t)
    with step.IH [OF go(1,2,4)] show ?thesis by simp
  qed simp_all
qed

lemma parse_loop_Nil [simp]: "parse_loop [] p = Some (0, p)"
  using parse_loop_step [of "[]" p 2 p] by (simp add: redis_parser_forward_def)

text \<open>The two kinds of call.\<close>

definition line_end :: "bytes \<Rightarrow> parse_state \<Rightarrow> nat" where
  "line_end msg p = rp_msgidx p + length (takeWhile (\<lambda>c. c \<noteq> LF) (drop (rp_msgidx p) msg))"

definition split_at :: "nat \<Rightarrow> bytes \<Rightarrow> parse_state \<Rightarrow> (int \<times> redis_parser) option" where
  "split_at i msg p = redis_split_inline_command \<lparr>rp_msgbuf = take (i + 1) msg, rp_msgsize = i + 1, rp_st = p\<lparr>rp_msgidx := i + 1\<rparr>\<rparr>"

lemma call_inline:
  "msg \<noteq> [] \<Longrightarrow> inline_start (hd msg) \<Longrightarrow>
   call_on bak n msg p = (if line_end msg p = length msg then Some (0, int n, length msg, p\<lparr>rp_msgidx := length msg\<rparr>)
     else map_option (\<lambda>(ret, P). (ret, int (line_end msg p + 1) - int bak, rp_msgsize P, rp_st P)) (split_at (line_end msg p) msg p))"
  by (simp add: call_on_def Let_def line_end_def split_at_def split: bind_splits option.splits)

lemma call_protocol:
  "\<not> (msg \<noteq> [] \<and> inline_start (hd msg)) \<Longrightarrow>
   call_on bak n msg p = (case parse_loop msg p of None \<Rightarrow> None
     | Some (ret, q) \<Rightarrow> if ret \<le> 0 then Some (ret, int n, length msg, q)
         else map_option (\<lambda>(ret, m). (ret, int (rp_msgidx q) - int bak, length msg, q\<lparr>rp_mem := m\<rparr>))
           (redis_parse_done REDIS_REPLY_DEPTH_LIMIT 0 (rp_mem q)))"
  by (auto simp: call_on_def split: bind_splits option.splits)

lemma line_end_le: "rp_msgidx p \<le> length msg \<Longrightarrow> rp_msgidx p \<le> line_end msg p \<and> line_end msg p \<le> length msg"
  using length_takeWhile_le [of "\<lambda>c. c \<noteq> LF" "drop (rp_msgidx p) msg"] by (simp add: line_end_def)

lemma length_takeWhile_all: "length (takeWhile Q xs) = length xs \<longleftrightarrow> (\<forall>x \<in> set xs. Q x)"
  by (induction xs) auto

lemma line_end_iff: "rp_msgidx p \<le> length msg \<Longrightarrow> line_end msg p = length msg \<longleftrightarrow> LF \<notin> set (drop (rp_msgidx p) msg)"
proof -
  assume "rp_msgidx p \<le> length msg"
  then have "line_end msg p = length msg \<longleftrightarrow> length (takeWhile (\<lambda>c. c \<noteq> LF) (drop (rp_msgidx p) msg)) = length (drop (rp_msgidx p) msg)"
    unfolding line_end_def length_drop by linarith
  also have "\<dots> \<longleftrightarrow> LF \<notin> set (drop (rp_msgidx p) msg)" unfolding length_takeWhile_all by metis
  finally show ?thesis .
qed

lemma line_end_append:
  assumes "rp_msgidx p \<le> length msg" "line_end msg p \<noteq> length msg"
  shows "line_end (msg @ bs) p = line_end msg p"
proof -
  have "LF \<in> set (drop (rp_msgidx p) msg)" using assms(2) line_end_iff [OF assms(1)] by simp
  from takeWhile_append1 [OF this, of "\<lambda>c. c \<noteq> LF" bs] show ?thesis using assms(1) by (simp add: line_end_def)
qed

lemma line_end_resume:
  assumes "rp_msgidx p \<le> length msg" "line_end msg p = length msg"
  shows "line_end (msg @ bs) (p\<lparr>rp_msgidx := length msg\<rparr>) = line_end (msg @ bs) p"
proof -
  have "LF \<notin> set (drop (rp_msgidx p) msg)" using assms(2) line_end_iff [OF assms(1)] by simp
  then have "\<And>c. c \<in> set (drop (rp_msgidx p) msg) \<Longrightarrow> c \<noteq> LF" by metis
  then have "takeWhile (\<lambda>c. c \<noteq> LF) (drop (rp_msgidx p) msg @ bs) = drop (rp_msgidx p) msg @ takeWhile (\<lambda>c. c \<noteq> LF) bs"
    by (rule takeWhile_append2)
  then show ?thesis using assms(1) by (simp add: line_end_def)
qed

lemma split_at_append: "i < length msg \<Longrightarrow> split_at i (msg @ bs) p = split_at i msg p"
  by (simp add: split_at_def)

text \<open>Splitting a line either drops a blank line or completes the message or runs out of memory.\<close>

lemma split_at_cases:
  assumes "split_at i msg p = Some (ret, P)"
  shows "(ret = 0 \<and> rp_msgsize P = 0 \<and> rp_st P = p\<lparr>rp_msgidx := 0\<rparr>) \<or>
    (ret \<noteq> 0 \<and> rp_msgsize P = i + 1 \<and> rp_msgidx (rp_st P) = i + 1)"
proof (cases "count_words (take (i + 1) msg) = 0")
  case True
  with assms show ?thesis by (auto simp: split_at_def redis_split_inline_command_def)
next
  case False
  let ?q = "p\<lparr>rp_msgidx := i + 1\<rparr>"
  obtain r q where q: "redis_reply_set_array (count_words (take (i + 1) msg)) 0 ?q = Some (r, q)"
    using assms False by (auto simp: split_at_def redis_split_inline_command_def Let_def bind_eq_Some_conv)
  have fr: "rp_msgidx q = i + 1" using set_array_frame [OF q] by (simp add: frame_def)
  show ?thesis
  proof (cases "r < 0")
    case True
    with assms False q fr show ?thesis by (auto simp: split_at_def redis_split_inline_command_def Let_def)
  next
    case rn: False
    from assms False q rn obtain rr where rr: "rp_mem q 0 = Some rr"
      by (cases "rp_mem q 0") (auto simp: split_at_def redis_split_inline_command_def Let_def)
    from assms False q rn rr obtain q' where "set_words (word_spans 0 (take (i + 1) msg)) (rr_element rr) q = Some q'"
      by (cases "set_words (word_spans 0 (take (i + 1) msg)) (rr_element rr) q") (auto simp: split_at_def redis_split_inline_command_def Let_def)
    moreover with assms False q rn rr have "ret = 1" "rp_msgsize P = i + 1" "rp_msgidx (rp_st P) = rp_msgidx q'"
      by (auto simp: split_at_def redis_split_inline_command_def Let_def)
    ultimately show ?thesis using set_words_frame fr by (auto simp: frame_def)
  qed
qed

section \<open>Calls and more bytes\<close>

abbreviation inline_msg :: "bytes \<Rightarrow> bool" where
  "inline_msg msg \<equiv> msg \<noteq> [] \<and> inline_start (hd msg)"

lemma parse_done_ret:
  "redis_parse_done n a m = Some (r, m') \<Longrightarrow> r \<in> {1, -2}"
  "done_elements n es m = Some (r, m') \<Longrightarrow> r \<in> {1, -2}"
proof (induction n a m and n es m arbitrary: r m' and r m' rule: redis_parse_done_done_elements.induct)
  case (2 n a m)
  then show ?case by (auto split: option.splits if_splits)
next
  case (4 n e es m)
  then show ?case by (auto split: option.splits if_splits prod.splits)
qed auto

lemma call_protocol_wait:
  assumes "\<not> inline_msg msg" "call_on bak n msg p = Some (0, k, sz, q)"
  shows "parse_loop msg p = Some (0, q) \<and> k = int n \<and> sz = length msg"
proof -
  obtain r t where t: "parse_loop msg p = Some (r, t)" using assms(2) unfolding call_protocol [OF assms(1)] by (cases "parse_loop msg p") auto
  show ?thesis
  proof (cases "r \<le> 0")
    case True
    with assms(2) t show ?thesis unfolding call_protocol [OF assms(1)] by auto
  next
    case False
    with assms(2) t obtain m where "redis_parse_done REDIS_REPLY_DEPTH_LIMIT 0 (rp_mem t) = Some (0, m)"
      unfolding call_protocol [OF assms(1)] by auto
    from parse_done_ret(1) [OF this] show ?thesis by simp
  qed
qed

lemma call_waits:
  assumes "st_ok w p" "call_on (length w) (length b) (w @ b) p = Some (0, k, sz, q)"
  shows "sz = length (w @ b) \<and> k = int (length b) \<and> st_ok (w @ b) q \<or>
    sz = 0 \<and> st_ok [] q \<and> 0 < k \<and> k \<le> int (length b) \<and> (\<forall>c. call_on (length w) (length (b @ c)) (w @ b @ c) p = Some (0, k, 0, q))"
proof (cases "inline_msg (w @ b)")
  case True
  note p = assms(1) [unfolded st_ok_def]
  have le: "rp_msgidx p \<le> length (w @ b)" using p by simp
  show ?thesis
  proof (cases "line_end (w @ b) p = length (w @ b)")
    case e: True
    have "k = int (length b)" "sz = length (w @ b)" "q = p\<lparr>rp_msgidx := length (w @ b)\<rparr>"
      using assms(2) unfolding call_inline [OF conjunct1 [OF True] conjunct2 [OF True]] by (auto simp: e)
    moreover have "rp_status p = REDIS_GET_CMD" using p True by (cases w) auto
    ultimately show ?thesis using p by (auto simp: st_ok_def scan_ok_def)
  next
    case e: False
    with assms(2) True obtain P where P: "split_at (line_end (w @ b) p) (w @ b) p = Some (0, P)" "k = int (line_end (w @ b) p + 1) - int (length w)"
        "sz = rp_msgsize P" "q = rp_st P"
      by (auto simp: call_inline)
    from split_at_cases [OF P(1)] have q: "sz = 0" "q = p\<lparr>rp_msgidx := 0\<rparr>" using P by auto
    have lt: "line_end (w @ b) p < length (w @ b)" using line_end_le [OF le] e by linarith
    have w: "rp_msgidx p = length w" using p True by (cases w) auto
    then have "0 < k" "k \<le> int (length b)" using line_end_le [OF le] lt P(2) by auto
    moreover have "rp_status p = REDIS_GET_CMD" using p True by (cases w) auto
    then have "st_ok [] q" using p q(2) by (auto simp: st_ok_def scan_ok_def)
    moreover have "call_on (length w) (length (b @ c)) (w @ b @ c) p = Some (0, k, 0, q)" for c
    proof -
      have "inline_msg (w @ b @ c)" using True by (cases w) auto
      moreover have "line_end (w @ b @ c) p = line_end (w @ b) p" using line_end_append [OF le e, of c] by simp
      moreover have "split_at (line_end (w @ b) p) (w @ b @ c) p = Some (0, P)" using split_at_append [OF lt, of c p] P(1) by simp
      ultimately show ?thesis using P q lt by (simp add: call_inline)
    qed
    ultimately show ?thesis using q(1) by blast
  qed
next
  case False
  note p = assms(1) [unfolded st_ok_def]
  from call_protocol_wait [OF False assms(2)] have t: "parse_loop (w @ b) p = Some (0, q)" and r: "k = int (length b)" "sz = length (w @ b)" by auto
  have "st_ok (w @ b) q"
  proof (cases "w @ b = []")
    case True
    with t p show ?thesis by (simp add: st_ok_def)
  next
    case ne: False
    have "rp_answers q = [] \<and> rp_msgidx q \<le> length (w @ b) \<and> scan_ok q" using parse_loop_frame [OF _ t] p by simp
    moreover have "rp_status q \<noteq> REDIS_PARSE_END" using parse_loop_wait_status [of p "w @ b" q] t p by simp
    ultimately show ?thesis using ne False by (auto simp: st_ok_def)
  qed
  with r show ?thesis by simp
qed

lemma call_decides:
  assumes "st_ok w p" "call_on (length w) (length b) (w @ b) p = Some (ret, k, sz, q)" "ret \<noteq> 0"
  shows "\<exists>k' sz'. call_on (length w) (length (b @ c)) (w @ b @ c) p = Some (ret, k', sz', q) \<and>
    (ret > 0 \<longrightarrow> k' = k \<and> k \<le> int (length b) \<and> rp_msgidx q \<le> length (w @ b))"
proof -
  note p = assms(1) [unfolded st_ok_def]
  have ne: "w @ b \<noteq> []" using assms(2,3) by (auto simp: call_protocol)
  then have inl: "inline_msg (w @ b @ c) = inline_msg (w @ b)" by (cases w; cases b) auto
  have le: "rp_msgidx p \<le> length (w @ b)" using p by simp
  show ?thesis
  proof (cases "inline_msg (w @ b)")
    case True
    then have c: "call_on (length w) n msg p = (if line_end msg p = length msg then Some (0, int n, length msg, p\<lparr>rp_msgidx := length msg\<rparr>)
       else map_option (\<lambda>(ret, P). (ret, int (line_end msg p + 1) - int (length w), rp_msgsize P, rp_st P)) (split_at (line_end msg p) msg p))"
      if "msg = w @ b \<or> msg = w @ b @ c" for n msg
    proof -
      have "msg \<noteq> []" "inline_start (hd msg)" using that inl True by (elim disjE; simp)+
      then show ?thesis by (rule call_inline)
    qed
    have e: "line_end (w @ b) p \<noteq> length (w @ b)" using assms(2,3) c by auto
    have lt: "line_end (w @ b) p < length (w @ b)" using line_end_le [OF le] e by linarith
    from assms(2) e c obtain P where P: "split_at (line_end (w @ b) p) (w @ b) p = Some (ret, P)"
        "k = int (line_end (w @ b) p + 1) - int (length w)" "sz = rp_msgsize P" "q = rp_st P" by auto
    have "line_end (w @ b @ c) p = line_end (w @ b) p" using line_end_append [OF le e, of c] by simp
    moreover have "split_at (line_end (w @ b) p) (w @ b @ c) p = Some (ret, P)" using split_at_append [OF lt, of c p] P(1) by simp
    moreover have "rp_msgidx q \<le> length (w @ b)" using split_at_cases [OF P(1)] assms(3) P(4) lt by auto
    ultimately show ?thesis using P lt c [of "w @ b @ c" "length (b @ c)"] by auto
  next
    case False
    obtain r t where t: "parse_loop (w @ b) p = Some (r, t)" "r \<noteq> 0"
      using assms(2,3) unfolding call_protocol [OF False] by (auto split: option.splits if_splits)
    have t': "parse_loop (w @ b @ c) p = Some (r, t)" using parse_loop_extend [OF _ t, of c] p by simp
    have "rp_msgidx t \<le> length (w @ b)" if "r > 0" using parse_loop_frame [OF _ t(1)] p le that by simp
    then show ?thesis
      using assms(2) t t' inl False unfolding call_protocol [OF False] by (auto simp: call_protocol split: if_splits)
  qed
qed

lemma call_resumes:
  assumes "st_ok w p" "call_on (length w) (length b) (w @ b) p = Some (0, k, length (w @ b), q)" "st_ok (w @ b) q"
  shows "call_on (length w) (length (b @ c)) (w @ b @ c) p =
    map_option (\<lambda>(ret, k, sz, q). (ret, k + int (length b), sz, q)) (call_on (length (w @ b)) (length c) (w @ b @ c) q)"
proof (cases "w @ b = []")
  case True
  with assms(2) show ?thesis by (cases "call_on 0 (length c) c p") (auto simp: call_protocol)
next
  case ne: False
  note p = assms(1) [unfolded st_ok_def]
  have inl: "inline_msg (w @ b @ c) = inline_msg (w @ b)" using ne by (cases w; cases b) auto
  have le: "rp_msgidx p \<le> length (w @ b)" using p by simp
  show ?thesis
  proof (cases "inline_msg (w @ b)")
    case True
    have "line_end (w @ b) p = length (w @ b)"
    proof (rule ccontr)
      assume e: "line_end (w @ b) p \<noteq> length (w @ b)"
      with assms(2) True obtain P where "split_at (line_end (w @ b) p) (w @ b) p = Some (0, P)" "rp_msgsize P = length (w @ b)"
        by (auto simp: call_inline)
      with split_at_cases [OF this(1)] ne show False by simp
    qed
    moreover with assms(2) True have "q = p\<lparr>rp_msgidx := length (w @ b)\<rparr>" by (auto simp: call_inline)
    ultimately have "line_end (w @ b @ c) q = line_end (w @ b @ c) p" "split_at i (w @ b @ c) q = split_at i (w @ b @ c) p" for i
      using line_end_resume [OF le, of c] by (simp_all add: split_at_def)
    with inl True \<open>q = _\<close> show ?thesis
      by (cases "split_at (line_end (w @ b @ c) p) (w @ b @ c) p") (auto simp: call_inline)
  next
    case False
    from call_protocol_wait [OF this assms(2)] have t: "parse_loop (w @ b) p = Some (0, q)" by simp
    have eq: "parse_loop (w @ b @ c) q = parse_loop (w @ b @ c) p" using parse_loop_wait [OF _ t, of c] p by simp
    have nf: "\<not> inline_msg (w @ b @ c)" using inl False by blast
    show ?thesis
    proof (cases "parse_loop (w @ b @ c) p")
      case (Some rt)
      show ?thesis unfolding call_protocol [OF nf] eq Some
        by (cases rt; cases "redis_parse_done REDIS_REPLY_DEPTH_LIMIT 0 (rp_mem (snd rt))") (auto split: prod.splits)
    qed (simp add: call_protocol [OF nf] eq)
  qed
qed

text \<open>A call that completes a message after a call that waited has used all bytes of the latter.\<close>

lemma wait_fixpoint: "scan_ok p \<Longrightarrow> parse_loop msg p = Some (0, q) \<Longrightarrow> redis_parser_forward msg q = Some (2, q) \<and> scan_ok q"
proof (induction p rule: parse_loop_induct [of _ msg])
  case (step p)
  from step.prems(1) step.hyps show ?case
  proof (cases rule: parse_loop_cases)
    case wait
    with forward_wait [OF wait(1) step.hyps, of "[]"] forward_frame [OF wait(1) step.hyps] show ?thesis by simp
  next
    case (go r t)
    with step.IH [OF go(1,2,4)] show ?thesis by simp
  qed simp_all
qed

lemma crlf_scan_late: "crlf_scan msg i = (False, j) \<Longrightarrow> length msg \<le> j + 1"
proof (induction msg i rule: crlf_scan.induct)
  case (1 msg i)
  show ?case
  proof (cases "i + 1 < length msg")
    case True
    with 1 show ?thesis by (simp add: crlf_scan.simps [of msg i] split: if_splits)
  next
    case False
    with "1.prems" show ?thesis by (simp add: crlf_scan.simps [of msg i])
  qed
qed

lemma forward_late:
  assumes "redis_parser_forward msg q = Some (2, q)" "scan_ok q" "redis_parser_forward (msg @ bs) q = Some (r, t)" "r \<in> {0, 1}"
  shows "length msg \<le> rp_msgidx t"
proof (cases "rp_msgidx q \<ge> length msg")
  case True
  then show ?thesis using forward_frame [OF assms(3,2)] assms(4) by auto
next
  case False
  then consider "rp_status q = REDIS_UNTIL_CRLF" | "rp_status q = REDIS_GET_NCHAR"
    using assms(1) by (auto simp: redis_parser_forward_def redis_parse_cmd_def redis_parse_cr_def redis_parse_lf_def Let_def
        split: parser_status.splits if_splits)
  then show ?thesis
  proof cases
    case 1
    obtain b i where b: "crlf_scan msg (rp_findidx q) = (b, i)" by fastforce
    have "\<not> b" using 1 b False assms(1) parse_line_frame [of msg "q\<lparr>rp_findidx := i\<rparr>" 2 q]
      by (auto simp: redis_parser_forward_def redis_parse_crlf_def split: bool.splits)
    with 1 b False assms(1) have i: "crlf_scan msg i = (False, i)" "rp_findidx q = i"
      by (auto simp: redis_parser_forward_def redis_parse_crlf_def dest!: arg_cong [of _ _ rp_findidx])
    from 1 False assms(3,4) i(2) obtain j where j: "crlf_scan (msg @ bs) i = (True, j)" "redis_parse_line (msg @ bs) (q\<lparr>rp_findidx := j\<rparr>) = Some (r, t)"
      by (auto simp: redis_parser_forward_def redis_parse_crlf_def split: prod.splits bool.splits)
    show ?thesis using crlf_scan_le [OF j(1)] parse_line_frame [OF j(2)] crlf_scan_late [OF i(1)] by simp
  next
    case 2
    with assms False show ?thesis
      by (auto simp: redis_parser_forward_def redis_parse_nchar_def bind_eq_Some_conv frame_def dest!: upd_reply_frame split: if_splits)
  qed
qed

lemma parse_loop_mono: "scan_ok p \<Longrightarrow> parse_loop msg p = Some (1, q) \<Longrightarrow> rp_msgidx p \<le> rp_msgidx q"
proof (induction p rule: parse_loop_induct [of _ msg])
  case (step p)
  have fr: "rp_msgidx p \<le> rp_msgidx (settle r t)" if "redis_parser_forward msg p = Some (r, t)" "r \<in> {0, 1}" for r t
    using forward_frame [OF that(1) step.hyps] that(2) by (auto simp: settle_def)
  from step.prems(1) step.hyps show ?case
  proof (cases rule: parse_loop_cases)
    case (finish r t)
    then show ?thesis using fr by simp
  next
    case (go r t)
    with step.IH [OF go(1,2,4)] fr [OF go(1,2)] show ?thesis by simp
  qed simp_all
qed

lemma parse_loop_late:
  assumes "redis_parser_forward msg q = Some (2, q)" "scan_ok q" "parse_loop (msg @ bs) q = Some (1, t)"
  shows "length msg \<le> rp_msgidx t"
  using assms(3,2)
proof (cases rule: parse_loop_cases)
  case (finish r u)
  then show ?thesis using forward_late [OF assms(1,2) finish(1,2)] by (simp add: settle_def)
next
  case (go r u)
  have "scan_ok (settle r u)" using forward_frame [OF go(1) assms(2)] go(2) by (auto simp: settle_def)
  from parse_loop_mono [OF this go(4)] forward_late [OF assms(1,2) go(1,2)] show ?thesis by (simp add: settle_def split: if_splits)
qed simp_all

lemma call_later:
  assumes "st_ok w p" "call_on (length w) (length b) (w @ b) p = Some (0, k, length (w @ b), q)" "st_ok (w @ b) q"
    "call_on (length (w @ b)) (length c) (w @ b @ c) q = Some (ret, k2, sz, t)" "ret > 0"
  shows "0 \<le> k2"
proof (cases "inline_msg (w @ b @ c)")
  case True
  then have "w @ b = [] \<or> inline_start (hd (w @ b))" by (cases w; cases b) auto
  then have "rp_msgidx q = length (w @ b)" using assms(3) by (auto simp: st_ok_def)
  with assms(4,5) True line_end_le [of q "w @ b @ c"] show ?thesis by (auto simp: call_inline split: if_splits)
next
  case False
  then have "\<not> inline_msg (w @ b)" by (cases w; cases b) auto
  from call_protocol_wait [OF this assms(2)] have "parse_loop (w @ b) p = Some (0, q)" by simp
  from wait_fixpoint [OF _ this] assms(1) have q: "redis_parser_forward (w @ b) q = Some (2, q)" "scan_ok q" by (auto simp: st_ok_def)
  obtain r u where u: "parse_loop (w @ b @ c) q = Some (r, u)" "r > 0" "k2 = int (rp_msgidx u) - int (length (w @ b))"
    using assms(4,5) unfolding call_protocol [OF False] by (auto split: option.splits if_splits)
  have "r = 1" using parse_loop_frame [OF q(2) u(1)] assms(3) u(2) by (simp add: st_ok_def)
  then show ?thesis using parse_loop_late [OF q, of c u] u by simp
qed

section \<open>Feeding\<close>

text \<open>Two parsers that have received the same bytes; complete messages may differ in what follows
  them in the buffer.\<close>

definition same_parser :: "redis_parser \<Rightarrow> redis_parser \<Rightarrow> bool" where
  "same_parser P Q \<longleftrightarrow> rp_st P = rp_st Q \<and> received P = received Q"

fun same_result :: "feed_result \<Rightarrow> feed_result \<Rightarrow> bool" where
  "same_result (Waiting P) (Waiting Q) \<longleftrightarrow> same_parser P Q"
| "same_result (Complete r P) (Complete r' Q) \<longleftrightarrow> r = r' \<and> rp_st P = rp_st Q \<and>
     take (rp_msgidx (rp_st P)) (rp_msgbuf P) = take (rp_msgidx (rp_st Q)) (rp_msgbuf Q)"
| "same_result (Failed c P) (Failed d Q) \<longleftrightarrow> c = d \<and> rp_st P = rp_st Q"
| "same_result _ _ \<longleftrightarrow> False"

lemma same_result_refl [simp]: "same_result r r"
  by (cases r) (simp_all add: same_parser_def)

lemma same_result_sym: "same_result r s \<Longrightarrow> same_result s r"
  by (cases r; cases s) (auto simp: same_parser_def)

lemma same_result_trans: "same_result r s \<Longrightarrow> same_result s t \<Longrightarrow> same_result r t"
  by (cases r; cases s; cases t) (auto simp: same_parser_def)

text \<open>The outcome of one call as the caller sees it.\<close>

definition after_call :: "bytes \<Rightarrow> (int \<times> int \<times> nat \<times> parse_state) option \<Rightarrow> bytes \<Rightarrow> feed_result option" where
  "after_call buf res b =
     (case res of
        None \<Rightarrow> None
      | Some (ret, k, sz, p) \<Rightarrow>
          let P = \<lparr>rp_msgbuf = buf, rp_msgsize = sz, rp_st = p\<rparr> in
          if ret < 0 then Some (Failed ret P)
          else if ret > 0 then Some (Complete (drop (nat k) b) P)
          else if drop (nat k) b = [] then Some (Waiting P)
          else feed (drop (nat k) b) P)"

lemma after_call_wait:
  "after_call buf (Some (0, k, sz, p)) b =
     (if drop (nat k) b = [] then Some (Waiting \<lparr>rp_msgbuf = buf, rp_msgsize = sz, rp_st = p\<rparr>)
      else feed (drop (nat k) b) \<lparr>rp_msgbuf = buf, rp_msgsize = sz, rp_st = p\<rparr>)"
  by (simp add: after_call_def)

lemma after_call_complete:
  "ret > 0 \<Longrightarrow> after_call buf (Some (ret, k, sz, p)) b = Some (Complete (drop (nat k) b) \<lparr>rp_msgbuf = buf, rp_msgsize = sz, rp_st = p\<rparr>)"
  by (simp add: after_call_def)

lemma feed_call:
  assumes "between P"
  shows "\<exists>buf. take (length (received P @ b)) buf = received P @ b \<and> length (received P @ b) \<le> length buf \<and>
    feed b P = after_call buf (call_on (length (received P)) (length b) (received P @ b) (rp_st P)) b"
proof -
  note P = assms [unfolded between_def st_ok_def]
  have sz: "rp_msgsize P = length (received P)" using P by (simp add: received_def)
  from append_call [of P b] P sz obtain buf where buf: "take (length (received P @ b)) buf = received P @ b" "length (received P @ b) \<le> length buf"
      "redis_parser_append_message b P = map_option (\<lambda>(ret, n, sz, p). (ret, n, \<lparr>rp_msgbuf = buf, rp_msgsize = sz, rp_st = p\<rparr>))
        (call_on (length (received P)) (length b) (received P @ b) (rp_st P))" by auto
  have "feed b P = after_call buf (call_on (length (received P)) (length b) (received P @ b) (rp_st P)) b"
    by (subst feed.simps) (auto simp: buf(3) after_call_def Let_def split: option.splits)
  with buf(1,2) show ?thesis by blast
qed

lemma between_made:
  assumes "st_ok w q" "take (length w) buf = w" "length w \<le> length buf" "sz = length w"
  shows "between \<lparr>rp_msgbuf = buf, rp_msgsize = sz, rp_st = q\<rparr>" "received \<lparr>rp_msgbuf = buf, rp_msgsize = sz, rp_st = q\<rparr> = w"
  using assms by (simp_all add: between_def received_def)

abbreviation same :: "feed_result option \<Rightarrow> feed_result option \<Rightarrow> bool" where
  "same \<equiv> rel_option same_result"

lemma same_refl [simp]: "same r r"
  by (rule option.rel_refl) simp

lemma same_trans: "same r s \<Longrightarrow> same s t \<Longrightarrow> same r t"
  by (cases r; cases s; cases t) (auto intro: same_result_trans)

lemma take_prefix: "take (length w) buf = w \<Longrightarrow> take (length w) buf' = w \<Longrightarrow> n \<le> length w \<Longrightarrow> take n buf = take n buf'"
  by (metis min.absorb1 take_take)

lemma feed_same: "\<lbrakk>between P; between Q; same_parser P Q\<rbrakk> \<Longrightarrow> same (feed b P) (feed b Q)"
proof (induction "length b" arbitrary: b P Q rule: less_induct)
  case less
  let ?w = "received P" and ?p = "rp_st P"
  have eq: "received Q = ?w" "rp_st Q = ?p" using less.prems(3) by (simp_all add: same_parser_def)
  have st: "st_ok ?w ?p" using less.prems(1) by (simp add: between_def)
  obtain bp where bp: "take (length (?w @ b)) bp = ?w @ b" "length (?w @ b) \<le> length bp" "feed b P = after_call bp (call_on (length ?w) (length b) (?w @ b) ?p) b"
    using feed_call [OF less.prems(1), of b] by blast
  obtain bq where bq: "take (length (?w @ b)) bq = ?w @ b" "length (?w @ b) \<le> length bq" "feed b Q = after_call bq (call_on (length ?w) (length b) (?w @ b) ?p) b"
    using feed_call [OF less.prems(2), of b] eq by auto
  show ?case
  proof (cases "call_on (length ?w) (length b) (?w @ b) ?p")
    case None
    then show ?thesis using bp(3) bq(3) by (simp add: after_call_def)
  next
    case (Some res)
    obtain ret k sz q where res: "res = (ret, k, sz, q)" by (cases res) auto
    show ?thesis
    proof (cases "ret = 0")
      case False
      have "take (rp_msgidx q) bp = take (rp_msgidx q) bq" if "ret > 0"
      proof -
        have "rp_msgidx q \<le> length (?w @ b)" using call_decides [OF st Some [unfolded res] False, of "[]"] that by auto
        with bp(1) bq(1) show ?thesis by (rule take_prefix)
      qed
      with False show ?thesis using bp(3) bq(3) Some res by (auto simp: after_call_def Let_def)
    next
      case True
      note call = Some [unfolded res True]
      from call_waits [OF st call] show ?thesis
      proof (elim disjE conjE)
        assume "sz = length (?w @ b)" "k = int (length b)" "st_ok (?w @ b) q"
        then show ?thesis using bp bq call by (simp add: after_call_def same_parser_def received_def)
      next
        assume a: "sz = 0" "st_ok [] q" "0 < k" "k \<le> int (length b)"
        note mp = between_made [OF a(2), of bp sz] and mq = between_made [OF a(2), of bq sz]
        show ?thesis
        proof (cases "drop (nat k) b = []")
          case True
          then show ?thesis using bp(3) bq(3) call a mp mq by (simp add: after_call_def same_parser_def)
        next
          case False
          then have "length (drop (nat k) b) < length b" using a(3) by simp
          from less.hyps [OF this] mp mq a(1) have
            "same (feed (drop (nat k) b) \<lparr>rp_msgbuf = bp, rp_msgsize = sz, rp_st = q\<rparr>) (feed (drop (nat k) b) \<lparr>rp_msgbuf = bq, rp_msgsize = sz, rp_st = q\<rparr>)"
            by (simp add: same_parser_def)
          then show ?thesis using False bp(3) bq(3) call by (simp add: after_call_def)
        qed
      qed
    qed
  qed
qed

definition continues :: "bytes \<Rightarrow> redis_parser \<Rightarrow> bytes \<Rightarrow> feed_result \<Rightarrow> bool" where
  "continues a P b r =
     (case r of
        Waiting Q \<Rightarrow> between Q \<and> same (feed (a @ b) P) (feed b Q)
      | Complete rest Q \<Rightarrow> same (feed (a @ b) P) (Some (Complete (rest @ b) Q))
      | Failed c Q \<Rightarrow> same (feed (a @ b) P) (Some (Failed c Q)))"

lemma continues_cong:
  assumes "continues a' Q b r" "same (feed (a @ b) P) (feed (a' @ b) Q)"
  shows "continues a P b r"
  using assms by (auto simp: continues_def intro: same_trans split: feed_result.splits)

lemma feed_append: "between P \<Longrightarrow> feed a P = Some r \<Longrightarrow> continues a P b r"
proof (induction "length a" arbitrary: a P rule: less_induct)
  case less
  let ?w = "received P" and ?p = "rp_st P"
  have st: "st_ok ?w ?p" using less.prems(1) by (simp add: between_def)
  obtain ba where ba: "take (length (?w @ a)) ba = ?w @ a" "length (?w @ a) \<le> length ba" "feed a P = after_call ba (call_on (length ?w) (length a) (?w @ a) ?p) a"
    using feed_call [OF less.prems(1), of a] by blast
  obtain bb where bb: "take (length (?w @ a @ b)) bb = ?w @ a @ b" "length (?w @ a @ b) \<le> length bb"
      "feed (a @ b) P = after_call bb (call_on (length ?w) (length (a @ b)) (?w @ a @ b) ?p) (a @ b)"
    using feed_call [OF less.prems(1), of "a @ b"] by blast
  have pre: "take (length (?w @ a)) bb = ?w @ a" using arg_cong [OF bb(1), of "take (length (?w @ a))"] by simp
  from less.prems(2) ba(3) obtain ret k sz q where call: "call_on (length ?w) (length a) (?w @ a) ?p = Some (ret, k, sz, q)"
    by (cases "call_on (length ?w) (length a) (?w @ a) ?p") (auto simp: after_call_def)
  show ?case
  proof (cases "ret = 0")
    case False
    obtain k' sz' where c: "call_on (length ?w) (length (a @ b)) (?w @ a @ b) ?p = Some (ret, k', sz', q)"
        "ret > 0 \<longrightarrow> k' = k \<and> k \<le> int (length a) \<and> rp_msgidx q \<le> length (?w @ a)"
      using call_decides [OF st call False, of b] by blast
    show ?thesis
    proof (cases "ret > 0")
      case True
      then have "take (rp_msgidx q) bb = take (rp_msgidx q) ba" using take_prefix [OF pre ba(1)] c(2) by blast
      with True c less.prems(2) ba(3) bb(3) call show ?thesis by (auto simp: after_call_def continues_def Let_def)
    next
      case neg: False
      with False c less.prems(2) ba(3) bb(3) call show ?thesis by (auto simp: after_call_def continues_def Let_def)
    qed
  next
    case True
    note call = call [unfolded True]
    from call_waits [OF st call] show ?thesis
    proof (elim disjE conjE)
      assume w: "sz = length (?w @ a)" "k = int (length a)" "st_ok (?w @ a) q"
      let ?Q = "\<lparr>rp_msgbuf = ba, rp_msgsize = sz, rp_st = q\<rparr>"
      have r: "r = Waiting ?Q" using less.prems(2) ba(3) call w(2) by (simp add: after_call_def)
      note Q = between_made [OF w(3) ba(1,2) w(1)]
      obtain bc where bc: "take (length (?w @ a @ b)) bc = ?w @ a @ b" "length (?w @ a @ b) \<le> length bc"
          "feed b ?Q = after_call bc (call_on (length (?w @ a)) (length b) (?w @ a @ b) q) b"
        using feed_call [OF Q(1), of b] unfolding Q(2) by auto
      note res = call_resumes [OF st call [unfolded w(1)] w(3), of b]
      have "same (feed (a @ b) P) (feed b ?Q)"
      proof (cases "call_on (length (?w @ a)) (length b) (?w @ a @ b) q")
        case None
        then show ?thesis using bb(3) bc(3) res by (simp add: after_call_def)
      next
        case (Some x)
        obtain r2 k2 s2 q2 where x: "x = (r2, k2, s2, q2)" by (cases x) auto
        have k2: "r2 \<ge> 0 \<Longrightarrow> 0 \<le> k2"
          using call_later [OF st call [unfolded w(1)] w(3), of b r2 k2 s2 q2] call_waits [OF w(3), of b k2 s2 q2] Some x
          by (cases "r2 = 0") auto
        then have dr: "r2 \<ge> 0 \<Longrightarrow> drop (nat (k2 + int (length a))) (a @ b) = drop (nat k2) b"
          by (simp add: nat_add_distrib)
        have ext: "call_on (length ?w) (length (a @ b)) (?w @ a @ b) ?p = Some (r2, k2 + int (length a), s2, q2)" using res Some x by simp
        have fa: "feed (a @ b) P = after_call bb (Some (r2, k2 + int (length a), s2, q2)) (a @ b)" using bb(3) ext by simp
        have fb: "feed b ?Q = after_call bc (Some (r2, k2, s2, q2)) b" using bc(3) Some x by simp
        consider "r2 < 0" | "r2 > 0" | "r2 = 0" by linarith
        then show ?thesis
        proof cases
          case 1
          then show ?thesis using fa fb by (simp add: after_call_def)
        next
          case 2
          then have "rp_msgidx q2 \<le> length (?w @ a @ b)"
            using call_decides [OF w(3), of b r2 k2 s2 q2 "[]"] Some x by auto
          from take_prefix [OF bb(1) bc(1) this] show ?thesis
            using 2 dr by (simp add: fa fb after_call_complete [OF 2])
        next
          case 3
          have fa: "feed (a @ b) P = (if drop (nat k2) b = [] then Some (Waiting \<lparr>rp_msgbuf = bb, rp_msgsize = s2, rp_st = q2\<rparr>)
              else feed (drop (nat k2) b) \<lparr>rp_msgbuf = bb, rp_msgsize = s2, rp_st = q2\<rparr>)"
          proof -
            have "drop (nat (k2 + int (length a))) (a @ b) = drop (nat k2) b" using dr 3 by blast
            with fa show ?thesis unfolding 3 after_call_wait by (simp only:)
          qed
          have fb: "feed b ?Q = (if drop (nat k2) b = [] then Some (Waiting \<lparr>rp_msgbuf = bc, rp_msgsize = s2, rp_st = q2\<rparr>)
              else feed (drop (nat k2) b) \<lparr>rp_msgbuf = bc, rp_msgsize = s2, rp_st = q2\<rparr>)"
            using fb unfolding 3 after_call_wait by simp
          from call_waits [OF w(3), of b k2 s2 q2] Some x 3 consider "s2 = length (?w @ a @ b)" "k2 = int (length b)" | "s2 = 0" "st_ok [] q2" by auto
          then show ?thesis
          proof cases
            case 1
            then show ?thesis using fa fb bb(1) bc(1) by (simp add: same_parser_def received_def)
          next
            case 2
            note mb = between_made [OF 2(2), of bb s2] and mc = between_made [OF 2(2), of bc s2]
            have "same (feed (drop (nat k2) b) \<lparr>rp_msgbuf = bb, rp_msgsize = s2, rp_st = q2\<rparr>) (feed (drop (nat k2) b) \<lparr>rp_msgbuf = bc, rp_msgsize = s2, rp_st = q2\<rparr>)"
              using mb mc 2(1) by (intro feed_same) (simp_all add: same_parser_def)
            then show ?thesis using fa fb mb mc 2(1) by (simp add: same_parser_def)
          qed
        qed
      qed
      then show ?thesis using r Q(1) by (simp add: continues_def)
    next
      assume w: "sz = 0" "st_ok [] q" "0 < k" "k \<le> int (length a)"
        and ext: "\<forall>c. call_on (length ?w) (length (a @ c)) (?w @ a @ c) ?p = Some (0, k, 0, q)"
      let ?Q = "\<lparr>rp_msgbuf = ba, rp_msgsize = 0, rp_st = q\<rparr>" and ?R = "\<lparr>rp_msgbuf = bb, rp_msgsize = 0, rp_st = q\<rparr>"
      have Q: "between ?Q" "between ?R" "same_parser ?R ?Q"
        using between_made [OF w(2), of ba 0] between_made [OF w(2), of bb 0] by (simp_all add: same_parser_def)
      have fed: "feed (a @ b) P = (if drop (nat k) (a @ b) = [] then Some (Waiting ?R) else feed (drop (nat k) (a @ b)) ?R)"
        unfolding bb(3) ext [rule_format] after_call_wait ..
      show ?thesis
      proof (cases "drop (nat k) a = []")
        case True
        then have r: "r = Waiting ?Q" and d: "drop (nat k) (a @ b) = b" using less.prems(2) ba(3) call w(1,4) by (auto simp: after_call_def)
        have "same (feed (a @ b) P) (feed b ?Q)"
        proof (cases "b = []")
          case True
          have "received ?Q = []" by (simp add: received_def)
          with feed_call [OF Q(1), of "[]"] obtain bz where "feed [] ?Q = after_call bz (call_on 0 0 [] q) []" by auto
          then show ?thesis using True d fed by (simp add: after_call_def call_protocol same_parser_def received_def)
        next
          case False
          then show ?thesis using d fed feed_same [OF Q(2,1,3), of b] by simp
        qed
        then show ?thesis using r Q(1) by (simp add: continues_def)
      next
        case False
        then have fa: "feed (drop (nat k) a) ?Q = Some r" using less.prems(2) ba(3) call w(1) by (simp add: after_call_def)
        have "length (drop (nat k) a) < length a" using False w(3) by simp
        from less.hyps [OF this Q(1) fa] have "continues (drop (nat k) a) ?Q b r" .
        moreover have "same (feed (a @ b) P) (feed (drop (nat k) a @ b) ?Q)"
          using fed feed_same [OF Q(2,1,3), of "drop (nat k) a @ b"] False w(4) by simp
        ultimately show ?thesis by (rule continues_cong)
      qed
    qed
  qed
qed

lemma feed_pieces_whole:
  "between P \<Longrightarrow> feed_pieces ps P = Some r \<Longrightarrow> ps \<noteq> [] \<Longrightarrow> \<exists>r'. feed (concat ps) P = Some r' \<and> same_result r' r"
proof (induction ps arbitrary: P)
  case (Cons b ps)
  from Cons.prems(2) obtain f where f: "feed b P = Some f" by (cases "feed b P") auto
  note c = feed_append [OF Cons.prems(1) f, of "concat ps"]
  show ?case
  proof (cases f)
    case (Waiting Q)
    show ?thesis
    proof (cases "ps = []")
      case True
      with f Waiting Cons.prems(2) show ?thesis by simp
    next
      case False
      with f Waiting Cons.prems(2) c Cons.IH [of Q] obtain r' where "feed (concat ps) Q = Some r'" "same_result r' r"
        by (auto simp: continues_def)
      moreover have "same (feed (b @ concat ps) P) (feed (concat ps) Q)" using c Waiting by (simp add: continues_def)
      ultimately show ?thesis by (cases "feed (b @ concat ps) P") (auto intro: same_result_trans)
    qed
  next
    case (Complete rest Q)
    with f Cons.prems(2) c show ?thesis by (cases "feed (b @ concat ps) P") (auto simp: continues_def)
  next
    case (Failed e Q)
    with f Cons.prems(2) c show ?thesis by (cases "feed (b @ concat ps) P") (auto simp: continues_def)
  qed
qed simp

lemma between_init: "between (redis_parser_init [])"
  by (simp add: between_def redis_parser_init_def received_def st_ok_def scan_ok_def)

end
