(* ===== verification/RedisRoundtrip.thy ===== *)
theory RedisRoundtrip
  imports RedisPieces ReplyRoundtrip
begin

text \<open>
  The Redis parser of the workflow engine reads back every value of the protocol that it knows. The
  values and their wire form are those of the reply reader of hiredis, so that the two independent
  parsers are related to one specification.
\<close>

section \<open>Values and replies\<close>

fun crlf_free :: "bytes \<Rightarrow> bool" where
  "crlf_free [] \<longleftrightarrow> True"
| "crlf_free (c # s) \<longleftrightarrow> \<not> (c = CR \<and> s \<noteq> [] \<and> hd s = LF) \<and> crlf_free s"

text \<open>The values the parser knows, within its limits.\<close>

fun resp2 :: "val \<Rightarrow> bool" where
  "resp2 (V_error s) \<longleftrightarrow> crlf_free s"
| "resp2 (V_status s) \<longleftrightarrow> crlf_free s"
| "resp2 (V_integer i) \<longleftrightarrow> - (2 ^ 63) \<le> i \<and> i < 2 ^ 63"
| "resp2 (V_string s) \<longleftrightarrow> True"
| "resp2 V_null_string \<longleftrightarrow> True"
| "resp2 (V_seq t vs) \<longleftrightarrow> t = REDIS_REPLY_ARRAY \<and> int (length vs) \<le> REDIS_ARRAY_SIZE_LIMIT \<and> list_all resp2 vs"
| "resp2 (V_null_seq t) \<longleftrightarrow> t = REDIS_REPLY_ARRAY"
| "resp2 _ \<longleftrightarrow> False"

fun vdepth :: "val \<Rightarrow> nat" where
  "vdepth (V_seq t vs) = Suc (fold max (map vdepth vs) 0)"
| "vdepth _ = 1"

text \<open>The text of a reply: an offset while the message is read (\<open>False\<close>), a pointer afterwards.\<close>

fun text_at :: "bool \<Rightarrow> bytes \<Rightarrow> reply_str \<Rightarrow> nat \<Rightarrow> bytes option" where
  "text_at False msg (Str_off off) len = Some (take len (drop off msg))"
| "text_at True msg (Str_ptr off) len = Some (take len (drop off msg))"
| "text_at _ _ _ _ = None"

fun reply_is :: "bool \<Rightarrow> bytes \<Rightarrow> reply_mem \<Rightarrow> addr \<Rightarrow> val \<Rightarrow> bool"
  and replies_are :: "bool \<Rightarrow> bytes \<Rightarrow> reply_mem \<Rightarrow> addr list \<Rightarrow> val list \<Rightarrow> bool" where
  "reply_is fin msg m a v =
     (case m a of
        None \<Rightarrow> False
      | Some r \<Rightarrow>
          (case v of
             V_error s \<Rightarrow> rr_type r = REDIS_REPLY_TYPE_ERROR \<and> rr_len r = length s \<and> text_at fin msg (rr_str r) (rr_len r) = Some s
           | V_status s \<Rightarrow> rr_type r = REDIS_REPLY_TYPE_STATUS \<and> rr_len r = length s \<and> text_at fin msg (rr_str r) (rr_len r) = Some s
           | V_string s \<Rightarrow> rr_type r = REDIS_REPLY_TYPE_STRING \<and> rr_len r = length s \<and> text_at fin msg (rr_str r) (rr_len r) = Some s
           | V_integer i \<Rightarrow> rr_type r = REDIS_REPLY_TYPE_INTEGER \<and> rr_integer r = i
           | V_seq t vs \<Rightarrow> rr_type r = REDIS_REPLY_TYPE_ARRAY \<and> rr_elements r = length vs \<and> replies_are fin msg m (rr_element r) vs
           | _ \<Rightarrow> rr_type r = REDIS_REPLY_TYPE_NIL))"
| "replies_are fin msg m [] [] = True"
| "replies_are fin msg m (e # es) (v # vs) = (reply_is fin msg m e v \<and> replies_are fin msg m es vs)"
| "replies_are fin msg m _ _ = False"

declare reply_is.simps [simp del]

text \<open>The addresses below a reply, along a value.\<close>

fun nodes :: "reply_mem \<Rightarrow> addr \<Rightarrow> val \<Rightarrow> addr list"
  and nodes_all :: "reply_mem \<Rightarrow> addr list \<Rightarrow> val list \<Rightarrow> addr list" where
  "nodes m a (V_seq t vs) = a # nodes_all m (case m a of None \<Rightarrow> [] | Some r \<Rightarrow> rr_element r) vs"
| "nodes m a _ = [a]"
| "nodes_all m (e # es) (v # vs) = nodes m e v @ nodes_all m es vs"
| "nodes_all m _ _ = []"

lemma nodes_self [simp]: "a \<in> set (nodes m a v)"
  by (cases v) auto

lemma nodes_cong:
  "(\<And>b. b \<in> set (nodes m a v) \<Longrightarrow> m' b = m b) \<Longrightarrow> nodes m' a v = nodes m a v"
  "(\<And>b. b \<in> set (nodes_all m es vs) \<Longrightarrow> m' b = m b) \<Longrightarrow> nodes_all m' es vs = nodes_all m es vs"
  by (induction m a v and m es vs rule: nodes_nodes_all.induct) auto

lemma reply_cong:
  "reply_is fin msg m a v \<Longrightarrow> (\<And>b. b \<in> set (nodes m a v) \<Longrightarrow> m' b = m b) \<Longrightarrow> reply_is fin msg m' a v"
  "replies_are fin msg m es vs \<Longrightarrow> (\<And>b. b \<in> set (nodes_all m es vs) \<Longrightarrow> m' b = m b) \<Longrightarrow> replies_are fin msg m' es vs"
proof (induction fin msg m a v and fin msg m es vs rule: reply_is_replies_are.induct)
  case (1 fin msg m a v)
  then have "m' a = m a" by simp
  with 1 show ?case by (cases v) (auto simp: reply_is.simps [of _ _ _ a] split: option.splits)
qed auto

section \<open>Completing a message\<close>

lemma fold_max_le: "fold max xs (k::nat) \<le> n \<longleftrightarrow> k \<le> n \<and> (\<forall>x \<in> set xs. x \<le> n)"
  by (induction xs arbitrary: k) auto

lemma replies_length: "replies_are fin msg m es vs \<Longrightarrow> length es = length vs"
  by (induction es vs rule: list_induct2') auto

lemma done_text:
  assumes "m a = Some r" "rr_type r \<in> {REDIS_REPLY_TYPE_STATUS, REDIS_REPLY_TYPE_ERROR, REDIS_REPLY_TYPE_STRING}"
    "text_at False msg (rr_str r) (rr_len r) = Some t" "0 < n"
  shows "\<exists>s. redis_parse_done n a m = Some (1, m(a \<mapsto> r\<lparr>rr_str := s\<rparr>)) \<and> text_at True msg s (rr_len r) = Some t"
proof -
  obtain k where n: "n = Suc k" using assms(4) by (cases n) auto
  obtain off where "rr_str r = Str_off off" using assms(3) by (cases "rr_str r") auto
  with assms show ?thesis unfolding n by (auto simp: reply_types)
qed

lemma parse_done_holds:
  "\<lbrakk>reply_is False msg m a v; resp2 v; distinct (nodes m a v); vdepth v \<le> n\<rbrakk> \<Longrightarrow>
   \<exists>m'. redis_parse_done n a m = Some (1, m') \<and> reply_is True msg m' a v \<and> nodes m' a v = nodes m a v \<and> (\<forall>b. b \<notin> set (nodes m a v) \<longrightarrow> m' b = m b)"
proof (induction v arbitrary: n m a)
  case (V_seq t vs)
  obtain n' where n: "n = Suc n'" using V_seq.prems(4) by (cases n) auto
  obtain r where r: "m a = Some r" "rr_type r = REDIS_REPLY_TYPE_ARRAY" "rr_elements r = length vs" "replies_are False msg m (rr_element r) vs"
    using V_seq.prems(1) by (auto simp: reply_is.simps split: option.splits)
  have elems: "\<lbrakk>replies_are False msg k es ws; set ws \<subseteq> set vs; distinct (nodes_all k es ws)\<rbrakk> \<Longrightarrow>
      \<exists>k'. done_elements n' es k = Some (1, k') \<and> replies_are True msg k' es ws \<and> nodes_all k' es ws = nodes_all k es ws \<and>
        (\<forall>b. b \<notin> set (nodes_all k es ws) \<longrightarrow> k' b = k b)" for k es ws
  proof (induction es ws arbitrary: k rule: list_induct2')
    case (4 e es w ws)
    have w: "w \<in> set vs" "resp2 w" "vdepth w \<le> n'" using 4(3) V_seq.prems(2,4) n by (auto simp: list_all_iff fold_max_le)
    obtain k1 where k1: "redis_parse_done n' e k = Some (1, k1)" "reply_is True msg k1 e w" "nodes k1 e w = nodes k e w" "\<forall>b. b \<notin> set (nodes k e w) \<longrightarrow> k1 b = k b"
      using V_seq.IH [OF w(1), of k e n'] 4(2,4) w by auto
    have same: "k1 b = k b" if "b \<in> set (nodes_all k es ws)" for b using 4(4) that k1(4) by auto
    have nd: "nodes_all k1 es ws = nodes_all k es ws" using same by (rule nodes_cong(2))
    have "replies_are False msg k es ws" using 4(2) by simp
    then have "replies_are False msg k1 es ws" using same by (rule reply_cong(2))
    with 4(1) [of k1] 4(3,4) nd obtain k2 where k2: "done_elements n' es k1 = Some (1, k2)" "replies_are True msg k2 es ws"
        "nodes_all k2 es ws = nodes_all k1 es ws" "\<forall>b. b \<notin> set (nodes_all k1 es ws) \<longrightarrow> k2 b = k1 b" by auto
    have same2: "k2 b = k1 b" if "b \<in> set (nodes k1 e w)" for b using 4(4) that k2(4) nd k1(3) by auto
    have "reply_is True msg k2 e w" using reply_cong(1) [OF k1(2)] same2 by blast
    moreover have "nodes k2 e w = nodes k1 e w" using same2 by (rule nodes_cong(1))
    ultimately show ?case using k1 k2 nd by (intro exI [of _ k2]) auto
  qed auto
  have "distinct (nodes_all m (rr_element r) vs)" "a \<notin> set (nodes_all m (rr_element r) vs)" using V_seq.prems(3) r(1) by auto
  with elems [OF r(4)] obtain m' where m': "done_elements n' (rr_element r) m = Some (1, m')" "replies_are True msg m' (rr_element r) vs"
      "nodes_all m' (rr_element r) vs = nodes_all m (rr_element r) vs" "\<forall>b. b \<notin> set (nodes_all m (rr_element r) vs) \<longrightarrow> m' b = m b" "m' a = m a" by auto
  have "rr_elements r = length (rr_element r)" using r(3) replies_length [OF r(4)] by simp
  with r m' n show ?case by (intro exI [of _ m']) (simp add: reply_is.simps [of _ _ _ a])
next
  case (V_error s)
  then obtain r where "m a = Some r" "rr_type r = REDIS_REPLY_TYPE_ERROR" "rr_len r = length s" "text_at False msg (rr_str r) (rr_len r) = Some s"
    by (auto simp: reply_is.simps split: option.splits)
  with done_text [of m a r msg s n] V_error(4) show ?case by (auto simp: reply_is.simps)
next
  case (V_status s)
  then obtain r where "m a = Some r" "rr_type r = REDIS_REPLY_TYPE_STATUS" "rr_len r = length s" "text_at False msg (rr_str r) (rr_len r) = Some s"
    by (auto simp: reply_is.simps split: option.splits)
  with done_text [of m a r msg s n] V_status(4) show ?case by (auto simp: reply_is.simps)
next
  case (V_string s)
  then obtain r where "m a = Some r" "rr_type r = REDIS_REPLY_TYPE_STRING" "rr_len r = length s" "text_at False msg (rr_str r) (rr_len r) = Some s"
    by (auto simp: reply_is.simps split: option.splits)
  with done_text [of m a r msg s n] V_string(4) show ?case by (auto simp: reply_is.simps)
next
  case (V_integer i)
  then obtain k r where "n = Suc k" "m a = Some r" "rr_type r = REDIS_REPLY_TYPE_INTEGER" "rr_integer r = i"
    by (cases n) (auto simp: reply_is.simps split: option.splits)
  then show ?case by (auto simp: reply_is.simps reply_types)
next
  case V_null_string
  then obtain k r where "n = Suc k" "m a = Some r" "rr_type r = REDIS_REPLY_TYPE_NIL"
    by (cases n) (auto simp: reply_is.simps split: option.splits)
  then show ?case by (auto simp: reply_is.simps reply_types)
next
  case (V_null_seq t)
  then obtain k r where "n = Suc k" "m a = Some r" "rr_type r = REDIS_REPLY_TYPE_NIL"
    by (cases n) (auto simp: reply_is.simps split: option.splits)
  then show ?case by (auto simp: reply_is.simps reply_types)
qed simp_all

section \<open>Numbers\<close>

lemma digits_val_stop: "(\<And>c. c \<in> set ds \<Longrightarrow> c_isdigit c) \<Longrightarrow> \<not> c_isdigit x \<Longrightarrow> digits_val acc (ds @ x # t) = digits_val acc ds"
  by (induction ds arbitrary: acc) auto

lemma dec_nat_first: "\<exists>c cs. dec_nat n = c # cs \<and> c_isdigit c \<and> \<not> c_isspace c \<and> c \<noteq> CHR ''-'' \<and> c \<noteq> CHR ''+''"
proof -
  obtain c cs where c: "dec_nat n = c # cs" using dec_nat_not_Nil [of n] by (cases "dec_nat n") auto
  then have "c_isdigit c" using set_dec_nat [of c n] by simp
  moreover then have "\<not> c_isspace c" by (rule digit_not_space)
  moreover have "\<not> c_isdigit (CHR ''-'')" "\<not> c_isdigit (CHR ''+'')" by (simp_all add: c_isdigit_def uchar_def)
  ultimately show ?thesis using c by metis
qed

lemma strtol_dec_nat: "c_strtol10 (dec_nat n) = int n" "\<not> c_isdigit x \<Longrightarrow> c_strtol10 (dec_nat n @ x # t) = int n"
proof -
  obtain c cs where c: "dec_nat n = c # cs" "c_isdigit c" "\<not> c_isspace c" "c \<noteq> CHR ''-''" "c \<noteq> CHR ''+''" using dec_nat_first by blast
  then show "c_strtol10 (dec_nat n) = int n"
    using digits_val_dec_nat [of n] by (simp add: c_strtol10_def)
  assume x: "\<not> c_isdigit x"
  have "digits_val 0 (dec_nat n @ x # t) = n" using digits_val_stop [of "dec_nat n" x 0 t, OF set_dec_nat x] by simp
  then have "digits_val 0 ((c # cs) @ x # t) = n" using c(1) by simp
  with c show "c_strtol10 (dec_nat n @ x # t) = int n" by (simp add: c_strtol10_def)
qed

lemma atoll_dec_int: "- (2 ^ 63) \<le> i \<Longrightarrow> i < 2 ^ 63 \<Longrightarrow> c_atoll (dec_int i) = i"
proof -
  have sp: "\<not> c_isspace (CHR ''-'')" by (simp add: c_isspace_def uchar_def)
  have "c_strtol10 (dec_int i) = i"
  proof (cases "i < 0")
    case True
    then show ?thesis using sp digits_val_dec_nat [of "nat (- i)"] by (simp add: dec_int_def c_strtol10_def)
  next
    case False
    then show ?thesis using strtol_dec_nat(1) [of "nat i"] by (simp add: dec_int_def)
  qed
  then show "- (2 ^ 63) \<le> i \<Longrightarrow> i < 2 ^ 63 \<Longrightarrow> c_atoll (dec_int i) = i" by (simp add: c_atoll_def clamp_long_def)
qed

lemma length_dec_int: "- (2 ^ 63) \<le> i \<Longrightarrow> i < 2 ^ 63 \<Longrightarrow> dec_int i \<noteq> [] \<and> length (dec_int i) \<le> 30"
proof -
  assume i: "- (2 ^ 63) \<le> i" "i < 2 ^ 63"
  then have "nat i < 10 ^ 20" "nat (- i) < 10 ^ 20" by auto
  from this [THEN length_dec_nat] show ?thesis by (auto simp: dec_int_def)
qed

lemma atoi_in_dec_nat: "n < 2 ^ 31 \<Longrightarrow> atoi_in (dec_nat n @ CRLF @ t) = Some (int n)"
proof -
  assume n: "n < 2 ^ 31"
  obtain c cs where c: "dec_nat n = c # cs" "c_isdigit c" "\<not> c_isspace c" "c \<noteq> CHR ''-''" "c \<noteq> CHR ''+''" using dec_nat_first by blast
  have "c_strtol10 (dec_nat n @ CRLF @ t) = int n" using strtol_dec_nat(2) [of CR n "LF # t"] by simp
  moreover have "clamp_long (int n) = int n" using n by (simp add: clamp_long_def)
  moreover have "sint (word_of_int (int n) :: 32 word) = int n" by (rule sint32_id) (use n in simp_all)
  ultimately have "c_atoi (dec_nat n @ CRLF @ t) = int n" unfolding c_atoi_def c_atoll_def by simp
  with c show ?thesis by (simp add: atoi_in_def)
qed

lemma atoi_in_minus_one: "atoi_in (''-1'' @ CRLF @ t) = Some (-1)"
proof -
  have sp: "\<not> c_isspace (CHR ''-'')" "c_isdigit (CHR ''1'')" "digit_val (CHR ''1'') = 1" by (simp_all add: c_isspace_def c_isdigit_def digit_val_def uchar_def)
  have "sint (word_of_int (-1) :: 32 word) = -1" by simp
  with sp show ?thesis by (simp add: atoi_in_def c_atoi_def c_atoll_def clamp_long_def c_strtol10_def)
qed

section \<open>Reading a line\<close>

lemma crlf_scan_line:
  "drop i msg = line @ CRLF @ rest \<Longrightarrow> crlf_free line \<Longrightarrow> crlf_scan msg i = (True, i + length line)"
proof (induction line arbitrary: i)
  case Nil
  then have "i + 1 < length msg" "msg ! i = CR" "msg ! (i + 1) = LF"
    by (auto simp: less_diff_conv dest: arg_cong [of _ _ length] nth_via_drop)
      (metis add.commute append_Nil drop_Suc drop_drop nth_via_drop plus_1_eq_Suc tl_drop list.sel(3) append_Cons)
  then show ?case by (simp add: crlf_scan.simps [of msg i])
next
  case (Cons c line)
  have d: "drop (i + 1) msg = line @ CRLF @ rest" using Cons.prems(1) by (metis append_Cons drop_Suc list.sel(3) Suc_eq_plus1 drop_Suc tl_drop)
  have len: "i + 1 < length msg" using Cons.prems(1) by (auto simp: less_diff_conv dest!: arg_cong [of _ _ length])
  have c: "msg ! i = c" using Cons.prems(1) by (auto dest: nth_via_drop)
  have n: "msg ! (i + 1) = hd (line @ CRLF)" using d by (cases line) (auto dest: nth_via_drop)
  have "\<not> (msg ! i = CR \<and> msg ! (i + 1) = LF)" using Cons.prems(2) c n by (cases line) auto
  with Cons.IH [OF d] Cons.prems(2) len show ?case by (simp add: crlf_scan.simps [of msg i])
qed

text \<open>How the loop goes on after a complete item.\<close>

definition after :: "bytes \<Rightarrow> parse_state \<Rightarrow> (int \<times> parse_state) option" where
  "after msg q = (if rp_status (finish_one q) \<noteq> REDIS_PARSE_END then parse_loop msg (finish_one q) else Some (1, finish_one q))"

lemma loop_finish: "redis_parser_forward msg p = Some (1, q) \<Longrightarrow> parse_loop msg p = after msg q"
  by (simp add: parse_loop_step after_def settle_def)

lemma loop_go: "redis_parser_forward msg p = Some (0, q) \<Longrightarrow> rp_status q \<noteq> REDIS_PARSE_END \<Longrightarrow> parse_loop msg p = parse_loop msg q"
  by (simp add: parse_loop_step settle_def)

lemma drop_bytes:
  "drop i msg = c # t \<Longrightarrow> i < length msg \<and> msg ! i = c \<and> drop (i + 1) msg = t"
  "drop i msg = s @ t \<Longrightarrow> drop (i + length s) msg = t \<and> take (length s) (drop i msg) = s"
proof -
  assume a: "drop i msg = c # t"
  then have "i < length msg" by (metis drop_all list.distinct(1) not_le)
  with a show "i < length msg \<and> msg ! i = c \<and> drop (i + 1) msg = t" by (metis Cons_nth_drop_Suc Suc_eq_plus1 list.inject)
next
  assume "drop i msg = s @ t"
  then show "drop (i + length s) msg = t \<and> take (length s) (drop i msg) = s"
    by (metis add.commute append_eq_conv_conj drop_drop)
qed

text \<open>The state in which the line of an item is known.\<close>

definition at_line :: "byte \<Rightarrow> nat \<Rightarrow> parse_state \<Rightarrow> parse_state" where
  "at_line ch len p = p\<lparr>rp_msgidx := rp_msgidx p + 1, rp_cmd := ch, rp_status := REDIS_UNTIL_CRLF, rp_findidx := rp_msgidx p + 1 + len\<rparr>"

lemma line_step:
  assumes "rp_status p = REDIS_GET_CMD" "drop (rp_msgidx p) msg = ch # line @ CRLF @ rest" "ch \<in> set ''+-:$*''" "crlf_free line"
    "redis_parse_line msg (at_line ch (length line) p) = Some (r, q)"
  shows "r = 1 \<Longrightarrow> parse_loop msg p = after msg q" "r = 0 \<Longrightarrow> rp_status q \<noteq> REDIS_PARSE_END \<Longrightarrow> parse_loop msg p = parse_loop msg q"
proof -
  let ?p = "p\<lparr>rp_msgidx := rp_msgidx p + 1, rp_cmd := ch, rp_status := REDIS_UNTIL_CRLF, rp_findidx := rp_msgidx p + 1\<rparr>"
  note d = drop_bytes(1) [OF assms(2)]
  have "redis_parser_forward msg p = Some (0, ?p)"
    using d assms(1,3) by (auto simp: redis_parser_forward_def redis_parse_cmd_def)
  then have 1: "parse_loop msg p = parse_loop msg ?p" by (rule loop_go) simp
  have "rp_msgidx p + 1 < length msg" using d by (metis Nil_is_append_conv drop_all list.distinct(1) not_le)
  moreover have "crlf_scan msg (rp_msgidx p + 1) = (True, rp_msgidx p + 1 + length line)" using crlf_scan_line d assms(4) by blast
  ultimately have "redis_parser_forward msg ?p = Some (r, q)"
    using assms(5) by (simp add: redis_parser_forward_def redis_parse_crlf_def at_line_def)
  then show "r = 1 \<Longrightarrow> parse_loop msg p = after msg q" "r = 0 \<Longrightarrow> rp_status q \<noteq> REDIS_PARSE_END \<Longrightarrow> parse_loop msg p = parse_loop msg q"
    using 1 loop_finish loop_go by auto
qed

lemma crlf_step:
  assumes "rp_status p = REDIS_GET_CR" "drop (rp_msgidx p) msg = CRLF @ rest"
  shows "parse_loop msg p = after msg (p\<lparr>rp_msgidx := rp_msgidx p + 2, rp_status := REDIS_GET_LF\<rparr>)"
proof -
  let ?p = "p\<lparr>rp_msgidx := rp_msgidx p + 1, rp_status := REDIS_GET_LF\<rparr>"
  have d: "rp_msgidx p < length msg" "msg ! rp_msgidx p = CR" "drop (rp_msgidx p + 1) msg = LF # rest" using drop_bytes(1) [of "rp_msgidx p" msg CR "LF # rest"] assms(2) by auto
  then have "redis_parser_forward msg p = Some (0, ?p)" using assms(1) by (simp add: redis_parser_forward_def redis_parse_cr_def)
  moreover have "redis_parser_forward msg ?p = Some (1, p\<lparr>rp_msgidx := rp_msgidx p + 2, rp_status := REDIS_GET_LF\<rparr>)"
    using drop_bytes(1) [OF d(3)] by (simp add: redis_parser_forward_def redis_parse_lf_def)
  ultimately show ?thesis using loop_go loop_finish by simp
qed

section \<open>Reading an item\<close>

definition at_item :: "bytes \<Rightarrow> parse_state \<Rightarrow> bytes \<Rightarrow> bytes \<Rightarrow> bool" where
  "at_item msg p bs rest \<longleftrightarrow> rp_status p = REDIS_GET_CMD \<and> drop (rp_msgidx p) msg = bs @ rest \<and> rp_mem p (rp_cur p) = Some redis_reply_init \<and>
     rp_answers p = [] \<and> dom (rp_mem p) \<subseteq> {..<rp_next p} \<and> 1 \<le> rp_nleft p \<and> rp_nleft p \<le> 1 + int (length rest)"

definition item_read :: "bytes \<Rightarrow> parse_state \<Rightarrow> val \<Rightarrow> parse_state \<Rightarrow> bool" where
  "item_read msg p v q \<longleftrightarrow> rp_msgidx q = rp_msgidx p + length (encode v) \<and> rp_nleft q = rp_nleft p \<and> rp_read_list q = rp_read_list p \<and>
     rp_answers q = [] \<and> rp_next p \<le> rp_next q \<and> dom (rp_mem q) \<subseteq> {..<rp_next q} \<and>
     (\<forall>b. b \<noteq> rp_cur p \<longrightarrow> b < rp_next p \<longrightarrow> rp_mem q b = rp_mem p b) \<and>
     reply_is False msg (rp_mem q) (rp_cur p) v \<and> distinct (nodes (rp_mem q) (rp_cur p) v) \<and>
     set (nodes (rp_mem q) (rp_cur p) v) \<subseteq> {rp_cur p} \<union> {rp_next p ..< rp_next q}"

definition reads :: "bytes \<Rightarrow> val \<Rightarrow> bool" where
  "reads msg v \<longleftrightarrow> (\<forall>p rest. at_item msg p (encode v) rest \<longrightarrow> (\<exists>q. parse_loop msg p = after msg q \<and> item_read msg p v q))"

text \<open>An item without elements: only its reply changes.\<close>

lemma leaf_read:
  assumes "at_item msg p (encode v) rest" "parse_loop msg p = after msg q" "rp_msgidx q = rp_msgidx p + length (encode v)"
    "rp_mem q = (rp_mem p)(rp_cur p \<mapsto> r)" "rp_nleft q = rp_nleft p" "rp_read_list q = rp_read_list p" "rp_answers q = rp_answers p" "rp_next q = rp_next p"
    "reply_is False msg [rp_cur p \<mapsto> r] (rp_cur p) v" "\<And>m. nodes m (rp_cur p) v = [rp_cur p]"
  shows "\<exists>q. parse_loop msg p = after msg q \<and> item_read msg p v q"
proof -
  have "reply_is False msg (rp_mem q) (rp_cur p) v" by (rule reply_cong(1) [OF assms(9)]) (use assms(4,10) in auto)
  then show ?thesis using assms by (intro exI [of _ q]) (auto simp: item_read_def at_item_def)
qed

lemma crlf_free_CR: "CR \<notin> set s \<Longrightarrow> crlf_free s"
  by (induction s) auto

lemma line_item_read:
  assumes e: "encode v = ch # line @ CRLF" "ch \<in> set ''+-:$*''" "crlf_free line" and nodes: "\<And>m a. nodes m a v = [a]"
    and line: "\<And>p rest. at_item msg p (encode v) rest \<Longrightarrow> \<exists>r. redis_parse_line msg (at_line ch (length line) p) =
        Some (1, (at_line ch (length line) p)\<lparr>rp_msgidx := rp_msgidx p + length (encode v), rp_mem := (rp_mem p)(rp_cur p \<mapsto> r)\<rparr>) \<and>
      reply_is False msg [rp_cur p \<mapsto> r] (rp_cur p) v"
  shows "reads msg v"
  unfolding reads_def
proof (intro allI impI)
  fix p rest assume a: "at_item msg p (encode v) rest"
  from line [OF a] obtain r where r: "redis_parse_line msg (at_line ch (length line) p) =
        Some (1, (at_line ch (length line) p)\<lparr>rp_msgidx := rp_msgidx p + length (encode v), rp_mem := (rp_mem p)(rp_cur p \<mapsto> r)\<rparr>)"
      "reply_is False msg [rp_cur p \<mapsto> r] (rp_cur p) v" by blast
  let ?q = "(at_line ch (length line) p)\<lparr>rp_msgidx := rp_msgidx p + length (encode v), rp_mem := (rp_mem p)(rp_cur p \<mapsto> r)\<rparr>"
  have "parse_loop msg p = after msg ?q"
    by (rule line_step(1) [OF _ _ e(2,3) r(1)]) (use a e(1) in \<open>auto simp: at_item_def\<close>)
  with a r(2) nodes show "\<exists>q. parse_loop msg p = after msg q \<and> item_read msg p v q"
    by (intro leaf_read [OF a, of ?q r]) (simp_all add: at_line_def)
qed

lemma line_at:
  assumes "at_item msg p (encode v) rest" "encode v = ch # line @ CRLF"
  shows "drop (rp_msgidx p + 1) msg = line @ CRLF @ rest"
  using assms drop_bytes(1) [of "rp_msgidx p" msg ch "line @ CRLF @ rest"] by (simp add: at_item_def)

lemma reads_status: "crlf_free s \<Longrightarrow> reads msg (V_status s)"
proof (rule line_item_read [of _ "CHR ''+''" s])
  fix p rest assume a: "at_item msg p (encode (V_status s)) rest"
  note d = line_at [OF a, of "CHR ''+''" s, simplified]
  show "\<exists>r. redis_parse_line msg (at_line (CHR ''+'') (length s) p) =
        Some (1, (at_line (CHR ''+'') (length s) p)\<lparr>rp_msgidx := rp_msgidx p + length (encode (V_status s)), rp_mem := (rp_mem p)(rp_cur p \<mapsto> r)\<rparr>) \<and>
      reply_is False msg [rp_cur p \<mapsto> r] (rp_cur p) (V_status s)"
    using a d by (intro exI [of _ "redis_reply_set_status (Str_off (rp_msgidx p + 1)) (length s) redis_reply_init"])
      (simp add: redis_parse_line_def at_line_def upd_reply_def at_item_def reply_is.simps redis_reply_set_status_def Let_def)
qed auto

lemma reads_error: "crlf_free s \<Longrightarrow> reads msg (V_error s)"
proof (rule line_item_read [of _ "CHR ''-''" s])
  fix p rest assume a: "at_item msg p (encode (V_error s)) rest"
  note d = line_at [OF a, of "CHR ''-''" s, simplified]
  show "\<exists>r. redis_parse_line msg (at_line (CHR ''-'') (length s) p) =
        Some (1, (at_line (CHR ''-'') (length s) p)\<lparr>rp_msgidx := rp_msgidx p + length (encode (V_error s)), rp_mem := (rp_mem p)(rp_cur p \<mapsto> r)\<rparr>) \<and>
      reply_is False msg [rp_cur p \<mapsto> r] (rp_cur p) (V_error s)"
    using a d by (intro exI [of _ "redis_reply_set_error (Str_off (rp_msgidx p + 1)) (length s) redis_reply_init"])
      (simp add: redis_parse_line_def at_line_def upd_reply_def at_item_def reply_is.simps redis_reply_set_error_def Let_def)
qed auto

lemma reads_integer:
  assumes "- (2 ^ 63) \<le> i" "i < 2 ^ 63"
  shows "reads msg (V_integer i)"
proof (rule line_item_read [of _ "CHR '':''" "dec_int i"])
  fix p rest assume a: "at_item msg p (encode (V_integer i)) rest"
  note d = line_at [OF a, of "CHR '':''" "dec_int i", simplified]
  show "\<exists>r. redis_parse_line msg (at_line (CHR '':'') (length (dec_int i)) p) =
        Some (1, (at_line (CHR '':'') (length (dec_int i)) p)\<lparr>rp_msgidx := rp_msgidx p + length (encode (V_integer i)), rp_mem := (rp_mem p)(rp_cur p \<mapsto> r)\<rparr>) \<and>
      reply_is False msg [rp_cur p \<mapsto> r] (rp_cur p) (V_integer i)"
    using a d length_dec_int [OF assms] atoll_dec_int [OF assms]
    by (intro exI [of _ "redis_reply_set_integer i redis_reply_init"]) (simp add: redis_parse_line_def at_line_def upd_reply_def at_item_def reply_is.simps redis_reply_set_integer_def Let_def)
qed (use CR_notin_dec_int in \<open>auto intro: crlf_free_CR\<close>)

lemma reads_null:
  assumes "encode v = ch # ''-1'' @ CRLF" "ch \<in> set ''$*''" "\<And>m a. nodes m a v = [a]"
    "\<And>fin m a. reply_is fin msg m a v = (case m a of None \<Rightarrow> False | Some r \<Rightarrow> rr_type r = REDIS_REPLY_TYPE_NIL)"
  shows "reads msg v"
proof (rule line_item_read [of _ ch "''-1''"])
  fix p rest assume a: "at_item msg p (encode v) rest"
  note d = line_at [OF a assms(1)]
  show "\<exists>r. redis_parse_line msg (at_line ch (length ''-1'') p) =
        Some (1, (at_line ch (length ''-1'') p)\<lparr>rp_msgidx := rp_msgidx p + length (encode v), rp_mem := (rp_mem p)(rp_cur p \<mapsto> r)\<rparr>) \<and>
      reply_is False msg [rp_cur p \<mapsto> r] (rp_cur p) v"
  proof (intro exI [of _ "redis_reply_set_null redis_reply_init"] conjI)
    show "reply_is False msg [rp_cur p \<mapsto> redis_reply_set_null redis_reply_init] (rp_cur p) v"
      by (simp add: assms(4) redis_reply_set_null_def)
    have "ch = CHR ''$'' \<or> ch = CHR ''*''" using assms(2) by auto
    moreover have "atoi_in (drop (rp_msgidx p + 1) msg) = Some (-1)" unfolding d by (rule atoi_in_minus_one)
    moreover have "rp_mem p (rp_cur p) = Some redis_reply_init" using a by (simp add: at_item_def)
    moreover have "length (encode v) = 5" using assms(1) by simp
    ultimately show "redis_parse_line msg (at_line ch (length ''-1'') p) =
        Some (1, (at_line ch (length ''-1'') p)\<lparr>rp_msgidx := rp_msgidx p + length (encode v), rp_mem := (rp_mem p)(rp_cur p \<mapsto> redis_reply_set_null redis_reply_init)\<rparr>)"
      by (elim disjE) (simp_all add: redis_parse_line_def at_line_def upd_reply_def parse_bulk_line_def parse_array_line_def Let_def)
  qed
qed (use assms in auto)

lemma digits_first: "drop i msg = dec_nat n @ t \<Longrightarrow> i < length msg \<and> c_isdigit (msg ! i)"
  using dec_nat_first [of n] drop_bytes(1) [of i msg] by (metis append_Cons)

lemma reads_string:
  assumes "length msg < 2 ^ 31"
  shows "reads msg (V_string s)"
  unfolding reads_def
proof (intro allI impI)
  fix p rest assume a: "at_item msg p (encode (V_string s)) rest"
  let ?n = "length s" and ?line = "dec_nat (length s)"
  let ?i = "rp_msgidx p + 1 + length ?line + 2"
  let ?p = "(at_line (CHR ''$'') (length ?line) p)\<lparr>rp_msgidx := ?i\<rparr>"
  have d: "drop (rp_msgidx p) msg = CHR ''$'' # ?line @ CRLF @ s @ CRLF @ rest" using a by (simp add: at_item_def)
  have d1: "drop (rp_msgidx p + 1) msg = ?line @ CRLF @ s @ CRLF @ rest" using drop_bytes(1) [OF d] by simp
  have "drop ?i msg = s @ CRLF @ rest"
    using drop_bytes(2) [of "rp_msgidx p + 1" msg "?line @ CRLF" "s @ CRLF @ rest"] d1 by (simp add: add.assoc)
  note d2 = this drop_bytes(2) [OF this]
  have len: "?i + ?n + 2 \<le> length msg" using arg_cong [OF d2(1), of length] by (cases "?i \<le> length msg") auto
  have n: "?n < 2 ^ 31" using len assms by simp
  have at: "atoi_in (drop (rp_msgidx p + 1) msg) = Some (int ?n)" unfolding d1 by (rule atoi_in_dec_nat [OF n])
  have mem: "rp_mem p (rp_cur p) = Some redis_reply_init" "rp_status p = REDIS_GET_CMD" using a by (simp_all add: at_item_def)
  have free: "crlf_free ?line" using CR_notin_dec_nat by (rule crlf_free_CR)
  let ?r = "\<lambda>off. redis_reply_set_string (Str_off off) ?n redis_reply_init"
  let ?q = "\<lambda>off P. P\<lparr>rp_msgidx := ?i + ?n, rp_mem := (rp_mem p)(rp_cur p \<mapsto> ?r off), rp_status := REDIS_GET_CR\<rparr>"
  have "\<exists>off P. parse_loop msg p = parse_loop msg (?q off P) \<and> rp_nleft P = rp_nleft p \<and> rp_read_list P = rp_read_list p \<and> rp_answers P = rp_answers p \<and>
      rp_next P = rp_next p \<and> take ?n (drop off msg) = s"
  proof (cases "?n = 0")
    case True
    have "redis_parse_line msg (at_line (CHR ''$'') (length ?line) p) = Some (0, ?q (rp_msgidx p + 1) ?p)"
      using at digits_first [OF d1] mem True by (simp add: redis_parse_line_def parse_bulk_line_def upd_reply_def at_line_def Let_def)
    from line_step(2) [OF mem(2) d _ free this] have "parse_loop msg p = parse_loop msg (?q (rp_msgidx p + 1) ?p)" by simp
    with True show ?thesis by (intro exI [of _ "rp_msgidx p + 1"] exI [of _ ?p]) (simp add: at_line_def)
  next
    case False
    let ?P = "?p\<lparr>rp_nchar := int ?n, rp_status := REDIS_GET_NCHAR\<rparr>"
    have "redis_parse_line msg (at_line (CHR ''$'') (length ?line) p) = Some (0, ?P)"
      using at digits_first [OF d1] mem False by (simp add: redis_parse_line_def parse_bulk_line_def at_line_def Let_def)
    from line_step(2) [OF mem(2) d _ free this] have "parse_loop msg p = parse_loop msg ?P" by simp
    also have "redis_parser_forward msg ?P = Some (0, ?q ?i ?P)"
      using len False mem(1) by (simp add: redis_parser_forward_def redis_parse_nchar_def upd_reply_def at_line_def)
    then have "parse_loop msg ?P = parse_loop msg (?q ?i ?P)" by (rule loop_go) simp
    finally show ?thesis using d2 by (intro exI [of _ ?i] exI [of _ ?P]) (simp add: at_line_def)
  qed
  then obtain off P where P: "parse_loop msg p = parse_loop msg (?q off P)" "rp_nleft P = rp_nleft p" "rp_read_list P = rp_read_list p"
      "rp_answers P = rp_answers p" "rp_next P = rp_next p" "take ?n (drop off msg) = s" by blast
  have "parse_loop msg (?q off P) = after msg ((?q off P)\<lparr>rp_msgidx := ?i + ?n + 2, rp_status := REDIS_GET_LF\<rparr>)"
    using crlf_step [of "?q off P" msg rest] d2 by simp
  with P show "\<exists>q. parse_loop msg p = after msg q \<and> item_read msg p (V_string s) q"
    by (intro leaf_read [OF a, of "(?q off P)\<lparr>rp_msgidx := ?i + ?n + 2, rp_status := REDIS_GET_LF\<rparr>" "?r off"])
      (simp_all add: reply_is.simps redis_reply_set_string_def)
qed

section \<open>Reading arrays\<close>

lemma create_elements_granted:
  "rp_answers p = [] \<Longrightarrow> create_elements n p =
     (True, [rp_next p ..< rp_next p + n], p\<lparr>rp_mem := (\<lambda>a. if rp_next p \<le> a \<and> a < rp_next p + n then Some redis_reply_init else rp_mem p a), rp_next := rp_next p + n\<rparr>)"
proof (induction n arbitrary: p)
  case (Suc n)
  have "rp_next p # [Suc (rp_next p) ..< Suc (rp_next p) + n] = [rp_next p ..< rp_next p + Suc n]" by (simp add: upt_conv_Cons)
  with Suc show ?case by (auto simp: fun_eq_iff upt_conv_Cons)
next
  case 0
  have "(\<lambda>a. if rp_next p \<le> a \<and> a < rp_next p + 0 then Some redis_reply_init else rp_mem p a) = rp_mem p" by (rule ext) auto
  then show ?case by simp
qed

lemma push_records_granted: "rp_answers p = [] \<Longrightarrow> push_records es p = (True, p\<lparr>rp_read_list := rev es @ rp_read_list p\<rparr>)"
  by (induction es arbitrary: p) auto

lemma set_array_granted:
  assumes "rp_answers p = []" "rp_mem p a = Some redis_reply_init" "a < rp_next p"
  shows "redis_reply_set_array n a p = Some (0, p\<lparr>rp_mem := (\<lambda>b. if rp_next p \<le> b \<and> b < rp_next p + n then Some redis_reply_init else rp_mem p b)
      (a \<mapsto> redis_reply_init\<lparr>rr_element := [rp_next p ..< rp_next p + n], rr_elements := n, rr_type := REDIS_REPLY_TYPE_ARRAY\<rparr>), rp_next := rp_next p + n\<rparr>)"
proof -
  have i: "rr_elements redis_reply_init = 0" "rr_element redis_reply_init = []" by (simp_all add: redis_reply_init_def)
  have p: "p\<lparr>rp_answers := []\<rparr> = p" using assms(1) by simp
  have "redis_create_array n p = (Some [rp_next p ..< rp_next p + n],
      p\<lparr>rp_mem := (\<lambda>b. if rp_next p \<le> b \<and> b < rp_next p + n then Some redis_reply_init else rp_mem p b), rp_next := rp_next p + n\<rparr>)"
    unfolding redis_create_array_def by (simp add: assms(1) p create_elements_granted)
  then show ?thesis using assms i by (simp add: redis_reply_set_array_def redis_reply_deinit_def upd_reply_def)
qed

lemma length_vs: "length vs \<le> length (concat (map encode vs))"
proof (induction vs)
  case (Cons v vs)
  then show ?case using encode_not_Nil [of v] by (cases "encode v") auto
qed simp

lemma array_elements_read:
  "\<lbrakk>\<forall>v \<in> set vs. reads msg v; vs \<noteq> []; length es = length vs; distinct es; rp_status p = REDIS_GET_CMD;
    drop (rp_msgidx p) msg = concat (map encode vs) @ rest; rp_cur p = hd es; rp_read_list p = tl es @ L;
    \<forall>e \<in> set es. rp_mem p e = Some redis_reply_init; rp_answers p = []; dom (rp_mem p) \<subseteq> {..<rp_next p};
    rp_nleft p = K + int (length vs) - 1; 1 \<le> K; K \<le> 1 + int (length rest)\<rbrakk> \<Longrightarrow>
   \<exists>q. parse_loop msg p = after msg q \<and> rp_msgidx q = rp_msgidx p + length (concat (map encode vs)) \<and> rp_nleft q = K \<and> rp_read_list q = L \<and>
     rp_answers q = [] \<and> rp_next p \<le> rp_next q \<and> dom (rp_mem q) \<subseteq> {..<rp_next q} \<and>
     (\<forall>b. b \<notin> set es \<longrightarrow> b < rp_next p \<longrightarrow> rp_mem q b = rp_mem p b) \<and>
     replies_are False msg (rp_mem q) es vs \<and> distinct (nodes_all (rp_mem q) es vs) \<and> set (nodes_all (rp_mem q) es vs) \<subseteq> set es \<union> {rp_next p ..< rp_next q}"
proof (induction vs arbitrary: es p)
  case (Cons v vs)
  obtain e es' where es: "es = e # es'" using Cons.prems(3) by (cases es) auto
  have lt: "\<forall>x \<in> set es. x < rp_next p" using Cons.prems(9,11) by (auto simp: subset_iff dom_def)
  have "at_item msg p (encode v) (concat (map encode vs) @ rest)"
    using Cons.prems es length_vs [of vs] by (auto simp: at_item_def)
  then obtain q1 where q1: "parse_loop msg p = after msg q1" "item_read msg p v q1" using Cons.prems(1) by (auto simp: reads_def)
  note r = q1(2) [unfolded item_read_def] and cur = Cons.prems(7) [unfolded es, simplified]
  show ?case
  proof (cases "vs = []")
    case True
    with Cons.prems(3) es have "es' = []" by simp
    with True es q1 r cur Cons.prems(8,12) show ?thesis by (intro exI [of _ q1]) auto
  next
    case False
    then obtain e2 es2 where es2: "es' = e2 # es2" using Cons.prems(3) es by (cases es') auto
    let ?p = "finish_one q1"
    have rl: "rp_read_list q1 = e2 # es2 @ L" using r Cons.prems(8) es es2 by simp
    have nl: "rp_nleft q1 - 1 = K + int (length vs) - 1" using r Cons.prems(12) by simp
    have pos: "rp_nleft q1 - 1 > 0" using nl Cons.prems(13) False by (cases vs) auto
    have fin: "?p = q1\<lparr>rp_nleft := rp_nleft q1 - 1, rp_cur := e2, rp_read_list := es2 @ L, rp_status := REDIS_GET_CMD\<rparr>"
      using rl pos by (simp add: finish_one_def Let_def)
    have go: "parse_loop msg p = parse_loop msg ?p" using q1(1) fin by (simp add: after_def)
    have mem1: "\<forall>x \<in> set es'. rp_mem q1 x = Some redis_reply_init"
    proof
      fix x assume x: "x \<in> set es'"
      then have "x \<noteq> rp_cur p" "x < rp_next p" using Cons.prems(4) es cur lt by auto
      with x r Cons.prems(9) es show "rp_mem q1 x = Some redis_reply_init" by simp
    qed
    have d1: "drop (rp_msgidx q1) msg = concat (map encode vs) @ rest"
      using drop_bytes(2) [of "rp_msgidx p" msg "encode v" "concat (map encode vs) @ rest"] Cons.prems(6) r by simp
    have "\<exists>q. parse_loop msg ?p = after msg q \<and> rp_msgidx q = rp_msgidx ?p + length (concat (map encode vs)) \<and> rp_nleft q = K \<and> rp_read_list q = L \<and>
       rp_answers q = [] \<and> rp_next ?p \<le> rp_next q \<and> dom (rp_mem q) \<subseteq> {..<rp_next q} \<and>
       (\<forall>b. b \<notin> set es' \<longrightarrow> b < rp_next ?p \<longrightarrow> rp_mem q b = rp_mem ?p b) \<and>
       replies_are False msg (rp_mem q) es' vs \<and> distinct (nodes_all (rp_mem q) es' vs) \<and> set (nodes_all (rp_mem q) es' vs) \<subseteq> set es' \<union> {rp_next ?p ..< rp_next q}"
      by (rule Cons.IH) (use Cons.prems es es2 False fin mem1 d1 r nl in auto)
    then obtain q where q: "parse_loop msg ?p = after msg q" "rp_msgidx q = rp_msgidx q1 + length (concat (map encode vs))" "rp_nleft q = K" "rp_read_list q = L"
       "rp_answers q = []" "rp_next q1 \<le> rp_next q" "dom (rp_mem q) \<subseteq> {..<rp_next q}"
       "\<forall>b. b \<notin> set es' \<longrightarrow> b < rp_next q1 \<longrightarrow> rp_mem q b = rp_mem q1 b"
       "replies_are False msg (rp_mem q) es' vs" "distinct (nodes_all (rp_mem q) es' vs)" "set (nodes_all (rp_mem q) es' vs) \<subseteq> set es' \<union> {rp_next q1 ..< rp_next q}"
      unfolding fin by auto
    have nd: "set (nodes (rp_mem q1) e v) \<subseteq> {e} \<union> {rp_next p ..< rp_next q1}" using r cur by simp
    have same: "rp_mem q b = rp_mem q1 b" if "b \<in> set (nodes (rp_mem q1) e v)" for b
    proof -
      have "b \<notin> set es'" using that nd lt Cons.prems(4) es by fastforce
      moreover have "b < rp_next q1" using that nd lt es r by fastforce
      ultimately show ?thesis using q(8) by simp
    qed
    have hv: "reply_is False msg (rp_mem q) e v" using reply_cong(1) [of False msg "rp_mem q1" e v "rp_mem q"] same r cur by simp
    have nv: "nodes (rp_mem q) e v = nodes (rp_mem q1) e v" using same by (rule nodes_cong(1))
    have "set (nodes (rp_mem q1) e v) \<inter> set (nodes_all (rp_mem q) es' vs) = {}"
      using nd q(11) lt Cons.prems(4) es r by fastforce
    with nd q(10,11) r cur have dist: "distinct (nodes_all (rp_mem q) es (v # vs))" by (simp add: es nv)
    have sub: "set (nodes_all (rp_mem q) es (v # vs)) \<subseteq> set es \<union> {rp_next p ..< rp_next q}"
      using nd q(6,11) r by (fastforce simp: es nv)
    show ?thesis
      using go q r cur hv dist sub es by (intro exI [of _ q]) auto
  qed
qed simp

lemma reads_array:
  assumes "length msg < 2 ^ 31" "\<forall>v \<in> set vs. reads msg v" "int (length vs) \<le> REDIS_ARRAY_SIZE_LIMIT"
  shows "reads msg (V_seq REDIS_REPLY_ARRAY vs)"
  unfolding reads_def
proof (intro allI impI)
  let ?v = "V_seq REDIS_REPLY_ARRAY vs"
  fix p rest assume a: "at_item msg p (encode ?v) rest"
  let ?n = "length vs" and ?line = "dec_nat (length vs)" and ?body = "concat (map encode vs)"
  let ?i = "rp_msgidx p + 1 + length ?line + 2" and ?es = "[rp_next p ..< rp_next p + length vs]"
  have e: "encode ?v = CHR ''*'' # ?line @ CRLF @ ?body" by (simp add: type_byte_def)
  have d: "drop (rp_msgidx p) msg = CHR ''*'' # ?line @ CRLF @ ?body @ rest" using a e by (simp add: at_item_def)
  have d1: "drop (rp_msgidx p + 1) msg = ?line @ CRLF @ ?body @ rest" using drop_bytes(1) [OF d] by simp
  have d2: "drop ?i msg = ?body @ rest"
    using drop_bytes(2) [of "rp_msgidx p + 1" msg "?line @ CRLF" "?body @ rest"] d1 by (simp add: add.assoc)
  have len: "3 + length ?body + length rest \<le> length msg"
    using arg_cong [OF d, of length] by (cases "rp_msgidx p \<le> length msg") auto
  have n: "?n < 2 ^ 31" using len assms(1) length_vs [of vs] by simp
  have at: "atoi_in (drop (rp_msgidx p + 1) msg) = Some (int ?n)" unfolding d1 by (rule atoi_in_dec_nat [OF n])
  have mem: "rp_mem p (rp_cur p) = Some redis_reply_init" "rp_answers p = []" "rp_cur p < rp_next p" "1 \<le> rp_nleft p" "rp_nleft p \<le> 1 + int (length rest)"
      "dom (rp_mem p) \<subseteq> {..<rp_next p}" "rp_status p = REDIS_GET_CMD"
    using a by (auto simp: at_item_def dom_def)
  have free: "crlf_free ?line" using CR_notin_dec_nat by (rule crlf_free_CR)
  have nl: "rp_nleft p + int ?n < 2 ^ 31" using mem(5) len assms(1) length_vs [of vs] by simp
  let ?P = "(at_line (CHR ''*'') (length ?line) p)\<lparr>rp_msgidx := ?i, rp_nleft := rp_nleft p + int ?n\<rparr>"
  let ?mem = "(\<lambda>b. if rp_next p \<le> b \<and> b < rp_next p + ?n then Some redis_reply_init else rp_mem p b)
      (rp_cur p \<mapsto> redis_reply_init\<lparr>rr_element := ?es, rr_elements := ?n, rr_type := REDIS_REPLY_TYPE_ARRAY\<rparr>)"
  let ?Q = "?P\<lparr>rp_mem := ?mem, rp_next := rp_next p + ?n\<rparr>"
  have sa: "redis_reply_set_array ?n (rp_cur p) ?P = Some (0, ?Q)"
  proof -
    have P: "rp_answers ?P = []" "rp_mem ?P = rp_mem p" "rp_next ?P = rp_next p" using mem(2) by (simp_all add: at_line_def)
    show ?thesis by (rule set_array_granted [of ?P "rp_cur p" ?n, unfolded P(2,3)]) (use P(1) mem in simp_all)
  qed
  have dom: "dom ?mem \<subseteq> {..<rp_next p + ?n}" using mem(3,6) by (auto simp: subset_iff dom_def split: if_splits)
  have ic: "rp_msgidx ?Q = rp_msgidx p + (length (encode ?v) - length ?body)" by (simp add: e)
  show "\<exists>q. parse_loop msg p = after msg q \<and> item_read msg p ?v q"
  proof (cases "vs = []")
    case True
    have "redis_parse_line msg (at_line (CHR ''*'') (length ?line) p) = Some (1, ?Q)"
      using at digits_first [OF d1] assms(3) nl sa True
      by (simp add: redis_parse_line_def parse_array_line_def at_line_def Let_def REDIS_ARRAY_SIZE_LIMIT_def)
    from line_step(1) [OF mem(7) d _ free this] have "parse_loop msg p = after msg ?Q" by simp
    moreover have "item_read msg p ?v ?Q"
      using True mem dom ic by (auto simp: item_read_def at_line_def reply_is.simps)
    ultimately show ?thesis by blast
  next
    case False
    let ?S = "?Q\<lparr>rp_nleft := rp_nleft p + int ?n - 1, rp_read_list := tl ?es @ rp_read_list p, rp_cur := rp_next p, rp_status := REDIS_GET_CMD\<rparr>"
    have hd: "hd ?es = rp_next p" using False by (simp add: hd_upt)
    have "start_elements ?es ?Q = (0, ?S)"
      using push_records_granted [of "?Q\<lparr>rp_nleft := rp_nleft p + int ?n - 1\<rparr>" "rev (tl ?es)"] mem(2) hd
      by (simp add: start_elements_def at_line_def)
    then have "redis_parse_line msg (at_line (CHR ''*'') (length ?line) p) = Some (0, ?S)"
      using at digits_first [OF d1] assms(3) nl sa False
      by (simp add: redis_parse_line_def parse_array_line_def at_line_def Let_def)
    from line_step(2) [OF mem(7) d _ free this] have go: "parse_loop msg p = parse_loop msg ?S" by simp
    have "\<exists>q. parse_loop msg ?S = after msg q \<and> rp_msgidx q = rp_msgidx ?S + length ?body \<and> rp_nleft q = rp_nleft p \<and> rp_read_list q = rp_read_list p \<and>
       rp_answers q = [] \<and> rp_next ?S \<le> rp_next q \<and> dom (rp_mem q) \<subseteq> {..<rp_next q} \<and>
       (\<forall>b. b \<notin> set ?es \<longrightarrow> b < rp_next ?S \<longrightarrow> rp_mem q b = rp_mem ?S b) \<and>
       replies_are False msg (rp_mem q) ?es vs \<and> distinct (nodes_all (rp_mem q) ?es vs) \<and> set (nodes_all (rp_mem q) ?es vs) \<subseteq> set ?es \<union> {rp_next ?S ..< rp_next q}"
      by (rule array_elements_read [OF assms(2) False, where rest = rest]) (use mem d2 dom hd in \<open>auto simp: at_line_def\<close>)
    then obtain q where q: "parse_loop msg ?S = after msg q" "rp_msgidx q = rp_msgidx ?S + length ?body" "rp_nleft q = rp_nleft p" "rp_read_list q = rp_read_list p"
       "rp_answers q = []" "rp_next p + ?n \<le> rp_next q" "dom (rp_mem q) \<subseteq> {..<rp_next q}"
       "\<forall>b. b \<notin> set ?es \<longrightarrow> b < rp_next p + ?n \<longrightarrow> rp_mem q b = ?mem b"
       "replies_are False msg (rp_mem q) ?es vs" "distinct (nodes_all (rp_mem q) ?es vs)" "set (nodes_all (rp_mem q) ?es vs) \<subseteq> set ?es \<union> {rp_next p + ?n ..< rp_next q}"
      by auto
    have root: "rp_mem q (rp_cur p) = Some (redis_reply_init\<lparr>rr_element := ?es, rr_elements := ?n, rr_type := REDIS_REPLY_TYPE_ARRAY\<rparr>)"
      using q(8) mem(3) by simp
    have "item_read msg p ?v q"
      unfolding item_read_def
    proof (intro conjI)
      show "rp_msgidx q = rp_msgidx p + length (encode ?v)" using q(2) ic by (simp add: e)
      show "\<forall>b. b \<noteq> rp_cur p \<longrightarrow> b < rp_next p \<longrightarrow> rp_mem q b = rp_mem p b" using q(8) by simp
      show "reply_is False msg (rp_mem q) (rp_cur p) ?v" using root q(9) by (simp add: reply_is.simps [of _ _ _ "rp_cur p"])
      show "distinct (nodes (rp_mem q) (rp_cur p) ?v)" using root q(10,11) mem(3) by auto
      show "set (nodes (rp_mem q) (rp_cur p) ?v) \<subseteq> {rp_cur p} \<union> {rp_next p ..< rp_next q}" using root q(6,11) by auto
    qed (use q in auto)
    with go q(1) show ?thesis by auto
  qed
qed

lemma reads_resp2: "length msg < 2 ^ 31 \<Longrightarrow> resp2 v \<Longrightarrow> reads msg v"
proof (induction v)
  case (V_seq t vs)
  then show ?case by (auto simp: list_all_iff intro!: reads_array)
next
  case V_null_string
  show ?case by (rule reads_null [of _ "CHR ''$''"]) (simp_all add: reply_is.simps split: option.splits)
next
  case (V_null_seq t)
  then show ?case by (intro reads_null [of _ "CHR ''*''"]) (simp_all add: reply_is.simps type_byte_def split: option.splits)
qed (auto intro: reads_status reads_error reads_integer reads_string)

section \<open>Reading a message\<close>

lemma encode_first: "resp2 v \<Longrightarrow> \<exists>c t. encode v = c # t \<and> c \<in> set ''+-:$*''"
  by (cases v) (auto simp: type_byte_def)

lemma feed_value:
  assumes "resp2 v" "vdepth v \<le> REDIS_REPLY_DEPTH_LIMIT" "length (encode v @ rest) < 2 ^ 31"
  shows "\<exists>P. feed (encode v @ rest) (redis_parser_init []) = Some (Complete rest P) \<and> received P = encode v @ rest \<and>
    rp_parse_succ (rp_st P) \<and> reply_is True (received P) (rp_mem (rp_st P)) 0 v"
proof -
  let ?msg = "encode v @ rest" and ?p = "rp_st (redis_parser_init [])"
  have w: "received (redis_parser_init []) = []" by (simp add: received_def redis_parser_init_def)
  obtain buf where buf: "take (length ?msg) buf = ?msg" "feed ?msg (redis_parser_init []) = after_call buf (call_on 0 (length ?msg) ?msg ?p) ?msg"
    using feed_call [OF between_init, of ?msg] w by auto
  have ni: "\<not> inline_msg ?msg"
    using encode_first [OF assms(1)] by (auto simp: inline_start_def ctype_simps uchar_def)
  have "at_item ?msg ?p (encode v) rest" by (auto simp: at_item_def redis_parser_init_def)
  then obtain q where q: "parse_loop ?msg ?p = after ?msg q" "item_read ?msg ?p v q"
    using reads_resp2 [OF assms(3,1)] by (auto simp: reads_def)
  have r: "rp_msgidx q = length (encode v)" "rp_nleft q = 1" "rp_read_list q = []" "reply_is False ?msg (rp_mem q) 0 v" "distinct (nodes (rp_mem q) 0 v)"
    using q(2) by (simp_all add: item_read_def redis_parser_init_def)
  have fin: "finish_one q = q\<lparr>rp_nleft := 0, rp_parse_succ := True, rp_status := REDIS_PARSE_END\<rparr>" using r(2,3) by (simp add: finish_one_def)
  obtain m where m: "redis_parse_done REDIS_REPLY_DEPTH_LIMIT 0 (rp_mem q) = Some (1, m)" "reply_is True ?msg m 0 v"
    using parse_done_holds [OF r(4) assms(1) r(5) assms(2)] by blast
  have "call_on 0 (length ?msg) ?msg ?p = Some (1, int (length (encode v)), length ?msg, (finish_one q)\<lparr>rp_mem := m\<rparr>)"
    unfolding call_protocol [OF ni] q(1) by (simp add: after_def fin m(1) r(1))
  with buf m(2) fin show ?thesis by (simp add: after_call_complete received_def)
qed

text \<open>C10: Every value of the protocol that the parser knows, nested at most 64 deep and with arrays of
  at most 4194304 elements, is read back from its wire form: the parser reports a complete message
  at exactly its last byte, and the replies in memory are the value, their strings pointing at the
  bytes in the buffer.\<close>

theorem redis_value_roundtrip:
  assumes "resp2 v" "vdepth v \<le> REDIS_REPLY_DEPTH_LIMIT" "length (encode v @ rest) < 2 ^ 31"
  shows "\<exists>P. feed (encode v @ rest) (redis_parser_init []) = Some (Complete rest P) \<and> received P = encode v @ rest \<and>
    rp_parse_succ (rp_st P) \<and> reply_is True (received P) (rp_mem (rp_st P)) 0 v"
  using feed_value [OF assms] .

theorem redis_value_roundtrip_witness:
  "\<exists>P. feed (encode demo_value @ ''+'') (redis_parser_init []) = Some (Complete ''+'' P) \<and> received P = encode demo_value @ ''+'' \<and>
    rp_parse_succ (rp_st P) \<and> reply_is True (received P) (rp_mem (rp_st P)) 0 demo_value"
proof (rule redis_value_roundtrip)
  have e: "encode demo_value = ''*2'' @ CRLF @ '':-42'' @ CRLF @ ''$2'' @ CRLF @ ''hi'' @ CRLF" by code_simp
  show "length (encode demo_value @ ''+'') < 2 ^ 31" unfolding e by simp
qed (simp_all add: demo_value_def REDIS_ARRAY_SIZE_LIMIT_def REDIS_REPLY_DEPTH_LIMIT_def)

end
