(* ===== verification/RedisHeap.thy ===== *)
theory RedisHeap
  imports RedisPieces
begin

text \<open>
  The memory of the Redis parser of the workflow engine: after every run that stays within
  defined behaviour, however the bytes are cut and whichever allocations fail, the replies form a
  tree below the embedded one, and releasing a tree frees every reply of it exactly once.
\<close>

section \<open>Trees of replies\<close>

definition edge :: "reply_mem \<Rightarrow> addr \<Rightarrow> addr \<Rightarrow> bool" where
  "edge m a b \<longleftrightarrow> (\<exists>r. m a = Some r \<and> b \<in> set (rr_element r))"

definition cone :: "reply_mem \<Rightarrow> addr \<Rightarrow> addr set" where
  "cone m a = {b. (edge m)\<^sup>*\<^sup>* a b}"

definition below :: "reply_mem \<Rightarrow> addr \<Rightarrow> addr set" where
  "below m a = {b. (edge m)\<^sup>+\<^sup>+ a b}"

lemma cone_self [simp]: "a \<in> cone m a"
  by (simp add: cone_def)

lemma cone_step: "b \<in> cone m a \<Longrightarrow> edge m b c \<Longrightarrow> c \<in> cone m a"
  by (simp add: cone_def)

lemma cone_trans: "b \<in> cone m a \<Longrightarrow> c \<in> cone m b \<Longrightarrow> c \<in> cone m a"
  by (simp add: cone_def)

lemma below_eq: "m a = Some r \<Longrightarrow> below m a = (\<Union>e \<in> set (rr_element r). cone m e)"
  by (auto simp: below_def cone_def edge_def dest!: tranclpD intro: rtranclp_into_tranclp2)

lemma cone_cong:
  assumes "\<And>x. x \<in> cone m a \<Longrightarrow> m' x = m x"
  shows "cone m' a = cone m a"
proof -
  have fw: "b \<in> cone m' a" if "(edge m)\<^sup>*\<^sup>* a b" for b
    using that
  proof (induction rule: rtranclp_induct)
    case (step y z)
    have "edge m' y z" using assms [of y] step(1,2) by (simp add: edge_def cone_def)
    with step(3) show ?case by (rule cone_step)
  qed simp
  have bw: "b \<in> cone m a" if "(edge m')\<^sup>*\<^sup>* a b" for b
    using that
  proof (induction rule: rtranclp_induct)
    case (step y z)
    have "edge m y z" using assms [OF step(3)] step(2) by (simp add: edge_def)
    with step(3) show ?case by (rule cone_step)
  qed simp
  show ?thesis using fw bw unfolding cone_def by auto
qed

text \<open>Below \<open>a\<close> everything is allocated, addresses grow downwards and parents are unique.\<close>

definition tree_at :: "reply_mem \<Rightarrow> addr \<Rightarrow> addr \<Rightarrow> bool" where
  "tree_at m nx a \<longleftrightarrow>
     (\<forall>x \<in> cone m a. x < nx \<and> (\<exists>r. m x = Some r \<and> rr_elements r = length (rr_element r) \<and> distinct (rr_element r) \<and> (\<forall>e \<in> set (rr_element r). x < e))) \<and>
     (\<forall>x \<in> cone m a. \<forall>y \<in> cone m a. \<forall>c. edge m x c \<longrightarrow> edge m y c \<longrightarrow> x = y)"

lemma tree_node:
  "tree_at m nx a \<Longrightarrow> x \<in> cone m a \<Longrightarrow> x < nx \<and>
    (\<exists>r. m x = Some r \<and> rr_elements r = length (rr_element r) \<and> distinct (rr_element r) \<and> (\<forall>e \<in> set (rr_element r). x < e))"
  unfolding tree_at_def by blast

lemma tree_edge: "tree_at m nx a \<Longrightarrow> x \<in> cone m a \<Longrightarrow> edge m x c \<Longrightarrow> x < c"
  using tree_node [of m nx a x] by (auto simp: edge_def)

lemma tree_at_sub: "tree_at m nx a \<Longrightarrow> e \<in> cone m a \<Longrightarrow> tree_at m nx e"
  unfolding tree_at_def using cone_trans by blast

lemma tree_at_cong: "tree_at m nx a \<Longrightarrow> (\<And>x. x \<in> cone m a \<Longrightarrow> m' x = m x) \<Longrightarrow> tree_at m' nx a"
  using cone_cong [of m a m'] unfolding tree_at_def edge_def by auto

lemma cone_le: "tree_at m nx a \<Longrightarrow> b \<in> cone m a \<Longrightarrow> a \<le> b"
proof -
  assume t: "tree_at m nx a" and "b \<in> cone m a"
  then have "(edge m)\<^sup>*\<^sup>* a b" by (simp add: cone_def)
  then show "a \<le> b"
  proof (induction rule: rtranclp_induct)
    case (step y z)
    have "y \<in> cone m a" using step(1) by (simp add: cone_def)
    then have "y < z" using tree_edge [OF t] step(2) by blast
    with step(3) show ?case by simp
  qed simp
qed

lemma siblings_disjoint:
  assumes t: "tree_at m nx a" and e: "edge m a e" "edge m a e'" "e \<noteq> e'"
  shows "cone m e \<inter> cone m e' = {}"
proof -
  have sub: "e \<in> cone m a" "e' \<in> cone m a" using e cone_step [of a m a] by auto
  have uniq: "x = y" if "x \<in> cone m a" "y \<in> cone m a" "edge m x c" "edge m y c" for x y c
    using t that unfolding tree_at_def by blast
  have gt: "a < d" if "edge m a d" for d using tree_edge [OF t cone_self that] .
  have not_in: "d \<notin> cone m d'" if d: "edge m a d" "edge m a d'" "d \<noteq> d'" for d d'
  proof
    assume "d \<in> cone m d'"
    then have "(edge m)\<^sup>*\<^sup>* d' d" by (simp add: cone_def)
    then obtain y where y: "y \<in> cone m d'" "edge m y d" using d(3) by (cases rule: rtranclp.cases) (auto simp: cone_def)
    have c: "d' \<in> cone m a" using d(2) cone_step [of a m a] by auto
    have "y = a" using uniq [OF cone_trans [OF c y(1)] cone_self y(2) d(1)] .
    then show False using cone_le [OF tree_at_sub [OF t c] y(1)] gt [OF d(2)] by simp
  qed
  have "False" if "(edge m)\<^sup>*\<^sup>* e x" "x \<in> cone m e'" for x
    using that
  proof (induction rule: rtranclp_induct)
    case base
    then show ?case using not_in e by blast
  next
    case (step y z)
    have y: "y \<in> cone m e" using step(1) by (simp add: cone_def)
    have "(edge m)\<^sup>*\<^sup>* e' z" using step(4) by (simp add: cone_def)
    then show False
    proof (cases rule: rtranclp.cases)
      case rtrancl_refl
      then have "e' \<in> cone m e" using cone_step [OF y step(2)] by simp
      then show False using not_in e by blast
    next
      case (rtrancl_into_rtrancl b)
      then have b: "b \<in> cone m e'" by (simp add: cone_def)
      have "y = b" using uniq [OF cone_trans [OF sub(1) y] cone_trans [OF sub(2) b] step(2)] rtrancl_into_rtrancl by blast
      with b step(3) show False by simp
    qed
  qed
  then show ?thesis by (auto simp: cone_def)
qed

section \<open>Releasing a tree\<close>

lemma deinit_frees:
  "tree_at m nx a \<Longrightarrow> nx - a < n \<Longrightarrow> reply_deinit n a m = Some (m |` (- below m a))"
proof (induction n arbitrary: m a)
  case (Suc n)
  obtain r where r: "m a = Some r" "rr_elements r = length (rr_element r)" "distinct (rr_element r)" "\<forall>e \<in> set (rr_element r). a < e"
    using tree_node [OF Suc.prems(1) cone_self] by blast
  have cone_e: "e \<in> cone m a \<and> tree_at m nx e \<and> nx - e < n" if "e \<in> set (rr_element r)" for e
  proof -
    have "edge m a e" using that r(1) by (auto simp: edge_def)
    then have c: "e \<in> cone m a" using cone_step [of a m a] by simp
    then have t: "tree_at m nx e" using tree_at_sub Suc.prems(1) by blast
    then have "e < nx" using tree_node [OF _ cone_self] by blast
    with c t r(4) that Suc.prems(2) show ?thesis by (auto intro: diff_less_mono2)
  qed
  have elems: "deinit_elements n es (m |` (- S)) = Some (m |` (- (S \<union> (\<Union>e \<in> set es. cone m e))))"
    if "set es \<subseteq> set (rr_element r)" "distinct es" "\<And>e. e \<in> set es \<Longrightarrow> S \<inter> cone m e = {}" for es S
    using that
  proof (induction es arbitrary: S)
    case (Cons e es)
    let ?k = "m |` (- S)"
    note ce = cone_e [of e] and disj = Cons.prems(3) [of e]
    have same: "?k x = m x" if "x \<in> cone m e" for x using disj that by (auto simp: restrict_map_def)
    have t: "tree_at ?k nx e" using tree_at_cong [of m nx e ?k] ce Cons.prems(1) same by auto
    have te: "tree_at m nx e" using ce Cons.prems(1) by simp
    have me: "\<exists>q. m e = Some q" using tree_node [OF te cone_self] by blast
    have bel: "below ?k e = below m e"
    proof -
      obtain q where q: "m e = Some q" using me by blast
      have "cone ?k x = cone m x" if "x \<in> set (rr_element q)" for x
        using that q same cone_trans cone_step [of e m e x] by (intro cone_cong) (auto simp: edge_def)
      with q same [of e] show ?thesis by (simp add: below_eq)
    qed
    have d1: "reply_deinit n e ?k = Some (?k |` (- below m e))" using Suc.IH [OF t] ce Cons.prems(1) bel by auto
    have nb: "e \<notin> below m e"
    proof
      assume "e \<in> below m e"
      then obtain y where "edge m e y" "e \<in> cone m y" by (auto simp: below_def cone_def dest: tranclpD)
      then have "y \<in> cone m e" "e < y" using cone_step [of e m e y] tree_edge [OF te cone_self, of y] by auto
      then show False using cone_le [OF tree_at_sub [OF te], of y e] \<open>e \<in> cone m y\<close> by simp
    qed
    have cone_eq: "cone m e = insert e (below m e)" by (auto simp: cone_def below_def dest: rtranclpD)
    have d2: "deinit_elements n (e # es) ?k = deinit_elements n es (m |` (- (S \<union> cone m e)))"
    proof -
      have "(?k |` (- below m e)) e \<noteq> None" using nb same [of e] me by (simp add: restrict_map_def)
      moreover have "(?k |` (- below m e))(e := None) = m |` (- (S \<union> cone m e))" by (auto simp: restrict_map_def cone_eq fun_eq_iff)
      ultimately show ?thesis using d1 by auto
    qed
    have "(S \<union> cone m e) \<inter> cone m x = {}" if x: "x \<in> set es" for x
    proof -
      have "edge m a e" "edge m a x" "e \<noteq> x" using Cons.prems(1,2) x r(1) by (auto simp: edge_def)
      with siblings_disjoint [OF Suc.prems(1)] Cons.prems(3) [of x] x show ?thesis by auto
    qed
    with Cons.IH [of "S \<union> cone m e"] Cons.prems(1,2) show ?case unfolding d2 by (simp add: Un_assoc)
  qed simp
  have "m |` (- {}) = m" by (auto simp: restrict_map_def fun_eq_iff)
  with elems [of "rr_element r" "{}"] r show ?case by (simp add: below_eq)
qed simp

section \<open>Trees that change\<close>

text \<open>All replies are in the tree below the embedded one.\<close>

definition tree_ok :: "reply_mem \<Rightarrow> addr \<Rightarrow> bool" where
  "tree_ok m nx \<longleftrightarrow> tree_at m nx 0 \<and> dom m = cone m 0"

lemma tree_ok_deinit: "tree_ok m nx \<Longrightarrow> \<exists>m'. reply_deinit (nx + 1) 0 m = Some m' \<and> dom m' = {0}"
proof -
  assume t: "tree_ok m nx"
  then have "reply_deinit (nx + 1) 0 m = Some (m |` (- below m 0))" by (intro deinit_frees [of m nx]) (simp_all add: tree_ok_def)
  moreover have "0 \<notin> below m 0"
  proof
    assume "0 \<in> below m 0"
    then obtain y where "edge m y 0" "y \<in> cone m 0" by (auto simp: below_def cone_def elim: tranclp.cases intro: tranclp_into_rtranclp)
    then show False using tree_edge [of m nx 0 y 0] t by (simp add: tree_ok_def)
  qed
  moreover have "cone m 0 = insert 0 (below m 0)" by (auto simp: cone_def below_def dest: rtranclpD)
  ultimately show ?thesis using t by (auto simp: tree_ok_def)
qed

text \<open>Only the elements of the replies matter.\<close>

definition shape :: "reply_mem \<Rightarrow> addr \<Rightarrow> (nat \<times> addr list) option" where
  "shape m = (\<lambda>a. map_option (\<lambda>r. (rr_elements r, rr_element r)) (m a))"

lemma shape_edge: "shape m' = shape m \<Longrightarrow> edge m' = edge m"
proof (intro ext)
  fix a b assume "shape m' = shape m"
  then have "shape m' a = shape m a" by simp
  then show "edge m' a b = edge m a b" by (auto simp: edge_def shape_def map_option_case split: option.splits)
qed

lemma shape_tree_ok: "shape m' = shape m \<Longrightarrow> tree_ok m nx \<Longrightarrow> tree_ok m' nx"
proof -
  assume s: "shape m' = shape m" and t: "tree_ok m nx"
  have c: "cone m' = cone m" using shape_edge [OF s] by (intro ext) (simp add: cone_def)
  have x: "\<exists>r'. m' x = Some r' \<and> rr_elements r' = rr_elements r \<and> rr_element r' = rr_element r" if "m x = Some r" for x r
    using fun_cong [OF s, of x] that by (auto simp: shape_def)
  have "m' x = None \<longleftrightarrow> m x = None" for x
    using fun_cong [OF s, of x] by (cases "m x"; cases "m' x") (simp_all add: shape_def)
  then have "dom m' = dom m" by (auto simp: dom_def)
  then show ?thesis
    using t x shape_edge [OF s] unfolding tree_ok_def tree_at_def c by (metis (no_types, lifting))
qed

lemma shape_upd: "m a = Some r \<Longrightarrow> rr_elements r' = rr_elements r \<Longrightarrow> rr_element r' = rr_element r \<Longrightarrow> shape (m(a \<mapsto> r')) = shape m"
  by (auto simp: shape_def fun_eq_iff)

lemma tree_ok_next: "tree_ok m nx \<Longrightarrow> nx \<le> nx' \<Longrightarrow> tree_ok m nx'"
  unfolding tree_ok_def tree_at_def using order_less_le_trans by blast

lemma tree_ok_grow:
  assumes t: "tree_ok m nx" and a: "m a = Some r" "rr_element r = []"
    and es: "distinct es" "\<And>e. e \<in> set es \<Longrightarrow> nx \<le> e \<and> e < nx'" "nx \<le> nx'"
    and r': "rr_element r' = es" "rr_elements r' = length es"
  shows "tree_ok ((\<lambda>x. if x \<in> set es then Some redis_reply_init else m x)(a \<mapsto> r')) nx'"
proof -
  define m' where "m' = (\<lambda>x. if x \<in> set es then Some redis_reply_init else m x)(a \<mapsto> r')"
  have i: "rr_elements redis_reply_init = 0" "rr_element redis_reply_init = []" by (simp_all add: redis_reply_init_def)
  have t': "tree_at m nx 0" "dom m = cone m 0" using t by (simp_all add: tree_ok_def)
  have lt: "x < nx" if "x \<in> dom m" for x using that t' tree_node [OF t'(1)] by blast
  then have fresh: "e \<notin> dom m" if "e \<in> set es" for e using es(2) [OF that] by fastforce
  have a_es: "a \<notin> set es" using fresh a(1) by auto
  have e: "edge m' x y \<longleftrightarrow> edge m x y \<or> x = a \<and> y \<in> set es" for x y
    using a r' i a_es fresh by (auto simp: edge_def m'_def)
  have old: "(edge m')\<^sup>*\<^sup>* 0 x" if "(edge m)\<^sup>*\<^sup>* 0 x" for x
    using that by (induction rule: rtranclp_induct) (auto simp: e intro: rtranclp.rtrancl_into_rtrancl)
  have new: "x \<in> cone m 0 \<union> set es" if "(edge m')\<^sup>*\<^sup>* 0 x" for x
    using that
  proof (induction rule: rtranclp_induct)
    case (step y z)
    show ?case
    proof (cases "edge m y z")
      case True
      then have "y \<in> dom m" by (auto simp: edge_def)
      with True t'(2) show ?thesis by (auto intro: cone_step)
    next
      case False
      with step(2) e show ?thesis by auto
    qed
  qed simp
  have a0: "a \<in> cone m 0" using a(1) t'(2) by auto
  have cone: "cone m' 0 = cone m 0 \<union> set es"
  proof (intro equalityI subsetI)
    fix x assume "x \<in> cone m 0 \<union> set es"
    moreover have "x \<in> cone m' 0" if "x \<in> set es"
    proof (rule cone_step)
      show "a \<in> cone m' 0" using old a0 by (simp add: cone_def)
      show "edge m' a x" using that e by simp
    qed
    ultimately show "x \<in> cone m' 0" using old by (auto simp: cone_def)
  qed (use new in \<open>simp add: cone_def\<close>)
  have node: "x < nx' \<and> (\<exists>r. m' x = Some r \<and> rr_elements r = length (rr_element r) \<and> distinct (rr_element r) \<and> (\<forall>e \<in> set (rr_element r). x < e))"
    if x: "x \<in> cone m' 0" for x
  proof -
    consider "x = a" | "x \<in> set es" "x \<noteq> a" | "x \<in> cone m 0" "x \<noteq> a" "x \<notin> set es" using x cone by auto
    then show ?thesis
    proof cases
      case 1
      then show ?thesis using lt [of a] a(1) es r' unfolding m'_def by fastforce
    next
      case 2
      then show ?thesis using es(2) i by (auto simp: m'_def)
    next
      case 3
      then show ?thesis using tree_node [OF t'(1) 3(1)] es(3) by (auto simp: m'_def)
    qed
  qed
  have uniq: "x = y" if "edge m' x c" "edge m' y c" for x y c
  proof -
    have src: "z \<in> cone m 0" if "edge m z c" for z using that t'(2) by (auto simp: edge_def)
    have tgt: "c \<notin> set es" if "edge m z c" for z using fresh [of c] cone_step [OF src [OF that] that] t'(2) by auto
    show ?thesis
    proof (cases "c \<in> set es")
      case True
      with that e tgt show ?thesis by blast
    next
      case False
      with that e have "edge m x c" "edge m y c" by blast+
      with src t'(1) show ?thesis unfolding tree_at_def by blast
    qed
  qed
  have dom: "dom m' = cone m' 0" using cone t'(2) a0 by (auto simp: dom_def m'_def split: if_splits)
  show ?thesis unfolding m'_def [symmetric] tree_ok_def tree_at_def using node uniq dom by blast
qed

section \<open>The parser keeps the tree\<close>

definition childless :: "parse_state \<Rightarrow> addr \<Rightarrow> bool" where
  "childless p x \<longleftrightarrow> (\<exists>r. rp_mem p x = Some r \<and> rr_element r = [])"

abbreviation heap_ok :: "parse_state \<Rightarrow> bool" where
  "heap_ok p \<equiv> tree_ok (rp_mem p) (rp_next p)"

text \<open>The replies still to be read, with and without the current one.\<close>

definition queue_ok :: "parse_state \<Rightarrow> bool" where
  "queue_ok p \<longleftrightarrow> distinct (rp_read_list p) \<and> (\<forall>x \<in> set (rp_read_list p). childless p x) \<and> rp_nleft p = 1 + int (length (rp_read_list p))"

definition pend_ok :: "parse_state \<Rightarrow> bool" where
  "pend_ok p \<longleftrightarrow> queue_ok p \<and> childless p (rp_cur p) \<and> rp_cur p \<notin> set (rp_read_list p)"

lemma childless_eq: "childless p x \<longleftrightarrow> (\<exists>n. shape (rp_mem p) x = Some (n, []))"
  by (auto simp: childless_def shape_def)

lemma childless_shape: "shape (rp_mem q) = shape (rp_mem p) \<Longrightarrow> childless q x = childless p x"
  by (simp add: childless_eq)

text \<open>A step that keeps the shape of the memory and the queue.\<close>

definition same_heap :: "parse_state \<Rightarrow> parse_state \<Rightarrow> bool" where
  "same_heap p q \<longleftrightarrow> shape (rp_mem q) = shape (rp_mem p) \<and> rp_next q = rp_next p \<and> rp_read_list q = rp_read_list p \<and> rp_nleft q = rp_nleft p \<and> rp_cur q = rp_cur p"

lemma same_heap_ok: "same_heap p q \<Longrightarrow> heap_ok p \<Longrightarrow> heap_ok q" "same_heap p q \<Longrightarrow> pend_ok p \<Longrightarrow> pend_ok q"
  subgoal using shape_tree_ok [of "rp_mem q" "rp_mem p"] by (simp add: same_heap_def)
  subgoal by (simp add: same_heap_def pend_ok_def queue_ok_def childless_eq)
  done

lemma pend_queue: "pend_ok p \<Longrightarrow> queue_ok p"
  by (simp add: pend_ok_def)

lemma upd_reply_same:
  assumes "upd_reply a f p = Some q" "\<And>r. rr_elements (f r) = rr_elements r \<and> rr_element (f r) = rr_element r"
  shows "same_heap p q"
proof -
  obtain r where r: "rp_mem p a = Some r" "q = p\<lparr>rp_mem := (rp_mem p)(a \<mapsto> f r)\<rparr>" using assms(1) by (auto simp: upd_reply_def split: option.splits)
  with shape_upd [of "rp_mem p" a r "f r"] assms(2) show ?thesis by (simp add: same_heap_def)
qed

lemma create_elements_result:
  "create_elements n p = (ok, es, q) \<Longrightarrow>
   es = [rp_next p ..< rp_next q] \<and> rp_next p \<le> rp_next q \<and> rp_mem q = (\<lambda>x. if x \<in> set es then Some redis_reply_init else rp_mem p x) \<and> (ok \<longrightarrow> length es = n) \<and>
   rp_read_list q = rp_read_list p \<and> rp_nleft q = rp_nleft p"
proof (induction n arbitrary: p es)
  case (Suc n)
  let ?p = "\<lambda>ans. p\<lparr>rp_answers := ans, rp_mem := (rp_mem p)(rp_next p \<mapsto> redis_reply_init), rp_next := rp_next p + 1\<rparr>"
  obtain b ans where b: "alloc (rp_answers p) = (b, ans)" by fastforce
  show ?case
  proof (cases b)
    case True
    with b Suc.prems obtain es' where es': "create_elements n (?p ans) = (ok, es', q)" "es = rp_next p # es'"
      by (auto split: prod.splits)
    from Suc.IH [OF es'(1)] es'(2) show ?thesis by (auto simp: upt_conv_Cons fun_eq_iff)
  next
    case False
    with b Suc.prems show ?thesis by auto
  qed
qed auto

lemma fold_free: "fold (\<lambda>e m. m(e := None)) es m = (\<lambda>x. if x \<in> set es then None else m x)"
  by (induction es arbitrary: m) (auto simp: fun_eq_iff)

lemma set_array_heap:
  assumes "redis_reply_set_array n a p = Some (ret, q)" "heap_ok p" "childless p a"
  shows "heap_ok q \<and> rp_read_list q = rp_read_list p \<and> rp_nleft q = rp_nleft p \<and> ret \<in> {-1, 0} \<and>
    (\<forall>x. x \<noteq> a \<longrightarrow> childless p x \<longrightarrow> childless q x) \<and>
    (ret = 0 \<longrightarrow> (\<exists>r. rp_mem q a = Some r \<and> rr_element r = [rp_next p ..< rp_next q] \<and> length (rr_element r) = n \<and>
       (\<forall>e \<in> set (rr_element r). childless q e)))"
proof -
  obtain r where r: "rp_mem p a = Some r" "rr_element r = []" using assms(3) by (auto simp: childless_def)
  have dom: "x < rp_next p" if "rp_mem p x \<noteq> None" for x
    using that assms(2) tree_node [of "rp_mem p" "rp_next p" 0 x] by (auto simp: tree_ok_def)
  have el0: "rr_elements r = 0" using assms(2) tree_node [of "rp_mem p" "rp_next p" 0 a] r by (auto simp: tree_ok_def)
  obtain b ans where b: "alloc (rp_answers p) = (b, ans)" by fastforce
  let ?p = "p\<lparr>rp_answers := ans\<rparr>"
  obtain ok es p1 where c: "create_elements n ?p = (ok, es, p1)" by (metis prod_cases3)
  note C = create_elements_result [OF c, simplified]
  have fresh: "rp_mem p x = None" if "x \<in> set es" for x
  proof (rule ccontr)
    assume "rp_mem p x \<noteq> None"
    from dom [OF this] that C show False by simp
  qed
  consider "\<not> b" | "b" "\<not> ok" | "b" "ok" by blast
  then show ?thesis
  proof cases
    case 1
    with assms b show ?thesis by (auto simp: redis_reply_set_array_def redis_create_array_def childless_def)
  next
    case 2
    have m: "(\<lambda>x. if x \<in> set es then None else rp_mem p1 x) = rp_mem p" using fresh C by (auto simp: fun_eq_iff)
    have "ret = -1" "q = p1\<lparr>rp_mem := rp_mem p\<rparr>"
      using assms(1) b c 2 m by (auto simp: redis_reply_set_array_def redis_create_array_def fold_free)
    with C assms(2) show ?thesis by (auto simp: childless_def intro: tree_ok_next)
  next
    case 3
    have ma: "rp_mem p1 a = Some r" using C r(1) fresh by auto
    have de: "reply_deinit (rp_next p1 + 1) a (rp_mem p1) = Some (rp_mem p1)" using ma r el0 by simp
    let ?r = "r\<lparr>rr_element := es, rr_elements := n, rr_type := REDIS_REPLY_TYPE_ARRAY\<rparr>"
    have q: "ret = 0" "q = p1\<lparr>rp_mem := (rp_mem p1)(a \<mapsto> ?r)\<rparr>"
      using assms(1) b c 3 de ma by (auto simp: redis_reply_set_array_def redis_create_array_def redis_reply_deinit_def upd_reply_def simp del: reply_deinit.simps)
    have "tree_ok ((\<lambda>x. if x \<in> set es then Some redis_reply_init else rp_mem p x)(a \<mapsto> ?r)) (rp_next p1)"
      by (rule tree_ok_grow [OF assms(2) r]) (use C 3 in auto)
    moreover have "rp_mem p1 = (\<lambda>x. if x \<in> set es then Some redis_reply_init else rp_mem p x)" using C by (auto simp: fun_eq_iff)
    ultimately have "heap_ok q" using q(2) by simp
    moreover have "a \<notin> set es" using fresh r by auto
    moreover have "rr_element redis_reply_init = []" by (simp add: redis_reply_init_def)
    ultimately show ?thesis using q C 3 by (auto simp: childless_def)
  qed
qed

lemma push_records_heap:
  "push_records es p = (b, q) \<Longrightarrow> rp_mem q = rp_mem p \<and> rp_next q = rp_next p \<and> rp_nleft q = rp_nleft p \<and> (b \<longrightarrow> rp_read_list q = rev es @ rp_read_list p)"
proof (induction es arbitrary: p)
  case (Cons e es)
  from Cons.prems show ?case by (auto dest!: Cons.IH split: prod.splits bool.splits)
qed simp

lemma array_line_heap:
  assumes "parse_array_line str p = Some (ret, q)" "heap_ok p" "pend_ok p"
  shows "heap_ok q \<and> (ret = 0 \<longrightarrow> pend_ok q) \<and> (ret = 1 \<longrightarrow> queue_ok q)"
proof -
  obtain n where n: "atoi_in str = Some n" using assms(1) by (auto simp: parse_array_line_def bind_eq_Some_conv)
  consider "n < 0" | "n \<ge> 0" "q = p" "ret < 0"
    | r p' where "n \<ge> 0" "redis_reply_set_array (nat n) (rp_cur p) (p\<lparr>rp_nleft := rp_nleft p + n\<rparr>) = Some (r, p')"
        "(if r < 0 then Some (-1, p') else if n = 0 then Some (1, p')
          else do { a \<leftarrow> rp_mem p' (rp_cur p'); Some (start_elements (rr_element a) p') }) = Some (ret, q)"
    using assms(1) n by (auto simp: parse_array_line_def bind_eq_Some_conv split: if_splits)
  then show ?thesis
  proof cases
    case 1
    then have "upd_reply (rp_cur p) redis_reply_set_null p = Some q" using assms(1) n by (auto simp: parse_array_line_def bind_eq_Some_conv)
    then have "same_heap p q" by (rule upd_reply_same) (simp add: redis_reply_set_null_def)
    with assms(2,3) show ?thesis using same_heap_ok pend_queue by blast
  next
    case 2
    with assms(2) show ?thesis by simp
  next
    case 3
    have cp: "childless (p\<lparr>rp_nleft := k\<rparr>) x = childless p x" for k x by (simp add: childless_def)
    have H: "heap_ok p' \<and> rp_read_list p' = rp_read_list p \<and> rp_nleft p' = rp_nleft p + n \<and> r \<in> {-1, 0} \<and>
      (\<forall>x. x \<noteq> rp_cur p \<longrightarrow> childless p x \<longrightarrow> childless p' x) \<and>
      (r = 0 \<longrightarrow> (\<exists>a. rp_mem p' (rp_cur p) = Some a \<and> rr_element a = [rp_next p ..< rp_next p'] \<and> length (rr_element a) = nat n \<and> (\<forall>e \<in> set (rr_element a). childless p' e)))"
      using set_array_heap [OF 3(2)] assms(2,3) by (simp add: cp pend_ok_def)
    have cur: "rp_cur p' = rp_cur p" using set_array_frame [OF 3(2)] by (simp add: frame_def)
    have rl: "\<forall>x \<in> set (rp_read_list p). childless p' x" "distinct (rp_read_list p)" "rp_nleft p = 1 + int (length (rp_read_list p))"
      using H assms(3) unfolding pend_ok_def queue_ok_def by metis+
    show ?thesis
    proof (cases "r = 0 \<and> n \<noteq> 0")
      case False
      with 3(3) H rl show ?thesis by (auto simp: queue_ok_def split: if_splits)
    next
      case True
      then obtain a where a: "rp_mem p' (rp_cur p) = Some a" "rr_element a = [rp_next p ..< rp_next p']" "length (rr_element a) = nat n" "\<forall>e \<in> set (rr_element a). childless p' e"
        using H by blast
      let ?es = "rr_element a"
      have st: "start_elements ?es p' = (ret, q)" using 3(3) True a(1) cur by simp
      obtain b t where t: "push_records (rev (tl ?es)) (p'\<lparr>rp_nleft := rp_nleft p' - 1\<rparr>) = (b, t)" by fastforce
      note T = push_records_heap [OF t, simplified]
      show ?thesis
      proof (cases b)
        case False
        with st t T H show ?thesis by (auto simp: start_elements_def)
      next
        case b: True
        then have q: "ret = 0" "q = t\<lparr>rp_cur := hd ?es, rp_status := REDIS_GET_CMD\<rparr>" using st t by (auto simp: start_elements_def)
        obtain e es where es: "?es = e # es" using a(3) True 3(1) by (cases ?es) auto
        have old: "x < rp_next p" if "x \<in> set (rp_read_list p)" for x
        proof -
          have "rp_mem p x \<noteq> None" using that assms(3) by (auto simp: pend_ok_def queue_ok_def childless_def)
          then show ?thesis using assms(2) tree_node [of "rp_mem p" "rp_next p" 0 x] by (auto simp: tree_ok_def)
        qed
        have de: "distinct ?es" "\<forall>x \<in> set ?es. rp_next p \<le> x" using a(2) by auto
        have "heap_ok q" using H T q by simp
        moreover have "childless q x = childless p' x" for x using T q by (simp add: childless_def)
        moreover have "rp_read_list q = es @ rp_read_list p" using T b q H es by simp
        moreover have "rp_nleft q = 1 + int (length es + length (rp_read_list p))" using T q H rl(3) a(3) es 3(1) by simp
        moreover have "distinct (e # es @ rp_read_list p)" using de old rl(2) es by fastforce
        ultimately show ?thesis using q a(4) rl(1) es by (auto simp: pend_ok_def queue_ok_def)
      qed
    qed
  qed
qed

lemma bulk_line_heap:
  assumes "parse_bulk_line off str p = Some (ret, q)"
  shows "same_heap p q"
proof -
  have u: "upd_reply a redis_reply_set_null p = Some t \<Longrightarrow> same_heap p t" "upd_reply a (redis_reply_set_string s n) p = Some t \<Longrightarrow> same_heap p t" for a s n t
    by (rule upd_reply_same, assumption, simp add: reply_setters)+
  show ?thesis using assms
    by (auto simp: parse_bulk_line_def bind_eq_Some_conv same_heap_def dest!: u split: if_splits)
qed

lemma parse_line_heap:
  assumes "redis_parse_line msg p = Some (ret, q)" "heap_ok p" "pend_ok p"
  shows "heap_ok q \<and> (ret = 0 \<longrightarrow> pend_ok q) \<and> (ret = 1 \<longrightarrow> queue_ok q)"
proof -
  let ?p = "p\<lparr>rp_msgidx := rp_findidx p + 2\<rparr>"
  have p: "heap_ok ?p" "pend_ok ?p" using assms(2,3) by (simp_all add: pend_ok_def queue_ok_def childless_def)
  have same: ?thesis if "same_heap ?p q" using same_heap_ok [OF that] p pend_queue by blast
  have u: "upd_reply a (redis_reply_set_status s n) t = Some t' \<Longrightarrow> same_heap t t'" "upd_reply a (redis_reply_set_error s n) t = Some t' \<Longrightarrow> same_heap t t'"
      "upd_reply a (redis_reply_set_integer i) t = Some t' \<Longrightarrow> same_heap t t'" for a s n i t t'
    by (rule upd_reply_same, assumption, simp add: reply_setters)+
  consider "rp_cmd p = CHR ''+''" | "rp_cmd p = CHR ''-''" | "rp_cmd p = CHR '':''" | "rp_cmd p = CHR ''$''" | "rp_cmd p = CHR ''*''"
    | "rp_cmd p \<notin> set ''+-:$*''" by auto
  then show ?thesis
  proof cases
    case 5
    then show ?thesis using assms(1) array_line_heap [OF _ p, of _ ret q] by (auto simp: redis_parse_line_def Let_def)
  next
    case 4
    then have "parse_bulk_line (rp_msgidx p) (drop (rp_msgidx p) msg) ?p = Some (ret, q)" using assms(1) by (simp add: redis_parse_line_def Let_def)
    from same [OF bulk_line_heap [OF this]] show ?thesis .
  next
    case 3
    then show ?thesis using assms(1) same p by (auto simp: redis_parse_line_def Let_def bind_eq_Some_conv dest: u split: if_splits)
  qed (use assms(1) same p in \<open>auto simp: redis_parse_line_def Let_def bind_eq_Some_conv dest: u\<close>)
qed

lemma forward_heap:
  assumes "redis_parser_forward msg p = Some (ret, q)" "heap_ok p" "pend_ok p"
  shows "heap_ok q \<and> (ret \<in> {0, 2} \<longrightarrow> pend_ok q) \<and> (ret = 1 \<longrightarrow> queue_ok q)"
proof (cases "rp_status p")
  case REDIS_UNTIL_CRLF
  obtain b i where bi: "crlf_scan msg (rp_findidx p) = (b, i)" by fastforce
  let ?p = "p\<lparr>rp_findidx := i\<rparr>"
  have p: "heap_ok ?p" "pend_ok ?p" using assms(2,3) by (simp_all add: pend_ok_def queue_ok_def childless_def)
  have nw: "ret \<noteq> 2" if "redis_parse_line msg ?p = Some (ret, q)" using parse_line_frame [OF that] by auto
  with REDIS_UNTIL_CRLF bi assms p parse_line_heap [OF _ p, of msg ret q] show ?thesis
    by (cases b) (auto simp: redis_parser_forward_def redis_parse_crlf_def split: if_splits)
next
  case REDIS_GET_NCHAR
  have u: "upd_reply a (redis_reply_set_string s n) t = Some t' \<Longrightarrow> same_heap t t'" for a s n t t'
    by (rule upd_reply_same, assumption, simp add: reply_setters)
  show ?thesis
  proof (cases "ret = 0")
    case True
    then obtain t where t: "same_heap p t" "q = t\<lparr>rp_msgidx := rp_msgidx t + nat (rp_nchar t), rp_status := REDIS_GET_CR\<rparr>"
      using REDIS_GET_NCHAR assms(1) by (auto simp: redis_parser_forward_def redis_parse_nchar_def bind_eq_Some_conv dest: u split: if_splits)
    then have "same_heap p q" by (simp add: same_heap_def)
    with True assms(2,3) same_heap_ok show ?thesis by auto
  next
    case False
    with REDIS_GET_NCHAR assms show ?thesis
      by (auto simp: redis_parser_forward_def redis_parse_nchar_def bind_eq_Some_conv split: if_splits)
  qed
qed (use assms in \<open>auto simp: redis_parser_forward_def redis_parse_cmd_def redis_parse_cr_def redis_parse_lf_def Let_def
      pend_ok_def queue_ok_def childless_def split: if_splits\<close>)

lemma finish_one_heap:
  assumes "heap_ok p" "queue_ok p"
  shows "heap_ok (finish_one p)" "rp_status (finish_one p) \<noteq> REDIS_PARSE_END \<Longrightarrow> pend_ok (finish_one p)"
  using assms by (auto simp: finish_one_def Let_def queue_ok_def pend_ok_def childless_def split: list.splits if_splits)

lemma settle_heap:
  assumes "redis_parser_forward msg p = Some (r, t)" "r \<in> {0, 1}" "heap_ok p" "pend_ok p"
  shows "heap_ok (settle r t)" "rp_status (settle r t) \<noteq> REDIS_PARSE_END \<Longrightarrow> pend_ok (settle r t)"
  using forward_heap [OF assms(1,3,4)] assms(2) finish_one_heap [of t] by (auto simp: settle_def)

lemma parse_loop_heap:
  "scan_ok p \<Longrightarrow> parse_loop msg p = Some (ret, q) \<Longrightarrow> heap_ok p \<Longrightarrow> pend_ok p \<Longrightarrow> heap_ok q \<and> (ret = 0 \<longrightarrow> pend_ok q)"
proof (induction p rule: parse_loop_induct [of _ msg])
  case (step p)
  from step.prems(1) step.hyps show ?case
  proof (cases rule: parse_loop_cases)
    case wait
    then show ?thesis using forward_heap [OF wait(1) step.prems(2,3)] by auto
  next
    case error
    then show ?thesis using forward_heap [OF error(1) step.prems(2,3)] by auto
  next
    case (finish r t)
    then show ?thesis using settle_heap [OF finish(1,2) step.prems(2,3)] by auto
  next
    case (go r t)
    then show ?thesis using step.IH [OF go(1,2,4)] settle_heap [OF go(1,2) step.prems(2,3)] by auto
  qed
qed

lemma shape_str: "m a = Some r \<Longrightarrow> shape (m(a \<mapsto> r\<lparr>rr_str := s\<rparr>)) = shape m"
  by (rule shape_upd) simp_all

lemma parse_done_shape:
  "redis_parse_done n a m = Some (r, m') \<Longrightarrow> shape m' = shape m"
  "done_elements n es m = Some (r, m') \<Longrightarrow> shape m' = shape m"
proof (induction n a m and n es m arbitrary: r m' and r m' rule: redis_parse_done_done_elements.induct)
  case (2 n a m)
  then show ?case by (auto dest!: shape_str split: option.splits if_splits)
next
  case (4 n e es m)
  then show ?case by (auto split: option.splits if_splits prod.splits)
qed auto

lemma set_words_same: "set_words ws es p = Some q \<Longrightarrow> shape (rp_mem q) = shape (rp_mem p) \<and> rp_next q = rp_next p"
proof (induction ws es p rule: set_words.induct)
  case (2 off len ws e es p)
  then obtain t where t: "upd_reply e (redis_reply_set_string (Str_ptr off) len) p = Some t" "set_words ws es t = Some q" by (auto split: option.splits)
  have "same_heap p t" using t(1) by (rule upd_reply_same) (simp add: reply_setters)
  with "2.IH" [OF t] show ?case by (simp add: same_heap_def)
qed auto

lemma split_inline_heap:
  assumes "redis_split_inline_command P = Some (ret, Q)" "heap_ok (rp_st P)" "childless (rp_st P) 0"
  shows "heap_ok (rp_st Q) \<and> (ret = 0 \<longrightarrow> Q = P\<lparr>rp_msgsize := 0, rp_st := (rp_st P)\<lparr>rp_msgidx := 0\<rparr>\<rparr>)"
proof (cases "count_words (take (rp_msgsize P) (rp_msgbuf P)) = 0")
  case True
  with assms show ?thesis by (auto simp: redis_split_inline_command_def)
next
  case False
  obtain r q where q: "redis_reply_set_array (count_words (take (rp_msgsize P) (rp_msgbuf P))) 0 (rp_st P) = Some (r, q)"
    using assms(1) False by (auto simp: redis_split_inline_command_def Let_def bind_eq_Some_conv)
  note H = set_array_heap [OF q assms(2,3)]
  show ?thesis
  proof (cases "r < 0")
    case True
    with assms(1) False q H show ?thesis by (auto simp: redis_split_inline_command_def Let_def)
  next
    case rn: False
    with assms(1) False q obtain rr q' where "set_words (word_spans 0 (take (rp_msgsize P) (rp_msgbuf P))) rr q = Some q'" "ret = 1" "rp_mem (rp_st Q) = rp_mem q'" "rp_next (rp_st Q) = rp_next q'"
      by (auto simp: redis_split_inline_command_def Let_def bind_eq_Some_conv)
    with set_words_same [OF this(1)] H show ?thesis using shape_tree_ok [of "rp_mem q'" "rp_mem q"] by simp
  qed
qed

section \<open>Calls\<close>

definition parser_ok :: "redis_parser \<Rightarrow> bool" where
  "parser_ok P \<longleftrightarrow> rp_msgsize P \<le> length (rp_msgbuf P) \<and> heap_ok (rp_st P) \<and> pend_ok (rp_st P) \<and> scan_ok (rp_st P) \<and> rp_status (rp_st P) \<noteq> REDIS_PARSE_END \<and>
     rp_msgidx (rp_st P) \<le> rp_msgsize P \<and>
     (rp_msgsize P = 0 \<or> inline_start (rp_msgbuf P ! 0) \<longrightarrow> rp_cur (rp_st P) = 0 \<and> rp_status (rp_st P) = REDIS_GET_CMD)"

lemma reserve_ok:
  assumes "reserve_message n P = (b, Q)"
  shows "\<exists>ans buf. Q = P\<lparr>rp_msgbuf := rp_msgbuf P @ buf, rp_st := (rp_st P)\<lparr>rp_answers := ans\<rparr>\<rparr> \<and> (b \<longrightarrow> rp_msgsize P + n \<le> length (rp_msgbuf P @ buf))"
proof (cases "rp_msgsize P + n > length (rp_msgbuf P)")
  case True
  let ?new = "grow_size (max REDIS_MSGBUF_INIT_SIZE (2 * length (rp_msgbuf P))) (rp_msgsize P + n)"
  have new: "rp_msgsize P + n \<le> ?new" by (rule grow_size_ge) (simp add: REDIS_MSGBUF_INIT_SIZE_def)
  obtain c ans where c: "alloc (rp_answers (rp_st P)) = (c, ans)" by fastforce
  show ?thesis
  proof (cases c)
    case True
    with c assms new \<open>_ > _\<close> show ?thesis
      by (intro exI [of _ ans] exI [of _ "replicate (?new - length (rp_msgbuf P)) NUL"]) (auto simp: reserve_message_def Let_def)
  next
    case False
    with c assms \<open>_ > _\<close> show ?thesis by (intro exI [of _ ans] exI [of _ "[]"]) (auto simp: reserve_message_def Let_def)
  qed
next
  case False
  with assms show ?thesis by (intro exI [of _ "rp_answers (rp_st P)"] exI [of _ "[]"]) (auto simp: reserve_message_def)
qed

lemma inline_ok:
  assumes "inline_message bak n R = Some (ret, k, Q)" "heap_ok (rp_st R)" "pend_ok (rp_st R)" "rp_msgsize R \<le> length (rp_msgbuf R)" "rp_msgsize R > 0"
    "rp_msgidx (rp_st R) \<le> rp_msgsize R" "rp_cur (rp_st R) = 0" "rp_status (rp_st R) = REDIS_GET_CMD"
  shows "heap_ok (rp_st Q) \<and> (ret = 0 \<longrightarrow> parser_ok Q)"
proof -
  let ?i = "rp_msgidx (rp_st R) + length (takeWhile (\<lambda>c. c \<noteq> LF) (drop (rp_msgidx (rp_st R)) (take (rp_msgsize R) (rp_msgbuf R))))"
  have pend: "pend_ok ((rp_st R)\<lparr>rp_msgidx := j\<rparr>)" for j using assms(3) by (simp add: pend_ok_def queue_ok_def childless_def)
  show ?thesis
  proof (cases "?i = rp_msgsize R")
    case True
    then have "ret = 0" "Q = R\<lparr>rp_st := (rp_st R)\<lparr>rp_msgidx := rp_msgsize R\<rparr>\<rparr>" using assms(1) by (auto simp: inline_message_def Let_def)
    with assms pend show ?thesis by (simp add: parser_ok_def scan_ok_def)
  next
    case False
    let ?P = "R\<lparr>rp_msgsize := ?i + 1, rp_st := (rp_st R)\<lparr>rp_msgidx := ?i + 1\<rparr>\<rparr>"
    have s: "redis_split_inline_command ?P = Some (ret, Q)" using assms(1) False by (auto simp: inline_message_def Let_def bind_eq_Some_conv)
    have "childless (rp_st ?P) 0" using assms(3,7) by (simp add: pend_ok_def childless_def)
    from split_inline_heap [OF s _ this] assms pend show ?thesis by (auto simp: parser_ok_def scan_ok_def)
  qed
qed

lemma protocol_ok:
  assumes "protocol_message bak n R = Some (ret, k, Q)" "heap_ok (rp_st R)" "pend_ok (rp_st R)" "rp_msgsize R \<le> length (rp_msgbuf R)"
    "rp_msgidx (rp_st R) \<le> rp_msgsize R" "scan_ok (rp_st R)" "rp_status (rp_st R) \<noteq> REDIS_PARSE_END"
    "\<not> (rp_msgsize R > 0 \<and> inline_start (rp_msgbuf R ! 0))" "rp_msgsize R = 0 \<longrightarrow> rp_cur (rp_st R) = 0 \<and> rp_status (rp_st R) = REDIS_GET_CMD"
  shows "heap_ok (rp_st Q) \<and> (ret = 0 \<longrightarrow> parser_ok Q)"
proof -
  let ?msg = "take (rp_msgsize R) (rp_msgbuf R)"
  have len: "length ?msg = rp_msgsize R" using assms(4) by simp
  obtain r q where q: "parse_loop ?msg (rp_st R) = Some (r, q)" using assms(1) by (auto simp: protocol_message_def bind_eq_Some_conv)
  note H = parse_loop_heap [OF assms(6) q assms(2,3)]
  note F = parse_loop_frame [OF assms(6) q]
  show ?thesis
  proof (cases "r \<le> 0")
    case True
    then have Q: "Q = R\<lparr>rp_st := q\<rparr>" "ret = r" using assms(1) q by (auto simp: protocol_message_def)
    have "rp_msgsize R = 0 \<longrightarrow> q = rp_st R" using q by auto
    moreover have "rp_status q \<noteq> REDIS_PARSE_END" if "r = 0" using parse_loop_wait_status [OF assms(6)] q assms(7) that by blast
    ultimately show ?thesis using Q H F assms(4,5,8,9) len by (auto simp: parser_ok_def)
  next
    case False
    then obtain m where m: "redis_parse_done REDIS_REPLY_DEPTH_LIMIT 0 (rp_mem q) = Some (ret, m)" "rp_st Q = q\<lparr>rp_mem := m\<rparr>"
      using assms(1) q by (auto simp: protocol_message_def bind_eq_Some_conv)
    have "tree_ok m (rp_next q)" using shape_tree_ok [OF parse_done_shape(1) [OF m(1)]] H by blast
    with m parse_done_ret(1) [OF m(1)] show ?thesis by auto
  qed
qed

lemma append_ok:
  assumes "parser_ok P" "redis_parser_append_message b P = Some (ret, k, Q)"
  shows "heap_ok (rp_st Q) \<and> (ret = 0 \<longrightarrow> parser_ok Q)"
proof -
  note P = assms(1) [unfolded parser_ok_def]
  obtain c T where c: "reserve_message (length b) P = (c, T)" by fastforce
  from reserve_ok [OF c] obtain ans ext where T: "T = P\<lparr>rp_msgbuf := rp_msgbuf P @ ext, rp_st := (rp_st P)\<lparr>rp_answers := ans\<rparr>\<rparr>"
      "c \<longrightarrow> rp_msgsize P + length b \<le> length (rp_msgbuf P @ ext)" by blast
  show ?thesis
  proof (cases c)
    case False
    with assms(2) c T P show ?thesis by (auto simp: redis_parser_append_message_def)
  next
    case True
    let ?buf = "overwrite (rp_msgbuf P @ ext) (rp_msgsize P) b"
    let ?R = "\<lparr>rp_msgbuf = ?buf, rp_msgsize = rp_msgsize P + length b, rp_st = (rp_st P)\<lparr>rp_answers := ans\<rparr>\<rparr>"
    have app: "(if rp_msgsize ?R > 0 \<and> inline_start (rp_msgbuf ?R ! 0) then inline_message (rp_msgsize P) (length b) ?R
        else protocol_message (rp_msgsize P) (length b) ?R) = Some (ret, k, Q)"
    proof -
      have TR: "T\<lparr>rp_msgbuf := overwrite (rp_msgbuf T) (rp_msgsize T) b, rp_msgsize := rp_msgsize T + length b\<rparr> = ?R"
        using T(1) by (cases P) simp
      have ne: "(rp_status (rp_st P) = REDIS_PARSE_END) = False" using P by simp
      have "redis_parser_append_message b P = (let R = T\<lparr>rp_msgbuf := overwrite (rp_msgbuf T) (rp_msgsize T) b, rp_msgsize := rp_msgsize T + length b\<rparr> in
          if rp_msgsize R > 0 \<and> inline_start (rp_msgbuf R ! 0) then inline_message (rp_msgsize P) (length b) R
          else protocol_message (rp_msgsize P) (length b) R)"
        using ne c True by (simp add: redis_parser_append_message_def Let_def)
      then show ?thesis unfolding TR Let_def using assms(2) by metis
    qed
    have R: "heap_ok (rp_st ?R)" "pend_ok (rp_st ?R)" "scan_ok (rp_st ?R)" "rp_status (rp_st ?R) \<noteq> REDIS_PARSE_END" "rp_msgidx (rp_st ?R) \<le> rp_msgsize ?R" "rp_msgsize ?R \<le> length (rp_msgbuf ?R)"
      using P T(2) True by (simp_all add: pend_ok_def queue_ok_def childless_def scan_ok_def)
    have first: "?buf ! 0 = rp_msgbuf P ! 0" if "rp_msgsize P > 0"
      using that P T(2) True by (subst nth_overwrite) (auto simp: nth_append)
    show ?thesis
    proof (cases "rp_msgsize ?R > 0 \<and> inline_start (rp_msgbuf ?R ! 0)")
      case inl: True
      have "rp_cur (rp_st ?R) = 0" "rp_status (rp_st ?R) = REDIS_GET_CMD" using P inl first by (cases "rp_msgsize P = 0"; simp)+
      from inline_ok [OF _ R(1,2,6) _ R(5) this] app inl show ?thesis by auto
    next
      case inl: False
      have "rp_msgsize ?R = 0 \<longrightarrow> rp_cur (rp_st ?R) = 0 \<and> rp_status (rp_st ?R) = REDIS_GET_CMD" using P by simp
      from protocol_ok [OF _ R(1,2,6,5,3,4) inl this] app inl show ?thesis by auto
    qed
  qed
qed

fun result_parser :: "feed_result \<Rightarrow> redis_parser" where
  "result_parser (Waiting P) = P"
| "result_parser (Complete rest P) = P"
| "result_parser (Failed c P) = P"

definition result_ok :: "feed_result \<Rightarrow> bool" where
  "result_ok r \<longleftrightarrow> heap_ok (rp_st (result_parser r)) \<and> (\<forall>P. r = Waiting P \<longrightarrow> parser_ok P)"

lemma feed_ok: "feed b P = Some r \<Longrightarrow> parser_ok P \<longrightarrow> result_ok r"
proof (erule feed.raw_induct [where Pa = "\<lambda>x r. parser_ok (snd x) \<longrightarrow> result_ok r", rotated, simplified snd_conv])
  fix f b P r
  assume IH: "\<And>b P r. f b P = Some r \<Longrightarrow> parser_ok P \<longrightarrow> result_ok r"
    and eq: "(case redis_parser_append_message b P of
        None \<Rightarrow> None
      | Some (ret, n, P) \<Rightarrow>
          if ret < 0 then Some (Failed ret P)
          else if ret > 0 then Some (Complete (drop (nat n) b) P)
          else if drop (nat n) b = [] then Some (Waiting P)
          else f (drop (nat n) b) P) = Some r"
  show "parser_ok P \<longrightarrow> result_ok r"
  proof
    assume ok: "parser_ok P"
    from eq obtain ret k Q where a: "redis_parser_append_message b P = Some (ret, k, Q)" by (auto split: option.splits)
    note A = append_ok [OF ok a]
    have w: "result_ok (Waiting Q)" if "ret = 0" using A that by (simp add: result_ok_def parser_ok_def)
    from eq a A w IH [of "drop (nat k) b" Q r] show "result_ok r"
      by (auto simp: result_ok_def split: if_splits)
  qed
qed

lemma feed_pieces_ok: "feed_pieces ps P = Some r \<Longrightarrow> parser_ok P \<Longrightarrow> result_ok r"
proof (induction ps arbitrary: P)
  case Nil
  then show ?case by (auto simp: result_ok_def parser_ok_def)
next
  case (Cons b ps)
  then obtain f where f: "feed b P = Some f" by (cases "feed b P") auto
  have "result_ok f" using feed_ok [OF f] Cons.prems(2) by blast
  then show ?case using Cons f by (cases f) (auto simp: result_ok_def)
qed

lemma parser_ok_init: "parser_ok (redis_parser_init ans)"
proof -
  let ?m = "[0 \<mapsto> redis_reply_init]"
  have e: "\<not> edge ?m a b" for a b by (simp add: edge_def redis_reply_init_def)
  have "cone ?m 0 = {0}" by (auto simp: cone_def e elim: rtranclp.cases)
  then have "tree_ok ?m 1" by (simp add: tree_ok_def tree_at_def e redis_reply_init_def)
  then show ?thesis
    by (simp add: parser_ok_def redis_parser_init_def pend_ok_def queue_ok_def childless_def scan_ok_def redis_reply_init_def)
qed

end
