(* ===== verification/RedisDefined.thy ===== *)
theory RedisDefined
  imports RedisHeap
begin

text \<open>
  When a run of the Redis parser of the workflow engine is defined. Two things can go wrong in
  \<open>redis_parser.c\<close>: the number of a length line is read by \<open>atoi\<close> from the buffer and not from the
  line, so that a line without a number makes it read on behind the line, and behind the bytes
  received; and every header of an array adds its number to an \<open>int\<close>. Without such a line and with
  fewer than 512 array headers every run ends with a result, whatever the bytes, the pieces and the
  answers of the allocator are.
\<close>

section \<open>The bytes for which every run is defined\<close>

text \<open>A line that holds white space only: what is found by looking for the first line end.\<close>

fun blank_line :: "bytes \<Rightarrow> bool" where
  "blank_line [] = False"
| "blank_line (c # cs) = (c_isspace c \<and> (c = CR \<and> cs \<noteq> [] \<and> hd cs = LF \<or> blank_line cs))"

text \<open>No line that begins with \<open>$\<close> or \<open>*\<close> is blank after that byte; the flag says that a line begins.\<close>

fun numbers_given :: "bool \<Rightarrow> bytes \<Rightarrow> bool" where
  "numbers_given b [] = True"
| "numbers_given b (c # cs) = (\<not> (b \<and> c \<in> set ''$*'' \<and> blank_line cs) \<and> numbers_given (c = LF) cs)"

fun array_lines :: "bool \<Rightarrow> bytes \<Rightarrow> nat" where
  "array_lines b [] = 0"
| "array_lines b (c # cs) = (if b \<and> c = CHR ''*'' then 1 else 0) + array_lines (c = LF) cs"

definition safe_input :: "bytes \<Rightarrow> bool" where
  "safe_input s \<longleftrightarrow> numbers_given True s \<and> array_lines True s < 512"

text \<open>The byte at an index begins a line.\<close>

definition line_at :: "bool \<Rightarrow> bytes \<Rightarrow> nat \<Rightarrow> bool" where
  "line_at b s i = (if i = 0 then b else s ! (i - 1) = LF)"

lemma line_at_Suc [simp]: "line_at b (c # s) (Suc i) = line_at (c = LF) s i"
  by (cases i) (simp_all add: line_at_def)

lemma blank_line_append: "blank_line a \<Longrightarrow> blank_line (a @ b)"
  by (induction a) auto

lemma blank_line_all: "list_all c_isspace s \<Longrightarrow> blank_line (s @ CR # LF # t)"
  by (induction s) (simp_all add: ctype_simps uchar_def)

lemma numbers_given_at:
  "numbers_given b s \<Longrightarrow> i < length s \<Longrightarrow> line_at b s i \<Longrightarrow> s ! i \<in> set ''$*'' \<Longrightarrow> \<not> blank_line (drop (Suc i) s)"
proof (induction s arbitrary: b i)
  case (Cons c s)
  then show ?case by (cases i) (auto simp: line_at_def [of _ _ 0])
qed simp

lemma numbers_given_append:
  "numbers_given b (s @ t) \<Longrightarrow> numbers_given b s \<and> numbers_given (if s = [] then b else last s = LF) t"
proof (induction s arbitrary: b)
  case (Cons c s)
  then show ?case using blank_line_append [of s t] by (auto split: if_splits)
qed simp

lemma array_lines_append:
  "array_lines b (s @ t) = array_lines b s + array_lines (if s = [] then b else last s = LF) t"
  by (induction s arbitrary: b) auto

lemma array_lines_take:
  assumes "k < length s"
  shows "array_lines b (take (Suc k) s) = array_lines b (take k s) + (if line_at b s k \<and> s ! k = CHR ''*'' then 1 else 0)"
proof -
  have "last (take k s) = s ! (k - 1)" if "k > 0" using that assms by (subst last_conv_nth) (auto simp: min_def)
  with assms show ?thesis by (auto simp: take_Suc_conv_app_nth array_lines_append line_at_def)
qed

lemma array_lines_mono: "i \<le> j \<Longrightarrow> array_lines b (take i s) \<le> array_lines b (take j s)"
proof -
  assume "i \<le> j"
  then have "take j s = take i s @ take (j - i) (drop i s)" by (metis le_add_diff_inverse take_add)
  then show ?thesis by (simp add: array_lines_append)
qed

lemma array_lines_le: "array_lines b (take i s) \<le> array_lines b s"
  using array_lines_append [of b "take i s" "drop i s"] by simp

text \<open>Prefixes, and what follows a line feed.\<close>

lemma safe_prefix: "safe_input (s @ t) \<Longrightarrow> safe_input s"
  using numbers_given_append [of True s t] array_lines_append [of True s t] by (auto simp: safe_input_def)

lemma safe_rest: "safe_input (s @ t) \<Longrightarrow> s = [] \<or> last s = LF \<Longrightarrow> safe_input t"
  using numbers_given_append [of True s t] array_lines_append [of True s t] by (auto simp: safe_input_def split: if_splits)

section \<open>The number of a length line\<close>

lemma atoi_in_defined:
  assumes "x \<in> set s" "\<not> c_isspace x"
  shows "atoi_in (s @ CR # t) \<noteq> None"
proof -
  obtain c cs where c: "dropWhile c_isspace s = c # cs" using assms by (cases "dropWhile c_isspace s") auto
  then have "dropWhile c_isspace (s @ CR # t) = c # cs @ CR # t" using assms by (simp add: dropWhile_append1 [of x])
  then show ?thesis by (auto simp: atoi_in_def)
qed

lemma atoi_line_defined:
  assumes "\<not> blank_line (drop k msg)" "k \<le> i" "i + 1 < length msg" "msg ! i = CR" "msg ! (i + 1) = LF"
  shows "atoi_in (drop k msg) \<noteq> None"
proof -
  let ?s = "take (i - k) (drop k msg)"
  have "drop i msg = CR # LF # drop (i + 2) msg"
    using assms(3-5) by (metis Cons_nth_drop_Suc Suc_eq_plus1 Suc_lessD add_2_eq_Suc' )
  then have d: "drop k msg = ?s @ CR # LF # drop (i + 2) msg"
    using assms(2) by (metis append_take_drop_id drop_drop le_add_diff_inverse2)
  then have "\<not> list_all c_isspace ?s" using blank_line_all assms(1) by metis
  then obtain x where "x \<in> set ?s" "\<not> c_isspace x" by (auto simp: list_all_iff)
  from atoi_in_defined [OF this, of "LF # drop (i + 2) msg"] d show ?thesis by simp
qed

section \<open>Every handler is defined\<close>

text \<open>While a message arrives the strings are offsets.\<close>

definition plain :: "reply_mem \<Rightarrow> bool" where
  "plain m \<longleftrightarrow> (\<forall>x r n. m x = Some r \<longrightarrow> rr_str r \<noteq> Str_ptr n)"

lemma plain_upd: "plain m \<Longrightarrow> m a = Some r \<Longrightarrow> (\<And>n. rr_str r' = Str_ptr n \<Longrightarrow> rr_str r = Str_ptr n) \<Longrightarrow> plain (m(a \<mapsto> r'))"
  unfolding plain_def by (auto simp: fun_upd_def split: if_splits)

lemma upd_reply_defined:
  assumes "childless p a" "plain (rp_mem p)" "\<And>r n. rr_str (f r) = Str_ptr n \<Longrightarrow> rr_str r = Str_ptr n"
  shows "\<exists>m. upd_reply a f p = Some (p\<lparr>rp_mem := m\<rparr>) \<and> plain m"
proof -
  obtain r where r: "rp_mem p a = Some r" using assms(1) by (auto simp: childless_def)
  then have "plain ((rp_mem p)(a \<mapsto> f r))" using plain_upd [OF assms(2), of a r "f r"] assms(3) by blast
  with r show ?thesis by (auto simp: upd_reply_def)
qed

lemma set_array_defined:
  assumes "heap_ok p" "childless p a" "plain (rp_mem p)"
  shows "\<exists>ret q. redis_reply_set_array n a p = Some (ret, q) \<and> plain (rp_mem q)"
proof -
  obtain r where r: "rp_mem p a = Some r" "rr_element r = []" using assms(2) by (auto simp: childless_def)
  have el0: "rr_elements r = 0" using assms(1) tree_node [of "rp_mem p" "rp_next p" 0 a] r by (auto simp: tree_ok_def)
  have dom: "x < rp_next p" if "rp_mem p x \<noteq> None" for x
    using that assms(1) tree_node [of "rp_mem p" "rp_next p" 0 x] by (auto simp: tree_ok_def)
  obtain b ans where b: "alloc (rp_answers p) = (b, ans)" by fastforce
  let ?p = "p\<lparr>rp_answers := ans\<rparr>"
  obtain ok es p1 where c: "create_elements n ?p = (ok, es, p1)" by (metis prod_cases3)
  note C = create_elements_result [OF c, simplified]
  have i: "rr_str redis_reply_init = Str_null" by (simp add: redis_reply_init_def)
  have p1: "plain (rp_mem p1)" using C assms(3) i by (auto simp: plain_def)
  consider "\<not> b" | "b" "\<not> ok" | "b" "ok" by blast
  then show ?thesis
  proof cases
    case 1
    with b assms(3) show ?thesis by (simp add: redis_reply_set_array_def redis_create_array_def)
  next
    case 2
    have "plain (\<lambda>x. if x \<in> set es then None else rp_mem p1 x)" using p1 by (auto simp: plain_def)
    with b c 2 show ?thesis by (simp add: redis_reply_set_array_def redis_create_array_def fold_free)
  next
    case 3
    have "a \<notin> set es" using dom [of a] r C by auto
    moreover have "rp_mem p1 a = (if a \<in> set es then Some redis_reply_init else rp_mem p a)" using C by auto
    ultimately have ma: "rp_mem p1 a = Some r" using r(1) by simp
    have "reply_deinit (rp_next p1 + 1) a (rp_mem p1) = Some (rp_mem p1)" using ma r el0 by simp
    then have "redis_reply_set_array n a p = Some (0, p1\<lparr>rp_mem := (rp_mem p1)(a \<mapsto> r\<lparr>rr_element := es, rr_elements := n, rr_type := REDIS_REPLY_TYPE_ARRAY\<rparr>)\<rparr>)"
      using b c 3 ma by (simp add: redis_reply_set_array_def redis_create_array_def redis_reply_deinit_def upd_reply_def del: reply_deinit.simps)
    moreover have "plain ((rp_mem p1)(a \<mapsto> r\<lparr>rr_element := es, rr_elements := n, rr_type := REDIS_REPLY_TYPE_ARRAY\<rparr>))"
      by (rule plain_upd [OF p1 ma]) simp
    ultimately show ?thesis by simp
  qed
qed

lemma start_elements_defined:
  "start_elements es p = (ret, q) \<Longrightarrow> rp_mem q = rp_mem p \<and> rp_nleft q = rp_nleft p - 1"
  by (auto simp: start_elements_def dest!: push_records_heap split: prod.splits bool.splits)

lemma array_line_defined:
  assumes "atoi_in str \<noteq> None" "heap_ok p" "pend_ok p" "plain (rp_mem p)" "rp_nleft p < 2 ^ 31 - 2 ^ 22"
  shows "\<exists>ret q. parse_array_line str p = Some (ret, q) \<and> plain (rp_mem q) \<and> rp_nleft q \<le> rp_nleft p + 2 ^ 22"
proof -
  obtain n where n: "atoi_in str = Some n" using assms(1) by blast
  have cl: "childless p (rp_cur p)" using assms(3) by (simp add: pend_ok_def)
  consider "n < 0" | "n = 0 \<and> \<not> c_isdigit (str ! 0) \<or> n > REDIS_ARRAY_SIZE_LIMIT"
    | "0 \<le> n" "\<not> (n = 0 \<and> \<not> c_isdigit (str ! 0))" "n \<le> REDIS_ARRAY_SIZE_LIMIT" by linarith
  then show ?thesis
  proof cases
    case 1
    obtain m where "upd_reply (rp_cur p) redis_reply_set_null p = Some (p\<lparr>rp_mem := m\<rparr>)" "plain m"
      using upd_reply_defined [OF cl assms(4), of redis_reply_set_null] by (auto simp: redis_reply_set_null_def)
    with 1 n show ?thesis by (simp add: parse_array_line_def)
  next
    case 2
    with n assms(4) show ?thesis by (auto simp: parse_array_line_def REDIS_ARRAY_SIZE_LIMIT_def)
  next
    case 3
    let ?p = "p\<lparr>rp_nleft := rp_nleft p + n\<rparr>"
    have p: "heap_ok ?p" "childless ?p (rp_cur p)" "plain (rp_mem ?p)" using assms(2,4) cl by (simp_all add: childless_def)
    obtain r q where q: "redis_reply_set_array (nat n) (rp_cur p) ?p = Some (r, q)" "plain (rp_mem q)"
      using set_array_defined [OF p] by blast
    note H = set_array_heap [OF q(1) p(1,2)]
    have cur: "rp_cur q = rp_cur p" using set_array_frame [OF q(1)] by (simp add: frame_def)
    have nl: "rp_nleft q \<le> rp_nleft p + 2 ^ 22" using H 3(3) by (simp add: REDIS_ARRAY_SIZE_LIMIT_def)
    have pa: "parse_array_line str p = (if r < 0 then Some (-1, q) else if n = 0 then Some (1, q)
        else do { a \<leftarrow> rp_mem q (rp_cur q); Some (start_elements (rr_element a) q) })"
      using n 3 q(1) assms(5) by (cases "n = 0") (auto simp: parse_array_line_def REDIS_ARRAY_SIZE_LIMIT_def)
    show ?thesis
    proof (cases "r = 0 \<and> n \<noteq> 0")
      case False
      then show ?thesis using pa q(2) nl H by (auto split: if_splits)
    next
      case True
      then obtain a where a: "rp_mem q (rp_cur q) = Some a" using H cur by auto
      obtain ret t where t: "start_elements (rr_element a) q = (ret, t)" by fastforce
      then show ?thesis using pa True a q(2) nl start_elements_defined [OF t] by simp
    qed
  qed
qed

lemma bulk_line_defined:
  assumes "atoi_in str \<noteq> None" "childless p (rp_cur p)" "plain (rp_mem p)"
  shows "\<exists>ret q. parse_bulk_line off str p = Some (ret, q) \<and> plain (rp_mem q) \<and> rp_nleft q = rp_nleft p"
proof -
  obtain n where n: "atoi_in str = Some n" using assms(1) by blast
  obtain m where "upd_reply (rp_cur p) redis_reply_set_null p = Some (p\<lparr>rp_mem := m\<rparr>)" "plain m"
    using upd_reply_defined [OF assms(2,3), of redis_reply_set_null] by (auto simp: redis_reply_set_null_def)
  moreover obtain m' where "upd_reply (rp_cur p) (redis_reply_set_string (Str_off off) 0) p = Some (p\<lparr>rp_mem := m'\<rparr>)" "plain m'"
    using upd_reply_defined [OF assms(2,3), of "redis_reply_set_string (Str_off off) 0"] by (auto simp: redis_reply_set_string_def)
  ultimately show ?thesis using n assms(3) by (auto simp: parse_bulk_line_def)
qed

lemma parse_line_defined:
  assumes "heap_ok p" "pend_ok p" "plain (rp_mem p)" "rp_cmd p \<in> set ''$*'' \<Longrightarrow> atoi_in (drop (rp_msgidx p) msg) \<noteq> None"
    "rp_cmd p = CHR ''*'' \<Longrightarrow> rp_nleft p < 2 ^ 31 - 2 ^ 22"
  shows "\<exists>ret q. redis_parse_line msg p = Some (ret, q) \<and> plain (rp_mem q) \<and>
    rp_nleft q \<le> rp_nleft p + (if rp_cmd p = CHR ''*'' then 2 ^ 22 else 0)"
proof -
  let ?p = "p\<lparr>rp_msgidx := rp_findidx p + 2\<rparr>"
  have p: "heap_ok ?p" "pend_ok ?p" "plain (rp_mem ?p)" "childless ?p (rp_cur ?p)" using assms(1-3)
    by (simp_all add: pend_ok_def queue_ok_def childless_def)
  have u: "\<exists>m. upd_reply (rp_cur p) f ?p = Some (?p\<lparr>rp_mem := m\<rparr>) \<and> plain m"
    if "\<And>r n. rr_str (f r) = Str_ptr n \<Longrightarrow> rr_str r = Str_ptr n" for f
    using upd_reply_defined [OF p(4,3) that] by simp
  consider "rp_cmd p = CHR ''+''" | "rp_cmd p = CHR ''-''" | "rp_cmd p = CHR '':''" | "rp_cmd p = CHR ''$''" | "rp_cmd p = CHR ''*''"
    | "rp_cmd p \<notin> set ''+-:$*''" by auto
  then show ?thesis
  proof cases
    case 1
    then show ?thesis using u [of "redis_reply_set_status (Str_off (rp_msgidx p)) (rp_findidx p - rp_msgidx p)"]
      by (auto simp: redis_parse_line_def redis_reply_set_status_def)
  next
    case 2
    then show ?thesis using u [of "redis_reply_set_error (Str_off (rp_msgidx p)) (rp_findidx p - rp_msgidx p)"]
      by (auto simp: redis_parse_line_def redis_reply_set_error_def)
  next
    case 3
    then show ?thesis
      using u [of "redis_reply_set_integer (c_atoll (take (rp_findidx p - rp_msgidx p) (drop (rp_msgidx p) msg)))"] assms(3)
      by (auto simp: redis_parse_line_def redis_reply_set_integer_def Let_def)
  next
    case 4
    have "\<exists>ret q. parse_bulk_line (rp_msgidx p) (drop (rp_msgidx p) msg) ?p = Some (ret, q) \<and> plain (rp_mem q) \<and> rp_nleft q = rp_nleft ?p"
      using bulk_line_defined [OF _ p(4,3)] assms(4) 4 by simp
    with 4 show ?thesis by (auto simp: redis_parse_line_def Let_def)
  next
    case 5
    have "\<exists>ret q. parse_array_line (drop (rp_msgidx p) msg) ?p = Some (ret, q) \<and> plain (rp_mem q) \<and> rp_nleft q \<le> rp_nleft ?p + 2 ^ 22"
      using array_line_defined [OF _ p(1-3)] assms(4,5) 5 by simp
    with 5 show ?thesis by (auto simp: redis_parse_line_def Let_def)
  next
    case 6
    then show ?thesis using assms(3) by (auto simp: redis_parse_line_def Let_def)
  qed
qed

section \<open>Every step is defined\<close>

text \<open>A command byte begins a line, and the number of replies that are left is bounded by the array
  headers that have been read.\<close>

definition headers_read :: "bytes \<Rightarrow> parse_state \<Rightarrow> nat" where
  "headers_read w p = array_lines True (take (if rp_status p = REDIS_UNTIL_CRLF then rp_msgidx p - 1 else rp_msgidx p) w)"

definition reading :: "bytes \<Rightarrow> parse_state \<Rightarrow> bool" where
  "reading w p \<longleftrightarrow> rp_msgidx p \<le> length w \<and> plain (rp_mem p) \<and>
     (rp_status p = REDIS_GET_CMD \<longrightarrow> line_at True w (rp_msgidx p)) \<and>
     (rp_status p = REDIS_UNTIL_CRLF \<longrightarrow> 0 < rp_msgidx p \<and> line_at True w (rp_msgidx p - 1) \<and> w ! (rp_msgidx p - 1) = rp_cmd p) \<and>
     rp_nleft p \<le> 1 + 2 ^ 22 * int (headers_read w p)"

lemma reading_findidx [simp]: "reading w (p\<lparr>rp_findidx := i\<rparr>) = reading w p"
  by (simp add: reading_def headers_read_def)

lemma finish_reading:
  assumes "line_at True w (rp_msgidx q)" "rp_msgidx q \<le> length w" "plain (rp_mem q)"
    "rp_nleft q \<le> 1 + 2 ^ 22 * int (array_lines True (take (rp_msgidx q) w))"
  shows "reading w (finish_one q)"
  using assms by (auto simp: reading_def headers_read_def finish_one_def Let_def split: list.splits)

lemma header_line_step:
  assumes "reading w p" "rp_status p = REDIS_UNTIL_CRLF" "heap_ok p" "pend_ok p" "safe_input w"
    "rp_msgidx p \<le> rp_findidx p" "rp_findidx p + 1 < length w" "w ! rp_findidx p = CR" "w ! (rp_findidx p + 1) = LF"
  shows "\<exists>ret q. redis_parse_line w p = Some (ret, q) \<and> plain (rp_mem q) \<and> (ret \<in> {0, 1} \<longrightarrow> reading w (settle ret q))"
proof -
  note R = assms(1) [unfolded reading_def headers_read_def]
  let ?k = "rp_msgidx p - 1" and ?h = "if rp_cmd p = CHR ''*'' then 1 else 0"
  have k: "?k < length w" "line_at True w ?k" "w ! ?k = rp_cmd p" "Suc ?k = rp_msgidx p" using R assms(2) by auto
  have h: "array_lines True (take (rp_msgidx p) w) = array_lines True (take ?k w) + ?h"
    using array_lines_take [OF k(1), of True] k(2-4) by simp
  have nl: "rp_nleft p \<le> 1 + 2 ^ 22 * int (array_lines True (take ?k w))" using R assms(2) by simp
  have lim: "array_lines True (take ?k w) + ?h < 512"
    using array_lines_le [of True "rp_msgidx p" w] assms(5) h by (simp add: safe_input_def)
  have a: "atoi_in (drop (rp_msgidx p) w) \<noteq> None" if "rp_cmd p \<in> set ''$*''"
    using numbers_given_at [of True w ?k] k that assms(5) atoi_line_defined [OF _ assms(6-9)] by (simp add: safe_input_def)
  have l: "rp_nleft p < 2 ^ 31 - 2 ^ 22" if "rp_cmd p = CHR ''*''" using nl lim that by simp
  obtain ret q where q: "redis_parse_line w p = Some (ret, q)" "plain (rp_mem q)"
      "rp_nleft q \<le> rp_nleft p + (if rp_cmd p = CHR ''*'' then 2 ^ 22 else 0)"
    using parse_line_defined [OF assms(3,4) _ a l] R by blast
  have idx: "rp_msgidx q = rp_findidx p + 2" and s: "ret = 0 \<longrightarrow> scan_ok q" using parse_line_frame [OF q(1)] by auto
  have ls: "line_at True w (rp_msgidx q)" using assms(9) idx by (simp add: line_at_def)
  have le: "rp_msgidx q \<le> length w" using idx assms(7) by simp
  have "array_lines True (take (rp_msgidx p) w) \<le> array_lines True (take (rp_msgidx q) w)"
    using assms(6) idx by (intro array_lines_mono) simp
  then have n: "rp_nleft q \<le> 1 + 2 ^ 22 * int (array_lines True (take (rp_msgidx q) w))"
    using nl q(3) h by (auto split: if_splits)
  have st: "rp_status q \<noteq> REDIS_UNTIL_CRLF" if "ret = 0"
    using q(1) that unfolding redis_parse_line_def Let_def parse_bulk_line_def
    by (auto simp: bind_eq_Some_conv dest!: array_line_frame split: if_splits)
  have "reading w q" if "ret = 0"
    using st [OF that] ls le q(2) n by (simp add: reading_def headers_read_def)
  with finish_reading [OF ls le q(2) n] q(1,2) show ?thesis by (auto simp: settle_def)
qed

lemma crlf_scan_found: "crlf_scan msg i = (True, j) \<Longrightarrow> msg ! j = CR \<and> msg ! (j + 1) = LF"
proof (induction msg i rule: crlf_scan.induct)
  case (1 msg i)
  then show ?case by (auto simp: crlf_scan.simps [of msg i] split: if_splits)
qed

lemma forward_defined:
  assumes "scan_ok p" "heap_ok p" "pend_ok p" "reading w p" "safe_input w"
  shows "\<exists>ret q. redis_parser_forward w p = Some (ret, q) \<and> plain (rp_mem q) \<and> (ret \<in> {0, 1} \<longrightarrow> reading w (settle ret q)) \<and> (ret = 2 \<longrightarrow> reading w q)"
proof (cases "rp_msgidx p < length w")
  case False
  have "plain (rp_mem p)" using assms(4) by (simp add: reading_def)
  with False assms(4) show ?thesis by (simp add: redis_parser_forward_def)
next
  case m: True
  note R = assms(4) [unfolded reading_def headers_read_def]
  have lines: "array_lines True (take (rp_msgidx p) w) \<le> array_lines True (take (Suc (rp_msgidx p)) w)" by (rule array_lines_mono) simp
  show ?thesis
  proof (cases "rp_status p")
    case REDIS_GET_CMD
    then show ?thesis using m R lines by (auto simp: redis_parser_forward_def redis_parse_cmd_def Let_def reading_def headers_read_def settle_def)
  next
    case REDIS_GET_CR
    then show ?thesis using m R lines by (auto simp: redis_parser_forward_def redis_parse_cr_def Let_def reading_def headers_read_def settle_def)
  next
    case REDIS_GET_LF
    let ?q = "p\<lparr>rp_msgidx := rp_msgidx p + 1\<rparr>"
    have "reading w (finish_one ?q)" if "w ! rp_msgidx p = LF"
      using m R lines REDIS_GET_LF that by (intro finish_reading) (auto simp: line_at_def)
    then show ?thesis using m R REDIS_GET_LF by (auto simp: redis_parser_forward_def redis_parse_lf_def Let_def settle_def)
  next
    case REDIS_UNTIL_CRLF
    obtain b i where bi: "crlf_scan w (rp_findidx p) = (b, i)" by fastforce
    show ?thesis
    proof (cases b)
      case False
      then show ?thesis using bi m assms(4) REDIS_UNTIL_CRLF by (simp add: redis_parser_forward_def redis_parse_crlf_def) (simp add: reading_def)
    next
      case True
      let ?p = "p\<lparr>rp_findidx := i\<rparr>"
      have p: "heap_ok ?p" "pend_ok ?p" "reading w ?p" using assms(2-4) by (simp_all add: pend_ok_def queue_ok_def childless_def)
      have i: "rp_msgidx p \<le> i" "i + 1 < length w" "w ! i = CR" "w ! (i + 1) = LF"
        using crlf_scan_le [OF bi] True crlf_scan_found bi assms(1) REDIS_UNTIL_CRLF by (auto simp: scan_ok_def)
      from header_line_step [OF p(3) _ p(1,2) assms(5)] i REDIS_UNTIL_CRLF obtain ret q where
        q: "redis_parse_line w ?p = Some (ret, q)" "plain (rp_mem q)" "ret \<in> {0, 1} \<longrightarrow> reading w (settle ret q)" by auto
      have "ret \<noteq> 2" using parse_line_frame [OF q(1)] by auto
      with q bi True m REDIS_UNTIL_CRLF show ?thesis by (simp add: redis_parser_forward_def redis_parse_crlf_def)
    qed
  next
    case REDIS_GET_NCHAR
    have cl: "childless p (rp_cur p)" using assms(3) by (simp add: pend_ok_def)
    show ?thesis
    proof (cases "rp_nchar p \<le> int (length w - rp_msgidx p)")
      case False
      then show ?thesis using m assms(4) REDIS_GET_NCHAR by (simp add: redis_parser_forward_def redis_parse_nchar_def) (simp add: reading_def)
    next
      case True
      obtain t where t: "upd_reply (rp_cur p) (redis_reply_set_string (Str_off (rp_msgidx p)) (nat (rp_nchar p))) p = Some (p\<lparr>rp_mem := t\<rparr>)" "plain t"
        using upd_reply_defined [OF cl, of "redis_reply_set_string (Str_off (rp_msgidx p)) (nat (rp_nchar p))"] R
        by (auto simp: redis_reply_set_string_def)
      have "array_lines True (take (rp_msgidx p) w) \<le> array_lines True (take (rp_msgidx p + nat (rp_nchar p)) w)" by (rule array_lines_mono) simp
      moreover have "rp_msgidx p + nat (rp_nchar p) \<le> length w" using True m by linarith
      ultimately show ?thesis using t True m R REDIS_GET_NCHAR
        by (auto simp: redis_parser_forward_def redis_parse_nchar_def reading_def headers_read_def settle_def)
    qed
  next
    case REDIS_PARSE_END
    then show ?thesis using m R by (simp add: redis_parser_forward_def)
  qed
qed

lemma parse_loop_defined:
  "scan_ok p \<Longrightarrow> heap_ok p \<Longrightarrow> pend_ok p \<Longrightarrow> reading w p \<Longrightarrow> safe_input w \<Longrightarrow>
   \<exists>ret q. parse_loop w p = Some (ret, q) \<and> plain (rp_mem q) \<and> (ret = 0 \<longrightarrow> reading w q)"
proof (induction p rule: parse_loop_induct [of _ w])
  case (step p)
  obtain r t where t: "redis_parser_forward w p = Some (r, t)" "plain (rp_mem t)" "r \<in> {0, 1} \<longrightarrow> reading w (settle r t)" "r = 2 \<longrightarrow> reading w t"
    using forward_defined [OF step.hyps step.prems] by blast
  note l = parse_loop_step [OF t(1)]
  consider "r < 0" | "r = 2" | "r \<in> {0, 1}" using forward_frame [OF t(1) step.hyps] by fastforce
  then show ?case
  proof cases
    case 3
    show ?thesis
    proof (cases "rp_status (settle r t) = REDIS_PARSE_END")
      case True
      then show ?thesis using l 3 t(3) by (auto simp: reading_def)
    next
      case False
      with step.IH [OF t(1) 3] settle_heap [OF t(1) 3 step.prems(1,2)] t(3) 3 step.prems(4) l show ?thesis by auto
    qed
  qed (use l t in auto)
qed

text \<open>The loop always ends: it has no result only where a step that it reaches is undefined.\<close>

inductive reaches :: "bytes \<Rightarrow> parse_state \<Rightarrow> parse_state \<Rightarrow> bool" for w where
  reaches_refl: "reaches w p p"
| reaches_step: "redis_parser_forward w p = Some (r, t) \<Longrightarrow> r \<in> {0, 1} \<Longrightarrow> reaches w (settle r t) q \<Longrightarrow> reaches w p q"

lemma parse_loop_None_reached: "scan_ok p \<Longrightarrow> parse_loop w p = None \<Longrightarrow> \<exists>q. reaches w p q \<and> redis_parser_forward w q = None"
proof (induction p rule: parse_loop_induct [of _ w])
  case (step p)
  show ?case
  proof (cases "redis_parser_forward w p")
    case None
    then show ?thesis using reaches_refl by blast
  next
    case (Some rt)
    obtain r t where t: "redis_parser_forward w p = Some (r, t)" using Some by (cases rt) auto
    note l = parse_loop_step [OF t]
    have r: "r \<in> {0, 1}" using l step.prems forward_frame [OF t step.hyps] by (auto split: if_splits)
    then have "parse_loop w (settle r t) = None" using l step.prems by (auto split: if_splits)
    with step.IH [OF t r] reaches_step [OF t r] show ?thesis by blast
  qed
qed

section \<open>Completing a message is defined\<close>

text \<open>The replies are a tree, so every string is turned into a pointer once.\<close>

lemma parse_done_defined:
  "tree_at m nx a \<Longrightarrow> \<forall>x \<in> cone m a. \<forall>r k. m x = Some r \<longrightarrow> rr_str r \<noteq> Str_ptr k \<Longrightarrow>
   \<exists>ret m'. redis_parse_done n a m = Some (ret, m') \<and> (\<forall>x. x \<notin> cone m a \<longrightarrow> m' x = m x)"
  "distinct es \<Longrightarrow> \<forall>e \<in> set es. tree_at m nx e \<and> (\<forall>x \<in> cone m e. \<forall>r k. m x = Some r \<longrightarrow> rr_str r \<noteq> Str_ptr k) \<Longrightarrow>
   \<forall>e \<in> set es. \<forall>e' \<in> set es. e \<noteq> e' \<longrightarrow> cone m e \<inter> cone m e' = {} \<Longrightarrow>
   \<exists>ret m'. done_elements n es m = Some (ret, m') \<and> (\<forall>x. x \<notin> (\<Union>e \<in> set es. cone m e) \<longrightarrow> m' x = m x)"
proof (induction n a m and n es m rule: redis_parse_done_done_elements.induct)
  case (2 n a m)
  obtain r where r: "m a = Some r" "rr_elements r = length (rr_element r)" "distinct (rr_element r)"
    using tree_node [OF "2.prems"(1) cone_self] by blast
  show ?case
  proof (cases "rr_type r = REDIS_REPLY_TYPE_ARRAY")
    case True
    have e: "edge m a e" if "e \<in> set (rr_element r)" for e using that r(1) by (auto simp: edge_def)
    then have c: "e \<in> cone m a" if "e \<in> set (rr_element r)" for e using that cone_step [of a m a e] by simp
    have sub: "cone m e \<subseteq> cone m a" if "e \<in> set (rr_element r)" for e using c [OF that] cone_trans by blast
    have "\<exists>ret m'. done_elements n (rr_element r) m = Some (ret, m') \<and> (\<forall>x. x \<notin> (\<Union>e \<in> set (rr_element r). cone m e) \<longrightarrow> m' x = m x)"
    proof (rule "2.IH" [OF r(1) True r(2,3)])
      show "\<forall>e \<in> set (rr_element r). tree_at m nx e \<and> (\<forall>x \<in> cone m e. \<forall>r k. m x = Some r \<longrightarrow> rr_str r \<noteq> Str_ptr k)"
        using tree_at_sub [OF "2.prems"(1) c] sub "2.prems"(2) by blast
      show "\<forall>e \<in> set (rr_element r). \<forall>e' \<in> set (rr_element r). e \<noteq> e' \<longrightarrow> cone m e \<inter> cone m e' = {}"
        using siblings_disjoint [OF "2.prems"(1) e e] by blast
    qed
    then show ?thesis using r True sub by (auto; blast)
  next
    case False
    have "rr_str r \<noteq> Str_ptr k" for k using "2.prems"(2) r(1) cone_self by blast
    then obtain s where "to_pointer (rr_str r) = Some s" by (cases "rr_str r") auto
    with False r(1) show ?thesis by auto
  qed
next
  case (4 n e es m)
  have t: "tree_at m nx e" "\<forall>x \<in> cone m e. \<forall>r k. m x = Some r \<longrightarrow> rr_str r \<noteq> Str_ptr k" using "4.prems"(2) by auto
  obtain ret m1 where d: "redis_parse_done n e m = Some (ret, m1)" "\<forall>x. x \<notin> cone m e \<longrightarrow> m1 x = m x"
    using "4.IH"(1) [OF t] by blast
  show ?case
  proof (cases "ret < 0")
    case True
    with d show ?thesis by auto
  next
    case False
    have same: "m1 x = m x" if "x \<in> cone m e'" "e' \<in> set es" for x e'
    proof -
      have "e \<noteq> e'" using that(2) "4.prems"(1) by auto
      then have "cone m e \<inter> cone m e' = {}" using "4.prems"(3) that(2) by simp
      with that(1) d(2) show ?thesis by blast
    qed
    have c: "cone m1 e' = cone m e'" if "e' \<in> set es" for e' using cone_cong [of m e' m1] same that by blast
    have "tree_at m1 nx e'" if "e' \<in> set es" for e' using tree_at_cong [of m nx e' m1] same that "4.prems"(2) by auto
    moreover have "\<forall>x \<in> cone m1 e'. \<forall>r k. m1 x = Some r \<longrightarrow> rr_str r \<noteq> Str_ptr k" if "e' \<in> set es" for e'
      using "4.prems"(2) c [OF that] same that by auto
    ultimately have "\<exists>ret' m'. done_elements n es m1 = Some (ret', m') \<and> (\<forall>x. x \<notin> (\<Union>e \<in> set es. cone m1 e) \<longrightarrow> m' x = m1 x)"
      using "4.IH"(2) [OF d(1) refl False] "4.prems"(1,3) c by simp
    then show ?thesis using d False c by auto
  qed
qed auto

lemma message_done_defined:
  assumes "tree_ok m nx" "plain m"
  shows "\<exists>ret m'. redis_parse_done n 0 m = Some (ret, m')"
  using parse_done_defined(1) [of m nx 0 n] assms unfolding tree_ok_def plain_def by blast

section \<open>Inline commands are defined\<close>

lemma length_word_spans: "length (word_spans off s) = count_words s"
proof (induction s arbitrary: off rule: count_words.induct)
  case (1 s)
  show ?case
  proof (cases "dropWhile c_isspace s")
    case Nil
    show ?thesis by (simp add: word_spans.simps [of off s] count_words.simps [of s] Nil)
  next
    case (Cons c t)
    with "1.IH" [OF Cons] show ?thesis by (simp add: word_spans.simps [of off s] count_words.simps [of s] Let_def)
  qed
qed

lemma set_words_defined: "length ws = length es \<Longrightarrow> set es \<subseteq> dom (rp_mem p) \<Longrightarrow> \<exists>q. set_words ws es p = Some q"
proof (induction ws es p rule: set_words.induct)
  case (2 off len ws e es p)
  then obtain r where "rp_mem p e = Some r" by auto
  then have "upd_reply e (redis_reply_set_string (Str_ptr off) len) p = Some (p\<lparr>rp_mem := (rp_mem p)(e \<mapsto> redis_reply_set_string (Str_ptr off) len r)\<rparr>)"
    by (simp add: upd_reply_def)
  with 2 show ?case by auto
qed auto

lemma split_inline_defined:
  assumes "heap_ok (rp_st P)" "childless (rp_st P) 0" "plain (rp_mem (rp_st P))"
  shows "\<exists>ret Q. redis_split_inline_command P = Some (ret, Q)"
proof (cases "count_words (take (rp_msgsize P) (rp_msgbuf P)) = 0")
  case True
  then show ?thesis by (simp add: redis_split_inline_command_def)
next
  case False
  let ?m = "take (rp_msgsize P) (rp_msgbuf P)"
  obtain r q where q: "redis_reply_set_array (count_words ?m) 0 (rp_st P) = Some (r, q)" using set_array_defined [OF assms] by blast
  note H = set_array_heap [OF q assms(1,2)]
  show ?thesis
  proof (cases "r < 0")
    case True
    with False q show ?thesis by (simp add: redis_split_inline_command_def Let_def)
  next
    case rn: False
    then obtain a where a: "rp_mem q 0 = Some a" "length (rr_element a) = count_words ?m" "\<forall>e \<in> set (rr_element a). childless q e"
      using H by auto
    then have "set (rr_element a) \<subseteq> dom (rp_mem q)" by (auto simp: childless_def)
    then obtain t where "set_words (word_spans 0 ?m) (rr_element a) q = Some t"
      using set_words_defined [of "word_spans 0 ?m" "rr_element a" q] a(2) by (auto simp: length_word_spans)
    with False q rn a(1) show ?thesis by (simp add: redis_split_inline_command_def Let_def)
  qed
qed

section \<open>Calls are defined\<close>

text \<open>Between two calls.\<close>

definition awaiting :: "redis_parser \<Rightarrow> bool" where
  "awaiting P \<longleftrightarrow> parser_ok P \<and> plain (rp_mem (rp_st P)) \<and>
     (if inline_msg (received P) then rp_nleft (rp_st P) \<le> 1 \<and> rp_msgidx (rp_st P) = length (received P)
      else reading (received P) (rp_st P))"

lemma reading_append: "reading w p \<Longrightarrow> reading (w @ b) p"
proof -
  assume r: "reading w p"
  note R = r [unfolded reading_def headers_read_def]
  have "line_at True (w @ b) i = line_at True w i" if "i \<le> length w" for i
    using that by (cases i) (simp_all add: line_at_def nth_append)
  then show ?thesis using R by (auto simp: reading_def headers_read_def nth_append)
qed

lemma reading_answers [simp]: "reading w (p\<lparr>rp_answers := as\<rparr>) = reading w p"
  by (simp add: reading_def headers_read_def)

lemma first_byte: "rp_msgsize P = length (received P) \<Longrightarrow> (rp_msgsize P > 0 \<and> inline_start (rp_msgbuf P ! 0)) = inline_msg (received P)"
  unfolding received_def by (cases "rp_msgbuf P"; cases "rp_msgsize P") simp_all

lemma inline_defined:
  assumes "awaiting P" "rp_msgsize R = length (received R)" "received R = received P @ b" "inline_msg (received R)"
    "rp_st R = (rp_st P)\<lparr>rp_answers := as\<rparr>" "safe_input (received R @ c)"
  shows "\<exists>ret k Q. inline_message (length (received P)) (length b) R = Some (ret, k, Q) \<and>
    (ret = 0 \<longrightarrow> parser_ok Q \<longrightarrow> awaiting Q \<and> safe_input (received Q @ drop (nat k) b @ c) \<and> (b \<noteq> [] \<longrightarrow> 0 < k))"
proof -
  let ?w = "received P" and ?msg = "received R" and ?p = "rp_st R"
  note P = assms(1) [unfolded awaiting_def parser_ok_def reading_def headers_read_def]
  have sz: "rp_msgsize P = length ?w" using P by (simp add: received_def)
  have w: "?w = [] \<or> inline_msg ?w" using assms(3,4) by (cases ?w) auto
  have idx: "rp_msgidx ?p = length ?w" and nl: "rp_nleft ?p \<le> 1" using w P assms(5) by auto
  have "rp_msgsize P = 0 \<or> inline_start (rp_msgbuf P ! 0)" using w sz first_byte [OF sz] by auto
  then have st: "rp_cur ?p = 0" "rp_status ?p = REDIS_GET_CMD" using P assms(5) by simp_all
  have pl: "plain (rp_mem ?p)" and h: "heap_ok ?p" and cl: "childless ?p 0" using P st assms(5) by (simp_all add: pend_ok_def childless_def)
  let ?i = "line_end ?msg ?p"
  have i: "length ?w \<le> ?i" "?i \<le> length ?msg" using line_end_le [of ?p ?msg] idx assms(3) by simp_all
  have im: "inline_message (length ?w) (length b) R = (if ?i = rp_msgsize R then Some (0, int (length b), R\<lparr>rp_st := ?p\<lparr>rp_msgidx := ?i\<rparr>\<rparr>)
      else do { (ret, Q) \<leftarrow> redis_split_inline_command (R\<lparr>rp_msgsize := ?i + 1, rp_st := ?p\<lparr>rp_msgidx := ?i + 1\<rparr>\<rparr>);
        Some (ret, int (?i + 1) - int (length ?w), Q) })"
    using assms(2) by (simp add: inline_message_def line_end_def received_def Let_def)
  show ?thesis
  proof (cases "?i = length ?msg")
    case True
    let ?Q = "R\<lparr>rp_st := ?p\<lparr>rp_msgidx := ?i\<rparr>\<rparr>"
    have rq: "received ?Q = ?msg" by (simp add: received_def)
    then have "parser_ok ?Q \<longrightarrow> awaiting ?Q \<and> safe_input (received ?Q @ drop (nat (int (length b))) b @ c)"
      using assms(4,6) nl True pl by (simp add: awaiting_def)
    then show ?thesis using im True assms(2) by simp
  next
    case False
    let ?S = "R\<lparr>rp_msgsize := ?i + 1, rp_st := ?p\<lparr>rp_msgidx := ?i + 1\<rparr>\<rparr>"
    have s: "heap_ok (rp_st ?S)" "childless (rp_st ?S) 0" "plain (rp_mem (rp_st ?S))" using h cl pl by (simp_all add: childless_def)
    obtain ret Q where Q: "redis_split_inline_command ?S = Some (ret, Q)" using split_inline_defined [OF s] by blast
    let ?k = "int (?i + 1) - int (length ?w)"
    have "awaiting Q \<and> safe_input (received Q @ drop (nat ?k) b @ c)" if "ret = 0" "parser_ok Q"
    proof -
      have q: "Q = ?S\<lparr>rp_msgsize := 0, rp_st := (rp_st ?S)\<lparr>rp_msgidx := 0\<rparr>\<rparr>" using split_inline_heap [OF Q s(1,2)] that(1) by blast
      then have rq: "received Q = []" by (simp add: received_def)
      have "reading [] (rp_st Q)" using q pl st(2) nl by (simp add: reading_def headers_read_def line_at_def)
      moreover have "plain (rp_mem (rp_st Q))" using q pl by simp
      moreover have "safe_input (drop (nat ?k) b @ c)"
      proof -
        have "nat ?k = Suc ?i - length ?w" by arith
        then have d: "drop (Suc ?i) ?msg = drop (nat ?k) b" using assms(3) i(1) by simp
        have t: "take (Suc ?i) ?msg \<noteq> []" "last (take (Suc ?i) ?msg) = ?msg ! ?i"
          using False i(2) by (auto simp: last_conv_nth take_Suc_conv_app_nth)
        let ?t = "drop (rp_msgidx ?p) ?msg"
        have "length (takeWhile (\<lambda>c. c \<noteq> LF) ?t) < length ?t" using False i idx unfolding line_end_def length_drop by linarith
        then have "?t ! length (takeWhile (\<lambda>c. c \<noteq> LF) ?t) = LF" using nth_length_takeWhile by blast
        then have "?msg ! ?i = LF" using idx assms(3) by (simp add: line_end_def)
        moreover have "safe_input (take (Suc ?i) ?msg @ drop (nat ?k) b @ c)" using assms(6) d by (metis append.assoc append_take_drop_id)
        ultimately show ?thesis using safe_rest t by metis
      qed
      ultimately show ?thesis using that(2) rq by (simp add: awaiting_def)
    qed
    then show ?thesis using im False assms(2) Q i(1) by simp
  qed
qed

lemma protocol_defined:
  assumes "awaiting P" "rp_msgsize R = length (received R)" "received R = received P @ b" "\<not> inline_msg (received R)"
    "rp_st R = (rp_st P)\<lparr>rp_answers := as\<rparr>" "safe_input (received R @ c)"
  shows "\<exists>ret k Q. protocol_message (length (received P)) (length b) R = Some (ret, k, Q) \<and>
    (ret = 0 \<longrightarrow> parser_ok Q \<longrightarrow> awaiting Q \<and> safe_input (received Q @ drop (nat k) b @ c) \<and> (b \<noteq> [] \<longrightarrow> 0 < k))"
proof -
  let ?msg = "received R" and ?p = "rp_st R"
  note P = assms(1) [unfolded awaiting_def parser_ok_def]
  have "\<not> inline_msg (received P)" using assms(3,4) by (cases "received P") auto
  then have r: "reading ?msg ?p" using P assms(3,5) reading_append by simp
  have p: "heap_ok ?p" "pend_ok ?p" "scan_ok ?p" using P assms(5) by (simp_all add: pend_ok_def queue_ok_def childless_def scan_ok_def)
  obtain ret q where q: "parse_loop ?msg ?p = Some (ret, q)" "plain (rp_mem q)" "ret = 0 \<longrightarrow> reading ?msg q"
    using parse_loop_defined [OF p(3,1,2) r safe_prefix [OF assms(6)]] by blast
  have pm: "protocol_message (length (received P)) (length b) R = (if ret \<le> 0 then Some (ret, int (length b), R\<lparr>rp_st := q\<rparr>)
      else do { (ret, m) \<leftarrow> redis_parse_done REDIS_REPLY_DEPTH_LIMIT 0 (rp_mem q);
        Some (ret, int (rp_msgidx q) - int (length (received P)), R\<lparr>rp_st := q\<lparr>rp_mem := m\<rparr>\<rparr>) })"
    using q(1) by (simp add: protocol_message_def received_def)
  show ?thesis
  proof (cases "ret \<le> 0")
    case True
    let ?Q = "R\<lparr>rp_st := q\<rparr>"
    have rq: "received ?Q = ?msg" by (simp add: received_def)
    then have "parser_ok ?Q \<longrightarrow> awaiting ?Q \<and> safe_input (received ?Q @ drop (nat (int (length b))) b @ c)" if "ret = 0"
      using assms(4,6) q(2,3) that by (auto simp: awaiting_def)
    then show ?thesis using pm True by simp
  next
    case False
    obtain r m where d: "redis_parse_done REDIS_REPLY_DEPTH_LIMIT 0 (rp_mem q) = Some (r, m)"
      using message_done_defined q(2) parse_loop_heap [OF p(3) q(1) p(1,2)] by blast
    then have "r \<noteq> 0" using parse_done_ret(1) by fastforce
    then show ?thesis using pm False d by simp
  qed
qed

lemma append_defined:
  assumes "awaiting P" "safe_input (received P @ b @ c)"
  shows "\<exists>ret k Q. redis_parser_append_message b P = Some (ret, k, Q) \<and>
    (ret = 0 \<longrightarrow> awaiting Q \<and> safe_input (received Q @ drop (nat k) b @ c) \<and> (b \<noteq> [] \<longrightarrow> 0 < k))"
proof -
  note P = assms(1) [unfolded awaiting_def parser_ok_def]
  have ok: "parser_ok P" using assms(1) by (simp add: awaiting_def)
  obtain g T where g: "reserve_message (length b) P = (g, T)" by fastforce
  from reserve_ok [OF g] obtain ans ext where T: "T = P\<lparr>rp_msgbuf := rp_msgbuf P @ ext, rp_st := (rp_st P)\<lparr>rp_answers := ans\<rparr>\<rparr>"
      "g \<longrightarrow> rp_msgsize P + length b \<le> length (rp_msgbuf P @ ext)" by blast
  have ne: "(rp_status (rp_st P) = REDIS_PARSE_END) = False" using P by simp
  show ?thesis
  proof (cases g)
    case False
    with g ne show ?thesis by (simp add: redis_parser_append_message_def)
  next
    case True
    let ?R = "T\<lparr>rp_msgbuf := overwrite (rp_msgbuf T) (rp_msgsize T) b, rp_msgsize := rp_msgsize T + length b\<rparr>"
    have rr: "received ?R = received P @ b" using T True P by (simp add: received_def)
    have sz: "rp_msgsize ?R = length (received ?R)" using T True P by (simp add: received_def)
    have sp: "rp_msgsize P = length (received P)" using P by (simp add: received_def)
    have st: "rp_st ?R = (rp_st P)\<lparr>rp_answers := ans\<rparr>" using T(1) by simp
    have sf: "safe_input (received ?R @ c)" using assms(2) rr by simp
    have app: "redis_parser_append_message b P = (if inline_msg (received ?R) then inline_message (length (received P)) (length b) ?R
        else protocol_message (length (received P)) (length b) ?R)"
      unfolding first_byte [OF sz, symmetric] using ne g True sp by (simp add: redis_parser_append_message_def Let_def)
    have "\<exists>ret k Q. redis_parser_append_message b P = Some (ret, k, Q) \<and>
        (ret = 0 \<longrightarrow> parser_ok Q \<longrightarrow> awaiting Q \<and> safe_input (received Q @ drop (nat k) b @ c) \<and> (b \<noteq> [] \<longrightarrow> 0 < k))"
    proof (cases "inline_msg (received ?R)")
      case i: True
      show ?thesis unfolding app if_P [OF i] by (rule inline_defined [OF assms(1) sz rr i st sf])
    next
      case i: False
      show ?thesis unfolding app if_not_P [OF i] by (rule protocol_defined [OF assms(1) sz rr i st sf])
    qed
    then show ?thesis using append_ok [OF ok] by blast
  qed
qed

lemma feed_defined:
  "awaiting P \<Longrightarrow> safe_input (received P @ b @ c) \<Longrightarrow>
   \<exists>r. feed b P = Some r \<and> (\<forall>Q. r = Waiting Q \<longrightarrow> awaiting Q \<and> safe_input (received Q @ c))"
proof (induction "length b" arbitrary: b P rule: less_induct)
  case less
  obtain ret k Q where a: "redis_parser_append_message b P = Some (ret, k, Q)"
      "ret = 0 \<longrightarrow> awaiting Q \<and> safe_input (received Q @ drop (nat k) b @ c) \<and> (b \<noteq> [] \<longrightarrow> 0 < k)"
    using append_defined [OF less.prems] by blast
  have f: "feed b P = (if ret < 0 then Some (Failed ret Q) else if ret > 0 then Some (Complete (drop (nat k) b) Q)
      else if drop (nat k) b = [] then Some (Waiting Q) else feed (drop (nat k) b) Q)"
    by (subst feed.simps) (simp add: a(1))
  show ?case
  proof (cases "ret = 0 \<and> drop (nat k) b \<noteq> []")
    case True
    then have "length (drop (nat k) b) < length b" using a(2) by auto
    from less.hyps [OF this] a(2) f True show ?thesis by simp
  next
    case False
    then show ?thesis using f a(2) by auto
  qed
qed

lemma feed_pieces_defined: "awaiting P \<Longrightarrow> safe_input (received P @ concat ps) \<Longrightarrow> \<exists>r. feed_pieces ps P = Some r"
proof (induction ps arbitrary: P)
  case (Cons b ps)
  have "safe_input (received P @ b @ concat ps)" using Cons.prems(2) by simp
  from feed_defined [OF Cons.prems(1) this] obtain r where r: "feed b P = Some r" "\<forall>Q. r = Waiting Q \<longrightarrow> awaiting Q \<and> safe_input (received Q @ concat ps)"
    by blast
  then show ?case using Cons.IH by (cases r) auto
qed simp

lemma awaiting_init: "awaiting (redis_parser_init ans)"
  using parser_ok_init by (simp add: awaiting_def redis_parser_init_def received_def plain_def redis_reply_init_def reading_def headers_read_def line_at_def)

section \<open>Every run ends, and what it leaves can be released\<close>

lemma run_defined: "safe_input (concat ps) \<Longrightarrow> \<exists>r. feed_pieces ps (redis_parser_init ans) = Some r"
  using feed_pieces_defined [OF awaiting_init] by (simp add: redis_parser_init_def received_def)

lemma released:
  assumes "heap_ok (rp_st P)"
  shows "\<exists>Q. redis_parser_deinit P = Some Q \<and> dom (rp_mem (rp_st Q)) = {0}"
proof -
  from tree_ok_deinit [OF assms] obtain m where "reply_deinit (rp_next (rp_st P) + 1) 0 (rp_mem (rp_st P)) = Some m" "dom m = {0}" by blast
  then show ?thesis by (simp add: redis_parser_deinit_def redis_reply_deinit_def del: reply_deinit.simps)
qed

text \<open>C14: No reply is leaked and none is freed twice. Unless the bytes hold a line that begins with
  \<open>$\<close> or \<open>*\<close> and has white space only after it, or 512 or more lines that begin with \<open>*\<close> (the two
  cases in which the C code reads behind the line or may overflow an \<open>int\<close>), every run ends within
  defined behaviour, whatever the bytes and the pieces are and whichever allocations fail: the parser
  waits, completes the message or fails. After every run that ends so, with such lines too, the
  release stays within defined behaviour and leaves only the embedded reply.\<close>

theorem redis_parser_releases_all:
  "(safe_input (concat ps) \<longrightarrow> feed_pieces ps (redis_parser_init ans) \<noteq> None) \<and>
   (\<forall>r. feed_pieces ps (redis_parser_init ans) = Some r \<longrightarrow>
      (\<exists>Q. redis_parser_deinit (result_parser r) = Some Q \<and> dom (rp_mem (rp_st Q)) = {0}))"
proof (intro conjI impI allI)
  assume "safe_input (concat ps)"
  then show "feed_pieces ps (redis_parser_init ans) \<noteq> None" using run_defined by blast
next
  fix r assume r: "feed_pieces ps (redis_parser_init ans) = Some r"
  have "heap_ok (rp_st (result_parser r))" using feed_pieces_ok [OF r parser_ok_init] by (simp add: result_ok_def)
  then show "\<exists>Q. redis_parser_deinit (result_parser r) = Some Q \<and> dom (rp_mem (rp_st Q)) = {0}" by (rule released)
qed

theorem redis_parser_releases_all_witness:
  "\<exists>r Q. feed_pieces [''*2'', CRLF @ '':1'' @ CRLF @ ''*1'' @ CRLF] (redis_parser_init [True, True, True, True, True, False]) = Some r \<and>
     redis_parser_deinit (result_parser r) = Some Q \<and> dom (rp_mem (rp_st Q)) = {0}"
proof -
  have "safe_input (concat [''*2'', CRLF @ '':1'' @ CRLF @ ''*1'' @ CRLF])" by code_simp
  with redis_parser_releases_all show ?thesis by (metis (no_types) option.exhaust)
qed

text \<open>C28: A message that is cut into any pieces is parsed like the whole: with memory available, for all
  bytes without a blank length line and with fewer than 512 lines that begin with \<open>*\<close>, both the run
  over the pieces and the run over all bytes at once end, and with the same outcome, the same replies
  in memory, the same bytes of the message in the buffer and the same bytes left over for the next
  message. This holds for protocol messages and for inline commands, whose blank lines are skipped.\<close>

theorem redis_message_in_pieces:
  assumes "safe_input (concat ps)" "ps \<noteq> []"
  shows "\<exists>r r'. feed_pieces ps (redis_parser_init []) = Some r \<and> feed (concat ps) (redis_parser_init []) = Some r' \<and> same_result r' r"
proof -
  obtain r where r: "feed_pieces ps (redis_parser_init []) = Some r" using run_defined [OF assms(1)] by blast
  with feed_pieces_whole [OF between_init r assms(2)] show ?thesis by blast
qed

theorem redis_message_in_pieces_witness:
  "\<exists>r r'. feed_pieces [''*2'', CRLF @ ''$5'', CRLF @ ''hel'', ''lo'' @ CRLF @ '':7'' @ CRLF @ ''+''] (redis_parser_init []) = Some r \<and>
     feed (concat [''*2'', CRLF @ ''$5'', CRLF @ ''hel'', ''lo'' @ CRLF @ '':7'' @ CRLF @ ''+'']) (redis_parser_init []) = Some r' \<and> same_result r' r"
proof (rule redis_message_in_pieces)
  show "safe_input (concat [''*2'', CRLF @ ''$5'', CRLF @ ''hel'', ''lo'' @ CRLF @ '':7'' @ CRLF @ ''+''])" by code_simp
qed simp

text \<open>Without the condition a cut matters: the number of the empty length line is taken from the next
  line when that has arrived.\<close>

lemma blank_length_line:
  "feed_pieces [''$'' @ CRLF @ ''1'' @ CRLF @ ''h'' @ CRLF] (redis_parser_init []) \<noteq> None \<and>
   feed_pieces [''$'' @ CRLF, ''1'' @ CRLF @ ''h'' @ CRLF] (redis_parser_init []) = None"
  by code_simp

end
