(* ===== verification/Command.thy ===== *)
theory Command
  imports SdsText
begin

text \<open>
  The command table of the cluster client (\<open>command.c\<close>): a formatted command is scanned for its
  name, and for the positions of its keys by the class of the name. The scanner is one switch over
  28 states; each state has a definition here. Pointers into the command are offsets.
\<close>

section \<open>The table of commands\<close>

text \<open>The enumeration \<open>cmd_type\<close>: the values are the positions in \<open>CMD_TYPE_CODEC\<close>.\<close>

type_synonym cmd_type = nat

definition CMD_UNKNOWN :: cmd_type where "CMD_UNKNOWN = 0"
definition CMD_REQ_REDIS_DEL :: cmd_type where "CMD_REQ_REDIS_DEL = 1"
definition CMD_REQ_REDIS_EXISTS :: cmd_type where "CMD_REQ_REDIS_EXISTS = 2"
definition CMD_REQ_REDIS_EXPIRE :: cmd_type where "CMD_REQ_REDIS_EXPIRE = 3"
definition CMD_REQ_REDIS_EXPIREAT :: cmd_type where "CMD_REQ_REDIS_EXPIREAT = 4"
definition CMD_REQ_REDIS_PEXPIRE :: cmd_type where "CMD_REQ_REDIS_PEXPIRE = 5"
definition CMD_REQ_REDIS_PEXPIREAT :: cmd_type where "CMD_REQ_REDIS_PEXPIREAT = 6"
definition CMD_REQ_REDIS_PERSIST :: cmd_type where "CMD_REQ_REDIS_PERSIST = 7"
definition CMD_REQ_REDIS_PTTL :: cmd_type where "CMD_REQ_REDIS_PTTL = 8"
definition CMD_REQ_REDIS_SORT :: cmd_type where "CMD_REQ_REDIS_SORT = 9"
definition CMD_REQ_REDIS_TTL :: cmd_type where "CMD_REQ_REDIS_TTL = 10"
definition CMD_REQ_REDIS_TYPE :: cmd_type where "CMD_REQ_REDIS_TYPE = 11"
definition CMD_REQ_REDIS_APPEND :: cmd_type where "CMD_REQ_REDIS_APPEND = 12"
definition CMD_REQ_REDIS_BITCOUNT :: cmd_type where "CMD_REQ_REDIS_BITCOUNT = 13"
definition CMD_REQ_REDIS_DECR :: cmd_type where "CMD_REQ_REDIS_DECR = 14"
definition CMD_REQ_REDIS_DECRBY :: cmd_type where "CMD_REQ_REDIS_DECRBY = 15"
definition CMD_REQ_REDIS_DUMP :: cmd_type where "CMD_REQ_REDIS_DUMP = 16"
definition CMD_REQ_REDIS_GET :: cmd_type where "CMD_REQ_REDIS_GET = 17"
definition CMD_REQ_REDIS_GETBIT :: cmd_type where "CMD_REQ_REDIS_GETBIT = 18"
definition CMD_REQ_REDIS_GETRANGE :: cmd_type where "CMD_REQ_REDIS_GETRANGE = 19"
definition CMD_REQ_REDIS_GETSET :: cmd_type where "CMD_REQ_REDIS_GETSET = 20"
definition CMD_REQ_REDIS_INCR :: cmd_type where "CMD_REQ_REDIS_INCR = 21"
definition CMD_REQ_REDIS_INCRBY :: cmd_type where "CMD_REQ_REDIS_INCRBY = 22"
definition CMD_REQ_REDIS_INCRBYFLOAT :: cmd_type where "CMD_REQ_REDIS_INCRBYFLOAT = 23"
definition CMD_REQ_REDIS_MGET :: cmd_type where "CMD_REQ_REDIS_MGET = 24"
definition CMD_REQ_REDIS_MSET :: cmd_type where "CMD_REQ_REDIS_MSET = 25"
definition CMD_REQ_REDIS_PSETEX :: cmd_type where "CMD_REQ_REDIS_PSETEX = 26"
definition CMD_REQ_REDIS_RESTORE :: cmd_type where "CMD_REQ_REDIS_RESTORE = 27"
definition CMD_REQ_REDIS_SET :: cmd_type where "CMD_REQ_REDIS_SET = 28"
definition CMD_REQ_REDIS_SETBIT :: cmd_type where "CMD_REQ_REDIS_SETBIT = 29"
definition CMD_REQ_REDIS_SETEX :: cmd_type where "CMD_REQ_REDIS_SETEX = 30"
definition CMD_REQ_REDIS_SETNX :: cmd_type where "CMD_REQ_REDIS_SETNX = 31"
definition CMD_REQ_REDIS_SETRANGE :: cmd_type where "CMD_REQ_REDIS_SETRANGE = 32"
definition CMD_REQ_REDIS_STRLEN :: cmd_type where "CMD_REQ_REDIS_STRLEN = 33"
definition CMD_REQ_REDIS_HDEL :: cmd_type where "CMD_REQ_REDIS_HDEL = 34"
definition CMD_REQ_REDIS_HEXISTS :: cmd_type where "CMD_REQ_REDIS_HEXISTS = 35"
definition CMD_REQ_REDIS_HGET :: cmd_type where "CMD_REQ_REDIS_HGET = 36"
definition CMD_REQ_REDIS_HGETALL :: cmd_type where "CMD_REQ_REDIS_HGETALL = 37"
definition CMD_REQ_REDIS_HINCRBY :: cmd_type where "CMD_REQ_REDIS_HINCRBY = 38"
definition CMD_REQ_REDIS_HINCRBYFLOAT :: cmd_type where "CMD_REQ_REDIS_HINCRBYFLOAT = 39"
definition CMD_REQ_REDIS_HKEYS :: cmd_type where "CMD_REQ_REDIS_HKEYS = 40"
definition CMD_REQ_REDIS_HLEN :: cmd_type where "CMD_REQ_REDIS_HLEN = 41"
definition CMD_REQ_REDIS_HMGET :: cmd_type where "CMD_REQ_REDIS_HMGET = 42"
definition CMD_REQ_REDIS_HMSET :: cmd_type where "CMD_REQ_REDIS_HMSET = 43"
definition CMD_REQ_REDIS_HSET :: cmd_type where "CMD_REQ_REDIS_HSET = 44"
definition CMD_REQ_REDIS_HSETNX :: cmd_type where "CMD_REQ_REDIS_HSETNX = 45"
definition CMD_REQ_REDIS_HSCAN :: cmd_type where "CMD_REQ_REDIS_HSCAN = 46"
definition CMD_REQ_REDIS_HVALS :: cmd_type where "CMD_REQ_REDIS_HVALS = 47"
definition CMD_REQ_REDIS_LINDEX :: cmd_type where "CMD_REQ_REDIS_LINDEX = 48"
definition CMD_REQ_REDIS_LINSERT :: cmd_type where "CMD_REQ_REDIS_LINSERT = 49"
definition CMD_REQ_REDIS_LLEN :: cmd_type where "CMD_REQ_REDIS_LLEN = 50"
definition CMD_REQ_REDIS_LPOP :: cmd_type where "CMD_REQ_REDIS_LPOP = 51"
definition CMD_REQ_REDIS_LPUSH :: cmd_type where "CMD_REQ_REDIS_LPUSH = 52"
definition CMD_REQ_REDIS_LPUSHX :: cmd_type where "CMD_REQ_REDIS_LPUSHX = 53"
definition CMD_REQ_REDIS_LRANGE :: cmd_type where "CMD_REQ_REDIS_LRANGE = 54"
definition CMD_REQ_REDIS_LREM :: cmd_type where "CMD_REQ_REDIS_LREM = 55"
definition CMD_REQ_REDIS_LSET :: cmd_type where "CMD_REQ_REDIS_LSET = 56"
definition CMD_REQ_REDIS_LTRIM :: cmd_type where "CMD_REQ_REDIS_LTRIM = 57"
definition CMD_REQ_REDIS_PFADD :: cmd_type where "CMD_REQ_REDIS_PFADD = 58"
definition CMD_REQ_REDIS_PFCOUNT :: cmd_type where "CMD_REQ_REDIS_PFCOUNT = 59"
definition CMD_REQ_REDIS_PFMERGE :: cmd_type where "CMD_REQ_REDIS_PFMERGE = 60"
definition CMD_REQ_REDIS_RPOP :: cmd_type where "CMD_REQ_REDIS_RPOP = 61"
definition CMD_REQ_REDIS_RPOPLPUSH :: cmd_type where "CMD_REQ_REDIS_RPOPLPUSH = 62"
definition CMD_REQ_REDIS_RPUSH :: cmd_type where "CMD_REQ_REDIS_RPUSH = 63"
definition CMD_REQ_REDIS_RPUSHX :: cmd_type where "CMD_REQ_REDIS_RPUSHX = 64"
definition CMD_REQ_REDIS_SADD :: cmd_type where "CMD_REQ_REDIS_SADD = 65"
definition CMD_REQ_REDIS_SCARD :: cmd_type where "CMD_REQ_REDIS_SCARD = 66"
definition CMD_REQ_REDIS_SDIFF :: cmd_type where "CMD_REQ_REDIS_SDIFF = 67"
definition CMD_REQ_REDIS_SDIFFSTORE :: cmd_type where "CMD_REQ_REDIS_SDIFFSTORE = 68"
definition CMD_REQ_REDIS_SINTER :: cmd_type where "CMD_REQ_REDIS_SINTER = 69"
definition CMD_REQ_REDIS_SINTERSTORE :: cmd_type where "CMD_REQ_REDIS_SINTERSTORE = 70"
definition CMD_REQ_REDIS_SISMEMBER :: cmd_type where "CMD_REQ_REDIS_SISMEMBER = 71"
definition CMD_REQ_REDIS_SMEMBERS :: cmd_type where "CMD_REQ_REDIS_SMEMBERS = 72"
definition CMD_REQ_REDIS_SMOVE :: cmd_type where "CMD_REQ_REDIS_SMOVE = 73"
definition CMD_REQ_REDIS_SPOP :: cmd_type where "CMD_REQ_REDIS_SPOP = 74"
definition CMD_REQ_REDIS_SRANDMEMBER :: cmd_type where "CMD_REQ_REDIS_SRANDMEMBER = 75"
definition CMD_REQ_REDIS_SREM :: cmd_type where "CMD_REQ_REDIS_SREM = 76"
definition CMD_REQ_REDIS_SUNION :: cmd_type where "CMD_REQ_REDIS_SUNION = 77"
definition CMD_REQ_REDIS_SUNIONSTORE :: cmd_type where "CMD_REQ_REDIS_SUNIONSTORE = 78"
definition CMD_REQ_REDIS_SSCAN :: cmd_type where "CMD_REQ_REDIS_SSCAN = 79"
definition CMD_REQ_REDIS_XACK :: cmd_type where "CMD_REQ_REDIS_XACK = 80"
definition CMD_REQ_REDIS_XADD :: cmd_type where "CMD_REQ_REDIS_XADD = 81"
definition CMD_REQ_REDIS_XAUTOCLAIM :: cmd_type where "CMD_REQ_REDIS_XAUTOCLAIM = 82"
definition CMD_REQ_REDIS_XCLAIM :: cmd_type where "CMD_REQ_REDIS_XCLAIM = 83"
definition CMD_REQ_REDIS_XDEL :: cmd_type where "CMD_REQ_REDIS_XDEL = 84"
definition CMD_REQ_REDIS_XGROUP :: cmd_type where "CMD_REQ_REDIS_XGROUP = 85"
definition CMD_REQ_REDIS_XINFO :: cmd_type where "CMD_REQ_REDIS_XINFO = 86"
definition CMD_REQ_REDIS_XLEN :: cmd_type where "CMD_REQ_REDIS_XLEN = 87"
definition CMD_REQ_REDIS_XPENDING :: cmd_type where "CMD_REQ_REDIS_XPENDING = 88"
definition CMD_REQ_REDIS_XRANGE :: cmd_type where "CMD_REQ_REDIS_XRANGE = 89"
definition CMD_REQ_REDIS_XREVRANGE :: cmd_type where "CMD_REQ_REDIS_XREVRANGE = 90"
definition CMD_REQ_REDIS_XTRIM :: cmd_type where "CMD_REQ_REDIS_XTRIM = 91"
definition CMD_REQ_REDIS_ZADD :: cmd_type where "CMD_REQ_REDIS_ZADD = 92"
definition CMD_REQ_REDIS_ZCARD :: cmd_type where "CMD_REQ_REDIS_ZCARD = 93"
definition CMD_REQ_REDIS_ZCOUNT :: cmd_type where "CMD_REQ_REDIS_ZCOUNT = 94"
definition CMD_REQ_REDIS_ZINCRBY :: cmd_type where "CMD_REQ_REDIS_ZINCRBY = 95"
definition CMD_REQ_REDIS_ZINTERSTORE :: cmd_type where "CMD_REQ_REDIS_ZINTERSTORE = 96"
definition CMD_REQ_REDIS_ZLEXCOUNT :: cmd_type where "CMD_REQ_REDIS_ZLEXCOUNT = 97"
definition CMD_REQ_REDIS_ZRANGE :: cmd_type where "CMD_REQ_REDIS_ZRANGE = 98"
definition CMD_REQ_REDIS_ZRANGEBYLEX :: cmd_type where "CMD_REQ_REDIS_ZRANGEBYLEX = 99"
definition CMD_REQ_REDIS_ZRANGEBYSCORE :: cmd_type where "CMD_REQ_REDIS_ZRANGEBYSCORE = 100"
definition CMD_REQ_REDIS_ZRANK :: cmd_type where "CMD_REQ_REDIS_ZRANK = 101"
definition CMD_REQ_REDIS_ZREM :: cmd_type where "CMD_REQ_REDIS_ZREM = 102"
definition CMD_REQ_REDIS_ZREMRANGEBYRANK :: cmd_type where "CMD_REQ_REDIS_ZREMRANGEBYRANK = 103"
definition CMD_REQ_REDIS_ZREMRANGEBYLEX :: cmd_type where "CMD_REQ_REDIS_ZREMRANGEBYLEX = 104"
definition CMD_REQ_REDIS_ZREMRANGEBYSCORE :: cmd_type where "CMD_REQ_REDIS_ZREMRANGEBYSCORE = 105"
definition CMD_REQ_REDIS_ZREVRANGE :: cmd_type where "CMD_REQ_REDIS_ZREVRANGE = 106"
definition CMD_REQ_REDIS_ZREVRANGEBYSCORE :: cmd_type where "CMD_REQ_REDIS_ZREVRANGEBYSCORE = 107"
definition CMD_REQ_REDIS_ZREVRANK :: cmd_type where "CMD_REQ_REDIS_ZREVRANK = 108"
definition CMD_REQ_REDIS_ZSCORE :: cmd_type where "CMD_REQ_REDIS_ZSCORE = 109"
definition CMD_REQ_REDIS_ZUNIONSTORE :: cmd_type where "CMD_REQ_REDIS_ZUNIONSTORE = 110"
definition CMD_REQ_REDIS_ZSCAN :: cmd_type where "CMD_REQ_REDIS_ZSCAN = 111"
definition CMD_REQ_REDIS_EVAL :: cmd_type where "CMD_REQ_REDIS_EVAL = 112"
definition CMD_REQ_REDIS_EVALSHA :: cmd_type where "CMD_REQ_REDIS_EVALSHA = 113"
definition CMD_REQ_REDIS_PING :: cmd_type where "CMD_REQ_REDIS_PING = 114"
definition CMD_REQ_REDIS_QUIT :: cmd_type where "CMD_REQ_REDIS_QUIT = 115"
definition CMD_REQ_REDIS_AUTH :: cmd_type where "CMD_REQ_REDIS_AUTH = 116"
definition CMD_RSP_REDIS_STATUS :: cmd_type where "CMD_RSP_REDIS_STATUS = 117"
definition CMD_RSP_REDIS_ERROR :: cmd_type where "CMD_RSP_REDIS_ERROR = 118"
definition CMD_RSP_REDIS_INTEGER :: cmd_type where "CMD_RSP_REDIS_INTEGER = 119"
definition CMD_RSP_REDIS_BULK :: cmd_type where "CMD_RSP_REDIS_BULK = 120"
definition CMD_RSP_REDIS_MULTIBULK :: cmd_type where "CMD_RSP_REDIS_MULTIBULK = 121"
definition CMD_SENTINEL :: cmd_type where "CMD_SENTINEL = 122"

lemmas cmd_type_defs =
  CMD_UNKNOWN_def CMD_REQ_REDIS_DEL_def CMD_REQ_REDIS_EXISTS_def CMD_REQ_REDIS_EXPIRE_def
  CMD_REQ_REDIS_EXPIREAT_def CMD_REQ_REDIS_PEXPIRE_def CMD_REQ_REDIS_PEXPIREAT_def CMD_REQ_REDIS_PERSIST_def
  CMD_REQ_REDIS_PTTL_def CMD_REQ_REDIS_SORT_def CMD_REQ_REDIS_TTL_def CMD_REQ_REDIS_TYPE_def
  CMD_REQ_REDIS_APPEND_def CMD_REQ_REDIS_BITCOUNT_def CMD_REQ_REDIS_DECR_def CMD_REQ_REDIS_DECRBY_def
  CMD_REQ_REDIS_DUMP_def CMD_REQ_REDIS_GET_def CMD_REQ_REDIS_GETBIT_def CMD_REQ_REDIS_GETRANGE_def
  CMD_REQ_REDIS_GETSET_def CMD_REQ_REDIS_INCR_def CMD_REQ_REDIS_INCRBY_def CMD_REQ_REDIS_INCRBYFLOAT_def
  CMD_REQ_REDIS_MGET_def CMD_REQ_REDIS_MSET_def CMD_REQ_REDIS_PSETEX_def CMD_REQ_REDIS_RESTORE_def
  CMD_REQ_REDIS_SET_def CMD_REQ_REDIS_SETBIT_def CMD_REQ_REDIS_SETEX_def CMD_REQ_REDIS_SETNX_def
  CMD_REQ_REDIS_SETRANGE_def CMD_REQ_REDIS_STRLEN_def CMD_REQ_REDIS_HDEL_def CMD_REQ_REDIS_HEXISTS_def
  CMD_REQ_REDIS_HGET_def CMD_REQ_REDIS_HGETALL_def CMD_REQ_REDIS_HINCRBY_def CMD_REQ_REDIS_HINCRBYFLOAT_def
  CMD_REQ_REDIS_HKEYS_def CMD_REQ_REDIS_HLEN_def CMD_REQ_REDIS_HMGET_def CMD_REQ_REDIS_HMSET_def
  CMD_REQ_REDIS_HSET_def CMD_REQ_REDIS_HSETNX_def CMD_REQ_REDIS_HSCAN_def CMD_REQ_REDIS_HVALS_def
  CMD_REQ_REDIS_LINDEX_def CMD_REQ_REDIS_LINSERT_def CMD_REQ_REDIS_LLEN_def CMD_REQ_REDIS_LPOP_def
  CMD_REQ_REDIS_LPUSH_def CMD_REQ_REDIS_LPUSHX_def CMD_REQ_REDIS_LRANGE_def CMD_REQ_REDIS_LREM_def
  CMD_REQ_REDIS_LSET_def CMD_REQ_REDIS_LTRIM_def CMD_REQ_REDIS_PFADD_def CMD_REQ_REDIS_PFCOUNT_def
  CMD_REQ_REDIS_PFMERGE_def CMD_REQ_REDIS_RPOP_def CMD_REQ_REDIS_RPOPLPUSH_def CMD_REQ_REDIS_RPUSH_def
  CMD_REQ_REDIS_RPUSHX_def CMD_REQ_REDIS_SADD_def CMD_REQ_REDIS_SCARD_def CMD_REQ_REDIS_SDIFF_def
  CMD_REQ_REDIS_SDIFFSTORE_def CMD_REQ_REDIS_SINTER_def CMD_REQ_REDIS_SINTERSTORE_def CMD_REQ_REDIS_SISMEMBER_def
  CMD_REQ_REDIS_SMEMBERS_def CMD_REQ_REDIS_SMOVE_def CMD_REQ_REDIS_SPOP_def CMD_REQ_REDIS_SRANDMEMBER_def
  CMD_REQ_REDIS_SREM_def CMD_REQ_REDIS_SUNION_def CMD_REQ_REDIS_SUNIONSTORE_def CMD_REQ_REDIS_SSCAN_def
  CMD_REQ_REDIS_XACK_def CMD_REQ_REDIS_XADD_def CMD_REQ_REDIS_XAUTOCLAIM_def CMD_REQ_REDIS_XCLAIM_def
  CMD_REQ_REDIS_XDEL_def CMD_REQ_REDIS_XGROUP_def CMD_REQ_REDIS_XINFO_def CMD_REQ_REDIS_XLEN_def
  CMD_REQ_REDIS_XPENDING_def CMD_REQ_REDIS_XRANGE_def CMD_REQ_REDIS_XREVRANGE_def CMD_REQ_REDIS_XTRIM_def
  CMD_REQ_REDIS_ZADD_def CMD_REQ_REDIS_ZCARD_def CMD_REQ_REDIS_ZCOUNT_def CMD_REQ_REDIS_ZINCRBY_def
  CMD_REQ_REDIS_ZINTERSTORE_def CMD_REQ_REDIS_ZLEXCOUNT_def CMD_REQ_REDIS_ZRANGE_def CMD_REQ_REDIS_ZRANGEBYLEX_def
  CMD_REQ_REDIS_ZRANGEBYSCORE_def CMD_REQ_REDIS_ZRANK_def CMD_REQ_REDIS_ZREM_def CMD_REQ_REDIS_ZREMRANGEBYRANK_def
  CMD_REQ_REDIS_ZREMRANGEBYLEX_def CMD_REQ_REDIS_ZREMRANGEBYSCORE_def CMD_REQ_REDIS_ZREVRANGE_def
  CMD_REQ_REDIS_ZREVRANGEBYSCORE_def CMD_REQ_REDIS_ZREVRANK_def CMD_REQ_REDIS_ZSCORE_def
  CMD_REQ_REDIS_ZUNIONSTORE_def CMD_REQ_REDIS_ZSCAN_def CMD_REQ_REDIS_EVAL_def CMD_REQ_REDIS_EVALSHA_def
  CMD_REQ_REDIS_PING_def CMD_REQ_REDIS_QUIT_def CMD_REQ_REDIS_AUTH_def CMD_RSP_REDIS_STATUS_def
  CMD_RSP_REDIS_ERROR_def CMD_RSP_REDIS_INTEGER_def CMD_RSP_REDIS_BULK_def CMD_RSP_REDIS_MULTIBULK_def
  CMD_SENTINEL_def

text \<open>The classes of commands by what follows the name.\<close>

definition redis_argz :: "cmd_type \<Rightarrow> bool" where
  "redis_argz ty \<longleftrightarrow> ty \<in> set [
     CMD_REQ_REDIS_PING, CMD_REQ_REDIS_QUIT]"

definition redis_arg0 :: "cmd_type \<Rightarrow> bool" where
  "redis_arg0 ty \<longleftrightarrow> ty \<in> set [
     CMD_REQ_REDIS_PERSIST, CMD_REQ_REDIS_PTTL, CMD_REQ_REDIS_SORT, CMD_REQ_REDIS_TTL, CMD_REQ_REDIS_TYPE,
     CMD_REQ_REDIS_DUMP, CMD_REQ_REDIS_DECR, CMD_REQ_REDIS_GET, CMD_REQ_REDIS_INCR, CMD_REQ_REDIS_STRLEN,
     CMD_REQ_REDIS_HGETALL, CMD_REQ_REDIS_HKEYS, CMD_REQ_REDIS_HLEN, CMD_REQ_REDIS_HVALS, CMD_REQ_REDIS_LLEN,
     CMD_REQ_REDIS_LPOP, CMD_REQ_REDIS_RPOP, CMD_REQ_REDIS_SCARD, CMD_REQ_REDIS_SMEMBERS, CMD_REQ_REDIS_SPOP,
     CMD_REQ_REDIS_XLEN, CMD_REQ_REDIS_ZCARD, CMD_REQ_REDIS_PFCOUNT, CMD_REQ_REDIS_AUTH]"

definition redis_arg1 :: "cmd_type \<Rightarrow> bool" where
  "redis_arg1 ty \<longleftrightarrow> ty \<in> set [
     CMD_REQ_REDIS_EXPIRE, CMD_REQ_REDIS_EXPIREAT, CMD_REQ_REDIS_PEXPIRE, CMD_REQ_REDIS_PEXPIREAT,
     CMD_REQ_REDIS_APPEND, CMD_REQ_REDIS_DECRBY, CMD_REQ_REDIS_GETBIT, CMD_REQ_REDIS_GETSET, CMD_REQ_REDIS_INCRBY,
     CMD_REQ_REDIS_INCRBYFLOAT, CMD_REQ_REDIS_SETNX, CMD_REQ_REDIS_HEXISTS, CMD_REQ_REDIS_HGET, CMD_REQ_REDIS_LINDEX,
     CMD_REQ_REDIS_LPUSHX, CMD_REQ_REDIS_RPOPLPUSH, CMD_REQ_REDIS_RPUSHX, CMD_REQ_REDIS_SISMEMBER,
     CMD_REQ_REDIS_ZRANK, CMD_REQ_REDIS_ZREVRANK, CMD_REQ_REDIS_ZSCORE]"

definition redis_arg2 :: "cmd_type \<Rightarrow> bool" where
  "redis_arg2 ty \<longleftrightarrow> ty \<in> set [
     CMD_REQ_REDIS_GETRANGE, CMD_REQ_REDIS_PSETEX, CMD_REQ_REDIS_SETBIT, CMD_REQ_REDIS_SETEX, CMD_REQ_REDIS_SETRANGE,
     CMD_REQ_REDIS_HINCRBY, CMD_REQ_REDIS_HINCRBYFLOAT, CMD_REQ_REDIS_HSET, CMD_REQ_REDIS_HSETNX,
     CMD_REQ_REDIS_LRANGE, CMD_REQ_REDIS_LREM, CMD_REQ_REDIS_LSET, CMD_REQ_REDIS_LTRIM, CMD_REQ_REDIS_SMOVE,
     CMD_REQ_REDIS_ZCOUNT, CMD_REQ_REDIS_ZLEXCOUNT, CMD_REQ_REDIS_ZINCRBY, CMD_REQ_REDIS_ZREMRANGEBYLEX,
     CMD_REQ_REDIS_ZREMRANGEBYRANK, CMD_REQ_REDIS_ZREMRANGEBYSCORE, CMD_REQ_REDIS_RESTORE]"

definition redis_arg3 :: "cmd_type \<Rightarrow> bool" where
  "redis_arg3 ty \<longleftrightarrow> ty \<in> set [
     CMD_REQ_REDIS_LINSERT]"

definition redis_argn :: "cmd_type \<Rightarrow> bool" where
  "redis_argn ty \<longleftrightarrow> ty \<in> set [
     CMD_REQ_REDIS_BITCOUNT, CMD_REQ_REDIS_SET, CMD_REQ_REDIS_HDEL, CMD_REQ_REDIS_HMGET, CMD_REQ_REDIS_HMSET,
     CMD_REQ_REDIS_HSCAN, CMD_REQ_REDIS_LPUSH, CMD_REQ_REDIS_RPUSH, CMD_REQ_REDIS_SADD, CMD_REQ_REDIS_SDIFF,
     CMD_REQ_REDIS_SDIFFSTORE, CMD_REQ_REDIS_SINTER, CMD_REQ_REDIS_SINTERSTORE, CMD_REQ_REDIS_SREM,
     CMD_REQ_REDIS_SUNION, CMD_REQ_REDIS_SUNIONSTORE, CMD_REQ_REDIS_SRANDMEMBER, CMD_REQ_REDIS_SSCAN,
     CMD_REQ_REDIS_PFADD, CMD_REQ_REDIS_PFMERGE, CMD_REQ_REDIS_XACK, CMD_REQ_REDIS_XADD, CMD_REQ_REDIS_XAUTOCLAIM,
     CMD_REQ_REDIS_XCLAIM, CMD_REQ_REDIS_XDEL, CMD_REQ_REDIS_XPENDING, CMD_REQ_REDIS_XRANGE, CMD_REQ_REDIS_XREVRANGE,
     CMD_REQ_REDIS_XTRIM, CMD_REQ_REDIS_ZADD, CMD_REQ_REDIS_ZINTERSTORE, CMD_REQ_REDIS_ZRANGE,
     CMD_REQ_REDIS_ZRANGEBYSCORE, CMD_REQ_REDIS_ZREM, CMD_REQ_REDIS_ZREVRANGE, CMD_REQ_REDIS_ZRANGEBYLEX,
     CMD_REQ_REDIS_ZREVRANGEBYSCORE, CMD_REQ_REDIS_ZUNIONSTORE, CMD_REQ_REDIS_ZSCAN]"

definition redis_argx :: "cmd_type \<Rightarrow> bool" where
  "redis_argx ty \<longleftrightarrow> ty \<in> set [
     CMD_REQ_REDIS_EXISTS, CMD_REQ_REDIS_MGET, CMD_REQ_REDIS_DEL]"

definition redis_argkvx :: "cmd_type \<Rightarrow> bool" where
  "redis_argkvx ty \<longleftrightarrow> ty \<in> set [
     CMD_REQ_REDIS_MSET]"

definition redis_argsub :: "cmd_type \<Rightarrow> bool" where
  "redis_argsub ty \<longleftrightarrow> ty \<in> set [
     CMD_REQ_REDIS_XGROUP, CMD_REQ_REDIS_XINFO]"

definition redis_argeval :: "cmd_type \<Rightarrow> bool" where
  "redis_argeval ty \<longleftrightarrow> ty \<in> set [
     CMD_REQ_REDIS_EVAL, CMD_REQ_REDIS_EVALSHA]"

lemmas cmd_classes = redis_argz_def redis_arg0_def redis_arg1_def redis_arg2_def redis_arg3_def redis_argn_def redis_argx_def redis_argkvx_def redis_argsub_def redis_argeval_def

text \<open>The name is compared without regard to case with the names of its length.\<close>

definition verb_in :: "bytes \<Rightarrow> nat \<Rightarrow> (bytes \<times> cmd_type) list \<Rightarrow> cmd_type" where
  "verb_in m n tab = (case find (\<lambda>(v, ty). strncaseeq n m v) tab of None \<Rightarrow> CMD_UNKNOWN | Some (v, ty) \<Rightarrow> ty)"

definition verbs3 :: "(bytes \<times> cmd_type) list" where
  "verbs3 = [
     (''get'', CMD_REQ_REDIS_GET), (''set'', CMD_REQ_REDIS_SET), (''ttl'', CMD_REQ_REDIS_TTL),
     (''del'', CMD_REQ_REDIS_DEL)]"

definition verbs4 :: "(bytes \<times> cmd_type) list" where
  "verbs4 = [
     (''pttl'', CMD_REQ_REDIS_PTTL), (''decr'', CMD_REQ_REDIS_DECR), (''dump'', CMD_REQ_REDIS_DUMP),
     (''hdel'', CMD_REQ_REDIS_HDEL), (''hget'', CMD_REQ_REDIS_HGET), (''hlen'', CMD_REQ_REDIS_HLEN),
     (''hset'', CMD_REQ_REDIS_HSET), (''incr'', CMD_REQ_REDIS_INCR), (''llen'', CMD_REQ_REDIS_LLEN),
     (''lpop'', CMD_REQ_REDIS_LPOP), (''lrem'', CMD_REQ_REDIS_LREM), (''lset'', CMD_REQ_REDIS_LSET),
     (''rpop'', CMD_REQ_REDIS_RPOP), (''sadd'', CMD_REQ_REDIS_SADD), (''spop'', CMD_REQ_REDIS_SPOP),
     (''srem'', CMD_REQ_REDIS_SREM), (''type'', CMD_REQ_REDIS_TYPE), (''mget'', CMD_REQ_REDIS_MGET),
     (''mset'', CMD_REQ_REDIS_MSET), (''xack'', CMD_REQ_REDIS_XACK), (''xadd'', CMD_REQ_REDIS_XADD),
     (''xdel'', CMD_REQ_REDIS_XDEL), (''xlen'', CMD_REQ_REDIS_XLEN), (''zadd'', CMD_REQ_REDIS_ZADD),
     (''zrem'', CMD_REQ_REDIS_ZREM), (''eval'', CMD_REQ_REDIS_EVAL), (''sort'', CMD_REQ_REDIS_SORT),
     (''ping'', CMD_REQ_REDIS_PING), (''quit'', CMD_REQ_REDIS_QUIT), (''auth'', CMD_REQ_REDIS_AUTH)]"

definition verbs5 :: "(bytes \<times> cmd_type) list" where
  "verbs5 = [
     (''hkeys'', CMD_REQ_REDIS_HKEYS), (''hmget'', CMD_REQ_REDIS_HMGET), (''hmset'', CMD_REQ_REDIS_HMSET),
     (''hvals'', CMD_REQ_REDIS_HVALS), (''hscan'', CMD_REQ_REDIS_HSCAN), (''lpush'', CMD_REQ_REDIS_LPUSH),
     (''ltrim'', CMD_REQ_REDIS_LTRIM), (''rpush'', CMD_REQ_REDIS_RPUSH), (''scard'', CMD_REQ_REDIS_SCARD),
     (''sdiff'', CMD_REQ_REDIS_SDIFF), (''setex'', CMD_REQ_REDIS_SETEX), (''setnx'', CMD_REQ_REDIS_SETNX),
     (''smove'', CMD_REQ_REDIS_SMOVE), (''sscan'', CMD_REQ_REDIS_SSCAN), (''xinfo'', CMD_REQ_REDIS_XINFO),
     (''xtrim'', CMD_REQ_REDIS_XTRIM), (''zcard'', CMD_REQ_REDIS_ZCARD), (''zrank'', CMD_REQ_REDIS_ZRANK),
     (''zscan'', CMD_REQ_REDIS_ZSCAN), (''pfadd'', CMD_REQ_REDIS_PFADD)]"

definition verbs6 :: "(bytes \<times> cmd_type) list" where
  "verbs6 = [
     (''append'', CMD_REQ_REDIS_APPEND), (''decrby'', CMD_REQ_REDIS_DECRBY), (''exists'', CMD_REQ_REDIS_EXISTS),
     (''expire'', CMD_REQ_REDIS_EXPIRE), (''getbit'', CMD_REQ_REDIS_GETBIT), (''getset'', CMD_REQ_REDIS_GETSET),
     (''psetex'', CMD_REQ_REDIS_PSETEX), (''hsetnx'', CMD_REQ_REDIS_HSETNX), (''incrby'', CMD_REQ_REDIS_INCRBY),
     (''lindex'', CMD_REQ_REDIS_LINDEX), (''lpushx'', CMD_REQ_REDIS_LPUSHX), (''lrange'', CMD_REQ_REDIS_LRANGE),
     (''rpushx'', CMD_REQ_REDIS_RPUSHX), (''setbit'', CMD_REQ_REDIS_SETBIT), (''sinter'', CMD_REQ_REDIS_SINTER),
     (''strlen'', CMD_REQ_REDIS_STRLEN), (''sunion'', CMD_REQ_REDIS_SUNION), (''xclaim'', CMD_REQ_REDIS_XCLAIM),
     (''xgroup'', CMD_REQ_REDIS_XGROUP), (''xrange'', CMD_REQ_REDIS_XRANGE), (''zcount'', CMD_REQ_REDIS_ZCOUNT),
     (''zrange'', CMD_REQ_REDIS_ZRANGE), (''zscore'', CMD_REQ_REDIS_ZSCORE)]"

definition verbs7 :: "(bytes \<times> cmd_type) list" where
  "verbs7 = [
     (''persist'', CMD_REQ_REDIS_PERSIST), (''pexpire'', CMD_REQ_REDIS_PEXPIRE), (''hexists'', CMD_REQ_REDIS_HEXISTS),
     (''hgetall'', CMD_REQ_REDIS_HGETALL), (''hincrby'', CMD_REQ_REDIS_HINCRBY), (''linsert'', CMD_REQ_REDIS_LINSERT),
     (''zincrby'', CMD_REQ_REDIS_ZINCRBY), (''evalsha'', CMD_REQ_REDIS_EVALSHA), (''restore'', CMD_REQ_REDIS_RESTORE),
     (''pfcount'', CMD_REQ_REDIS_PFCOUNT), (''pfmerge'', CMD_REQ_REDIS_PFMERGE)]"

definition verbs8 :: "(bytes \<times> cmd_type) list" where
  "verbs8 = [
     (''expireat'', CMD_REQ_REDIS_EXPIREAT), (''bitcount'', CMD_REQ_REDIS_BITCOUNT),
     (''getrange'', CMD_REQ_REDIS_GETRANGE), (''setrange'', CMD_REQ_REDIS_SETRANGE),
     (''smembers'', CMD_REQ_REDIS_SMEMBERS), (''xpending'', CMD_REQ_REDIS_XPENDING),
     (''zrevrank'', CMD_REQ_REDIS_ZREVRANK)]"

definition verbs9 :: "(bytes \<times> cmd_type) list" where
  "verbs9 = [
     (''pexpireat'', CMD_REQ_REDIS_PEXPIREAT), (''rpoplpush'', CMD_REQ_REDIS_RPOPLPUSH),
     (''sismember'', CMD_REQ_REDIS_SISMEMBER), (''xrevrange'', CMD_REQ_REDIS_XREVRANGE),
     (''zrevrange'', CMD_REQ_REDIS_ZREVRANGE), (''zlexcount'', CMD_REQ_REDIS_ZLEXCOUNT)]"

definition verbs10 :: "(bytes \<times> cmd_type) list" where
  "verbs10 = [
     (''sdiffstore'', CMD_REQ_REDIS_SDIFFSTORE), (''xautoclaim'', CMD_REQ_REDIS_XAUTOCLAIM)]"

definition verbs11 :: "(bytes \<times> cmd_type) list" where
  "verbs11 = [
     (''incrbyfloat'', CMD_REQ_REDIS_INCRBYFLOAT), (''sinterstore'', CMD_REQ_REDIS_SINTERSTORE),
     (''srandmember'', CMD_REQ_REDIS_SRANDMEMBER), (''sunionstore'', CMD_REQ_REDIS_SUNIONSTORE),
     (''zinterstore'', CMD_REQ_REDIS_ZINTERSTORE), (''zunionstore'', CMD_REQ_REDIS_ZUNIONSTORE),
     (''zrangebylex'', CMD_REQ_REDIS_ZRANGEBYLEX)]"

definition verbs12 :: "(bytes \<times> cmd_type) list" where
  "verbs12 = [
     (''hincrbyfloat'', CMD_REQ_REDIS_HINCRBYFLOAT)]"

definition verbs13 :: "(bytes \<times> cmd_type) list" where
  "verbs13 = [
     (''zrangebyscore'', CMD_REQ_REDIS_ZRANGEBYSCORE)]"

definition verbs14 :: "(bytes \<times> cmd_type) list" where
  "verbs14 = [
     (''zremrangebylex'', CMD_REQ_REDIS_ZREMRANGEBYLEX)]"

definition verbs15 :: "(bytes \<times> cmd_type) list" where
  "verbs15 = [
     (''zremrangebyrank'', CMD_REQ_REDIS_ZREMRANGEBYRANK)]"

definition verbs16 :: "(bytes \<times> cmd_type) list" where
  "verbs16 = [
     (''zremrangebyscore'', CMD_REQ_REDIS_ZREMRANGEBYSCORE), (''zrevrangebyscore'', CMD_REQ_REDIS_ZREVRANGEBYSCORE)]"

lemmas verb_tables = verbs3_def verbs4_def verbs5_def verbs6_def verbs7_def verbs8_def verbs9_def verbs10_def verbs11_def verbs12_def verbs13_def verbs14_def verbs15_def verbs16_def

definition redis_parse_cmd_verb :: "bytes \<Rightarrow> nat \<Rightarrow> cmd_type" where
  "redis_parse_cmd_verb m len =
     (if len = 3 then verb_in m 3 verbs3
      else if len = 4 then verb_in m 4 verbs4
      else if len = 5 then verb_in m 5 verbs5
      else if len = 6 then verb_in m 6 verbs6
      else if len = 7 then verb_in m 7 verbs7
      else if len = 8 then verb_in m 8 verbs8
      else if len = 9 then verb_in m 9 verbs9
      else if len = 10 then verb_in m 10 verbs10
      else if len = 11 then verb_in m 11 verbs11
      else if len = 12 then verb_in m 12 verbs12
      else if len = 13 then verb_in m 13 verbs13
      else if len = 14 then verb_in m 14 verbs14
      else if len = 15 then verb_in m 15 verbs15
      else if len = 16 then verb_in m 16 verbs16
      else CMD_UNKNOWN)"

section \<open>Commands\<close>

record keypos =
  kp_start :: nat
  kp_end :: nat
  kp_remain_len :: nat

text \<open>\<open>struct hiarray\<close> with elements of type \<open>struct keypos\<close> (\<open>hiarray.c\<close>): the elements and the
  number of allocated ones.\<close>

record key_array =
  ka_elem :: "keypos list"
  ka_nalloc :: nat

definition key_create :: "allocator \<Rightarrow> key_array option \<times> allocator" where
  "key_create m =
     (case alloc m of
        (False, m) \<Rightarrow> (None, m)
      | (True, m) \<Rightarrow> (case alloc m of
          (False, m) \<Rightarrow> (None, m)
        | (True, m) \<Rightarrow> (Some \<lparr>ka_elem = [], ka_nalloc = 1\<rparr>, m)))"

text \<open>The capacity is a \<open>uint32_t\<close>. It does not wrap here: a command has fewer than \<open>2 ^ 32\<close> bytes and
  each key takes several of them.\<close>

definition key_push :: "keypos \<Rightarrow> key_array \<Rightarrow> allocator \<Rightarrow> key_array option \<times> allocator" where
  "key_push k a m =
     (if length (ka_elem a) = ka_nalloc a then
        (case alloc m of
           (False, m) \<Rightarrow> (None, m)
         | (True, m) \<Rightarrow> (Some \<lparr>ka_elem = ka_elem a @ [k], ka_nalloc = ka_nalloc a * 2 mod 2 ^ 32\<rparr>, m))
      else (Some (a\<lparr>ka_elem := ka_elem a @ [k]\<rparr>), m))"

datatype cmd_parse_result = CMD_PARSE_OK | CMD_PARSE_ENOMEM | CMD_PARSE_ERROR | CMD_PARSE_REPAIR | CMD_PARSE_AGAIN

text \<open>
  \<open>struct cmd\<close>. The entries of \<open>frag_seq\<close> point to fragments of the command, which are named by
  their slots; \<open>reply\<close> is the address of a reply object, 0 for none.
\<close>

record cmd =
  cm_id :: nat
  cm_result :: cmd_parse_result
  cm_errstr :: "bytes option"
  cm_type :: cmd_type
  cm_cmd :: "bytes option"
  cm_clen :: nat
  cm_keys :: key_array
  cm_narg_start :: "nat option"
  cm_narg_end :: "nat option"
  cm_narg :: nat
  cm_quit :: bool
  cm_noforward :: bool
  cm_slot_num :: int
  cm_frag_seq :: "nat list option"
  cm_reply :: nat

text \<open>\<open>command_get\<close>, with the counter of command ids.\<close>

definition command_get :: "nat \<Rightarrow> allocator \<Rightarrow> cmd option \<times> nat \<times> allocator" where
  "command_get cmd_id m =
     (case alloc m of
        (False, m) \<Rightarrow> (None, cmd_id, m)
      | (True, m) \<Rightarrow>
          let cmd_id = (cmd_id + 1) mod 2 ^ 64 in
          (case key_create m of
             (None, m) \<Rightarrow> (None, cmd_id, m)
           | (Some keys, m) \<Rightarrow>
               (Some \<lparr>cm_id = cmd_id, cm_result = CMD_PARSE_OK, cm_errstr = None, cm_type = CMD_UNKNOWN, cm_cmd = None,
                  cm_clen = 0, cm_keys = keys, cm_narg_start = None, cm_narg_end = None, cm_narg = 0, cm_quit = False,
                  cm_noforward = False, cm_slot_num = -1, cm_frag_seq = None, cm_reply = 0\<rparr>, cmd_id, m)))"

section \<open>The scanner\<close>

datatype sw_state = SW_START | SW_NARG | SW_NARG_LF | SW_CMD_TYPE_LEN | SW_CMD_TYPE_LEN_LF | SW_CMD_TYPE | SW_CMD_TYPE_LF
  | SW_KEY_LEN | SW_KEY_LEN_LF | SW_KEY | SW_KEY_LF | SW_ARG1_LEN | SW_ARG1_LEN_LF | SW_ARG1 | SW_ARG1_LF
  | SW_ARG2_LEN | SW_ARG2_LEN_LF | SW_ARG2 | SW_ARG2_LF | SW_ARG3_LEN | SW_ARG3_LEN_LF | SW_ARG3 | SW_ARG3_LF
  | SW_ARGN_LEN | SW_ARGN_LEN_LF | SW_ARGN | SW_ARGN_LF | SW_SENTINEL

definition sw_states :: "sw_state list" where
  "sw_states = [SW_START, SW_NARG, SW_NARG_LF, SW_CMD_TYPE_LEN, SW_CMD_TYPE_LEN_LF, SW_CMD_TYPE, SW_CMD_TYPE_LF,
     SW_KEY_LEN, SW_KEY_LEN_LF, SW_KEY, SW_KEY_LF, SW_ARG1_LEN, SW_ARG1_LEN_LF, SW_ARG1, SW_ARG1_LF,
     SW_ARG2_LEN, SW_ARG2_LEN_LF, SW_ARG2, SW_ARG2_LF, SW_ARG3_LEN, SW_ARG3_LEN_LF, SW_ARG3, SW_ARG3_LF,
     SW_ARGN_LEN, SW_ARGN_LEN_LF, SW_ARGN, SW_ARGN_LF, SW_SENTINEL]"

text \<open>The local variables of the scanner, and the memory; \<open>rlen\<close> and \<open>rnarg\<close> have 32 bits.\<close>

record fsa =
  fs_state :: sw_state
  fs_token :: "nat option"
  fs_rlen :: nat
  fs_rnarg :: nat
  fs_mem :: allocator

text \<open>How a turn of the loop ends: with \<open>break\<close>, at the position \<open>p\<close> before it is incremented, or
  with a \<open>goto\<close>.\<close>

datatype turn = Break nat fsa cmd | Goto_done fsa cmd | Goto_error nat fsa cmd | Goto_oom fsa cmd

definition add_digit :: "nat \<Rightarrow> byte \<Rightarrow> nat" where
  "add_digit n ch = (n * 10 + digit_val ch) mod 2 ^ 32"

definition narg_turn :: "nat \<Rightarrow> byte \<Rightarrow> fsa \<Rightarrow> cmd \<Rightarrow> turn" where
  "narg_turn p ch f r =
     (if fs_token f = None then
        if ch \<noteq> CHR ''*'' then Goto_error p f r
        else Break p (f\<lparr>fs_token := Some p, fs_rnarg := 0, fs_state := SW_NARG\<rparr>) (r\<lparr>cm_narg_start := Some p\<rparr>)
      else if c_isdigit ch then Break p (f\<lparr>fs_rnarg := add_digit (fs_rnarg f) ch\<rparr>) r
      else if ch = CR then
        if fs_rnarg f = 0 then Goto_error p f r
        else Break p (f\<lparr>fs_token := None, fs_state := SW_NARG_LF\<rparr>) (r\<lparr>cm_narg := fs_rnarg f, cm_narg_end := Some p\<rparr>)
      else Goto_error p f r)"

text \<open>The states that expect a line feed and go to a fixed state.\<close>

definition lf_turn :: "sw_state \<Rightarrow> nat \<Rightarrow> byte \<Rightarrow> fsa \<Rightarrow> cmd \<Rightarrow> turn" where
  "lf_turn nxt p ch f r = (if ch = LF then Break p (f\<lparr>fs_state := nxt\<rparr>) r else Goto_error p f r)"

text \<open>The states that read a length; they differ in what they refuse at its end.\<close>

definition len_turn :: "bool \<Rightarrow> sw_state \<Rightarrow> nat \<Rightarrow> byte \<Rightarrow> fsa \<Rightarrow> cmd \<Rightarrow> turn" where
  "len_turn bad nxt p ch f r =
     (if fs_token f = None then
        if ch \<noteq> CHR ''$'' then Goto_error p f r else Break p (f\<lparr>fs_token := Some p, fs_rlen := 0\<rparr>) r
      else if c_isdigit ch then Break p (f\<lparr>fs_rlen := add_digit (fs_rlen f) ch\<rparr>) r
      else if ch = CR then
        if bad \<or> fs_rnarg f = 0 then Goto_error p f r
        else Break p (f\<lparr>fs_rnarg := fs_rnarg f - 1, fs_token := None, fs_state := nxt\<rparr>) r
      else Goto_error p f r)"

definition cmd_type_len_turn :: "nat \<Rightarrow> byte \<Rightarrow> fsa \<Rightarrow> cmd \<Rightarrow> turn" where
  "cmd_type_len_turn p ch f r = len_turn (fs_rlen f = 0) SW_CMD_TYPE_LEN_LF p ch f r"

definition key_len_turn :: "nat \<Rightarrow> byte \<Rightarrow> fsa \<Rightarrow> cmd \<Rightarrow> turn" where
  "key_len_turn p ch f r = len_turn False SW_KEY_LEN_LF p ch f r"

definition no_digits :: "nat \<Rightarrow> fsa \<Rightarrow> bool" where
  "no_digits p f \<longleftrightarrow> (case fs_token f of None \<Rightarrow> False | Some token \<Rightarrow> p - token \<le> 1)"

definition arg1_len_turn :: "nat \<Rightarrow> byte \<Rightarrow> fsa \<Rightarrow> cmd \<Rightarrow> turn" where
  "arg1_len_turn p ch f r = len_turn (no_digits p f) SW_ARG1_LEN_LF p ch f r"

definition arg2_len_turn :: "nat \<Rightarrow> byte \<Rightarrow> fsa \<Rightarrow> cmd \<Rightarrow> turn" where
  "arg2_len_turn p ch f r = len_turn (no_digits p f) SW_ARG2_LEN_LF p ch f r"

definition arg3_len_turn :: "nat \<Rightarrow> byte \<Rightarrow> fsa \<Rightarrow> cmd \<Rightarrow> turn" where
  "arg3_len_turn p ch f r = len_turn (no_digits p f) SW_ARG3_LEN_LF p ch f r"

definition argn_len_turn :: "nat \<Rightarrow> byte \<Rightarrow> fsa \<Rightarrow> cmd \<Rightarrow> turn" where
  "argn_len_turn p ch f r = len_turn (no_digits p f) SW_ARGN_LEN_LF p ch f r"

text \<open>The data of an argument: \<open>m\<close> is its end, where a carriage return must be.\<close>

definition data_end :: "bytes \<Rightarrow> nat \<Rightarrow> bool" where
  "data_end msg m \<longleftrightarrow> m < length msg \<and> msg ! m = CR"

definition start_of :: "nat \<Rightarrow> fsa \<Rightarrow> nat" where
  "start_of p f = (case fs_token f of None \<Rightarrow> p | Some token \<Rightarrow> token)"

definition cmd_type_turn :: "bytes \<Rightarrow> nat \<Rightarrow> fsa \<Rightarrow> cmd \<Rightarrow> turn" where
  "cmd_type_turn msg p f r =
     (let token = start_of p f; m = token + fs_rlen f in
      if \<not> data_end msg m then Goto_error p f r
      else
        let f = f\<lparr>fs_rlen := 0, fs_token := None\<rparr>; r = r\<lparr>cm_type := redis_parse_cmd_verb (drop token msg) (m - token)\<rparr> in
        if cm_type r = CMD_UNKNOWN then Goto_error m f r else Break m (f\<lparr>fs_state := SW_CMD_TYPE_LF\<rparr>) r)"

definition key_turn :: "bytes \<Rightarrow> nat \<Rightarrow> fsa \<Rightarrow> cmd \<Rightarrow> turn" where
  "key_turn msg p f r =
     (let token = start_of p f; m = token + fs_rlen f in
      if \<not> data_end msg m then Goto_error p f r
      else
        let f = f\<lparr>fs_rlen := 0, fs_token := None\<rparr> in
        (case key_push \<lparr>kp_start = token, kp_end = m, kp_remain_len = 0\<rparr> (cm_keys r) (fs_mem f) of
           (None, mem) \<Rightarrow> Goto_oom (f\<lparr>fs_mem := mem\<rparr>) r
         | (Some keys, mem) \<Rightarrow> Break m (f\<lparr>fs_mem := mem, fs_state := SW_KEY_LF\<rparr>) (r\<lparr>cm_keys := keys\<rparr>)))"

definition arg_turn :: "sw_state \<Rightarrow> bytes \<Rightarrow> nat \<Rightarrow> fsa \<Rightarrow> cmd \<Rightarrow> turn" where
  "arg_turn nxt msg p f r =
     (let m = p + fs_rlen f in
      if \<not> data_end msg m then Goto_error p f r else Break m (f\<lparr>fs_rlen := 0, fs_state := nxt\<rparr>) r)"

definition arg1_turn :: "bytes \<Rightarrow> nat \<Rightarrow> fsa \<Rightarrow> cmd \<Rightarrow> turn" where
  "arg1_turn = arg_turn SW_ARG1_LF"

definition arg3_turn :: "bytes \<Rightarrow> nat \<Rightarrow> fsa \<Rightarrow> cmd \<Rightarrow> turn" where
  "arg3_turn = arg_turn SW_ARG3_LF"

definition argn_turn :: "bytes \<Rightarrow> nat \<Rightarrow> fsa \<Rightarrow> cmd \<Rightarrow> turn" where
  "argn_turn = arg_turn SW_ARGN_LF"

text \<open>The second argument of the script commands is the number of keys, which must not be zero.\<close>

fun key_number :: "nat \<Rightarrow> bytes \<Rightarrow> nat option" where
  "key_number nkey [] = Some nkey"
| "key_number nkey (c # cs) = (if c_isdigit c then key_number (add_digit nkey c) cs else None)"

definition arg2_turn :: "bytes \<Rightarrow> nat \<Rightarrow> fsa \<Rightarrow> cmd \<Rightarrow> turn" where
  "arg2_turn msg p f r =
     (let token = start_of p f; m = p + fs_rlen f in
      if \<not> data_end msg m then Goto_error p f r
      else if redis_argeval (cm_type r) then
        let digits = take (m - token) (drop token msg); f = f\<lparr>fs_rlen := 0\<rparr> in
        if m - token < 1 \<or> key_number 0 digits \<in> {None, Some 0} then Goto_error m f r
        else Break m (f\<lparr>fs_token := None, fs_state := SW_ARG2_LF\<rparr>) r
      else Break m (f\<lparr>fs_rlen := 0, fs_state := SW_ARG2_LF\<rparr>) r)"

text \<open>The decisions at the line feed after an argument. \<open>rnarg\<close> is the number of arguments left.\<close>

definition cmd_type_lf_turn :: "nat \<Rightarrow> byte \<Rightarrow> fsa \<Rightarrow> cmd \<Rightarrow> turn" where
  "cmd_type_lf_turn p ch f r =
     (let ty = cm_type r in
      if ch \<noteq> LF then Goto_error p f r
      else if redis_argz ty then Goto_done f r
      else if redis_argeval ty \<or> redis_argsub ty then Break p (f\<lparr>fs_state := SW_ARG1_LEN\<rparr>) r
      else Break p (f\<lparr>fs_state := SW_KEY_LEN\<rparr>) r)"

definition key_lf_turn :: "nat \<Rightarrow> byte \<Rightarrow> fsa \<Rightarrow> cmd \<Rightarrow> turn" where
  "key_lf_turn p ch f r =
     (let ty = cm_type r; rnarg = fs_rnarg f; go = (\<lambda>nxt. Break p (f\<lparr>fs_state := nxt\<rparr>) r) in
      if ch \<noteq> LF then Goto_error p f r
      else if redis_arg0 ty then if rnarg \<noteq> 0 then Goto_error p f r else Goto_done f r
      else if redis_arg1 ty then if rnarg \<noteq> 1 then Goto_error p f r else go SW_ARG1_LEN
      else if redis_arg2 ty then if rnarg \<noteq> 2 then Goto_error p f r else go SW_ARG1_LEN
      else if redis_arg3 ty then if rnarg \<noteq> 3 then Goto_error p f r else go SW_ARG1_LEN
      else if redis_argn ty then if rnarg = 0 then Goto_done f r else go SW_ARG1_LEN
      else if redis_argx ty then if rnarg = 0 then Goto_done f r else go SW_KEY_LEN
      else if redis_argkvx ty then
        if rnarg = 0 then Goto_done f r else if cm_narg r mod 2 = 0 then Goto_error p f r else go SW_ARG1_LEN
      else if redis_argeval ty \<or> redis_argsub ty then if rnarg = 0 then Goto_done f r else go SW_ARGN_LEN
      else Goto_error p f r)"

definition arg1_lf_turn :: "nat \<Rightarrow> byte \<Rightarrow> fsa \<Rightarrow> cmd \<Rightarrow> turn" where
  "arg1_lf_turn p ch f r =
     (let ty = cm_type r; rnarg = fs_rnarg f; go = (\<lambda>nxt. Break p (f\<lparr>fs_state := nxt\<rparr>) r) in
      if ch \<noteq> LF then Goto_error p f r
      else if redis_arg1 ty then if rnarg \<noteq> 0 then Goto_error p f r else Goto_done f r
      else if redis_arg2 ty then if rnarg \<noteq> 1 then Goto_error p f r else go SW_ARG2_LEN
      else if redis_arg3 ty then if rnarg \<noteq> 2 then Goto_error p f r else go SW_ARG2_LEN
      else if redis_argn ty then if rnarg = 0 then Goto_done f r else go SW_ARGN_LEN
      else if redis_argeval ty then if rnarg < 2 then Goto_error p f r else go SW_ARG2_LEN
      else if redis_argsub ty then if rnarg < 1 then Goto_error p f r else go SW_KEY_LEN
      else if redis_argkvx ty then if rnarg = 0 then Goto_done f r else go SW_KEY_LEN
      else Goto_error p f r)"

definition arg2_lf_turn :: "nat \<Rightarrow> byte \<Rightarrow> fsa \<Rightarrow> cmd \<Rightarrow> turn" where
  "arg2_lf_turn p ch f r =
     (let ty = cm_type r; rnarg = fs_rnarg f; go = (\<lambda>nxt. Break p (f\<lparr>fs_state := nxt\<rparr>) r) in
      if ch \<noteq> LF then Goto_error p f r
      else if redis_arg2 ty then if rnarg \<noteq> 0 then Goto_error p f r else Goto_done f r
      else if redis_arg3 ty then if rnarg \<noteq> 1 then Goto_error p f r else go SW_ARG3_LEN
      else if redis_argn ty then if rnarg = 0 then Goto_done f r else go SW_ARGN_LEN
      else if redis_argeval ty then if rnarg < 1 then Goto_error p f r else go SW_KEY_LEN
      else Goto_error p f r)"

definition arg3_lf_turn :: "nat \<Rightarrow> byte \<Rightarrow> fsa \<Rightarrow> cmd \<Rightarrow> turn" where
  "arg3_lf_turn p ch f r =
     (let ty = cm_type r; rnarg = fs_rnarg f in
      if ch \<noteq> LF then Goto_error p f r
      else if redis_arg3 ty then if rnarg \<noteq> 0 then Goto_error p f r else Goto_done f r
      else if redis_argn ty then if rnarg = 0 then Goto_done f r else Break p (f\<lparr>fs_state := SW_ARGN_LEN\<rparr>) r
      else Goto_error p f r)"

definition argn_lf_turn :: "nat \<Rightarrow> byte \<Rightarrow> fsa \<Rightarrow> cmd \<Rightarrow> turn" where
  "argn_lf_turn p ch f r =
     (let ty = cm_type r in
      if ch \<noteq> LF then Goto_error p f r
      else if redis_argn ty \<or> redis_argeval ty \<or> redis_argsub ty then
        if fs_rnarg f = 0 then Goto_done f r else Break p (f\<lparr>fs_state := SW_ARGN_LEN\<rparr>) r
      else Goto_error p f r)"

definition parse_cmd_turn :: "bytes \<Rightarrow> nat \<Rightarrow> fsa \<Rightarrow> cmd \<Rightarrow> turn" where
  "parse_cmd_turn msg p f r =
     (let ch = msg ! p in
      case fs_state f of
        SW_START \<Rightarrow> narg_turn p ch f r
      | SW_NARG \<Rightarrow> narg_turn p ch f r
      | SW_NARG_LF \<Rightarrow> lf_turn SW_CMD_TYPE_LEN p ch f r
      | SW_CMD_TYPE_LEN \<Rightarrow> cmd_type_len_turn p ch f r
      | SW_CMD_TYPE_LEN_LF \<Rightarrow> lf_turn SW_CMD_TYPE p ch f r
      | SW_CMD_TYPE \<Rightarrow> cmd_type_turn msg p f r
      | SW_CMD_TYPE_LF \<Rightarrow> cmd_type_lf_turn p ch f r
      | SW_KEY_LEN \<Rightarrow> key_len_turn p ch f r
      | SW_KEY_LEN_LF \<Rightarrow> lf_turn SW_KEY p ch f r
      | SW_KEY \<Rightarrow> key_turn msg p f r
      | SW_KEY_LF \<Rightarrow> key_lf_turn p ch f r
      | SW_ARG1_LEN \<Rightarrow> arg1_len_turn p ch f r
      | SW_ARG1_LEN_LF \<Rightarrow> lf_turn SW_ARG1 p ch f r
      | SW_ARG1 \<Rightarrow> arg1_turn msg p f r
      | SW_ARG1_LF \<Rightarrow> arg1_lf_turn p ch f r
      | SW_ARG2_LEN \<Rightarrow> arg2_len_turn p ch f r
      | SW_ARG2_LEN_LF \<Rightarrow> lf_turn SW_ARG2 p ch f r
      | SW_ARG2 \<Rightarrow> arg2_turn msg p f r
      | SW_ARG2_LF \<Rightarrow> arg2_lf_turn p ch f r
      | SW_ARG3_LEN \<Rightarrow> arg3_len_turn p ch f r
      | SW_ARG3_LEN_LF \<Rightarrow> lf_turn SW_ARG3 p ch f r
      | SW_ARG3 \<Rightarrow> arg3_turn msg p f r
      | SW_ARG3_LF \<Rightarrow> arg3_lf_turn p ch f r
      | SW_ARGN_LEN \<Rightarrow> argn_len_turn p ch f r
      | SW_ARGN_LEN_LF \<Rightarrow> lf_turn SW_ARGN p ch f r
      | SW_ARGN \<Rightarrow> argn_turn msg p f r
      | SW_ARGN_LF \<Rightarrow> argn_lf_turn p ch f r
      | SW_SENTINEL \<Rightarrow> Break p f r)"

lemmas turn_defs = narg_turn_def lf_turn_def cmd_type_len_turn_def cmd_type_turn_def cmd_type_lf_turn_def key_len_turn_def
  key_turn_def key_lf_turn_def arg1_len_turn_def arg1_turn_def arg1_lf_turn_def arg2_len_turn_def arg2_turn_def arg2_lf_turn_def
  arg3_len_turn_def arg3_turn_def arg3_lf_turn_def argn_len_turn_def argn_turn_def argn_lf_turn_def len_turn_def arg_turn_def

partial_function (option) parse_cmd_loop :: "bytes \<Rightarrow> nat \<Rightarrow> fsa \<Rightarrow> cmd \<Rightarrow> turn option" where
  "parse_cmd_loop msg p f r =
     (if p < length msg then
        case parse_cmd_turn msg p f r of
          Break p f r \<Rightarrow> parse_cmd_loop msg (p + 1) f r
        | t \<Rightarrow> Some t
      else Some (Break p f r))"

declare parse_cmd_loop.simps [code]

definition error_text :: "nat \<Rightarrow> fsa \<Rightarrow> cmd \<Rightarrow> bytes" where
  "error_text p f r = ''Parse command error. Cmd type: '' @ dec_nat (cm_type r) @
     '', state: '' @ dec_nat (length (takeWhile (\<lambda>s. s \<noteq> fs_state f) sw_states)) @ '', break position: '' @ dec_int (int32 p) @ ''.''"

text \<open>The labels \<open>done\<close>, \<open>error\<close> and \<open>oom\<close>. When the input ends in the middle of a command, no label is
  reached and the result stays as it was.\<close>

fun parse_end :: "turn \<Rightarrow> cmd \<times> allocator" where
  "parse_end (Break p f r) = (r, fs_mem f)"
| "parse_end (Goto_done f r) = (r\<lparr>cm_result := CMD_PARSE_OK\<rparr>, fs_mem f)"
| "parse_end (Goto_oom f r) = (r\<lparr>cm_result := CMD_PARSE_ENOMEM\<rparr>, fs_mem f)"
| "parse_end (Goto_error p f r) =
     (case (if cm_errstr r = None then alloc (fs_mem f) else (True, fs_mem f)) of
        (False, m) \<Rightarrow> (r\<lparr>cm_result := CMD_PARSE_ENOMEM\<rparr>, m)
      | (True, m) \<Rightarrow> (r\<lparr>cm_result := CMD_PARSE_ERROR, cm_errstr := Some (take 99 (error_text p f r))\<rparr>, m))"

definition redis_parse_cmd :: "cmd \<Rightarrow> allocator \<Rightarrow> (cmd \<times> allocator) option" where
  "redis_parse_cmd r m =
     (case cm_cmd r of
        None \<Rightarrow> None
      | Some cmd \<Rightarrow>
          if cm_clen r > length cmd then None
          else map_option parse_end (parse_cmd_loop (take (cm_clen r) cmd) 0
            \<lparr>fs_state = SW_START, fs_token = None, fs_rlen = 0, fs_rnarg = 0, fs_mem = m\<rparr> r))"

section \<open>The scanner ends\<close>

text \<open>Only the states that read a number keep a token; so the position never goes back.\<close>

definition fsa_ok :: "fsa \<Rightarrow> bool" where
  "fsa_ok f \<longleftrightarrow> fs_token f = None \<or> fs_state f \<in> {SW_START, SW_NARG, SW_CMD_TYPE_LEN, SW_KEY_LEN, SW_ARG1_LEN, SW_ARG2_LEN, SW_ARG3_LEN, SW_ARGN_LEN}"

lemma parse_cmd_turn_forward:
  "parse_cmd_turn msg p f r = Break q g s \<Longrightarrow> fsa_ok f \<Longrightarrow> p \<le> q \<and> fsa_ok g"
  by (auto simp: parse_cmd_turn_def turn_defs fsa_ok_def start_of_def Let_def split: sw_state.splits if_splits option.splits prod.splits)

lemma parse_cmd_loop_total: "fsa_ok f \<Longrightarrow> \<exists>t. parse_cmd_loop msg p f r = Some t"
proof (induction "length msg - p" arbitrary: p f r rule: less_induct)
  case less
  show ?case
  proof (cases "p < length msg")
    case True
    show ?thesis
    proof (cases "parse_cmd_turn msg p f r")
      case (Break q g s)
      note fwd = parse_cmd_turn_forward [OF Break less.prems]
      then have "length msg - (q + 1) < length msg - p" using True by linarith
      from less.hyps [OF this] fwd show ?thesis using True Break by (subst parse_cmd_loop.simps) simp
    qed (use True in \<open>subst parse_cmd_loop.simps, simp\<close>)+
  qed (subst parse_cmd_loop.simps, simp)
qed

section \<open>Every key lies inside the command\<close>

definition key_ok :: "bytes \<Rightarrow> keypos \<Rightarrow> bool" where
  "key_ok msg k \<longleftrightarrow> kp_start k \<le> kp_end k \<and> data_end msg (kp_end k)"

fun turn_cmd :: "turn \<Rightarrow> cmd" where
  "turn_cmd (Break p f r) = r"
| "turn_cmd (Goto_done f r) = r"
| "turn_cmd (Goto_error p f r) = r"
| "turn_cmd (Goto_oom f r) = r"

definition keys_grow :: "bytes \<Rightarrow> cmd \<Rightarrow> cmd \<Rightarrow> bool" where
  "keys_grow msg r s \<longleftrightarrow> (\<exists>ks. ka_elem (cm_keys s) = ka_elem (cm_keys r) @ ks \<and> list_all (key_ok msg) ks) \<and>
     cm_result s = cm_result r \<and> cm_clen s = cm_clen r \<and> cm_cmd s = cm_cmd r"

lemma keys_grow_refl [simp]: "keys_grow msg r r"
  by (auto simp: keys_grow_def)

lemma keys_grow_trans: "keys_grow msg r s \<Longrightarrow> keys_grow msg s t \<Longrightarrow> keys_grow msg r t"
  by (fastforce simp: keys_grow_def)

lemma keys_grow_same: "cm_keys s = cm_keys r \<Longrightarrow> cm_result s = cm_result r \<Longrightarrow> cm_clen s = cm_clen r \<Longrightarrow> cm_cmd s = cm_cmd r \<Longrightarrow> keys_grow msg r s"
  by (auto simp: keys_grow_def)

lemma key_push_elem: "key_push k a m = (Some b, m') \<Longrightarrow> ka_elem b = ka_elem a @ [k]"
  by (auto simp: key_push_def split: if_splits prod.splits bool.splits)

lemma key_turn_grows: "keys_grow msg r (turn_cmd (key_turn msg p f r))"
  by (auto simp: key_turn_def Let_def keys_grow_def key_ok_def dest: key_push_elem split: prod.splits option.splits)

lemma parse_cmd_turn_grows: "keys_grow msg r (turn_cmd (parse_cmd_turn msg p f r))"
proof (cases "fs_state f")
  case SW_KEY
  then show ?thesis by (simp add: parse_cmd_turn_def key_turn_grows)
qed (simp_all add: parse_cmd_turn_def turn_defs Let_def keys_grow_same)

lemma parse_cmd_loop_grows: "parse_cmd_loop msg p f r = Some t \<Longrightarrow> keys_grow msg r (turn_cmd t)"
proof (erule parse_cmd_loop.raw_induct [where P = "\<lambda>msg p f r t. keys_grow msg r (turn_cmd t)", rotated])
  fix loop msg p f r t
  assume IH: "\<And>msg p f r t. loop msg p f r = Some t \<Longrightarrow> keys_grow msg r (turn_cmd t)"
    and eq: "(if p < length msg then case parse_cmd_turn msg p f r of Break p f r \<Rightarrow> loop msg (p + 1) f r | t \<Rightarrow> Some t
       else Some (Break p f r)) = Some t"
  note grows = parse_cmd_turn_grows [of msg r p f]
  show "keys_grow msg r (turn_cmd t)"
  proof (cases "p < length msg \<and> (\<exists>q g s. parse_cmd_turn msg p f r = Break q g s)")
    case True
    then show ?thesis using eq IH grows by (auto intro: keys_grow_trans)
  next
    case False
    then have "t = parse_cmd_turn msg p f r \<or> t = Break p f r"
      using eq by (cases "parse_cmd_turn msg p f r") (auto split: if_splits)
    then show ?thesis using grows by auto
  qed
qed

lemma parse_end_frame:
  "fst (parse_end t) = s \<Longrightarrow> cm_keys s = cm_keys (turn_cmd t) \<and>
     (cm_result s = cm_result (turn_cmd t) \<or> cm_result s \<in> {CMD_PARSE_OK, CMD_PARSE_ENOMEM, CMD_PARSE_ERROR})"
  by (cases t) (auto split: if_splits prod.splits bool.splits)

text \<open>C33: The scanner of commands is total and stays inside the command. Whatever the bytes and
  whichever allocations fail, the scan ends, its verdict is one of the three that the code sets
  or the one it began with, and every key that it reports is a range of the command that a
  carriage return follows.\<close>

theorem redis_parse_cmd_total:
  assumes "cm_cmd r = Some cmd" "cm_clen r \<le> length cmd"
  shows "\<exists>r' m' ks. redis_parse_cmd r m = Some (r', m') \<and> ka_elem (cm_keys r') = ka_elem (cm_keys r) @ ks \<and>
    (\<forall>k \<in> set ks. kp_start k \<le> kp_end k \<and> kp_end k < cm_clen r \<and> cmd ! kp_end k = CR) \<and>
    (cm_result r' = cm_result r \<or> cm_result r' \<in> {CMD_PARSE_OK, CMD_PARSE_ENOMEM, CMD_PARSE_ERROR})"
proof -
  let ?f = "\<lparr>fs_state = SW_START, fs_token = None, fs_rlen = 0, fs_rnarg = 0, fs_mem = m\<rparr>" and ?msg = "take (cm_clen r) cmd"
  obtain t where t: "parse_cmd_loop ?msg 0 ?f r = Some t" using parse_cmd_loop_total [of ?f ?msg 0 r] by (auto simp: fsa_ok_def)
  obtain r' m' where e: "parse_end t = (r', m')" by fastforce
  have "redis_parse_cmd r m = Some (r', m')" using assms t e by (simp add: redis_parse_cmd_def)
  moreover obtain ks where "ka_elem (cm_keys r') = ka_elem (cm_keys r) @ ks" "list_all (key_ok ?msg) ks" "cm_result (turn_cmd t) = cm_result r"
    using parse_cmd_loop_grows [OF t] parse_end_frame [of t r'] e by (auto simp: keys_grow_def)
  moreover have "cm_result r' = cm_result (turn_cmd t) \<or> cm_result r' \<in> {CMD_PARSE_OK, CMD_PARSE_ENOMEM, CMD_PARSE_ERROR}"
    using parse_end_frame [of t r'] e by simp
  ultimately show ?thesis by (fastforce simp: list_all_iff key_ok_def data_end_def)
qed

definition demo_cmd :: "bytes \<Rightarrow> cmd" where
  "demo_cmd text = (the (fst (command_get 0 [])))\<lparr>cm_cmd := Some text, cm_clen := length text\<rparr>"

lemma demo_cmd_simps [simp]:
  "cm_cmd (demo_cmd text) = Some text" "cm_clen (demo_cmd text) = length text" "cm_result (demo_cmd text) = CMD_PARSE_OK"
  "ka_elem (cm_keys (demo_cmd text)) = []" "cm_errstr (demo_cmd text) = None"
  by (simp_all add: demo_cmd_def command_get_def key_create_def Let_def)

theorem redis_parse_cmd_total_witness:
  "\<exists>r' m' ks. redis_parse_cmd (demo_cmd ''*2'') [False] = Some (r', m') \<and> ka_elem (cm_keys r') = ks \<and>
    (\<forall>k \<in> set ks. kp_start k \<le> kp_end k \<and> kp_end k < 2) \<and> cm_result r' \<in> {CMD_PARSE_OK, CMD_PARSE_ENOMEM, CMD_PARSE_ERROR}"
  using redis_parse_cmd_total [of "demo_cmd ''*2''" "''*2''" "[False]"] by (auto simp: numeral_2_eq_2)

end
