(* ===== verification/CommandKeys.thy ===== *)
theory CommandKeys
  imports Command RedisFormat
begin

text \<open>
  The scanner of \<open>command.c\<close> on commands that the formatters of \<open>hiredis.c\<close> write: which arguments it
  takes for keys, and which commands it refuses.
\<close>

section \<open>Positions of the arguments\<close>

text \<open>\<open>spans p args\<close> are the positions of the data of the arguments, when their wire form begins at
  offset \<open>p\<close>.\<close>

definition span_at :: "nat \<Rightarrow> bytes \<Rightarrow> keypos" where
  "span_at p a = (let s = p + length (dec_nat (length a)) + 3 in \<lparr>kp_start = s, kp_end = s + length a, kp_remain_len = 0\<rparr>)"

fun spans :: "nat \<Rightarrow> bytes list \<Rightarrow> keypos list" where
  "spans p [] = []"
| "spans p (a # as) = span_at p a # spans (p + length (bulk_bytes a)) as"

definition arg_spans :: "bytes list \<Rightarrow> keypos list" where
  "arg_spans args = spans (length (dec_nat (length args)) + 3) args"

text \<open>Which arguments are keys, as indices into the arguments with the name at 0; \<open>None\<close> when the
  command is refused.\<close>

definition key_indices :: "bytes list \<Rightarrow> nat list option" where
  "key_indices args =
     (let n = length args; ty = redis_parse_cmd_verb (args ! 0) (length (args ! 0)) in
      if n = 0 \<or> args ! 0 = [] \<or> ty = CMD_UNKNOWN then None
      else if n = 1 \<or> redis_argz ty then Some []
      else if redis_arg0 ty then if n = 2 then Some [1] else None
      else if redis_arg1 ty then if n = 3 then Some [1] else None
      else if redis_arg2 ty then if n = 4 then Some [1] else None
      else if redis_arg3 ty then if n = 5 then Some [1] else None
      else if redis_argn ty then Some [1]
      else if redis_argx ty then Some [1..<n]
      else if redis_argkvx ty then if n = 2 \<or> odd n then Some (filter odd [1..<n]) else None
      else if redis_argeval ty then
        if n \<ge> 4 \<and> args ! 2 \<noteq> [] \<and> key_number 0 (args ! 2) \<notin> {None, Some 0} then Some [3] else None
      else if redis_argsub ty then if n \<ge> 3 then Some [2] else None
      else None)"

section \<open>Reading one argument\<close>

lemma nth_drop_append: "drop p msg = x # s \<Longrightarrow> p < length msg \<and> msg ! p = x \<and> drop (Suc p) msg = s"
  by (metis Cons_nth_drop_Suc drop_eq_Nil linorder_not_le list.distinct(1) list.inject)

lemma drop_append_at: "drop p msg = a @ s \<Longrightarrow> drop (p + length a) msg = s"
  by (metis append_eq_conv_conj drop_drop add.commute)

lemma loop_break:
  "\<lbrakk>p < length msg; parse_cmd_turn msg p f r = Break q g s\<rbrakk> \<Longrightarrow> parse_cmd_loop msg p f r = parse_cmd_loop msg (Suc q) g s"
  by (subst parse_cmd_loop.simps) simp

lemma loop_stop:
  "\<lbrakk>p < length msg; parse_cmd_turn msg p f r = t; \<And>q g s. t \<noteq> Break q g s\<rbrakk> \<Longrightarrow> parse_cmd_loop msg p f r = Some t"
  by (subst parse_cmd_loop.simps) (auto split: turn.splits)

lemma loop_end: "length msg \<le> p \<Longrightarrow> parse_cmd_loop msg p f r = Some (Break p f r)"
  by (subst parse_cmd_loop.simps) simp

text \<open>The four states of an argument, named by the first.\<close>

definition len_lf :: "sw_state \<Rightarrow> sw_state" where
  "len_lf st =
     (if st = SW_CMD_TYPE_LEN then SW_CMD_TYPE_LEN_LF
      else if st = SW_KEY_LEN then SW_KEY_LEN_LF
      else if st = SW_ARG1_LEN then SW_ARG1_LEN_LF
      else if st = SW_ARG2_LEN then SW_ARG2_LEN_LF
      else if st = SW_ARG3_LEN then SW_ARG3_LEN_LF
      else SW_ARGN_LEN_LF)"

definition data_state :: "sw_state \<Rightarrow> sw_state" where
  "data_state st =
     (if st = SW_CMD_TYPE_LEN then SW_CMD_TYPE
      else if st = SW_KEY_LEN then SW_KEY
      else if st = SW_ARG1_LEN then SW_ARG1
      else if st = SW_ARG2_LEN then SW_ARG2
      else if st = SW_ARG3_LEN then SW_ARG3
      else SW_ARGN)"

definition data_lf :: "sw_state \<Rightarrow> sw_state" where
  "data_lf st =
     (if st = SW_CMD_TYPE_LEN then SW_CMD_TYPE_LF
      else if st = SW_KEY_LEN then SW_KEY_LF
      else if st = SW_ARG1_LEN then SW_ARG1_LF
      else if st = SW_ARG2_LEN then SW_ARG2_LF
      else if st = SW_ARG3_LEN then SW_ARG3_LF
      else SW_ARGN_LF)"

lemma state_simps [simp]:
  "len_lf SW_CMD_TYPE_LEN = SW_CMD_TYPE_LEN_LF" "len_lf SW_KEY_LEN = SW_KEY_LEN_LF" "len_lf SW_ARG1_LEN = SW_ARG1_LEN_LF"
  "len_lf SW_ARG2_LEN = SW_ARG2_LEN_LF" "len_lf SW_ARG3_LEN = SW_ARG3_LEN_LF" "len_lf SW_ARGN_LEN = SW_ARGN_LEN_LF"
  "data_state SW_CMD_TYPE_LEN = SW_CMD_TYPE" "data_state SW_KEY_LEN = SW_KEY" "data_state SW_ARG1_LEN = SW_ARG1"
  "data_state SW_ARG2_LEN = SW_ARG2" "data_state SW_ARG3_LEN = SW_ARG3" "data_state SW_ARGN_LEN = SW_ARGN"
  "data_lf SW_CMD_TYPE_LEN = SW_CMD_TYPE_LF" "data_lf SW_KEY_LEN = SW_KEY_LF" "data_lf SW_ARG1_LEN = SW_ARG1_LF"
  "data_lf SW_ARG2_LEN = SW_ARG2_LF" "data_lf SW_ARG3_LEN = SW_ARG3_LF" "data_lf SW_ARGN_LEN = SW_ARGN_LF"
  by (simp_all add: len_lf_def data_state_def data_lf_def)

definition len_states :: "sw_state set" where
  "len_states = {SW_CMD_TYPE_LEN, SW_KEY_LEN, SW_ARG1_LEN, SW_ARG2_LEN, SW_ARG3_LEN, SW_ARGN_LEN}"

definition len_bad :: "sw_state \<Rightarrow> nat \<Rightarrow> fsa \<Rightarrow> bool" where
  "len_bad st p f \<longleftrightarrow> (if st = SW_CMD_TYPE_LEN then fs_rlen f = 0 else st \<noteq> SW_KEY_LEN \<and> no_digits p f)"

lemma turn_len:
  "fs_state f \<in> len_states \<Longrightarrow> parse_cmd_turn msg p f r = len_turn (len_bad (fs_state f) p f) (len_lf (fs_state f)) p (msg ! p) f r"
  by (auto simp: len_states_def parse_cmd_turn_def len_bad_def cmd_type_len_turn_def key_len_turn_def
      arg1_len_turn_def arg2_len_turn_def arg3_len_turn_def argn_len_turn_def)

lemma turn_len_lf:
  "st \<in> len_states \<Longrightarrow> fs_state f = len_lf st \<Longrightarrow> parse_cmd_turn msg p f r = lf_turn (data_state st) p (msg ! p) f r"
  by (auto simp: len_states_def parse_cmd_turn_def)

lemma fold_digits:
  "(\<And>c. c \<in> set ds \<Longrightarrow> c_isdigit c) \<Longrightarrow> foldl add_digit (n mod 2 ^ 32) ds = digits_val n ds mod 2 ^ 32"
proof (induction ds arbitrary: n)
  case (Cons c ds)
  have "add_digit (n mod 2 ^ 32) c = (10 * n + digit_val c) mod 2 ^ 32"
    unfolding add_digit_def by (metis mod_add_left_eq mod_mult_left_eq mult.commute)
  with Cons show ?case by simp
qed simp

lemma fold_dec_nat: "n < 2 ^ 32 \<Longrightarrow> foldl add_digit 0 (dec_nat n) = n"
  using fold_digits [of "dec_nat n" 0] by (simp add: set_dec_nat)

lemma len_digits:
  "\<lbrakk>fs_state f \<in> len_states; fs_token f = Some t; drop p msg = ds @ s; \<And>c. c \<in> set ds \<Longrightarrow> c_isdigit c\<rbrakk> \<Longrightarrow>
   parse_cmd_loop msg p f r = parse_cmd_loop msg (p + length ds) (f\<lparr>fs_rlen := foldl add_digit (fs_rlen f) ds\<rparr>) r"
proof (induction ds arbitrary: p f)
  case (Cons c ds)
  note at = nth_drop_append [OF Cons.prems(3) [unfolded append_Cons]]
  have "parse_cmd_turn msg p f r = Break p (f\<lparr>fs_rlen := add_digit (fs_rlen f) c\<rparr>) r"
    using at Cons.prems by (simp add: turn_len len_turn_def)
  from loop_break [OF _ this] at Cons.IH [of "f\<lparr>fs_rlen := add_digit (fs_rlen f) c\<rparr>" "Suc p"] Cons.prems show ?case by simp
qed simp

lemma read_len:
  assumes "fs_state f \<in> len_states" "fs_token f = None" "drop p msg = CHR ''$'' # dec_nat k @ CRLF @ s"
    and "k < 2 ^ 32" "0 < fs_rnarg f" "fs_state f = SW_CMD_TYPE_LEN \<longrightarrow> 0 < k"
  shows "parse_cmd_loop msg p f r = parse_cmd_loop msg (p + length (dec_nat k) + 3)
    (f\<lparr>fs_rlen := k, fs_rnarg := fs_rnarg f - 1, fs_state := data_state (fs_state f)\<rparr>) r"
proof -
  note at1 = nth_drop_append [OF assms(3)]
  let ?f1 = "f\<lparr>fs_token := Some p, fs_rlen := 0\<rparr>" and ?q = "Suc p + length (dec_nat k)"
  have "parse_cmd_turn msg p f r = Break p ?f1 r" using at1 assms(1,2) by (simp add: turn_len len_turn_def)
  from loop_break [OF _ this] at1 have 1: "parse_cmd_loop msg p f r = parse_cmd_loop msg (Suc p) ?f1 r" by simp
  have 2: "parse_cmd_loop msg (Suc p) ?f1 r = parse_cmd_loop msg ?q (?f1\<lparr>fs_rlen := k\<rparr>) r"
    using len_digits [of ?f1 p "Suc p" msg "dec_nat k" "CRLF @ s" r] at1 assms(1,4) by (simp add: fold_dec_nat set_dec_nat)
  have "drop ?q msg = CR # LF # s" using drop_append_at at1 by fastforce
  note at2 = nth_drop_append [OF this]
  note at3 = nth_drop_append [OF conjunct2 [OF conjunct2 [OF at2]]]
  let ?f2 = "f\<lparr>fs_rlen := k, fs_rnarg := fs_rnarg f - 1, fs_state := len_lf (fs_state f)\<rparr>"
  have "\<not> len_bad (fs_state f) ?q (?f1\<lparr>fs_rlen := k\<rparr>)" using assms(6) by (auto simp: len_bad_def no_digits_def)
  then have "parse_cmd_turn msg ?q (?f1\<lparr>fs_rlen := k\<rparr>) r = Break ?q ?f2 r"
    using at2 assms(1,2,5) by (simp add: turn_len len_turn_def)
  from loop_break [OF _ this] at2 have 3: "parse_cmd_loop msg ?q (?f1\<lparr>fs_rlen := k\<rparr>) r = parse_cmd_loop msg (Suc ?q) ?f2 r" by simp
  have "parse_cmd_turn msg (Suc ?q) ?f2 r = Break (Suc ?q) (?f2\<lparr>fs_state := data_state (fs_state f)\<rparr>) r"
    using at3 turn_len_lf [OF assms(1), of ?f2 msg "Suc ?q" r] by (simp add: lf_turn_def)
  from loop_break [OF _ this] at3 1 2 3 show ?thesis by (simp add: numeral_3_eq_3)
qed

text \<open>What an argument does to the command, by the state it is read in, and when it is refused.\<close>

definition add_key :: "keypos \<Rightarrow> cmd \<Rightarrow> cmd" where
  "add_key k r = r\<lparr>cm_keys := the (fst (key_push k (cm_keys r) []))\<rparr>"

lemma key_push_granted: "key_push k a [] = (Some (the (fst (key_push k a []))), [])"
  by (simp add: key_push_def)

lemma add_key_fields [simp]:
  "ka_elem (cm_keys (add_key k r)) = ka_elem (cm_keys r) @ [k]" "cm_type (add_key k r) = cm_type r" "cm_narg (add_key k r) = cm_narg r"
  by (simp_all add: add_key_def key_push_def)

definition verb_type :: "bytes \<Rightarrow> cmd_type" where
  "verb_type a = redis_parse_cmd_verb a (length a)"

definition effect :: "sw_state \<Rightarrow> nat \<Rightarrow> bytes \<Rightarrow> cmd \<Rightarrow> cmd" where
  "effect st p a r = (if st = SW_KEY_LEN then add_key (span_at p a) r
     else if st = SW_CMD_TYPE_LEN then r\<lparr>cm_type := verb_type a\<rparr> else r)"

definition item_ok :: "sw_state \<Rightarrow> bytes \<Rightarrow> cmd \<Rightarrow> bool" where
  "item_ok st a r \<longleftrightarrow> (st = SW_CMD_TYPE_LEN \<longrightarrow> verb_type a \<noteq> CMD_UNKNOWN) \<and>
     (st = SW_ARG2_LEN \<and> redis_argeval (cm_type r) \<longrightarrow> a \<noteq> [] \<and> key_number 0 a \<notin> {None, Some 0})"

lemma strncaseeq_append: "n \<le> length a \<Longrightarrow> strncaseeq n (a @ b) c = strncaseeq n a c"
proof (induction n a c rule: strncaseeq.induct)
  case (5 n x a y c)
  then show ?case by simp
qed auto

lemma verb_type_append: "redis_parse_cmd_verb (a @ s) (length a) = verb_type a"
proof -
  have "verb_in (a @ s) n tab = verb_in a n tab" if "length a = n" for n tab
    using that by (simp add: verb_in_def strncaseeq_append)
  then show ?thesis by (simp add: verb_type_def redis_parse_cmd_verb_def)
qed

text \<open>The arguments that are left, and the variables while they are read.\<close>

definition ctx :: "bytes \<Rightarrow> nat \<Rightarrow> fsa \<Rightarrow> bytes list \<Rightarrow> bool" where
  "ctx msg p f as \<longleftrightarrow> fs_token f = None \<and> fs_mem f = [] \<and> fs_rnarg f = length as \<and>
     drop p msg = concat (map bulk_bytes as) \<and> (\<forall>a \<in> set as. length a < 2 ^ 32)"

lemma turn_data:
  assumes "st \<in> len_states" "fs_state f = data_state st" "fs_token f = None" "fs_mem f = []" "drop p msg = a @ CR # s" "fs_rlen f = length a"
  shows "parse_cmd_turn msg p f r =
    (if item_ok st a r then Break (p + length a) (f\<lparr>fs_rlen := 0, fs_state := data_lf st\<rparr>)
       (if st = SW_KEY_LEN then add_key \<lparr>kp_start = p, kp_end = p + length a, kp_remain_len = 0\<rparr> r else effect st p a r)
     else Goto_error (p + length a) (f\<lparr>fs_rlen := 0\<rparr>) (effect st p a r))"
proof -
  note at = nth_drop_append [OF drop_append_at [OF assms(5)]]
  have d: "data_end msg (p + length a)" using at by (simp add: data_end_def)
  have v: "redis_parse_cmd_verb (drop p msg) (length a) = verb_type a" by (simp add: assms(5) verb_type_append)
  have t: "take (length a) (drop p msg) = a" by (simp add: assms(5))
  have f: "f\<lparr>fs_token := None\<rparr> = f" "f\<lparr>fs_mem := []\<rparr> = f" using assms(3,4) by simp_all
  show ?thesis
  proof (cases "st = SW_KEY_LEN")
    case True
    let ?k = "\<lparr>kp_start = p, kp_end = p + length a, kp_remain_len = 0\<rparr>"
    obtain b where b: "key_push ?k (cm_keys r) [] = (Some b, [])" using key_push_granted by blast
    show ?thesis using assms True d b
      by (cases f) (simp add: parse_cmd_turn_def key_turn_def start_of_def item_ok_def add_key_def Let_def)
  next
    case False
    then consider "st = SW_CMD_TYPE_LEN" | "st = SW_ARG2_LEN" | "st \<in> {SW_ARG1_LEN, SW_ARG3_LEN, SW_ARGN_LEN}"
      using assms(1) by (auto simp: len_states_def)
    then show ?thesis
    proof cases
      case 1
      then show ?thesis using assms d v
        by (cases f) (simp add: parse_cmd_turn_def cmd_type_turn_def start_of_def item_ok_def effect_def Let_def)
    next
      case 2
      then show ?thesis using assms d t
        by (cases f; cases a) (simp_all add: parse_cmd_turn_def arg2_turn_def start_of_def item_ok_def effect_def Let_def)
    next
      case 3
      then show ?thesis using assms d
        by (cases f) (auto simp: parse_cmd_turn_def arg1_turn_def arg3_turn_def argn_turn_def arg_turn_def item_ok_def effect_def Let_def)
    qed
  qed
qed

lemma read_item:
  assumes "ctx msg p f (a # as)" "fs_state f \<in> len_states" "fs_state f = SW_CMD_TYPE_LEN \<longrightarrow> a \<noteq> []"
  shows "\<exists>q g. Suc q = p + length (bulk_bytes a) \<and> drop q msg = LF # concat (map bulk_bytes as) \<and>
    g = f\<lparr>fs_rnarg := length as, fs_rlen := 0, fs_state := data_lf (fs_state f)\<rparr> \<and>
    parse_cmd_loop msg p f r =
      (if item_ok (fs_state f) a r then parse_cmd_loop msg q g (effect (fs_state f) p a r)
       else Some (Goto_error (q - 1) (g\<lparr>fs_state := data_state (fs_state f)\<rparr>) (effect (fs_state f) p a r)))"
proof -
  let ?n = "length (dec_nat (length a)) + 3" and ?s = "concat (map bulk_bytes as)" and ?st = "fs_state f"
  let ?g = "f\<lparr>fs_rlen := length a, fs_rnarg := length as, fs_state := data_state ?st\<rparr>"
  have d: "drop p msg = CHR ''$'' # dec_nat (length a) @ CRLF @ a @ CRLF @ ?s" using assms(1) by (simp add: ctx_def bulk_bytes_def)
  have "parse_cmd_loop msg p f r = parse_cmd_loop msg (p + length (dec_nat (length a)) + 3)
      (f\<lparr>fs_rlen := length a, fs_rnarg := fs_rnarg f - 1, fs_state := data_state ?st\<rparr>) r"
    by (rule read_len [OF assms(2) _ d]) (use assms in \<open>auto simp: ctx_def\<close>)
  then have 1: "parse_cmd_loop msg p f r = parse_cmd_loop msg (p + ?n) ?g r" using assms(1) by (simp add: ctx_def add.assoc)
  have "drop p msg = (CHR ''$'' # dec_nat (length a) @ CRLF) @ a @ CR # LF # ?s" using d by simp
  from drop_append_at [OF this] have 2: "drop (p + ?n) msg = a @ CR # LF # ?s" by (simp add: numeral_3_eq_3)
  have q: "drop (p + ?n + length a) msg = CR # LF # ?s" using drop_append_at [OF 2] .
  note at = nth_drop_append [OF q]
  have turn: "parse_cmd_turn msg (p + ?n) ?g r =
     (if item_ok ?st a r then Break (p + ?n + length a) (?g\<lparr>fs_rlen := 0, fs_state := data_lf ?st\<rparr>)
        (if ?st = SW_KEY_LEN then add_key \<lparr>kp_start = p + ?n, kp_end = p + ?n + length a, kp_remain_len = 0\<rparr> r else effect ?st (p + ?n) a r)
      else Goto_error (p + ?n + length a) (?g\<lparr>fs_rlen := 0\<rparr>) (effect ?st (p + ?n) a r))"
    by (rule turn_data [OF assms(2) _ _ _ 2]) (use assms(1) in \<open>simp_all add: ctx_def\<close>)
  have lt: "p + ?n < length msg" using 2 by (metis append_is_Nil_conv drop_eq_Nil linorder_not_less list.distinct(1))
  have span: "span_at p a = \<lparr>kp_start = p + ?n, kp_end = p + ?n + length a, kp_remain_len = 0\<rparr>" by (simp add: span_at_def Let_def)
  have eff: "effect ?st (p + ?n) a r = effect ?st p a r" if "?st \<noteq> SW_KEY_LEN" using that by (simp add: effect_def)
  have "length (bulk_bytes a) = ?n + length a + 2" by (simp add: bulk_bytes_def)
  moreover have "drop (Suc (p + ?n + length a)) msg = LF # ?s" using at by blast
  moreover have "parse_cmd_loop msg (p + ?n) ?g r =
      (if item_ok ?st a r then parse_cmd_loop msg (Suc (p + ?n + length a)) (?g\<lparr>fs_rlen := 0, fs_state := data_lf ?st\<rparr>) (effect ?st p a r)
       else Some (Goto_error (p + ?n + length a) (?g\<lparr>fs_rlen := 0\<rparr>) (effect ?st p a r)))"
  proof (cases "item_ok ?st a r")
    case True
    have "effect ?st p a r = (if ?st = SW_KEY_LEN then add_key \<lparr>kp_start = p + ?n, kp_end = p + ?n + length a, kp_remain_len = 0\<rparr> r else effect ?st (p + ?n) a r)"
      using eff by (simp add: effect_def span)
    with loop_break [OF lt] turn True show ?thesis by simp
  next
    case False
    then have "?st \<noteq> SW_KEY_LEN" by (auto simp: item_ok_def)
    with loop_stop [OF lt turn] eff False show ?thesis by simp
  qed
  ultimately show ?thesis using 1
    by (intro exI [of _ "Suc (p + ?n + length a)"] exI [of _ "f\<lparr>fs_rnarg := length as, fs_rlen := 0, fs_state := data_lf ?st\<rparr>"]) simp
qed

section \<open>Verdicts\<close>

definition accepted :: "bytes \<Rightarrow> nat \<Rightarrow> fsa \<Rightarrow> cmd \<Rightarrow> keypos list \<Rightarrow> bool" where
  "accepted msg p f r ks \<longleftrightarrow> (\<exists>g s. parse_cmd_loop msg p f r = Some (Goto_done g s) \<and> fs_mem g = [] \<and>
     s = r\<lparr>cm_keys := cm_keys s\<rparr> \<and> ka_elem (cm_keys s) = ka_elem (cm_keys r) @ ks)"

definition refused :: "bytes \<Rightarrow> nat \<Rightarrow> fsa \<Rightarrow> cmd \<Rightarrow> bool" where
  "refused msg p f r \<longleftrightarrow> (\<exists>q g s. parse_cmd_loop msg p f r = Some (Goto_error q g s) \<and> fs_mem g = [])"

lemma item_break:
  assumes "ctx msg p f (a # as)" "fs_state f = st" "st \<in> len_states" "st = SW_CMD_TYPE_LEN \<longrightarrow> a \<noteq> []" "item_ok st a r"
    and "\<And>q g. \<lbrakk>fs_state g = data_lf st; fs_rnarg g = length as; msg ! q = LF\<rbrakk> \<Longrightarrow>
      parse_cmd_turn msg q g (effect st p a r) = Break q (g\<lparr>fs_state := nxt\<rparr>) (effect st p a r)"
  shows "\<exists>g. ctx msg (p + length (bulk_bytes a)) g as \<and> fs_state g = nxt \<and>
    parse_cmd_loop msg p f r = parse_cmd_loop msg (p + length (bulk_bytes a)) g (effect st p a r)"
proof -
  obtain q where q: "Suc q = p + length (bulk_bytes a)" "drop q msg = LF # concat (map bulk_bytes as)"
      "parse_cmd_loop msg p f r = parse_cmd_loop msg q (f\<lparr>fs_rnarg := length as, fs_rlen := 0, fs_state := data_lf st\<rparr>) (effect st p a r)"
    using read_item [OF assms(1), of r] assms(2-5) by auto
  note at = nth_drop_append [OF q(2)]
  have "parse_cmd_loop msg p f r =
      parse_cmd_loop msg (Suc q) (f\<lparr>fs_rnarg := length as, fs_rlen := 0, fs_state := nxt\<rparr>) (effect st p a r)"
    unfolding q(3) by (rule loop_break) (use at assms(6) in simp_all)
  moreover have "ctx msg (Suc q) (f\<lparr>fs_rnarg := length as, fs_rlen := 0, fs_state := nxt\<rparr>) as"
    using assms(1) at by (simp add: ctx_def)
  ultimately show ?thesis unfolding q(1) by (intro exI conjI) (assumption | simp)+
qed

lemma item_done:
  assumes "ctx msg p f (a # as)" "fs_state f = st" "st \<in> len_states" "st = SW_CMD_TYPE_LEN \<longrightarrow> a \<noteq> []" "item_ok st a r"
    and "\<And>q g. \<lbrakk>fs_state g = data_lf st; fs_rnarg g = length as; msg ! q = LF\<rbrakk> \<Longrightarrow>
      parse_cmd_turn msg q g (effect st p a r) = Goto_done g (effect st p a r)"
  shows "\<exists>g. parse_cmd_loop msg p f r = Some (Goto_done g (effect st p a r)) \<and> fs_mem g = []"
proof -
  obtain q where q: "drop q msg = LF # concat (map bulk_bytes as)"
      "parse_cmd_loop msg p f r = parse_cmd_loop msg q (f\<lparr>fs_rnarg := length as, fs_rlen := 0, fs_state := data_lf st\<rparr>) (effect st p a r)"
    using read_item [OF assms(1), of r] assms(2-5) by auto
  note at = nth_drop_append [OF q(1)]
  have "parse_cmd_loop msg p f r = Some (Goto_done (f\<lparr>fs_rnarg := length as, fs_rlen := 0, fs_state := data_lf st\<rparr>) (effect st p a r))"
    unfolding q(2) by (rule loop_stop) (use at assms(6) in simp_all)
  then show ?thesis using assms(1) by (simp add: ctx_def)
qed

lemma item_refused:
  assumes "ctx msg p f (a # as)" "fs_state f = st" "st \<in> len_states" "st = SW_CMD_TYPE_LEN \<longrightarrow> a \<noteq> []"
    and "\<And>q g. \<lbrakk>item_ok st a r; fs_state g = data_lf st; fs_rnarg g = length as; msg ! q = LF\<rbrakk> \<Longrightarrow>
      parse_cmd_turn msg q g (effect st p a r) = Goto_error q g (effect st p a r)"
  shows "refused msg p f r"
proof -
  obtain q g where q: "drop q msg = LF # concat (map bulk_bytes as)" "g = f\<lparr>fs_rnarg := length as, fs_rlen := 0, fs_state := data_lf st\<rparr>"
      "parse_cmd_loop msg p f r = (if item_ok st a r then parse_cmd_loop msg q g (effect st p a r)
       else Some (Goto_error (q - 1) (g\<lparr>fs_state := data_state st\<rparr>) (effect st p a r)))"
    using read_item [OF assms(1), of r] assms(2-4) by auto
  note at = nth_drop_append [OF q(1)]
  have "parse_cmd_loop msg q g (effect st p a r) = Some (Goto_error q g (effect st p a r))" if "item_ok st a r"
    by (rule loop_stop) (use at assms(5) q(2) that in simp_all)
  then show ?thesis using q assms(1) by (simp add: refused_def ctx_def)
qed

lemma accepted_item:
  "accepted msg p f r ks \<Longrightarrow> parse_cmd_loop msg p' f' r' = parse_cmd_loop msg p f r \<Longrightarrow> r = r' \<Longrightarrow> accepted msg p' f' r' ks"
  by (simp add: accepted_def)

lemma accepted_key:
  assumes "accepted msg p f (add_key k r) ks" "parse_cmd_loop msg p' f' r = parse_cmd_loop msg p f (add_key k r)"
  shows "accepted msg p' f' r (k # ks)"
proof -
  obtain g s where "parse_cmd_loop msg p f (add_key k r) = Some (Goto_done g s)" "fs_mem g = []"
      "s = (add_key k r)\<lparr>cm_keys := cm_keys s\<rparr>" "ka_elem (cm_keys s) = ka_elem (cm_keys r) @ k # ks"
    using assms(1) by (auto simp: accepted_def)
  moreover have "(add_key k r)\<lparr>cm_keys := x\<rparr> = r\<lparr>cm_keys := x\<rparr>" for x by (simp add: add_key_def)
  ultimately show ?thesis using assms(2) by (auto simp: accepted_def)
qed

text \<open>The classes do not overlap where the scanner asks for them in different orders.\<close>

lemma class_disjoint:
  "redis_argeval ty \<or> redis_argsub ty \<Longrightarrow>
     \<not> redis_arg0 ty \<and> \<not> redis_arg1 ty \<and> \<not> redis_arg2 ty \<and> \<not> redis_arg3 ty \<and> \<not> redis_argn ty \<and> \<not> redis_argx ty \<and> \<not> redis_argkvx ty"
  by (elim disjE; simp only: redis_argeval_def redis_argsub_def list.set insert_iff empty_iff; elim disjE)
    (simp_all add: cmd_classes cmd_type_defs)

lemma class_eval_sub: "redis_argeval ty \<Longrightarrow> \<not> redis_argsub ty"
  by (auto simp: redis_argeval_def redis_argsub_def cmd_type_defs)

lemmas lf_turns = parse_cmd_turn_def cmd_type_lf_turn_def key_lf_turn_def arg1_lf_turn_def arg2_lf_turn_def arg3_lf_turn_def argn_lf_turn_def Let_def

lemma len_state_in [simp]:
  "SW_CMD_TYPE_LEN \<in> len_states" "SW_KEY_LEN \<in> len_states" "SW_ARG1_LEN \<in> len_states" "SW_ARG2_LEN \<in> len_states"
  "SW_ARG3_LEN \<in> len_states" "SW_ARGN_LEN \<in> len_states"
  by (simp_all add: len_states_def)

lemma effect_simps [simp]:
  "effect SW_KEY_LEN p a r = add_key (span_at p a) r" "effect SW_CMD_TYPE_LEN p a r = r\<lparr>cm_type := verb_type a\<rparr>"
  "effect SW_ARG1_LEN p a r = r" "effect SW_ARG2_LEN p a r = r" "effect SW_ARG3_LEN p a r = r" "effect SW_ARGN_LEN p a r = r"
  by (simp_all add: effect_def)

lemma item_ok_simps [simp]:
  "item_ok SW_KEY_LEN a r" "item_ok SW_ARG1_LEN a r" "item_ok SW_ARG3_LEN a r" "item_ok SW_ARGN_LEN a r"
  "\<not> redis_argeval (cm_type r) \<Longrightarrow> item_ok SW_ARG2_LEN a r"
  by (simp_all add: item_ok_def)

lemma accepted_done:
  assumes "ctx msg p f (a # as)" "fs_state f = st" "st \<in> len_states - {SW_CMD_TYPE_LEN, SW_KEY_LEN}" "item_ok st a r"
    and "\<And>q g. \<lbrakk>fs_state g = data_lf st; fs_rnarg g = length as; msg ! q = LF\<rbrakk> \<Longrightarrow> parse_cmd_turn msg q g r = Goto_done g r"
  shows "accepted msg p f r []"
  using item_done [OF assms(1,2), of r] assms(3-5) by (auto simp: accepted_def effect_def)

lemma accepted_key_done:
  assumes "ctx msg p f (a # as)" "fs_state f = SW_KEY_LEN"
    and "\<And>q g. \<lbrakk>fs_state g = SW_KEY_LF; fs_rnarg g = length as; msg ! q = LF\<rbrakk> \<Longrightarrow>
      parse_cmd_turn msg q g (add_key (span_at p a) r) = Goto_done g (add_key (span_at p a) r)"
  shows "accepted msg p f r [span_at p a]"
  using item_done [OF assms(1,2), of r] assms(3) by (auto simp: accepted_def add_key_def key_push_def)

section \<open>The classes\<close>

lemma tail_argn:
  "\<lbrakk>ctx msg p f (a # as); fs_state f = SW_ARGN_LEN; redis_argn (cm_type r) \<or> redis_argeval (cm_type r) \<or> redis_argsub (cm_type r)\<rbrakk> \<Longrightarrow>
   accepted msg p f r []"
proof (induction as arbitrary: p f a)
  case Nil
  then show ?case by (intro accepted_done [OF Nil(1,2)]) (auto simp: lf_turns)
next
  case (Cons b as)
  from item_break [OF Cons.prems(1,2), of r SW_ARGN_LEN] Cons.prems(3)
  obtain g where g: "ctx msg (p + length (bulk_bytes a)) g (b # as)" "fs_state g = SW_ARGN_LEN"
      "parse_cmd_loop msg p f r = parse_cmd_loop msg (p + length (bulk_bytes a)) g r" by (auto simp: lf_turns)
  from accepted_item [OF Cons.IH [OF g(1,2) Cons.prems(3)] g(3)] show ?case by simp
qed

lemma keys_argx:
  "\<lbrakk>ctx msg p f (a # as); fs_state f = SW_KEY_LEN; redis_argx (cm_type r); \<not> redis_arg0 (cm_type r); \<not> redis_arg1 (cm_type r);
    \<not> redis_arg2 (cm_type r); \<not> redis_arg3 (cm_type r); \<not> redis_argn (cm_type r)\<rbrakk> \<Longrightarrow> accepted msg p f r (spans p (a # as))"
proof (induction as arbitrary: p f a r)
  case Nil
  have "accepted msg p f r [span_at p a]" using Nil by (intro accepted_key_done [OF Nil(1,2)]) (auto simp: lf_turns)
  then show ?case by simp
next
  case (Cons b as)
  from item_break [OF Cons.prems(1,2), of r SW_KEY_LEN] Cons.prems(3-)
  obtain g where g: "ctx msg (p + length (bulk_bytes a)) g (b # as)" "fs_state g = SW_KEY_LEN"
      "parse_cmd_loop msg p f r = parse_cmd_loop msg (p + length (bulk_bytes a)) g (add_key (span_at p a) r)" by (auto simp: lf_turns)
  have "accepted msg (p + length (bulk_bytes a)) g (add_key (span_at p a) r) (spans (p + length (bulk_bytes a)) (b # as))"
    by (rule Cons.IH [OF g(1,2)]) (use Cons.prems in simp_all)
  from accepted_key [OF this g(3)] show ?case by simp
qed

fun evens :: "'a list \<Rightarrow> 'a list" where
  "evens [] = []"
| "evens [x] = [x]"
| "evens (x # y # zs) = x # evens zs"

definition only_kvx :: "cmd_type \<Rightarrow> bool" where
  "only_kvx ty \<longleftrightarrow> redis_argkvx ty \<and> \<not> redis_arg0 ty \<and> \<not> redis_arg1 ty \<and> \<not> redis_arg2 ty \<and> \<not> redis_arg3 ty \<and>
     \<not> redis_argn ty \<and> \<not> redis_argx ty \<and> \<not> redis_argeval ty \<and> \<not> redis_argsub ty"

lemma keys_kvx:
  "\<lbrakk>ctx msg p f as; fs_state f = SW_KEY_LEN; only_kvx (cm_type r); as \<noteq> []; length as = 1 \<or> odd (cm_narg r) \<and> even (length as)\<rbrakk> \<Longrightarrow>
   accepted msg p f r (evens (spans p as))"
proof (induction as arbitrary: p f r rule: evens.induct)
  case (2 k)
  then have "accepted msg p f r [span_at p k]"
    by (intro accepted_key_done [OF 2(1,2)]) (auto simp: lf_turns only_kvx_def)
  then show ?case by simp
next
  case (3 k v as)
  let ?p = "p + length (bulk_bytes k)" and ?r = "add_key (span_at p k) r"
  have odd: "odd (cm_narg r)" using 3 by simp
  from item_break [OF 3(2,3), of r SW_ARG1_LEN] 3(4) odd
  obtain g where g: "ctx msg ?p g (v # as)" "fs_state g = SW_ARG1_LEN" "parse_cmd_loop msg p f r = parse_cmd_loop msg ?p g ?r"
    by (auto simp: lf_turns only_kvx_def odd_iff_mod_2_eq_one)
  have "accepted msg ?p g ?r (evens (spans (?p + length (bulk_bytes v)) as))"
  proof (cases "as = []")
    case True
    then show ?thesis using accepted_done [OF g(1,2), of ?r] 3(4) by (auto simp: lf_turns only_kvx_def)
  next
    case False
    from item_break [OF g(1,2), of ?r SW_KEY_LEN] False 3(4)
    obtain h where h: "ctx msg (?p + length (bulk_bytes v)) h as" "fs_state h = SW_KEY_LEN"
        "parse_cmd_loop msg ?p g ?r = parse_cmd_loop msg (?p + length (bulk_bytes v)) h ?r"
      by (auto simp: lf_turns only_kvx_def)
    have "accepted msg (?p + length (bulk_bytes v)) h ?r (evens (spans (?p + length (bulk_bytes v)) as))"
      by (rule 3(1) [OF h(1,2)]) (use 3 False odd in auto)
    from accepted_item [OF this h(3)] show ?thesis by simp
  qed
  from accepted_key [OF this g(3)] show ?case by simp
qed simp

text \<open>The commands with one key and a fixed number of arguments.\<close>

lemma key_then:
  assumes "ctx msg p f (k # as)" "fs_state f = SW_KEY_LEN"
    and "\<And>q g. \<lbrakk>fs_state g = SW_KEY_LF; fs_rnarg g = length as; msg ! q = LF\<rbrakk> \<Longrightarrow>
      parse_cmd_turn msg q g (add_key (span_at p k) r) = Break q (g\<lparr>fs_state := nxt\<rparr>) (add_key (span_at p k) r)"
    and "\<And>g. ctx msg (p + length (bulk_bytes k)) g as \<Longrightarrow> fs_state g = nxt \<Longrightarrow>
      accepted msg (p + length (bulk_bytes k)) g (add_key (span_at p k) r) []"
  shows "accepted msg p f r [span_at p k]"
  using item_break [OF assms(1,2), of r nxt] assms(3,4) by (auto intro: accepted_key)

lemma arg_then:
  assumes "ctx msg p f (a # as)" "fs_state f = st" "st \<in> len_states - {SW_CMD_TYPE_LEN, SW_KEY_LEN}" "item_ok st a r"
    and "\<And>q g. \<lbrakk>fs_state g = data_lf st; fs_rnarg g = length as; msg ! q = LF\<rbrakk> \<Longrightarrow>
      parse_cmd_turn msg q g r = Break q (g\<lparr>fs_state := nxt\<rparr>) r"
    and "\<And>g. ctx msg (p + length (bulk_bytes a)) g as \<Longrightarrow> fs_state g = nxt \<Longrightarrow> accepted msg (p + length (bulk_bytes a)) g r ks"
  shows "accepted msg p f r ks"
proof -
  have e: "effect st p a r = r" using assms(3) by (simp add: effect_def)
  obtain g where g: "ctx msg (p + length (bulk_bytes a)) g as" "fs_state g = nxt"
      "parse_cmd_loop msg p f r = parse_cmd_loop msg (p + length (bulk_bytes a)) g r"
    using item_break [OF assms(1,2), of r nxt] assms(3-5) unfolding e by auto
  from accepted_item [OF assms(6) [OF g(1,2)] g(3)] show ?thesis by simp
qed

lemma key_args:
  assumes "ctx msg p f (k # as)" "fs_state f = SW_KEY_LEN" "ty = cm_type r" "\<not> redis_argeval ty" "\<not> redis_argsub ty"
  shows "redis_arg0 ty \<Longrightarrow> if as = [] then accepted msg p f r [span_at p k] else refused msg p f r"
    and "redis_arg1 ty \<Longrightarrow> \<not> redis_arg0 ty \<Longrightarrow> if length as = 1 then accepted msg p f r [span_at p k] else refused msg p f r"
    and "redis_arg2 ty \<Longrightarrow> \<not> redis_arg0 ty \<Longrightarrow> \<not> redis_arg1 ty \<Longrightarrow>
      if length as = 2 then accepted msg p f r [span_at p k] else refused msg p f r"
    and "redis_arg3 ty \<Longrightarrow> \<not> redis_arg0 ty \<Longrightarrow> \<not> redis_arg1 ty \<Longrightarrow> \<not> redis_arg2 ty \<Longrightarrow>
      if length as = 3 then accepted msg p f r [span_at p k] else refused msg p f r"
    and "redis_argn ty \<Longrightarrow> \<not> redis_arg0 ty \<Longrightarrow> \<not> redis_arg1 ty \<Longrightarrow> \<not> redis_arg2 ty \<Longrightarrow> \<not> redis_arg3 ty \<Longrightarrow> accepted msg p f r [span_at p k]"
proof -
  note ty = assms(3-5)
  show "if as = [] then accepted msg p f r [span_at p k] else refused msg p f r" if c: "redis_arg0 ty"
    using accepted_key_done [OF assms(1,2), of r] item_refused [OF assms(1,2), of r] c ty by (auto simp: lf_turns)
  show "if length as = 1 then accepted msg p f r [span_at p k] else refused msg p f r" if c: "redis_arg1 ty" "\<not> redis_arg0 ty"
  proof (cases "length as = 1")
    case True
    then obtain a where a: "as = [a]" by (metis length_0_conv length_Suc_conv One_nat_def)
    show ?thesis unfolding a
      by (simp, rule key_then [OF assms(1,2), unfolded a, where nxt = SW_ARG1_LEN], use c ty in \<open>auto simp: lf_turns intro!: accepted_done\<close>)
  qed (use item_refused [OF assms(1,2), of r] c ty in \<open>auto simp: lf_turns\<close>)
  show "if length as = 2 then accepted msg p f r [span_at p k] else refused msg p f r"
    if c: "redis_arg2 ty" "\<not> redis_arg0 ty" "\<not> redis_arg1 ty"
  proof (cases "length as = 2")
    case True
    then obtain a b where a: "as = [a, b]" by (auto simp: numeral_2_eq_2 length_Suc_conv)
    have "accepted msg p f r [span_at p k]"
    proof (rule key_then [OF assms(1,2), unfolded a, where nxt = SW_ARG1_LEN])
      fix g assume g: "ctx msg (p + length (bulk_bytes k)) g [a, b]" "fs_state g = SW_ARG1_LEN"
      show "accepted msg (p + length (bulk_bytes k)) g (add_key (span_at p k) r) []"
        by (rule arg_then [OF g, where nxt = SW_ARG2_LEN], use c ty in \<open>auto simp: lf_turns intro!: accepted_done\<close>)
    qed (use c ty in \<open>auto simp: lf_turns\<close>)
    then show ?thesis using True by simp
  qed (use item_refused [OF assms(1,2), of r] c ty in \<open>auto simp: lf_turns\<close>)
  show "if length as = 3 then accepted msg p f r [span_at p k] else refused msg p f r"
    if c: "redis_arg3 ty" "\<not> redis_arg0 ty" "\<not> redis_arg1 ty" "\<not> redis_arg2 ty"
  proof (cases "length as = 3")
    case True
    then obtain a b d where a: "as = [a, b, d]" by (auto simp: numeral_3_eq_3 length_Suc_conv)
    have "accepted msg p f r [span_at p k]"
    proof (rule key_then [OF assms(1,2), unfolded a, where nxt = SW_ARG1_LEN])
      fix g assume g: "ctx msg (p + length (bulk_bytes k)) g [a, b, d]" "fs_state g = SW_ARG1_LEN"
      show "accepted msg (p + length (bulk_bytes k)) g (add_key (span_at p k) r) []"
      proof (rule arg_then [OF g, where nxt = SW_ARG2_LEN])
        fix h let ?q = "p + length (bulk_bytes k) + length (bulk_bytes a)"
        assume h: "ctx msg ?q h [b, d]" "fs_state h = SW_ARG2_LEN"
        show "accepted msg ?q h (add_key (span_at p k) r) []"
          by (rule arg_then [OF h, where nxt = SW_ARG3_LEN], use c ty in \<open>auto simp: lf_turns intro!: accepted_done\<close>)
      qed (use c ty in \<open>auto simp: lf_turns\<close>)
    qed (use c ty in \<open>auto simp: lf_turns\<close>)
    then show ?thesis using True by simp
  qed (use item_refused [OF assms(1,2), of r] c ty in \<open>auto simp: lf_turns\<close>)
  show "accepted msg p f r [span_at p k]" if c: "redis_argn ty" "\<not> redis_arg0 ty" "\<not> redis_arg1 ty" "\<not> redis_arg2 ty" "\<not> redis_arg3 ty"
  proof (cases as)
    case Nil
    show ?thesis by (rule accepted_key_done [OF assms(1,2)], use c ty Nil in \<open>auto simp: lf_turns\<close>)
  next
    case (Cons a bs)
    show ?thesis
    proof (rule key_then [OF assms(1,2), where nxt = SW_ARG1_LEN])
      fix g assume g: "ctx msg (p + length (bulk_bytes k)) g as" "fs_state g = SW_ARG1_LEN"
      show "accepted msg (p + length (bulk_bytes k)) g (add_key (span_at p k) r) []"
      proof (cases bs)
        case Nil
        show ?thesis by (rule accepted_done [OF g(1) [unfolded Cons] g(2)], use c ty Nil in \<open>auto simp: lf_turns\<close>)
      next
        case (Cons b cs)
        show ?thesis by (rule arg_then [OF g(1) [unfolded \<open>as = a # bs\<close>] g(2), where nxt = SW_ARGN_LEN],
              use c ty Cons in \<open>auto simp: lf_turns intro!: tail_argn\<close>)
      qed
    qed (use c ty Cons in \<open>auto simp: lf_turns\<close>)
  qed
qed

lemma refused_item: "refused msg q g s \<Longrightarrow> parse_cmd_loop msg p f r = parse_cmd_loop msg q g s \<Longrightarrow> refused msg p f r"
  by (simp add: refused_def)

text \<open>A key that any arguments may follow, after a script or a sub-command.\<close>

lemma key_any:
  assumes "ctx msg p f (k # as)" "fs_state f = SW_KEY_LEN" "redis_argeval (cm_type r) \<or> redis_argsub (cm_type r)"
  shows "accepted msg p f r [span_at p k]"
proof (cases as)
  case Nil
  show ?thesis by (rule accepted_key_done [OF assms(1,2)], use assms(3) Nil class_disjoint [OF assms(3)] in \<open>auto simp: lf_turns\<close>)
next
  case (Cons b bs)
  show ?thesis
    by (rule key_then [OF assms(1,2), where nxt = SW_ARGN_LEN])
      (use assms(3) Cons class_disjoint [OF assms(3)] in \<open>auto simp: lf_turns intro!: tail_argn\<close>)
qed

lemma keys_sub:
  assumes "ctx msg p f (a # as)" "fs_state f = SW_ARG1_LEN" "redis_argsub (cm_type r)" "\<not> redis_argeval (cm_type r)"
  shows "if as = [] then refused msg p f r else accepted msg p f r [spans p (a # as) ! 1]"
proof (cases as)
  case Nil
  then show ?thesis using item_refused [OF assms(1,2), of r] assms(3,4) class_disjoint [OF disjI2, OF assms(3)] by (auto simp: lf_turns)
next
  case (Cons k bs)
  have "accepted msg p f r [span_at (p + length (bulk_bytes a)) k]"
    by (rule arg_then [OF assms(1,2), where nxt = SW_KEY_LEN])
      (use assms(3,4) Cons class_disjoint [OF disjI2, OF assms(3)] in \<open>auto simp: lf_turns intro!: key_any\<close>)
  then show ?thesis using Cons by simp
qed

lemma keys_eval:
  assumes "ctx msg p f (a # as)" "fs_state f = SW_ARG1_LEN" "redis_argeval (cm_type r)"
  shows "if 2 \<le> length as \<and> as ! 0 \<noteq> [] \<and> key_number 0 (as ! 0) \<notin> {None, Some 0}
    then accepted msg p f r [spans p (a # as) ! 2] else refused msg p f r"
proof (cases "2 \<le> length as")
  case True
  then obtain n k bs where as: "as = n # k # bs" by (cases as; cases "tl as") auto
  note cls = class_disjoint [OF disjI1, OF assms(3)] class_eval_sub [OF assms(3)]
  let ?q = "p + length (bulk_bytes a)"
  from item_break [OF assms(1,2), of r SW_ARG2_LEN] assms(3) cls as
  obtain g where g: "ctx msg ?q g (n # k # bs)" "fs_state g = SW_ARG2_LEN" "parse_cmd_loop msg p f r = parse_cmd_loop msg ?q g r"
    by (auto simp: lf_turns)
  show ?thesis
  proof (cases "item_ok SW_ARG2_LEN n r")
    case ok: True
    have "accepted msg ?q g r [span_at (?q + length (bulk_bytes n)) k]"
      by (rule arg_then [OF g(1,2), where nxt = SW_KEY_LEN]) (use assms(3) cls ok in \<open>auto simp: lf_turns intro!: key_any\<close>)
    from accepted_item [OF this g(3)] show ?thesis using ok assms(3) as by (simp add: item_ok_def numeral_2_eq_2)
  next
    case False
    then have "refused msg ?q g r" using item_refused [OF g(1,2), of r] by simp
    from refused_item [OF this g(3)] show ?thesis using False assms(3) as by (auto simp: item_ok_def)
  qed
next
  case False
  then show ?thesis using item_refused [OF assms(1,2), of r] assms(3) class_disjoint [OF disjI1, OF assms(3)] by (auto simp: lf_turns)
qed

section \<open>The whole command\<close>

text \<open>The verdict on what is left of a command: the keys it adds, or the refusal.\<close>

fun verdict :: "bytes \<Rightarrow> nat \<Rightarrow> fsa \<Rightarrow> cmd \<Rightarrow> keypos list option \<Rightarrow> bool" where
  "verdict msg p f r (Some ks) \<longleftrightarrow> accepted msg p f r ks"
| "verdict msg p f r None \<longleftrightarrow> refused msg p f r"

lemma pick_odd: "filter odd [1..<Suc n] = map (\<lambda>i. 2 * i + 1) [0..<(n + 1) div 2]"
proof (induction n)
  case (Suc n)
  have "filter odd [1..<Suc (Suc n)] = filter odd [1..<Suc n] @ (if even n then [Suc n] else [])" by simp
  also have "\<dots> = map (\<lambda>i. 2 * i + 1) [0..<(Suc n + 1) div 2]" unfolding Suc by (auto elim!: evenE oddE)
  finally show ?case .
qed simp

lemma length_evens [simp]: "length (evens xs) = (length xs + 1) div 2"
  by (induction xs rule: evens.induct) auto

lemma nth_evens: "i < length (evens xs) \<Longrightarrow> evens xs ! i = xs ! (2 * i)"
proof (induction xs arbitrary: i rule: evens.induct)
  case (3 x y zs)
  then show ?case by (cases i) simp_all
qed auto

lemma map_evens: "map ((!) (x # xs)) (filter odd [1..<Suc (length xs)]) = evens xs"
  unfolding pick_odd by (rule nth_equalityI) (simp_all add: nth_evens)

lemma map_all: "map ((!) (x # xs)) [1..<Suc (length xs)] = xs"
  by (rule nth_equalityI) (simp_all del: upt_Suc)

lemma length_spans [simp]: "length (spans p as) = length as"
  by (induction as arbitrary: p) auto

lemma argkvx_only: "redis_argkvx ty \<Longrightarrow> only_kvx ty"
  by (simp add: only_kvx_def redis_argkvx_def) (simp add: cmd_classes cmd_type_defs)

text \<open>\<open>key_indices\<close> after the name, as a function of the type.\<close>

definition rest_indices :: "cmd_type \<Rightarrow> bytes list \<Rightarrow> nat list option" where
  "rest_indices ty as =
     (let n = length as in
      if redis_arg0 ty then if n = 1 then Some [1] else None
      else if redis_arg1 ty then if n = 2 then Some [1] else None
      else if redis_arg2 ty then if n = 3 then Some [1] else None
      else if redis_arg3 ty then if n = 4 then Some [1] else None
      else if redis_argn ty then Some [1]
      else if redis_argx ty then Some [1..<Suc n]
      else if redis_argkvx ty then if n = 1 \<or> even n then Some (filter odd [1..<Suc n]) else None
      else if redis_argeval ty then
        if n \<ge> 3 \<and> as ! 1 \<noteq> [] \<and> key_number 0 (as ! 1) \<notin> {None, Some 0} then Some [3] else None
      else if redis_argsub ty then if n \<ge> 2 then Some [2] else None
      else None)"

lemma rest_verdict:
  assumes "ctx msg p f (a # as)" "ty = cm_type r" "cm_narg r = Suc (Suc (length as))"
    and "fs_state f = (if redis_argeval ty \<or> redis_argsub ty then SW_ARG1_LEN else SW_KEY_LEN)"
  shows "verdict msg p f r (map_option (map ((!) (x # spans p (a # as)))) (rest_indices ty (a # as)))"
proof (cases "redis_argeval ty \<or> redis_argsub ty")
  case True
  note cls = class_disjoint [OF True]
  have st: "fs_state f = SW_ARG1_LEN" using assms(4) True by simp
  show ?thesis
  proof (cases "redis_argeval ty")
    case e: True
    have "if 2 \<le> length as \<and> as ! 0 \<noteq> [] \<and> key_number 0 (as ! 0) \<notin> {None, Some 0}
        then accepted msg p f r [spans p (a # as) ! 2] else refused msg p f r"
      by (rule keys_eval [OF assms(1) st]) (use e assms(2) in simp)
    then show ?thesis using cls e by (auto simp: rest_indices_def numeral_3_eq_3 numeral_2_eq_2 split: if_splits)
  next
    case False
    with True have "if as = [] then refused msg p f r else accepted msg p f r [spans p (a # as) ! 1]"
      by (intro keys_sub [OF assms(1) st]) (use assms(2) in simp_all)
    then show ?thesis using cls False True by (cases as) (simp_all add: rest_indices_def)
  qed
next
  case False
  have st: "fs_state f = SW_KEY_LEN" using assms(4) False by simp
  note K = key_args [OF assms(1) st assms(2)]
  consider "redis_arg0 ty \<or> redis_arg1 ty \<or> redis_arg2 ty \<or> redis_arg3 ty \<or> redis_argn ty"
    | "redis_argx ty" "\<not> (redis_arg0 ty \<or> redis_arg1 ty \<or> redis_arg2 ty \<or> redis_arg3 ty \<or> redis_argn ty)"
    | "redis_argkvx ty" "\<not> redis_argx ty" "\<not> (redis_arg0 ty \<or> redis_arg1 ty \<or> redis_arg2 ty \<or> redis_arg3 ty \<or> redis_argn ty)"
    | "\<not> redis_argx ty" "\<not> redis_argkvx ty" "\<not> (redis_arg0 ty \<or> redis_arg1 ty \<or> redis_arg2 ty \<or> redis_arg3 ty \<or> redis_argn ty)"
    by blast
  then show ?thesis
  proof cases
    case 1
    then show ?thesis using K False by (auto simp: rest_indices_def Let_def split: if_splits)
  next
    case 2
    then have "accepted msg p f r (spans p (a # as))" using keys_argx [OF assms(1) st] assms(2) by simp
    then show ?thesis using 2 map_all [of x "spans p (a # as)"] by (simp add: rest_indices_def del: upt_Suc)
  next
    case 3
    show ?thesis
    proof (cases "as = [] \<or> even (Suc (length as))")
      case True
      then have "accepted msg p f r (evens (spans p (a # as)))"
        by (intro keys_kvx [OF assms(1) st]) (use 3 argkvx_only assms(2,3) in auto)
      then show ?thesis using 3 True map_evens [of x "spans p (a # as)"] by (auto simp: rest_indices_def simp del: upt_Suc)
    next
      case no: False
      then have "refused msg p f r" using item_refused [OF assms(1) st, of r] 3 assms(2,3) by (auto simp: lf_turns)
      then show ?thesis using 3 no by (simp add: rest_indices_def)
    qed
  next
    case 4
    then have "refused msg p f r" using item_refused [OF assms(1) st, of r] assms(2) False by (auto simp: lf_turns)
    then show ?thesis using 4 False by (simp add: rest_indices_def)
  qed
qed

lemma narg_digits:
  "\<lbrakk>fs_state f = SW_NARG; fs_token f = Some t; drop p msg = ds @ s; \<And>c. c \<in> set ds \<Longrightarrow> c_isdigit c\<rbrakk> \<Longrightarrow>
   parse_cmd_loop msg p f r = parse_cmd_loop msg (p + length ds) (f\<lparr>fs_rnarg := foldl add_digit (fs_rnarg f) ds\<rparr>) r"
proof (induction ds arbitrary: p f)
  case (Cons c ds)
  note at = nth_drop_append [OF Cons.prems(3) [unfolded append_Cons]]
  have "parse_cmd_turn msg p f r = Break p (f\<lparr>fs_rnarg := add_digit (fs_rnarg f) c\<rparr>) r"
    using at Cons.prems by (simp add: parse_cmd_turn_def narg_turn_def)
  from loop_break [OF _ this] at Cons.IH [of "f\<lparr>fs_rnarg := add_digit (fs_rnarg f) c\<rparr>" "Suc p"] Cons.prems show ?case by simp
qed simp

abbreviation start_fsa :: "allocator \<Rightarrow> fsa" where
  "start_fsa m \<equiv> \<lparr>fs_state = SW_START, fs_token = None, fs_rlen = 0, fs_rnarg = 0, fs_mem = m\<rparr>"

lemma read_narg:
  assumes "msg = CHR ''*'' # dec_nat n @ CRLF @ s" "n < 2 ^ 32"
  shows "parse_cmd_loop msg 0 (start_fsa m) r =
    (if n = 0 then Some (Goto_error 2 \<lparr>fs_state = SW_NARG, fs_token = Some 0, fs_rlen = 0, fs_rnarg = 0, fs_mem = m\<rparr> (r\<lparr>cm_narg_start := Some 0\<rparr>))
     else parse_cmd_loop msg (length (dec_nat n) + 3) \<lparr>fs_state = SW_CMD_TYPE_LEN, fs_token = None, fs_rlen = 0, fs_rnarg = n, fs_mem = m\<rparr>
       (r\<lparr>cm_narg_start := Some 0, cm_narg := n, cm_narg_end := Some (length (dec_nat n) + 1)\<rparr>))"
proof -
  let ?f1 = "\<lparr>fs_state = SW_NARG, fs_token = Some 0, fs_rlen = 0, fs_rnarg = 0, fs_mem = m\<rparr>" and ?r1 = "r\<lparr>cm_narg_start := Some 0\<rparr>"
  let ?q = "Suc (length (dec_nat n))"
  have "parse_cmd_turn msg 0 (start_fsa m) r = Break 0 ?f1 ?r1" using assms(1) by (simp add: parse_cmd_turn_def narg_turn_def)
  from loop_break [OF _ this] assms(1) have 1: "parse_cmd_loop msg 0 (start_fsa m) r = parse_cmd_loop msg (Suc 0) ?f1 ?r1" by simp
  have "drop (Suc 0) msg = dec_nat n @ CRLF @ s" using assms(1) by simp
  from narg_digits [OF _ _ this, of ?f1 0 ?r1] fold_dec_nat [OF assms(2)]
  have 2: "parse_cmd_loop msg (Suc 0) ?f1 ?r1 = parse_cmd_loop msg ?q (?f1\<lparr>fs_rnarg := n\<rparr>) ?r1" by (simp add: set_dec_nat)
  have d: "drop ?q msg = CR # LF # s" using assms(1) by simp
  note at2 = nth_drop_append [OF d]
  note at3 = nth_drop_append [OF conjunct2 [OF conjunct2 [OF at2]]]
  show ?thesis
  proof (cases "n = 0")
    case True
    then have "parse_cmd_turn msg ?q (?f1\<lparr>fs_rnarg := n\<rparr>) ?r1 = Goto_error ?q ?f1 ?r1"
      using at2 by (simp add: parse_cmd_turn_def narg_turn_def)
    from loop_stop [OF _ this] at2 1 2 True show ?thesis by (simp add: dec_nat.simps [of 0] numeral_2_eq_2)
  next
    case False
    let ?f2 = "?f1\<lparr>fs_rnarg := n, fs_token := None, fs_state := SW_NARG_LF\<rparr>" and ?r2 = "?r1\<lparr>cm_narg := n, cm_narg_end := Some ?q\<rparr>"
    have "parse_cmd_turn msg ?q (?f1\<lparr>fs_rnarg := n\<rparr>) ?r1 = Break ?q ?f2 ?r2"
      using at2 False by (simp add: parse_cmd_turn_def narg_turn_def)
    from loop_break [OF _ this] at2 have 3: "parse_cmd_loop msg ?q (?f1\<lparr>fs_rnarg := n\<rparr>) ?r1 = parse_cmd_loop msg (Suc ?q) ?f2 ?r2" by simp
    have "parse_cmd_turn msg (Suc ?q) ?f2 ?r2 = Break (Suc ?q) (?f2\<lparr>fs_state := SW_CMD_TYPE_LEN\<rparr>) ?r2"
      using at3 by (simp add: parse_cmd_turn_def lf_turn_def)
    from loop_break [OF _ this] at3 1 2 3 False show ?thesis by (simp add: numeral_3_eq_3)
  qed
qed

lemma empty_verb_refused:
  assumes "ctx msg p f ([] # as)" "fs_state f = SW_CMD_TYPE_LEN"
  shows "refused msg p f r"
proof -
  have zero: "dec_nat 0 = ''0''" by code_simp
  have d: "drop p msg = CHR ''$'' # CHR ''0'' # CR # LF # CR # LF # concat (map bulk_bytes as)"
    using assms(1) by (simp add: ctx_def bulk_bytes_def zero)
  note at1 = nth_drop_append [OF d] note at2 = nth_drop_append [OF conjunct2 [OF conjunct2 [OF at1]]]
  note at3 = nth_drop_append [OF conjunct2 [OF conjunct2 [OF at2]]]
  let ?f = "f\<lparr>fs_token := Some p, fs_rlen := 0\<rparr>"
  have "parse_cmd_turn msg p f r = Break p ?f r"
    using at1 assms by (simp add: ctx_def turn_len len_turn_def)
  from loop_break [OF _ this] at1 have 1: "parse_cmd_loop msg p f r = parse_cmd_loop msg (Suc p) ?f r" by simp
  have z: "c_isdigit (CHR ''0'')" "add_digit 0 (CHR ''0'') = 0" by (simp_all add: c_isdigit_def add_digit_def digit_val_def uchar_def)
  have "parse_cmd_turn msg (Suc p) ?f r = Break (Suc p) ?f r"
    using at2 assms(2) z by (simp add: turn_len len_turn_def)
  from loop_break [OF _ this] at2 have 2: "parse_cmd_loop msg (Suc p) ?f r = parse_cmd_loop msg (Suc (Suc p)) ?f r" by simp
  have "parse_cmd_turn msg (Suc (Suc p)) ?f r = Goto_error (Suc (Suc p)) ?f r"
    using at3 assms(2) by (simp add: turn_len len_turn_def len_bad_def)
  from loop_stop [OF _ this] at3 1 2 show ?thesis using assms(1) by (simp add: refused_def ctx_def)
qed

lemma verb_then:
  assumes "ctx msg p f (v # as)" "fs_state f = SW_CMD_TYPE_LEN" "v \<noteq> []"
  defines "ty \<equiv> verb_type v"
  shows "ty = CMD_UNKNOWN \<Longrightarrow> refused msg p f r"
    and "ty \<noteq> CMD_UNKNOWN \<Longrightarrow> redis_argz ty \<Longrightarrow> \<exists>g. parse_cmd_loop msg p f r = Some (Goto_done g (r\<lparr>cm_type := ty\<rparr>)) \<and> fs_mem g = []"
    and "ty \<noteq> CMD_UNKNOWN \<Longrightarrow> \<not> redis_argz ty \<Longrightarrow> \<exists>g. ctx msg (p + length (bulk_bytes v)) g as \<and>
      fs_state g = (if redis_argeval ty \<or> redis_argsub ty then SW_ARG1_LEN else SW_KEY_LEN) \<and>
      parse_cmd_loop msg p f r = parse_cmd_loop msg (p + length (bulk_bytes v)) g (r\<lparr>cm_type := ty\<rparr>)"
  using item_refused [OF assms(1,2), of r] item_done [OF assms(1,2), of r] item_break [OF assms(1,2), of r SW_ARG1_LEN]
    item_break [OF assms(1,2), of r SW_KEY_LEN] assms(3)
  by (auto simp: item_ok_def lf_turns ty_def)

section \<open>The text of the keys\<close>

definition key_text :: "bytes \<Rightarrow> keypos \<Rightarrow> bytes" where
  "key_text cmd k = take (kp_end k - kp_start k) (drop (kp_start k) cmd)"

lemma spans_text:
  "drop p cmd = concat (map bulk_bytes args) @ s \<Longrightarrow> map (key_text cmd) (spans p args) = args"
proof (induction args arbitrary: p)
  case (Cons a args)
  let ?h = "CHR ''$'' # dec_nat (length a) @ CRLF" and ?s = "concat (map bulk_bytes args) @ s"
  have d: "drop p cmd = ?h @ a @ CRLF @ ?s" using Cons.prems by (simp add: bulk_bytes_def [of a])
  have "drop (p + length ?h) cmd = a @ CRLF @ ?s" using drop_append_at [OF d] .
  then have "key_text cmd (span_at p a) = a" by (simp add: key_text_def span_at_def Let_def numeral_3_eq_3)
  moreover have "drop (p + length (bulk_bytes a)) cmd = ?s" using drop_append_at [of p cmd "bulk_bytes a" ?s] Cons.prems by simp
  ultimately show ?case using Cons.IH by simp
qed simp

lemma command_bytes_at: "drop (length (dec_nat (length args)) + 3) (command_bytes args @ s) = concat (map bulk_bytes args) @ s"
  by (simp add: command_bytes_def numeral_3_eq_3)

lemma arg_spans_text: "map (key_text (command_bytes args @ s)) (arg_spans args) = args"
  unfolding arg_spans_def by (rule spans_text) (rule command_bytes_at)

lemma key_indices_rest:
  "\<lbrakk>v \<noteq> []; verb_type v \<noteq> CMD_UNKNOWN; \<not> redis_argz (verb_type v); as \<noteq> []\<rbrakk> \<Longrightarrow> key_indices (v # as) = rest_indices (verb_type v) as"
  unfolding key_indices_def rest_indices_def Let_def verb_type_def
  by (cases as) (simp_all del: upt_Suc)

lemma length_bulks: "length args + sum_list (map length args) \<le> length (concat (map bulk_bytes args))"
  by (induction args) (auto simp: bulk_bytes_def)

lemma command_small:
  assumes "length (command_bytes args) < 2 ^ 32"
  shows "length args < 2 ^ 32" and "a \<in> set args \<Longrightarrow> length a < 2 ^ 32"
proof -
  have "length (concat (map bulk_bytes args)) < 2 ^ 32" using assms by (simp add: command_bytes_def)
  then show "length args < 2 ^ 32" and "a \<in> set args \<Longrightarrow> length a < 2 ^ 32"
    using length_bulks [of args] member_le_sum_list [of "length a" "map length args"] by auto
qed

lemma scan_command:
  assumes "length (command_bytes args) < 2 ^ 32" "cm_result r = CMD_PARSE_OK"
  shows "\<exists>t s. parse_cmd_loop (command_bytes args) 0 (start_fsa []) r = Some t \<and> parse_end t = (s, []) \<and>
    (case key_indices args of
       None \<Rightarrow> cm_result s = CMD_PARSE_ERROR
     | Some is \<Rightarrow> cm_result s = CMD_PARSE_OK \<and> cm_type s = verb_type (hd args) \<and>
         ka_elem (cm_keys s) = ka_elem (cm_keys r) @ map ((!) (arg_spans args)) is)"
proof -
  let ?n = "length args" let ?p = "length (dec_nat ?n) + 3" and ?msg = "command_bytes args"
  let ?r = "r\<lparr>cm_narg_start := Some 0, cm_narg := ?n, cm_narg_end := Some (length (dec_nat ?n) + 1)\<rparr>"
  let ?f = "\<lparr>fs_state = SW_CMD_TYPE_LEN, fs_token = None, fs_rlen = 0, fs_rnarg = ?n, fs_mem = []\<rparr>"
  have start: "parse_cmd_loop ?msg 0 (start_fsa []) r =
      (if ?n = 0 then Some (Goto_error 2 \<lparr>fs_state = SW_NARG, fs_token = Some 0, fs_rlen = 0, fs_rnarg = 0, fs_mem = []\<rparr> (r\<lparr>cm_narg_start := Some 0\<rparr>))
       else parse_cmd_loop ?msg ?p ?f ?r)"
    by (rule read_narg [OF _ command_small(1) [OF assms(1)]]) (simp add: command_bytes_def)
  have ctx: "ctx ?msg ?p ?f args" using command_bytes_at [of args "[]"] command_small(2) [OF assms(1)] by (simp add: ctx_def)
  have error: ?thesis if "refused ?msg ?p ?f ?r" "key_indices args = None" "args \<noteq> []"
    using that start by (auto simp: refused_def split: prod.splits)
  show ?thesis
  proof (cases args)
    case Nil
    then show ?thesis using start by (simp add: key_indices_def)
  next
    case (Cons v as)
    let ?ty = "verb_type v"
    consider "v = [] \<or> ?ty = CMD_UNKNOWN" | "v \<noteq> []" "?ty \<noteq> CMD_UNKNOWN" "redis_argz ?ty" | "v \<noteq> []" "?ty \<noteq> CMD_UNKNOWN" "\<not> redis_argz ?ty" by blast
    then show ?thesis
    proof cases
      case 1
      then have "refused ?msg ?p ?f ?r"
        using empty_verb_refused [of ?msg ?p ?f as ?r] verb_then(1) [of ?msg ?p ?f v as ?r] ctx Cons by auto
      then show ?thesis using error 1 Cons by (auto simp: key_indices_def verb_type_def)
    next
      case 2
      then show ?thesis using verb_then(2) [of ?msg ?p ?f v as ?r] ctx Cons start by (auto simp: key_indices_def verb_type_def)
    next
      case 3
      let ?q = "?p + length (bulk_bytes v)" and ?s = "?r\<lparr>cm_type := ?ty\<rparr>"
      obtain g where g: "ctx ?msg ?q g as" "fs_state g = (if redis_argeval ?ty \<or> redis_argsub ?ty then SW_ARG1_LEN else SW_KEY_LEN)"
          "parse_cmd_loop ?msg ?p ?f ?r = parse_cmd_loop ?msg ?q g ?s"
        using verb_then(3) [of ?msg ?p ?f v as ?r] ctx Cons 3 by auto
      show ?thesis
      proof (cases as)
        case Nil
        then have "length ?msg \<le> ?q" using g(1) by (simp add: ctx_def)
        from loop_end [OF this] g(1,3) start Nil Cons 3 assms(2) show ?thesis by (simp add: key_indices_def verb_type_def ctx_def)
      next
        case as: (Cons a bs)
        have spans: "arg_spans args = span_at ?p v # spans ?q (a # bs)" using Cons as by (simp add: arg_spans_def)
        have "verdict ?msg ?q g ?s (map_option (map ((!) (span_at ?p v # spans ?q (a # bs)))) (rest_indices ?ty (a # bs)))"
          by (rule rest_verdict [OF g(1) [unfolded as] _ _ g(2)]) (use Cons as in simp_all)
        then have v: "verdict ?msg ?q g ?s (map_option (map ((!) (arg_spans args))) (key_indices args))"
          unfolding spans using key_indices_rest [OF 3(1,2,3)] Cons as by simp
        show ?thesis
        proof (cases "key_indices args")
          case None
          then have "refused ?msg ?p ?f ?r" using v refused_item [OF _ g(3)] by simp
          then show ?thesis using error None Cons by blast
        next
          case (Some "is")
          then obtain h s where h: "parse_cmd_loop ?msg ?q g ?s = Some (Goto_done h s)" "fs_mem h = []" "s = ?s\<lparr>cm_keys := cm_keys s\<rparr>"
              "ka_elem (cm_keys s) = ka_elem (cm_keys r) @ map ((!) (arg_spans args)) is"
            using v by (auto simp: accepted_def)
          have "cm_type s = ?ty" by (subst h(3)) simp
          then show ?thesis using start g(3) h Some Cons by simp
        qed
      qed
    qed
  qed
qed

lemma parse_command:
  assumes "cm_cmd r = Some cmd" "cm_clen r \<le> length cmd" "take (cm_clen r) cmd = command_bytes args"
    and "length (command_bytes args) < 2 ^ 32" "cm_result r = CMD_PARSE_OK"
  shows "\<exists>s. redis_parse_cmd r [] = Some (s, []) \<and>
    (case key_indices args of
       None \<Rightarrow> cm_result s = CMD_PARSE_ERROR
     | Some is \<Rightarrow> cm_result s = CMD_PARSE_OK \<and> cm_type s = verb_type (hd args) \<and>
         ka_elem (cm_keys s) = ka_elem (cm_keys r) @ map ((!) (arg_spans args)) is)"
  using scan_command [OF assms(4,5)] assms(1-3) by (auto simp: redis_parse_cmd_def)

lemma key_text_command: "take n cmd = command_bytes args \<Longrightarrow> i < length args \<Longrightarrow> key_text cmd (arg_spans args ! i) = args ! i"
proof -
  assume "take n cmd = command_bytes args" and i: "i < length args"
  then have "cmd = command_bytes args @ drop n cmd" by (metis append_take_drop_id)
  then have "map (key_text cmd) (arg_spans args) ! i = args ! i" using arg_spans_text [of args "drop n cmd"] by simp
  then show ?thesis using i by (simp add: arg_spans_def)
qed

lemma key_indices_less: "key_indices args = Some is \<Longrightarrow> i \<in> set is \<Longrightarrow> i < length args"
  by (auto simp: key_indices_def Let_def intro!: Suc_lessI split: if_splits)

text \<open>What the scanner reports of a command in wire form.\<close>

lemma reported_keys:
  assumes "cm_cmd r = Some cmd" "cm_clen r \<le> length cmd" "take (cm_clen r) cmd = command_bytes args"
    and "length (command_bytes args) < 2 ^ 32" "cm_result r = CMD_PARSE_OK" "ka_elem (cm_keys r) = []"
  shows "\<exists>s. redis_parse_cmd r [] = Some (s, []) \<and>
    (case key_indices args of
       None \<Rightarrow> cm_result s = CMD_PARSE_ERROR
     | Some is \<Rightarrow> cm_result s = CMD_PARSE_OK \<and> cm_type s = verb_type (args ! 0) \<and>
         map (key_text cmd) (ka_elem (cm_keys s)) = map ((!) args) is)"
proof -
  obtain s where s: "redis_parse_cmd r [] = Some (s, [])"
      "case key_indices args of None \<Rightarrow> cm_result s = CMD_PARSE_ERROR
       | Some is \<Rightarrow> cm_result s = CMD_PARSE_OK \<and> cm_type s = verb_type (hd args) \<and>
           ka_elem (cm_keys s) = ka_elem (cm_keys r) @ map ((!) (arg_spans args)) is"
    using parse_command [OF assms(1-5)] by blast
  show ?thesis
  proof (cases "key_indices args")
    case None
    then show ?thesis using s by simp
  next
    case (Some "is")
    then have "args \<noteq> []" by (auto simp: key_indices_def)
    moreover have "map (key_text cmd) (map ((!) (arg_spans args)) is) = map ((!) args) is"
      using key_indices_less [OF Some] key_text_command [OF assms(3)] by simp
    ultimately show ?thesis using s Some assms(6) by (simp add: hd_conv_nth)
  qed
qed

section \<open>The documented formats\<close>

text \<open>The formats that the comments of the classes give, from \<open>command\<close> for those without keys to
  \<open>command subcommand key [ arg ... ]\<close>: which arguments are keys, \<open>None\<close> for a command of another
  shape. A script has its text and the number of its keys, which follow.\<close>

definition is_number :: "bytes \<Rightarrow> bool" where
  "is_number s \<longleftrightarrow> s \<noteq> [] \<and> list_all c_isdigit s"

definition documented_keys :: "bytes list \<Rightarrow> nat list option" where
  "documented_keys args =
     (let n = length args; ty = verb_type (args ! 0); k = digits_val 0 (args ! 2) in
      if n = 0 \<or> args ! 0 = [] \<or> ty = CMD_UNKNOWN then None
      else if redis_argz ty then if n = 1 then Some [] else None
      else if redis_arg0 ty then if n = 2 then Some [1] else None
      else if redis_arg1 ty then if n = 3 then Some [1] else None
      else if redis_arg2 ty then if n = 4 then Some [1] else None
      else if redis_arg3 ty then if n = 5 then Some [1] else None
      else if redis_argn ty then if n \<ge> 2 then Some [1] else None
      else if redis_argx ty then if n \<ge> 2 then Some [1..<n] else None
      else if redis_argkvx ty then if n \<ge> 3 \<and> odd n then Some (filter odd [1..<n]) else None
      else if redis_argeval ty then if n \<ge> 4 \<and> is_number (args ! 2) \<and> 0 < k \<and> 3 + k \<le> n then Some [3..<3 + k] else None
      else if redis_argsub ty then if n \<ge> 3 then Some [2] else None
      else None)"

text \<open>The commands on which the code does not follow its comments: a name alone, a command without
  keys that has arguments, \<open>MSET\<close> with a lone key, and a script with more than one key.\<close>

definition departs :: "bytes list \<Rightarrow> bool" where
  "departs args \<longleftrightarrow> (let n = length args; ty = verb_type (args ! 0) in
     args \<noteq> [] \<and> args ! 0 \<noteq> [] \<and> ty \<noteq> CMD_UNKNOWN \<and>
     ((n = 1) \<noteq> redis_argz ty \<or> redis_argkvx ty \<and> n = 2 \<or> redis_argeval ty \<and> 4 \<le> n \<and> is_number (args ! 2) \<and> 1 < digits_val 0 (args ! 2)))"

lemma digits_val_mono: "v \<le> digits_val v cs"
proof (induction cs arbitrary: v)
  case (Cons c cs)
  have "v \<le> 10 * v + digit_val c" by simp
  with Cons [of "10 * v + digit_val c"] show ?case by (auto intro: le_trans)
qed simp

lemma key_number_digits: "list_all c_isdigit cs \<Longrightarrow> digits_val v cs < 2 ^ 32 \<Longrightarrow> key_number v cs = Some (digits_val v cs)"
proof (induction cs arbitrary: v)
  case (Cons c cs)
  have s: "digits_val v (c # cs) = digits_val (10 * v + digit_val c) cs" using Cons.prems(1) by simp
  have "10 * v + digit_val c < 2 ^ 32" using digits_val_mono [of "10 * v + digit_val c" cs] Cons.prems(2) s by simp
  then have "add_digit v c = 10 * v + digit_val c" by (simp add: add_digit_def mult.commute)
  then show ?case using Cons s by simp
qed simp

lemma key_number_other: "\<not> list_all c_isdigit cs \<Longrightarrow> key_number v cs = None"
  by (induction cs arbitrary: v) auto

lemma script_number:
  assumes "s \<noteq> []" "\<not> (is_number s \<and> 1 < digits_val 0 s)"
  shows "key_number 0 s = (if is_number s then Some (digits_val 0 s) else None)"
  using assms key_number_digits [of s 0] key_number_other [of s 0] by (auto simp: is_number_def)

lemma documented_indices:
  assumes "\<not> departs args"
  shows "key_indices args = documented_keys args"
proof (cases "args = [] \<or> args ! 0 = [] \<or> verb_type (args ! 0) = CMD_UNKNOWN")
  case True
  then show ?thesis by (auto simp: key_indices_def documented_keys_def verb_type_def)
next
  case False
  let ?n = "length args" and ?ty = "verb_type (args ! 0)"
  have ok: "?n = 1 \<longleftrightarrow> redis_argz ?ty" "\<not> (redis_argkvx ?ty \<and> ?n = 2)"
    "redis_argeval ?ty \<Longrightarrow> 4 \<le> ?n \<Longrightarrow> \<not> (is_number (args ! 2) \<and> 1 < digits_val 0 (args ! 2))"
    using assms False by (auto simp: departs_def Let_def)
  have n: "?n \<noteq> 0" using False by simp
  have script: "(if ?n \<ge> 4 \<and> args ! 2 \<noteq> [] \<and> key_number 0 (args ! 2) \<notin> {None, Some 0} then Some [3] else None) =
      (if ?n \<ge> 4 \<and> is_number (args ! 2) \<and> 0 < digits_val 0 (args ! 2) \<and> 3 + digits_val 0 (args ! 2) \<le> ?n
       then Some [3..<3 + digits_val 0 (args ! 2)] else None)" if "redis_argeval ?ty"
  proof (cases "?n \<ge> 4 \<and> args ! 2 \<noteq> []")
    case True
    note s = script_number [of "args ! 2"]
    have b: "\<not> (is_number (args ! 2) \<and> 1 < digits_val 0 (args ! 2))" using ok(3) that True by blast
    consider "\<not> is_number (args ! 2)" | "is_number (args ! 2)" "digits_val 0 (args ! 2) = 0" | "is_number (args ! 2)" "digits_val 0 (args ! 2) = 1"
      using b by linarith
    then show ?thesis using s b True by cases auto
  qed (auto simp: is_number_def)
  show ?thesis
  proof (cases "redis_argz ?ty")
    case True
    then show ?thesis using ok(1) n False by (simp add: key_indices_def documented_keys_def verb_type_def Let_def)
  next
    case nz: False
    have n1: "?n \<noteq> 1" using ok(1) nz by blast
    have n2: "2 \<le> ?n" using n n1 by linarith
    have kv: "(if ?n = 2 \<or> odd ?n then Some (filter odd [1..<?n]) else None) =
        (if 3 \<le> ?n \<and> odd ?n then Some (filter odd [1..<?n]) else None)" if "redis_argkvx ?ty"
    proof -
      have "?n \<noteq> 2" using ok(2) that by blast
      moreover have "3 \<le> ?n" if "odd ?n" using that n2 by (cases "?n = 2") auto
      ultimately show ?thesis by auto
    qed
    show ?thesis
      using False nz n n1 n2 kv script
      unfolding key_indices_def documented_keys_def Let_def verb_type_def by (simp split del: if_split cong: if_cong)
  qed
qed

text \<open>C18: The scanner finds the keys that the comments of the classes describe. A command in the wire
  form that the formatters write is accepted when its name, without regard to case, is known and
  its arguments have the documented format, and refused otherwise; when it is accepted, the ranges
  reported are, in order, those of its keys. This holds for all commands but four kinds, on which
  the code departs from its comments: a name alone, \<open>PING\<close> and \<open>QUIT\<close> with arguments, \<open>MSET\<close> with a lone
  key, and a script that announces more than one key.\<close>

theorem command_keys_found:
  assumes "cm_cmd r = Some cmd" "cm_clen r \<le> length cmd" "take (cm_clen r) cmd = command_bytes args"
    and "length (command_bytes args) < 2 ^ 32" "cm_result r = CMD_PARSE_OK" "ka_elem (cm_keys r) = []" "\<not> departs args"
  shows "\<exists>s. redis_parse_cmd r [] = Some (s, []) \<and>
    (case documented_keys args of
       None \<Rightarrow> cm_result s = CMD_PARSE_ERROR
     | Some is \<Rightarrow> cm_result s = CMD_PARSE_OK \<and> cm_type s = redis_parse_cmd_verb (args ! 0) (length (args ! 0)) \<and>
         map (key_text cmd) (ka_elem (cm_keys s)) = map ((!) args) is)"
  using reported_keys [OF assms(1-6)] unfolding documented_indices [OF assms(7)] verb_type_def .

definition demo_mset :: "bytes list" where
  "demo_mset = [''MSet'', ''k'', ''v'', ''key'', []]"

theorem command_keys_found_witness:
  "\<exists>s. redis_parse_cmd (demo_cmd (command_bytes demo_mset)) [] = Some (s, []) \<and> cm_result s = CMD_PARSE_OK \<and>
     cm_type s = CMD_REQ_REDIS_MSET \<and> map (key_text (command_bytes demo_mset)) (ka_elem (cm_keys s)) = [''k'', ''key'']"
proof -
  have i: "documented_keys demo_mset = Some [1, 3]" "redis_parse_cmd_verb (demo_mset ! 0) (length (demo_mset ! 0)) = CMD_REQ_REDIS_MSET" "\<not> departs demo_mset"
    by code_simp+
  have l: "length (command_bytes demo_mset) = 43" by code_simp
  have k: "map ((!) demo_mset) [1, 3] = [''k'', ''key'']" by (simp add: demo_mset_def)
  show ?thesis
    using command_keys_found [of "demo_cmd (command_bytes demo_mset)" "command_bytes demo_mset" demo_mset] i l k by simp
qed

lemma script_many_keys:
  assumes "is_number s" "1 < digits_val 0 s" "digits_val 0 s < 2 ^ 32"
  shows "s \<noteq> []" "key_number 0 s \<notin> {None, Some 0}"
  using assms key_number_digits [of s 0] by (auto simp: is_number_def)

lemma departing_indices:
  assumes "departs args" "redis_argeval (verb_type (args ! 0)) \<and> 4 \<le> length args \<Longrightarrow> digits_val 0 (args ! 2) < 2 ^ 32"
  shows "key_indices args =
    Some (if length args = 1 \<or> redis_argz (verb_type (args ! 0)) then [] else if redis_argkvx (verb_type (args ! 0)) then [1] else [3])"
proof -
  have d: "args \<noteq> []" "args ! 0 \<noteq> []" "verb_type (args ! 0) \<noteq> CMD_UNKNOWN" using assms(1) by (auto simp: departs_def Let_def)
  show ?thesis
  proof (cases "length args = 1 \<or> redis_argz (verb_type (args ! 0))")
    case True
    then show ?thesis using d by (auto simp: key_indices_def verb_type_def Let_def)
  next
    case False
    then consider (kv) "redis_argkvx (verb_type (args ! 0))" "length args = 2"
      | (script) "redis_argeval (verb_type (args ! 0))" "4 \<le> length args" "is_number (args ! 2)" "1 < digits_val 0 (args ! 2)"
      using assms(1) by (auto simp: departs_def Let_def)
    then show ?thesis
    proof cases
      case kv
      then have ty: "verb_type (args ! 0) = CMD_REQ_REDIS_MSET" by (simp add: redis_argkvx_def)
      have cls: "\<not> redis_argz CMD_REQ_REDIS_MSET" "\<not> redis_arg0 CMD_REQ_REDIS_MSET" "\<not> redis_arg1 CMD_REQ_REDIS_MSET" "\<not> redis_arg2 CMD_REQ_REDIS_MSET"
        "\<not> redis_arg3 CMD_REQ_REDIS_MSET" "\<not> redis_argn CMD_REQ_REDIS_MSET" "\<not> redis_argx CMD_REQ_REDIS_MSET" "redis_argkvx CMD_REQ_REDIS_MSET"
        by code_simp+
      have u: "[1..<2] = [1::nat]" by (simp add: upt_rec)
      show ?thesis using d(2,3) kv(2) False unfolding key_indices_def Let_def verb_type_def [symmetric] ty kv(2) u by (simp add: cls)
    next
      case script
      note many = script_many_keys [OF script(3,4) assms(2) [OF conjI [OF script(1,2)]]]
      have ty: "verb_type (args ! 0) \<in> {CMD_REQ_REDIS_EVAL, CMD_REQ_REDIS_EVALSHA}" using script(1) by (auto simp: redis_argeval_def)
      have cls: "\<forall>ty \<in> set [CMD_REQ_REDIS_EVAL, CMD_REQ_REDIS_EVALSHA]. \<not> redis_argz ty \<and> \<not> redis_arg0 ty \<and> \<not> redis_arg1 ty \<and> \<not> redis_arg2 ty \<and>
          \<not> redis_arg3 ty \<and> \<not> redis_argn ty \<and> \<not> redis_argx ty \<and> \<not> redis_argkvx ty" by code_simp
      have "length args \<noteq> 1" "args \<noteq> []" using script(2) by auto
      then show ?thesis using d(2,3) script(1,2) many bspec [OF cls, of "verb_type (args ! 0)"] ty
        unfolding key_indices_def Let_def verb_type_def [symmetric] by auto
    qed
  qed
qed


definition demo_eval :: "bytes list" where
  "demo_eval = [''eval'', ''return 1'', ''2'', ''k1'', ''k2'']"


end
