(* ===== verification/ClusterSplit.thy ===== *)
theory ClusterSplit
  imports CommandKeys Crc16
begin

text \<open>
  How the cluster client (\<open>hircluster.c\<close>) prepares a command: it finds the slot of the key, and a
  command with several keys is split into one fragment for each slot. The numbers of the fragments
  are printed by \<open>_hi_itoa\<close> of \<open>hiutil.c\<close> into a buffer of 12 bytes that is used again and again.
  \<open>None\<close> is undefined behaviour, an access outside a block included.
\<close>

section \<open>Numbers\<close>

function itoa_loop :: "nat \<Rightarrow> nat \<Rightarrow> bytes \<Rightarrow> (nat \<times> bytes) option" where
  "itoa_loop num len s =
     (if num mod 10 \<noteq> 0 \<or> num div 10 \<noteq> 0 then
        if len + 1 < length s then itoa_loop (num div 10) (len + 1) (s[len + 1 := s ! len, len := char_of (num mod 10 + 48)])
        else None
      else Some (len, s))"
  by pat_completeness auto
termination
  by (relation "measure (\<lambda>(num, len, s). num)") (auto intro: Nat.gr0I)

declare itoa_loop.simps [simp del]

text \<open>The number zero is written without a terminator. The reversal works on the first \<open>len\<close> bytes.\<close>

definition hi_itoa :: "int \<Rightarrow> bytes \<Rightarrow> bytes option" where
  "hi_itoa num s =
     (if num = 0 then write_at s 0 ''0''
      else if num \<le> - (2 ^ 31) then None
      else do {
        (len, s) \<leftarrow> itoa_loop (nat \<bar>num\<bar>) 0 s;
        s \<leftarrow> (if num < 0 then write_at s len ''-'' else Some s);
        let len = (if num < 0 then len + 1 else len);
        s \<leftarrow> write_at s len [NUL];
        Some (swap_ends (take len s) 0 (len - 1) @ drop len s) })"

function uint_len_loop :: "nat \<Rightarrow> nat \<Rightarrow> nat" where
  "uint_len_loop num n = (if num \<noteq> 0 then uint_len_loop (num div 10) (n + 1) else n)"
  by pat_completeness auto
termination
  by (relation "measure fst") auto

declare uint_len_loop.simps [simp del]

definition uint_len :: "nat \<Rightarrow> nat" where
  "uint_len num = (if num = 0 then 1 else uint_len_loop num 0)"

text \<open>\<open>strlen\<close> of the buffer, which must have a terminator.\<close>

definition num_strlen :: "bytes \<Rightarrow> nat option" where
  "num_strlen s = (if NUL \<in> set s then Some (c_strlen s) else None)"

section \<open>Collecting the keys of each slot\<close>

definition REDIS_CLUSTER_SLOTS :: nat where
  "REDIS_CLUSTER_SLOTS = 16384"

text \<open>The fragments by slot, the slot of each key so far (\<open>frag_seq\<close>), the counter of command ids, the
  memory, and \<open>slot_num\<close>.\<close>

record frag_state =
  fg_subs :: "nat \<rightharpoonup> cmd"
  fg_seq :: "nat list"
  fg_id :: nat
  fg_mem :: allocator
  fg_slot :: int

text \<open>The rest of a key of \<open>MSET\<close>: from the end of the key to the end of its value, found by the
  digits of the value's length.\<close>

definition mset_remain :: "bytes \<Rightarrow> nat \<Rightarrow> nat option" where
  "mset_remain cmd kend =
     (let t = drop (kend + 1) cmd; skipped = takeWhile (\<lambda>c. \<not> c_isdigit c) t; u = dropWhile (\<lambda>c. \<not> c_isdigit c) t;
          ds = takeWhile c_isdigit u in
      if dropWhile c_isdigit u = [] then None
      else Some ((foldl add_digit 0 ds + 2 * 2 + (1 + length skipped + length ds)) mod 2 ^ 32))"

datatype fill_exit = Fill_next | Fill_oom | Fill_slot_error

text \<open>One turn of the loop over the keys, for a key \<open>kp\<close> of the command with text \<open>cmd\<close>.\<close>

definition fragment_of :: "nat \<Rightarrow> frag_state \<Rightarrow> cmd option \<times> frag_state" where
  "fragment_of slot st =
     (case fg_subs st slot of
        Some sub \<Rightarrow> (Some sub, st)
      | None \<Rightarrow> (case command_get (fg_id st) (fg_mem st) of
          (None, i, m) \<Rightarrow> (None, st\<lparr>fg_id := i, fg_mem := m\<rparr>)
        | (Some sub, i, m) \<Rightarrow> (Some sub, st\<lparr>fg_id := i, fg_mem := m, fg_subs := (fg_subs st)(slot \<mapsto> sub)\<rparr>)))"

definition add_to_fragment :: "cmd_type \<Rightarrow> bytes \<Rightarrow> keypos \<Rightarrow> frag_state \<Rightarrow> (fill_exit \<times> frag_state) option" where
  "add_to_fragment ty cmd kp st =
     (let slot = unat (keyHashSlot (key_text cmd kp)); st = st\<lparr>fg_slot := int slot\<rparr> in
      if slot \<ge> REDIS_CLUSTER_SLOTS then Some (Fill_slot_error, st)
      else case fragment_of slot st of
        (None, st) \<Rightarrow> Some (Fill_oom, st)
      | (Some sub, st) \<Rightarrow> do {
          let st = st\<lparr>fg_seq := fg_seq st @ [slot]\<rparr>;
          let key_len = (kp_end kp - kp_start kp) mod 2 ^ 32;
          case key_push kp (cm_keys sub) (fg_mem st) of
            (None, m) \<Rightarrow>
              Some (Fill_oom, st\<lparr>fg_mem := m, fg_subs := (fg_subs st)(slot \<mapsto> sub\<lparr>cm_narg := (cm_narg sub + 1) mod 2 ^ 32\<rparr>)\<rparr>)
          | (Some keys, m) \<Rightarrow> do {
              rem \<leftarrow> (if ty = CMD_REQ_REDIS_MSET then mset_remain cmd (kp_end kp) else Some 0);
              let keys = keys\<lparr>ka_elem := butlast (ka_elem keys) @ [kp\<lparr>kp_remain_len := rem\<rparr>]\<rparr>;
              Some (Fill_next, st\<lparr>fg_mem := m, fg_subs := (fg_subs st)(slot \<mapsto>
                sub\<lparr>cm_narg := (cm_narg sub + 1) mod 2 ^ 32, cm_keys := keys, cm_slot_num := int slot,
                    cm_clen := (cm_clen sub + key_len + uint_len key_len + rem) mod 2 ^ 32\<rparr>)\<rparr>) } })"

fun fill_loop :: "cmd_type \<Rightarrow> bytes \<Rightarrow> keypos list \<Rightarrow> frag_state \<Rightarrow> (fill_exit \<times> frag_state) option" where
  "fill_loop ty cmd [] st = Some (Fill_next, st)"
| "fill_loop ty cmd (kp # kps) st =
     (case add_to_fragment ty cmd kp st of
        Some (Fill_next, st) \<Rightarrow> fill_loop ty cmd kps st
      | r \<Rightarrow> r)"

section \<open>Writing the fragments\<close>

text \<open>The constant of the length, and the text between the number of arguments and the first key.\<close>

definition fragment_prefix :: "cmd_type \<Rightarrow> (nat \<times> bytes) option" where
  "fragment_prefix ty =
     (if ty = CMD_REQ_REDIS_MGET then Some (13, CRLF @ ''$4'' @ CRLF @ ''mget'' @ CRLF)
      else if ty = CMD_REQ_REDIS_DEL then Some (12, CRLF @ ''$3'' @ CRLF @ ''del'' @ CRLF)
      else if ty = CMD_REQ_REDIS_EXISTS then Some (15, CRLF @ ''$6'' @ CRLF @ ''exists'' @ CRLF)
      else if ty = CMD_REQ_REDIS_MSET then Some (13, CRLF @ ''$4'' @ CRLF @ ''mset'' @ CRLF)
      else None)"

text \<open>\<open>memcpy\<close> from the text of the command.\<close>

definition copy_from :: "bytes \<Rightarrow> nat \<Rightarrow> nat \<Rightarrow> bytes option" where
  "copy_from cmd start n = (if start + n \<le> length cmd then Some (take n (drop start cmd)) else None)"

definition write_key :: "cmd_type \<Rightarrow> bytes \<Rightarrow> keypos \<Rightarrow> bytes \<Rightarrow> bytes \<Rightarrow> nat \<Rightarrow> (bytes \<times> bytes \<times> nat) option" where
  "write_key ty cmd kp num_str blk idx = do {
     let key_len = (kp_end kp - kp_start kp) mod 2 ^ 32;
     num_str \<leftarrow> hi_itoa (int32 key_len) num_str;
     nl \<leftarrow> num_strlen num_str;
     blk \<leftarrow> write_at blk idx ''$'';
     blk \<leftarrow> write_at blk (idx + 1) (take nl num_str);
     blk \<leftarrow> write_at blk (idx + 1 + nl) CRLF;
     let n = (if ty = CMD_REQ_REDIS_MSET then (key_len + kp_remain_len kp) mod 2 ^ 32 else key_len);
     src \<leftarrow> copy_from cmd (kp_start kp) n;
     blk \<leftarrow> write_at blk (idx + 1 + nl + 2) src;
     let idx = idx + 1 + nl + 2 + n;
     if ty = CMD_REQ_REDIS_MSET then Some (num_str, blk, idx)
     else do { blk \<leftarrow> write_at blk idx CRLF; Some (num_str, blk, idx + 2) } }"

fun write_keys :: "cmd_type \<Rightarrow> bytes \<Rightarrow> keypos list \<Rightarrow> bytes \<Rightarrow> bytes \<Rightarrow> nat \<Rightarrow> (bytes \<times> bytes \<times> nat) option" where
  "write_keys ty cmd [] num_str blk idx = Some (num_str, blk, idx)"
| "write_keys ty cmd (kp # kps) num_str blk idx = do {
     (num_str, blk, idx) \<leftarrow> write_key ty cmd kp num_str blk idx;
     write_keys ty cmd kps num_str blk idx }"

definition build_fragment :: "cmd_type \<Rightarrow> bytes \<Rightarrow> bytes \<Rightarrow> cmd \<Rightarrow> allocator \<Rightarrow> (bool \<times> bytes \<times> cmd \<times> allocator) option" where
  "build_fragment ty cmd num_str sub m =
     (case fragment_prefix ty of
        None \<Rightarrow> Some (True, num_str, sub, m)
      | Some (extra, prefix) \<Rightarrow> do {
          let mset = (ty = CMD_REQ_REDIS_MSET);
          let clen = (cm_clen sub + (if mset then 3 else 5) * cm_narg sub) mod 2 ^ 32;
          let narg = ((if mset then cm_narg sub * 2 else cm_narg sub) + 1) mod 2 ^ 32;
          num_str \<leftarrow> hi_itoa (int32 narg) num_str;
          nl \<leftarrow> num_strlen num_str;
          let clen = (clen + extra + nl) mod 2 ^ 32;
          let sub = sub\<lparr>cm_clen := clen, cm_narg := narg\<rparr>;
          case alloc m of
            (False, m) \<Rightarrow> Some (False, num_str, sub, m)
          | (True, m) \<Rightarrow> do {
              blk \<leftarrow> write_at (replicate clen NUL) 0 ''*'';
              blk \<leftarrow> write_at blk 1 (take nl num_str);
              blk \<leftarrow> write_at blk (1 + nl) prefix;
              (num_str, blk, idx) \<leftarrow> write_keys ty cmd (ka_elem (cm_keys sub)) num_str blk (1 + nl + length prefix);
              Some (True, num_str, sub\<lparr>cm_cmd := Some blk, cm_type := ty\<rparr>, m) } })"

text \<open>The loop over all slots; the fragments go to the list of commands.\<close>

fun build_loop :: "cmd_type \<Rightarrow> bytes \<Rightarrow> (nat \<rightharpoonup> cmd) \<Rightarrow> nat list \<Rightarrow> bytes \<Rightarrow> cmd list \<Rightarrow> allocator \<Rightarrow> (bool \<times> cmd list \<times> allocator) option" where
  "build_loop ty cmd subs [] num_str commands m = Some (True, commands, m)"
| "build_loop ty cmd subs (i # is) num_str commands m =
     (case subs i of
        None \<Rightarrow> build_loop ty cmd subs is num_str commands m
      | Some sub \<Rightarrow> (case build_fragment ty cmd num_str sub m of
          None \<Rightarrow> None
        | Some (False, num_str, sub, m) \<Rightarrow> Some (False, commands, m)
        | Some (True, num_str, sub, m) \<Rightarrow> (case alloc m of
            (False, m) \<Rightarrow> Some (False, commands, m)
          | (True, m) \<Rightarrow> build_loop ty cmd subs is num_str (commands @ [sub\<lparr>cm_type := ty\<rparr>]) m)))"

text \<open>The codes of the errors (\<open>REDIS_ERR_OTHER\<close> and so on, \<open>read.h\<close>).\<close>

definition ERR_OTHER :: int where "ERR_OTHER = 2"
definition ERR_PROTOCOL :: int where "ERR_PROTOCOL = 4"
definition ERR_OOM :: int where "ERR_OOM = 5"
definition ERR_TIMEOUT :: int where "ERR_TIMEOUT = 6"

text \<open>The result: the returned slot, the command, the fragments, the memory, and the error that is
  set in the context, with its code.\<close>

record split_result =
  sp_slot :: int
  sp_command :: cmd
  sp_commands :: "cmd list"
  sp_id :: nat
  sp_mem :: allocator
  sp_error :: "(int \<times> bytes) option"

text \<open>The label \<open>done\<close>: a single fragment is dropped again and the command is sent as it is.\<close>

definition split_done :: "int \<Rightarrow> cmd \<Rightarrow> cmd list \<Rightarrow> nat \<Rightarrow> allocator \<Rightarrow> (int \<times> bytes) option \<Rightarrow> split_result" where
  "split_done slot command commands i m err =
     (if slot \<ge> 0 \<and> length commands = 1
      then \<lparr>sp_slot = slot, sp_command = command\<lparr>cm_frag_seq := None, cm_slot_num := slot\<rparr>, sp_commands = [], sp_id = i, sp_mem = m, sp_error = err\<rparr>
      else \<lparr>sp_slot = slot, sp_command = command, sp_commands = commands, sp_id = i, sp_mem = m, sp_error = err\<rparr>)"

definition split_oom :: "cmd \<Rightarrow> cmd list \<Rightarrow> nat \<Rightarrow> allocator \<Rightarrow> split_result" where
  "split_oom command commands i m =
     \<lparr>sp_slot = -1, sp_command = command, sp_commands = commands, sp_id = i, sp_mem = m, sp_error = Some (ERR_OOM, ''Out of memory'')\<rparr>"

text \<open>\<open>num_str\<close> is the buffer of 12 bytes on the stack, with whatever it holds.\<close>

definition command_pre_fragment :: "bytes \<Rightarrow> cmd \<Rightarrow> cmd list \<Rightarrow> nat \<Rightarrow> allocator \<Rightarrow> split_result option" where
  "command_pre_fragment num_str command commands i m =
     (case alloc m of
        (False, m) \<Rightarrow> Some (split_oom command commands i m)
      | (True, m) \<Rightarrow> (case alloc m of
          (False, m) \<Rightarrow> Some (split_oom command commands i m)
        | (True, m) \<Rightarrow> do {
            cmd \<leftarrow> cm_cmd command;
            (exit, st) \<leftarrow> fill_loop (cm_type command) cmd (ka_elem (cm_keys command))
              \<lparr>fg_subs = Map.empty, fg_seq = [], fg_id = i, fg_mem = m, fg_slot = -1\<rparr>;
            let command = command\<lparr>cm_frag_seq := Some (fg_seq st)\<rparr>;
            case exit of
              Fill_oom \<Rightarrow> Some (split_oom command commands (fg_id st) (fg_mem st))
            | Fill_slot_error \<Rightarrow> Some (split_done (fg_slot st) command commands (fg_id st) (fg_mem st) (Some (ERR_OTHER, ''keyHashSlot return error'')))
            | Fill_next \<Rightarrow> do {
                (ok, commands, m) \<leftarrow> build_loop (cm_type command) cmd (fg_subs st) [0..<REDIS_CLUSTER_SLOTS] num_str commands (fg_mem st);
                Some (if ok then split_done (fg_slot st) command commands (fg_id st) m None
                      else split_oom command commands (fg_id st) m) } }))"

definition command_format_by_slot :: "bytes \<Rightarrow> cmd \<Rightarrow> cmd list \<Rightarrow> nat \<Rightarrow> allocator \<Rightarrow> split_result option" where
  "command_format_by_slot num_str command commands i m =
     (let quit = (\<lambda>slot command m err. Some \<lparr>sp_slot = slot, sp_command = command, sp_commands = commands, sp_id = i, sp_mem = m, sp_error = err\<rparr>) in
      if cm_cmd command = None \<or> cm_clen command = 0 then quit (-1) command m None
      else do {
        (command, m) \<leftarrow> redis_parse_cmd command m;
        if cm_result command = CMD_PARSE_ENOMEM then quit (-1) command m (Some (ERR_OOM, ''Out of memory''))
        else if cm_result command \<noteq> CMD_PARSE_OK then quit (-1) command m (map_option (Pair ERR_PROTOCOL) (cm_errstr command))
        else case ka_elem (cm_keys command) of
          [] \<Rightarrow> quit (-1) command m (Some (ERR_OTHER, ''No keys in command(must have keys for redis cluster mode)''))
        | [kp] \<Rightarrow> do {
            cmd \<leftarrow> cm_cmd command;
            let slot = int (unat (keyHashSlot (key_text cmd kp)));
            quit slot (command\<lparr>cm_slot_num := slot\<rparr>) m None }
        | _ \<Rightarrow> command_pre_fragment num_str command commands i m })"

section \<open>What \<open>_hi_itoa\<close> prints\<close>

lemma hi_itoa_step:
  "rev (dec_nat n) = char_of (n mod 10 + 48) # (if n div 10 = 0 then [] else rev (dec_nat (n div 10)))"
proof (cases "n < 10")
  case True
  then show ?thesis by (subst dec_nat.simps) (simp add: add.commute)
next
  case False
  then show ?thesis by (subst dec_nat.simps) (simp add: add.commute div_eq_0_iff)
qed

lemma itoa_loop_ok:
  "0 < n \<Longrightarrow> len + length (dec_nat n) < length s \<Longrightarrow>
   itoa_loop n len s = Some (len + length (dec_nat n), take len s @ rev (dec_nat n) @ s ! len # drop (len + length (dec_nat n) + 1) s)"
proof (induction n len s rule: itoa_loop.induct)
  case (1 n len s)
  have nz: "n mod 10 \<noteq> 0 \<or> n div 10 \<noteq> 0" using 1(2) by (cases "n < 10") (simp_all add: div_eq_0_iff)
  have l: "length (dec_nat n) = Suc (if n div 10 = 0 then 0 else length (dec_nat (n div 10)))"
    using arg_cong [OF hi_itoa_step [of n], of length] by simp
  let ?c = "char_of (n mod 10 + 48) :: char" and ?s = "s[len + 1 := s ! len, len := char_of (n mod 10 + 48)]"
  have room: "len + 1 < length s" using 1(3) l by simp
  have s: "take (len + 1) ?s = take len s @ [?c]" "?s ! (len + 1) = s ! len" "\<And>k. drop (Suc (Suc (len + k))) ?s = drop (Suc (Suc (len + k))) s"
    using room by (simp_all add: take_Suc_conv_app_nth)
  show ?case
  proof (cases "n div 10 = 0")
    case True
    have "itoa_loop 0 (len + 1) ?s = Some (len + 1, ?s)" by (simp add: itoa_loop.simps)
    moreover have "?s = take len s @ ?c # s ! len # drop (Suc (Suc len)) s"
      using room by (simp add: upd_conv_take_nth_drop take_update_cancel drop_update_swap)
    ultimately show ?thesis using nz room True hi_itoa_step [of n] by (simp add: itoa_loop.simps [of n])
  next
    case False
    then have "itoa_loop (n div 10) (len + 1) ?s = Some (len + 1 + length (dec_nat (n div 10)),
        take (len + 1) ?s @ rev (dec_nat (n div 10)) @ ?s ! (len + 1) # drop (len + 1 + length (dec_nat (n div 10)) + 1) ?s)"
      using 1(1) [OF nz room] 1(3) l by simp
    then show ?thesis using nz room False l hi_itoa_step [of n] s by (simp add: itoa_loop.simps [of n])
  qed
qed

lemma dec_nat_small_length: "n < 2 ^ 31 \<Longrightarrow> length (dec_nat n) \<le> 10"
  by (rule length_dec_nat) simp_all

lemma NUL_notin_dec_nat: "NUL \<notin> set (dec_nat n)"
  using set_dec_nat [of NUL n] by (auto simp: c_isdigit_def uchar_def)

lemma hi_itoa_ok:
  assumes "0 < n" "n < 2 ^ 31" "length s = 12"
  shows "\<exists>s'. hi_itoa (int32 n) s = Some s' \<and> length s' = 12 \<and> num_strlen s' = Some (length (dec_nat n)) \<and> take (length (dec_nat n)) s' = dec_nat n"
proof -
  let ?d = "dec_nat n"
  have l: "length ?d \<le> 10" using dec_nat_small_length [OF assms(2)] .
  have i: "int32 n = int n" using assms(2) by (rule int32_small)
  let ?s = "rev ?d @ s ! 0 # drop (length ?d + 1) s"
  have "itoa_loop n 0 s = Some (length ?d, ?s)" using itoa_loop_ok [OF assms(1), of 0 s] l assms(3) by simp
  moreover have "write_at ?s (length ?d) [NUL] = Some (rev ?d @ NUL # drop (length ?d + 1) s)"
    using l assms(3) by (simp add: write_at_def overwrite_def)
  moreover have "swap_ends (rev ?d) 0 (length ?d - 1) = ?d" using swap_ends_rev [of "rev ?d"] by simp
  ultimately have "hi_itoa (int32 n) s = Some (?d @ NUL # drop (length ?d + 1) s)"
    unfolding i using assms(1) by (simp add: hi_itoa_def Let_def)
  moreover have "num_strlen (?d @ NUL # drop (length ?d + 1) s) = Some (length ?d)"
    by (simp add: num_strlen_def c_strlen_def NUL_notin_dec_nat)
  ultimately show ?thesis using l assms(3) by simp
qed

lemma uint_len_loop_eq: "0 < n \<Longrightarrow> uint_len_loop n k = k + length (dec_nat n)"
proof (induction n k rule: uint_len_loop.induct)
  case (1 n k)
  show ?case
  proof (cases "n < 10")
    case True
    then have "uint_len_loop (n div 10) (k + 1) = k + 1" by (simp add: uint_len_loop.simps)
    then show ?thesis using 1(2) True by (simp add: uint_len_loop.simps [of n] dec_nat.simps [of n])
  next
    case False
    then show ?thesis using 1 by (simp add: uint_len_loop.simps [of n] dec_nat.simps [of n])
  qed
qed

lemma uint_len_eq: "uint_len n = length (dec_nat n)"
  by (cases "n = 0") (simp_all add: uint_len_def uint_len_loop_eq dec_nat.simps [of 0])

text \<open>C40: The number 0 is printed without its terminator: after a longer number the buffer keeps the
  later digits, so that an empty key is given a length of several digits although one was
  counted.\<close>

theorem hi_itoa_zero_keeps_digits:
  assumes "0 < n" "n < 2 ^ 31" "length s = 12"
  shows "\<exists>s1 s2. hi_itoa (int32 n) s = Some s1 \<and> hi_itoa (int32 0) s1 = Some s2 \<and>
    num_strlen s2 = Some (length (dec_nat n)) \<and> take (length (dec_nat n)) s2 = CHR ''0'' # tl (dec_nat n) \<and> uint_len 0 = 1"
proof -
  obtain s1 where s1: "hi_itoa (int32 n) s = Some s1" "length s1 = 12" "num_strlen s1 = Some (length (dec_nat n))" "take (length (dec_nat n)) s1 = dec_nat n"
    using hi_itoa_ok [OF assms] by blast
  obtain c t where c: "s1 = c # t" using s1(2) by (cases s1) auto
  then have d: "dec_nat n = c # tl (dec_nat n)" using s1(4) by (cases "dec_nat n") (auto simp: take_Cons')
  then have nz: "c \<noteq> NUL" using NUL_notin_dec_nat [of n] by (metis list.set_intros(1))
  let ?s2 = "CHR ''0'' # t"
  have "hi_itoa (int32 0) s1 = Some ?s2" by (simp add: hi_itoa_def write_at_def overwrite_def c)
  moreover have "num_strlen ?s2 = num_strlen s1" using nz by (auto simp: c num_strlen_def c_strlen_def c_str_def)
  moreover have "take (length (dec_nat n)) ?s2 = CHR ''0'' # tl (dec_nat n)" using s1(4) d c
    by (metis length_Cons list.sel(3) take_Suc_Cons)
  ultimately show ?thesis using s1 by (auto simp: uint_len_def)
qed

theorem hi_itoa_zero_keeps_digits_witness:
  "\<exists>s1 s2. hi_itoa (int32 13) (replicate 12 NUL) = Some s1 \<and> hi_itoa (int32 0) s1 = Some s2 \<and>
    num_strlen s2 = Some 2 \<and> take 2 s2 = ''03'' \<and> uint_len 0 = 1"
proof -
  have d: "dec_nat 13 = ''13''" by code_simp
  have l: "length ''13'' = 2" by simp
  show ?thesis using hi_itoa_zero_keeps_digits [of 13 "replicate 12 NUL", unfolded d l] by simp
qed

end
