(* ===== verification/ClusterNodes.thy ===== *)
theory ClusterNodes
  imports ClusterSplit Dict SdsText ReplyObjects
begin

text \<open>
  The context of the cluster client (\<open>hircluster.c\<close>) and the nodes it knows. Nodes are addressed by
  numbers, 0 is \<open>NULL\<close>. The \<open>sds\<close> strings of a node are their contents. Using a node that is not
  allocated, or releasing it twice, is \<open>None\<close>. The assertions are compiled out, as they are by
  default. What the sockets do is in \<open>net\<close>: arbitrary functions on the state \<open>'w\<close> of the network;
  a context of \<open>hiredis.c\<close> is known by a number, again with 0 for \<open>NULL\<close>.
\<close>

section \<open>Data\<close>

datatype node_role = REDIS_ROLE_NULL | REDIS_ROLE_MASTER | REDIS_ROLE_SLAVE

text \<open>An array of \<open>hiarray.c\<close>: its elements and the number of allocated ones.\<close>

record 'a arr =
  ar_elem :: "'a list"
  ar_nalloc :: nat

record cluster_slot =
  cs_start :: nat
  cs_end :: nat
  cs_node :: nat

record copen_slot =
  os_slot_num :: nat
  os_migrate :: bool
  os_remote_name :: bytes
  os_node :: nat

record cluster_node =
  nd_name :: "bytes option"
  nd_addr :: "bytes option"
  nd_host :: "bytes option"
  nd_port :: nat
  nd_role :: node_role
  nd_con :: nat
  nd_slots :: "cluster_slot list option"
  nd_slaves :: "nat list option"
  nd_migrating :: "copen_slot arr option"
  nd_importing :: "copen_slot arr option"

definition blank_node :: cluster_node where
  "blank_node = \<lparr>nd_name = None, nd_addr = None, nd_host = None, nd_port = 0, nd_role = REDIS_ROLE_NULL, nd_con = 0,
     nd_slots = None, nd_slaves = None, nd_migrating = None, nd_importing = None\<rparr>"

text \<open>\<open>redisClusterContext\<close> without the counters of \<open>redis_cluster_command_execute\<close>, and with the flags
  taken apart; then the nodes, the memory, the network and the store of replies. \<open>pn_nodes\<close> and
  \<open>pn_names\<close> are the variables \<open>nodes\<close> and \<open>nodes_name\<close> of the parsers below.\<close>

record 'w cluster =
  cc_err :: int
  cc_errstr :: bytes
  cc_add_slave :: bool
  cc_add_openslot :: bool
  cc_use_slots :: bool
  cc_command_timeout :: bool
  cc_username :: "bytes option"
  cc_password :: "bytes option"
  cc_nodes :: "(bytes, nat) dict option"
  cc_slots :: "cluster_slot arr option"
  cc_route_version :: nat
  cc_table :: "nat list option"
  pn_nodes :: "(bytes, nat) dict option"
  pn_names :: "(bytes, nat) dict option"
  cc_heap :: "nat \<rightharpoonup> cluster_node"
  cc_next :: nat
  cc_mem :: allocator
  cc_smem :: memory
  cc_world :: 'w
  cc_store :: store

text \<open>\<open>c->err\<close> and \<open>c->errstr\<close>, \<open>redisConnect\<close> or \<open>redisConnectWithTimeout\<close>, \<open>redisReconnect\<close>,
  \<open>redisSetTimeout\<close>, \<open>redisFree\<close>, \<open>redisAppendFormattedCommand\<close>, \<open>__redisBlockForReply\<close>, and
  \<open>redisCommand\<close> with the arguments that its format denotes.\<close>

record 'w net =
  net_err :: "nat \<Rightarrow> 'w \<Rightarrow> int"
  net_errstr :: "nat \<Rightarrow> 'w \<Rightarrow> bytes"
  net_connect :: "bytes \<Rightarrow> nat \<Rightarrow> 'w \<Rightarrow> nat \<times> 'w"
  net_reconnect :: "nat \<Rightarrow> 'w \<Rightarrow> 'w"
  net_timeout :: "nat \<Rightarrow> 'w \<Rightarrow> 'w"
  net_free :: "nat \<Rightarrow> 'w \<Rightarrow> 'w"
  net_append :: "nat \<Rightarrow> bytes \<Rightarrow> 'w \<Rightarrow> bool \<times> 'w"
  net_block :: "nat \<Rightarrow> 'w \<Rightarrow> store \<Rightarrow> obj \<times> 'w \<times> store"
  net_command :: "nat \<Rightarrow> bytes list \<Rightarrow> 'w \<Rightarrow> store \<Rightarrow> obj \<times> 'w \<times> store"

text \<open>A new context (\<open>redisClusterContextInit\<close>), with enough memory.\<close>

definition redisClusterContextInit :: "'w \<Rightarrow> store \<Rightarrow> 'w cluster" where
  "redisClusterContextInit w h =
     \<lparr>cc_err = 0, cc_errstr = [], cc_add_slave = False, cc_add_openslot = False, cc_use_slots = False, cc_command_timeout = False,
      cc_username = None, cc_password = None, cc_nodes = None, cc_slots = None, cc_route_version = 0, cc_table = None,
      pn_nodes = None, pn_names = None, cc_heap = Map.empty, cc_next = 1, cc_mem = [], cc_smem = [], cc_world = w, cc_store = h\<rparr>"

section \<open>Errors\<close>

definition REDIS_ERR_CLUSTER_TOO_MANY_RETRIES :: int where "REDIS_ERR_CLUSTER_TOO_MANY_RETRIES = 100"

definition redisClusterSetError :: "int \<Rightarrow> bytes \<Rightarrow> 'w cluster \<Rightarrow> 'w cluster" where
  "redisClusterSetError ty str st = st\<lparr>cc_err := ty, cc_errstr := take 127 (c_str str)\<rparr>"

text \<open>The ways out of a piece of code: its value, the label \<open>oom\<close>, and the label \<open>error\<close> with the
  error already set.\<close>

datatype 'a outcome = Done 'a | Oom | Fail

definition and_then :: "('a outcome \<times> 's) option \<Rightarrow> ('a \<Rightarrow> 's \<Rightarrow> ('b outcome \<times> 's) option) \<Rightarrow> ('b outcome \<times> 's) option" where
  "and_then r k =
     (case r of
        None \<Rightarrow> None
      | Some (Done x, s) \<Rightarrow> k x s
      | Some (Oom, s) \<Rightarrow> Some (Oom, s)
      | Some (Fail, s) \<Rightarrow> Some (Fail, s))"

definition fail_with :: "bytes \<Rightarrow> 'w cluster \<Rightarrow> ('a outcome \<times> 'w cluster) option" where
  "fail_with msg st = Some (Fail, redisClusterSetError ERR_OTHER msg st)"

text \<open>The label \<open>oom\<close> sets its error and passes on to \<open>error\<close>.\<close>

definition catch_oom :: "('a outcome \<times> 'w cluster) option \<Rightarrow> ('a outcome \<times> 'w cluster) option" where
  "catch_oom r =
     (case r of
        Some (Oom, st) \<Rightarrow> Some (Fail, redisClusterSetError ERR_OOM ''Out of memory'' st)
      | _ \<Rightarrow> r)"

section \<open>Memory, strings, lists and arrays\<close>

definition get_block :: "'w cluster \<Rightarrow> (unit outcome \<times> 'w cluster) option" where
  "get_block st = (case alloc (cc_mem st) of (ok, m) \<Rightarrow> Some (if ok then Done () else Oom, st\<lparr>cc_mem := m\<rparr>))"

text \<open>\<open>sdsnewlen\<close> and \<open>sdssplitlen\<close>, with a separator of one byte.\<close>

definition new_text :: "bytes \<Rightarrow> 'w cluster \<Rightarrow> (bytes outcome \<times> 'w cluster) option" where
  "new_text b st = do {
     (r, m) \<leftarrow> sdsnewlen (Some b) (length b) (cc_smem st);
     Some (case r of None \<Rightarrow> Oom | Some s \<Rightarrow> Done (content s), st\<lparr>cc_smem := m\<rparr>) }"

definition split_text :: "bytes \<Rightarrow> byte \<Rightarrow> 'w cluster \<Rightarrow> (bytes list outcome \<times> 'w cluster) option" where
  "split_text s sep st = do {
     (r, n, m) \<leftarrow> sdssplitlen s (int (length s)) [sep] 1 (cc_smem st);
     Some (case r of None \<Rightarrow> Oom | Some ts \<Rightarrow> Done (map content ts), st\<lparr>cc_smem := m\<rparr>) }"

definition arr_create :: "nat \<Rightarrow> 'w cluster \<Rightarrow> ('a arr outcome \<times> 'w cluster) option" where
  "arr_create n st =
     and_then (get_block st) (\<lambda>_ st.
     and_then (get_block st) (\<lambda>_ st. Some (Done \<lparr>ar_elem = [], ar_nalloc = n\<rparr>, st)))"

text \<open>An array of no elements cannot grow: the new element would be outside of its block.\<close>

definition arr_push :: "'a \<Rightarrow> 'a arr \<Rightarrow> 'w cluster \<Rightarrow> ('a arr outcome \<times> 'w cluster) option" where
  "arr_push x a st =
     (if length (ar_elem a) = ar_nalloc a then
        and_then (get_block st) (\<lambda>_ st.
          if ar_nalloc a = 0 then None
          else Some (Done \<lparr>ar_elem = ar_elem a @ [x], ar_nalloc = ar_nalloc a * 2\<rparr>, st))
      else Some (Done (a\<lparr>ar_elem := ar_elem a @ [x]\<rparr>), st))"

text \<open>\<open>_hi_atoi\<close>; the overflow of an \<open>int\<close> is undefined.\<close>

fun atoi_loop :: "bytes \<Rightarrow> int \<Rightarrow> int option" where
  "atoi_loop [] v = Some v"
| "atoi_loop (c # cs) v =
     (if \<not> c_isdigit c then Some (-1)
      else if v * 10 + int (digit_val c) < 2 ^ 31 then atoi_loop cs (v * 10 + int (digit_val c))
      else None)"

definition hi_atoi :: "bytes \<Rightarrow> int option" where
  "hi_atoi line = (if line = [] then Some (-1) else atoi_loop line 0)"

definition hi_valid_port :: "int \<Rightarrow> bool" where
  "hi_valid_port n = (1 \<le> n \<and> n \<le> 65535)"

section \<open>Nodes\<close>

definition update_node :: "nat \<Rightarrow> (cluster_node \<Rightarrow> cluster_node) \<Rightarrow> 'w cluster \<Rightarrow> 'w cluster" where
  "update_node nd f st = st\<lparr>cc_heap := (cc_heap st)(nd := map_option f (cc_heap st nd))\<rparr>"

definition cluster_node_create :: "'w cluster \<Rightarrow> (nat outcome \<times> 'w cluster) option" where
  "cluster_node_create st =
     and_then (get_block st) (\<lambda>_ st.
       Some (Done (cc_next st), st\<lparr>cc_heap := (cc_heap st)(cc_next st \<mapsto> blank_node), cc_next := cc_next st + 1\<rparr>))"

primrec fold_opt :: "('a \<Rightarrow> 's \<Rightarrow> 's option) \<Rightarrow> 'a list \<Rightarrow> 's \<Rightarrow> 's option" where
  "fold_opt f [] s = Some s"
| "fold_opt f (x # xs) s = (case f x s of None \<Rightarrow> None | Some s \<Rightarrow> fold_opt f xs s)"

text \<open>\<open>cluster_node_deinit\<close> and \<open>hi_free\<close> of a node, and so of its slaves. The number of nodes ever
  made bounds the recursion.\<close>

fun free_node :: "nat \<Rightarrow> 'w net \<Rightarrow> nat \<Rightarrow> 'w cluster \<Rightarrow> 'w cluster option" where
  "free_node 0 net nd st = None"
| "free_node (Suc n) net nd st =
     (if nd = 0 then Some st
      else case cc_heap st nd of
        None \<Rightarrow> None
      | Some node \<Rightarrow>
          let st = (if nd_con node = 0 then st else st\<lparr>cc_world := net_free net (nd_con node) (cc_world st)\<rparr>) in
          (case fold_opt (free_node n net) (case nd_slaves node of None \<Rightarrow> [] | Some ss \<Rightarrow> ss) st of
             None \<Rightarrow> None
           | Some st \<Rightarrow> Some (st\<lparr>cc_heap := (cc_heap st)(nd := None)\<rparr>)))"

definition node_release :: "'w net \<Rightarrow> nat \<Rightarrow> 'w cluster \<Rightarrow> 'w cluster option" where
  "node_release net nd st = free_node (cc_next st + 1) net nd st"

text \<open>\<open>dictRelease\<close> of a dictionary that owns its nodes.\<close>

definition nodes_release :: "'w net \<Rightarrow> (bytes, nat) dict \<Rightarrow> 'w cluster \<Rightarrow> 'w cluster option" where
  "nodes_release net d st = fold_opt (\<lambda>(k, nd). node_release net nd) (fst (dictClear d)) st"

text \<open>The entries in the order of the iterator.\<close>

definition dict_walk :: "('k, 'v) dict \<Rightarrow> ('k \<times> 'v) list" where
  "dict_walk d = map the (takeWhile (\<lambda>r. r \<noteq> None) (dict_answers (ht_used d + 1) d dictInitIterator))"

definition create_slots :: "nat \<Rightarrow> 'w cluster \<Rightarrow> (unit outcome \<times> 'w cluster) option" where
  "create_slots nd st = and_then (get_block st) (\<lambda>_ st. Some (Done (), update_node nd (\<lambda>n. n\<lparr>nd_slots := Some []\<rparr>) st))"

text \<open>The end of \<open>cluster_slot_create\<close> and \<open>cluster_slot_ref_node\<close>: the slot is appended to the list
  of its node, which is created first when there is none.\<close>

definition attach_slot :: "nat \<Rightarrow> nat \<Rightarrow> nat \<Rightarrow> 'w cluster \<Rightarrow> (unit outcome \<times> 'w cluster) option" where
  "attach_slot start end' nd st = do {
     node \<leftarrow> cc_heap st nd;
     and_then (if nd_slots node = None then create_slots nd st else Some (Done (), st)) (\<lambda>_ st.
     and_then (get_block st) (\<lambda>_ st.
       Some (Done (), update_node nd (\<lambda>n. n\<lparr>nd_slots := map_option (\<lambda>ss. ss @ [\<lparr>cs_start = start, cs_end = end', cs_node = nd\<rparr>]) (nd_slots n)\<rparr>) st))) }"

definition cluster_slot_create :: "nat \<Rightarrow> nat \<Rightarrow> nat \<Rightarrow> 'w cluster \<Rightarrow> (unit outcome \<times> 'w cluster) option" where
  "cluster_slot_create start end' nd st = and_then (get_block st) (\<lambda>_ st. attach_slot start end' nd st)"

text \<open>The callers go to \<open>oom\<close> whatever the reason of a failure is.\<close>

definition cluster_slot_ref_node :: "nat \<Rightarrow> nat \<Rightarrow> nat \<Rightarrow> 'w cluster \<Rightarrow> (unit outcome \<times> 'w cluster) option" where
  "cluster_slot_ref_node start end' nd st =
     (if nd = 0 then Some (Oom, st)
      else do {
        node \<leftarrow> cc_heap st nd;
        if nd_role node \<noteq> REDIS_ROLE_MASTER then Some (Oom, st) else attach_slot start end' nd st })"

definition cluster_open_slot_create :: "int \<Rightarrow> bool \<Rightarrow> bytes \<Rightarrow> nat \<Rightarrow> 'w cluster \<Rightarrow> (copen_slot outcome \<times> 'w cluster) option" where
  "cluster_open_slot_create slot_num migrate name nd st =
     and_then (get_block st) (\<lambda>_ st.
     and_then (new_text name st) (\<lambda>name st.
       Some (Done \<lparr>os_slot_num = nat (slot_num mod 2 ^ 32), os_migrate = migrate, os_remote_name = name, os_node = nd\<rparr>, st)))"

section \<open>Strings while memory lasts\<close>

lemma sep_free_single: "sep_free [c] t \<longleftrightarrow> c \<notin> set t"
proof
  assume f: "sep_free [c] t"
  show "c \<notin> set t"
  proof
    assume "c \<in> set t"
    then obtain i where "i < length t" "t ! i = c" by (auto simp: in_set_conv_nth)
    then have "take 1 (drop i t) = [c]" "i + 1 \<le> length t" by (simp_all add: take_Suc_conv_app_nth take_Suc hd_drop_conv_nth)
    then show False using f \<open>i < length t\<close> by (auto simp: sep_free_def)
  qed
next
  assume "c \<notin> set t"
  then show "sep_free [c] t" by (auto simp: sep_free_def take_Suc hd_drop_conv_nth)
qed

lemma join_with_inj:
  "xs \<noteq> [] \<Longrightarrow> ys \<noteq> [] \<Longrightarrow> \<forall>x \<in> set xs. c \<notin> set x \<Longrightarrow> \<forall>y \<in> set ys. c \<notin> set y \<Longrightarrow> join_with [c] xs = join_with [c] ys \<Longrightarrow> xs = ys"
proof (induction xs arbitrary: ys)
  case (Cons x xs)
  obtain y ys' where ys: "ys = y # ys'" using Cons.prems(2) by (cases ys) auto
  have J: "join_with [c] (a # as) = a @ (if as = [] then [] else c # join_with [c] as)" for a as by (cases as) auto
  have e: "x @ (if xs = [] then [] else c # join_with [c] xs) = y @ (if ys' = [] then [] else c # join_with [c] ys')"
    using Cons.prems(5) by (simp add: ys J)
  have f: "c \<notin> set x" "c \<notin> set y" using Cons.prems(3,4) ys by auto
  have tw: "takeWhile (\<lambda>b. b \<noteq> c) (a @ (if as = [] then [] else c # join_with [c] as)) = a" if "c \<notin> set a" for a and as :: "bytes list"
    using that by (subst takeWhile_append2) auto
  have xy: "x = y" using arg_cong [OF e, of "takeWhile (\<lambda>b. b \<noteq> c)"] tw f by metis
  then have "(xs = []) = (ys' = [])" "xs \<noteq> [] \<Longrightarrow> join_with [c] xs = join_with [c] ys'" using e by (auto split: if_splits)
  then show ?case using Cons.IH [of ys'] Cons.prems xy ys by auto
qed simp

lemma get_block_ok [simp]: "cc_mem st = [] \<Longrightarrow> get_block st = Some (Done (), st)"
  by (cases st) (simp add: get_block_def)

lemma and_then_simps [simp]: "and_then (Some (Done x, s)) k = k x s" "and_then (Some (Oom, s)) k = Some (Oom, s)" "and_then (Some (Fail, s)) k = Some (Fail, s)"
  by (simp_all add: and_then_def)

lemma new_text_ok:
  assumes "length b < 2 ^ 63" "willing (cc_smem st)"
  shows "\<exists>m. new_text b st = Some (Done b, st\<lparr>cc_smem := m\<rparr>) \<and> willing m"
proof -
  have "delivers (cc_smem st) (sdsnewlen (Some b) (length b) (cc_smem st)) (\<lambda>s. sds_ok s \<and> content s = take (length b) b)"
    using sdsnewlen_ok [of "length b" "Some b"] assms(1) by simp
  from delivers_willing [OF this assms(2)] show ?thesis by (auto simp: new_text_def)
qed

lemma split_text_ok:
  assumes "join_with [c] ts = s" "s \<noteq> []" "length s < 2 ^ 31" "ts \<noteq> []" "\<forall>t \<in> set ts. c \<notin> set t" "willing (cc_smem st)"
  shows "\<exists>m. split_text s c st = Some (Done ts, st\<lparr>cc_smem := m\<rparr>) \<and> willing m"
proof -
  obtain b m0 where m0: "s_malloc (8 * 5) (cc_smem st) = (Some b, m0)" "willing m0"
    using assms(6) by (cases rule: s_malloc_cases [of "8 * 5" "cc_smem st"]) auto
  have "delivers m0 (split_loop s (length s) [c] (length [c]) 0 0 [] 5 m0)
      (\<lambda>ts. (\<forall>t \<in> set ts. sds_ok t \<and> sep_free [c] (content t)) \<and> join_with [c] (map content ts) = s)"
    using assms(3) by (intro split_loop_ok) auto
  from delivers_willing [OF this m0(2)] obtain us m1 where
    us: "split_loop s (length s) [c] 1 0 0 [] 5 m0 = Some (Some us, m1)" "willing m1"
      "\<forall>t \<in> set us. c \<notin> set (content t)" "join_with [c] (map content us) = s" by (auto simp: sep_free_single)
  have "us \<noteq> []" using us(4) assms(2) by auto
  then have "map content us = ts" using join_with_inj [of "map content us" ts c] us assms(1,4,5) by auto
  then show ?thesis using m0(1) us assms(2) by (auto simp: split_text_def sdssplitlen_def)
qed

end
