(* ===== verification/ClusterRoute.thy ===== *)
theory ClusterRoute
  imports ClusterNodes
begin

text \<open>
  How the cluster client learns which node serves which slot (\<open>hircluster.c\<close>): the replies to
  \<open>CLUSTER NODES\<close>, a text, and to \<open>CLUSTER SLOTS\<close>, an array, are read into nodes, and the table of
  the slots is made from them.
\<close>

section \<open>One node\<close>

text \<open>A new node is given up when something fails; the error has been set then.\<close>

definition give_up :: "nat \<Rightarrow> (nat outcome \<times> 'w cluster) option \<Rightarrow> (nat outcome \<times> 'w cluster) option" where
  "give_up nd r =
     (case catch_oom r of
        Some (Fail, st) \<Rightarrow> Some (Fail, st\<lparr>cc_heap := (cc_heap st)(nd := None)\<rparr>)
      | r' \<Rightarrow> r')"

definition strrchr :: "bytes \<Rightarrow> byte \<Rightarrow> nat option" where
  "strrchr s c =
     (let t = c_str s; n = length (takeWhile (\<lambda>x. x \<noteq> c) (rev t)) in
      if c \<in> set t then Some (length t - 1 - n) else None)"

definition node_get_with_nodes :: "bytes list \<Rightarrow> node_role \<Rightarrow> 'w cluster \<Rightarrow> (nat outcome \<times> 'w cluster) option" where
  "node_get_with_nodes info role st =
     (if length info < 8 then Some (Fail, st)
      else and_then (catch_oom (cluster_node_create st)) (\<lambda>nd st.
        give_up nd (
          and_then (if role = REDIS_ROLE_MASTER then create_slots nd st else Some (Done (), st)) (\<lambda>_ st.
          let st = update_node nd (\<lambda>n. n\<lparr>nd_name := Some (info ! 0), nd_addr := Some (info ! 1), nd_role := role\<rparr>) st in
          case strrchr (info ! 1) (CHR '':'') of
            None \<Rightarrow> fail_with ''server address is incorrect, port separator missing.'' st
          | Some p \<Rightarrow>
              and_then (new_text (take p (info ! 1)) st) (\<lambda>host st. do {
                port \<leftarrow> hi_atoi (takeWhile (\<lambda>c. c \<noteq> CHR ''@'') (drop (p + 1) (c_str (info ! 1))));
                Some (Done nd, update_node nd (\<lambda>n. n\<lparr>nd_host := Some host, nd_port := nat (port mod 2 ^ 16)\<rparr>) st) })))))"

text \<open>The text of an element of the reply, and \<open>host:port\<close>. The conversion \<open>%i\<close> takes the low 32 bits
  of the \<open>long long\<close> that is passed.\<close>

definition low_int :: "int \<Rightarrow> int" where
  "low_int i = sint (word_of_int i :: 32 word)"

definition reply_text :: "redisReply \<Rightarrow> bytes option" where
  "reply_text r = map_option (take (rp_len r)) (rp_str r)"

definition address_text :: "redisReply \<Rightarrow> redisReply \<Rightarrow> 'w cluster \<Rightarrow> (bytes outcome \<times> 'w cluster) option" where
  "address_text ip port st = do {
     t \<leftarrow> reply_text ip;
     (r, m) \<leftarrow> sdsnewlen (Some t) (length t) (cc_smem st);
     case r of
       None \<Rightarrow> Some (Oom, st\<lparr>cc_smem := m\<rparr>)
     | Some s \<Rightarrow> do {
         (r, m) \<leftarrow> sdscatfmt s '':%i'' [Arg_int (low_int (rp_integer port))] m;
         Some (case r of None \<Rightarrow> Oom | Some s \<Rightarrow> Done (content s), st\<lparr>cc_smem := m\<rparr>) } }"

definition node_get_with_slots :: "redisReply \<Rightarrow> redisReply \<Rightarrow> node_role \<Rightarrow> 'w cluster \<Rightarrow> (nat outcome \<times> 'w cluster) option" where
  "node_get_with_slots ip port role st =
     (if rp_type ip \<noteq> REDIS_REPLY_STRING \<or> rp_len ip = 0 then
        fail_with ''Command(cluster slots) reply error: node ip is not string.'' st
      else if rp_type port \<noteq> REDIS_REPLY_INTEGER \<or> rp_integer port \<le> 0 then
        fail_with ''Command(cluster slots) reply error: node port is not integer.'' st
      else if \<not> hi_valid_port (low_int (rp_integer port)) then
        fail_with ''Command(cluster slots) reply error: node port is not valid.'' st
      else and_then (catch_oom (cluster_node_create st)) (\<lambda>nd st.
        give_up nd (
          and_then (if role = REDIS_ROLE_MASTER then create_slots nd st else Some (Done (), st)) (\<lambda>_ st.
          and_then (address_text ip port st) (\<lambda>addr st. do {
            t \<leftarrow> reply_text ip;
            and_then (new_text t st) (\<lambda>host st.
              Some (Done nd, update_node nd (\<lambda>n. n\<lparr>nd_addr := Some addr, nd_host := Some host, nd_name := None,
                nd_port := nat (low_int (rp_integer port) mod 2 ^ 16), nd_role := role\<rparr>) st)) })))))"

section \<open>Masters and slaves\<close>

text \<open>The loop that moves the slaves of \<open>old\<close> to the head of the list of \<open>nd\<close>, one after the other.\<close>

fun move_slaves :: "nat \<Rightarrow> nat \<Rightarrow> nat list \<Rightarrow> 'w cluster \<Rightarrow> (unit outcome \<times> 'w cluster) option" where
  "move_slaves nd old [] st = Some (Done (), update_node old (\<lambda>n. n\<lparr>nd_slaves := None\<rparr>) st)"
| "move_slaves nd old (x # xs) st =
     and_then (get_block st) (\<lambda>_ st.
       move_slaves nd old xs
         (update_node old (\<lambda>n. n\<lparr>nd_slaves := Some xs\<rparr>) (update_node nd (\<lambda>n. n\<lparr>nd_slaves := map_option (Cons x) (nd_slaves n)\<rparr>) st)))"

definition need_slaves :: "nat \<Rightarrow> 'w cluster \<Rightarrow> (unit outcome \<times> 'w cluster) option" where
  "need_slaves nd st = do {
     node \<leftarrow> cc_heap st nd;
     if nd_slaves node \<noteq> None then Some (Done (), st)
     else and_then (get_block st) (\<lambda>_ st. Some (Done (), update_node nd (\<lambda>n. n\<lparr>nd_slaves := Some []\<rparr>) st)) }"

definition dict_entry_set :: "(bytes, nat) dict \<Rightarrow> bytes \<Rightarrow> nat \<Rightarrow> (bytes, nat) dict" where
  "dict_entry_set d k v =
     (let h = dict_slot (ht_type d) (ht_sizemask d) k in
      d\<lparr>ht_table := (ht_table d)[h := chain_set (ht_type d) k v (ht_table d ! h)]\<rparr>)"

text \<open>\<open>dictAdd\<close> with a copy of the key; \<open>Done False\<close> when it is refused, \<open>Oom\<close> without the copy.\<close>

definition add_copy :: "(bytes, nat) dict \<Rightarrow> bytes \<Rightarrow> nat \<Rightarrow> 'w cluster \<Rightarrow> ((bool \<times> (bytes, nat) dict) outcome \<times> 'w cluster) option" where
  "add_copy d k v st =
     and_then (new_text k st) (\<lambda>key st.
       case dictAdd d key v (cc_mem st) of (r, d, m) \<Rightarrow>
         if r = DICT_ABORT then None else Some (Done (r = DICT_OK, d), st\<lparr>cc_mem := m\<rparr>))"

definition link_masters :: "(bytes, nat) dict \<Rightarrow> bytes \<Rightarrow> nat \<Rightarrow> nat \<Rightarrow> 'w cluster \<Rightarrow> (unit outcome \<times> 'w cluster) option" where
  "link_masters d name nd old st = do {
     node \<leftarrow> cc_heap st nd;
     old_node \<leftarrow> cc_heap st old;
     if nd_role node = REDIS_ROLE_MASTER \<and> nd_role old_node = REDIS_ROLE_MASTER then fail_with ''two masters have the same name'' st
     else if nd_role node = REDIS_ROLE_MASTER \<and> nd_role old_node = REDIS_ROLE_SLAVE then
       and_then (need_slaves nd st) (\<lambda>_ st.
       and_then (case nd_slaves old_node of None \<Rightarrow> Some (Done (), st) | Some ss \<Rightarrow> move_slaves nd old ss st) (\<lambda>_ st.
       and_then (get_block st) (\<lambda>_ st.
         Some (Done (), update_node nd (\<lambda>n. n\<lparr>nd_slaves := map_option (Cons old) (nd_slaves n)\<rparr>)
           (st\<lparr>pn_names := Some (dict_entry_set d name nd)\<rparr>)))))
     else if nd_role node = REDIS_ROLE_SLAVE then
       and_then (need_slaves old st) (\<lambda>_ st.
       and_then (get_block st) (\<lambda>_ st.
         Some (Done (), update_node old (\<lambda>n. n\<lparr>nd_slaves := map_option (\<lambda>ss. ss @ [nd]) (nd_slaves n)\<rparr>) st)))
     else Some (Done (), st) }"

definition cluster_master_slave_mapping_with_name :: "nat \<Rightarrow> bytes \<Rightarrow> 'w cluster \<Rightarrow> (unit outcome \<times> 'w cluster) option" where
  "cluster_master_slave_mapping_with_name nd master_name st = catch_oom (
     and_then (case pn_names st of
         Some d \<Rightarrow> Some (Done d, st)
       | None \<Rightarrow> (case dictCreate clusterNodesDictType (cc_mem st) of
           (None, m) \<Rightarrow> Some (Oom, st\<lparr>cc_mem := m\<rparr>)
         | (Some d, m) \<Rightarrow> Some (Done d, st\<lparr>cc_mem := m, pn_names := Some d\<rparr>))) (\<lambda>d st.
     case dictFind d master_name of
       None \<Rightarrow> and_then (add_copy d master_name nd st) (\<lambda>(ok, d) st. Some (if ok then Done () else Oom, st\<lparr>pn_names := Some d\<rparr>))
     | Some (k, old) \<Rightarrow> if old = 0 then fail_with ''dict get value null'' st else link_masters d k nd old st))"

section \<open>The reply to \<open>CLUSTER NODES\<close>\<close>

definition add_open_slot :: "int \<Rightarrow> bool \<Rightarrow> bytes \<Rightarrow> nat \<Rightarrow> 'w cluster \<Rightarrow> (unit outcome \<times> 'w cluster) option" where
  "add_open_slot slot_num migrate name master st =
     (case cluster_open_slot_create slot_num migrate name master st of
        None \<Rightarrow> None
      | Some (Done oslot, st) \<Rightarrow> do {
          node \<leftarrow> cc_heap st master;
          and_then (case (if migrate then nd_migrating node else nd_importing node) of
              Some a \<Rightarrow> Some (Done a, st) | None \<Rightarrow> arr_create 1 st) (\<lambda>a st.
          and_then (arr_push oslot a st) (\<lambda>a st.
            Some (Done (), update_node master (\<lambda>n. if migrate then n\<lparr>nd_migrating := Some a\<rparr> else n\<lparr>nd_importing := Some a\<rparr>) st))) }
      | Some (_, st) \<Rightarrow> fail_with ''create open slot error'' st)"

text \<open>One word behind the eighth of the line of a master. The words of an open slot are
  \<open>[slot->-node]\<close> and \<open>[slot-<-node]\<close>.\<close>

definition nodes_slots :: "bytes \<Rightarrow> nat \<Rightarrow> 'w cluster \<Rightarrow> (unit outcome \<times> 'w cluster) option" where
  "nodes_slots part master st =
     and_then (split_text part (CHR ''-'') st) (\<lambda>se st. do {
       (start, end', r) \<leftarrow>
         (if length se = 1 then do { v \<leftarrow> hi_atoi (se ! 0); Some (v, v, Some (Done (), st)) }
          else if length se = 2 then do { a \<leftarrow> hi_atoi (se ! 0); b \<leftarrow> hi_atoi (se ! 1); Some (a, b, Some (Done (), st)) }
          else if cc_add_openslot st \<and> length se = 3 \<and> length (se ! 0) > 1 \<and> length (se ! 1) = 1 \<and> length (se ! 2) > 1 \<and>
              hd (se ! 0) = CHR ''['' \<and> last (se ! 2) = CHR '']''
            then if se ! 1 = ''>'' \<or> se ! 1 = ''<''
              then do { n \<leftarrow> hi_atoi (tl (se ! 0)); Some (-1, -1, add_open_slot n (se ! 1 = ''>'') (butlast (se ! 2)) master st) }
              else Some (-1, -1, Some (Done (), st))
          else Some (-1, -1, Some (Done (), st)));
       and_then r (\<lambda>_ st.
         if start < 0 \<or> end' < 0 \<or> start > end' \<or> end' \<ge> int REDIS_CLUSTER_SLOTS then Some (Done (), st)
         else cluster_slot_create (nat start) (nat end') master st) })"

fun nodes_slot_words :: "bytes list \<Rightarrow> nat \<Rightarrow> 'w cluster \<Rightarrow> (unit outcome \<times> 'w cluster) option" where
  "nodes_slot_words [] master st = Some (Done (), st)"
| "nodes_slot_words (part # parts) master st =
     and_then (nodes_slots part master st) (\<lambda>_ st. nodes_slot_words parts master st)"

text \<open>A failure that releases a node on its way out.\<close>

definition or_release :: "'w net \<Rightarrow> nat \<Rightarrow> (unit outcome \<times> 'w cluster) option \<Rightarrow> (unit outcome \<times> 'w cluster) option" where
  "or_release net nd r =
     (case r of
        Some (Done _, st) \<Rightarrow> r
      | Some (e, st) \<Rightarrow> map_option (Pair e) (node_release net nd st)
      | None \<Rightarrow> None)"

definition nodes_add_master :: "'w net \<Rightarrow> bytes list \<Rightarrow> 'w cluster \<Rightarrow> (unit outcome \<times> 'w cluster) option" where
  "nodes_add_master net part st =
     and_then (node_get_with_nodes part REDIS_ROLE_MASTER st) (\<lambda>master st. do {
       node \<leftarrow> cc_heap st master;
       addr \<leftarrow> nd_addr node;
       nodes \<leftarrow> pn_nodes st;
       and_then (or_release net master (
         and_then (add_copy nodes addr master st) (\<lambda>(ok, nodes) st.
           let st = st\<lparr>pn_nodes := Some nodes\<rparr> in
           if ok then Some (Done (), st) else fail_with ''The address already exists in the nodes'' st))) (\<lambda>_ st.
       and_then (or_release net master (
         if cc_add_slave st then cluster_master_slave_mapping_with_name master (part ! 0) st else Some (Done (), st))) (\<lambda>_ st.
       nodes_slot_words (drop 8 part) master st)) })"

definition nodes_add_slave :: "'w net \<Rightarrow> bytes list \<Rightarrow> 'w cluster \<Rightarrow> (unit outcome \<times> 'w cluster) option" where
  "nodes_add_slave net part st =
     and_then (node_get_with_nodes part REDIS_ROLE_SLAVE st) (\<lambda>slave st.
       or_release net slave (cluster_master_slave_mapping_with_name slave (part ! 3) st))"

definition starts_with :: "bytes \<Rightarrow> bytes \<Rightarrow> bool" where
  "starts_with p s \<longleftrightarrow> length p \<le> length s \<and> take (length p) s = p"

definition nodes_line :: "'w net \<Rightarrow> bytes \<Rightarrow> 'w cluster \<Rightarrow> (unit outcome \<times> 'w cluster) option" where
  "nodes_line net line st =
     and_then (split_text line (CHR '' '') st) (\<lambda>part st.
       if length part < 8 then fail_with ''split cluster nodes error'' st
       else if part ! 1 = '':0'' then Some (Done (), st)
       else let role = (if starts_with ''myself,'' (part ! 2) then drop 7 (part ! 2) else part ! 2) in
         if starts_with ''master'' role then nodes_add_master net part st
         else if cc_add_slave st \<and> starts_with ''slave'' role then nodes_add_slave net part st
         else Some (Done (), st))"

text \<open>The loop over the text. Behind the end of a line it also steps over the next byte, whatever it
  is.\<close>

function nodes_loop :: "'w net \<Rightarrow> bytes \<Rightarrow> nat \<Rightarrow> nat \<Rightarrow> 'w cluster \<Rightarrow> (unit outcome \<times> 'w cluster) option" where
  "nodes_loop net s pos line_start st =
     (if pos < length s then
        if s ! pos = LF then
          and_then (nodes_line net (take (pos - line_start) (drop line_start s)) st) (\<lambda>_ st. nodes_loop net s (pos + 2) (pos + 1) st)
        else nodes_loop net s (pos + 1) line_start st
      else Some (Done (), st))"
  by pat_completeness auto
termination
  by (relation "measure (\<lambda>(net, s, pos, line_start, st). length s - pos)") auto

declare nodes_loop.simps [simp del]

text \<open>The label \<open>error\<close> releases the nodes that were made.\<close>

definition with_nodes :: "'w net \<Rightarrow> ('w cluster \<Rightarrow> (unit outcome \<times> 'w cluster) option) \<Rightarrow> 'w cluster \<Rightarrow> ((bytes, nat) dict outcome \<times> 'w cluster) option" where
  "with_nodes net parse st = catch_oom (
     case dictCreate clusterNodesDictType (cc_mem st) of
       (None, m) \<Rightarrow> Some (Oom, st\<lparr>cc_mem := m\<rparr>)
     | (Some d, m) \<Rightarrow>
         (case catch_oom (parse (st\<lparr>cc_mem := m, pn_nodes := Some d, pn_names := None\<rparr>)) of
            None \<Rightarrow> None
          | Some (Done _, st) \<Rightarrow> do { d \<leftarrow> pn_nodes st; Some (Done d, st\<lparr>pn_nodes := None, pn_names := None\<rparr>) }
          | Some (_, st) \<Rightarrow> do {
              d \<leftarrow> pn_nodes st;
              st \<leftarrow> nodes_release net d st;
              Some (Fail, st\<lparr>pn_nodes := None, pn_names := None\<rparr>) }))"

definition parse_cluster_nodes :: "'w net \<Rightarrow> bytes \<Rightarrow> 'w cluster \<Rightarrow> ((bytes, nat) dict outcome \<times> 'w cluster) option" where
  "parse_cluster_nodes net str st = with_nodes net (nodes_loop net str 0 0) st"

section \<open>The dictionary of nodes\<close>

lemma dict_used: "dict_inv d \<Longrightarrow> ht_used d = card (dom (dict_map d))"
proof -
  assume "dict_inv d"
  then have "distinct (map fst (concat (ht_table d)))" "ht_used d = length (map fst (concat (ht_table d)))" by (simp_all add: dict_inv_def)
  then show ?thesis using distinct_card [of "map fst (concat (ht_table d))"] by (simp add: dict_map_def dom_map_of_conv_image_fst)
qed

definition nodes_dict :: "(bytes, nat) dict \<Rightarrow> bool" where
  "nodes_dict d \<longleftrightarrow> dict_inv d \<and> ht_type d = clusterNodesDictType \<and> ht_used d < 2 ^ 31"

lemma nodes_dict_init: "nodes_dict (dictInit clusterNodesDictType)" "dict_map (dictInit clusterNodesDictType) = Map.empty"
  by (simp_all add: nodes_dict_def dict_map_def) (simp_all add: dictInit_def)

lemma nodes_dict_find: "nodes_dict d \<Longrightarrow> dictFind d k = map_option (Pair k) (dict_map d k)"
  by (simp add: nodes_dict_def cluster_keys.find_spec)

lemma add_copy_ok:
  assumes "nodes_dict d" "cc_mem st = []" "willing (cc_smem st)" "length k < 2 ^ 63"
  shows "\<exists>d' m. add_copy d k v st = Some (Done (dict_map d k = None, d'), st\<lparr>cc_smem := m\<rparr>) \<and> willing m \<and>
    dict_inv d' \<and> ht_type d' = clusterNodesDictType \<and> dict_map d' = (if dict_map d k = None then (dict_map d)(k \<mapsto> v) else dict_map d)"
proof -
  obtain m where m: "new_text k st = Some (Done k, st\<lparr>cc_smem := m\<rparr>)" "willing m" using new_text_ok [OF assms(4,3)] by blast
  obtain r d' m' where r: "dictAdd d k v [] = (r, d', m')" by (cases "dictAdd d k v []")
  have set_val: "dictSetHashVal clusterNodesDictType w a = (w, a)" "dictSetHashKey clusterNodesDictType q a = (q, a)" for w q and a
    by (simp_all add: dictSetHashVal_def dictSetHashKey_def clusterNodesDictType_def)
  note spec = cluster_keys.add_spec [OF _ _ _ r] 
  have a: "r \<noteq> DICT_ABORT" "dict_inv d'" "ht_type d' = clusterNodesDictType" "r = DICT_OK \<longleftrightarrow> dict_map d k = None"
      "r = DICT_OK \<Longrightarrow> dict_map d' = (dict_map d)(k \<mapsto> v)" "r = DICT_ERR \<Longrightarrow> dict_map d' = dict_map d"
    using spec assms(1) unfolding nodes_dict_def set_val by auto
  obtain i r0 d0 m0 where e: "dictKeyIndex d k [] = (i, r0, d0, m0)" by (cases "dictKeyIndex d k []")
  have "m0 = []" "ht_type d0 = clusterNodesDictType" using cluster_keys.key_index_spec [OF _ _ _ e] assms(1) unfolding nodes_dict_def by simp_all
  then have "m' = []" using r e by (simp add: dictAdd_def set_val split: if_splits)
  then have c: "add_copy d k v st = Some (Done (r = DICT_OK, d'), st\<lparr>cc_smem := m\<rparr>)"
    using m(1) r a(1) assms(2) by (simp add: add_copy_def and_then_def)
  show ?thesis
  proof (cases "dict_map d k = None")
    case True
    then have "r = DICT_OK" using a(4) by blast
    then show ?thesis using c m(2) a(2,3,5) True by (intro exI [of _ d'] exI [of _ m]) simp
  next
    case False
    then have "r = DICT_ERR" using a(1,4) by (cases r) simp_all
    then show ?thesis using c m(2) a(2,3,6) False by (intro exI [of _ d'] exI [of _ m]) auto
  qed
qed

end
