(* ===== verification/ClusterUpdate.thy ===== *)
theory ClusterUpdate
  imports ClusterRoute
begin

text \<open>
  The reply to \<open>CLUSTER SLOTS\<close>, the connection to a node, and the update of the table of slots
  (\<open>hircluster.c\<close>).
\<close>

section \<open>The reply to \<open>CLUSTER SLOTS\<close>\<close>

definition slots_master :: "redisReply \<Rightarrow> redisReply \<Rightarrow> nat \<Rightarrow> nat \<Rightarrow> 'w net \<Rightarrow> 'w cluster \<Rightarrow> ((bool \<times> nat) outcome \<times> 'w cluster) option" where
  "slots_master ip port start end' net st =
     and_then (address_text ip port st) (\<lambda>address st. do {
       nodes \<leftarrow> pn_nodes st;
       case dictFind nodes address of
         Some (k, master) \<Rightarrow> and_then (cluster_slot_ref_node start end' master st) (\<lambda>_ st. Some (Done (True, master), st))
       | None \<Rightarrow>
           and_then (node_get_with_slots ip port REDIS_ROLE_MASTER st) (\<lambda>master st. do {
             node \<leftarrow> cc_heap st master;
             addr \<leftarrow> nd_addr node;
             and_then (or_release net master (
               and_then (add_copy nodes addr master st) (\<lambda>(ok, nodes) st. Some (if ok then Done () else Oom, st\<lparr>pn_nodes := Some nodes\<rparr>)))) (\<lambda>_ st.
             and_then (cluster_slot_ref_node start end' master st) (\<lambda>_ st. Some (Done (False, master), st))) }) })"

definition slots_slave :: "redisReply \<Rightarrow> redisReply \<Rightarrow> nat \<Rightarrow> 'w net \<Rightarrow> 'w cluster \<Rightarrow> (unit outcome \<times> 'w cluster) option" where
  "slots_slave ip port master net st =
     and_then (node_get_with_slots ip port REDIS_ROLE_SLAVE st) (\<lambda>slave st.
       or_release net slave (
         and_then (need_slaves master st) (\<lambda>_ st.
         and_then (get_block st) (\<lambda>_ st.
           Some (Done (), update_node master (\<lambda>n. n\<lparr>nd_slaves := map_option (\<lambda>ss. ss @ [slave]) (nd_slaves n)\<rparr>) st)))))"

text \<open>The elements of one region: its first and its last slot, its master, its slaves. A region of a
  known master ends the loop.\<close>

fun slots_region :: "'w net \<Rightarrow> nat \<Rightarrow> obj list \<Rightarrow> nat \<Rightarrow> nat \<Rightarrow> nat \<Rightarrow> 'w cluster \<Rightarrow> (unit outcome \<times> 'w cluster) option" where
  "slots_region net idx [] start end' master st = Some (Done (), st)"
| "slots_region net idx (e # es) start end' master st =
     (case hs_objs (cc_store st) e of
        None \<Rightarrow> None
      | Some r \<Rightarrow>
          if idx = 0 then
            (if rp_type r \<noteq> REDIS_REPLY_INTEGER then fail_with ''Command(cluster slots) reply error: slot begin is not an integer.'' st
             else slots_region net 1 es (nat (rp_integer r mod 2 ^ 32)) end' master st)
          else if idx = 1 then
            (let end' = nat (rp_integer r mod 2 ^ 32) in
             if rp_type r \<noteq> REDIS_REPLY_INTEGER then fail_with ''Command(cluster slots) reply error: slot end is not an integer.'' st
             else if start > end' then fail_with ''Command(cluster slots) reply error: slot begin is bigger than slot end.'' st
             else slots_region net 2 es start end' master st)
          else if rp_type r \<noteq> REDIS_REPLY_ARRAY \<or> rp_elements r \<noteq> 3 then
            fail_with ''Command(cluster slots) reply error: nodes sub_reply is not an correct array.'' st
          else (case rp_element r of
              Some (ip # port # _) \<Rightarrow>
                if ip = 0 \<or> port = 0 then fail_with ''Command(cluster slots) reply error: master ip or port is not correct.'' st
                else (case (hs_objs (cc_store st) ip, hs_objs (cc_store st) port) of
                  (Some ip, Some port) \<Rightarrow>
                    if rp_type ip \<noteq> REDIS_REPLY_STRING \<or> rp_type port \<noteq> REDIS_REPLY_INTEGER then
                      fail_with ''Command(cluster slots) reply error: master ip or port is not correct.'' st
                    else if idx = 2 then
                      and_then (slots_master ip port start end' net st) (\<lambda>(known, master) st.
                        if known then Some (Done (), st) else slots_region net 3 es start end' master st)
                    else if cc_add_slave st then
                      and_then (slots_slave ip port master net st) (\<lambda>_ st. slots_region net (idx + 1) es start end' master st)
                    else slots_region net (idx + 1) es start end' master st
                | _ \<Rightarrow> None)
            | _ \<Rightarrow> None))"

fun slots_loop :: "'w net \<Rightarrow> obj list \<Rightarrow> 'w cluster \<Rightarrow> (unit outcome \<times> 'w cluster) option" where
  "slots_loop net [] st = Some (Done (), st)"
| "slots_loop net (e # es) st =
     (case hs_objs (cc_store st) e of
        None \<Rightarrow> None
      | Some r \<Rightarrow>
          if rp_type r \<noteq> REDIS_REPLY_ARRAY \<or> rp_elements r < 3 then
            fail_with ''Command(cluster slots) reply error: first sub_reply is not an array.'' st
          else (case rp_element r of
              None \<Rightarrow> None
            | Some fs \<Rightarrow>
                if rp_elements r > length fs then None
                else and_then (get_block st) (\<lambda>_ st.
                     and_then (slots_region net 0 (take (rp_elements r) fs) 0 0 0 st) (\<lambda>_ st. slots_loop net es st))))"

definition parse_cluster_slots :: "'w net \<Rightarrow> redisReply \<Rightarrow> 'w cluster \<Rightarrow> ((bytes, nat) dict outcome \<times> 'w cluster) option" where
  "parse_cluster_slots net r st =
     with_nodes net (\<lambda>st.
       if rp_type r \<noteq> REDIS_REPLY_ARRAY \<or> rp_elements r = 0 then
         fail_with ''Command(cluster slots) reply error: reply is not an array.'' st
       else do {
         es \<leftarrow> rp_element r;
         if rp_elements r \<le> length es then slots_loop net (take (rp_elements r) es) st else None }) st"

section \<open>Connections\<close>

definition net_do :: "('w \<Rightarrow> 'w) \<Rightarrow> 'w cluster \<Rightarrow> 'w cluster" where
  "net_do f st = st\<lparr>cc_world := f (cc_world st)\<rparr>"

definition set_net_error :: "'w net \<Rightarrow> nat \<Rightarrow> 'w cluster \<Rightarrow> 'w cluster" where
  "set_net_error net c st = redisClusterSetError (net_err net c (cc_world st)) (net_errstr net c (cc_world st)) st"

definition has_err :: "'w net \<Rightarrow> nat \<Rightarrow> 'w cluster \<Rightarrow> bool" where
  "has_err net c st \<longleftrightarrow> net_err net c (cc_world st) \<noteq> 0"

definition ask :: "'w net \<Rightarrow> nat \<Rightarrow> bytes list \<Rightarrow> 'w cluster \<Rightarrow> obj \<times> 'w cluster" where
  "ask net c args st = (case net_command net c args (cc_world st) (cc_store st) of (a, w, h) \<Rightarrow> (a, st\<lparr>cc_world := w, cc_store := h\<rparr>))"

definition drop_reply :: "obj \<Rightarrow> 'w cluster \<Rightarrow> 'w cluster" where
  "drop_reply a st = st\<lparr>cc_store := freeReplyObject a (cc_store st)\<rparr>"

definition authenticate :: "'w net \<Rightarrow> nat \<Rightarrow> 'w cluster \<Rightarrow> (bool \<times> 'w cluster) option" where
  "authenticate net c st =
     (if c = 0 then Some (False, st)
      else case cc_password st of
        None \<Rightarrow> Some (True, st)
      | Some pw \<Rightarrow>
          (case ask net c (''AUTH'' # (case cc_username st of None \<Rightarrow> [] | Some u \<Rightarrow> [u]) @ [pw]) st of
             (a, st) \<Rightarrow>
               if a = 0 then Some (False, redisClusterSetError ERR_OTHER ''Command AUTH reply error (NULL)'' st)
               else do {
                 r \<leftarrow> hs_objs (cc_store st) a;
                 if rp_type r = REDIS_REPLY_ERROR
                 then do { s \<leftarrow> rp_str r; Some (False, drop_reply a (redisClusterSetError ERR_OTHER s st)) }
                 else Some (True, drop_reply a st) }))"

text \<open>The context of a node, 0 when there is none.\<close>

definition ctx_get_by_node :: "'w net \<Rightarrow> nat \<Rightarrow> 'w cluster \<Rightarrow> (nat \<times> 'w cluster) option" where
  "ctx_get_by_node net nd st =
     (if nd = 0 then Some (0, st)
      else do {
        node \<leftarrow> cc_heap st nd;
        let c = nd_con node;
        if c \<noteq> 0 then
          (if has_err net c st then do {
             let st = net_do (net_reconnect net c) st;
             let st = (if cc_command_timeout st \<and> \<not> has_err net c st then net_do (net_timeout net c) st else st);
             (ok, st) \<leftarrow> authenticate net c st;
             Some (c, st) }
           else Some (c, st))
        else case nd_host node of
          None \<Rightarrow> Some (0, st)
        | Some host \<Rightarrow>
            if nd_port node = 0 then Some (0, st)
            else (case net_connect net host (nd_port node) (cc_world st) of (c, w) \<Rightarrow> (
              let st = st\<lparr>cc_world := w\<rparr> in
              if c = 0 then Some (0, redisClusterSetError ERR_OOM ''Out of memory'' st)
              else if has_err net c st then Some (0, net_do (net_free net c) (set_net_error net c st))
              else do {
                let st = (if cc_command_timeout st then net_do (net_timeout net c) st else st);
                (ok, st) \<leftarrow> authenticate net c st;
                if \<not> ok then Some (0, net_do (net_free net c) st)
                else Some (c, update_node nd (\<lambda>n. n\<lparr>nd_con := c\<rparr>) st) })) })"

definition node_get_by_table :: "nat \<Rightarrow> 'w cluster \<Rightarrow> nat option" where
  "node_get_by_table slot_num st =
     (case cc_table st of
        None \<Rightarrow> Some 0
      | Some t \<Rightarrow> if slot_num \<ge> REDIS_CLUSTER_SLOTS then Some 0 else if slot_num < length t then Some (t ! slot_num) else None)"

fun connected_loop :: "'w net \<Rightarrow> (bytes \<times> nat) list \<Rightarrow> 'w cluster \<Rightarrow> (nat \<times> 'w cluster) option" where
  "connected_loop net [] st = Some (0, st)"
| "connected_loop net ((k, nd) # es) st =
     (if nd = 0 then connected_loop net es st
      else case ctx_get_by_node net nd st of
        None \<Rightarrow> None
      | Some (c, st) \<Rightarrow>
          if c = 0 \<or> has_err net c st then connected_loop net es st
          else (case ask net c [''PING''] st of
            (a, st) \<Rightarrow>
              if a = 0 then connected_loop net es st
              else (case hs_objs (cc_store st) a of
                None \<Rightarrow> None
              | Some r \<Rightarrow>
                  if rp_type r = REDIS_REPLY_STATUS \<and> (case rp_str r of None \<Rightarrow> False | Some s \<Rightarrow> c_str s = ''PONG'')
                  then Some (nd, drop_reply a st)
                  else connected_loop net es (drop_reply a st))))"

definition node_get_which_connected :: "'w net \<Rightarrow> 'w cluster \<Rightarrow> (nat \<times> 'w cluster) option" where
  "node_get_which_connected net st =
     (case cc_nodes st of None \<Rightarrow> Some (0, st) | Some d \<Rightarrow> connected_loop net (dict_walk d) st)"

section \<open>The table of slots\<close>

text \<open>The nodes with their slots, pushed one after the other.\<close>

fun push_slots :: "cluster_slot list \<Rightarrow> cluster_slot arr \<Rightarrow> 'w cluster \<Rightarrow> (cluster_slot arr outcome \<times> 'w cluster) option" where
  "push_slots [] a st = Some (Done a, st)"
| "push_slots (s # ss) a st =
     (if cs_start s > cs_end s \<or> cs_end s \<ge> REDIS_CLUSTER_SLOTS then fail_with ''Slot region for node is error'' st
      else and_then (arr_push s a st) (\<lambda>a st. push_slots ss a st))"

fun collect_slots :: "(bytes \<times> nat) list \<Rightarrow> cluster_slot arr \<Rightarrow> 'w cluster \<Rightarrow> (cluster_slot arr outcome \<times> 'w cluster) option" where
  "collect_slots [] a st = Some (Done a, st)"
| "collect_slots ((k, nd) # es) a st =
     (case cc_heap st nd of
        None \<Rightarrow> None
      | Some node \<Rightarrow>
          if nd_role node \<noteq> REDIS_ROLE_MASTER then fail_with ''Node role must be master'' st
          else and_then (push_slots (case nd_slots node of None \<Rightarrow> [] | Some ss \<Rightarrow> ss) a st) (\<lambda>a st. collect_slots es a st))"

text \<open>\<open>None\<close> when a slot of the range is taken already.\<close>

fun fill_slots :: "nat list \<Rightarrow> nat \<Rightarrow> nat list \<Rightarrow> nat list option" where
  "fill_slots [] nd t = Some t"
| "fill_slots (k # ks) nd t = (if t ! k \<noteq> 0 then None else fill_slots ks nd (t[k := nd]))"

fun fill_table :: "cluster_slot list \<Rightarrow> nat list \<Rightarrow> nat list option" where
  "fill_table [] t = Some t"
| "fill_table (s # ss) t =
     (case fill_slots [cs_start s..<cs_end s + 1] (cs_node s) t of None \<Rightarrow> None | Some t \<Rightarrow> fill_table ss t)"

text \<open>The order of slots with the same start is left open by \<open>qsort\<close>; two such slots are refused in
  either order.\<close>

definition make_table :: "(bytes, nat) dict \<Rightarrow> 'w cluster \<Rightarrow> ((cluster_slot arr \<times> nat list) outcome \<times> 'w cluster) option" where
  "make_table nodes st =
     and_then (get_block st) (\<lambda>_ st.
     and_then (arr_create (ht_used nodes) st) (\<lambda>a st.
     and_then (collect_slots (dict_walk nodes) a st) (\<lambda>a st.
       let ss = sort_key cs_start (ar_elem a) in
       case fill_table ss (replicate REDIS_CLUSTER_SLOTS 0) of
         None \<Rightarrow> fail_with ''Different node holds same slot'' st
       | Some t \<Rightarrow> Some (Done (a\<lparr>ar_elem := ss\<rparr>, t), st))))"

text \<open>The connections of the known nodes go over to the new nodes with the same address.\<close>

fun swap_ctx_loop :: "(bytes, nat) dict \<Rightarrow> (bytes \<times> nat) list \<Rightarrow> 'w cluster \<Rightarrow> 'w cluster option" where
  "swap_ctx_loop nodes_f [] st = Some st"
| "swap_ctx_loop nodes_f ((k, nd) # es) st =
     (if nd = 0 then swap_ctx_loop nodes_f es st
      else do {
        node_t \<leftarrow> cc_heap st nd;
        addr \<leftarrow> nd_addr node_t;
        case dictFind nodes_f addr of
          None \<Rightarrow> swap_ctx_loop nodes_f es st
        | Some (_, f) \<Rightarrow> do {
            node_f \<leftarrow> cc_heap st f;
            swap_ctx_loop nodes_f es
              (if nd_con node_f \<noteq> 0
               then update_node nd (\<lambda>n. n\<lparr>nd_con := nd_con node_f\<rparr>) (update_node f (\<lambda>n. n\<lparr>nd_con := nd_con node_t\<rparr>) st)
               else st) } })"

definition cluster_nodes_swap_ctx :: "(bytes, nat) dict option \<Rightarrow> (bytes, nat) dict \<Rightarrow> 'w cluster \<Rightarrow> 'w cluster option" where
  "cluster_nodes_swap_ctx nodes_f nodes_t st =
     (case nodes_f of None \<Rightarrow> Some st | Some d \<Rightarrow> swap_ctx_loop d (dict_walk nodes_t) st)"

text \<open>The new nodes take the place of the old ones.\<close>

definition install_nodes :: "'w net \<Rightarrow> (bytes, nat) dict \<Rightarrow> cluster_slot arr \<Rightarrow> nat list \<Rightarrow> 'w cluster \<Rightarrow> 'w cluster option" where
  "install_nodes net nodes slots t st = do {
     st \<leftarrow> cluster_nodes_swap_ctx (cc_nodes st) nodes st;
     st \<leftarrow> (case cc_nodes st of None \<Rightarrow> Some st | Some old \<Rightarrow> nodes_release net old st);
     Some (st\<lparr>cc_nodes := Some nodes, cc_slots := Some slots, cc_table := Some t,
       cc_route_version := (cc_route_version st + 1) mod 2 ^ 64\<rparr>) }"

text \<open>What is done with the nodes of a reply; a failure releases them.\<close>

definition route_from_nodes :: "'w net \<Rightarrow> (bytes, nat) dict \<Rightarrow> 'w cluster \<Rightarrow> (bool \<times> 'w cluster) option" where
  "route_from_nodes net nodes st =
     (case catch_oom (make_table nodes st) of
        None \<Rightarrow> None
      | Some (Done (slots, t), st) \<Rightarrow> do { st \<leftarrow> install_nodes net nodes slots t st; Some (True, st) }
      | Some (_, st) \<Rightarrow> do { st \<leftarrow> nodes_release net nodes st; Some (False, st) })"

text \<open>The reply to the question for the nodes, which has the type \<open>ty\<close>; \<open>name\<close> is in the messages.\<close>

definition route_reply :: "'w net \<Rightarrow> nat \<Rightarrow> int \<Rightarrow> bytes \<Rightarrow> bytes \<Rightarrow> obj \<Rightarrow> (redisReply \<Rightarrow> 'w cluster \<Rightarrow> ((bytes, nat) dict outcome \<times> 'w cluster) option) \<Rightarrow>
    'w cluster \<Rightarrow> (bool \<times> 'w cluster) option" where
  "route_reply net c ty name kind a parse st =
     (if a = 0 then
        Some (False, if net_err net c (cc_world st) = ERR_TIMEOUT
          then redisClusterSetError ERR_TIMEOUT (''Command('' @ name @ '') reply error(socket timeout)'') st
          else redisClusterSetError ERR_OTHER (''Command('' @ name @ '') reply error(NULL).'') st)
      else do {
        r \<leftarrow> hs_objs (cc_store st) a;
        if rp_type r \<noteq> ty then
          (if rp_type r = REDIS_REPLY_ERROR then do { s \<leftarrow> rp_str r; Some (False, redisClusterSetError ERR_OTHER s st) }
           else Some (False, redisClusterSetError ERR_OTHER (''Command('' @ name @ '') reply error: type is not '' @ kind @ ''.'') st))
        else do {
          (e, st) \<leftarrow> parse r st;
          case e of Done nodes \<Rightarrow> route_from_nodes net nodes st | _ \<Rightarrow> Some (False, st) } })"

definition cluster_update_route_by_addr :: "'w net \<Rightarrow> bytes \<Rightarrow> nat \<Rightarrow> 'w cluster \<Rightarrow> (bool \<times> 'w cluster) option" where
  "cluster_update_route_by_addr net ip port st =
     (if port = 0 then Some (False, redisClusterSetError ERR_OTHER ''Ip or port error!'' st)
      else (case net_connect net ip port (cc_world st) of (c, w) \<Rightarrow> (
        let st = st\<lparr>cc_world := w\<rparr> in
        if c = 0 then Some (False, redisClusterSetError ERR_OOM ''Out of memory'' st)
        else if has_err net c st then Some (False, net_do (net_free net c) (set_net_error net c st))
        else do {
          let st = (if cc_command_timeout st then net_do (net_timeout net c) st else st);
          (ok, st) \<leftarrow> authenticate net c st;
          if \<not> ok then Some (False, net_do (net_free net c) st)
          else case ask net c (if cc_use_slots st then [''CLUSTER'', ''SLOTS''] else [''CLUSTER'', ''NODES'']) st of
            (a, st) \<Rightarrow> do {
              (ok, st) \<leftarrow>
                (if cc_use_slots st
                 then route_reply net c REDIS_REPLY_ARRAY ''cluster slots'' ''array'' a (parse_cluster_slots net) st
                 else route_reply net c REDIS_REPLY_STRING ''cluster nodes'' ''string'' a
                   (\<lambda>r st. do { t \<leftarrow> reply_text r; parse_cluster_nodes net t st }) st);
              Some (ok, net_do (net_free net c) (drop_reply a st)) } })))"

fun update_route_loop :: "'w net \<Rightarrow> (bytes \<times> nat) list \<Rightarrow> bool \<Rightarrow> 'w cluster \<Rightarrow> (bool \<times> 'w cluster) option" where
  "update_route_loop net [] err_not_set st =
     Some (False, if err_not_set then redisClusterSetError ERR_OTHER ''no valid server address'' st else st)"
| "update_route_loop net ((k, nd) # es) err_not_set st =
     (if nd = 0 then update_route_loop net es err_not_set st
      else case cc_heap st nd of
        None \<Rightarrow> None
      | Some node \<Rightarrow>
          (case nd_host node of
             None \<Rightarrow> update_route_loop net es err_not_set st
           | Some host \<Rightarrow>
               (case cluster_update_route_by_addr net host (nd_port node) st of
                  None \<Rightarrow> None
                | Some (True, st) \<Rightarrow> Some (True, if cc_err st \<noteq> 0 then st\<lparr>cc_err := 0, cc_errstr := []\<rparr> else st)
                | Some (False, st) \<Rightarrow> update_route_loop net es False st)))"

definition cluster_update_route :: "'w net \<Rightarrow> 'w cluster \<Rightarrow> (bool \<times> 'w cluster) option" where
  "cluster_update_route net st =
     (case cc_nodes st of
        None \<Rightarrow> Some (False, redisClusterSetError ERR_OTHER ''no server address'' st)
      | Some d \<Rightarrow> update_route_loop net (dict_walk d) True st)"

end
