(* ===== verification/ClusterFragments.thy ===== *)
theory ClusterFragments
  imports ClusterSplit
begin

text \<open>
  The fragments of a command with several keys (\<open>hircluster.c\<close>): one for each slot, in the order of
  the slots, each a command in wire form with the keys of its slot in their order.
\<close>

section \<open>The parts of a command\<close>

abbreviation bulks :: "bytes list \<Rightarrow> bytes" where
  "bulks as \<equiv> concat (map bulk_bytes as)"

definition slot_of :: "bytes \<Rightarrow> nat" where
  "slot_of k = unat (keyHashSlot k)"

text \<open>A unit is a key with what belongs to it: for \<open>MSET\<close> its value.\<close>

definition unit_ok :: "cmd_type \<Rightarrow> bytes list \<Rightarrow> bool" where
  "unit_ok ty u \<longleftrightarrow> length u = (if ty = CMD_REQ_REDIS_MSET then 2 else 1) \<and> hd u \<noteq> [] \<and> length (bulks u) < 2 ^ 31"

definition item_at :: "cmd_type \<Rightarrow> bytes \<Rightarrow> keypos \<Rightarrow> bytes list \<Rightarrow> bool" where
  "item_at ty cmd kp u \<longleftrightarrow> unit_ok ty u \<and> kp_remain_len kp = 0 \<and> kp_end kp = kp_start kp + length (hd u) \<and>
     (\<exists>rest. drop (kp_start kp) cmd = hd u @ CRLF @ bulks (tl u) @ rest)"

definition rem_len :: "cmd_type \<Rightarrow> bytes list \<Rightarrow> nat" where
  "rem_len ty u = (if ty = CMD_REQ_REDIS_MSET then 2 + length (bulks (tl u)) else 0)"

definition weight :: "cmd_type \<Rightarrow> bytes list \<Rightarrow> nat" where
  "weight ty u = length (hd u) + length (dec_nat (length (hd u))) + rem_len ty u"

lemma unit_cases:
  assumes "unit_ok ty u"
  obtains k where "u = [k]" "ty \<noteq> CMD_REQ_REDIS_MSET" "k \<noteq> []" | k v where "u = [k, v]" "ty = CMD_REQ_REDIS_MSET" "k \<noteq> []"
  using assms by (cases u; cases "tl u") (auto simp: unit_ok_def split: if_splits)

lemma length_bulk_bytes: "length (bulk_bytes a) = length a + length (dec_nat (length a)) + 5"
  by (simp add: bulk_bytes_def)

lemma weight_bulks: "unit_ok ty u \<Longrightarrow> weight ty u + (if ty = CMD_REQ_REDIS_MSET then 3 else 5) = length (bulks u)"
  by (erule unit_cases) (simp_all add: weight_def rem_len_def length_bulk_bytes)

lemma item_key_text: "item_at ty cmd kp u \<Longrightarrow> key_text cmd kp = hd u"
  by (auto simp: item_at_def key_text_def)

lemma item_key_len: "item_at ty cmd kp u \<Longrightarrow> (kp_end kp - kp_start kp) mod 2 ^ 32 = length (hd u) \<and> 0 < length (hd u) \<and> length (hd u) < 2 ^ 31"
proof -
  assume i: "item_at ty cmd kp u"
  then have u: "unit_ok ty u" by (simp add: item_at_def)
  have "length (hd u) \<le> length (bulks u)" using u by (rule unit_cases) (simp_all add: length_bulk_bytes)
  then show ?thesis using i u by (auto simp: item_at_def unit_ok_def)
qed

lemma takeWhile_digits: "takeWhile c_isdigit (dec_nat n @ CR # s) = dec_nat n" "dropWhile c_isdigit (dec_nat n @ CR # s) = CR # s"
  using set_dec_nat [of _ n] by (simp_all add: takeWhile_append2 dropWhile_append2)

lemma mset_remain_ok:
  assumes "item_at CMD_REQ_REDIS_MSET cmd kp u"
  shows "mset_remain cmd (kp_end kp) = Some (rem_len CMD_REQ_REDIS_MSET u)"
proof -
  have ok: "unit_ok CMD_REQ_REDIS_MSET u" using assms by (simp add: item_at_def)
  then obtain k v where u: "u = [k, v]" by (rule unit_cases) auto
  obtain rest where "drop (kp_start kp) cmd = k @ CRLF @ bulk_bytes v @ rest" using assms u by (auto simp: item_at_def)
  then have "drop (kp_end kp) cmd = CRLF @ bulk_bytes v @ rest" using drop_append_at assms u by (fastforce simp: item_at_def)
  then have d: "drop (kp_end kp + 1) cmd = LF # CHR ''$'' # dec_nat (length v) @ CR # LF # v @ CRLF @ rest"
    using nth_drop_append [of "kp_end kp" cmd CR] by (simp add: bulk_bytes_def)
  have nd: "\<not> c_isdigit (CHR ''$'')" by (simp add: c_isdigit_def uchar_def)
  have h: "\<exists>c cs. dec_nat (length v) = c # cs \<and> c_isdigit c" by (metis dec_nat_not_Nil list.exhaust list.set_intros(1) set_dec_nat)
  have len: "length v + length (dec_nat (length v)) + 7 < 2 ^ 32" "length v < 2 ^ 32"
    using ok u by (auto simp: unit_ok_def length_bulk_bytes)
  have "takeWhile (\<lambda>c. \<not> c_isdigit c) (drop (kp_end kp + 1) cmd) = [LF, CHR ''$'']"
    "dropWhile (\<lambda>c. \<not> c_isdigit c) (drop (kp_end kp + 1) cmd) = dec_nat (length v) @ CR # LF # v @ CRLF @ rest"
    using h nd unfolding d by auto
  then show ?thesis using len fold_dec_nat [OF len(2)]
    by (simp add: mset_remain_def takeWhile_digits rem_len_def u length_bulk_bytes)
qed

section \<open>Collecting the keys\<close>

type_synonym item = "keypos \<times> bytes list"

definition in_slot :: "nat \<Rightarrow> item list \<Rightarrow> item list" where
  "in_slot s ps = filter (\<lambda>(kp, u). slot_of (hd u) = s) ps"

definition sub_ok :: "cmd_type \<Rightarrow> nat \<Rightarrow> item list \<Rightarrow> cmd \<Rightarrow> bool" where
  "sub_ok ty s ps c \<longleftrightarrow> ka_elem (cm_keys c) = map (\<lambda>(kp, u). kp\<lparr>kp_remain_len := rem_len ty u\<rparr>) ps \<and>
     cm_narg c = length ps \<and> cm_clen c = sum_list (map (\<lambda>p. weight ty (snd p)) ps) \<and> cm_slot_num c = int s"

definition fill_ok :: "cmd_type \<Rightarrow> item list \<Rightarrow> frag_state \<Rightarrow> bool" where
  "fill_ok ty ps st \<longleftrightarrow> fg_mem st = [] \<and> fg_seq st = map (\<lambda>p. slot_of (hd (snd p))) ps \<and>
     (ps \<noteq> [] \<longrightarrow> fg_slot st = int (slot_of (hd (snd (last ps))))) \<and>
     (\<forall>s. case fg_subs st s of None \<Rightarrow> in_slot s ps = [] | Some c \<Rightarrow> in_slot s ps \<noteq> [] \<and> sub_ok ty s (in_slot s ps) c)"

lemma slot_of_range: "slot_of k < REDIS_CLUSTER_SLOTS"
  using keyHashSlot_range [of k] by (simp add: slot_of_def REDIS_CLUSTER_SLOTS_def)

lemma in_slot_snoc [simp]: "in_slot s (ps @ [(kp, u)]) = in_slot s ps @ (if slot_of (hd u) = s then [(kp, u)] else [])"
  by (simp add: in_slot_def)

lemma sum_in_slot: "sum_list (map f (in_slot s ps)) \<le> sum_list (map (f :: item \<Rightarrow> nat) ps)"
  unfolding in_slot_def by (rule sum_list_filter_le_nat)

lemma command_get_granted: "\<exists>c. command_get i [] = (Some c, (i + 1) mod 2 ^ 64, []) \<and> ka_elem (cm_keys c) = [] \<and> cm_narg c = 0 \<and> cm_clen c = 0"
  by (simp add: command_get_def key_create_def Let_def)

lemma add_to_fragment_ok:
  assumes "fill_ok ty ps st" "item_at ty cmd kp u" "sum_list (map (\<lambda>p. weight ty (snd p)) (ps @ [(kp, u)])) < 2 ^ 32" "length ps + 1 < 2 ^ 32"
  shows "\<exists>st'. add_to_fragment ty cmd kp st = Some (Fill_next, st') \<and> fill_ok ty (ps @ [(kp, u)]) st'"
proof -
  let ?s = "slot_of (hd u)" and ?st = "st\<lparr>fg_slot := int (slot_of (hd u))\<rparr>"
  have slot: "unat (keyHashSlot (key_text cmd kp)) = ?s" using item_key_text [OF assms(2)] by (simp add: slot_of_def)
  have subs: "case fg_subs st s of None \<Rightarrow> in_slot s ps = [] | Some c \<Rightarrow> in_slot s ps \<noteq> [] \<and> sub_ok ty s (in_slot s ps) c" for s
    using assms(1) by (simp add: fill_ok_def)
  obtain c st1 where c: "fragment_of ?s ?st = (Some c, st1)" "fg_mem st1 = []" "fg_seq st1 = fg_seq st" "fg_slot st1 = int ?s"
      "\<And>s. s \<noteq> ?s \<Longrightarrow> fg_subs st1 s = fg_subs st s"
      "ka_elem (cm_keys c) = map (\<lambda>(kp, u). kp\<lparr>kp_remain_len := rem_len ty u\<rparr>) (in_slot ?s ps)"
      "cm_narg c = length (in_slot ?s ps)" "cm_clen c = sum_list (map (\<lambda>p. weight ty (snd p)) (in_slot ?s ps))"
  proof (cases "fg_subs st ?s")
    case None
    obtain d where d: "command_get (fg_id st) [] = (Some d, (fg_id st + 1) mod 2 ^ 64, [])" "ka_elem (cm_keys d) = []" "cm_narg d = 0" "cm_clen d = 0"
      using command_get_granted by blast
    show thesis by (rule that [of d "?st\<lparr>fg_id := (fg_id st + 1) mod 2 ^ 64, fg_mem := [], fg_subs := (fg_subs st)(?s \<mapsto> d)\<rparr>"]) (use None d subs [of ?s] assms(1) in \<open>auto simp: fragment_of_def fill_ok_def\<close>)
  next
    case (Some d)
    show thesis by (rule that [of d ?st]) (use Some subs [of ?s] assms(1) in \<open>auto simp: fragment_of_def fill_ok_def sub_ok_def\<close>)
  qed
  have rem: "(if ty = CMD_REQ_REDIS_MSET then mset_remain cmd (kp_end kp) else Some 0) = Some (rem_len ty u)"
    using mset_remain_ok assms(2) by (auto simp: rem_len_def)
  obtain b where b: "key_push kp (cm_keys c) [] = (Some b, [])" "ka_elem b = ka_elem (cm_keys c) @ [kp]"
    using key_push_granted key_push_elem by blast
  have w: "cm_clen c + length (hd u) + uint_len (length (hd u)) + rem_len ty u = sum_list (map (\<lambda>p. weight ty (snd p)) (in_slot ?s ps)) + weight ty u"
    by (simp add: c(8) weight_def uint_len_eq)
  have lt: "cm_clen c + length (hd u) + uint_len (length (hd u)) + rem_len ty u < 2 ^ 32"
    unfolding w using sum_in_slot [of "\<lambda>p. weight ty (snd p)" ?s ps] assms(3) by simp
  have "length (in_slot ?s ps) \<le> length ps" by (simp add: in_slot_def)
  then have na: "(cm_narg c + 1) mod 2 ^ 32 = length (in_slot ?s ps) + 1" using assms(4) c(7) by simp
  let ?c = "c\<lparr>cm_narg := length (in_slot ?s ps) + 1, cm_keys := b\<lparr>ka_elem := ka_elem (cm_keys c) @ [kp\<lparr>kp_remain_len := rem_len ty u\<rparr>]\<rparr>,
      cm_slot_num := int ?s, cm_clen := sum_list (map (\<lambda>p. weight ty (snd p)) (in_slot ?s ps)) + weight ty u\<rparr>"
  let ?st2 = "st1\<lparr>fg_seq := fg_seq st @ [?s], fg_mem := [], fg_subs := (fg_subs st1)(?s \<mapsto> ?c)\<rparr>"
  have "add_to_fragment ty cmd kp st = Some (Fill_next, ?st2)"
    using slot slot_of_range [of "hd u"] c(1-4) rem b item_key_len [OF assms(2)] lt na w
    by (simp add: add_to_fragment_def Let_def not_le)
  moreover have "fill_ok ty (ps @ [(kp, u)]) ?st2"
  proof -
    have "case fg_subs ?st2 s of None \<Rightarrow> in_slot s (ps @ [(kp, u)]) = []
      | Some d \<Rightarrow> in_slot s (ps @ [(kp, u)]) \<noteq> [] \<and> sub_ok ty s (in_slot s (ps @ [(kp, u)])) d" for s
      using subs [of s] c(5,6) by (cases "s = ?s") (auto simp: sub_ok_def split: option.splits)
    then show ?thesis using assms(1) c(2-4) by (simp add: fill_ok_def)
  qed
  ultimately show ?thesis by blast
qed

lemma fill_loop_ok:
  "\<lbrakk>fill_ok ty ps st; list_all (\<lambda>(kp, u). item_at ty cmd kp u) qs; sum_list (map (\<lambda>p. weight ty (snd p)) (ps @ qs)) < 2 ^ 32; length ps + length qs < 2 ^ 32\<rbrakk> \<Longrightarrow>
   \<exists>st'. fill_loop ty cmd (map fst qs) st = Some (Fill_next, st') \<and> fill_ok ty (ps @ qs) st'"
proof (induction qs arbitrary: ps st)
  case (Cons q qs)
  obtain kp u where q: "q = (kp, u)" by fastforce
  obtain st1 where st1: "add_to_fragment ty cmd kp st = Some (Fill_next, st1)" "fill_ok ty (ps @ [(kp, u)]) st1"
    using add_to_fragment_ok [OF Cons.prems(1), of cmd kp u] Cons.prems(2-) q by auto
  with Cons.IH [OF st1(2)] Cons.prems(2-) q show ?case by simp
qed simp

section \<open>Writing the fragments\<close>

definition fragment_verb :: "cmd_type \<Rightarrow> bytes" where
  "fragment_verb ty =
     (if ty = CMD_REQ_REDIS_MGET then ''mget'' else if ty = CMD_REQ_REDIS_DEL then ''del''
      else if ty = CMD_REQ_REDIS_EXISTS then ''exists'' else ''mset'')"

definition splits :: "cmd_type \<Rightarrow> bool" where
  "splits ty \<longleftrightarrow> ty \<in> {CMD_REQ_REDIS_MGET, CMD_REQ_REDIS_DEL, CMD_REQ_REDIS_EXISTS, CMD_REQ_REDIS_MSET}"

lemma fragment_prefix_eq:
  "splits ty \<Longrightarrow> fragment_prefix ty = Some (3 + length (bulk_bytes (fragment_verb ty)), CRLF @ bulk_bytes (fragment_verb ty))"
proof -
  have d: "bulk_bytes ''mget'' = ''$4'' @ CRLF @ ''mget'' @ CRLF" "bulk_bytes ''del'' = ''$3'' @ CRLF @ ''del'' @ CRLF"
    "bulk_bytes ''exists'' = ''$6'' @ CRLF @ ''exists'' @ CRLF" "bulk_bytes ''mset'' = ''$4'' @ CRLF @ ''mset'' @ CRLF" by code_simp+
  assume "splits ty"
  then show ?thesis by (auto simp: splits_def fragment_prefix_def fragment_verb_def d cmd_type_defs)
qed

definition with_rem :: "cmd_type \<Rightarrow> item \<Rightarrow> keypos" where
  "with_rem ty p = (fst p)\<lparr>kp_remain_len := rem_len ty (snd p)\<rparr>"

lemma with_rem_case: "(\<lambda>(kp, u). kp\<lparr>kp_remain_len := rem_len ty u\<rparr>) = with_rem ty"
  by (auto simp: with_rem_def)

lemma item_copy:
  assumes "item_at ty cmd kp u"
  shows "copy_from cmd (kp_start kp) (length (hd u) + rem_len ty u) =
    Some (hd u @ (if ty = CMD_REQ_REDIS_MSET then CRLF @ bulks (tl u) else []))"
proof -
  obtain rest where d: "drop (kp_start kp) cmd = hd u @ CRLF @ bulks (tl u) @ rest" using assms by (auto simp: item_at_def)
  then have "length (drop (kp_start kp) cmd) = length (hd u @ CRLF @ bulks (tl u) @ rest)" by simp
  then have "kp_start kp + (length (hd u) + 2 + length (bulks (tl u))) \<le> length cmd" by simp
  then show ?thesis using d by (auto simp: copy_from_def rem_len_def)
qed

lemma write_key_ok:
  assumes "item_at ty cmd kp u" "length ns = 12" "idx + length (bulks u) \<le> length blk" "take idx blk = xs"
  shows "\<exists>ns' blk'. write_key ty cmd (with_rem ty (kp, u)) ns blk idx = Some (ns', blk', idx + length (bulks u)) \<and>
    length ns' = 12 \<and> length blk' = length blk \<and> take (idx + length (bulks u)) blk' = xs @ bulks u"
proof -
  let ?k = "hd u" let ?d = "dec_nat (length ?k)"
  have u: "unit_ok ty u" using assms(1) by (simp add: item_at_def)
  let ?tail = "if ty = CMD_REQ_REDIS_MSET then CRLF @ bulks (tl u) else []"
  have bulks: "bulks u = ''$'' @ ?d @ CRLF @ (?k @ ?tail) @ (if ty = CMD_REQ_REDIS_MSET then [] else CRLF)"
    using u by (rule unit_cases) (simp_all add: bulk_bytes_def)
  note k = item_key_len [OF assms(1)]
  obtain ns' where ns: "hi_itoa (int32 (length ?k)) ns = Some ns'" "length ns' = 12" "num_strlen ns' = Some (length ?d)" "take (length ?d) ns' = ?d"
    using hi_itoa_ok [of "length ?k" ns] k assms(2) by blast
  have room: "idx + 1 + length ?d + 2 + length (?k @ ?tail) + (if ty = CMD_REQ_REDIS_MSET then 0 else 2) \<le> length blk"
    using assms(3) unfolding bulks by auto
  have r1: "idx + length ''$'' \<le> length blk" using room by simp
  obtain b1 where b1: "write_at blk idx ''$'' = Some b1" "length b1 = length blk" "take (idx + length ''$'') b1 = xs @ ''$''"
    using write_at_ok [OF r1 assms(4)] by blast
  have r2: "idx + length ''$'' + length ?d \<le> length b1" using room b1(2) by simp
  obtain b2 where b2: "write_at b1 (idx + length ''$'') ?d = Some b2" "length b2 = length b1"
      "take (idx + length ''$'' + length ?d) b2 = (xs @ ''$'') @ ?d"
    using write_at_ok [OF r2 b1(3)] by blast
  have r3: "idx + length ''$'' + length ?d + length CRLF \<le> length b2" using room b1(2) b2(2) by simp
  obtain b3 where b3: "write_at b2 (idx + length ''$'' + length ?d) CRLF = Some b3" "length b3 = length b2"
      "take (idx + length ''$'' + length ?d + length CRLF) b3 = ((xs @ ''$'') @ ?d) @ CRLF"
    using write_at_ok [OF r3 b2(3)] by blast
  have r4: "idx + length ''$'' + length ?d + length CRLF + length (?k @ ?tail) \<le> length b3" using room b1(2) b2(2) b3(2) by simp
  obtain b4 where b4: "write_at b3 (idx + length ''$'' + length ?d + length CRLF) (?k @ ?tail) = Some b4" "length b4 = length b3"
      "take (idx + length ''$'' + length ?d + length CRLF + length (?k @ ?tail)) b4 = (((xs @ ''$'') @ ?d) @ CRLF) @ ?k @ ?tail"
    using write_at_ok [OF r4 b3(3)] by blast
  have rl: "length ?k + rem_len ty u = length (?k @ ?tail)" by (simp add: rem_len_def)
  have "length (?k @ ?tail) \<le> length (bulks u)" unfolding bulks by simp
  then have small: "length ?k + rem_len ty u < 2 ^ 32" unfolding rl using u by (simp add: unit_ok_def)
  have kl: "(kp_end kp - kp_start kp) mod 2 ^ 32 = length ?k" using k by blast
  have cp: "copy_from cmd (kp_start kp) (length ?k + rem_len ty u) = Some (?k @ ?tail)" using item_copy [OF assms(1)] .
  show ?thesis
  proof (cases "ty = CMD_REQ_REDIS_MSET")
    case True
    have "write_key ty cmd (with_rem ty (kp, u)) ns blk idx = Some (ns', b4, idx + length (bulks u))"
      using ns b1(1) b2(1) b3(1) b4(1) cp kl small True by (simp add: write_key_def with_rem_def bulks Let_def rem_len_def)
    then show ?thesis
      by (rule exI [of _ ns', OF exI [of _ b4, OF conjI]]) (use ns(2) b1(2) b2(2) b3(2) b4(2,3) True in \<open>simp add: bulks add.assoc\<close>)
  next
    case False
    have r5: "idx + length ''$'' + length ?d + length CRLF + length (?k @ ?tail) + length CRLF \<le> length b4"
      using room b1(2) b2(2) b3(2) b4(2) False by simp
    obtain b5 where b5: "write_at b4 (idx + length ''$'' + length ?d + length CRLF + length (?k @ ?tail)) CRLF = Some b5" "length b5 = length b4"
        "take (idx + length ''$'' + length ?d + length CRLF + length (?k @ ?tail) + length CRLF) b5 = ((((xs @ ''$'') @ ?d) @ CRLF) @ ?k @ ?tail) @ CRLF"
      using write_at_ok [OF r5 b4(3)] by blast
    have "write_key ty cmd (with_rem ty (kp, u)) ns blk idx = Some (ns', b5, idx + length (bulks u))"
      using ns b1(1) b2(1) b3(1) b4(1) b5(1) cp kl False by (simp add: write_key_def with_rem_def bulks Let_def rem_len_def)
    then show ?thesis
      by (rule exI [of _ ns', OF exI [of _ b5, OF conjI]]) (use ns(2) b1(2) b2(2) b3(2) b4(2) b5(2,3) False in \<open>simp add: bulks add.assoc\<close>)
  qed
qed

lemma write_keys_ok:
  "\<lbrakk>list_all (\<lambda>(kp, u). item_at ty cmd kp u) ps; length ns = 12; take idx blk = xs;
    idx + length (bulks (concat (map snd ps))) \<le> length blk\<rbrakk> \<Longrightarrow>
   \<exists>ns' blk'. write_keys ty cmd (map (with_rem ty) ps) ns blk idx = Some (ns', blk', idx + length (bulks (concat (map snd ps)))) \<and>
     length ns' = 12 \<and> length blk' = length blk \<and> take (idx + length (bulks (concat (map snd ps)))) blk' = xs @ bulks (concat (map snd ps))"
proof (induction ps arbitrary: ns blk idx xs)
  case (Cons p ps)
  obtain kp u where p: "p = (kp, u)" by fastforce
  let ?r = "bulks (concat (map snd ps))"
  have all: "bulks (concat (map snd (p # ps))) = bulks u @ ?r" by (simp add: p)
  obtain ns1 blk1 where w: "write_key ty cmd (with_rem ty (kp, u)) ns blk idx = Some (ns1, blk1, idx + length (bulks u))"
      "length ns1 = 12" "length blk1 = length blk" "take (idx + length (bulks u)) blk1 = xs @ bulks u"
    using write_key_ok [of ty cmd kp u ns idx blk xs] Cons.prems p by auto
  have r: "idx + length (bulks u) + length ?r \<le> length blk1" using Cons.prems(4) unfolding all w(3) by simp
  obtain ns2 blk2 where "write_keys ty cmd (map (with_rem ty) ps) ns1 blk1 (idx + length (bulks u)) = Some (ns2, blk2, idx + length (bulks u) + length ?r)"
      "length ns2 = 12" "length blk2 = length blk1" "take (idx + length (bulks u) + length ?r) blk2 = (xs @ bulks u) @ ?r"
    using Cons.IH [OF _ w(2,4) r] Cons.prems(1) p by auto
  then show ?case unfolding all using w p by (simp add: add.assoc)
qed simp

lemma weights_bulks:
  "list_all (unit_ok ty) us \<Longrightarrow> sum_list (map (weight ty) us) + (if ty = CMD_REQ_REDIS_MSET then 3 else 5) * length us = length (bulks (concat us))"
proof (induction us)
  case (Cons u us)
  then show ?case using weight_bulks [of ty u] by (simp split: if_splits)
qed simp

lemma units_length: "list_all (unit_ok ty) us \<Longrightarrow> length (concat us) = (if ty = CMD_REQ_REDIS_MSET then 2 else 1) * length us"
  by (induction us) (auto simp: unit_ok_def)

definition fragment_text :: "cmd_type \<Rightarrow> bytes list list \<Rightarrow> bytes" where
  "fragment_text ty us = command_bytes (fragment_verb ty # concat us)"

lemma fragment_text_length:
  "length (fragment_text ty us) = 1 + length (dec_nat (length (concat us) + 1)) + 2 + length (bulk_bytes (fragment_verb ty)) + length (bulks (concat us))"
  by (simp add: fragment_text_def command_bytes_def)

lemma length_concat_bulks: "length (concat us) \<le> length (bulks (concat us))"
  using length_bulks [of "concat us"] by simp

lemma verb_length: "length (bulk_bytes (fragment_verb ty)) \<le> 12"
proof -
  have "length (bulk_bytes ''mget'') = 10" "length (bulk_bytes ''del'') = 9" "length (bulk_bytes ''exists'') = 12" "length (bulk_bytes ''mset'') = 10"
    by code_simp+
  then show ?thesis by (simp add: fragment_verb_def)
qed

lemma build_fragment_ok:
  assumes "splits ty" "sub_ok ty s ps c" "list_all (\<lambda>(kp, u). item_at ty cmd kp u) ps" "length ns = 12"
    and "length (bulks (concat (map snd ps))) < 2 ^ 31 - 12"
  shows "\<exists>ns' c'. build_fragment ty cmd ns c [] = Some (True, ns', c', []) \<and> length ns' = 12 \<and>
    cm_slot_num c' = int s \<and> cm_cmd c' = Some (fragment_text ty (map snd ps)) \<and> cm_clen c' = length (fragment_text ty (map snd ps))"
proof -
  let ?us = "map snd ps" and ?m = "ty = CMD_REQ_REDIS_MSET"
  let ?n = "length (concat ?us) + 1" let ?d = "dec_nat ?n" and ?B = "bulks (concat ?us)" and ?V = "bulk_bytes (fragment_verb ty)"
  let ?prefix = "CRLF @ ?V" and ?L = "length (fragment_text ty ?us)"
  have uo: "list_all (unit_ok ty) ?us" using assms(3) by (auto simp: list_all_iff item_at_def)
  have nb: "?n < 2 ^ 31 - 11" using length_concat_bulks [of ?us] assms(5) by simp
  have d10: "length ?d \<le> 10" by (rule dec_nat_small_length) (use nb in simp)
  have L: "?L = 3 + length ?V + length ?d + length ?B" by (simp add: fragment_text_length)
  have L32: "?L < 2 ^ 32" unfolding L using verb_length [of ty] d10 assms(5) by simp
  have c: "ka_elem (cm_keys c) = map (with_rem ty) ps" "cm_narg c = length ps" "cm_clen c = sum_list (map (weight ty) ?us)" "cm_slot_num c = int s"
    using assms(2) by (simp_all add: sub_ok_def with_rem_case comp_def)
  have clen: "cm_clen c + (if ?m then 3 else 5) * cm_narg c = length ?B" using weights_bulks [OF uo] c by simp
  have narg: "(if ?m then cm_narg c * 2 else cm_narg c) + 1 = ?n" using units_length [OF uo] c by simp
  have B32: "length ?B mod 2 ^ 32 = length ?B" "?n mod 2 ^ 32 = ?n" using assms(5) nb by simp_all
  have Lm: "(length ?B + (3 + length ?V) + length ?d) mod 2 ^ 32 = ?L" using L32 unfolding L by (simp add: ac_simps)
  obtain ns1 where ns: "hi_itoa (int32 ?n) ns = Some ns1" "length ns1 = 12" "num_strlen ns1 = Some (length ?d)" "take (length ?d) ns1 = ?d"
    using hi_itoa_ok [of ?n ns] nb assms(4) by auto
  let ?b = "replicate ?L NUL"
  have r1: "0 + length ''*'' \<le> length ?b" unfolding length_replicate L by simp
  obtain b1 where b1: "write_at ?b 0 ''*'' = Some b1" "length b1 = length ?b" "take (0 + length ''*'') b1 = [] @ ''*''"
    using write_at_ok [OF r1, of "[]"] by auto
  have r2: "0 + length ''*'' + length ?d \<le> length b1" unfolding b1(2) length_replicate L by simp
  obtain b2 where b2: "write_at b1 (0 + length ''*'') ?d = Some b2" "length b2 = length b1" "take (0 + length ''*'' + length ?d) b2 = ([] @ ''*'') @ ?d"
    using write_at_ok [OF r2 b1(3)] by blast
  have r3: "0 + length ''*'' + length ?d + length ?prefix \<le> length b2" unfolding b1(2) b2(2) length_replicate L by simp
  obtain b3 where b3: "write_at b2 (0 + length ''*'' + length ?d) ?prefix = Some b3" "length b3 = length b2"
      "take (0 + length ''*'' + length ?d + length ?prefix) b3 = (([] @ ''*'') @ ?d) @ ?prefix"
    using write_at_ok [OF r3 b2(3)] by blast
  have r4: "0 + length ''*'' + length ?d + length ?prefix + length ?B \<le> length b3" unfolding b1(2) b2(2) b3(2) length_replicate L by simp
  obtain ns2 b4 where b4: "write_keys ty cmd (map (with_rem ty) ps) ns1 b3 (0 + length ''*'' + length ?d + length ?prefix) =
        Some (ns2, b4, 0 + length ''*'' + length ?d + length ?prefix + length ?B)" "length ns2 = 12" "length b4 = length b3"
      "take (0 + length ''*'' + length ?d + length ?prefix + length ?B) b4 = ((([] @ ''*'') @ ?d) @ ?prefix) @ ?B"
    using write_keys_ok [OF assms(3) ns(2) b3(3) r4] by blast
  have "0 + length ''*'' + length ?d + length ?prefix + length ?B = length b4" unfolding b1(2) b2(2) b3(2) b4(3) length_replicate L by simp
  with b4(4) have whole: "b4 = fragment_text ty ?us" by (simp add: fragment_text_def command_bytes_def)
  have "build_fragment ty cmd ns c [] = Some (True, ns2, c\<lparr>cm_clen := ?L, cm_narg := ?n, cm_cmd := Some b4, cm_type := ty\<rparr>, [])"
    unfolding build_fragment_def fragment_prefix_eq [OF assms(1)] option.case prod.case Let_def clen narg B32
    using ns b1(1) b2(1) b3(1) b4(1) Lm c(1) by (simp add: ac_simps)
  then show ?thesis using b4(2) whole c(4) by simp
qed

lemma build_loop_ok:
  assumes "splits ty" "list_all (\<lambda>(kp, u). item_at ty cmd kp u) ps" "length (bulks (concat (map snd ps))) < 2 ^ 31 - 12"
    and "\<And>s. case subs s of None \<Rightarrow> in_slot s ps = [] | Some c \<Rightarrow> in_slot s ps \<noteq> [] \<and> sub_ok ty s (in_slot s ps) c"
  shows "length ns = 12 \<Longrightarrow> \<exists>cs. build_loop ty cmd subs ss ns commands [] = Some (True, commands @ cs, []) \<and>
    map (\<lambda>c. (cm_slot_num c, cm_type c, cm_cmd c, cm_clen c)) cs =
    map (\<lambda>s. (int s, ty, Some (fragment_text ty (map snd (in_slot s ps))), length (fragment_text ty (map snd (in_slot s ps)))))
      (filter (\<lambda>s. in_slot s ps \<noteq> []) ss)"
proof (induction ss arbitrary: ns commands)
  case (Cons s ss)
  show ?case
  proof (cases "subs s")
    case None
    then show ?thesis using Cons assms(4) [of s] by simp
  next
    case (Some c)
    then have c: "sub_ok ty s (in_slot s ps) c" "in_slot s ps \<noteq> []" using assms(4) [of s] by simp_all
    have "length (bulks (concat (map snd (in_slot s qs)))) \<le> length (bulks (concat (map snd qs)))" for qs
      by (induction qs) (auto simp: in_slot_def)
    then have "length (bulks (concat (map snd (in_slot s ps)))) < 2 ^ 31 - 12" using assms(3) by (meson le_less_trans)
    moreover have "list_all (\<lambda>(kp, u). item_at ty cmd kp u) (in_slot s ps)" using assms(2) by (auto simp: in_slot_def list_all_iff)
    ultimately obtain ns' c' where b: "build_fragment ty cmd ns c [] = Some (True, ns', c', [])" "length ns' = 12" "cm_slot_num c' = int s"
        "cm_cmd c' = Some (fragment_text ty (map snd (in_slot s ps)))" "cm_clen c' = length (fragment_text ty (map snd (in_slot s ps)))"
      using build_fragment_ok [OF assms(1) c(1) _ Cons.prems] by blast
    from Cons.IH [OF b(2), of "commands @ [c'\<lparr>cm_type := ty\<rparr>]"] obtain cs where
      cs: "build_loop ty cmd subs ss ns' (commands @ [c'\<lparr>cm_type := ty\<rparr>]) [] = Some (True, (commands @ [c'\<lparr>cm_type := ty\<rparr>]) @ cs, [])"
        "map (\<lambda>c. (cm_slot_num c, cm_type c, cm_cmd c, cm_clen c)) cs =
         map (\<lambda>s. (int s, ty, Some (fragment_text ty (map snd (in_slot s ps))), length (fragment_text ty (map snd (in_slot s ps)))))
          (filter (\<lambda>s. in_slot s ps \<noteq> []) ss)" by blast
    then show ?thesis using Some b c(2) by (intro exI [of _ "c'\<lparr>cm_type := ty\<rparr> # cs"]) simp
  qed
qed simp

section \<open>The whole command\<close>

fun pairs_of :: "'a list \<Rightarrow> 'a list list" where
  "pairs_of (x # y # zs) = [x, y] # pairs_of zs"
| "pairs_of _ = []"

text \<open>The units of a command with several keys: its keys, with the values for \<open>MSET\<close>.\<close>

definition key_units :: "bytes list \<Rightarrow> bytes list list" where
  "key_units args = (if verb_type (args ! 0) = CMD_REQ_REDIS_MSET then pairs_of (tl args) else map (\<lambda>k. [k]) (tl args))"

definition units_at :: "nat \<Rightarrow> bytes list list \<Rightarrow> bytes list list" where
  "units_at s us = filter (\<lambda>u. slot_of (hd u) = s) us"

lemma spans_at:
  "drop p cmd = bulks args @ rest \<Longrightarrow> i < length args \<Longrightarrow>
   kp_remain_len (spans p args ! i) = 0 \<and> kp_end (spans p args ! i) = kp_start (spans p args ! i) + length (args ! i) \<and>
   drop (kp_start (spans p args ! i)) cmd = args ! i @ CRLF @ bulks (drop (Suc i) args) @ rest"
proof (induction args arbitrary: p i)
  case (Cons a args)
  show ?case
  proof (cases i)
    case 0
    let ?h = "CHR ''$'' # dec_nat (length a) @ CRLF"
    have "drop p cmd = ?h @ a @ CRLF @ bulks args @ rest" using Cons.prems(1) by (simp add: bulk_bytes_def [of a])
    from drop_append_at [OF this] 0 show ?thesis by (simp add: span_at_def Let_def numeral_3_eq_3)
  next
    case (Suc j)
    have "drop (p + length (bulk_bytes a)) cmd = bulks args @ rest" using drop_append_at [of p cmd "bulk_bytes a"] Cons.prems(1) by simp
    with Cons.IH [of "p + length (bulk_bytes a)" j] Cons.prems(2) Suc show ?thesis by simp
  qed
qed simp

lemma arg_span_at:
  assumes "take n cmd = command_bytes args" "i < length args"
  shows "kp_remain_len (arg_spans args ! i) = 0 \<and> kp_end (arg_spans args ! i) = kp_start (arg_spans args ! i) + length (args ! i) \<and>
    (\<exists>rest. drop (kp_start (arg_spans args ! i)) cmd = args ! i @ CRLF @ bulks (drop (Suc i) args) @ rest)"
proof -
  have "cmd = command_bytes args @ drop n cmd" using assms(1) by (metis append_take_drop_id)
  then have "drop (length (dec_nat (length args)) + 3) cmd = bulks args @ drop n cmd" using command_bytes_at by metis
  from spans_at [OF this assms(2)] show ?thesis unfolding arg_spans_def by blast
qed

lemma length_pairs_of: "length (pairs_of xs) = length xs div 2"
  by (induction xs rule: pairs_of.induct) auto

lemma nth_pairs_of: "i < length xs div 2 \<Longrightarrow> pairs_of xs ! i = [xs ! (2 * i), xs ! (2 * i + 1)]"
proof (induction xs arbitrary: i rule: pairs_of.induct)
  case (1 x y zs)
  then show ?case by (cases i) simp_all
qed auto

lemma concat_pairs_of: "even (length xs) \<Longrightarrow> concat (pairs_of xs) = xs"
  by (induction xs rule: pairs_of.induct) auto

lemma multi_key_types:
  assumes "key_indices args = Some is" "2 \<le> length is"
  shows "splits (verb_type (args ! 0))" "args \<noteq> []"
    and "verb_type (args ! 0) \<noteq> CMD_REQ_REDIS_MSET \<Longrightarrow> is = [1..<length args]"
    and "verb_type (args ! 0) = CMD_REQ_REDIS_MSET \<Longrightarrow> is = filter odd [1..<length args] \<and> odd (length args)"
proof -
  let ?ty = "verb_type (args ! 0)"
  have x: "redis_argx ty \<Longrightarrow> splits ty \<and> ty \<noteq> CMD_REQ_REDIS_MSET" and kvx: "redis_argkvx ty \<Longrightarrow> ty = CMD_REQ_REDIS_MSET"
    and m: "redis_argkvx CMD_REQ_REDIS_MSET" for ty
    by (auto simp: redis_argx_def redis_argkvx_def splits_def cmd_type_defs)
  have "args \<noteq> [] \<and> (redis_argx ?ty \<and> is = [1..<length args] \<or>
      \<not> redis_argx ?ty \<and> redis_argkvx ?ty \<and> is = filter odd [1..<length args] \<and> (length args = 2 \<or> odd (length args)))"
    using assms unfolding key_indices_def Let_def verb_type_def by (auto split: if_splits)
  moreover have "length args \<noteq> 2" if "is = filter odd [1..<length args]"
  proof
    assume "length args = 2"
    moreover have "filter odd [1..<2] = [1::nat]" by code_simp
    ultimately show False using that assms(2) by simp
  qed
  ultimately show "splits ?ty" "args \<noteq> []" "?ty \<noteq> CMD_REQ_REDIS_MSET \<Longrightarrow> is = [1..<length args]"
    "?ty = CMD_REQ_REDIS_MSET \<Longrightarrow> is = filter odd [1..<length args] \<and> odd (length args)"
    using x kvx m by (auto simp: splits_def)
qed

lemma bulks_le: "a \<in> set us \<Longrightarrow> length (bulks a) \<le> length (bulks (concat us))"
  by (induction us) auto

lemma command_items:
  assumes "take n cmd = command_bytes args" "length (command_bytes args) < 2 ^ 31" "key_indices args = Some is" "2 \<le> length is"
    and "\<forall>u \<in> set (key_units args). hd u \<noteq> []"
  defines "ty \<equiv> verb_type (args ! 0)"
  shows "\<exists>ps. map fst ps = map ((!) (arg_spans args)) is \<and> map snd ps = key_units args \<and> list_all (\<lambda>(kp, u). item_at ty cmd kp u) ps"
    and "concat (key_units args) = tl args" "length (key_units args) = length is"
proof -
  note T = multi_key_types [OF assms(3,4), folded ty_def]
  obtain as where as: "tl args = as" and n: "length args = Suc (length as)" using T(2) by simp
  show conc: "concat (key_units args) = tl args"
    using T(4) n by (auto simp: key_units_def concat_pairs_of ty_def [symmetric] as)
  have "length (filter odd [1..<Suc k]) = (k + 1) div 2" for k unfolding pick_odd by simp
  then show len: "length (key_units args) = length is"
    using T(3,4) by (cases "ty = CMD_REQ_REDIS_MSET") (auto simp: key_units_def length_pairs_of ty_def [symmetric] as n simp del: upt_Suc)
  have "length (bulks (tl args)) < 2 ^ 31" using assms(2) T(2) by (cases args) (auto simp: command_bytes_def)
  then have small: "length (bulks u) < 2 ^ 31" if "u \<in> set (key_units args)" for u
    using bulks_le [OF that] conc by simp
  have item: "item_at ty cmd (arg_spans args ! (is ! j)) (key_units args ! j)" if j: "j < length is" for j
  proof -
    have inj: "is ! j < length args" using key_indices_less [OF assms(3)] j by simp
    obtain rest where rest: "drop (kp_start (arg_spans args ! (is ! j))) cmd = args ! (is ! j) @ CRLF @ bulks (drop (Suc (is ! j)) args) @ rest"
      using arg_span_at [OF assms(1) inj] by blast
    have u: "key_units args ! j \<in> set (key_units args)" using j len by simp
    have "unit_ok ty (key_units args ! j) \<and> hd (key_units args ! j) = args ! (is ! j) \<and>
        (\<exists>rest. drop (Suc (is ! j)) args = tl (key_units args ! j) @ rest)"
    proof (cases "ty = CMD_REQ_REDIS_MSET")
      case True
      then have i: "is ! j = 2 * j + 1" "2 * j + 2 < length args" using T(4) j n pick_odd [of "length as"] by (auto simp del: upt_Suc)
      have ku: "key_units args ! j = [args ! (2 * j + 1), args ! (2 * j + 2)]"
        using True i(2) nth_pairs_of [of j as] n nth_tl [of _ args] by (auto simp: key_units_def ty_def as)
      have "drop (Suc (is ! j)) args = args ! (2 * j + 2) # drop (Suc (2 * j + 2)) args" using i Cons_nth_drop_Suc [OF i(2)] by simp
      then show ?thesis using ku i(1) True assms(5) small [OF u] u by (auto simp: unit_ok_def)
    next
      case False
      then have i: "is ! j = Suc j" using T(3) j by simp
      have ku: "key_units args ! j = [args ! Suc j]" using False j len i inj by (auto simp: key_units_def ty_def nth_tl)
      then show ?thesis using i False assms(5) small [OF u] u by (auto simp: unit_ok_def)
    qed
    then show ?thesis using arg_span_at [OF assms(1) inj] rest by (auto simp: item_at_def)
  qed
  let ?ps = "zip (map ((!) (arg_spans args)) is) (key_units args)"
  have "list_all (\<lambda>(kp, u). item_at ty cmd kp u) ?ps"
    using item len by (auto simp: list_all_length)
  then show "\<exists>ps. map fst ps = map ((!) (arg_spans args)) is \<and> map snd ps = key_units args \<and> list_all (\<lambda>(kp, u). item_at ty cmd kp u) ps"
    using len by (intro exI [of _ ?ps]) simp
qed

lemma in_slot_units: "map snd ps = us \<Longrightarrow> map snd (in_slot s ps) = units_at s us"
  by (auto simp: in_slot_def units_at_def filter_map comp_def case_prod_unfold)

lemma pre_fragment_ok:
  assumes "cm_cmd r = Some cmd" "ka_elem (cm_keys r) = map fst ps" "list_all (\<lambda>(kp, u). item_at (cm_type r) cmd kp u) ps"
    and "splits (cm_type r)" "length (bulks (concat (map snd ps))) < 2 ^ 31 - 12" "length ns = 12" "ps \<noteq> []"
  defines "us \<equiv> map snd ps" and "slots \<equiv> filter (\<lambda>s. units_at s (map snd ps) \<noteq> []) [0..<REDIS_CLUSTER_SLOTS]"
  shows "\<exists>cs res. command_pre_fragment ns r [] i [] = Some res \<and> sp_error res = None \<and> sp_mem res = [] \<and>
    sp_slot res = int (slot_of (hd (last us))) \<and> length cs = length slots \<and>
    map (\<lambda>c. (cm_slot_num c, cm_type c, cm_cmd c, cm_clen c)) cs =
      map (\<lambda>s. (int s, cm_type r, Some (fragment_text (cm_type r) (units_at s us)), length (fragment_text (cm_type r) (units_at s us)))) slots \<and>
    (if length slots = 1 then sp_commands res = [] \<and> sp_command res = r\<lparr>cm_frag_seq := None, cm_slot_num := sp_slot res\<rparr>
     else sp_commands res = cs \<and> sp_command res = r\<lparr>cm_frag_seq := Some (map (\<lambda>u. slot_of (hd u)) us)\<rparr>)"
proof -
  let ?ty = "cm_type r" and ?st = "\<lparr>fg_subs = Map.empty, fg_seq = [], fg_id = i, fg_mem = [], fg_slot = -1\<rparr>"
  have uo: "list_all (unit_ok ?ty) us" using assms(3) by (auto simp: us_def list_all_iff item_at_def)
  have w: "sum_list (map (\<lambda>p. weight ?ty (snd p)) ps) < 2 ^ 32" and l: "length ps < 2 ^ 32"
    using weights_bulks [OF uo] units_length [OF uo] length_concat_bulks [of us] assms(5)
    by (simp_all add: us_def comp_def split: if_splits)
  have "fill_ok ?ty [] ?st" by (simp add: fill_ok_def in_slot_def)
  from fill_loop_ok [OF this assms(3)] w l obtain st where
    st: "fill_loop ?ty cmd (map fst ps) ?st = Some (Fill_next, st)" "fill_ok ?ty ps st" by auto
  have subs: "case fg_subs st s of None \<Rightarrow> in_slot s ps = [] | Some c \<Rightarrow> in_slot s ps \<noteq> [] \<and> sub_ok ?ty s (in_slot s ps) c" for s
    using st(2) by (simp add: fill_ok_def)
  have slot_eq: "(in_slot s ps \<noteq> []) = (units_at s us \<noteq> [])" "map snd (in_slot s ps) = units_at s us" for s
    using in_slot_units [of ps us s] by (auto simp: us_def)
  obtain cs where cs: "build_loop ?ty cmd (fg_subs st) [0..<REDIS_CLUSTER_SLOTS] ns [] [] = Some (True, cs, [])"
      "map (\<lambda>c. (cm_slot_num c, cm_type c, cm_cmd c, cm_clen c)) cs =
        map (\<lambda>s. (int s, ?ty, Some (fragment_text ?ty (units_at s us)), length (fragment_text ?ty (units_at s us)))) slots"
    using build_loop_ok [OF assms(4,3,5) subs assms(6), of "[0..<REDIS_CLUSTER_SLOTS]" "[]"]
    unfolding slot_eq slots_def us_def [symmetric] by auto
  have len: "length cs = length slots" using arg_cong [OF cs(2), of length] by simp
  have slot: "fg_slot st = int (slot_of (hd (last us)))" "fg_mem st = []" "fg_seq st = map (\<lambda>u. slot_of (hd u)) us"
    using st(2) assms(7) by (auto simp: fill_ok_def us_def last_map)
  have "command_pre_fragment ns r [] i [] =
      Some (split_done (fg_slot st) (r\<lparr>cm_frag_seq := Some (fg_seq st)\<rparr>) cs (fg_id st) [] None)"
    using assms(1,2) st(1) slot(2) cs(1) by (simp add: command_pre_fragment_def)
  then show ?thesis using cs(2) len slot by (intro exI [of _ cs]) (auto simp: split_done_def)
qed

lemma split_command:
  assumes "cm_cmd r = Some cmd" "cm_clen r \<le> length cmd" "take (cm_clen r) cmd = command_bytes args" "length (command_bytes args) < 2 ^ 31 - 12"
    and "cm_result r = CMD_PARSE_OK" "ka_elem (cm_keys r) = []" "length ns = 12"
    and "key_indices args = Some is" "2 \<le> length is" "\<forall>u \<in> set (key_units args). hd u \<noteq> []"
  defines "us \<equiv> key_units args"
  defines "ty \<equiv> redis_parse_cmd_verb (args ! 0) (length (args ! 0))"
    and "slots \<equiv> filter (\<lambda>s. units_at s (key_units args) \<noteq> []) [0..<REDIS_CLUSTER_SLOTS]"
  shows "\<exists>s cs res. command_format_by_slot ns r [] i [] = Some res \<and> sp_error res = None \<and> sp_mem res = [] \<and>
    sp_slot res = int (slot_of (hd (last us))) \<and>
    cm_cmd s = Some cmd \<and> cm_clen s = cm_clen r \<and> cm_type s = ty \<and> length (ka_elem (cm_keys s)) = length us \<and>
    map (\<lambda>c. (cm_slot_num c, cm_type c, cm_cmd c, cm_clen c)) cs =
      map (\<lambda>s. (int s, ty, Some (fragment_text ty (units_at s us)), length (fragment_text ty (units_at s us)))) slots \<and>
    (if length slots = 1 then sp_commands res = [] \<and> sp_command res = s\<lparr>cm_frag_seq := None, cm_slot_num := sp_slot res\<rparr>
     else sp_commands res = cs \<and> sp_command res = s\<lparr>cm_frag_seq := Some (map (\<lambda>u. slot_of (hd u)) us)\<rparr>)"
proof -
  have ty: "ty = verb_type (args ! 0)" by (simp add: ty_def verb_type_def)
  note T = multi_key_types [OF assms(8,9)]
  obtain s where s: "redis_parse_cmd r [] = Some (s, [])" "cm_result s = CMD_PARSE_OK" "cm_type s = ty"
      "ka_elem (cm_keys s) = map ((!) (arg_spans args)) is"
    using parse_command [OF assms(1-3) _ assms(5)] assms(4,6,8) T(2) by (auto simp: ty hd_conv_nth)
  have same: "cm_cmd s = cm_cmd r" "cm_clen s = cm_clen r"
  proof -
    obtain t where t: "parse_cmd_loop (take (cm_clen r) cmd) 0 (start_fsa []) r = Some t" "parse_end t = (s, [])"
      using s(1) assms(1,2) by (auto simp: redis_parse_cmd_def split: if_splits)
    then have "cm_cmd (turn_cmd t) = cm_cmd r \<and> cm_clen (turn_cmd t) = cm_clen r" using parse_cmd_loop_grows by (auto simp: keys_grow_def)
    moreover have "cm_cmd s = cm_cmd (turn_cmd t) \<and> cm_clen s = cm_clen (turn_cmd t)" using t(2) by (cases t) (auto split: if_splits prod.splits bool.splits)
    ultimately show "cm_cmd s = cm_cmd r" "cm_clen s = cm_clen r" by simp_all
  qed
  then have cmd: "cm_cmd s = Some cmd" using assms(1) by simp
  have len31: "length (command_bytes args) < 2 ^ 31" using assms(4) by simp
  note items = command_items [OF assms(3) len31 assms(8,9,10), folded ty]
  obtain ps where ps: "map fst ps = map ((!) (arg_spans args)) is" "map snd ps = us" "list_all (\<lambda>(kp, u). item_at ty cmd kp u) ps"
    using items(1) by (auto simp: us_def)
  have "length (bulks (concat us)) \<le> length (command_bytes args)"
    using items(2) T(2) by (cases args) (simp_all add: us_def command_bytes_def)
  then have small: "length (bulks (concat (map snd ps))) < 2 ^ 31 - 12" using assms(4) ps(2) by simp
  have "length ps = length is" using arg_cong [OF ps(1), of length] by simp
  then have ne: "ps \<noteq> []" "2 \<le> length ps" using assms(9) by auto
  have sp: "splits (cm_type s)" using T(1) s(3) ty by simp
  from pre_fragment_ok [OF cmd _ _ sp small assms(7) ne(1), of i] s(3,4) ps
  obtain cs res where res: "command_pre_fragment ns s [] i [] = Some res" "sp_error res = None" "sp_mem res = []" "sp_slot res = int (slot_of (hd (last us)))"
      "map (\<lambda>c. (cm_slot_num c, cm_type c, cm_cmd c, cm_clen c)) cs =
        map (\<lambda>s. (int s, ty, Some (fragment_text ty (units_at s us)), length (fragment_text ty (units_at s us)))) slots"
      "if length slots = 1 then sp_commands res = [] \<and> sp_command res = s\<lparr>cm_frag_seq := None, cm_slot_num := sp_slot res\<rparr>
       else sp_commands res = cs \<and> sp_command res = s\<lparr>cm_frag_seq := Some (map (\<lambda>u. slot_of (hd u)) us)\<rparr>"
    unfolding slots_def us_def [symmetric] by auto
  have "cm_clen r \<noteq> 0" using assms(3) by (cases "cm_clen r") (simp_all add: command_bytes_def)
  moreover have "length (ka_elem (cm_keys s)) \<ge> 2" using s(4) assms(9) by simp
  then obtain a b ks where "ka_elem (cm_keys s) = a # b # ks" by (cases "ka_elem (cm_keys s)"; cases "tl (ka_elem (cm_keys s))") auto
  ultimately have "command_format_by_slot ns r [] i [] = Some res"
    using assms(1) s(1,2) res(1) by (simp add: command_format_by_slot_def)
  moreover have "length (ka_elem (cm_keys s)) = length us" using s(4) items(3) by (simp add: us_def)
  ultimately show ?thesis using res cmd same(2) s(3) by blast
qed

text \<open>C15: A command with several keys is split by slot. Every key goes to the fragment of its own slot,
  with its value for \<open>MSET\<close>, and the order within a slot is kept; the fragments come in the order
  of the slots and each is exactly the wire form of the command over its keys, written inside the
  block whose size was computed beforehand. \<open>frag_seq\<close> names the fragment of each key. When all
  keys have one slot the command is kept whole. The keys must not be empty.\<close>

theorem command_split_by_slot:
  assumes "cm_cmd r = Some cmd" "cm_clen r \<le> length cmd" "take (cm_clen r) cmd = command_bytes args" "length (command_bytes args) < 2 ^ 31 - 12"
    and "cm_result r = CMD_PARSE_OK" "ka_elem (cm_keys r) = []" "length ns = 12"
    and "key_indices args = Some is" "2 \<le> length is" "\<forall>u \<in> set (key_units args). hd u \<noteq> []"
  defines "us \<equiv> key_units args"
  defines "ty \<equiv> redis_parse_cmd_verb (args ! 0) (length (args ! 0))"
    and "slots \<equiv> filter (\<lambda>s. units_at s (key_units args) \<noteq> []) [0..<REDIS_CLUSTER_SLOTS]"
  shows "\<exists>res. command_format_by_slot ns r [] i [] = Some res \<and> sp_error res = None \<and>
    sp_slot res = int (slot_of (hd (last us))) \<and>
    (if length slots = 1 then sp_commands res = [] \<and> cm_frag_seq (sp_command res) = None \<and> cm_slot_num (sp_command res) = sp_slot res
     else cm_frag_seq (sp_command res) = Some (map (\<lambda>u. slot_of (hd u)) us) \<and>
       map (\<lambda>c. (cm_slot_num c, cm_cmd c, cm_clen c)) (sp_commands res) =
       map (\<lambda>s. (int s, Some (command_bytes (fragment_verb ty # concat (units_at s us))),
                length (command_bytes (fragment_verb ty # concat (units_at s us))))) slots)"
proof -
  have ty: "ty = verb_type (args ! 0)" by (simp add: ty_def verb_type_def)
  obtain s cs res where res: "command_format_by_slot ns r [] i [] = Some res" "sp_error res = None" "sp_slot res = int (slot_of (hd (last us)))"
      "map (\<lambda>c. (cm_slot_num c, cm_type c, cm_cmd c, cm_clen c)) cs =
        map (\<lambda>s. (int s, ty, Some (fragment_text ty (units_at s us)), length (fragment_text ty (units_at s us)))) slots"
      "if length slots = 1 then sp_commands res = [] \<and> sp_command res = s\<lparr>cm_frag_seq := None, cm_slot_num := sp_slot res\<rparr>
       else sp_commands res = cs \<and> sp_command res = s\<lparr>cm_frag_seq := Some (map (\<lambda>u. slot_of (hd u)) us)\<rparr>"
    using split_command [OF assms(1-10), of i] unfolding us_def ty_def slots_def by blast
  have "map (\<lambda>c. (cm_slot_num c, cm_cmd c, cm_clen c)) cs =
      map (\<lambda>s. (int s, Some (fragment_text ty (units_at s us)), length (fragment_text ty (units_at s us)))) slots"
    using arg_cong [OF res(4), of "map (\<lambda>(a, b, c, d). (a, c, d))"] by (simp add: comp_def)
  then show ?thesis using res by (auto simp: fragment_text_def split: if_splits)
qed

theorem command_split_by_slot_witness:
  "\<exists>res. command_format_by_slot (replicate 12 NUL) (demo_cmd (command_bytes demo_mset)) [] 0 [] = Some res \<and>
     sp_error res = None \<and> sp_slot res = int (slot_of ''key'')"
proof -
  have "key_indices demo_mset = Some [1, 3]" "length (command_bytes demo_mset) = 43" "key_units demo_mset = [[''k'', ''v''], [''key'', []]]"
    by code_simp+
  then show ?thesis
    using command_split_by_slot [of "demo_cmd (command_bytes demo_mset)" "command_bytes demo_mset" demo_mset "replicate 12 NUL" "[1, 3]" 0]
    by auto
qed

end
