(* ===== verification/ClusterReplies.thy ===== *)
theory ClusterReplies
  imports ClusterFragments ReplyObjects
begin

text \<open>
  How the cluster client (\<open>hircluster.c\<close>) puts the replies of the fragments of a command together.
  The replies live in the store of \<open>ReplyObjects\<close>; the field \<open>cm_reply\<close> of a command is the address
  of its reply, 0 for \<open>NULL\<close>. \<open>None\<close> is undefined behaviour.
\<close>

section \<open>Looking at the replies\<close>

datatype check_result = Replies_ok int | Replies_give obj | Replies_missing | Replies_type_error

text \<open>\<open>strcmp (reply->str, "OK") == 0\<close> after the tests of type and length.\<close>

definition is_status_ok :: "redisReply \<Rightarrow> bool option" where
  "is_status_ok r =
     (if rp_type r \<noteq> REDIS_REPLY_STATUS \<or> rp_len r \<noteq> 2 then Some False
      else map_option (\<lambda>s. c_str s = ''OK'') (rp_str r))"

text \<open>The sum of the integers is a \<open>long long\<close>, whose overflow is undefined.\<close>

fun check_replies :: "cmd_type \<Rightarrow> obj list \<Rightarrow> int \<Rightarrow> store \<Rightarrow> check_result option" where
  "check_replies ty [] count h = Some (Replies_ok count)"
| "check_replies ty (a # as) count h =
     (if a = 0 then Some Replies_missing
      else case hs_objs h a of
        None \<Rightarrow> None
      | Some r \<Rightarrow>
          if rp_type r = REDIS_REPLY_ERROR then Some (Replies_give a)
          else if ty = CMD_REQ_REDIS_MGET then
            (if rp_type r \<noteq> REDIS_REPLY_ARRAY then Some Replies_type_error else check_replies ty as count h)
          else if ty = CMD_REQ_REDIS_DEL \<or> ty = CMD_REQ_REDIS_EXISTS then
            (if rp_type r \<noteq> REDIS_REPLY_INTEGER then Some Replies_type_error
             else if - (2 ^ 63) \<le> count + rp_integer r \<and> count + rp_integer r < 2 ^ 63
             then check_replies ty as (count + rp_integer r) h
             else None)
          else if ty = CMD_REQ_REDIS_MSET then
            (case is_status_ok r of
               None \<Rightarrow> None
             | Some False \<Rightarrow> Some Replies_type_error
             | Some True \<Rightarrow> check_replies ty as count h)
          else check_replies ty as count h)"

section \<open>The elements of \<open>MGET\<close>\<close>

text \<open>\<open>command->frag_seq[i]->reply\<close>: the fragment of a slot is known by its slot.\<close>

definition frag_reply :: "cmd list \<Rightarrow> nat list \<Rightarrow> nat \<Rightarrow> obj option" where
  "frag_reply commands seq i =
     (if i < length seq then map_option cm_reply (List.find (\<lambda>c. cm_slot_num c = int (seq ! i)) commands) else None)"

definition set_element :: "obj \<Rightarrow> nat \<Rightarrow> obj \<Rightarrow> store \<Rightarrow> store" where
  "set_element a i x h = set_reply a (\<lambda>r. r\<lparr>rp_element := map_option (\<lambda>es. es[i := x]) (rp_element r)\<rparr>) h"

text \<open>The loop over the keys, from the last one down: the last element of the reply of its fragment
  is moved. The results are the reply that is returned, the error that is set, and the store.\<close>

fun merge_loop :: "obj \<Rightarrow> cmd list \<Rightarrow> nat list \<Rightarrow> nat \<Rightarrow> store \<Rightarrow> (obj \<times> (int \<times> bytes) option \<times> store) option" where
  "merge_loop a commands seq 0 h = Some (a, None, h)"
| "merge_loop a commands seq (Suc i) h =
     (case frag_reply commands seq i of
        None \<Rightarrow> None
      | Some s \<Rightarrow>
          if s = 0 then Some (0, Some (ERR_OTHER, ''sub reply is null''), freeReplyObject a h)
          else case hs_objs h s of
            None \<Rightarrow> None
          | Some sub \<Rightarrow>
              if rp_type sub = REDIS_REPLY_STRING then merge_loop a commands seq i (set_element a i s h)
              else if rp_type sub = REDIS_REPLY_ARRAY then
                (if rp_elements sub = 0 then Some (0, Some (ERR_OTHER, ''sub reply elements error''), freeReplyObject a h)
                 else case rp_element sub of
                   None \<Rightarrow> None
                 | Some es \<Rightarrow>
                     if rp_elements sub \<le> length es
                     then merge_loop a commands seq i
                       (set_reply s (\<lambda>r. r\<lparr>rp_elements := rp_elements r - 1\<rparr>) (set_element a i (es ! (rp_elements sub - 1)) h))
                     else None)
              else merge_loop a commands seq i h)"

section \<open>\<open>command_post_fragment\<close>\<close>

definition merge_oom :: "obj \<Rightarrow> store \<Rightarrow> (obj \<times> (int \<times> bytes) option \<times> store) option" where
  "merge_oom a h = Some (0, Some (ERR_OOM, ''Out of memory''), freeReplyObject a h)"

definition merged_reply :: "cmd \<Rightarrow> cmd list \<Rightarrow> int \<Rightarrow> obj \<Rightarrow> store \<Rightarrow> (obj \<times> (int \<times> bytes) option \<times> store) option" where
  "merged_reply command commands count a h =
     (let ty = cm_type command; n = length (ka_elem (cm_keys command)) in
      if ty = CMD_REQ_REDIS_MGET then
        (case store_alloc (set_reply a (\<lambda>r. r\<lparr>rp_type := REDIS_REPLY_ARRAY, rp_elements := n\<rparr>) h) of
           (False, h) \<Rightarrow> merge_oom a h
         | (True, h) \<Rightarrow> do {
             seq \<leftarrow> cm_frag_seq command;
             merge_loop a commands seq n (set_reply a (\<lambda>r. r\<lparr>rp_element := Some (replicate n 0)\<rparr>) h) })
      else if ty = CMD_REQ_REDIS_DEL \<or> ty = CMD_REQ_REDIS_EXISTS then
        Some (a, None, set_reply a (\<lambda>r. r\<lparr>rp_type := REDIS_REPLY_INTEGER, rp_integer := count\<rparr>) h)
      else if ty = CMD_REQ_REDIS_MSET then
        (case store_alloc (set_reply a (\<lambda>r. r\<lparr>rp_type := REDIS_REPLY_STATUS\<rparr>) h) of
           (False, h) \<Rightarrow> merge_oom a h
         | (True, h) \<Rightarrow> Some (a, None, set_reply a (\<lambda>r. r\<lparr>rp_len := 2, rp_str := Some (''OK'' @ [NUL])\<rparr>) h))
      else Some (a, None, h))"

definition command_post_fragment :: "cmd \<Rightarrow> cmd list \<Rightarrow> store \<Rightarrow> (obj \<times> (int \<times> bytes) option \<times> store) option" where
  "command_post_fragment command commands h = do {
     check \<leftarrow> check_replies (cm_type command) (map cm_reply commands) 0 h;
     case check of
       Replies_missing \<Rightarrow> Some (0, None, h)
     | Replies_give a \<Rightarrow> Some (a, None, h)
     | Replies_type_error \<Rightarrow> Some (0, Some (ERR_OTHER, ''reply type error''), h)
     | Replies_ok count \<Rightarrow>
         (case createReplyObject 0 h of
            (a, h) \<Rightarrow> if a = 0 then merge_oom a h else merged_reply command commands count a h) }"

end
