(* ===== verification/ClusterExecute.thy ===== *)
theory ClusterExecute
  imports ClusterUpdate ClusterReplies
begin

text \<open>
  Executing a command on the cluster (\<open>hircluster.c\<close>): the node of the slot is asked, and asked
  again as its answer says; a command over several slots is split, executed piece by piece, and its
  replies are put together.
\<close>

section \<open>Errors of the cluster\<close>

datatype CLUSTER_ERR_TYPE =
    CLUSTER_NOT_ERR | CLUSTER_ERR_MOVED | CLUSTER_ERR_ASK | CLUSTER_ERR_TRYAGAIN
  | CLUSTER_ERR_CROSSSLOT | CLUSTER_ERR_CLUSTERDOWN | CLUSTER_ERR_SENTINEL

text \<open>\<open>(int) strlen (p) < reply->len && strncmp (reply->str, p, strlen (p)) == 0\<close>\<close>

definition error_begins :: "bytes \<Rightarrow> redisReply \<Rightarrow> bytes \<Rightarrow> bool" where
  "error_begins p r s \<longleftrightarrow> length p < rp_len r \<and> take (length p) s = p"

definition cluster_reply_error_type :: "redisReply \<Rightarrow> CLUSTER_ERR_TYPE option" where
  "cluster_reply_error_type r =
     (if rp_type r \<noteq> REDIS_REPLY_ERROR then Some CLUSTER_NOT_ERR
      else do {
        s \<leftarrow> rp_str r;
        Some (if error_begins ''MOVED'' r s then CLUSTER_ERR_MOVED
          else if error_begins ''ASK'' r s then CLUSTER_ERR_ASK
          else if error_begins ''TRYAGAIN'' r s then CLUSTER_ERR_TRYAGAIN
          else if error_begins ''CROSSSLOT'' r s then CLUSTER_ERR_CROSSSLOT
          else if error_begins ''CLUSTERDOWN'' r s then CLUSTER_ERR_CLUSTERDOWN
          else CLUSTER_ERR_SENTINEL) })"

text \<open>The node that an \<open>ASK\<close> error names, 0 when it cannot be had. A new node is entered under the
  second word of the error, which is looked up under the third.\<close>

definition ask_new_node :: "(bytes, nat) dict \<Rightarrow> bytes \<Rightarrow> bytes list \<Rightarrow> 'w cluster \<Rightarrow> (nat outcome \<times> 'w cluster) option" where
  "ask_new_node nodes addr ip_port st =
     and_then (cluster_node_create st) (\<lambda>nd st. do {
       port \<leftarrow> hi_atoi (ip_port ! 1);
       let st = update_node nd (\<lambda>n. n\<lparr>nd_addr := Some addr, nd_host := Some (ip_port ! 0), nd_port := nat (port mod 2 ^ 16),
         nd_role := REDIS_ROLE_MASTER\<rparr>) st;
       and_then (add_copy nodes addr nd st) (\<lambda>(ok, nodes) st.
         Some (if ok then Done nd else Oom, st\<lparr>cc_nodes := Some nodes\<rparr>)) })"

definition node_get_by_ask_error_reply :: "redisReply \<Rightarrow> 'w cluster \<Rightarrow> (nat outcome \<times> 'w cluster) option" where
  "node_get_by_ask_error_reply r st = do {
     t \<leftarrow> cluster_reply_error_type r;
     if t \<noteq> CLUSTER_ERR_ASK then fail_with ''reply is not ask error!'' st
     else do {
       s \<leftarrow> reply_text r;
       catch_oom (and_then (split_text s (CHR '' '') st) (\<lambda>part st.
         if length part = 3 then
           and_then (split_text (part ! 2) (CHR '':'') st) (\<lambda>ip_port st.
             if length ip_port = 2 then do {
               nodes \<leftarrow> cc_nodes st;
               case dictFind nodes (part ! 2) of
                 Some (k, nd) \<Rightarrow> Some (Done nd, st)
               | None \<Rightarrow> ask_new_node nodes (part ! 1) ip_port st }
             else fail_with ''ask error reply address part parse error!'' st)
         else fail_with ''ask error reply parse error!'' st)) } }"

section \<open>One command\<close>

text \<open>The counters of the context are a state of their own.\<close>

record retries =
  rt_count :: int
  rt_max :: int

datatype place = Place_retry | Place_ask nat

definition retry_limit :: "int \<Rightarrow> retries \<Rightarrow> (bool \<times> retries) option" where
  "retry_limit one rt = (if rt_count rt + one < 2 ^ 31 then Some (rt_count rt + one > rt_max rt, rt\<lparr>rt_count := rt_count rt + one\<rparr>) else None)"

abbreviation too_many :: "'w cluster \<Rightarrow> 'w cluster" where
  "too_many st \<equiv> redisClusterSetError REDIS_ERR_CLUSTER_TOO_MANY_RETRIES ''too many cluster retries'' st"

text \<open>From the label \<open>retry\<close> to \<open>ask_retry\<close>: the context to send to, \<open>None\<close> in the result for the
  return of \<open>NULL\<close>.\<close>

definition choose_context :: "'w net \<Rightarrow> cmd \<Rightarrow> retries \<Rightarrow> 'w cluster \<Rightarrow> (nat option \<times> retries \<times> 'w cluster) option" where
  "choose_context net command rt st = do {
     nd \<leftarrow> node_get_by_table (nat (cm_slot_num command mod 2 ^ 32)) st;
     if nd = 0 then Some (None, rt, redisClusterSetError ERR_OTHER ''node get by table error'' st)
     else do {
       (c, st) \<leftarrow> ctx_get_by_node net nd st;
       if c = 0 then Some (None, rt, st)
       else if \<not> has_err net c st then Some (Some c, rt, st)
       else do {
         (nd, st) \<leftarrow> node_get_which_connected net st;
         if nd = 0 then Some (None, rt, redisClusterSetError ERR_OTHER ''no reachable node in cluster'' st)
         else do {
           (over, rt) \<leftarrow> retry_limit 1 rt;
           if over then Some (None, rt, too_many st)
           else do {
             (c, st) \<leftarrow> ctx_get_by_node net nd st;
             if c = 0 then Some (None, rt, st)
             else if has_err net c st then Some (None, rt, set_net_error net c st)
             else Some (Some c, rt, st) } } } } }"

text \<open>One exchange from the label \<open>ask_retry\<close> on: the reply, 0 when it is lost.\<close>

definition exchange :: "'w net \<Rightarrow> cmd \<Rightarrow> nat \<Rightarrow> 'w cluster \<Rightarrow> (obj \<times> 'w cluster) option" where
  "exchange net command c st = do {
     text \<leftarrow> cm_cmd command;
     if cm_clen command > length text then None
     else (case net_append net c (take (cm_clen command) text) (cc_world st) of
       (False, w) \<Rightarrow> Some (0, set_net_error net c (st\<lparr>cc_world := w\<rparr>))
     | (True, w) \<Rightarrow> (case net_block net c w (cc_store st) of
         (a, w, h) \<Rightarrow> let st = st\<lparr>cc_world := w, cc_store := h\<rparr> in
           Some (a, if a = 0 then set_net_error net c st else st))) }"

text \<open>What an error of the cluster asks for: to go on at a label, or (\<open>None\<close>) to return \<open>NULL\<close>.\<close>

definition redirect :: "'w net \<Rightarrow> CLUSTER_ERR_TYPE \<Rightarrow> obj \<Rightarrow> redisReply \<Rightarrow> 'w cluster \<Rightarrow> (place option \<times> 'w cluster) option" where
  "redirect net ty a r st =
     (if ty = CLUSTER_ERR_MOVED then do {
        (ok, st) \<leftarrow> cluster_update_route net (drop_reply a st);
        Some (if ok then (Some Place_retry, st)
          else (None, redisClusterSetError ERR_OTHER ''route update error, please recreate redisClusterContext!'' st)) }
      else if ty = CLUSTER_ERR_ASK then do {
        (e, st) \<leftarrow> node_get_by_ask_error_reply r st;
        let st = drop_reply a st;
        case e of
          Done nd \<Rightarrow> if nd = 0 then Some (None, st) else do {
            (c, st) \<leftarrow> ctx_get_by_node net nd st;
            if c = 0 then Some (None, st)
            else if has_err net c st then Some (None, set_net_error net c st)
            else (case ask net c [''ASKING''] st of (a, st) \<Rightarrow>
              Some (if a = 0 then (None, set_net_error net c st) else (Some (Place_ask c), drop_reply a st))) }
        | _ \<Rightarrow> Some (None, st) }
      else Some (Some Place_retry, drop_reply a st))"

lemma retry_limit_counts:
  "retry_limit one rt = Some (over, rt') \<Longrightarrow> rt_count rt' = rt_count rt + one \<and> rt_max rt' = rt_max rt \<and> over = (rt_count rt' > rt_max rt)"
  by (auto simp: retry_limit_def split: if_splits)

lemma choose_context_counts:
  "choose_context net command rt st = Some (r, rt', st') \<Longrightarrow>
     rt_max rt' = rt_max rt \<and> (rt_count rt' = rt_count rt \<or> rt_count rt' = rt_count rt + 1) \<and>
     (rt_count rt' = rt_count rt + 1 \<and> rt_count rt' > rt_max rt \<longrightarrow> r = None \<and> cc_err st' = REDIS_ERR_CLUSTER_TOO_MANY_RETRIES)"
  by (auto simp: choose_context_def redisClusterSetError_def split: Option.bind_splits prod.splits if_splits dest!: retry_limit_counts)

text \<open>One round of \<open>redis_cluster_command_execute\<close>, with at most one exchange: it returns (\<open>Inl\<close>) or
  goes back to a label (\<open>Inr\<close>), and then has counted a retry.\<close>

definition execute_turn :: "'w net \<Rightarrow> cmd \<Rightarrow> place \<Rightarrow> retries \<Rightarrow> 'w cluster \<Rightarrow>
    (obj \<times> retries \<times> 'w cluster + place \<times> retries \<times> 'w cluster) option" where
  "execute_turn net command at rt st = do {
     (c, rt, st) \<leftarrow> (case at of Place_retry \<Rightarrow> choose_context net command rt st | Place_ask c \<Rightarrow> Some (Some c, rt, st));
     case c of
       None \<Rightarrow> Some (Inl (0, rt, st))
     | Some c \<Rightarrow> do {
         (a, st) \<leftarrow> exchange net command c st;
         if a = 0 then Some (Inl (0, rt, st))
         else do {
           r \<leftarrow> hs_objs (cc_store st) a;
           ty \<leftarrow> cluster_reply_error_type r;
           if ty = CLUSTER_NOT_ERR \<or> ty = CLUSTER_ERR_SENTINEL then Some (Inl (a, rt, st))
           else do {
             (over, rt) \<leftarrow> retry_limit 1 rt;
             if over then Some (Inl (0, rt, drop_reply a (too_many st)))
             else do {
               (at, st) \<leftarrow> redirect net ty a r st;
               Some (case at of None \<Rightarrow> Inl (0, rt, st) | Some at \<Rightarrow> Inr (at, rt, st)) } } } } }"

lemma execute_turn_counts:
  assumes "execute_turn net command at rt st = Some r"
  shows "case r of
      Inl (a, rt', st') \<Rightarrow> rt_max rt' = rt_max rt \<and> rt_count rt \<le> rt_count rt' \<and> (rt_count rt \<le> rt_max rt \<longrightarrow> rt_count rt' \<le> rt_max rt + 1) \<and>
        (rt_count rt \<le> rt_max rt \<and> rt_max rt < rt_count rt' \<longrightarrow> a = 0 \<and> cc_err st' = REDIS_ERR_CLUSTER_TOO_MANY_RETRIES)
    | Inr (at', rt', st') \<Rightarrow> rt_max rt' = rt_max rt \<and> rt_count rt < rt_count rt' \<and> rt_count rt' \<le> rt_max rt"
proof -
  obtain c rt1 st1 where c: "(case at of Place_retry \<Rightarrow> choose_context net command rt st | Place_ask c \<Rightarrow> Some (Some c, rt, st)) = Some (c, rt1, st1)"
    using assms by (auto simp: execute_turn_def split: Option.bind_splits prod.splits)
  have rt1: "rt_max rt1 = rt_max rt" "rt_count rt1 = rt_count rt \<or> rt_count rt1 = rt_count rt + 1"
      "rt_count rt1 = rt_count rt + 1 \<Longrightarrow> rt_count rt1 > rt_max rt \<Longrightarrow> c = None \<and> cc_err st1 = REDIS_ERR_CLUSTER_TOO_MANY_RETRIES"
    using c choose_context_counts [of net command rt st c rt1 st1] by (auto split: place.splits)
  show ?thesis
  proof (cases c)
    case None
    then show ?thesis using assms c rt1 by (auto simp: execute_turn_def)
  next
    case (Some x)
    then obtain a st2 where a: "exchange net command x st1 = Some (a, st2)" using assms c by (auto simp: execute_turn_def split: Option.bind_splits)
    have "rt_count rt1 = rt_count rt \<or> rt_count rt1 = rt_count rt + 1 \<and> rt_count rt1 \<le> rt_max rt" using rt1(2,3) Some by force
    then show ?thesis
      using assms c Some a rt1(1)
      by (auto simp: execute_turn_def drop_reply_def redisClusterSetError_def split: Option.bind_splits if_splits option.splits dest!: retry_limit_counts)
  qed
qed

function execute_loop :: "'w net \<Rightarrow> cmd \<Rightarrow> place \<Rightarrow> retries \<Rightarrow> 'w cluster \<Rightarrow> (obj \<times> retries \<times> 'w cluster) option" where
  "execute_loop net command at rt st =
     (case execute_turn net command at rt st of
        None \<Rightarrow> None
      | Some (Inl r) \<Rightarrow> Some r
      | Some (Inr (at, rt, st)) \<Rightarrow> execute_loop net command at rt st)"
  by pat_completeness auto
termination
  by (relation "measure (\<lambda>(net, command, at, rt, st). nat (rt_max rt - rt_count rt))")
    (auto dest!: execute_turn_counts)

declare execute_loop.simps [simp del]

definition redis_cluster_command_execute :: "'w net \<Rightarrow> cmd \<Rightarrow> retries \<Rightarrow> 'w cluster \<Rightarrow> (obj \<times> retries \<times> 'w cluster) option" where
  "redis_cluster_command_execute net command rt st = execute_loop net command Place_retry rt st"

section \<open>A formatted command\<close>

text \<open>The loop over the fragments ends early when a reply is lost or is an error. The fragments get
  their replies.\<close>

datatype all_result = All_done | All_lost | All_error obj

fun execute_all :: "'w net \<Rightarrow> cmd list \<Rightarrow> cmd list \<Rightarrow> retries \<Rightarrow> 'w cluster \<Rightarrow> (all_result \<times> cmd list \<times> retries \<times> 'w cluster) option" where
  "execute_all net [] ready rt st = Some (All_done, ready, rt, st)"
| "execute_all net (c # cs) ready rt st =
     (case redis_cluster_command_execute net c rt st of
        None \<Rightarrow> None
      | Some (a, rt, st) \<Rightarrow>
          if a = 0 then Some (All_lost, ready @ c # cs, rt, st)
          else (case hs_objs (cc_store st) a of
            None \<Rightarrow> None
          | Some r \<Rightarrow>
              if rp_type r = REDIS_REPLY_ERROR then Some (All_error a, ready @ c # cs, rt, st)
              else execute_all net cs (ready @ [c\<lparr>cm_reply := a\<rparr>]) rt st))"

definition set_split_error :: "(int \<times> bytes) option \<Rightarrow> 'w cluster \<Rightarrow> 'w cluster" where
  "set_split_error e st = (case e of None \<Rightarrow> st | Some (ty, s) \<Rightarrow> redisClusterSetError ty s st)"

text \<open>\<open>listRelease\<close> of the fragments, of which only the replies are in the store.\<close>

definition release_commands :: "cmd list \<Rightarrow> 'w cluster \<Rightarrow> 'w cluster" where
  "release_commands cs st = fold (\<lambda>c. drop_reply (cm_reply c)) cs st"

definition execute_split :: "'w net \<Rightarrow> split_result \<Rightarrow> retries \<Rightarrow> 'w cluster \<Rightarrow> (obj \<times> retries \<times> 'w cluster) option" where
  "execute_split net res rt st = do {
     (e, cs, rt, st) \<leftarrow> execute_all net (sp_commands res) [] rt st;
     case e of
       All_lost \<Rightarrow> Some (0, rt, release_commands cs st)
     | All_error a \<Rightarrow> Some (a, rt, release_commands cs st)
     | All_done \<Rightarrow> do {
         (a, err, h) \<leftarrow> command_post_fragment (sp_command res) cs (cc_store st);
         Some (a, rt, release_commands cs (set_split_error err (st\<lparr>cc_store := h\<rparr>))) } }"

text \<open>\<open>i\<close> is the counter of command ids, \<open>num_str\<close> the buffer of \<open>command_pre_fragment\<close>. The result
  has the reply and the new counter.\<close>

definition redisClusterFormattedCommand :: "'w net \<Rightarrow> bytes \<Rightarrow> bytes \<Rightarrow> nat \<Rightarrow> nat \<Rightarrow> retries \<Rightarrow> 'w cluster \<Rightarrow> (obj \<times> nat \<times> retries \<times> 'w cluster) option" where
  "redisClusterFormattedCommand net num_str text len i rt st = (
     let st = (if cc_err st \<noteq> 0 then st\<lparr>cc_err := 0, cc_errstr := []\<rparr> else st);
         quit = (\<lambda>i rt st. Some (0, i, rt\<lparr>rt_count := 0\<rparr>, st)) in
     case command_get i (cc_mem st) of
       (None, i, m) \<Rightarrow> quit i rt (redisClusterSetError ERR_OOM ''Out of memory'' (st\<lparr>cc_mem := m\<rparr>))
     | (Some command, i, m) \<Rightarrow>
         (case alloc m of
            (False, m) \<Rightarrow> quit i rt (redisClusterSetError ERR_OOM ''Out of memory'' (st\<lparr>cc_mem := m\<rparr>))
          | (True, m) \<Rightarrow> do {
              res \<leftarrow> command_format_by_slot num_str (command\<lparr>cm_cmd := Some text, cm_clen := len\<rparr>) [] i m;
              let st = set_split_error (sp_error res) (st\<lparr>cc_mem := sp_mem res\<rparr>);
              if sp_slot res < 0 then quit (sp_id res) rt st
              else if sp_slot res \<ge> int REDIS_CLUSTER_SLOTS then
                quit (sp_id res) rt (redisClusterSetError ERR_OTHER ''slot_num is out of range'' st)
              else do {
                (a, rt, st) \<leftarrow>
                  (if sp_commands res = [] then redis_cluster_command_execute net (sp_command res) rt st
                   else execute_split net res rt st);
                Some (a, sp_id res, rt\<lparr>rt_count := 0\<rparr>, st) } }))"

section \<open>Executing ends\<close>

text \<open>The outcome after at most \<open>n\<close> rounds, \<open>None\<close> when the execution goes on.\<close>

fun run_rounds :: "nat \<Rightarrow> 'w net \<Rightarrow> cmd \<Rightarrow> place \<Rightarrow> retries \<Rightarrow> 'w cluster \<Rightarrow> (obj \<times> retries \<times> 'w cluster) option option" where
  "run_rounds 0 net command at rt st = None"
| "run_rounds (Suc n) net command at rt st =
     (case execute_turn net command at rt st of
        None \<Rightarrow> Some None
      | Some (Inl r) \<Rightarrow> Some (Some r)
      | Some (Inr (at, rt, st)) \<Rightarrow> run_rounds n net command at rt st)"

lemma run_rounds_ends: "nat (rt_max rt - rt_count rt) < n \<Longrightarrow> run_rounds n net command at rt st = Some (execute_loop net command at rt st)"
proof (induction n arbitrary: at rt st)
  case (Suc n)
  show ?case
  proof (cases "execute_turn net command at rt st")
    case (Some r)
    show ?thesis
    proof (cases r)
      case (Inr x)
      then obtain at' rt' st' where x: "r = Inr (at', rt', st')" by (cases x) auto
      then have "nat (rt_max rt' - rt_count rt') < n" using Suc.prems execute_turn_counts [OF Some] by auto
      then show ?thesis using Suc.IH Some x by (simp add: execute_loop.simps [of _ _ at])
    qed (simp add: Some execute_loop.simps)
  qed (simp add: execute_loop.simps)
qed simp

lemma execute_loop_counts:
  "rt_count rt \<le> rt_max rt \<Longrightarrow> execute_loop net command at rt st = Some (a, rt', st') \<Longrightarrow>
     rt_max rt' = rt_max rt \<and> rt_count rt \<le> rt_count rt' \<and> rt_count rt' \<le> rt_max rt + 1 \<and>
     (rt_max rt < rt_count rt' \<longrightarrow> a = 0 \<and> cc_err st' = REDIS_ERR_CLUSTER_TOO_MANY_RETRIES)"
proof (induction net command at rt st rule: execute_loop.induct)
  case (1 net command at rt st)
  then obtain r where r: "execute_turn net command at rt st = Some r" by (auto simp: execute_loop.simps [of _ _ at] split: option.splits)
  note c = execute_turn_counts [OF r]
  show ?case
  proof (cases r)
    case (Inl x)
    then show ?thesis using 1(2,3) r c by (auto simp: execute_loop.simps [of _ _ at])
  next
    case (Inr x)
    then obtain at' rt1 st1 where x: "r = Inr (at', rt1, st1)" by (cases x) auto
    then show ?thesis using 1(1) [OF r] 1(2,3) r c Inr by (fastforce simp: execute_loop.simps [of _ _ at])
  qed
qed

text \<open>C19: Whatever the nodes of the cluster answer, redirections without end included, the execution
  of a command ends after at most one exchange more than there are retries left. A retry too many
  is reported as such, and the counter never runs past one more than the maximum.\<close>

theorem execute_ends:
  assumes "rt_count rt \<le> rt_max rt"
  shows "run_rounds (nat (rt_max rt - rt_count rt) + 1) net command Place_retry rt st = Some (redis_cluster_command_execute net command rt st) \<and>
    (case redis_cluster_command_execute net command rt st of
       None \<Rightarrow> True
     | Some (a, rt', st') \<Rightarrow> rt_max rt' = rt_max rt \<and> rt_count rt \<le> rt_count rt' \<and> rt_count rt' \<le> rt_max rt + 1 \<and>
         (rt_max rt < rt_count rt' \<longrightarrow> a = 0 \<and> cc_err st' = REDIS_ERR_CLUSTER_TOO_MANY_RETRIES))"
proof (rule conjI)
  show "run_rounds (nat (rt_max rt - rt_count rt) + 1) net command Place_retry rt st = Some (redis_cluster_command_execute net command rt st)"
    unfolding redis_cluster_command_execute_def by (rule run_rounds_ends) simp
next
  show "case redis_cluster_command_execute net command rt st of
       None \<Rightarrow> True
     | Some (a, rt', st') \<Rightarrow> rt_max rt' = rt_max rt \<and> rt_count rt \<le> rt_count rt' \<and> rt_count rt' \<le> rt_max rt + 1 \<and>
         (rt_max rt < rt_count rt' \<longrightarrow> a = 0 \<and> cc_err st' = REDIS_ERR_CLUSTER_TOO_MANY_RETRIES)"
  proof (cases "redis_cluster_command_execute net command rt st")
    case (Some r)
    then show ?thesis using execute_loop_counts [OF assms, of net command Place_retry st] by (cases r) (simp add: redis_cluster_command_execute_def)
  qed simp
qed

text \<open>A node that is always busy; the state of the network counts the commands sent.\<close>

definition busy_net :: "nat net" where
  "busy_net = \<lparr>net_err = (\<lambda>_ _. 0), net_errstr = (\<lambda>_ _. []), net_connect = (\<lambda>_ _ w. (1, w)), net_reconnect = (\<lambda>_ w. w),
     net_timeout = (\<lambda>_ w. w), net_free = (\<lambda>_ w. w), net_append = (\<lambda>_ _ w. (True, w + 1)),
     net_block = (\<lambda>_ w h. case createReplyObject REDIS_REPLY_ERROR h of
       (a, h) \<Rightarrow> (a, w, set_reply a (\<lambda>r. r\<lparr>rp_len := 14, rp_str := Some (''TRYAGAIN later'' @ [NUL])\<rparr>) h)),
     net_command = (\<lambda>_ _ w h. (0, w, h))\<rparr>"

definition busy_cluster :: "nat cluster" where
  "busy_cluster = (redisClusterContextInit 0 \<lparr>hs_objs = Map.empty, hs_next = 1, hs_answers = [], hs_fault = False\<rparr>)
     \<lparr>cc_heap := [1 \<mapsto> blank_node\<lparr>nd_con := 1\<rparr>], cc_table := Some [1]\<rparr>"

theorem execute_ends_witness:
  "\<exists>c. cm_slot_num c = 0 \<and> run_rounds 6 busy_net c Place_retry \<lparr>rt_count = 0, rt_max = 5\<rparr> busy_cluster =
       Some (redis_cluster_command_execute busy_net c \<lparr>rt_count = 0, rt_max = 5\<rparr> busy_cluster)"
proof -
  let ?c = "the (fst (command_get 0 []))\<lparr>cm_cmd := Some ''x'', cm_clen := 1, cm_slot_num := 0\<rparr>" and ?rt = "\<lparr>rt_count = 0, rt_max = 5\<rparr>"
  have "run_rounds 6 busy_net ?c Place_retry ?rt busy_cluster = Some (redis_cluster_command_execute busy_net ?c ?rt busy_cluster)"
    using execute_ends [of ?rt busy_net ?c busy_cluster] by simp
  then show ?thesis by (intro exI [of _ ?c]) simp
qed

section \<open>Following an ASK error\<close>

lemma atoi_loop_digits:
  "\<forall>c \<in> set cs. c_isdigit c \<Longrightarrow> 0 \<le> v \<Longrightarrow> (v + 1) * 10 ^ length cs \<le> 2 ^ 31 \<Longrightarrow> \<exists>w. atoi_loop cs v = Some w \<and> 0 \<le> w"
proof (induction cs arbitrary: v)
  case (Cons c cs)
  have d: "digit_val c \<le> 9" using Cons.prems(1) by (auto simp: digit_val_def c_isdigit_def uchar_def)
  have "(v * 10 + int (digit_val c) + 1) * 10 ^ length cs \<le> (v + 1) * 10 * 10 ^ length cs"
    using d by (intro mult_right_mono) auto
  also have "\<dots> \<le> 2 ^ 31" using Cons.prems(3) by (simp only: list.size(4) power_Suc mult.assoc add_0_right One_nat_def add_Suc_right)
  finally have le: "(v * 10 + int (digit_val c) + 1) * 10 ^ length cs \<le> 2 ^ 31" .
  have "v * 10 + int (digit_val c) + 1 \<le> (v * 10 + int (digit_val c) + 1) * 10 ^ length cs"
    using Cons.prems(2) by (simp add: mult_le_cancel_left1)
  then have "v * 10 + int (digit_val c) < 2 ^ 31" using le by linarith
  then show ?case using Cons.IH [of "v * 10 + int (digit_val c)"] Cons.prems(1,2) le by simp
qed simp

lemma hi_atoi_digits:
  assumes "\<forall>c \<in> set port. c_isdigit c" "port \<noteq> []" "length port \<le> 9"
  shows "\<exists>v. hi_atoi port = Some v \<and> 0 \<le> v"
proof -
  have "(10::int) ^ length port \<le> 10 ^ 9" using assms(3) by (intro power_increasing) auto
  then show ?thesis using atoi_loop_digits [OF assms(1), of 0] assms(2) by (simp add: hi_atoi_def)
qed

definition ask_text :: "bytes \<Rightarrow> bytes \<Rightarrow> bytes \<Rightarrow> bytes" where
  "ask_text slot host port = ''ASK '' @ slot @ '' '' @ host @ '':'' @ port"

lemma ask_split:
  assumes "rp_type r = REDIS_REPLY_ERROR" "rp_str r = Some (ask_text slot host port @ [NUL])" "rp_len r = length (ask_text slot host port)"
    and "CHR '' '' \<notin> set (slot @ host @ port)" "CHR '':'' \<notin> set (host @ port)" "length (ask_text slot host port) < 2 ^ 31"
    and "willing (cc_smem st)" "cc_nodes st = Some nodes" "nodes_dict nodes"
  shows "\<exists>m. node_get_by_ask_error_reply r st = catch_oom (case dict_map nodes (host @ '':'' @ port) of
      Some nd \<Rightarrow> Some (Done nd, st\<lparr>cc_smem := m\<rparr>)
    | None \<Rightarrow> ask_new_node nodes slot [host, port] (st\<lparr>cc_smem := m\<rparr>)) \<and> willing m"
proof -
  have ty: "cluster_reply_error_type r = Some CLUSTER_ERR_ASK"
    using assms(1-3) by (simp add: cluster_reply_error_type_def error_begins_def ask_text_def)
  have rt: "reply_text r = Some (ask_text slot host port)" using assms(2,3) by (simp add: reply_text_def)
  have "\<exists>m. split_text (ask_text slot host port) (CHR '' '') st = Some (Done [''ASK'', slot, host @ '':'' @ port], st\<lparr>cc_smem := m\<rparr>) \<and> willing m"
    using assms(4,6,7) by (intro split_text_ok) (auto simp: ask_text_def)
  then obtain m1 where m1: "split_text (ask_text slot host port) (CHR '' '') st = Some (Done [''ASK'', slot, host @ '':'' @ port], st\<lparr>cc_smem := m1\<rparr>)" "willing m1" by blast
  have "\<exists>m. split_text (host @ '':'' @ port) (CHR '':'') (st\<lparr>cc_smem := m1\<rparr>) = Some (Done [host, port], st\<lparr>cc_smem := m1, cc_smem := m\<rparr>) \<and> willing m"
    using assms(5,6) m1(2) by (intro split_text_ok) (auto simp: ask_text_def)
  then obtain m2 where m2: "split_text (host @ '':'' @ port) (CHR '':'') (st\<lparr>cc_smem := m1\<rparr>) = Some (Done [host, port], st\<lparr>cc_smem := m2\<rparr>)" "willing m2" by auto
  show ?thesis
    using ty rt m1(1) m2 assms(8) nodes_dict_find [OF assms(9)]
    by (intro exI [of _ m2]) (auto simp: node_get_by_ask_error_reply_def and_then_def split: option.splits)
qed


definition demo_ask :: "bytes \<Rightarrow> redisReply" where
  "demo_ask port = (blank_reply REDIS_REPLY_ERROR)\<lparr>rp_str := Some (''ASK 3999 127.0.0.1:'' @ port @ [NUL]), rp_len := 23\<rparr>"

definition demo_context :: "unit cluster" where
  "demo_context = (redisClusterContextInit () \<lparr>hs_objs = Map.empty, hs_next = 1, hs_answers = [], hs_fault = False\<rparr>)
     \<lparr>cc_nodes := Some (dictInit clusterNodesDictType)\<rparr>"


end
