(* ===== verification/ClusterMget.thy ===== *)
theory ClusterMget
  imports ClusterExecute
begin

text \<open>
  An \<open>MGET\<close> over several nodes of a cluster (\<open>hircluster.c\<close>): splitting, executing and merging give
  the values of the keys in the order in which they were asked for.
\<close>

section \<open>Merging the values of \<open>MGET\<close>\<close>

text \<open>The values that one object holds: strings, and nothing for a missing key.\<close>

fun plain :: "val \<Rightarrow> bool" where
  "plain (V_string _) = True"
| "plain V_null_string = True"
| "plain _ = False"

lemma plain_frame: "plain v \<Longrightarrow> represents std m a v \<Longrightarrow> m' a = m a \<Longrightarrow> represents std m' a v"
  by (cases v) (auto simp: represents.simps split: option.splits)

lemma plain_leaf: "plain v \<Longrightarrow> represents std m a v \<Longrightarrow> \<exists>r. m a = Some r \<and> rp_type r \<noteq> REDIS_REPLY_ARRAY"
  by (cases v) (auto simp: represents.simps split: option.splits)

text \<open>The keys with slot \<open>s\<close>; the reply of each fragment is an array with the values of its keys.\<close>

abbreviation slot_keys :: "nat \<Rightarrow> bytes list \<Rightarrow> bytes list" where
  "slot_keys s ks \<equiv> filter (\<lambda>k. slot_of k = s) ks"

definition frag_array :: "(bytes \<Rightarrow> double \<times> nat) \<Rightarrow> (bytes \<Rightarrow> val) \<Rightarrow> (obj \<rightharpoonup> redisReply) \<Rightarrow> bytes list \<Rightarrow> nat \<Rightarrow> obj \<Rightarrow> redisReply \<Rightarrow> bool" where
  "frag_array std db m ks s a r \<longleftrightarrow> a \<noteq> 0 \<and> m a = Some r \<and> rp_type r = REDIS_REPLY_ARRAY \<and> rp_elements r = length (slot_keys s ks) \<and>
     (\<exists>es. rp_element r = Some es \<and> list_all2 (\<lambda>e k. represents std m e (db k)) es (slot_keys s ks))"

text \<open>\<open>merging\<close>: the keys from number \<open>i\<close> on have their values in the new reply \<open>a\<close>, and the
  arrays of the fragments hold the values of the others.\<close>

definition merging :: "(bytes \<Rightarrow> double \<times> nat) \<Rightarrow> (bytes \<Rightarrow> val) \<Rightarrow> (obj \<rightharpoonup> redisReply) \<Rightarrow> bytes list \<Rightarrow> (nat \<Rightarrow> obj) \<Rightarrow> obj \<Rightarrow> nat \<Rightarrow> store \<Rightarrow> bool" where
  "merging std db m ks rep a i h \<longleftrightarrow>
     (\<exists>r es. hs_objs h a = Some r \<and> rp_type r = REDIS_REPLY_ARRAY \<and> rp_elements r = length ks \<and> rp_element r = Some es \<and> length es = length ks \<and>
        (\<forall>j. i \<le> j \<and> j < length ks \<longrightarrow> represents std m (es ! j) (db (ks ! j)))) \<and>
     (\<forall>k \<in> set ks. hs_objs h (rep (slot_of k)) =
        map_option (\<lambda>r. r\<lparr>rp_elements := length (slot_keys (slot_of k) (take i ks))\<rparr>) (m (rep (slot_of k)))) \<and>
     (\<forall>x. x \<noteq> a \<longrightarrow> x \<notin> rep ` slot_of ` set ks \<longrightarrow> hs_objs h x = m x)"

lemma nth_filter_count: "j < length xs \<Longrightarrow> P (xs ! j) \<Longrightarrow>
    length (filter P (take j xs)) < length (filter P xs) \<and> filter P xs ! length (filter P (take j xs)) = xs ! j"
proof (induction xs arbitrary: j)
  case (Cons x xs)
  then show ?case by (cases j) auto
qed simp

lemma merge_step:
  assumes "merging std db m ks rep a (Suc i) h" "i < length ks" "frag_reply commands seq i = Some (rep (slot_of (ks ! i)))"
    and arrays: "\<forall>k \<in> set ks. \<exists>r. frag_array std db m ks (slot_of k) (rep (slot_of k)) r"
    and inj: "inj_on rep (slot_of ` set ks)" and "m a = None"
  shows "\<exists>h'. merge_loop a commands seq (Suc i) h = merge_loop a commands seq i h' \<and> merging std db m ks rep a i h' \<and>
    h' = h\<lparr>hs_objs := hs_objs h'\<rparr>"
proof -
  let ?k = "ks ! i" let ?s = "slot_of ?k" let ?n = "length (slot_keys ?s (take i ks))"
  have mem: "?k \<in> set ks" using assms(2) by simp
  obtain r where r: "frag_array std db m ks ?s (rep ?s) r" using arrays mem by blast
  then obtain es where es: "rp_element r = Some es" "list_all2 (\<lambda>e k. represents std m e (db k)) es (slot_keys ?s ks)" by (auto simp: frag_array_def)
  have n: "length (slot_keys ?s (take (Suc i) ks)) = Suc ?n" using assms(2) by (simp add: take_Suc_conv_app_nth)
  let ?sub = "r\<lparr>rp_elements := Suc ?n\<rparr>"
  have sub: "hs_objs h (rep ?s) = Some ?sub" using assms(1) mem n r by (auto simp: merging_def frag_array_def)
  have cnt: "?n < length (slot_keys ?s ks)" "slot_keys ?s ks ! ?n = ?k" using nth_filter_count [of i ks "\<lambda>k. slot_of k = ?s"] assms(2) by auto
  have le: "Suc ?n \<le> length es" using list_all2_lengthD [OF es(2)] cnt(1) by simp
  have val: "represents std m (es ! ?n) (db ?k)" using list_all2_nthD2 [OF es(2) cnt(1)] cnt(2) by simp
  let ?h = "set_reply (rep ?s) (\<lambda>r. r\<lparr>rp_elements := rp_elements r - 1\<rparr>) (set_element a i (es ! ?n) h)"
  have na: "rep (slot_of k) \<noteq> a" if "k \<in> set ks" for k using arrays that assms(6) by (auto simp: frag_array_def)
  have "merge_loop a commands seq (Suc i) h = merge_loop a commands seq i ?h"
    using assms(3) sub r es(1) le by (auto simp: frag_array_def)
  moreover have "merging std db m ks rep a i ?h"
  proof -
    obtain ra E where ra: "hs_objs h a = Some ra" "rp_type ra = REDIS_REPLY_ARRAY" "rp_elements ra = length ks" "rp_element ra = Some E" "length E = length ks"
        "\<And>j. Suc i \<le> j \<Longrightarrow> j < length ks \<Longrightarrow> represents std m (E ! j) (db (ks ! j))"
      using assms(1) by (auto simp: merging_def)
    let ?E = "E[i := es ! ?n]"
    have a: "hs_objs ?h a = Some (ra\<lparr>rp_element := Some ?E\<rparr>)" using na [OF mem] ra by (simp add: set_reply_def set_element_def)
    have vals: "represents std m (?E ! j) (db (ks ! j))" if "i \<le> j" "j < length ks" for j
      using that ra(5,6) val by (cases "j = i") auto
    have subs: "hs_objs ?h (rep (slot_of k)) = map_option (\<lambda>r. r\<lparr>rp_elements := length (slot_keys (slot_of k) (take i ks))\<rparr>) (m (rep (slot_of k)))"
      if k: "k \<in> set ks" for k
    proof (cases "slot_of k = ?s")
      case True
      then show ?thesis using na [OF mem] sub r by (simp add: set_reply_def set_element_def frag_array_def)
    next
      case False
      then have "rep (slot_of k) \<noteq> rep ?s" using inj k mem by (auto dest: inj_onD)
      moreover have "slot_keys (slot_of k) (take (Suc i) ks) = slot_keys (slot_of k) (take i ks)"
        using False assms(2) by (auto simp: take_Suc_conv_app_nth)
      ultimately show ?thesis using na [OF k] assms(1) k by (auto simp: set_reply_def set_element_def merging_def)
    qed
    have others: "hs_objs ?h x = m x" if "x \<noteq> a" "x \<notin> rep ` slot_of ` set ks" for x
      using that assms(1) mem by (auto simp: set_reply_def set_element_def merging_def)
    show ?thesis unfolding merging_def using a ra vals subs others by fastforce
  qed
  moreover have "?h = h\<lparr>hs_objs := hs_objs ?h\<rparr>" by (simp add: set_reply_def set_element_def)
  ultimately show ?thesis by blast
qed

lemma merge_loop_ok:
  assumes "merging std db m ks rep a i h" "i \<le> length ks"
    and "\<And>j. j < length ks \<Longrightarrow> frag_reply commands seq j = Some (rep (slot_of (ks ! j)))"
    and "\<forall>k \<in> set ks. \<exists>r. frag_array std db m ks (slot_of k) (rep (slot_of k)) r" "inj_on rep (slot_of ` set ks)" "m a = None"
  shows "\<exists>h'. merge_loop a commands seq i h = Some (a, None, h') \<and> merging std db m ks rep a 0 h' \<and> h' = h\<lparr>hs_objs := hs_objs h'\<rparr>"
  using assms(1,2)
proof (induction i arbitrary: h)
  case (Suc i)
  obtain h1 where h1: "merge_loop a commands seq (Suc i) h = merge_loop a commands seq i h1" "merging std db m ks rep a i h1" "h1 = h\<lparr>hs_objs := hs_objs h1\<rparr>"
    using merge_step [OF Suc.prems(1) _ assms(3-6)] Suc.prems(2) by force
  then obtain h2 where "merge_loop a commands seq i h1 = Some (a, None, h2)" "merging std db m ks rep a 0 h2" "h2 = h1\<lparr>hs_objs := hs_objs h2\<rparr>"
    using Suc.IH [OF h1(2)] Suc.prems(2) by auto
  then show ?case using h1 by (metis store.update_convs(1) store.surjective)
qed (auto intro!: exI [of _ h])

lemma represents_all_iff: "represents_all std m es vs \<longleftrightarrow> list_all2 (represents std m) es vs"
proof (induction es arbitrary: vs)
  case Nil
  then show ?case by (cases vs) simp_all
next
  case (Cons e es)
  then show ?case by (cases vs) simp_all
qed

text \<open>A reply with no elements left is released alone.\<close>

lemma free_empty:
  assumes "hs_objs h x = Some r" "x \<noteq> 0" "rp_type r = REDIS_REPLY_ARRAY" "rp_elements r = 0"
  shows "freeReplyObject x h = h\<lparr>hs_objs := (hs_objs h)(x := None)\<rparr>"
  using assms by (simp add: freeReplyObject_def split: option.splits)

lemma release_empty:
  "distinct (map cm_reply cs) \<Longrightarrow> \<forall>c \<in> set cs. \<exists>r. cm_reply c \<noteq> 0 \<and> hs_objs (cc_store st) (cm_reply c) = Some r \<and> rp_type r = REDIS_REPLY_ARRAY \<and> rp_elements r = 0 \<Longrightarrow>
   \<exists>h. release_commands cs st = st\<lparr>cc_store := h\<rparr> \<and> (\<forall>x. x \<notin> cm_reply ` set cs \<longrightarrow> hs_objs h x = hs_objs (cc_store st) x)"
proof (induction cs arbitrary: st)
  case Nil
  show ?case by (intro exI [of _ "cc_store st"]) (simp add: release_commands_def)
next
  case (Cons c cs)
  let ?st = "drop_reply (cm_reply c) st"
  obtain r where "hs_objs (cc_store st) (cm_reply c) = Some r" "cm_reply c \<noteq> 0" "rp_type r = REDIS_REPLY_ARRAY" "rp_elements r = 0" using Cons.prems(2) by auto
  then have d: "?st = st\<lparr>cc_store := (cc_store st)\<lparr>hs_objs := (hs_objs (cc_store st))(cm_reply c := None)\<rparr>\<rparr>" by (simp add: drop_reply_def free_empty)
  have "\<forall>c' \<in> set cs. cm_reply c' \<noteq> cm_reply c" using Cons.prems(1) by (auto simp: image_iff)
  then have "\<exists>h. release_commands cs ?st = ?st\<lparr>cc_store := h\<rparr> \<and> (\<forall>x. x \<notin> cm_reply ` set cs \<longrightarrow> hs_objs h x = hs_objs (cc_store ?st) x)"
    using Cons.prems by (intro Cons.IH) (auto simp: d)
  then show ?case by (auto simp: release_commands_def d)
qed

section \<open>Executing the fragments\<close>

definition fresh :: "store \<Rightarrow> bool" where
  "fresh h \<longleftrightarrow> 0 < hs_next h \<and> hs_answers h = [] \<and> (\<forall>x \<ge> hs_next h. hs_objs h x = None)"

text \<open>The store \<open>h'\<close> has what \<open>h\<close> has, and at the new address \<open>a\<close> an array of the values.\<close>

definition delivered :: "(bytes \<Rightarrow> double \<times> nat) \<Rightarrow> store \<Rightarrow> obj \<Rightarrow> store \<Rightarrow> val list \<Rightarrow> bool" where
  "delivered std h a h' vs \<longleftrightarrow> fresh h' \<and> hs_next h \<le> a \<and> a < hs_next h' \<and> (\<forall>x < hs_next h. hs_objs h' x = hs_objs h x) \<and>
     represents std (hs_objs h') a (V_seq REDIS_REPLY_ARRAY vs)"

text \<open>The node behind the context \<open>c\<close> answers the command with an array of the values.\<close>

definition answers :: "'w net \<Rightarrow> nat \<Rightarrow> (bytes \<Rightarrow> double \<times> nat) \<Rightarrow> bytes \<Rightarrow> val list \<Rightarrow> bool" where
  "answers net c std text vs \<longleftrightarrow> (\<forall>w. net_err net c w = 0) \<and>
     (\<forall>w h. fresh h \<longrightarrow> (\<exists>w1 w2 a h'. net_append net c text w = (True, w1) \<and> net_block net c w1 h = (a, w2, h') \<and> delivered std h a h' vs))"

lemma delivered_le: "fresh h \<Longrightarrow> delivered std h a h' vs \<Longrightarrow> hs_objs h \<subseteq>\<^sub>m hs_objs h' \<and> hs_next h \<le> hs_next h'"
  by (auto simp: fresh_def delivered_def map_le_def dom_def) (metis linorder_not_le option.distinct(1))

text \<open>The table leads from the slot to a node that is connected and answers.\<close>

definition served :: "'w net \<Rightarrow> 'w cluster \<Rightarrow> (bytes \<Rightarrow> double \<times> nat) \<Rightarrow> nat \<Rightarrow> bytes \<Rightarrow> val list \<Rightarrow> bool" where
  "served net st std s text vs \<longleftrightarrow>
     (\<exists>t node. s < REDIS_CLUSTER_SLOTS \<and> cc_table st = Some t \<and> length t = REDIS_CLUSTER_SLOTS \<and> t ! s \<noteq> 0 \<and>
        cc_heap st (t ! s) = Some node \<and> nd_con node \<noteq> 0 \<and> answers net (nd_con node) std text vs)"

lemma execute_one:
  assumes "served net st std s text vs" "fresh (cc_store st)" "cm_slot_num c = int s" "cm_cmd c = Some text" "cm_clen c = length text"
  shows "\<exists>w a h. redis_cluster_command_execute net c rt st = Some (a, rt, st\<lparr>cc_world := w, cc_store := h\<rparr>) \<and> delivered std (cc_store st) a h vs"
proof -
  obtain t node where t: "s < REDIS_CLUSTER_SLOTS" "cc_table st = Some t" "length t = REDIS_CLUSTER_SLOTS" "t ! s \<noteq> 0"
      "cc_heap st (t ! s) = Some node" "nd_con node \<noteq> 0" "answers net (nd_con node) std text vs" using assms(1) by (auto simp: served_def)
  have s: "nat (int s mod 2 ^ 32) = s" using t(1) by (simp add: REDIS_CLUSTER_SLOTS_def nat_mod_distrib)
  have noerr: "has_err net (nd_con node) x = False" for x using t(7) by (simp add: answers_def has_err_def)
  have "choose_context net c rt st = Some (Some (nd_con node), rt, st)"
    using t s assms(3) noerr by (simp add: choose_context_def node_get_by_table_def ctx_get_by_node_def Let_def)
  moreover obtain w1 w2 a h where w: "net_append net (nd_con node) text (cc_world st) = (True, w1)" "net_block net (nd_con node) w1 (cc_store st) = (a, w2, h)"
      "delivered std (cc_store st) a h vs" using t(7) assms(2) unfolding answers_def by blast
  then have "exchange net c (nd_con node) st = Some (a, st\<lparr>cc_world := w2, cc_store := h\<rparr>)" and a: "a \<noteq> 0"
    using assms(2,4,5) by (auto simp: exchange_def delivered_def fresh_def)
  moreover obtain r where "hs_objs h a = Some r" "rp_type r = REDIS_REPLY_ARRAY"
    using w(3) by (auto simp: delivered_def represents.simps split: option.splits)
  ultimately have "execute_turn net c Place_retry rt st = Some (Inl (a, rt, st\<lparr>cc_world := w2, cc_store := h\<rparr>))"
    by (simp add: execute_turn_def cluster_reply_error_type_def)
  then show ?thesis using w(3) by (auto simp: redis_cluster_command_execute_def execute_loop.simps)
qed

lemma execute_all_ok:
  assumes "\<forall>s \<in> set ss. served net st std s (text s) (vals s)" "fresh (cc_store st)" "distinct ss"
    and "map (\<lambda>c. (cm_slot_num c, cm_cmd c, cm_clen c)) cs = map (\<lambda>s. (int s, Some (text s), length (text s))) ss"
  shows "\<exists>cs' rep w h. execute_all net cs ready rt st = Some (All_done, ready @ cs', rt, st\<lparr>cc_world := w, cc_store := h\<rparr>) \<and>
    map (\<lambda>c. (cm_slot_num c, cm_reply c)) cs' = map (\<lambda>s. (int s, rep s)) ss \<and> fresh h \<and> inj_on rep (set ss) \<and> hs_objs (cc_store st) \<subseteq>\<^sub>m hs_objs h \<and>
    (\<forall>s \<in> set ss. hs_next (cc_store st) \<le> rep s \<and> represents std (hs_objs h) (rep s) (V_seq REDIS_REPLY_ARRAY (vals s)))"
  using assms
proof (induction ss arbitrary: cs ready st)
  case Nil
  then show ?case by (intro exI [of _ "[]"] exI [of _ "\<lambda>_. 0"] exI [of _ "cc_world st"] exI [of _ "cc_store st"]) simp
next
  case (Cons s ss)
  obtain c cs1 where cs: "cs = c # cs1" "cm_slot_num c = int s" "cm_cmd c = Some (text s)" "cm_clen c = length (text s)"
      "map (\<lambda>c. (cm_slot_num c, cm_cmd c, cm_clen c)) cs1 = map (\<lambda>s. (int s, Some (text s), length (text s))) ss" using Cons.prems(4) by (cases cs) auto
  obtain w a h where e: "redis_cluster_command_execute net c rt st = Some (a, rt, st\<lparr>cc_world := w, cc_store := h\<rparr>)" "delivered std (cc_store st) a h (vals s)"
    using execute_one [of net st std s "text s" "vals s" c rt] Cons.prems(1,2) cs(2-4) by auto
  let ?st = "st\<lparr>cc_world := w, cc_store := h\<rparr>"
  have fr: "fresh h" using e(2) by (simp add: delivered_def)
  have sv: "\<forall>s \<in> set ss. served net ?st std s (text s) (vals s)" using Cons.prems(1) by (simp add: served_def)
  have "fresh (cc_store ?st)" "distinct ss" using fr Cons.prems(3) by simp_all
  then obtain cs' rep w' h' where r0: "execute_all net cs1 (ready @ [c\<lparr>cm_reply := a\<rparr>]) rt ?st = Some (All_done, (ready @ [c\<lparr>cm_reply := a\<rparr>]) @ cs', rt, ?st\<lparr>cc_world := w', cc_store := h'\<rparr>) \<and> map (\<lambda>c. (cm_slot_num c, cm_reply c)) cs' = map (\<lambda>s. (int s, rep s)) ss \<and> fresh h' \<and> inj_on rep (set ss) \<and> hs_objs (cc_store ?st) \<subseteq>\<^sub>m hs_objs h' \<and> (\<forall>s \<in> set ss. hs_next (cc_store ?st) \<le> rep s \<and> represents std (hs_objs h') (rep s) (V_seq REDIS_REPLY_ARRAY (vals s)))"
    using Cons.IH [OF sv _ _ cs(5), of "ready @ [c\<lparr>cm_reply := a\<rparr>]"] by (elim meta_impE exE)
  then have r: "execute_all net cs1 (ready @ [c\<lparr>cm_reply := a\<rparr>]) rt ?st = Some (All_done, (ready @ [c\<lparr>cm_reply := a\<rparr>]) @ cs', rt, ?st\<lparr>cc_world := w', cc_store := h'\<rparr>)" "map (\<lambda>c. (cm_slot_num c, cm_reply c)) cs' = map (\<lambda>s. (int s, rep s)) ss" "fresh h'" "inj_on rep (set ss)" "hs_objs h \<subseteq>\<^sub>m hs_objs h'"
      "\<And>s. s \<in> set ss \<Longrightarrow> hs_next h \<le> rep s \<and> represents std (hs_objs h') (rep s) (V_seq REDIS_REPLY_ARRAY (vals s))"
    by simp_all
  have a: "hs_next (cc_store st) \<le> a" "a < hs_next h" "a \<noteq> 0" "represents std (hs_objs h) a (V_seq REDIS_REPLY_ARRAY (vals s))"
    using e(2) Cons.prems(2) by (auto simp: delivered_def fresh_def)
  have le: "hs_objs (cc_store st) \<subseteq>\<^sub>m hs_objs h" "hs_next (cc_store st) \<le> hs_next h" using delivered_le [OF Cons.prems(2) e(2)] by auto
  obtain ra where ra: "hs_objs h a = Some ra" "rp_type ra = REDIS_REPLY_ARRAY" using a(4) by (auto simp: represents.simps split: option.splits)
  have run: "execute_all net cs ready rt st = Some (All_done, ready @ c\<lparr>cm_reply := a\<rparr> # cs', rt, st\<lparr>cc_world := w', cc_store := h'\<rparr>)"
    using e(1) a(3) ra r(1) cs(1) by simp
  let ?rep = "rep(s := a)"
  have sn: "s \<notin> set ss" using Cons.prems(3) by simp
  have "map (\<lambda>c. (cm_slot_num c, cm_reply c)) (c\<lparr>cm_reply := a\<rparr> # cs') = map (\<lambda>s. (int s, ?rep s)) (s # ss)" using r(2) cs(2) sn by auto
  moreover have "inj_on ?rep (set (s # ss))"
  proof -
    have "a \<notin> rep ` set ss" using r(6) a(2) by force
    then show ?thesis using r(4) sn by (auto simp: inj_on_def)
  qed
  moreover have "hs_next (cc_store st) \<le> ?rep q \<and> represents std (hs_objs h') (?rep q) (V_seq REDIS_REPLY_ARRAY (vals q))" if "q \<in> set (s # ss)" for q
    using that r(6) [of q] a(1) le(2) sn represents_mono(1) [OF a(4) r(5)] by auto
  moreover have "hs_objs (cc_store st) \<subseteq>\<^sub>m hs_objs h'" using le(1) r(5) map_le_trans by blast
  ultimately show ?case using run r(3) by (intro exI [of _ "c\<lparr>cm_reply := a\<rparr> # cs'"] exI [of _ ?rep] exI [of _ w'] exI [of _ h']) blast
qed

section \<open>Putting the replies together\<close>

lemma check_mget:
  "\<forall>a \<in> set as. a \<noteq> 0 \<and> (\<exists>r. hs_objs h a = Some r \<and> rp_type r = REDIS_REPLY_ARRAY) \<Longrightarrow> check_replies CMD_REQ_REDIS_MGET as n h = Some (Replies_ok n)"
  by (induction as) auto

lemma find_reply:
  "map (\<lambda>c. (cm_slot_num c, cm_reply c)) cs = map (\<lambda>s. (int s, rep s)) ss \<Longrightarrow> s \<in> set ss \<Longrightarrow>
   map_option cm_reply (List.find (\<lambda>c. cm_slot_num c = int s) cs) = Some (rep s)"
proof (induction cs arbitrary: ss)
  case (Cons c cs)
  then show ?case by (cases ss) auto
qed simp

lemma array_of_values:
  assumes "represents std m a (V_seq REDIS_REPLY_ARRAY (map db (slot_keys s ks)))" "a \<noteq> 0" "slot_keys s ks \<noteq> []"
  shows "\<exists>r. frag_array std db m ks s a r"
proof -
  obtain r where r: "m a = Some r" "rp_type r = REDIS_REPLY_ARRAY" "rp_elements r = length (slot_keys s ks)"
      "list_all2 (represents std m) (element_list r) (map db (slot_keys s ks))"
    using assms(1) by (auto simp: represents.simps represents_all_iff split: option.splits)
  obtain es where "rp_element r = Some es" using r(4) assms(3) by (cases "rp_element r") (auto simp: element_list_def)
  then show ?thesis using r assms(2) by (auto simp: frag_array_def element_list_def list_all2_map2)
qed

lemma post_mget:
  assumes "cm_type command = CMD_REQ_REDIS_MGET" "cm_frag_seq command = Some (map slot_of keys)" "length (ka_elem (cm_keys command)) = length keys"
    and cs: "map (\<lambda>c. (cm_slot_num c, cm_reply c)) cs = map (\<lambda>s. (int s, rep s)) ss" "set ss = slot_of ` set keys"
    and "fresh h" "inj_on rep (set ss)"
    and reps: "\<And>s. s \<in> set ss \<Longrightarrow> 0 < rep s \<and> represents std (hs_objs h) (rep s) (V_seq REDIS_REPLY_ARRAY (map db (slot_keys s keys)))"
  shows "\<exists>h'. command_post_fragment command cs h = Some (hs_next h, None, h') \<and> merging std db (hs_objs h) keys rep (hs_next h) 0 h'"
proof -
  let ?a = "hs_next h"
  have arrays: "\<forall>k \<in> set keys. \<exists>r. frag_array std db (hs_objs h) keys (slot_of k) (rep (slot_of k)) r"
  proof
    fix k assume k: "k \<in> set keys"
    then have "k \<in> set (slot_keys (slot_of k) keys)" by simp
    then have "slot_keys (slot_of k) keys \<noteq> []" by (metis list.set(1) empty_iff)
    then show "\<exists>r. frag_array std db (hs_objs h) keys (slot_of k) (rep (slot_of k)) r" using reps [of "slot_of k"] k cs(2) by (intro array_of_values) auto
  qed
  have "map cm_reply cs = map rep ss" using arg_cong [OF cs(1), of "map snd"] by (simp add: comp_def)
  then have set_cs: "cm_reply ` set cs = rep ` slot_of ` set keys" by (metis cs(2) list.set_map)
  have check: "check_replies CMD_REQ_REDIS_MGET (map cm_reply cs) 0 h = Some (Replies_ok 0)"
    using arrays set_cs by (intro check_mget) (auto simp: frag_array_def)
  have none: "hs_objs h ?a = None" "?a \<noteq> 0" "hs_answers h = []" using assms(6) by (auto simp: fresh_def)
  let ?r = "(blank_reply 0)\<lparr>rp_type := REDIS_REPLY_ARRAY, rp_elements := length keys, rp_element := Some (replicate (length keys) 0)\<rparr>"
  let ?h = "h\<lparr>hs_next := ?a + 1, hs_objs := (hs_objs h)(?a \<mapsto> ?r)\<rparr>"
  have start: "command_post_fragment command cs h = merge_loop ?a cs (map slot_of keys) (length keys) ?h"
    using assms(1-3) check none by (simp add: command_post_fragment_def merged_reply_def createReplyObject_def store_alloc_def set_reply_def Let_def)
  have na: "rep (slot_of k) \<noteq> ?a" if "k \<in> set keys" for k using arrays that none(1) by (auto simp: frag_array_def)
  have same: "map_option (\<lambda>r. r\<lparr>rp_elements := length (slot_keys (slot_of k) keys)\<rparr>) (hs_objs h (rep (slot_of k))) = hs_objs h (rep (slot_of k))"
    if "k \<in> set keys" for k using arrays that by (fastforce simp: frag_array_def)
  have "merging std db (hs_objs h) keys rep ?a (length keys) ?h"
    using na same by (auto simp: merging_def)
  then obtain h' where "merge_loop ?a cs (map slot_of keys) (length keys) ?h = Some (?a, None, h')" "merging std db (hs_objs h) keys rep ?a 0 h'"
    using merge_loop_ok [of std db "hs_objs h" keys rep ?a "length keys" ?h cs "map slot_of keys"] arrays assms(7) cs(2) none(1)
      find_reply [OF cs(1)] by (auto simp: frag_reply_def)
  then show ?thesis using start by auto
qed

text \<open>The merged reply, after the fragments have been released.\<close>

lemma merged_value:
  assumes "merging std db m ks rep a 0 h" "\<And>k. plain (db k)" "m a = None"
    and arrays: "\<forall>k \<in> set ks. \<exists>r. frag_array std db m ks (slot_of k) (rep (slot_of k)) r"
    and "\<And>x. x \<notin> rep ` slot_of ` set ks \<Longrightarrow> hs_objs h' x = hs_objs h x"
  shows "represents std (hs_objs h') a (V_seq REDIS_REPLY_ARRAY (map db ks))"
proof -
  obtain r es where r: "hs_objs h a = Some r" "rp_type r = REDIS_REPLY_ARRAY" "rp_elements r = length ks" "rp_element r = Some es" "length es = length ks"
      "\<And>j. j < length ks \<Longrightarrow> represents std m (es ! j) (db (ks ! j))"
    using assms(1) by (auto simp: merging_def)
  have na: "a \<notin> rep ` slot_of ` set ks" using arrays assms(3) by (auto simp: frag_array_def)
  have leaf: "represents std (hs_objs h') (es ! j) (db (ks ! j))" if j: "j < length ks" for j
  proof -
    obtain q where q: "m (es ! j) = Some q" "rp_type q \<noteq> REDIS_REPLY_ARRAY" using plain_leaf [OF assms(2) r(6) [OF j]] by blast
    then have "es ! j \<noteq> a" "es ! j \<notin> rep ` slot_of ` set ks" using assms(3) arrays by (auto simp: frag_array_def)
    then have "hs_objs h' (es ! j) = m (es ! j)" using assms(1,5) by (simp add: merging_def)
    then show ?thesis using plain_frame [OF assms(2) r(6) [OF j]] by simp
  qed
  have "list_all2 (represents std (hs_objs h')) es (map db ks)" using r(5) leaf by (simp add: list_all2_conv_all_nth)
  moreover have "hs_objs h' a = Some r" using assms(5) na r(1) by simp
  ultimately show ?thesis using r by (simp add: represents.simps represents_all_iff element_list_def)
qed

section \<open>The whole command\<close>

lemma mget_units:
  assumes "redis_parse_cmd_verb verb (length verb) = CMD_REQ_REDIS_MGET" "verb \<noteq> []" "keys \<noteq> []"
  shows "key_indices (verb # keys) = Some [1..<Suc (length keys)]" "key_units (verb # keys) = map (\<lambda>k. [k]) keys"
    "concat (units_at s (map (\<lambda>k. [k]) keys)) = slot_keys s keys"
proof -
  have d: "\<not> redis_argz CMD_REQ_REDIS_MGET" "\<not> redis_arg0 CMD_REQ_REDIS_MGET" "\<not> redis_arg1 CMD_REQ_REDIS_MGET" "\<not> redis_arg2 CMD_REQ_REDIS_MGET"
    "\<not> redis_arg3 CMD_REQ_REDIS_MGET" "\<not> redis_argn CMD_REQ_REDIS_MGET" "redis_argx CMD_REQ_REDIS_MGET" "CMD_REQ_REDIS_MGET \<noteq> CMD_UNKNOWN"
    "CMD_REQ_REDIS_MGET \<noteq> CMD_REQ_REDIS_MSET"
    by (simp_all add: redis_argz_def redis_arg0_def redis_arg1_def redis_arg2_def redis_arg3_def redis_argn_def redis_argx_def cmd_type_defs)
  show "key_indices (verb # keys) = Some [1..<Suc (length keys)]" using assms d by (simp add: key_indices_def)
  show "key_units (verb # keys) = map (\<lambda>k. [k]) keys" using assms d by (simp add: key_units_def verb_type_def)
  show "concat (units_at s (map (\<lambda>k. [k]) keys)) = slot_keys s keys" by (induction keys) (auto simp: units_at_def)
qed

text \<open>C11: An \<open>MGET\<close> whose keys live on several nodes returns what a single node would: the array of
  the values of all keys, in the order of the keys, whichever slots they have and however the
  slots are distributed. It is sent to every node only for its own keys, each value is moved from
  the reply of its node into the result, and releasing the replies of the nodes leaves the values
  alone. The nodes must be connected and answer, and the keys must not be empty.\<close>

theorem cluster_mget:
  assumes verb: "redis_parse_cmd_verb verb (length verb) = CMD_REQ_REDIS_MGET" "verb \<noteq> []"
    and keys: "[] \<notin> set keys" "k1 \<in> set keys" "k2 \<in> set keys" "slot_of k1 \<noteq> slot_of k2"
    and size: "length (command_bytes (verb # keys)) < 2 ^ 31 - 12" "length num_str = 12"
    and st: "cc_mem st = []" "fresh (cc_store st)"
    and nodes: "\<And>k. k \<in> set keys \<Longrightarrow>
      served net st std (slot_of k) (command_bytes (''mget'' # slot_keys (slot_of k) keys)) (map db (slot_keys (slot_of k) keys))"
    and db: "\<And>k. plain (db k)"
  shows "\<exists>a i' rt' st'. redisClusterFormattedCommand net num_str (command_bytes (verb # keys)) (length (command_bytes (verb # keys))) i rt st =
      Some (a, i', rt', st') \<and> cc_err st' = 0 \<and>
    represents std (hs_objs (cc_store st')) a (V_seq REDIS_REPLY_ARRAY (map db keys))"
proof -
  let ?text = "command_bytes (verb # keys)" let ?us = "map (\<lambda>k. [k]) keys"
  have "length keys \<noteq> 1" using keys(2-4) by (cases keys) auto
  then have two: "2 \<le> length keys" "keys \<noteq> []" using keys(2) by (cases keys; cases "tl keys"; auto)+
  note U = mget_units [OF verb two(2)]
  let ?st = "if cc_err st \<noteq> 0 then st\<lparr>cc_err := 0, cc_errstr := []\<rparr> else st"
  obtain c i1 where c: "command_get i [] = (Some c, i1, [])" "cm_result c = CMD_PARSE_OK" "ka_elem (cm_keys c) = []"
    by (simp add: command_get_def key_create_def Let_def)
  let ?c = "c\<lparr>cm_cmd := Some ?text, cm_clen := length ?text\<rparr>"
  define ss where "ss = filter (\<lambda>s. units_at s ?us \<noteq> []) [0..<REDIS_CLUSTER_SLOTS]"
  have ss: "set ss = slot_of ` set keys" "distinct ss"
    using slot_of_range by (auto simp: ss_def units_at_def filter_empty_conv)
  have many: "length ss \<noteq> 1"
  proof
    assume "length ss = 1"
    then obtain x where "ss = [x]" by (cases ss) auto
    then show False using ss(1) keys(2-4) by (metis empty_set image_eqI list.simps(15) singletonD)
  qed
  have "\<exists>s cs res. command_format_by_slot num_str ?c [] i1 [] = Some res \<and> sp_error res = None \<and> sp_mem res = [] \<and>
    sp_slot res = int (slot_of (hd (last ?us))) \<and>
    cm_cmd s = Some ?text \<and> cm_clen s = length ?text \<and> cm_type s = CMD_REQ_REDIS_MGET \<and> length (ka_elem (cm_keys s)) = length ?us \<and>
    map (\<lambda>c. (cm_slot_num c, cm_type c, cm_cmd c, cm_clen c)) cs =
      map (\<lambda>s. (int s, CMD_REQ_REDIS_MGET, Some (fragment_text CMD_REQ_REDIS_MGET (units_at s ?us)), length (fragment_text CMD_REQ_REDIS_MGET (units_at s ?us)))) ss \<and>
    sp_commands res = cs \<and> sp_command res = s\<lparr>cm_frag_seq := Some (map (\<lambda>u. slot_of (hd u)) ?us)\<rparr>"
    using split_command [of ?c ?text "verb # keys" num_str "[1..<Suc (length keys)]" i1] verb(1) size c U(1,2) two keys(1) many
    by (auto simp: ss_def)
  then obtain s cs res where res: "command_format_by_slot num_str ?c [] i1 [] = Some res" "sp_error res = None" "sp_mem res = []"
      "sp_slot res = int (slot_of (hd (last ?us)))" "cm_type s = CMD_REQ_REDIS_MGET" "length (ka_elem (cm_keys s)) = length keys"
      "map (\<lambda>c. (cm_slot_num c, cm_type c, cm_cmd c, cm_clen c)) cs =
        map (\<lambda>s. (int s, CMD_REQ_REDIS_MGET, Some (fragment_text CMD_REQ_REDIS_MGET (units_at s ?us)), length (fragment_text CMD_REQ_REDIS_MGET (units_at s ?us)))) ss"
      "sp_commands res = cs" "sp_command res = s\<lparr>cm_frag_seq := Some (map slot_of keys)\<rparr>"
    by (auto simp: comp_def)
  let ?text_of = "\<lambda>s. command_bytes (''mget'' # slot_keys s keys)" and ?vals = "\<lambda>s. map db (slot_keys s keys)"
  have "fragment_text CMD_REQ_REDIS_MGET (units_at s ?us) = ?text_of s" for s using U(3) by (simp add: fragment_text_def fragment_verb_def)
  then have cs: "map (\<lambda>c. (cm_slot_num c, cm_cmd c, cm_clen c)) cs = map (\<lambda>s. (int s, Some (?text_of s), length (?text_of s))) ss"
    using arg_cong [OF res(7), of "map (\<lambda>(a, b, c, d). (a, c, d))"] by (simp add: comp_def)
  let ?st1 = "?st\<lparr>cc_mem := []\<rparr>"
  have "\<forall>s \<in> set ss. served net ?st1 std s (?text_of s) (?vals s)" using nodes ss(1) by (auto simp: served_def)
  moreover have fr: "fresh (cc_store ?st1)" using st(2) by simp
  ultimately obtain cs' rep w h where "execute_all net cs [] rt ?st1 = Some (All_done, [] @ cs', rt, ?st1\<lparr>cc_world := w, cc_store := h\<rparr>) \<and>
    map (\<lambda>c. (cm_slot_num c, cm_reply c)) cs' = map (\<lambda>s. (int s, rep s)) ss \<and> fresh h \<and> inj_on rep (set ss) \<and> hs_objs (cc_store ?st1) \<subseteq>\<^sub>m hs_objs h \<and>
    (\<forall>s \<in> set ss. hs_next (cc_store ?st1) \<le> rep s \<and> represents std (hs_objs h) (rep s) (V_seq REDIS_REPLY_ARRAY (?vals s)))"
    using execute_all_ok [OF _ _ ss(2) cs, of net ?st1 std ?vals "[]" rt] by (elim meta_impE exE)
  then have x: "execute_all net cs [] rt ?st1 = Some (All_done, cs', rt, ?st1\<lparr>cc_world := w, cc_store := h\<rparr>)"
      "map (\<lambda>c. (cm_slot_num c, cm_reply c)) cs' = map (\<lambda>s. (int s, rep s)) ss" "fresh h" "inj_on rep (set ss)"
      "\<And>s. s \<in> set ss \<Longrightarrow> 0 < rep s \<and> represents std (hs_objs h) (rep s) (V_seq REDIS_REPLY_ARRAY (?vals s))"
    using fr by (auto simp: fresh_def intro: less_le_trans)
  let ?a = "hs_next h"
  obtain h1 where h1: "command_post_fragment (sp_command res) cs' h = Some (?a, None, h1)" "merging std db (hs_objs h) keys rep ?a 0 h1"
    using post_mget [of "sp_command res" keys cs' rep ss h std db] res(5,6,9) ss(1) x by auto
  have arrays: "\<forall>k \<in> set keys. \<exists>r. frag_array std db (hs_objs h) keys (slot_of k) (rep (slot_of k)) r"
  proof
    fix k assume k: "k \<in> set keys"
    then have "slot_keys (slot_of k) keys \<noteq> []" by (auto simp: filter_empty_conv)
    then show "\<exists>r. frag_array std db (hs_objs h) keys (slot_of k) (rep (slot_of k)) r" using x(5) [of "slot_of k"] k ss(1) by (intro array_of_values) auto
  qed
  have reps: "map cm_reply cs' = map rep ss" using arg_cong [OF x(2), of "map snd"] by (simp add: comp_def)
  let ?st2 = "?st1\<lparr>cc_world := w, cc_store := h1\<rparr>"
  have "distinct (map cm_reply cs')" using reps x(4) ss(2) by (simp add: distinct_map)
  moreover have "\<exists>r. cm_reply c \<noteq> 0 \<and> hs_objs (cc_store ?st2) (cm_reply c) = Some r \<and> rp_type r = REDIS_REPLY_ARRAY \<and> rp_elements r = 0" if "c \<in> set cs'" for c
  proof -
    have "cm_reply c \<in> rep ` slot_of ` set keys" using that reps ss(1) by (metis image_eqI list.set_map)
    then obtain k where k: "k \<in> set keys" "cm_reply c = rep (slot_of k)" by auto
    then show ?thesis using arrays h1(2) by (fastforce simp: merging_def frag_array_def)
  qed
  ultimately obtain h2 where h2: "release_commands cs' ?st2 = ?st2\<lparr>cc_store := h2\<rparr>" "\<And>x. x \<notin> cm_reply ` set cs' \<Longrightarrow> hs_objs h2 x = hs_objs h1 x"
    using release_empty [of cs' ?st2] by auto
  have set_cs: "cm_reply ` set cs' = rep ` slot_of ` set keys" using reps ss(1) by (metis list.set_map)
  have "hs_objs h ?a = None" using x(3) by (simp add: fresh_def)
  then have val: "represents std (hs_objs h2) ?a (V_seq REDIS_REPLY_ARRAY (map db keys))"
    by (rule merged_value [OF h1(2) db _ arrays]) (simp add: h2(2) set_cs)
  have "execute_split net res rt ?st1 = Some (?a, rt, ?st2\<lparr>cc_store := h2\<rparr>)"
    using x(1) h1(1) h2(1) res(8) by (simp add: execute_split_def set_split_error_def)
  moreover have "cs \<noteq> []" using arg_cong [OF cs, of length] ss(1) two(2) by auto
  moreover have "sp_slot res < int REDIS_CLUSTER_SLOTS" "0 \<le> sp_slot res" using res(4) slot_of_range by auto
  moreover have "cc_mem ?st = []" using st(1) by simp
  ultimately have "redisClusterFormattedCommand net num_str ?text (length ?text) i rt st = Some (?a, sp_id res, rt\<lparr>rt_count := 0\<rparr>, ?st2\<lparr>cc_store := h2\<rparr>)"
    using c(1) res(1-3,8) unfolding redisClusterFormattedCommand_def Let_def by (simp add: set_split_error_def)
  then show ?thesis using val by auto
qed

text \<open>Two nodes that answer with the key they have.\<close>

definition echo_key :: "nat \<Rightarrow> bytes" where
  "echo_key c = (if c = 1 then ''a'' else ''b'')"

definition echo_block :: "nat \<Rightarrow> unit \<Rightarrow> store \<Rightarrow> obj \<times> unit \<times> store" where
  "echo_block c w h =
     (let e = hs_next h in
      (e + 1, (), h\<lparr>hs_objs := (hs_objs h)(
          e \<mapsto> (blank_reply REDIS_REPLY_STRING)\<lparr>rp_len := length (echo_key c), rp_str := Some (echo_key c @ [NUL])\<rparr>,
          e + 1 \<mapsto> (blank_reply REDIS_REPLY_ARRAY)\<lparr>rp_elements := 1, rp_element := Some [e]\<rparr>),
        hs_next := e + 2\<rparr>))"

definition echo_net :: "unit net" where
  "echo_net = \<lparr>net_err = (\<lambda>_ _. 0), net_errstr = (\<lambda>_ _. []), net_connect = (\<lambda>_ _ w. (0, w)), net_reconnect = (\<lambda>_ w. w),
     net_timeout = (\<lambda>_ w. w), net_free = (\<lambda>_ w. w), net_append = (\<lambda>c text w. (text = command_bytes [''mget'', echo_key c], w)),
     net_block = echo_block, net_command = (\<lambda>_ _ w h. (0, w, h))\<rparr>"

definition echo_cluster :: "unit cluster" where
  "echo_cluster = (redisClusterContextInit () \<lparr>hs_objs = Map.empty, hs_next = 1, hs_answers = [], hs_fault = False\<rparr>)
     \<lparr>cc_heap := [1 \<mapsto> blank_node\<lparr>nd_con := 1\<rparr>, 2 \<mapsto> blank_node\<lparr>nd_con := 2\<rparr>],
      cc_table := Some (map (\<lambda>s. if s = slot_of ''a'' then 1 else 2) [0..<REDIS_CLUSTER_SLOTS])\<rparr>"

lemma echo_answers: "answers echo_net c std (command_bytes [''mget'', echo_key c]) [V_string (echo_key c)]"
  unfolding answers_def
proof (intro conjI allI impI)
  fix w :: unit and h assume h: "fresh h"
  let ?h = "snd (snd (echo_block c w h))"
  have "delivered std h (hs_next h + 1) ?h [V_string (echo_key c)]"
    using h by (simp add: delivered_def fresh_def echo_block_def Let_def represents.simps element_list_def blank_reply_def)
  moreover have "net_block echo_net c w h = (hs_next h + 1, (), ?h)" by (simp add: echo_net_def echo_block_def Let_def)
  ultimately show "\<exists>w1 w2 a h'. net_append echo_net c (command_bytes [''mget'', echo_key c]) w = (True, w1) \<and> net_block echo_net c w1 h = (a, w2, h') \<and>
      delivered std h a h' [V_string (echo_key c)]" by (auto simp: echo_net_def)
qed (simp add: echo_net_def)

theorem cluster_mget_witness:
  "\<exists>a i' rt' st'. redisClusterFormattedCommand echo_net (replicate 12 NUL) (command_bytes [''MGET'', ''b'', ''a''])
       (length (command_bytes [''MGET'', ''b'', ''a''])) 0 \<lparr>rt_count = 0, rt_max = 5\<rparr> echo_cluster = Some (a, i', rt', st') \<and> cc_err st' = 0 \<and>
     represents (\<lambda>_. (0, 0)) (hs_objs (cc_store st')) a (V_seq REDIS_REPLY_ARRAY [V_string ''b'', V_string ''a''])"
proof -
  have diff: "slot_of ''a'' \<noteq> slot_of ''b''" by code_simp
  have verb: "redis_parse_cmd_verb ''MGET'' (length ''MGET'') = CMD_REQ_REDIS_MGET" by code_simp
  have size: "length (command_bytes [''MGET'', ''b'', ''a'']) = 28" by code_simp
  have served: "served echo_net echo_cluster std (slot_of k) (command_bytes (''mget'' # slot_keys (slot_of k) [''b'', ''a''])) (map V_string (slot_keys (slot_of k) [''b'', ''a'']))"
    if "k \<in> set [''b'', ''a'']" for k std
  proof -
    let ?c = "if k = ''a'' then 1 else 2 :: nat"
    have k: "slot_keys (slot_of k) [''b'', ''a''] = [echo_key ?c]" using that diff by (auto simp: echo_key_def)
    have "answers echo_net ?c std (command_bytes [''mget'', echo_key ?c]) (map V_string [echo_key ?c])" using echo_answers by simp
    then show ?thesis
      unfolding served_def k using that diff slot_of_range [of k]
      by (auto simp: echo_cluster_def redisClusterContextInit_def)
  qed
  have st: "cc_mem echo_cluster = []" "fresh (cc_store echo_cluster)" by (simp_all add: echo_cluster_def redisClusterContextInit_def fresh_def)
  show ?thesis
    using cluster_mget [OF verb, of "[''b'', ''a'']" "''a''" "''b''" "replicate 12 NUL" echo_cluster echo_net "\<lambda>_. (0, 0)" V_string 0 "\<lparr>rt_count = 0, rt_max = 5\<rparr>"]
      served diff st size by simp
qed

end
