(* ===== verification/ClusterTable.thy ===== *)
theory ClusterTable
  imports ClusterUpdate
begin

text \<open>
  The table of slots that the text of \<open>CLUSTER NODES\<close> describes (\<open>hircluster.c\<close>): every slot leads to
  the master whose line has it, and no table is made when two masters claim a slot.
\<close>

section \<open>The text\<close>

text \<open>A line: name, address, flags, five more words, the ranges of slots. The address is
  \<open>host:port\<close>, with a part from \<open>@\<close> on that is not used.\<close>

record node_line =
  nl_name :: bytes
  nl_host :: bytes
  nl_port :: nat
  nl_cport :: bytes
  nl_flags :: bytes
  nl_words :: "bytes list"
  nl_ranges :: "(nat \<times> nat) list"

definition line_addr :: "node_line \<Rightarrow> bytes" where
  "line_addr l = nl_host l @ '':'' @ dec_nat (nl_port l) @ nl_cport l"

fun range_text :: "nat \<times> nat \<Rightarrow> bytes" where
  "range_text (a, b) = (if a = b then dec_nat a else dec_nat a @ ''-'' @ dec_nat b)"

definition line_words :: "node_line \<Rightarrow> bytes list" where
  "line_words l = [nl_name l, line_addr l, nl_flags l] @ nl_words l @ map range_text (nl_ranges l)"

definition line_text :: "node_line \<Rightarrow> bytes" where
  "line_text l = join_with '' '' (line_words l)"

definition nodes_text :: "node_line list \<Rightarrow> bytes" where
  "nodes_text ls = concat (map (\<lambda>l. line_text l @ [LF]) ls)"

definition is_master :: "node_line \<Rightarrow> bool" where
  "is_master l \<longleftrightarrow> starts_with ''master'' (if starts_with ''myself,'' (nl_flags l) then drop 7 (nl_flags l) else nl_flags l)"

definition line_ok :: "node_line \<Rightarrow> bool" where
  "line_ok l \<longleftrightarrow> nl_name l \<noteq> [] \<and> length (nl_words l) = 5 \<and> length (line_text l) < 2 ^ 31 \<and>
     (\<forall>w \<in> {nl_name l, nl_host l, nl_cport l, nl_flags l} \<union> set (nl_words l). CHR '' '' \<notin> set w \<and> LF \<notin> set w) \<and>
     NUL \<notin> set (nl_host l) \<and> NUL \<notin> set (nl_cport l) \<and> CHR '':'' \<notin> set (nl_cport l) \<and>
     (nl_cport l = [] \<or> hd (nl_cport l) = CHR ''@'') \<and> 0 < nl_port l \<and> nl_port l < 65536 \<and>
     (\<forall>(a, b) \<in> set (nl_ranges l). a \<le> b \<and> b < REDIS_CLUSTER_SLOTS)"

section \<open>Numbers and words\<close>

lemma digits_val_grows: "v \<le> digits_val v cs"
proof (induction cs arbitrary: v)
  case (Cons c cs)
  have "v \<le> 10 * v + digit_val c" by simp
  then show ?case using Cons.IH [of "10 * v + digit_val c"] by (auto simp: algebra_simps intro: le_trans)
qed simp

lemma atoi_loop_val: "\<forall>c \<in> set cs. c_isdigit c \<Longrightarrow> digits_val v cs < 2 ^ 31 \<Longrightarrow> atoi_loop cs (int v) = Some (int (digits_val v cs))"
proof (induction cs arbitrary: v)
  case (Cons c cs)
  have s: "digits_val v (c # cs) = digits_val (v * 10 + digit_val c) cs" using Cons.prems(1) by (simp add: mult.commute)
  have "v * 10 + digit_val c \<le> digits_val v (c # cs)" unfolding s by (rule digits_val_grows)
  then have "int v * 10 + int (digit_val c) < 2 ^ 31" using Cons.prems(2) by simp
  then show ?case using Cons.IH [of "v * 10 + digit_val c"] Cons.prems s by simp
qed simp

lemma hi_atoi_dec_nat: "n < 2 ^ 31 \<Longrightarrow> hi_atoi (dec_nat n) = Some (int n)"
  using atoi_loop_val [of "dec_nat n" 0] by (simp add: hi_atoi_def set_dec_nat digits_val_dec_nat)

lemma not_in_dec_nat: "\<not> c_isdigit c \<Longrightarrow> c \<notin> set (dec_nat n)"
  using set_dec_nat by blast

lemma separators: "\<not> c_isdigit (CHR '' '')" "\<not> c_isdigit LF" "\<not> c_isdigit NUL" "\<not> c_isdigit (CHR '':'')" "\<not> c_isdigit (CHR ''@'')" "\<not> c_isdigit (CHR ''-'')"
  by (simp_all add: c_isdigit_def uchar_def)

lemma strrchr_last: "c \<notin> set t \<Longrightarrow> NUL \<notin> set (s @ c # t) \<Longrightarrow> strrchr (s @ c # t) c = Some (length s)"
proof -
  assume c: "c \<notin> set t" "NUL \<notin> set (s @ c # t)"
  have "takeWhile (\<lambda>x. x \<noteq> c) (rev t @ c # rev s) = rev t" using c(1) by (subst takeWhile_append2) auto
  then show ?thesis using c(2) by (simp add: strrchr_def Let_def)
qed

lemma addr_parts:
  assumes "line_ok l"
  shows "NUL \<notin> set (line_addr l)" "CHR '' '' \<notin> set (line_addr l)" "LF \<notin> set (line_addr l)" "strrchr (line_addr l) (CHR '':'') = Some (length (nl_host l))"
    "takeWhile (\<lambda>c. c \<noteq> CHR ''@'') (drop (length (nl_host l) + 1) (line_addr l)) = dec_nat (nl_port l)"
proof -
  note n = not_in_dec_nat [OF separators(1)] not_in_dec_nat [OF separators(2)] not_in_dec_nat [OF separators(3)] not_in_dec_nat [OF separators(4)] not_in_dec_nat [OF separators(5)]
  show nul: "NUL \<notin> set (line_addr l)" and "CHR '' '' \<notin> set (line_addr l)" "LF \<notin> set (line_addr l)"
    using assms n by (auto simp: line_addr_def line_ok_def)
  show "strrchr (line_addr l) (CHR '':'') = Some (length (nl_host l))"
    unfolding line_addr_def using strrchr_last [of "CHR '':''" "dec_nat (nl_port l) @ nl_cport l" "nl_host l"] nul assms n(4)
    by (auto simp: line_addr_def line_ok_def)
  have "takeWhile (\<lambda>c. c \<noteq> CHR ''@'') (dec_nat (nl_port l) @ nl_cport l) = dec_nat (nl_port l) @ takeWhile (\<lambda>c. c \<noteq> CHR ''@'') (nl_cport l)"
    using n(5) by (intro takeWhile_append2) auto
  moreover have "takeWhile (\<lambda>c. c \<noteq> CHR ''@'') (nl_cport l) = []" using assms by (cases "nl_cport l") (auto simp: line_ok_def)
  ultimately show "takeWhile (\<lambda>c. c \<noteq> CHR ''@'') (drop (length (nl_host l) + 1) (line_addr l)) = dec_nat (nl_port l)"
    by (simp add: line_addr_def)
qed

lemma range_text_free: "\<not> c_isdigit c \<Longrightarrow> c \<noteq> CHR ''-'' \<Longrightarrow> c \<notin> set (range_text r)"
  using not_in_dec_nat by (cases r) auto

lemma words_free:
  assumes "line_ok l" "w \<in> set (line_words l)"
  shows "CHR '' '' \<notin> set w" "LF \<notin> set w"
  using assms addr_parts(2,3) [OF assms(1)] range_text_free [OF separators(1)] range_text_free [OF separators(2)]
  by (auto simp: line_words_def line_ok_def)

lemma set_join: "set (join_with sep ts) \<subseteq> set sep \<union> (\<Union>t \<in> set ts. set t)"
  by (induction sep ts rule: join_with.induct) auto

lemma line_text_free: "line_ok l \<Longrightarrow> LF \<notin> set (line_text l)" "line_ok l \<Longrightarrow> line_text l \<noteq> []"
proof -
  assume ok: "line_ok l"
  show "LF \<notin> set (line_text l)" using set_join [of "'' ''" "line_words l"] words_free(2) [OF ok] by (auto simp: line_text_def)
  show "line_text l \<noteq> []" using ok by (auto simp: line_text_def line_words_def line_ok_def)
qed

lemma split_line:
  assumes "line_ok l" "willing (cc_smem st)"
  shows "\<exists>m. split_text (line_text l) (CHR '' '') st = Some (Done (line_words l), st\<lparr>cc_smem := m\<rparr>) \<and> willing m"
proof (rule split_text_ok)
  show "join_with [CHR '' ''] (line_words l) = line_text l" by (simp add: line_text_def)
  show "\<forall>t \<in> set (line_words l). CHR '' '' \<notin> set t" using words_free(1) [OF assms(1)] by blast
qed (use assms line_text_free in \<open>simp_all add: line_ok_def line_words_def\<close>)

section \<open>A line of a master\<close>

definition line_slots :: "node_line \<Rightarrow> nat \<Rightarrow> cluster_slot list" where
  "line_slots l nd = map (\<lambda>(a, b). \<lparr>cs_start = a, cs_end = b, cs_node = nd\<rparr>) (nl_ranges l)"

definition line_node :: "node_line \<Rightarrow> cluster_node" where
  "line_node l = blank_node\<lparr>nd_name := Some (nl_name l), nd_addr := Some (line_addr l), nd_host := Some (nl_host l), nd_port := nl_port l,
     nd_role := REDIS_ROLE_MASTER, nd_slots := Some []\<rparr>"

lemma line_parts:
  assumes "line_ok l"
  shows "line_words l ! 0 = nl_name l" "line_words l ! 1 = line_addr l" "line_words l ! 2 = nl_flags l" "length (line_words l) = 8 + length (nl_ranges l)"
    "drop 8 (line_words l) = map range_text (nl_ranges l)"
  using assms by (simp_all add: line_words_def line_ok_def)

lemma node_created:
  assumes ok: "line_ok l" and "cc_mem st = []" "willing (cc_smem st)"
  shows "\<exists>m. node_get_with_nodes (line_words l) REDIS_ROLE_MASTER st = Some (Done (cc_next st),
      st\<lparr>cc_smem := m, cc_heap := (cc_heap st)(cc_next st \<mapsto> line_node l), cc_next := cc_next st + 1\<rparr>) \<and> willing m"
proof -
  let ?nd = "cc_next st"
  let ?n = "blank_node\<lparr>nd_slots := Some [], nd_name := Some (nl_name l), nd_addr := Some (line_addr l), nd_role := REDIS_ROLE_MASTER\<rparr>"
  let ?st = "st\<lparr>cc_heap := (cc_heap st)(?nd \<mapsto> ?n), cc_next := ?nd + 1\<rparr>"
  have "length (nl_host l) \<le> length (line_text l)"
    by (simp add: line_text_def line_words_def line_addr_def)
  then have len: "length (nl_host l) < 2 ^ 63" using ok by (simp add: line_ok_def)
  obtain m where m: "new_text (nl_host l) ?st = Some (Done (nl_host l), ?st\<lparr>cc_smem := m\<rparr>)" "willing m"
    using new_text_ok [OF len, of ?st] assms(3) by auto
  have host: "take (length (nl_host l)) (line_addr l) = nl_host l" by (simp add: line_addr_def)
  have port: "hi_atoi (dec_nat (nl_port l)) = Some (int (nl_port l))" "nat (int (nl_port l) mod 2 ^ 16) = nl_port l"
    using ok by (simp_all add: hi_atoi_dec_nat line_ok_def nat_mod_distrib)
  have a: "c_str (line_addr l) = line_addr l" using addr_parts(1) [OF ok] by simp
  let ?old = "st\<lparr>cc_heap := (cc_heap st)(?nd \<mapsto> blank_node), cc_next := ?nd + 1\<rparr>"
  have c: "cluster_node_create st = Some (Done ?nd, ?old)" using assms(2) by (simp add: cluster_node_create_def)
  have s: "create_slots ?nd ?old = Some (Done (), ?old\<lparr>cc_heap := (cc_heap st)(?nd \<mapsto> blank_node\<lparr>nd_slots := Some []\<rparr>)\<rparr>)"
    using assms(2) by (simp add: create_slots_def update_node_def)
  have u: "update_node ?nd (\<lambda>n. n\<lparr>nd_name := Some (nl_name l), nd_addr := Some (line_addr l), nd_role := REDIS_ROLE_MASTER\<rparr>)
      (?old\<lparr>cc_heap := (cc_heap st)(?nd \<mapsto> blank_node\<lparr>nd_slots := Some []\<rparr>)\<rparr>) = ?st"
    by (cases st) (simp add: update_node_def)
  have f: "update_node ?nd (\<lambda>n. n\<lparr>nd_host := Some (nl_host l), nd_port := nl_port l\<rparr>) (?st\<lparr>cc_smem := m\<rparr>) =
      ?st\<lparr>cc_smem := m, cc_heap := (cc_heap ?st)(?nd \<mapsto> line_node l)\<rparr>"
    by (cases st) (simp add: update_node_def line_node_def blank_node_def)
  have n: "node_get_with_nodes (line_words l) REDIS_ROLE_MASTER st = Some (Done ?nd, ?st\<lparr>cc_smem := m, cc_heap := (cc_heap ?st)(?nd \<mapsto> line_node l)\<rparr>)"
    unfolding node_get_with_nodes_def c catch_oom_def
    using line_parts [OF ok] m(1) port addr_parts(4,5) [OF ok] host a s u f
    by (simp del: fun_upd_apply add: give_up_def catch_oom_def)
  have e: "?st\<lparr>cc_smem := m, cc_heap := (cc_heap ?st)(?nd \<mapsto> line_node l)\<rparr> =
      st\<lparr>cc_smem := m, cc_heap := (cc_heap st)(?nd \<mapsto> line_node l), cc_next := ?nd + 1\<rparr>" by (cases st) simp
  show ?thesis using n m(2) unfolding e by blast
qed

lemma split_range:
  assumes "a < REDIS_CLUSTER_SLOTS" "b < REDIS_CLUSTER_SLOTS" "willing (cc_smem st)"
  shows "\<exists>m. split_text (range_text (a, b)) (CHR ''-'') st = Some (Done (if a = b then [dec_nat a] else [dec_nat a, dec_nat b]), st\<lparr>cc_smem := m\<rparr>) \<and> willing m"
proof (rule split_text_ok)
  have "length (dec_nat a) \<le> 10" "length (dec_nat b) \<le> 10" using assms by (simp_all add: dec_nat_small_length REDIS_CLUSTER_SLOTS_def)
  then show "length (range_text (a, b)) < 2 ^ 31" by simp
qed (use assms(3) not_in_dec_nat [OF separators(6)] dec_nat_not_Nil in simp_all)

lemma range_added:
  assumes "a \<le> b" "b < REDIS_CLUSTER_SLOTS" "cc_mem st = []" "willing (cc_smem st)" "cc_heap st nd = Some n" "nd_slots n = Some ss"
  shows "\<exists>m. nodes_slots (range_text (a, b)) nd st = Some (Done (), st\<lparr>cc_smem := m, cc_heap := (cc_heap st)(nd \<mapsto>
      n\<lparr>nd_slots := Some (ss @ [\<lparr>cs_start = a, cs_end = b, cs_node = nd\<rparr>])\<rparr>)\<rparr>) \<and> willing m"
proof -
  have lt: "a < REDIS_CLUSTER_SLOTS" "a < 2 ^ 31" "b < 2 ^ 31" using assms(1,2) by (simp_all add: REDIS_CLUSTER_SLOTS_def)
  obtain m where m: "split_text (range_text (a, b)) (CHR ''-'') st = Some (Done (if a = b then [dec_nat a] else [dec_nat a, dec_nat b]), st\<lparr>cc_smem := m\<rparr>)" "willing m"
    using split_range [OF lt(1) assms(2,4)] by blast
  have "cluster_slot_create a b nd (st\<lparr>cc_smem := m\<rparr>) = Some (Done (), st\<lparr>cc_smem := m, cc_heap := (cc_heap st)(nd \<mapsto>
      n\<lparr>nd_slots := Some (ss @ [\<lparr>cs_start = a, cs_end = b, cs_node = nd\<rparr>])\<rparr>)\<rparr>)"
    using assms(3,5,6) by (simp add: cluster_slot_create_def attach_slot_def update_node_def)
  then have "nodes_slots (range_text (a, b)) nd st = Some (Done (), st\<lparr>cc_smem := m, cc_heap := (cc_heap st)(nd \<mapsto>
      n\<lparr>nd_slots := Some (ss @ [\<lparr>cs_start = a, cs_end = b, cs_node = nd\<rparr>])\<rparr>)\<rparr>)"
    using m(1) hi_atoi_dec_nat [OF lt(2)] hi_atoi_dec_nat [OF lt(3)] assms(1,2) by (cases "a = b") (simp_all del: range_text.simps add: nodes_slots_def)
  then show ?thesis using m(2) by blast
qed

lemma ranges_added:
  "\<forall>(a, b) \<in> set rs. a \<le> b \<and> b < REDIS_CLUSTER_SLOTS \<Longrightarrow> cc_mem st = [] \<Longrightarrow> willing (cc_smem st) \<Longrightarrow> cc_heap st nd = Some n \<Longrightarrow> nd_slots n = Some ss \<Longrightarrow>
   \<exists>m. nodes_slot_words (map range_text rs) nd st = Some (Done (), st\<lparr>cc_smem := m, cc_heap := (cc_heap st)(nd \<mapsto>
      n\<lparr>nd_slots := Some (ss @ map (\<lambda>(a, b). \<lparr>cs_start = a, cs_end = b, cs_node = nd\<rparr>) rs)\<rparr>)\<rparr>) \<and> willing m"
proof (induction rs arbitrary: st n ss)
  case Nil
  then show ?case by (intro exI [of _ "cc_smem st"]) (simp add: fun_upd_idem)
next
  case (Cons r rs)
  obtain a b where r: "r = (a, b)" by (cases r)
  obtain m where m: "nodes_slots (range_text r) nd st = Some (Done (), st\<lparr>cc_smem := m, cc_heap := (cc_heap st)(nd \<mapsto>
      n\<lparr>nd_slots := Some (ss @ [\<lparr>cs_start = a, cs_end = b, cs_node = nd\<rparr>])\<rparr>)\<rparr>)" "willing m"
    using range_added [of a b st nd n ss] Cons.prems r by auto
  let ?st = "st\<lparr>cc_smem := m, cc_heap := (cc_heap st)(nd \<mapsto> n\<lparr>nd_slots := Some (ss @ [\<lparr>cs_start = a, cs_end = b, cs_node = nd\<rparr>])\<rparr>)\<rparr>"
  have "\<exists>m'. nodes_slot_words (map range_text rs) nd ?st = Some (Done (), ?st\<lparr>cc_smem := m', cc_heap := (cc_heap ?st)(nd \<mapsto>
      n\<lparr>nd_slots := Some (ss @ [\<lparr>cs_start = a, cs_end = b, cs_node = nd\<rparr>])\<rparr>\<lparr>nd_slots := Some ((ss @ [\<lparr>cs_start = a, cs_end = b, cs_node = nd\<rparr>]) @ map (\<lambda>(a, b). \<lparr>cs_start = a, cs_end = b, cs_node = nd\<rparr>) rs)\<rparr>)\<rparr>) \<and> willing m'"
    using Cons.prems m(2) by (intro Cons.IH) auto
  then obtain m' where "nodes_slot_words (map range_text rs) nd ?st = Some (Done (), st\<lparr>cc_smem := m', cc_heap := (cc_heap st)(nd \<mapsto>
      n\<lparr>nd_slots := Some (ss @ map (\<lambda>(a, b). \<lparr>cs_start = a, cs_end = b, cs_node = nd\<rparr>) (r # rs))\<rparr>)\<rparr>)" "willing m'"
    using r by (cases st) (auto simp del: fun_upd_apply)
  then show ?case using m(1) by (intro exI [of _ m']) (simp del: fun_upd_apply)
qed

text \<open>What the parser has when it has read the lines of the masters \<open>ms\<close>.\<close>

definition master_node :: "node_line \<Rightarrow> nat \<Rightarrow> cluster_node" where
  "master_node l nd = (line_node l)\<lparr>nd_slots := Some (line_slots l nd)\<rparr>"

definition parsed :: "nat \<Rightarrow> node_line list \<Rightarrow> 'w cluster \<Rightarrow> bool" where
  "parsed n0 ms st \<longleftrightarrow> cc_mem st = [] \<and> willing (cc_smem st) \<and> \<not> cc_add_slave st \<and> cc_next st = n0 + length ms \<and>
     (\<exists>d. pn_nodes st = Some d \<and> nodes_dict d \<and> dict_map d = map_of (zip (map line_addr ms) [n0..<n0 + length ms])) \<and>
     (\<forall>i < length ms. cc_heap st (n0 + i) = Some (master_node (ms ! i) (n0 + i)))"

lemma addr_not_zero: "line_ok l \<Longrightarrow> line_addr l \<noteq> '':0''"
proof
  assume ok: "line_ok l" and z: "line_addr l = '':0''"
  have "strrchr '':0'' (CHR '':'') = Some 0" by (simp add: strrchr_def Let_def c_str_def)
  then have "nl_host l = []" using addr_parts(4) [OF ok] z by simp
  then have "dec_nat (nl_port l) @ nl_cport l = ''0''" using z by (simp add: line_addr_def)
  then have "dec_nat (nl_port l) = ''0''" using dec_nat_not_Nil [of "nl_port l"] by (cases "dec_nat (nl_port l)") auto
  then have "nl_port l = digits_val 0 ''0''" by (metis digits_val_dec_nat)
  moreover have "digits_val 0 ''0'' = 0" by (simp add: digit_val_def uchar_def)
  ultimately show False using ok by (simp add: line_ok_def)
qed

lemma dict_map_zip_new:
  "a \<notin> set as \<Longrightarrow> length as = n \<Longrightarrow> (map_of (zip as [n0..<n0 + n]))(a \<mapsto> n0 + n) = map_of (zip (as @ [a]) [n0..<n0 + Suc n])"
proof -
  assume a: "a \<notin> set as" "length as = n"
  then have z: "zip (as @ [a]) [n0..<n0 + Suc n] = zip as [n0..<n0 + n] @ [(a, n0 + n)]" by simp
  have "map_of (zip as [n0..<n0 + n]) a = None" using a by (auto simp: map_of_eq_None_iff dest: set_zip_leftD)
  then show ?thesis unfolding z by (auto simp: map_add_def fun_eq_iff split: option.splits)
qed

lemma parsed_snoc:
  assumes "parsed n0 ms st" "line_ok l" "is_master l" "line_addr l \<notin> line_addr ` set ms" "length ms + 1 < 2 ^ 31"
  shows "\<exists>st'. nodes_line net (line_text l) st = Some (Done (), st') \<and> parsed n0 (ms @ [l]) st'"
proof -
  let ?nd = "n0 + length ms"
  obtain d where d: "pn_nodes st = Some d" "nodes_dict d" "dict_map d = map_of (zip (map line_addr ms) [n0..<n0 + length ms])"
      and st: "cc_mem st = []" "willing (cc_smem st)" "\<not> cc_add_slave st" "cc_next st = ?nd"
      "\<And>i. i < length ms \<Longrightarrow> cc_heap st (n0 + i) = Some (master_node (ms ! i) (n0 + i))" using assms(1) by (auto simp: parsed_def)
  obtain m1 where m1: "split_text (line_text l) (CHR '' '') st = Some (Done (line_words l), st\<lparr>cc_smem := m1\<rparr>)" "willing m1"
    using split_line [OF assms(2) st(2)] by blast
  obtain m2 where m2: "node_get_with_nodes (line_words l) REDIS_ROLE_MASTER (st\<lparr>cc_smem := m1\<rparr>) = Some (Done ?nd,
      st\<lparr>cc_smem := m2, cc_heap := (cc_heap st)(?nd \<mapsto> line_node l), cc_next := ?nd + 1\<rparr>)" "willing m2"
    using node_created [OF assms(2), of "st\<lparr>cc_smem := m1\<rparr>"] st m1(2) by auto
  let ?s2 = "st\<lparr>cc_smem := m2, cc_heap := (cc_heap st)(?nd \<mapsto> line_node l), cc_next := ?nd + 1\<rparr>"
  have new: "dict_map d (line_addr l) = None" using assms(4) by (auto simp: d(3) map_of_eq_None_iff dest: set_zip_leftD)
  have "length (line_addr l) \<le> length (line_text l)" by (simp add: line_text_def line_words_def)
  then have len: "length (line_addr l) < 2 ^ 63" using assms(2) by (simp add: line_ok_def)
  obtain d' m3 where d': "add_copy d (line_addr l) ?nd ?s2 = Some (Done (True, d'), ?s2\<lparr>cc_smem := m3\<rparr>)" "willing m3"
      "dict_inv d'" "ht_type d' = clusterNodesDictType" "dict_map d' = (dict_map d)(line_addr l \<mapsto> ?nd)"
    using add_copy_ok [OF d(2) _ _ len, of ?s2 ?nd] st(1) m2(2) new by auto
  have "dom (dict_map d) \<subseteq> set (map line_addr ms)" by (auto simp: d(3) dest!: map_of_SomeD set_zip_leftD)
  then have "card (dom (dict_map d)) \<le> length ms"
    using card_mono [of "set (map line_addr ms)" "dom (dict_map d)"] card_length [of "map line_addr ms"] by simp
  moreover have "dom (dict_map d') = insert (line_addr l) (dom (dict_map d))" using d'(5) by auto
  moreover have "finite (dom (dict_map d))" by (simp add: d(3) finite_dom_map_of)
  ultimately have "ht_used d' \<le> length ms + 1" using dict_used [OF d'(3)] by (simp add: card_insert_if)
  then have nd: "nodes_dict d'" using d'(3,4) assms(5) by (simp add: nodes_dict_def)
  let ?s3 = "?s2\<lparr>cc_smem := m3, pn_nodes := Some d'\<rparr>"
  obtain m4 where m4: "nodes_slot_words (map range_text (nl_ranges l)) ?nd ?s3 = Some (Done (), ?s3\<lparr>cc_smem := m4, cc_heap := (cc_heap ?s3)(?nd \<mapsto> master_node l ?nd)\<rparr>)" "willing m4"
    using ranges_added [of "nl_ranges l" ?s3 ?nd "line_node l" "[]"] assms(2) st(1) d'(2)
    by (auto simp: line_ok_def master_node_def line_slots_def line_node_def)
  let ?s4 = "?s3\<lparr>cc_smem := m4, cc_heap := (cc_heap ?s3)(?nd \<mapsto> master_node l ?nd)\<rparr>"
  have addr: "cc_heap ?s2 ?nd = Some (line_node l)" "nd_addr (line_node l) = Some (line_addr l)" "pn_nodes ?s2 = Some d"
    using d(1) by (simp_all add: line_node_def)
  have "nodes_add_master net (line_words l) (st\<lparr>cc_smem := m1\<rparr>) = Some (Done (), ?s4)"
    unfolding nodes_add_master_def m2(1) and_then_simps(1) addr Option.bind.bind_lunit
    using d'(1) st(3) m4(1) line_parts(5) [OF assms(2)] by (simp add: or_release_def del: fun_upd_apply)
  moreover have "starts_with ''master'' (if starts_with ''myself,'' (line_words l ! 2) then drop 7 (line_words l ! 2) else line_words l ! 2)"
    unfolding line_parts(3) [OF assms(2)] using assms(3) unfolding is_master_def .
  ultimately have "nodes_line net (line_text l) st = Some (Done (), ?s4)"
    using m1(1) line_parts(2,4) [OF assms(2)] addr_not_zero [OF assms(2)]
    by (simp add: nodes_line_def Let_def del: fun_upd_apply split del: if_split)
  moreover have "parsed n0 (ms @ [l]) ?s4"
  proof -
    have "cc_heap ?s4 (n0 + i) = Some (master_node ((ms @ [l]) ! i) (n0 + i))" if "i < length (ms @ [l])" for i
      using that st(5) [of i] by (cases "i = length ms") (auto simp: nth_append)
    moreover have "dict_map d' = map_of (zip (map line_addr (ms @ [l])) [n0..<n0 + length (ms @ [l])])"
      using dict_map_zip_new [of "line_addr l" "map line_addr ms" "length ms" n0] assms(4) d(3) d'(5) by simp
    ultimately show ?thesis using st m4(2) nd by (simp add: parsed_def del: upt_Suc)
  qed
  ultimately show ?thesis by blast
qed

text \<open>The lines of other nodes are passed over.\<close>

lemma parsed_other:
  assumes "parsed n0 ms st" "line_ok l" "\<not> is_master l"
  shows "\<exists>st'. nodes_line net (line_text l) st = Some (Done (), st') \<and> parsed n0 ms st'"
proof -
  have st: "willing (cc_smem st)" "\<not> cc_add_slave st" using assms(1) by (simp_all add: parsed_def)
  obtain m where m: "split_text (line_text l) (CHR '' '') st = Some (Done (line_words l), st\<lparr>cc_smem := m\<rparr>)" "willing m"
    using split_line [OF assms(2) st(1)] by blast
  have "\<not> starts_with ''master'' (if starts_with ''myself,'' (line_words l ! 2) then drop 7 (line_words l ! 2) else line_words l ! 2)"
    unfolding line_parts(3) [OF assms(2)] using assms(3) unfolding is_master_def .
  then have "nodes_line net (line_text l) st = Some (Done (), st\<lparr>cc_smem := m\<rparr>)"
    using m(1) st(2) line_parts(2,4) [OF assms(2)] addr_not_zero [OF assms(2)]
    by (simp add: nodes_line_def Let_def split del: if_split)
  moreover have "parsed n0 ms (st\<lparr>cc_smem := m\<rparr>)" using assms(1) m(2) by (simp add: parsed_def)
  ultimately show ?thesis by blast
qed

section \<open>All lines\<close>

lemma nodes_loop_line:
  "pos \<le> e \<Longrightarrow> e < length s \<Longrightarrow> \<forall>i. pos \<le> i \<and> i < e \<longrightarrow> s ! i \<noteq> LF \<Longrightarrow> s ! e = LF \<Longrightarrow>
   nodes_loop net s pos line_start st =
     and_then (nodes_line net (take (e - line_start) (drop line_start s)) st) (\<lambda>_ st. nodes_loop net s (e + 2) (e + 1) st)"
proof (induction "e - pos" arbitrary: pos)
  case 0
  then show ?case by (simp add: nodes_loop.simps [of net s pos])
next
  case (Suc n)
  then have "nodes_loop net s pos line_start st = nodes_loop net s (pos + 1) line_start st"
    by (simp add: nodes_loop.simps [of net s pos])
  also have "\<dots> = and_then (nodes_line net (take (e - line_start) (drop line_start s)) st) (\<lambda>_ st. nodes_loop net s (e + 2) (e + 1) st)"
    using Suc.hyps(2) Suc.prems by (intro Suc.hyps(1)) auto
  finally show ?case .
qed

lemma lines_parsed:
  "\<forall>l \<in> set ls. line_ok l \<Longrightarrow> distinct (map line_addr (ms @ filter is_master ls)) \<Longrightarrow> length ms + length ls < 2 ^ 31 \<Longrightarrow>
   pos \<in> {length pre, length pre + 1} \<Longrightarrow> parsed n0 ms st \<Longrightarrow>
   \<exists>st'. nodes_loop net (pre @ nodes_text ls) pos (length pre) st = Some (Done (), st') \<and> parsed n0 (ms @ filter is_master ls) st'"
proof (induction ls arbitrary: pre pos ms st)
  case Nil
  then have "nodes_loop net pre pos (length pre) st = Some (Done (), st)" by (auto simp: nodes_loop.simps [of net pre pos])
  with Nil.prems(5) show ?case by (simp add: nodes_text_def)
next
  case (Cons l ls)
  let ?s = "pre @ nodes_text (l # ls)" and ?e = "length pre + length (line_text l)"
  have s: "?s = (pre @ line_text l @ [LF]) @ nodes_text ls" by (simp add: nodes_text_def)
  have ok: "line_ok l" using Cons.prems(1) by simp
  have ne: "length (line_text l) > 0" using line_text_free(2) [OF ok] by simp
  have nth: "?s ! i = line_text l ! (i - length pre)" if "length pre \<le> i" "i < ?e" for i
  proof -
    have "i - length pre < length (line_text l)" using that by linarith
    with that show ?thesis by (simp add: s nth_append)
  qed
  have "?s ! i \<noteq> LF" if "pos \<le> i" "i < ?e" for i
  proof -
    have "?s ! i \<in> set (line_text l)" using that Cons.prems(4) nth [of i] by auto
    then show ?thesis using line_text_free(1) [OF ok] by metis
  qed
  moreover have "?s ! ?e = LF" by (simp add: s nth_append)
  moreover have "pos \<le> ?e" "?e < length ?s" using Cons.prems(4) ne by (auto simp: s Suc_le_eq)
  ultimately have loop: "nodes_loop net ?s pos (length pre) st =
      and_then (nodes_line net (take (?e - length pre) (drop (length pre) ?s)) st) (\<lambda>_ st. nodes_loop net ?s (?e + 2) (?e + 1) st)"
    by (intro nodes_loop_line) auto
  have cut: "take (?e - length pre) (drop (length pre) ?s) = line_text l" by (simp add: nodes_text_def)
  have len: "length (pre @ line_text l @ [LF]) = ?e + 1" by simp
  let ?ms = "if is_master l then ms @ [l] else ms"
  have "\<exists>st'. nodes_line net (line_text l) st = Some (Done (), st') \<and> parsed n0 ?ms st'"
  proof (cases "is_master l")
    case True
    then have "line_addr l \<notin> line_addr ` set ms" using Cons.prems(2) by auto
    with parsed_snoc [OF Cons.prems(5) ok True] Cons.prems(3) True show ?thesis by simp
  next
    case False
    with parsed_other [OF Cons.prems(5) ok] show ?thesis by simp
  qed
  then obtain st1 where st1: "nodes_line net (line_text l) st = Some (Done (), st1)" "parsed n0 ?ms st1" by blast
  have "\<exists>st'. nodes_loop net ((pre @ line_text l @ [LF]) @ nodes_text ls) (?e + 2) (length (pre @ line_text l @ [LF])) st1 = Some (Done (), st') \<and>
      parsed n0 (?ms @ filter is_master ls) st'"
    using Cons.prems(1-3) st1(2) by (intro Cons.IH) auto
  then obtain st2 where "nodes_loop net ?s (?e + 2) (?e + 1) st1 = Some (Done (), st2)" "parsed n0 (?ms @ filter is_master ls) st2"
    unfolding s len by blast
  then show ?case unfolding loop cut using st1(1) by (auto split: if_splits)
qed

lemma parsed_start:
  assumes "cc_mem st = []" "willing (cc_smem st)" "\<not> cc_add_slave st" "pn_nodes st = Some (dictInit clusterNodesDictType)"
  shows "parsed (cc_next st) [] st"
  using assms nodes_dict_init by (simp add: parsed_def)

definition table_ready :: "nat \<Rightarrow> node_line list \<Rightarrow> (bytes, nat) dict \<Rightarrow> 'w cluster \<Rightarrow> bool" where
  "table_ready n0 ms d st \<longleftrightarrow> cc_mem st = [] \<and> nodes_dict d \<and> dict_map d = map_of (zip (map line_addr ms) [n0..<n0 + length ms]) \<and>
     (\<forall>i < length ms. cc_heap st (n0 + i) = Some (master_node (ms ! i) (n0 + i)))"

lemma nodes_parsed:
  assumes "\<forall>l \<in> set ls. line_ok l" "distinct (map line_addr (filter is_master ls))" "length ls < 2 ^ 31"
    "cc_mem st = []" "willing (cc_smem st)" "\<not> cc_add_slave st"
  shows "\<exists>d st'. parse_cluster_nodes net (nodes_text ls) st = Some (Done d, st') \<and> table_ready (cc_next st) (filter is_master ls) d st'"
proof -
  let ?st = "st\<lparr>cc_mem := [], pn_nodes := Some (dictInit clusterNodesDictType), pn_names := None\<rparr>"
  have c: "dictCreate (clusterNodesDictType :: (bytes, nat) dictType) [] = (Some (dictInit clusterNodesDictType), [])" by (simp add: dictCreate_def)
  have "parsed (cc_next st) [] ?st" using parsed_start [of ?st] assms(5,6) by simp
  then obtain st1 where st1: "nodes_loop net (nodes_text ls) 0 0 ?st = Some (Done (), st1)" "parsed (cc_next st) (filter is_master ls) st1"
    using lines_parsed [of ls "[]" 0 "[]" "cc_next st" ?st net] assms(1-3) by auto
  then obtain d where d: "pn_nodes st1 = Some d" by (auto simp: parsed_def)
  have "parse_cluster_nodes net (nodes_text ls) st = Some (Done d, st1\<lparr>pn_nodes := None, pn_names := None\<rparr>)"
    using c st1(1) d assms(4) by (simp add: parse_cluster_nodes_def with_nodes_def catch_oom_def)
  moreover have "table_ready (cc_next st) (filter is_master ls) d (st1\<lparr>pn_nodes := None, pn_names := None\<rparr>)"
    using st1(2) d by (simp add: parsed_def table_ready_def)
  ultimately show ?thesis by blast
qed

section \<open>Walking over the nodes\<close>

lemma dict_walk_entries: "dict_inv d \<Longrightarrow> dict_walk d = concat (ht_table d) \<and> distinct (map fst (dict_walk d)) \<and> map_of (dict_walk d) = dict_map d"
proof -
  assume inv: "dict_inv d"
  have e: "it_rest d dictInitIterator = concat (ht_table d)" by (simp add: it_rest_def dictInitIterator_def)
  have a: "dict_answers (ht_used d + 1) d dictInitIterator = map Some (concat (ht_table d)) @ [None]"
    using dict_answers_rest [of d dictInitIterator] inv e by (simp add: dict_inv_def dict_sizes_def dictInitIterator_def)
  have "takeWhile (\<lambda>r. r \<noteq> None) (map Some xs @ [None]) = map Some xs" for xs :: "('a \<times> 'b) list"
    by (subst takeWhile_append2) auto
  then have w: "dict_walk d = concat (ht_table d)" unfolding dict_walk_def a by (simp add: comp_def)
  have "distinct (map fst (concat (ht_table d)))" using inv unfolding dict_inv_def by blast
  then show ?thesis using w by (simp add: dict_map_def)
qed

lemma same_entries:
  "distinct (map fst xs) \<Longrightarrow> distinct (map fst ys) \<Longrightarrow> map_of xs = map_of ys \<Longrightarrow> mset xs = mset ys"
  by (metis distinct_map map_of_inject_set set_eq_iff_mset_eq_distinct)

lemma mset_concat_map: "mset xs = mset ys \<Longrightarrow> mset (concat (map f xs)) = mset (concat (map f ys))"
proof -
  have "mset (concat (map f zs)) = (\<Sum>x \<in># mset zs. mset (f x))" for zs by (induction zs) auto
  then show "mset xs = mset ys \<Longrightarrow> ?thesis" by simp
qed

section \<open>Filling the table\<close>

definition slot_range :: "cluster_slot \<Rightarrow> nat list" where
  "slot_range s = [cs_start s..<cs_end s + 1]"

definition slot_ok :: "cluster_slot \<Rightarrow> bool" where
  "slot_ok s \<longleftrightarrow> cs_start s \<le> cs_end s \<and> cs_end s < REDIS_CLUSTER_SLOTS \<and> cs_node s \<noteq> 0"

lemma fill_slots_spec:
  "distinct ks \<Longrightarrow> \<forall>k \<in> set ks. k < length t \<Longrightarrow> nd \<noteq> 0 \<Longrightarrow>
   (if \<forall>k \<in> set ks. t ! k = 0 then \<exists>t'. fill_slots ks nd t = Some t' \<and> length t' = length t \<and>
      (\<forall>i < length t. t' ! i = (if i \<in> set ks then nd else t ! i)) else fill_slots ks nd t = None)"
proof (induction ks arbitrary: t)
  case (Cons k ks)
  have "(t[k := nd]) ! i = (if i = k then nd else t ! i)" if "i < length t" for i using that by simp
  with Cons.IH [of "t[k := nd]"] Cons.prems show ?case by (auto split: if_splits)
qed simp

definition filled :: "cluster_slot list \<Rightarrow> nat list \<Rightarrow> nat list \<Rightarrow> bool" where
  "filled ss t t' \<longleftrightarrow> length t' = length t \<and> (\<forall>s \<in> set ss. \<forall>k \<in> set (slot_range s). t' ! k = cs_node s) \<and>
     (\<forall>k < length t. (\<forall>s \<in> set ss. k \<notin> set (slot_range s)) \<longrightarrow> t' ! k = t ! k)"

lemma fill_table_spec:
  "\<forall>s \<in> set ss. slot_ok s \<Longrightarrow> length t = REDIS_CLUSTER_SLOTS \<Longrightarrow>
   (if distinct (concat (map slot_range ss)) \<and> (\<forall>k \<in> set (concat (map slot_range ss)). t ! k = 0)
    then \<exists>t'. fill_table ss t = Some t' \<and> filled ss t t' else fill_table ss t = None)"
proof (induction ss arbitrary: t)
  case Nil
  then show ?case by (simp add: filled_def)
next
  case (Cons s ss)
  have ok: "slot_ok s" and t: "length t = REDIS_CLUSTER_SLOTS" using Cons.prems by simp_all
  have bound: "\<forall>k \<in> set (slot_range s). k < length t" using ok t by (auto simp: slot_range_def slot_ok_def)
  have d: "distinct (slot_range s)" by (simp add: slot_range_def)
  note F = fill_slots_spec [OF d bound, of "cs_node s"]
  show ?case
  proof (cases "\<forall>k \<in> set (slot_range s). t ! k = 0")
    case False
    then have "fill_slots (slot_range s) (cs_node s) t = None" using F ok by (simp add: slot_ok_def split: if_splits)
    then show ?thesis using False by (auto simp: slot_range_def)
  next
    case True
    then obtain u where u: "fill_slots (slot_range s) (cs_node s) t = Some u" "length u = length t"
        "\<forall>i < length t. u ! i = (if i \<in> set (slot_range s) then cs_node s else t ! i)"
      using F ok by (auto simp: slot_ok_def)
    have ft: "fill_table (s # ss) t = fill_table ss u" using u(1) by (simp add: slot_range_def)
    let ?c = "concat (map slot_range ss)"
    have lt: "k < length t" if "k \<in> set ?c" for k using that Cons.prems by (auto simp: slot_range_def slot_ok_def)
    have cs: "cs_node s \<noteq> 0" using ok by (simp add: slot_ok_def)
    have free: "(\<forall>k \<in> set ?c. u ! k = 0) \<longleftrightarrow> set (slot_range s) \<inter> set ?c = {} \<and> (\<forall>k \<in> set ?c. t ! k = 0)"
      using u(3) lt cs by (auto split: if_splits; force)
    have cond: "distinct (concat (map slot_range (s # ss))) \<and> (\<forall>k \<in> set (concat (map slot_range (s # ss))). t ! k = 0) \<longleftrightarrow>
        distinct ?c \<and> (\<forall>k \<in> set ?c. u ! k = 0)" using d True free by auto
    have IH: "if distinct ?c \<and> (\<forall>k \<in> set ?c. u ! k = 0) then \<exists>t'. fill_table ss u = Some t' \<and> filled ss u t' else fill_table ss u = None"
      using Cons.IH [of u] Cons.prems u(2) by simp
    show ?thesis
    proof (cases "distinct ?c \<and> (\<forall>k \<in> set ?c. u ! k = 0)")
      case False
      then show ?thesis using IH unfolding cond if_not_P [OF False] ft by simp
    next
      case all: True
      then obtain t' where t': "fill_table ss u = Some t'" "filled ss u t'" using IH unfolding if_P [OF all] by blast
      have own: "t' ! k = cs_node s" if "k \<in> set (slot_range s)" for k
      proof -
        have "\<forall>x \<in> set ss. k \<notin> set (slot_range x)" using that all free by auto
        then show ?thesis using t'(2) u(2,3) bound that by (simp add: filled_def)
      qed
      have "filled (s # ss) t t'" using t'(2) u(2,3) own by (auto simp: filled_def)
      then show ?thesis using cond all ft t'(1) by auto
    qed
  qed
qed

section \<open>Collecting the slots\<close>

lemma push_slots_ok:
  "\<forall>s \<in> set ss. slot_ok s \<Longrightarrow> 0 < ar_nalloc a \<Longrightarrow> cc_mem st = [] \<Longrightarrow>
   \<exists>a'. push_slots ss a st = Some (Done a', st) \<and> ar_elem a' = ar_elem a @ ss \<and> 0 < ar_nalloc a'"
proof (induction ss arbitrary: a)
  case (Cons s ss)
  have s: "\<not> (cs_start s > cs_end s \<or> cs_end s \<ge> REDIS_CLUSTER_SLOTS)" using Cons.prems(1) by (auto simp: slot_ok_def)
  obtain b where b: "arr_push s a st = Some (Done b, st)" "ar_elem b = ar_elem a @ [s]" "0 < ar_nalloc b"
    using Cons.prems(2,3) by (cases "length (ar_elem a) = ar_nalloc a") (simp_all add: arr_push_def)
  from Cons.IH [OF _ b(3) Cons.prems(3)] Cons.prems(1) obtain a' where
    "push_slots ss b st = Some (Done a', st)" "ar_elem a' = ar_elem b @ ss" "0 < ar_nalloc a'" by auto
  then show ?case using s b by auto
qed simp

definition node_slots :: "'w cluster \<Rightarrow> nat \<Rightarrow> cluster_slot list" where
  "node_slots st nd = (case cc_heap st nd of None \<Rightarrow> [] | Some n \<Rightarrow> (case nd_slots n of None \<Rightarrow> [] | Some ss \<Rightarrow> ss))"

lemma collect_slots_ok:
  "\<forall>(k, nd) \<in> set es. \<exists>n. cc_heap st nd = Some n \<and> nd_role n = REDIS_ROLE_MASTER \<and> (\<forall>s \<in> set (node_slots st nd). slot_ok s) \<Longrightarrow>
   es = [] \<or> 0 < ar_nalloc a \<Longrightarrow> cc_mem st = [] \<Longrightarrow>
   \<exists>a'. collect_slots es a st = Some (Done a', st) \<and> ar_elem a' = ar_elem a @ concat (map (\<lambda>(k, nd). node_slots st nd) es)"
proof (induction es arbitrary: a)
  case (Cons e es)
  obtain k nd where e: "e = (k, nd)" by (cases e)
  with Cons.prems(1) obtain n where n: "cc_heap st nd = Some n" "nd_role n = REDIS_ROLE_MASTER" "\<forall>s \<in> set (node_slots st nd). slot_ok s" by auto
  obtain b where b: "push_slots (node_slots st nd) a st = Some (Done b, st)" "ar_elem b = ar_elem a @ node_slots st nd" "0 < ar_nalloc b"
    using push_slots_ok [OF n(3) _ Cons.prems(3)] Cons.prems(2) by auto
  from Cons.IH [of b] Cons.prems b obtain a' where
    a': "collect_slots es b st = Some (Done a', st)" "ar_elem a' = ar_elem b @ concat (map (\<lambda>(k, nd). node_slots st nd) es)" by auto
  have ns: "node_slots st nd = (case nd_slots n of None \<Rightarrow> [] | Some ss \<Rightarrow> ss)" using n(1) by (simp add: node_slots_def)
  have "collect_slots (e # es) a st = Some (Done a', st)" using b(1) a'(1) n(1,2) by (simp add: e ns)
  then show ?case using a'(2) b(2) by (simp add: e)
qed simp

section \<open>The table of the text\<close>

definition line_claims :: "node_line \<Rightarrow> nat list" where
  "line_claims l = concat (map (\<lambda>(a, b). [a..<b + 1]) (nl_ranges l))"

lemma line_slots_ranges: "concat (map slot_range (line_slots l nd)) = line_claims l"
proof -
  have "concat (map slot_range (map (\<lambda>(a, b). \<lparr>cs_start = a, cs_end = b, cs_node = nd\<rparr>) rs)) = concat (map (\<lambda>(a, b). [a..<b + 1]) rs)" for rs
    by (induction rs) (auto simp: slot_range_def simp del: upt_Suc)
  then show ?thesis unfolding line_slots_def line_claims_def .
qed

lemma ready_nodes:
  assumes "table_ready n0 ms d st" "distinct (map line_addr ms)"
  shows "mset (dict_walk d) = mset (zip (map line_addr ms) [n0..<n0 + length ms])"
    "i < length ms \<Longrightarrow> node_slots st (n0 + i) = line_slots (ms ! i) (n0 + i)"
proof -
  have d: "dict_inv d" "dict_map d = map_of (zip (map line_addr ms) [n0..<n0 + length ms])" using assms(1) by (simp_all add: table_ready_def nodes_dict_def)
  have "distinct (map fst (zip (map line_addr ms) [n0..<n0 + length ms]))" using assms(2) by simp
  then show "mset (dict_walk d) = mset (zip (map line_addr ms) [n0..<n0 + length ms])"
    using same_entries [of "dict_walk d"] dict_walk_entries [OF d(1)] d(2) by metis
  show "i < length ms \<Longrightarrow> node_slots st (n0 + i) = line_slots (ms ! i) (n0 + i)"
    using assms(1) by (simp add: table_ready_def node_slots_def master_node_def)
qed

lemma ready_claims:
  assumes "table_ready n0 ms d st" "distinct (map line_addr ms)"
  shows "mset (concat (map slot_range (concat (map (\<lambda>(k, nd). node_slots st nd) (dict_walk d))))) = mset (concat (map line_claims ms))"
proof -
  let ?z = "zip (map line_addr ms) [n0..<n0 + length ms]"
  have f: "concat (map slot_range (concat (map (\<lambda>(k, nd). node_slots st nd) es))) = concat (map (\<lambda>(k, nd). concat (map slot_range (node_slots st nd))) es)"
    for es :: "(bytes \<times> nat) list" by (induction es) auto
  have "map (\<lambda>(k, nd). concat (map slot_range (node_slots st nd))) ?z = map line_claims ms"
    using ready_nodes(2) [OF assms] by (intro nth_equalityI) (auto simp: line_slots_ranges)
  then show ?thesis unfolding f using mset_concat_map [OF ready_nodes(1) [OF assms]] by metis
qed

lemma ready_slots:
  assumes "table_ready n0 ms d st" "distinct (map line_addr ms)" "0 < n0" "\<forall>l \<in> set ms. line_ok l" "(k, nd) \<in> set (dict_walk d)"
  shows "\<exists>n. cc_heap st nd = Some n \<and> nd_role n = REDIS_ROLE_MASTER \<and> (\<forall>s \<in> set (node_slots st nd). slot_ok s)"
proof -
  have "(k, nd) \<in> set (zip (map line_addr ms) [n0..<n0 + length ms])" using assms(5) ready_nodes(1) [OF assms(1,2)] by (metis set_mset_mset)
  then obtain i where i: "i < length ms" "nd = n0 + i" by (auto simp: set_zip)
  have "\<forall>s \<in> set (line_slots (ms ! i) nd). slot_ok s"
    using assms(3,4) i nth_mem [OF i(1)] by (fastforce simp: line_slots_def slot_ok_def line_ok_def)
  then show ?thesis using assms(1) i ready_nodes(2) [OF assms(1,2) i(1)] by (auto simp: table_ready_def master_node_def line_node_def)
qed

lemma table_made:
  assumes "table_ready n0 ms d st" "distinct (map line_addr ms)" "0 < n0" "\<forall>l \<in> set ms. line_ok l"
  shows "if distinct (concat (map line_claims ms))
    then \<exists>a t. make_table d st = Some (Done (a, t), st) \<and> length t = REDIS_CLUSTER_SLOTS \<and>
      (\<forall>s < REDIS_CLUSTER_SLOTS. s \<notin> set (concat (map line_claims ms)) \<longrightarrow> t ! s = 0) \<and>
      (\<forall>i < length ms. \<forall>s \<in> set (line_claims (ms ! i)). t ! s = n0 + i)
    else make_table d st = fail_with ''Different node holds same slot'' st"
proof -
  define S where "S = concat (map (\<lambda>(k, nd). node_slots st nd) (dict_walk d))"
  let ?es = "dict_walk d" and ?ss = "sort_key cs_start S" and ?t = "replicate REDIS_CLUSTER_SLOTS (0 :: nat)"
  have mem: "cc_mem st = []" and inv: "dict_inv d" using assms(1) by (simp_all add: table_ready_def nodes_dict_def)
  have ok: "\<forall>(k, nd) \<in> set ?es. \<exists>n. cc_heap st nd = Some n \<and> nd_role n = REDIS_ROLE_MASTER \<and> (\<forall>s \<in> set (node_slots st nd). slot_ok s)"
    using ready_slots [OF assms] by blast
  have used: "?es = [] \<or> 0 < ht_used d" using dict_walk_entries [OF inv] inv by (auto simp: dict_inv_def)
  obtain a where a: "collect_slots ?es \<lparr>ar_elem = [], ar_nalloc = ht_used d\<rparr> st = Some (Done a, st)" "ar_elem a = S"
    using collect_slots_ok [OF ok, of "\<lparr>ar_elem = [], ar_nalloc = ht_used d\<rparr>"] used mem by (auto simp: S_def)
  have mt: "make_table d st = (case fill_table ?ss ?t of None \<Rightarrow> fail_with ''Different node holds same slot'' st
      | Some t \<Rightarrow> Some (Done (a\<lparr>ar_elem := ?ss\<rparr>, t), st))"
    unfolding a(2) [symmetric] using a(1) mem by (simp add: make_table_def arr_create_def Let_def)
  have ss_ok: "\<forall>s \<in> set ?ss. slot_ok s" using ok by (fastforce simp: S_def)
  have "mset (concat (map slot_range ?ss)) = mset (concat (map line_claims ms))"
    using mset_concat_map [of ?ss S slot_range] ready_claims [OF assms(1,2)] by (simp add: S_def)
  then have cl: "distinct (concat (map slot_range ?ss)) = distinct (concat (map line_claims ms))"
      "set (concat (map slot_range ?ss)) = set (concat (map line_claims ms))"
    by (metis mset_eq_imp_distinct_iff, metis mset_eq_setD)
  have bound: "k < REDIS_CLUSTER_SLOTS" if k: "k \<in> set (concat (map slot_range ?ss))" for k
  proof -
    obtain s where "s \<in> set ?ss" "k \<in> set (slot_range s)"
      using k by auto
    then show ?thesis using ss_ok by (fastforce simp: slot_range_def slot_ok_def)
  qed
  have zero: "\<forall>k \<in> set (concat (map slot_range ?ss)). ?t ! k = 0" using bound by simp
  note F = fill_table_spec [OF ss_ok, of ?t, simplified length_replicate]
  show ?thesis
  proof (cases "distinct (concat (map line_claims ms))")
    case False
    then have "fill_table ?ss ?t = None" using F cl(1) by auto
    then show ?thesis using mt False by simp
  next
    case True
    then have "distinct (concat (map slot_range ?ss)) \<and> (\<forall>k \<in> set (concat (map slot_range ?ss)). ?t ! k = 0)" using cl(1) zero by blast
    then obtain t where t: "fill_table ?ss ?t = Some t" "filled ?ss ?t t" using F by auto
    have "t ! s = 0" if s: "s < REDIS_CLUSTER_SLOTS" "s \<notin> set (concat (map line_claims ms))" for s
    proof -
      have "s \<notin> set (concat (map slot_range ?ss))" using s(2) cl(2) by simp
      then show ?thesis using t(2) s(1) by (auto simp: filled_def)
    qed
    moreover have "t ! s = n0 + i" if i: "i < length ms" "s \<in> set (line_claims (ms ! i))" for i s
    proof -
      obtain c where c: "c \<in> set (node_slots st (n0 + i))" "s \<in> set (slot_range c)" "cs_node c = n0 + i"
        using i line_slots_ranges [of "ms ! i" "n0 + i"] ready_nodes(2) [OF assms(1,2) i(1)] by (force simp: line_slots_def line_claims_def slot_range_def)
      have "(line_addr (ms ! i), n0 + i) \<in> set (zip (map line_addr ms) [n0..<n0 + length ms])" using i(1) by (force simp: set_zip)
      then have "(line_addr (ms ! i), n0 + i) \<in> set ?es" using ready_nodes(1) [OF assms(1,2)] by (metis set_mset_mset)
      then have "c \<in> set ?ss" using c(1) by (force simp: S_def)
      then show ?thesis using t(2) c(2,3) by (auto simp: filled_def)
    qed
    moreover have "length t = REDIS_CLUSTER_SLOTS" using t(2) by (simp add: filled_def)
    ultimately show ?thesis using mt t(1) True by auto
  qed
qed

text \<open>C22: The reply to \<open>CLUSTER NODES\<close> becomes the table of slots. When no slot is claimed twice by the
  lines of masters, every slot that a line claims leads to a node with the address, the host and the
  port of that line, and every other slot to no node; the lines of other nodes are passed over. When
  two ranges of masters share a slot, no table is made and the error says so. The addresses of the
  masters are different, the lines hold no open slots, slaves are not asked for, and memory is granted.\<close>

theorem cluster_nodes_table:
  assumes "\<forall>l \<in> set ls. line_ok l" "distinct (map line_addr (filter is_master ls))" "length ls < 2 ^ 31"
    and "cc_mem st = []" "willing (cc_smem st)" "\<not> cc_add_slave st" "0 < cc_next st"
  shows "\<exists>d st'. parse_cluster_nodes net (nodes_text ls) st = Some (Done d, st') \<and>
    (if distinct (concat (map line_claims (filter is_master ls)))
     then \<exists>a t. make_table d st' = Some (Done (a, t), st') \<and> length t = REDIS_CLUSTER_SLOTS \<and>
       (\<forall>s < REDIS_CLUSTER_SLOTS. s \<notin> set (concat (map line_claims (filter is_master ls))) \<longrightarrow> t ! s = 0) \<and>
       (\<forall>l \<in> set (filter is_master ls). \<forall>s \<in> set (line_claims l). \<exists>n. cc_heap st' (t ! s) = Some n \<and>
          nd_addr n = Some (line_addr l) \<and> nd_host n = Some (nl_host l) \<and> nd_port n = nl_port l)
     else make_table d st' = fail_with ''Different node holds same slot'' st')"
proof -
  let ?ms = "filter is_master ls"
  obtain d st' where p: "parse_cluster_nodes net (nodes_text ls) st = Some (Done d, st')" "table_ready (cc_next st) ?ms d st'"
    using nodes_parsed [OF assms(1-6)] by blast
  have "\<forall>l \<in> set ?ms. line_ok l" using assms(1) by simp
  note T = table_made [OF p(2) assms(2,7) this]
  have heap: "cc_heap st' (cc_next st + i) = Some (master_node (?ms ! i) (cc_next st + i))" if "i < length ?ms" for i
    using p(2) that by (simp add: table_ready_def)
  show ?thesis
  proof (cases "distinct (concat (map line_claims ?ms))")
    case False
    then show ?thesis using T p(1) by auto
  next
    case True
    then obtain a t where t: "make_table d st' = Some (Done (a, t), st')" "length t = REDIS_CLUSTER_SLOTS"
        "\<forall>s < REDIS_CLUSTER_SLOTS. s \<notin> set (concat (map line_claims ?ms)) \<longrightarrow> t ! s = 0"
        "\<forall>i < length ?ms. \<forall>s \<in> set (line_claims (?ms ! i)). t ! s = cc_next st + i" using T by auto
    have "\<exists>n. cc_heap st' (t ! s) = Some n \<and> nd_addr n = Some (line_addr l) \<and> nd_host n = Some (nl_host l) \<and> nd_port n = nl_port l"
      if l: "l \<in> set ?ms" "s \<in> set (line_claims l)" for l s
    proof -
      obtain i where "i < length ?ms" "?ms ! i = l" using l(1) by (metis in_set_conv_nth)
      then show ?thesis using t(4) heap [of i] l(2) by (auto simp: master_node_def line_node_def)
    qed
    then show ?thesis using p(1) t(1-3) True by (intro exI [of _ d] exI [of _ st']) auto
  qed
qed

definition demo_line :: "bytes \<Rightarrow> bytes \<Rightarrow> bytes \<Rightarrow> (nat \<times> nat) list \<Rightarrow> node_line" where
  "demo_line name host flags rs = \<lparr>nl_name = name, nl_host = host, nl_port = 6379, nl_cport = ''@16379'', nl_flags = flags,
     nl_words = [''-'', ''0'', ''0'', ''1'', ''connected''], nl_ranges = rs\<rparr>"

definition demo_lines :: "node_line list" where
  "demo_lines = [demo_line ''a'' ''10.0.0.1'' ''myself,master'' [(0, 2), (5, 5)], demo_line ''b'' ''10.0.0.2'' ''slave'' [],
     demo_line ''c'' ''10.0.0.3'' ''master'' [(3, 4)]]"

definition quiet_net :: "unit net" where
  "quiet_net = \<lparr>net_err = \<lambda>_ _. 0, net_errstr = \<lambda>_ _. [], net_connect = \<lambda>_ _ w. (0, w), net_reconnect = \<lambda>_ w. w,
     net_timeout = \<lambda>_ w. w, net_free = \<lambda>_ w. w, net_append = \<lambda>_ _ w. (False, w), net_block = \<lambda>_ w h. (0, w, h),
     net_command = \<lambda>_ _ w h. (0, w, h)\<rparr>"

definition quiet_context :: "unit cluster" where
  "quiet_context = redisClusterContextInit () \<lparr>hs_objs = Map.empty, hs_next = 1, hs_answers = [], hs_fault = False\<rparr>"

theorem cluster_nodes_table_witness:
  "\<exists>d st' a t n m. parse_cluster_nodes quiet_net (nodes_text demo_lines) quiet_context = Some (Done d, st') \<and>
     make_table d st' = Some (Done (a, t), st') \<and> t ! 9 = 0 \<and>
     cc_heap st' (t ! 5) = Some n \<and> nd_host n = Some ''10.0.0.1'' \<and> cc_heap st' (t ! 4) = Some m \<and> nd_host m = Some ''10.0.0.3''"
proof -
  let ?st = quiet_context
  let ?A = "demo_line ''a'' ''10.0.0.1'' ''myself,master'' [(0, 2), (5, 5)]" and ?C = "demo_line ''c'' ''10.0.0.3'' ''master'' [(3, 4)]"
  have dn: "length (dec_nat n) \<le> 10" if "n < 20000" for n using that by (intro dec_nat_small_length) simp
  have "\<forall>l \<in> set demo_lines. length (line_text l) < 100"
    using dn [of 6379] dn [of 0] dn [of 2] dn [of 3] dn [of 4] dn [of 5] by (simp add: demo_lines_def demo_line_def line_text_def line_words_def line_addr_def)
  then have tl: "length (line_text l) < 2 ^ 31" if "l \<in> set demo_lines" for l using that by fastforce
  have ok: "\<forall>l \<in> set demo_lines. line_ok l" using tl by (simp add: demo_lines_def demo_line_def line_ok_def REDIS_CLUSTER_SLOTS_def)
  have ms: "filter is_master demo_lines = [?A, ?C]" by code_simp
  have cl: "line_claims ?A = [0, 1, 2, 5]" "line_claims ?C = [3, 4]" by code_simp+
  have da: "distinct (map line_addr (filter is_master demo_lines))" unfolding ms by (simp add: line_addr_def demo_line_def)
  have st: "cc_mem ?st = []" "willing (cc_smem ?st)" "\<not> cc_add_slave ?st" "0 < cc_next ?st"
    by (simp_all add: quiet_context_def redisClusterContextInit_def willing_def)
  have len: "length demo_lines < 2 ^ 31" by (simp add: demo_lines_def)
  have di: "distinct (concat (map line_claims (filter is_master demo_lines)))" unfolding ms by (simp add: cl)
  obtain d st' a t where p: "parse_cluster_nodes quiet_net (nodes_text demo_lines) ?st = Some (Done d, st')" "make_table d st' = Some (Done (a, t), st')"
      and free: "\<forall>s < REDIS_CLUSTER_SLOTS. s \<notin> set (concat (map line_claims (filter is_master demo_lines))) \<longrightarrow> t ! s = 0"
      and led: "\<forall>l \<in> set (filter is_master demo_lines). \<forall>s \<in> set (line_claims l). \<exists>n. cc_heap st' (t ! s) = Some n \<and>
          nd_addr n = Some (line_addr l) \<and> nd_host n = Some (nl_host l) \<and> nd_port n = nl_port l"
    using cluster_nodes_table [OF ok da len st, of quiet_net] unfolding if_P [OF di] by blast
  have "t ! 9 = 0" using free unfolding ms by (simp add: cl REDIS_CLUSTER_SLOTS_def)
  moreover have "\<exists>n. cc_heap st' (t ! 5) = Some n \<and> nd_host n = Some (nl_host ?A)" "\<exists>n. cc_heap st' (t ! 4) = Some n \<and> nd_host n = Some (nl_host ?C)"
    using led unfolding ms by (simp_all add: cl) blast+
  ultimately show ?thesis using p(1,2) by (simp add: demo_line_def)
qed

end
