(* ===== verification/Spec2Isabelle.thy ===== *)
theory Spec2Isabelle
  imports Crc16 Dict Multipart HttpSplit HttpHeaders MysqlStream MysqlByteorder Msgqueue Adlist Hiarray ReplyRoundtrip RedisFormat RedisRoundtrip RedisDefined ClusterMget ClusterTable
begin

text \<open>
  This library models the C cores of the repository and proves them correct: the Redis client
  library under \<open>src/libredis/hiredis\<close>, the message queue, protocol parsers and utilities of the
  workflow engine under \<open>src/libnetwork/workflow/src/linux\<close>, and the multipart parser of
  \<open>src/libnetwork/workflow-http\<close>.

  \<^bold>\<open>How the parts interact.\<close> A Redis client formats commands with dynamic strings (\<open>sds.c\<close>,
  \<open>hiredis.c\<close>), places keys in the cluster by \<open>crc16.c\<close> and \<open>keyHashSlot\<close>, keeps its tables in
  \<open>dict.c\<close>, \<open>adlist.c\<close> and \<open>hiarray.c\<close>, and reads replies with the incremental reader of \<open>read.c\<close>,
  which builds objects through a table of constructors that \<open>hiredis.c\<close> provides. The cluster client
  (\<open>hircluster.c\<close>) joins them: it finds the keys of a command, splits it by slot, asks the node that
  its table names for each part, follows redirections and puts the replies together. The workflow
  engine hands work between threads over \<open>msgqueue.c\<close> and feeds what arrives on a connection, piece
  by piece, into \<open>http_parser.c\<close>, \<open>mysql_stream.c\<close>, \<open>redis_parser.c\<close> or \<open>multipart_parser.c\<close>.

  \<^bold>\<open>Conventions.\<close> A theory models one source file, with the names of the source. A structure is a
  record, an enumeration a datatype, a handler one definition over the whole handler. Undefined
  behaviour, an access outside a block and a failed assertion are the value \<open>None\<close>; an allocation
  that may fail consults a list of answers (\<open>alloc\<close> of \<open>Prelude\<close>, \<open>memory\<close> of \<open>Sds\<close>, the answers
  in the store of \<open>ReplyObjects\<close>), so that theorems quantify over all allocation failures. Integers
  have their width where it matters, either as words or as numbers with the wrap written out.
  Functions that the sources only call (\<open>strtod\<close>, the text that \<open>vsnprintf\<close> prints, the callbacks
  and hash functions of clients) are parameters. The connections of the cluster client are functions
  on an arbitrary state of the network (\<open>net\<close> of \<open>ClusterNodes\<close>), so that theorems quantify over all
  that nodes may answer; its assertions are compiled out, as by default.

  \<^bold>\<open>The theories.\<close>
  \<^item> \<open>Prelude\<close> and \<open>Resume\<close>: bytes, allocation, decimal numbers; the contract of a parser that can
    be resumed, as locales with the theorem that the pieces do not matter.
  \<^item> \<open>Crc16\<close>: \<open>crc16.c\<close> and \<open>keyHashSlot\<close> of \<open>hircluster.c\<close>. The table-driven checksum is
    polynomial division; the slot of a key with a hash tag is that of the tag.
  \<^item> \<open>Dict\<close>: \<open>dict.c\<close>. The chained hash table refines a map under all allocation failures and across
    growth; iteration gives every entry once.
  \<^item> \<open>Adlist\<close>: \<open>adlist.c\<close> on a heap of nodes. The operations refine those on lists.
  \<^item> \<open>Hiarray\<close>: \<open>hiarray.c\<close>, the array of fixed-size elements.
  \<^item> \<open>Sds\<close>, \<open>SdsText\<close>: \<open>sds.c\<close>. The strings with their five header types; growth, edits,
    comparison; then number formatting, \<open>sdscatfmt\<close>, splitting, joining, representation and
    argument splitting. The invariant is \<open>sds_ok\<close>, the abstraction \<open>content\<close>.
  \<^item> \<open>Reader\<close>, \<open>ReaderResume\<close>, \<open>ReaderPieces\<close>: \<open>read.c\<close>. The reader over an arbitrary table of
    constructors; the result does not depend on how the bytes arrive.
  \<^item> \<open>ReplyObjects\<close>, \<open>ReplyRoundtrip\<close>: the constructors of \<open>hiredis.c\<close> on a store of replies; every
    value of the protocol is read back from its wire form.
  \<^item> \<open>RedisFormat\<close>: the command formatters of \<open>hiredis.c\<close>. The length computed beforehand is exact
    and the bytes are the wire form of the arguments. This theory, the root, joins it with the
    reader.
  \<^item> \<open>Multipart\<close>: \<open>multipart_parser.c\<close>. The parser refines a byte-at-a-time tokenizer on
    every input that the tokenizer accepts, and reads back well-formed bodies.
  \<^item> \<open>HttpParser\<close>, \<open>HttpMessage\<close>, \<open>HttpSplit\<close>, \<open>HttpHeaders\<close>: \<open>http_parser.c\<close>. Start line, headers,
    chunked and counted bodies; cutting a message anywhere changes nothing and an accepted message
    takes exactly its own bytes; setting and finding headers is a case-insensitive map.
  \<^item> \<open>MysqlStream\<close>, \<open>MysqlByteorder\<close>: \<open>mysql_stream.c\<close> and \<open>mysql_byteorder.c\<close>. Packet reassembly and
    length-encoded integers and strings.
  \<^item> \<open>Msgqueue\<close>: \<open>msgqueue.c\<close> as a step relation over any number of threads, with mutexes and
    condition variables; the queue is first-in first-out in every reachable state.
  \<^item> \<open>RedisParser\<close>, \<open>RedisPieces\<close>, \<open>RedisRoundtrip\<close>, \<open>RedisHeap\<close>, \<open>RedisDefined\<close>: \<open>redis_parser.c\<close>, the parser of the
    workflow engine for replies and commands, on a store of replies. Every run ends within
    defined behaviour unless a length line is blank or 512 lines begin with \<open>*\<close>; then cutting a
    message changes nothing. Every value is read back; releasing the parser frees every reply exactly
    once, whichever allocations failed. The root shows that it understands what
    \<open>RedisFormat\<close> writes.
  \<^item> \<open>Command\<close>, \<open>CommandKeys\<close>: \<open>command.c\<close>, the table of commands of the cluster client and the scanner
    that finds the keys of a formatted command. The scan of any bytes ends and stays inside the
    command; on the wire form of a command it finds exactly the key arguments.
  \<^item> \<open>ClusterSplit\<close>, \<open>ClusterFragments\<close>: how \<open>hircluster.c\<close> prepares a command. A command with
    several keys becomes one command for each slot, in wire form, with the keys of the slot in
    their order.
  \<^item> \<open>ClusterReplies\<close>, \<open>ClusterNodes\<close>, \<open>ClusterRoute\<close>, \<open>ClusterUpdate\<close>: the rest of the synchronous client.
    Replies of fragments are joined; nodes are read from the replies to \<open>CLUSTER NODES\<close> and
    \<open>CLUSTER SLOTS\<close> and make the table of slots; connections are opened on demand.
  \<^item> \<open>ClusterTable\<close>: the table that the reply to \<open>CLUSTER NODES\<close> makes: each slot leads to the master
    that claims it, and no table is made when a slot is claimed twice.
  \<^item> \<open>ClusterExecute\<close>, \<open>ClusterMget\<close>: \<open>redis_cluster_command_execute\<close> and
    \<open>redisClusterFormattedCommand\<close>. Every execution ends, whatever the nodes answer; an \<open>MGET\<close> over
    many nodes gives the values that one node would, and the fragments are released.

  \<^bold>\<open>Bounds and fuel.\<close> The walks along the linked nodes of \<open>Adlist\<close> carry fuel \<open>Suc (al_len l)\<close>, one
  more than the nodes of a well-formed list. Releasing a reply carries the number of objects ever
  allocated plus one, more than the depth of any tree of objects. Strings are below \<open>2 ^ 63\<close> bytes
  (the size arithmetic of \<open>sds.c\<close> is on 64 bits) and below \<open>2 ^ 31\<close> where the source counts in
  \<open>int\<close> (\<open>sdscatfmt\<close>, the command formatters, the reader). All other loops are total functions with
  a termination proof.
  The loops of \<open>RedisParser\<close> are partial functions, for the source gives no bound. Every turn
  takes a byte, so they end; they have no result only where a step is undefined, and \<open>RedisDefined\<close>
  shows the bytes for which none is. Its release carries the number of replies ever
  allocated plus one.

  \<^bold>\<open>Not modelled.\<close> Sockets, TLS, timers and epoll (\<open>net.c\<close>, \<open>async.c\<close>, \<open>ssl.c\<close>, \<open>poller.c\<close>), which are
  system calls; the pipelined and the asynchronous interface of the cluster client, which repeat the
  synchronous one over queues and callbacks of live connections; the
  DNS and Kafka formats and the interpretation of MySQL results; the C++ classes over these parts
  and the Windows copies of the same sources.
\<close>

section \<open>Commands and the reply reader\<close>

lemma command_is_value: "command_bytes args = encode (V_seq REDIS_REPLY_ARRAY (map V_string args))"
proof -
  have "encode \<circ> V_string = bulk_bytes" by (rule ext) (simp add: bulk_bytes_def)
  then show ?thesis unfolding command_bytes_def by (simp add: type_byte_def)
qed

text \<open>C7: What the client writes is what a reader of the protocol reads: the command formatted from a
  format string, cut into any pieces, is read back as the array of exactly its arguments.\<close>

theorem command_read_back:
  assumes "items pf (c_str format) ap = Some its" "length (command_bytes (words None its)) + 1 < 2 ^ 31" "willing m" "all_ok h"
    and "concat ps = command_bytes (words None its)" "[] \<notin> set ps"
  shows "\<exists>cmd m1 r m' h' a h1. redisvFormatCommand pf True format ap m = Some (int (length (concat ps)), Some cmd, m1) \<and>
    take (length (concat ps)) cmd = concat ps \<and> redisReaderCreate std m h = Some (Some r, m', h') \<and>
    read_pieces (default_env std) r ps m' h' = Reply a h1 \<and>
    represents std (hs_objs h1) a (V_seq REDIS_REPLY_ARRAY (map V_string (words None its)))"
proof -
  let ?v = "V_seq REDIS_REPLY_ARRAY (map V_string (words None its))"
  obtain m1 where f: "redisvFormatCommand pf True format ap m =
      Some (int (length (concat ps)), Some (concat ps @ [NUL]), m1)"
    using vformat_ok [OF assms(1-3)] assms(5) by auto
  obtain r m' h' where r: "redisReaderCreate std m h = Some (Some r, m', h')" "willing m'" "all_ok h'" "ready r []" "rd_pos r = 0"
    using create_ready [OF assms(3,4)] by blast
  have v: "val_ok std ?v" by (simp add: is_container_def list_all_iff)
  have ps: "concat ps = encode ?v" using assms(5) by (simp only: command_is_value)
  have "ps \<noteq> []" using ps encode_not_Nil [of ?v] by auto
  then obtain a h1 where "read_pieces (default_env std) r ps m' h' = Reply a h1" "represents std (hs_objs h1) a ?v"
    using read_value [OF r(4,3) v r(2), of ps "[]" "[]"] ps assms(2,5,6) r(5) by auto
  with f r(1) show ?thesis by auto
qed

theorem command_read_back_witness:
  "\<exists>cmd m1 r m' h' a h1. redisvFormatCommand (\<lambda>_ _. []) True (''GET %s'' @ [NUL]) [VA_str (''a b'' @ [NUL])] [] = Some (22, Some cmd, m1) \<and>
    redisReaderCreate (\<lambda>_. (0, 0)) [] demo_store = Some (Some r, m', h') \<and>
    read_pieces (default_env (\<lambda>_. (0, 0))) r [''*2'', CRLF @ ''$3'' @ CRLF @ ''GET'' @ CRLF @ ''$3'' @ CRLF @ ''a'', '' b'' @ CRLF] m' h' = Reply a h1 \<and>
    represents (\<lambda>_. (0, 0)) (hs_objs h1) a (V_seq REDIS_REPLY_ARRAY [V_string ''GET'', V_string ''a b''])"
proof -
  let ?ps = "[''*2'', CRLF @ ''$3'' @ CRLF @ ''GET'' @ CRLF @ ''$3'' @ CRLF @ ''a'', '' b'' @ CRLF]"
  have "map_option (words None) (items (\<lambda>_ _. []) (c_str (''GET %s'' @ [NUL])) [VA_str (''a b'' @ [NUL])]) = Some [''GET'', ''a b'']" by code_simp
  then obtain its where its: "items (\<lambda>_ _. []) (c_str (''GET %s'' @ [NUL])) [VA_str (''a b'' @ [NUL])] = Some its"
      "words None its = [''GET'', ''a b'']" by (simp only: map_option_eq_Some) blast
  have c: "concat ?ps = command_bytes [''GET'', ''a b'']" by code_simp
  have n: "length (concat ?ps) = 22" by simp
  have l: "length (command_bytes [''GET'', ''a b'']) + 1 < 2 ^ 31" unfolding c [symmetric] n by simp
  have h: "willing []" "all_ok demo_store" "[] \<notin> set ?ps" by (simp_all add: willing_def demo_store_def all_ok_def)
  from command_read_back [OF its(1), unfolded its(2), OF l h(1,2) c h(3), of "\<lambda>_. (0, 0)"] show ?thesis
    unfolding n by (simp only: list.map of_nat_numeral) blast
qed

section \<open>Commands and the parser of a server\<close>

text \<open>C17: What the client library writes is what the Redis parser of the workflow engine, as a server,
  understands: the command formatted from a format string, followed by anything, completes the
  parser at its last byte, with the array of exactly its arguments as the reply in memory.\<close>

theorem command_served:
  assumes "items pf (c_str format) ap = Some its" "length (command_bytes (words None its) @ rest) + 1 < 2 ^ 31" "willing m"
    and "int (length (words None its)) \<le> REDIS_ARRAY_SIZE_LIMIT"
  shows "\<exists>n cmd m1 P. redisvFormatCommand pf True format ap m = Some (int n, Some cmd, m1) \<and>
    feed (take n cmd @ rest) (redis_parser_init []) = Some (Complete rest P) \<and>
    reply_is True (received P) (rp_mem (rp_st P)) 0 (V_seq REDIS_REPLY_ARRAY (map V_string (words None its)))"
proof -
  let ?args = "words None its"
  let ?v = "V_seq REDIS_REPLY_ARRAY (map V_string ?args)"
  obtain m1 where f: "redisvFormatCommand pf True format ap m =
      Some (int (length (command_bytes ?args)), Some (command_bytes ?args @ [NUL]), m1)"
    using vformat_ok [OF assms(1) _ assms(3)] assms(2) by auto
  have "fold max (map vdepth (map V_string ?args)) 0 \<le> Suc 0" by (subst fold_max_le) simp
  then have "resp2 ?v" "vdepth ?v \<le> REDIS_REPLY_DEPTH_LIMIT"
    using assms(4) by (simp_all add: list_all_iff REDIS_REPLY_DEPTH_LIMIT_def)
  moreover have "length (encode ?v @ rest) < 2 ^ 31"
    using assms(2) unfolding command_is_value by simp
  ultimately obtain P where "feed (encode ?v @ rest) (redis_parser_init []) = Some (Complete rest P)"
      "reply_is True (received P) (rp_mem (rp_st P)) 0 ?v"
    using feed_value [of ?v rest] by blast
  then have "feed (take (length (command_bytes ?args)) (command_bytes ?args @ [NUL]) @ rest) (redis_parser_init []) = Some (Complete rest P)"
    by (simp add: command_is_value)
  with f \<open>reply_is True _ _ 0 ?v\<close> show ?thesis by blast
qed

theorem command_served_witness:
  "\<exists>n cmd m1 P. redisvFormatCommand (\<lambda>_ _. []) True (''GET %s'' @ [NUL]) [VA_str (''a b'' @ [NUL])] [] = Some (int n, Some cmd, m1) \<and>
    feed (take n cmd @ ''*1'') (redis_parser_init []) = Some (Complete ''*1'' P) \<and>
    reply_is True (received P) (rp_mem (rp_st P)) 0 (V_seq REDIS_REPLY_ARRAY [V_string ''GET'', V_string ''a b''])"
proof -
  have "map_option (words None) (items (\<lambda>_ _. []) (c_str (''GET %s'' @ [NUL])) [VA_str (''a b'' @ [NUL])]) = Some [''GET'', ''a b'']" by code_simp
  then obtain its where its: "items (\<lambda>_ _. []) (c_str (''GET %s'' @ [NUL])) [VA_str (''a b'' @ [NUL])] = Some its"
      "words None its = [''GET'', ''a b'']" by (simp only: map_option_eq_Some) blast
  have "command_bytes [''GET'', ''a b''] = ''*2'' @ CRLF @ ''$3'' @ CRLF @ ''GET'' @ CRLF @ ''$3'' @ CRLF @ ''a b'' @ CRLF" by code_simp
  then have l: "length (command_bytes [''GET'', ''a b''] @ ''*1'') + 1 < 2 ^ 31" by simp
  have "willing []" "int (length [''GET'', ''a b'']) \<le> REDIS_ARRAY_SIZE_LIMIT" by (simp_all add: willing_def REDIS_ARRAY_SIZE_LIMIT_def)
  from command_served [OF its(1), unfolded its(2), OF l this] show ?thesis by simp
qed

end
